(* ===== verification/Prelude.thy ===== *)
theory Prelude
  imports Main "HOL-Library.Word" "HOL-Library.Char_ord" "HOL-Library.List_Lexorder"
    "HOL-Library.Sublist"
begin

text \<open>
  Shared vocabulary of the development: byte strings, little-endian integers as \<open>memcpy\<close>
  lays them out on the supported hosts, the ordered maps that stand for \<open>std::map\<close> and
  \<open>std::set\<close>, decimal printing and parsing, and the fact collections that carry the
  component proofs.
\<close>

named_theorems om_simps "rewrite rules of the ordered maps"
named_theorems om_intros "well-formedness rules of the ordered maps"
named_theorems le_simps "rewrite rules of the little-endian codecs"

section \<open>Bytes and strings\<close>

type_synonym u8 = "8 word"
type_synonym u16 = "16 word"
type_synonym u32 = "32 word"
type_synonym u64 = "64 word"
type_synonym bytes = "u8 list"

text \<open>\<open>std::string\<close> is a list of \<open>char\<close>, which in HOL is a byte; the casts between
  \<open>std::string\<close> and \<open>std::vector<uint8_t>\<close> are the functions below.\<close>

lemma unat_lt2p: "unat (w :: 'a::len word) < 2 ^ LENGTH('a)"
  by (rule unsigned_less)

lemma unat_of_nat_eq: "n < 2 ^ LENGTH('a) \<Longrightarrow> unat (of_nat n :: 'a::len word) = n"
  by (simp add: unsigned_of_nat take_bit_nat_eq_self)

definition byte_of_char :: "char \<Rightarrow> u8" where
  "byte_of_char c = of_nat (of_char c)"

definition char_of_byte :: "u8 \<Rightarrow> char" where
  "char_of_byte w = char_of (unat w)"

definition bytes_of :: "string \<Rightarrow> bytes" where
  "bytes_of s = map byte_of_char s"

definition string_of :: "bytes \<Rightarrow> string" where
  "string_of b = map char_of_byte b"

lemma char_of_byte_of_char [simp]: "char_of_byte (byte_of_char c) = c"
proof -
  have "(of_char c :: nat) < 2 ^ LENGTH(8)"
    using nat_of_char_less_256 [of c] by simp
  then have "unat (of_nat (of_char c) :: u8) = of_char c"
    by (rule unat_of_nat_eq)
  then show ?thesis by (simp add: char_of_byte_def byte_of_char_def)
qed

lemma byte_of_char_of_byte [simp]: "byte_of_char (char_of_byte w) = w"
proof -
  have "unat w < 256" using unat_lt2p [of w] by simp
  then have "(of_char (char_of (unat w) :: char) :: nat) = unat w" by simp
  then show ?thesis by (simp add: byte_of_char_def char_of_byte_def)
qed

lemma string_of_bytes_of [simp]: "string_of (bytes_of s) = s"
  by (simp add: string_of_def bytes_of_def comp_def)

lemma bytes_of_string_of [simp]: "bytes_of (string_of b) = b"
  by (simp add: string_of_def bytes_of_def comp_def)

lemma length_bytes_of [simp]: "length (bytes_of s) = length s"
  by (simp add: bytes_of_def)

lemma length_string_of [simp]: "length (string_of b) = length b"
  by (simp add: string_of_def)

lemma bytes_of_append [simp]: "bytes_of (s @ t) = bytes_of s @ bytes_of t"
  by (simp add: bytes_of_def)

lemma string_of_append [simp]: "string_of (b @ c) = string_of b @ string_of c"
  by (simp add: string_of_def)

lemma bytes_of_inject [simp]: "bytes_of s = bytes_of t \<longleftrightarrow> s = t"
  by (metis string_of_bytes_of)

section \<open>Little-endian integers\<close>

primrec le_bytes :: "nat \<Rightarrow> nat \<Rightarrow> bytes" where
  "le_bytes 0 x = []"
| "le_bytes (Suc n) x = of_nat (x mod 256) # le_bytes n (x div 256)"

primrec le_val :: "bytes \<Rightarrow> nat" where
  "le_val [] = 0"
| "le_val (b # bs) = unat b + 256 * le_val bs"

lemma length_le_bytes [simp, le_simps]: "length (le_bytes n x) = n"
  by (induction n arbitrary: x) simp_all

lemma unat_of_nat_mod_256: "unat (of_nat (x mod 256) :: u8) = x mod 256"
  by (rule unat_of_nat_eq) simp

lemma le_val_le_bytes [le_simps]: "le_val (le_bytes n x) = x mod 256 ^ n"
proof (induction n arbitrary: x)
  case (Suc n)
  have "x mod 256 ^ Suc n = 256 * (x div 256 mod 256 ^ n) + x mod 256"
    by (simp add: mod_mult2_eq)
  with Suc show ?case by (simp add: unat_of_nat_mod_256)
qed simp

lemma le_val_bound: "le_val bs < 256 ^ length bs"
proof (induction bs)
  case (Cons b bs)
  have "unat b < 256" using unat_lt2p [of b] by simp
  moreover have "256 * le_val bs + 256 \<le> 256 * 256 ^ length bs"
    using Cons.IH by simp
  ultimately show ?case by simp
qed simp

lemma le_bytes_le_val [le_simps]: "length bs = n \<Longrightarrow> le_bytes n (le_val bs) = bs"
proof (induction bs arbitrary: n)
  case (Cons b bs)
  have "unat b < 256" using unat_lt2p [of b] by simp
  then have "(unat b + 256 * le_val bs) mod 256 = unat b"
    and "(unat b + 256 * le_val bs) div 256 = le_val bs" by simp_all
  with Cons show ?case by auto
qed simp

definition enc16 :: "u16 \<Rightarrow> bytes" where "enc16 w = le_bytes 2 (unat w)"
definition enc32 :: "u32 \<Rightarrow> bytes" where "enc32 w = le_bytes 4 (unat w)"
definition enc64 :: "u64 \<Rightarrow> bytes" where "enc64 w = le_bytes 8 (unat w)"
definition dec16 :: "bytes \<Rightarrow> u16" where "dec16 bs = of_nat (le_val bs)"
definition dec32 :: "bytes \<Rightarrow> u32" where "dec32 bs = of_nat (le_val bs)"
definition dec64 :: "bytes \<Rightarrow> u64" where "dec64 bs = of_nat (le_val bs)"

lemma length_enc [simp]: "length (enc16 a) = 2" "length (enc32 b) = 4" "length (enc64 c) = 8"
  by (simp_all add: enc16_def enc32_def enc64_def)

lemma dec_enc [simp]: "dec16 (enc16 a) = a" "dec32 (enc32 b) = b" "dec64 (enc64 c) = c"
  using unat_lt2p [of a] unat_lt2p [of b] unat_lt2p [of c]
  by (simp_all add: dec16_def enc16_def dec32_def enc32_def dec64_def enc64_def le_simps)

lemma dec64_inj: "length a = 8 \<Longrightarrow> length b = 8 \<Longrightarrow> dec64 a = dec64 b \<Longrightarrow> a = b"
proof -
  assume l: "length a = 8" "length b = 8" and e: "dec64 a = dec64 b"
  have "unat (dec64 x) = le_val x" if "length x = 8" for x
    using le_val_bound [of x] that unfolding dec64_def by (subst unat_of_nat_eq) simp_all
  with l e have "le_val a = le_val b" by metis
  with l show "a = b" by (metis le_bytes_le_val)
qed

section \<open>Ordered maps\<close>

text \<open>
  A \<open>std::map\<close> is the list of its pairs in ascending key order, so that iterating over
  the map is iterating over the list; \<open>std::set\<close> is the sorted list of its elements.
  String keys compare as unsigned bytes, as \<open>std::string\<close> does.
\<close>

type_synonym ('k, 'v) omap = "('k \<times> 'v) list"

definition om_wf :: "('k::linorder, 'v) omap \<Rightarrow> bool" where
  "om_wf m \<longleftrightarrow> sorted_wrt (<) (map fst m)"

fun om_put :: "'k::linorder \<Rightarrow> 'v \<Rightarrow> ('k, 'v) omap \<Rightarrow> ('k, 'v) omap" where
  "om_put k v [] = [(k, v)]"
| "om_put k v ((k', v') # m) =
     (if k < k' then (k, v) # (k', v') # m
      else if k = k' then (k, v) # m
      else (k', v') # om_put k v m)"

definition om_del :: "'k \<Rightarrow> ('k, 'v) omap \<Rightarrow> ('k, 'v) omap" where
  "om_del k m = filter (\<lambda>p. fst p \<noteq> k) m"

text \<open>\<open>for (auto& [k, v] : d) m[k] = v;\<close>\<close>

definition om_put_all :: "('k::linorder, 'v) omap \<Rightarrow> ('k, 'v) omap \<Rightarrow> ('k, 'v) omap" where
  "om_put_all d m = fold (\<lambda>p. om_put (fst p) (snd p)) d m"

abbreviation om_has :: "'k \<Rightarrow> ('k, 'v) omap \<Rightarrow> bool" where
  "om_has k m \<equiv> k \<in> fst ` set m"

lemma map_of_om_put [om_simps]: "map_of (om_put k v m) = (map_of m)(k \<mapsto> v)"
  by (induction k v m rule: om_put.induct) (auto simp: fun_eq_iff)

lemma map_of_om_del [om_simps]: "map_of (om_del k m) = (map_of m)(k := None)"
  by (induction m) (auto simp: om_del_def fun_eq_iff)

lemma keys_om_put [om_simps]: "fst ` set (om_put k v m) = insert k (fst ` set m)"
  by (induction k v m rule: om_put.induct) auto

lemma keys_om_del [om_simps]: "fst ` set (om_del k m) = fst ` set m - {k}"
  by (auto simp: om_del_def)

lemma map_of_om_put_all: "map_of (om_put_all d m) = map_of m ++ map_of (rev d)"
  unfolding om_put_all_def
  by (induction d arbitrary: m) (auto simp: om_simps map_add_def fun_eq_iff split: option.splits)

lemma om_wf_Nil [simp, om_intros]: "om_wf []"
  by (simp add: om_wf_def)

lemma om_wf_Cons: "om_wf ((k, v) # m) \<longleftrightarrow> (\<forall>k' \<in> fst ` set m. k < k') \<and> om_wf m"
  by (auto simp: om_wf_def)

lemma om_wf_put [om_intros]: "om_wf m \<Longrightarrow> om_wf (om_put k v m)"
  by (induction k v m rule: om_put.induct) (auto simp: om_wf_Cons om_simps)

lemma om_wf_filter [om_intros]: "om_wf m \<Longrightarrow> om_wf (filter P m)"
  by (induction m) (auto simp: om_wf_Cons)

lemma om_wf_del [om_intros]: "om_wf m \<Longrightarrow> om_wf (om_del k m)"
  by (simp add: om_del_def om_wf_filter)

lemma om_wf_put_all [om_intros]: "om_wf m \<Longrightarrow> om_wf (om_put_all d m)"
  unfolding om_put_all_def by (induction d arbitrary: m) (auto intro: om_intros)

lemma om_wf_distinct: "om_wf m \<Longrightarrow> distinct (map fst m)"
  by (simp add: om_wf_def strict_sorted_iff)

lemma map_of_rev_wf: "om_wf m \<Longrightarrow> map_of (rev m) = map_of m"
  using om_wf_distinct [of m]
  by (intro map_of_eqI; simp add: rev_map [symmetric])
     (metis distinct_rev map_of_is_SomeI map_of_eq_None_iff map_of_eq_Some_iff not_Some_eq
        rev_map set_rev)

lemma om_get_iff: "om_wf m \<Longrightarrow> map_of m k = Some v \<longleftrightarrow> (k, v) \<in> set m"
  by (rule map_of_eq_Some_iff) (rule om_wf_distinct)

lemma om_put_all_get:
  "om_wf d \<Longrightarrow> map_of (om_put_all d m) = map_of m ++ map_of d"
  by (simp add: map_of_om_put_all map_of_rev_wf)

lemma om_eqI:
  assumes "om_wf m" "om_wf m'" "map_of m = map_of m'"
  shows "m = m'"
proof (rule map_sorted_distinct_set_unique [where f = fst])
  show "set m = set m'"
    using assms by (auto simp: om_get_iff [symmetric])
  show "inj_on fst (set m \<union> set m')"
    using assms by (auto simp: inj_on_def om_get_iff [symmetric] \<open>set m = set m'\<close> [symmetric])
qed (use assms in \<open>auto simp: om_wf_def strict_sorted_iff\<close>)

lemma om_not_has: "\<not> om_has k m \<longleftrightarrow> map_of m k = None"
  by (simp add: map_of_eq_None_iff)

section \<open>Reads from a buffer\<close>

text \<open>
  \<open>memcpy(&x, body.data() + pos, n)\<close> reads inside the vector or has undefined behaviour,
  which is \<open>None\<close> here.
\<close>

definition rd :: "nat \<Rightarrow> nat \<Rightarrow> bytes \<Rightarrow> bytes option" where
  "rd n pos body = (if pos + n \<le> length body then Some (take n (drop pos body)) else None)"

lemma rd_append_left [le_simps]:
  "length b = n \<Longrightarrow> length a = pos \<Longrightarrow> rd n pos (a @ b @ c) = Some b"
  by (simp add: rd_def)

lemma rd_Some_length: "rd n pos body = Some b \<Longrightarrow> length b = n"
  by (auto simp: rd_def split: if_splits)

lemma rd_eq_Some: "pos + n \<le> length body \<Longrightarrow> rd n pos body = Some (take n (drop pos body))"
  by (simp add: rd_def)

section \<open>Decimal numbers\<close>

definition digit_char :: "nat \<Rightarrow> char" where
  "digit_char n = char_of (48 + n)"

fun nat_digits :: "nat \<Rightarrow> string" where
  "nat_digits n = (if n < 10 then [digit_char n] else nat_digits (n div 10) @ [digit_char (n mod 10)])"

declare nat_digits.simps [simp del]

definition is_digit :: "char \<Rightarrow> bool" where
  "is_digit c \<longleftrightarrow> 48 \<le> (of_char c :: nat) \<and> (of_char c :: nat) \<le> 57"

definition digits_val :: "string \<Rightarrow> nat" where
  "digits_val s = foldl (\<lambda>acc c. 10 * acc + (of_char c - 48)) 0 s"

lemma of_char_digit_char: "n < 10 \<Longrightarrow> (of_char (digit_char n) :: nat) = 48 + n"
  by (simp add: digit_char_def)

lemma digits_val_snoc: "digits_val (s @ [c]) = 10 * digits_val s + (of_char c - 48)"
  by (simp add: digits_val_def)

lemma digits_val_nat_digits [simp]: "digits_val (nat_digits n) = n"
proof (induction n rule: nat_digits.induct)
  case (1 n)
  show ?case
  proof (cases "n < 10")
    case True
    then show ?thesis
      by (simp add: nat_digits.simps [of n] digits_val_def of_char_digit_char)
  next
    case False
    with 1 show ?thesis
      by (simp add: nat_digits.simps [of n] digits_val_snoc of_char_digit_char)
  qed
qed

lemma nat_digits_digits: "list_all is_digit (nat_digits n)"
proof (induction n rule: nat_digits.induct)
  case (1 n)
  have "n mod 10 \<le> 9" by presburger
  with 1 show ?case
    by (simp add: nat_digits.simps [of n] is_digit_def of_char_digit_char)
qed

lemma nat_digits_nonempty [simp]: "nat_digits n \<noteq> []"
  by (subst nat_digits.simps) simp

lemma word_less_succ: "x \<noteq> - 1 \<Longrightarrow> x < x + (1 :: 'a::len word)"
proof -
  assume "x \<noteq> - 1"
  then have "unat (x + 1) \<noteq> 0" using max_word_wrap [of x] by (auto simp: unsigned_eq_0_iff)
  moreover have "unat (x + 1) = (unat x + 1) mod 2 ^ LENGTH('a)" by (simp add: unat_word_ariths)
  ultimately have "unat (x + 1) = unat x + 1"
    using unat_lt2p [of x] by (metis Suc_eq_plus1 Suc_lessI mod_less mod_self)
  then show "x < x + 1" by (simp add: word_less_nat_alt)
qed

end
