(* ===== verification/BranchRouter.thy ===== *)
theory BranchRouter
  imports Prelude
begin

text \<open>
  \<open>branch_router.h\<close> and \<open>branch_router.cpp\<close>: which branch a process sees. Control groups are
  registered for branches by the inode of their directory; a process belongs to the branch of
  the nearest registered directory at or above its control group, the root of the hierarchy
  excepted (the walk stops before it). The router keeps a memo per
  control group and, while the kernel's fence of \<open>routing_fence.cpp\<close> is attached, a cache per
  process. \<open>resolve\<close> is the request of one thread; \<open>resolve_step\<close> splits it at its
  lock sections and at its reads of the kernel's state, so that other operations can come in
  between. The theory \<open>RouterProps\<close> shows that the two caches are never seen.
\<close>

section \<open>The kernel\<close>

type_synonym pid = "32 word"

text \<open>\<open>routing_fence.bpf.c\<close>: the counter and the map of tracked processes, 4096 slots.\<close>

record fence =
  fn_generation :: u64
  fn_tracked :: "pid list"

definition kTrackedCap :: nat where "kTrackedCap = 4096"

definition on_cgroup_attach :: "fence \<Rightarrow> fence" where
  "on_cgroup_attach f = f\<lparr>fn_generation := fn_generation f + 1\<rparr>"

text \<open>The argument is the process id in the daemon's namespace, if it has one there.\<close>

definition on_process_exit :: "pid option \<Rightarrow> fence \<Rightarrow> fence" where
  "on_process_exit nspid f = (case nspid of None \<Rightarrow> f
     | Some p \<Rightarrow> if p \<in> set (fn_tracked f)
         then f\<lparr>fn_generation := fn_generation f + 1, fn_tracked := filter (\<lambda>q. q \<noteq> p) (fn_tracked f)\<rparr>
         else f)"

text \<open>\<open>bpf_map_update_elem(..., BPF_ANY)\<close> fails for a new key when the map is full.\<close>

definition fence_track :: "pid \<Rightarrow> fence \<Rightarrow> bool \<times> fence" where
  "fence_track p f =
     (if p \<in> set (fn_tracked f) then (True, f)
      else if length (fn_tracked f) < kTrackedCap then (True, f\<lparr>fn_tracked := p # fn_tracked f\<rparr>)
      else (False, f))"

text \<open>
  What the router reads: the first 4095 bytes of \<open>/proc/<pid>/cgroup\<close>, \<open>None\<close> when the file cannot
  be opened or read, and \<open>stat\<close> of a path, whether it is a directory and its inode.
\<close>

record kernel =
  k_files :: "pid \<Rightarrow> string option"
  k_stat :: "string \<Rightarrow> (bool \<times> u64) option"
  k_fence :: fence

definition cgroup_id_from_path :: "(string \<Rightarrow> (bool \<times> u64) option) \<Rightarrow> string \<Rightarrow> u64" where
  "cgroup_id_from_path st path =
     (case st path of None \<Rightarrow> 0 | Some (is_dir, ino) \<Rightarrow> if is_dir then ino else 0)"

text \<open>The scan stops at the end of the string, which is the first NUL of the buffer.\<close>

definition skip_line :: "string \<Rightarrow> string" where
  "skip_line s = drop 1 (dropWhile (\<lambda>c. c \<noteq> CHR 0x0A) s)"

lemma length_skip_line [simp]: "s \<noteq> [] \<Longrightarrow> length (skip_line s) < length s"
  using length_dropWhile_le [of "\<lambda>c. c \<noteq> CHR 0x0A" s] by (cases s) (auto simp: skip_line_def)

function scan_cgroup :: "string \<Rightarrow> string" where
  "scan_cgroup s = (if s = [] then []
     else if take 3 s = ''0::'' then takeWhile (\<lambda>c. c \<noteq> CHR 0x0A) (drop 3 s)
     else scan_cgroup (skip_line s))"
  by pat_completeness auto
termination by (relation "measure length") (simp_all add: length_skip_line)

declare scan_cgroup.simps [simp del]

definition read_proc_cgroup :: "string option \<Rightarrow> string" where
  "read_proc_cgroup file = (case file of None \<Rightarrow> []
     | Some buf \<Rightarrow> scan_cgroup (takeWhile (\<lambda>c. c \<noteq> CHR 0x00) buf))"

section \<open>The router\<close>

record path_entry =
  pe_leaf :: u64
  pe_branch :: u32

record fence_entry =
  fe_branch :: u32
  fe_generation :: u64

text \<open>The hooks for the directory's id and the membership replace the reads of the kernel.\<close>

record router =
  br_map :: "(u64, u32) omap"
  br_paths :: "(string, path_entry) omap"
  br_fences :: "(pid, fence_entry) omap"
  br_generation :: u64
  br_revalidate :: bool
  br_fence_on :: bool
  br_cgroup_hook :: "(string \<Rightarrow> u64) option"
  br_read_hook :: "(pid \<Rightarrow> string) option"

definition new_router :: router where
  "new_router = \<lparr>br_map = [], br_paths = [], br_fences = [], br_generation = 0, br_revalidate = True,
     br_fence_on = False, br_cgroup_hook = None, br_read_hook = None\<rparr>"

definition kPathCacheCap :: nat where "kPathCacheCap = 1024"
definition kFenceCacheCap :: nat where "kFenceCacheCap = 4096"

definition attach_fence :: "router \<Rightarrow> router" where
  "attach_fence r = r\<lparr>br_fence_on := True\<rparr>"

definition fence_cache_store :: "pid \<Rightarrow> u32 \<Rightarrow> u64 \<Rightarrow> router \<Rightarrow> router" where
  "fence_cache_store p b gen r =
     (let m = (if kFenceCacheCap \<le> length (br_fences r) then [] else br_fences r)
      in r\<lparr>br_fences := om_put p \<lparr>fe_branch = b, fe_generation = gen\<rparr> m\<rparr>)"

definition cgroup_id :: "router \<Rightarrow> kernel \<Rightarrow> string \<Rightarrow> u64" where
  "cgroup_id r k path =
     (case br_cgroup_hook r of Some f \<Rightarrow> f path | None \<Rightarrow> cgroup_id_from_path (k_stat k) path)"

definition proc_cgroup :: "router \<Rightarrow> kernel \<Rightarrow> pid \<Rightarrow> string" where
  "proc_cgroup r k p =
     (case br_read_hook r of Some f \<Rightarrow> f p | None \<Rightarrow> read_proc_cgroup (k_files k p))"

text \<open>The caches are cleared together with every change of the registrations.\<close>

definition drop_caches :: "router \<Rightarrow> router" where
  "drop_caches r = r\<lparr>br_paths := [], br_fences := []\<rparr>"

definition register_cgroup :: "kernel \<Rightarrow> string \<Rightarrow> u32 \<Rightarrow> router \<Rightarrow> bool \<times> router" where
  "register_cgroup k path b r =
     (let cg = cgroup_id r k path
      in if cg = 0 then (False, r)
         else (True, drop_caches (r\<lparr>br_map := om_put cg b (br_map r), br_generation := br_generation r + 1\<rparr>)))"

definition unregister_cgroup :: "kernel \<Rightarrow> string \<Rightarrow> router \<Rightarrow> bool \<times> router" where
  "unregister_cgroup k path r =
     (let cg = cgroup_id r k path
      in if cg = 0 then (False, r)
         else let erased = om_has cg (br_map r)
              in (erased, drop_caches (r\<lparr>br_map := om_del cg (br_map r),
                   br_generation := (if erased then br_generation r + 1 else br_generation r)\<rparr>)))"

definition evict_cgroup_id :: "u64 \<Rightarrow> router \<Rightarrow> router" where
  "evict_cgroup_id cg r =
     drop_caches (r\<lparr>br_map := om_del cg (br_map r), br_generation := br_generation r + 1\<rparr>)"

definition set_leaf_revalidation :: "bool \<Rightarrow> router \<Rightarrow> router" where
  "set_leaf_revalidation on r = r\<lparr>br_revalidate := on\<rparr>"

definition invalidate_branch :: "u32 \<Rightarrow> router \<Rightarrow> router" where
  "invalidate_branch b r =
     drop_caches (r\<lparr>br_map := filter (\<lambda>e. snd e \<noteq> b) (br_map r), br_generation := br_generation r + 1\<rparr>)"

definition has_cgroup_for_branch :: "u32 \<Rightarrow> router \<Rightarrow> bool" where
  "has_cgroup_for_branch b r \<longleftrightarrow> list_ex (\<lambda>e. snd e = b) (br_map r)"

subsection \<open>The walk over the ancestors\<close>

definition cgroup_root :: string where "cgroup_root = ''/sys/fs/cgroup''"

definition last_slash :: "string \<Rightarrow> nat option" where
  "last_slash s = find (\<lambda>i. s ! i = CHR ''/'') (rev [0..<length s])"

lemma last_slash_lt: "last_slash s = Some i \<Longrightarrow> i < length s"
  by (auto simp: last_slash_def find_Some_iff rev_nth)

function path_ids :: "(string \<Rightarrow> u64) \<Rightarrow> u64 \<Rightarrow> bool \<Rightarrow> string \<Rightarrow> u64 list" where
  "path_ids cid leaf_id leaf path = (if path = [] then [] else
     let id = (if leaf then leaf_id else cid path);
         rest = (if path = cgroup_root then [] else
                 case last_slash path of None \<Rightarrow> []
                 | Some i \<Rightarrow> if i \<le> length cgroup_root then [] else path_ids cid leaf_id False (take i path))
     in if id \<noteq> 0 then id # rest else rest)"
  by pat_completeness auto
termination
  by (relation "measure (\<lambda>(_, _, _, path). length path)") (auto dest: last_slash_lt)

declare path_ids.simps [simp del]

definition cgroup_path_ids :: "router \<Rightarrow> kernel \<Rightarrow> string \<Rightarrow> u64 \<Rightarrow> u64 list" where
  "cgroup_path_ids r k path leaf_id = path_ids (cgroup_id r k) leaf_id True path"

fun branch_for_cgroup_ids :: "(u64, u32) omap \<Rightarrow> u64 list \<Rightarrow> u32" where
  "branch_for_cgroup_ids m [] = 0"
| "branch_for_cgroup_ids m (i # is) =
     (case map_of m i of Some b \<Rightarrow> b | None \<Rightarrow> branch_for_cgroup_ids m is)"

subsection \<open>A request\<close>

definition fence_lookup :: "pid \<Rightarrow> u64 \<Rightarrow> router \<Rightarrow> u32 option" where
  "fence_lookup p gen r = (case map_of (br_fences r) p of None \<Rightarrow> None
     | Some e \<Rightarrow> if fe_generation e = gen then Some (fe_branch e) else None)"

definition memo_lookup :: "string \<Rightarrow> bool \<Rightarrow> u64 \<Rightarrow> router \<Rightarrow> u32 option" where
  "memo_lookup cg check leaf r = (case map_of (br_paths r) cg of None \<Rightarrow> None
     | Some e \<Rightarrow> if \<not> check \<or> pe_leaf e = leaf then Some (pe_branch e) else None)"

definition fence_store_opt :: "pid \<Rightarrow> u32 \<Rightarrow> u64 option \<Rightarrow> router \<Rightarrow> router" where
  "fence_store_opt p b fo r = (case fo of None \<Rightarrow> r | Some g \<Rightarrow> fence_cache_store p b g r)"

definition memo_store :: "string \<Rightarrow> u64 \<Rightarrow> u32 \<Rightarrow> router \<Rightarrow> router" where
  "memo_store cg leaf b r =
     (let m = (if kPathCacheCap \<le> length (br_paths r) then [] else br_paths r)
      in r\<lparr>br_paths := om_put cg \<lparr>pe_leaf = leaf, pe_branch = b\<rparr> m\<rparr>)"

definition walk_finish ::
    "pid \<Rightarrow> u64 option \<Rightarrow> string \<Rightarrow> u64 \<Rightarrow> u64 \<Rightarrow> u64 list \<Rightarrow> router \<Rightarrow> u32 \<times> router" where
  "walk_finish p fo cg leaf miss_gen ids r =
     (let b = branch_for_cgroup_ids (br_map r) ids
      in if br_generation r = miss_gen
         then (b, fence_store_opt p b fo (memo_store cg leaf b r)) else (b, r))"

definition resolve :: "pid \<Rightarrow> router \<Rightarrow> kernel \<Rightarrow> u32 \<times> router \<times> kernel" where
  "resolve p r k =
     (case (if br_fence_on r then fence_lookup p (fn_generation (k_fence k)) r else None) of
        Some b \<Rightarrow> (b, r, k)
      | None \<Rightarrow>
     (let (tracked, f) = (if br_fence_on r then fence_track p (k_fence k) else (False, k_fence k));
          fo = (if tracked then Some (fn_generation f) else None);
          k = k\<lparr>k_fence := f\<rparr>;
          cg = proc_cgroup r k p
      in if cg = [] then (0, r, k)
         else let path = cgroup_root @ cg; check = br_revalidate r;
                  leaf = (if check then cgroup_id r k path else 0)
              in case memo_lookup cg check leaf r of
                   Some b \<Rightarrow> (b, fence_store_opt p b fo r, k)
                 | None \<Rightarrow>
                     let miss_gen = br_generation r;
                         leaf = (if check then leaf else cgroup_id r k path);
                         ids = cgroup_path_ids r k path leaf;
                         (b, r) = walk_finish p fo cg leaf miss_gen ids r
                     in (b, r, k)))"

text \<open>
  The same request in the pieces between which other threads and the kernel may act: the local
  variables of \<open>resolve\<close> are the arguments of the phase.
\<close>

datatype phase =
  PStart pid
| PFast pid u64
| PTrack pid
| PSample pid
| PMember pid "u64 option"
| PLeaf pid "u64 option" string
| PMemo pid "u64 option" string bool u64
| PWalk pid "u64 option" string bool u64 u64
| PFinish pid "u64 option" string u64 u64 "u64 list"
| PDone pid u32

fun resolve_step :: "phase \<Rightarrow> router \<Rightarrow> kernel \<Rightarrow> phase \<times> router \<times> kernel" where
  "resolve_step (PStart p) r k =
     (if br_fence_on r then PFast p (fn_generation (k_fence k)) else PMember p None, r, k)"
| "resolve_step (PFast p gen) r k =
     (case fence_lookup p gen r of Some b \<Rightarrow> PDone p b | None \<Rightarrow> PTrack p, r, k)"
| "resolve_step (PTrack p) r k =
     (let (ok, f) = fence_track p (k_fence k)
      in (if ok then PSample p else PMember p None, r, k\<lparr>k_fence := f\<rparr>))"
| "resolve_step (PSample p) r k = (PMember p (Some (fn_generation (k_fence k))), r, k)"
| "resolve_step (PMember p fo) r k =
     (let cg = proc_cgroup r k p in (if cg = [] then PDone p 0 else PLeaf p fo cg, r, k))"
| "resolve_step (PLeaf p fo cg) r k =
     (let check = br_revalidate r
      in (PMemo p fo cg check (if check then cgroup_id r k (cgroup_root @ cg) else 0), r, k))"
| "resolve_step (PMemo p fo cg check leaf) r k =
     (case memo_lookup cg check leaf r of
        Some b \<Rightarrow> (PDone p b, fence_store_opt p b fo r, k)
      | None \<Rightarrow> (PWalk p fo cg check leaf (br_generation r), r, k))"
| "resolve_step (PWalk p fo cg check leaf miss_gen) r k =
     (let path = cgroup_root @ cg; leaf = (if check then leaf else cgroup_id r k path)
      in (PFinish p fo cg leaf miss_gen (cgroup_path_ids r k path leaf), r, k))"
| "resolve_step (PFinish p fo cg leaf miss_gen ids) r k =
     (let (b, r) = walk_finish p fo cg leaf miss_gen ids r in (PDone p b, r, k))"
| "resolve_step (PDone p b) r k = (PDone p b, r, k)"

primrec run_phases :: "nat \<Rightarrow> phase \<Rightarrow> router \<Rightarrow> kernel \<Rightarrow> phase \<times> router \<times> kernel" where
  "run_phases 0 ph r k = (ph, r, k)"
| "run_phases (Suc n) ph r k = (let (ph, r, k) = resolve_step ph r k in run_phases n ph r k)"

end
