(* ===== verification/RouterWalk.thy ===== *)
theory RouterWalk
  imports BranchRouter
begin

text \<open>
  The walk of \<open>branch_for_cgroup_path\<close> from a control group towards the root and what it finds:
  the first registered directory among those it reads. It ends before the root of the hierarchy, so
  \<open>cgroups_above\<close> has every directory at or above the group but the root; \<open>RouterProps\<close> compares
  it with the search over all of them.
\<close>

section \<open>The walk and the nearest registered directory\<close>

definition cgroups_above :: "string \<Rightarrow> string list" where
  "cgroups_above path = path # map (\<lambda>i. take i path)
     (filter (\<lambda>i. path ! i = CHR ''/'') (rev [Suc (length cgroup_root)..<length path]))"

definition nearest :: "(u64, u32) omap \<Rightarrow> (string \<Rightarrow> u64) \<Rightarrow> string \<Rightarrow> u32" where
  "nearest m cid path =
     (case filter (\<lambda>q. cid q \<noteq> 0 \<and> map_of m (cid q) \<noteq> None) (cgroups_above path) of
        [] \<Rightarrow> 0 | q # _ \<Rightarrow> the (map_of m (cid q)))"

definition route :: "router \<Rightarrow> kernel \<Rightarrow> pid \<Rightarrow> u32" where
  "route r k p = (let cg = proc_cgroup r k p
     in if cg = [] then 0 else nearest (br_map r) (cgroup_id r k) (cgroup_root @ cg))"

lemma last_slash_None: "last_slash s = None \<longleftrightarrow> (\<forall>i < length s. s ! i \<noteq> CHR ''/'')"
  by (auto simp: last_slash_def find_None_iff)

lemma last_slash_Some:
  assumes "last_slash s = Some i"
  shows "i < length s \<and> s ! i = CHR ''/'' \<and> (\<forall>j. i < j \<and> j < length s \<longrightarrow> s ! j \<noteq> CHR ''/'')"
proof -
  from assms obtain n where n: "n < length s" "s ! (length s - Suc n) = CHR ''/''" "i = length s - Suc n"
    and b: "\<And>m. m < n \<Longrightarrow> s ! (length s - Suc m) \<noteq> CHR ''/''"
    by (auto simp: last_slash_def find_Some_iff rev_nth)
  have "s ! j \<noteq> CHR ''/''" if "i < j" "j < length s" for j
    using b [of "length s - Suc j"] that n by (cases "length s - Suc j < n") auto
  with n show ?thesis by auto
qed

lemma tl_above:
  "tl (cgroups_above path) = (case last_slash path of None \<Rightarrow> []
     | Some i \<Rightarrow> if i \<le> length cgroup_root then [] else cgroups_above (take i path))"
proof (cases "last_slash path")
  case None
  moreover from None have "\<forall>i < length path. path ! i \<noteq> CHR ''/''" by (simp only: last_slash_None)
  ultimately show ?thesis by (auto simp: cgroups_above_def filter_empty_conv)
next
  case (Some i)
  note l = last_slash_Some [OF this]
  show ?thesis
  proof (cases "i \<le> length cgroup_root")
    case True
    with l Some show ?thesis by (auto simp: cgroups_above_def filter_empty_conv)
  next
    case False
    then have "[Suc (length cgroup_root)..<length path] =
        [Suc (length cgroup_root)..<i] @ i # [Suc i..<length path]"
      using l upt_add_eq_append [of "Suc (length cgroup_root)" i "length path - i"]
      by (simp add: upt_conv_Cons)
    moreover have "filter (\<lambda>j. path ! j = CHR ''/'') (rev [Suc i..<length path]) = []"
      using l by (auto simp: filter_empty_conv)
    moreover have "filter (\<lambda>j. take i path ! j = CHR ''/'') (rev [Suc (length cgroup_root)..<i])
        = filter (\<lambda>j. path ! j = CHR ''/'') (rev [Suc (length cgroup_root)..<i])"
      by (rule filter_cong) auto
    ultimately show ?thesis using False Some l
      by (simp add: cgroups_above_def)
  qed
qed

lemma above_root: "tl (cgroups_above cgroup_root) = []"
  by (simp add: cgroups_above_def cgroup_root_def)

lemma path_ids_above:
  "path \<noteq> [] \<Longrightarrow> path_ids cid leaf_id leaf path =
     filter (\<lambda>i. i \<noteq> 0) ((if leaf then leaf_id else cid path) # map cid (tl (cgroups_above path)))"
proof (induction cid leaf_id leaf path rule: path_ids.induct)
  case (1 cid leaf_id leaf path)
  let ?rest = "if path = cgroup_root then [] else case last_slash path of None \<Rightarrow> []
    | Some i \<Rightarrow> if i \<le> length cgroup_root then [] else path_ids cid leaf_id False (take i path)"
  have "?rest = filter (\<lambda>i. i \<noteq> 0) (map cid (tl (cgroups_above path)))"
  proof (cases "path = cgroup_root")
    case True
    then show ?thesis by (simp add: above_root)
  next
    case False
    show ?thesis
    proof (cases "last_slash path")
      case None
      with False show ?thesis by (simp add: tl_above)
    next
      case (Some i)
      show ?thesis
      proof (cases "i \<le> length cgroup_root")
        case True
        with False Some show ?thesis by (simp add: tl_above)
      next
        case b: False
        with last_slash_lt [OF Some] have "take i path \<noteq> []" by auto
        with 1(1) [OF \<open>path \<noteq> []\<close> refl False Some b]
        have "path_ids cid leaf_id False (take i path) =
            filter (\<lambda>i. i \<noteq> 0) (cid (take i path) # map cid (tl (cgroups_above (take i path))))" by simp
        moreover have "cgroups_above (take i path) = take i path # tl (cgroups_above (take i path))"
          by (simp add: cgroups_above_def)
        ultimately show ?thesis using False Some b by (simp add: tl_above) 
      qed
    qed
  qed
  with 1(2) show ?case by (subst path_ids.simps) (simp add: Let_def)
qed

lemma branch_for_filter:
  "branch_for_cgroup_ids m (filter (\<lambda>i. i \<noteq> 0) (map cid ps)) =
     (case filter (\<lambda>q. cid q \<noteq> 0 \<and> map_of m (cid q) \<noteq> None) ps of
        [] \<Rightarrow> 0 | q # _ \<Rightarrow> the (map_of m (cid q)))"
  by (induction ps) (auto split: option.splits)

lemma walk_nearest:
  assumes "path \<noteq> []"
  shows "branch_for_cgroup_ids m (path_ids cid (cid path) True path) = nearest m cid path"
proof -
  have "cgroups_above path = path # tl (cgroups_above path)" by (simp add: cgroups_above_def)
  then have "path_ids cid (cid path) True path = filter (\<lambda>i. i \<noteq> 0) (map cid (cgroups_above path))"
    using path_ids_above [OF assms, of cid "cid path" True] by (metis list.simps(9))
  then show ?thesis by (simp add: branch_for_filter nearest_def)
qed

end
