(* ===== verification/RouterSystem.thy ===== *)
theory RouterSystem
  imports RouterWalk
begin

text \<open>
  The router among concurrent requests, registrations, process moves, exits and forks, and
  control groups that come and go. A move changes the membership first and bumps the fence's
  counter afterwards (\<open>y_moving\<close> holds what is not yet bumped); a directory's inode is never used
  again (\<open>y_used\<close>). The counters do not wrap and leaf revalidation stays as it is at the start.
\<close>

section \<open>Steps\<close>

abbreviation cids :: "kernel \<Rightarrow> string \<Rightarrow> u64" where
  "cids k \<equiv> cgroup_id_from_path (k_stat k)"

abbreviation cg_path :: "kernel \<Rightarrow> pid \<Rightarrow> string" where
  "cg_path k p \<equiv> cgroup_root @ read_proc_cgroup (k_files k p)"

definition cgroup_parents :: "string \<Rightarrow> string set" where
  "cgroup_parents q = set (tl (cgroups_above q))"

record sys =
  y_router :: router
  y_kernel :: kernel
  y_threads :: "nat \<Rightarrow> phase option"
  y_used :: "u64 set"
  y_moving :: "pid set"

fun phase_pid :: "phase \<Rightarrow> pid" where
  "phase_pid (PStart p) = p"
| "phase_pid (PFast p _) = p"
| "phase_pid (PTrack p) = p"
| "phase_pid (PSample p) = p"
| "phase_pid (PMember p _) = p"
| "phase_pid (PLeaf p _ _) = p"
| "phase_pid (PMemo p _ _ _ _) = p"
| "phase_pid (PWalk p _ _ _ _ _) = p"
| "phase_pid (PFinish p _ _ _ _ _) = p"
| "phase_pid (PDone p _) = p"

definition idle :: "(nat \<Rightarrow> phase option) \<Rightarrow> pid \<Rightarrow> bool" where
  "idle ts p \<longleftrightarrow> (\<forall>t ph. ts t = Some ph \<longrightarrow> phase_pid ph \<noteq> p)"

definition joinable :: "kernel \<Rightarrow> string \<Rightarrow> bool" where
  "joinable k file \<longleftrightarrow> (let cg = read_proc_cgroup (Some file) in cg \<noteq> [] \<longrightarrow> cids k (cgroup_root @ cg) \<noteq> 0)"

definition make_dir :: "string set \<Rightarrow> u64 \<Rightarrow> kernel \<Rightarrow> kernel" where
  "make_dir P i k = k\<lparr>k_stat := (\<lambda>q. if q \<in> P then Some (True, i) else k_stat k q)\<rparr>"

definition remove_dir :: "u64 \<Rightarrow> kernel \<Rightarrow> kernel" where
  "remove_dir i k = k\<lparr>k_stat := (\<lambda>q. if k_stat k q = Some (True, i) then None else k_stat k q)\<rparr>"

definition can_make :: "string set \<Rightarrow> kernel \<Rightarrow> bool" where
  "can_make P k \<longleftrightarrow> (\<forall>q \<in> P. k_stat k q = None \<and> (\<forall>a \<in> cgroup_parents q. cids k a \<noteq> 0 \<or> a \<in> P))"

definition can_remove :: "u64 \<Rightarrow> kernel \<Rightarrow> bool" where
  "can_remove i k \<longleftrightarrow> (\<forall>p. k_files k p \<noteq> None \<longrightarrow> cids k (cg_path k p) \<noteq> i) \<and>
     (\<forall>q. cids k q \<noteq> 0 \<and> cids k q \<noteq> i \<longrightarrow> (\<forall>a \<in> cgroup_parents q. cids k a \<noteq> i))"

text \<open>With \<open>busy\<close>, a process may also exit while a request of it is open.\<close>

inductive sys_step :: "bool \<Rightarrow> sys \<Rightarrow> sys \<Rightarrow> bool" for busy where
  Begin: "y_threads s t = None \<Longrightarrow> sys_step busy s (s\<lparr>y_threads := (y_threads s)(t \<mapsto> PStart p)\<rparr>)"
| Run: "y_threads s t = Some ph \<Longrightarrow> resolve_step ph (y_router s) (y_kernel s) = (ph', r', k') \<Longrightarrow>
    sys_step busy s (s\<lparr>y_router := r', y_kernel := k', y_threads := (y_threads s)(t \<mapsto> ph')\<rparr>)"
| End: "y_threads s t = Some (PDone p b) \<Longrightarrow> sys_step busy s (s\<lparr>y_threads := (y_threads s)(t := None)\<rparr>)"
| Register: "br_generation (y_router s) \<noteq> - 1 \<Longrightarrow>
    sys_step busy s (s\<lparr>y_router := snd (register_cgroup (y_kernel s) path b (y_router s))\<rparr>)"
| Unregister: "br_generation (y_router s) \<noteq> - 1 \<Longrightarrow>
    sys_step busy s (s\<lparr>y_router := snd (unregister_cgroup (y_kernel s) path (y_router s))\<rparr>)"
| Evict: "br_generation (y_router s) \<noteq> - 1 \<Longrightarrow>
    sys_step busy s (s\<lparr>y_router := evict_cgroup_id i (y_router s)\<rparr>)"
| Invalidate: "br_generation (y_router s) \<noteq> - 1 \<Longrightarrow>
    sys_step busy s (s\<lparr>y_router := invalidate_branch b (y_router s)\<rparr>)"
| Move: "k_files (y_kernel s) p \<noteq> None \<Longrightarrow> joinable (y_kernel s) file \<Longrightarrow>
    sys_step busy s (s\<lparr>y_kernel := (y_kernel s)\<lparr>k_files := (k_files (y_kernel s))(p \<mapsto> file)\<rparr>,
                       y_moving := insert p (y_moving s)\<rparr>)"
| Bump: "fn_generation (k_fence (y_kernel s)) \<noteq> - 1 \<Longrightarrow>
    sys_step busy s (s\<lparr>y_kernel := (y_kernel s)\<lparr>k_fence := on_cgroup_attach (k_fence (y_kernel s))\<rparr>,
                       y_moving := y_moving s - P\<rparr>)"
| Fork: "k_files (y_kernel s) p = None \<Longrightarrow> joinable (y_kernel s) file \<Longrightarrow>
    sys_step busy s (s\<lparr>y_kernel := (y_kernel s)\<lparr>k_files := (k_files (y_kernel s))(p \<mapsto> file)\<rparr>\<rparr>)"
| Exit: "fn_generation (k_fence (y_kernel s)) \<noteq> - 1 \<Longrightarrow> busy \<or> idle (y_threads s) p \<Longrightarrow>
    sys_step busy s (s\<lparr>y_kernel := (y_kernel s)\<lparr>k_files := (k_files (y_kernel s))(p := None),
                       k_fence := on_process_exit (Some p) (k_fence (y_kernel s))\<rparr>\<rparr>)"
| Mkdir: "can_make P (y_kernel s) \<Longrightarrow> i \<noteq> 0 \<Longrightarrow> i \<notin> y_used s \<Longrightarrow>
    sys_step busy s (s\<lparr>y_kernel := make_dir P i (y_kernel s), y_used := insert i (y_used s)\<rparr>)"
| Rmdir: "can_remove i (y_kernel s) \<Longrightarrow> i \<noteq> 0 \<Longrightarrow> sys_step busy s (s\<lparr>y_kernel := remove_dir i (y_kernel s)\<rparr>)"

definition cgroups_ok :: "kernel \<Rightarrow> bool" where
  "cgroups_ok k \<longleftrightarrow> (\<forall>q. cids k q \<noteq> 0 \<longrightarrow> (\<forall>a \<in> cgroup_parents q. cids k a \<noteq> 0))"

definition members_ok :: "kernel \<Rightarrow> bool" where
  "members_ok k \<longleftrightarrow> (\<forall>p. read_proc_cgroup (k_files k p) \<noteq> [] \<longrightarrow> cids k (cg_path k p) \<noteq> 0)"

definition sys_init :: "sys \<Rightarrow> bool" where
  "sys_init s \<longleftrightarrow> (\<exists>on reval. y_router s = new_router\<lparr>br_fence_on := on, br_revalidate := reval\<rparr>) \<and>
     y_threads s = (\<lambda>_. None) \<and> y_moving s = {} \<and> fn_tracked (k_fence (y_kernel s)) = [] \<and> (\<forall>q. cids (y_kernel s) q \<in> insert 0 (y_used s)) \<and>
     cgroups_ok (y_kernel s) \<and> members_ok (y_kernel s)"

inductive sys_reach :: "bool \<Rightarrow> sys \<Rightarrow> bool" for busy where
  Init: "sys_init s \<Longrightarrow> sys_reach busy s"
| Step: "sys_reach busy s \<Longrightarrow> sys_step busy s s' \<Longrightarrow> sys_reach busy s'"

section \<open>The invariant\<close>

text \<open>Without leaf revalidation the deletion of a registered directory must have been reported.\<close>

definition no_stale :: "router \<Rightarrow> kernel \<Rightarrow> bool" where
  "no_stale r k \<longleftrightarrow> (\<forall>i \<in> fst ` set (br_map r). \<exists>q. cids k q = i)"

definition settled :: "router \<Rightarrow> kernel \<Rightarrow> bool" where
  "settled r k \<longleftrightarrow> br_revalidate r \<or> no_stale r k"

definition kernel_ok :: "kernel \<Rightarrow> u64 set \<Rightarrow> bool" where
  "kernel_ok k used \<longleftrightarrow> cgroups_ok k \<and> members_ok k \<and> (\<forall>q. cids k q \<in> insert 0 used)"

definition router_ok :: "router \<Rightarrow> u64 set \<Rightarrow> bool" where
  "router_ok r used \<longleftrightarrow> br_cgroup_hook r = None \<and> br_read_hook r = None \<and>
     fst ` set (br_map r) \<subseteq> used - {0} \<and>
     (\<forall>cg e. map_of (br_paths r) cg = Some e \<longrightarrow> pe_leaf e \<in> insert 0 used)"

definition memo_ok :: "router \<Rightarrow> kernel \<Rightarrow> bool" where
  "memo_ok r k \<longleftrightarrow> (\<forall>cg e. map_of (br_paths r) cg = Some e \<longrightarrow>
     (pe_leaf e \<noteq> 0 \<and> cids k (cgroup_root @ cg) = pe_leaf e) \<or> (\<not> br_revalidate r \<and> no_stale r k) \<longrightarrow>
     pe_branch e = nearest (br_map r) (cids k) (cgroup_root @ cg))"

definition fence_ok :: "router \<Rightarrow> kernel \<Rightarrow> pid set \<Rightarrow> bool" where
  "fence_ok r k moving \<longleftrightarrow> (\<forall>p e. map_of (br_fences r) p = Some e \<longrightarrow>
     fe_generation e \<le> fn_generation (k_fence k) \<and>
     (fe_generation e = fn_generation (k_fence k) \<longrightarrow>
        p \<in> set (fn_tracked (k_fence k)) \<and> k_files k p \<noteq> None \<and>
        (p \<notin> moving \<longrightarrow> settled r k \<longrightarrow> fe_branch e = route r k p)))"

text \<open>What a request knows: its sample is not newer than the counter, and as long as no bump
  came since, what it has read is still so.\<close>

definition sample_ok :: "kernel \<Rightarrow> pid \<Rightarrow> u64 option \<Rightarrow> bool" where
  "sample_ok k p fo \<longleftrightarrow> (\<forall>g. fo = Some g \<longrightarrow> g \<le> fn_generation (k_fence k) \<and> p \<in> set (fn_tracked (k_fence k)))"

definition fresh :: "kernel \<Rightarrow> pid set \<Rightarrow> pid \<Rightarrow> u64 option \<Rightarrow> bool" where
  "fresh k moving p fo \<longleftrightarrow> fo = Some (fn_generation (k_fence k)) \<and> p \<notin> moving"

definition member_ok :: "kernel \<Rightarrow> pid set \<Rightarrow> pid \<Rightarrow> u64 option \<Rightarrow> string \<Rightarrow> bool" where
  "member_ok k moving p fo cg \<longleftrightarrow> sample_ok k p fo \<and> cg \<noteq> [] \<and> k_files k p \<noteq> None \<and>
     (fresh k moving p fo \<longrightarrow> read_proc_cgroup (k_files k p) = cg)"

definition leaf_ok :: "kernel \<Rightarrow> u64 set \<Rightarrow> pid set \<Rightarrow> pid \<Rightarrow> u64 option \<Rightarrow> string \<Rightarrow> u64 \<Rightarrow> bool" where
  "leaf_ok k used moving p fo cg leaf \<longleftrightarrow> leaf \<in> insert 0 used \<and>
     (fresh k moving p fo \<longrightarrow> cids k (cgroup_root @ cg) = leaf)"

definition walk_ids_ok :: "router \<Rightarrow> kernel \<Rightarrow> string \<Rightarrow> u64 \<Rightarrow> u64 \<Rightarrow> u64 list \<Rightarrow> bool" where
  "walk_ids_ok r k cg leaf miss_gen ids \<longleftrightarrow> miss_gen \<le> br_generation r \<and>
     (leaf \<noteq> 0 \<and> cids k (cgroup_root @ cg) = leaf \<longrightarrow>
        ids = filter (\<lambda>i. i \<noteq> 0) (map (cids k) (cgroups_above (cgroup_root @ cg)))) \<and>
     (\<not> br_revalidate r \<and> no_stale r k \<and> miss_gen = br_generation r \<longrightarrow>
        branch_for_cgroup_ids (br_map r) ids = nearest (br_map r) (cids k) (cgroup_root @ cg))"

fun thread_ok :: "router \<Rightarrow> kernel \<Rightarrow> u64 set \<Rightarrow> pid set \<Rightarrow> phase \<Rightarrow> bool" where
  "thread_ok r k used moving (PSample p) \<longleftrightarrow> p \<in> set (fn_tracked (k_fence k))"
| "thread_ok r k used moving (PMember p fo) \<longleftrightarrow> sample_ok k p fo"
| "thread_ok r k used moving (PLeaf p fo cg) \<longleftrightarrow> member_ok k moving p fo cg"
| "thread_ok r k used moving (PMemo p fo cg check leaf) \<longleftrightarrow> member_ok k moving p fo cg \<and>
     check = br_revalidate r \<and> (check \<longrightarrow> leaf_ok k used moving p fo cg leaf)"
| "thread_ok r k used moving (PWalk p fo cg check leaf miss_gen) \<longleftrightarrow> member_ok k moving p fo cg \<and>
     check = br_revalidate r \<and> (check \<longrightarrow> leaf_ok k used moving p fo cg leaf) \<and>
     miss_gen \<le> br_generation r"
| "thread_ok r k used moving (PFinish p fo cg leaf miss_gen ids) \<longleftrightarrow> member_ok k moving p fo cg \<and>
     leaf_ok k used moving p fo cg leaf \<and> walk_ids_ok r k cg leaf miss_gen ids"
| "thread_ok r k used moving _ \<longleftrightarrow> True"

definition sys_inv :: "sys \<Rightarrow> bool" where
  "sys_inv s \<longleftrightarrow> kernel_ok (y_kernel s) (y_used s) \<and> router_ok (y_router s) (y_used s) \<and>
     memo_ok (y_router s) (y_kernel s) \<and> fence_ok (y_router s) (y_kernel s) (y_moving s) \<and>
     (\<forall>t ph. y_threads s t = Some ph \<longrightarrow> thread_ok (y_router s) (y_kernel s) (y_used s) (y_moving s) ph)"

section \<open>Directories come and go\<close>

definition eff :: "(u64, u32) omap \<Rightarrow> (string \<Rightarrow> u64) \<Rightarrow> string \<Rightarrow> u32 option" where
  "eff m cid q = (if cid q = 0 then None else map_of m (cid q))"

fun first_branch :: "(string \<Rightarrow> u32 option) \<Rightarrow> string list \<Rightarrow> u32" where
  "first_branch f [] = 0"
| "first_branch f (q # qs) = (case f q of Some b \<Rightarrow> b | None \<Rightarrow> first_branch f qs)"

lemma first_branch_filter:
  "(case filter (\<lambda>q. cid q \<noteq> 0 \<and> map_of m (cid q) \<noteq> None) ps of [] \<Rightarrow> 0 | q # _ \<Rightarrow> the (map_of m (cid q)))
     = first_branch (eff m cid) ps"
  by (induction ps) (auto simp: eff_def split: option.splits)

lemma first_branch_cong:
  "(\<And>q. q \<in> set ps \<Longrightarrow> f q = g q) \<Longrightarrow> first_branch f ps = first_branch g ps"
  by (induction ps) (auto split: option.splits)

lemma nearest_eff: "nearest m cid path = first_branch (eff m cid) (cgroups_above path)"
  unfolding nearest_def by (rule first_branch_filter)

lemma nearest_cong:
  "(\<And>q. q \<in> set (cgroups_above path) \<Longrightarrow> eff m cid' q = eff m cid q) \<Longrightarrow>
   nearest m cid' path = nearest m cid path"
  unfolding nearest_eff by (rule first_branch_cong)

lemma set_above: "set (cgroups_above q) = insert q (cgroup_parents q)"
  by (simp add: cgroups_above_def cgroup_parents_def)

text \<open>What both kinds of change to the directories have in common.\<close>

definition same_live :: "u64 set \<Rightarrow> kernel \<Rightarrow> kernel \<Rightarrow> bool" where
  "same_live used k k' \<longleftrightarrow> (\<forall>q. cids k' q \<noteq> 0 \<longrightarrow> cids k' q \<in> used \<longrightarrow>
     cids k' q = cids k q \<and> (\<forall>a \<in> cgroup_parents q. cids k' a = cids k a))"

definition same_members :: "kernel \<Rightarrow> kernel \<Rightarrow> bool" where
  "same_members k k' \<longleftrightarrow> (\<forall>p. k_files k p \<noteq> None \<longrightarrow> cids k (cg_path k p) \<noteq> 0 \<longrightarrow>
     cids k' (cg_path k p) = cids k (cg_path k p))"

definition same_ids :: "u64 set \<Rightarrow> kernel \<Rightarrow> kernel \<Rightarrow> bool" where
  "same_ids used k k' \<longleftrightarrow> (\<forall>i \<in> used - {0}. \<forall>q. cids k' q = i \<longrightarrow> (\<forall>q. (cids k' q = i) = (cids k q = i)))"

definition dir_change :: "u64 set \<Rightarrow> kernel \<Rightarrow> kernel \<Rightarrow> bool" where
  "dir_change used k k' \<longleftrightarrow> k_files k' = k_files k \<and> k_fence k' = k_fence k \<and>
     same_live used k k' \<and> same_members k k' \<and> same_ids used k k'"

lemma can_make_zero: "can_make P k \<Longrightarrow> q \<in> P \<Longrightarrow> cids k q = 0"
  by (simp add: can_make_def cgroup_id_from_path_def)

lemma cids_make: "cids (make_dir P i k) q = (if q \<in> P then i else cids k q)"
  by (simp add: make_dir_def cgroup_id_from_path_def)

lemma cids_remove:
  "i \<noteq> 0 \<Longrightarrow> cids (remove_dir i k) q = (if cids k q = i then 0 else cids k q)"
  by (auto simp: remove_dir_def cgroup_id_from_path_def split: option.splits if_splits)

lemma dir_change_make:
  assumes c: "can_make P k" and i: "i \<notin> used" "i \<noteq> 0" and ok: "kernel_ok k used"
  shows "dir_change used k (make_dir P i k)"
proof -
  have "cids (make_dir P i k) q = cids k q \<and> (\<forall>a \<in> cgroup_parents q. cids (make_dir P i k) a = cids k a)"
    if "cids (make_dir P i k) q \<noteq> 0" "cids (make_dir P i k) q \<in> used" for q
  proof -
    have q: "q \<notin> P" using that(2) i(1) by (auto simp: cids_make)
    then have "cids k q \<noteq> 0" using that(1) by (simp add: cids_make)
    then have "cids k a \<noteq> 0" if "a \<in> cgroup_parents q" for a
      using ok that by (simp add: kernel_ok_def cgroups_ok_def)
    then have "a \<notin> P" if "a \<in> cgroup_parents q" for a
      using can_make_zero [OF c] that by blast
    with q show ?thesis by (simp add: cids_make)
  qed
  then have "same_live used k (make_dir P i k)" unfolding same_live_def by blast
  moreover have keep: "cids (make_dir P i k) q = cids k q" if "cids k q \<noteq> 0" for q
    using that can_make_zero [OF c, of q] by (cases "q \<in> P") (simp_all add: cids_make)
  then have "same_members k (make_dir P i k)" unfolding same_members_def by blast
  moreover have "(cids (make_dir P i k) q = j) = (cids k q = j)" if "j \<in> used - {0}" for j q
    using that i can_make_zero [OF c, of q] by (cases "q \<in> P") (auto simp: cids_make)
  then have "same_ids used k (make_dir P i k)" by (simp add: same_ids_def)
  moreover have "k_files (make_dir P i k) = k_files k" "k_fence (make_dir P i k) = k_fence k"
    by (simp_all add: make_dir_def)
  ultimately show ?thesis by (simp add: dir_change_def)
qed

lemma dir_change_remove:
  assumes c: "can_remove i k" and i: "i \<noteq> 0"
  shows "dir_change used k (remove_dir i k)"
proof -
  note cr = cids_remove [OF i, of k]
  have "cids (remove_dir i k) q = cids k q \<and> (\<forall>a \<in> cgroup_parents q. cids (remove_dir i k) a = cids k a)"
    if "cids (remove_dir i k) q \<noteq> 0" for q
  proof -
    have q: "cids k q \<noteq> 0" "cids k q \<noteq> i" using that by (auto simp: cr split: if_splits)
    then have "cids k a \<noteq> i" if "a \<in> cgroup_parents q" for a
      using c that by (simp add: can_remove_def)
    with q show ?thesis by (simp add: cr)
  qed
  then have "same_live used k (remove_dir i k)" unfolding same_live_def by blast
  moreover have "same_members k (remove_dir i k)"
    using c by (simp add: same_members_def can_remove_def cr)
  moreover have "(cids (remove_dir i k) q' = j) = (cids k q' = j)"
    if "cids (remove_dir i k) q = j" "j \<noteq> 0" for j q q'
    using that i by (auto simp: cr split: if_splits)
  then have "same_ids used k (remove_dir i k)" unfolding same_ids_def by blast
  moreover have "k_files (remove_dir i k) = k_files k" "k_fence (remove_dir i k) = k_fence k"
    by (simp_all add: remove_dir_def)
  ultimately show ?thesis by (simp add: dir_change_def)
qed

lemma dir_change_no_stale:
  assumes d: "dir_change used k k'" and r: "router_ok r used" and n: "no_stale r k'"
  shows "no_stale r k \<and> nearest (br_map r) (cids k') path = nearest (br_map r) (cids k) path"
proof -
  have iff: "(cids k' q = i) = (cids k q = i)" if "i \<in> fst ` set (br_map r)" for i q
  proof -
    have "i \<in> used" "i \<noteq> 0" using r that by (auto simp: router_ok_def)
    from n that have "\<exists>q. cids k' q = i" unfolding no_stale_def by (rule bspec)
    then obtain q' where "cids k' q' = i" ..
    with \<open>i \<in> used\<close> \<open>i \<noteq> 0\<close> show ?thesis using d unfolding dir_change_def same_ids_def by blast
  qed
  then have "no_stale r k" using n by (simp add: no_stale_def)
  moreover have "eff (br_map r) (cids k') q = eff (br_map r) (cids k) q" for q
  proof (cases "cids k' q = cids k q")
    case False
    have "cids k' q \<notin> fst ` set (br_map r)" "cids k q \<notin> fst ` set (br_map r)"
      using iff [where i = "cids k' q" and q = q] iff [where i = "cids k q" and q = q] not_sym [OF False] False
      by (simp_all only: refl simp_thms) (intro notI, simp)+
    then have "map_of (br_map r) (cids k' q) = None" "map_of (br_map r) (cids k q) = None"
      by (simp_all only: om_not_has)
    then show ?thesis by (simp add: eff_def)
  qed (simp add: eff_def)
  ultimately show ?thesis by (blast intro: nearest_cong)
qed

lemma dir_change_live:
  assumes d: "dir_change used k k'" and l: "cids k' q = leaf" "leaf \<noteq> 0" "leaf \<in> insert 0 used"
  shows "cids k q = leaf" "\<And>a. a \<in> set (cgroups_above q) \<Longrightarrow> cids k' a = cids k a"
    "nearest m (cids k') q = nearest m (cids k) q"
proof -
  have e: "cids k' q = cids k q \<and> (\<forall>a \<in> cgroup_parents q. cids k' a = cids k a)"
    using d l unfolding dir_change_def same_live_def by blast
  then show "cids k q = leaf" using l by simp
  from e show s: "\<And>a. a \<in> set (cgroups_above q) \<Longrightarrow> cids k' a = cids k a"
    by (auto simp: set_above)
  show "nearest m (cids k') q = nearest m (cids k) q"
    by (rule nearest_cong) (simp add: eff_def s)
qed

end
