(* ===== verification/RouterInv.thy ===== *)
theory RouterInv
  imports RouterSystem
begin

text \<open>Every step keeps the invariant of \<open>RouterSystem\<close>.\<close>

section \<open>Directory changes\<close>

lemma live_member:
  "kernel_ok k used \<Longrightarrow> read_proc_cgroup (k_files k p) \<noteq> [] \<Longrightarrow> cids k (cg_path k p) \<noteq> 0"
  by (simp add: kernel_ok_def members_ok_def)

lemma read_None [simp]: "read_proc_cgroup None = []"
  by (simp add: read_proc_cgroup_def)

lemma router_ok_mono: "router_ok r used \<Longrightarrow> used \<subseteq> used' \<Longrightarrow> router_ok r used'"
  unfolding router_ok_def by blast

lemma hookless:
  "router_ok r used \<Longrightarrow> cgroup_id r k = cids k"
  "router_ok r used \<Longrightarrow> proc_cgroup r k p = read_proc_cgroup (k_files k p)"
  by (auto simp: router_ok_def cgroup_id_def proc_cgroup_def)

lemma route_hookless:
  "router_ok r used \<Longrightarrow> route r k p = (if read_proc_cgroup (k_files k p) = [] then 0
     else nearest (br_map r) (cids k) (cg_path k p))"
  by (simp add: route_def hookless Let_def)

lemma dir_change_member:
  assumes d: "dir_change used k k'" and k: "kernel_ok k used"
    and a: "read_proc_cgroup (k_files k p) \<noteq> []"
  shows "cids k' (cg_path k p) = cids k (cg_path k p)"
    "nearest m (cids k') (cg_path k p) = nearest m (cids k) (cg_path k p)"
proof -
  have f: "k_files k p \<noteq> None" using a by (cases "k_files k p") auto
  note z = live_member [OF k a]
  show e: "cids k' (cg_path k p) = cids k (cg_path k p)"
    using d f z unfolding dir_change_def same_members_def by blast
  have "cids k (cg_path k p) \<in> insert 0 used"
    using k unfolding kernel_ok_def by blast
  with e z show "nearest m (cids k') (cg_path k p) = nearest m (cids k) (cg_path k p)"
    by (intro dir_change_live(3) [OF d refl]) simp_all
qed

lemma dir_memo_ok:
  assumes d: "dir_change used k k'" and r: "router_ok r used" and m: "memo_ok r k"
  shows "memo_ok r k'"
  unfolding memo_ok_def
proof (intro allI impI)
  fix cg e
  assume e: "map_of (br_paths r) cg = Some e"
    and c: "(pe_leaf e \<noteq> 0 \<and> cids k' (cgroup_root @ cg) = pe_leaf e) \<or> (\<not> br_revalidate r \<and> no_stale r k')"
  have l: "pe_leaf e \<in> insert 0 used" using r e unfolding router_ok_def by blast
  note old = m [unfolded memo_ok_def, rule_format, OF e]
  from c show "pe_branch e = nearest (br_map r) (cids k') (cgroup_root @ cg)"
  proof
    assume a: "pe_leaf e \<noteq> 0 \<and> cids k' (cgroup_root @ cg) = pe_leaf e"
    with dir_change_live [OF d conjunct2 [OF a] conjunct1 [OF a] l] old show ?thesis by simp
  next
    assume a: "\<not> br_revalidate r \<and> no_stale r k'"
    with dir_change_no_stale [OF d r conjunct2 [OF a]] old show ?thesis by simp
  qed
qed

lemma dir_settled:
  "dir_change used k k' \<Longrightarrow> router_ok r used \<Longrightarrow> settled r k' \<Longrightarrow> settled r k"
  unfolding settled_def using dir_change_no_stale by blast

lemma dir_fence_ok:
  assumes d: "dir_change used k k'" and r: "router_ok r used" and k: "kernel_ok k used"
    and f: "fence_ok r k moving"
  shows "fence_ok r k' moving"
proof -
  have same: "k_files k' = k_files k" "k_fence k' = k_fence k" using d by (simp_all add: dir_change_def)
  have "route r k' p = route r k p" for p
    using dir_change_member(2) [OF d k] by (auto simp: route_hookless [OF r] same)
  with f dir_settled [OF d r] show ?thesis by (simp add: fence_ok_def same)
qed

lemma dir_leaf_ok:
  assumes d: "dir_change used k k'" and k: "kernel_ok k used" and u: "used \<subseteq> used'"
    and m: "member_ok k moving p fo cg" and l: "leaf_ok k used moving p fo cg leaf"
  shows "leaf_ok k' used' moving p fo cg leaf"
proof -
  have "fresh k' moving p fo = fresh k moving p fo" using d by (simp add: fresh_def dir_change_def)
  moreover have "cids k' (cgroup_root @ cg) = leaf" if "fresh k moving p fo"
    using dir_change_member(1) [OF d k, of p] m l that unfolding member_ok_def leaf_ok_def by auto
  ultimately show ?thesis using l u unfolding leaf_ok_def by auto
qed

lemma dir_ids_ok:
  assumes d: "dir_change used k k'" and r: "router_ok r used" and l: "leaf \<in> insert 0 used"
    and i: "walk_ids_ok r k cg leaf mg ids"
  shows "walk_ids_ok r k' cg leaf mg ids"
  unfolding walk_ids_ok_def
proof (intro conjI impI)
  show "mg \<le> br_generation r" using i by (simp add: walk_ids_ok_def)
next
  assume a: "leaf \<noteq> 0 \<and> cids k' (cgroup_root @ cg) = leaf"
  note live = dir_change_live [OF d conjunct2 [OF a] conjunct1 [OF a] l]
  have e: "map (cids k') (cgroups_above (cgroup_root @ cg)) = map (cids k) (cgroups_above (cgroup_root @ cg))"
    by (rule map_cong [OF refl live(2)])
  show "ids = filter (\<lambda>i. i \<noteq> 0) (map (cids k') (cgroups_above (cgroup_root @ cg)))"
    unfolding e using i conjunct1 [OF a] live(1) unfolding walk_ids_ok_def by blast
next
  assume a: "\<not> br_revalidate r \<and> no_stale r k' \<and> mg = br_generation r"
  then have "no_stale r k'" by simp
  from dir_change_no_stale [OF d r this] a i
  show "branch_for_cgroup_ids (br_map r) ids = nearest (br_map r) (cids k') (cgroup_root @ cg)"
    unfolding walk_ids_ok_def by simp
qed

lemma dir_thread_ok:
  assumes d: "dir_change used k k'" and r: "router_ok r used" and k: "kernel_ok k used" and u: "used \<subseteq> used'"
    and t: "thread_ok r k used moving ph"
  shows "thread_ok r k' used' moving ph"
proof -
  have same: "k_files k' = k_files k" "k_fence k' = k_fence k" using d by (simp_all add: dir_change_def)
  have s: "sample_ok k' p fo = sample_ok k p fo" "member_ok k' moving p fo cg = member_ok k moving p fo cg"
    for p fo cg by (simp_all add: sample_ok_def member_ok_def fresh_def same)
  have l: "leaf \<in> insert 0 used" if "leaf_ok k used moving p fo cg leaf" for p fo cg leaf
    using that by (simp add: leaf_ok_def)
  show ?thesis using t
    by (cases ph) (auto simp: s same intro: dir_leaf_ok [OF d k u] dir_ids_ok [OF d r l])
qed

lemma dir_inv:
  assumes i: "sys_inv s" and d: "dir_change (y_used s) (y_kernel s) k'" and u: "y_used s \<subseteq> used'"
    and k: "kernel_ok k' used'"
  shows "sys_inv (s\<lparr>y_kernel := k', y_used := used'\<rparr>)"
proof -
  have r: "router_ok (y_router s) used'" using i u router_ok_mono unfolding sys_inv_def by blast
  have i': "kernel_ok (y_kernel s) (y_used s)" "router_ok (y_router s) (y_used s)"
    "memo_ok (y_router s) (y_kernel s)" "fence_ok (y_router s) (y_kernel s) (y_moving s)"
    "\<And>t ph. y_threads s t = Some ph \<Longrightarrow> thread_ok (y_router s) (y_kernel s) (y_used s) (y_moving s) ph"
    using i by (auto simp: sys_inv_def)
  show ?thesis unfolding sys_inv_def
    using k r dir_memo_ok [OF d i'(2,3)] dir_fence_ok [OF d i'(2,1,4)] dir_thread_ok [OF d i'(2,1) u i'(5)]
    by simp
qed

lemma make_kernel_ok:
  assumes c: "can_make P k" and k: "kernel_ok k used"
  shows "kernel_ok (make_dir P i k) (insert i used)"
proof -
  have keep: "cids (make_dir P i k) q = cids k q" if "cids k q \<noteq> 0" for q
    using that can_make_zero [OF c, of q] by (cases "q \<in> P") (simp_all add: cids_make)
  have f: "k_files (make_dir P i k) = k_files k" by (simp add: make_dir_def)
  have "cids (make_dir P i k) a \<noteq> 0" if "cids (make_dir P i k) q \<noteq> 0" "a \<in> cgroup_parents q" for q a
  proof (cases "q \<in> P")
    case True
    with c that(2) have "cids k a \<noteq> 0 \<or> a \<in> P" unfolding can_make_def by blast
    moreover have "i \<noteq> 0" using True that(1) by (simp add: cids_make)
    ultimately show ?thesis by (auto simp: cids_make)
  next
    case False
    then have "cids k q \<noteq> 0" using that(1) by (simp add: cids_make)
    then have "cids k a \<noteq> 0" using k that(2) unfolding kernel_ok_def cgroups_ok_def by blast
    then show ?thesis by (simp add: keep)
  qed
  moreover have "members_ok (make_dir P i k)"
    using k keep unfolding kernel_ok_def members_ok_def f by simp
  moreover have "cids (make_dir P i k) q \<in> insert 0 (insert i used)" for q
  proof -
    have "cids k q \<in> insert 0 used" using k unfolding kernel_ok_def by blast
    then show ?thesis by (auto simp: cids_make)
  qed
  ultimately show ?thesis unfolding kernel_ok_def cgroups_ok_def by blast
qed

lemma remove_kernel_ok:
  assumes c: "can_remove i k" "i \<noteq> 0" and k: "kernel_ok k used"
  shows "kernel_ok (remove_dir i k) used"
proof -
  note cr = cids_remove [OF c(2), of k]
  have f: "k_files (remove_dir i k) = k_files k" by (simp add: remove_dir_def)
  have "cids (remove_dir i k) a \<noteq> 0" if "cids (remove_dir i k) q \<noteq> 0" "a \<in> cgroup_parents q" for q a
  proof -
    have "cids k q \<noteq> 0" "cids k q \<noteq> i" using that(1) by (auto simp: cr split: if_splits)
    then have "cids k a \<noteq> 0" "cids k a \<noteq> i"
      using c(1) k that(2) unfolding can_remove_def kernel_ok_def cgroups_ok_def by blast+
    then show ?thesis by (simp add: cr)
  qed
  moreover have "cids (remove_dir i k) (cg_path k p) \<noteq> 0" if "read_proc_cgroup (k_files k p) \<noteq> []" for p
  proof -
    have "k_files k p \<noteq> None" using that by (cases "k_files k p") auto
    then show ?thesis using c(1) live_member [OF k that] unfolding can_remove_def cr by simp
  qed
  then have "members_ok (remove_dir i k)" unfolding members_ok_def f by blast
  moreover have "cids (remove_dir i k) q \<in> insert 0 used" for q
  proof -
    have "cids k q \<in> insert 0 used" using k unfolding kernel_ok_def by blast
    then show ?thesis by (simp add: cr)
  qed
  ultimately show ?thesis unfolding kernel_ok_def cgroups_ok_def by blast
qed

section \<open>Registrations\<close>

lemma registrations_inv:
  assumes i: "sys_inv s"
    and c: "br_paths r' = []" "br_fences r' = []" "br_revalidate r' = br_revalidate (y_router s)"
      "br_cgroup_hook r' = br_cgroup_hook (y_router s)" "br_read_hook r' = br_read_hook (y_router s)"
    and m: "fst ` set (br_map r') \<subseteq> y_used s - {0}"
    and g: "br_generation (y_router s) < br_generation r' \<or>
      br_generation r' = br_generation (y_router s) \<and> br_map r' = br_map (y_router s)"
  shows "sys_inv (s\<lparr>y_router := r'\<rparr>)"
proof -
  have n: "no_stale r' k = no_stale (y_router s) k" if "br_map r' = br_map (y_router s)" for k
    using that by (simp add: no_stale_def)
  have "walk_ids_ok r' k cg leaf mg ids" if "walk_ids_ok (y_router s) k cg leaf mg ids" for k cg leaf mg ids
    using g that by (auto simp: walk_ids_ok_def c n)
  then have "thread_ok r' k u mv ph" if "thread_ok (y_router s) k u mv ph" for k u mv ph
    using that g by (cases ph) (auto simp: c)
  moreover have "router_ok r' (y_used s)"
    using i m unfolding sys_inv_def router_ok_def c by simp
  ultimately show ?thesis using i by (simp add: sys_inv_def memo_ok_def fence_ok_def c)
qed

lemma register_inv:
  assumes i: "sys_inv s" and g: "br_generation (y_router s) \<noteq> - 1"
  shows "sys_inv (s\<lparr>y_router := snd (register_cgroup (y_kernel s) path b (y_router s))\<rparr>)"
proof (cases "cgroup_id (y_router s) (y_kernel s) path = 0")
  case True
  with i show ?thesis by (simp add: register_cgroup_def)
next
  case False
  have "router_ok (y_router s) (y_used s)" "kernel_ok (y_kernel s) (y_used s)" using i by (simp_all add: sys_inv_def)
  with False have "cgroup_id (y_router s) (y_kernel s) path \<in> y_used s"
    "fst ` set (br_map (y_router s)) \<subseteq> y_used s - {0}"
    using hookless(1) unfolding kernel_ok_def router_ok_def by auto
  with False show ?thesis
    by (intro registrations_inv [OF i])
       (auto simp: register_cgroup_def Let_def drop_caches_def om_simps word_less_succ [OF g])
qed

lemma fewer_registrations_inv:
  assumes i: "sys_inv s" and m: "fst ` set m \<subseteq> fst ` set (br_map (y_router s))"
    and g: "br_generation (y_router s) < gen \<or> gen = br_generation (y_router s) \<and> m = br_map (y_router s)"
  shows "sys_inv (s\<lparr>y_router := drop_caches ((y_router s)\<lparr>br_map := m, br_generation := gen\<rparr>)\<rparr>)"
proof (rule registrations_inv [OF i])
  have "fst ` set (br_map (y_router s)) \<subseteq> y_used s - {0}"
    using i unfolding sys_inv_def router_ok_def by blast
  with m show "fst ` set (br_map (drop_caches ((y_router s)\<lparr>br_map := m, br_generation := gen\<rparr>))) \<subseteq> y_used s - {0}"
    by (auto simp: drop_caches_def)
qed (use g in \<open>auto simp: drop_caches_def\<close>)

lemma unregister_inv:
  assumes i: "sys_inv s" and g: "br_generation (y_router s) \<noteq> - 1"
  shows "sys_inv (s\<lparr>y_router := snd (unregister_cgroup (y_kernel s) path (y_router s))\<rparr>)"
proof (cases "cgroup_id (y_router s) (y_kernel s) path = 0")
  case True
  with i show ?thesis by (simp add: unregister_cgroup_def)
next
  case False
  let ?c = "cgroup_id (y_router s) (y_kernel s) path" and ?m = "br_map (y_router s)"
  let ?gen = "if om_has ?c ?m then br_generation (y_router s) + 1 else br_generation (y_router s)"
  have "om_del ?c ?m = ?m" if "\<not> om_has ?c ?m"
    using that by (force simp: om_del_def filter_id_conv)
  then have "sys_inv (s\<lparr>y_router := drop_caches ((y_router s)\<lparr>br_map := om_del ?c ?m, br_generation := ?gen\<rparr>)\<rparr>)"
    using word_less_succ [OF g] by (intro fewer_registrations_inv [OF i]) (auto simp: om_simps)
  with False show ?thesis by (simp add: unregister_cgroup_def Let_def)
qed

lemma evict_inv:
  "sys_inv s \<Longrightarrow> br_generation (y_router s) \<noteq> - 1 \<Longrightarrow>
   sys_inv (s\<lparr>y_router := evict_cgroup_id i (y_router s)\<rparr>)"
  unfolding evict_cgroup_id_def by (rule fewer_registrations_inv) (auto simp: om_simps word_less_succ)

lemma invalidate_branch_inv:
  "sys_inv s \<Longrightarrow> br_generation (y_router s) \<noteq> - 1 \<Longrightarrow>
   sys_inv (s\<lparr>y_router := invalidate_branch b (y_router s)\<rparr>)"
  unfolding invalidate_branch_def by (rule fewer_registrations_inv) (auto simp: word_less_succ)

section \<open>Processes\<close>

lemma memo_ok_stat: "k_stat k' = k_stat k \<Longrightarrow> memo_ok r k' = memo_ok r k"
  by (simp add: memo_ok_def no_stale_def)

lemma walk_ids_ok_stat: "k_stat k' = k_stat k \<Longrightarrow> walk_ids_ok r k' cg leaf mg ids = walk_ids_ok r k cg leaf mg ids"
  by (simp add: walk_ids_ok_def no_stale_def)

lemma settled_stat: "k_stat k' = k_stat k \<Longrightarrow> settled r k' = settled r k"
  by (simp add: settled_def no_stale_def)

lemma thread_ok_fresher:
  assumes t: "thread_ok r k used moving ph" and st: "k_stat k' = k_stat k"
    and f: "\<And>p fo. p = phase_pid ph \<Longrightarrow> sample_ok k p fo \<Longrightarrow> sample_ok k' p fo \<and>
      (fresh k' moving' p fo \<longrightarrow> fresh k moving p fo \<and> k_files k' p = k_files k p)"
    and a: "\<And>p. p = phase_pid ph \<Longrightarrow> k_files k p \<noteq> None \<Longrightarrow> k_files k' p \<noteq> None"
    and tr: "\<And>p. p = phase_pid ph \<Longrightarrow> p \<in> set (fn_tracked (k_fence k)) \<Longrightarrow> p \<in> set (fn_tracked (k_fence k'))"
  shows "thread_ok r k' used moving' ph"
proof -
  have m: "member_ok k' moving' p fo cg" if "member_ok k moving p fo cg" "p = phase_pid ph" for p fo cg
    using that f [OF that(2)] a [OF that(2)] unfolding member_ok_def by metis
  have l: "leaf_ok k' used moving' p fo cg leaf"
    if "leaf_ok k used moving p fo cg leaf" "member_ok k moving p fo cg" "p = phase_pid ph" for p fo cg leaf
    using that f [OF that(3)] unfolding leaf_ok_def member_ok_def st by blast
  show ?thesis using t f tr
    by (cases ph) (auto simp: walk_ids_ok_stat [OF st] intro: m l)
qed

lemma process_inv:
  assumes i: "sys_inv s" and st: "k_stat k' = k_stat (y_kernel s)" and mo: "members_ok k'"
    and f: "fence_ok (y_router s) k' moving'"
    and t: "\<And>t ph. y_threads s t = Some ph \<Longrightarrow> thread_ok (y_router s) (y_kernel s) (y_used s) (y_moving s) ph \<Longrightarrow>
      thread_ok (y_router s) k' (y_used s) moving' ph"
  shows "sys_inv (s\<lparr>y_kernel := k', y_moving := moving'\<rparr>)"
proof -
  have "kernel_ok k' (y_used s)"
    using i mo unfolding sys_inv_def kernel_ok_def cgroups_ok_def st by simp
  with i f t memo_ok_stat [OF st] show ?thesis by (simp add: sys_inv_def)
qed

lemma joinable_members:
  assumes "members_ok k" "joinable k file" "k_stat k' = k_stat k" "k_files k' = (k_files k)(p \<mapsto> file)"
  shows "members_ok k'"
  using assms unfolding members_ok_def joinable_def by (auto simp: Let_def)

lemma kernel_ok_members: "sys_inv s \<Longrightarrow> members_ok (y_kernel s)"
  by (simp add: sys_inv_def kernel_ok_def)

lemma fence_ok_D:
  assumes "fence_ok r k moving" "map_of (br_fences r) p = Some e"
  shows "fe_generation e \<le> fn_generation (k_fence k)"
    "fe_generation e = fn_generation (k_fence k) \<Longrightarrow> p \<in> set (fn_tracked (k_fence k)) \<and> k_files k p \<noteq> None"
    "fe_generation e = fn_generation (k_fence k) \<Longrightarrow> p \<notin> moving \<Longrightarrow> settled r k \<Longrightarrow> fe_branch e = route r k p"
  using assms by (auto simp: fence_ok_def)

lemma route_files:
  "router_ok r used \<Longrightarrow> k_stat k' = k_stat k \<Longrightarrow> k_files k' p = k_files k p \<Longrightarrow> route r k' p = route r k p"
  by (simp add: route_hookless)

lemma move_inv:
  assumes i: "sys_inv s" and a: "k_files (y_kernel s) p \<noteq> None" and j: "joinable (y_kernel s) file"
  shows "sys_inv (s\<lparr>y_kernel := (y_kernel s)\<lparr>k_files := (k_files (y_kernel s))(p \<mapsto> file)\<rparr>,
                    y_moving := insert p (y_moving s)\<rparr>)"
    (is "sys_inv (s\<lparr>y_kernel := ?k, y_moving := ?mv\<rparr>)")
proof (rule process_inv [OF i])
  have r: "router_ok (y_router s) (y_used s)" and f: "fence_ok (y_router s) (y_kernel s) (y_moving s)"
    using i by (simp_all add: sys_inv_def)
  show "members_ok ?k" by (rule joinable_members [OF kernel_ok_members [OF i] j]) simp_all
  have "route (y_router s) ?k q = route (y_router s) (y_kernel s) q" if "q \<noteq> p" for q
    using that by (intro route_files [OF r]) simp_all
  moreover have "settled (y_router s) ?k = settled (y_router s) (y_kernel s)" by (rule settled_stat) simp
  ultimately show "fence_ok (y_router s) ?k ?mv"
    using f a unfolding fence_ok_def by auto
  show "thread_ok (y_router s) ?k (y_used s) ?mv ph"
    if "thread_ok (y_router s) (y_kernel s) (y_used s) (y_moving s) ph" for ph
    by (rule thread_ok_fresher [OF that]) (auto simp: sample_ok_def fresh_def)
qed simp

lemma fork_inv:
  assumes i: "sys_inv s" and a: "k_files (y_kernel s) p = None" and j: "joinable (y_kernel s) file"
  shows "sys_inv (s\<lparr>y_kernel := (y_kernel s)\<lparr>k_files := (k_files (y_kernel s))(p \<mapsto> file)\<rparr>\<rparr>)"
    (is "sys_inv (s\<lparr>y_kernel := ?k\<rparr>)")
proof -
  have r: "router_ok (y_router s) (y_used s)" and f: "fence_ok (y_router s) (y_kernel s) (y_moving s)"
    using i by (simp_all add: sys_inv_def)
  have m: "members_ok ?k" by (rule joinable_members [OF kernel_ok_members [OF i] j]) simp_all
  have rt: "route (y_router s) ?k q = route (y_router s) (y_kernel s) q" if "q \<noteq> p" for q
    using that by (intro route_files [OF r]) simp_all
  have st: "settled (y_router s) ?k = settled (y_router s) (y_kernel s)" by (rule settled_stat) simp
  have "fence_ok (y_router s) ?k (y_moving s)"
    unfolding fence_ok_def
  proof (intro allI impI conjI)
    fix q e assume e: "map_of (br_fences (y_router s)) q = Some e"
    note d = fence_ok_D [OF f e]
    show "fe_generation e \<le> fn_generation (k_fence ?k)" using d(1) by simp
    assume g: "fe_generation e = fn_generation (k_fence ?k)"
    with d(2) a have "q \<noteq> p" by auto
    with d(2) g show "q \<in> set (fn_tracked (k_fence ?k))" "k_files ?k q \<noteq> None" by auto
    assume "q \<notin> y_moving s" "settled (y_router s) ?k"
    with d(3) g rt \<open>q \<noteq> p\<close> st show "fe_branch e = route (y_router s) ?k q" by simp
  qed
  moreover have "thread_ok (y_router s) ?k (y_used s) (y_moving s) ph"
    if "thread_ok (y_router s) (y_kernel s) (y_used s) (y_moving s) ph" for ph
  proof -
    have "member_ok ?k (y_moving s) q fo cg" "q \<noteq> p" if "member_ok (y_kernel s) (y_moving s) q fo cg" for q fo cg
      using that a by (auto simp: member_ok_def sample_ok_def fresh_def)
    moreover have "leaf_ok ?k (y_used s) (y_moving s) q fo cg leaf"
      if "leaf_ok (y_kernel s) (y_used s) (y_moving s) q fo cg leaf" for q fo cg leaf
      using that by (simp add: leaf_ok_def fresh_def)
    ultimately show ?thesis using that
      by (cases ph) (auto simp: sample_ok_def walk_ids_ok_stat [of ?k "y_kernel s"])
  qed
  ultimately have "sys_inv (s\<lparr>y_kernel := ?k, y_moving := y_moving s\<rparr>)"
    by (intro process_inv [OF i _ m]) simp_all
  then show ?thesis by simp
qed

lemma bump_inv:
  assumes i: "sys_inv s" and g: "fn_generation (k_fence (y_kernel s)) \<noteq> - 1"
  shows "sys_inv (s\<lparr>y_kernel := (y_kernel s)\<lparr>k_fence := on_cgroup_attach (k_fence (y_kernel s))\<rparr>,
                    y_moving := y_moving s - P\<rparr>)"
    (is "sys_inv (s\<lparr>y_kernel := ?k, y_moving := ?mv\<rparr>)")
proof (rule process_inv [OF i])
  have lt: "fn_generation (k_fence (y_kernel s)) < fn_generation (k_fence ?k)"
    using word_less_succ [OF g] by (simp add: on_cgroup_attach_def)
  show "members_ok ?k" using kernel_ok_members [OF i] by (simp add: members_ok_def)
  have f: "fence_ok (y_router s) (y_kernel s) (y_moving s)" using i by (simp add: sys_inv_def)
  have "fe_generation e < fn_generation (k_fence ?k)" if "map_of (br_fences (y_router s)) q = Some e" for q e
    using fence_ok_D(1) [OF f that] lt by (rule le_less_trans)
  then show "fence_ok (y_router s) ?k ?mv"
    unfolding fence_ok_def by (metis less_imp_le less_irrefl)
  have "\<not> fresh ?k ?mv q fo" if "sample_ok (y_kernel s) q fo" for q fo
    using that lt by (auto simp: sample_ok_def fresh_def)
  moreover have "sample_ok ?k q fo" if "sample_ok (y_kernel s) q fo" for q fo
    using that lt by (auto simp: sample_ok_def on_cgroup_attach_def)
  ultimately show "thread_ok (y_router s) ?k (y_used s) ?mv ph"
    if "thread_ok (y_router s) (y_kernel s) (y_used s) (y_moving s) ph" for ph
    by (intro thread_ok_fresher [OF that]) (auto simp: on_cgroup_attach_def)
qed simp

lemma exit_generation:
  assumes "fn_generation f \<noteq> - 1"
  shows "fn_generation f < fn_generation (on_process_exit (Some p) f) \<or>
    fn_generation (on_process_exit (Some p) f) = fn_generation f \<and> p \<notin> set (fn_tracked f) \<and>
    fn_tracked (on_process_exit (Some p) f) = fn_tracked f"
    "q \<noteq> p \<Longrightarrow> q \<in> set (fn_tracked f) \<Longrightarrow> q \<in> set (fn_tracked (on_process_exit (Some p) f))"
  using word_less_succ [OF assms] by (auto simp: on_process_exit_def)

lemma exit_inv:
  assumes i: "sys_inv s" and g: "fn_generation (k_fence (y_kernel s)) \<noteq> - 1" and idle: "idle (y_threads s) p"
  shows "sys_inv (s\<lparr>y_kernel := (y_kernel s)\<lparr>k_files := (k_files (y_kernel s))(p := None),
                       k_fence := on_process_exit (Some p) (k_fence (y_kernel s))\<rparr>\<rparr>)"
    (is "sys_inv (s\<lparr>y_kernel := ?k\<rparr>)")
proof -
  let ?old = "y_kernel s" and ?r = "y_router s"
  have r: "router_ok ?r (y_used s)" and f: "fence_ok ?r ?old (y_moving s)"
    using i by (simp_all add: sys_inv_def)
  note eg = exit_generation [OF g, where p = p]
  have ge: "fn_generation (k_fence ?old) \<le> fn_generation (k_fence ?k)" using eg(1) by auto
  have m: "members_ok ?k" using kernel_ok_members [OF i] by (auto simp: members_ok_def)
  have rt: "route ?r ?k q = route ?r ?old q" if "q \<noteq> p" for q
    using that by (intro route_files [OF r]) simp_all
  have st: "settled ?r ?k = settled ?r ?old" by (rule settled_stat) simp
  have "fence_ok ?r ?k (y_moving s)"
    unfolding fence_ok_def
  proof (intro allI impI conjI)
    fix q e assume e: "map_of (br_fences ?r) q = Some e"
    note d = fence_ok_D [OF f e]
    show "fe_generation e \<le> fn_generation (k_fence ?k)" using d(1) ge by (rule order_trans)
    assume "fe_generation e = fn_generation (k_fence ?k)"
    with d(1) have ng: "\<not> fn_generation (k_fence ?old) < fn_generation (k_fence ?k)" by auto
    then have "\<not> fn_generation (k_fence ?old) < fn_generation (on_process_exit (Some p) (k_fence ?old))" by simp
    with eg(1) have u: "fn_generation (k_fence ?k) = fn_generation (k_fence ?old)"
      "p \<notin> set (fn_tracked (k_fence ?old))" "fn_tracked (k_fence ?k) = fn_tracked (k_fence ?old)"
      by (simp_all add: disj_not1)
    have g: "fe_generation e = fn_generation (k_fence ?old)"
      using \<open>fe_generation e = fn_generation (k_fence ?k)\<close> u(1) by (rule trans)
    from d(2) [OF g] u(2) have "q \<noteq> p" by auto
    with d(2) [OF g] u(3) show "q \<in> set (fn_tracked (k_fence ?k))" "k_files ?k q \<noteq> None" by auto
    assume "q \<notin> y_moving s" "settled ?r ?k"
    with d(3) [OF g] rt [OF \<open>q \<noteq> p\<close>] st show "fe_branch e = route ?r ?k q" by simp
  qed
  moreover have "thread_ok ?r ?k (y_used s) (y_moving s) ph"
    if t: "y_threads s t = Some ph" "thread_ok ?r ?old (y_used s) (y_moving s) ph" for t ph
  proof (rule thread_ok_fresher [OF t(2)])
    have np: "phase_pid ph \<noteq> p" using idle t(1) by (auto simp: idle_def)
    fix q assume q: "q = phase_pid ph"
    show "q \<in> set (fn_tracked (k_fence ?k))" if "q \<in> set (fn_tracked (k_fence ?old))"
      using eg(2) np q that by simp
    show "k_files ?k q \<noteq> None" if "k_files ?old q \<noteq> None" using that np q by simp
    fix fo assume so: "sample_ok ?old q fo"
    have "fresh ?old (y_moving s) q fo" if "fresh ?k (y_moving s) q fo"
      using so that eg(1) by (auto simp: sample_ok_def fresh_def)
    moreover have "sample_ok ?k q fo"
      using so ge eg(2) np q by (auto simp: sample_ok_def)
    ultimately show "sample_ok ?k q fo \<and>
        (fresh ?k (y_moving s) q fo \<longrightarrow> fresh ?old (y_moving s) q fo \<and> k_files ?k q = k_files ?old q)"
      using np q by simp
  qed simp
  ultimately have "sys_inv (s\<lparr>y_kernel := ?k, y_moving := y_moving s\<rparr>)"
    by (intro process_inv [OF i _ m]) simp_all
  then show ?thesis by simp
qed

end
