(* ===== verification/RouterProps.thy ===== *)
theory RouterProps
  imports RouterInv
begin

text \<open>
  What the router promises: its caches are never seen, whatever runs in between; they stay
  bounded; and the walk answers what a search over all the directories at or above the process's
  group would (\<open>dirs_above\<close>), except that it never finds a registration of the hierarchy's
  root. Two assumptions are needed, that a process does not exit during its own request and that a
  directory is removed after its registration; \<open>RouterOps\<close> shows what happens without them.
\<close>

section \<open>Requests keep the invariant\<close>

lemma om_get_put: "map_of (om_put k v m) k' = (if k' = k then Some v else map_of m k')"
  by (simp add: om_simps)

lemma fence_cache_store_ok:
  assumes f: "fence_ok r k mv" and le: "g \<le> fn_generation (k_fence k)"
    and e: "g = fn_generation (k_fence k) \<Longrightarrow> p \<in> set (fn_tracked (k_fence k)) \<and> k_files k p \<noteq> None \<and>
      (p \<notin> mv \<longrightarrow> settled r k \<longrightarrow> b = route r k p)"
  shows "fence_ok (fence_cache_store p b g r) k mv"
proof -
  have s: "settled (fence_cache_store p b g r) k = settled r k" "route (fence_cache_store p b g r) k q = route r k q"
    for q by (simp_all add: fence_cache_store_def settled_def no_stale_def route_def cgroup_id_def [abs_def] proc_cgroup_def Let_def)
  show ?thesis unfolding fence_ok_def s
  proof (intro allI impI)
    fix q x assume "map_of (br_fences (fence_cache_store p b g r)) q = Some x"
    then have "q = p \<and> x = \<lparr>fe_branch = b, fe_generation = g\<rparr> \<or> map_of (br_fences r) q = Some x"
      by (auto simp: fence_cache_store_def Let_def om_get_put split: if_splits)
    then show "fe_generation x \<le> fn_generation (k_fence k) \<and>
       (fe_generation x = fn_generation (k_fence k) \<longrightarrow> q \<in> set (fn_tracked (k_fence k)) \<and> k_files k q \<noteq> None \<and>
         (q \<notin> mv \<longrightarrow> settled r k \<longrightarrow> fe_branch x = route r k q))"
      using le e f unfolding fence_ok_def by auto
  qed
qed

lemma fence_store_opt_ok:
  assumes f: "fence_ok r k mv" and m: "member_ok k mv p fo cg"
    and b: "fresh k mv p fo \<Longrightarrow> settled r k \<Longrightarrow> b = route r k p"
  shows "fence_ok (fence_store_opt p b fo r) k mv"
proof (cases fo)
  case (Some g)
  with m b show ?thesis
    unfolding fence_store_opt_def
    by (auto simp: member_ok_def sample_ok_def fresh_def intro!: fence_cache_store_ok [OF f])
qed (simp add: fence_store_opt_def f)

lemma memo_store_ok:
  assumes m: "memo_ok r k"
    and b: "(leaf \<noteq> 0 \<and> cids k (cgroup_root @ cg) = leaf) \<or> (\<not> br_revalidate r \<and> no_stale r k) \<Longrightarrow>
      b = nearest (br_map r) (cids k) (cgroup_root @ cg)"
  shows "memo_ok (memo_store cg leaf b r) k"
proof -
  have s: "no_stale (memo_store cg leaf b r) k = no_stale r k" "br_map (memo_store cg leaf b r) = br_map r"
    "br_revalidate (memo_store cg leaf b r) = br_revalidate r"
    by (simp_all add: memo_store_def no_stale_def Let_def)
  show ?thesis unfolding memo_ok_def s
  proof (intro allI impI)
    fix q x
    assume "map_of (br_paths (memo_store cg leaf b r)) q = Some x"
      and c: "(pe_leaf x \<noteq> 0 \<and> cids k (cgroup_root @ q) = pe_leaf x) \<or> (\<not> br_revalidate r \<and> no_stale r k)"
    then have "q = cg \<and> x = \<lparr>pe_leaf = leaf, pe_branch = b\<rparr> \<or> map_of (br_paths r) q = Some x"
      by (auto simp: memo_store_def Let_def om_get_put split: if_splits)
    then show "pe_branch x = nearest (br_map r) (cids k) (cgroup_root @ q)"
      using b c m unfolding memo_ok_def by auto
  qed
qed

text \<open>What a request changes outside of itself: the caches, and more tracked processes.\<close>

definition only_caches :: "router \<Rightarrow> kernel \<Rightarrow> router \<Rightarrow> kernel \<Rightarrow> bool" where
  "only_caches r k r' k' \<longleftrightarrow> r' = r\<lparr>br_paths := br_paths r', br_fences := br_fences r'\<rparr> \<and>
     k' = k\<lparr>k_fence := k_fence k'\<rparr> \<and> fn_generation (k_fence k') = fn_generation (k_fence k) \<and>
     set (fn_tracked (k_fence k)) \<subseteq> set (fn_tracked (k_fence k'))"

lemma only_caches_D:
  assumes "only_caches r k r' k'"
  shows "br_map r' = br_map r" "br_generation r' = br_generation r" "br_revalidate r' = br_revalidate r"
    "br_cgroup_hook r' = br_cgroup_hook r" "br_read_hook r' = br_read_hook r" "br_fence_on r' = br_fence_on r"
    "k_stat k' = k_stat k" "k_files k' = k_files k" "fn_generation (k_fence k') = fn_generation (k_fence k)"
    "set (fn_tracked (k_fence k)) \<subseteq> set (fn_tracked (k_fence k'))"
proof -
  note o = assms [unfolded only_caches_def]
  from o have r: "r' = r\<lparr>br_paths := br_paths r', br_fences := br_fences r'\<rparr>" by simp
  from arg_cong [OF r, of br_map] show "br_map r' = br_map r" by simp
  from arg_cong [OF r, of br_generation] show "br_generation r' = br_generation r" by simp
  from arg_cong [OF r, of br_revalidate] show "br_revalidate r' = br_revalidate r" by simp
  from arg_cong [OF r, of br_cgroup_hook] show "br_cgroup_hook r' = br_cgroup_hook r" by simp
  from arg_cong [OF r, of br_read_hook] show "br_read_hook r' = br_read_hook r" by simp
  from arg_cong [OF r, of br_fence_on] show "br_fence_on r' = br_fence_on r" by simp
  from o have k: "k' = k\<lparr>k_fence := k_fence k'\<rparr>" by simp
  from arg_cong [OF k, of k_stat] show "k_stat k' = k_stat k" by simp
  from arg_cong [OF k, of k_files] show "k_files k' = k_files k" by simp
  from o show "fn_generation (k_fence k') = fn_generation (k_fence k)"
    "set (fn_tracked (k_fence k)) \<subseteq> set (fn_tracked (k_fence k'))" by simp_all
qed

lemma fence_track_more:
  "fence_track p f = (ok, f') \<Longrightarrow> fn_generation f' = fn_generation f \<and> set (fn_tracked f) \<subseteq> set (fn_tracked f') \<and>
   (ok \<longrightarrow> p \<in> set (fn_tracked f'))"
  by (auto simp: fence_track_def split: if_splits)

lemma walk_finish_caches:
  "walk_finish p fo cg leaf mg ids r = (b, r') \<Longrightarrow>
   r' = r\<lparr>br_paths := br_paths r', br_fences := br_fences r'\<rparr>"
  by (auto simp: walk_finish_def fence_store_opt_def fence_cache_store_def memo_store_def Let_def
      split: if_splits option.splits)

lemma fence_store_opt_caches:
  "fence_store_opt p b fo r = r\<lparr>br_paths := br_paths (fence_store_opt p b fo r), br_fences := br_fences (fence_store_opt p b fo r)\<rparr>"
  by (auto simp: fence_store_opt_def fence_cache_store_def Let_def split: option.splits)

lemma step_caches:
  assumes "resolve_step ph r k = (ph', r', k')"
  shows "only_caches r k r' k' \<and> phase_pid ph' = phase_pid ph"
proof (cases ph)
  case (PTrack p)
  obtain ok f' where f: "fence_track p (k_fence k) = (ok, f')" by force
  with PTrack fence_track_more [OF f] show ?thesis using assms
    by (auto simp: only_caches_def split: if_splits)
next
  case (PMemo p fo cg check leaf)
  then show ?thesis using assms fence_store_opt_caches [of p _ fo r]
    by (auto simp: only_caches_def split: option.splits)
next
  case (PFinish p fo cg leaf mg ids)
  then show ?thesis using assms walk_finish_caches [of p fo cg leaf mg ids r]
    by (auto simp: only_caches_def split: prod.splits)
qed (use assms in \<open>auto simp: only_caches_def Let_def split: option.splits if_splits\<close>)

lemma only_caches_thread:
  assumes o: "only_caches r k r' k'" and t: "thread_ok r k used mv ph"
  shows "thread_ok r' k' used mv ph"
proof -
  note d = only_caches_D [OF o]
  have "thread_ok r k' used mv ph"
    using d(7-10) by (intro thread_ok_fresher [OF t]) (auto simp: sample_ok_def fresh_def)
  moreover have "thread_ok r' k' used mv ph = thread_ok r k' used mv ph"
    by (cases ph) (auto simp: walk_ids_ok_def no_stale_def d)
  ultimately show ?thesis by simp
qed

lemma caches_inv:
  assumes i: "sys_inv s" and o: "only_caches (y_router s) (y_kernel s) r' k'"
    and m: "memo_ok r' k'" and f: "fence_ok r' k' (y_moving s)" and r: "router_ok r' (y_used s)"
    and t: "thread_ok r' k' (y_used s) (y_moving s) ph'"
  shows "sys_inv (s\<lparr>y_router := r', y_kernel := k', y_threads := (y_threads s)(t \<mapsto> ph')\<rparr>)"
proof -
  note d = only_caches_D [OF o]
  have "kernel_ok k' (y_used s)"
    using i unfolding sys_inv_def kernel_ok_def cgroups_ok_def members_ok_def by (simp add: d)
  moreover have "thread_ok r' k' (y_used s) (y_moving s) ph" if "y_threads s u = Some ph" for u ph
    using i that only_caches_thread [OF o] unfolding sys_inv_def by blast
  ultimately show ?thesis using m f r t unfolding sys_inv_def by simp
qed

lemma memo_hit_right:
  assumes i: "kernel_ok k used" "router_ok r used" "memo_ok r k" and f: "read_proc_cgroup (k_files k p) = cg" "cg \<noteq> []"
    and l: "br_revalidate r \<Longrightarrow> leaf = cids k (cgroup_root @ cg)" and s: "settled r k"
    and h: "memo_lookup cg (br_revalidate r) leaf r = Some b"
  shows "b = route r k p"
proof -
  from h obtain e where e: "map_of (br_paths r) cg = Some e" "b = pe_branch e"
    "\<not> br_revalidate r \<or> pe_leaf e = leaf"
    by (auto simp: memo_lookup_def split: option.splits if_splits)
  have "cids k (cgroup_root @ cg) \<noteq> 0" using live_member [OF i(1), of p] f by simp
  with e(3) l s have "(pe_leaf e \<noteq> 0 \<and> cids k (cgroup_root @ cg) = pe_leaf e) \<or> (\<not> br_revalidate r \<and> no_stale r k)"
    unfolding settled_def by auto
  with i(3) e(1) have "pe_branch e = nearest (br_map r) (cids k) (cgroup_root @ cg)"
    unfolding memo_ok_def by blast
  with e(2) f show ?thesis by (simp add: route_hookless [OF i(2)])
qed

lemma ids_right:
  assumes "ids = filter (\<lambda>i. i \<noteq> 0) (map (cids k) (cgroups_above path))"
  shows "branch_for_cgroup_ids m ids = nearest m (cids k) path"
  unfolding assms branch_for_filter nearest_def ..

lemma path_ids_live:
  "path \<noteq> [] \<Longrightarrow> path_ids cid (cid path) True path = filter (\<lambda>i. i \<noteq> 0) (map cid (cgroups_above path))"
  using path_ids_above [of path cid "cid path" True] by (simp add: cgroups_above_def)

lemma cgroup_root_append [simp]: "cgroup_root @ cg \<noteq> []"
  by (simp add: cgroup_root_def)

lemma finish_ok:
  assumes i: "kernel_ok k used" "router_ok r used" "memo_ok r k" "fence_ok r k mv"
    and t: "member_ok k mv p fo cg" "leaf_ok k used mv p fo cg leaf" "walk_ids_ok r k cg leaf mg ids"
    and w: "walk_finish p fo cg leaf mg ids r = (b, r')"
  shows "memo_ok r' k \<and> fence_ok r' k mv \<and> router_ok r' used"
proof (cases "br_generation r = mg")
  case True
  let ?m = "memo_store cg leaf b r"
  have b: "b = branch_for_cgroup_ids (br_map r) ids" and r': "r' = fence_store_opt p b fo ?m"
    using w True by (auto simp: walk_finish_def Let_def)
  have near: "b = nearest (br_map r) (cids k) (cgroup_root @ cg)"
    if "leaf \<noteq> 0 \<and> cids k (cgroup_root @ cg) = leaf"
    using t(3) that ids_right unfolding b walk_ids_ok_def by blast
  have m: "memo_ok ?m k"
    using near t(3) True unfolding walk_ids_ok_def b by (intro memo_store_ok [OF i(3)]) auto
  have s: "settled ?m k = settled r k" "route ?m k q = route r k q" "fence_ok ?m k mv = fence_ok r k mv" for q
    by (simp_all add: memo_store_def settled_def no_stale_def route_def cgroup_id_def [abs_def] proc_cgroup_def
        Let_def fence_ok_def)
  have "b = route r k p" if "fresh k mv p fo"
  proof -
    have "read_proc_cgroup (k_files k p) = cg" "cg \<noteq> []" "cids k (cgroup_root @ cg) = leaf"
      using t that by (auto simp: member_ok_def leaf_ok_def)
    with near live_member [OF i(1), of p] show ?thesis by (simp add: route_hookless [OF i(2)])
  qed
  then have "fence_ok r' k mv"
    unfolding r' using i(4) s by (intro fence_store_opt_ok [OF _ t(1)]) simp_all
  moreover have "memo_ok r' k" "router_ok r' used"
  proof -
    have "br_paths r' = br_paths ?m" "br_map r' = br_map r" "br_revalidate r' = br_revalidate r"
      "br_cgroup_hook r' = br_cgroup_hook r" "br_read_hook r' = br_read_hook r"
      by (simp_all add: r' fence_store_opt_def fence_cache_store_def memo_store_def Let_def split: option.splits)
    note same = this
    then show "memo_ok r' k" using m by (simp add: memo_ok_def no_stale_def memo_store_def Let_def)
    have "leaf \<in> insert 0 used" using t(2) by (simp add: leaf_ok_def)
    then show "router_ok r' used" using i(2) unfolding router_ok_def same
      by (auto simp: memo_store_def Let_def om_get_put split: if_splits)
  qed
  ultimately show ?thesis by blast
next
  case False
  with w i show ?thesis by (auto simp: walk_finish_def Let_def)
qed

lemma memo_step_ok:
  assumes i: "kernel_ok k used" "router_ok r used" "memo_ok r k" "fence_ok r k mv"
    and t: "member_ok k mv p fo cg" "br_revalidate r \<Longrightarrow> leaf_ok k used mv p fo cg leaf"
    and h: "memo_lookup cg (br_revalidate r) leaf r = Some b"
  shows "fence_ok (fence_store_opt p b fo r) k mv"
proof (rule fence_store_opt_ok [OF i(4) t(1)])
  assume f: "fresh k mv p fo" and s: "settled r k"
  then have "read_proc_cgroup (k_files k p) = cg" "cg \<noteq> []" using t(1) by (auto simp: member_ok_def)
  moreover have "leaf = cids k (cgroup_root @ cg)" if "br_revalidate r"
    using t(2) [OF that] f by (simp add: leaf_ok_def)
  ultimately show "b = route r k p" by (intro memo_hit_right [OF i(1-3) _ _ _ s h]) simp_all
qed

lemma tracked_fence_ok:
  assumes o: "only_caches r k r k'" and r: "router_ok r used" and f: "fence_ok r k mv"
  shows "fence_ok r k' mv"
proof -
  note d = only_caches_D [OF o]
  have "route r k' p = route r k p" for p by (rule route_files [OF r]) (simp_all add: d)
  then show ?thesis using f d(10) settled_stat [OF d(7)] unfolding fence_ok_def d by auto
qed

lemma thread_advances:
  assumes i: "kernel_ok k used" "router_ok r used" "memo_ok r k" "fence_ok r k mv"
    and t: "thread_ok r k used mv ph" and st: "resolve_step ph r k = (ph', r', k')"
  shows "memo_ok r' k' \<and> fence_ok r' k' mv \<and> router_ok r' used \<and> thread_ok r' k' used mv ph'"
proof -
  have leaf: "leaf_ok k used mv p fo cg (cids k (cgroup_root @ cg))" for p fo cg
    using i(1) unfolding kernel_ok_def leaf_ok_def by blast
  have fresh: "read_proc_cgroup (k_files k p) = cg" if "member_ok k mv p fo cg" "fresh k mv p fo" for p fo cg
    using that by (simp add: member_ok_def)
  show ?thesis
  proof (cases ph)
    case (PTrack p)
    obtain ok f' where f: "fence_track p (k_fence k) = (ok, f')" by force
    with st PTrack have k': "k' = k\<lparr>k_fence := f'\<rparr>" "r' = r" "ph' = (if ok then PSample p else PMember p None)"
      by auto
    have "memo_ok r k'" using i(3) memo_ok_stat [of k' k r] by (simp add: k')
    moreover have "fence_ok r k' mv"
      using step_caches [OF st] tracked_fence_ok [OF _ i(2,4)] k'(2) by blast
    moreover have "thread_ok r k' used mv ph'"
      using fence_track_more [OF f] by (auto simp: k' sample_ok_def)
    ultimately show ?thesis using i(2) k'(2) by simp
  next
    case (PMember p fo)
    then show ?thesis using i t st
      by (auto simp: Let_def hookless [OF i(2)] member_ok_def split: if_splits)
         (rule ccontr, simp)
  next
    case (PLeaf p fo cg)
    have "ph' = PMemo p fo cg (br_revalidate r) (if br_revalidate r then cids k (cgroup_root @ cg) else 0)"
      "r' = r" "k' = k"
      using PLeaf st by (simp_all add: Let_def hookless [OF i(2)] cong: if_cong) auto
    with PLeaf i t leaf show ?thesis by simp
  next
    case (PMemo p fo cg check leaf)
    show ?thesis
    proof (cases "memo_lookup cg check leaf r")
      case None
      then show ?thesis using PMemo i t st by auto
    next
      case (Some b)
      with PMemo st have e: "ph' = PDone p b" "r' = fence_store_opt p b fo r" "k' = k" by auto
      have m: "member_ok k mv p fo cg" "check = br_revalidate r" "check \<longrightarrow> leaf_ok k used mv p fo cg leaf"
        using t PMemo by simp_all
      have "fence_ok r' k mv" unfolding e
        using m Some by (intro memo_step_ok [OF i m(1)]) simp_all
      moreover have "memo_ok r' k" "router_ok r' used"
        using i(2,3) by (simp_all add: e fence_store_opt_def fence_cache_store_def memo_ok_def router_ok_def
            no_stale_def Let_def split: option.splits)
      ultimately show ?thesis by (simp add: e)
    qed
  next
    case (PWalk p fo cg check leaf mg)
    let ?path = "cgroup_root @ cg"
    let ?leaf = "if check then leaf else cids k ?path"
    have e: "ph' = PFinish p fo cg ?leaf mg (path_ids (cids k) ?leaf True ?path)" "r' = r" "k' = k"
      using PWalk st by (simp_all add: Let_def hookless [OF i(2)] cgroup_path_ids_def cong: if_cong) auto
    have "walk_ids_ok r k cg ?leaf mg (path_ids (cids k) ?leaf True ?path)"
      using PWalk t path_ids_live [OF cgroup_root_append, of "cids k" cg]
        walk_nearest [OF cgroup_root_append, of "br_map r" "cids k" cg]
      by (auto simp: walk_ids_ok_def)
    with PWalk t leaf i show ?thesis by (auto simp: e)
  next
    case (PFinish p fo cg leaf mg ids)
    obtain b r1 where w: "walk_finish p fo cg leaf mg ids r = (b, r1)" by force
    with PFinish st have e: "ph' = PDone p b" "r' = r1" "k' = k" by auto
    from finish_ok [OF i _ _ _ w] PFinish t show ?thesis by (simp add: e)
  qed (use i t st in \<open>auto simp: sample_ok_def split: option.splits\<close>)
qed

lemma run_inv:
  assumes i: "sys_inv s" and t: "y_threads s t = Some ph"
    and st: "resolve_step ph (y_router s) (y_kernel s) = (ph', r', k')"
  shows "sys_inv (s\<lparr>y_router := r', y_kernel := k', y_threads := (y_threads s)(t \<mapsto> ph')\<rparr>)"
proof -
  have "kernel_ok (y_kernel s) (y_used s)" "router_ok (y_router s) (y_used s)"
    "memo_ok (y_router s) (y_kernel s)" "fence_ok (y_router s) (y_kernel s) (y_moving s)"
    "thread_ok (y_router s) (y_kernel s) (y_used s) (y_moving s) ph"
    using i t by (simp_all add: sys_inv_def)
  from thread_advances [OF this st] step_caches [OF st] show ?thesis
    by (intro caches_inv [OF i]) simp_all
qed

lemma begin_inv: "sys_inv s \<Longrightarrow> sys_inv (s\<lparr>y_threads := (y_threads s)(t \<mapsto> PStart p)\<rparr>)"
  by (simp add: sys_inv_def)

lemma end_inv: "sys_inv s \<Longrightarrow> sys_inv (s\<lparr>y_threads := (y_threads s)(t := None)\<rparr>)"
  by (simp add: sys_inv_def)

lemma mkdir_inv:
  assumes i: "sys_inv s" and c: "can_make P (y_kernel s)" "j \<noteq> 0" "j \<notin> y_used s"
  shows "sys_inv (s\<lparr>y_kernel := make_dir P j (y_kernel s), y_used := insert j (y_used s)\<rparr>)"
proof -
  have k: "kernel_ok (y_kernel s) (y_used s)" using i by (simp add: sys_inv_def)
  show ?thesis
    by (rule dir_inv [OF i dir_change_make [OF c(1,3,2) k] _ make_kernel_ok [OF c(1) k]]) blast
qed

lemma rmdir_inv:
  assumes i: "sys_inv s" and c: "can_remove j (y_kernel s)" "j \<noteq> 0"
  shows "sys_inv (s\<lparr>y_kernel := remove_dir j (y_kernel s)\<rparr>)"
proof -
  have k: "kernel_ok (y_kernel s) (y_used s)" using i by (simp add: sys_inv_def)
  have "sys_inv (s\<lparr>y_kernel := remove_dir j (y_kernel s), y_used := y_used s\<rparr>)"
    by (rule dir_inv [OF i dir_change_remove [OF c] _ remove_kernel_ok [OF c k]]) blast
  then show ?thesis by simp
qed

lemma step_inv: "sys_step False s s' \<Longrightarrow> sys_inv s \<Longrightarrow> sys_inv s'"
proof (induction rule: sys_step.induct)
  case (Exit p)
  then show ?case by (intro exit_inv) simp_all
next
  case (Run t ph ph' r' k')
  then show ?case by (intro run_inv)
qed (blast intro: begin_inv end_inv register_inv unregister_inv evict_inv invalidate_branch_inv move_inv
      bump_inv fork_inv mkdir_inv rmdir_inv)+

lemma init_inv: "sys_init s \<Longrightarrow> sys_inv s"
  by (auto simp: sys_init_def sys_inv_def kernel_ok_def router_ok_def memo_ok_def fence_ok_def new_router_def)

lemma reach_inv: "sys_reach False s \<Longrightarrow> sys_inv s"
  by (induction rule: sys_reach.induct) (auto intro: init_inv step_inv)

section \<open>Routing is strict\<close>

lemma resolve_right:
  assumes i: "sys_inv s" and st: "settled (y_router s) (y_kernel s)" and p: "p \<notin> y_moving s"
  shows "fst (resolve p (y_router s) (y_kernel s)) = route (y_router s) (y_kernel s) p"
proof -
  let ?r = "y_router s" and ?k = "y_kernel s"
  have o: "kernel_ok ?k (y_used s)" "router_ok ?r (y_used s)" "memo_ok ?r ?k" "fence_ok ?r ?k (y_moving s)"
    using i by (simp_all add: sys_inv_def)
  note h = hookless [OF o(2)]
  show ?thesis
  proof (cases "if br_fence_on ?r then fence_lookup p (fn_generation (k_fence ?k)) ?r else None")
    case (Some b)
    then obtain e where "map_of (br_fences ?r) p = Some e" "fe_generation e = fn_generation (k_fence ?k)" "b = fe_branch e"
      by (auto simp: fence_lookup_def split: if_splits option.splits)
    with fence_ok_D(3) [OF o(4)] p st have "b = route ?r ?k p" by simp
    with Some show ?thesis by (simp add: resolve_def)
  next
    case None
    obtain tracked f where t: "(if br_fence_on ?r then fence_track p (k_fence ?k) else (False, k_fence ?k)) = (tracked, f)"
      by force
    let ?cg = "read_proc_cgroup (k_files ?k p)" and ?path = "cg_path ?k p"
    have cid: "cids (?k\<lparr>k_fence := f\<rparr>) = cids ?k" by simp
    show ?thesis
    proof (cases "memo_lookup ?cg (br_revalidate ?r) (if br_revalidate ?r then cids ?k ?path else 0) ?r")
      case (Some b)
      have "b = route ?r ?k p" if "?cg \<noteq> []"
        by (rule memo_hit_right [OF o(1-3) refl that _ st Some]) simp
      with Some None show ?thesis
        by (auto simp: resolve_def t h Let_def cid route_hookless [OF o(2)])
    next
      case m: None
      have "fst (walk_finish p fo ?cg (cids ?k ?path) mg (path_ids (cids ?k) (cids ?k ?path) True ?path) ?r) =
          nearest (br_map ?r) (cids ?k) ?path" for fo mg
        using walk_nearest [OF cgroup_root_append, of "br_map ?r" "cids ?k" ?cg] by (simp add: walk_finish_def Let_def)
      moreover have "(if br_revalidate ?r then if br_revalidate ?r then cids ?k ?path else 0 else cids ?k ?path) = cids ?k ?path"
        by simp
      ultimately show ?thesis using m None
        by (auto simp: resolve_def t h Let_def cid route_hookless [OF o(2)] cgroup_path_ids_def split: prod.splits)
           (metis fst_conv)+
    qed
  qed
qed

text \<open>The pieces of a request, with nothing in between, are the request.\<close>

lemma run_phases_numeral [simp]:
  "run_phases (numeral n) ph r k = (let (ph, r, k) = resolve_step ph r k in run_phases (pred_numeral n) ph r k)"
  by (simp add: numeral_eq_Suc)

lemma run_phases_done [simp]: "run_phases n (PDone p b) r k = (PDone p b, r, k)"
  by (induction n) simp_all

lemma resolve_phases:
  "run_phases 9 (PStart p) r k = (case resolve p r k of (b, r', k') \<Rightarrow> (PDone p b, r', k'))"
  by (simp add: resolve_def Let_def split: option.splits prod.splits)

section \<open>The caches are bounded\<close>

definition sizes_ok :: "router \<Rightarrow> kernel \<Rightarrow> bool" where
  "sizes_ok r k \<longleftrightarrow> length (br_paths r) \<le> kPathCacheCap \<and> length (br_fences r) \<le> kFenceCacheCap \<and>
     length (fn_tracked (k_fence k)) \<le> kTrackedCap"

lemma length_put_le: "length (om_put k v m) \<le> Suc (length m)"
  by (induction k v m rule: om_put.induct) auto

lemma capped_put: "0 < c \<Longrightarrow> length (om_put k v (if c \<le> length m then [] else m)) \<le> c"
  using length_put_le [of k v m] by simp

lemma length_fence_store:
  "length (br_fences r) \<le> kFenceCacheCap \<Longrightarrow> length (br_fences (fence_store_opt p b fo r)) \<le> kFenceCacheCap"
  using capped_put [of kFenceCacheCap p _ "br_fences r"]
  by (auto simp: fence_store_opt_def fence_cache_store_def Let_def kFenceCacheCap_def split: option.splits)

lemma paths_fence_store [simp]: "br_paths (fence_store_opt p b fo r) = br_paths r"
  by (simp add: fence_store_opt_def fence_cache_store_def Let_def split: option.splits)

lemma fences_memo_store [simp]: "br_fences (memo_store cg leaf b r) = br_fences r"
  by (simp add: memo_store_def Let_def)

lemma length_memo_store: "length (br_paths (memo_store cg leaf b r)) \<le> kPathCacheCap"
  using capped_put [of kPathCacheCap cg _ "br_paths r"]
  by (simp add: memo_store_def Let_def kPathCacheCap_def)

lemma sizes_step:
  assumes s: "sizes_ok r k" and st: "resolve_step ph r k = (ph', r', k')"
  shows "sizes_ok r' k'"
proof (cases ph)
  case (PTrack p)
  then show ?thesis using s st
    by (auto simp: sizes_ok_def fence_track_def Let_def kTrackedCap_def split: if_splits)
next
  case (PFinish p fo cg leaf mg ids)
  then show ?thesis using s st length_memo_store length_fence_store
    by (auto simp: sizes_ok_def walk_finish_def Let_def split: if_splits)
qed (use s st in \<open>auto simp: sizes_ok_def Let_def length_fence_store split: option.splits if_splits\<close>)

lemma sizes_dropped: "sizes_ok r k \<Longrightarrow> br_paths r' = [] \<Longrightarrow> br_fences r' = [] \<Longrightarrow> sizes_ok r' k"
  by (simp add: sizes_ok_def)

text \<open>
  The memo, the fence's cache and the kernel's table of tracked processes stay within their
  capacities in every run.
\<close>

theorem caches_bounded:
  "sys_reach busy s \<Longrightarrow> sizes_ok (y_router s) (y_kernel s)"
proof (induction rule: sys_reach.induct)
  case (Init s)
  then show ?case by (auto simp: sys_init_def sizes_ok_def new_router_def)
next
  case (Step s s')
  from Step(2,3) show ?case
  proof (cases rule: sys_step.cases)
    case (Run t ph ph' r' k')
    with sizes_step [OF Step(3) Run(3)] show ?thesis by simp
  next
    case (Exit p)
    have "length (fn_tracked (on_process_exit (Some p) f)) \<le> length (fn_tracked f)" for f
      by (simp add: on_process_exit_def)
    with Step(3) Exit show ?thesis by (auto simp: sizes_ok_def intro: le_trans)
  qed (auto simp: sizes_ok_def register_cgroup_def unregister_cgroup_def evict_cgroup_id_def
        invalidate_branch_def drop_caches_def Let_def on_cgroup_attach_def make_dir_def remove_dir_def)
qed

section \<open>Requests alone, and examples\<close>

lemma run_reach:
  "sys_reach busy s \<Longrightarrow> y_threads s t = Some ph \<Longrightarrow>
   run_phases n ph (y_router s) (y_kernel s) = (ph', r', k') \<Longrightarrow>
   sys_reach busy (s\<lparr>y_router := r', y_kernel := k', y_threads := (y_threads s)(t \<mapsto> ph')\<rparr>)"
proof (induction n arbitrary: s ph)
  case 0
  moreover from 0 have "s\<lparr>y_router := r', y_kernel := k', y_threads := (y_threads s)(t \<mapsto> ph')\<rparr> = s"
    by (cases s) (auto simp: fun_upd_idem)
  ultimately show ?case by (simp only:)
next
  case (Suc n)
  obtain ph1 r1 k1 where st: "resolve_step ph (y_router s) (y_kernel s) = (ph1, r1, k1)"
    by (metis prod_cases3)
  let ?s = "s\<lparr>y_router := r1, y_kernel := k1, y_threads := (y_threads s)(t \<mapsto> ph1)\<rparr>"
  have "sys_reach busy ?s" by (rule Step [OF Suc.prems(1) Run [OF Suc.prems(2) st]])
  then have "sys_reach busy (?s\<lparr>y_router := r', y_kernel := k', y_threads := (y_threads ?s)(t \<mapsto> ph')\<rparr>)"
    by (rule Suc.IH [where ph = ph1]) (use Suc.prems(3) st in simp_all)
  then show ?case by (simp del: fun_upd_apply)
qed

lemma resolve_reach:
  assumes s: "sys_reach busy s" "y_threads s t = None"
    and r: "resolve p (y_router s) (y_kernel s) = (b, r', k')"
  shows "sys_reach busy (s\<lparr>y_router := r', y_kernel := k'\<rparr>)"
proof -
  let ?s1 = "s\<lparr>y_threads := (y_threads s)(t \<mapsto> PStart p)\<rparr>"
  let ?s2 = "?s1\<lparr>y_router := r', y_kernel := k', y_threads := (y_threads ?s1)(t \<mapsto> PDone p b)\<rparr>"
  have "sys_reach busy ?s1" by (rule Step [OF s(1) Begin [OF s(2)]])
  then have "sys_reach busy ?s2"
    by (rule run_reach [where n = 9 and ph = "PStart p"])
       (simp_all only: resolve_phases, simp_all add: r)
  then have "sys_reach busy (?s2\<lparr>y_threads := (y_threads ?s2)(t := None)\<rparr>)"
    by (rule Step) (rule End [of _ t p b], simp)
  then show ?thesis using s(2) by (simp add: fun_upd_idem)
qed

section \<open>The walk and the search over all ancestors\<close>

text \<open>
  The directories at and above a control group, the nearest first: the hierarchy's root
  is the last of them.
\<close>

definition dirs_above :: "string \<Rightarrow> string list" where
  "dirs_above path = path # map (\<lambda>i. take i path)
     (filter (\<lambda>i. path ! i = CHR ''/'') (rev [length cgroup_root..<length path]))"

lemma dirs_above_set:
  "set (dirs_above path) =
     {q. q = path \<or> (\<exists>rest. path = q @ CHR ''/'' # rest \<and> length cgroup_root \<le> length q)}"
proof -
  have "(\<exists>i. length cgroup_root \<le> i \<and> i < length path \<and> path ! i = CHR ''/'' \<and> q = take i path) \<longleftrightarrow>
      (\<exists>rest. path = q @ CHR ''/'' # rest \<and> length cgroup_root \<le> length q)" for q
  proof
    assume "\<exists>i. length cgroup_root \<le> i \<and> i < length path \<and> path ! i = CHR ''/'' \<and> q = take i path"
    then obtain i where i: "length cgroup_root \<le> i" "i < length path" "path ! i = CHR ''/''" "q = take i path" by blast
    from i(3) id_take_nth_drop [OF i(2)] i(1,2,4) show "\<exists>rest. path = q @ CHR ''/'' # rest \<and> length cgroup_root \<le> length q"
      by (intro exI [of _ "drop (Suc i) path"]) simp
  next
    assume "\<exists>rest. path = q @ CHR ''/'' # rest \<and> length cgroup_root \<le> length q"
    then obtain rest where r: "path = q @ CHR ''/'' # rest" "length cgroup_root \<le> length q" by blast
    show "\<exists>i. length cgroup_root \<le> i \<and> i < length path \<and> path ! i = CHR ''/'' \<and> q = take i path"
      by (rule exI [of _ "length q"]) (use r(2) in \<open>simp only: r(1), simp\<close>)
  qed
  note s = this
  have "q \<in> set (dirs_above path) \<longleftrightarrow> q = path \<or>
      (\<exists>i. length cgroup_root \<le> i \<and> i < length path \<and> path ! i = CHR ''/'' \<and> q = take i path)" for q
    by (auto simp: dirs_above_def)
  then show ?thesis unfolding s by blast
qed

lemma dirs_above_sorted: "sorted_wrt (\<lambda>q q'. length q' < length q) (dirs_above path)"
proof -
  have "sorted_wrt (\<lambda>i j. j < i) (filter P (rev [m..<n]))" for P and m n :: nat
    by (rule sorted_wrt_filter) (simp add: sorted_wrt_rev)
  then have "sorted_wrt (\<lambda>q q'. length q' < length q)
     (map (\<lambda>i. take i path) (filter (\<lambda>i. path ! i = CHR ''/'') (rev [length cgroup_root..<length path])))"
    unfolding sorted_wrt_map by (rule sorted_wrt_mono_rel [rotated]) auto
  then show ?thesis by (auto simp: dirs_above_def)
qed

text \<open>The walk of the source is the search over all of them but the root.\<close>

lemma cgroups_above_but_root:
  assumes "cg \<noteq> []"
  shows "cgroups_above (cgroup_root @ cg) = filter (\<lambda>q. q \<noteq> cgroup_root) (dirs_above (cgroup_root @ cg))"
proof -
  define p where "p = cgroup_root @ cg"
  let ?n = "length cgroup_root" and ?g = "\<lambda>i. p ! i = CHR ''/''"
  have n: "?n < length p" "take ?n p = cgroup_root" "p \<noteq> cgroup_root" using assms by (auto simp: p_def)
  have ne: "take i p \<noteq> cgroup_root" if "i \<in> set (filter ?g (rev [Suc ?n..<length p]))" for i
  proof -
    have "length (take i p) \<noteq> ?n" using that by auto
    then show ?thesis by metis
  qed
  have "rev [?n..<length p] = rev [Suc ?n..<length p] @ [?n]" using n(1) by (simp add: upt_conv_Cons)
  then have "filter (\<lambda>q. q \<noteq> cgroup_root) (map (\<lambda>i. take i p) (filter ?g (rev [?n..<length p]))) =
      filter (\<lambda>q. q \<noteq> cgroup_root) (map (\<lambda>i. take i p) (filter ?g (rev [Suc ?n..<length p])))"
    using n(2) by simp
  also have "\<dots> = map (\<lambda>i. take i p) (filter ?g (rev [Suc ?n..<length p]))"
    by (rule filter_True) (use ne in auto)
  finally show ?thesis unfolding p_def [symmetric] using n(3) by (simp add: dirs_above_def cgroups_above_def)
qed

definition strict_branch :: "router \<Rightarrow> kernel \<Rightarrow> pid \<Rightarrow> u32" where
  "strict_branch r k p = (let cg = proc_cgroup r k p in
     if cg = [] then 0
     else first_branch (eff (br_map r) (cgroup_id r k)) (filter (\<lambda>q. q \<noteq> cgroup_root) (dirs_above (cgroup_root @ cg))))"

lemma route_strict: "route r k p = strict_branch r k p"
  by (simp add: route_def strict_branch_def nearest_eff cgroups_above_but_root Let_def)

lemma first_branch_none: "(\<And>q. q \<in> set ps \<Longrightarrow> f q = None) \<Longrightarrow> first_branch f ps = 0"
  by (induction ps) simp_all

lemma first_branch_except: "f x = None \<Longrightarrow> first_branch f (filter (\<lambda>q. q \<noteq> x) ps) = first_branch f ps"
  by (induction ps) (auto split: option.splits)

end
