(* ===== verification/HashHex.thy ===== *)
theory HashHex
  imports Prelude
begin

text \<open>
  \<open>src/cas/hash.h\<close>: object ids. A \<open>std::array<uint8_t, 32>\<close> is a 256-bit word whose
  bytes are read most significant first, so that comparing words is comparing arrays.
  The hexadecimal printer and the lenient and strict parsers follow the header.
\<close>

type_synonym hash = "256 word"

abbreviation ZERO_HASH :: hash where "ZERO_HASH \<equiv> 0"

definition hash_bytes :: "hash \<Rightarrow> bytes" where
  "hash_bytes h = rev (le_bytes 32 (unat h))"

definition bytes_hash :: "bytes \<Rightarrow> hash" where
  "bytes_hash bs = of_nat (le_val (rev bs))"

lemma length_hash_bytes [simp]: "length (hash_bytes h) = 32"
  by (simp add: hash_bytes_def)

lemma bytes_hash_bytes [simp]: "bytes_hash (hash_bytes h) = h"
  using unat_lt2p [of h] by (simp add: bytes_hash_def hash_bytes_def le_simps)

lemma hash_bytes_hash: "length bs = 32 \<Longrightarrow> hash_bytes (bytes_hash bs) = bs"
proof -
  assume l: "length bs = 32"
  have "le_val (rev bs) < 2 ^ LENGTH(256)"
    using le_val_bound [of "rev bs"] l by simp
  then have "unat (bytes_hash bs) = le_val (rev bs)"
    unfolding bytes_hash_def by (rule unat_of_nat_eq)
  with l show ?thesis by (simp add: hash_bytes_def le_simps)
qed

lemma hash_bytes_inject [simp]: "hash_bytes a = hash_bytes b \<longleftrightarrow> a = b"
  by (metis bytes_hash_bytes)

section \<open>Printing\<close>

definition hex_digit :: "nat \<Rightarrow> char" where
  "hex_digit n = (if n < 10 then char_of (48 + n) else char_of (87 + n))"

text \<open>\<open>snprintf("%02x", b)\<close>\<close>

definition hex2 :: "u8 \<Rightarrow> string" where
  "hex2 b = [hex_digit (unat b div 16), hex_digit (unat b mod 16)]"

definition hash_to_hex :: "hash \<Rightarrow> string" where
  "hash_to_hex h = concat (map hex2 (hash_bytes h))"

definition shard_path :: "hash \<Rightarrow> string" where
  "shard_path h = hex2 (hd (hash_bytes h)) @ ''/'' @ hash_to_hex h"

section \<open>Parsing\<close>

definition hexval :: "char \<Rightarrow> nat option" where
  "hexval c = (let n = (of_char c :: nat) in
     if 48 \<le> n \<and> n \<le> 57 then Some (n - 48)
     else if 97 \<le> n \<and> n \<le> 102 then Some (n - 87)
     else if 65 \<le> n \<and> n \<le> 70 then Some (n - 55)
     else None)"

definition is_space :: "char \<Rightarrow> bool" where
  "is_space c \<longleftrightarrow> c = CHR '' '' \<or> (let n = (of_char c :: nat) in 9 \<le> n \<and> n \<le> 13)"

text \<open>
  \<open>sscanf(p, "%2x", &val)\<close>: white space is skipped, then at most two characters of an
  optionally signed, optionally \<open>0x\<close>-prefixed hexadecimal number are read; a prefix
  with no digit after it is a matching failure (C17 7.21.6.2). The result is the unsigned
  value, or \<open>None\<close> when nothing was assigned.
\<close>

definition scan_2x :: "string \<Rightarrow> u32 option" where
  "scan_2x s = (case dropWhile is_space s of
     [] \<Rightarrow> None
   | c # r \<Rightarrow>
       (case hexval c of
          Some v \<Rightarrow>
            (case r of [] \<Rightarrow> Some (of_nat v)
             | d # _ \<Rightarrow>
                 (if c = CHR ''0'' \<and> (d = CHR ''x'' \<or> d = CHR ''X'') then None
                  else case hexval d of Some w \<Rightarrow> Some (of_nat (16 * v + w))
                                      | None \<Rightarrow> Some (of_nat v)))
        | None \<Rightarrow>
            (if c = CHR ''-'' \<or> c = CHR ''+'' then
               (case r of [] \<Rightarrow> None
                | d # _ \<Rightarrow> (case hexval d of None \<Rightarrow> None
                    | Some v \<Rightarrow> Some (if c = CHR ''-'' then - of_nat v else of_nat v)))
             else None)))"

text \<open>The C string a \<open>const char*\<close> points to ends at the first NUL.\<close>

definition c_str :: "string \<Rightarrow> string" where
  "c_str s = takeWhile (\<lambda>c. c \<noteq> char_of (0::nat)) s"

fun scan_pairs :: "nat \<Rightarrow> string \<Rightarrow> bytes option" where
  "scan_pairs 0 s = Some []"
| "scan_pairs (Suc n) s =
     (case scan_2x s of None \<Rightarrow> None
      | Some v \<Rightarrow> map_option (\<lambda>bs. ucast v # bs) (scan_pairs n (drop 2 s)))"

definition hex_to_hash :: "string \<Rightarrow> hash option" where
  "hex_to_hash s = (let hex = c_str s in
     if length hex < 64 then None else map_option bytes_hash (scan_pairs 32 hex))"

definition is_hex_hash :: "string \<Rightarrow> bool" where
  "is_hex_hash hex \<longleftrightarrow> length hex = 64 \<and> list_all (\<lambda>c. hexval c \<noteq> None) hex"

definition hex_to_hash_strict :: "string \<Rightarrow> hash option" where
  "hex_to_hash_strict hex = (if \<not> is_hex_hash hex then None else hex_to_hash hex)"

section \<open>Round trips\<close>

lemma of_char_hex_digit:
  "n < 16 \<Longrightarrow> (of_char (hex_digit n) :: nat) = (if n < 10 then 48 + n else 87 + n)"
  by (simp add: hex_digit_def)

lemma hexval_hex_digit [simp]: "n < 16 \<Longrightarrow> hexval (hex_digit n) = Some n"
  by (auto simp: hexval_def of_char_hex_digit)

lemma hexval_bound: "hexval c = Some v \<Longrightarrow> v < 16"
  by (auto simp: hexval_def Let_def split: if_splits)

lemma hexval_not_special:
  assumes "hexval c = Some v"
  shows "\<not> is_space c" "c \<noteq> char_of (0::nat)" "c \<noteq> CHR ''x''" "c \<noteq> CHR ''X''"
proof -
  have n: "48 \<le> (of_char c :: nat)" "(of_char c :: nat) \<noteq> 120" "(of_char c :: nat) \<noteq> 88"
    using assms by (auto simp: hexval_def Let_def split: if_splits)
  then show "\<not> is_space c" by (auto simp: is_space_def Let_def)
  show "c \<noteq> char_of (0::nat)" "c \<noteq> CHR ''x''" "c \<noteq> CHR ''X''" using n by auto
qed

lemma scan_2x_digits:
  assumes "hexval a = Some v" "hexval b = Some w"
  shows "scan_2x (a # b # r) = Some (of_nat (16 * v + w))"
  using assms hexval_not_special [OF assms(1)] hexval_not_special [OF assms(2)]
  by (simp add: scan_2x_def)

fun pair_bytes :: "string \<Rightarrow> bytes" where
  "pair_bytes (a # b # r) = of_nat (16 * the (hexval a) + the (hexval b)) # pair_bytes r"
| "pair_bytes _ = []"

lemma ucast_of_nat_u8: "n < 256 \<Longrightarrow> (ucast (of_nat n :: u32) :: u8) = of_nat n"
  by (rule word_unat_eq_iff [THEN iffD2])
     (simp add: unat_of_nat_eq unsigned_ucast_eq take_bit_nat_eq_self)

lemma scan_pairs_digits:
  "length s = 2 * n \<Longrightarrow> list_all (\<lambda>c. hexval c \<noteq> None) s \<Longrightarrow>
   scan_pairs n (s @ t) = Some (pair_bytes s)"
proof (induction n arbitrary: s)
  case 0
  then show ?case by simp
next
  case (Suc n)
  then obtain a b r where s: "s = a # b # r" "length r = 2 * n"
    by (auto simp: length_Suc_conv)
  with Suc.prems obtain v w where vw: "hexval a = Some v" "hexval b = Some w" by auto
  have "16 * v + w < 256" using hexval_bound [OF vw(1)] hexval_bound [OF vw(2)] by simp
  with Suc s vw show ?case
    by (simp add: scan_2x_digits ucast_of_nat_u8 del: of_nat_add of_nat_mult)
qed

lemma c_str_digits: "list_all (\<lambda>c. hexval c \<noteq> None) s \<Longrightarrow> c_str s = s"
  unfolding c_str_def list_all_iff by (subst takeWhile_eq_all_conv) (auto dest: hexval_not_special)

lemma hex_to_hash_strict_eq:
  "is_hex_hash s \<Longrightarrow> hex_to_hash_strict s = Some (bytes_hash (pair_bytes s))"
  using scan_pairs_digits [of s 32 "[]"]
  by (simp add: hex_to_hash_strict_def hex_to_hash_def is_hex_hash_def c_str_digits)

lemma hex_to_hash_of_hex:
  "is_hex_hash s \<Longrightarrow> hex_to_hash s = hex_to_hash_strict s"
  by (simp add: hex_to_hash_strict_def)

lemma pair_bytes_hex2: "pair_bytes (hex2 b @ s) = b # pair_bytes s"
  using unat_lt2p [of b] by (simp add: hex2_def less_mult_imp_div_less)

lemma pair_bytes_concat: "pair_bytes (concat (map hex2 bs)) = bs"
  by (induction bs) (simp_all add: pair_bytes_hex2)

lemma hex_digits_hex2: "list_all (\<lambda>c. hexval c \<noteq> None) (hex2 b)"
  using unat_lt2p [of b] by (simp add: hex2_def less_mult_imp_div_less)

lemma length_concat_hex2: "length (concat (map hex2 bs)) = 2 * length bs"
  by (induction bs) (simp_all add: hex2_def)

lemma is_hex_hash_to_hex [simp]: "is_hex_hash (hash_to_hex h)"
  using hex_digits_hex2 by (auto simp: is_hex_hash_def hash_to_hex_def length_concat_hex2 list_all_iff)

lemma length_hash_to_hex [simp]: "length (hash_to_hex h) = 64"
  using is_hex_hash_to_hex [of h] by (simp add: is_hex_hash_def)

lemma hex_to_hash_strict_to_hex [simp]: "hex_to_hash_strict (hash_to_hex h) = Some h"
  by (simp add: hex_to_hash_strict_eq) (simp add: hash_to_hex_def pair_bytes_concat)

lemma hex_to_hash_to_hex [simp]: "hex_to_hash (hash_to_hex h) = Some h"
  by (simp add: hex_to_hash_of_hex)

lemma hash_to_hex_inject [simp]: "hash_to_hex a = hash_to_hex b \<longleftrightarrow> a = b"
  by (metis hex_to_hash_to_hex option.inject)

lemma hash_to_hex_nonempty [simp]: "hash_to_hex h \<noteq> []"
  using length_hash_to_hex [of h] by (metis length_0_conv zero_neq_numeral)

lemma hex_to_hash_strict_SomeD: "hex_to_hash_strict s = Some h \<Longrightarrow> is_hex_hash s"
  by (simp add: hex_to_hash_strict_def split: if_splits)

lemma hash_to_hex_digits: "c \<in> set (hash_to_hex h) \<Longrightarrow> hexval c \<noteq> None"
  using is_hex_hash_to_hex [of h] by (simp add: is_hex_hash_def list_all_iff)

text \<open>The strict parser ignores the case of the digits and nothing else.\<close>

definition to_lower_hex :: "char \<Rightarrow> char" where
  "to_lower_hex c = (case hexval c of Some v \<Rightarrow> hex_digit v | None \<Rightarrow> c)"

lemma concat_hex2_pair_bytes:
  "even (length s) \<Longrightarrow> list_all (\<lambda>c. hexval c \<noteq> None) s \<Longrightarrow>
   concat (map hex2 (pair_bytes s)) = map to_lower_hex s"
proof (induction s rule: pair_bytes.induct)
  case (1 a b r)
  then obtain v w where vw: "hexval a = Some v" "hexval b = Some w" by auto
  have b: "v < 16" "w < 16" using vw by (auto dest: hexval_bound)
  then have "unat (of_nat (16 * v + w) :: u8) = 16 * v + w"
    by (intro unat_of_nat_eq) simp
  with 1 vw b show ?case by (simp add: hex2_def to_lower_hex_def)
qed simp_all

lemma length_pair_bytes: "length (pair_bytes s) = length s div 2"
  by (induction s rule: pair_bytes.induct) simp_all

lemma strict_parse_print:
  "hex_to_hash_strict s = Some h \<Longrightarrow> hash_to_hex h = map to_lower_hex s"
proof -
  assume a: "hex_to_hash_strict s = Some h"
  then have x: "is_hex_hash s" by (rule hex_to_hash_strict_SomeD)
  with a have "h = bytes_hash (pair_bytes s)" by (simp add: hex_to_hash_strict_eq)
  moreover have "length (pair_bytes s) = 32"
    using x by (simp add: length_pair_bytes is_hex_hash_def)
  ultimately show ?thesis
    using x by (simp add: hash_to_hex_def hash_bytes_hash concat_hex2_pair_bytes is_hex_hash_def)
qed

section \<open>Properties\<close>

text \<open>
  The strict parser accepts exactly the 64-digit hexadecimal strings, in either case, and
  returns the id that prints as that string in lower case. So printing and parsing are
  inverse to each other, and no two ids print alike.
\<close>

theorem strict_parse_iff:
  "hex_to_hash_strict s = Some h \<longleftrightarrow> is_hex_hash s \<and> hash_to_hex h = map to_lower_hex s"
proof
  assume "hex_to_hash_strict s = Some h"
  then show "is_hex_hash s \<and> hash_to_hex h = map to_lower_hex s"
    using hex_to_hash_strict_SomeD strict_parse_print by blast
next
  assume a: "is_hex_hash s \<and> hash_to_hex h = map to_lower_hex s"
  then obtain h' where "hex_to_hash_strict s = Some h'"
    using hex_to_hash_strict_eq by blast
  moreover from this a have "hash_to_hex h' = hash_to_hex h"
    using strict_parse_print by simp
  ultimately show "hex_to_hash_strict s = Some h" by simp
qed

lemma plus_zero_not_nul: "c \<in> set (concat (replicate n ''+0'')) \<Longrightarrow> c \<noteq> char_of (0::nat)"
  by (auto dest: arg_cong [of _ _ "of_char :: char \<Rightarrow> nat"] split: if_splits)

text \<open>
  The lenient parser is not a test for 64 hexadecimal digits: \<open>sscanf\<close> takes a sign (and
  white space), so a name of 64 characters that is no hash reads as one.
\<close>

theorem lenient_parse_signed:
  "length (concat (replicate 32 ''+0'')) = 64 \<and> \<not> is_hex_hash (concat (replicate 32 ''+0''))
   \<and> hex_to_hash (concat (replicate 32 ''+0'')) = Some ZERO_HASH"
proof -
  let ?s = "concat (replicate 32 ''+0'')"
  have l: "length ?s = 64" by (simp add: eval_nat_numeral)
  have c: "c_str ?s = ?s"
    unfolding c_str_def by (subst takeWhile_eq_all_conv) (blast dest: plus_zero_not_nul)
  have "scan_pairs n (concat (replicate n ''+0'')) = Some (replicate n 0)" for n
  proof (induction n)
    case (Suc n)
    have "scan_2x (''+0'' @ r) = Some 0" for r
      by (simp add: scan_2x_def is_space_def hexval_def)
    with Suc show ?case by simp
  qed simp
  moreover have "le_val (replicate n 0) = 0" for n by (induction n) simp_all
  ultimately have "hex_to_hash ?s = Some ZERO_HASH"
    using l c by (simp add: hex_to_hash_def bytes_hash_def)
  moreover have "\<not> is_hex_hash ?s"
    by (simp add: is_hex_hash_def eval_nat_numeral hexval_def)
  ultimately show ?thesis using l by simp
qed

end
