(* ===== verification/WriteBuffer.thy ===== *)
theory WriteBuffer
  imports HashHex
begin

text \<open>
  \<open>src/cas/write_buffer.h\<close> and \<open>write_buffer.cpp\<close>: the bytes that were written to an open
  file and not yet stored. The overlay maps offsets to runs of bytes. Offsets are
  \<open>uint64_t\<close>, so their sums and differences are taken modulo \<open>2 ^ 64\<close>, and a \<open>memcpy\<close> that
  leaves its target is \<open>None\<close>. The views below reduce every operation to single bytes.
\<close>

definition add64 :: "nat \<Rightarrow> nat \<Rightarrow> nat" where
  "add64 a b = (a + b) mod 2 ^ 64"

definition sub64 :: "nat \<Rightarrow> nat \<Rightarrow> nat" where
  "sub64 a b = (a + (2 ^ 64 - b)) mod 2 ^ 64"

text \<open>\<open>memcpy(dst.data() + pos, src.data(), src.size())\<close>\<close>

definition memcpy_at :: "nat \<Rightarrow> bytes \<Rightarrow> bytes \<Rightarrow> bytes option" where
  "memcpy_at pos src dst =
     (if pos + length src \<le> length dst
      then Some (take pos dst @ src @ drop (pos + length src) dst) else None)"

record write_buffer =
  wb_base_blob :: hash
  wb_base_size :: nat
  wb_overlay :: "(nat, bytes) omap"
  wb_size_override :: "nat option"
  wb_dirty_bytes :: nat

definition WRITE_BUFFER_MAX_BYTES :: nat where
  "WRITE_BUFFER_MAX_BYTES = 64 * 1024 * 1024"

definition wb_new :: "hash \<Rightarrow> nat \<Rightarrow> write_buffer" where
  "wb_new base size0 = \<lparr>wb_base_blob = base, wb_base_size = size0, wb_overlay = [],
     wb_size_override = None, wb_dirty_bytes = 0\<rparr>"

definition over_cap :: "write_buffer \<Rightarrow> bool" where
  "over_cap wb \<longleftrightarrow> WRITE_BUFFER_MAX_BYTES \<le> wb_dirty_bytes wb"

definition is_dirty :: "write_buffer \<Rightarrow> bool" where
  "is_dirty wb \<longleftrightarrow> 0 < wb_dirty_bytes wb \<or> wb_size_override wb \<noteq> None"

text \<open>The end of an overlay entry.\<close>

definition ov_end :: "nat \<times> bytes \<Rightarrow> nat" where
  "ov_end p = add64 (fst p) (length (snd p))"

definition effective_size :: "nat \<Rightarrow> write_buffer \<Rightarrow> nat" where
  "effective_size base_size wb =
     (case wb_size_override wb of
        Some n \<Rightarrow> n
      | None \<Rightarrow> (if wb_overlay wb = [] then base_size
                 else max base_size (ov_end (last (wb_overlay wb)))))"

section \<open>Operations\<close>

text \<open>
  Where coalescing starts: the entry after \<open>offset\<close>, or the one before it when that one
  reaches \<open>offset\<close>. The overlay is split there.
\<close>

definition wb_split :: "nat \<Rightarrow> (nat, bytes) omap \<Rightarrow> (nat, bytes) omap \<times> (nat, bytes) omap" where
  "wb_split offset ov =
     (let lo = takeWhile (\<lambda>p. fst p \<le> offset) ov; hi = dropWhile (\<lambda>p. fst p \<le> offset) ov in
      if lo = [] then (lo, hi)
      else if ov_end (last lo) < offset then (lo, hi)
      else (butlast lo, last lo # hi))"

text \<open>The entries that overlap or touch the range, its merged end, and the rest.\<close>

fun wb_collect :: "nat \<Rightarrow> (nat, bytes) omap \<Rightarrow> nat \<times> (nat, bytes) omap \<times> (nat, bytes) omap" where
  "wb_collect merge_end [] = (merge_end, [], [])"
| "wb_collect merge_end (p # ps) =
     (if fst p > merge_end then (merge_end, [], p # ps)
      else case wb_collect (max merge_end (ov_end p)) ps of
             (e, olds, rest) \<Rightarrow> (e, p # olds, rest))"

fun wb_copy_olds :: "nat \<Rightarrow> (nat, bytes) omap \<Rightarrow> bytes \<Rightarrow> bytes option" where
  "wb_copy_olds merge_start [] merged = Some merged"
| "wb_copy_olds merge_start (p # ps) merged =
     (case memcpy_at (sub64 (fst p) merge_start) (snd p) merged of
        None \<Rightarrow> None
      | Some m \<Rightarrow> wb_copy_olds merge_start ps m)"

definition wb_write :: "nat \<Rightarrow> bytes \<Rightarrow> write_buffer \<Rightarrow> write_buffer option" where
  "wb_write offset data wb =
     (if data = [] then Some wb
      else
       (let new_end = add64 offset (length data);
            (lo, hi) = wb_split offset (wb_overlay wb);
            merge_start = (if hi \<noteq> [] \<and> fst (hd hi) < offset then fst (hd hi) else offset);
            (merge_end, olds, rest) = wb_collect new_end hi;
            old_dirty = sum_list (map (\<lambda>p. length (snd p)) olds)
        in case wb_copy_olds merge_start olds (replicate (sub64 merge_end merge_start) 0) of
             None \<Rightarrow> None
           | Some merged \<Rightarrow>
          (case memcpy_at (sub64 offset merge_start) data merged of
             None \<Rightarrow> None
           | Some merged \<Rightarrow>
          (let ov = om_put merge_start merged (lo @ rest);
               wb = wb\<lparr>wb_overlay := ov,
                       wb_dirty_bytes := add64 (sub64 (wb_dirty_bytes wb) old_dirty) (length merged)\<rparr>
           in Some (if effective_size (wb_base_size wb) wb < new_end
                    then wb\<lparr>wb_size_override := Some new_end\<rparr> else wb)))))"

fun wb_overlay_read :: "nat \<Rightarrow> nat \<Rightarrow> (nat, bytes) omap \<Rightarrow> bytes \<Rightarrow> bytes option" where
  "wb_overlay_read offset avail [] buf = Some buf"
| "wb_overlay_read offset avail (p # ps) buf =
     (let e = ov_end p; req_end = add64 offset avail in
      if e \<le> offset \<or> req_end \<le> fst p then wb_overlay_read offset avail ps buf
      else
        (let copy_start = max (fst p) offset; copy_end = min e req_end in
         case rd (sub64 copy_end copy_start) (sub64 copy_start (fst p)) (snd p) of
           None \<Rightarrow> None
         | Some src \<Rightarrow>
        (case memcpy_at (sub64 copy_start offset) src buf of
           None \<Rightarrow> None
         | Some buf \<Rightarrow> wb_overlay_read offset avail ps buf)))"

definition base_byte :: "bytes \<Rightarrow> nat \<Rightarrow> u8" where
  "base_byte base_data pos = (if pos < length base_data then base_data ! pos else 0)"

definition wb_read :: "nat \<Rightarrow> nat \<Rightarrow> bytes \<Rightarrow> write_buffer \<Rightarrow> bytes option" where
  "wb_read offset len base_data wb =
     (let eff = effective_size (length base_data) wb in
      if eff \<le> offset then Some []
      else
        (let avail = min len (sub64 eff offset) in
         wb_overlay_read offset avail (wb_overlay wb)
           (map (\<lambda>i. base_byte base_data (add64 offset i)) [0 ..< avail])))"

text \<open>\<open>vector::resize\<close>\<close>

definition resize :: "nat \<Rightarrow> bytes \<Rightarrow> bytes" where
  "resize n b = take n b @ replicate (n - length b) 0"

definition wb_truncate :: "nat \<Rightarrow> write_buffer \<Rightarrow> write_buffer" where
  "wb_truncate new_size wb =
     (let gone = dropWhile (\<lambda>p. fst p < new_size) (wb_overlay wb);
          ov = takeWhile (\<lambda>p. fst p < new_size) (wb_overlay wb);
          dirty = foldl (\<lambda>d p. sub64 d (length (snd p))) (wb_dirty_bytes wb) gone;
          wb = wb\<lparr>wb_size_override := Some new_size, wb_overlay := ov, wb_dirty_bytes := dirty\<rparr>
      in if ov \<noteq> [] \<and> new_size < ov_end (last ov) then
           (let (k, d) = last ov; d' = resize (sub64 new_size k) d in
            wb\<lparr>wb_overlay := butlast ov @ [(k, d')],
               wb_dirty_bytes := add64 (sub64 dirty (length d)) (length d')\<rparr>)
         else wb)"

fun wb_overlay_all :: "nat \<Rightarrow> (nat, bytes) omap \<Rightarrow> bytes \<Rightarrow> bytes option" where
  "wb_overlay_all eff [] result = Some result"
| "wb_overlay_all eff (p # ps) result =
     (let copy_len = min (length (snd p)) (sub64 eff (fst p)) in
      case memcpy_at (fst p) (take copy_len (snd p)) result of
        None \<Rightarrow> None
      | Some r \<Rightarrow> wb_overlay_all eff ps r)"

definition wb_materialize :: "bytes \<Rightarrow> write_buffer \<Rightarrow> bytes option" where
  "wb_materialize base_data wb =
     (let eff = effective_size (length base_data) wb;
          copy_len = min eff (length base_data);
          result = take copy_len base_data @ replicate (eff - copy_len) 0
      in wb_overlay_all eff (wb_overlay wb) result)"

definition wb_clear :: "write_buffer \<Rightarrow> write_buffer" where
  "wb_clear wb = wb\<lparr>wb_overlay := [], wb_size_override := None, wb_dirty_bytes := 0\<rparr>"

section \<open>Invariant and byte view\<close>

text \<open>The overlay's runs are not empty, in order, and neither overlap nor touch.\<close>

fun ov_ok :: "(nat, bytes) omap \<Rightarrow> bool" where
  "ov_ok [] = True"
| "ov_ok (p # ps) = (snd p \<noteq> [] \<and> fst p + length (snd p) < 2 ^ 64 \<and>
     (\<forall>q \<in> set ps. fst p + length (snd p) < fst q) \<and> ov_ok ps)"

definition ov_size :: "(nat, bytes) omap \<Rightarrow> nat" where
  "ov_size ov = sum_list (map (\<lambda>p. length (snd p)) ov)"

definition wb_inv :: "write_buffer \<Rightarrow> bool" where
  "wb_inv wb \<longleftrightarrow> ov_ok (wb_overlay wb) \<and> wb_dirty_bytes wb = ov_size (wb_overlay wb) \<and>
     (\<forall>n. wb_size_override wb = Some n \<longrightarrow> n < 2 ^ 64 \<and>
        (\<forall>p \<in> set (wb_overlay wb). fst p + length (snd p) \<le> n))"

text \<open>The byte the overlay holds at a position.\<close>

fun ov_byte :: "(nat, bytes) omap \<Rightarrow> nat \<Rightarrow> u8 option" where
  "ov_byte [] pos = None"
| "ov_byte (p # ps) pos =
     (if fst p \<le> pos \<and> pos < fst p + length (snd p) then Some (snd p ! (pos - fst p))
      else ov_byte ps pos)"

text \<open>The file as a reader sees it.\<close>

definition wb_content :: "bytes \<Rightarrow> write_buffer \<Rightarrow> bytes" where
  "wb_content base_data wb =
     map (\<lambda>pos. case ov_byte (wb_overlay wb) pos of Some b \<Rightarrow> b | None \<Rightarrow> base_byte base_data pos)
       [0 ..< effective_size (length base_data) wb]"

lemma add64_small [simp]: "a + b < 2 ^ 64 \<Longrightarrow> add64 a b = a + b"
  by (simp add: add64_def)

lemma sub64_small [simp]: "b \<le> a \<Longrightarrow> a < 2 ^ 64 \<Longrightarrow> sub64 a b = a - b"
proof -
  assume "b \<le> a" "a < 2 ^ 64"
  then have "a + (2 ^ 64 - b) = (a - b) + 2 ^ 64" "a - b < 2 ^ 64" by simp_all
  then show ?thesis unfolding sub64_def by (simp only: mod_add_self2 mod_less)
qed

lemma ov_end_small: "fst p + length (snd p) < 2 ^ 64 \<Longrightarrow> ov_end p = fst p + length (snd p)"
  by (simp add: ov_end_def)

lemma ov_ok_append:
  "ov_ok (a @ b) \<longleftrightarrow> ov_ok a \<and> ov_ok b \<and>
     (\<forall>p \<in> set a. \<forall>q \<in> set b. fst p + length (snd p) < fst q)"
  by (induction a) auto

lemma ov_ok_mem: "ov_ok ov \<Longrightarrow> p \<in> set ov \<Longrightarrow> snd p \<noteq> [] \<and> fst p + length (snd p) < 2 ^ 64"
  by (induction ov) auto

lemma ov_ok_end: "ov_ok ov \<Longrightarrow> p \<in> set ov \<Longrightarrow> ov_end p = fst p + length (snd p)"
  by (rule ov_end_small) (use ov_ok_mem in blast)

lemma ov_ok_sorted: "ov_ok ov \<Longrightarrow> om_wf ov"
  by (induction ov) (auto simp: om_wf_def intro: order_le_less_trans le_add1)

lemma ov_size_simps [simp]:
  "ov_size [] = 0" "ov_size (p # ps) = length (snd p) + ov_size ps"
  "ov_size (a @ b) = ov_size a + ov_size b"
  by (simp_all add: ov_size_def)

lemma ov_size_bound: "ov_ok ov \<Longrightarrow> ov_size ov < 2 ^ 64"
proof -
  have "ov_ok ov \<Longrightarrow> ov \<noteq> [] \<Longrightarrow> fst (hd ov) + ov_size ov < 2 ^ 64"
  proof (induction ov)
    case (Cons p ps)
    show ?case
    proof (cases ps)
      case (Cons q qs)
      then have "fst q + ov_size ps < 2 ^ 64" "fst p + length (snd p) < fst q"
        using Cons.IH Cons.prems by auto
      then show ?thesis by simp
    qed (use Cons in simp)
  qed simp
  then show "ov_ok ov \<Longrightarrow> ov_size ov < 2 ^ 64" by (cases "ov = []") auto
qed

lemma ov_byte_append: "ov_byte (a @ b) pos = (case ov_byte a pos of Some x \<Rightarrow> Some x | None \<Rightarrow> ov_byte b pos)"
  by (induction a) auto

lemma ov_byte_none: "\<forall>p \<in> set ov. pos < fst p \<or> fst p + length (snd p) \<le> pos \<Longrightarrow> ov_byte ov pos = None"
  by (induction ov) auto

lemma ov_byte_SomeD:
  "ov_byte ov pos = Some b \<Longrightarrow>
   \<exists>p \<in> set ov. fst p \<le> pos \<and> pos < fst p + length (snd p) \<and> b = snd p ! (pos - fst p)"
  by (induction ov) (auto split: if_splits)

lemma ov_ok_last:
  "ov_ok ov \<Longrightarrow> p \<in> set ov \<Longrightarrow> fst p + length (snd p) \<le> fst (last ov) + length (snd (last ov))"
proof (induction ov)
  case (Cons q qs)
  show ?case
  proof (cases "qs = []")
    case False
    then have "last qs \<in> set qs" by simp
    with Cons.prems have "fst q + length (snd q) < fst (last qs)" by (auto simp del: last_in_set)
    then have "fst q + length (snd q) \<le> fst (last qs) + length (snd (last qs))" by simp
    with Cons False show ?thesis by auto
  qed (use Cons.prems in auto)
qed simp

lemma memcpy_at_fits: "pos + length src \<le> length dst \<Longrightarrow> \<exists>r. memcpy_at pos src dst = Some r"
  by (simp add: memcpy_at_def)

lemma length_memcpy_at: "memcpy_at pos src dst = Some r \<Longrightarrow> length r = length dst"
  by (auto simp: memcpy_at_def split: if_splits)

lemma nth_memcpy_at:
  "memcpy_at pos src dst = Some r \<Longrightarrow> i < length dst \<Longrightarrow>
   r ! i = (if pos \<le> i \<and> i < pos + length src then src ! (i - pos) else dst ! i)"
  by (auto simp: memcpy_at_def nth_append split: if_splits)

section \<open>Write\<close>

lemma butlast_last_append: "a \<noteq> [] \<Longrightarrow> butlast a @ last a # b = a @ b"
  by (metis append_butlast_last_id append.assoc append_Cons append_Nil)

lemma in_set_tlD: "x \<in> set (tl xs) \<Longrightarrow> x \<in> set xs"
  by (cases xs) simp_all

lemma wb_split_parts:
  assumes ok: "ov_ok ov" and sp: "wb_split offset ov = (lo, hi)"
  shows "ov = lo @ hi" "\<forall>p \<in> set lo. fst p + length (snd p) < offset"
    "\<forall>p \<in> set hi. offset \<le> fst p + length (snd p)"
    "\<forall>p \<in> set (tl hi). offset < fst p"
proof -
  define a where "a = takeWhile (\<lambda>p. fst p \<le> offset) ov"
  define b where "b = dropWhile (\<lambda>p. fst p \<le> offset) ov"
  have ab: "ov = a @ b" by (simp add: a_def b_def)
  then have oka: "ov_ok a" "ov_ok b" using ok ov_ok_append by metis+
  have bb: "offset < fst p" if "p \<in> set b" for p
  proof -
    have "sorted_wrt (<) (map fst b)" using ov_ok_sorted [OF oka(2)] by (simp add: om_wf_def)
    moreover have "b \<noteq> []" using that by (metis empty_iff empty_set)
    then have "\<not> fst (hd b) \<le> offset" unfolding b_def by (rule hd_dropWhile)
    ultimately show ?thesis
      using that by (cases b) auto
  qed
  have lastc: "a = butlast a @ [last a]" "fst p + length (snd p) < fst (last a)"
    if "a \<noteq> []" "p \<in> set (butlast a)" for p
  proof -
    show e: "a = butlast a @ [last a]" using that by simp
    show "fst p + length (snd p) < fst (last a)"
      using oka(1) that unfolding e [THEN arg_cong, of ov_ok] ov_ok_append by auto
  qed
  have lastle: "fst (last a) \<le> offset" if "a \<noteq> []"
    using that last_in_set [OF that] set_takeWhileD unfolding a_def by fastforce
  consider "a = []" "lo = a" "hi = b" | "a \<noteq> []" "ov_end (last a) < offset" "lo = a" "hi = b"
    | "a \<noteq> []" "offset \<le> ov_end (last a)" "lo = butlast a" "hi = last a # b"
    using sp unfolding wb_split_def Let_def a_def [symmetric] b_def [symmetric]
    by (auto split: if_splits simp: not_less)
  note cases = this
  show "ov = lo @ hi"
  proof -
    have "lo @ hi = a @ b"
      using cases by cases (simp_all only: butlast_last_append simp_thms not_False_eq_True)
    then show ?thesis using ab by simp
  qed
  have lastend: "ov_end (last a) = fst (last a) + length (snd (last a))" if "a \<noteq> []"
    using that by (intro ov_ok_end [OF oka(1)]) simp
  show "\<forall>p \<in> set lo. fst p + length (snd p) < offset"
    using cases
  proof cases
    case 2
    then show ?thesis using ov_ok_last [OF oka(1)] lastend by fastforce
  next
    case 3
    then show ?thesis using lastc(2) lastle by fastforce
  qed simp
  show "\<forall>p \<in> set hi. offset \<le> fst p + length (snd p)"
    using cases
  proof cases
    case 3
    then show ?thesis using lastend bb by (auto intro: less_imp_le trans_le_add1)
  qed (use bb in \<open>auto intro: less_imp_le trans_le_add1\<close>)
  show "\<forall>p \<in> set (tl hi). offset < fst p"
    using cases
    by cases (auto intro!: bb dest: in_set_tlD)
qed

lemma wb_collect_parts:
  "ov_ok hi \<Longrightarrow> wb_collect m hi = (e, olds, rest) \<Longrightarrow>
   hi = olds @ rest \<and> m \<le> e \<and> (\<forall>p \<in> set olds. fst p + length (snd p) \<le> e \<and> fst p \<le> m) \<and>
   (\<forall>q \<in> set rest. e < fst q) \<and> (e = m \<or> (\<exists>p \<in> set olds. e = fst p + length (snd p))) \<and>
   (hi \<noteq> [] \<and> fst (hd hi) \<le> m \<longrightarrow> olds \<noteq> [])"
proof (induction hi arbitrary: m e olds rest)
  case (Cons p ps)
  have pe: "ov_end p = fst p + length (snd p)" using Cons.prems(1) by (intro ov_end_small) simp
  have gap: "fst p + length (snd p) < fst q" if "q \<in> set ps" for q using Cons.prems(1) that by simp
  show ?case
  proof (cases "fst p > m")
    case True
    then have r: "e = m" "olds = []" "rest = p # ps" using Cons.prems by auto
    have "m < fst q" if "q \<in> set (p # ps)" for q using True gap [of q] that by auto
    with r True show ?thesis by (simp add: not_le)
  next
    case False
    obtain e' o' r' where c: "wb_collect (max m (ov_end p)) ps = (e', o', r')"
      using prod_cases3 by blast
    have eq: "e = e'" "olds = p # o'" "rest = r'" using False c Cons.prems by auto
    have ih: "ps = o' @ r'" "max m (ov_end p) \<le> e'"
      "\<forall>p' \<in> set o'. fst p' + length (snd p') \<le> e' \<and> fst p' \<le> max m (ov_end p)"
      "\<forall>q \<in> set r'. e' < fst q"
      "e' = max m (ov_end p) \<or> (\<exists>p \<in> set o'. e' = fst p + length (snd p))"
      using Cons.IH [OF _ c] Cons.prems(1) by auto
    have "fst p' \<le> m" if "p' \<in> set o'" for p'
      using ih(3) gap [of p'] ih(1) that pe by force
    moreover have "e' = m \<or> e' = fst p + length (snd p) \<or> (\<exists>p \<in> set o'. e' = fst p + length (snd p))"
      using ih(5) pe by (auto simp: max_def split: if_splits)
    ultimately show ?thesis
      using ih pe False unfolding eq by auto
  qed
qed simp

lemma om_put_middle:
  "(\<forall>p \<in> set lo. fst p < k) \<Longrightarrow> (\<forall>p \<in> set rest. k < fst p) \<Longrightarrow>
   om_put k v (lo @ rest) = lo @ (k, v) # rest"
  by (induction lo) (cases rest; auto)+

lemma wb_copy_olds_bytes:
  "ov_ok olds \<Longrightarrow> \<forall>p \<in> set olds. st \<le> fst p \<and> fst p + length (snd p) \<le> st + length m \<Longrightarrow>
   st + length m < 2 ^ 64 \<Longrightarrow>
   \<exists>r. wb_copy_olds st olds m = Some r \<and> length r = length m \<and>
     (\<forall>i < length m. r ! i = (case ov_byte olds (st + i) of Some b \<Rightarrow> b | None \<Rightarrow> m ! i))"
proof (induction olds arbitrary: m)
  case (Cons p ps)
  have s: "sub64 (fst p) st = fst p - st" using Cons.prems by simp
  have fits: "fst p - st + length (snd p) \<le> length m" using Cons.prems by auto
  then obtain m1 where m1: "memcpy_at (fst p - st) (snd p) m = Some m1"
    by (auto simp: memcpy_at_def)
  have len: "length m1 = length m" using m1 by (rule length_memcpy_at)
  obtain r where r: "wb_copy_olds st ps m1 = Some r" "length r = length m1"
    "\<forall>i < length m1. r ! i = (case ov_byte ps (st + i) of Some b \<Rightarrow> b | None \<Rightarrow> m1 ! i)"
    using Cons.IH [of m1] Cons.prems len by auto
  have "r ! i = (case ov_byte (p # ps) (st + i) of Some b \<Rightarrow> b | None \<Rightarrow> m ! i)" if i: "i < length m" for i
  proof (cases "fst p \<le> st + i \<and> st + i < fst p + length (snd p)")
    case True
    have "ov_byte ps (st + i) = None"
      using Cons.prems(1) True by (intro ov_byte_none) force
    moreover have "m1 ! i = snd p ! (st + i - fst p)"
      using nth_memcpy_at [OF m1 i] True Cons.prems(2) by (auto simp: add.commute)
    ultimately show ?thesis using r(3) len i True by simp
  next
    case False
    then have "m1 ! i = m ! i" using nth_memcpy_at [OF m1 i] Cons.prems(2) by auto
    with False r(3) len i show ?thesis by (auto split: option.split)
  qed
  with r len m1 s show ?case by simp
qed simp

text \<open>
  What a write does to the overlay, byte by byte, and that none of its copies leaves its
  buffer.
\<close>

lemma wb_write_overlay:
  assumes inv: "wb_inv wb" and data: "data \<noteq> []" and small: "offset + length data < 2 ^ 64"
  obtains wb' where "wb_write offset data wb = Some wb'" "ov_ok (wb_overlay wb')"
    "wb_dirty_bytes wb' = ov_size (wb_overlay wb')" "wb_overlay wb' \<noteq> []"
    "\<forall>pos. ov_byte (wb_overlay wb') pos =
       (if offset \<le> pos \<and> pos < offset + length data then Some (data ! (pos - offset))
        else ov_byte (wb_overlay wb) pos)"
    "\<forall>p \<in> set (wb_overlay wb'). fst p + length (snd p) \<le> offset + length data \<or>
       (\<exists>q \<in> set (wb_overlay wb). fst p + length (snd p) \<le> fst q + length (snd q))"
    "wb_size_override wb' = (if effective_size (wb_base_size wb) (wb\<lparr>wb_overlay := wb_overlay wb'\<rparr>) < offset + length data
       then Some (offset + length data) else wb_size_override wb)"
    "wb_base_size wb' = wb_base_size wb" "wb_base_blob wb' = wb_base_blob wb"
proof -
  let ?n = "offset + length data"
  have ok: "ov_ok (wb_overlay wb)" and dirty: "wb_dirty_bytes wb = ov_size (wb_overlay wb)"
    using inv by (auto simp: wb_inv_def)
  obtain lo hi where sp: "wb_split offset (wb_overlay wb) = (lo, hi)" by fastforce
  note spl = wb_split_parts [OF ok sp]
  obtain e olds rest where c: "wb_collect ?n hi = (e, olds, rest)" using prod_cases3 by blast
  have okh: "ov_ok lo" "ov_ok hi" and lohi: "\<forall>p \<in> set lo. \<forall>q \<in> set hi. fst p + length (snd p) < fst q"
    using ok spl(1) by (simp_all add: ov_ok_append)
  have col: "hi = olds @ rest" "?n \<le> e"
    "\<forall>p \<in> set olds. fst p + length (snd p) \<le> e \<and> fst p \<le> ?n" "\<forall>q \<in> set rest. e < fst q"
    "e = ?n \<or> (\<exists>p \<in> set olds. e = fst p + length (snd p))"
    "hi \<noteq> [] \<and> fst (hd hi) \<le> ?n \<longrightarrow> olds \<noteq> []"
    using wb_collect_parts [OF okh(2) c] by blast+
  define st where "st = (if hi \<noteq> [] \<and> fst (hd hi) < offset then fst (hd hi) else offset)"
  have st_le: "st \<le> offset" by (simp add: st_def)
  have oko: "ov_ok olds" "ov_ok rest" using okh col(1) by (simp_all add: ov_ok_append)
  have e64: "e < 2 ^ 64" using col(5) small ov_ok_mem [OF oko(1)] by auto
  have hd_olds: "hi \<noteq> [] \<Longrightarrow> fst (hd hi) < offset \<Longrightarrow> olds \<noteq> [] \<and> hd hi = hd olds"
    using col(1,6) by (cases olds) auto
  have st_olds: "st \<le> fst p" if "p \<in> set olds" for p
  proof -
    have "p \<in> set hi" using that col(1) by simp
    then show ?thesis using spl(4) by (cases hi) (auto simp: st_def)
  qed
  let ?zero = "replicate (sub64 e st) (0 :: u8)"
  have len0: "length ?zero = e - st" using st_le col(2) e64 by simp
  obtain m where m: "wb_copy_olds st olds ?zero = Some m" "length m = e - st"
    "\<forall>i < e - st. m ! i = (case ov_byte olds (st + i) of Some b \<Rightarrow> b | None \<Rightarrow> 0)"
  proof -
    have "\<forall>p \<in> set olds. st \<le> fst p \<and> fst p + length (snd p) \<le> st + length ?zero"
      using col(2,3) st_olds st_le unfolding len0 by fastforce
    moreover have "st + length ?zero < 2 ^ 64" using e64 st_le col(2) unfolding len0 by simp
    ultimately obtain r where r: "wb_copy_olds st olds ?zero = Some r" "length r = length ?zero"
      "\<forall>i < length ?zero. r ! i = (case ov_byte olds (st + i) of Some b \<Rightarrow> b | None \<Rightarrow> ?zero ! i)"
      using wb_copy_olds_bytes [OF oko(1), of st ?zero] by blast
    have "?zero ! i = 0" if "i < e - st" for i
      using that len0 by (metis length_replicate nth_replicate)
    then have "\<forall>i < e - st. r ! i = (case ov_byte olds (st + i) of Some b \<Rightarrow> b | None \<Rightarrow> 0)"
      using r(3) unfolding len0 by (auto split: option.split)
    with r(1,2) that show thesis unfolding len0 by blast
  qed
  have s2: "sub64 offset st = offset - st" using st_le small by simp
  have "offset - st + length data \<le> length m" using col(2) st_le m(2) by simp
  then obtain m2 where m2: "memcpy_at (offset - st) data m = Some m2"
    by (simp add: memcpy_at_def)
  have len2: "length m2 = e - st" using length_memcpy_at [OF m2] m(2) by simp
  have cover: "ov_byte olds pos \<noteq> None" if "st \<le> pos" "pos < e" "pos < offset \<or> ?n \<le> pos" for pos
  proof -
    have "\<exists>p \<in> set olds. fst p \<le> pos \<and> pos < fst p + length (snd p)"
    proof (cases "pos < offset")
      case True
      then have "hi \<noteq> []" "fst (hd hi) < offset" "fst (hd hi) \<le> pos"
        using that(1) by (auto simp: st_def split: if_splits)
      moreover from this hd_olds have "hd olds \<in> set olds" "hd hi = hd olds" by auto
      moreover from this have "offset \<le> fst (hd olds) + length (snd (hd olds))"
        using spl(3) col(1) by simp
      ultimately show ?thesis using True by (intro bexI [of _ "hd olds"]) auto
    next
      case False
      with that col(2) have "e \<noteq> ?n" by linarith
      then obtain p where "p \<in> set olds" "e = fst p + length (snd p)" using col(5) by blast
      with col(3) False that show ?thesis by (intro bexI [of _ p]) auto
    qed
    then show ?thesis by (induction olds) auto
  qed
  let ?ov = "lo @ (st, m2) # rest"
  have lost: "fst p + length (snd p) < st" if "p \<in> set lo" for p
    using that spl(2) lohi by (auto simp: st_def)
  have put: "om_put st m2 (lo @ rest) = ?ov"
    using lost col(2,4) st_le by (intro om_put_middle) force+
  have m2ne: "m2 \<noteq> []" using len2 col(2) st_le data by (cases data) auto
  have ovok: "ov_ok ?ov"
    using okh(1) oko(2) lost col len2 st_le e64 m2ne lohi
    by (auto simp: ov_ok_append)
  have lo_none: "ov_byte lo pos = None" if "st \<le> pos" for pos
    using lost that by (intro ov_byte_none) force
  have bytes: "ov_byte ?ov pos = (if offset \<le> pos \<and> pos < ?n then Some (data ! (pos - offset))
      else ov_byte (wb_overlay wb) pos)" for pos
  proof (cases "st \<le> pos \<and> pos < e")
    case True
    then have i: "pos - st < length m" using m(2) by linarith
    have new: "ov_byte ?ov pos = Some (m2 ! (pos - st))"
      using True lo_none [of pos] len2 by (simp add: ov_byte_append)
    have old: "ov_byte (wb_overlay wb) pos =
        (case ov_byte olds pos of Some b \<Rightarrow> Some b | None \<Rightarrow> ov_byte rest pos)"
      using True lo_none [of pos] by (simp add: ov_byte_append spl(1) col(1))
    show ?thesis
    proof (cases "offset \<le> pos \<and> pos < ?n")
      case ins: True
      then have "m2 ! (pos - st) = data ! (pos - offset)"
        using nth_memcpy_at [OF m2 i] st_le by auto
      with ins new show ?thesis by simp
    next
      case outs: False
      then obtain b where b: "ov_byte olds pos = Some b" using cover True by fastforce
      have "m2 ! (pos - st) = m ! (pos - st)"
        using nth_memcpy_at [OF m2 i] st_le outs True by auto
      moreover have "m ! (pos - st) = b" using m(3) i True b m(2) by simp
      ultimately show ?thesis using outs new old b by auto
    qed
  next
    case False
    have on: "ov_byte olds pos = None"
      using False st_olds col(3) by (intro ov_byte_none) fastforce
    have "\<not> (offset \<le> pos \<and> pos < ?n)" using False st_le col(2) by auto
    moreover have "st + length m2 = e" using len2 st_le col(2) by simp
    then have "ov_byte ?ov pos = ov_byte (wb_overlay wb) pos"
      using False on by (auto simp: ov_byte_append spl(1) col(1) split: option.split)
    ultimately show ?thesis by auto
  qed
  have sz: "add64 (sub64 (wb_dirty_bytes wb) (sum_list (map (\<lambda>p. length (snd p)) olds))) (length m2) = ov_size ?ov"
  proof -
    have o: "sum_list (map (\<lambda>p. length (snd p)) olds) = ov_size olds" by (simp add: ov_size_def)
    have "wb_dirty_bytes wb = ov_size lo + ov_size olds + ov_size rest"
      using dirty by (simp add: spl(1) col(1))
    moreover have "wb_dirty_bytes wb < 2 ^ 64" "ov_size ?ov < 2 ^ 64"
      using dirty ov_size_bound [OF ok] ov_size_bound [OF ovok] by simp_all
    ultimately show ?thesis unfolding o by simp
  qed
  let ?wb1 = "wb\<lparr>wb_overlay := ?ov, wb_dirty_bytes := ov_size ?ov\<rparr>"
  let ?wb' = "if effective_size (wb_base_size wb) ?wb1 < ?n then ?wb1\<lparr>wb_size_override := Some ?n\<rparr> else ?wb1"
  have eff: "effective_size (wb_base_size wb) ?wb1 = effective_size (wb_base_size wb) (wb\<lparr>wb_overlay := ?ov\<rparr>)"
    by (simp add: effective_size_def split: option.split)
  have run: "wb_write offset data wb = Some ?wb'"
    using data small m(1) m2 s2 put sz
    by (simp add: wb_write_def sp c st_def [symmetric] Let_def cong: if_cong)
  have ends: "fst p + length (snd p) \<le> ?n \<or> (\<exists>q \<in> set (wb_overlay wb). fst p + length (snd p) \<le> fst q + length (snd q))"
    if "p \<in> set ?ov" for p
  proof (cases "p = (st, m2)")
    case True
    then have "fst p + length (snd p) = e" using len2 st_le col(2) by simp
    with col(5) show ?thesis unfolding spl(1) col(1)
      by (elim disjE bexE) (auto intro: bexI)
  next
    case False
    with that have "p \<in> set (wb_overlay wb)" by (auto simp: spl(1) col(1))
    then show ?thesis by blast
  qed
  show ?thesis
    using eff bytes ovok ends by (intro that [OF run]) (simp_all split: if_split)
qed

lemma wb_write_inv:
  assumes inv: "wb_inv wb" and small: "offset + length data < 2 ^ 64"
  obtains wb' where "wb_write offset data wb = Some wb'" "wb_inv wb'"
proof (cases "data = []")
  case True
  with inv that show ?thesis by (simp add: wb_write_def)
next
  case False
  let ?n = "offset + length data"
  from inv False small show ?thesis
  proof (rule wb_write_overlay)
    fix wb' assume w: "wb_write offset data wb = Some wb'" and ok: "ov_ok (wb_overlay wb')"
      and d: "wb_dirty_bytes wb' = ov_size (wb_overlay wb')"
      and e: "\<forall>p \<in> set (wb_overlay wb'). fst p + length (snd p) \<le> ?n \<or>
        (\<exists>q \<in> set (wb_overlay wb). fst p + length (snd p) \<le> fst q + length (snd q))"
      and o: "wb_size_override wb' = (if effective_size (wb_base_size wb) (wb\<lparr>wb_overlay := wb_overlay wb'\<rparr>) < ?n
        then Some ?n else wb_size_override wb)" and ne: "wb_overlay wb' \<noteq> []"
    have "n < 2 ^ 64 \<and> (\<forall>p \<in> set (wb_overlay wb'). fst p + length (snd p) \<le> n)"
      if n: "wb_size_override wb' = Some n" for n
    proof (cases "wb_size_override wb")
      case (Some n0)
      then have n': "n = max n0 ?n" using n o by (auto simp: effective_size_def split: if_splits)
      have "n0 < 2 ^ 64" "\<forall>q \<in> set (wb_overlay wb). fst q + length (snd q) \<le> n0"
        using inv Some by (auto simp: wb_inv_def)
      then show ?thesis using e small n' by fastforce
    next
      case None
      then have n': "n = ?n" and lt: "effective_size (wb_base_size wb) (wb\<lparr>wb_overlay := wb_overlay wb'\<rparr>) < ?n"
        using n o by (auto split: if_splits)
      have "ov_end (last (wb_overlay wb')) \<le> ?n"
        using lt None ne by (simp add: effective_size_def)
      then show ?thesis
        using ov_ok_last [OF ok] ov_ok_end [OF ok, of "last (wb_overlay wb')"] ne small n' by fastforce
    qed
    then have "wb_inv wb'" using ok d by (simp add: wb_inv_def)
    with w show ?thesis by (rule that)
  qed
qed

text \<open>The end of the file before and after a write.\<close>

lemma ov_end_ge:
  assumes ok: "ov_ok ov" and x: "ov_byte ov pos = Some b"
  shows "pos < ov_end (last ov)" "ov \<noteq> []"
proof -
  obtain p where p: "p \<in> set ov" "pos < fst p + length (snd p)" using ov_byte_SomeD [OF x] by blast
  then show "ov \<noteq> []" by auto
  then have "ov_end (last ov) = fst (last ov) + length (snd (last ov))" by (simp add: ov_ok_end [OF ok])
  with p ov_ok_last [OF ok p(1)] show "pos < ov_end (last ov)" by simp
qed

lemma ov_byte_last:
  assumes ok: "ov_ok ov" and ne: "ov \<noteq> []"
  shows "ov_byte ov (ov_end (last ov) - 1) \<noteq> None" "0 < ov_end (last ov)"
proof -
  have e: "ov_end (last ov) = fst (last ov) + length (snd (last ov))" "snd (last ov) \<noteq> []"
    using ov_ok_end [OF ok] ov_ok_mem [OF ok] ne by simp_all
  then show "0 < ov_end (last ov)" by (simp add: Suc_leI)
  have "fst (last ov) \<le> ov_end (last ov) - 1" "ov_end (last ov) - 1 < fst (last ov) + length (snd (last ov))"
    using e by (cases "snd (last ov)"; simp)+
  moreover have "last ov \<in> set ov" using ne by simp
  ultimately show "ov_byte ov (ov_end (last ov) - 1) \<noteq> None"
    using ov_byte_none by (induction ov) auto
qed

definition ov_top :: "(nat, bytes) omap \<Rightarrow> nat" where
  "ov_top ov = (if ov = [] then 0 else ov_end (last ov))"

lemma effective_size_top:
  "effective_size b wb = (case wb_size_override wb of Some n \<Rightarrow> n | None \<Rightarrow> max b (ov_top (wb_overlay wb)))"
  by (simp add: effective_size_def ov_top_def split: option.split)

lemma ov_top_least:
  assumes "ov_ok ov"
  shows "ov_top ov \<le> n \<longleftrightarrow> (\<forall>pos. n \<le> pos \<longrightarrow> ov_byte ov pos = None)"
proof
  assume n: "ov_top ov \<le> n"
  show "\<forall>pos. n \<le> pos \<longrightarrow> ov_byte ov pos = None"
  proof (intro allI impI)
    fix pos assume "n \<le> pos"
    show "ov_byte ov pos = None"
    proof (rule ccontr)
      assume "ov_byte ov pos \<noteq> None"
      then obtain b where "ov_byte ov pos = Some b" by blast
      from ov_end_ge [OF assms this] n \<open>n \<le> pos\<close> show False by (simp add: ov_top_def)
    qed
  qed
next
  assume a: "\<forall>pos. n \<le> pos \<longrightarrow> ov_byte ov pos = None"
  show "ov_top ov \<le> n"
  proof (cases "ov = []")
    case False
    have "\<not> n \<le> ov_end (last ov) - 1" using a [rule_format, of "ov_end (last ov) - 1"] ov_byte_last(1) [OF assms False] by metis
    with False show ?thesis by (simp add: ov_top_def)
  qed (simp add: ov_top_def)
qed

section \<open>The file as its readers see it\<close>

text \<open>What \<open>pwrite\<close> and \<open>ftruncate\<close> do to the bytes of a file.\<close>

definition pwrite :: "nat \<Rightarrow> bytes \<Rightarrow> bytes \<Rightarrow> bytes" where
  "pwrite offset data c =
     (if data = [] then c
      else take offset c @ replicate (offset - length c) 0 @ data @ drop (offset + length data) c)"

lemma length_content [simp]: "length (wb_content base wb) = effective_size (length base) wb"
  by (simp add: wb_content_def)

lemma nth_content:
  "pos < effective_size (length base) wb \<Longrightarrow> wb_content base wb ! pos =
     (case ov_byte (wb_overlay wb) pos of Some b \<Rightarrow> b | None \<Rightarrow> base_byte base pos)"
  by (simp add: wb_content_def cong: option.case_cong)

lemma length_pwrite: "length (pwrite offset data c) =
    (if data = [] then length c else max (length c) (offset + length data))"
  by (auto simp: pwrite_def)

lemma nth_pwrite:
  "pos < length (pwrite offset data c) \<Longrightarrow> pwrite offset data c ! pos =
     (if offset \<le> pos \<and> pos < offset + length data then data ! (pos - offset)
      else if pos < length c then c ! pos else 0)"
  by (auto simp: pwrite_def nth_append min_def split: if_splits)

lemma ends_le_eff:
  assumes "wb_inv wb" "p \<in> set (wb_overlay wb)"
  shows "fst p + length (snd p) \<le> effective_size b wb"
proof -
  have ok: "ov_ok (wb_overlay wb)" using assms by (simp add: wb_inv_def)
  have "wb_overlay wb \<noteq> []" using assms by auto
  then have "ov_end (last (wb_overlay wb)) = fst (last (wb_overlay wb)) + length (snd (last (wb_overlay wb)))"
    by (simp add: ov_ok_end [OF ok])
  with assms ov_ok_last [OF ok assms(2)] show ?thesis
    by (auto simp: effective_size_def wb_inv_def split: option.split)
qed

lemma effective_size_small:
  assumes "wb_inv wb" "b < 2 ^ 64"
  shows "effective_size b wb < 2 ^ 64"
proof -
  have ok: "ov_ok (wb_overlay wb)" using assms by (simp add: wb_inv_def)
  have "wb_overlay wb \<noteq> [] \<Longrightarrow> ov_end (last (wb_overlay wb)) < 2 ^ 64" by (simp add: ov_end_def add64_def)
  with assms show ?thesis by (auto simp: effective_size_def wb_inv_def split: option.split)
qed

lemma wb_overlay_all_bytes:
  "ov_ok ov \<Longrightarrow> \<forall>p \<in> set ov. fst p + length (snd p) \<le> length r \<Longrightarrow> length r < 2 ^ 64 \<Longrightarrow>
   \<exists>r'. wb_overlay_all (length r) ov r = Some r' \<and> length r' = length r \<and>
     (\<forall>i < length r. r' ! i = (case ov_byte ov i of Some b \<Rightarrow> b | None \<Rightarrow> r ! i))"
proof (induction ov arbitrary: r)
  case (Cons p ps)
  have fits: "fst p + length (snd p) \<le> length r" using Cons.prems by simp
  then have "sub64 (length r) (fst p) = length r - fst p" using Cons.prems by simp
  then have cl: "take (min (length (snd p)) (sub64 (length r) (fst p))) (snd p) = snd p"
    using fits by simp
  obtain m1 where m1: "memcpy_at (fst p) (snd p) r = Some m1"
    using fits by (auto simp: memcpy_at_def)
  have len: "length m1 = length r" using m1 by (rule length_memcpy_at)
  obtain r' where r: "wb_overlay_all (length r) ps m1 = Some r'" "length r' = length r"
    "\<forall>i < length r. r' ! i = (case ov_byte ps i of Some b \<Rightarrow> b | None \<Rightarrow> m1 ! i)"
    using Cons.IH [of m1] Cons.prems len by auto
  have "r' ! i = (case ov_byte (p # ps) i of Some b \<Rightarrow> b | None \<Rightarrow> r ! i)" if i: "i < length r" for i
  proof (cases "fst p \<le> i \<and> i < fst p + length (snd p)")
    case True
    have "ov_byte ps i = None"
      using Cons.prems(1) True by (intro ov_byte_none) force
    moreover have "m1 ! i = snd p ! (i - fst p)"
      using nth_memcpy_at [OF m1 i] True by simp
    ultimately show ?thesis using r(3) i True by simp
  next
    case False
    then have "m1 ! i = r ! i" using nth_memcpy_at [OF m1 i] by auto
    with False r(3) i show ?thesis by (auto split: option.split)
  qed
  with r cl m1 show ?case by (simp add: Let_def)
qed simp

lemma wb_materialize_content:
  assumes inv: "wb_inv wb" and b: "length base < 2 ^ 64"
  shows "wb_materialize base wb = Some (wb_content base wb)"
proof -
  let ?eff = "effective_size (length base) wb"
  let ?r = "take (min ?eff (length base)) base @ replicate (?eff - min ?eff (length base)) (0 :: u8)"
  have ok: "ov_ok (wb_overlay wb)" using inv by (simp add: wb_inv_def)
  have len: "length ?r = ?eff" by simp
  have r: "?r ! i = base_byte base i" if "i < ?eff" for i
    using that by (auto simp: base_byte_def nth_append)
  obtain r' where r': "wb_overlay_all ?eff (wb_overlay wb) ?r = Some r'" "length r' = ?eff"
    "\<forall>i < ?eff. r' ! i = (case ov_byte (wb_overlay wb) i of Some b \<Rightarrow> b | None \<Rightarrow> ?r ! i)"
    using wb_overlay_all_bytes [OF ok, of ?r] ends_le_eff [OF inv] effective_size_small [OF inv b]
    unfolding len by metis
  have "r' = wb_content base wb"
    using r' r by (intro nth_equalityI) (auto simp: nth_content split: option.split)
  with r' show ?thesis by (simp add: wb_materialize_def Let_def)
qed

lemma wb_overlay_read_bytes:
  "ov_ok ov \<Longrightarrow> offset + length r < 2 ^ 64 \<Longrightarrow>
   \<exists>r'. wb_overlay_read offset (length r) ov r = Some r' \<and> length r' = length r \<and>
     (\<forall>i < length r. r' ! i = (case ov_byte ov (offset + i) of Some b \<Rightarrow> b | None \<Rightarrow> r ! i))"
proof (induction ov arbitrary: r)
  case (Cons p ps)
  have e: "ov_end p = fst p + length (snd p)" and q: "add64 offset (length r) = offset + length r"
    using Cons.prems by (simp_all add: ov_end_def)
  have p64: "fst p + length (snd p) < 2 ^ 64" using Cons.prems by simp
  show ?case
  proof (cases "ov_end p \<le> offset \<or> offset + length r \<le> fst p")
    case True
    have "ov_byte (p # ps) (offset + i) = ov_byte ps (offset + i)" if "i < length r" for i
      using True that e by auto
    with Cons.IH [of r] Cons.prems True q show ?thesis by (auto simp: Let_def)
  next
    case False
    let ?s = "max (fst p) offset" and ?e = "min (ov_end p) (offset + length r)"
    let ?src = "take (?e - ?s) (drop (?s - fst p) (snd p))"
    have sub: "sub64 ?e ?s = ?e - ?s" "sub64 ?s (fst p) = ?s - fst p" "sub64 ?s offset = ?s - offset"
      using False e p64 Cons.prems(2) by simp_all
    have rd: "rd (?e - ?s) (?s - fst p) (snd p) = Some ?src"
      using False e by (intro rd_eq_Some) auto
    have ls: "length ?src = ?e - ?s" using False e by auto
    have "?s - offset + length ?src \<le> length r" unfolding ls using False e by auto
    then obtain m1 where m1: "memcpy_at (?s - offset) ?src r = Some m1"
      using memcpy_at_fits by blast
    have len: "length m1 = length r" using m1 by (rule length_memcpy_at)
    obtain r' where r: "wb_overlay_read offset (length r) ps m1 = Some r'" "length r' = length r"
      "\<forall>i < length r. r' ! i = (case ov_byte ps (offset + i) of Some b \<Rightarrow> b | None \<Rightarrow> m1 ! i)"
      using Cons.IH [of m1] Cons.prems len by auto
    have byt: "r' ! i = (case ov_byte (p # ps) (offset + i) of Some b \<Rightarrow> b | None \<Rightarrow> r ! i)" if i: "i < length r" for i
    proof (cases "fst p \<le> offset + i \<and> offset + i < fst p + length (snd p)")
      case True
      have n: "ov_byte ps (offset + i) = None"
        using Cons.prems(1) True by (intro ov_byte_none) force
      have ins: "?s - offset \<le> i \<and> i < ?s - offset + length ?src"
        using True i e unfolding ls by auto
      have "m1 ! i = ?src ! (i - (?s - offset))"
        using nth_memcpy_at [OF m1 i] ins by (simp only: if_True simp_thms)
      also have "\<dots> = snd p ! (offset + i - fst p)"
        using ins True unfolding ls by (subst nth_take) (auto simp: max_def add.commute)
      finally show ?thesis using r(3) i True n by simp
    next
      case out: False
      have "\<not> (?s - offset \<le> i \<and> i < ?s - offset + length ?src)"
        using out e False unfolding ls by auto
      then have "m1 ! i = r ! i" using nth_memcpy_at [OF m1 i] by (simp only: if_False)
      with out r(3) i show ?thesis by (auto split: option.split)
    qed
    have step: "wb_overlay_read offset (length r) (p # ps) r = wb_overlay_read offset (length r) ps m1"
      by (simp only: wb_overlay_read.simps Let_def q False sub rd m1 if_False option.case)
    have run: "wb_overlay_read offset (length r) (p # ps) r = Some r'" unfolding step by (rule r(1))
    show ?thesis
      by (intro exI [of _ r'] conjI run r(2) allI impI byt)
  qed
qed simp

lemma wb_read_content:
  assumes inv: "wb_inv wb" and b: "length base < 2 ^ 64"
  shows "wb_read offset len base wb = Some (take len (drop offset (wb_content base wb)))"
proof -
  let ?eff = "effective_size (length base) wb"
  have ok: "ov_ok (wb_overlay wb)" using inv by (simp add: wb_inv_def)
  have e64: "?eff < 2 ^ 64" by (rule effective_size_small [OF inv b])
  show ?thesis
  proof (cases "?eff \<le> offset")
    case True
    then show ?thesis by (simp add: wb_read_def)
  next
    case False
    let ?av = "min len (?eff - offset)"
    let ?r = "map (\<lambda>i. base_byte base (add64 offset i)) [0 ..< ?av]"
    have len: "length ?r = ?av" by simp
    obtain r' where r': "wb_overlay_read offset ?av (wb_overlay wb) ?r = Some r'" "length r' = ?av"
      "\<forall>i < ?av. r' ! i = (case ov_byte (wb_overlay wb) (offset + i) of Some b \<Rightarrow> b | None \<Rightarrow> ?r ! i)"
    proof -
      have "offset + ?av \<le> ?eff" using False by simp
      then have "offset + ?av < 2 ^ 64" using e64 by (rule le_less_trans)
      then show thesis using that wb_overlay_read_bytes [OF ok, of offset ?r] unfolding len by blast
    qed
    have "?r ! i = base_byte base (offset + i)" if "i < ?av" for i
    proof -
      have "offset + i < ?eff" using that False by linarith
      then have "offset + i < 2 ^ 64" using e64 by (rule less_trans)
      with that show ?thesis by simp
    qed
    with r' have "r' = take len (drop offset (wb_content base wb))"
      by (intro nth_equalityI) (auto simp: nth_content split: option.split)
    with r' False e64 show ?thesis by (simp add: wb_read_def Let_def)
  qed
qed

text \<open>
  The content that a write at \<open>offset\<close> starts from: up to there the base shows again behind the
  end of the file. It has bytes there only when a truncation cut into the base.
\<close>

definition exposed :: "bytes \<Rightarrow> nat \<Rightarrow> bytes \<Rightarrow> bytes" where
  "exposed base offset c = c @ take (offset - length c) (drop (length c) base)"

lemma exposed_none: "(length c < offset \<Longrightarrow> length base \<le> length c) \<Longrightarrow> exposed base offset c = c"
  by (cases "length c < offset") (simp_all add: exposed_def)

lemma length_exposed: "length (exposed base offset c) = length c + min (offset - length c) (length base - length c)"
  by (simp add: exposed_def min_def)

lemma nth_exposed: "pos < length (exposed base offset c) \<Longrightarrow>
    exposed base offset c ! pos = (if pos < length c then c ! pos else base ! pos)"
  by (auto simp: exposed_def nth_append)

lemma wb_write_content:
  assumes inv: "wb_inv wb" and small: "offset + length data < 2 ^ 64" and bs: "wb_base_size wb = length base"
    and w: "wb_write offset data wb = Some wb'" and False: "data \<noteq> []"
  shows "wb_content base wb' = pwrite offset data (exposed base offset (wb_content base wb))"
proof -
  let ?n = "offset + length data"
  obtain w' where w': "wb_write offset data wb = Some w'" and ok': "ov_ok (wb_overlay w')"
    and bytes: "\<forall>pos. ov_byte (wb_overlay w') pos =
       (if offset \<le> pos \<and> pos < ?n then Some (data ! (pos - offset)) else ov_byte (wb_overlay wb) pos)"
    and ovr: "wb_size_override w' = (if effective_size (wb_base_size wb) (wb\<lparr>wb_overlay := wb_overlay w'\<rparr>) < ?n
       then Some ?n else wb_size_override wb)"
    using wb_write_overlay [OF inv False small] by metis
  have ww: "w' = wb'" using w w' by simp
  have ok: "ov_ok (wb_overlay wb)" using inv by (simp add: wb_inv_def)
  have top: "ov_top (wb_overlay wb') = max (ov_top (wb_overlay wb)) ?n"
  proof (rule eq_iff [THEN iffD2, OF conjI])
    have "ov_byte (wb_overlay wb') pos = None" if "max (ov_top (wb_overlay wb)) ?n \<le> pos" for pos
      using that bytes ww ov_top_least [OF ok, of "ov_top (wb_overlay wb)"] by auto
    then show "ov_top (wb_overlay wb') \<le> max (ov_top (wb_overlay wb)) ?n"
      using ov_top_least [OF ok'] ww by metis
    have out: "ov_byte (wb_overlay wb') pos = None" if "ov_top (wb_overlay wb') \<le> pos" for pos
      using that ov_top_least [OF ok', of "ov_top (wb_overlay wb')"] ww by auto
    have "?n \<le> ov_top (wb_overlay wb')"
    proof (rule ccontr)
      assume "\<not> ?n \<le> ov_top (wb_overlay wb')"
      then have "ov_byte (wb_overlay wb') (?n - 1) = None" by (intro out) simp
      with bytes ww False show False by (cases data) (auto split: if_splits)
    qed
    moreover have "ov_byte (wb_overlay wb) pos = None" if "ov_top (wb_overlay wb') \<le> pos" for pos
      using out [OF that] bytes ww by (auto split: if_splits)
    then have "ov_top (wb_overlay wb) \<le> ov_top (wb_overlay wb')"
      using ov_top_least [OF ok] by metis
    ultimately show "max (ov_top (wb_overlay wb)) ?n \<le> ov_top (wb_overlay wb')" by simp
  qed
  have eff: "effective_size (length base) wb' = max (effective_size (length base) wb) ?n"
    using ovr top ww bs by (auto simp: effective_size_top max_def split: option.splits if_splits)
  have ob: "ov_byte (wb_overlay wb) pos = None" if "effective_size (length base) wb \<le> pos" for pos
    using that ends_le_eff [OF inv, where b = "length base"] by (intro ov_byte_none) force
  let ?x = "exposed base offset (wb_content base wb)"
  show ?thesis
  proof (rule nth_equalityI)
    show "length (wb_content base wb') = length (pwrite offset data ?x)"
      using eff False by (simp add: length_pwrite length_exposed)
    fix pos assume p: "pos < length (wb_content base wb')"
    then have pe: "pos < max (effective_size (length base) wb) ?n" using eff by simp
    have "wb_content base wb' ! pos = (if offset \<le> pos \<and> pos < ?n then data ! (pos - offset)
        else case ov_byte (wb_overlay wb) pos of Some b \<Rightarrow> b | None \<Rightarrow> base_byte base pos)"
      using p bytes ww by (simp add: nth_content)
    also have "\<dots> = pwrite offset data ?x ! pos"
      using pe False ob by (subst nth_pwrite) (auto simp: length_pwrite length_exposed nth_exposed nth_content base_byte_def)
    finally show "wb_content base wb' ! pos = pwrite offset data ?x ! pos" .
  qed
qed

section \<open>Truncation\<close>

lemma foldl_sub64:
  "ov_size ps \<le> d \<Longrightarrow> d < 2 ^ 64 \<Longrightarrow> foldl (\<lambda>d p. sub64 d (length (snd p))) d ps = d - ov_size ps"
  by (induction ps arbitrary: d) simp_all

lemma dropWhile_keys:
  "om_wf ov \<Longrightarrow> p \<in> set (dropWhile (\<lambda>p. fst p < n) ov) \<Longrightarrow> n \<le> fst p"
  by (induction ov) (auto simp: om_wf_def split: if_splits)

lemma wb_truncate_overlay:
  assumes inv: "wb_inv wb" and n: "n < 2 ^ 64"
  shows "ov_ok (wb_overlay (wb_truncate n wb))"
    "wb_dirty_bytes (wb_truncate n wb) = ov_size (wb_overlay (wb_truncate n wb))"
    "wb_size_override (wb_truncate n wb) = Some n"
    "\<forall>p \<in> set (wb_overlay (wb_truncate n wb)). fst p + length (snd p) \<le> n"
    "ov_byte (wb_overlay (wb_truncate n wb)) pos = (if pos < n then ov_byte (wb_overlay wb) pos else None)"
proof -
  define a where "a = takeWhile (\<lambda>p. fst p < n) (wb_overlay wb)"
  define b where "b = dropWhile (\<lambda>p. fst p < n) (wb_overlay wb)"
  have ab: "wb_overlay wb = a @ b" by (simp add: a_def b_def)
  have ok: "ov_ok (wb_overlay wb)" and d: "wb_dirty_bytes wb = ov_size (wb_overlay wb)"
    using inv by (auto simp: wb_inv_def)
  then have oka: "ov_ok a" "ov_ok b" unfolding ab ov_ok_append by auto
  have bk: "n \<le> fst p" if "p \<in> set b" for p
    using dropWhile_keys [OF ov_ok_sorted [OF ok]] that by (simp add: b_def)
  have ak: "fst p < n" if "p \<in> set a" for p
    using that set_takeWhileD unfolding a_def by fastforce
  have d64: "wb_dirty_bytes wb < 2 ^ 64" using d ov_size_bound [OF ok] by simp
  have dirty: "foldl (\<lambda>d p. sub64 d (length (snd p))) (wb_dirty_bytes wb) b = ov_size a"
    using d d64 ab by (subst foldl_sub64) simp_all
  have bb: "ov_byte b pos = None" if "pos < n" for pos
    using that bk by (intro ov_byte_none) force
  define ov where "ov = (if a \<noteq> [] \<and> n < ov_end (last a)
     then butlast a @ [(fst (last a), resize (sub64 n (fst (last a))) (snd (last a)))] else a)"
  have ovp: "ov_ok ov \<and> (\<forall>p \<in> set ov. fst p + length (snd p) \<le> n) \<and>
     (\<forall>pos. ov_byte ov pos = (if pos < n then ov_byte a pos else None))"
  proof (cases "a \<noteq> [] \<and> n < ov_end (last a)")
    case True
    let ?c = "butlast a" and ?k = "fst (last a)" and ?d = "snd (last a)"
    have ac: "a = ?c @ [(?k, ?d)]" using True by simp
    have k: "?k < n" "?k + length ?d = ov_end (last a)"
      using True ak [of "last a"] ov_ok_end [OF oka(1)] by simp_all
    have s: "sub64 n ?k = n - ?k" using k n by simp
    have r: "resize (sub64 n ?k) ?d = take (n - ?k) ?d" "length (take (n - ?k) ?d) = n - ?k"
    proof -
      have "n - ?k \<le> length ?d" using True k by linarith
      then show "resize (sub64 n ?k) ?d = take (n - ?k) ?d" "length (take (n - ?k) ?d) = n - ?k"
        unfolding s by (simp_all add: resize_def)
    qed
    have okc: "ov_ok ?c" "\<forall>p \<in> set ?c. fst p + length (snd p) < ?k"
      using oka(1) unfolding ac [THEN arg_cong, of ov_ok] ov_ok_append by auto
    have ov: "ov = ?c @ [(?k, take (n - ?k) ?d)]" using True r(1) by (simp add: ov_def)
    have "ov_byte ov pos = (if pos < n then ov_byte a pos else None)" for pos
    proof -
      have "ov_byte ?c pos = None" if "n \<le> pos"
        using that okc(2) k(1) by (intro ov_byte_none) fastforce
      moreover have "ov_byte a pos = (case ov_byte ?c pos of Some x \<Rightarrow> Some x | None \<Rightarrow> ov_byte [(?k, ?d)] pos)"
        using ov_byte_append [of ?c "[(?k, ?d)]" pos] unfolding ac [symmetric] .
      ultimately show ?thesis
        using k True r(2) unfolding ov by (auto simp: ov_byte_append split: option.split)
    qed
    moreover have "ov_ok ov" "\<forall>p \<in> set ov. fst p + length (snd p) \<le> n"
      using okc k n r(2) unfolding ov by (auto simp: ov_ok_append simp del: length_take)
    ultimately show ?thesis by blast
  next
    case False
    have "\<forall>p \<in> set a. fst p + length (snd p) \<le> n"
    proof (cases "a = []")
      case ne: False
      then have "ov_end (last a) = fst (last a) + length (snd (last a))"
        by (simp add: ov_ok_end [OF oka(1)])
      with ne False ov_ok_last [OF oka(1)] show ?thesis by fastforce
    qed simp
    moreover from this have "ov_byte a pos = None" if "n \<le> pos" for pos
      using that by (intro ov_byte_none) fastforce
    ultimately show ?thesis using False oka(1) by (auto simp: ov_def not_less)
  qed
  have run: "wb_truncate n wb = wb\<lparr>wb_size_override := Some n, wb_overlay := ov, wb_dirty_bytes := ov_size ov\<rparr>"
  proof (cases "a \<noteq> [] \<and> n < ov_end (last a)")
    case True
    let ?l = "resize (sub64 n (fst (last a))) (snd (last a))"
    have ov: "ov = butlast a @ [(fst (last a), ?l)]" using True by (simp add: ov_def)
    have sz: "ov_size a = ov_size (butlast a) + length (snd (last a))"
    proof -
      have "a = butlast a @ [last a]" using True by simp
      then have "ov_size a = ov_size (butlast a @ [last a])" by simp
      then show ?thesis by simp
    qed
    have "ov_size a < 2 ^ 64" "ov_size ov < 2 ^ 64" using ov_size_bound oka ovp by blast+
    then have "add64 (sub64 (ov_size a) (length (snd (last a)))) (length ?l) = ov_size ov"
      using sz unfolding ov by simp
    with True ov show ?thesis
      by (simp add: wb_truncate_def a_def [symmetric] b_def [symmetric] dirty Let_def case_prod_beta)
  next
    case False
    then have "ov = a" unfolding ov_def by (rule if_not_P)
    with False show ?thesis
      by (auto simp: wb_truncate_def a_def [symmetric] b_def [symmetric] dirty Let_def)
  qed
  have "ov_byte a pos = ov_byte (wb_overlay wb) pos" if "pos < n" for pos
    using bb [OF that] by (simp add: ab ov_byte_append split: option.split)
  with run ovp show "ov_ok (wb_overlay (wb_truncate n wb))"
    "wb_dirty_bytes (wb_truncate n wb) = ov_size (wb_overlay (wb_truncate n wb))"
    "wb_size_override (wb_truncate n wb) = Some n"
    "\<forall>p \<in> set (wb_overlay (wb_truncate n wb)). fst p + length (snd p) \<le> n"
    "ov_byte (wb_overlay (wb_truncate n wb)) pos = (if pos < n then ov_byte (wb_overlay wb) pos else None)"
    by simp_all
qed

lemma wb_truncate_inv: "wb_inv wb \<Longrightarrow> n < 2 ^ 64 \<Longrightarrow> wb_inv (wb_truncate n wb)"
  using wb_truncate_overlay [of wb n] by (auto simp: wb_inv_def)

lemma length_resize [simp]: "length (resize n b) = n"
  by (simp add: resize_def)

lemma nth_resize: "i < n \<Longrightarrow> resize n b ! i = (if i < length b then b ! i else 0)"
  by (simp add: resize_def nth_append)

lemma wb_truncate_content:
  assumes inv: "wb_inv wb" and n: "n < 2 ^ 64"
    and gap: "effective_size (length base) wb < n \<Longrightarrow> length base \<le> effective_size (length base) wb"
  shows "wb_content base (wb_truncate n wb) = resize n (wb_content base wb)"
proof -
  have eff: "effective_size (length base) (wb_truncate n wb) = n"
    using wb_truncate_overlay(3) [OF inv n] by (simp add: effective_size_def)
  have ob: "ov_byte (wb_overlay wb) pos = None" if "effective_size (length base) wb \<le> pos" for pos
    using that ends_le_eff [OF inv, where b = "length base"] by (intro ov_byte_none) force
  show ?thesis
    using eff wb_truncate_overlay(5) [OF inv n] ob gap
    by (intro nth_equalityI) (auto simp: nth_content nth_resize base_byte_def split: option.split)
qed

lemma wb_clear_inv: "wb_inv (wb_clear wb)" "wb_inv (wb_new h n)"
  by (simp_all add: wb_inv_def wb_clear_def wb_new_def)

lemma wb_clear_content: "wb_content base (wb_clear wb) = base"
  by (rule nth_equalityI) (simp_all add: nth_content effective_size_def wb_clear_def base_byte_def)

section \<open>Properties\<close>

text \<open>
  C25: a buffered write is \<open>pwrite\<close> but for what a truncation has left behind. From a well-formed
  buffer over a base of the size it was opened with, a write that does not overflow the offset stays
  inside all its buffers, keeps the overlay coalesced and the dirty count exact, and what
  \<open>materialize\<close> builds is the old content, with the base's own bytes behind its end up to the write's
  offset, with the bytes written over it and a gap behind the base filled with zeros. There are
  such bytes of the base only after a truncation cut into the base; unless the write starts behind the
  end of a file that was cut so, the result is exactly \<open>pwrite\<close> of the old content.
\<close>

theorem wb_write_is_pwrite:
  assumes "wb_inv wb" "offset + length data < 2 ^ 64" "wb_base_size wb = length base" "length base < 2 ^ 64"
    and "wb_materialize base wb = Some c"
  shows "\<exists>wb'. wb_write offset data wb = Some wb' \<and> wb_inv wb' \<and>
    wb_materialize base wb' = Some (if data = [] then c else pwrite offset data (exposed base offset c)) \<and>
    ((length c < offset \<longrightarrow> length base \<le> length c) \<longrightarrow> wb_materialize base wb' = Some (pwrite offset data c)) \<and>
    (wb_size_override wb = None \<longrightarrow> length base \<le> length c)"
proof -
  obtain wb' where w: "wb_write offset data wb = Some wb'" "wb_inv wb'"
    using wb_write_inv [OF assms(1,2)] by blast
  have c: "c = wb_content base wb" using assms by (simp add: wb_materialize_content)
  have "wb_content base wb' = (if data = [] then c else pwrite offset data (exposed base offset c))"
    using wb_write_content [OF assms(1-3) w(1)] w(1) by (cases "data = []") (simp_all add: c wb_write_def)
  then have m: "wb_materialize base wb' = Some (if data = [] then c else pwrite offset data (exposed base offset c))"
    using w(2) assms(4) by (simp add: wb_materialize_content)
  have p: "(length c < offset \<longrightarrow> length base \<le> length c) \<longrightarrow> wb_materialize base wb' = Some (pwrite offset data c)"
    using m exposed_none [of c offset base] by (auto simp: pwrite_def)
  have n: "wb_size_override wb = None \<longrightarrow> length base \<le> length c" by (simp add: c effective_size_def)
  show ?thesis by (rule exI [of _ wb'], intro conjI w m p n)
qed

theorem wb_write_is_pwrite_witness:
  "(\<exists>wb'. wb_write 5 [7, 8] (wb_new 1 3) = Some wb' \<and> wb_inv wb' \<and>
    wb_materialize [1, 2, 3] wb' = Some (pwrite 5 [7, 8] [1, 2, 3])) \<and>
   (\<exists>wb'. wb_write 2 [9] (wb_truncate 1 (wb_new 1 3)) = Some wb' \<and> wb_materialize [1, 2, 3] wb' = Some [1, 2, 9])"
proof
  show "\<exists>wb'. wb_write 5 [7, 8] (wb_new 1 3) = Some wb' \<and> wb_inv wb' \<and> wb_materialize [1, 2, 3] wb' = Some (pwrite 5 [7, 8] [1, 2, 3])"
  proof -
    have n: "wb_materialize [1, 2, 3] (wb_new 1 3) = Some [1, 2, 3]" "wb_base_size (wb_new 1 3) = 3"
      by (simp_all add: wb_new_def wb_materialize_def effective_size_def)
    show ?thesis using wb_write_is_pwrite [OF wb_clear_inv(2) _ _ _ n(1), of 5 "[7, 8]"] by (auto simp: n(2))
  qed
  have i: "wb_inv (wb_truncate 1 (wb_new 1 3))" by (rule wb_truncate_inv) (simp_all add: wb_clear_inv)
  have m: "wb_materialize [1, 2, 3] (wb_truncate 1 (wb_new 1 3)) = Some [1]" "wb_base_size (wb_truncate 1 (wb_new 1 3)) = 3"
    by (simp_all add: wb_new_def wb_truncate_def wb_materialize_def effective_size_def Let_def)
  show "\<exists>wb'. wb_write 2 [9] (wb_truncate 1 (wb_new 1 3)) = Some wb' \<and> wb_materialize [1, 2, 3] wb' = Some [1, 2, 9]"
    using wb_write_is_pwrite [OF i _ _ _ m(1), of 2 "[9]"] m(2) by (auto simp: exposed_def pwrite_def)
qed

text \<open>
  A read returns the same bytes as \<open>materialize\<close>, cut to the requested range and to the
  end of the file, and no copy leaves its buffer.
\<close>

theorem wb_read_is_slice:
  assumes "wb_inv wb" "length base < 2 ^ 64"
  shows "\<exists>c. wb_materialize base wb = Some c \<and> length c = effective_size (length base) wb \<and>
    wb_read offset len base wb = Some (take len (drop offset c))"
  using assms by (simp add: wb_materialize_content wb_read_content)

theorem wb_read_is_slice_witness:
  "\<exists>c. wb_materialize [1, 2, 3] (wb_new 1 3) = Some c \<and> length c = effective_size 3 (wb_new 1 3) \<and>
    wb_read 1 9 [1, 2, 3] (wb_new 1 3) = Some (take 9 (drop 1 c))"
  using wb_read_is_slice [of "wb_new 1 3" "[1, 2, 3]" 1 9]
  by (simp add: wb_clear_inv numeral_3_eq_3)

text \<open>
  Truncation is \<open>ftruncate\<close>: the file has the new size, its bytes are kept up to there
  and zeros follow; the buffer stays well formed. The condition: a truncation that enlarges
  the file must not follow one that cut into the base.
\<close>

theorem wb_truncate_is_resize:
  assumes "wb_inv wb" "n < 2 ^ 64" "length base < 2 ^ 64" "wb_materialize base wb = Some c"
    and "length c < n \<Longrightarrow> length base \<le> length c"
  shows "wb_inv (wb_truncate n wb) \<and> wb_materialize base (wb_truncate n wb) = Some (resize n c)"
proof -
  have c: "c = wb_content base wb" using assms by (simp add: wb_materialize_content)
  have "wb_content base (wb_truncate n wb) = resize n (wb_content base wb)"
    using assms c by (intro wb_truncate_content) simp_all
  with assms c show ?thesis by (simp add: wb_materialize_content wb_truncate_inv)
qed

theorem wb_truncate_is_resize_witness:
  "wb_inv (wb_truncate 5 (wb_new 1 3)) \<and>
   wb_materialize [1, 2, 3] (wb_truncate 5 (wb_new 1 3)) = Some (resize 5 [1, 2, 3])"
  by (rule wb_truncate_is_resize)
     (simp_all add: wb_clear_inv, simp add: wb_new_def wb_materialize_def effective_size_def)

text \<open>
  The condition is needed. After cutting a three-byte file to one byte, writing at offset
  2, or cutting again to three bytes, shows the old second byte of the base where \<open>pwrite\<close>
  and \<open>ftruncate\<close> leave a zero.
\<close>

theorem wb_truncate_exposes_base:
  "Option.bind (wb_write 2 [9] (wb_truncate 1 (wb_new h 3))) (wb_materialize [1, 2, 3]) = Some [1, 2, 9]
   \<and> pwrite 2 [9] (resize 1 [1, 2, 3]) = [1, 0, 9]
   \<and> wb_materialize [1, 2, 3] (wb_truncate 3 (wb_truncate 1 (wb_new h 3))) = Some [1, 2, 3]
   \<and> resize 3 (resize 1 [1, 2, 3]) = [1, 0, 0]"
proof -
  have "replicate 2 (0 :: u8) = [0, 0]" by (simp add: numeral_2_eq_2)
  then show ?thesis
    by (simp add: wb_new_def wb_truncate_def wb_write_def wb_split_def wb_materialize_def
      effective_size_def memcpy_at_def pwrite_def resize_def ov_end_def Let_def)
qed

end
