(* ===== verification/Commit.thy ===== *)
theory Commit
  imports HashHex
begin

text \<open>
  \<open>src/cas/commit.h\<close> and \<open>commit.cpp\<close>: the binary form of a commit object. The decoder
  of the source copies out of the buffer with \<open>memcpy\<close>; a copy past its end is the
  outcome \<open>ReadOOB\<close>, apart from the \<open>false\<close> the function returns (\<open>Reject\<close>).
\<close>

record commit_data =
  cd_tree_hash :: hash
  cd_parents :: "hash list"
  cd_session_id :: u64
  cd_timestamp_ns :: u64
  cd_label :: string
  cd_policy_version :: u32

datatype 'a decode = Reject | ReadOOB | Decoded 'a

text \<open>
  The buffer has room for the whole label, but the label length is a \<open>uint16_t\<close> and only
  that many bytes of it are copied: the rest of the buffer stays zero.
\<close>

definition serialize_commit :: "commit_data \<Rightarrow> bytes" where
  "serialize_commit c =
     (let pc = (of_nat (length (cd_parents c)) :: u32);
          ll = (of_nat (length (cd_label c)) :: u16)
      in hash_bytes (cd_tree_hash c) @ enc32 pc @ concat (map hash_bytes (cd_parents c)) @
         enc64 (cd_session_id c) @ enc64 (cd_timestamp_ns c) @ enc16 ll @
         take (unat ll) (bytes_of (cd_label c)) @ enc32 (cd_policy_version c) @
         replicate (length (cd_label c) - unat ll) 0)"

fun read_hashes :: "nat \<Rightarrow> nat \<Rightarrow> bytes \<Rightarrow> hash list option" where
  "read_hashes n pos body =
     (if n = 0 then Some []
      else case rd 32 pos body of
             None \<Rightarrow> None
           | Some b \<Rightarrow> map_option (\<lambda>hs. bytes_hash b # hs) (read_hashes (n - 1) (pos + 32) body))"

declare read_hashes.simps [simp del]

text \<open>
  \<open>pc * 32\<close> is a product of a \<open>uint32_t\<close> and an \<open>int\<close>: it wraps at \<open>2 ^ 32\<close> before
  it is added to \<open>pos\<close>.
\<close>

definition deserialize_commit :: "bytes \<Rightarrow> commit_data decode" where
  "deserialize_commit body =
     (if length body < 32 + 4 then Reject
      else case rd 32 0 body of None \<Rightarrow> ReadOOB | Some th \<Rightarrow>
      (case rd 4 32 body of None \<Rightarrow> ReadOOB | Some pcb \<Rightarrow>
      (let pc = dec32 pcb; pos = 36 in
       if length body < pos + unat (pc * 32) + 8 + 8 + 2 + 4 then Reject
       else case read_hashes (unat pc) pos body of None \<Rightarrow> ReadOOB | Some ps \<Rightarrow>
       (let pos = pos + 32 * unat pc in
        case rd 8 pos body of None \<Rightarrow> ReadOOB | Some sb \<Rightarrow>
        (case rd 8 (pos + 8) body of None \<Rightarrow> ReadOOB | Some tb \<Rightarrow>
        (case rd 2 (pos + 16) body of None \<Rightarrow> ReadOOB | Some lb \<Rightarrow>
        (let ll = unat (dec16 lb); pos = pos + 18 in
         if length body < pos + ll + 4 then Reject
         else case rd ll pos body of None \<Rightarrow> ReadOOB | Some l \<Rightarrow>
         (case rd 4 (pos + ll) body of None \<Rightarrow> ReadOOB | Some pvb \<Rightarrow>
            Decoded \<lparr>cd_tree_hash = bytes_hash th, cd_parents = ps, cd_session_id = dec64 sb,
              cd_timestamp_ns = dec64 tb, cd_label = string_of l, cd_policy_version = dec32 pvb\<rparr>))))))))"

text \<open>The callers treat every outcome but success as \<open>false\<close>.\<close>

fun decoded :: "'a decode \<Rightarrow> 'a option" where
  "decoded (Decoded x) = Some x"
| "decoded _ = None"

section \<open>Round trip\<close>

lemma length_concat_hash_bytes [simp]: "length (concat (map hash_bytes hs)) = 32 * length hs"
  by (induction hs) simp_all

lemma read_hashes_concat:
  "length a = pos \<Longrightarrow>
   read_hashes (length hs) pos (a @ concat (map hash_bytes hs) @ c) = Some hs"
proof (induction hs arbitrary: a pos)
  case Nil
  then show ?case by (simp add: read_hashes.simps)
next
  case (Cons h hs)
  have "read_hashes (length hs) (pos + 32) ((a @ hash_bytes h) @ concat (map hash_bytes hs) @ c)
        = Some hs"
    by (rule Cons.IH) (simp add: Cons.prems)
  then show ?case
    using Cons.prems by (subst read_hashes.simps) (simp add: le_simps)
qed

lemma read_hashes_in_bounds:
  "pos + 32 * n \<le> length body \<Longrightarrow> read_hashes n pos body \<noteq> None"
proof (induction n arbitrary: pos)
  case 0
  then show ?case by (subst read_hashes.simps) simp
next
  case (Suc n)
  then have "read_hashes n (pos + 32) body \<noteq> None" by simp
  with Suc.prems show ?case by (subst read_hashes.simps) (simp add: rd_eq_Some)
qed

lemma rd_at: "body = a @ b @ c \<Longrightarrow> length a = pos \<Longrightarrow> length b = n \<Longrightarrow> rd n pos body = Some b"
  by (simp add: rd_def)

lemma unat_of_nat_u16: "unat (of_nat n :: u16) = n mod 65536"
  by (simp add: unsigned_of_nat take_bit_eq_mod)

lemma dec16_enc16_len: "dec16 (enc16 (of_nat n)) = of_nat n"
  by simp

lemma unat_times32: "unat (pc :: u32) < 2 ^ 27 \<Longrightarrow> unat (pc * 32) = 32 * unat pc"
  by (simp add: unat_word_ariths)

text \<open>Every read of the decoder stays in the buffer unless \<open>pc * 32\<close> wraps.\<close>

lemma deserialize_commit_in_bounds:
  assumes "32 + 4 \<le> length body \<Longrightarrow> unat (dec32 (take 4 (drop 32 body))) < 2 ^ 27"
  shows "deserialize_commit body \<noteq> ReadOOB"
proof (cases "length body < 36")
  case True
  then show ?thesis by (simp add: deserialize_commit_def)
next
  case False
  define pc where "pc = dec32 (take 4 (drop 32 body))"
  have pc: "unat (pc * 32) = 32 * unat pc"
    using False assms by (intro unat_times32) (simp add: pc_def)
  have rds: "rd 32 0 body = Some (take 32 body)" "rd 4 32 body = Some (take 4 (drop 32 body))"
    using False by (simp_all add: rd_def)
  show ?thesis
  proof (cases "length body < 58 + 32 * unat pc")
    case True
    with False rds pc show ?thesis
      by (simp add: deserialize_commit_def pc_def [symmetric] Let_def)
  next
    case in_range: False
    then have "read_hashes (unat pc) 36 body \<noteq> None"
      by (intro read_hashes_in_bounds) simp
    with False rds pc in_range show ?thesis
      by (auto simp: deserialize_commit_def pc_def [symmetric] Let_def rd_def split: if_splits)
  qed
qed

lemma deserialize_commit_parts:
  assumes "length th = 32" "length ps < 2 ^ 27" "length lab = unat (ll :: u16)"
    and body: "body = th @ enc32 (of_nat (length ps)) @ concat (map hash_bytes ps) @
          enc64 s @ enc64 t @ enc16 ll @ lab @ enc32 pv @ pad"
  shows "deserialize_commit body = Decoded \<lparr>cd_tree_hash = bytes_hash th, cd_parents = ps,
     cd_session_id = s, cd_timestamp_ns = t, cd_label = string_of lab, cd_policy_version = pv\<rparr>"
proof -
  let ?n = "length ps"
  have n: "unat (of_nat ?n :: u32) = ?n"
    using assms(2) by (intro unat_of_nat_eq) simp
  have w: "unat ((of_nat ?n :: u32) * 32) = 32 * ?n"
    using assms(2) n by (subst unat_times32) simp_all
  have len: "length body = 58 + 32 * ?n + length lab + length pad"
    using assms by simp
  have r1: "rd 32 0 body = Some th" and r2: "rd 4 32 body = Some (enc32 (of_nat ?n))"
    using assms by (simp_all add: rd_def)
  have r3: "read_hashes ?n 36 body = Some ps"
    using read_hashes_concat [of "th @ enc32 (of_nat ?n)" 36 ps] assms by simp
  have r4: "rd 8 (36 + 32 * ?n) body = Some (enc64 s)"
    by (rule rd_at [where a = "th @ enc32 (of_nat ?n) @ concat (map hash_bytes ps)"])
       (use assms in simp_all)
  have r5: "rd 8 (44 + 32 * ?n) body = Some (enc64 t)"
    by (rule rd_at [where a = "th @ enc32 (of_nat ?n) @ concat (map hash_bytes ps) @ enc64 s"])
       (use assms in simp_all)
  have r6: "rd 2 (52 + 32 * ?n) body = Some (enc16 ll)"
    by (rule rd_at [where a = "th @ enc32 (of_nat ?n) @ concat (map hash_bytes ps) @ enc64 s @ enc64 t"])
       (use assms in simp_all)
  have r7: "rd (unat ll) (54 + 32 * ?n) body = Some lab"
    by (rule rd_at [where a = "th @ enc32 (of_nat ?n) @ concat (map hash_bytes ps) @ enc64 s @ enc64 t @ enc16 ll"])
       (use assms in simp_all)
  have r8: "rd 4 (54 + 32 * ?n + unat ll) body = Some (enc32 pv)"
    by (rule rd_at [where a = "th @ enc32 (of_nat ?n) @ concat (map hash_bytes ps) @ enc64 s @ enc64 t @ enc16 ll @ lab"])
       (use assms in simp_all)
  show ?thesis
    using len assms(3) n w r1 r2 r3 r4 r5 r6 r7 r8
    by (simp add: deserialize_commit_def Let_def add.commute add.left_commute)
qed

lemma commit_codec:
  assumes "length (cd_parents c) < 2 ^ 27"
  shows "deserialize_commit (serialize_commit c) =
    Decoded (c\<lparr>cd_label := take (length (cd_label c) mod 65536) (cd_label c)\<rparr>)"
proof -
  let ?ll = "of_nat (length (cd_label c)) :: u16"
  have "deserialize_commit (serialize_commit c) = Decoded \<lparr>cd_tree_hash = bytes_hash (hash_bytes (cd_tree_hash c)),
     cd_parents = cd_parents c, cd_session_id = cd_session_id c, cd_timestamp_ns = cd_timestamp_ns c,
     cd_label = string_of (take (unat ?ll) (bytes_of (cd_label c))), cd_policy_version = cd_policy_version c\<rparr>"
    using assms
    by (intro deserialize_commit_parts [where ll = ?ll and pad = "replicate (length (cd_label c) - unat ?ll) 0"])
       (simp_all add: serialize_commit_def Let_def unat_of_nat_u16)
  then show ?thesis
    by (simp add: unat_of_nat_u16 string_of_def bytes_of_def take_map comp_def)
qed

lemma commit_codec_short:
  "length (cd_parents c) < 2 ^ 27 \<Longrightarrow> length (cd_label c) < 65536 \<Longrightarrow>
   deserialize_commit (serialize_commit c) = Decoded c"
  by (simp add: commit_codec)

section \<open>Properties\<close>

text \<open>
  C36: a commit is read back as it was written, up to the length of its label: the writer
  keeps the label's length modulo \<open>2 ^ 16\<close>. With fewer than \<open>2 ^ 27\<close> parents and a label
  shorter than \<open>2 ^ 16\<close> bytes the round trip is exact.
\<close>

theorem commit_roundtrip:
  assumes "length (cd_parents c) < 2 ^ 27"
  shows "deserialize_commit (serialize_commit c) =
      Decoded (c\<lparr>cd_label := take (length (cd_label c) mod 65536) (cd_label c)\<rparr>) \<and>
    (length (cd_label c) < 65536 \<longrightarrow> deserialize_commit (serialize_commit c) = Decoded c)"
  using assms by (simp add: commit_codec)

theorem commit_roundtrip_witness:
  "deserialize_commit (serialize_commit \<lparr>cd_tree_hash = 5, cd_parents = [1, 2], cd_session_id = 3,
      cd_timestamp_ns = 4, cd_label = ''initial'', cd_policy_version = 1\<rparr>)
   = Decoded \<lparr>cd_tree_hash = 5, cd_parents = [1, 2], cd_session_id = 3,
      cd_timestamp_ns = 4, cd_label = ''initial'', cd_policy_version = 1\<rparr>"
  using commit_roundtrip [of "\<lparr>cd_tree_hash = 5, cd_parents = [1, 2], cd_session_id = 3,
      cd_timestamp_ns = 4, cd_label = ''initial'', cd_policy_version = 1\<rparr>"] by simp

text \<open>
  The decoder never reads outside the buffer when the parent count it finds is below
  \<open>2 ^ 27\<close>, whatever the rest of the bytes.
\<close>

theorem commit_decode_in_bounds:
  assumes "unat (dec32 (take 4 (drop 32 body))) < 2 ^ 27"
  shows "deserialize_commit body \<noteq> ReadOOB"
  using assms by (intro deserialize_commit_in_bounds)

lemma le_val_zeros: "le_val (replicate n 0) = 0"
  by (induction n) simp_all

theorem commit_decode_in_bounds_witness:
  "deserialize_commit (replicate 40 0) \<noteq> ReadOOB"
proof (rule commit_decode_in_bounds)
  show "unat (dec32 (take 4 (drop 32 (replicate 40 0)))) < 2 ^ 27"
    by (simp add: dec32_def le_val_zeros)
qed

text \<open>
  The check of the parent count wraps at 32 bits: a 58-byte object with the count
  \<open>2 ^ 27\<close> passes it, and the loop then copies past the end of the buffer.
\<close>

theorem commit_decode_overread:
  "deserialize_commit (replicate 32 0 @ [0, 0, 0, 8] @ replicate 22 0) = ReadOOB"
proof -
  let ?b = "replicate 32 0 @ [0, 0, 0, 8] @ replicate 22 0 :: bytes"
  have pc: "dec32 [0, 0, 0, 8] = 2 ^ 27" by (simp add: dec32_def)
  have r: "rd 32 0 ?b = Some (replicate 32 0)" "rd 4 32 ?b = Some [0, 0, 0, 8]"
    "rd 32 36 ?b = None"
    by (simp_all add: rd_def)
  have u: "unat (2 ^ 27 :: u32) = 2 ^ 27" "unat ((2 ^ 27 :: u32) * 32) = 0" by simp_all
  have "read_hashes (2 ^ 27) 36 ?b = None"
    using r by (subst read_hashes.simps) simp
  then show ?thesis using r u by (simp add: deserialize_commit_def pc Let_def)
qed

end
