(* ===== verification/ObjectStore.thy ===== *)
theory ObjectStore
  imports HashHex
begin

text \<open>
  \<open>src/cas/object_store.h\<close> and \<open>object_store.cpp\<close> (the POSIX build): the
  content-addressed store, its pending set, its size cache and the primitives the garbage
  collector uses. The state is what the class keeps and what its directories hold. Every
  system call first takes its outcome from the script \<open>s_io\<close> (a fault, or none), so a
  theorem that holds for every script holds whatever fails and in whatever order; the calls
  of the model consume the script in the order of the source. BLAKE3, a vendored library,
  is the parameter \<open>H\<close> of the operations.
\<close>

datatype errno = ENOENT | ENOTDIR | EACCES | EIO | EMFILE | ENFILE | EOVERFLOW | EOther nat

text \<open>A failing call reports an \<open>errno\<close>, and \<open>strerror\<close> has a text for it.\<close>

datatype fault = Fault (f_errno: errno) (f_msg: string)

text \<open>
  An object file: its bytes, its modification time, and whether its data and its directory
  entry have been made durable (by \<open>fdatasync\<close> of the file and \<open>fsync\<close> of the shard).
\<close>

record object =
  o_data :: bytes
  o_mtime :: int
  o_synced :: bool
  o_linked :: bool

record store =
  s_root :: string
  s_dirs :: "string list"                    \<comment> \<open>directories of the layout\<close>
  s_version :: bool                          \<comment> \<open>the version file exists\<close>
  s_shards :: "u8 list"                      \<comment> \<open>shard directories, sorted\<close>
  s_shards_durable :: "u8 list"              \<comment> \<open>shards whose entry in objects/ is durable\<close>
  s_objects :: "(hash, object) omap"         \<comment> \<open>objects/ab/ab...\<close>
  s_stray :: "(u8 \<times> string \<times> nat \<times> int) list"
                                             \<comment> \<open>other files of a shard: name, size, mtime\<close>
  s_tmp :: "(string, bytes \<times> int) omap"      \<comment> \<open>tmp/: contents and mtime\<close>
  s_pending :: "hash list"                   \<comment> \<open>pending_, sorted\<close>
  s_cache :: "(hash, u64) omap"              \<comment> \<open>size_cache_\<close>
  s_error :: string                          \<comment> \<open>last_error_\<close>
  s_now :: int                               \<comment> \<open>wall clock, epoch seconds\<close>
  s_rng :: "u64 list"                        \<comment> \<open>the next numbers of mt19937_64\<close>
  s_io :: "fault option list"                \<comment> \<open>outcomes of the system calls to come\<close>

type_synonym 'a io = "store \<Rightarrow> 'a \<times> store"

definition next_io :: "fault option io" where
  "next_io s = (case s_io s of [] \<Rightarrow> (None, s) | f # fs \<Rightarrow> (f, s\<lparr>s_io := fs\<rparr>))"

definition set_last_error :: "string \<Rightarrow> store \<Rightarrow> store" where
  "set_last_error e s = s\<lparr>s_error := e\<rparr>"

definition last_error :: "store \<Rightarrow> string" where
  "last_error s = s_error s"

definition objects_dir :: "store \<Rightarrow> string" where
  "objects_dir s = s_root s @ ''/objects''"

definition tmp_dir :: "store \<Rightarrow> string" where
  "tmp_dir s = s_root s @ ''/tmp''"

definition object_path :: "store \<Rightarrow> hash \<Rightarrow> string" where
  "object_path s h = objects_dir s @ ''/'' @ take 2 (hash_to_hex h) @ ''/'' @ hash_to_hex h"

definition shard_of :: "hash \<Rightarrow> u8" where
  "shard_of h = hd (hash_bytes h)"

definition find_object :: "store \<Rightarrow> hash \<Rightarrow> object option" where
  "find_object s h = map_of (s_objects s) h"

text \<open>Sorted insertion and removal of a \<open>std::set\<close>.\<close>

definition set_put :: "'a::linorder \<Rightarrow> 'a list \<Rightarrow> 'a list" where
  "set_put x xs = insort_insert x xs"

definition set_del :: "'a::linorder \<Rightarrow> 'a list \<Rightarrow> 'a list" where
  "set_del x xs = filter (\<lambda>y. y \<noteq> x) xs"

lemma set_set_put [simp]: "set (set_put x xs) = insert x (set xs)"
  by (simp add: set_put_def set_insort_insert)

lemma set_set_del [simp]: "set (set_del x xs) = set xs - {x}"
  by (auto simp: set_del_def)

section \<open>Layout\<close>

fun create_dirs :: "string list \<Rightarrow> bool io" where
  "create_dirs [] s = (True, s)"
| "create_dirs (d # ds) s =
     (case next_io s of
        (Some _, s) \<Rightarrow> (False, s)
      | (None, s) \<Rightarrow> create_dirs ds (s\<lparr>s_dirs := List.insert d (s_dirs s)\<rparr>))"

text \<open>\<open>validate_object_shards_writable\<close>: one \<open>access\<close> per shard.\<close>

fun shards_writable :: "u8 list \<Rightarrow> bool io" where
  "shards_writable [] s = (True, s)"
| "shards_writable (_ # ds) s =
     (case next_io s of (Some _, s) \<Rightarrow> (False, s) | (None, s) \<Rightarrow> shards_writable ds s)"

definition validate_object_shards_writable :: "bool io" where
  "validate_object_shards_writable s =
     (case next_io s of
        (Some _, s) \<Rightarrow> (False, s)
      | (None, s) \<Rightarrow> shards_writable (s_shards s) s)"

definition init_layout :: "bool io" where
  "init_layout s =
     (let root = s_root s in
      case create_dirs [root, objects_dir s, tmp_dir s, root @ ''/refs'', root @ ''/telemetry''] s of
        (False, s) \<Rightarrow> (False, s)
      | (True, s) \<Rightarrow>
          (case next_io s of
             (f, s) \<Rightarrow> validate_object_shards_writable
                        (if f = None then s\<lparr>s_version := True\<rparr> else s)))"

fun remove_tmps :: "string list \<Rightarrow> store \<Rightarrow> store" where
  "remove_tmps [] s = s"
| "remove_tmps (n # ns) s =
     (if n \<noteq> [] \<and> hd n = CHR ''.'' then remove_tmps ns s
      else case next_io s of
             (Some _, s) \<Rightarrow> remove_tmps ns s
           | (None, s) \<Rightarrow> remove_tmps ns (s\<lparr>s_tmp := om_del n (s_tmp s)\<rparr>))"

definition cleanup_tmp :: "store \<Rightarrow> store" where
  "cleanup_tmp s =
     (case next_io s of (Some _, s) \<Rightarrow> s | (None, s) \<Rightarrow> remove_tmps (map fst (s_tmp s)) s)"

section \<open>Writing an object\<close>

fun hex_digits :: "nat \<Rightarrow> nat \<Rightarrow> string" where
  "hex_digits 0 x = []"
| "hex_digits (Suc n) x = hex_digits n (x div 16) @ [hex_digit (x mod 16)]"

text \<open>\<open>snprintf("tmp_%016llx", rng())\<close>\<close>

definition random_tmp_name :: "string io" where
  "random_tmp_name s =
     (''tmp_'' @ hex_digits 16 (unat (case s_rng s of [] \<Rightarrow> 0 | r # _ \<Rightarrow> r)),
      s\<lparr>s_rng := tl (s_rng s)\<rparr>)"

definition quoted :: "string \<Rightarrow> string" where
  "quoted p = CHR 0x27 # p @ [CHR 0x27]"

text \<open>
  \<open>fs::last_write_time(target, now, ec)\<close> sets the time of an existing file; \<open>ENOENT\<close> is
  reported for a missing file only.
\<close>

definition refresh_mtime :: "hash \<Rightarrow> fault option io" where
  "refresh_mtime h s =
     (case next_io s of (f, s) \<Rightarrow>
        (case find_object s h of
           None \<Rightarrow> (Some (case f of Some e \<Rightarrow> e | None \<Rightarrow> Fault ENOENT ''No such file or directory''), s)
         | Some ob \<Rightarrow>
             (case f of
                Some e \<Rightarrow> (Some (if f_errno e = ENOENT then Fault EIO (f_msg e) else e), s)
              | None \<Rightarrow> (None, s\<lparr>s_objects := om_put h (ob\<lparr>o_mtime := s_now s\<rparr>) (s_objects s)\<rparr>))))"

text \<open>\<open>fs::remove(tmp_path, rec)\<close>, whose error is ignored.\<close>

definition remove_tmp :: "string \<Rightarrow> store \<Rightarrow> store" where
  "remove_tmp p s =
     (case next_io s of (Some _, s) \<Rightarrow> s | (None, s) \<Rightarrow> s\<lparr>s_tmp := om_del p (s_tmp s)\<rparr>)"

definition object_hash :: "(bytes \<Rightarrow> hash) \<Rightarrow> string \<Rightarrow> bytes \<Rightarrow> hash" where
  "object_hash H tag body = H (bytes_of tag @ body)"

definition refresh_error :: "string \<Rightarrow> hash \<Rightarrow> fault \<Rightarrow> store \<Rightarrow> store" where
  "refresh_error tag h f s = set_last_error (''write '' @ tag @ '' object: refresh existing object '' @
     quoted (object_path s h) @ '' failed: '' @ f_msg f) s"

text \<open>
  The first critical section: a hit adopts the published object and refreshes its time.
  \<open>Some r\<close> is the value the function returns, \<open>None\<close> says that it goes on.
\<close>

definition write_adopt :: "string \<Rightarrow> hash \<Rightarrow> hash option io" where
  "write_adopt tag h s =
     (case refresh_mtime h s of
        (None, s) \<Rightarrow> (Some h, s)
      | (Some f, s) \<Rightarrow>
          (if f_errno f = ENOENT then (None, s) else (Some ZERO_HASH, refresh_error tag h f s)))"

definition mkdir_error :: "string \<Rightarrow> hash \<Rightarrow> fault \<Rightarrow> store \<Rightarrow> store" where
  "mkdir_error tag h f s = set_last_error (''write '' @ tag @ '' object: create_directory('' @
     quoted (objects_dir s @ ''/'' @ take 2 (hash_to_hex h)) @ '') failed: '' @ f_msg f) s"

text \<open>\<open>what\<close> is \<open>open\<close> or \<open>write\<close>.\<close>

definition tmp_error :: "string \<Rightarrow> string \<Rightarrow> string \<Rightarrow> fault \<Rightarrow> store \<Rightarrow> store" where
  "tmp_error tag what name f s = set_last_error (''write '' @ tag @ '' object: '' @ what @ ''('' @
     quoted (tmp_dir s @ ''/'' @ name) @ '') failed: '' @ f_msg f) s"

text \<open>
  Between the critical sections the shard directory and a temporary file are made:
  \<open>Some p\<close> is the finished file, \<open>None\<close> a failure that left its message.
\<close>

definition write_tmp :: "string \<Rightarrow> bytes \<Rightarrow> hash \<Rightarrow> string option io" where
  "write_tmp tag body h s =
     (case next_io s of
        (Some f, s) \<Rightarrow> (None, mkdir_error tag h f s)
      | (None, s) \<Rightarrow>
     (let s = s\<lparr>s_shards := set_put (shard_of h) (s_shards s)\<rparr> in
      case random_tmp_name s of (name, s) \<Rightarrow>
      (case next_io s of
         (Some f, s) \<Rightarrow> (None, tmp_error tag ''open'' name f s)
       | (None, s) \<Rightarrow>
      (let s = s\<lparr>s_tmp := om_put name ([], s_now s) (s_tmp s)\<rparr> in
       case next_io s of (f1, s) \<Rightarrow>
       (case (if f1 = None \<and> body \<noteq> [] then next_io s else (f1, s)) of
          (Some e, s) \<Rightarrow> (None, tmp_error tag ''write'' name e (remove_tmp name s))
        | (None, s) \<Rightarrow>
            (Some name, s\<lparr>s_tmp := om_put name (bytes_of tag @ body, s_now s) (s_tmp s)\<rparr>))))))"

definition rename_error :: "string \<Rightarrow> hash \<Rightarrow> string \<Rightarrow> string \<Rightarrow> store \<Rightarrow> store" where
  "rename_error tag h name msg s = set_last_error (''write '' @ tag @ '' object: rename('' @
     quoted (tmp_dir s @ ''/'' @ name) @ '', '' @ quoted (object_path s h) @ '') failed: '' @ msg) s"

text \<open>
  The second critical section: adopt an object that another writer published meanwhile,
  or rename the temporary file into place and remember it as pending.
\<close>

definition write_publish :: "string \<Rightarrow> hash \<Rightarrow> string \<Rightarrow> hash io" where
  "write_publish tag h name s =
     (case refresh_mtime h s of
        (None, s) \<Rightarrow> (h, remove_tmp name s)
      | (Some f, s) \<Rightarrow>
          (if f_errno f \<noteq> ENOENT then (ZERO_HASH, refresh_error tag h f (remove_tmp name s))
           else
             (case next_io s of
                (Some e, s) \<Rightarrow> (ZERO_HASH, rename_error tag h name (f_msg e) (remove_tmp name s))
              | (None, s) \<Rightarrow>
                  (case map_of (s_tmp s) name of
                     None \<Rightarrow>
                       (ZERO_HASH, rename_error tag h name ''No such file or directory''
                                     (remove_tmp name s))
                   | Some (data, mtime) \<Rightarrow>
                       (h, s\<lparr>s_tmp := om_del name (s_tmp s),
                             s_objects := om_put h \<lparr>o_data = data, o_mtime = mtime,
                                            o_synced = False, o_linked = False\<rparr> (s_objects s),
                             s_pending := set_put h (s_pending s)\<rparr>)))))"

definition write_object :: "(bytes \<Rightarrow> hash) \<Rightarrow> string \<Rightarrow> bytes \<Rightarrow> hash io" where
  "write_object H tag body s =
     (let s = set_last_error [] s; h = object_hash H tag body in
      case write_adopt tag h s of
        (Some r, s) \<Rightarrow> (r, s)
      | (None, s) \<Rightarrow>
          (case write_tmp tag body h s of
             (None, s) \<Rightarrow> (ZERO_HASH, s)
           | (Some name, s) \<Rightarrow> write_publish tag h name s))"

definition blob_body :: "bytes \<Rightarrow> bytes" where
  "blob_body data = enc64 (of_nat (length data)) @ data"

definition write_blob :: "(bytes \<Rightarrow> hash) \<Rightarrow> bytes \<Rightarrow> hash io" where
  "write_blob H data = write_object H ''blob'' (blob_body data)"

definition write_tree :: "(bytes \<Rightarrow> hash) \<Rightarrow> bytes \<Rightarrow> hash io" where
  "write_tree H serialized = write_object H ''tree'' serialized"

definition write_commit :: "(bytes \<Rightarrow> hash) \<Rightarrow> bytes \<Rightarrow> hash io" where
  "write_commit H serialized = write_object H ''commit'' serialized"

section \<open>The pending set and the size cache\<close>

definition drain_pending :: "hash list io" where
  "drain_pending s = (s_pending s, s\<lparr>s_pending := []\<rparr>)"

definition restore_pending :: "hash list \<Rightarrow> store \<Rightarrow> store" where
  "restore_pending hs s = s\<lparr>s_pending := fold set_put hs (s_pending s)\<rparr>"

definition pending_count :: "store \<Rightarrow> nat" where
  "pending_count s = length (s_pending s)"

definition pending_snapshot :: "store \<Rightarrow> hash list" where
  "pending_snapshot s = s_pending s"

definition clear_size_cache :: "store \<Rightarrow> store" where
  "clear_size_cache s = s\<lparr>s_cache := []\<rparr>"

section \<open>Reading\<close>

definition strip_tag :: "string \<Rightarrow> bytes \<Rightarrow> bytes option" where
  "strip_tag tag raw =
     (if length raw < length tag then None
      else if take (length tag) raw \<noteq> bytes_of tag then None
      else Some (drop (length tag) raw))"

text \<open>Three calls can fail: \<open>file_size\<close>, \<open>open\<close> and \<open>read\<close>.\<close>

definition read_object :: "hash \<Rightarrow> string \<Rightarrow> bytes option io" where
  "read_object h expected_tag s =
     (case next_io s of (Some _, s) \<Rightarrow> (None, s) | (None, s) \<Rightarrow>
      (case find_object s h of None \<Rightarrow> (None, s) | Some ob \<Rightarrow>
       (case next_io s of (Some _, s) \<Rightarrow> (None, s) | (None, s) \<Rightarrow>
        (case next_io s of (Some _, s) \<Rightarrow> (None, s) | (None, s) \<Rightarrow>
           (strip_tag expected_tag (o_data ob), s)))))"

definition blob_payload :: "bytes \<Rightarrow> bytes option" where
  "blob_payload body =
     (if length body < 8 then None
      else if length body - 8 \<noteq> unat (dec64 (take 8 body)) then None
      else Some (drop 8 body))"

definition read_blob :: "hash \<Rightarrow> bytes option io" where
  "read_blob h s =
     (case read_object h ''blob'' s of
        (None, s) \<Rightarrow> (None, s)
      | (Some body, s) \<Rightarrow> (blob_payload body, s))"

definition read_tree :: "hash \<Rightarrow> bytes option io" where
  "read_tree h = read_object h ''tree''"

definition read_commit :: "hash \<Rightarrow> bytes option io" where
  "read_commit h = read_object h ''commit''"

definition object_exists :: "hash \<Rightarrow> bool io" where
  "object_exists h s =
     (case next_io s of (Some _, s) \<Rightarrow> (False, s) | (None, s) \<Rightarrow> (find_object s h \<noteq> None, s))"

text \<open>A \<open>BlobView\<close>: the descriptor (\<open>-1\<close> when empty) and the payload size.\<close>

record blob_view =
  bv_fd :: int
  bv_payload_size :: u64

definition bv_empty :: blob_view where
  "bv_empty = \<lparr>bv_fd = -1, bv_payload_size = 0\<rparr>"

definition bv_valid :: "blob_view \<Rightarrow> bool" where
  "bv_valid v \<longleftrightarrow> 0 \<le> bv_fd v"

text \<open>\<open>reset()\<close>: the descriptors it closes and the emptied view.\<close>

definition bv_reset :: "blob_view \<Rightarrow> int list \<times> blob_view" where
  "bv_reset v = (if 0 \<le> bv_fd v then [bv_fd v] else [], bv_empty)"

text \<open>Move assignment from another view: closed descriptors, the target and the source.\<close>

definition bv_assign :: "blob_view \<Rightarrow> blob_view \<Rightarrow> int list \<times> blob_view \<times> blob_view" where
  "bv_assign self other = (fst (bv_reset self), other, bv_empty)"

definition kPayloadOffset :: u64 where "kPayloadOffset = 12"

text \<open>
  \<open>open_blob\<close>: \<open>fd\<close> is the descriptor that \<open>open\<close> returns. The header is checked
  before the view is made.
\<close>

definition open_blob :: "int \<Rightarrow> hash \<Rightarrow> (errno + blob_view) io" where
  "open_blob fd h s =
     (let s = set_last_error [] s;
          fail = (\<lambda>e m s. (Inl e, set_last_error (''open blob view: '' @ m) s));
          open_failed = (\<lambda>f s. (Inl (if f_errno f = EMFILE \<or> f_errno f = ENFILE then f_errno f else EIO),
                                 set_last_error (''open blob view: '' @ f_msg f) s))
      in case next_io s of (Some f, s) \<Rightarrow> open_failed f s | (None, s) \<Rightarrow>
      (case find_object s h of
         None \<Rightarrow> open_failed (Fault ENOENT ''No such file or directory'') s
       | Some ob \<Rightarrow>
      (case next_io s of (Some _, s) \<Rightarrow> fail EIO ''cannot seek object'' s | (None, s) \<Rightarrow>
      (case next_io s of (Some _, s) \<Rightarrow> fail EIO ''truncated header'' s | (None, s) \<Rightarrow>
       (let raw = o_data ob; payload_size = dec64 (take 8 (drop 4 raw)) in
        if length raw < 12 then fail EIO ''truncated header'' s
        else if take 4 raw \<noteq> bytes_of ''blob'' then fail EIO ''invalid type tag'' s
        else if unat payload_size > 2 ^ 63 - 1 - 12
          then fail EOVERFLOW ''payload size overflows offset'' s
        else if length raw \<noteq> unat (kPayloadOffset + payload_size)
          then fail EIO ''encoded size does not match object'' s
        else (Inr \<lparr>bv_fd = fd, bv_payload_size = payload_size\<rparr>, s))))))"

definition kSizeCacheCap :: nat where "kSizeCacheCap = 65536"

definition blob_payload_size :: "int \<Rightarrow> hash \<Rightarrow> (errno + u64) io" where
  "blob_payload_size fd h s =
     (case map_of (s_cache s) h of
        Some sz \<Rightarrow> (Inr sz, s)
      | None \<Rightarrow>
          (case open_blob fd h s of
             (Inl e, s) \<Rightarrow> (Inl e, s)
           | (Inr v, s) \<Rightarrow>
               (let c = (if kSizeCacheCap \<le> length (s_cache s) then [] else s_cache s) in
                (Inr (bv_payload_size v), s\<lparr>s_cache := om_put h (bv_payload_size v) c\<rparr>))))"

section \<open>Durability\<close>

fun fsync_objects :: "hash list \<Rightarrow> bool io" where
  "fsync_objects [] s = (True, s)"
| "fsync_objects (h # hs) s =
     (case next_io s of (Some _, s) \<Rightarrow> (False, s) | (None, s) \<Rightarrow>
      (case find_object s h of None \<Rightarrow> (False, s) | Some ob \<Rightarrow>
       (case next_io s of (Some _, s) \<Rightarrow> (False, s) | (None, s) \<Rightarrow>
        (let s = s\<lparr>s_objects := om_put h (ob\<lparr>o_synced := True\<rparr>) (s_objects s)\<rparr> in
         case next_io s of (Some _, s) \<Rightarrow> (False, s) | (None, s) \<Rightarrow> fsync_objects hs s))))"

definition link_shard :: "u8 \<Rightarrow> store \<Rightarrow> store" where
  "link_shard d s = s\<lparr>s_objects :=
     map (\<lambda>(h, ob). (h, if shard_of h = d then ob\<lparr>o_linked := True\<rparr> else ob)) (s_objects s)\<rparr>"

fun fsync_shards :: "u8 list \<Rightarrow> bool io" where
  "fsync_shards [] s = (True, s)"
| "fsync_shards (d # ds) s =
     (case next_io s of (Some _, s) \<Rightarrow> (False, s) | (None, s) \<Rightarrow>
      (if d \<notin> set (s_shards s) then (False, s)
       else case next_io s of (Some _, s) \<Rightarrow> (False, s) | (None, s) \<Rightarrow>
        (let s = link_shard d s in
         case next_io s of (Some _, s) \<Rightarrow> (False, s) | (None, s) \<Rightarrow> fsync_shards ds s)))"

definition fsync_shard_dirs :: "hash list \<Rightarrow> bool io" where
  "fsync_shard_dirs hs s =
     (let shards = sort (remdups (map shard_of hs)) in
      if shards = [] then (True, s)
      else case fsync_shards shards s of (False, s) \<Rightarrow> (False, s) | (True, s) \<Rightarrow>
       (case next_io s of (Some _, s) \<Rightarrow> (False, s) | (None, s) \<Rightarrow>
        (case next_io s of (Some _, s) \<Rightarrow> (False, s) | (None, s) \<Rightarrow>
         (let s = s\<lparr>s_shards_durable := s_shards s\<rparr> in
          case next_io s of (Some _, s) \<Rightarrow> (False, s) | (None, s) \<Rightarrow> (True, s)))))"

definition fsync_pending :: "hash list \<Rightarrow> string option io" where
  "fsync_pending hs s =
     (case fsync_objects hs s of
        (False, s) \<Rightarrow> (Some ''failed to fsync pending objects'', s)
      | (True, s) \<Rightarrow>
          (case fsync_shard_dirs hs s of
             (False, s) \<Rightarrow> (Some ''failed to fsync pending object shard dirs'', s)
           | (True, s) \<Rightarrow> (None, s\<lparr>s_pending := filter (\<lambda>h. h \<notin> set hs) (s_pending s)\<rparr>)))"

text \<open>An object survives a crash when its data, its entry and its shard's entry are durable.\<close>

definition durable :: "store \<Rightarrow> hash \<Rightarrow> bool" where
  "durable s h \<longleftrightarrow>
     (case find_object s h of None \<Rightarrow> False
      | Some ob \<Rightarrow> o_synced ob \<and> o_linked ob \<and> shard_of h \<in> set (s_shards_durable s))"

section \<open>Primitives of the garbage collector\<close>

datatype remove_result = Removed | Skipped | RemoveError string

definition remove_object_if_older_than :: "hash \<Rightarrow> int \<Rightarrow> remove_result io" where
  "remove_object_if_older_than h age_fence s =
     (if h \<in> set (s_pending s) then (Skipped, s)
      else case next_io s of
        (Some f, s) \<Rightarrow>
          (if f_errno f = ENOENT \<or> f_errno f = ENOTDIR then (Skipped, s)
           else (RemoveError (''stat object '' @ quoted (object_path s h) @
                   '' before removal failed: '' @ f_msg f), s))
      | (None, s) \<Rightarrow>
          (case find_object s h of
             None \<Rightarrow> (Skipped, s)
           | Some ob \<Rightarrow>
               (if age_fence \<le> o_mtime ob then (Skipped, s)
                else case next_io s of
                  (Some f, s) \<Rightarrow>
                    (if f_errno f = ENOENT then (Skipped, s)
                     else (RemoveError (''remove object '' @ quoted (object_path s h) @
                             '' failed: '' @ f_msg f), s))
                | (None, s) \<Rightarrow> (Removed, s\<lparr>s_objects := om_del h (s_objects s)\<rparr>))))"

text \<open>
  \<open>for_each_object\<close> walks the shards; the entries of a shard are its object files and
  the stray files, and a name counts as an object when it has 64 characters that
  \<open>hex_to_hash\<close> reads. The callback works on a state \<open>'a\<close> beside the store.
\<close>

definition shard_names :: "store \<Rightarrow> u8 \<Rightarrow> string list" where
  "shard_names s d =
     map (\<lambda>p. hash_to_hex (fst p)) (filter (\<lambda>p. shard_of (fst p) = d) (s_objects s)) @
     map (\<lambda>(_, n, _). n) (filter (\<lambda>(d', _). d' = d) (s_stray s))"

text \<open>\<open>stat\<close> of the entry \<open>name\<close> of shard \<open>d\<close>: its size and time.\<close>

definition stat_entry :: "store \<Rightarrow> u8 \<Rightarrow> string \<Rightarrow> (nat \<times> int) option" where
  "stat_entry s d name =
     (case map_of (map (\<lambda>(h, ob). (hash_to_hex h, ob))
                    (filter (\<lambda>p. shard_of (fst p) = d) (s_objects s))) name of
        Some ob \<Rightarrow> Some (length (o_data ob), o_mtime ob)
      | None \<Rightarrow> map_of (map snd (filter (\<lambda>(d', _). d' = d) (s_stray s))) name)"

fun each_entry ::
  "(hash \<Rightarrow> nat \<Rightarrow> int \<Rightarrow> 'a \<times> store \<Rightarrow> 'a \<times> store) \<Rightarrow> u8 \<Rightarrow> string list \<Rightarrow> 'a \<times> store \<Rightarrow>
   fault option \<times> 'a \<times> store" where
  "each_entry cb d [] (a, s) = (None, a, s)"
| "each_entry cb d (name # names) (a, s) =
     (let st = (case (if length name \<noteq> 64 then None else hex_to_hash name) of
                  None \<Rightarrow> (a, s)
                | Some h \<Rightarrow>
                    (case next_io s of
                       (Some _, s) \<Rightarrow> (a, s)
                     | (None, s) \<Rightarrow> (case stat_entry s d name of
                                       None \<Rightarrow> (a, s)
                                     | Some (sz, mtime) \<Rightarrow> cb h sz mtime (a, s))))
      in case next_io (snd st) of
           (Some f, s) \<Rightarrow> (Some f, fst st, s)
         | (None, s) \<Rightarrow> each_entry cb d names (fst st, s))"

fun each_shard ::
  "(hash \<Rightarrow> nat \<Rightarrow> int \<Rightarrow> 'a \<times> store \<Rightarrow> 'a \<times> store) \<Rightarrow> u8 list \<Rightarrow> 'a \<times> store \<Rightarrow>
   string option \<times> 'a \<times> store" where
  "each_shard cb [] (a, s) = (None, a, s)"
| "each_shard cb (d # ds) (a, s) =
     (case next_io s of
        (Some f, s) \<Rightarrow> (Some (''enumerate shard failed: '' @ f_msg f), a, s)
      | (None, s) \<Rightarrow>
          (case each_entry cb d (shard_names s d) (a, s) of
             (Some f, a, s) \<Rightarrow> (Some (''enumerate shard failed: '' @ f_msg f), a, s)
           | (None, a, s) \<Rightarrow>
               (case next_io s of
                  (Some f, s) \<Rightarrow> (Some (''enumerate objects dir failed: '' @ f_msg f), a, s)
                | (None, s) \<Rightarrow> each_shard cb ds (a, s))))"

definition for_each_object ::
  "(hash \<Rightarrow> nat \<Rightarrow> int \<Rightarrow> 'a \<times> store \<Rightarrow> 'a \<times> store) \<Rightarrow> 'a \<times> store \<Rightarrow>
   string option \<times> 'a \<times> store" where
  "for_each_object cb ast =
     (case next_io (snd ast) of
        (Some f, s) \<Rightarrow> (Some (''enumerate objects dir failed: '' @ f_msg f), fst ast, s)
      | (None, s) \<Rightarrow> each_shard cb (s_shards s) (fst ast, s))"

section \<open>Invariant and growth\<close>

text \<open>Every object file is stored under the hash of its bytes.\<close>

definition cas_ok :: "(bytes \<Rightarrow> hash) \<Rightarrow> store \<Rightarrow> bool" where
  "cas_ok H s \<longleftrightarrow> om_wf (s_objects s) \<and>
     (\<forall>h ob. find_object s h = Some ob \<longrightarrow> H (o_data ob) = h)"

text \<open>
  \<open>store_le s s'\<close>: nothing was lost from \<open>s\<close> to \<open>s'\<close>: each object is still there with its
  bytes, and what was durable is.
\<close>

definition object_le :: "object \<Rightarrow> object \<Rightarrow> bool" where
  "object_le a b \<longleftrightarrow> o_data b = o_data a \<and> (o_synced a \<longrightarrow> o_synced b) \<and> (o_linked a \<longrightarrow> o_linked b)"

definition store_le :: "store \<Rightarrow> store \<Rightarrow> bool" where
  "store_le s s' \<longleftrightarrow> s_root s' = s_root s \<and>
     set (s_shards s) \<subseteq> set (s_shards s') \<and>
     (\<forall>h ob. find_object s h = Some ob \<longrightarrow>
        (\<exists>ob'. find_object s' h = Some ob' \<and> object_le ob ob'))"

text \<open>The content of an object of a given type.\<close>

definition payload :: "string \<Rightarrow> store \<Rightarrow> hash \<Rightarrow> bytes option" where
  "payload tag s h = (case find_object s h of None \<Rightarrow> None | Some ob \<Rightarrow> strip_tag tag (o_data ob))"

lemma object_le_refl [simp]: "object_le a a"
  by (simp add: object_le_def)

lemma object_le_trans: "object_le a b \<Longrightarrow> object_le b c \<Longrightarrow> object_le a c"
  by (simp add: object_le_def)

lemma store_le_refl [simp]: "store_le s s"
  by (simp add: store_le_def)

lemma store_leD:
  "store_le s s' \<Longrightarrow> find_object s h = Some ob \<Longrightarrow>
   \<exists>ob'. find_object s' h = Some ob' \<and> object_le ob ob'"
  by (simp add: store_le_def)

lemma store_le_trans [trans]:
  assumes a: "store_le s t" and b: "store_le t u"
  shows "store_le s u"
proof -
  have "\<exists>ob'. find_object u h = Some ob' \<and> object_le ob ob'" if "find_object s h = Some ob" for h ob
    using store_leD [OF a that] store_leD [OF b] object_le_trans by blast
  moreover have "s_root u = s_root s" "set (s_shards s) \<subseteq> set (s_shards u)"
    using a b by (auto simp: store_le_def)
  ultimately show ?thesis by (simp add: store_le_def)
qed

lemma store_le_same:
  "s_objects s' = s_objects s \<Longrightarrow> s_root s' = s_root s \<Longrightarrow> s_shards s' = s_shards s \<Longrightarrow> store_le s s'"
  by (simp add: store_le_def find_object_def)

lemma cas_ok_same: "s_objects s' = s_objects s \<Longrightarrow> cas_ok H s' = cas_ok H s"
  by (simp add: cas_ok_def find_object_def)

lemma payload_mono: "store_le s s' \<Longrightarrow> payload tag s h = Some b \<Longrightarrow> payload tag s' h = Some b"
  by (auto simp: payload_def store_le_def object_le_def split: option.splits) fastforce+

text \<open>
  The contract shared by the operations that use the store: they lose nothing and keep the
  objects under their hashes. Whatever could be read before the operation reads the same
  after it.
\<close>

locale store_op =
  fixes H :: "bytes \<Rightarrow> hash" and run :: "'a io"
  assumes grows: "run s = (r, s') \<Longrightarrow> store_le s s'"
    and keeps: "run s = (r, s') \<Longrightarrow> cas_ok H s \<Longrightarrow> cas_ok H s'"
begin

lemma payload_stable: "run s = (r, s') \<Longrightarrow> payload tag s h = Some b \<Longrightarrow> payload tag s' h = Some b"
  by (rule payload_mono [OF grows])

lemma snd_grows: "store_le s (snd (run s))"
  by (rule grows [where r = "fst (run s)"]) simp

lemma snd_keeps: "cas_ok H s \<Longrightarrow> cas_ok H (snd (run s))"
  by (rule keeps [where r = "fst (run s)" and s = s]) simp_all

end

lemma next_io_upd: "next_io s = (f, s') \<Longrightarrow> \<exists>io. s' = s\<lparr>s_io := io\<rparr>"
  by (cases "s_io s") (auto simp: next_io_def intro: exI [of _ "s_io s"])

lemma next_io_same:
  assumes "next_io s = (f, s')"
  shows "find_object s' = find_object s" "s_objects s' = s_objects s" "s_root s' = s_root s"
    "s_shards s' = s_shards s" "s_pending s' = s_pending s" "s_tmp s' = s_tmp s"
    "s_cache s' = s_cache s" "s_now s' = s_now s" "s_shards_durable s' = s_shards_durable s"
  using next_io_upd [OF assms] by (auto simp: find_object_def)

lemma find_object_upd [simp]:
  "find_object (s\<lparr>s_io := a\<rparr>) = find_object s"
  "find_object (s\<lparr>s_tmp := b\<rparr>) = find_object s"
  "find_object (s\<lparr>s_rng := c\<rparr>) = find_object s"
  "find_object (s\<lparr>s_error := d\<rparr>) = find_object s"
  "find_object (s\<lparr>s_shards := e\<rparr>) = find_object s"
  "find_object (s\<lparr>s_pending := g\<rparr>) = find_object s"
  "find_object (s\<lparr>s_cache := i\<rparr>) = find_object s"
  "find_object (s\<lparr>s_shards_durable := j\<rparr>) = find_object s"
  "find_object (s\<lparr>s_objects := om_put h ob (s_objects s)\<rparr>) = (find_object s)(h \<mapsto> ob)"
  by (simp_all add: find_object_def fun_eq_iff om_simps)

text \<open>Messages only touch \<open>last_error_\<close>.\<close>

definition only_error :: "store \<Rightarrow> store \<Rightarrow> bool" where
  "only_error s s' \<longleftrightarrow> s\<lparr>s_error := []\<rparr> = s'\<lparr>s_error := []\<rparr>"

lemma error_fields [simp]:
  "s_objects (set_last_error e s) = s_objects s" "s_root (set_last_error e s) = s_root s"
  "s_shards (set_last_error e s) = s_shards s" "s_pending (set_last_error e s) = s_pending s"
  "s_tmp (set_last_error e s) = s_tmp s" "s_io (set_last_error e s) = s_io s"
  "s_now (set_last_error e s) = s_now s" "s_rng (set_last_error e s) = s_rng s"
  "find_object (set_last_error e s) = find_object s"
  by (simp_all add: set_last_error_def)

lemma message_fields [simp]:
  "s_objects (refresh_error t h f s) = s_objects s" "s_root (refresh_error t h f s) = s_root s"
  "s_shards (refresh_error t h f s) = s_shards s" "s_pending (refresh_error t h f s) = s_pending s"
  "s_objects (mkdir_error t h f s) = s_objects s" "s_root (mkdir_error t h f s) = s_root s"
  "s_shards (mkdir_error t h f s) = s_shards s" "s_pending (mkdir_error t h f s) = s_pending s"
  "s_objects (tmp_error t w n f s) = s_objects s" "s_root (tmp_error t w n f s) = s_root s"
  "s_shards (tmp_error t w n f s) = s_shards s" "s_pending (tmp_error t w n f s) = s_pending s"
  "s_objects (rename_error t h n m s) = s_objects s" "s_root (rename_error t h n m s) = s_root s"
  "s_shards (rename_error t h n m s) = s_shards s" "s_pending (rename_error t h n m s) = s_pending s"
  by (simp_all add: refresh_error_def mkdir_error_def tmp_error_def rename_error_def)

lemma remove_tmp_fields [simp]:
  "s_objects (remove_tmp p s) = s_objects s" "s_root (remove_tmp p s) = s_root s"
  "s_shards (remove_tmp p s) = s_shards s" "s_pending (remove_tmp p s) = s_pending s"
  by (auto simp: remove_tmp_def dest!: next_io_upd split: prod.split option.split)

text \<open>What a step that publishes nothing may change.\<close>

definition same_objects :: "store \<Rightarrow> store \<Rightarrow> bool" where
  "same_objects s s' \<longleftrightarrow> s_objects s' = s_objects s \<and> s_root s' = s_root s \<and>
     set (s_shards s) \<subseteq> set (s_shards s')"

lemma same_objects_le: "same_objects s s' \<Longrightarrow> store_le s s'"
  by (simp add: same_objects_def store_le_def find_object_def)

lemma same_objects_find: "same_objects s s' \<Longrightarrow> find_object s' = find_object s"
  by (simp add: same_objects_def find_object_def fun_eq_iff)

lemma random_tmp_name_upd: "random_tmp_name s = (n, s') \<Longrightarrow> s' = s\<lparr>s_rng := tl (s_rng s)\<rparr>"
  by (simp add: random_tmp_name_def)

lemma write_tmp_same:
  assumes "write_tmp tag body h s = (r, s')"
  shows "same_objects s s' \<and> s_pending s' = s_pending s \<and>
    (\<forall>name. r = Some name \<longrightarrow> shard_of h \<in> set (s_shards s') \<and>
       (\<exists>t. map_of (s_tmp s') name = Some (bytes_of tag @ body, t)))"
  using assms
  by (auto simp: write_tmp_def same_objects_def om_simps Let_def
      dest!: next_io_upd random_tmp_name_upd split: prod.splits option.splits if_splits)

text \<open>The two outcomes of a refresh.\<close>

lemma refresh_mtime_cases:
  assumes "refresh_mtime h s = (r, s')"
  obtains (hit) ob io where "r = None" "find_object s h = Some ob"
      "s' = s\<lparr>s_io := io, s_objects := om_put h (ob\<lparr>o_mtime := s_now s\<rparr>) (s_objects s)\<rparr>"
  | (miss) f io where "r = Some f" "find_object s h = None" "s' = s\<lparr>s_io := io\<rparr>"
  | (failed) f io ob where "r = Some f" "f_errno f \<noteq> ENOENT" "find_object s h = Some ob"
      "s' = s\<lparr>s_io := io\<rparr>"
proof -
  obtain f t where n: "next_io s = (f, t)" by (cases "next_io s") auto
  then obtain io where t: "t = s\<lparr>s_io := io\<rparr>" using next_io_upd by blast
  show ?thesis
  proof (cases "find_object s h")
    case None
    with assms n t show ?thesis
      by (intro miss [of "case f of Some e \<Rightarrow> e | None \<Rightarrow> Fault ENOENT ''No such file or directory''" io])
         (auto simp: refresh_mtime_def)
  next
    case (Some ob)
    show ?thesis
    proof (cases f)
      case None
      with assms n t Some show ?thesis by (intro hit [of ob io]) (simp_all add: refresh_mtime_def)
    next
      case (Some e)
      with assms n t \<open>find_object s h = Some ob\<close> show ?thesis
        by (intro failed [of "if f_errno e = ENOENT then Fault EIO (f_msg e) else e" ob io])
           (simp_all add: refresh_mtime_def)
    qed
  qed
qed

text \<open>
  The effect of storing \<open>data\<close> under \<open>h\<close>: nothing else changes, the object is there when
  the result is not \<open>ZERO_HASH\<close>, and a new object is pending.
\<close>

definition put_effect :: "hash \<Rightarrow> bytes \<Rightarrow> hash \<Rightarrow> store \<Rightarrow> store \<Rightarrow> bool" where
  "put_effect h data r s s' \<longleftrightarrow>
     s_root s' = s_root s \<and> set (s_shards s) \<subseteq> set (s_shards s') \<and>
     (om_wf (s_objects s) \<longrightarrow> om_wf (s_objects s')) \<and>
     (\<forall>k. k \<noteq> h \<longrightarrow> find_object s' k = find_object s k) \<and>
     (\<forall>ob. find_object s h = Some ob \<longrightarrow> s_pending s' = s_pending s \<and>
        (\<exists>t. find_object s' h = Some (ob\<lparr>o_mtime := t\<rparr>))) \<and>
     (\<forall>ob. find_object s h = None \<longrightarrow> find_object s' h = Some ob \<longrightarrow> o_data ob = data \<and>
        s_pending s' = set_put h (s_pending s) \<and> shard_of h \<in> set (s_shards s')) \<and>
     (find_object s' h = None \<longrightarrow> s_pending s' = s_pending s) \<and>
     (r = ZERO_HASH \<or> r = h \<and> find_object s' h \<noteq> None)"

lemma object_mtime_ex: "\<exists>t. (ob :: object) = ob\<lparr>o_mtime := t\<rparr>"
  by (rule exI [of _ "o_mtime ob"]) simp

lemma put_effect_same:
  "same_objects s s' \<Longrightarrow> s_pending s' = s_pending s \<Longrightarrow> put_effect h data ZERO_HASH s s'"
  by (auto simp: put_effect_def same_objects_find intro: object_mtime_ex) (auto simp: same_objects_def)

lemma same_objects_trans: "same_objects s t \<Longrightarrow> same_objects t u \<Longrightarrow> same_objects s u"
  by (auto simp: same_objects_def)

lemma put_effect_same_trans:
  assumes "same_objects s t" "s_pending t = s_pending s" "put_effect h data r t u"
  shows "put_effect h data r s u"
  using assms same_objects_find [OF assms(1)] by (auto simp: put_effect_def same_objects_def)

lemma put_effect_refresh:
  assumes "find_object s h = Some ob"
  shows "put_effect h data h s
     (s\<lparr>s_io := io, s_objects := om_put h (ob\<lparr>o_mtime := t\<rparr>) (s_objects s)\<rparr>)"
  using assms by (auto simp: put_effect_def find_object_def om_simps intro: om_wf_put)

lemma put_effect_after:
  "put_effect h data r s t \<Longrightarrow> s_objects u = s_objects t \<Longrightarrow> s_root u = s_root t \<Longrightarrow>
   s_shards u = s_shards t \<Longrightarrow> s_pending u = s_pending t \<Longrightarrow> put_effect h data r s u"
  by (simp add: put_effect_def find_object_def)

lemma write_adopt_effect:
  assumes "write_adopt tag h s = (r, s')"
  shows "(r = None \<longrightarrow> find_object s h = None \<and> same_objects s s' \<and> s_pending s' = s_pending s) \<and>
         (\<forall>x. r = Some x \<longrightarrow> put_effect h data x s s')"
proof -
  obtain f t where n: "refresh_mtime h s = (f, t)" by (cases "refresh_mtime h s") auto
  then show ?thesis
  proof (cases rule: refresh_mtime_cases)
    case (hit ob io)
    with assms n show ?thesis by (auto simp: write_adopt_def intro: put_effect_refresh)
  next
    case (miss e io)
    with assms n show ?thesis
      by (auto simp: write_adopt_def same_objects_def intro: put_effect_same split: if_splits)
  next
    case (failed e io ob)
    with assms n show ?thesis
      by (auto simp: write_adopt_def same_objects_def intro!: put_effect_same split: if_splits)
  qed
qed

lemma write_publish_effect:
  assumes "write_publish tag h name s = (r, s')"
    and tmp: "map_of (s_tmp s) name = Some (data, t)" and sh: "shard_of h \<in> set (s_shards s)"
  shows "put_effect h data r s s'"
proof -
  obtain f u where n: "refresh_mtime h s = (f, u)" by (cases "refresh_mtime h s") auto
  then show ?thesis
  proof (cases rule: refresh_mtime_cases)
    case (hit ob io)
    with assms n have "r = h" "s' = remove_tmp name u" by (auto simp: write_publish_def)
    moreover have "put_effect h data h s u"
      unfolding hit(3) by (rule put_effect_refresh) (rule hit(2))
    ultimately show ?thesis by (auto elim: put_effect_after)
  next
    case (miss e io)
    show ?thesis
    proof (cases "f_errno e = ENOENT")
      case False
      with assms n miss show ?thesis
        by (auto simp: write_publish_def same_objects_def intro!: put_effect_same)
    next
      case True
      obtain g v where g: "next_io u = (g, v)" by (cases "next_io u") auto
      then obtain io2 where v: "v = u\<lparr>s_io := io2\<rparr>" using next_io_upd by blast
      from True assms n miss g v show ?thesis
        by (cases g) (auto simp: write_publish_def same_objects_def put_effect_def find_object_def om_simps
            intro!: put_effect_same intro: om_wf_put)
    qed
  next
    case (failed e io ob)
    with assms n show ?thesis
      by (auto simp: write_publish_def same_objects_def intro!: put_effect_same)
  qed
qed

lemma write_object_effect:
  assumes "write_object H tag body s = (r, s')"
  shows "put_effect (object_hash H tag body) (bytes_of tag @ body) r s s'"
proof -
  let ?h = "object_hash H tag body" and ?d = "bytes_of tag @ body"
  let ?s = "set_last_error [] s"
  have same: "same_objects s ?s" "s_pending ?s = s_pending s" by (simp_all add: same_objects_def)
  obtain a t where a: "write_adopt tag ?h ?s = (a, t)" by (cases "write_adopt tag ?h ?s") auto
  note ad = write_adopt_effect [OF a, where data = ?d]
  show ?thesis
  proof (cases a)
    case (Some x)
    with assms a ad show ?thesis
      by (auto simp: write_object_def Let_def intro: put_effect_same_trans [OF same])
  next
    case None
    with ad have t: "same_objects s t" "s_pending t = s_pending s"
      using same by (auto intro: same_objects_trans)
    obtain b u where b: "write_tmp tag body ?h t = (b, u)" by (cases "write_tmp tag body ?h t") auto
    note wt = write_tmp_same [OF b]
    then have u: "same_objects s u" "s_pending u = s_pending s"
      using t by (auto intro: same_objects_trans)
    show ?thesis
    proof (cases b)
      case None
      with \<open>a = None\<close> assms a b u show ?thesis
        by (auto simp: write_object_def Let_def intro: put_effect_same)
    next
      case (Some name)
      with wt obtain tm where "map_of (s_tmp u) name = Some (?d, tm)" "shard_of ?h \<in> set (s_shards u)"
        by auto
      moreover have "write_publish tag ?h name u = (r, s')"
        using \<open>a = None\<close> Some assms a b by (simp add: write_object_def Let_def)
      ultimately show ?thesis
        using put_effect_same_trans [OF u] write_publish_effect by blast
    qed
  qed
qed

lemma put_effect_le: "put_effect h data r s s' \<Longrightarrow> store_le s s'"
  unfolding store_le_def
proof (intro conjI allI impI)
  fix k ob
  assume p: "put_effect h data r s s'" and k: "find_object s k = Some ob"
  show "\<exists>ob'. find_object s' k = Some ob' \<and> object_le ob ob'"
    using p k by (cases "k = h") (auto simp: put_effect_def object_le_def)
qed (auto simp: put_effect_def)

lemma put_effect_cas:
  "put_effect (H data) data r s s' \<Longrightarrow> cas_ok H s \<Longrightarrow> cas_ok H s'"
  unfolding cas_ok_def
proof (intro conjI allI impI)
  fix k ob
  assume p: "put_effect (H data) data r s s'" and k: "find_object s' k = Some ob"
    and c: "om_wf (s_objects s) \<and> (\<forall>h ob. find_object s h = Some ob \<longrightarrow> H (o_data ob) = h)"
  show "H (o_data ob) = k"
  proof (cases "k = H data")
    case False
    with p k c show ?thesis by (auto simp: put_effect_def)
  next
    case True
    show ?thesis
    proof (cases "find_object s k")
      case None
      with p k True show ?thesis by (auto simp: put_effect_def)
    next
      case (Some ob')
      then obtain t where "ob = ob'\<lparr>o_mtime := t\<rparr>" using p k True by (auto simp: put_effect_def)
      with Some c show ?thesis by auto
    qed
  qed
qed (auto simp: put_effect_def)

lemma write_object_le: "write_object H tag body s = (r, s') \<Longrightarrow> store_le s s'"
  by (rule put_effect_le [OF write_object_effect])

lemma write_object_cas: "write_object H tag body s = (r, s') \<Longrightarrow> cas_ok H s \<Longrightarrow> cas_ok H s'"
  using write_object_effect [of H tag body s r s'] by (auto simp: object_hash_def intro: put_effect_cas)

lemma strip_tag_tag [simp]: "strip_tag tag (bytes_of tag @ body) = Some body"
  by (simp add: strip_tag_def)

text \<open>No stored object collides with the bytes that are about to be written.\<close>

definition no_collision :: "(bytes \<Rightarrow> hash) \<Rightarrow> string \<Rightarrow> bytes \<Rightarrow> store \<Rightarrow> bool" where
  "no_collision H tag body s \<longleftrightarrow>
     (case find_object s (object_hash H tag body) of
        None \<Rightarrow> True | Some ob \<Rightarrow> o_data ob = bytes_of tag @ body)"

lemma write_object_payload:
  assumes "write_object H tag body s = (r, s')" "r \<noteq> ZERO_HASH" "no_collision H tag body s"
  shows "r = object_hash H tag body \<and> payload tag s' r = Some body"
proof -
  note p = write_object_effect [OF assms(1)]
  then have r: "r = object_hash H tag body" and ex: "find_object s' r \<noteq> None"
    using assms(2) by (auto simp: put_effect_def)
  then obtain ob where ob: "find_object s' r = Some ob" by auto
  have "o_data ob = bytes_of tag @ body"
  proof (cases "find_object s r")
    case None
    with p ob r show ?thesis by (auto simp: put_effect_def)
  next
    case (Some ob')
    with p r obtain t where "find_object s' r = Some (ob'\<lparr>o_mtime := t\<rparr>)" by (auto simp: put_effect_def)
    with Some ob r assms(3) show ?thesis by (auto simp: no_collision_def)
  qed
  with r ob show ?thesis by (simp add: payload_def)
qed

lemma read_object_same:
  assumes "read_object h tag s = (r, s')"
  shows "same_objects s s'" "s_pending s' = s_pending s" "r = None \<or> r = payload tag s h"
    "s_io s = [] \<longrightarrow> r = payload tag s h \<and> s_io s' = []" "\<exists>io. s' = s\<lparr>s_io := io\<rparr>"
  using assms
  by (auto simp: read_object_def same_objects_def payload_def next_io_def
      split: prod.splits option.splits list.splits intro: exI [of _ "s_io s"])

lemma read_blob_same:
  assumes "read_blob h s = (r, s')"
  shows "same_objects s s'" "s_pending s' = s_pending s"
    "r = None \<or> r = Option.bind (payload ''blob'' s h) blob_payload"
    "s_io s = [] \<longrightarrow> r = Option.bind (payload ''blob'' s h) blob_payload \<and> s_io s' = []"
    "\<exists>io. s' = s\<lparr>s_io := io\<rparr>"
proof -
  obtain b t where b: "read_object h ''blob'' s = (b, t)" by (cases "read_object h ''blob'' s") auto
  with assms have e: "s' = t" "r = Option.bind b blob_payload"
    by (auto simp: read_blob_def split: option.splits)
  show "same_objects s s'" "s_pending s' = s_pending s"
    "r = None \<or> r = Option.bind (payload ''blob'' s h) blob_payload"
    "s_io s = [] \<longrightarrow> r = Option.bind (payload ''blob'' s h) blob_payload \<and> s_io s' = []"
    "\<exists>io. s' = s\<lparr>s_io := io\<rparr>"
    using read_object_same [OF b] by (auto simp: e)
qed

lemma blob_payload_body [simp]: "length data < 2 ^ 64 \<Longrightarrow> blob_payload (blob_body data) = Some data"
  by (simp add: blob_payload_def blob_body_def unat_of_nat_eq)

lemma blob_payload_SomeD:
  "blob_payload body = Some data \<Longrightarrow> length body < 2 ^ 64 \<Longrightarrow> body = blob_body data"
proof -
  assume b: "blob_payload body = Some data" and l: "length body < 2 ^ 64"
  then have "8 \<le> length body" "data = drop 8 body" "length body - 8 = unat (dec64 (take 8 body))"
    by (auto simp: blob_payload_def split: if_splits)
  moreover from this have "dec64 (take 8 body) = of_nat (length data)" by simp
  moreover have "enc64 (dec64 (take 8 body)) = take 8 body"
    using \<open>8 \<le> length body\<close> by (intro dec64_inj) simp_all
  ultimately show ?thesis by (simp add: blob_body_def)
qed

section \<open>Reads and writes meet the contract\<close>

interpretation write_op: store_op H "write_object H tag body" for H tag body
  by unfold_locales (auto intro: write_object_le write_object_cas)

lemma same_objects_cas: "same_objects s s' \<Longrightarrow> cas_ok H s \<Longrightarrow> cas_ok H s'"
  by (simp add: same_objects_def cas_ok_def find_object_def)

interpretation read_op: store_op H "read_object h tag" for H h tag
  by unfold_locales (auto dest: read_object_same intro: same_objects_le same_objects_cas)

section \<open>Durability barriers\<close>

text \<open>Barriers change the durability flags and nothing else.\<close>

definition same_data :: "store \<Rightarrow> store \<Rightarrow> bool" where
  "same_data s s' \<longleftrightarrow> s_root s' = s_root s \<and> s_shards s' = s_shards s \<and>
     s_pending s' = s_pending s \<and> (om_wf (s_objects s) \<longrightarrow> om_wf (s_objects s')) \<and>
     (\<forall>h. rel_option object_le (find_object s h) (find_object s' h))"

lemma same_data_refl [simp]: "same_data s s"
  by (simp add: same_data_def option.rel_refl)

lemma same_data_rel: "same_data s s' \<Longrightarrow> rel_option object_le (find_object s h) (find_object s' h)"
  by (simp add: same_data_def)

lemma same_dataD:
  assumes "same_data s s'" "find_object s h = Some ob"
  shows "\<exists>ob'. find_object s' h = Some ob' \<and> object_le ob ob'"
  using same_data_rel [OF assms(1), of h] assms(2) by (cases "find_object s' h") auto

lemma same_data_rev:
  assumes "same_data s s'" "find_object s' h = Some ob'"
  shows "\<exists>ob. find_object s h = Some ob \<and> object_le ob ob'"
  using same_data_rel [OF assms(1), of h] assms(2) by (cases "find_object s h") auto

lemma same_data_trans:
  assumes a: "same_data s t" and b: "same_data t u"
  shows "same_data s u"
proof -
  have "rel_option object_le (find_object s h) (find_object u h)" for h
    using same_data_rel [OF a, of h] same_data_rel [OF b, of h]
    by (cases "find_object s h"; cases "find_object t h"; cases "find_object u h")
       (auto intro: object_le_trans)
  with a b show ?thesis by (auto simp: same_data_def)
qed

lemma same_data_le: "same_data s s' \<Longrightarrow> store_le s s'"
  using same_dataD by (auto simp: store_le_def) (auto simp: same_data_def)

lemma same_data_io: "next_io s = (f, s') \<Longrightarrow> same_data s s'"
  by (auto simp: same_data_def option.rel_refl dest!: next_io_upd)

lemma same_data_cas: "same_data s s' \<Longrightarrow> cas_ok H s \<Longrightarrow> cas_ok H s'"
  using same_data_rev [of s s'] by (fastforce simp: same_data_def cas_ok_def object_le_def)

lemma same_data_payload: "same_data s s' \<Longrightarrow> payload tag s' h = payload tag s h"
proof -
  assume "same_data s s'"
  then have "rel_option object_le (find_object s h) (find_object s' h)" by (simp add: same_data_def)
  then show ?thesis by (cases rule: option.rel_cases) (auto simp: payload_def object_le_def)
qed

lemma same_data_synced:
  assumes "same_data s s'" "find_object s h = Some ob" "o_synced ob"
  shows "\<exists>ob'. find_object s' h = Some ob' \<and> o_synced ob'"
  using store_leD [OF same_data_le [OF assms(1)] assms(2)] assms(3) by (auto simp: object_le_def)

lemma same_data_linked:
  assumes "same_data s s'" "find_object s h = Some ob" "o_linked ob"
  shows "\<exists>ob'. find_object s' h = Some ob' \<and> o_linked ob'"
  using store_leD [OF same_data_le [OF assms(1)] assms(2)] assms(3) by (auto simp: object_le_def)

lemma same_data_sync:
  "find_object s h = Some ob \<Longrightarrow>
   same_data s (s\<lparr>s_objects := om_put h (ob\<lparr>o_synced := True\<rparr>) (s_objects s)\<rparr>)"
  by (auto simp: same_data_def om_intros option.rel_refl object_le_def)

lemma map_of_link:
  "map_of (map (\<lambda>(h, ob). (h, g h ob)) m) k = map_option (g k) (map_of m k)"
  by (induction m) auto

lemma find_link_shard:
  "find_object (link_shard d s) h =
     map_option (\<lambda>ob. if shard_of h = d then ob\<lparr>o_linked := True\<rparr> else ob) (find_object s h)"
  by (simp add: find_object_def link_shard_def map_of_link)

lemma same_data_link: "same_data s (link_shard d s)"
proof -
  have "map fst (s_objects (link_shard d s)) = map fst (s_objects s)"
    by (auto simp: link_shard_def)
  then have "om_wf (s_objects (link_shard d s)) = om_wf (s_objects s)"
    by (simp add: om_wf_def)
  moreover have "rel_option object_le (find_object s h) (find_object (link_shard d s) h)" for h
    unfolding find_link_shard by (cases "find_object s h") (auto simp: object_le_def)
  ultimately show ?thesis
    by (simp add: same_data_def) (simp add: link_shard_def)
qed

lemma fsync_objects_effect:
  "fsync_objects hs s = (b, s') \<Longrightarrow> same_data s s' \<and> s_shards_durable s' = s_shards_durable s \<and>
     (b \<longrightarrow> (\<forall>h \<in> set hs. \<exists>ob. find_object s' h = Some ob \<and> o_synced ob))"
proof (induction hs arbitrary: s)
  case Nil
  then show ?case by simp
next
  case (Cons h hs)
  obtain f1 t1 where n1: "next_io s = (f1, t1)" by (cases "next_io s") auto
  obtain f2 t2 where n2: "next_io t1 = (f2, t2)" by (cases "next_io t1") auto
  have t2: "same_data s t2" "find_object t2 = find_object s" "find_object t1 = find_object s"
      "s_shards_durable t2 = s_shards_durable s" "same_data s t1"
      "s_shards_durable t1 = s_shards_durable s"
    using same_data_io [OF n1] same_data_io [OF n2] next_io_same [OF n1] next_io_same [OF n2]
    by (auto intro: same_data_trans)
  show ?case
  proof (cases "f1 = None \<and> f2 = None \<and> find_object s h \<noteq> None")
    case False
    with Cons.prems n1 n2 t2 show ?thesis by (auto split: option.splits)
  next
    case True
    then obtain ob where ob: "find_object s h = Some ob" by auto
    define t where "t = t2\<lparr>s_objects := om_put h (ob\<lparr>o_synced := True\<rparr>) (s_objects t2)\<rparr>"
    obtain f3 t3 where n3: "next_io t = (f3, t3)" by (cases "next_io t") auto
    have "same_data t2 t" unfolding t_def by (rule same_data_sync) (simp add: t2 ob)
    with n3 t2 have sd: "same_data s t3" "s_shards_durable t3 = s_shards_durable s"
      using next_io_same [OF n3] by (auto intro: same_data_trans same_data_io simp: t_def)
    have syn: "find_object t3 h = Some (ob\<lparr>o_synced := True\<rparr>)"
      using next_io_same [OF n3] by (simp add: t_def)
    have eq: "fsync_objects (h # hs) s =
        (case f3 of Some _ \<Rightarrow> (False, t3) | None \<Rightarrow> fsync_objects hs t3)"
      using n1 n2 n3 True ob t2 by (auto simp: Let_def t_def split: option.splits)
    show ?thesis
    proof (cases f3)
      case (Some e)
      with Cons.prems eq sd show ?thesis by auto
    next
      case None
      with Cons.prems eq have rest: "fsync_objects hs t3 = (b, s')" by simp
      note ih = Cons.IH [OF rest]
      have "\<exists>ob'. find_object s' h = Some ob' \<and> o_synced ob'"
        using ih same_data_synced [OF _ syn] by auto
      then show ?thesis using ih sd by (auto intro: same_data_trans)
    qed
  qed
qed

lemma fsync_shards_effect:
  "fsync_shards ds s = (b, s') \<Longrightarrow> same_data s s' \<and> s_shards_durable s' = s_shards_durable s \<and>
     (b \<longrightarrow> set ds \<subseteq> set (s_shards s) \<and>
        (\<forall>h ob. shard_of h \<in> set ds \<longrightarrow> find_object s' h = Some ob \<longrightarrow> o_linked ob))"
proof (induction ds arbitrary: s)
  case Nil
  then show ?case by simp
next
  case (Cons d ds)
  obtain f1 t1 where n1: "next_io s = (f1, t1)" by (cases "next_io s") auto
  obtain f2 t2 where n2: "next_io t1 = (f2, t2)" by (cases "next_io t1") auto
  have t2: "same_data s t2" "same_data s t1" "s_shards_durable t1 = s_shards_durable s"
      "s_shards_durable t2 = s_shards_durable s" "s_shards t1 = s_shards s" "s_shards t2 = s_shards s"
    using same_data_io [OF n1] same_data_io [OF n2] next_io_same [OF n1] next_io_same [OF n2]
    by (auto intro: same_data_trans)
  show ?case
  proof (cases "f1 = None \<and> f2 = None \<and> d \<in> set (s_shards s)")
    case False
    with Cons.prems n1 n2 t2 show ?thesis by (auto split: option.splits if_splits)
  next
    case True
    define t where "t = link_shard d t2"
    obtain f3 t3 where n3: "next_io t = (f3, t3)" by (cases "next_io t") auto
    have "same_data t2 t" unfolding t_def by (rule same_data_link)
    with n3 t2 have sd: "same_data s t3" "s_shards_durable t3 = s_shards_durable s"
        "s_shards t3 = s_shards s"
      using next_io_same [OF n3] by (auto intro: same_data_trans same_data_io simp: t_def link_shard_def)
    have lnk: "o_linked ob" if "shard_of h = d" "find_object t3 h = Some ob" for h ob
      using next_io_same [OF n3] that by (auto simp: t_def find_link_shard)
    have eq: "fsync_shards (d # ds) s =
        (case f3 of Some _ \<Rightarrow> (False, t3) | None \<Rightarrow> fsync_shards ds t3)"
      using n1 n2 n3 True t2 by (auto simp: Let_def t_def split: option.splits)
    show ?thesis
    proof (cases f3)
      case (Some e)
      with Cons.prems eq sd show ?thesis by auto
    next
      case None
      with Cons.prems eq have rest: "fsync_shards ds t3 = (b, s')" by simp
      note ih = Cons.IH [OF rest]
      have "o_linked ob'" if h: "shard_of h = d" "find_object s' h = Some ob'" for h ob'
      proof -
        from ih h obtain ob where "find_object t3 h = Some ob" "object_le ob ob'"
          using same_data_rev by blast
        with lnk h show ?thesis by (auto simp: object_le_def)
      qed
      then show ?thesis using ih sd True by (auto intro: same_data_trans)
    qed
  qed
qed

lemma fsync_shard_dirs_effect:
  assumes "fsync_shard_dirs hs s = (b, s')"
  shows "same_data s s' \<and> set (s_shards_durable s') \<subseteq> set (s_shards_durable s) \<union> set (s_shards s) \<and>
     (b \<longrightarrow> (\<forall>h \<in> set hs. shard_of h \<in> set (s_shards_durable s') \<and>
        (\<forall>ob. find_object s' h = Some ob \<longrightarrow> o_linked ob)))"
proof (cases "hs = []")
  case True
  with assms show ?thesis by (simp add: fsync_shard_dirs_def)
next
  case False
  let ?ds = "sort (remdups (map shard_of hs))"
  have ne: "?ds \<noteq> []" using False by (metis Nil_is_map_conv list.set(1) remdups_eq_nil_iff set_empty set_sort)
  obtain b1 t1 where f: "fsync_shards ?ds s = (b1, t1)" by (cases "fsync_shards ?ds s") auto
  note fe = fsync_shards_effect [OF f]
  obtain f2 t2 where n2: "next_io t1 = (f2, t2)" by (cases "next_io t1") auto
  obtain f3 t3 where n3: "next_io t2 = (f3, t3)" by (cases "next_io t2") auto
  let ?t = "t3\<lparr>s_shards_durable := s_shards t3\<rparr>"
  obtain f4 t4 where n4: "next_io ?t = (f4, t4)" by (cases "next_io ?t") auto
  have eq: "fsync_shard_dirs hs s = (if \<not> b1 then (False, t1) else if f2 \<noteq> None then (False, t2)
      else if f3 \<noteq> None then (False, t3) else (f4 = None, t4))"
    using ne f n2 n3 n4
    by (simp add: fsync_shard_dirs_def Let_def split: bool.split option.split)
  have d: "same_data s t1" "same_data s t2" "same_data s t3"
    using fe same_data_io [OF n2] same_data_io [OF n3] by (auto intro: same_data_trans)
  have sh: "s_shards t1 = s_shards s" "s_shards t2 = s_shards s" "s_shards t3 = s_shards s"
    "s_shards_durable t1 = s_shards_durable s" "s_shards_durable t2 = s_shards_durable s"
    "s_shards_durable t3 = s_shards_durable s"
    using fe next_io_same [OF n2] next_io_same [OF n3] by (auto simp: same_data_def)
  have "same_data t3 ?t" by (simp add: same_data_def option.rel_refl)
  then have d4: "same_data s t4" using d same_data_io [OF n4] by (auto intro: same_data_trans)
  have s4: "s_shards_durable t4 = s_shards s" "find_object t4 = find_object t1"
    using next_io_same [OF n2] next_io_same [OF n3] next_io_same [OF n4] sh by simp_all
  show ?thesis
    using assms eq fe d d4 sh s4 by (auto split: if_splits)
qed

lemma barriers_durable:
  assumes "fsync_objects hs s = (True, t)" "fsync_shard_dirs hs t = (True, u)"
  shows "\<forall>h \<in> set hs. durable u h"
proof
  fix h assume h: "h \<in> set hs"
  from fsync_objects_effect [OF assms(1)] h obtain ob where
    "find_object t h = Some ob" "o_synced ob" by auto
  then obtain ob' where ob': "find_object u h = Some ob'" "o_synced ob'"
    using fsync_shard_dirs_effect [OF assms(2)] same_data_synced by blast
  with h fsync_shard_dirs_effect [OF assms(2)] show "durable u h"
    by (auto simp: durable_def)
qed

interpretation fsync_op: store_op H "fsync_objects hs" for H hs
  by unfold_locales (auto dest: fsync_objects_effect intro: same_data_le same_data_cas)

interpretation fsync_dirs_op: store_op H "fsync_shard_dirs hs" for H hs
  by unfold_locales (auto dest: fsync_shard_dirs_effect intro: same_data_le same_data_cas)

section \<open>Errors, and runs without faults\<close>

text \<open>A hash function to evaluate with: it has no collision on short byte strings.\<close>

definition sample_hash :: "bytes \<Rightarrow> hash" where
  "sample_hash b = of_nat (Suc (le_val (b @ [1])))"

lemma le_val_snoc: "le_val (b @ [x]) = le_val b + 256 ^ length b * unat x"
  by (induction b) (simp_all add: algebra_simps)

lemma sample_hash_unat: "length b \<le> 30 \<Longrightarrow> unat (sample_hash b) = Suc (le_val b + 256 ^ length b)"
proof -
  assume l: "length b \<le> 30"
  have "le_val (b @ [1]) < 256 ^ 31"
    using le_val_bound [of "b @ [1]"] power_increasing [of "length b + 1" 31 "256::nat"] l by simp
  then have "Suc (le_val (b @ [1])) < 2 ^ LENGTH(256)" by simp
  then have "unat (sample_hash b) = Suc (le_val (b @ [1]))"
    unfolding sample_hash_def by (rule unat_of_nat_eq)
  then show ?thesis by (simp add: le_val_snoc)
qed

lemma sample_hash_nonzero: "length b \<le> 30 \<Longrightarrow> sample_hash b \<noteq> ZERO_HASH"
  using sample_hash_unat [of b] by auto

lemma sample_hash_inj: "length a \<le> 30 \<Longrightarrow> length b \<le> 30 \<Longrightarrow> sample_hash a = sample_hash b \<Longrightarrow> a = b"
proof -
  assume l: "length a \<le> 30" "length b \<le> 30" and e: "sample_hash a = sample_hash b"
  then have v: "le_val a + 256 ^ length a = le_val b + 256 ^ length b"
    using sample_hash_unat [of a] sample_hash_unat [of b] by simp
  have lo: "256 ^ length x \<le> le_val x + 256 ^ length x" "le_val x + 256 ^ length x < 256 ^ Suc (length x)"
    for x using le_val_bound [of x] by auto
  have "length a = length b"
  proof (rule ccontr)
    assume "length a \<noteq> length b"
    then have "Suc (length a) \<le> length b \<or> Suc (length b) \<le> length a" by auto
    then show False
      using lo [of a] lo [of b] v power_increasing [of "Suc (length a)" "length b" "256::nat"]
        power_increasing [of "Suc (length b)" "length a" "256::nat"] by linarith
  qed
  then show ?thesis using v by (metis add_right_cancel le_bytes_le_val)
qed

lemma refresh_mtime_ok:
  "s_io s = [] \<Longrightarrow> s_io (snd (refresh_mtime h s)) = [] \<and>
    (fst (refresh_mtime h s) = None \<longleftrightarrow> find_object s h \<noteq> None) \<and>
    (\<forall>f. fst (refresh_mtime h s) = Some f \<longrightarrow> f_errno f = ENOENT)"
  by (auto simp: refresh_mtime_def next_io_def split: option.splits)

lemma write_object_ok:
  assumes "s_io s = []"
  shows "fst (write_object H tag body s) = object_hash H tag body"
    and "s_io (snd (write_object H tag body s)) = []"
proof -
  let ?h = "object_hash H tag body"
  have "fst (write_object H tag body s) = ?h \<and> s_io (snd (write_object H tag body s)) = []"
  proof (cases "find_object s ?h")
    case None
    then show ?thesis using assms
      by (cases "body = []")
        (simp_all add: write_object_def write_adopt_def refresh_mtime_def next_io_def write_tmp_def
          random_tmp_name_def write_publish_def Let_def set_last_error_def om_simps find_object_def)
  next
    case (Some ob)
    then show ?thesis using assms
      by (simp add: write_object_def write_adopt_def refresh_mtime_def next_io_def set_last_error_def
          find_object_def Let_def)
  qed
  then show "fst (write_object H tag body s) = ?h" "s_io (snd (write_object H tag body s)) = []"
    by simp_all
qed

text \<open>The store of a fresh object of the class.\<close>

definition new_store :: "string \<Rightarrow> int \<Rightarrow> store" where
  "new_store root now = \<lparr>s_root = root, s_dirs = [], s_version = False, s_shards = [],
     s_shards_durable = [], s_objects = [], s_stray = [], s_tmp = [], s_pending = [], s_cache = [],
     s_error = [], s_now = now, s_rng = [], s_io = []\<rparr>"

lemma new_store_simps [simp]:
  "s_io (new_store r t) = []" "find_object (new_store r t) h = None" "cas_ok H (new_store r t)"
  "no_collision H tag b (new_store r t)" "s_pending (new_store r t) = []" "s_cache (new_store r t) = []"
  "s_now (new_store r t) = t" "s_root (new_store r t) = r" "s_shards (new_store r t) = []"
  "s_objects (new_store r t) = []"
  by (simp_all add: new_store_def find_object_def cas_ok_def no_collision_def)

lemma last_error_io: "next_io u = (f, u') \<Longrightarrow> last_error u' = last_error u"
  by (auto simp: last_error_def dest!: next_io_upd)

lemma last_error_refresh: "refresh_mtime h u = (f, u') \<Longrightarrow> last_error u' = last_error u"
  by (erule refresh_mtime_cases) (auto simp: last_error_def)

lemma last_error_msg [simp]:
  "last_error (refresh_error t h f u) \<noteq> []" "last_error (mkdir_error t h f u) \<noteq> []"
  "last_error (tmp_error t w n f u) \<noteq> []" "last_error (rename_error t h n m u) \<noteq> []"
  "last_error (remove_tmp p u) = last_error u" "last_error (set_last_error e u) = e"
  by (auto simp: last_error_def refresh_error_def mkdir_error_def tmp_error_def
      rename_error_def set_last_error_def remove_tmp_def
      dest!: next_io_upd split: prod.split option.split)

lemma last_error_upd [simp]:
  "last_error (s\<lparr>s_tmp := b\<rparr>) = last_error s" "last_error (s\<lparr>s_rng := c\<rparr>) = last_error s"
  "last_error (s\<lparr>s_shards := e\<rparr>) = last_error s" "last_error (s\<lparr>s_objects := g\<rparr>) = last_error s"
  "last_error (s\<lparr>s_pending := i\<rparr>) = last_error s"
  by (simp_all add: last_error_def)

lemma write_tmp_error:
  "write_tmp tag body h u = (a, u') \<Longrightarrow>
   (a = None \<longrightarrow> last_error u' \<noteq> []) \<and> (a \<noteq> None \<longrightarrow> last_error u' = last_error u)"
  by (auto simp: write_tmp_def Let_def dest!: last_error_io random_tmp_name_upd
        split: prod.splits option.splits if_splits)

lemma write_publish_error:
  "write_publish tag h name u = (q, u') \<Longrightarrow> last_error u = [] \<Longrightarrow>
   (q = h \<and> last_error u' = []) \<or> (q = ZERO_HASH \<and> last_error u' \<noteq> [])"
  by (auto simp: write_publish_def dest!: last_error_io last_error_refresh
        split: prod.splits option.splits if_splits)

lemma write_object_error:
  assumes "write_object H tag body s = (r, s')"
  shows "(r = object_hash H tag body \<and> last_error s' = []) \<or> (r = ZERO_HASH \<and> last_error s' \<noteq> [])"
  using assms
  by (auto simp: write_object_def Let_def write_adopt_def
      dest!: last_error_refresh write_tmp_error write_publish_error
      split: prod.splits option.splits if_splits)

lemma fsync_pending_effect:
  assumes "fsync_pending hs s = (e, s')"
  shows "store_le s s' \<and> (e = None \<longrightarrow> (\<forall>h \<in> set hs. durable s' h) \<and>
      set (s_pending s') = set (s_pending s) - set hs) \<and>
    (e \<noteq> None \<longrightarrow> s_pending s' = s_pending s)"
proof -
  obtain b1 t1 where f1: "fsync_objects hs s = (b1, t1)" by (cases "fsync_objects hs s") auto
  obtain b2 t2 where f2: "fsync_shard_dirs hs t1 = (b2, t2)" by (cases "fsync_shard_dirs hs t1") auto
  have sd: "same_data s t1" "same_data t1 t2"
    using fsync_objects_effect [OF f1] fsync_shard_dirs_effect [OF f2] by auto
  have p: "s_pending t1 = s_pending s" "s_pending t2 = s_pending s"
    using sd by (auto simp: same_data_def)
  have le: "store_le s t1" "store_le s t2"
    using sd by (auto intro: same_data_le same_data_trans)
  have dur: "durable t2 h" if "b1" "b2" "h \<in> set hs" for h
    using barriers_durable [of hs s t1 t2] f1 f2 that by auto
  let ?u = "t2\<lparr>s_pending := filter (\<lambda>h. h \<notin> set hs) (s_pending t2)\<rparr>"
  have u: "store_le s ?u" "durable ?u h = durable t2 h" for h
    using le by (simp_all add: store_le_def durable_def cong: option.case_cong)
  show ?thesis
    using assms f1 f2 p le dur u
    by (cases b1; cases b2) (auto simp: fsync_pending_def)
qed

section \<open>Properties\<close>

text \<open>
  C31: a blob that \<open>write_blob\<close> stored is read back as it was. Whatever fails, a read after
  a successful write never returns other bytes, and it returns the bytes when no call fails.
  The hypothesis on the hash is that the store holds no other object with the same hash.
\<close>

theorem blob_roundtrip:
  assumes "write_blob H data s = (h, s1)" and "h \<noteq> ZERO_HASH"
    and "no_collision H ''blob'' (blob_body data) s" and "length data < 2 ^ 64"
    and "read_blob h s1 = (r, s2)"
  shows "(r = None \<or> r = Some data) \<and> (s_io s1 = [] \<longrightarrow> r = Some data)"
proof -
  have "payload ''blob'' s1 h = Some (blob_body data)"
    using write_object_payload [of H "''blob''" "blob_body data" s h s1] assms(1-3)
    by (auto simp: write_blob_def)
  with read_blob_same [OF assms(5)] assms(4) show ?thesis by auto
qed

theorem blob_roundtrip_witness:
  "fst (read_blob (fst (write_blob sample_hash [7, 9] (new_store ''/s'' 5)))
         (snd (write_blob sample_hash [7, 9] (new_store ''/s'' 5)))) = Some [7, 9]"
proof -
  let ?w = "write_blob sample_hash [7, 9] (new_store ''/s'' 5)"
  have "fst ?w = sample_hash (bytes_of ''blob'' @ blob_body [7, 9])" "s_io (snd ?w) = []"
    by (simp_all add: write_blob_def write_object_ok object_hash_def)
  moreover have "sample_hash (bytes_of ''blob'' @ blob_body [7, 9]) \<noteq> ZERO_HASH"
    by (intro sample_hash_nonzero) (simp add: blob_body_def)
  ultimately show ?thesis
    using blob_roundtrip [OF surjective_pairing [of ?w] _ _ _ surjective_pairing]
    by simp
qed

text \<open>
  Whatever system calls fail, a write loses no object, keeps every object under the hash
  of its bytes, touches no other object, and adds to the pending set only the object it made.
  It reports failure exactly by \<open>ZERO_HASH\<close> with a message in \<open>last_error\<close>.
\<close>

theorem write_object_safe:
  assumes "write_object H tag body s = (r, s')" and "cas_ok H s"
    and "object_hash H tag body \<noteq> ZERO_HASH"
  shows "store_le s s' \<and> cas_ok H s' \<and>
    (\<forall>k. k \<noteq> object_hash H tag body \<longrightarrow> find_object s' k = find_object s k) \<and>
    set (s_pending s) \<subseteq> set (s_pending s') \<and>
    (\<forall>k \<in> set (s_pending s') - set (s_pending s). find_object s k = None \<and> find_object s' k \<noteq> None) \<and>
    (r = ZERO_HASH \<longleftrightarrow> last_error s' \<noteq> []) \<and>
    (r \<noteq> ZERO_HASH \<longrightarrow> r = object_hash H tag body \<and> find_object s' r \<noteq> None)"
proof -
  let ?h = "object_hash H tag body"
  note p = write_object_effect [OF assms(1)]
  have pend: "set (s_pending s) \<subseteq> set (s_pending s') \<and>
    (\<forall>k \<in> set (s_pending s') - set (s_pending s). find_object s k = None \<and> find_object s' k \<noteq> None)"
    using p by (cases "find_object s ?h"; cases "find_object s' ?h") (auto simp: put_effect_def)
  have other: "\<forall>k. k \<noteq> ?h \<longrightarrow> find_object s' k = find_object s k"
    and res: "r \<noteq> ZERO_HASH \<longrightarrow> r = ?h \<and> find_object s' r \<noteq> None"
    using p by (auto simp: put_effect_def)
  have "r = ZERO_HASH \<longleftrightarrow> last_error s' \<noteq> []"
    using write_object_error [OF assms(1)] assms(3) by auto
  then show ?thesis
    using pend other res write_object_le [OF assms(1)] write_object_cas [OF assms(1,2)] by blast
qed

theorem write_object_safe_witness:
  "cas_ok sample_hash (snd (write_object sample_hash ''tree'' [1] (new_store ''/s'' 5)))"
proof -
  have "object_hash sample_hash ''tree'' [1] \<noteq> ZERO_HASH"
    unfolding object_hash_def by (rule sample_hash_nonzero) simp
  then show ?thesis
    using write_object_safe [OF surjective_pairing [of "write_object sample_hash ''tree'' [1] (new_store ''/s'' 5)"]]
    by simp
qed

text \<open>
  Storing the same content again is a hit: no object is added or rewritten, only the
  modification time of the hit moves, and the pending set stays as it is.
\<close>

theorem write_object_dedup:
  assumes "write_object H tag body s = (h, s1)" and "h \<noteq> ZERO_HASH"
    and "write_object H tag body s1 = (h2, s2)"
  shows "s_pending s2 = s_pending s1 \<and>
    (\<forall>k. map_option (\<lambda>ob. ob\<lparr>o_mtime := 0\<rparr>) (find_object s2 k)
          = map_option (\<lambda>ob. ob\<lparr>o_mtime := 0\<rparr>) (find_object s1 k))"
proof -
  note p1 = write_object_effect [OF assms(1)] and p2 = write_object_effect [OF assms(3)]
  obtain ob where ob: "find_object s1 (object_hash H tag body) = Some ob"
    using p1 assms(2) by (auto simp: put_effect_def)
  then obtain t where "find_object s2 (object_hash H tag body) = Some (ob\<lparr>o_mtime := t\<rparr>)"
    and "s_pending s2 = s_pending s1"
    using p2 by (auto simp: put_effect_def)
  moreover have "find_object s2 k = find_object s1 k" if "k \<noteq> object_hash H tag body" for k
    using p2 that by (simp add: put_effect_def)
  moreover have "map_option (\<lambda>ob. ob\<lparr>o_mtime := 0\<rparr>) (find_object s2 k)
      = map_option (\<lambda>ob. ob\<lparr>o_mtime := 0\<rparr>) (find_object s1 k)" for k
    using ob calculation by (cases "k = object_hash H tag body") simp_all
  ultimately show ?thesis by blast
qed

theorem write_object_dedup_witness:
  "s_pending (snd (write_object sample_hash ''tree'' [1]
      (snd (write_object sample_hash ''tree'' [1] (new_store ''/s'' 5)))))
   = s_pending (snd (write_object sample_hash ''tree'' [1] (new_store ''/s'' 5)))"
proof -
  let ?w = "write_object sample_hash ''tree'' [1] (new_store ''/s'' 5)"
  have "fst ?w \<noteq> ZERO_HASH"
    by (simp add: write_object_ok) (simp add: object_hash_def sample_hash_nonzero)
  then show ?thesis
    using write_object_dedup [OF surjective_pairing [of ?w] _ surjective_pairing] by blast
qed

text \<open>
  Age-fenced removal deletes at most the object it is asked for, and that one only when
  it is not pending and its time is before the fence; it never changes the pending set.
\<close>

theorem remove_object_fenced:
  assumes "remove_object_if_older_than h fence s = (r, s')"
  shows "s_pending s' = s_pending s \<and>
    (\<forall>k. k \<noteq> h \<longrightarrow> find_object s' k = find_object s k) \<and>
    (r \<noteq> Removed \<longrightarrow> find_object s' h = find_object s h) \<and>
    (r = Removed \<longrightarrow> h \<notin> set (s_pending s) \<and> find_object s' h = None \<and>
       (\<exists>ob. find_object s h = Some ob \<and> o_mtime ob < fence))"
  using assms
  by (auto simp: remove_object_if_older_than_def find_object_def om_simps dest!: next_io_upd
      split: prod.splits option.splits if_splits)

theorem remove_object_fenced_witness:
  "\<exists>s'. remove_object_if_older_than 3 10
      ((new_store ''/s'' 50)\<lparr>s_objects := [(3, \<lparr>o_data = [1], o_mtime = 9, o_synced = True, o_linked = True\<rparr>)]\<rparr>)
      = (Removed, s') \<and> find_object s' 3 = None"
proof -
  let ?s = "(new_store ''/s'' 50)\<lparr>s_objects := [(3, \<lparr>o_data = [1], o_mtime = 9, o_synced = True, o_linked = True\<rparr>)]\<rparr>"
  have r: "fst (remove_object_if_older_than 3 10 ?s) = Removed"
    by (simp add: remove_object_if_older_than_def next_io_def find_object_def)
  show ?thesis
    using remove_object_fenced [OF surjective_pairing [of "remove_object_if_older_than 3 10 ?s"]] r
    by (metis prod.collapse)
qed

text \<open>
  When \<open>fsync_pending\<close> succeeds, each of the requested objects survives a crash and
  exactly these left the pending set; when it fails, the pending set is unchanged, so that
  the next checkpoint tries again. Nothing is lost either way.
\<close>

theorem fsync_pending_durable:
  assumes "fsync_pending hs s = (e, s')"
  shows "store_le s s' \<and> (e = None \<longrightarrow> (\<forall>h \<in> set hs. durable s' h) \<and>
      set (s_pending s') = set (s_pending s) - set hs) \<and>
    (e \<noteq> None \<longrightarrow> s_pending s' = s_pending s)"
  using assms by (rule fsync_pending_effect)

theorem fsync_pending_durable_witness:
  "durable (snd (fsync_pending [3] ((new_store ''/s'' 50)\<lparr>s_shards := [shard_of 3], s_pending := [3],
      s_objects := [(3, \<lparr>o_data = [1], o_mtime = 9, o_synced = False, o_linked = False\<rparr>)]\<rparr>))) 3"
proof -
  let ?s = "(new_store ''/s'' 50)\<lparr>s_shards := [shard_of 3], s_pending := [3],
      s_objects := [(3, \<lparr>o_data = [1], o_mtime = 9, o_synced = False, o_linked = False\<rparr>)]\<rparr>"
  have "fst (fsync_pending [3] ?s) = None"
    by (simp add: fsync_pending_def fsync_shard_dirs_def next_io_def find_object_def link_shard_def Let_def)
  then show ?thesis
    using fsync_pending_durable [OF surjective_pairing [of "fsync_pending [3] ?s"]] by simp
qed

end
