(* ===== verification/WorkingTree.thy ===== *)
theory WorkingTree
  imports HashHex
begin

text \<open>
  \<open>src/cas/working_tree.h\<close> and \<open>working_tree.cpp\<close>: the two-level copy-on-write map from
  paths to entries. The base is immutable and shared, the delta shadows it, and a
  \<open>Deleted\<close> entry is a whiteout. Every operation of the class runs under its mutex, so it
  is a function on the state. The enumeration is a \<open>uint8_t\<close> that is read from stored trees,
  so a byte outside its four values is an entry kind too.
\<close>

datatype entry_kind = Blob | Tree | Symlink | Deleted | OtherKind u8

definition byte_of_kind :: "entry_kind \<Rightarrow> u8" where
  "byte_of_kind k = (case k of Blob \<Rightarrow> 0 | Tree \<Rightarrow> 1 | Symlink \<Rightarrow> 2 | Deleted \<Rightarrow> 3 | OtherKind b \<Rightarrow> b)"

definition kind_of_byte :: "u8 \<Rightarrow> entry_kind" where
  "kind_of_byte b = (if b = 0 then Blob else if b = 1 then Tree else if b = 2 then Symlink
     else if b = 3 then Deleted else OtherKind b)"

record entry =
  e_kind :: entry_kind
  e_hash :: hash
  e_mode :: u32

type_synonym entry_map = "(string, entry) omap"

text \<open>\<open>base_\<close> is a null or a set shared pointer.\<close>

record working_tree =
  wt_base :: "entry_map option"
  wt_delta :: entry_map
  wt_source :: "string set"
  wt_auth :: bool

record wt_stats =
  st_base_entries :: nat
  st_base_shared_by :: int
  st_delta_entries :: nat
  st_delta_tombstones :: nat

abbreviation base_map :: "working_tree \<Rightarrow> entry_map" where
  "base_map wt \<equiv> (case wt_base wt of None \<Rightarrow> [] | Some m \<Rightarrow> m)"

definition whiteout :: entry where
  "whiteout = \<lparr>e_kind = Deleted, e_hash = ZERO_HASH, e_mode = 0\<rparr>"

definition wt_new :: working_tree where
  "wt_new = \<lparr>wt_base = None, wt_delta = [], wt_source = {}, wt_auth = False\<rparr>"

section \<open>Operations\<close>

definition lookup_raw :: "string \<Rightarrow> working_tree \<Rightarrow> entry option" where
  "lookup_raw path wt =
     (case (if wt_delta wt \<noteq> [] then map_of (wt_delta wt) path else None) of
        Some e \<Rightarrow> Some e
      | None \<Rightarrow> (case wt_base wt of None \<Rightarrow> None | Some m \<Rightarrow> map_of m path))"

definition lookup :: "string \<Rightarrow> working_tree \<Rightarrow> entry option" where
  "lookup path wt = (case lookup_raw path wt of
     None \<Rightarrow> None | Some e \<Rightarrow> if e_kind e = Deleted then None else Some e)"

definition insert_entry :: "string \<Rightarrow> entry \<Rightarrow> working_tree \<Rightarrow> working_tree" where
  "insert_entry path e wt = wt\<lparr>wt_delta := om_put path e (wt_delta wt)\<rparr>"

definition insert_source :: "string \<Rightarrow> entry \<Rightarrow> working_tree \<Rightarrow> working_tree" where
  "insert_source path e wt =
     (let wt = wt\<lparr>wt_delta := om_put path e (wt_delta wt)\<rparr> in
      if wt_auth wt then wt\<lparr>wt_source := insert path (wt_source wt)\<rparr> else wt)"

definition in_base :: "string \<Rightarrow> working_tree \<Rightarrow> bool" where
  "in_base path wt = (case wt_base wt of None \<Rightarrow> False
     | Some m \<Rightarrow> (case map_of m path of None \<Rightarrow> False | Some e \<Rightarrow> e_kind e \<noteq> Deleted))"

definition remove :: "string \<Rightarrow> working_tree \<Rightarrow> working_tree" where
  "remove path wt =
     (if wt_auth wt \<and> \<not> in_base path wt \<and> path \<notin> wt_source wt
      then wt\<lparr>wt_delta := om_del path (wt_delta wt)\<rparr>
      else wt\<lparr>wt_delta := om_put path whiteout (wt_delta wt)\<rparr>)"

text \<open>What the two renames do with an entry that arrives at a new path.\<close>

definition place :: "string \<Rightarrow> entry \<Rightarrow> working_tree \<Rightarrow> working_tree" where
  "place new_path e wt =
     (if e_kind e = Deleted then remove new_path wt
      else wt\<lparr>wt_delta := om_put new_path e (wt_delta wt)\<rparr>)"

definition rename_entry :: "string \<Rightarrow> string \<Rightarrow> working_tree \<Rightarrow> working_tree" where
  "rename_entry old_path new_path wt =
     (case lookup_raw old_path wt of
        None \<Rightarrow> wt
      | Some e \<Rightarrow> place new_path e (remove old_path wt))"

definition dir_prefix :: "string \<Rightarrow> string" where
  "dir_prefix p = (if p \<noteq> [] \<and> last p \<noteq> CHR ''/'' then p @ ''/'' else p)"

text \<open>\<open>path.compare(0, scan.size(), scan) == 0\<close>\<close>

definition has_prefix :: "string \<Rightarrow> string \<Rightarrow> bool" where
  "has_prefix scan path \<longleftrightarrow> take (length scan) path = scan"

text \<open>The entries from \<open>lower_bound(scan)\<close> on, up to the first one without the prefix.\<close>

definition prefix_range :: "string \<Rightarrow> entry_map \<Rightarrow> entry_map" where
  "prefix_range scan m =
     takeWhile (\<lambda>p. has_prefix scan (fst p)) (dropWhile (\<lambda>p. fst p < scan) m)"

definition to_move :: "string \<Rightarrow> working_tree \<Rightarrow> entry_map" where
  "to_move old_prefix wt =
     (let scan = dir_prefix old_prefix;
          m = (case wt_base wt of None \<Rightarrow> [] | Some b \<Rightarrow> om_put_all (prefix_range scan b) []);
          m = om_put_all (prefix_range scan (wt_delta wt)) m
      in case lookup_raw old_prefix wt of None \<Rightarrow> m | Some e \<Rightarrow> om_put old_prefix e m)"

definition moved_path :: "string \<Rightarrow> string \<Rightarrow> string \<Rightarrow> string" where
  "moved_path old_prefix new_prefix path =
     (if path = old_prefix then new_prefix else new_prefix @ drop (length old_prefix) path)"

definition rename_dir :: "string \<Rightarrow> string \<Rightarrow> working_tree \<Rightarrow> working_tree" where
  "rename_dir old_prefix new_prefix wt =
     fold (\<lambda>(path, e) wt. place (moved_path old_prefix new_prefix path) e (remove path wt))
       (to_move old_prefix wt) wt"

fun merged :: "entry_map \<Rightarrow> entry_map \<Rightarrow> entry_map" where
  "merged [] ds = ds"
| "merged (b # bs) [] = b # bs"
| "merged (b # bs) (d # ds) =
     (if fst d < fst b then d # merged (b # bs) ds
      else if fst b < fst d then b # merged bs (d # ds)
      else d # merged bs ds)"

definition merged_list :: "working_tree \<Rightarrow> entry_map" where
  "merged_list wt = merged (base_map wt) (wt_delta wt)"

definition for_each_including_deleted ::
  "(string \<Rightarrow> entry \<Rightarrow> 'a \<Rightarrow> 'a) \<Rightarrow> working_tree \<Rightarrow> 'a \<Rightarrow> 'a" where
  "for_each_including_deleted fn wt = fold (\<lambda>(p, e). fn p e) (merged_list wt)"

definition for_each :: "(string \<Rightarrow> entry \<Rightarrow> 'a \<Rightarrow> 'a) \<Rightarrow> working_tree \<Rightarrow> 'a \<Rightarrow> 'a" where
  "for_each fn wt =
     fold (\<lambda>(p, e) a. if e_kind e \<noteq> Deleted then fn p e a else a) (merged_list wt)"

definition wt_size :: "working_tree \<Rightarrow> nat" where
  "wt_size wt = fold (\<lambda>(p, e) n. if e_kind e \<noteq> Deleted then n + 1 else n) (merged_list wt) 0"

text \<open>\<open>list_dir\<close>: the loop over the two layers, restricted to the prefix.\<close>

definition ld_emit :: "string \<Rightarrow> string \<times> entry \<Rightarrow> (string \<times> entry) list" where
  "ld_emit pre p =
     (if e_kind (snd p) = Deleted then []
      else if CHR ''/'' \<in> set (drop (length pre) (fst p)) then []
      else [p])"

definition ld_ok :: "string \<Rightarrow> entry_map \<Rightarrow> bool" where
  "ld_ok pre it \<longleftrightarrow> it \<noteq> [] \<and> has_prefix pre (fst (hd it))"

function ld_loop :: "string \<Rightarrow> entry_map \<Rightarrow> entry_map \<Rightarrow> (string \<times> entry) list" where
  "ld_loop pre bi di =
     (let d_ok = ld_ok pre di; b_ok = ld_ok pre bi in
      if \<not> d_ok \<and> \<not> b_ok then []
      else if d_ok \<and> (\<not> b_ok \<or> fst (hd di) < fst (hd bi))
        then ld_emit pre (hd di) @ ld_loop pre bi (tl di)
      else if b_ok \<and> (\<not> d_ok \<or> fst (hd bi) < fst (hd di))
        then ld_emit pre (hd bi) @ ld_loop pre (tl bi) di
      else ld_emit pre (hd di) @ ld_loop pre (tl bi) (tl di))"
  by pat_completeness auto
termination
  by (relation "measure (\<lambda>(_, b, d). length b + length d)")
     (auto simp: ld_ok_def neq_Nil_conv)

declare ld_loop.simps [simp del]

definition list_dir :: "string \<Rightarrow> working_tree \<Rightarrow> (string \<times> entry) list" where
  "list_dir dir_path wt =
     (let pre = dir_prefix dir_path; from = dropWhile (\<lambda>p. fst p < pre) in
      ld_loop pre (from (base_map wt)) (from (wt_delta wt)))"

definition wt_clear :: "working_tree \<Rightarrow> working_tree" where
  "wt_clear wt = wt\<lparr>wt_base := None, wt_delta := [], wt_source := {}, wt_auth := False\<rparr>"

definition clone :: "working_tree \<Rightarrow> working_tree" where
  "clone wt = \<lparr>wt_base = wt_base wt, wt_delta = wt_delta wt, wt_source = wt_source wt,
     wt_auth = wt_auth wt\<rparr>"

text \<open>Moving assigns the fields and leaves the containers of the source empty.\<close>

definition wt_move :: "working_tree \<Rightarrow> working_tree \<times> working_tree" where
  "wt_move other = (other, other\<lparr>wt_base := None, wt_delta := [], wt_source := {}\<rparr>)"

definition set_base :: "entry_map \<Rightarrow> working_tree \<Rightarrow> working_tree" where
  "set_base entries wt = wt\<lparr>wt_base := Some entries, wt_delta := [], wt_source := {}, wt_auth := True\<rparr>"

definition fold_into_base :: "working_tree \<Rightarrow> working_tree" where
  "fold_into_base wt =
     (let base = (case wt_base wt of
                    None \<Rightarrow> wt_delta wt
                  | Some b \<Rightarrow> if b = [] then wt_delta wt else om_put_all (wt_delta wt) b)
      in wt\<lparr>wt_base := Some base, wt_delta := [], wt_source := {}, wt_auth := True\<rparr>)"

definition begin_source_walk :: "working_tree \<Rightarrow> working_tree" where
  "begin_source_walk wt = wt\<lparr>wt_auth := False\<rparr>"

definition delta_tombstone_count :: "working_tree \<Rightarrow> nat" where
  "delta_tombstone_count wt = length (filter (\<lambda>p. e_kind (snd p) = Deleted) (wt_delta wt))"

text \<open>\<open>use_count\<close> is what the shared pointer of the base reports.\<close>

definition memory_stats :: "int \<Rightarrow> working_tree \<Rightarrow> wt_stats" where
  "memory_stats use_count wt =
     \<lparr>st_base_entries = (case wt_base wt of None \<Rightarrow> 0 | Some m \<Rightarrow> length m),
      st_base_shared_by = (case wt_base wt of None \<Rightarrow> 0 | Some _ \<Rightarrow> use_count),
      st_delta_entries = length (wt_delta wt), st_delta_tombstones = delta_tombstone_count wt\<rparr>"

section \<open>The view of a tree\<close>

text \<open>Each path has at most one entry: the delta's, or else the base's.\<close>

definition wt_raw :: "working_tree \<Rightarrow> string \<Rightarrow> entry option" where
  "wt_raw wt = map_of (base_map wt) ++ map_of (wt_delta wt)"

definition live :: "(string \<Rightarrow> entry option) \<Rightarrow> string \<Rightarrow> entry option" where
  "live m p = (case m p of None \<Rightarrow> None | Some e \<Rightarrow> if e_kind e = Deleted then None else Some e)"

definition wt_wf :: "working_tree \<Rightarrow> bool" where
  "wt_wf wt \<longleftrightarrow> om_wf (base_map wt) \<and> om_wf (wt_delta wt)"

lemma lookup_raw_view: "lookup_raw p wt = wt_raw wt p"
  by (auto simp: lookup_raw_def wt_raw_def map_add_def split: option.split)

lemma lookup_view: "lookup p wt = live (wt_raw wt) p"
  by (simp add: lookup_def lookup_raw_view live_def)

lemma in_base_view: "in_base p wt \<longleftrightarrow> live (map_of (base_map wt)) p \<noteq> None"
  by (auto simp: in_base_def live_def split: option.split)

lemma live_upd: "live (m(p := x)) q = (if q = p then (case x of None \<Rightarrow> None | Some e \<Rightarrow>
    if e_kind e = Deleted then None else Some e) else live m q)"
  by (simp add: live_def)

lemma live_None: "live m p = None \<longleftrightarrow> (\<forall>e. m p = Some e \<longrightarrow> e_kind e = Deleted)"
  by (auto simp: live_def split: option.split)

lemma whiteout_kind [simp]: "e_kind whiteout = Deleted"
  by (simp add: whiteout_def)

lemma wt_raw_put: "wt_raw (wt\<lparr>wt_delta := om_put p e (wt_delta wt)\<rparr>) = (wt_raw wt)(p \<mapsto> e)"
  by (simp add: wt_raw_def om_simps fun_eq_iff map_add_def)

lemma wt_raw_del:
  "wt_raw (wt\<lparr>wt_delta := om_del p (wt_delta wt)\<rparr>) = (wt_raw wt)(p := map_of (base_map wt) p)"
  by (simp add: wt_raw_def om_simps fun_eq_iff map_add_def)

lemma wt_raw_source [simp]: "wt_raw (wt\<lparr>wt_source := s\<rparr>) = wt_raw wt"
  by (simp add: wt_raw_def)

lemma lookup_insert: "e_kind e \<noteq> Deleted \<Longrightarrow>
    lookup q (insert_entry p e wt) = (if q = p then Some e else lookup q wt)"
  by (simp add: lookup_view insert_entry_def wt_raw_put live_upd)

lemma lookup_insert_source: "e_kind e \<noteq> Deleted \<Longrightarrow>
    lookup q (insert_source p e wt) = (if q = p then Some e else lookup q wt)"
  by (simp add: lookup_view insert_source_def wt_raw_put live_upd Let_def)

lemma lookup_remove: "lookup q (remove p wt) = (if q = p then None else lookup q wt)"
  by (auto simp: lookup_view remove_def wt_raw_put wt_raw_del live_upd in_base_view live_def
      split: option.splits if_splits)

lemma lookup_raw_remove_other: "q \<noteq> p \<Longrightarrow> lookup_raw q (remove p wt) = lookup_raw q wt"
  by (simp add: lookup_raw_view remove_def wt_raw_put wt_raw_del)

lemma lookup_place: "lookup q (place p e wt) =
    (if q = p then (if e_kind e = Deleted then None else Some e) else lookup q wt)"
  by (simp add: place_def lookup_remove) (simp add: lookup_view wt_raw_put live_upd)

text \<open>The fields that the operations on entries keep.\<close>

lemma remove_fields [simp]: "wt_base (remove p wt) = wt_base wt" "wt_source (remove p wt) = wt_source wt"
  "wt_auth (remove p wt) = wt_auth wt"
  by (simp_all add: remove_def)

lemma place_fields [simp]: "wt_base (place p e wt) = wt_base wt" "wt_source (place p e wt) = wt_source wt"
  "wt_auth (place p e wt) = wt_auth wt"
  by (simp_all add: place_def)

lemma wf_put [simp]: "wt_wf wt \<Longrightarrow> wt_wf (wt\<lparr>wt_delta := om_put p e (wt_delta wt)\<rparr>)"
  by (simp add: wt_wf_def om_wf_put)

lemma wf_remove [simp]: "wt_wf wt \<Longrightarrow> wt_wf (remove p wt)"
  by (simp add: wt_wf_def remove_def om_wf_put om_wf_del)

lemma wf_place [simp]: "wt_wf wt \<Longrightarrow> wt_wf (place p e wt)"
  by (simp add: place_def)

lemma wf_insert [simp]: "wt_wf wt \<Longrightarrow> wt_wf (insert_entry p e wt)"
  by (simp add: insert_entry_def)

lemma wf_insert_source [simp]: "wt_wf wt \<Longrightarrow> wt_wf (insert_source p e wt)"
  by (simp add: insert_source_def wt_wf_def om_wf_put Let_def)

lemma wf_rename_entry [simp]: "wt_wf wt \<Longrightarrow> wt_wf (rename_entry p q wt)"
  by (simp add: rename_entry_def split: option.split)

lemma wf_fold_place: "wt_wf wt \<Longrightarrow> wt_wf (fold (\<lambda>(p, e) wt. place (f p) e (remove p wt)) ps wt)"
  by (induction ps arbitrary: wt) auto

lemma wf_rename_dir [simp]: "wt_wf wt \<Longrightarrow> wt_wf (rename_dir p q wt)"
  by (simp add: rename_dir_def wf_fold_place)

lemma wf_new [simp]: "wt_wf wt_new" "wt_wf (wt_clear wt)"
  by (simp_all add: wt_wf_def wt_new_def wt_clear_def)

lemma wf_set_base [simp]: "om_wf m \<Longrightarrow> wt_wf (set_base m wt)"
  by (simp add: wt_wf_def set_base_def)

lemma wf_fold_into_base [simp]: "wt_wf wt \<Longrightarrow> wt_wf (fold_into_base wt)"
  by (auto simp: wt_wf_def fold_into_base_def Let_def om_wf_put_all split: option.splits)

lemma lookup_raw_fold_into_base: "wt_wf wt \<Longrightarrow> lookup_raw p (fold_into_base wt) = lookup_raw p wt"
  by (auto simp: lookup_raw_view wt_raw_def fold_into_base_def Let_def wt_wf_def om_put_all_get
      split: option.splits)

lemma clone_same [simp]: "clone wt = wt"
  by (simp add: clone_def)

lemma lookup_set_base: "lookup_raw p (set_base m wt) = map_of m p"
  by (simp add: lookup_raw_view wt_raw_def set_base_def)

section \<open>Merged iteration\<close>

lemma merged_keys: "fst ` set (merged bs ds) = fst ` set bs \<union> fst ` set ds"
proof (induction bs ds rule: merged.induct)
  case (3 b bs d ds)
  then show ?case by (auto simp: not_less_iff_gr_or_eq)
qed simp_all

lemma merged_wf: "om_wf bs \<Longrightarrow> om_wf ds \<Longrightarrow> om_wf (merged bs ds)"
proof (induction bs ds rule: merged.induct)
  case (3 b bs d ds)
  have c: "om_wf (p # m) \<longleftrightarrow> (\<forall>k \<in> fst ` set m. fst p < k) \<and> om_wf m" for p :: "string \<times> entry" and m
    by (cases p) (simp only: om_wf_Cons fst_conv)
  consider (lt) "fst d < fst b" | (gt) "fst b < fst d" | (eq) "fst b = fst d"
    by (metis linorder_less_linear)
  then show ?case
  proof cases
    case lt
    then have "om_wf (merged (b # bs) ds)" using 3 by (simp add: c)
    with lt 3(4,5) show ?thesis by (auto simp: c merged_keys)
  next
    case gt
    then have "om_wf (merged bs (d # ds))" using 3 by (simp add: c)
    with gt 3(4,5) show ?thesis by (auto simp: c merged_keys)
  next
    case eq
    then have "om_wf (merged bs ds)" using 3 by (simp add: c)
    with eq 3(4,5) show ?thesis by (auto simp: c merged_keys)
  qed
qed simp_all

lemma merged_get: "om_wf bs \<Longrightarrow> om_wf ds \<Longrightarrow> map_of (merged bs ds) = map_of bs ++ map_of ds"
proof (induction bs ds rule: merged.induct)
  case (3 b bs d ds)
  have c: "om_wf (p # m) \<longleftrightarrow> (\<forall>k \<in> fst ` set m. fst p < k) \<and> om_wf m" for p :: "string \<times> entry" and m
    by (cases p) (simp only: om_wf_Cons fst_conv)
  have none: "map_of m k = None" if "\<forall>k' \<in> fst ` set m. k < k'" for k and m :: entry_map
    using that by (auto simp: map_of_eq_None_iff)
  obtain k e where d: "d = (k, e)" by (cases d)
  obtain k' e' where b: "b = (k', e')" by (cases b)
  consider (lt) "k < k'" | (gt) "k' < k" | (eq) "k' = k"
    by (metis linorder_less_linear)
  then show ?case
  proof cases
    case lt
    then have "map_of (merged (b # bs) ds) = map_of (b # bs) ++ map_of ds"
      by (intro 3(1)) (use d b 3(4,5) in \<open>auto simp: c\<close>)
    moreover have "map_of (merged (b # bs) (d # ds)) = (map_of (merged (b # bs) ds))(k \<mapsto> e)"
      using lt by (simp add: d b)
    ultimately show ?thesis by (simp only: d map_of.simps fst_conv snd_conv map_add_upd)
  next
    case gt
    then have ih: "map_of (merged bs (d # ds)) = map_of bs ++ map_of (d # ds)"
      by (intro 3(2)) (use d b 3(4,5) in \<open>auto simp: c\<close>)
    have "map_of (d # ds) k' = None"
      using gt 3(5) by (intro none) (auto simp: c d intro: less_trans)
    then have "k' \<notin> dom (map_of (d # ds))" by blast
    moreover have "merged (b # bs) (d # ds) = b # merged bs (d # ds)"
      using gt by (auto simp: d b dest: less_asym)
    ultimately show ?thesis
      by (simp only: b map_of.simps fst_conv snd_conv ih map_add_upd_left simp_thms not_False_eq_True)
  next
    case eq
    then have ih: "map_of (merged bs ds) = map_of bs ++ map_of ds"
      by (intro 3(3)) (use d b 3(4,5) in \<open>auto simp: c\<close>)
    moreover have "merged (b # bs) (d # ds) = d # merged bs ds" using eq by (simp add: d b)
    ultimately show ?thesis
      by (simp only: d b eq map_of.simps fst_conv snd_conv map_add_upd) (simp add: fun_eq_iff map_add_def split: option.split)
  qed
qed (simp_all add: fun_eq_iff map_add_def)

lemma merged_list_wf: "wt_wf wt \<Longrightarrow> om_wf (merged_list wt)"
  by (simp add: merged_list_def merged_wf wt_wf_def)

lemma merged_list_get: "wt_wf wt \<Longrightarrow> map_of (merged_list wt) = wt_raw wt"
  by (simp add: merged_list_def merged_get wt_wf_def wt_raw_def)

definition live_list :: "working_tree \<Rightarrow> entry_map" where
  "live_list wt = filter (\<lambda>p. e_kind (snd p) \<noteq> Deleted) (merged_list wt)"

lemma for_each_live: "for_each fn wt a = fold (\<lambda>(p, e). fn p e) (live_list wt) a"
proof -
  have "fold (\<lambda>(p, e) a. if e_kind e \<noteq> Deleted then fn p e a else a) m a =
        fold (\<lambda>(p, e). fn p e) (filter (\<lambda>p. e_kind (snd p) \<noteq> Deleted) m) a" for m
    by (induction m arbitrary: a) auto
  then show ?thesis by (simp add: for_each_def live_list_def)
qed

lemma live_list_wf: "wt_wf wt \<Longrightarrow> om_wf (live_list wt)"
  by (simp add: live_list_def om_wf_filter merged_list_wf)

lemma live_list_mem: "wt_wf wt \<Longrightarrow> (p, e) \<in> set (live_list wt) \<longleftrightarrow> lookup p wt = Some e"
  by (auto simp: live_list_def lookup_view live_def merged_list_get [symmetric]
      om_get_iff [OF merged_list_wf, symmetric] split: option.splits)

lemma live_list_get: "wt_wf wt \<Longrightarrow> map_of (live_list wt) p = lookup p wt"
  by (metis live_list_mem live_list_wf om_get_iff option.exhaust)

lemma wt_size_live: "wt_size wt = length (live_list wt)"
proof -
  have "fold (\<lambda>(p, e) n. if e_kind e \<noteq> Deleted then n + 1 else n) m n =
        n + length (filter (\<lambda>p. e_kind (snd p) \<noteq> Deleted) m)" for m n
    by (induction m arbitrary: n) auto
  from this [of _ 0] show ?thesis unfolding wt_size_def live_list_def by simp
qed

section \<open>Directory listings\<close>

lemma map_of_filter_keys:
  "map_of (filter (\<lambda>p. P (fst p)) m) k = (if P k then map_of m k else None)"
  by (induction m) auto


lemma has_prefix_iff: "has_prefix p x \<longleftrightarrow> (\<exists>r. x = p @ r)"
proof
  assume "has_prefix p x"
  then have "x = p @ drop (length p) x" by (metis append_take_drop_id has_prefix_def)
  then show "\<exists>r. x = p @ r" by blast
qed (auto simp: has_prefix_def)

lemma prefix_upward: "p \<le> x \<Longrightarrow> \<not> has_prefix p x \<Longrightarrow> p @ r < (x :: string)"
proof (induction p arbitrary: x)
  case Nil
  then show ?case by (simp add: has_prefix_def)
next
  case (Cons c p)
  then obtain d y where x: "x = d # y" by (cases x) auto
  show ?case
  proof (cases "c = d")
    case True
    with Cons.prems x have "p \<le> y" "\<not> has_prefix p y" by (auto simp: has_prefix_iff)
    with Cons.IH x True show ?thesis by simp
  next
    case False
    with Cons.prems x show ?thesis by auto
  qed
qed

lemma prefix_le: "p \<le> (p @ r :: string)"
  by (induction p) auto

text \<open>In a sorted map, the keys with a prefix are one run that starts at \<open>lower_bound\<close>.\<close>

lemma prefix_run:
  "om_wf m \<Longrightarrow> takeWhile (\<lambda>p. has_prefix pre (fst p)) (dropWhile (\<lambda>p. fst p < pre) m)
     = filter (\<lambda>p. has_prefix pre (fst p)) (m :: entry_map)"
proof (induction m)
  case (Cons q m)
  obtain k e where q: "q = (k, e)" by (cases q)
  have wf: "om_wf m" "\<forall>k' \<in> fst ` set m. k < k'" using Cons.prems by (auto simp: q om_wf_Cons)
  consider (lt) "k < pre" | (pre) "has_prefix pre k" | (gt) "pre \<le> k" "\<not> has_prefix pre k"
    by (metis not_less)
  then show ?case
  proof cases
    case lt
    then have "\<not> has_prefix pre k" using prefix_le by (auto simp: has_prefix_iff) (metis leD)
    with lt Cons.IH [OF wf(1)] show ?thesis by (simp add: q)
  next
    case pre
    then have "\<not> k < pre" using prefix_le by (auto simp: has_prefix_iff) (metis leD)
    have ge: "\<not> k' < pre" if "k' \<in> fst ` set m" for k'
      using that wf(2) \<open>\<not> k < pre\<close> by force
    then have "dropWhile (\<lambda>p. fst p < pre) m = m" by (cases m) auto
    with Cons.IH [OF wf(1)] pre \<open>\<not> k < pre\<close> show ?thesis by (simp add: q)
  next
    case gt
    have "\<not> has_prefix pre k'" if "k' \<in> fst ` set m" for k'
    proof
      assume "has_prefix pre k'"
      then obtain r where "k' = pre @ r" by (auto simp: has_prefix_iff)
      with prefix_upward [OF gt, of r] wf(2) that show False by force
    qed
    then have "filter (\<lambda>p. has_prefix pre (fst p)) m = []" by (auto simp: filter_empty_conv)
    with gt show ?thesis by (simp add: q not_less)
  qed
qed simp

lemma prefix_range_filter: "om_wf m \<Longrightarrow> prefix_range pre m = filter (\<lambda>p. has_prefix pre (fst p)) m"
  by (simp add: prefix_range_def prefix_run)

text \<open>The loop is the merge of the two runs.\<close>

lemma ld_loop_merged:
  "ld_loop pre bs ds = concat (map (ld_emit pre)
     (merged (takeWhile (\<lambda>p. has_prefix pre (fst p)) bs) (takeWhile (\<lambda>p. has_prefix pre (fst p)) ds)))"
proof (induction pre bs ds rule: ld_loop.induct)
  case (1 pre bs ds)
  have ok: "ld_ok pre it \<longleftrightarrow> takeWhile (\<lambda>p. has_prefix pre (fst p)) it \<noteq> []" for it
    by (cases it) (auto simp: ld_ok_def)
  have no: "takeWhile (\<lambda>p. has_prefix pre (fst p)) it = []" if "\<not> ld_ok pre it" for it
    using ok that by blast
  have yes: "takeWhile (\<lambda>p. has_prefix pre (fst p)) it =
      hd it # takeWhile (\<lambda>p. has_prefix pre (fst p)) (tl it)" if "ld_ok pre it" for it
    using that by (cases it) (auto simp: ld_ok_def)
  have nil: "merged xs [] = xs" for xs by (cases xs) simp_all
  note step = ld_loop.simps [of pre bs ds]
  show ?case
  proof (cases "ld_ok pre ds")
    case d: True
    show ?thesis
    proof (cases "ld_ok pre bs")
      case b: True
      consider (lt) "fst (hd ds) < fst (hd bs)" | (gt) "fst (hd bs) < fst (hd ds)"
        | (eq) "fst (hd bs) = fst (hd ds)" by (metis linorder_less_linear)
      then show ?thesis
      proof cases
        case lt
        have "ld_loop pre bs ds = ld_emit pre (hd ds) @ ld_loop pre bs (tl ds)"
          using d b lt by (simp add: step)
        with 1(1) [OF refl refl _ _] d b lt show ?thesis by (simp add: yes)
      next
        case gt
        then have n: "\<not> fst (hd ds) < fst (hd bs)" by simp
        have "ld_loop pre bs ds = ld_emit pre (hd bs) @ ld_loop pre (tl bs) ds"
          using d b gt n by (simp add: step)
        with 1(2) [OF refl refl _ _] d b gt n show ?thesis by (simp add: yes)
      next
        case eq
        have "ld_loop pre bs ds = ld_emit pre (hd ds) @ ld_loop pre (tl bs) (tl ds)"
          using d b eq by (simp add: step)
        with 1(3) [OF refl refl _ _] d b eq show ?thesis by (simp add: yes)
      qed
    next
      case b: False
      have "ld_loop pre bs ds = ld_emit pre (hd ds) @ ld_loop pre bs (tl ds)"
        using d b by (simp add: step)
      with 1(1) [OF refl refl _ _] d b show ?thesis by (simp add: yes no)
    qed
  next
    case d: False
    show ?thesis
    proof (cases "ld_ok pre bs")
      case b: True
      have "ld_loop pre bs ds = ld_emit pre (hd bs) @ ld_loop pre (tl bs) ds"
        using d b by (simp add: step)
      with 1(2) [OF refl refl _ _] d b show ?thesis by (simp add: yes no nil)
    next
      case b: False
      with d show ?thesis by (simp add: step no)
    qed
  qed
qed

definition child_of :: "string \<Rightarrow> string \<Rightarrow> bool" where
  "child_of dir path \<longleftrightarrow> (\<exists>name. path = dir_prefix dir @ name \<and> CHR ''/'' \<notin> set name)"

lemma concat_emit:
  "concat (map (ld_emit pre) m) = filter (\<lambda>p. e_kind (snd p) \<noteq> Deleted \<and> CHR ''/'' \<notin> set (drop (length pre) (fst p))) m"
  by (induction m) (auto simp: ld_emit_def)

lemma list_dir_filter:
  assumes "wt_wf wt"
  shows "list_dir d wt = filter (\<lambda>p. child_of d (fst p)) (live_list wt)"
proof -
  let ?pre = "dir_prefix d"
  let ?f = "filter (\<lambda>p. has_prefix ?pre (fst p))"
  have wf: "om_wf (base_map wt)" "om_wf (wt_delta wt)" using assms by (simp_all add: wt_wf_def)
  have "list_dir d wt = concat (map (ld_emit ?pre) (merged (?f (base_map wt)) (?f (wt_delta wt))))"
    using wf by (simp add: list_dir_def ld_loop_merged prefix_run Let_def)
  also have "merged (?f (base_map wt)) (?f (wt_delta wt)) = ?f (merged_list wt)"
  proof (rule om_eqI)
    have wff: "om_wf (?f (base_map wt))" "om_wf (?f (wt_delta wt))"
      using wf om_wf_filter by blast+
    show "om_wf (merged (?f (base_map wt)) (?f (wt_delta wt)))" by (rule merged_wf [OF wff])
    show "om_wf (?f (merged_list wt))" by (rule om_wf_filter [OF merged_list_wf [OF assms]])
    show "map_of (merged (?f (base_map wt)) (?f (wt_delta wt))) = map_of (?f (merged_list wt))"
      unfolding merged_get [OF wff] fun_eq_iff map_of_filter_keys map_add_def
        merged_list_get [OF assms] wt_raw_def by (simp split: option.split)
  qed
  finally have "list_dir d wt = filter (\<lambda>p. e_kind (snd p) \<noteq> Deleted \<and>
      CHR ''/'' \<notin> set (drop (length ?pre) (fst p))) (?f (merged_list wt))"
    by (simp add: concat_emit)
  then show ?thesis
    by (auto simp: live_list_def child_of_def has_prefix_iff intro!: filter_cong)
qed

section \<open>Renaming a directory\<close>

definition under :: "string \<Rightarrow> string \<Rightarrow> bool" where
  "under dir path \<longleftrightarrow> has_prefix (dir @ ''/'') path"

lemma to_move_get:
  assumes "wt_wf wt" and d: "d \<noteq> []" "last d \<noteq> CHR ''/''"
  shows "map_of (to_move d wt) q = (if q = d \<or> under d q then wt_raw wt q else None)"
    "om_wf (to_move d wt)"
proof -
  let ?f = "filter (\<lambda>p. has_prefix (d @ ''/'') (fst p))"
  have wf: "om_wf (base_map wt)" "om_wf (wt_delta wt)" using assms(1) by (simp_all add: wt_wf_def)
  then have wff: "om_wf (?f (base_map wt))" "om_wf (?f (wt_delta wt))" using om_wf_filter by blast+
  have scan: "dir_prefix d = d @ ''/''" using d by (simp add: dir_prefix_def)
  let ?m = "om_put_all (?f (wt_delta wt)) (om_put_all (?f (base_map wt)) [])"
  have m: "to_move d wt = (case lookup_raw d wt of None \<Rightarrow> ?m | Some e \<Rightarrow> om_put d e ?m)"
    using wf by (cases "wt_base wt")
      (simp_all add: to_move_def scan prefix_range_filter Let_def om_put_all_def cong: option.case_cong)
  have get: "map_of ?m q = (if under d q then wt_raw wt q else None)" for q
    unfolding om_put_all_get [OF wff(2)] om_put_all_get [OF wff(1)] map_add_def map_of_filter_keys
      wt_raw_def under_def by (simp split: option.split)
  have nu: "\<not> under d d" by (simp add: under_def has_prefix_def)
  show "map_of (to_move d wt) q = (if q = d \<or> under d q then wt_raw wt q else None)"
    unfolding m lookup_raw_view using get nu
    by (cases "wt_raw wt d") (auto simp: om_simps)
  show "om_wf (to_move d wt)"
    unfolding m by (cases "lookup_raw d wt") (auto intro!: om_intros)
qed

lemma lookup_fold_place:
  assumes "distinct (map fst ps)" "inj_on f (fst ` set ps)" "\<forall>p \<in> fst ` set ps. \<forall>q \<in> fst ` set ps. f p \<noteq> q"
  shows "lookup q (fold (\<lambda>(p, e) wt. place (f p) e (remove p wt)) ps wt) =
    (if q \<in> fst ` set ps then None
     else if \<exists>p e. (p, e) \<in> set ps \<and> q = f p
       then live (\<lambda>_. map_of ps (inv_into (fst ` set ps) f q)) q
     else lookup q wt)"
  using assms
proof (induction ps arbitrary: wt rule: rev_induct)
  case (snoc x ps)
  obtain p e where x: "x = (p, e)" by (cases x)
  let ?w = "fold (\<lambda>(p, e) wt. place (f p) e (remove p wt)) ps wt"
  have inj: "inj_on f (fst ` set ps)" using snoc.prems(2) by (auto intro: inj_on_subset)
  have ih: "lookup q ?w = (if q \<in> fst ` set ps then None
     else if \<exists>p e. (p, e) \<in> set ps \<and> q = f p
       then live (\<lambda>_. map_of ps (inv_into (fst ` set ps) f q)) q
     else lookup q wt)"
    using snoc inj by auto
  have step: "lookup q (fold (\<lambda>(p, e) wt. place (f p) e (remove p wt)) (ps @ [x]) wt) =
      (if q = f p then (if e_kind e = Deleted then None else Some e)
       else if q = p then None else lookup q ?w)"
    by (simp add: x lookup_place lookup_remove)
  have fx: "f p \<notin> fst ` set (ps @ [x])" "p \<notin> fst ` set ps"
    using snoc.prems(1,3) by (auto simp: x)
  have inv: "inv_into (fst ` set (ps @ [x])) f (f r) = r" if "r \<in> fst ` set (ps @ [x])" for r
    using snoc.prems(2) that by (rule inv_into_f_f)
  have inv': "inv_into (fst ` set ps) f (f r) = r" if "r \<in> fst ` set ps" for r
    using inj that by (rule inv_into_f_f)
  have get: "map_of (ps @ [x]) r = (if r = p then Some e else map_of ps r)" for r
  proof -
    have "map_of ps p = None" using fx(2) by (simp add: map_of_eq_None_iff)
    then show ?thesis by (auto simp: x map_add_def split: option.split)
  qed
  show ?case
  proof (cases "q = f p")
    case True
    then show ?thesis
      using fx inv [of p] get [of p] unfolding step by (auto simp: x live_def)
  next
    case ne: False
    show ?thesis
    proof (cases "\<exists>r e. (r, e) \<in> set ps \<and> q = f r")
      case True
      then obtain r e' where r: "(r, e') \<in> set ps" "q = f r" by blast
      then have rr: "r \<in> fst ` set ps" by force
      with fx have "r \<noteq> p" by auto
      moreover have "q \<noteq> p" using snoc.prems(3) r(2) rr by (auto simp: x)
      moreover have "q \<notin> fst ` set ps" using snoc.prems(3) r(2) rr by auto
      ultimately show ?thesis
        using ne r rr ih inv [of r] inv' [of r] get [of r] unfolding step by (auto simp: x)
    next
      case False
      with ne ih show ?thesis unfolding step by (auto simp: x)
    qed
  qed
qed simp

lemma moved_path_simp: "q = d \<or> under d q \<Longrightarrow> moved_path d d' q = d' @ drop (length d) q"
  by (auto simp: moved_path_def)

lemma under_split: "under d q \<longleftrightarrow> (\<exists>r. q = d @ CHR ''/'' # r)"
  by (auto simp: under_def has_prefix_iff)

lemma at_or_under: "q = d \<or> under d q \<longleftrightarrow> (\<exists>r. q = d @ r \<and> (r = [] \<or> hd r = CHR ''/''))"
  by (auto simp: under_split) (metis list.collapse)

text \<open>Two paths with a common descendant are comparable.\<close>

lemma common_descendant:
  assumes "q = a \<or> under a q" "q = b \<or> under b q"
  shows "a = b \<or> under a b \<or> under b a"
proof -
  obtain r s where r: "q = a @ r" "r = [] \<or> hd r = CHR ''/''" and s: "q = b @ s" "s = [] \<or> hd s = CHR ''/''"
    using assms unfolding at_or_under by blast
  have "a @ r = b @ s" using r s by simp
  then obtain us where "a = b @ us \<and> us @ r = s \<or> a @ us = b \<and> r = us @ s"
    unfolding append_eq_append_conv2 by blast
  then show ?thesis using r(2) s(2) by (cases us) (auto simp: under_split)
qed

lemma rename_dir_lookup:
  assumes wf: "wt_wf wt" and d: "d \<noteq> []" "last d \<noteq> CHR ''/''"
    and apart: "d' \<noteq> d" "\<not> under d d'" "\<not> under d' d"
  shows "lookup q (rename_dir d d' wt) =
    (if q = d \<or> under d q then None
     else if (q = d' \<or> under d' q) \<and> lookup_raw (d @ drop (length d') q) wt \<noteq> None
       then lookup (d @ drop (length d') q) wt
     else lookup q wt)"
proof -
  let ?m = "to_move d wt" and ?f = "moved_path d d'"
  note get = to_move_get(1) [OF wf d] and wfm = to_move_get(2) [OF wf d]
  have keys: "p \<in> fst ` set ?m \<longleftrightarrow> (p = d \<or> under d p) \<and> wt_raw wt p \<noteq> None" for p
  proof -
    have "p \<in> fst ` set ?m \<longleftrightarrow> map_of ?m p \<noteq> None" 
      by (simp add: map_of_eq_None_iff [of ?m p] del: map_of_eq_None_iff not_None_eq)
    then show ?thesis unfolding get by simp
  qed
  have at: "p = d \<or> under d p" if "p \<in> fst ` set ?m" for p using that keys by blast
  have rel: "d @ drop (length d) p = p" "d' @ drop (length d) p = d' \<or> under d' (d' @ drop (length d) p)"
    if "p = d \<or> under d p" for p using that by (auto simp: under_split)
  have f: "?f p = d' @ drop (length d) p" if "p \<in> fst ` set ?m" for p
    by (rule moved_path_simp [OF at [OF that]])
  have tgt: "?f p = d' \<or> under d' (?f p)" if "p \<in> fst ` set ?m" for p
    unfolding f [OF that] by (rule rel(2) [OF at [OF that]])
  have inj: "inj_on ?f (fst ` set ?m)"
  proof (rule inj_onI)
    fix p p' assume pp: "p \<in> fst ` set ?m" "p' \<in> fst ` set ?m" "?f p = ?f p'"
    then have "drop (length d) p = drop (length d) p'" by (simp add: f)
    with rel(1) [OF at [OF pp(1)]] rel(1) [OF at [OF pp(2)]] show "p = p'" by metis
  qed
  have disj: "?f p \<noteq> p'" if "p \<in> fst ` set ?m" "p' \<in> fst ` set ?m" for p p'
    using tgt [OF that(1)] common_descendant [of "?f p" d' d] at [OF that(2)] apart by metis
  note l = lookup_fold_place [OF om_wf_distinct [OF wfm] inj, of q wt]
  have run: "lookup q (rename_dir d d' wt) =
    (if q \<in> fst ` set ?m then None
     else if \<exists>p e. (p, e) \<in> set ?m \<and> q = ?f p
       then live (\<lambda>_. map_of ?m (inv_into (fst ` set ?m) ?f q)) q
     else lookup q wt)"
    unfolding rename_dir_def using disj by (intro l) blast
  show ?thesis
  proof (cases "q = d \<or> under d q")
    case True
    have "q \<noteq> ?f p" if "(p, e) \<in> set ?m" for p e
    proof -
      have "p \<in> fst ` set ?m" using that by force
      then show ?thesis using tgt [of p] True common_descendant [of q d' d] apart by metis
    qed
    moreover have "lookup q wt = None" if "q \<notin> fst ` set ?m"
      using that True keys [of q] by (simp add: lookup_view live_def)
    ultimately show ?thesis using True run by auto
  next
    case False
    then have nq: "q \<notin> fst ` set ?m" using keys by blast
    let ?p = "d @ drop (length d') q"
    have ex: "(\<exists>p e. (p, e) \<in> set ?m \<and> q = ?f p) \<longleftrightarrow> (q = d' \<or> under d' q) \<and> lookup_raw ?p wt \<noteq> None"
    proof
      assume "\<exists>p e. (p, e) \<in> set ?m \<and> q = ?f p"
      then obtain p e where pe: "(p, e) \<in> set ?m" "q = ?f p" by blast
      then have k: "p \<in> fst ` set ?m" by force
      have "?p = p" using pe f [OF k] rel(1) [OF at [OF k]] by simp
      moreover have "wt_raw wt p \<noteq> None" using k keys by blast
      ultimately show "(q = d' \<or> under d' q) \<and> lookup_raw ?p wt \<noteq> None"
        using tgt [OF k] pe(2) by (simp add: lookup_raw_view)
    next
      assume a: "(q = d' \<or> under d' q) \<and> lookup_raw ?p wt \<noteq> None"
      then have "?p = d \<or> under d ?p" by (auto simp: under_split)
      with a have k: "?p \<in> fst ` set ?m" using keys unfolding lookup_raw_view by blast
      then obtain e where e: "(?p, e) \<in> set ?m" by force
      have "?f ?p = q" using a f [OF k] by (auto simp: under_split)
      with e show "\<exists>p e. (p, e) \<in> set ?m \<and> q = ?f p" by metis
    qed
    show ?thesis
    proof (cases "\<exists>p e. (p, e) \<in> set ?m \<and> q = ?f p")
      case True
      then obtain p e where pe: "(p, e) \<in> set ?m" "q = ?f p" by blast
      then have k: "p \<in> fst ` set ?m" by force
      have "?p = p" using pe f [OF k] rel(1) [OF at [OF k]] by simp
      moreover have "inv_into (fst ` set ?m) ?f q = p" unfolding pe(2) by (rule inv_into_f_f [OF inj k])
      moreover have "map_of ?m p = wt_raw wt p" unfolding get using at [OF k] by simp
      ultimately show ?thesis
        using True False nq run ex by (simp add: lookup_view live_def)
    next
      case no: False
      then show ?thesis using False nq run ex by auto
    qed
  qed
qed

section \<open>Whiteouts\<close>

text \<open>
  What the entry operations keep: source markers have a delta entry, so that the live
  source never shows through them, and under an authoritative base every whiteout of the
  delta hides something.
\<close>

definition wt_inv :: "working_tree \<Rightarrow> bool" where
  "wt_inv wt \<longleftrightarrow> wt_wf wt \<and> (\<forall>p \<in> wt_source wt. map_of (wt_delta wt) p \<noteq> None) \<and>
     (wt_auth wt \<longrightarrow> (\<forall>p e. map_of (wt_delta wt) p = Some e \<longrightarrow> e_kind e = Deleted \<longrightarrow>
        in_base p wt \<or> p \<in> wt_source wt))"

inductive wt_step :: "working_tree \<Rightarrow> working_tree \<Rightarrow> bool" where
  insert_step: "e_kind e \<noteq> Deleted \<Longrightarrow> wt_step wt (insert_entry p e wt)"
| source_step: "e_kind e \<noteq> Deleted \<Longrightarrow> wt_step wt (insert_source p e wt)"
| remove_step: "wt_step wt (remove p wt)"
| rename_step: "wt_step wt (rename_entry p q wt)"
| rename_dir_step: "wt_step wt (rename_dir p q wt)"
| clone_step: "wt_step wt (clone wt)"

inductive_cases wt_stepE: "wt_step wt wt'"

text \<open>Each operation is a series of these two.\<close>

inductive wt_basic :: "working_tree \<Rightarrow> working_tree \<Rightarrow> bool" where
  basic_refl: "wt_basic wt wt"
| basic_put: "wt_basic wt wt' \<Longrightarrow> e_kind e \<noteq> Deleted \<Longrightarrow>
    wt_basic wt (wt'\<lparr>wt_delta := om_put p e (wt_delta wt')\<rparr>)"
| basic_mark: "wt_basic wt wt' \<Longrightarrow> map_of (wt_delta wt') p \<noteq> None \<Longrightarrow>
    wt_basic wt (wt'\<lparr>wt_source := insert p (wt_source wt')\<rparr>)"
| basic_remove: "wt_basic wt wt' \<Longrightarrow> wt_basic wt (remove p wt')"

lemma in_base_fields [simp]: "in_base p (wt\<lparr>wt_delta := d\<rparr>) = in_base p wt"
  "in_base p (wt\<lparr>wt_source := s\<rparr>) = in_base p wt"
  "in_base p (remove q wt) = in_base p wt"
  by (simp_all add: in_base_def)

lemma basic_place: "wt_basic wt wt' \<Longrightarrow> wt_basic wt (place p e wt')"
  by (simp add: place_def basic_put basic_remove)

lemma basic_fold_place:
  "wt_basic wt wt' \<Longrightarrow> wt_basic wt (fold (\<lambda>(p, e) wt. place (f p) e (remove p wt)) ps wt')"
  by (induction ps arbitrary: wt') (auto intro: basic_place basic_remove)

lemma step_basic: "wt_step wt wt' \<Longrightarrow> wt_basic wt wt'"
proof (induction rule: wt_step.induct)
  case (source_step e wt p)
  let ?w = "wt\<lparr>wt_delta := om_put p e (wt_delta wt)\<rparr>"
  have w: "wt_basic wt ?w" using source_step by (intro basic_put basic_refl)
  have "wt_basic wt (?w\<lparr>wt_source := insert p (wt_source ?w)\<rparr>)"
    by (rule basic_mark [OF w]) (simp add: om_simps)
  with w show ?case by (simp add: insert_source_def Let_def)
next
  case (rename_step wt p q)
  then show ?case
    by (auto simp: rename_entry_def intro: basic_refl basic_remove basic_place split: option.split)
next
  case (rename_dir_step wt p q)
  then show ?case by (simp add: rename_dir_def basic_fold_place basic_refl)
qed (auto simp: insert_entry_def intro: wt_basic.intros)

lemma basic_inv:
  "wt_basic wt wt' \<Longrightarrow> wt_inv wt \<Longrightarrow>
   wt_inv wt' \<and> wt_base wt' = wt_base wt \<and> wt_auth wt' = wt_auth wt \<and> wt_source wt \<subseteq> wt_source wt'"
proof (induction rule: wt_basic.induct)
  case (basic_put wt wt' e p)
  then show ?case by (auto simp: wt_inv_def om_simps)
next
  case (basic_mark wt wt' p)
  then show ?case by (auto simp: wt_inv_def wt_wf_def)
next
  case (basic_remove wt wt' p)
  then have i: "wt_inv wt'" by simp
  have "wt_inv (remove p wt')"
    using i wf_remove [of wt' p] unfolding wt_inv_def
    by (auto simp: remove_def om_simps split: if_splits)
  with basic_remove show ?case by simp
qed simp

lemma steps_basic_inv:
  assumes "wt_step\<^sup>*\<^sup>* wt wt'" "wt_inv wt"
  shows "wt_inv wt' \<and> wt_base wt' = wt_base wt \<and> wt_auth wt' = wt_auth wt \<and> wt_source wt \<subseteq> wt_source wt'"
  using assms
proof (induction rule: rtranclp_induct)
  case (step y z)
  then have y: "wt_inv y" "wt_base y = wt_base wt" "wt_auth y = wt_auth wt" "wt_source wt \<subseteq> wt_source y"
    by auto
  show ?case using basic_inv [OF step_basic [OF step.hyps(2)] y(1)] y by auto
qed simp

lemma wt_inv_fresh: "om_wf m \<Longrightarrow> wt_inv (set_base m wt)" "wt_inv wt_new"
  "wt_wf wt \<Longrightarrow> wt_inv (fold_into_base wt)"
  using wf_fold_into_base [of wt]
  by (simp_all add: wt_inv_def) (simp_all add: set_base_def wt_new_def fold_into_base_def Let_def)

section \<open>Properties\<close>

text \<open>
  The listing of a directory is exact. It has, in ascending order and once each, the
  paths one component below the directory that have a live entry, with that entry; paths
  that the delta whites out, deeper paths and other directories are not in it.
\<close>

theorem list_dir_exact:
  assumes "wt_wf wt"
  shows "om_wf (list_dir d wt) \<and>
    (\<forall>p e. (p, e) \<in> set (list_dir d wt) \<longleftrightarrow> child_of d p \<and> lookup p wt = Some e)"
  using assms by (auto simp: list_dir_filter live_list_mem intro!: om_wf_filter live_list_wf)

theorem list_dir_exact_witness:
  "((''a/b'', \<lparr>e_kind = Blob, e_hash = 7, e_mode = 420\<rparr>) \<in> set (list_dir ''a''
     (insert_entry ''a/b'' \<lparr>e_kind = Blob, e_hash = 7, e_mode = 420\<rparr> wt_new)))"
  using list_dir_exact [of "insert_entry ''a/b'' \<lparr>e_kind = Blob, e_hash = 7, e_mode = 420\<rparr> wt_new" "''a''"]
  by (auto simp: lookup_insert child_of_def dir_prefix_def)

text \<open>
  C33: renaming a directory moves its subtree and nothing else. When neither path lies in
  the other, nothing is left at or under the old path, each path at or under the new one
  shows what its counterpart showed (and what it showed itself, when there was none), and
  all other paths are as before.
\<close>

theorem rename_dir_moves_subtree:
  assumes "wt_wf wt" "d \<noteq> []" "last d \<noteq> CHR ''/''" "d' \<noteq> d" "\<not> under d d'" "\<not> under d' d"
  shows "wt_wf (rename_dir d d' wt) \<and> lookup q (rename_dir d d' wt) =
    (if q = d \<or> under d q then None
     else if (q = d' \<or> under d' q) \<and> lookup_raw (d @ drop (length d') q) wt \<noteq> None
       then lookup (d @ drop (length d') q) wt
     else lookup q wt)"
  using assms by (simp add: rename_dir_lookup)

theorem rename_dir_moves_subtree_witness:
  "lookup ''c/b'' (rename_dir ''a'' ''c'' (insert_entry ''a/b'' \<lparr>e_kind = Blob, e_hash = 7, e_mode = 420\<rparr> wt_new))
    = Some \<lparr>e_kind = Blob, e_hash = 7, e_mode = 420\<rparr>"
proof -
  let ?w = "insert_entry ''a/b'' \<lparr>e_kind = Blob, e_hash = 7, e_mode = 420\<rparr> wt_new"
  have "lookup ''a/b'' ?w = Some \<lparr>e_kind = Blob, e_hash = 7, e_mode = 420\<rparr>"
    by (simp add: lookup_insert)
  moreover from this have "lookup_raw ''a/b'' ?w \<noteq> None" by (auto simp: lookup_def split: option.splits)
  ultimately show ?thesis
    using rename_dir_moves_subtree [of ?w "''a''" "''c''" "''c/b''"] by (simp add: under_split)
qed

text \<open>
  No resurrection. From a well-formed tree, whatever sequence of inserts, removals and
  renames follows, the base and the authority stay, a path that is live in the base or
  marked as present in the live source never becomes a miss again (a removed one stays
  whited out), and an authoritative tree keeps no whiteout that hides nothing.
\<close>

theorem whiteouts_persist:
  assumes "wt_step\<^sup>*\<^sup>* wt wt'" "wt_inv wt"
  shows "wt_inv wt' \<and> wt_base wt' = wt_base wt \<and> wt_auth wt' = wt_auth wt \<and>
    (in_base p wt \<or> p \<in> wt_source wt \<longrightarrow> lookup_raw p wt' \<noteq> None)"
proof -
  have i: "wt_inv wt'" "wt_base wt' = wt_base wt" "wt_auth wt' = wt_auth wt" "wt_source wt \<subseteq> wt_source wt'"
    using steps_basic_inv [OF assms] by auto
  have "lookup_raw p wt' \<noteq> None" if "in_base p wt"
    using that i(2) by (auto simp: in_base_def lookup_raw_def split: option.splits)
  moreover have "lookup_raw p wt' \<noteq> None" if "p \<in> wt_source wt"
    using that i(1,4) by (fastforce simp: wt_inv_def lookup_raw_view wt_raw_def map_add_def split: option.splits)
  ultimately show ?thesis using i by blast
qed

theorem whiteouts_persist_witness:
  "lookup_raw ''f'' (remove ''f'' (set_base [(''f'', \<lparr>e_kind = Blob, e_hash = 7, e_mode = 420\<rparr>)] wt_new)) \<noteq> None"
proof -
  let ?w = "set_base [(''f'', \<lparr>e_kind = Blob, e_hash = 7, e_mode = 420\<rparr>)] wt_new"
  have "wt_step\<^sup>*\<^sup>* ?w (remove ''f'' ?w)" by (intro r_into_rtranclp remove_step)
  moreover have "wt_inv ?w" by (rule wt_inv_fresh) (simp add: om_wf_def)
  ultimately show ?thesis
    using whiteouts_persist [of ?w "remove ''f'' ?w" "''f''"] by (simp add: in_base_def set_base_def)
qed

text \<open>
  Folding the delta into the base changes no lookup, raw or live, nor the iteration, and
  leaves an empty delta under an authoritative base.
\<close>

theorem fold_into_base_same:
  assumes "wt_wf wt"
  shows "lookup_raw p (fold_into_base wt) = lookup_raw p wt \<and>
    merged_list (fold_into_base wt) = merged_list wt \<and> wt_inv (fold_into_base wt) \<and>
    wt_delta (fold_into_base wt) = [] \<and> wt_auth (fold_into_base wt)"
proof -
  have "merged_list (fold_into_base wt) = merged_list wt"
    using assms lookup_raw_fold_into_base [OF assms] wf_fold_into_base [OF assms]
    by (intro om_eqI) (simp_all add: merged_list_wf merged_list_get fun_eq_iff lookup_raw_view)
  then show ?thesis
    using assms lookup_raw_fold_into_base [OF assms]
    by (simp add: wt_inv_fresh) (simp add: fold_into_base_def Let_def)
qed

theorem fold_into_base_same_witness:
  "lookup_raw ''f'' (fold_into_base (insert_entry ''f'' whiteout wt_new)) = Some whiteout"
  using fold_into_base_same [of "insert_entry ''f'' whiteout wt_new" "''f''"]
  by (simp add: lookup_raw_view insert_entry_def wt_raw_put)

end
