(* ===== verification/TreeSerialize.thy ===== *)
theory TreeSerialize
  imports ObjectStore WorkingTree
begin

text \<open>
  \<open>src/cas/tree_serialize.h\<close> and \<open>tree_serialize.cpp\<close>: tree objects, and how a working
  tree is written as a hierarchy of them and rebuilt from its root. \<open>std::sort\<close> leaves the
  order of equal keys open; the model takes the stable order. The loop of the rebuild has no
  bound in the source (the objects of the store decide how long it runs), so it is a partial
  function whose value \<open>None\<close> means that it does not return.
\<close>

section \<open>Tree objects\<close>

definition tree_entry_bytes :: "string \<times> entry \<Rightarrow> bytes" where
  "tree_entry_bytes p =
     (let name_len = (of_nat (length (fst p)) :: u16) in
      enc16 name_len @ bytes_of (take (unat name_len) (fst p)) @ enc32 (e_mode (snd p)) @
      [byte_of_kind (e_kind (snd p))] @ hash_bytes (e_hash (snd p)))"

definition serialize_tree_entries :: "(string \<times> entry) list \<Rightarrow> bytes" where
  "serialize_tree_entries children =
     (let sorted = sort_key fst children in
      enc32 (of_nat (length sorted)) @ concat (map tree_entry_bytes sorted))"

text \<open>The entries from position \<open>pos\<close>; every read is behind its check.\<close>

fun read_tree_entries :: "nat \<Rightarrow> nat \<Rightarrow> bytes \<Rightarrow> (string \<times> entry) list option" where
  "read_tree_entries 0 pos body = Some []"
| "read_tree_entries (Suc n) pos body =
     (case rd 2 pos body of None \<Rightarrow> None | Some lb \<Rightarrow>
      (let name_len = unat (dec16 lb); pos = pos + 2 in
       case rd (name_len + 4 + 1 + 32) pos body of None \<Rightarrow> None | Some b \<Rightarrow>
       map_option (Cons
           (string_of (take name_len b),
            \<lparr>e_kind = kind_of_byte (b ! (name_len + 4)), e_hash = bytes_hash (drop (name_len + 5) b),
             e_mode = dec32 (take 4 (drop name_len b))\<rparr>))
         (read_tree_entries n (pos + name_len + 4 + 1 + 32) body)))"

definition deserialize_tree_entries :: "bytes \<Rightarrow> (string \<times> entry) list option" where
  "deserialize_tree_entries body =
     (case rd 4 0 body of None \<Rightarrow> None
      | Some c \<Rightarrow> read_tree_entries (unat (dec32 c)) 4 body)"

section \<open>Writing a working tree\<close>

text \<open>\<open>path.rfind('/')\<close> and the two \<open>substr\<close>: parent and name.\<close>

definition split_path :: "string \<Rightarrow> string \<times> string" where
  "split_path path =
     (let name = rev (takeWhile (\<lambda>c. c \<noteq> CHR ''/'') (rev path)) in
      if CHR ''/'' \<notin> set path then (''/'', path)
      else if length name + 1 = length path then (''/'', name)
      else (take (length path - length name - 1) path, name))"

definition join_path :: "string \<Rightarrow> string \<Rightarrow> string" where
  "join_path dir name = (if dir = ''/'' then ''/'' @ name else dir @ ''/'' @ name)"

definition is_leaf :: "entry \<Rightarrow> bool" where
  "is_leaf e \<longleftrightarrow> e_kind e = Blob \<or> e_kind e = Symlink"

type_synonym dir_map = "(string, (string \<times> entry) list) omap"

definition dir_children :: "dir_map \<Rightarrow> string \<Rightarrow> (string \<times> entry) list" where
  "dir_children dirs d = (case map_of dirs d of None \<Rightarrow> [] | Some cs \<Rightarrow> cs)"

text \<open>The first pass: children by directory, and the hashes of the leaves.\<close>

definition scan_entry :: "string \<times> entry \<Rightarrow> dir_map \<times> hash list \<Rightarrow> dir_map \<times> hash list" where
  "scan_entry p st =
     (let (path, e) = p; (dirs, leaves) = st; (parent, name) = split_path path in
      if is_leaf e \<and> e_hash e = ZERO_HASH then st
      else if name = [] then st
      else (om_put parent (dir_children dirs parent @ [(name, e)]) dirs,
            if is_leaf e \<and> e_hash e \<noteq> ZERO_HASH then leaves @ [e_hash e] else leaves))"

text \<open>The second pass: directories without children.\<close>

definition add_empty_dir :: "string \<times> entry \<Rightarrow> dir_map \<times> string list \<Rightarrow> dir_map \<times> string list" where
  "add_empty_dir p st =
     (if e_kind (snd p) = Tree \<and> \<not> om_has (fst p) (fst st)
      then (om_put (fst p) [] (fst st), snd st @ [fst p]) else st)"

definition link_children ::
  "(string, hash) omap \<Rightarrow> string \<Rightarrow> (string \<times> entry) list \<Rightarrow> (string \<times> entry) list" where
  "link_children dir_hashes dir cs =
     map (\<lambda>(name, e).
       if e_kind e = Tree then
         (case map_of dir_hashes (join_path dir name) of
            Some h \<Rightarrow> (name, e\<lparr>e_hash := h\<rparr>) | None \<Rightarrow> (name, e))
       else (name, e)) cs"

definition with_store_error :: "string \<Rightarrow> store \<Rightarrow> string" where
  "with_store_error msg s = (if last_error s = [] then msg else msg @ '': '' @ last_error s)"

fun write_dirs ::
  "(bytes \<Rightarrow> hash) \<Rightarrow> dir_map \<Rightarrow> string list \<Rightarrow> (string, hash) omap \<Rightarrow> hash list \<Rightarrow> store \<Rightarrow>
   ((string + (string, hash) omap) \<times> hash list) \<times> store" where
  "write_dirs H dirs [] dir_hashes written s = ((Inr dir_hashes, written), s)"
| "write_dirs H dirs (d # ds) dir_hashes written s =
     (let cs = link_children dir_hashes d (dir_children dirs d) in
      case write_tree H (serialize_tree_entries cs) s of (h, s) \<Rightarrow>
        if h = ZERO_HASH
        then ((Inl (with_store_error (''failed to write tree object for '' @ d @ '' ('' @
                 nat_digits (length cs) @ '' entries)'') s), written), s)
        else write_dirs H dirs ds (om_put d h dir_hashes) (written @ [h]) s)"

definition scan_dirs :: "working_tree \<Rightarrow> dir_map \<times> hash list \<times> string list" where
  "scan_dirs wt =
     (let (dirs, leaves) = fold scan_entry (merged_list wt) ([], []);
          (dirs, paths) = fold add_empty_dir (live_list wt) (dirs, map fst dirs)
      in (dirs, leaves, sort_key (\<lambda>d. - int (length d)) paths))"

text \<open>
  The result is the root hash or, for \<open>ZERO_HASH\<close>, the error; then the written hashes and
  the hashes of the leaves, which the caller gets in every case.
\<close>

definition serialize_working_tree ::
  "(bytes \<Rightarrow> hash) \<Rightarrow> working_tree \<Rightarrow> store \<Rightarrow> ((string + hash) \<times> hash list \<times> hash list) \<times> store" where
  "serialize_working_tree H wt s =
     (let (dirs, leaves, paths) = scan_dirs wt in
      case write_dirs H dirs paths [] [] s of
        ((Inl e, written), s) \<Rightarrow> ((Inl e, written, leaves), s)
      | ((Inr dir_hashes, written), s) \<Rightarrow>
          (case map_of dir_hashes ''/'' of
             Some h \<Rightarrow> ((Inr h, written, leaves), s)
           | None \<Rightarrow>
               (case write_tree H (serialize_tree_entries []) s of (h, s) \<Rightarrow>
                  if h = ZERO_HASH
                  then ((Inl (with_store_error ''failed to write empty root tree object'' s), written, leaves), s)
                  else ((Inr h, written @ [h], leaves), s))))"

section \<open>Rebuilding\<close>

text \<open>\<open>fs::symlink_status\<close> of the object's path decides what a failed read is called.\<close>

definition tree_read_error :: "hash \<Rightarrow> string io" where
  "tree_read_error h s =
     (case next_io s of
        (Some f, s) \<Rightarrow>
          (if f_errno f = ENOENT then (''tree object missing: '' @ hash_to_hex h, s)
           else (''failed to inspect tree object: '' @ hash_to_hex h @ '': '' @ f_msg f, s))
      | (None, s) \<Rightarrow>
          (if find_object s h = None then (''tree object missing: '' @ hash_to_hex h, s)
           else (''tree object unreadable: '' @ hash_to_hex h, s)))"

text \<open>The entries of a directory, and the subdirectories pushed on the stack (last on top).\<close>

definition add_entry :: "string \<Rightarrow> string \<times> entry \<Rightarrow> entry_map \<times> (hash \<times> string) list \<Rightarrow>
    entry_map \<times> (hash \<times> string) list" where
  "add_entry pre p st =
     (let path = join_path pre (fst p) in
      (om_put path (snd p) (fst st),
       if e_kind (snd p) = Tree then (e_hash (snd p), path) # snd st else snd st))"

partial_function (option) rebuild_loop ::
  "(hash \<times> string) list \<Rightarrow> entry_map \<Rightarrow> store \<Rightarrow> ((string + entry_map) \<times> store) option" where
  "rebuild_loop stack scratch s =
     (case stack of
        [] \<Rightarrow> Some (Inr scratch, s)
      | (h, pre) # stack \<Rightarrow>
          (case read_tree h s of
             (None, s) \<Rightarrow> (case tree_read_error h s of (e, s) \<Rightarrow> Some (Inl e, s))
           | (Some body, s) \<Rightarrow>
               (case deserialize_tree_entries body of
                  None \<Rightarrow> Some (Inl (''corrupt tree object: '' @ hash_to_hex h), s)
                | Some entries \<Rightarrow>
                    (case fold (add_entry pre) entries (scratch, stack) of
                       (scratch, stack) \<Rightarrow> rebuild_loop stack scratch s))))"

definition rebuild_working_tree ::
  "hash \<Rightarrow> working_tree \<Rightarrow> store \<Rightarrow> ((string + working_tree) \<times> store) option" where
  "rebuild_working_tree root_tree wt s =
     map_option (\<lambda>(r, s). (map_sum id (\<lambda>m. set_base m wt) r, s))
       (rebuild_loop [(root_tree, ''/'')] [] s)"

section \<open>The codec\<close>

definition kind_ok :: "entry_kind \<Rightarrow> bool" where
  "kind_ok k \<longleftrightarrow> kind_of_byte (byte_of_kind k) = k"

definition entry_ok :: "string \<times> entry \<Rightarrow> bool" where
  "entry_ok p \<longleftrightarrow> length (fst p) < 65536 \<and> kind_ok (e_kind (snd p))"

lemma unat_of_nat_len: "n < 65536 \<Longrightarrow> unat (of_nat n :: u16) = n"
  by (rule unat_of_nat_eq) simp

lemma tree_entry_bytes_ok:
  "entry_ok p \<Longrightarrow> tree_entry_bytes p = enc16 (of_nat (length (fst p))) @ bytes_of (fst p) @
     enc32 (e_mode (snd p)) @ [byte_of_kind (e_kind (snd p))] @ hash_bytes (e_hash (snd p))"
  by (simp add: tree_entry_bytes_def entry_ok_def unat_of_nat_len Let_def)

lemma read_tree_entries_append:
  "list_all entry_ok es \<Longrightarrow> length a = pos \<Longrightarrow>
   read_tree_entries (length es) pos (a @ concat (map tree_entry_bytes es) @ c) = Some es"
proof (induction es arbitrary: a pos)
  case (Cons p es)
  obtain name e where p: "p = (name, e)" by (cases p)
  have ok: "entry_ok p" using Cons.prems by simp
  then have len: "unat (of_nat (length name) :: u16) = length name"
    by (intro unat_of_nat_len) (simp add: entry_ok_def p)
  let ?t = "concat (map tree_entry_bytes es) @ c"
  let ?b = "bytes_of name @ enc32 (e_mode e) @ [byte_of_kind (e_kind e)] @ hash_bytes (e_hash e)"
  have body: "a @ concat (map tree_entry_bytes (p # es)) @ c =
      a @ enc16 (of_nat (length name)) @ ?b @ ?t"
    using tree_entry_bytes_ok [OF ok] by (simp add: p)
  have r1: "rd 2 pos (a @ enc16 (of_nat (length name)) @ ?b @ ?t) = Some (enc16 (of_nat (length name)))"
    using Cons.prems by (simp add: rd_def)
  have lb: "length ?b = length name + 4 + 1 + 32" by simp
  have r2: "rd (length name + 4 + 1 + 32) (pos + 2) (a @ enc16 (of_nat (length name)) @ ?b @ ?t) = Some ?b"
    using rd_append_left [of ?b "length name + 4 + 1 + 32" "a @ enc16 (of_nat (length name))" "pos + 2" ?t]
      Cons.prems(2) lb by simp
  have r3: "read_tree_entries (length es) (pos + 2 + length name + 4 + 1 + 32)
      ((a @ enc16 (of_nat (length name)) @ ?b) @ ?t) = Some es"
    using Cons.prems by (intro Cons.IH) simp_all
  have k: "?b ! (length name + 4) = byte_of_kind (e_kind e)" by (simp add: nth_append)
  have e: "\<lparr>e_kind = kind_of_byte (?b ! (length name + 4)), e_hash = bytes_hash (drop (length name + 5) ?b),
      e_mode = dec32 (take 4 (drop (length name) ?b))\<rparr> = e"
    using ok unfolding k by (simp add: entry_ok_def kind_ok_def p)
  have n: "string_of (take (length name) ?b) = name" by simp
  show ?case
    unfolding body using r1 r2 r3 e n len
    by (simp add: p Let_def del: take_append drop_append string_of_append)
qed simp

lemma tree_codec:
  assumes "list_all entry_ok cs" "length cs < 2 ^ 32"
  shows "deserialize_tree_entries (serialize_tree_entries cs) = Some (sort_key fst cs)"
proof -
  have n: "unat (of_nat (length cs) :: u32) = length cs"
    using assms(2) by (intro unat_of_nat_eq) simp
  have "list_all entry_ok (sort_key fst cs)" using assms(1) by (simp add: list_all_iff)
  from read_tree_entries_append [OF this, of "enc32 (of_nat (length cs))" 4 "[]"] n
  show ?thesis
    by (simp add: deserialize_tree_entries_def serialize_tree_entries_def rd_def Let_def)
qed

section \<open>Paths\<close>

definition name_ok :: "string \<Rightarrow> bool" where
  "name_ok n \<longleftrightarrow> n \<noteq> [] \<and> CHR ''/'' \<notin> set n"

definition dir_ok :: "string \<Rightarrow> bool" where
  "dir_ok d \<longleftrightarrow> d \<noteq> [] \<and> (d \<noteq> ''/'' \<longrightarrow> last d \<noteq> CHR ''/'')"

lemma takeWhile_name: "CHR ''/'' \<notin> set n \<Longrightarrow>
    rev (takeWhile (\<lambda>c. c \<noteq> CHR ''/'') (rev (d @ CHR ''/'' # n))) = n"
  by (simp add: takeWhile_append)

lemma split_join: "dir_ok d \<Longrightarrow> name_ok n \<Longrightarrow> split_path (join_path d n) = (d, n)"
proof -
  assume d: "dir_ok d" and n: "name_ok n"
  then have t: "rev (takeWhile (\<lambda>c. c \<noteq> CHR ''/'') (rev (x @ CHR ''/'' # n))) = n" for x
    by (intro takeWhile_name) (simp add: name_ok_def)
  show ?thesis
  proof (cases "d = ''/''")
    case True
    then show ?thesis using t [of "[]"] by (simp add: split_path_def join_path_def Let_def)
  next
    case False
    then show ?thesis using t [of d] d by (simp add: split_path_def join_path_def Let_def dir_ok_def)
  qed
qed

lemma join_inject:
  "dir_ok d \<Longrightarrow> name_ok n \<Longrightarrow> dir_ok d' \<Longrightarrow> name_ok n' \<Longrightarrow>
   join_path d n = join_path d' n' \<longleftrightarrow> d = d' \<and> n = n'"
  by (metis split_join prod.inject)

lemma length_join: "name_ok n \<Longrightarrow> length d < length (join_path d n)"
  by (cases n) (auto simp: join_path_def name_ok_def)

lemma dir_ok_join: "name_ok n \<Longrightarrow> dir_ok (join_path d n)"
  by (auto simp: dir_ok_def join_path_def name_ok_def)
     (metis append_is_Nil_conv last_appendR last_in_set)+

section \<open>The scan\<close>

definition kept :: "string \<times> entry \<Rightarrow> bool" where
  "kept p \<longleftrightarrow> \<not> (is_leaf (snd p) \<and> e_hash (snd p) = ZERO_HASH) \<and> snd (split_path (fst p)) \<noteq> []"

definition children_in :: "entry_map \<Rightarrow> string \<Rightarrow> (string \<times> entry) list" where
  "children_in m d = map (\<lambda>p. (snd (split_path (fst p)), snd p))
     (filter (\<lambda>p. kept p \<and> fst (split_path (fst p)) = d) m)"

lemma dir_children_put [simp]:
  "dir_children (om_put d cs dirs) d' = (if d' = d then cs else dir_children dirs d')"
  by (simp add: dir_children_def om_simps)

lemma scan_entry_kept: "scan_entry p st = (if kept p then
    (om_put (fst (split_path (fst p))) (dir_children (fst st) (fst (split_path (fst p))) @
       [(snd (split_path (fst p)), snd p)]) (fst st),
     snd st @ (if is_leaf (snd p) then [e_hash (snd p)] else [])) else st)"
  by (auto simp: scan_entry_def kept_def Let_def split: prod.splits)

lemma scan_fold:
  "fold scan_entry m st = (dirs, leaves) \<Longrightarrow>
     (\<forall>d. dir_children dirs d = dir_children (fst st) d @ children_in m d) \<and>
     (\<forall>d. om_has d dirs \<longleftrightarrow> om_has d (fst st) \<or> children_in m d \<noteq> []) \<and>
     (om_wf (fst st) \<longrightarrow> om_wf dirs) \<and>
     leaves = snd st @ map (\<lambda>p. e_hash (snd p)) (filter (\<lambda>p. kept p \<and> is_leaf (snd p)) m)"
proof (induction m arbitrary: st)
  case (Cons p m)
  have ih: "(\<forall>d. dir_children dirs d = dir_children (fst (scan_entry p st)) d @ children_in m d) \<and>
     (\<forall>d. om_has d dirs \<longleftrightarrow> om_has d (fst (scan_entry p st)) \<or> children_in m d \<noteq> []) \<and>
     (om_wf (fst (scan_entry p st)) \<longrightarrow> om_wf dirs) \<and>
     leaves = snd (scan_entry p st) @ map (\<lambda>p. e_hash (snd p)) (filter (\<lambda>p. kept p \<and> is_leaf (snd p)) m)"
    using Cons by simp
  show ?case
  proof (cases "kept p")
    case True
    from ih True show ?thesis
      by (auto simp: scan_entry_kept children_in_def om_simps intro: om_intros)
  next
    case False
    with ih show ?thesis by (simp add: scan_entry_kept children_in_def)
  qed
qed (simp add: children_in_def)

lemma add_empty_fold:
  "fold add_empty_dir m (dirs, paths) = (dirs', paths') \<Longrightarrow> distinct paths \<Longrightarrow>
   (\<forall>d. d \<in> set paths \<longleftrightarrow> om_has d dirs) \<Longrightarrow>
     distinct paths' \<and> (\<forall>d. d \<in> set paths' \<longleftrightarrow> om_has d dirs') \<and>
     (\<forall>d. om_has d dirs' \<longleftrightarrow> om_has d dirs \<or> (\<exists>e. (d, e) \<in> set m \<and> e_kind e = Tree)) \<and>
     (\<forall>d. dir_children dirs' d = dir_children dirs d)"
proof (induction m arbitrary: dirs paths)
  case (Cons p m)
  obtain d1 p1 where s: "add_empty_dir p (dirs, paths) = (d1, p1)" by fastforce
  have cs: "dir_children dirs (fst p) = []" if "\<not> om_has (fst p) dirs"
    using that by (simp add: dir_children_def om_not_has)
  have 1: "distinct p1 \<and> (\<forall>d. d \<in> set p1 \<longleftrightarrow> om_has d d1) \<and>
      (\<forall>d. om_has d d1 \<longleftrightarrow> om_has d dirs \<or> (d = fst p \<and> e_kind (snd p) = Tree)) \<and>
      (\<forall>d. dir_children d1 d = dir_children dirs d)"
  proof (cases "e_kind (snd p) = Tree \<and> \<not> om_has (fst p) dirs")
    case True
    then have e: "d1 = om_put (fst p) [] dirs" "p1 = paths @ [fst p]"
      using s by (simp_all add: add_empty_dir_def)
    show ?thesis unfolding e keys_om_put using True Cons.prems(2,3) cs by auto
  next
    case False
    then have "add_empty_dir p (dirs, paths) = (dirs, paths)"
      unfolding add_empty_dir_def fst_conv by (rule if_not_P)
    then have "d1 = dirs" "p1 = paths" using s by simp_all
    with False Cons.prems(2,3) show ?thesis by blast
  qed
  have "fold add_empty_dir m (d1, p1) = (dirs', paths')" using Cons.prems(1) s by simp
  note 2 = Cons.IH [OF this 1 [THEN conjunct1] 1 [THEN conjunct2, THEN conjunct1]]
  have "om_has d dirs' \<longleftrightarrow> om_has d dirs \<or> (\<exists>e. (d, e) \<in> set (p # m) \<and> e_kind e = Tree)" for d
    using 1 [THEN conjunct2, THEN conjunct2, THEN conjunct1, rule_format, of d]
      2 [THEN conjunct2, THEN conjunct2, THEN conjunct1, rule_format, of d]
    by (cases p) auto
  with 1 2 show ?case by presburger
qed simp

lemma scan_dirs_spec:
  assumes wf: "wt_wf wt" and s: "scan_dirs wt = (dirs, leaves, paths)"
  shows "distinct paths" "sorted_wrt (\<lambda>a b. length b \<le> length a) paths"
    "\<forall>d. dir_children dirs d = children_in (merged_list wt) d"
    "\<forall>d. d \<in> set paths \<longleftrightarrow> children_in (merged_list wt) d \<noteq> [] \<or> (\<exists>e. lookup d wt = Some e \<and> e_kind e = Tree)"
    "leaves = map (\<lambda>p. e_hash (snd p)) (filter (\<lambda>p. kept p \<and> is_leaf (snd p)) (merged_list wt))"
proof -
  obtain d1 l1 where f1: "fold scan_entry (merged_list wt) ([], []) = (d1, l1)" by fastforce
  obtain d2 p2 where f2: "fold add_empty_dir (live_list wt) (d1, map fst d1) = (d2, p2)" by fastforce
  have eq: "dirs = d2" "leaves = l1" "paths = sort_key (\<lambda>d. - int (length d)) p2"
    using s f1 f2 by (simp_all add: scan_dirs_def)
  note sc = scan_fold [OF f1]
  have wd: "om_wf d1" using sc by simp
  note ae = add_empty_fold [OF f2 om_wf_distinct [OF wd]]
  show "distinct paths" using ae eq by simp
  have "sorted (map (\<lambda>d. - int (length d)) paths)" by (simp add: eq)
  then show "sorted_wrt (\<lambda>a b. length b \<le> length a) paths" by (simp add: sorted_map)
  show "\<forall>d. dir_children dirs d = children_in (merged_list wt) d"
    using ae sc eq by (simp add: dir_children_def)
  show "\<forall>d. d \<in> set paths \<longleftrightarrow> children_in (merged_list wt) d \<noteq> [] \<or> (\<exists>e. lookup d wt = Some e \<and> e_kind e = Tree)"
    using ae sc eq by (simp add: live_list_mem [OF wf])
  show "leaves = map (\<lambda>p. e_hash (snd p)) (filter (\<lambda>p. kept p \<and> is_leaf (snd p)) (merged_list wt))"
    using sc eq by simp
qed

section \<open>Writing the directories\<close>

definition tree_hash :: "(bytes \<Rightarrow> hash) \<Rightarrow> bytes \<Rightarrow> hash" where
  "tree_hash H = object_hash H ''tree''"

text \<open>The bodies that a run without failures writes, in order.\<close>

fun plan_bodies ::
  "(bytes \<Rightarrow> hash) \<Rightarrow> dir_map \<Rightarrow> string list \<Rightarrow> (string, hash) omap \<Rightarrow> bytes list" where
  "plan_bodies H dirs [] dh = []"
| "plan_bodies H dirs (d # ds) dh =
     (let b = serialize_tree_entries (link_children dh d (dir_children dirs d)) in
      b # plan_bodies H dirs ds (om_put d (tree_hash H b) dh))"

text \<open>The bodies collide neither with each other nor with what the store has.\<close>

definition trees_apart :: "(bytes \<Rightarrow> hash) \<Rightarrow> store \<Rightarrow> bytes set \<Rightarrow> bool" where
  "trees_apart H s B \<longleftrightarrow> inj_on (tree_hash H) B \<and> (\<forall>b \<in> B. no_collision H ''tree'' b s)"

lemma trees_apart_write:
  assumes "trees_apart H s B" "b \<in> B" "write_tree H b s = (h, s')"
  shows "trees_apart H s' B"
proof -
  have p: "put_effect (tree_hash H b) (bytes_of ''tree'' @ b) h s s'"
    using assms(3) write_object_effect unfolding write_tree_def tree_hash_def by blast
  have "no_collision H ''tree'' c s'" if c: "c \<in> B" for c
  proof (cases "tree_hash H c = tree_hash H b")
    case True
    then have "c = b" using assms(1,2) c by (auto simp: trees_apart_def inj_on_def)
    moreover have "no_collision H ''tree'' b s" using assms(1,2) by (simp add: trees_apart_def)
    ultimately show ?thesis
      using p unfolding put_effect_def no_collision_def tree_hash_def
      by (cases "find_object s (object_hash H ''tree'' b)") (auto split: option.split)
  next
    case False
    have "no_collision H ''tree'' c s" using assms(1) c by (simp add: trees_apart_def)
    with False p show ?thesis
      by (simp add: put_effect_def no_collision_def tree_hash_def)
  qed
  with assms(1) show ?thesis by (simp add: trees_apart_def)
qed

lemma link_children_cong:
  "(\<And>n e. (n, e) \<in> set cs \<Longrightarrow> e_kind e = Tree \<Longrightarrow> map_of dh (join_path d n) = map_of dh' (join_path d n)) \<Longrightarrow>
   link_children dh d cs = link_children dh' d cs"
  by (auto simp: link_children_def intro!: map_cong)

text \<open>
  Longer paths come first, so when a directory is written the hashes of its subdirectories
  are final, and its body is the one of the finished table.
\<close>

lemma write_dirs_spec:
  assumes "write_dirs H dirs ds dh wr s = ((Inr dh', wr'), s')"
    and "distinct ds" "sorted_wrt (\<lambda>a b. length b \<le> length a) ds"
    and "\<And>d n e. (n, e) \<in> set (dir_children dirs d) \<Longrightarrow> length d < length (join_path d n)"
    and "trees_apart H s B" "set (plan_bodies H dirs ds dh) \<subseteq> B"
  shows "store_le s s' \<and> (\<forall>d. d \<notin> set ds \<longrightarrow> map_of dh' d = map_of dh d) \<and>
    (\<forall>d \<in> set ds. let b = serialize_tree_entries (link_children dh' d (dir_children dirs d)) in
        map_of dh' d = Some (tree_hash H b) \<and> tree_hash H b \<noteq> ZERO_HASH \<and>
        tree_hash H b \<in> set wr' \<and> payload ''tree'' s' (tree_hash H b) = Some b) \<and>
    wr' = wr @ map (\<lambda>d. the (map_of dh' d)) ds \<and> trees_apart H s' B"
  using assms
proof (induction ds arbitrary: dh wr s)
  case (Cons d ds)
  let ?b = "serialize_tree_entries (link_children dh d (dir_children dirs d))"
  obtain h t where w: "write_tree H ?b s = (h, t)" by fastforce
  have h0: "h \<noteq> ZERO_HASH" and rest: "write_dirs H dirs ds (om_put d h dh) (wr @ [h]) t = ((Inr dh', wr'), s')"
    using Cons.prems(1) w by (auto simp: Let_def split: if_splits)
  have bB: "?b \<in> B" using Cons.prems(6) by (simp add: Let_def)
  have hb: "h = tree_hash H ?b" "payload ''tree'' t h = Some ?b"
    using write_object_payload [OF w [unfolded write_tree_def] h0] Cons.prems(5) bB
    by (auto simp: tree_hash_def trees_apart_def)
  have le: "store_le s t" using w by (auto simp: write_tree_def dest: write_object_le)
  have ih: "store_le t s' \<and> (\<forall>d'. d' \<notin> set ds \<longrightarrow> map_of dh' d' = map_of (om_put d h dh) d') \<and>
    (\<forall>d \<in> set ds. let b = serialize_tree_entries (link_children dh' d (dir_children dirs d)) in
        map_of dh' d = Some (tree_hash H b) \<and> tree_hash H b \<noteq> ZERO_HASH \<and>
        tree_hash H b \<in> set wr' \<and> payload ''tree'' s' (tree_hash H b) = Some b) \<and>
    wr' = (wr @ [h]) @ map (\<lambda>d. the (map_of dh' d)) ds \<and> trees_apart H s' B"
  proof (rule Cons.IH [OF rest])
    show "trees_apart H t B" by (rule trees_apart_write [OF Cons.prems(5) bB w])
    show "set (plan_bodies H dirs ds (om_put d h dh)) \<subseteq> B"
      using Cons.prems(6) hb(1) by (simp add: Let_def)
  qed (use Cons.prems in auto)
  have dh: "map_of dh' d = Some h" using ih Cons.prems(2) by (simp add: om_simps)
  have "map_of dh (join_path d n) = map_of dh' (join_path d n)" if "(n, e) \<in> set (dir_children dirs d)" for n e
  proof -
    have "length d < length (join_path d n)" using Cons.prems(4) that by blast
    then have "join_path d n \<noteq> d" "join_path d n \<notin> set ds" using Cons.prems(3) by auto
    with ih show ?thesis by (simp add: om_simps)
  qed
  then have lk: "link_children dh' d (dir_children dirs d) = link_children dh d (dir_children dirs d)"
    by (intro link_children_cong) simp
  have pl: "payload ''tree'' s' h = Some ?b" using payload_mono hb(2) ih by blast
  have "store_le s s'" using le ih store_le_trans by blast
  moreover have "map_of dh' k = map_of dh k" if "k \<notin> set (d # ds)" for k
    using ih that by (simp add: om_simps)
  moreover have "h \<in> set wr'" using ih by simp
  ultimately show ?case
    using ih dh lk pl hb(1) h0 by (auto simp: Let_def)
qed simp

section \<open>Rebuilding what was written\<close>

text \<open>\<open>d\<close> with its separator, and the paths below \<open>d\<close>.\<close>

definition dir_pre :: "string \<Rightarrow> string" where
  "dir_pre d = (if d = ''/'' then ''/'' else d @ ''/'')"

definition below :: "string \<Rightarrow> string set" where
  "below d = {p. \<exists>r. r \<noteq> [] \<and> p = dir_pre d @ r}"

lemma join_pre: "join_path d n = dir_pre d @ n"
  by (simp add: join_path_def dir_pre_def)

lemma dir_pre_inject: "dir_ok d \<Longrightarrow> dir_ok d' \<Longrightarrow> dir_pre d = dir_pre d' \<longleftrightarrow> d = d'"
  by (auto simp: dir_pre_def dir_ok_def split: if_splits)

lemma join_below: "name_ok n \<Longrightarrow> join_path d n \<in> below d"
  by (auto simp: below_def join_pre name_ok_def)

lemma below_join:
  assumes "dir_ok d" "dir_ok d1" "name_ok n" "join_path d1 n \<in> below d" "d1 \<noteq> d"
  shows "d1 \<in> below d"
proof -
  obtain r where r: "r \<noteq> []" "dir_pre d1 @ n = dir_pre d @ r"
    using assms(4) by (auto simp: below_def join_pre)
  then obtain us where us: "dir_pre d1 = dir_pre d @ us \<and> us @ n = r \<or> dir_pre d1 @ us = dir_pre d \<and> n = us @ r"
    by (auto simp: append_eq_append_conv2)
  have le: "last (dir_pre d) = CHR ''/''" "dir_pre d \<noteq> []" by (simp_all add: dir_pre_def)
  have ne: "dir_pre d1 \<noteq> dir_pre d" using assms by (simp add: dir_pre_inject)
  have "\<not> (dir_pre d1 @ us = dir_pre d \<and> n = us @ r)"
  proof
    assume a: "dir_pre d1 @ us = dir_pre d \<and> n = us @ r"
    with ne have "us \<noteq> []" by auto
    then have "last us = CHR ''/''" using a le by (metis last_appendR)
    with \<open>us \<noteq> []\<close> a have "CHR ''/'' \<in> set n" by (metis Un_iff last_in_set set_append)
    with assms(3) show False by (simp add: name_ok_def)
  qed
  with us have u: "dir_pre d1 = dir_pre d @ us" by blast
  with ne have une: "us \<noteq> []" by auto
  have d1: "d1 \<noteq> ''/''"
  proof
    assume "d1 = ''/''"
    then have "length (dir_pre d1) = 1" by (simp add: dir_pre_def)
    then have "length (dir_pre d) + length us = 1" unfolding u by simp
    with une le(2) show False by (cases us; cases "dir_pre d") simp_all
  qed
  then have "d1 @ ''/'' = dir_pre d @ butlast us @ [last us]" using u une by (simp add: dir_pre_def)
  then have e: "d1 = dir_pre d @ butlast us" by (metis append.assoc append1_eq_conv)
  have "butlast us \<noteq> []"
  proof
    assume "butlast us = []"
    then have "last d1 = CHR ''/''" using e le by simp
    with assms(2) d1 show False by (simp add: dir_ok_def)
  qed
  with e show ?thesis by (auto simp: below_def)
qed

lemma below_length: "p \<in> below d \<Longrightarrow> 2 \<le> length p"
proof -
  assume "p \<in> below d"
  then obtain r where r: "r \<noteq> []" "p = dir_pre d @ r" by (auto simp: below_def)
  have "1 \<le> length (dir_pre d)" by (simp add: dir_pre_def)
  moreover have "1 \<le> length r" using r(1) by (cases r) simp_all
  ultimately show ?thesis by (simp add: r(2))
qed

lemma below_not_root: "p \<in> below d \<Longrightarrow> p \<noteq> ''/''"
  using below_length by fastforce

lemma below_trans_join: "d1 \<in> below c \<Longrightarrow> name_ok n \<Longrightarrow> join_path d1 n \<in> below c"
proof -
  assume d1: "d1 \<in> below c" and n: "name_ok n"
  then obtain r where r: "d1 = dir_pre c @ r" by (auto simp: below_def)
  have "join_path d1 n = d1 @ ''/'' @ n" using below_not_root [OF d1] by (simp add: join_path_def)
  then have "join_path d1 n = dir_pre c @ (r @ ''/'' @ n)" by (simp add: r)
  then show ?thesis unfolding below_def by blast
qed

lemma below_child: "name_ok n \<Longrightarrow> p \<in> below (join_path d n) \<Longrightarrow> p \<in> below d"
proof -
  assume n: "name_ok n" and p: "p \<in> below (join_path d n)"
  have "join_path d n \<noteq> ''/''" using below_not_root [OF join_below [OF n]] .
  with p obtain r where "p = join_path d n @ ''/'' @ r" by (auto simp: below_def dir_pre_def)
  then have "p = dir_pre d @ (n @ ''/'' @ r)" by (simp add: join_pre)
  then show "p \<in> below d" by (auto simp: below_def)
qed

text \<open>
  The trees that survive a round trip: every path is its parent and a proper name, its parent
  is the root or a live directory, and files carry their content's hash.
\<close>

definition path_ok :: "working_tree \<Rightarrow> string \<times> entry \<Rightarrow> bool" where
  "path_ok wt p =
     (let (d, n) = split_path (fst p) in
      join_path d n = fst p \<and> dir_ok d \<and> name_ok n \<and> length n < 65536 \<and>
      kind_ok (e_kind (snd p)) \<and> (is_leaf (snd p) \<longrightarrow> e_hash (snd p) \<noteq> ZERO_HASH) \<and>
      (d = ''/'' \<or> (case lookup d wt of None \<Rightarrow> False | Some e \<Rightarrow> e_kind e = Tree)))"

definition tree_ok :: "working_tree \<Rightarrow> bool" where
  "tree_ok wt \<longleftrightarrow> wt_wf wt \<and> list_all (path_ok wt) (merged_list wt) \<and> length (merged_list wt) < 2 ^ 32"

lemma path_okE:
  assumes "tree_ok wt" "(p, e) \<in> set (merged_list wt)"
  obtains d n where "p = join_path d n" "split_path p = (d, n)" "dir_ok d" "name_ok n" "length n < 65536"
    "kind_ok (e_kind e)" "is_leaf e \<longrightarrow> e_hash e \<noteq> ZERO_HASH"
    "d = ''/'' \<or> (\<exists>e'. lookup d wt = Some e' \<and> e_kind e' = Tree)"
proof -
  have "path_ok wt (p, e)" using assms by (auto simp: tree_ok_def list_all_iff)
  with that show thesis
    by (auto simp: path_ok_def split: prod.splits option.splits)
qed

lemma tree_ok_raw: "tree_ok wt \<Longrightarrow> (p, e) \<in> set (merged_list wt) \<longleftrightarrow> wt_raw wt p = Some e"
  by (simp add: tree_ok_def merged_list_get [symmetric] om_get_iff merged_list_wf)

lemma lookup_merged: "tree_ok wt \<Longrightarrow> lookup d wt = Some e \<Longrightarrow> (d, e) \<in> set (merged_list wt)"
  by (auto simp: tree_ok_raw lookup_view live_def split: option.splits if_splits)

lemma children_in_mem:
  assumes ok: "tree_ok wt"
  shows "(n, e) \<in> set (children_in (merged_list wt) d) \<longleftrightarrow>
    dir_ok d \<and> name_ok n \<and> wt_raw wt (join_path d n) = Some e"
proof
  assume "(n, e) \<in> set (children_in (merged_list wt) d)"
  then obtain p where p: "(p, e) \<in> set (merged_list wt)" "split_path p = (d, n)"
    by (auto simp: children_in_def)
  show "dir_ok d \<and> name_ok n \<and> wt_raw wt (join_path d n) = Some e"
    by (rule path_okE [OF ok p(1)]) (use p in \<open>auto simp: tree_ok_raw [OF ok]\<close>)
next
  assume a: "dir_ok d \<and> name_ok n \<and> wt_raw wt (join_path d n) = Some e"
  then have m: "(join_path d n, e) \<in> set (merged_list wt)" by (simp add: tree_ok_raw [OF ok])
  have sp: "split_path (join_path d n) = (d, n)" using a split_join by blast
  have "is_leaf e \<longrightarrow> e_hash e \<noteq> ZERO_HASH" by (rule path_okE [OF ok m])
  then have "kept (join_path d n, e)" using sp a by (simp add: kept_def name_ok_def)
  with m sp have "(join_path d n, e) \<in> set (filter (\<lambda>p. kept p \<and> fst (split_path (fst p)) = d) (merged_list wt))"
    by simp
  then have "(\<lambda>p. (snd (split_path (fst p)), snd p)) (join_path d n, e) \<in> set (children_in (merged_list wt) d)"
    unfolding children_in_def set_map by (rule imageI)
  then show "(n, e) \<in> set (children_in (merged_list wt) d)" by (simp add: sp)
qed

lemma live_tree_raw:
  "e_kind e = Tree \<Longrightarrow> lookup d wt = Some e \<longleftrightarrow> wt_raw wt d = Some e"
  by (auto simp: lookup_view live_def split: option.splits)

text \<open>Below a directory there are its children and what is below its subdirectories.\<close>

lemma below_step:
  assumes ok: "tree_ok wt" and d: "dir_ok d"
  shows "wt_raw wt p \<noteq> None \<Longrightarrow> p \<in> below d \<Longrightarrow>
    (\<exists>n. name_ok n \<and> p = join_path d n) \<or>
    (\<exists>n e. name_ok n \<and> wt_raw wt (join_path d n) = Some e \<and> e_kind e = Tree \<and> p \<in> below (join_path d n))"
proof (induction "length p" arbitrary: p rule: less_induct)
  case less
  then obtain e where "(p, e) \<in> set (merged_list wt)" using tree_ok_raw [OF ok] by blast
  then obtain d1 n1 where p: "p = join_path d1 n1" "dir_ok d1" "name_ok n1"
    "d1 = ''/'' \<or> (\<exists>e'. lookup d1 wt = Some e' \<and> e_kind e' = Tree)"
    by (rule path_okE [OF ok])
  show ?case
  proof (cases "d1 = d")
    case True
    with p show ?thesis by blast
  next
    case False
    have b: "d1 \<in> below d" using below_join [OF d p(2,3) _ False] less.prems(2) p(1) by simp
    with below_not_root p(4) obtain e' where e': "wt_raw wt d1 = Some e'" "e_kind e' = Tree"
      using live_tree_raw by metis
    have "length d1 < length p" using length_join [OF p(3)] p(1) by simp
    from less.hyps [OF this _ b] e' consider n where "name_ok n" "d1 = join_path d n"
      | n e where "name_ok n" "wt_raw wt (join_path d n) = Some e" "e_kind e = Tree" "d1 \<in> below (join_path d n)"
      by auto
    then show ?thesis
    proof cases
      case 1
      then show ?thesis using e' join_below [OF p(3), of d1] p(1) by metis
    next
      case 2
      then show ?thesis using below_trans_join [OF 2(4) p(3)] p(1) by metis
    qed
  qed
qed

text \<open>The entry a path has after the round trip: directories carry their new hash.\<close>

definition relinked :: "(string, hash) omap \<Rightarrow> string \<Rightarrow> entry \<Rightarrow> entry" where
  "relinked dh p e = (if e_kind e = Tree then
     (case map_of dh p of Some h \<Rightarrow> e\<lparr>e_hash := h\<rparr> | None \<Rightarrow> e) else e)"

definition relinked_map :: "(string, hash) omap \<Rightarrow> working_tree \<Rightarrow> string \<Rightarrow> entry option" where
  "relinked_map dh wt p = map_option (relinked dh p) (wt_raw wt p)"

lemma relinked_kind [simp]: "e_kind (relinked dh p e) = e_kind e" "e_mode (relinked dh p e) = e_mode e"
  by (simp_all add: relinked_def split: option.split)

lemma link_children_relinked:
  "link_children dh d cs = map (\<lambda>(n, e). (n, relinked dh (join_path d n) e)) cs"
  by (auto simp: link_children_def relinked_def split: option.split)

definition joined :: "string \<Rightarrow> (string \<times> entry) list \<Rightarrow> entry_map" where
  "joined d es = map (\<lambda>p. (join_path d (fst p), snd p)) es"

lemma add_entry_fold:
  "fold (add_entry d) es (m, st) =
     (om_put_all (joined d es) m,
      rev (map (\<lambda>p. (e_hash (snd p), fst p)) (filter (\<lambda>p. e_kind (snd p) = Tree) (joined d es))) @ st)"
  by (induction es arbitrary: m st) (simp_all add: add_entry_def joined_def om_put_all_def Let_def)

lemma map_of_rev_distinct: "distinct (map fst xs) \<Longrightarrow> map_of (rev xs) = map_of xs"
proof (rule ext)
  fix k assume d: "distinct (map fst xs)"
  show "map_of (rev xs) k = map_of xs k"
  proof (cases "map_of xs k")
    case None
    then show ?thesis by (metis map_of_eq_None_iff set_rev)
  next
    case (Some v)
    then have "(k, v) \<in> set (rev xs)" using map_of_SomeD by fastforce
    moreover have "distinct (map fst (rev xs))" using d unfolding rev_map [symmetric] by simp
    ultimately have "map_of (rev xs) k = Some v" by (metis map_of_eq_Some_iff)
    then show ?thesis using Some by simp
  qed
qed

lemma read_tree_ok: "s_io s = [] \<Longrightarrow> payload ''tree'' s h = Some b \<Longrightarrow> read_tree h s = (Some b, s)"
proof -
  assume io: "s_io s = []" and p: "payload ''tree'' s h = Some b"
  obtain r t where r: "read_tree h s = (r, t)" by fastforce
  note sm = read_object_same [OF r [unfolded read_tree_def]]
  have "r = Some b" "s_io t = []" using sm(4) io p by simp_all
  moreover obtain io' where "t = s\<lparr>s_io := io'\<rparr>" using sm(5) by blast
  ultimately show ?thesis using r io by simp
qed

lemma option_eqI: "(\<And>x. a = Some x \<longleftrightarrow> b = Some x) \<Longrightarrow> a = b"
  by (cases a; cases b) auto

lemma children_in_distinct:
  assumes ok: "tree_ok wt"
  shows "distinct (map fst (children_in (merged_list wt) d))"
proof -
  let ?l = "filter (\<lambda>p. kept p \<and> fst (split_path (fst p)) = d) (merged_list wt)"
  have dm: "distinct (map fst (merged_list wt))"
    using ok om_wf_distinct merged_list_wf by (auto simp: tree_ok_def)
  have "inj_on (\<lambda>p. snd (split_path (fst p))) (set ?l)"
  proof (rule inj_onI)
    fix p q assume p: "p \<in> set ?l" and q: "q \<in> set ?l" and e: "snd (split_path (fst p)) = snd (split_path (fst q))"
    have j: "join_path d (snd (split_path (fst x))) = fst x" if "x \<in> set ?l" for x
    proof -
      obtain y z where x: "x = (y, z)" by (cases x)
      have "(y, z) \<in> set (merged_list wt)" "fst (split_path y) = d" using that by (simp_all add: x)
      then show ?thesis by (auto simp: x elim!: path_okE [OF ok])
    qed
    have "fst p = fst q" using j [OF p] j [OF q] unfolding e by simp
    moreover have "p \<in> set (merged_list wt)" "q \<in> set (merged_list wt)" using p q by simp_all
    ultimately show "p = q" using eq_key_imp_eq_value [OF dm] by (metis prod.collapse)
  qed
  with dm show ?thesis by (simp add: children_in_def comp_def distinct_map)
qed

lemma children_joined:
  assumes ok: "tree_ok wt" and d: "dir_ok d" and es: "es = sort_key fst (link_children dh d (children_in (merged_list wt) d))"
  shows "distinct (map fst (joined d es))"
    "map_of (joined d es) = relinked_map dh wt |` {join_path d n |n. name_ok n}"
    "list_all entry_ok (link_children dh d (children_in (merged_list wt) d))"
    "length (link_children dh d (children_in (merged_list wt) d)) < 2 ^ 32"
proof -
  let ?cs = "children_in (merged_list wt) d"
  let ?lk = "link_children dh d ?cs"
  have "map fst ?lk = map fst ?cs" by (auto simp: link_children_relinked)
  then have "distinct (map fst ?lk)" using children_in_distinct [OF ok] by simp
  then have de: "distinct (map fst es)" by (simp add: es distinct_map)
  have mem: "(n, x) \<in> set es \<longleftrightarrow> name_ok n \<and> (\<exists>e. wt_raw wt (join_path d n) = Some e \<and> x = relinked dh (join_path d n) e)" for n x
    using children_in_mem [OF ok] d by (force simp: es link_children_relinked)
  have names: "name_ok (fst p)" if "p \<in> set es" for p using mem [of "fst p" "snd p"] that by simp
  have inj: "inj_on (\<lambda>p. join_path d (fst p)) (set es)"
  proof (rule inj_onI)
    fix p q assume pq: "p \<in> set es" "q \<in> set es" "join_path d (fst p) = join_path d (fst q)"
    then have "fst p = fst q" using join_inject [OF d _ d] names by simp
    with pq show "p = q" using eq_key_imp_eq_value [OF de] by (metis prod.collapse)
  qed
  have de': "distinct es" using de by (simp add: distinct_map)
  show dj: "distinct (map fst (joined d es))"
    using de' inj by (simp add: joined_def comp_def distinct_map)
  show "map_of (joined d es) = relinked_map dh wt |` {join_path d n |n. name_ok n}"
  proof (rule ext)
    fix q
    have iff: "map_of (joined d es) q = Some x \<longleftrightarrow> (relinked_map dh wt |` {join_path d n |n. name_ok n}) q = Some x" for x
    proof -
      have "map_of (joined d es) q = Some x \<longleftrightarrow> (q, x) \<in> set (joined d es)"
        by (rule map_of_eq_Some_iff [OF dj])
      also have "\<dots> \<longleftrightarrow> (\<exists>n. q = join_path d n \<and> (n, x) \<in> set es)"
      proof
        assume "(q, x) \<in> set (joined d es)"
        then obtain p where "p \<in> set es" "q = join_path d (fst p)" "x = snd p" by (auto simp: joined_def)
        then show "\<exists>n. q = join_path d n \<and> (n, x) \<in> set es" by (intro exI [of _ "fst p"]) simp
      next
        assume "\<exists>n. q = join_path d n \<and> (n, x) \<in> set es"
        then obtain n where n: "q = join_path d n" "(n, x) \<in> set es" by blast
        then have "(\<lambda>p. (join_path d (fst p), snd p)) (n, x) \<in> set (joined d es)"
          unfolding joined_def set_map by (intro imageI)
        with n show "(q, x) \<in> set (joined d es)" by simp
      qed
      also have "\<dots> \<longleftrightarrow> (relinked_map dh wt |` {join_path d n |n. name_ok n}) q = Some x"
        unfolding mem by (auto simp: restrict_map_def relinked_map_def)
      finally show ?thesis .
    qed
    show "map_of (joined d es) q = (relinked_map dh wt |` {join_path d n |n. name_ok n}) q"
      by (rule option_eqI) (rule iff)
  qed
  show "list_all entry_ok ?lk"
    unfolding list_all_iff
  proof
    fix q assume "q \<in> set ?lk"
    then obtain n e where q: "(n, e) \<in> set ?cs" "q = (n, relinked dh (join_path d n) e)"
      by (auto simp: link_children_relinked)
    then have a: "name_ok n" "(join_path d n, e) \<in> set (merged_list wt)"
      using children_in_mem [OF ok] tree_ok_raw [OF ok] by auto
    then have "length n < 65536 \<and> kind_ok (e_kind e)"
      by (metis path_okE [OF ok] join_inject [OF d])
    with q show "entry_ok q" by (simp add: entry_ok_def)
  qed
  have "length ?lk \<le> length (merged_list wt)"
    by (simp add: link_children_relinked children_in_def)
  with ok show "length ?lk < 2 ^ 32" by (simp add: tree_ok_def)
qed

text \<open>
  Popping a directory of the table adds what is below it to the map and goes on with the
  rest of the stack.
\<close>

lemma rebuild_pop:
  assumes ok: "tree_ok wt" and io: "s_io s = []"
    and tab: "\<And>d. dir_ok d \<Longrightarrow> (d = ''/'' \<and> d \<in> fst ` set dh) \<or> (\<exists>e. wt_raw wt d = Some e \<and> e_kind e = Tree) \<Longrightarrow>
        (\<exists>h. map_of dh d = Some h \<and> payload ''tree'' s h =
           Some (serialize_tree_entries (link_children dh d (children_in (merged_list wt) d))))"
  shows "dir_ok d \<Longrightarrow> (d = ''/'' \<and> d \<in> fst ` set dh) \<or> (\<exists>e. wt_raw wt d = Some e \<and> e_kind e = Tree) \<Longrightarrow> om_wf m \<Longrightarrow>
    \<exists>m'. om_wf m' \<and> map_of m' = map_of m ++ relinked_map dh wt |` below d \<and>
      rebuild_loop ((the (map_of dh d), d) # stack) m s = rebuild_loop stack m' s"
proof (induction "Suc (Max (insert 0 (length ` fst ` set (merged_list wt)))) - length d" arbitrary: d m stack rule: less_induct)
  case less
  let ?N = "Suc (Max (insert 0 (length ` fst ` set (merged_list wt))))"
  let ?R = "relinked_map dh wt"
  let ?es = "sort_key fst (link_children dh d (children_in (merged_list wt) d))"
  obtain h where h: "map_of dh d = Some h" "payload ''tree'' s h =
      Some (serialize_tree_entries (link_children dh d (children_in (merged_list wt) d)))"
    using tab [OF less.prems(1,2)] by blast
  note cj = children_joined [OF ok less.prems(1), of ?es dh, OF refl]
  define m1 where "m1 = om_put_all (joined d ?es) m"
  have m1: "om_wf m1" "map_of m1 = map_of m ++ ?R |` {join_path d n |n. name_ok n}"
    using less.prems(3) cj(1,2) by (simp_all add: m1_def om_wf_put_all map_of_om_put_all map_of_rev_distinct)
  define subs where "subs = rev (map fst (filter (\<lambda>p. e_kind (snd p) = Tree) (joined d ?es)))"
  have jm: "(p, x) \<in> set (joined d ?es) \<longleftrightarrow> (\<exists>n. p = join_path d n \<and> name_ok n) \<and> ?R p = Some x" for p x
    unfolding map_of_eq_Some_iff [OF cj(1), symmetric] cj(2) by (auto simp: restrict_map_def)
  have sub: "(\<exists>n. name_ok n \<and> c = join_path d n) \<and> (\<exists>e. wt_raw wt c = Some e \<and> e_kind e = Tree)"
    if "c \<in> set subs" for c
    using that by (auto simp: subs_def jm relinked_map_def)
  have subs_set: "c \<in> set subs" if "name_ok n" "c = join_path d n" "wt_raw wt c = Some e" "e_kind e = Tree" for c n e
  proof -
    have "(c, relinked dh c e) \<in> set (joined d ?es)" using that by (auto simp: jm relinked_map_def)
    then have "(c, relinked dh c e) \<in> set (filter (\<lambda>p. e_kind (snd p) = Tree) (joined d ?es))" using that by simp
    then show ?thesis unfolding subs_def set_rev set_map by (rule image_eqI [rotated]) simp
  qed
  have top: "(e_hash x, p) = (the (map_of dh p), p)" if "(p, x) \<in> set (joined d ?es)" "e_kind x = Tree" for p x
  proof -
    have p: "?R p = Some x" "\<exists>n. p = join_path d n \<and> name_ok n" using that jm by blast+
    then obtain e where e: "wt_raw wt p = Some e" "x = relinked dh p e" by (auto simp: relinked_map_def)
    then have "e_kind e = Tree" using that by simp
    moreover have "dir_ok p" using p dir_ok_join by blast
    ultimately obtain h where "map_of dh p = Some h" using tab e by blast
    with e \<open>e_kind e = Tree\<close> show ?thesis by (simp add: relinked_def)
  qed
  have step: "rebuild_loop ((h, d) # stack) m s =
      rebuild_loop (map (\<lambda>c. (the (map_of dh c), c)) subs @ stack) m1 s"
  proof -
    have "map (\<lambda>p. (e_hash (snd p), fst p)) (filter (\<lambda>p. e_kind (snd p) = Tree) (joined d ?es)) =
          map (\<lambda>p. (the (map_of dh (fst p)), fst p)) (filter (\<lambda>p. e_kind (snd p) = Tree) (joined d ?es))"
      using top by (intro map_cong) auto
    then have st: "fold (add_entry d) ?es (m, stack) = (m1, map (\<lambda>c. (the (map_of dh c), c)) subs @ stack)"
      by (simp add: add_entry_fold m1_def subs_def rev_map comp_def)
    show ?thesis
      by (subst rebuild_loop.simps) (simp add: read_tree_ok [OF io h(2)] tree_codec [OF cj(3,4)] st)
  qed
  have "\<exists>m'. om_wf m' \<and> map_of m' = map_of m0 ++ ?R |` (\<Union>c \<in> set cs. below c) \<and>
      rebuild_loop (map (\<lambda>c. (the (map_of dh c), c)) cs @ stack) m0 s = rebuild_loop stack m' s"
    if "set cs \<subseteq> set subs" "om_wf m0" for cs m0
    using that
  proof (induction cs arbitrary: m0)
    case (Cons c cs)
    have c: "(\<exists>n. name_ok n \<and> c = join_path d n) \<and> (\<exists>e. wt_raw wt c = Some e \<and> e_kind e = Tree)"
      using sub Cons.prems by simp
    then have "length d < length c" "dir_ok c" using length_join dir_ok_join by blast+
    moreover have "length c < ?N"
    proof -
      from c obtain e where "(c, e) \<in> set (merged_list wt)" using tree_ok_raw [OF ok] by blast
      then have "length c \<in> insert 0 (length ` fst ` set (merged_list wt))" by force
      then have "length c \<le> Max (insert 0 (length ` fst ` set (merged_list wt)))" by (intro Max_ge) auto
      then show ?thesis by simp
    qed
    ultimately have "\<exists>m'. om_wf m' \<and> map_of m' = map_of m0 ++ ?R |` below c \<and>
      rebuild_loop ((the (map_of dh c), c) # (map (\<lambda>c. (the (map_of dh c), c)) cs @ stack)) m0 s =
      rebuild_loop (map (\<lambda>c. (the (map_of dh c), c)) cs @ stack) m' s"
      using c Cons.prems(2) by (intro less.hyps) auto
    then obtain m' where m': "om_wf m'" "map_of m' = map_of m0 ++ ?R |` below c"
      "rebuild_loop ((the (map_of dh c), c) # (map (\<lambda>c. (the (map_of dh c), c)) cs @ stack)) m0 s =
      rebuild_loop (map (\<lambda>c. (the (map_of dh c), c)) cs @ stack) m' s" by blast
    obtain m'' where m'': "om_wf m''" "map_of m'' = map_of m' ++ ?R |` (\<Union>c \<in> set cs. below c)"
      "rebuild_loop (map (\<lambda>c. (the (map_of dh c), c)) cs @ stack) m' s = rebuild_loop stack m'' s"
      using Cons.IH [OF _ m'(1)] Cons.prems by auto
    have "map_of m'' = map_of m0 ++ ?R |` (\<Union>c \<in> set (c # cs). below c)"
      by (rule ext) (auto simp: m''(2) m'(2) map_add_def restrict_map_def split: option.split)
    with m'' m'(3) show ?case by (intro exI [of _ m'']) simp
  qed auto
  from this [of subs m1] m1(1) obtain m' where m': "om_wf m'"
    "map_of m' = map_of m1 ++ ?R |` (\<Union>c \<in> set subs. below c)"
    "rebuild_loop (map (\<lambda>c. (the (map_of dh c), c)) subs @ stack) m1 s = rebuild_loop stack m' s" by blast
  have "map_of m' = map_of m ++ ?R |` below d"
  proof (rule ext)
    fix p
    have "p \<in> {join_path d n |n. name_ok n} \<or> p \<in> (\<Union>c \<in> set subs. below c) \<longleftrightarrow> p \<in> below d" if "?R p \<noteq> None"
    proof -
      have "wt_raw wt p \<noteq> None" using that by (simp add: relinked_map_def)
      from below_step [OF ok less.prems(1) this] show ?thesis
        using subs_set sub join_below below_child by blast
    qed
    then show "map_of m' p = (map_of m ++ ?R |` below d) p"
      by (auto simp: m'(2) m1(2) map_add_def restrict_map_def split: option.split)
  qed
  with m' step h(1) show ?case by (intro exI [of _ m']) simp
qed

definition tree_bodies :: "(bytes \<Rightarrow> hash) \<Rightarrow> working_tree \<Rightarrow> bytes list" where
  "tree_bodies H wt = (let (dirs, _, paths) = scan_dirs wt in
     plan_bodies H dirs paths [] @ (if ''/'' \<in> set paths then [] else [serialize_tree_entries []]))"

text \<open>Entries that agree up to the hash of a directory.\<close>

definition same_entry :: "entry \<Rightarrow> entry \<Rightarrow> bool" where
  "same_entry a b \<longleftrightarrow> e_kind b = e_kind a \<and> e_mode b = e_mode a \<and> (e_kind a \<noteq> Tree \<longrightarrow> e_hash b = e_hash a)"

lemma same_entry_relinked: "same_entry e (relinked dh p e)"
  by (simp add: same_entry_def relinked_def split: option.split)

lemma dir_ok_root: "dir_ok ''/''"
  by (simp add: dir_ok_def)

lemma root_has_children:
  assumes ok: "tree_ok wt" and ne: "merged_list wt \<noteq> []"
  shows "children_in (merged_list wt) ''/'' \<noteq> []"
proof -
  have "children_in (merged_list wt) ''/'' \<noteq> []" if "(p, e) \<in> set (merged_list wt)" for p e
    using that
  proof (induction "length p" arbitrary: p e rule: less_induct)
    case less
    from less.prems obtain d n where p: "p = join_path d n" "dir_ok d" "name_ok n"
      "d = ''/'' \<or> (\<exists>e'. lookup d wt = Some e' \<and> e_kind e' = Tree)" by (rule path_okE [OF ok])
    show ?case
    proof (cases "d = ''/''")
      case True
      have "(n, e) \<in> set (children_in (merged_list wt) ''/'')"
        using children_in_mem [OF ok] p less.prems tree_ok_raw [OF ok] True by blast
      then show ?thesis by auto
    next
      case False
      with p obtain e' where "(d, e') \<in> set (merged_list wt)" using lookup_merged [OF ok] by blast
      moreover have "length d < length p" using length_join [OF p(3)] p(1) by simp
      ultimately show ?thesis using less.hyps by blast
    qed
  qed
  moreover obtain p e where "(p, e) \<in> set (merged_list wt)" using ne by (cases "merged_list wt") auto
  ultimately show ?thesis by blast
qed

lemma map_of_below_root:
  assumes ok: "tree_ok wt"
  shows "relinked_map dh wt |` below ''/'' = relinked_map dh wt"
proof (rule ext)
  fix p
  have "p \<in> below ''/''" if "wt_raw wt p = Some e" for e
  proof -
    have "(p, e) \<in> set (merged_list wt)" using tree_ok_raw [OF ok] that by simp
    then obtain d n where d: "p = join_path d n" "dir_ok d" "name_ok n"
      "d = ''/'' \<or> (\<exists>e'. lookup d wt = Some e' \<and> e_kind e' = Tree)" by (rule path_okE [OF ok])
    show ?thesis
    proof (cases "d = ''/''")
      case True
      then show ?thesis using d join_below by blast
    next
      case False
      have "hd q = CHR ''/'' \<and> 2 \<le> length q" if "(q, e) \<in> set (merged_list wt)" for q e
        using that
      proof (induction "length q" arbitrary: q e rule: less_induct)
        case less
        from less.prems obtain d n where q: "q = join_path d n" "dir_ok d" "name_ok n"
          "d = ''/'' \<or> (\<exists>e'. lookup d wt = Some e' \<and> e_kind e' = Tree)" by (rule path_okE [OF ok])
        have l: "length d < length q" using length_join [OF q(3)] q(1) by simp
        show ?case
        proof (cases "d = ''/''")
          case True
          then show ?thesis using q by (cases n) (auto simp: join_path_def name_ok_def)
        next
          case False
          then obtain e' where "(d, e') \<in> set (merged_list wt)" using q lookup_merged [OF ok] by blast
          with less.hyps l have "hd d = CHR ''/'' \<and> 2 \<le> length d" by blast
          with q False l show ?thesis by (cases d) (auto simp: join_path_def)
        qed
      qed
      from this [OF \<open>(p, e) \<in> set (merged_list wt)\<close>] obtain r where "p = CHR ''/'' # r" "r \<noteq> []"
        by (cases p; cases "tl p") auto
      then show ?thesis by (auto simp: below_def dir_pre_def)
    qed
  qed
  then show "(relinked_map dh wt |` below ''/'') p = relinked_map dh wt p"
    by (cases "wt_raw wt p") (auto simp: restrict_map_def relinked_map_def)
qed

lemma serialize_rebuild:
  assumes ok: "tree_ok wt" and apart: "trees_apart H s (set (tree_bodies H wt))"
    and ser: "serialize_working_tree H wt s = ((Inr h, wr, lv), s')"
    and keep: "\<And>k b. k \<in> set wr \<Longrightarrow> payload ''tree'' s' k = Some b \<Longrightarrow> payload ''tree'' t k = Some b"
    and io: "s_io t = []"
  obtains dh m where "rebuild_loop [(h, ''/'')] [] t = Some (Inr m, t)" "om_wf m"
    "map_of m = relinked_map dh wt" "h \<in> set wr"
    "lv = map (\<lambda>p. e_hash (snd p)) (filter (\<lambda>p. kept p \<and> is_leaf (snd p)) (merged_list wt))"
proof -
  have wf: "wt_wf wt" using ok by (simp add: tree_ok_def)
  obtain dirs leaves paths where sc: "scan_dirs wt = (dirs, leaves, paths)" using prod_cases3 by blast
  note sp = scan_dirs_spec [OF wf sc]
  obtain r wr1 s1 where w: "write_dirs H dirs paths [] [] s = ((r, wr1), s1)" by (metis prod.collapse)
  obtain dh where dh: "r = Inr dh" using ser w by (cases r) (auto simp: serialize_working_tree_def sc)
  have kids: "length d < length (join_path d n)" if "(n, e) \<in> set (dir_children dirs d)" for d n e
    using that sp(3) children_in_mem [OF ok] length_join by auto
  have planB: "set (plan_bodies H dirs paths []) \<subseteq> set (tree_bodies H wt)"
    by (simp add: tree_bodies_def sc)
  note ws = write_dirs_spec [OF w [unfolded dh] sp(1,2) kids apart planB]
  have tab: "map_of dh d = Some (tree_hash H (serialize_tree_entries (link_children dh d (children_in (merged_list wt) d)))) \<and>
      payload ''tree'' s1 (tree_hash H (serialize_tree_entries (link_children dh d (children_in (merged_list wt) d)))) =
        Some (serialize_tree_entries (link_children dh d (children_in (merged_list wt) d))) \<and>
      tree_hash H (serialize_tree_entries (link_children dh d (children_in (merged_list wt) d))) \<in> set wr1"
    if "d \<in> set paths" for d
    using ws that sp(3) by (auto simp: Let_def)
  have lv: "lv = leaves"
    using ser w dh by (auto simp: serialize_working_tree_def sc split: option.splits prod.splits if_splits)
  show thesis
  proof (cases "merged_list wt = []")
    case False
    then have root: "''/'' \<in> set paths" using root_has_children [OF ok] sp(4) by blast
    then obtain h0 where h0: "map_of dh ''/'' = Some h0" "h0 \<in> set wr1" using tab by blast
    then have eq: "h = h0" "wr = wr1" "s' = s1" using ser w dh by (simp_all add: serialize_working_tree_def sc)
    have tab': "\<exists>h. map_of dh d = Some h \<and> payload ''tree'' t h =
           Some (serialize_tree_entries (link_children dh d (children_in (merged_list wt) d)))"
      if "(d = ''/'' \<and> d \<in> fst ` set dh) \<or> (\<exists>e. wt_raw wt d = Some e \<and> e_kind e = Tree)" for d
    proof -
      have "d \<in> set paths" using that root sp(4) live_tree_raw by blast
      with tab [OF this] keep eq show ?thesis by blast
    qed
    have "''/'' \<in> fst ` set dh" using h0(1) by (metis domI dom_map_of_conv_image_fst)
    with rebuild_pop [OF ok io tab' dir_ok_root, where m = "[]" and stack = "[]"] h0 eq
    obtain m where m: "om_wf m" "map_of m = relinked_map dh wt |` below ''/''"
      "rebuild_loop [(h, ''/'')] [] t = rebuild_loop [] m t" by auto
    have "rebuild_loop [] m t = Some (Inr m, t)" by (subst rebuild_loop.simps) simp
    with m that h0(2) eq sp(5) lv show thesis by (simp add: map_of_below_root [OF ok])
  next
    case True
    then have "paths = []"
      using sp(4) lookup_merged [OF ok] by (fastforce simp: children_in_def)
    then have none: "map_of dh ''/'' = None" "s1 = s" using w dh by simp_all
    obtain h1 s2 where w2: "write_tree H (serialize_tree_entries []) s = (h1, s2)" by fastforce
    then have eq: "h1 \<noteq> ZERO_HASH" "h = h1" "s' = s2" "wr = wr1 @ [h1]"
      using ser w dh none by (auto simp: serialize_working_tree_def sc split: if_splits)
    have "serialize_tree_entries [] \<in> set (tree_bodies H wt)"
      by (simp add: tree_bodies_def sc \<open>paths = []\<close>)
    then have "payload ''tree'' s' h = Some (serialize_tree_entries [])"
      using write_object_payload [OF w2 [unfolded write_tree_def] eq(1)] apart eq by (auto simp: trees_apart_def)
    then have p: "payload ''tree'' t h = Some (serialize_tree_entries [])" using keep eq by simp
    have "rebuild_loop [(h, ''/'')] [] t = rebuild_loop [] [] t"
      by (subst rebuild_loop.simps) (simp add: read_tree_ok [OF io p] tree_codec)
    also have "\<dots> = Some (Inr [], t)" by (subst rebuild_loop.simps) simp
    finally have "rebuild_loop [(h, ''/'')] [] t = Some (Inr [], t)" .
    moreover have "map_of [] = relinked_map dh wt"
      using True merged_list_get [OF wf] by (auto simp: relinked_map_def fun_eq_iff)
    ultimately show thesis using that [of "[]" dh] eq(2,4) sp(5) lv by simp
  qed
qed

section \<open>Runs without faults\<close>

lemma write_dirs_ok:
  assumes "s_io s = []" "\<And>b. b \<in> set (plan_bodies H dirs ds dh) \<Longrightarrow> tree_hash H b \<noteq> ZERO_HASH"
  shows "\<exists>dh' wr' s'. write_dirs H dirs ds dh wr s = ((Inr dh', wr'), s') \<and> s_io s' = [] \<and>
    (\<forall>d. map_of dh' d \<noteq> None \<longleftrightarrow> d \<in> set ds \<or> map_of dh d \<noteq> None)"
  using assms
proof (induction ds arbitrary: dh wr s)
  case (Cons d ds)
  let ?b = "serialize_tree_entries (link_children dh d (dir_children dirs d))"
  obtain t where w: "write_tree H ?b s = (tree_hash H ?b, t)" "s_io t = []"
    using write_object_ok [OF Cons.prems(1)] by (metis prod.collapse tree_hash_def write_tree_def)
  have nz: "tree_hash H ?b \<noteq> ZERO_HASH" using Cons.prems(2) by (simp add: Let_def)
  obtain dh' wr' s' where r: "write_dirs H dirs ds (om_put d (tree_hash H ?b) dh) (wr @ [tree_hash H ?b]) t
      = ((Inr dh', wr'), s')" "s_io s' = []"
      "\<forall>k. map_of dh' k \<noteq> None \<longleftrightarrow> k \<in> set ds \<or> map_of (om_put d (tree_hash H ?b) dh) k \<noteq> None"
    using Cons.IH [OF w(2), of "om_put d (tree_hash H ?b) dh" "wr @ [tree_hash H ?b]"] Cons.prems(2)
    by (auto simp: Let_def)
  have "write_dirs H dirs (d # ds) dh wr s = ((Inr dh', wr'), s')" using w r nz by (simp add: Let_def)
  moreover have "\<forall>k. map_of dh' k \<noteq> None \<longleftrightarrow> k \<in> set (d # ds) \<or> map_of dh k \<noteq> None"
    using r(3) by (simp add: om_simps)
  ultimately show ?case using r(2) by blast
qed auto

lemma serialize_working_tree_ok:
  assumes io: "s_io s = []" and nz: "\<And>b. b \<in> set (tree_bodies H wt) \<Longrightarrow> tree_hash H b \<noteq> ZERO_HASH"
  shows "\<exists>h wr lv s'. serialize_working_tree H wt s = ((Inr h, wr, lv), s') \<and> s_io s' = []"
proof -
  obtain dirs leaves paths where sc: "scan_dirs wt = (dirs, leaves, paths)" using prod_cases3 by blast
  obtain dh wr s1 where w: "write_dirs H dirs paths [] [] s = ((Inr dh, wr), s1)" "s_io s1 = []"
    "\<forall>d. map_of dh d \<noteq> None \<longleftrightarrow> d \<in> set paths"
    using write_dirs_ok [OF io, of H dirs paths "[]" "[]"] nz by (auto simp: tree_bodies_def sc)
  show ?thesis
  proof (cases "map_of dh ''/''")
    case (Some h)
    with w show ?thesis by (simp add: serialize_working_tree_def sc)
  next
    case None
    then have "''/'' \<notin> set paths" using w(3) by blast
    then have "tree_hash H (serialize_tree_entries []) \<noteq> ZERO_HASH"
      using nz by (simp add: tree_bodies_def sc)
    moreover have "write_tree H (serialize_tree_entries []) s1 =
        (tree_hash H (serialize_tree_entries []), snd (write_tree H (serialize_tree_entries []) s1))"
      "s_io (snd (write_tree H (serialize_tree_entries []) s1)) = []"
      using write_object_ok [OF w(2)] by (metis prod.collapse tree_hash_def write_tree_def)+
    ultimately show ?thesis using w None
      by (auto simp: serialize_working_tree_def sc split: prod.splits)
  qed
qed

text \<open>Whatever happens, serializing only adds to the store.\<close>

lemma write_dirs_grows:
  "write_dirs H dirs ds dh wr s = (r, s') \<Longrightarrow> store_le s s' \<and> (cas_ok H s \<longrightarrow> cas_ok H s')"
proof (induction ds arbitrary: dh wr s)
  case (Cons d ds)
  let ?b = "serialize_tree_entries (link_children dh d (dir_children dirs d))"
  obtain h t where w: "write_tree H ?b s = (h, t)" by fastforce
  then have 1: "store_le s t" "cas_ok H s \<longrightarrow> cas_ok H t"
    by (auto simp: write_tree_def dest: write_object_le write_object_cas)
  show ?case
  proof (cases "h = ZERO_HASH")
    case True
    with Cons.prems w 1 show ?thesis by (auto simp: Let_def)
  next
    case False
    with Cons.prems w have "write_dirs H dirs ds (om_put d h dh) (wr @ [h]) t = (r, s')" by (simp add: Let_def)
    with Cons.IH 1 store_le_trans show ?thesis by blast
  qed
qed simp

lemma serialize_grows:
  assumes "serialize_working_tree H wt s = (r, s')"
  shows "store_le s s'" "cas_ok H s \<Longrightarrow> cas_ok H s'"
proof -
  obtain dirs leaves paths where sc: "scan_dirs wt = (dirs, leaves, paths)" using prod_cases3 by blast
  obtain r1 wr s1 where w: "write_dirs H dirs paths [] [] s = ((r1, wr), s1)" by (metis prod.collapse)
  obtain h t where w2: "write_tree H (serialize_tree_entries []) s1 = (h, t)" by fastforce
  have 1: "store_le s s1 \<and> (cas_ok H s \<longrightarrow> cas_ok H s1)" by (rule write_dirs_grows [OF w])
  have 2: "store_le s1 t" "cas_ok H s1 \<Longrightarrow> cas_ok H t"
    using w2 by (auto simp: write_tree_def dest: write_object_le write_object_cas)
  have "s' = s1 \<or> s' = t"
    using assms w w2 by (auto simp: serialize_working_tree_def sc split: sum.splits option.splits if_splits)
  then show "store_le s s'" "cas_ok H s \<Longrightarrow> cas_ok H s'" using 1 2 store_le_trans by blast+
qed

interpretation serialize_op: store_op H "serialize_working_tree H wt" for H wt
  by unfold_locales (rule serialize_grows, assumption)+

section \<open>Properties\<close>

text \<open>
  C16: a working tree survives a checkpoint. When every path of the tree lies in a live
  directory and every file has its content's hash, and no two tree objects collide, then
  rebuilding from the root hash that serialization returned terminates and gives back every
  entry, whiteouts included: kinds, modes and the hashes of files and links are the same,
  only directories carry the hashes of their new objects. It holds in every later store that
  lost nothing, so other writers do not matter.
\<close>

theorem tree_roundtrip:
  assumes "tree_ok wt" "trees_apart H s (set (tree_bodies H wt))"
    and "serialize_working_tree H wt s = ((Inr h, wr, lv), s')" "store_le s' t" "s_io t = []"
  shows "h \<in> set wr \<and> (\<exists>wt'. rebuild_working_tree h wt0 t = Some (Inr wt', t) \<and> wt_inv wt' \<and>
    (\<forall>p. rel_option same_entry (lookup_raw p wt) (lookup_raw p wt')))"
proof -
  obtain dh m where m: "rebuild_loop [(h, ''/'')] [] t = Some (Inr m, t)" "om_wf m"
    "map_of m = relinked_map dh wt" "h \<in> set wr"
    by (rule serialize_rebuild [OF assms(1-3) payload_mono [OF assms(4)] assms(5)])
  have "rel_option same_entry (lookup_raw p wt) (lookup_raw p (set_base m wt0))" for p
    unfolding lookup_set_base m(3) lookup_raw_view [of p wt]
    by (cases "wt_raw wt p") (simp_all add: relinked_map_def same_entry_relinked)
  with m wt_inv_fresh(1) [OF m(2)] show ?thesis by (simp add: rebuild_working_tree_def)
qed

theorem tree_roundtrip_witness:
  "\<exists>h wt' t. rebuild_working_tree h wt_new t = Some (Inr wt', t) \<and>
     rel_option same_entry (Some \<lparr>e_kind = Blob, e_hash = 7, e_mode = 420\<rparr>) (lookup_raw ''/f'' wt')"
proof -
  let ?e = "\<lparr>e_kind = Blob, e_hash = 7, e_mode = 420\<rparr>"
  let ?wt = "insert_entry ''/f'' ?e wt_new"
  let ?H = "\<lambda>_ :: bytes. 5 :: hash"
  let ?s = "new_store ''/s'' 0"
  have ml: "merged_list ?wt = [(''/f'', ?e)]"
    by (simp add: merged_list_def insert_entry_def wt_new_def)
  have sp: "split_path ''/f'' = (''/'', ''f'')" by (simp add: split_path_def Let_def)
  have ok: "tree_ok ?wt"
    by (simp add: tree_ok_def ml path_ok_def sp join_path_def dir_ok_def name_ok_def kind_ok_def
        kind_of_byte_def byte_of_kind_def)
  have sc: "scan_dirs ?wt = ([(''/'', [(''f'', ?e)])], [7], [''/''])"
    by (simp add: scan_dirs_def ml live_list_def scan_entry_def sp is_leaf_def dir_children_def
        add_empty_dir_def)
  have ap: "trees_apart ?H ?s (set (tree_bodies ?H ?wt))"
    by (simp add: trees_apart_def tree_bodies_def sc Let_def)
  obtain h wr lv s' where s: "serialize_working_tree ?H ?wt ?s = ((Inr h, wr, lv), s')" "s_io s' = []"
    using serialize_working_tree_ok [of ?s ?H ?wt] by (auto simp: tree_hash_def object_hash_def)
  have "lookup_raw ''/f'' ?wt = Some ?e" by (simp add: lookup_raw_view insert_entry_def wt_raw_put)
  then show ?thesis
    using tree_roundtrip [OF ok ap s(1) _ s(2), of wt_new] by (metis store_le_refl)
qed

text \<open>
  Tree objects decode to what was encoded, sorted by name, for names shorter than
  \<open>2 ^ 16\<close> bytes and fewer than \<open>2 ^ 32\<close> entries.
\<close>

theorem tree_entries_roundtrip:
  assumes "list_all entry_ok cs" "length cs < 2 ^ 32"
  shows "deserialize_tree_entries (serialize_tree_entries cs) = Some (sort_key fst cs)"
  using assms by (rule tree_codec)

theorem tree_entries_roundtrip_witness:
  "deserialize_tree_entries (serialize_tree_entries [(''f'', \<lparr>e_kind = Symlink, e_hash = 7, e_mode = 41471\<rparr>)])
   = Some [(''f'', \<lparr>e_kind = Symlink, e_hash = 7, e_mode = 41471\<rparr>)]"
  using tree_entries_roundtrip [of "[(''f'', \<lparr>e_kind = Symlink, e_hash = 7, e_mode = 41471\<rparr>)]"]
  by (simp add: entry_ok_def kind_ok_def kind_of_byte_def byte_of_kind_def)

text \<open>
  When no call fails and no tree hashes to zero, serialization succeeds; and whatever
  fails, the store keeps all it had.
\<close>

theorem serialize_total:
  "(s_io s = [] \<and> (\<forall>b \<in> set (tree_bodies H wt). tree_hash H b \<noteq> ZERO_HASH) \<longrightarrow>
      (\<exists>h. fst (fst (serialize_working_tree H wt s)) = Inr h)) \<and>
   store_le s (snd (serialize_working_tree H wt s)) \<and>
   (cas_ok H s \<longrightarrow> cas_ok H (snd (serialize_working_tree H wt s)))"
  using serialize_working_tree_ok [of s H wt] serialize_op.snd_grows serialize_op.snd_keeps
  by (metis fst_conv)

theorem serialize_total_witness:
  "\<exists>h. fst (fst (serialize_working_tree (\<lambda>_. 5) wt_new (new_store ''/s'' 0))) = Inr h"
  using serialize_total [of "new_store ''/s'' 0" "\<lambda>_. 5" wt_new]
  by (simp add: tree_hash_def object_hash_def)

end
