(* ===== verification/Refs.thy ===== *)
theory Refs
  imports ObjectStore
begin

text \<open>
  \<open>src/cas/refs.h\<close>, \<open>refs.cpp\<close> (the POSIX build), \<open>branch_name.cpp\<close> and
  \<open>inode_map.cpp\<close>. A ref is a file of the refs directory. Its state has the files as they
  are and as they would be after a crash; temporary files live in the store's tmp directory,
  and the outcomes of the system calls come from the store's script.
\<close>

record refs =
  r_files :: "(string, string) omap"      \<comment> \<open>regular files and their contents\<close>
  r_other :: "string list"                \<comment> \<open>other directory entries\<close>
  r_durable :: "(string, string) omap"    \<comment> \<open>what survives a crash\<close>

section \<open>Operations\<close>

text \<open>The entries of the directory in some order; each is inspected, then the iterator moves.\<close>

fun scan_refs :: "(string \<times> bool) list \<Rightarrow> string list \<Rightarrow> (string + string list) io" where
  "scan_refs [] names s = (Inr names, s)"
| "scan_refs ((name, regular) # es) names s =
     (case next_io s of
        (Some f, s) \<Rightarrow> (Inl (''inspect ref entry failed: '' @ f_msg f), s)
      | (None, s) \<Rightarrow>
          (case next_io s of
             (Some f, s) \<Rightarrow> (Inl (''enumerate refs directory failed: '' @ f_msg f), s)
           | (None, s) \<Rightarrow> scan_refs es (if regular then names @ [name] else names) s))"

definition list_refs :: "refs \<Rightarrow> (string + string list) io" where
  "list_refs r s =
     (case next_io s of
        (Some f, s) \<Rightarrow> (Inl (''enumerate refs directory failed: '' @ f_msg f), s)
      | (None, s) \<Rightarrow>
          (case scan_refs (map (\<lambda>p. (fst p, True)) (r_files r) @ map (\<lambda>n. (n, False)) (r_other r)) [] s of
             (Inl e, s) \<Rightarrow> (Inl e, s)
           | (Inr names, s) \<Rightarrow> (Inr (sort names), s)))"

text \<open>The overload without an error: a failed scan is an empty list.\<close>

definition list_refs_compat :: "refs \<Rightarrow> string list io" where
  "list_refs_compat r s = (case list_refs r s of (Inl _, s) \<Rightarrow> ([], s) | (Inr ns, s) \<Rightarrow> (ns, s))"

text \<open>\<open>read\<close> is repeated while it is interrupted (\<open>EINTR\<close> is 4).\<close>

definition interrupted :: "fault option \<Rightarrow> bool" where
  "interrupted f = (case f of None \<Rightarrow> False | Some e \<Rightarrow> f_errno e = EOther 4)"

definition read_io :: "fault option io" where
  "read_io s = next_io (s\<lparr>s_io := dropWhile interrupted (s_io s)\<rparr>)"

text \<open>
  The file is read into 66 bytes: one \<open>read\<close> returns what there is, a second one, made when
  the buffer is not full, returns the end of the file or fails, which ends the loop as well.
\<close>

definition read_ref :: "refs \<Rightarrow> string \<Rightarrow> hash option io" where
  "read_ref r branch s =
     (case next_io s of (Some _, s) \<Rightarrow> (None, s) | (None, s) \<Rightarrow>
      (case map_of (r_files r) branch of None \<Rightarrow> (None, s) | Some content \<Rightarrow>
      (case read_io s of (f, s) \<Rightarrow>
       (let buf = (if f = None then take 66 content else []) in
        case (if f = None \<and> buf \<noteq> [] \<and> length buf < 66 then read_io s else (None, s)) of (_, s) \<Rightarrow>
        (case next_io s of (Some _, s) \<Rightarrow> (None, s) | (None, s) \<Rightarrow>
           (if length buf \<noteq> 65 \<or> buf ! 64 \<noteq> CHR 0x0A then (None, s)
            else (hex_to_hash_strict (take 64 buf), s)))))))"

definition ref_content :: "hash \<Rightarrow> string" where
  "ref_content h = hash_to_hex h @ [CHR 0x0A]"

definition ref_tmp_name :: "string io" where
  "ref_tmp_name s =
     (''ref_'' @ hex_digits 16 (unat (case s_rng s of [] \<Rightarrow> 0 | r # _ \<Rightarrow> r)),
      s\<lparr>s_rng := tl (s_rng s)\<rparr>)"

text \<open>
  The contents are written and synced under a temporary name, renamed over the ref, and the
  directory is synced. A failure of the last two calls reports \<open>False\<close> although the ref has
  changed.
\<close>

definition write_ref :: "string \<Rightarrow> hash \<Rightarrow> refs \<Rightarrow> store \<Rightarrow> bool \<times> refs \<times> store" where
  "write_ref branch h r s =
     (case ref_tmp_name s of (name, s) \<Rightarrow>
      (case next_io s of (Some _, s) \<Rightarrow> (False, r, s) | (None, s) \<Rightarrow>
      (let s = s\<lparr>s_tmp := om_put name ([], s_now s) (s_tmp s)\<rparr> in
       case next_io s of (f1, s) \<Rightarrow>
       (let s = (if f1 = None then s\<lparr>s_tmp := om_put name (bytes_of (ref_content h), s_now s) (s_tmp s)\<rparr> else s) in
        case (if f1 = None then next_io s else (f1, s)) of
          (Some _, s) \<Rightarrow> (False, r, remove_tmp name s)
        | (None, s) \<Rightarrow>
       (case next_io s of (Some _, s) \<Rightarrow> (False, r, remove_tmp name s) | (None, s) \<Rightarrow>
       (case next_io s of (Some _, s) \<Rightarrow> (False, r, remove_tmp name s) | (None, s) \<Rightarrow>
       (let r = r\<lparr>r_files := om_put branch (ref_content h) (r_files r)\<rparr>;
            s = s\<lparr>s_tmp := om_del name (s_tmp s)\<rparr> in
        case next_io s of (Some _, s) \<Rightarrow> (False, r, s) | (None, s) \<Rightarrow>
        (let r = r\<lparr>r_durable := r_files r\<rparr> in
         case next_io s of (Some _, s) \<Rightarrow> (False, r, s) | (None, s) \<Rightarrow> (True, r, s)))))))))"

definition remove_ref :: "string \<Rightarrow> refs \<Rightarrow> store \<Rightarrow> bool \<times> refs \<times> store" where
  "remove_ref branch r s =
     (if branch = ''main'' then (False, r, s)
      else case next_io s of (Some _, s) \<Rightarrow> (False, r, s) | (None, s) \<Rightarrow>
      (case next_io s of (Some _, s) \<Rightarrow> (False, r, s) | (None, s) \<Rightarrow>
       (if map_of (r_files r) branch = None then (False, r, s)
        else
        (let r = r\<lparr>r_files := om_del branch (r_files r)\<rparr> in
         case next_io s of (Some _, s) \<Rightarrow> (False, r, s) | (None, s) \<Rightarrow>
         (let r = r\<lparr>r_durable := r_files r\<rparr> in
          case next_io s of (Some _, s) \<Rightarrow> (False, r, s) | (None, s) \<Rightarrow> (True, r, s))))))"

section \<open>Branch names\<close>

definition is_alnum :: "char \<Rightarrow> bool" where
  "is_alnum c = (let n = (of_char c :: nat) in
     48 \<le> n \<and> n \<le> 57 \<or> 65 \<le> n \<and> n \<le> 90 \<or> 97 \<le> n \<and> n \<le> 122)"

definition reserved_names :: "string list" where
  "reserved_names = [''main'', ''HEAD'', ''FETCH_HEAD'', ''ORIG_HEAD'', ''MERGE_HEAD'',
     ''refs'', ''objects'', ''tmp'', ''telemetry'']"

definition is_valid_branch_name :: "string \<Rightarrow> bool" where
  "is_valid_branch_name name \<longleftrightarrow>
     name \<noteq> [] \<and> length name \<le> 64 \<and>
     list_all (\<lambda>c. is_alnum c \<or> c = CHR ''-'' \<or> c = CHR ''_'') name \<and>
     name \<notin> set reserved_names"

section \<open>Inode map\<close>

record inode_key =
  ik_dev :: u64
  ik_ino :: u64
  ik_gen :: u32

text \<open>\<open>unordered_map\<close>: the pairs in some order, one per key.\<close>

type_synonym inode_map = "(inode_key \<times> string) list"

definition im_set :: "inode_key \<Rightarrow> string \<Rightarrow> inode_map \<Rightarrow> inode_map" where
  "im_set k path m = (k, path) # filter (\<lambda>p. fst p \<noteq> k) m"

definition im_get :: "inode_key \<Rightarrow> inode_map \<Rightarrow> string" where
  "im_get k m = (case map_of m k of None \<Rightarrow> [] | Some p \<Rightarrow> p)"

definition im_erase_by_path :: "string \<Rightarrow> inode_map \<Rightarrow> inode_map" where
  "im_erase_by_path path m = filter (\<lambda>p. snd p \<noteq> path) m"

section \<open>Lemmas\<close>

text \<open>What a store operation that only touches temporary files and the script keeps.\<close>

definition store_quiet :: "store \<Rightarrow> store \<Rightarrow> bool" where
  "store_quiet s s' \<longleftrightarrow> s_objects s' = s_objects s \<and> s_root s' = s_root s \<and> s_shards s' = s_shards s \<and>
     s_shards_durable s' = s_shards_durable s \<and> s_pending s' = s_pending s \<and> s_cache s' = s_cache s \<and>
     s_now s' = s_now s \<and> s_error s' = s_error s \<and> (s_io s = [] \<longrightarrow> s_io s' = [])"

lemma store_quiet_refl [simp]: "store_quiet s s"
  by (simp add: store_quiet_def)

lemma store_quiet_trans: "store_quiet s t \<Longrightarrow> store_quiet t u \<Longrightarrow> store_quiet s u"
  by (auto simp: store_quiet_def)

lemma next_io_quiet: "next_io s = (f, s') \<Longrightarrow> store_quiet s s' \<and> (s_io s = [] \<longrightarrow> f = None) \<and> s_tmp s' = s_tmp s \<and> s_rng s' = s_rng s"
  by (auto simp: next_io_def store_quiet_def split: list.splits)

lemma store_quiet_upd [simp]: "store_quiet s (s\<lparr>s_tmp := t\<rparr>)" "store_quiet s (s\<lparr>s_rng := r\<rparr>)"
  by (simp_all add: store_quiet_def)

lemma remove_tmp_quiet [simp]: "store_quiet s (remove_tmp n s)"
  by (auto simp: remove_tmp_def store_quiet_def dest!: next_io_quiet split: prod.split option.split)

lemma remove_tmp_more [simp]:
  "s_shards_durable (remove_tmp n s) = s_shards_durable s" "s_cache (remove_tmp n s) = s_cache s"
  "s_now (remove_tmp n s) = s_now s" "s_error (remove_tmp n s) = s_error s"
  "s_io s = [] \<Longrightarrow> s_io (remove_tmp n s) = []"
  using remove_tmp_quiet [of s n] by (simp_all add: store_quiet_def del: remove_tmp_quiet)

lemma read_io_quiet: "read_io s = (f, s') \<Longrightarrow> store_quiet s s' \<and> (s_io s = [] \<longrightarrow> f = None)"
  using next_io_quiet [of "s\<lparr>s_io := dropWhile interrupted (s_io s)\<rparr>" f s']
  by (auto simp: read_io_def store_quiet_def)

lemma store_quiet_le: "store_quiet s s' \<Longrightarrow> store_le s s'"
  by (simp add: store_quiet_def store_le_same)

lemma store_quiet_find: "store_quiet s s' \<Longrightarrow> find_object s' = find_object s"
  by (simp add: store_quiet_def find_object_def fun_eq_iff)

lemma store_quiet_payload: "store_quiet s s' \<Longrightarrow> payload tag s' h = payload tag s h"
  by (simp add: payload_def store_quiet_find)

lemma store_quiet_durable: "store_quiet s s' \<Longrightarrow> durable s' h = durable s h"
  using store_quiet_find [of s s'] by (auto simp: durable_def store_quiet_def split: option.split)

lemma read_ref_quiet:
  assumes "read_ref r b s = (x, s')"
  shows "store_quiet s s'"
  using assms unfolding read_ref_def Let_def
  by (auto dest!: next_io_quiet read_io_quiet split: prod.splits option.splits if_splits
      intro: store_quiet_trans)

text \<open>The commit a ref names: its file is 64 hexadecimal digits and a line feed.\<close>

definition parse_ref :: "string \<Rightarrow> hash option" where
  "parse_ref content = (if length content = 65 \<and> content ! 64 = CHR 0x0A
     then hex_to_hash_strict (take 64 content) else None)"

definition ref_of :: "refs \<Rightarrow> string \<Rightarrow> hash option" where
  "ref_of r b = Option.bind (map_of (r_files r) b) parse_ref"

definition durable_ref :: "refs \<Rightarrow> string \<Rightarrow> hash option" where
  "durable_ref r b = Option.bind (map_of (r_durable r) b) parse_ref"

lemma parse_ref_content [simp]: "parse_ref (ref_content h) = Some h"
  by (simp add: parse_ref_def ref_content_def nth_append)

lemma parse_ref_buf:
  "(if length (take 66 c) \<noteq> 65 \<or> take 66 c ! 64 \<noteq> CHR 0x0A then None
    else hex_to_hash_strict (take 64 (take 66 c))) = parse_ref c"
  by (auto simp: parse_ref_def min_def)

lemma read_ref_value:
  assumes "read_ref r b s = (x, s')"
  shows "x = None \<or> x = ref_of r b" "s_io s = [] \<Longrightarrow> x = ref_of r b"
proof -
  have "x = None \<or> x = ref_of r b"
    using assms unfolding read_ref_def Let_def ref_of_def
    by (auto simp: parse_ref_buf [symmetric] hex_to_hash_strict_def is_hex_hash_def
        split: prod.splits option.splits if_splits)
  then show "x = None \<or> x = ref_of r b" .
  show "x = ref_of r b" if "s_io s = []"
    using assms that unfolding read_ref_def Let_def ref_of_def
    by (auto simp: next_io_def read_io_def parse_ref_def min_def split: option.splits if_splits)
qed

lemma write_ref_effect:
  assumes "write_ref b h r s = (ok, r', s')"
  shows "store_quiet s s'"
    "r' = r \<and> \<not> ok \<or> (r_files r' = om_put b (ref_content h) (r_files r) \<and> r_other r' = r_other r \<and>
       (r_durable r' = r_files r' \<or> \<not> ok \<and> r_durable r' = r_durable r))"
    "s_io s = [] \<Longrightarrow> ok"
proof -
  show "store_quiet s s'"
  proof (cases "s_io s = []")
    case True
    with assms show ?thesis
      by (auto simp: write_ref_def Let_def ref_tmp_name_def next_io_def store_quiet_def)
  next
    case False
    with assms show ?thesis
      unfolding store_quiet_def write_ref_def Let_def ref_tmp_name_def
      by (auto dest!: next_io_upd split: prod.splits option.splits if_splits)
  qed
  show "r' = r \<and> \<not> ok \<or> (r_files r' = om_put b (ref_content h) (r_files r) \<and> r_other r' = r_other r \<and>
       (r_durable r' = r_files r' \<or> \<not> ok \<and> r_durable r' = r_durable r))"
    using assms unfolding write_ref_def Let_def
    by (auto split: prod.splits option.splits if_splits)
  show "s_io s = [] \<Longrightarrow> ok"
    using assms unfolding write_ref_def Let_def ref_tmp_name_def
    by (auto simp: next_io_def)
qed

lemma remove_ref_effect:
  assumes "remove_ref b r s = (ok, r', s')"
  shows "store_quiet s s'"
    "r' = r \<and> \<not> ok \<or> (b \<noteq> ''main'' \<and> r_files r' = om_del b (r_files r) \<and> r_other r' = r_other r \<and>
       (r_durable r' = r_files r' \<or> \<not> ok \<and> r_durable r' = r_durable r))"
proof -
  show "store_quiet s s'"
  proof (cases "s_io s = []")
    case True
    with assms show ?thesis
      by (auto simp: remove_ref_def Let_def next_io_def store_quiet_def split: if_splits)
  next
    case False
    with assms show ?thesis
      unfolding store_quiet_def remove_ref_def Let_def
      by (auto dest!: next_io_upd split: prod.splits option.splits if_splits)
  qed
  show "r' = r \<and> \<not> ok \<or> (b \<noteq> ''main'' \<and> r_files r' = om_del b (r_files r) \<and> r_other r' = r_other r \<and>
       (r_durable r' = r_files r' \<or> \<not> ok \<and> r_durable r' = r_durable r))"
    using assms unfolding remove_ref_def Let_def
    by (auto split: prod.splits option.splits if_splits)
qed

lemma scan_refs_result:
  "scan_refs es names s = (x, s') \<Longrightarrow>
     (x = Inr (names @ map fst (filter snd es)) \<or> (\<exists>e. x = Inl e)) \<and> store_quiet s s' \<and>
     (s_io s = [] \<longrightarrow> x = Inr (names @ map fst (filter snd es)))"
proof (induction es names s rule: scan_refs.induct)
  case (2 name regular es names s)
  obtain f1 t1 where n1: "next_io s = (f1, t1)" by fastforce
  obtain f2 t2 where n2: "next_io t1 = (f2, t2)" by fastforce
  have q: "store_quiet s t1" "store_quiet t1 t2" "store_quiet s t2"
    using next_io_quiet [OF n1] next_io_quiet [OF n2] store_quiet_trans by blast+
  have io: "s_io s = [] \<Longrightarrow> f1 = None \<and> f2 = None \<and> s_io t2 = []"
    using next_io_quiet [OF n1] next_io_quiet [OF n2] q by (auto simp: store_quiet_def)
  show ?case
  proof (cases "f1 = None \<and> f2 = None")
    case True
    with 2 n1 n2 have "(x = Inr ((if regular then names @ [name] else names) @ map fst (filter snd es)) \<or> (\<exists>e. x = Inl e)) \<and>
        store_quiet t2 s' \<and> (s_io t2 = [] \<longrightarrow> x = Inr ((if regular then names @ [name] else names) @ map fst (filter snd es)))"
      by auto
    with io q store_quiet_trans show ?thesis by (auto split: if_splits)
  next
    case False
    with 2(2) n1 n2 io q show ?thesis by (auto split: option.splits)
  qed
qed simp

lemma list_refs_result:
  assumes "list_refs r s = (x, s')"
  shows "x = Inr (sort (map fst (r_files r))) \<or> (\<exists>e. x = Inl e)" "store_quiet s s'"
    "s_io s = [] \<Longrightarrow> x = Inr (sort (map fst (r_files r)))"
proof -
  let ?es = "map (\<lambda>p. (fst p, True)) (r_files r) @ map (\<lambda>n. (n, False)) (r_other r)"
  have es: "map fst (filter snd ?es) = map fst (r_files r)" by (simp add: filter_map comp_def)
  obtain f t where n: "next_io s = (f, t)" by fastforce
  obtain y u where sc: "scan_refs ?es [] t = (y, u)" by fastforce
  note r = scan_refs_result [OF sc, unfolded es]
  have q: "store_quiet s t" "store_quiet s u" and io: "s_io s = [] \<Longrightarrow> f = None \<and> s_io t = []"
    using next_io_quiet [OF n] r store_quiet_trans by (auto simp: store_quiet_def)
  show "x = Inr (sort (map fst (r_files r))) \<or> (\<exists>e. x = Inl e)" "store_quiet s s'"
    "s_io s = [] \<Longrightarrow> x = Inr (sort (map fst (r_files r)))"
    using assms n sc r q io
    by (auto simp: list_refs_def split: option.splits sum.splits)
qed

lemma ref_of_put: "r_files r' = om_put b (ref_content h) (r_files r) \<Longrightarrow>
    ref_of r' b' = (if b' = b then Some h else ref_of r b')"
  by (simp add: ref_of_def om_simps)

section \<open>Properties\<close>

text \<open>
  Moving a ref is atomic. Whatever calls fail, every other ref keeps its value and the
  branch has its old commit or the new one, both now and after a crash; a crash never finds
  a partial file. Success means that the new commit is there, that it survives a crash, and
  that a reader gets it; without faults the write succeeds.
\<close>

theorem write_ref_atomic:
  assumes "write_ref b h r s = (ok, r', s')" "r_durable r = r_files r"
  shows "(\<forall>b'. b' \<noteq> b \<longrightarrow> ref_of r' b' = ref_of r b' \<and> durable_ref r' b' = durable_ref r b') \<and>
    ref_of r' b \<in> {ref_of r b, Some h} \<and> durable_ref r' b \<in> {durable_ref r b, Some h} \<and>
    (ok \<longrightarrow> ref_of r' b = Some h \<and> durable_ref r' b = Some h) \<and> (s_io s = [] \<longrightarrow> ok) \<and>
    (ok \<and> s_io t = [] \<longrightarrow> fst (read_ref r' b t) = Some h)"
proof -
  note e = write_ref_effect [OF assms(1)]
  have d: "durable_ref r x = ref_of r x" for x using assms(2) by (simp add: durable_ref_def ref_of_def)
  have rd: "fst (read_ref r' b t) = ref_of r' b" if "s_io t = []"
    using read_ref_value(2) [of r' b t] that by (cases "read_ref r' b t") auto
  show ?thesis
  proof (cases "r' = r \<and> \<not> ok")
    case True
    with e(3) show ?thesis by auto
  next
    case False
    then have f: "r_files r' = om_put b (ref_content h) (r_files r)"
      "r_durable r' = r_files r' \<or> \<not> ok \<and> r_durable r' = r_durable r" using e(2) by auto
    have "durable_ref r' x = ref_of r' x" if "r_durable r' = r_files r'" for x
      using that by (simp add: durable_ref_def ref_of_def)
    moreover have "durable_ref r' x = durable_ref r x" if "r_durable r' = r_durable r" for x
      using that by (simp add: durable_ref_def)
    ultimately show ?thesis
      using f(2) ref_of_put [OF f(1)] d e(3) rd by auto
  qed
qed

theorem write_ref_atomic_witness:
  "fst (read_ref (fst (snd (write_ref ''b1'' 7 \<lparr>r_files = [], r_other = [], r_durable = []\<rparr> (new_store ''/s'' 0))))
     ''b1'' (new_store ''/s'' 0)) = Some 7"
proof -
  let ?w = "write_ref ''b1'' 7 \<lparr>r_files = [], r_other = [], r_durable = []\<rparr> (new_store ''/s'' 0)"
  have "?w = (fst ?w, fst (snd ?w), snd (snd ?w))" by simp
  from write_ref_atomic [OF this, of "new_store ''/s'' 0"] show ?thesis by simp
qed

text \<open>
  Listing the refs is all or nothing: it fails with a message or returns all of them,
  sorted; it never returns a part. Without faults it succeeds.
\<close>

theorem list_refs_complete:
  "(fst (list_refs r s) = Inr (sort (map fst (r_files r))) \<or> (\<exists>e. fst (list_refs r s) = Inl e)) \<and>
   (s_io s = [] \<longrightarrow> fst (list_refs r s) = Inr (sort (map fst (r_files r))))"
  using list_refs_result [of r s "fst (list_refs r s)" "snd (list_refs r s)"] by simp

theorem list_refs_complete_witness:
  "fst (list_refs \<lparr>r_files = [(''main'', [])], r_other = [], r_durable = []\<rparr> (new_store ''/s'' 0)) = Inr [''main'']"
  using list_refs_complete [of "\<lparr>r_files = [(''main'', [])], r_other = [], r_durable = []\<rparr>" "new_store ''/s'' 0"]
  by simp

end
