(* ===== verification/Checkpoint.thy ===== *)
theory Checkpoint
  imports Commit TreeSerialize Refs
begin

text \<open>
  \<open>src/cas/checkpoint.h\<close> and \<open>checkpoint.cpp\<close>: checkpoints, resolution of rollback
  targets, and rollback of one branch. The state has the branch's working tree, the refs and
  the store. The callbacks of the source are arguments: \<open>flush\<close> acts on the tree and the
  store, and the invalidation of open handles is reported to the caller, who owns them. The
  system clock is the argument \<open>now_ns\<close>.
\<close>

record repo =
  rp_wt :: working_tree
  rp_refs :: refs
  rp_store :: store

type_synonym flush_fn = "working_tree \<Rightarrow> store \<Rightarrow> bool \<times> working_tree \<times> store"

definition referenced_leaf :: "entry \<Rightarrow> bool" where
  "referenced_leaf e \<longleftrightarrow> (e_kind e = Blob \<or> e_kind e = Symlink) \<and> e_hash e \<noteq> ZERO_HASH"

text \<open>The set that \<open>filter_to_committed_graph\<close> collects.\<close>

definition committed_graph :: "working_tree \<Rightarrow> hash list \<Rightarrow> hash \<Rightarrow> hash set" where
  "committed_graph wt written commit_hash =
     for_each_including_deleted (\<lambda>_ e acc. if referenced_leaf e then insert (e_hash e) acc else acc) wt {}
       \<union> set written \<union> {commit_hash}"

definition filter_to_committed_graph ::
  "hash list \<Rightarrow> working_tree \<Rightarrow> hash list \<Rightarrow> hash \<Rightarrow> hash list" where
  "filter_to_committed_graph pending wt written commit_hash =
     filter (\<lambda>h. h \<in> committed_graph wt written commit_hash) pending"

definition serialize_failed :: "string \<Rightarrow> string" where
  "serialize_failed e = (if e = [] then ''failed to serialize working tree''
     else ''failed to serialize working tree: '' @ e)"

text \<open>The commit object, and the state after it was written: its hash or the error.\<close>

definition make_commit ::
  "(bytes \<Rightarrow> hash) \<Rightarrow> u64 \<Rightarrow> string \<Rightarrow> u64 \<Rightarrow> u32 \<Rightarrow> string \<Rightarrow> hash \<Rightarrow> refs \<Rightarrow> store \<Rightarrow>
   (string + hash) \<times> store" where
  "make_commit H now_ns label session_id policy_version branch tree r s =
     (case read_ref r branch s of (parent, s) \<Rightarrow>
      (let cd = \<lparr>cd_tree_hash = tree, cd_parents = (case parent of None \<Rightarrow> [] | Some p \<Rightarrow> [p]),
                 cd_session_id = session_id, cd_timestamp_ns = now_ns, cd_label = label,
                 cd_policy_version = policy_version\<rparr> in
       case write_commit H (serialize_commit cd) s of (c, s) \<Rightarrow>
         (if c = ZERO_HASH then Inl ''failed to write commit object'' else Inr c, s)))"

text \<open>Draining, the durability barriers, and what comes back on failure.\<close>

definition sync_commit :: "working_tree \<Rightarrow> hash list \<Rightarrow> hash \<Rightarrow> string option io" where
  "sync_commit wt written c s =
     (case drain_pending s of (pending, s) \<Rightarrow>
      (let to_fsync = filter_to_committed_graph pending wt written c in
       case fsync_objects to_fsync s of
         (False, s) \<Rightarrow> (Some ''failed to fsync checkpoint objects'', restore_pending pending s)
       | (True, s) \<Rightarrow>
           (case fsync_shard_dirs to_fsync s of
              (False, s) \<Rightarrow> (Some ''failed to fsync checkpoint shard dirs'', restore_pending pending s)
            | (True, s) \<Rightarrow> (None, s))))"

definition checkpoint_locked ::
  "(bytes \<Rightarrow> hash) \<Rightarrow> u64 \<Rightarrow> flush_fn \<Rightarrow> string \<Rightarrow> u64 \<Rightarrow> u32 \<Rightarrow> string \<Rightarrow> repo \<Rightarrow>
   (string + hash) \<times> repo" where
  "checkpoint_locked H now_ns flush label session_id policy_version branch rp =
     (case flush (rp_wt rp) (rp_store rp) of (flushed, wt, s) \<Rightarrow>
      (let rp = rp\<lparr>rp_wt := wt, rp_store := s\<rparr> in
       if \<not> flushed then (Inl ''flush failed'', rp)
       else
       (case serialize_working_tree H wt s of
          ((Inl e, _, _), s) \<Rightarrow> (Inl (serialize_failed e), rp\<lparr>rp_store := s\<rparr>)
        | ((Inr tree, written, _), s) \<Rightarrow>
       (case make_commit H now_ns label session_id policy_version branch tree (rp_refs rp) s of
          (Inl e, s) \<Rightarrow> (Inl e, rp\<lparr>rp_store := s\<rparr>)
        | (Inr c, s) \<Rightarrow>
       (case sync_commit wt written c s of
          (Some e, s) \<Rightarrow> (Inl e, rp\<lparr>rp_store := s\<rparr>)
        | (None, s) \<Rightarrow>
       (case write_ref branch c (rp_refs rp) s of (ok, r, s) \<Rightarrow>
          (if ok then Inr c else Inl (''failed to advance refs/'' @ branch),
           rp\<lparr>rp_refs := r, rp_store := s\<rparr>)))))))"

section \<open>Targets and rollback\<close>

fun find_label :: "nat \<Rightarrow> string \<Rightarrow> hash \<Rightarrow> hash io" where
  "find_label 0 target cursor s = (ZERO_HASH, s)"
| "find_label (Suc depth) target cursor s =
     (case read_commit cursor s of
        (None, s) \<Rightarrow> (ZERO_HASH, s)
      | (Some body, s) \<Rightarrow>
          (case decoded (deserialize_commit body) of
             None \<Rightarrow> (ZERO_HASH, s)
           | Some cd \<Rightarrow>
               (if cd_label cd = target then (cursor, s)
                else case cd_parents cd of
                       [] \<Rightarrow> (ZERO_HASH, s)
                     | p # _ \<Rightarrow> find_label depth target p s)))"

definition resolve_depth :: nat where "resolve_depth = 100000"

text \<open>Some \<open>h\<close>: the target is 64 characters that read as the hash of an object that exists.\<close>

definition resolve_hash :: "string \<Rightarrow> hash option io" where
  "resolve_hash target s =
     (if 4 \<le> length target \<and> length target = 64 then
        (case hex_to_hash target of
           None \<Rightarrow> (None, s)
         | Some h \<Rightarrow> (case object_exists h s of (e, s) \<Rightarrow> (if e then Some h else None, s)))
      else (None, s))"

definition resolve_target :: "string \<Rightarrow> string \<Rightarrow> refs \<Rightarrow> hash io" where
  "resolve_target target branch r s =
     (case resolve_hash target s of
        (Some h, s) \<Rightarrow> (h, s)
      | (None, s) \<Rightarrow>
          (case read_ref r branch s of
             (None, s) \<Rightarrow> (ZERO_HASH, s)
           | (Some current, s) \<Rightarrow> find_label resolve_depth target current s))"

definition rebuild_failed :: "string \<Rightarrow> string" where
  "rebuild_failed e = (if take 19 e = ''tree object missing'' then ''checkpoint compacted by retention policy''
     else ''failed to rebuild working tree: '' @ e)"

text \<open>The second component says whether \<open>invalidate_fhs_fn\<close> was called.\<close>

definition rollback_locked ::
  "string \<Rightarrow> string \<Rightarrow> repo \<Rightarrow> ((string + hash) \<times> bool \<times> repo) option" where
  "rollback_locked target branch rp =
     (case resolve_target target branch (rp_refs rp) (rp_store rp) of (h, s) \<Rightarrow>
      if h = ZERO_HASH then Some (Inl ''target commit not found'', False, rp\<lparr>rp_store := s\<rparr>)
      else
      (case read_commit h s of
         (None, s) \<Rightarrow> Some (Inl ''failed to read target commit'', False, rp\<lparr>rp_store := s\<rparr>)
       | (Some body, s) \<Rightarrow>
      (case decoded (deserialize_commit body) of
         None \<Rightarrow> Some (Inl ''failed to parse target commit'', False, rp\<lparr>rp_store := s\<rparr>)
       | Some cd \<Rightarrow>
      (case rebuild_working_tree (cd_tree_hash cd) (rp_wt rp) s of
         None \<Rightarrow> None
       | Some (Inl e, s) \<Rightarrow> Some (Inl (rebuild_failed e), False, rp\<lparr>rp_store := s\<rparr>)
       | Some (Inr wt, s) \<Rightarrow>
      (case write_ref branch h (rp_refs rp) s of (ok, r, s) \<Rightarrow>
         Some (if ok then Inr h else Inl (''failed to write refs/'' @ branch), True,
               rp\<lparr>rp_wt := wt, rp_refs := r, rp_store := s\<rparr>))))))"

definition current_commit :: "string \<Rightarrow> refs \<Rightarrow> hash io" where
  "current_commit branch r s =
     (case read_ref r branch s of (None, s) \<Rightarrow> (ZERO_HASH, s) | (Some h, s) \<Rightarrow> (h, s))"

section \<open>Effects of the steps\<close>

lemma committed_graph_set:
  "committed_graph wt written c = {e_hash e |p e. (p, e) \<in> set (merged_list wt) \<and> referenced_leaf e} \<union> set written \<union> {c}"
proof -
  have "fold (\<lambda>(p, e). (\<lambda>_ e acc. if referenced_leaf e then insert (e_hash e) acc else acc) p e) m acc =
      {e_hash e |p e. (p, e) \<in> set m \<and> referenced_leaf e} \<union> acc" for m :: entry_map and acc
  proof (induction m arbitrary: acc)
    case (Cons a m)
    obtain q x where a: "a = (q, x)" by (cases a)
    have "{e_hash e |p e. (p, e) \<in> set (a # m) \<and> referenced_leaf e} =
        {e_hash e |p e. (p, e) \<in> set m \<and> referenced_leaf e} \<union> (if referenced_leaf x then {e_hash x} else {})"
      by (auto simp: a)
    then show ?case using Cons by (simp add: a)
  qed simp
  then show ?thesis by (simp add: committed_graph_def for_each_including_deleted_def)
qed

lemma make_commit_effect:
  assumes "make_commit H t l si pv b tree r s = (x, s')"
  shows "store_le s s'" "cas_ok H s \<Longrightarrow> cas_ok H s'" "s_io s = [] \<Longrightarrow> s_io s' = []"
proof -
  obtain parent s1 where r: "read_ref r b s = (parent, s1)" by fastforce
  have q: "store_quiet s s1" by (rule read_ref_quiet [OF r])
  define cd where "cd = \<lparr>cd_tree_hash = tree, cd_parents = (case parent of None \<Rightarrow> [] | Some p \<Rightarrow> [p]),
     cd_session_id = si, cd_timestamp_ns = t, cd_label = l, cd_policy_version = pv\<rparr>"
  obtain c s2 where w: "write_commit H (serialize_commit cd) s1 = (c, s2)" by fastforce
  have s': "s' = s2" using assms r w by (auto simp: make_commit_def cd_def Let_def)
  note w' = w [unfolded write_commit_def]
  show "store_le s s'" using store_quiet_le [OF q] write_object_le [OF w'] store_le_trans s' by blast
  show "cas_ok H s'" if "cas_ok H s"
    using write_object_cas [OF w'] cas_ok_same [of s1 s H] q that s' by (simp add: store_quiet_def)
  show "s_io s' = []" if "s_io s = []"
    using write_object_ok(2) [of s1 H "''commit''" "serialize_commit cd"] w' q that s' by (simp add: store_quiet_def)
qed

lemma write_object_no_collision:
  assumes "write_object H tag b s = (h, s')" "no_collision H tag' b' s"
    and "object_hash H tag b = object_hash H tag' b' \<Longrightarrow> bytes_of tag @ b = bytes_of tag' @ b'"
  shows "no_collision H tag' b' s'"
proof -
  note p = write_object_effect [OF assms(1)]
  show ?thesis
  proof (cases "object_hash H tag b = object_hash H tag' b'")
    case True
    note e = assms(3) [OF True]
    show ?thesis
      using p assms(2) True e unfolding put_effect_def no_collision_def
      by (cases "find_object s (object_hash H tag b)") (auto split: option.split)
  next
    case False
    with p assms(2) show ?thesis by (simp add: put_effect_def no_collision_def)
  qed
qed

text \<open>
  The commit objects that a checkpoint can write: of one of the trees it writes, with the
  branch's commit as parent or none. \<open>commits_apart\<close>: they collide neither with the objects of
  the store nor with those trees.
\<close>

definition commit_bodies ::
  "u64 \<Rightarrow> string \<Rightarrow> u64 \<Rightarrow> u32 \<Rightarrow> string \<Rightarrow> refs \<Rightarrow> hash \<Rightarrow> bytes set" where
  "commit_bodies now_ns label session_id policy_version branch r tree =
     (\<lambda>ps. serialize_commit \<lparr>cd_tree_hash = tree, cd_parents = ps, cd_session_id = session_id,
        cd_timestamp_ns = now_ns, cd_label = label, cd_policy_version = policy_version\<rparr>) `
       ({[]} \<union> (\<lambda>p. [p]) ` set_option (ref_of r branch))"

definition checkpoint_bodies ::
  "(bytes \<Rightarrow> hash) \<Rightarrow> u64 \<Rightarrow> string \<Rightarrow> u64 \<Rightarrow> u32 \<Rightarrow> string \<Rightarrow> refs \<Rightarrow> working_tree \<Rightarrow> bytes set" where
  "checkpoint_bodies H ts l si pv b r wt =
     (\<Union>x \<in> set (tree_bodies H wt). commit_bodies ts l si pv b r (tree_hash H x))"

definition commits_apart :: "(bytes \<Rightarrow> hash) \<Rightarrow> store \<Rightarrow> bytes set \<Rightarrow> bytes set \<Rightarrow> bool" where
  "commits_apart H s trees commits \<longleftrightarrow> (\<forall>y \<in> commits. no_collision H ''commit'' y s \<and>
     (\<forall>x \<in> trees. tree_hash H x \<noteq> object_hash H ''commit'' y))"

text \<open>The hashes of the tree objects and commits that a checkpoint can write.\<close>

definition graph_hashes ::
  "(bytes \<Rightarrow> hash) \<Rightarrow> u64 \<Rightarrow> string \<Rightarrow> u64 \<Rightarrow> u32 \<Rightarrow> string \<Rightarrow> refs \<Rightarrow> working_tree \<Rightarrow> hash set" where
  "graph_hashes H ts l si pv b r wt = tree_hash H ` set (tree_bodies H wt) \<union>
     object_hash H ''commit'' ` checkpoint_bodies H ts l si pv b r wt"

lemma write_object_hash: "write_object H tag b s = (h, s') \<Longrightarrow> h = ZERO_HASH \<or> h = object_hash H tag b"
  using write_object_effect [of H tag b s h s'] by (auto simp: put_effect_def)

lemma write_tree_hash: "write_tree H b s = (h, s') \<Longrightarrow> h \<noteq> ZERO_HASH \<Longrightarrow> h = tree_hash H b"
  using write_object_hash [of H "''tree''" b s h s'] by (simp add: write_tree_def tree_hash_def)

lemma make_commit_body:
  assumes "make_commit H t l si pv b tree r s = (Inr c, s')"
  shows "\<exists>x \<in> commit_bodies t l si pv b r tree. c = object_hash H ''commit'' x"
proof -
  obtain parent s1 where r: "read_ref r b s = (parent, s1)" by fastforce
  let ?cd = "\<lparr>cd_tree_hash = tree, cd_parents = (case parent of None \<Rightarrow> [] | Some p \<Rightarrow> [p]),
     cd_session_id = si, cd_timestamp_ns = t, cd_label = l, cd_policy_version = pv\<rparr>"
  obtain c' s2 where w: "write_commit H (serialize_commit ?cd) s1 = (c', s2)" by fastforce
  have "c' = c" "c \<noteq> ZERO_HASH" using assms r w by (auto simp: make_commit_def Let_def split: if_splits)
  then have "c = object_hash H ''commit'' (serialize_commit ?cd)"
    using write_object_hash [OF w [unfolded write_commit_def]] by simp
  moreover have "serialize_commit ?cd \<in> commit_bodies t l si pv b r tree"
    using read_ref_value(1) [OF r] by (auto simp: commit_bodies_def split: option.split)
  ultimately show ?thesis by blast
qed

text \<open>The hashes that the directory loop writes and records are those of the planned bodies.\<close>

lemma write_dirs_hashes:
  assumes "write_dirs H dirs ds dh wr s = ((Inr dh', wr'), s')"
  shows "set wr' \<subseteq> set wr \<union> tree_hash H ` set (plan_bodies H dirs ds dh)"
    "map_of dh' d = Some h \<Longrightarrow> map_of dh d = Some h \<or> h \<in> tree_hash H ` set (plan_bodies H dirs ds dh)"
    "d \<in> set ds \<or> map_of dh d \<noteq> None \<Longrightarrow> map_of dh' d \<noteq> None"
proof -
  have "set wr' \<subseteq> set wr \<union> tree_hash H ` set (plan_bodies H dirs ds dh) \<and>
      (map_of dh' d = Some h \<longrightarrow> map_of dh d = Some h \<or> h \<in> tree_hash H ` set (plan_bodies H dirs ds dh)) \<and>
      (d \<in> set ds \<or> map_of dh d \<noteq> None \<longrightarrow> map_of dh' d \<noteq> None)"
    using assms
  proof (induction ds arbitrary: dh wr s)
    case (Cons a ds)
    let ?b = "serialize_tree_entries (link_children dh a (dir_children dirs a))"
    obtain k t where w: "write_tree H ?b s = (k, t)" by fastforce
    then have k: "k \<noteq> ZERO_HASH" "write_dirs H dirs ds (om_put a k dh) (wr @ [k]) t = ((Inr dh', wr'), s')"
      using Cons.prems by (auto simp: Let_def split: if_splits)
    have kb: "k = tree_hash H ?b" by (rule write_tree_hash [OF w k(1)])
    show ?case using Cons.IH [OF k(2)] kb by (auto simp: Let_def om_simps split: if_splits)
  qed simp
  then show "set wr' \<subseteq> set wr \<union> tree_hash H ` set (plan_bodies H dirs ds dh)"
    "map_of dh' d = Some h \<Longrightarrow> map_of dh d = Some h \<or> h \<in> tree_hash H ` set (plan_bodies H dirs ds dh)"
    "d \<in> set ds \<or> map_of dh d \<noteq> None \<Longrightarrow> map_of dh' d \<noteq> None" by blast+
qed

lemma serialize_hashes:
  assumes "serialize_working_tree H wt s = ((Inr h, wr, lv), s')"
  shows "insert h (set wr) \<subseteq> tree_hash H ` set (tree_bodies H wt)"
proof -
  obtain dirs leaves paths where sc: "scan_dirs wt = (dirs, leaves, paths)" using prod_cases3 by blast
  obtain r1 wr1 s1 where w0: "write_dirs H dirs paths [] [] s = ((r1, wr1), s1)" by (metis prod.collapse)
  obtain dh where r1: "r1 = Inr dh" using assms w0 by (cases r1) (auto simp: serialize_working_tree_def sc)
  note w = w0 [unfolded r1]
  note hs = write_dirs_hashes [OF w]
  show ?thesis
  proof (cases "map_of dh ''/''")
    case (Some h0)
    then have "h0 = h" "wr1 = wr" using assms w by (auto simp: serialize_working_tree_def sc)
    then show ?thesis using hs(1) hs(2) [OF Some] by (auto simp: tree_bodies_def sc)
  next
    case None
    obtain h2 t where w2: "write_tree H (serialize_tree_entries []) s1 = (h2, t)" by fastforce
    have eq: "h2 \<noteq> ZERO_HASH" "h2 = h" "wr = wr1 @ [h2]"
      using assms w None w2 by (auto simp: serialize_working_tree_def sc split: if_splits)
    have "''/'' \<notin> set paths" using hs(3) [of "''/''"] None by blast
    then show ?thesis using hs(1) write_tree_hash [OF w2 eq(1)] eq by (auto simp: tree_bodies_def sc)
  qed
qed

lemma write_dirs_no_collision:
  "write_dirs H dirs ds dh wr s = (r, s') \<Longrightarrow> no_collision H tag b s \<Longrightarrow>
   \<forall>x \<in> set (plan_bodies H dirs ds dh). tree_hash H x \<noteq> object_hash H tag b \<Longrightarrow>
   no_collision H tag b s'"
proof (induction ds arbitrary: dh wr s)
  case (Cons d ds)
  let ?b = "serialize_tree_entries (link_children dh d (dir_children dirs d))"
  obtain h t where w: "write_tree H ?b s = (h, t)" by fastforce
  have t: "no_collision H tag b t"
    using write_object_no_collision [OF w [unfolded write_tree_def] Cons.prems(2)] Cons.prems(3)
    by (auto simp: tree_hash_def Let_def)
  show ?case
  proof (cases "h = ZERO_HASH")
    case True
    with Cons.prems w t show ?thesis by (auto simp: Let_def)
  next
    case False
    with Cons.prems(1) w have r: "write_dirs H dirs ds (om_put d h dh) (wr @ [h]) t = (r, s')" by (simp add: Let_def)
    have "h = tree_hash H ?b" by (rule write_tree_hash [OF w False])
    then show ?thesis using Cons.IH [OF r t] Cons.prems(3) by (simp add: Let_def)
  qed
qed simp

lemma serialize_no_collision:
  assumes "serialize_working_tree H wt s = ((Inr h, wr, lv), s')" "no_collision H tag b s"
    "\<forall>x \<in> set (tree_bodies H wt). tree_hash H x \<noteq> object_hash H tag b"
  shows "no_collision H tag b s'"
proof -
  obtain dirs leaves paths where sc: "scan_dirs wt = (dirs, leaves, paths)" using prod_cases3 by blast
  obtain r1 wr1 s1 where w0: "write_dirs H dirs paths [] [] s = ((r1, wr1), s1)" by (metis prod.collapse)
  obtain dh where r1: "r1 = Inr dh" using assms(1) w0 by (cases r1) (auto simp: serialize_working_tree_def sc)
  note w = w0 [unfolded r1]
  have 1: "no_collision H tag b s1"
    using write_dirs_no_collision [OF w assms(2)] assms(3) by (simp add: tree_bodies_def sc)
  show ?thesis
  proof (cases "map_of dh ''/''")
    case (Some h0)
    then show ?thesis using assms(1) w 1 by (auto simp: serialize_working_tree_def sc)
  next
    case None
    obtain h2 t where w2: "write_tree H (serialize_tree_entries []) s1 = (h2, t)" by fastforce
    have eq: "t = s'" using assms(1) w None w2 by (auto simp: serialize_working_tree_def sc split: if_splits)
    have "''/'' \<notin> set paths" using write_dirs_hashes(3) [OF w, of "''/''"] None by blast
    then have "tree_hash H (serialize_tree_entries []) \<noteq> object_hash H tag b"
      using assms(3) by (simp add: tree_bodies_def sc)
    then show ?thesis
      using write_object_no_collision [OF w2 [unfolded write_tree_def] 1] by (simp add: tree_hash_def eq)
  qed
qed

lemma store_quiet_no_collision: "store_quiet s s' \<Longrightarrow> no_collision H tag b s' = no_collision H tag b s"
  by (simp add: no_collision_def store_quiet_find)

lemma make_commit_success:
  assumes "make_commit H t l si pv b tree r s = (Inr c, s')"
    "\<And>x. x \<in> commit_bodies t l si pv b r tree \<Longrightarrow> no_collision H ''commit'' x s"
  shows "\<exists>cd. payload ''commit'' s' c = Some (serialize_commit cd) \<and> cd_tree_hash cd = tree \<and>
    length (cd_parents cd) \<le> 1 \<and> set (cd_parents cd) \<subseteq> set_option (ref_of r b) \<and> cd_session_id cd = si \<and>
    cd_timestamp_ns cd = t \<and> cd_label cd = l \<and> cd_policy_version cd = pv \<and> c \<noteq> ZERO_HASH \<and>
    (s_io s = [] \<longrightarrow> cd_parents cd = (case ref_of r b of None \<Rightarrow> [] | Some p \<Rightarrow> [p]))"
proof -
  obtain parent s1 where r: "read_ref r b s = (parent, s1)" by fastforce
  have q: "store_quiet s s1" by (rule read_ref_quiet [OF r])
  define cd where "cd = \<lparr>cd_tree_hash = tree, cd_parents = (case parent of None \<Rightarrow> [] | Some p \<Rightarrow> [p]),
     cd_session_id = si, cd_timestamp_ns = t, cd_label = l, cd_policy_version = pv\<rparr>"
  obtain c' s2 where w: "write_commit H (serialize_commit cd) s1 = (c', s2)" by fastforce
  have e: "c' = c" "s2 = s'" "c \<noteq> ZERO_HASH"
    using assms(1) r w by (auto simp: make_commit_def cd_def Let_def split: if_splits)
  have "serialize_commit cd \<in> commit_bodies t l si pv b r tree"
    using read_ref_value(1) [OF r] by (auto simp: commit_bodies_def cd_def split: option.split)
  then have "no_collision H ''commit'' (serialize_commit cd) s1"
    using assms(2) store_quiet_no_collision [OF q] by blast
  then have "payload ''commit'' s' c = Some (serialize_commit cd)"
    using write_object_payload [OF w [unfolded write_commit_def]] e by blast
  moreover have "length (cd_parents cd) \<le> 1" by (simp add: cd_def split: option.split)
  moreover have "set (cd_parents cd) \<subseteq> set_option (ref_of r b)"
    using read_ref_value(1) [OF r] by (auto simp: cd_def split: option.splits)
  moreover have "s_io s = [] \<longrightarrow> cd_parents cd = (case ref_of r b of None \<Rightarrow> [] | Some p \<Rightarrow> [p])"
    using read_ref_value(2) [OF r] by (simp add: cd_def)
  moreover have "cd_tree_hash cd = tree" "cd_session_id cd = si" "cd_timestamp_ns cd = t" "cd_label cd = l"
    "cd_policy_version cd = pv" by (simp_all add: cd_def)
  ultimately show ?thesis using e(3) by blast
qed

section \<open>The barriers\<close>

lemma fsync_objects_other:
  "fsync_objects hs s = (b, s') \<Longrightarrow> h \<notin> set hs \<Longrightarrow> find_object s' h = find_object s h"
  by (induction hs s arbitrary: b s' rule: fsync_objects.induct)
     (auto simp: Let_def dest!: next_io_upd split: prod.splits option.splits)

lemma fsync_shards_synced:
  "fsync_shards ds s = (b, s') \<Longrightarrow> map_option o_synced (find_object s' h) = map_option o_synced (find_object s h)"
  by (induction ds s arbitrary: b s' rule: fsync_shards.induct)
     (auto simp: Let_def find_link_shard option.map_comp comp_def dest!: next_io_upd
       split: prod.splits option.splits if_splits)

lemma fsync_shard_dirs_synced:
  assumes "fsync_shard_dirs hs s = (b, s')"
  shows "map_option o_synced (find_object s' h) = map_option o_synced (find_object s h)"
proof -
  obtain x t where f: "fsync_shards (sort (remdups (map shard_of hs))) s = (x, t)" by fastforce
  note fs = fsync_shards_synced [OF f, of h]
  show ?thesis
    using assms f fs
    by (cases x) (auto simp: fsync_shard_dirs_def Let_def dest!: next_io_upd split: prod.splits option.splits if_splits)
qed

lemma restore_pending_set [simp]: "set (s_pending (restore_pending hs s)) = set hs \<union> set (s_pending s)"
proof -
  have "set (fold set_put hs xs) = set hs \<union> set xs" for xs :: "hash list"
    by (induction hs arbitrary: xs) auto
  then show ?thesis by (simp add: restore_pending_def)
qed

lemma restore_pending_fields [simp]:
  "s_objects (restore_pending hs s) = s_objects s" "s_root (restore_pending hs s) = s_root s"
  "s_shards (restore_pending hs s) = s_shards s" "s_shards_durable (restore_pending hs s) = s_shards_durable s"
  "s_io (restore_pending hs s) = s_io s" "find_object (restore_pending hs s) = find_object s"
  by (simp_all add: restore_pending_def)

lemma store_le_pending: "store_le s (s'\<lparr>s_pending := p\<rparr>) = store_le s s'"
  "store_le (s\<lparr>s_pending := p\<rparr>) s' = store_le s s'"
  by (simp_all add: store_le_def)

text \<open>What the barriers of a checkpoint achieve.\<close>

lemma sync_commit_effect:
  assumes "sync_commit wt wr c s = (e, s')"
  shows "store_le s s'" "cas_ok H s \<Longrightarrow> cas_ok H s'"
    "e = None \<Longrightarrow> s_pending s' = [] \<and> (\<forall>h \<in> set (s_pending s) \<inter> committed_graph wt wr c. durable s' h)"
    "e \<noteq> None \<Longrightarrow> set (s_pending s') = set (s_pending s)"
    "h \<notin> set (s_pending s) \<inter> committed_graph wt wr c \<Longrightarrow>
       map_option o_synced (find_object s' h) = map_option o_synced (find_object s h)"
    "set (s_shards_durable s) \<subseteq> set (s_shards s) \<Longrightarrow> set (s_shards_durable s') \<subseteq> set (s_shards s') \<and> (durable s k \<longrightarrow> durable s' k)"
    "payload tag s' k = payload tag s k"
proof -
  let ?l = "filter_to_committed_graph (s_pending s) wt wr c"
  have l: "set ?l = set (s_pending s) \<inter> committed_graph wt wr c"
    by (auto simp: filter_to_committed_graph_def)
  let ?s0 = "s\<lparr>s_pending := []\<rparr>"
  obtain b1 t1 where f1: "fsync_objects ?l ?s0 = (b1, t1)" by fastforce
  obtain b2 t2 where f2: "fsync_shard_dirs ?l t1 = (b2, t2)" by fastforce
  note e1 = fsync_objects_effect [OF f1] and e2 = fsync_shard_dirs_effect [OF f2]
  have sd: "same_data ?s0 t1" "same_data t1 t2" "same_data ?s0 t2" using e1 e2 same_data_trans by blast+
  have pend: "s_pending t1 = []" "s_pending t2 = []" using sd by (auto simp: same_data_def)
  have cases: "(e = None \<and> b1 \<and> b2 \<and> s' = t2) \<or> (e \<noteq> None \<and> (s' = restore_pending (s_pending s) t1 \<or> s' = restore_pending (s_pending s) t2))"
    using assms f1 f2 by (cases b1; cases b2) (auto simp: sync_commit_def drain_pending_def Let_def)
  have le: "store_le ?s0 t1" "store_le ?s0 t2" using sd same_data_le by blast+
  have rle: "store_le a (restore_pending hs b) = store_le a b" for a b hs by (simp add: store_le_def)
  have le': "store_le s t1" "store_le s t2" using le by (simp_all add: store_le_pending)
  show "store_le s s'" using cases le' rle by metis
  have cas: "cas_ok H t1 \<and> cas_ok H t2" if "cas_ok H s"
  proof -
    have "cas_ok H ?s0" using that cas_ok_same [of ?s0 s H] by simp
    then show ?thesis using same_data_cas [OF sd(1)] same_data_cas [OF sd(3)] by blast
  qed
  show "cas_ok H s'" if "cas_ok H s"
  proof -
    have "cas_ok H (restore_pending hs u) = cas_ok H u" for hs u by (rule cas_ok_same) simp
    with cas [OF that] cases show ?thesis by metis
  qed
  show "s_pending s' = [] \<and> (\<forall>h \<in> set (s_pending s) \<inter> committed_graph wt wr c. durable s' h)" if "e = None"
    using that cases pend barriers_durable [of ?l ?s0 t1 t2] f1 f2 l by auto
  show "set (s_pending s') = set (s_pending s)" if "e \<noteq> None"
    using that cases pend by auto
  show "map_option o_synced (find_object s' h) = map_option o_synced (find_object s h)"
    if "h \<notin> set (s_pending s) \<inter> committed_graph wt wr c"
  proof -
    have "find_object t1 h = find_object s h" using fsync_objects_other [OF f1, of h] that l by simp
    with fsync_shard_dirs_synced [OF f2, of h] cases show ?thesis by auto
  qed
  have dmono: "set (s_shards_durable u) \<subseteq> set (s_shards u) \<and> (durable s k \<longrightarrow> durable u k)"
    if sub: "set (s_shards_durable s) \<subseteq> set (s_shards s)" and u: "same_data ?s0 u"
      "s_shards_durable u = s_shards_durable s \<or> s_shards_durable u = s_shards s" for u
  proof -
    have sh: "s_shards u = s_shards s" using u(1) by (simp add: same_data_def)
    have "durable u k" if d: "durable s k"
    proof -
      obtain ob where ob: "find_object s k = Some ob" "o_synced ob" "o_linked ob" "shard_of k \<in> set (s_shards_durable s)"
        using d by (auto simp: durable_def split: option.splits)
      then obtain ob' where "find_object u k = Some ob'" "object_le ob ob'"
        using same_dataD [OF u(1), of k ob] by auto
      with ob sub u(2) show ?thesis by (auto simp: durable_def object_le_def)
    qed
    with sub sh u(2) show ?thesis by auto
  qed
  have d1: "s_shards_durable t1 = s_shards_durable s" using e1 by simp
  have d2: "s_shards_durable t2 = s_shards_durable s \<or> s_shards_durable t2 = s_shards s"
  proof -
    obtain x t where f: "fsync_shards (sort (remdups (map shard_of ?l))) t1 = (x, t)" by fastforce
    have "s_shards_durable t = s_shards_durable s" "s_shards t = s_shards s"
      using fsync_shards_effect [OF f] d1 sd(1) by (auto simp: same_data_def)
    then show ?thesis
      using f2 f d1
      by (cases x) (auto simp: fsync_shard_dirs_def Let_def dest!: next_io_upd split: prod.splits option.splits if_splits)
  qed
  have dr: "durable (restore_pending hs u) k = durable u k" for hs u
    by (simp add: durable_def split: option.split)
  show "set (s_shards_durable s') \<subseteq> set (s_shards s') \<and> (durable s k \<longrightarrow> durable s' k)"
    if "set (s_shards_durable s) \<subseteq> set (s_shards s)"
    using dmono [OF that sd(1)] dmono [OF that sd(3)] d1 d2 cases dr by auto
  have pr: "payload tag (restore_pending hs u) k = payload tag u k" "payload tag ?s0 k = payload tag s k" for hs u
    by (simp_all add: payload_def)
  show "payload tag s' k = payload tag s k"
    using cases pr same_data_payload [OF sd(1), of tag k] same_data_payload [OF sd(3), of tag k] by auto
qed

section \<open>What writing does to durability\<close>

text \<open>
  Writers keep the flags of the objects that exist (an adopted object only gets a new time),
  do not add those to the pending set, and what they create is pending.
\<close>

definition wrote :: "store \<Rightarrow> store \<Rightarrow> bool" where
  "wrote s s' \<longleftrightarrow> s_shards_durable s' = s_shards_durable s \<and> set (s_shards s) \<subseteq> set (s_shards s') \<and>
     (\<forall>h. case find_object s h of
        Some ob \<Rightarrow> (\<exists>t. find_object s' h = Some (ob\<lparr>o_mtime := t\<rparr>)) \<and> (h \<in> set (s_pending s') \<longleftrightarrow> h \<in> set (s_pending s))
      | None \<Rightarrow> (find_object s' h \<noteq> None \<longrightarrow> h \<in> set (s_pending s')) \<and> (h \<in> set (s_pending s) \<longrightarrow> h \<in> set (s_pending s')))"

lemma wrote_some:
  "wrote s s' \<Longrightarrow> find_object s h = Some ob \<Longrightarrow>
   (\<exists>t. find_object s' h = Some (ob\<lparr>o_mtime := t\<rparr>)) \<and> (h \<in> set (s_pending s') \<longleftrightarrow> h \<in> set (s_pending s))"
  by (auto simp: wrote_def dest!: spec [of _ h])

lemma wrote_none:
  "wrote s s' \<Longrightarrow> find_object s h = None \<Longrightarrow>
   (find_object s' h \<noteq> None \<longrightarrow> h \<in> set (s_pending s')) \<and> (h \<in> set (s_pending s) \<longrightarrow> h \<in> set (s_pending s'))"
  by (auto simp: wrote_def dest!: spec [of _ h])

lemma wrote_quiet: "store_quiet s s' \<Longrightarrow> wrote s s'"
  using store_quiet_find [of s s'] by (auto simp: wrote_def store_quiet_def object_mtime_ex split: option.split)

lemma wrote_trans:
  assumes a: "wrote s t" and b: "wrote t u"
  shows "wrote s u"
proof -
  have "case find_object s h of
        Some ob \<Rightarrow> (\<exists>t. find_object u h = Some (ob\<lparr>o_mtime := t\<rparr>)) \<and> (h \<in> set (s_pending u) \<longleftrightarrow> h \<in> set (s_pending s))
      | None \<Rightarrow> (find_object u h \<noteq> None \<longrightarrow> h \<in> set (s_pending u)) \<and> (h \<in> set (s_pending s) \<longrightarrow> h \<in> set (s_pending u))" for h
  proof (cases "find_object s h")
    case (Some ob)
    then obtain t1 where t1: "find_object t h = Some (ob\<lparr>o_mtime := t1\<rparr>)" "h \<in> set (s_pending t) \<longleftrightarrow> h \<in> set (s_pending s)"
      using wrote_some [OF a] by blast
    then obtain t2 where "find_object u h = Some (ob\<lparr>o_mtime := t1\<rparr>\<lparr>o_mtime := t2\<rparr>)"
      "h \<in> set (s_pending u) \<longleftrightarrow> h \<in> set (s_pending t)" using wrote_some [OF b] by blast
    with t1 Some show ?thesis by (simp, blast)
  next
    case None
    note n = wrote_none [OF a None]
    show ?thesis
    proof (cases "find_object t h")
      case (Some ob)
      then show ?thesis using n wrote_some [OF b Some] None by auto
    next
      case (None)
      then show ?thesis using n wrote_none [OF b None] \<open>find_object s h = None\<close> by auto
    qed
  qed
  with a b show ?thesis by (auto simp: wrote_def)
qed

lemma refresh_mtime_sd: "refresh_mtime h s = (r, s') \<Longrightarrow> s_shards_durable s' = s_shards_durable s"
  by (auto simp: refresh_mtime_def dest!: next_io_upd split: prod.splits option.splits)

lemma messages_sd [simp]:
  "s_shards_durable (refresh_error t h f s) = s_shards_durable s"
  "s_shards_durable (mkdir_error t h f s) = s_shards_durable s"
  "s_shards_durable (tmp_error t w n f s) = s_shards_durable s"
  "s_shards_durable (rename_error t h n m s) = s_shards_durable s"
  "s_shards_durable (set_last_error e s) = s_shards_durable s"
  by (simp_all add: refresh_error_def mkdir_error_def tmp_error_def rename_error_def set_last_error_def)

lemma write_tmp_sd: "write_tmp tag b h s = (r, s') \<Longrightarrow> s_shards_durable s' = s_shards_durable s"
  by (auto simp: write_tmp_def Let_def dest!: next_io_upd random_tmp_name_upd
      split: prod.splits option.splits if_splits)

lemma write_publish_sd: "write_publish tag h n s = (r, s') \<Longrightarrow> s_shards_durable s' = s_shards_durable s"
  by (auto simp: write_publish_def dest!: next_io_upd refresh_mtime_sd
      split: prod.splits option.splits if_splits)

lemma write_object_sd: "write_object H tag b s = (r, s') \<Longrightarrow> s_shards_durable s' = s_shards_durable s"
  by (auto simp: write_object_def write_adopt_def Let_def
      dest!: refresh_mtime_sd write_tmp_sd write_publish_sd split: prod.splits option.splits if_splits)

lemma write_object_wrote:
  assumes "write_object H tag b s = (r, s')"
  shows "wrote s s'"
proof -
  let ?h = "object_hash H tag b"
  note p = write_object_effect [OF assms]
  have pend: "set (s_pending s') \<subseteq> insert ?h (set (s_pending s))" "set (s_pending s) \<subseteq> set (s_pending s')"
  proof -
    have "s_pending s' = s_pending s \<or> s_pending s' = set_put ?h (s_pending s)"
    proof (cases "find_object s ?h")
      case (Some ob)
      then show ?thesis using p by (simp add: put_effect_def)
    next
      case None
      then show ?thesis using p by (cases "find_object s' ?h") (simp_all add: put_effect_def)
    qed
    then show "set (s_pending s') \<subseteq> insert ?h (set (s_pending s))" "set (s_pending s) \<subseteq> set (s_pending s')"
      by auto
  qed
  have "case find_object s h of
        Some ob \<Rightarrow> (\<exists>t. find_object s' h = Some (ob\<lparr>o_mtime := t\<rparr>)) \<and> (h \<in> set (s_pending s') \<longleftrightarrow> h \<in> set (s_pending s))
      | None \<Rightarrow> (find_object s' h \<noteq> None \<longrightarrow> h \<in> set (s_pending s')) \<and> (h \<in> set (s_pending s) \<longrightarrow> h \<in> set (s_pending s'))" for h
  proof (cases "h = ?h")
    case True
    show ?thesis
    proof (cases "find_object s ?h")
      case (Some ob)
      then show ?thesis using p by (simp add: True put_effect_def)
    next
      case None
      then show ?thesis using p pend by (cases "find_object s' ?h") (auto simp: True put_effect_def)
    qed
  next
    case False
    then have "find_object s' h = find_object s h" using p by (simp add: put_effect_def)
    with False pend show ?thesis by (auto simp: object_mtime_ex split: option.split)
  qed
  moreover have "set (s_shards s) \<subseteq> set (s_shards s')" using p by (simp add: put_effect_def)
  ultimately show ?thesis using write_object_sd [OF assms] by (simp add: wrote_def)
qed

lemma wrote_refl [simp]: "wrote s s"
  by (simp add: wrote_quiet)

lemma write_dirs_wrote: "write_dirs H dirs ds dh wr s = (r, s') \<Longrightarrow> wrote s s'"
proof (induction ds arbitrary: dh wr s)
  case (Cons d ds)
  let ?b = "serialize_tree_entries (link_children dh d (dir_children dirs d))"
  obtain h t where w: "write_tree H ?b s = (h, t)" by fastforce
  then have t: "wrote s t" by (auto simp: write_tree_def dest: write_object_wrote)
  show ?case
  proof (cases "h = ZERO_HASH")
    case True
    with Cons.prems w t show ?thesis by (auto simp: Let_def)
  next
    case False
    with Cons.prems w have "write_dirs H dirs ds (om_put d h dh) (wr @ [h]) t = (r, s')" by (simp add: Let_def)
    with Cons.IH t wrote_trans show ?thesis by blast
  qed
qed simp

lemma serialize_wrote:
  assumes "serialize_working_tree H wt s = (r, s')"
  shows "wrote s s'"
proof -
  obtain dirs leaves paths where sc: "scan_dirs wt = (dirs, leaves, paths)" using prod_cases3 by blast
  obtain r1 wr s1 where w: "write_dirs H dirs paths [] [] s = ((r1, wr), s1)" by (metis prod.collapse)
  obtain h t where w2: "write_tree H (serialize_tree_entries []) s1 = (h, t)" by fastforce
  have "wrote s s1" "wrote s1 t"
    using write_dirs_wrote [OF w] w2 by (auto simp: write_tree_def dest: write_object_wrote)
  moreover have "s' = s1 \<or> s' = t"
    using assms w w2 by (auto simp: serialize_working_tree_def sc split: sum.splits option.splits if_splits)
  ultimately show ?thesis using wrote_trans by blast
qed

lemma make_commit_wrote:
  assumes "make_commit H t l si pv b tree r s = (x, s')"
  shows "wrote s s'"
proof -
  obtain parent s1 where r: "read_ref r b s = (parent, s1)" by fastforce
  have "wrote s s1" using wrote_quiet [OF read_ref_quiet [OF r]] .
  moreover have "wrote s1 s'"
    using assms r by (auto simp: make_commit_def write_commit_def Let_def dest!: write_object_wrote split: prod.splits)
  ultimately show ?thesis by (rule wrote_trans)
qed

text \<open>Each stored object is pending or survives a crash.\<close>

definition dur_inv :: "store \<Rightarrow> bool" where
  "dur_inv s \<longleftrightarrow> set (s_shards_durable s) \<subseteq> set (s_shards s) \<and>
     (\<forall>h. find_object s h \<noteq> None \<longrightarrow> h \<in> set (s_pending s) \<or> durable s h)"

text \<open>An object whose data was not synced and that no pending entry will sync.\<close>

definition stale :: "store \<Rightarrow> hash \<Rightarrow> bool" where
  "stale s h \<longleftrightarrow> (\<exists>ob. find_object s h = Some ob \<and> \<not> o_synced ob) \<and> h \<notin> set (s_pending s)"

lemma wrote_durable: "wrote s s' \<Longrightarrow> durable s h \<Longrightarrow> durable s' h"
proof -
  assume w: "wrote s s'" and d: "durable s h"
  then obtain ob where ob: "find_object s h = Some ob" "o_synced ob" "o_linked ob" "shard_of h \<in> set (s_shards_durable s)"
    by (auto simp: durable_def split: option.splits)
  with wrote_some [OF w ob(1)] w show ?thesis by (auto simp: durable_def wrote_def)
qed

lemma wrote_dur_inv:
  assumes w: "wrote s s'" and i: "dur_inv s"
  shows "dur_inv s'"
proof -
  have "h \<in> set (s_pending s') \<or> durable s' h" if "find_object s' h \<noteq> None" for h
  proof (cases "find_object s h")
    case None
    then show ?thesis using wrote_none [OF w None] that by blast
  next
    case (Some ob)
    then show ?thesis using wrote_some [OF w Some] i wrote_durable [OF w] by (auto simp: dur_inv_def)
  qed
  moreover have "set (s_shards_durable s') \<subseteq> set (s_shards s')"
    using w i by (auto simp: wrote_def dur_inv_def)
  ultimately show ?thesis by (simp add: dur_inv_def)
qed

text \<open>An object that a crash loses and that no pending entry will sync.\<close>

definition left_behind :: "store \<Rightarrow> hash \<Rightarrow> bool" where
  "left_behind s h \<longleftrightarrow> find_object s h \<noteq> None \<and> h \<notin> set (s_pending s) \<and> \<not> durable s h"

lemma wrote_protected:
  assumes w: "wrote s s'" and h: "\<not> left_behind s h" "find_object s' h \<noteq> None"
  shows "h \<in> set (s_pending s') \<or> durable s' h"
proof (cases "find_object s h")
  case None
  then show ?thesis using wrote_none [OF w None] h(2) by blast
next
  case (Some ob)
  then show ?thesis using wrote_some [OF w Some] h(1) wrote_durable [OF w] by (auto simp: left_behind_def)
qed

lemma dur_inv_protected: "dur_inv s \<Longrightarrow> \<not> left_behind s h"
  by (auto simp: dur_inv_def left_behind_def)

lemma stale_left_behind: "stale s h \<Longrightarrow> left_behind s h"
  by (auto simp: stale_def left_behind_def durable_def)

lemma wrote_stale: "wrote s s' \<Longrightarrow> stale s h \<Longrightarrow> stale s' h"
  unfolding stale_def using wrote_some by fastforce

lemma stale_not_durable: "stale s h \<Longrightarrow> \<not> durable s h"
  by (auto simp: stale_def durable_def)

lemma sync_commit_stale:
  assumes "sync_commit wt wr c s = (e, s')" "stale s h"
  shows "stale s' h"
proof -
  have "map_option o_synced (find_object s' h) = map_option o_synced (find_object s h)"
    using sync_commit_effect(5) [OF assms(1), of h] assms(2) by (simp add: stale_def)
  moreover have "h \<notin> set (s_pending s')"
    using sync_commit_effect(3,4) [OF assms(1)] assms(2) by (cases e) (auto simp: stale_def)
  ultimately show ?thesis using assms(2) by (auto simp: stale_def)
qed

section \<open>A run of a checkpoint\<close>

lemma checkpoint_success:
  assumes run: "checkpoint_locked H t flush l si pv b rp = (Inr c, rp')"
  obtains wt1 s1 tree wr lv s2 s3 s4 r5 s5 where
    "flush (rp_wt rp) (rp_store rp) = (True, wt1, s1)"
    "serialize_working_tree H wt1 s1 = ((Inr tree, wr, lv), s2)"
    "make_commit H t l si pv b tree (rp_refs rp) s2 = (Inr c, s3)"
    "sync_commit wt1 wr c s3 = (None, s4)"
    "write_ref b c (rp_refs rp) s4 = (True, r5, s5)"
    "rp' = rp\<lparr>rp_wt := wt1, rp_refs := r5, rp_store := s5\<rparr>"
  using assms unfolding checkpoint_locked_def Let_def
  by (auto split: prod.splits sum.splits option.splits if_splits)

lemma checkpoint_refs:
  assumes "checkpoint_locked H t flush l si pv b rp = (x, rp')"
  shows "rp_refs rp' = rp_refs rp \<and> (\<forall>c. x \<noteq> Inr c) \<or>
    (\<exists>c s s' ok. write_ref b c (rp_refs rp) s = (ok, rp_refs rp', s') \<and> (ok \<longleftrightarrow> x = Inr c) \<and> (\<forall>c'. x = Inr c' \<longrightarrow> ok))"
  using assms unfolding checkpoint_locked_def Let_def
  by (auto split: prod.splits sum.splits option.splits if_splits; metis)

lemma checkpoint_outcome:
  assumes "checkpoint_locked H t flush l si pv b rp = (x, rp')"
  obtains (unmoved) "rp_refs rp' = rp_refs rp" "\<And>c. x \<noteq> Inr c"
  | (moved) wt1 s1 tree wr lv s2 c s3 s4 ok r5 s5 where
    "flush (rp_wt rp) (rp_store rp) = (True, wt1, s1)"
    "serialize_working_tree H wt1 s1 = ((Inr tree, wr, lv), s2)"
    "make_commit H t l si pv b tree (rp_refs rp) s2 = (Inr c, s3)"
    "sync_commit wt1 wr c s3 = (None, s4)" "write_ref b c (rp_refs rp) s4 = (ok, r5, s5)"
    "rp' = rp\<lparr>rp_wt := wt1, rp_refs := r5, rp_store := s5\<rparr>"
    "x = (if ok then Inr c else Inl (''failed to advance refs/'' @ b))"
  using assms unfolding checkpoint_locked_def Let_def
  by (auto split: prod.splits sum.splits option.splits if_splits)

text \<open>The commit that a checkpoint makes.\<close>

lemma make_commit_made:
  assumes "make_commit H t l si pv b tree r s = (Inr c, s')"
  shows "\<exists>cd. c = object_hash H ''commit'' (serialize_commit cd) \<and> cd_tree_hash cd = tree \<and>
    length (cd_parents cd) \<le> 1 \<and> set (cd_parents cd) \<subseteq> set_option (ref_of r b) \<and> cd_session_id cd = si \<and>
    cd_timestamp_ns cd = t \<and> cd_label cd = l \<and> cd_policy_version cd = pv \<and>
    (s_io s = [] \<longrightarrow> cd_parents cd = (case ref_of r b of None \<Rightarrow> [] | Some p \<Rightarrow> [p])) \<and> find_object s' c \<noteq> None"
proof -
  obtain parent s1 where r: "read_ref r b s = (parent, s1)" by fastforce
  let ?cd = "\<lparr>cd_tree_hash = tree, cd_parents = (case parent of None \<Rightarrow> [] | Some p \<Rightarrow> [p]),
     cd_session_id = si, cd_timestamp_ns = t, cd_label = l, cd_policy_version = pv\<rparr>"
  obtain c' s2 where w: "write_commit H (serialize_commit ?cd) s1 = (c', s2)" by fastforce
  have e: "c' = c" "s2 = s'" "c \<noteq> ZERO_HASH" using assms r w by (auto simp: make_commit_def Let_def split: if_splits)
  note wr = w [unfolded write_commit_def]
  have "c = object_hash H ''commit'' (serialize_commit ?cd)" using write_object_hash [OF wr] e by simp
  moreover have "find_object s' c \<noteq> None" using write_object_effect [OF wr] e by (auto simp: put_effect_def split: option.splits)
  ultimately show ?thesis
    using read_ref_value [OF r] by (intro exI [of _ ?cd]) (auto split: option.split)
qed

text \<open>Each hash that serialization reports as written is a tree object of the store.\<close>

lemma serialize_written:
  assumes ok: "tree_ok wt" and apart: "trees_apart H s (set (tree_bodies H wt))"
    and ser: "serialize_working_tree H wt s = ((Inr h, wr, lv), s')" and k: "k \<in> set wr"
  shows "payload ''tree'' s' k \<noteq> None"
proof -
  have wf: "wt_wf wt" using ok by (simp add: tree_ok_def)
  obtain dirs leaves paths where sc: "scan_dirs wt = (dirs, leaves, paths)" using prod_cases3 by blast
  note sp = scan_dirs_spec [OF wf sc]
  obtain r wr1 s1 where w: "write_dirs H dirs paths [] [] s = ((r, wr1), s1)" by (metis prod.collapse)
  obtain dh where dh: "r = Inr dh" using ser w by (cases r) (auto simp: serialize_working_tree_def sc)
  have kids: "length d < length (join_path d n)" if "(n, e) \<in> set (dir_children dirs d)" for d n e
    using that sp(3) children_in_mem [OF ok] length_join by auto
  have planB: "set (plan_bodies H dirs paths []) \<subseteq> set (tree_bodies H wt)" by (simp add: tree_bodies_def sc)
  note ws = write_dirs_spec [OF w [unfolded dh] sp(1,2) kids apart planB]
  have wr1: "payload ''tree'' s1 k \<noteq> None" if "k \<in> set wr1" for k using ws that by (auto simp: Let_def)
  show ?thesis
  proof (cases "map_of dh ''/''")
    case (Some h0)
    then show ?thesis using ser w dh k wr1 by (auto simp: serialize_working_tree_def sc)
  next
    case None
    obtain h1 s2 where w2: "write_tree H (serialize_tree_entries []) s1 = (h1, s2)" by fastforce
    have eq: "h1 \<noteq> ZERO_HASH" "s' = s2" "wr = wr1 @ [h1]"
      using ser w dh None w2 by (auto simp: serialize_working_tree_def sc split: if_splits)
    have "''/'' \<notin> set paths" using ws None by (auto simp: Let_def)
    then have "serialize_tree_entries [] \<in> set (tree_bodies H wt)" by (simp add: tree_bodies_def sc)
    then have "no_collision H ''tree'' (serialize_tree_entries []) s1" using ws by (simp add: trees_apart_def)
    then have "payload ''tree'' s2 h1 = Some (serialize_tree_entries [])"
      using write_object_payload [OF w2 [unfolded write_tree_def] eq(1)] by blast
    moreover have "payload ''tree'' s2 k \<noteq> None" if "k \<in> set wr1" for k
      using wr1 [OF that] payload_mono [OF write_object_le [OF w2 [unfolded write_tree_def]]] by blast
    ultimately show ?thesis using eq k by auto
  qed
qed

text \<open>A checkpoint is restored from any store that has its commit and its tree objects.\<close>

definition restorable :: "store \<Rightarrow> store \<Rightarrow> hash list \<Rightarrow> hash \<Rightarrow> bool" where
  "restorable s t wr c \<longleftrightarrow> s_io t = [] \<and>
     (\<forall>x. payload ''commit'' s c = Some x \<longrightarrow> payload ''commit'' t c = Some x) \<and>
     (\<forall>k x. k \<in> set wr \<longrightarrow> payload ''tree'' s k = Some x \<longrightarrow> payload ''tree'' t k = Some x)"

lemma read_object_ok: "s_io s = [] \<Longrightarrow> read_object h tag s = (payload tag s h, s)"
proof -
  assume io: "s_io s = []"
  obtain r t where r: "read_object h tag s = (r, t)" by fastforce
  note sm = read_object_same [OF r]
  have "r = payload tag s h" "s_io t = []" using sm(4) io by simp_all
  moreover obtain io' where "t = s\<lparr>s_io := io'\<rparr>" using sm(5) by blast
  ultimately show ?thesis using r io by simp
qed

lemma payload_found: "payload tag s h = Some b \<Longrightarrow> find_object s h \<noteq> None"
  by (auto simp: payload_def split: option.splits)

lemma rollback_to_hash:
  assumes io: "s_io t = []" and c: "payload ''commit'' t c = Some (serialize_commit cd)" "c \<noteq> ZERO_HASH"
    "length (cd_parents cd) < 2 ^ 27" and rb: "rebuild_working_tree (cd_tree_hash cd) wt0 t = Some (Inr wt', t)"
    and w: "write_ref b c r t = (True, r', t')"
  shows "rollback_locked (hash_to_hex c) b \<lparr>rp_wt = wt0, rp_refs = r, rp_store = t\<rparr> =
    Some (Inr c, True, \<lparr>rp_wt = wt', rp_refs = r', rp_store = t'\<rparr>)"
proof -
  have ex: "object_exists c t = (True, t)"
    using io payload_found [OF c(1)] by (simp add: object_exists_def next_io_def)
  have rt: "resolve_target (hash_to_hex c) b r t = (c, t)"
    by (simp add: resolve_target_def resolve_hash_def ex)
  have rc: "read_commit c t = (Some (serialize_commit cd), t)"
    using read_object_ok [OF io] c(1) by (simp add: read_commit_def)
  have dc: "decoded (deserialize_commit (serialize_commit cd)) =
      Some (cd\<lparr>cd_label := take (length (cd_label cd) mod 65536) (cd_label cd)\<rparr>)"
    using commit_codec [OF c(3)] by simp
  show ?thesis
    using c(2) rb w by (simp add: rollback_locked_def rt rc dc)
qed

lemma checkpoint_restores:
  assumes run: "checkpoint_locked H ts flush l si pv b rp = (Inr c, rp')"
    and fl: "flush (rp_wt rp) (rp_store rp) = (True, wt1, s1)"
    and ok: "tree_ok wt1" "trees_apart H s1 (set (tree_bodies H wt1))"
      "commits_apart H s1 (set (tree_bodies H wt1)) (checkpoint_bodies H ts l si pv b (rp_refs rp) wt1)"
  obtains wr where "\<And>t wt0 r. restorable (rp_store rp') t wr c \<Longrightarrow>
      \<exists>rp''. rollback_locked (hash_to_hex c) b \<lparr>rp_wt = wt0, rp_refs = r, rp_store = t\<rparr> = Some (Inr c, True, rp'') \<and>
        wt_inv (rp_wt rp'') \<and> ref_of (rp_refs rp'') b = Some c \<and>
        (\<forall>p. rel_option same_entry (lookup_raw p wt1) (lookup_raw p (rp_wt rp'')))"
    "\<And>k. k \<in> set wr \<union> {c} \<Longrightarrow> find_object (rp_store rp') k \<noteq> None"
    "\<And>k. set (s_shards_durable s1) \<subseteq> set (s_shards s1) \<Longrightarrow> k \<in> committed_graph wt1 wr c \<Longrightarrow>
       find_object (rp_store rp') k \<noteq> None \<Longrightarrow> \<not> left_behind s1 k \<Longrightarrow> durable (rp_store rp') k"
    "set wr \<union> {c} \<subseteq> graph_hashes H ts l si pv b (rp_refs rp) wt1"
    "\<And>k. stale s1 k \<Longrightarrow> stale (rp_store rp') k" "store_le s1 (rp_store rp')"
    "rp_wt rp' = wt1" "ref_of (rp_refs rp') b = Some c" "durable_ref (rp_refs rp') b = Some c"
    "s_pending (rp_store rp') = []"
proof -
  obtain tree wr lv s2 s3 s4 r5 s5 where st:
    "serialize_working_tree H wt1 s1 = ((Inr tree, wr, lv), s2)"
    "make_commit H ts l si pv b tree (rp_refs rp) s2 = (Inr c, s3)"
    "sync_commit wt1 wr c s3 = (None, s4)"
    "write_ref b c (rp_refs rp) s4 = (True, r5, s5)"
    "rp' = rp\<lparr>rp_wt := wt1, rp_refs := r5, rp_store := s5\<rparr>"
    using run fl by (elim checkpoint_success) auto
  have nc: "no_collision H ''commit'' x s2" if "x \<in> commit_bodies ts l si pv b (rp_refs rp) tree" for x
  proof -
    have "x \<in> checkpoint_bodies H ts l si pv b (rp_refs rp) wt1"
      using serialize_hashes [OF st(1)] that by (auto simp: checkpoint_bodies_def)
    then show ?thesis using serialize_no_collision [OF st(1), of "''commit''" x] ok(3) by (auto simp: commits_apart_def)
  qed
  obtain cd where cd: "payload ''commit'' s3 c = Some (serialize_commit cd)" "cd_tree_hash cd = tree"
    "length (cd_parents cd) \<le> 1" "c \<noteq> ZERO_HASH"
    using make_commit_success [OF st(2) nc] by blast
  have q5: "store_quiet s4 s5" by (rule write_ref_effect(1) [OF st(4)])
  have le: "store_le s2 s3" "store_le s3 s4" "store_le s4 s5"
    using make_commit_effect(1) [OF st(2)] sync_commit_effect(1) [OF st(3)] store_quiet_le [OF q5] by blast+
  have le25: "store_le s2 s5" using le store_le_trans by blast
  have p5: "payload ''commit'' s5 c = Some (serialize_commit cd)"
    using cd(1) payload_mono le(2,3) by blast
  have tree_pay: "k \<in> set wr \<Longrightarrow> payload ''tree'' s2 k \<noteq> None" for k
    using serialize_written [OF ok(1,2) st(1)] by blast
  have w13: "wrote s1 s3" by (rule wrote_trans [OF serialize_wrote [OF st(1)] make_commit_wrote [OF st(2)]])
  have dur: "durable s5 k" if d: "set (s_shards_durable s1) \<subseteq> set (s_shards s1)" "k \<in> committed_graph wt1 wr c"
      "find_object s5 k \<noteq> None" "\<not> left_behind s1 k" for k
  proof -
    have d3: "set (s_shards_durable s3) \<subseteq> set (s_shards s3)" using w13 d(1) by (auto simp: wrote_def)
    have f4: "find_object s4 k \<noteq> None" using d(3) store_quiet_find [OF q5] by simp
    have "durable s4 k"
    proof (cases "k \<in> set (s_pending s3)")
      case True
      then show ?thesis using sync_commit_effect(3) [OF st(3)] d(2) by blast
    next
      case False
      have "find_object s3 k \<noteq> None"
        using sync_commit_effect(5) [OF st(3), of k] False f4 by (cases "find_object s3 k") auto
      with wrote_protected [OF w13 d(4)] False have "durable s3 k" by blast
      then show ?thesis using sync_commit_effect(6) [OF st(3) d3, of k] by blast
    qed
    then show ?thesis using store_quiet_durable [OF q5] by simp
  qed
  have old: "stale s5 k" if "stale s1 k" for k
    using wrote_stale [OF wrote_quiet [OF q5]] sync_commit_stale [OF st(3)] wrote_stale [OF w13 that] by blast
  have graph: "set wr \<union> {c} \<subseteq> graph_hashes H ts l si pv b (rp_refs rp) wt1"
  proof -
    note sh = serialize_hashes [OF st(1)]
    obtain x where "x \<in> commit_bodies ts l si pv b (rp_refs rp) tree" "c = object_hash H ''commit'' x"
      using make_commit_body [OF st(2)] by blast
    then have "c \<in> object_hash H ''commit'' ` checkpoint_bodies H ts l si pv b (rp_refs rp) wt1"
      using sh by (auto simp: checkpoint_bodies_def)
    with sh show ?thesis by (auto simp: graph_hashes_def)
  qed
  have rest: "\<exists>rp''. rollback_locked (hash_to_hex c) b \<lparr>rp_wt = wt0, rp_refs = r, rp_store = t\<rparr> = Some (Inr c, True, rp'') \<and>
        wt_inv (rp_wt rp'') \<and> ref_of (rp_refs rp'') b = Some c \<and>
        (\<forall>p. rel_option same_entry (lookup_raw p wt1) (lookup_raw p (rp_wt rp'')))"
    if re: "restorable s5 t wr c" for t wt0 r
  proof -
    have io: "s_io t = []" and pc: "payload ''commit'' t c = Some (serialize_commit cd)"
      using re p5 by (auto simp: restorable_def)
    have keep: "payload ''tree'' t k = Some x" if "k \<in> set wr" "payload ''tree'' s2 k = Some x" for k x
      using re that payload_mono [OF le25] by (auto simp: restorable_def)
    obtain dh m where m: "rebuild_loop [(tree, ''/'')] [] t = Some (Inr m, t)" "om_wf m"
      "map_of m = relinked_map dh wt1" "tree \<in> set wr"
      using serialize_rebuild [OF ok(1,2) st(1) keep io] by blast
    have rb: "rebuild_working_tree (cd_tree_hash cd) wt0 t = Some (Inr (set_base m wt0), t)"
      using m(1) cd(2) by (simp add: rebuild_working_tree_def)
    have same: "rel_option same_entry (lookup_raw p wt1) (lookup_raw p (set_base m wt0))" for p
      unfolding lookup_set_base m(3) lookup_raw_view [of p wt1]
      by (cases "wt_raw wt1 p") (simp_all add: relinked_map_def same_entry_relinked)
    obtain ok r' t' where w: "write_ref b c r t = (ok, r', t')" using prod_cases3 by blast
    have "ok" using write_ref_effect(3) [OF w io] .
    then have w': "write_ref b c r t = (True, r', t')" "r_files r' = om_put b (ref_content c) (r_files r)"
      using w write_ref_effect(2) [OF w] by auto
    have "length (cd_parents cd) < 2 ^ 27" using cd(3) by simp
    from rollback_to_hash [OF io pc cd(4) this rb w'(1)] show ?thesis
      using same wt_inv_fresh(1) [OF m(2)] ref_of_put [OF w'(2)] by simp
  qed
  have r5: "r_files r5 = om_put b (ref_content c) (r_files (rp_refs rp))" "r_durable r5 = r_files r5"
    using write_ref_effect(2) [OF st(4)] by auto
  show thesis
  proof (rule that)
    show "\<exists>rp''. rollback_locked (hash_to_hex c) b \<lparr>rp_wt = wt0, rp_refs = r, rp_store = t\<rparr> = Some (Inr c, True, rp'') \<and>
        wt_inv (rp_wt rp'') \<and> ref_of (rp_refs rp'') b = Some c \<and>
        (\<forall>p. rel_option same_entry (lookup_raw p wt1) (lookup_raw p (rp_wt rp'')))"
      if "restorable (rp_store rp') t wr c" for t wt0 r
      using rest that by (simp add: st(5))
    show "find_object (rp_store rp') k \<noteq> None" if "k \<in> set wr \<union> {c}" for k
    proof -
      have "payload ''tree'' s5 k \<noteq> None" if "k \<in> set wr"
        using tree_pay [OF that] payload_mono [OF le25, of "''tree''" k] by auto
      then have "payload ''tree'' s5 k \<noteq> None \<or> payload ''commit'' s5 k \<noteq> None" using that p5 by auto
      then show ?thesis using payload_found st(5) by fastforce
    qed
    show "durable (rp_store rp') k" if "set (s_shards_durable s1) \<subseteq> set (s_shards s1)" "k \<in> committed_graph wt1 wr c"
        "find_object (rp_store rp') k \<noteq> None" "\<not> left_behind s1 k" for k
      using dur that by (simp add: st(5))
    show "set wr \<union> {c} \<subseteq> graph_hashes H ts l si pv b (rp_refs rp) wt1" by (rule graph)
    show "stale (rp_store rp') k" if "stale s1 k" for k using old [OF that] by (simp add: st(5))
    show "store_le s1 (rp_store rp')"
      using store_le_trans [OF serialize_grows(1) [OF st(1)] le25] by (simp add: st(5))
    show "rp_wt rp' = wt1" by (simp add: st(5))
    show "ref_of (rp_refs rp') b = Some c" using ref_of_put [OF r5(1)] by (simp add: st(5))
    then show "durable_ref (rp_refs rp') b = Some c" using r5(2) by (simp add: st(5) durable_ref_def ref_of_def)
    show "s_pending (rp_store rp') = []"
      using sync_commit_effect(3) [OF st(3)] q5 by (simp add: st(5) store_quiet_def)
  qed
qed

section \<open>Runs without faults\<close>

text \<open>Pending objects exist, and so do their shard directories.\<close>

definition pend_ok :: "store \<Rightarrow> bool" where
  "pend_ok s \<longleftrightarrow> (\<forall>h \<in> set (s_pending s). find_object s h \<noteq> None \<and> shard_of h \<in> set (s_shards s))"

lemma write_object_pend:
  assumes "write_object H tag b s = (r, s')" "pend_ok s"
  shows "pend_ok s'"
proof -
  let ?h = "object_hash H tag b"
  note p = write_object_effect [OF assms(1)]
  have le: "store_le s s'" by (rule write_object_le [OF assms(1)])
  have old: "find_object s' k \<noteq> None \<and> shard_of k \<in> set (s_shards s')" if "k \<in> set (s_pending s)" for k
    using that assms(2) store_leD [OF le, of k] le by (fastforce simp: pend_ok_def store_le_def)
  show ?thesis
    unfolding pend_ok_def
  proof
    fix k assume k: "k \<in> set (s_pending s')"
    show "find_object s' k \<noteq> None \<and> shard_of k \<in> set (s_shards s')"
    proof (cases "k \<in> set (s_pending s)")
      case True
      then show ?thesis by (rule old)
    next
      case False
      have "find_object s ?h = None"
        using p False k by (cases "find_object s ?h") (auto simp: put_effect_def)
      moreover obtain ob where "find_object s' ?h = Some ob"
        using p False k by (cases "find_object s' ?h") (auto simp: put_effect_def)
      ultimately have "s_pending s' = set_put ?h (s_pending s) \<and> shard_of ?h \<in> set (s_shards s')"
        using p by (simp add: put_effect_def)
      with False k have "k = ?h" by simp
      with \<open>find_object s' ?h = Some ob\<close> \<open>_ \<and> shard_of ?h \<in> set (s_shards s')\<close> show ?thesis by simp
    qed
  qed
qed

lemma pend_ok_quiet: "store_quiet s s' \<Longrightarrow> pend_ok s' = pend_ok s"
  by (simp add: pend_ok_def store_quiet_find) (simp add: store_quiet_def)

lemma write_dirs_pend: "write_dirs H dirs ds dh wr s = (r, s') \<Longrightarrow> pend_ok s \<Longrightarrow> pend_ok s'"
proof (induction ds arbitrary: dh wr s)
  case (Cons d ds)
  let ?b = "serialize_tree_entries (link_children dh d (dir_children dirs d))"
  obtain h t where w: "write_tree H ?b s = (h, t)" by fastforce
  then have t: "pend_ok t" using Cons.prems by (auto simp: write_tree_def dest: write_object_pend)
  show ?case
  proof (cases "h = ZERO_HASH")
    case True
    with Cons.prems w t show ?thesis by (auto simp: Let_def)
  next
    case False
    with Cons.prems w have "write_dirs H dirs ds (om_put d h dh) (wr @ [h]) t = (r, s')" by (simp add: Let_def)
    with Cons.IH t show ?thesis by blast
  qed
qed simp

lemma serialize_pend:
  assumes "serialize_working_tree H wt s = (r, s')" "pend_ok s"
  shows "pend_ok s'"
proof -
  obtain dirs leaves paths where sc: "scan_dirs wt = (dirs, leaves, paths)" using prod_cases3 by blast
  obtain r1 wr s1 where w: "write_dirs H dirs paths [] [] s = ((r1, wr), s1)" by (metis prod.collapse)
  obtain h t where w2: "write_tree H (serialize_tree_entries []) s1 = (h, t)" by fastforce
  have "pend_ok s1" "pend_ok s1 \<Longrightarrow> pend_ok t"
    using write_dirs_pend [OF w assms(2)] w2 by (auto simp: write_tree_def dest: write_object_pend)
  moreover have "s' = s1 \<or> s' = t"
    using assms(1) w w2 by (auto simp: serialize_working_tree_def sc split: sum.splits option.splits if_splits)
  ultimately show ?thesis by blast
qed

lemma fsync_objects_ok:
  "s_io s = [] \<Longrightarrow> \<forall>h \<in> set hs. find_object s h \<noteq> None \<Longrightarrow>
   \<exists>s'. fsync_objects hs s = (True, s') \<and> s_io s' = []"
proof (induction hs arbitrary: s)
  case (Cons h hs)
  then obtain ob where ob: "find_object s h = Some ob" by auto
  let ?s = "s\<lparr>s_objects := om_put h (ob\<lparr>o_synced := True\<rparr>) (s_objects s)\<rparr>"
  have "\<exists>s'. fsync_objects hs ?s = (True, s') \<and> s_io s' = []"
    using Cons.prems by (intro Cons.IH) auto
  with Cons.prems ob show ?case by (simp add: next_io_def Let_def)
qed simp

lemma fsync_shards_ok:
  "s_io s = [] \<Longrightarrow> set ds \<subseteq> set (s_shards s) \<Longrightarrow> \<exists>s'. fsync_shards ds s = (True, s') \<and> s_io s' = []"
proof (induction ds arbitrary: s)
  case (Cons d ds)
  have "\<exists>s'. fsync_shards ds (link_shard d s) = (True, s') \<and> s_io s' = []"
    using Cons.prems by (intro Cons.IH) (auto simp: link_shard_def)
  with Cons.prems show ?case by (simp add: next_io_def Let_def link_shard_def)
qed simp

lemma fsync_shard_dirs_ok:
  "s_io s = [] \<Longrightarrow> shard_of ` set hs \<subseteq> set (s_shards s) \<Longrightarrow>
   \<exists>s'. fsync_shard_dirs hs s = (True, s') \<and> s_io s' = []"
  using fsync_shards_ok [of s "sort (remdups (map shard_of hs))"]
  by (auto simp: fsync_shard_dirs_def next_io_def Let_def)

lemma sync_commit_ok:
  assumes io: "s_io s = []" and p: "pend_ok s"
  shows "\<exists>s'. sync_commit wt wr c s = (None, s') \<and> s_io s' = []"
proof -
  let ?l = "filter_to_committed_graph (s_pending s) wt wr c" and ?s0 = "s\<lparr>s_pending := []\<rparr>"
  have l: "set ?l \<subseteq> set (s_pending s)" by (auto simp: filter_to_committed_graph_def)
  have "\<forall>h \<in> set ?l. find_object ?s0 h \<noteq> None" using l p by (auto simp: pend_ok_def)
  then obtain t where t: "fsync_objects ?l ?s0 = (True, t)" "s_io t = []"
    using fsync_objects_ok [of ?s0 ?l] io by auto
  have "s_shards t = s_shards s" using fsync_objects_effect [OF t(1)] by (simp add: same_data_def)
  then have "shard_of ` set ?l \<subseteq> set (s_shards t)" using l p by (auto simp: pend_ok_def)
  then obtain u where "fsync_shard_dirs ?l t = (True, u)" "s_io u = []"
    using fsync_shard_dirs_ok [OF t(2)] by blast
  with t show ?thesis by (simp add: sync_commit_def drain_pending_def Let_def)
qed

lemma make_commit_ok:
  assumes io: "s_io s = []"
    and nz: "\<And>x. x \<in> commit_bodies t l si pv b r tree \<Longrightarrow> object_hash H ''commit'' x \<noteq> ZERO_HASH"
  shows "\<exists>c s'. make_commit H t l si pv b tree r s = (Inr c, s') \<and> s_io s' = [] \<and> (pend_ok s \<longrightarrow> pend_ok s')"
proof -
  obtain parent s1 where r: "read_ref r b s = (parent, s1)" by fastforce
  have q: "store_quiet s s1" by (rule read_ref_quiet [OF r])
  then have io1: "s_io s1 = []" using io by (simp add: store_quiet_def)
  define cd where "cd = \<lparr>cd_tree_hash = tree, cd_parents = (case parent of None \<Rightarrow> [] | Some p \<Rightarrow> [p]),
     cd_session_id = si, cd_timestamp_ns = t, cd_label = l, cd_policy_version = pv\<rparr>"
  obtain c s2 where w: "write_object H ''commit'' (serialize_commit cd) s1 = (c, s2)" by fastforce
  have "c = object_hash H ''commit'' (serialize_commit cd)" "s_io s2 = []"
    using write_object_ok [OF io1, of H "''commit''" "serialize_commit cd"] w by simp_all
  moreover have "pend_ok s \<longrightarrow> pend_ok s2" using write_object_pend [OF w] pend_ok_quiet [OF q] by blast
  moreover have "serialize_commit cd \<in> commit_bodies t l si pv b r tree"
    using read_ref_value(1) [OF r] by (auto simp: commit_bodies_def cd_def split: option.split)
  ultimately show ?thesis
    using r w nz [of "serialize_commit cd"] by (auto simp: make_commit_def write_commit_def cd_def [symmetric] Let_def)
qed

lemma checkpoint_ok:
  assumes fl: "flush (rp_wt rp) (rp_store rp) = (True, wt1, s1)" and io: "s_io s1 = []" and p: "pend_ok s1"
    and nz: "\<And>x. x \<in> checkpoint_bodies H t l si pv b (rp_refs rp) wt1 \<Longrightarrow> object_hash H ''commit'' x \<noteq> ZERO_HASH"
      "\<And>x. x \<in> set (tree_bodies H wt1) \<Longrightarrow> tree_hash H x \<noteq> ZERO_HASH"
  shows "\<exists>c rp'. checkpoint_locked H t flush l si pv b rp = (Inr c, rp') \<and> s_io (rp_store rp') = []"
proof -
  obtain h wr lv s2 where s2: "serialize_working_tree H wt1 s1 = ((Inr h, wr, lv), s2)" "s_io s2 = []"
    using serialize_working_tree_ok [OF io, of H wt1] nz(2) by blast
  have p2: "pend_ok s2" by (rule serialize_pend [OF s2(1) p])
  obtain c s3 where s3: "make_commit H t l si pv b h (rp_refs rp) s2 = (Inr c, s3)" "s_io s3 = []" "pend_ok s3"
  proof -
    have "object_hash H ''commit'' x \<noteq> ZERO_HASH" if "x \<in> commit_bodies t l si pv b (rp_refs rp) h" for x
      using nz(1) serialize_hashes [OF s2(1)] that by (auto simp: checkpoint_bodies_def)
    from make_commit_ok [OF s2(2) this] p2 show thesis using that by blast
  qed
  obtain s4 where s4: "sync_commit wt1 wr c s3 = (None, s4)" "s_io s4 = []"
    using sync_commit_ok [OF s3(2,3)] by blast
  obtain ok r5 s5 where s5: "write_ref b c (rp_refs rp) s4 = (ok, r5, s5)" using prod_cases3 by blast
  have "ok" "s_io s5 = []" using write_ref_effect(1,3) [OF s5] s4(2) by (simp_all add: store_quiet_def)
  with fl s2 s3 s4 s5 show ?thesis by (simp add: checkpoint_locked_def Let_def)
qed

section \<open>Crashes\<close>

text \<open>After a crash only the durable objects and the durable refs are left.\<close>

definition crash_store :: "store \<Rightarrow> store" where
  "crash_store s = s\<lparr>s_objects := filter (\<lambda>p. durable s (fst p)) (s_objects s), s_pending := [],
     s_cache := [], s_io := []\<rparr>"

definition crash_refs :: "refs \<Rightarrow> refs" where
  "crash_refs r = r\<lparr>r_files := r_durable r\<rparr>"

lemma find_crash: "find_object (crash_store s) h = (if durable s h then find_object s h else None)"
  by (simp add: find_object_def crash_store_def map_of_filter_keys)

lemma payload_crash: "payload tag (crash_store s) h = (if durable s h then payload tag s h else None)"
  by (simp add: payload_def find_crash)

section \<open>Properties\<close>

text \<open>What a crash leaves of a checkpoint: its commit and tree can be loaded, and the contents that
  were not left behind are there.\<close>

lemma checkpoint_crash:
  assumes "checkpoint_locked H ts flush l si pv b rp = (Inr c, rp')"
    and "flush (rp_wt rp) (rp_store rp) = (True, wt1, s1)"
    and ok: "tree_ok wt1" "trees_apart H s1 (set (tree_bodies H wt1))"
      "commits_apart H s1 (set (tree_bodies H wt1)) (checkpoint_bodies H ts l si pv b (rp_refs rp) wt1)"
    and sh: "set (s_shards_durable s1) \<subseteq> set (s_shards s1)"
  shows "durable_ref (rp_refs rp') b = Some c"
    "lookup p wt1 = Some e \<Longrightarrow> referenced_leaf e \<Longrightarrow> find_object s1 (e_hash e) = Some ob \<Longrightarrow> \<not> left_behind s1 (e_hash e) \<Longrightarrow>
       \<exists>ob'. find_object (crash_store (rp_store rp')) (e_hash e) = Some ob' \<and> o_data ob' = o_data ob"
    "stale s1 h \<Longrightarrow> find_object (crash_store (rp_store rp')) h = None"
    "\<forall>h \<in> graph_hashes H ts l si pv b (rp_refs rp) wt1. \<not> left_behind s1 h \<Longrightarrow> s_io t = [] \<Longrightarrow>
       (\<And>tag k. payload tag t k = payload tag (crash_store (rp_store rp')) k) \<Longrightarrow>
       \<exists>rp''. rollback_locked (hash_to_hex c) b \<lparr>rp_wt = wt0, rp_refs = r, rp_store = t\<rparr> = Some (Inr c, True, rp'') \<and>
         (\<forall>p. rel_option same_entry (lookup_raw p wt1) (lookup_raw p (rp_wt rp'')))"
proof -
  let ?t = "crash_store (rp_store rp')"
  have "durable_ref (rp_refs rp') b = Some c \<and>
      (lookup p wt1 = Some e \<longrightarrow> referenced_leaf e \<longrightarrow> find_object s1 (e_hash e) = Some ob \<longrightarrow> \<not> left_behind s1 (e_hash e) \<longrightarrow>
         (\<exists>ob'. find_object ?t (e_hash e) = Some ob' \<and> o_data ob' = o_data ob)) \<and>
      (stale s1 h \<longrightarrow> find_object ?t h = None) \<and>
      ((\<forall>h \<in> graph_hashes H ts l si pv b (rp_refs rp) wt1. \<not> left_behind s1 h) \<longrightarrow> s_io t = [] \<longrightarrow>
         (\<forall>tag k. payload tag t k = payload tag ?t k) \<longrightarrow>
         (\<exists>rp''. rollback_locked (hash_to_hex c) b \<lparr>rp_wt = wt0, rp_refs = r, rp_store = t\<rparr> = Some (Inr c, True, rp'') \<and>
           (\<forall>p. rel_option same_entry (lookup_raw p wt1) (lookup_raw p (rp_wt rp'')))))"
  proof (rule checkpoint_restores [OF assms(1-5)])
    fix wr
    assume roll: "\<And>t wt0 r. restorable (rp_store rp') t wr c \<Longrightarrow>
        \<exists>rp''. rollback_locked (hash_to_hex c) b \<lparr>rp_wt = wt0, rp_refs = r, rp_store = t\<rparr> = Some (Inr c, True, rp'') \<and>
          wt_inv (rp_wt rp'') \<and> ref_of (rp_refs rp'') b = Some c \<and>
          (\<forall>p. rel_option same_entry (lookup_raw p wt1) (lookup_raw p (rp_wt rp'')))"
      and ex: "\<And>k. k \<in> set wr \<union> {c} \<Longrightarrow> find_object (rp_store rp') k \<noteq> None"
      and dur: "\<And>k. set (s_shards_durable s1) \<subseteq> set (s_shards s1) \<Longrightarrow> k \<in> committed_graph wt1 wr c \<Longrightarrow>
         find_object (rp_store rp') k \<noteq> None \<Longrightarrow> \<not> left_behind s1 k \<Longrightarrow> durable (rp_store rp') k"
      and graph: "set wr \<union> {c} \<subseteq> graph_hashes H ts l si pv b (rp_refs rp) wt1"
      and old: "\<And>k. stale s1 k \<Longrightarrow> stale (rp_store rp') k" and le: "store_le s1 (rp_store rp')"
      and rf: "durable_ref (rp_refs rp') b = Some c"
    have kept: "\<exists>ob'. find_object ?t (e_hash e) = Some ob' \<and> o_data ob' = o_data ob"
      if l: "lookup p wt1 = Some e" "referenced_leaf e" "find_object s1 (e_hash e) = Some ob" "\<not> left_behind s1 (e_hash e)"
    proof -
      have "(p, e) \<in> set (merged_list wt1)" by (rule lookup_merged [OF ok(1) l(1)])
      then have g: "e_hash e \<in> committed_graph wt1 wr c" using l(2) by (auto simp: committed_graph_set)
      obtain ob' where "find_object (rp_store rp') (e_hash e) = Some ob'" "o_data ob' = o_data ob"
        using store_leD [OF le l(3)] by (auto simp: object_le_def)
      with dur [OF sh g _ l(4)] show ?thesis by (simp add: find_crash)
    qed
    have lost: "find_object ?t h = None" if "stale s1 h"
      using stale_not_durable [OF old [OF that]] by (simp add: find_crash)
    have rolls: "\<exists>rp''. rollback_locked (hash_to_hex c) b \<lparr>rp_wt = wt0, rp_refs = r, rp_store = t\<rparr> = Some (Inr c, True, rp'') \<and>
        (\<forall>p. rel_option same_entry (lookup_raw p wt1) (lookup_raw p (rp_wt rp'')))"
      if a: "\<forall>h \<in> graph_hashes H ts l si pv b (rp_refs rp) wt1. \<not> left_behind s1 h" "s_io t = []"
        "\<forall>tag k. payload tag t k = payload tag ?t k"
    proof -
      have d: "durable (rp_store rp') k" if "k \<in> set wr \<union> {c}" for k
        by (rule dur [OF sh _ ex [OF that]]) (use that graph a(1) in \<open>auto simp: committed_graph_set\<close>)
      have "restorable (rp_store rp') t wr c" using d a(2,3) by (simp add: restorable_def payload_crash)
      from roll [OF this] show ?thesis by blast
    qed
    show ?thesis using kept lost rolls rf by blast
  qed
  then show "durable_ref (rp_refs rp') b = Some c"
    "lookup p wt1 = Some e \<Longrightarrow> referenced_leaf e \<Longrightarrow> find_object s1 (e_hash e) = Some ob \<Longrightarrow> \<not> left_behind s1 (e_hash e) \<Longrightarrow>
       \<exists>ob'. find_object (crash_store (rp_store rp')) (e_hash e) = Some ob' \<and> o_data ob' = o_data ob"
    "stale s1 h \<Longrightarrow> find_object (crash_store (rp_store rp')) h = None"
    "\<forall>h \<in> graph_hashes H ts l si pv b (rp_refs rp) wt1. \<not> left_behind s1 h \<Longrightarrow> s_io t = [] \<Longrightarrow>
       (\<And>tag k. payload tag t k = payload tag (crash_store (rp_store rp')) k) \<Longrightarrow>
       \<exists>rp''. rollback_locked (hash_to_hex c) b \<lparr>rp_wt = wt0, rp_refs = r, rp_store = t\<rparr> = Some (Inr c, True, rp'') \<and>
         (\<forall>p. rel_option same_entry (lookup_raw p wt1) (lookup_raw p (rp_wt rp'')))"
    by blast+
qed

text \<open>No dirty handle: the flush has nothing to do.\<close>

definition no_flush :: flush_fn where
  "no_flush wt s = (True, wt, s)"

text \<open>A hash that depends on the type tag only, to evaluate with.\<close>

definition tag_hash :: "bytes \<Rightarrow> hash" where
  "tag_hash b = (case b of [] \<Rightarrow> 1 | x # _ \<Rightarrow> ucast x + 1)"

lemma make_commit_hash: "make_commit H t l si pv b tree r s = (Inr c, s') \<Longrightarrow> \<exists>x. c = object_hash H ''commit'' x"
  by (auto simp: make_commit_def write_commit_def Let_def dest!: write_object_hash split: prod.splits if_splits)

lemma checkpoint_keeps_stale:
  assumes st: "stale (rp_store rp) h"
  shows "stale (rp_store (snd (checkpoint_locked H t no_flush l si pv b rp))) h"
proof -
  obtain x wr lv s2 where s2: "serialize_working_tree H (rp_wt rp) (rp_store rp) = ((x, wr, lv), s2)" by (metis prod.collapse)
  have k2: "stale s2 h" by (rule wrote_stale [OF serialize_wrote [OF s2] st])
  show ?thesis
  proof (cases x)
    case (Inl e)
    with s2 k2 show ?thesis by (simp add: checkpoint_locked_def no_flush_def Let_def)
  next
    case (Inr tree)
    obtain y s3 where s3: "make_commit H t l si pv b tree (rp_refs rp) s2 = (y, s3)" by fastforce
    have k3: "stale s3 h" by (rule wrote_stale [OF make_commit_wrote [OF s3] k2])
    show ?thesis
    proof (cases y)
      case (Inl e)
      with s2 s3 k3 Inr show ?thesis by (simp add: checkpoint_locked_def no_flush_def Let_def)
    next
      case y: (Inr c)
      obtain e s4 where s4: "sync_commit (rp_wt rp) wr c s3 = (e, s4)" by fastforce
      have k4: "stale s4 h" by (rule sync_commit_stale [OF s4 k3])
      obtain ok r5 s5 where s5: "write_ref b c (rp_refs rp) s4 = (ok, r5, s5)" using prod_cases3 by blast
      have "stale s5 h" by (rule wrote_stale [OF wrote_quiet [OF write_ref_effect(1) [OF s5]] k4])
      with s2 s3 s4 s5 k4 Inr y show ?thesis
        by (cases e) (simp_all add: checkpoint_locked_def no_flush_def Let_def)
    qed
  qed
qed

definition sample_repo :: repo where
  "sample_repo = \<lparr>rp_wt = insert_entry ''/f'' \<lparr>e_kind = Blob, e_hash = 7, e_mode = 420\<rparr> wt_new,
     rp_refs = \<lparr>r_files = [], r_other = [], r_durable = []\<rparr>, rp_store = new_store ''/s'' 0\<rparr>"

lemma tag_hash_values [simp]:
  "object_hash tag_hash ''tree'' b = 117" "object_hash tag_hash ''commit'' b = 100"
  "tree_hash tag_hash b = 117"
  by (simp_all add: tree_hash_def object_hash_def tag_hash_def bytes_of_def byte_of_char_def)

lemma sample_repo_ok:
  "no_flush (rp_wt sample_repo) (rp_store sample_repo) = (True, rp_wt sample_repo, rp_store sample_repo)"
  "tree_ok (rp_wt sample_repo)"
  "commits_apart tag_hash (rp_store sample_repo) (set (tree_bodies tag_hash (rp_wt sample_repo))) Y"
  "trees_apart tag_hash (rp_store sample_repo) (set (tree_bodies tag_hash (rp_wt sample_repo)))"
  "dur_inv (rp_store sample_repo)"
  "pend_ok (rp_store sample_repo)" "s_io (rp_store sample_repo) = []"
proof -
  let ?e = "\<lparr>e_kind = Blob, e_hash = 7, e_mode = 420\<rparr>"
  let ?wt = "insert_entry ''/f'' ?e wt_new"
  have ml: "merged_list ?wt = [(''/f'', ?e)]"
    by (simp add: merged_list_def insert_entry_def wt_new_def)
  have sp: "split_path ''/f'' = (''/'', ''f'')" by (simp add: split_path_def Let_def)
  show "tree_ok (rp_wt sample_repo)"
    by (simp add: sample_repo_def tree_ok_def ml path_ok_def sp join_path_def dir_ok_def name_ok_def kind_ok_def
        kind_of_byte_def byte_of_kind_def)
  have sc: "scan_dirs ?wt = ([(''/'', [(''f'', ?e)])], [7], [''/''])"
    by (simp add: scan_dirs_def ml live_list_def scan_entry_def sp is_leaf_def dir_children_def add_empty_dir_def)
  show "trees_apart tag_hash (rp_store sample_repo) (set (tree_bodies tag_hash (rp_wt sample_repo)))"
    by (simp add: sample_repo_def trees_apart_def tree_bodies_def sc Let_def)
  show "commits_apart tag_hash (rp_store sample_repo) (set (tree_bodies tag_hash (rp_wt sample_repo))) Y"
    by (simp add: commits_apart_def sample_repo_def tree_hash_def no_collision_def new_store_def find_object_def)
qed (simp_all add: sample_repo_def no_flush_def dur_inv_def pend_ok_def new_store_def find_object_def no_collision_def)

lemma sample_checkpoint:
  obtains c rp' where "checkpoint_locked tag_hash 9 no_flush ''v1'' 1 1 ''main'' sample_repo = (Inr c, rp')"
    "s_io (rp_store rp') = []"
  using checkpoint_ok [where flush = no_flush and rp = sample_repo and H = tag_hash and t = 9 and l = "''v1''" and si = 1
    and pv = 1 and b = "''main''", OF sample_repo_ok(1,7,6)]
  by auto

text \<open>
  C10: a checkpoint can be rolled back to. After a successful checkpoint of a tree whose paths
  are well formed, in every later store that lost nothing, rolling back to the commit's hash
  terminates, succeeds, restores every entry the tree had (whiteouts included, only the
  hashes of directories are the new ones) and sets the branch's ref to that commit.
\<close>

theorem checkpoint_rollback_restores:
  assumes "checkpoint_locked H ts flush l si pv b rp = (Inr c, rp')"
    and "flush (rp_wt rp) (rp_store rp) = (True, wt1, s1)"
    and "tree_ok wt1" "trees_apart H s1 (set (tree_bodies H wt1))"
      "commits_apart H s1 (set (tree_bodies H wt1)) (checkpoint_bodies H ts l si pv b (rp_refs rp) wt1)"
    and "store_le (rp_store rp') t" "s_io t = []"
  shows "\<exists>rp''. rollback_locked (hash_to_hex c) b \<lparr>rp_wt = wt0, rp_refs = r, rp_store = t\<rparr> = Some (Inr c, True, rp'') \<and>
    wt_inv (rp_wt rp'') \<and> ref_of (rp_refs rp'') b = Some c \<and>
    (\<forall>p. rel_option same_entry (lookup_raw p wt1) (lookup_raw p (rp_wt rp'')))"
proof (rule checkpoint_restores [OF assms(1-5)])
  fix wr
  assume r: "\<And>t wt0 r. restorable (rp_store rp') t wr c \<Longrightarrow>
      \<exists>rp''. rollback_locked (hash_to_hex c) b \<lparr>rp_wt = wt0, rp_refs = r, rp_store = t\<rparr> = Some (Inr c, True, rp'') \<and>
        wt_inv (rp_wt rp'') \<and> ref_of (rp_refs rp'') b = Some c \<and>
        (\<forall>p. rel_option same_entry (lookup_raw p wt1) (lookup_raw p (rp_wt rp'')))"
  have "restorable (rp_store rp') t wr c"
    using assms(7) payload_mono [OF assms(6)] by (simp add: restorable_def)
  then show ?thesis by (rule r)
qed

theorem checkpoint_rollback_restores_witness:
  "\<exists>c rp' rp''. rollback_locked (hash_to_hex c) ''main'' rp' = Some (Inr c, True, rp'') \<and>
     rel_option same_entry (lookup_raw ''/f'' (rp_wt sample_repo)) (lookup_raw ''/f'' (rp_wt rp''))"
proof -
  obtain c rp' where r: "checkpoint_locked tag_hash 9 no_flush ''v1'' 1 1 ''main'' sample_repo = (Inr c, rp')"
    "s_io (rp_store rp') = []" by (rule sample_checkpoint)
  show ?thesis
    using checkpoint_rollback_restores [OF r(1) sample_repo_ok(1,2,4,3) store_le_refl r(2), of wt_new "rp_refs rp'"]
    by blast
qed

text \<open>
  C12: a successful checkpoint survives a crash that drops all that was not synced, except what
  an earlier checkpoint left behind. A checkpoint takes every object off the pending list but
  syncs those of its own graph only, so an object can be in the store unsynced with nothing
  left that would sync it; a later checkpoint that uses it takes it as it is. If none of the
  tree objects and the commit of this checkpoint were left behind in that way, then after the
  crash the branch's ref names the commit and rolling back to it restores every entry of the
  tree. Of the file contents that the tree refers to and the store had, each one that was not
  left behind is there with its data, and each one that was unsynced and left behind is lost.
\<close>

theorem checkpoint_survives_crash:
  assumes "checkpoint_locked H ts flush l si pv b rp = (Inr c, rp')"
    and "flush (rp_wt rp) (rp_store rp) = (True, wt1, s1)"
    and "tree_ok wt1" "trees_apart H s1 (set (tree_bodies H wt1))"
      "commits_apart H s1 (set (tree_bodies H wt1)) (checkpoint_bodies H ts l si pv b (rp_refs rp) wt1)"
    and "set (s_shards_durable s1) \<subseteq> set (s_shards s1)"
    and "\<forall>h \<in> graph_hashes H ts l si pv b (rp_refs rp) wt1. \<not> left_behind s1 h"
  shows "ref_of (crash_refs (rp_refs rp')) b = Some c \<and>
    (\<forall>p e ob. lookup p wt1 = Some e \<and> referenced_leaf e \<and> find_object s1 (e_hash e) = Some ob \<longrightarrow>
       (\<not> left_behind s1 (e_hash e) \<longrightarrow>
          (\<exists>ob'. find_object (crash_store (rp_store rp')) (e_hash e) = Some ob' \<and> o_data ob' = o_data ob)) \<and>
       (stale s1 (e_hash e) \<longrightarrow> find_object (crash_store (rp_store rp')) (e_hash e) = None)) \<and>
    (\<exists>rp''. rollback_locked (hash_to_hex c) b
        \<lparr>rp_wt = wt0, rp_refs = crash_refs (rp_refs rp'), rp_store = crash_store (rp_store rp')\<rparr> = Some (Inr c, True, rp'') \<and>
      (\<forall>p. rel_option same_entry (lookup_raw p wt1) (lookup_raw p (rp_wt rp''))))"
proof -
  note cr = checkpoint_crash [OF assms(1-6)]
  have "ref_of (crash_refs (rp_refs rp')) b = Some c"
    using cr(1) by (simp add: ref_of_def durable_ref_def crash_refs_def)
  moreover have "s_io (crash_store (rp_store rp')) = []" by (simp add: crash_store_def)
  ultimately show ?thesis using cr(2,3) cr(4) [OF assms(7)] by blast
qed

text \<open>A repository whose one file has its contents in the store, not synced yet.\<close>

definition full_store :: store where
  "full_store = snd (write_blob tag_hash [104, 105] (new_store ''/s'' 0))"

definition full_repo :: repo where
  "full_repo = \<lparr>rp_wt = insert_entry ''/f'' \<lparr>e_kind = Blob, e_hash = 99, e_mode = 420\<rparr> wt_new,
     rp_refs = \<lparr>r_files = [], r_other = [], r_durable = []\<rparr>, rp_store = full_store\<rparr>"

lemma full_store_ok:
  "s_io full_store = []" "pend_ok full_store" "dur_inv full_store"
  "find_object full_store 117 = None" "find_object full_store 100 = None"
  "map_option o_data (find_object full_store 99) = Some (bytes_of ''blob'' @ blob_body [104, 105])"
proof -
  let ?s = "new_store ''/s'' 0" and ?b = "blob_body [104, 105]"
  have h: "object_hash tag_hash ''blob'' ?b = 99"
    by (simp add: object_hash_def tag_hash_def bytes_of_def byte_of_char_def)
  obtain k where w: "write_object tag_hash ''blob'' ?b ?s = (k, full_store)"
    by (metis full_store_def write_blob_def prod.collapse)
  have n: "find_object ?s x = None" for x by (simp add: new_store_def find_object_def)
  have io: "s_io ?s = []" by (simp add: new_store_def)
  have d: "dur_inv ?s" by (simp add: dur_inv_def new_store_def find_object_def)
  show "s_io full_store = []" using write_object_ok(2) [OF io, of tag_hash "''blob''" ?b] w by simp
  show "pend_ok full_store" using write_object_pend [OF w] by (simp add: pend_ok_def new_store_def)
  show "dur_inv full_store" by (rule wrote_dur_inv [OF write_object_wrote [OF w] d])
  note p = write_object_effect [OF w]
  show "find_object full_store 117 = None" "find_object full_store 100 = None"
    using p n by (simp_all add: put_effect_def h)
  show "map_option o_data (find_object full_store 99) = Some (bytes_of ''blob'' @ ?b)"
    using write_object_ok [OF io, of tag_hash "''blob''" ?b] w p n by (auto simp: put_effect_def h split: option.splits)
qed

lemma full_repo_ok:
  "no_flush (rp_wt full_repo) (rp_store full_repo) = (True, rp_wt full_repo, rp_store full_repo)"
  "tree_ok (rp_wt full_repo)"
  "commits_apart tag_hash (rp_store full_repo) (set (tree_bodies tag_hash (rp_wt full_repo))) Y"
  "trees_apart tag_hash (rp_store full_repo) (set (tree_bodies tag_hash (rp_wt full_repo)))"
  "lookup ''/f'' (rp_wt full_repo) = Some \<lparr>e_kind = Blob, e_hash = 99, e_mode = 420\<rparr>"
proof -
  let ?e = "\<lparr>e_kind = Blob, e_hash = 99, e_mode = 420\<rparr>"
  let ?wt = "insert_entry ''/f'' ?e wt_new"
  have ml: "merged_list ?wt = [(''/f'', ?e)]"
    by (simp add: merged_list_def insert_entry_def wt_new_def)
  have sp: "split_path ''/f'' = (''/'', ''f'')" by (simp add: split_path_def Let_def)
  show "tree_ok (rp_wt full_repo)"
    by (simp add: full_repo_def tree_ok_def ml path_ok_def sp join_path_def dir_ok_def name_ok_def kind_ok_def
        kind_of_byte_def byte_of_kind_def)
  have sc: "scan_dirs ?wt = ([(''/'', [(''f'', ?e)])], [99], [''/''])"
    by (simp add: scan_dirs_def ml live_list_def scan_entry_def sp is_leaf_def dir_children_def add_empty_dir_def)
  show "trees_apart tag_hash (rp_store full_repo) (set (tree_bodies tag_hash (rp_wt full_repo)))"
    by (simp add: full_repo_def trees_apart_def tree_bodies_def sc Let_def no_collision_def full_store_ok)
  show "commits_apart tag_hash (rp_store full_repo) (set (tree_bodies tag_hash (rp_wt full_repo))) Y"
    by (simp add: commits_apart_def full_repo_def tree_hash_def no_collision_def full_store_ok)
  show "lookup ''/f'' (rp_wt full_repo) = Some ?e"
    by (simp add: full_repo_def lookup_def lookup_raw_view insert_entry_def wt_raw_put)
qed (simp_all add: full_repo_def no_flush_def)

theorem checkpoint_survives_crash_witness:
  "\<exists>c rp' ob rp''. checkpoint_locked tag_hash 9 no_flush ''v1'' 1 1 ''main'' full_repo = (Inr c, rp') \<and>
     ref_of (crash_refs (rp_refs rp')) ''main'' = Some c \<and>
     find_object (crash_store (rp_store rp')) 99 = Some ob \<and> o_data ob = bytes_of ''blob'' @ blob_body [104, 105] \<and>
     rollback_locked (hash_to_hex c) ''main''
        \<lparr>rp_wt = wt_new, rp_refs = crash_refs (rp_refs rp'), rp_store = crash_store (rp_store rp')\<rparr> = Some (Inr c, True, rp'') \<and>
     rel_option same_entry (lookup_raw ''/f'' (rp_wt full_repo)) (lookup_raw ''/f'' (rp_wt rp''))"
proof -
  have fs: "rp_store full_repo = full_store" by (simp add: full_repo_def)
  obtain c rp' where r: "checkpoint_locked tag_hash 9 no_flush ''v1'' 1 1 ''main'' full_repo = (Inr c, rp')"
    using checkpoint_ok [where flush = no_flush and rp = full_repo and H = tag_hash and t = 9 and l = "''v1''" and si = 1
      and pv = 1 and b = "''main''", OF full_repo_ok(1)] full_store_ok(1,2) by (auto simp: fs)
  have sh: "set (s_shards_durable (rp_store full_repo)) \<subseteq> set (s_shards (rp_store full_repo))"
    "\<forall>h \<in> X. \<not> left_behind (rp_store full_repo) h" for X
    using full_store_ok(3) dur_inv_protected by (simp_all add: fs dur_inv_def)
  note cr = checkpoint_survives_crash [OF r full_repo_ok(1,2,4,3) sh, of wt_new]
  obtain ob where ob: "find_object full_store 99 = Some ob" "o_data ob = bytes_of ''blob'' @ blob_body [104, 105]"
    using full_store_ok(6) by auto
  have kept: "\<exists>ob'. find_object (crash_store (rp_store rp')) 99 = Some ob' \<and> o_data ob' = o_data ob"
    using conjunct1 [OF conjunct2 [OF cr], rule_format, of "''/f''" "\<lparr>e_kind = Blob, e_hash = 99, e_mode = 420\<rparr>" ob]
      full_repo_ok(5) ob(1) dur_inv_protected [OF full_store_ok(3)] by (simp add: referenced_leaf_def fs)
  have "ref_of (crash_refs (rp_refs rp')) ''main'' = Some c" using cr by (rule conjunct1)
  moreover obtain rp'' where "rollback_locked (hash_to_hex c) ''main''
      \<lparr>rp_wt = wt_new, rp_refs = crash_refs (rp_refs rp'), rp_store = crash_store (rp_store rp')\<rparr> = Some (Inr c, True, rp'')"
    "\<forall>p. rel_option same_entry (lookup_raw p (rp_wt full_repo)) (lookup_raw p (rp_wt rp''))"
    using conjunct2 [OF conjunct2 [OF cr]] by blast
  ultimately show ?thesis using r kept ob(2) by auto
qed

text \<open>
  C30: a checkpoint moves its branch's ref to the commit that it made or not at all, and no
  other ref. Success means the ref names the commit, durably. If the checkpoint fails, the refs
  are as before, or, when only the last barrier of the ref update failed, the ref names the
  commit that was made: the one with the hash of the saved tree, the given label, session, time
  and policy version, and no parent but the branch's old commit; its object is in the store.
\<close>

theorem checkpoint_ref_atomic:
  assumes "checkpoint_locked H ts flush l si pv b rp = (x, rp')"
  shows "(\<forall>b'. b' \<noteq> b \<longrightarrow> ref_of (rp_refs rp') b' = ref_of (rp_refs rp) b') \<and>
    (\<forall>c. x = Inr c \<longrightarrow> durable_ref (rp_refs rp') b = Some c) \<and>
    (rp_refs rp' = rp_refs rp \<and> (\<forall>c. x \<noteq> Inr c) \<or>
     (\<exists>c wt1 s1 tree wr lv s2 cd. ref_of (rp_refs rp') b = Some c \<and> (\<forall>c'. x = Inr c' \<longrightarrow> c' = c) \<and>
        flush (rp_wt rp) (rp_store rp) = (True, wt1, s1) \<and>
        serialize_working_tree H wt1 s1 = ((Inr tree, wr, lv), s2) \<and>
        c = object_hash H ''commit'' (serialize_commit cd) \<and> find_object (rp_store rp') c \<noteq> None \<and>
        cd_tree_hash cd = tree \<and> cd_label cd = l \<and> cd_session_id cd = si \<and> cd_timestamp_ns cd = ts \<and>
        cd_policy_version cd = pv \<and> length (cd_parents cd) \<le> 1 \<and> set (cd_parents cd) \<subseteq> set_option (ref_of (rp_refs rp) b) \<and>
        (s_io s2 = [] \<longrightarrow> cd_parents cd = (case ref_of (rp_refs rp) b of None \<Rightarrow> [] | Some p \<Rightarrow> [p]))))"
proof (rule checkpoint_outcome [OF assms])
  assume "rp_refs rp' = rp_refs rp" "\<And>c. x \<noteq> Inr c"
  then show ?thesis by simp
next
  fix wt1 s1 tree wr lv s2 c s3 s4 ok r5 s5
  assume st: "flush (rp_wt rp) (rp_store rp) = (True, wt1, s1)" "serialize_working_tree H wt1 s1 = ((Inr tree, wr, lv), s2)"
    "make_commit H ts l si pv b tree (rp_refs rp) s2 = (Inr c, s3)" "sync_commit wt1 wr c s3 = (None, s4)"
    "write_ref b c (rp_refs rp) s4 = (ok, r5, s5)" "rp' = rp\<lparr>rp_wt := wt1, rp_refs := r5, rp_store := s5\<rparr>"
    "x = (if ok then Inr c else Inl (''failed to advance refs/'' @ b))"
  have e: "rp_refs rp' = r5" "rp_store rp' = s5" by (simp_all add: st(6))
  note w = write_ref_effect(2) [OF st(5)]
  show ?thesis
  proof (cases "r5 = rp_refs rp \<and> \<not> ok")
    case True
    with st(7) show ?thesis by (simp add: e(1))
  next
    case False
    with w have f: "r_files r5 = om_put b (ref_content c) (r_files (rp_refs rp))" "ok \<longrightarrow> r_durable r5 = r_files r5" by auto
    note p = ref_of_put [OF f(1)]
    have d: "durable_ref r5 b = Some c'" if "x = Inr c'" for c'
      using that st(7) f(2) p by (auto simp: durable_ref_def ref_of_def split: if_splits)
    obtain cd where cd: "c = object_hash H ''commit'' (serialize_commit cd)"
      "cd_tree_hash cd = tree" "length (cd_parents cd) \<le> 1" "set (cd_parents cd) \<subseteq> set_option (ref_of (rp_refs rp) b)"
      "cd_session_id cd = si" "cd_timestamp_ns cd = ts" "cd_label cd = l" "cd_policy_version cd = pv"
      "s_io s2 = [] \<longrightarrow> cd_parents cd = (case ref_of (rp_refs rp) b of None \<Rightarrow> [] | Some p \<Rightarrow> [p])"
      "find_object s3 c \<noteq> None"
      using make_commit_made [OF st(3)] by blast
    have le: "store_le s3 s5"
      using store_le_trans [OF sync_commit_effect(1) [OF st(4)] store_quiet_le [OF write_ref_effect(1) [OF st(5)]]] .
    obtain ob where "find_object s3 c = Some ob" using cd(10) by blast
    then have fnd: "find_object s5 c \<noteq> None" using store_leD [OF le] by fastforce
    have x: "\<forall>c'. x = Inr c' \<longrightarrow> c' = c" using st(7) by simp
    show ?thesis unfolding e
    proof (intro conjI)
      show "\<forall>b'. b' \<noteq> b \<longrightarrow> ref_of r5 b' = ref_of (rp_refs rp) b'" using p by simp
      show "\<forall>c. x = Inr c \<longrightarrow> durable_ref r5 b = Some c" using d by blast
    qed (rule disjI2, use p [of b] x st(1,2) fnd cd(1-9) in \<open>auto intro!: exI [of _ c] exI [of _ cd]\<close>)
  qed
qed

theorem checkpoint_ref_atomic_witness:
  "\<exists>c rp' cd. checkpoint_locked tag_hash 9 no_flush ''v1'' 1 1 ''main'' sample_repo = (Inr c, rp') \<and>
     ref_of (rp_refs rp') ''main'' = Some c \<and> c = object_hash tag_hash ''commit'' (serialize_commit cd) \<and>
     cd_label cd = ''v1'' \<and> cd_parents cd = []"
proof -
  obtain c rp' where r: "checkpoint_locked tag_hash 9 no_flush ''v1'' 1 1 ''main'' sample_repo = (Inr c, rp')"
    by (rule sample_checkpoint)
  have "ref_of (rp_refs sample_repo) ''main'' = None" by (simp add: sample_repo_def ref_of_def)
  with checkpoint_ref_atomic [OF r] r show ?thesis by auto
qed

text \<open>
  When no call fails and none of the objects it writes hashes to zero, a checkpoint succeeds.
\<close>

theorem checkpoint_succeeds:
  assumes "flush (rp_wt rp) (rp_store rp) = (True, wt1, s1)" "s_io s1 = []" "pend_ok s1"
    and "\<And>x. x \<in> checkpoint_bodies H ts l si pv b (rp_refs rp) wt1 \<Longrightarrow> object_hash H ''commit'' x \<noteq> ZERO_HASH"
      "\<And>x. x \<in> set (tree_bodies H wt1) \<Longrightarrow> tree_hash H x \<noteq> ZERO_HASH"
  shows "\<exists>c rp'. checkpoint_locked H ts flush l si pv b rp = (Inr c, rp')"
  using checkpoint_ok [where flush = flush and rp = rp, OF assms] by blast

theorem checkpoint_succeeds_witness:
  "\<exists>c rp'. checkpoint_locked tag_hash 9 no_flush ''v1'' 1 1 ''main'' sample_repo = (Inr c, rp')"
  using checkpoint_succeeds [where flush = no_flush and rp = sample_repo and H = tag_hash and ts = 9 and l = "''v1''" and si = 1
    and pv = 1 and b = "''main''", OF sample_repo_ok(1,7,6)]
  by simp

text \<open>
  A checkpoint drops the pending entries of objects its tree does not use, those of other
  branches included, without syncing them: such an object stays unsynced, no later
  checkpoint syncs it, also one whose tree refers to it, and a crash loses it.
\<close>

theorem checkpoint_drops_pending:
  assumes "checkpoint_locked H ts no_flush l si pv b rp = (Inr c, rp')"
    and "find_object (rp_store rp) h = Some ob" "\<not> o_synced ob"
    and "h \<noteq> c" "h \<notin> tree_hash H ` set (tree_bodies H (rp_wt rp))"
    and "\<And>p e. (p, e) \<in> set (merged_list (rp_wt rp)) \<Longrightarrow> e_hash e \<noteq> h"
  shows "stale (rp_store rp') h \<and>
    (\<forall>rp2 ts2 l2 si2 pv2 b2. stale (rp_store rp2) h \<longrightarrow>
       stale (rp_store (snd (checkpoint_locked H ts2 no_flush l2 si2 pv2 b2 rp2))) h) \<and>
    find_object (crash_store (rp_store rp')) h = None"
proof -
  obtain tree wr lv s2 s3 s4 r5 s5 where st:
    "serialize_working_tree H (rp_wt rp) (rp_store rp) = ((Inr tree, wr, lv), s2)"
    "make_commit H ts l si pv b tree (rp_refs rp) s2 = (Inr c, s3)"
    "sync_commit (rp_wt rp) wr c s3 = (None, s4)"
    "write_ref b c (rp_refs rp) s4 = (True, r5, s5)"
    "rp' = rp\<lparr>rp_wt := rp_wt rp, rp_refs := r5, rp_store := s5\<rparr>"
    using assms(1) by (elim checkpoint_success) (auto simp: no_flush_def)
  have w: "wrote (rp_store rp) s3" by (rule wrote_trans [OF serialize_wrote [OF st(1)] make_commit_wrote [OF st(2)]])
  have "h \<notin> set wr" using serialize_hashes [OF st(1)] assms(5) by blast
  then have "h \<notin> committed_graph (rp_wt rp) wr c" using assms(4,6) by (auto simp: committed_graph_set)
  then have "map_option o_synced (find_object s4 h) = map_option o_synced (find_object s3 h)"
    using sync_commit_effect(5) [OF st(3), of h] by blast
  then have "stale s4 h"
    using wrote_some [OF w assms(2)] assms(3) sync_commit_effect(3) [OF st(3)] by (auto simp: stale_def)
  then have "stale (rp_store rp') h"
    using wrote_stale [OF wrote_quiet [OF write_ref_effect(1) [OF st(4)]]] by (simp add: st(5))
  then show ?thesis using checkpoint_keeps_stale stale_not_durable by (auto simp: find_crash)
qed

text \<open>A repository with one unsynced object that its tree does not use.\<close>

definition orphan_repo :: repo where
  "orphan_repo = \<lparr>rp_wt = wt_new, rp_refs = \<lparr>r_files = [], r_other = [], r_durable = []\<rparr>,
     rp_store = (new_store ''/s'' 0)\<lparr>s_shards := [shard_of 3], s_objects := [(3, \<lparr>o_data = [], o_mtime = 0, o_synced = False, o_linked = False\<rparr>)],
       s_pending := [3]\<rparr>\<rparr>"

theorem checkpoint_drops_pending_witness:
  "\<exists>c rp'. checkpoint_locked tag_hash 9 no_flush ''v1'' 1 1 ''main'' orphan_repo = (Inr c, rp') \<and> stale (rp_store rp') 3"
proof -
  have o: "no_flush (rp_wt orphan_repo) (rp_store orphan_repo) = (True, rp_wt orphan_repo, rp_store orphan_repo)"
    "s_io (rp_store orphan_repo) = []" "pend_ok (rp_store orphan_repo)"
    by (simp_all add: orphan_repo_def no_flush_def pend_ok_def new_store_def find_object_def)
  obtain c rp' where r: "checkpoint_locked tag_hash 9 no_flush ''v1'' 1 1 ''main'' orphan_repo = (Inr c, rp')"
    using checkpoint_ok [where flush = no_flush and rp = orphan_repo and H = tag_hash and t = 9 and l = "''v1''" and si = 1
      and pv = 1 and b = "''main''", OF o] by auto
  have "c = 100" using checkpoint_success [OF r] make_commit_hash by (metis tag_hash_values(2))
  moreover have "merged_list (rp_wt orphan_repo) = []" by (simp add: orphan_repo_def merged_list_def wt_new_def)
  ultimately have "stale (rp_store rp') 3"
    using checkpoint_drops_pending [OF r, of 3 "\<lparr>o_data = [], o_mtime = 0, o_synced = False, o_linked = False\<rparr>"]
    by (simp add: orphan_repo_def find_object_def image_def)
  with r show ?thesis by blast
qed

end
