(* ===== verification/BranchMerge.thy ===== *)
theory BranchMerge
  imports Checkpoint
begin

text \<open>
  \<open>src/cas/branch_merge.h\<close> and \<open>branch_merge.cpp\<close>: the three-way merge of working trees with
  its structural conflicts, loading the tree of a commit, the search for a merge base in the
  commit graph, and the merge commit.
\<close>

section \<open>Entry states\<close>

type_synonym entry_state = "entry option"
type_synonym state_map = "(string, entry_state) omap"

definition to_path_map :: "working_tree \<Rightarrow> entry_map" where
  "to_path_map wt = for_each_including_deleted (\<lambda>path e out. om_put path e out) wt []"

fun same_state :: "entry_state \<Rightarrow> entry_state \<Rightarrow> bool" where
  "same_state None None \<longleftrightarrow> True"
| "same_state (Some a) (Some b) \<longleftrightarrow>
     (if e_kind a \<noteq> e_kind b \<or> e_mode a \<noteq> e_mode b then False
      else if e_kind a = Tree then True else e_hash a = e_hash b)"
| "same_state _ _ \<longleftrightarrow> False"

definition is_absent :: "entry_state \<Rightarrow> bool" where
  "is_absent st \<longleftrightarrow> (case st of None \<Rightarrow> True | Some e \<Rightarrow> e_kind e = Deleted)"

definition same_merge_state :: "entry_state \<Rightarrow> entry_state \<Rightarrow> bool" where
  "same_merge_state a b \<longleftrightarrow> is_absent a \<and> is_absent b \<or> same_state a b"

definition is_whiteout :: "entry_state \<Rightarrow> bool" where
  "is_whiteout st \<longleftrightarrow> (case st of None \<Rightarrow> False | Some e \<Rightarrow> e_kind e = Deleted)"

definition equivalent_merge_state :: "entry_state \<Rightarrow> entry_state \<Rightarrow> entry_state" where
  "equivalent_merge_state a b =
     (if is_whiteout a then a else if is_whiteout b then b else if a \<noteq> None then a else b)"

definition apply_state :: "string \<Rightarrow> entry_state \<Rightarrow> working_tree \<Rightarrow> working_tree" where
  "apply_state path st wt = (case st of None \<Rightarrow> wt | Some e \<Rightarrow> insert_entry path e wt)"

definition is_tree :: "entry_state \<Rightarrow> bool" where
  "is_tree st \<longleftrightarrow> (case st of None \<Rightarrow> False | Some e \<Rightarrow> e_kind e = Tree)"

text \<open>The prefix before the last slash; empty when there is none or it is the first character.\<close>

definition parent_path :: "string \<Rightarrow> string" where
  "parent_path path =
     (case dropWhile (\<lambda>c. c \<noteq> CHR ''/'') (rev path) of [] \<Rightarrow> [] | _ # r \<Rightarrow> rev r)"

lemma parent_path_shorter: "p \<noteq> [] \<Longrightarrow> length (parent_path p) < length p"
proof -
  assume "p \<noteq> []"
  have "length (dropWhile (\<lambda>c. c \<noteq> CHR ''/'') (rev p)) \<le> length p"
    by (metis length_dropWhile_le length_rev)
  then show ?thesis using \<open>p \<noteq> []\<close> by (auto simp: parent_path_def split: list.split)
qed

section \<open>The merge\<close>

text \<open>The nearest recorded ancestor that is not a directory, from \<open>ancestor\<close> upwards.\<close>

function first_blocked :: "state_map \<Rightarrow> string \<Rightarrow> string option" where
  "first_blocked ms ancestor =
     (if ancestor = [] then None
      else case map_of ms ancestor of
             None \<Rightarrow> first_blocked ms (parent_path ancestor)
           | Some st \<Rightarrow> if \<not> is_tree st then Some ancestor else first_blocked ms (parent_path ancestor))"
  by pat_completeness auto
termination by (relation "measure (\<lambda>(ms, a). length a)") (auto simp: parent_path_shorter)

declare first_blocked.simps [simp del]

definition detect_structural_conflicts :: "state_map \<Rightarrow> string list \<Rightarrow> string list" where
  "detect_structural_conflicts ms conflicts =
     fold (\<lambda>(path, st) conflicts.
        if is_absent st then conflicts
        else case first_blocked ms (parent_path path) of
               None \<Rightarrow> conflicts | Some ancestor \<Rightarrow> conflicts @ [ancestor]) ms conflicts"

text \<open>The decision for one path; None is a conflict.\<close>

definition merge_state :: "entry_state \<Rightarrow> entry_state \<Rightarrow> entry_state \<Rightarrow> entry_state option" where
  "merge_state base source target =
     (let source_changed = \<not> same_state base source; target_changed = \<not> same_state base target in
      if \<not> source_changed \<and> \<not> target_changed then Some base
      else if \<not> source_changed then Some target
      else if \<not> target_changed then Some source
      else if same_merge_state source target then Some (equivalent_merge_state source target)
      else None)"

definition sort_unique :: "'a::linorder list \<Rightarrow> 'a list" where
  "sort_unique xs = remdups_adj (sort xs)"

definition merge_paths ::
  "entry_map \<Rightarrow> entry_map \<Rightarrow> entry_map \<Rightarrow> string list \<Rightarrow> state_map \<times> string list" where
  "merge_paths base source target paths =
     fold (\<lambda>path (ms, conflicts).
        case merge_state (map_of base path) (map_of source path) (map_of target path) of
          Some st \<Rightarrow> (om_put path st ms, conflicts)
        | None \<Rightarrow> (ms, conflicts @ [path])) paths ([], [])"

record merge_result =
  mr_ok :: bool
  mr_merged :: working_tree
  mr_conflicts :: "string list"
  mr_error :: string

definition merge_trees :: "working_tree \<Rightarrow> working_tree \<Rightarrow> working_tree \<Rightarrow> merge_result" where
  "merge_trees base source target =
     (let base_entries = to_path_map base; source_entries = to_path_map source;
          target_entries = to_path_map target;
          paths = sort_unique (map fst base_entries @ map fst source_entries @ map fst target_entries) in
      case merge_paths base_entries source_entries target_entries paths of (ms, conflicts) \<Rightarrow>
        (let conflicts = sort_unique (detect_structural_conflicts ms conflicts) in
         if conflicts \<noteq> [] then
           \<lparr>mr_ok = False, mr_merged = wt_clear wt_new, mr_conflicts = conflicts, mr_error = ''merge conflicts''\<rparr>
         else \<lparr>mr_ok = True, mr_merged = fold (\<lambda>(path, st). apply_state path st) ms wt_new,
               mr_conflicts = [], mr_error = []\<rparr>))"

section \<open>Facts on entry states\<close>

lemma same_state_refl [simp]: "same_state a a"
  by (cases a) auto

lemma same_state_sym: "same_state a b = same_state b a"
  by (induction a b rule: same_state.induct) auto

lemma same_state_trans: "same_state a b \<Longrightarrow> same_state b c \<Longrightarrow> same_state a c"
  by (cases a; cases b; cases c) (auto split: if_splits)

lemma same_state_rel: "same_state a b \<longleftrightarrow> rel_option same_entry a b"
  by (cases a; cases b) (auto simp: same_entry_def)

lemma same_state_absent: "same_state a b \<Longrightarrow> is_absent a = is_absent b"
  by (cases a; cases b) (auto simp: is_absent_def split: if_splits)

lemma same_state_tree: "same_state a b \<Longrightarrow> is_tree a = is_tree b"
  by (cases a; cases b) (auto simp: is_tree_def split: if_splits)

lemma same_merge_refl [simp]: "same_merge_state a a"
  by (simp add: same_merge_state_def)

lemma same_merge_sym: "same_merge_state a b = same_merge_state b a"
  by (auto simp: same_merge_state_def same_state_sym)

lemma same_merge_trans: "same_merge_state a b \<Longrightarrow> same_merge_state b c \<Longrightarrow> same_merge_state a c"
  unfolding same_merge_state_def using same_state_trans same_state_absent by blast

lemma same_merge_absent: "same_merge_state a b \<Longrightarrow> is_absent a = is_absent b"
  unfolding same_merge_state_def using same_state_absent by blast

lemma same_merge_tree: "same_merge_state a b \<Longrightarrow> is_tree a = is_tree b"
  by (cases a; cases b) (auto simp: same_merge_state_def is_absent_def is_tree_def split: if_splits)

lemma same_merge_of_same: "same_state a b \<Longrightarrow> same_merge_state a b"
  by (simp add: same_merge_state_def)

lemma same_merge_live:
  "same_merge_state (lookup_raw p a) (lookup_raw p b) \<longleftrightarrow> rel_option same_entry (lookup p a) (lookup p b)"
  unfolding lookup_raw_view lookup_view live_def
  by (cases "wt_raw a p"; cases "wt_raw b p")
     (auto simp: same_merge_state_def is_absent_def same_entry_def)

lemma equivalent_state_same:
  "same_merge_state a b \<Longrightarrow> same_merge_state (equivalent_merge_state a b) a \<and> same_merge_state (equivalent_merge_state a b) b"
  by (cases a; cases b) (auto simp: equivalent_merge_state_def same_merge_state_def is_absent_def is_whiteout_def same_state_sym split: if_splits)

text \<open>The decision is the three-way merge: each side's change is taken, and two different
  changes are a conflict.\<close>

lemma merge_state_laws:
  shows "merge_state b s t = None \<longleftrightarrow> \<not> same_state b s \<and> \<not> same_state b t \<and> \<not> same_merge_state s t"
    and "merge_state b s t = Some m \<Longrightarrow> \<not> same_state b s \<Longrightarrow> same_merge_state m s"
    and "merge_state b s t = Some m \<Longrightarrow> \<not> same_state b t \<Longrightarrow> same_merge_state m t"
    and "merge_state b s t = Some m \<Longrightarrow> same_state b s \<Longrightarrow> same_state b t \<Longrightarrow> m = b"
    and "merge_state b s t = Some m \<Longrightarrow> m \<in> {b, s, t}"
  using equivalent_state_same [of s t]
  by (auto simp: merge_state_def Let_def equivalent_merge_state_def split: if_splits)

lemma merge_state_swap:
  "rel_option same_merge_state (merge_state b s t) (merge_state b t s)"
  using equivalent_state_same [of s t] equivalent_state_same [of t s] same_merge_sym [of s t]
    same_merge_sym [of "equivalent_merge_state t s" s]
  by (auto simp: merge_state_def Let_def intro: same_merge_trans [of _ s])

lemma merge_state_none [simp]: "merge_state None None None = Some None"
  by (simp add: merge_state_def)

section \<open>Ancestors\<close>

lemma parent_path_slash: "CHR ''/'' \<notin> set n \<Longrightarrow> parent_path (d @ CHR ''/'' # n) = d"
  by (subst parent_path_def) (simp, subst dropWhile_append2, auto)

lemma parent_path_no_slash: "CHR ''/'' \<notin> set p \<Longrightarrow> parent_path p = []"
proof -
  assume "CHR ''/'' \<notin> set p"
  then have "\<forall>c \<in> set (rev p). c \<noteq> CHR ''/''" by auto
  then have "dropWhile (\<lambda>c. c \<noteq> CHR ''/'') (rev p) = []" by (simp only: dropWhile_eq_Nil_conv)
  then show ?thesis unfolding parent_path_def by (simp only: list.case)
qed

lemma under_parent:
  "a \<noteq> [] \<Longrightarrow> under a p \<longleftrightarrow> parent_path p \<noteq> [] \<and> (a = parent_path p \<or> under a (parent_path p))"
proof (cases "CHR ''/'' \<in> set p")
  case False
  then show ?thesis by (auto simp: under_split parent_path_no_slash)
next
  case True
  then obtain d n where p: "p = d @ CHR ''/'' # n" "CHR ''/'' \<notin> set n" by (metis split_list_last)
  assume a: "a \<noteq> []"
  have pp: "parent_path p = d" using p parent_path_slash by simp
  have "under a p \<longleftrightarrow> a = d \<or> under a d"
  proof
    assume "under a p"
    then obtain r where r: "p = a @ CHR ''/'' # r" by (auto simp: under_split)
    show "a = d \<or> under a d"
    proof (cases "CHR ''/'' \<in> set r")
      case False
      then show ?thesis using r pp parent_path_slash by simp
    next
      case True
      then obtain u v where v: "r = u @ CHR ''/'' # v" "CHR ''/'' \<notin> set v" by (metis split_list_last)
      then have "parent_path ((a @ CHR ''/'' # u) @ CHR ''/'' # v) = a @ CHR ''/'' # u" using parent_path_slash by blast
      then have "d = a @ CHR ''/'' # u" using pp r v(1) by simp
      then show ?thesis by (simp add: under_split)
    qed
  qed (auto simp: under_split p)
  moreover have "a = d \<or> under a d \<Longrightarrow> d \<noteq> []" using a by (auto simp: under_split)
  ultimately show ?thesis unfolding pp by blast
qed

lemma first_blocked_spec:
  "case first_blocked ms a of
     None \<Rightarrow> a \<noteq> [] \<longrightarrow> (\<forall>x st. x \<noteq> [] \<and> (x = a \<or> under x a) \<and> map_of ms x = Some st \<longrightarrow> is_tree st)
   | Some c \<Rightarrow> c \<noteq> [] \<and> (c = a \<or> under c a) \<and> (\<exists>st. map_of ms c = Some st \<and> \<not> is_tree st) \<and>
       (\<forall>x st. under c x \<and> (x = a \<or> under x a) \<and> map_of ms x = Some st \<longrightarrow> is_tree st)"
proof (induction ms a rule: first_blocked.induct)
  case (1 ms a)
  note up = under_parent [of _ a]
  show ?case
  proof (cases "a = [] \<or> (\<exists>st. map_of ms a = Some st \<and> \<not> is_tree st)")
    case True
    have "\<not> (under x a \<and> a = [])" "\<not> (under a x \<and> under x a)" "\<not> under a a" for x by (auto simp: under_split)
    with True show ?thesis by (auto simp: first_blocked.simps [of ms a])
  next
    case False
    then have fb: "first_blocked ms a = first_blocked ms (parent_path a)"
      by (auto simp: first_blocked.simps [of ms a] split: option.split)
    have ih: "case first_blocked ms (parent_path a) of
       None \<Rightarrow> parent_path a \<noteq> [] \<longrightarrow> (\<forall>x st. x \<noteq> [] \<and> (x = parent_path a \<or> under x (parent_path a)) \<and> map_of ms x = Some st \<longrightarrow> is_tree st)
     | Some c \<Rightarrow> c \<noteq> [] \<and> (c = parent_path a \<or> under c (parent_path a)) \<and> (\<exists>st. map_of ms c = Some st \<and> \<not> is_tree st) \<and>
         (\<forall>x st. under c x \<and> (x = parent_path a \<or> under x (parent_path a)) \<and> map_of ms x = Some st \<longrightarrow> is_tree st)"
      using 1 False by (cases "map_of ms a") auto
    have at: "map_of ms a = Some st \<Longrightarrow> is_tree st" for st using False by blast
    show ?thesis
    proof (cases "first_blocked ms (parent_path a)")
      case None
      with ih at up show ?thesis unfolding fb by auto
    next
      case (Some c)
      with ih have c: "c \<noteq> []" "c = parent_path a \<or> under c (parent_path a)" "\<exists>st. map_of ms c = Some st \<and> \<not> is_tree st"
        "\<And>x st. under c x \<Longrightarrow> x = parent_path a \<or> under x (parent_path a) \<Longrightarrow> map_of ms x = Some st \<Longrightarrow> is_tree st" by auto
      have "under c a" using up [OF c(1)] c(1,2) by (cases "parent_path a = []") (auto simp: under_split)
      moreover have "is_tree st" if "under c x" "x = a \<or> under x a" "map_of ms x = Some st" for x st
      proof (cases "x = a")
        case True
        with at that show ?thesis by blast
      next
        case False
        have "x \<noteq> []" using that(1) by (auto simp: under_split)
        with False that c(4) up [of x] show ?thesis by blast
      qed
      ultimately show ?thesis using c(1,3) unfolding fb Some by auto
    qed
  qed
qed


section \<open>The result of a merge\<close>

lemma to_path_map_get: "wt_wf wt \<Longrightarrow> map_of (to_path_map wt) p = lookup_raw p wt"
proof -
  assume w: "wt_wf wt"
  have "to_path_map wt = om_put_all (merged_list wt) []"
    by (simp add: to_path_map_def for_each_including_deleted_def om_put_all_def split_beta')
  then show ?thesis using om_put_all_get [OF merged_list_wf [OF w], of "[]"] merged_list_get [OF w]
    by (simp add: lookup_raw_view)
qed

lemma remdups_adj_strict: "sorted xs \<Longrightarrow> sorted_wrt (<) (remdups_adj (xs :: 'a::linorder list))"
  by (induction xs rule: remdups_adj.induct) auto

lemma sort_unique_simps [simp]: "set (sort_unique xs) = set xs" "sorted_wrt (<) (sort_unique xs)"
  "distinct (sort_unique xs)"
  using remdups_adj_strict [of "sort xs"] by (auto simp: sort_unique_def strict_sorted_iff)

lemma sort_unique_Nil [simp]: "sort_unique xs = [] \<longleftrightarrow> xs = []"
  by (metis set_empty sort_unique_simps(1))

definition recorded :: "working_tree \<Rightarrow> working_tree \<Rightarrow> working_tree \<Rightarrow> string \<Rightarrow> bool" where
  "recorded b s t p \<longleftrightarrow> lookup_raw p b \<noteq> None \<or> lookup_raw p s \<noteq> None \<or> lookup_raw p t \<noteq> None"

definition merged_at :: "working_tree \<Rightarrow> working_tree \<Rightarrow> working_tree \<Rightarrow> string \<Rightarrow> entry_state option" where
  "merged_at b s t p = merge_state (lookup_raw p b) (lookup_raw p s) (lookup_raw p t)"

lemma merge_paths_spec:
  assumes "distinct paths"
  shows "merge_paths b s t paths = (ms, cs) \<Longrightarrow> om_wf ms \<and>
    cs = filter (\<lambda>p. merge_state (map_of b p) (map_of s p) (map_of t p) = None) paths \<and>
    (\<forall>p. map_of ms p = (if p \<in> set paths then merge_state (map_of b p) (map_of s p) (map_of t p) else None))"
proof -
  let ?m = "\<lambda>p. merge_state (map_of b p) (map_of s p) (map_of t p)"
  let ?f = "\<lambda>path (ms, conflicts). case ?m path of
     Some st \<Rightarrow> (om_put path st ms, conflicts) | None \<Rightarrow> (ms, conflicts @ [path])"
  have "fold ?f ps (m0, c0) = (ms, cs) \<Longrightarrow> distinct ps \<Longrightarrow> om_wf m0 \<Longrightarrow> \<forall>p \<in> set ps. map_of m0 p = None \<Longrightarrow>
     om_wf ms \<and> cs = c0 @ filter (\<lambda>p. ?m p = None) ps \<and>
     (\<forall>p. map_of ms p = (if p \<in> set ps then ?m p else map_of m0 p))" for ps m0 c0 ms cs
  proof (induction ps arbitrary: m0 c0)
    case (Cons p ps)
    show ?case
    proof (cases "?m p")
      case None
      with Cons.prems Cons.IH [of m0 "c0 @ [p]"] show ?thesis by auto
    next
      case (Some st)
      have n: "\<forall>q \<in> set ps. map_of (om_put p st m0) q = None" using Cons.prems by (auto simp: om_simps)
      have "fold ?f ps (om_put p st m0, c0) = (ms, cs)" using Cons.prems(1) Some by simp
      from Cons.IH [OF this _ om_wf_put n] Cons.prems Some show ?thesis by (auto simp: om_simps)
    qed
  qed simp
  from this [of paths "[]" "[]" ms cs] assms
  show "merge_paths b s t paths = (ms, cs) \<Longrightarrow> om_wf ms \<and>
    cs = filter (\<lambda>p. ?m p = None) paths \<and> (\<forall>p. map_of ms p = (if p \<in> set paths then ?m p else None))"
    by (simp add: merge_paths_def)
qed

lemma detect_set:
  "set (detect_structural_conflicts ms cs) = set cs \<union>
     {a. \<exists>p st. (p, st) \<in> set ms \<and> \<not> is_absent st \<and> first_blocked ms (parent_path p) = Some a}"
proof -
  have "set (fold (\<lambda>(path, st) conflicts. if is_absent st then conflicts
        else case first_blocked ms (parent_path path) of
               None \<Rightarrow> conflicts | Some ancestor \<Rightarrow> conflicts @ [ancestor]) xs cs) = set cs \<union>
     {a. \<exists>p st. (p, st) \<in> set xs \<and> \<not> is_absent st \<and> first_blocked ms (parent_path p) = Some a}" for xs
    by (induction xs arbitrary: cs) (fastforce split: option.splits if_splits)+
  then show ?thesis by (simp add: detect_structural_conflicts_def)
qed

lemma apply_states_raw:
  "om_wf ms \<Longrightarrow> wt_raw (fold (\<lambda>(path, st). apply_state path st) ms wt) p =
     (case map_of ms p of Some (Some e) \<Rightarrow> Some e | _ \<Rightarrow> wt_raw wt p)"
proof (induction ms arbitrary: wt)
  case (Cons a ms)
  obtain q st where a: "a = (q, st)" by (cases a)
  have w: "om_wf ms" "map_of ms q = None"
    using Cons.prems by (auto simp: a om_wf_Cons map_of_eq_None_iff)
  show ?case
    using Cons.IH [OF w(1), of "apply_state q st wt"] w(2)
    by (auto simp: a apply_state_def insert_entry_def wt_raw_put split: option.split)
qed simp


text \<open>An entry that is live in the merge, below a recorded path that is no directory.\<close>

definition blocks :: "working_tree \<Rightarrow> working_tree \<Rightarrow> working_tree \<Rightarrow> string \<Rightarrow> string \<Rightarrow> bool" where
  "blocks b s t a p \<longleftrightarrow> a \<noteq> [] \<and> under a p \<and> recorded b s t a \<and>
     (\<exists>st. merged_at b s t a = Some st \<and> \<not> is_tree st) \<and> (\<exists>st. merged_at b s t p = Some st \<and> \<not> is_absent st)"

definition merge_conflicts :: "working_tree \<Rightarrow> working_tree \<Rightarrow> working_tree \<Rightarrow> string set" where
  "merge_conflicts b s t = {p. merged_at b s t p = None} \<union>
     {a. \<exists>p. blocks b s t a p \<and> (\<forall>a'. under a a' \<longrightarrow> \<not> blocks b s t a' p)}"

lemma merged_at_unrecorded: "\<not> recorded b s t p \<Longrightarrow> merged_at b s t p = Some None"
  by (simp add: recorded_def merged_at_def)

lemma first_blocked_blocks:
  assumes g: "\<And>q. map_of ms q = (if recorded b s t q then merged_at b s t q else None)"
    and p: "map_of ms p = Some st" "\<not> is_absent st"
  shows "first_blocked ms (parent_path p) = Some a \<longleftrightarrow>
    blocks b s t a p \<and> (\<forall>a'. under a a' \<longrightarrow> \<not> blocks b s t a' p)"
proof -
  have mp: "merged_at b s t p = Some st" using p(1) g [of p] by (auto split: if_splits)
  have bl: "blocks b s t x p \<longleftrightarrow> x \<noteq> [] \<and> under x p \<and> (\<exists>st. map_of ms x = Some st \<and> \<not> is_tree st)" for x
    using mp p(2) g [of x] by (auto simp: blocks_def)
  have up: "x \<noteq> [] \<Longrightarrow> under x p \<longleftrightarrow> parent_path p \<noteq> [] \<and> (x = parent_path p \<or> under x (parent_path p))" for x
    by (rule under_parent)
  note sp = first_blocked_spec [where ms = ms and a = "parent_path p"]
  show ?thesis
  proof (cases "first_blocked ms (parent_path p)")
    case None
    with sp have "\<not> blocks b s t x p" for x using up [of x] bl [of x] by auto
    with None show ?thesis by simp
  next
    case (Some c)
    with sp have c: "c \<noteq> []" "c = parent_path p \<or> under c (parent_path p)" "\<exists>st. map_of ms c = Some st \<and> \<not> is_tree st"
      "\<And>x st. under c x \<Longrightarrow> x = parent_path p \<or> under x (parent_path p) \<Longrightarrow> map_of ms x = Some st \<Longrightarrow> is_tree st" by auto
    have cp: "under c p" using up [OF c(1)] c(1,2) by (auto simp: under_split)
    have near: "\<not> blocks b s t x p" if "under c x" for x
      using c(4) [OF that] bl [of x] up [of x] by blast
    have bc: "blocks b s t c p" using bl [of c] c cp by blast
    have "c = a" if "blocks b s t a p" "\<forall>a'. under a a' \<longrightarrow> \<not> blocks b s t a' p"
      using common_descendant [of p a c] that near [of a] cp bc bl [of a] by blast
    with Some bc near show ?thesis by (metis option.inject)
  qed
qed

lemma merge_trees_result:
  assumes wf: "wt_wf b" "wt_wf s" "wt_wf t"
  shows "mr_ok (merge_trees b s t) \<longleftrightarrow> merge_conflicts b s t = {}"
    and "set (mr_conflicts (merge_trees b s t)) = merge_conflicts b s t"
    and "sorted_wrt (<) (mr_conflicts (merge_trees b s t))"
    and "mr_ok (merge_trees b s t) \<Longrightarrow> merged_at b s t p = Some (lookup_raw p (mr_merged (merge_trees b s t)))"
    and "\<not> mr_ok (merge_trees b s t) \<Longrightarrow> lookup_raw p (mr_merged (merge_trees b s t)) = None"
proof -
  define paths where "paths = sort_unique (map fst (to_path_map b) @ map fst (to_path_map s) @ map fst (to_path_map t))"
  obtain ms cs where m: "merge_paths (to_path_map b) (to_path_map s) (to_path_map t) paths = (ms, cs)" by fastforce
  have "distinct paths" by (simp add: paths_def)
  note sp = merge_paths_spec [OF this m]
  have get: "map_of (to_path_map b) q = lookup_raw q b" "map_of (to_path_map s) q = lookup_raw q s"
    "map_of (to_path_map t) q = lookup_raw q t" for q using wf to_path_map_get by blast+
  have rec: "q \<in> set paths \<longleftrightarrow> recorded b s t q" for q
  proof -
    have "q \<in> fst ` set (to_path_map w) \<longleftrightarrow> map_of (to_path_map w) q \<noteq> None" for w
      by (simp add: map_of_eq_None_iff)
    then show ?thesis using get by (simp add: paths_def recorded_def)
  qed
  have g: "map_of ms q = (if recorded b s t q then merged_at b s t q else None)" for q
    using sp rec by (simp add: merged_at_def get)
  have cs: "set cs = {p. merged_at b s t p = None}"
  proof -
    have "merged_at b s t q = None \<Longrightarrow> q \<in> set paths" for q using rec [of q] merged_at_unrecorded [of b s t q] by fastforce
    then show ?thesis using sp by (auto simp: merged_at_def get)
  qed
  have mem: "(q, st) \<in> set ms \<longleftrightarrow> map_of ms q = Some st" for q st
    using sp om_get_iff by metis
  let ?c = "sort_unique (detect_structural_conflicts ms cs)"
  have set_c: "set ?c = merge_conflicts b s t"
  proof -
    have "(\<exists>p st. (p, st) \<in> set ms \<and> \<not> is_absent st \<and> first_blocked ms (parent_path p) = Some a) \<longleftrightarrow>
        (\<exists>p. blocks b s t a p \<and> (\<forall>a'. under a a' \<longrightarrow> \<not> blocks b s t a' p))" for a
    proof
      assume "\<exists>p st. (p, st) \<in> set ms \<and> \<not> is_absent st \<and> first_blocked ms (parent_path p) = Some a"
      then show "\<exists>p. blocks b s t a p \<and> (\<forall>a'. under a a' \<longrightarrow> \<not> blocks b s t a' p)"
        using first_blocked_blocks [OF g] mem by blast
    next
      assume "\<exists>p. blocks b s t a p \<and> (\<forall>a'. under a a' \<longrightarrow> \<not> blocks b s t a' p)"
      then obtain p where p: "blocks b s t a p" "\<forall>a'. under a a' \<longrightarrow> \<not> blocks b s t a' p" by blast
      then obtain st where st: "merged_at b s t p = Some st" "\<not> is_absent st" by (auto simp: blocks_def)
      then have "recorded b s t p" using merged_at_unrecorded [of b s t p] by (fastforce simp: is_absent_def)
      then have "map_of ms p = Some st" using g st by simp
      then show "\<exists>p st. (p, st) \<in> set ms \<and> \<not> is_absent st \<and> first_blocked ms (parent_path p) = Some a"
        using first_blocked_blocks [OF g _ st(2), of p a] p st(2) mem by blast
    qed
    then show ?thesis by (simp add: detect_set merge_conflicts_def cs)
  qed
  have r: "merge_trees b s t = (if ?c \<noteq> [] then
       \<lparr>mr_ok = False, mr_merged = wt_clear wt_new, mr_conflicts = ?c, mr_error = ''merge conflicts''\<rparr>
     else \<lparr>mr_ok = True, mr_merged = fold (\<lambda>(path, st). apply_state path st) ms wt_new, mr_conflicts = [], mr_error = []\<rparr>)"
    using m by (simp add: merge_trees_def Let_def paths_def)
  show ok: "mr_ok (merge_trees b s t) \<longleftrightarrow> merge_conflicts b s t = {}"
    unfolding set_c [symmetric] by (simp add: r)
  show "set (mr_conflicts (merge_trees b s t)) = merge_conflicts b s t"
    unfolding set_c [symmetric] by (simp add: r)
  show "sorted_wrt (<) (mr_conflicts (merge_trees b s t))" by (simp add: r)
  have empty: "wt_raw wt_new p = None" "wt_raw (wt_clear wt_new) p = None"
    by (simp_all add: wt_raw_def wt_new_def wt_clear_def)
  show "merged_at b s t p = Some (lookup_raw p (mr_merged (merge_trees b s t)))" if "mr_ok (merge_trees b s t)"
  proof -
    have "?c = []" using that ok set_c by (metis set_empty)
    then have mm: "mr_merged (merge_trees b s t) = fold (\<lambda>(path, st). apply_state path st) ms wt_new" by (simp add: r)
    have nn: "merged_at b s t p \<noteq> None" using that ok by (auto simp: merge_conflicts_def)
    then show ?thesis
      using sp g [of p] empty merged_at_unrecorded [of b s t p]
      by (auto simp: mm lookup_raw_view apply_states_raw split: option.split if_splits)
  qed
  show "lookup_raw p (mr_merged (merge_trees b s t)) = None" if "\<not> mr_ok (merge_trees b s t)"
    using that empty by (simp add: r lookup_raw_view split: if_splits)
qed


lemma blocks_nearest:
  assumes "blocks b s t a p"
  obtains a' where "blocks b s t a' p" "\<forall>x. under a' x \<longrightarrow> \<not> blocks b s t x p"
proof -
  have "\<forall>x. blocks b s t x p \<longrightarrow> length x < length p" by (auto simp: blocks_def under_split)
  from ex_has_greatest_nat [where P = "\<lambda>x. blocks b s t x p" and f = length, OF assms this]
  obtain a' where a': "blocks b s t a' p" "\<forall>x. blocks b s t x p \<longrightarrow> length x \<le> length a'" by (elim exE conjE)
  have "\<not> blocks b s t x p" if "under a' x" for x
    using a'(2) that by (auto simp: under_split)
  with a'(1) show thesis by (intro that allI impI)
qed

lemma no_conflict_no_block: "merge_conflicts b s t = {} \<Longrightarrow> \<not> blocks b s t a p"
  unfolding merge_conflicts_def by (blast elim: blocks_nearest)

lemma merged_at_swap: "rel_option same_merge_state (merged_at b s t p) (merged_at b t s p)"
  by (simp add: merged_at_def merge_state_swap)

lemma blocks_swap: "blocks b s t a p \<longleftrightarrow> blocks b t s a p"
proof -
  have "blocks b t s a p" if "blocks b s t a p" for s t
    using that merged_at_swap [of b s t a] merged_at_swap [of b s t p]
    by (auto simp: blocks_def recorded_def option_rel_Some1 same_merge_tree same_merge_absent)
  then show ?thesis by blast
qed

lemma merge_conflicts_swap: "merge_conflicts b s t = merge_conflicts b t s"
proof -
  have "merged_at b s t p = None \<longleftrightarrow> merged_at b t s p = None" for p
    using merged_at_swap [of b s t p] by (cases "merged_at b s t p"; cases "merged_at b t s p") auto
  moreover have "blocks b s t = blocks b t s" using blocks_swap by blast
  ultimately show ?thesis by (simp add: merge_conflicts_def)
qed

section \<open>Properties\<close>

text \<open>A base with one file, and two trees that each add or change one.\<close>

definition file_entry :: "hash \<Rightarrow> entry" where
  "file_entry h = \<lparr>e_kind = Blob, e_hash = h, e_mode = 420\<rparr>"

definition sample_trees :: "working_tree \<times> working_tree \<times> working_tree" where
  "sample_trees = (let b = insert_entry ''/f'' (file_entry 1) wt_new in
     (b, insert_entry ''/f'' (file_entry 2) b, insert_entry ''/g'' (file_entry 3) b))"

lemma sample_trees_wf:
  "sample_trees = (b, s, t) \<Longrightarrow> wt_wf b \<and> wt_wf s \<and> wt_wf t"
  by (auto simp: sample_trees_def Let_def)

text \<open>
  C23: a merge that succeeds is a three-way merge. At each path where one side differs from the
  base the result shows that side's entry, where both do they agree, and where none does the
  base's entry stays; and the result is a tree: what is recorded above a live entry is a
  directory.
\<close>

theorem merge_three_way:
  assumes "wt_wf b" "wt_wf s" "wt_wf t" "mr_ok (merge_trees b s t)"
  shows "(\<forall>p. (\<not> same_state (lookup_raw p b) (lookup_raw p s) \<longrightarrow>
           rel_option same_entry (lookup p (mr_merged (merge_trees b s t))) (lookup p s)) \<and>
         (\<not> same_state (lookup_raw p b) (lookup_raw p t) \<longrightarrow>
           rel_option same_entry (lookup p (mr_merged (merge_trees b s t))) (lookup p t)) \<and>
         (same_state (lookup_raw p b) (lookup_raw p s) \<and> same_state (lookup_raw p b) (lookup_raw p t) \<longrightarrow>
           lookup_raw p (mr_merged (merge_trees b s t)) = lookup_raw p b)) \<and>
    (\<forall>a p e. a \<noteq> [] \<and> under a p \<and> recorded b s t a \<and> lookup p (mr_merged (merge_trees b s t)) = Some e \<longrightarrow>
       is_tree (lookup_raw a (mr_merged (merge_trees b s t))))"
proof -
  let ?m = "mr_merged (merge_trees b s t)"
  note res = merge_trees_result [OF assms(1-3)]
  have at: "merged_at b s t p = Some (lookup_raw p ?m)" for p by (rule res(4) [OF assms(4)])
  have noblock: "\<not> blocks b s t a p" for a p using no_conflict_no_block res(1) assms(4) by blast
  have "is_tree (lookup_raw a ?m)" if "a \<noteq> []" "under a p" "recorded b s t a" "lookup p ?m = Some e" for a p e
  proof -
    have "\<not> is_absent (lookup_raw p ?m)"
      using that(4) by (auto simp: is_absent_def lookup_view lookup_raw_view live_def split: option.splits if_splits)
    then show ?thesis using noblock [of a p] that at by (auto simp: blocks_def)
  qed
  then show ?thesis
    using merge_state_laws(2-4) [OF at [unfolded merged_at_def]] same_merge_live by blast
qed

theorem merge_three_way_witness:
  "case sample_trees of (b, s, t) \<Rightarrow>
     rel_option same_entry (lookup ''/f'' (mr_merged (merge_trees b s t))) (lookup ''/f'' s)"
proof -
  obtain b s t where d: "sample_trees = (b, s, t)" using prod_cases3 by blast
  have "case sample_trees of (b, s, t) \<Rightarrow> mr_ok (merge_trees b s t) \<and>
     \<not> same_state (lookup_raw ''/f'' b) (lookup_raw ''/f'' s)" by code_simp
  with sample_trees_wf [OF d] show ?thesis using merge_three_way [of b s t] by (simp add: d)
qed

text \<open>
  C24: the conflicts reported are exact: the paths that both sides changed to different states,
  and for each live entry below recorded paths that are no directory in the result the nearest
  such path; sorted, each once. The merge succeeds exactly if there are none, else the result
  is empty.
\<close>

theorem merge_conflicts_exact:
  assumes "wt_wf b" "wt_wf s" "wt_wf t"
  shows "set (mr_conflicts (merge_trees b s t)) =
      {p. \<not> same_state (lookup_raw p b) (lookup_raw p s) \<and> \<not> same_state (lookup_raw p b) (lookup_raw p t) \<and>
          \<not> same_merge_state (lookup_raw p s) (lookup_raw p t)} \<union>
      {a. \<exists>p. blocks b s t a p \<and> (\<forall>a'. under a a' \<longrightarrow> \<not> blocks b s t a' p)} \<and>
    sorted_wrt (<) (mr_conflicts (merge_trees b s t)) \<and>
    (mr_ok (merge_trees b s t) \<longleftrightarrow> mr_conflicts (merge_trees b s t) = []) \<and>
    (\<not> mr_ok (merge_trees b s t) \<longrightarrow> (\<forall>p. lookup_raw p (mr_merged (merge_trees b s t)) = None))"
  using merge_trees_result [OF assms]
  by (simp add: merge_conflicts_def merged_at_def merge_state_laws(1) flip: set_empty)

theorem merge_conflicts_exact_witness:
  "case sample_trees of (b, s, t) \<Rightarrow>
     mr_conflicts (merge_trees b s (insert_entry ''/f'' (file_entry 9) t)) = [''/f''] \<and>
     \<not> mr_ok (merge_trees b s (insert_entry ''/f'' (file_entry 9) t))"
proof -
  obtain b s t where d: "sample_trees = (b, s, t)" using prod_cases3 by blast
  have "case sample_trees of (b, s, t) \<Rightarrow>
     mr_conflicts (merge_trees b s (insert_entry ''/f'' (file_entry 9) t)) = [''/f'']" by code_simp
  with sample_trees_wf [OF d] show ?thesis
    using merge_conflicts_exact [of b s "insert_entry ''/f'' (file_entry 9) t"] by (simp add: d)
qed

text \<open>
  Merging is symmetric: swapping source and target gives the same conflicts and success,
  and the same entries up to the hashes of directories.
\<close>

theorem merge_symmetric:
  assumes "wt_wf b" "wt_wf s" "wt_wf t"
  shows "mr_conflicts (merge_trees b t s) = mr_conflicts (merge_trees b s t) \<and>
    mr_ok (merge_trees b t s) = mr_ok (merge_trees b s t) \<and>
    (\<forall>p. rel_option same_entry (lookup p (mr_merged (merge_trees b s t))) (lookup p (mr_merged (merge_trees b t s))))"
proof -
  note r1 = merge_trees_result [OF assms] and r2 = merge_trees_result [OF assms(1,3,2)]
  have ok: "mr_ok (merge_trees b t s) = mr_ok (merge_trees b s t)"
    using r1(1) r2(1) merge_conflicts_swap by simp
  have "mr_conflicts (merge_trees b t s) = mr_conflicts (merge_trees b s t)"
    using r1(2,3) r2(2,3) merge_conflicts_swap [of b s t]
    by (intro sorted_distinct_set_unique) (simp_all add: strict_sorted_iff)
  moreover have "rel_option same_entry (lookup p (mr_merged (merge_trees b s t))) (lookup p (mr_merged (merge_trees b t s)))" for p
  proof (cases "mr_ok (merge_trees b s t)")
    case True
    then show ?thesis
      using merged_at_swap [of b s t p] r1(4) [of p] r2(4) [of p] ok by (simp flip: same_merge_live)
  next
    case False
    then show ?thesis using r1(5) [of p] r2(5) [of p] ok by (simp add: lookup_def)
  qed
  ultimately show ?thesis using ok by blast
qed

theorem merge_symmetric_witness:
  "case sample_trees of (b, s, t) \<Rightarrow> mr_ok (merge_trees b t s) = mr_ok (merge_trees b s t)"
proof -
  obtain b s t where d: "sample_trees = (b, s, t)" using prod_cases3 by blast
  from sample_trees_wf [OF d] merge_symmetric [of b s t] show ?thesis by (simp add: d)
qed

end
