(* ===== verification/Explore.thy ===== *)
theory Explore
  imports Main
begin

text \<open>
  Worklist exploration of a graph. The loops of the program that follow parents, trees or
  children keep a set of visited nodes and a worklist; \<open>explored\<close> is their common invariant,
  with one lemma per kind of step and the conclusion for an empty worklist.
\<close>

definition reach_from :: "('a \<Rightarrow> 'a set) \<Rightarrow> 'a set \<Rightarrow> 'a set" where
  "reach_from succ R = {v. \<exists>r \<in> R. (\<lambda>a b. b \<in> succ a)\<^sup>*\<^sup>* r v}"

lemma reach_root: "r \<in> R \<Longrightarrow> r \<in> reach_from succ R"
  by (auto simp: reach_from_def)

lemma reach_step: "v \<in> reach_from succ R \<Longrightarrow> w \<in> succ v \<Longrightarrow> w \<in> reach_from succ R"
  unfolding reach_from_def using rtranclp.rtrancl_into_rtrancl [where r = "\<lambda>a b. b \<in> succ a"] by blast

lemma reach_least:
  assumes "R \<subseteq> V" "\<And>v. v \<in> V \<Longrightarrow> succ v \<subseteq> V"
  shows "reach_from succ R \<subseteq> V"
proof
  fix x assume "x \<in> reach_from succ R"
  then obtain r where "r \<in> R" and "(\<lambda>a b. b \<in> succ a)\<^sup>*\<^sup>* r x" by (auto simp: reach_from_def)
  from this(2) show "x \<in> V" by (induction) (use assms \<open>r \<in> R\<close> in blast)+
qed

lemma reach_mono: "R \<subseteq> R' \<Longrightarrow> reach_from succ R \<subseteq> reach_from succ R'"
  by (auto simp: reach_from_def)

lemma reach_trans:
  assumes "a \<in> reach_from succ {b}" "b \<in> reach_from succ R"
  shows "a \<in> reach_from succ R"
  using assms(1) reach_least [of "{b}" "reach_from succ R" succ] assms(2) reach_step [of _ succ R] by blast

lemma reach_cases:
  assumes "a \<in> reach_from succ {b}"
  obtains "a = b" | c where "c \<in> succ b" "a \<in> reach_from succ {c}"
proof -
  have "(\<lambda>a b. b \<in> succ a)\<^sup>*\<^sup>* b a" using assms by (simp add: reach_from_def)
  then show thesis
  proof (cases rule: converse_rtranclpE)
    case base
    then show ?thesis by (intro that(1)) simp
  next
    case (step c)
    then show ?thesis by (intro that(2)) (auto simp: reach_from_def)
  qed
qed

definition explored :: "('a \<Rightarrow> 'a set) \<Rightarrow> 'a set \<Rightarrow> 'a set \<Rightarrow> 'a set \<Rightarrow> bool" where
  "explored succ R visited work \<longleftrightarrow> visited \<union> work \<subseteq> reach_from succ R \<and> R \<subseteq> visited \<union> work \<and>
     (\<forall>v \<in> visited. succ v \<subseteq> visited \<union> work)"

lemma explored_init: "explored succ R {} R"
  by (auto simp: explored_def reach_root)

lemma explored_work: "explored succ R V W \<Longrightarrow> w \<in> V \<union> W \<Longrightarrow> w \<in> reach_from succ R"
  unfolding explored_def by blast

lemma explored_skip: "explored succ R V (insert h W) \<Longrightarrow> h \<in> V \<Longrightarrow> explored succ R V W"
  unfolding explored_def by blast

lemma explored_expand: "explored succ R V (insert h W) \<Longrightarrow> explored succ R (insert h V) (W \<union> succ h)"
proof -
  assume e: "explored succ R V (insert h W)"
  then have "h \<in> reach_from succ R" by (auto simp: explored_def)
  then have "succ h \<subseteq> reach_from succ R" using reach_step [of h succ R] by blast
  with e show ?thesis unfolding explored_def by blast
qed

lemma explored_done: "explored succ R V {} \<Longrightarrow> V = reach_from succ R"
proof -
  assume e: "explored succ R V {}"
  then have "V \<subseteq> reach_from succ R" by (simp add: explored_def)
  moreover have "reach_from succ R \<subseteq> V"
    by (rule reach_least) (use e in \<open>simp_all add: explored_def\<close>)
  ultimately show ?thesis by blast
qed

lemma reach_cong:
  assumes "\<And>v. v \<in> reach_from succ R \<Longrightarrow> succ' v = succ v"
  shows "reach_from succ' R = reach_from succ R"
proof
  show "reach_from succ' R \<subseteq> reach_from succ R"
    by (rule reach_least) (use reach_root [of _ R succ] reach_step [of _ succ R] assms in blast)+
  have "x \<in> reach_from succ' R \<and> x \<in> reach_from succ R" if x: "x \<in> reach_from succ R" for x
  proof -
    obtain r where "r \<in> R" and "(\<lambda>a b. b \<in> succ a)\<^sup>*\<^sup>* r x" using x by (auto simp: reach_from_def)
    from this(2) show ?thesis
    proof (induction)
      case base
      then show ?case using \<open>r \<in> R\<close> by (simp add: reach_root)
    next
      case (step y z)
      then show ?case using assms [of y] reach_step [of y succ' R z] reach_step [of y succ R z] by blast
    qed
  qed
  then show "reach_from succ R \<subseteq> reach_from succ' R" by blast
qed

end
