(* ===== verification/MergeBase.thy ===== *)
theory MergeBase
  imports BranchMerge Explore
begin

text \<open>
  The commit graph of \<open>src/cas/branch_merge.cpp\<close>: collecting ancestors, the search for a merge
  base, loading the tree of a commit, and the commit with several parents that a merge
  writes.
\<close>

section \<open>Commits and their ancestors\<close>

definition read_commit_data :: "hash \<Rightarrow> (string + commit_data) io" where
  "read_commit_data h s =
     (case read_commit h s of
        (None, s) \<Rightarrow> (Inl (''failed to read commit '' @ hash_to_hex h), s)
      | (Some body, s) \<Rightarrow>
          (case decoded (deserialize_commit body) of
             None \<Rightarrow> (Inl (''failed to parse commit '' @ hash_to_hex h), s)
           | Some cd \<Rightarrow> (Inr cd, s)))"

text \<open>
  \<open>collect_ancestors\<close>: the queue, the ancestors found so far (keyed by their hex names, as
  in the source) and the store. Whether the loop ends is a theorem, so it is a partial
  function.
\<close>

type_synonym ancestor_map = "(string, hash) omap"

partial_function (option) collect_ancestors ::
  "hash list \<Rightarrow> ancestor_map \<Rightarrow> store \<Rightarrow> ((string + ancestor_map) \<times> store) option" where
  "collect_ancestors q ancestors s =
     (case q of
        [] \<Rightarrow> Some (Inr ancestors, s)
      | h # q \<Rightarrow>
          (if om_has (hash_to_hex h) ancestors then collect_ancestors q ancestors s
           else (let ancestors = om_put (hash_to_hex h) h ancestors in
             (case read_commit_data h s of
                (Inl e, s) \<Rightarrow> Some (Inl e, s)
              | (Inr cd, s) \<Rightarrow> collect_ancestors (q @ cd_parents cd) ancestors s))))"

text \<open>The answer, and the error message a failed read left behind.\<close>

partial_function (option) is_ancestor_of ::
  "string \<Rightarrow> hash list \<Rightarrow> string list \<Rightarrow> string \<Rightarrow> store \<Rightarrow> (bool \<times> string \<times> store) option" where
  "is_ancestor_of candidate_hex q seen error s =
     (case q of
        [] \<Rightarrow> Some (False, error, s)
      | h # q \<Rightarrow>
          (let hex = hash_to_hex h in
           if hex \<in> set seen then is_ancestor_of candidate_hex q seen error s
           else if hex = candidate_hex then Some (True, error, s)
           else (case read_commit_data h s of
                   (Inl e, s) \<Rightarrow> Some (False, e, s)
                 | (Inr cd, s) \<Rightarrow> is_ancestor_of candidate_hex (q @ cd_parents cd) (hex # seen) error s)))"

text \<open>Does one of the other candidates descend from \<open>candidate\<close>?\<close>

fun superseded_by :: "hash \<Rightarrow> hash list \<Rightarrow> string \<Rightarrow> store \<Rightarrow> (bool \<times> string \<times> store) option" where
  "superseded_by candidate [] error s = Some (False, error, s)"
| "superseded_by candidate (other # others) error s =
     (if candidate = other then superseded_by candidate others error s
      else case is_ancestor_of (hash_to_hex candidate) [other] [] error s of
             None \<Rightarrow> None
           | Some (b, error, s) \<Rightarrow>
               (if b then Some (True, error, s) else superseded_by candidate others error s))"

fun best_bases :: "hash list \<Rightarrow> hash list \<Rightarrow> string \<Rightarrow> store \<Rightarrow> (hash list \<times> string \<times> store) option" where
  "best_bases candidates [] error s = Some ([], error, s)"
| "best_bases candidates (c # cs) error s =
     (case superseded_by c candidates error s of
        None \<Rightarrow> None
      | Some (b, error, s) \<Rightarrow>
          (case best_bases candidates cs error s of
             None \<Rightarrow> None
           | Some (bases, error, s) \<Rightarrow> Some (if b then bases else c # bases, error, s)))"

text \<open>
  The merge base or the error. \<open>merge_bases.front()\<close> of an empty vector is undefined
  behaviour, here None like not returning.
\<close>

definition find_common_ancestor :: "hash \<Rightarrow> hash \<Rightarrow> store \<Rightarrow> ((string + hash) \<times> store) option" where
  "find_common_ancestor first second s =
     (if first = ZERO_HASH \<or> second = ZERO_HASH then Some (Inl ''no common ancestor'', s)
      else case collect_ancestors [first] [] s of
        None \<Rightarrow> None
      | Some (Inl e, s) \<Rightarrow> Some (Inl e, s)
      | Some (Inr first_ancestors, s) \<Rightarrow>
      (case collect_ancestors [second] [] s of
         None \<Rightarrow> None
       | Some (Inl e, s) \<Rightarrow> Some (Inl e, s)
       | Some (Inr second_ancestors, s) \<Rightarrow>
      (let candidates = map snd (filter (\<lambda>p. om_has (fst p) second_ancestors) first_ancestors) in
       if candidates = [] then Some (Inl ''no common ancestor'', s)
       else case best_bases candidates candidates [] s of
         None \<Rightarrow> None
       | Some (bases, _, s) \<Rightarrow>
      (case sort_key hash_to_hex bases of
         [] \<Rightarrow> None
       | common # _ \<Rightarrow> Some (Inr common, s)))))"

definition load_commit_tree ::
  "hash \<Rightarrow> store \<Rightarrow> ((string + working_tree \<times> commit_data) \<times> store) option" where
  "load_commit_tree commit_hash s =
     (case read_commit_data commit_hash s of
        (Inl e, s) \<Rightarrow> Some (Inl e, s)
      | (Inr cd, s) \<Rightarrow>
          (case rebuild_working_tree (cd_tree_hash cd) wt_new s of
             None \<Rightarrow> None
           | Some (Inl _, s) \<Rightarrow> Some (Inl (''failed to rebuild tree '' @ hash_to_hex (cd_tree_hash cd)), s)
           | Some (Inr wt, s) \<Rightarrow> Some (Inr (wt, cd), s)))"

definition write_commit_with_parents ::
  "(bytes \<Rightarrow> hash) \<Rightarrow> u64 \<Rightarrow> working_tree \<Rightarrow> hash list \<Rightarrow> u64 \<Rightarrow> u32 \<Rightarrow> string \<Rightarrow> (string + hash) io" where
  "write_commit_with_parents H now_ns wt parents session_id policy_version label s =
     (case serialize_working_tree H wt s of
        ((Inl _, _, _), s) \<Rightarrow> (Inl ''failed to serialize merged tree'', s)
      | ((Inr tree, written, _), s) \<Rightarrow>
      (let cd = \<lparr>cd_tree_hash = tree, cd_parents = parents, cd_session_id = session_id,
                 cd_timestamp_ns = now_ns, cd_label = label, cd_policy_version = policy_version\<rparr> in
       case write_commit H (serialize_commit cd) s of (c, s) \<Rightarrow>
       if c = ZERO_HASH then (Inl ''failed to write commit object'', s)
       else
       (case drain_pending s of (pending, s) \<Rightarrow>
        (let to_fsync = filter (\<lambda>h. h \<in> committed_graph wt written c) pending in
         case fsync_objects to_fsync s of
           (False, s) \<Rightarrow> (Inl ''failed to fsync merge objects'', restore_pending pending s)
         | (True, s) \<Rightarrow>
             (case fsync_shard_dirs to_fsync s of
                (False, s) \<Rightarrow> (Inl ''failed to fsync merge shard dirs'', restore_pending pending s)
              | (True, s) \<Rightarrow> (Inr c, s))))))"

section \<open>Reading commits\<close>

definition commit_at :: "store \<Rightarrow> hash \<Rightarrow> commit_data option" where
  "commit_at s h = (case payload ''commit'' s h of None \<Rightarrow> None | Some b \<Rightarrow> decoded (deserialize_commit b))"

definition parents_of :: "store \<Rightarrow> hash \<Rightarrow> hash set" where
  "parents_of s h = (case commit_at s h of None \<Rightarrow> {} | Some cd \<Rightarrow> set (cd_parents cd))"

abbreviation ancestors :: "store \<Rightarrow> hash \<Rightarrow> hash set" where
  "ancestors s h \<equiv> reach_from (parents_of s) {h}"

text \<open>What reads do to the store: only the script of outcomes moves on.\<close>

definition only_io :: "store \<Rightarrow> store \<Rightarrow> bool" where
  "only_io s s' \<longleftrightarrow> (\<exists>io. s' = s\<lparr>s_io := io\<rparr>) \<and> (s_io s = [] \<longrightarrow> s' = s)"

lemma only_io_refl [simp]: "only_io s s"
  by (auto simp: only_io_def intro: exI [of _ "s_io s"])

lemma only_io_trans [trans]: "only_io s t \<Longrightarrow> only_io t u \<Longrightarrow> only_io s u"
  by (auto simp: only_io_def)

lemma only_io_same: "only_io s s' \<Longrightarrow> commit_at s' = commit_at s" "only_io s s' \<Longrightarrow> parents_of s' = parents_of s"
  "only_io s s' \<Longrightarrow> find_object s' = find_object s"
  by (auto simp: only_io_def commit_at_def parents_of_def payload_def fun_eq_iff)

lemma read_commit_data_spec:
  assumes "read_commit_data h s = (r, s')"
  shows "only_io s s'" "r = Inr cd \<Longrightarrow> commit_at s h = Some cd"
    "s_io s = [] \<Longrightarrow> r = Inl e \<Longrightarrow> commit_at s h = None"
proof -
  obtain b t where r: "read_object h ''commit'' s = (b, t)" by fastforce
  note ro = read_object_same [OF r]
  have st: "s' = t" using assms r by (auto simp: read_commit_data_def read_commit_def split: option.splits)
  obtain io where io: "t = s\<lparr>s_io := io\<rparr>" using ro(5) by blast
  show "only_io s s'" using ro(4) io st by (auto simp: only_io_def)
  show "commit_at s h = Some cd" if rr: "r = Inr cd"
  proof -
    obtain body where "b = Some body" "decoded (deserialize_commit body) = Some cd"
      using assms r rr by (auto simp: read_commit_data_def read_commit_def split: option.splits)
    moreover from this ro(3) have "payload ''commit'' s h = Some body" by simp
    ultimately show ?thesis by (simp add: commit_at_def)
  qed
  show "commit_at s h = None" if "s_io s = []" "r = Inl e"
    using assms r that ro(4) by (auto simp: read_commit_data_def read_commit_def commit_at_def split: option.splits)
qed

lemma commit_stored: "commit_at s h = Some cd \<Longrightarrow> find_object s h \<noteq> None"
  by (auto simp: commit_at_def dest: payload_found split: option.splits)

lemma finite_stored: "finite {h. find_object s h \<noteq> None}"
  by (simp add: find_object_def flip: dom_def)

section \<open>Ancestors\<close>

text \<open>The ancestors found so far: sorted by name, each under its own name, all readable.\<close>

definition anc_ok :: "store \<Rightarrow> ancestor_map \<Rightarrow> bool" where
  "anc_ok s A \<longleftrightarrow> om_wf A \<and> (\<forall>k h. map_of A k = Some h \<longrightarrow> k = hash_to_hex h \<and> commit_at s h \<noteq> None)"

abbreviation anc_set :: "ancestor_map \<Rightarrow> hash set" where
  "anc_set A \<equiv> {h. map_of A (hash_to_hex h) = Some h}"

lemma anc_has: "anc_ok s A \<Longrightarrow> om_has (hash_to_hex h) A \<longleftrightarrow> h \<in> anc_set A"
proof -
  assume a: "anc_ok s A"
  have "om_has (hash_to_hex h) A \<longleftrightarrow> map_of A (hash_to_hex h) \<noteq> None" by (simp add: map_of_eq_None_iff)
  also have "\<dots> \<longleftrightarrow> h \<in> anc_set A"
  proof (cases "map_of A (hash_to_hex h)")
    case (Some h')
    then have "hash_to_hex h = hash_to_hex h'" using a by (simp add: anc_ok_def)
    with Some show ?thesis by simp
  qed simp
  finally show ?thesis .
qed

lemma anc_put: "anc_ok s A \<Longrightarrow> commit_at s h = Some cd \<Longrightarrow>
    anc_ok s (om_put (hash_to_hex h) h A) \<and> anc_set (om_put (hash_to_hex h) h A) = insert h (anc_set A)"
  by (auto simp: anc_ok_def om_simps om_wf_put)

lemma collect_ancestors_spec:
  assumes "anc_ok s A" "explored (parents_of s) R (anc_set A) (set q)"
  shows "\<exists>r s'. collect_ancestors q A s = Some (r, s') \<and> only_io s s' \<and>
    (case r of Inr A' \<Rightarrow> anc_ok s A' \<and> anc_set A' = reach_from (parents_of s) R
     | Inl _ \<Rightarrow> s_io s = [] \<longrightarrow> (\<exists>h \<in> reach_from (parents_of s) R. commit_at s h = None))"
proof -
  let ?U = "\<lambda>s A. {h. find_object s h \<noteq> None} - anc_set A"
  have "wf (measures [\<lambda>(q, A, s). card (?U s A), \<lambda>(q, A, s). length q])" by simp
  then show ?thesis using assms
  proof (induction "(q, A, s)" arbitrary: q A s rule: wf_induct_rule)
    case less
    show ?case
    proof (cases q)
      case Nil
      then show ?thesis
        using less.prems explored_done by (subst collect_ancestors.simps) auto
    next
      case (Cons h q')
      show ?thesis
      proof (cases "h \<in> anc_set A")
        case True
        have e: "explored (parents_of s) R (anc_set A) (set q')"
          using explored_skip [of "parents_of s" R "anc_set A" h "set q'"] less.prems(2) True Cons by simp
        have m: "((q', A, s), (q, A, s)) \<in> measures [\<lambda>(q, A, s). card (?U s A), \<lambda>(q, A, s). length q]"
          by (simp add: Cons)
        have "collect_ancestors q A s = collect_ancestors q' A s"
          using anc_has [OF less.prems(1), of h] True by (subst collect_ancestors.simps) (simp add: Cons)
        with less.hyps [OF m less.prems(1) e] show ?thesis by simp
      next
        case False
        have hR: "h \<in> reach_from (parents_of s) R" by (rule explored_work [OF less.prems(2)]) (simp add: Cons)
        obtain x t where r: "read_commit_data h s = (x, t)" by fastforce
        note rc = read_commit_data_spec [OF r]
        have step: "collect_ancestors q A s = (case x of Inl e \<Rightarrow> Some (Inl e, t)
            | Inr cd \<Rightarrow> collect_ancestors (q' @ cd_parents cd) (om_put (hash_to_hex h) h A) t)"
          using anc_has [OF less.prems(1), of h] False r
          by (subst collect_ancestors.simps) (auto simp: Cons Let_def split: sum.splits)
        show ?thesis
        proof (cases x)
          case (Inl e)
          then show ?thesis using step rc(1) rc(3) [of e] hR by auto
        next
          case (Inr cd)
          let ?A = "om_put (hash_to_hex h) h A"
          have cd: "commit_at s h = Some cd" by (rule rc(2) [OF Inr])
          note same = only_io_same [OF rc(1)]
          note ap = anc_put [OF less.prems(1) cd]
          have ok_same: "anc_ok t A' = anc_ok s A'" for A' unfolding anc_ok_def same by (rule refl)
          have a: "anc_ok t ?A" using ap ok_same by blast
          have "explored (parents_of s) R (insert h (anc_set A)) (set q' \<union> parents_of s h)"
            using explored_expand [of "parents_of s" R "anc_set A" h "set q'"] less.prems(2) Cons by simp
          then have e: "explored (parents_of t) R (anc_set ?A) (set (q' @ cd_parents cd))"
            using ap cd by (simp add: same parents_of_def [of s h])
          have "?U t ?A = ?U s A - {h}" using ap by (auto simp: same)
          moreover have "h \<in> ?U s A" using False commit_stored [OF cd] by simp
          ultimately have "?U t ?A \<subset> ?U s A" by blast
          then have "card (?U t ?A) < card (?U s A)" using finite_stored [of s] by (intro psubset_card_mono) auto
          then have m: "((q' @ cd_parents cd, ?A, t), (q, A, s)) \<in> measures [\<lambda>(q, A, s). card (?U s A), \<lambda>(q, A, s). length q]"
            by simp
          obtain r' s' where ih: "collect_ancestors (q' @ cd_parents cd) ?A t = Some (r', s')" "only_io t s'"
            "case r' of Inr A' \<Rightarrow> anc_ok t A' \<and> anc_set A' = reach_from (parents_of t) R
             | Inl _ \<Rightarrow> s_io t = [] \<longrightarrow> (\<exists>h \<in> reach_from (parents_of t) R. commit_at t h = None)"
            using less.hyps [OF m a e] by blast
          have "s_io s = [] \<longrightarrow> s_io t = []" using rc(1) by (auto simp: only_io_def)
          then have "case r' of Inr A' \<Rightarrow> anc_ok s A' \<and> anc_set A' = reach_from (parents_of s) R
             | Inl _ \<Rightarrow> s_io s = [] \<longrightarrow> (\<exists>h \<in> reach_from (parents_of s) R. commit_at s h = None)"
            using ih(3) by (cases r') (simp_all add: same ok_same)
          moreover have "only_io s s'" using rc(1) ih(2) by (rule only_io_trans)
          ultimately show ?thesis using ih(1) step Inr by (intro exI conjI) auto
        qed
      qed
    qed
  qed
qed


lemma is_ancestor_of_spec:
  assumes "explored (parents_of s) R {h. hash_to_hex h \<in> set seen} (set q)" "c \<notin> {h. hash_to_hex h \<in> set seen}"
  shows "\<exists>b e' s'. is_ancestor_of (hash_to_hex c) q seen e s = Some (b, e', s') \<and> only_io s s' \<and>
    (b \<longrightarrow> c \<in> reach_from (parents_of s) R) \<and>
    (s_io s = [] \<and> (\<forall>h \<in> reach_from (parents_of s) R. commit_at s h \<noteq> None) \<longrightarrow>
       (b \<longleftrightarrow> c \<in> reach_from (parents_of s) R))"
proof -
  let ?V = "\<lambda>seen. {h. hash_to_hex h \<in> set seen}"
  let ?U = "\<lambda>s seen. {h. find_object s h \<noteq> None} - ?V seen"
  have "wf (measures [\<lambda>(q, seen, s). card (?U s seen), \<lambda>(q, seen, s). length q])" by simp
  then show ?thesis using assms
  proof (induction "(q, seen, s)" arbitrary: q seen s rule: wf_induct_rule)
    case less
    show ?case
    proof (cases q)
      case Nil
      then show ?thesis
        using less.prems explored_done by (subst is_ancestor_of.simps) fastforce
    next
      case (Cons h q')
      have hR: "h \<in> reach_from (parents_of s) R" by (rule explored_work [OF less.prems(1)]) (simp add: Cons)
      consider "hash_to_hex h \<in> set seen" | "hash_to_hex h \<notin> set seen" "h = c" | "hash_to_hex h \<notin> set seen" "h \<noteq> c" by blast
      then show ?thesis
      proof cases
        case 1
        have e: "explored (parents_of s) R (?V seen) (set q')"
          using explored_skip [of "parents_of s" R "?V seen" h "set q'"] less.prems(1) 1 Cons by simp
        have m: "((q', seen, s), (q, seen, s)) \<in> measures [\<lambda>(q, seen, s). card (?U s seen), \<lambda>(q, seen, s). length q]"
          by (simp add: Cons)
        have "is_ancestor_of (hash_to_hex c) q seen e s = is_ancestor_of (hash_to_hex c) q' seen e s"
          using 1 by (subst is_ancestor_of.simps) (simp add: Cons)
        with less.hyps [OF m e less.prems(2)] show ?thesis by simp
      next
        case 2
        then have "is_ancestor_of (hash_to_hex c) q seen e s = Some (True, e, s)"
          by (subst is_ancestor_of.simps) (simp add: Cons)
        with hR 2 show ?thesis by auto
      next
        case 3
        obtain x t where r: "read_commit_data h s = (x, t)" by fastforce
        note rc = read_commit_data_spec [OF r]
        have step: "is_ancestor_of (hash_to_hex c) q seen e s = (case x of Inl e \<Rightarrow> Some (False, e, t)
            | Inr cd \<Rightarrow> is_ancestor_of (hash_to_hex c) (q' @ cd_parents cd) (hash_to_hex h # seen) e t)"
          using 3 r by (subst is_ancestor_of.simps) (auto simp: Cons Let_def split: sum.splits)
        show ?thesis
        proof (cases x)
          case (Inl e1)
          then show ?thesis using step rc(1) rc(3) [of e1] hR by auto
        next
          case (Inr cd)
          let ?seen = "hash_to_hex h # seen"
          have cd: "commit_at s h = Some cd" by (rule rc(2) [OF Inr])
          note same = only_io_same [OF rc(1)]
          have v: "?V ?seen = insert h (?V seen)" by auto
          have "explored (parents_of s) R (insert h (?V seen)) (set q' \<union> parents_of s h)"
            using explored_expand [of "parents_of s" R "?V seen" h "set q'"] less.prems(1) Cons by simp
          then have e: "explored (parents_of t) R (?V ?seen) (set (q' @ cd_parents cd))"
            using cd v by (simp add: same parents_of_def [of s h])
          have "?U t ?seen = ?U s seen - {h}" by (auto simp: same)
          moreover have "h \<in> ?U s seen" using 3 commit_stored [OF cd] by simp
          ultimately have "?U t ?seen \<subset> ?U s seen" by blast
          then have "card (?U t ?seen) < card (?U s seen)" using finite_stored [of s] by (intro psubset_card_mono) auto
          then have m: "((q' @ cd_parents cd, ?seen, t), (q, seen, s)) \<in> measures [\<lambda>(q, seen, s). card (?U s seen), \<lambda>(q, seen, s). length q]"
            by simp
          have c: "c \<notin> ?V ?seen" using less.prems(2) 3 by simp
          obtain b e' s' where ih: "is_ancestor_of (hash_to_hex c) (q' @ cd_parents cd) ?seen e t = Some (b, e', s')" "only_io t s'"
            "b \<longrightarrow> c \<in> reach_from (parents_of t) R"
            "s_io t = [] \<and> (\<forall>h \<in> reach_from (parents_of t) R. commit_at t h \<noteq> None) \<longrightarrow> (b \<longleftrightarrow> c \<in> reach_from (parents_of t) R)"
            using less.hyps [OF m e c] by blast
          have "s_io s = [] \<longrightarrow> s_io t = []" using rc(1) by (auto simp: only_io_def)
          moreover have "only_io s s'" using rc(1) ih(2) by (rule only_io_trans)
          ultimately show ?thesis using ih(1,3,4) step Inr by (auto simp: same)
        qed
      qed
    qed
  qed
qed

section \<open>Merge bases\<close>

lemma superseded_by_spec:
  "\<exists>b e' s'. superseded_by c os e s = Some (b, e', s') \<and> only_io s s' \<and>
    (b \<longrightarrow> (\<exists>other \<in> set os. other \<noteq> c \<and> c \<in> ancestors s other)) \<and>
    (s_io s = [] \<and> (\<forall>other \<in> set os. \<forall>h \<in> ancestors s other. commit_at s h \<noteq> None) \<longrightarrow>
       (b \<longleftrightarrow> (\<exists>other \<in> set os. other \<noteq> c \<and> c \<in> ancestors s other)))"
proof (induction os arbitrary: e s)
  case (Cons other os)
  show ?case
  proof (cases "c = other")
    case True
    then have eq: "superseded_by c (other # os) e s = superseded_by c os e s" by simp
    have "(\<exists>x \<in> set (other # os). x \<noteq> c \<and> c \<in> ancestors s x) \<longleftrightarrow> (\<exists>x \<in> set os. x \<noteq> c \<and> c \<in> ancestors s x)"
      using True by auto
    with Cons [of e s] show ?thesis unfolding eq by (elim exE conjE) (intro exI conjI; auto)
  next
    case False
    have "explored (parents_of s) {other} {h. hash_to_hex h \<in> set []} (set [other])"
      "c \<notin> {h. hash_to_hex h \<in> set []}" using explored_init by simp_all
    from is_ancestor_of_spec [OF this, of e]
    obtain b e1 s1 where a: "is_ancestor_of (hash_to_hex c) [other] [] e s = Some (b, e1, s1)" "only_io s s1"
      "b \<longrightarrow> c \<in> ancestors s other"
      "s_io s = [] \<and> (\<forall>h \<in> ancestors s other. commit_at s h \<noteq> None) \<longrightarrow> (b \<longleftrightarrow> c \<in> ancestors s other)" by (elim exE conjE)
    show ?thesis
    proof (cases b)
      case True
      with a False show ?thesis by auto
    next
      case bF: False
      obtain b' e' s' where i: "superseded_by c os e1 s1 = Some (b', e', s')" "only_io s1 s'"
        "b' \<longrightarrow> (\<exists>other \<in> set os. other \<noteq> c \<and> c \<in> ancestors s1 other)"
        "s_io s1 = [] \<and> (\<forall>other \<in> set os. \<forall>h \<in> ancestors s1 other. commit_at s1 h \<noteq> None) \<longrightarrow>
           (b' \<longleftrightarrow> (\<exists>other \<in> set os. other \<noteq> c \<and> c \<in> ancestors s1 other))"
        using Cons [of e1 s1] by blast
      have "s_io s = [] \<longrightarrow> s_io s1 = []" using a(2) by (auto simp: only_io_def)
      moreover have "only_io s s'" using a(2) i(2) by (rule only_io_trans)
      ultimately show ?thesis using a False bF i(1,3,4) by (auto simp: only_io_same [OF a(2)])
    qed
  qed
qed auto

definition superseded :: "store \<Rightarrow> hash set \<Rightarrow> hash \<Rightarrow> bool" where
  "superseded s C c \<longleftrightarrow> (\<exists>other \<in> C. other \<noteq> c \<and> c \<in> ancestors s other)"

lemma best_bases_spec:
  "\<exists>bs e' s'. best_bases cands cs e s = Some (bs, e', s') \<and> only_io s s' \<and> set bs \<subseteq> set cs \<and>
    (\<forall>c \<in> set cs. \<not> superseded s (set cands) c \<longrightarrow> c \<in> set bs) \<and>
    (s_io s = [] \<and> (\<forall>c \<in> set cands. \<forall>h \<in> ancestors s c. commit_at s h \<noteq> None) \<longrightarrow>
       (\<forall>c \<in> set bs. \<not> superseded s (set cands) c))"
proof (induction cs arbitrary: e s)
  case (Cons c cs)
  obtain b e1 s1 where a: "superseded_by c cands e s = Some (b, e1, s1)" "only_io s s1"
    "b \<longrightarrow> superseded s (set cands) c"
    "s_io s = [] \<and> (\<forall>c \<in> set cands. \<forall>h \<in> ancestors s c. commit_at s h \<noteq> None) \<longrightarrow> (b \<longleftrightarrow> superseded s (set cands) c)"
    using superseded_by_spec [of c cands e s] unfolding superseded_def by blast
  obtain bs e' s' where i: "best_bases cands cs e1 s1 = Some (bs, e', s')" "only_io s1 s'" "set bs \<subseteq> set cs"
    "\<forall>c \<in> set cs. \<not> superseded s1 (set cands) c \<longrightarrow> c \<in> set bs"
    "s_io s1 = [] \<and> (\<forall>c \<in> set cands. \<forall>h \<in> ancestors s1 c. commit_at s1 h \<noteq> None) \<longrightarrow> (\<forall>c \<in> set bs. \<not> superseded s1 (set cands) c)"
    using Cons [of e1 s1] by blast
  have sup: "superseded s1 = superseded s" by (simp add: superseded_def fun_eq_iff only_io_same [OF a(2)])
  have "s_io s = [] \<longrightarrow> s_io s1 = []" using a(2) by (auto simp: only_io_def)
  moreover have "only_io s s'" using a(2) i(2) by (rule only_io_trans)
  ultimately show ?case using a(1,3,4) i(1,3-5) by (cases b) (auto simp: sup only_io_same [OF a(2)])
qed auto

text \<open>No commit is its own proper ancestor, as collision-free hashing makes it.\<close>

definition acyclic_commits :: "store \<Rightarrow> bool" where
  "acyclic_commits s \<longleftrightarrow> (\<forall>h. \<forall>p \<in> parents_of s h. h \<notin> ancestors s p)"

lemma ancestors_antisym:
  assumes "acyclic_commits s" "a \<in> ancestors s b" "b \<in> ancestors s a"
  shows "a = b"
  using assms(2)
proof (cases rule: reach_cases)
  case (2 c)
  have "b \<in> ancestors s c" using reach_trans [OF assms(3) 2(2)] .
  with assms(1) 2(1) show ?thesis by (auto simp: acyclic_commits_def)
qed simp

lemma finite_unsuperseded:
  assumes "acyclic_commits s" "finite C" "C \<noteq> {}"
  shows "\<exists>c \<in> C. \<not> superseded s C c"
  using assms(2,3)
proof (induction C rule: finite_ne_induct)
  case (singleton x)
  then show ?case by (simp add: superseded_def)
next
  case (insert x C)
  then obtain c where c: "c \<in> C" "\<not> superseded s C c" by blast
  show ?case
  proof (cases "c \<in> ancestors s x")
    case False
    with c show ?thesis by (auto simp: superseded_def)
  next
    case True
    have "\<not> superseded s (insert x C) x"
    proof
      assume "superseded s (insert x C) x"
      then obtain y where y: "y \<in> C" "y \<noteq> x" "x \<in> ancestors s y" by (auto simp: superseded_def)
      have "c \<in> ancestors s y" by (rule reach_trans [OF True y(3)])
      then have "y = c" using c y(1) by (auto simp: superseded_def)
      then show False using ancestors_antisym [OF assms(1)] True y by blast
    qed
    then show ?thesis by blast
  qed
qed


text \<open>Both the outcome without faults and what holds whatever reads fail.\<close>

lemma find_common_ancestor_spec:
  assumes ac: "acyclic_commits s" and nz: "a \<noteq> ZERO_HASH" "b \<noteq> ZERO_HASH"
  defines "C \<equiv> ancestors s a \<inter> ancestors s b"
  shows "\<exists>r s'. find_common_ancestor a b s = Some (r, s') \<and> only_io s s' \<and> (\<forall>c. r = Inr c \<longrightarrow> c \<in> C) \<and>
    (s_io s = [] \<and> (\<forall>h \<in> ancestors s a \<union> ancestors s b. commit_at s h \<noteq> None) \<longrightarrow>
      (case r of
         Inl e \<Rightarrow> C = {} \<and> e = ''no common ancestor''
       | Inr c \<Rightarrow> \<not> superseded s C c \<and> (\<forall>d \<in> C. \<not> superseded s C d \<longrightarrow> hash_to_hex c \<le> hash_to_hex d)))"
proof -
  have i: "anc_ok u []" "explored (parents_of u) {x} (anc_set []) (set [x])" for u x
    using explored_init [of "parents_of u" "{x}"] by (simp_all add: anc_ok_def)
  obtain r1 s1 where c1: "collect_ancestors [a] [] s = Some (r1, s1)" "only_io s s1"
    "case r1 of Inr A \<Rightarrow> anc_ok s A \<and> anc_set A = ancestors s a
     | Inl _ \<Rightarrow> s_io s = [] \<longrightarrow> (\<exists>h \<in> ancestors s a. commit_at s h = None)"
    using collect_ancestors_spec [where A = "[]" and q = "[a]" and R = "{a}" and s = s, OF i] by blast
  note same1 = only_io_same [OF c1(2)]
  obtain r2 s2 where c2: "collect_ancestors [b] [] s1 = Some (r2, s2)" "only_io s1 s2"
    "case r2 of Inr A \<Rightarrow> anc_ok s1 A \<and> anc_set A = ancestors s1 b
     | Inl _ \<Rightarrow> s_io s1 = [] \<longrightarrow> (\<exists>h \<in> ancestors s1 b. commit_at s1 h = None)"
    using collect_ancestors_spec [where A = "[]" and q = "[b]" and R = "{b}" and s = s1, OF i] by blast
  have io2: "only_io s s2" using c1(2) c2(2) by (rule only_io_trans)
  note same2 = only_io_same [OF io2]
  have e1: "s_io s = [] \<longrightarrow> s_io s1 = [] \<and> s_io s2 = []" using c1(2) c2(2) by (auto simp: only_io_def)
  show ?thesis
  proof (cases r1)
    case (Inl e)
    then have "\<not> (s_io s = [] \<and> (\<forall>h \<in> ancestors s a \<union> ancestors s b. commit_at s h \<noteq> None))" using c1(3) by auto
    moreover have "find_common_ancestor a b s = Some (Inl e, s1)" using c1(1) nz Inl by (simp add: find_common_ancestor_def)
    ultimately show ?thesis using c1(2) by blast
  next
    case r1: (Inr A1)
    show ?thesis
    proof (cases r2)
      case (Inl e)
      then have "\<not> (s_io s = [] \<and> (\<forall>h \<in> ancestors s a \<union> ancestors s b. commit_at s h \<noteq> None))"
        using c2(3) e1 by (auto simp: same1)
      moreover have "find_common_ancestor a b s = Some (Inl e, s2)"
        using c1(1) c2(1) nz r1 Inl by (simp add: find_common_ancestor_def)
      ultimately show ?thesis using io2 by blast
    next
      case r2: (Inr A2)
      have A1: "anc_ok s A1" "anc_set A1 = ancestors s a" using c1(3) r1 by simp_all
      have A2: "anc_ok s A2" "anc_set A2 = ancestors s b"
        using c2(3) r2 same1 unfolding anc_ok_def by simp_all
      define cands where "cands = map snd (filter (\<lambda>p. om_has (fst p) A2) A1)"
      have mem: "(k, h) \<in> set A1 \<longleftrightarrow> k = hash_to_hex h \<and> h \<in> anc_set A1" for k h
        using A1(1) om_get_iff [of A1 k h] unfolding anc_ok_def by auto
      have set_c: "set cands = C"
      proof -
        have "set cands = {h. \<exists>k. (k, h) \<in> set A1 \<and> om_has k A2}" by (force simp: cands_def)
        also have "\<dots> = {h. h \<in> anc_set A1 \<and> h \<in> anc_set A2}"
          unfolding mem using anc_has [OF A2(1)] by blast
        finally show ?thesis unfolding A1(2) A2(2) C_def by blast
      qed
      show ?thesis
      proof (cases "cands = []")
        case True
        then have "find_common_ancestor a b s = Some (Inl ''no common ancestor'', s2)"
          using c1(1) c2(1) nz r1 r2 by (simp add: find_common_ancestor_def cands_def)
        moreover have "C = {}" using True set_c by simp
        ultimately show ?thesis using io2 by auto
      next
        case False
        obtain bs e3 s3 where b: "best_bases cands cands [] s2 = Some (bs, e3, s3)" "only_io s2 s3" "set bs \<subseteq> C"
          "\<forall>c \<in> C. \<not> superseded s2 C c \<longrightarrow> c \<in> set bs"
          "s_io s2 = [] \<and> (\<forall>c \<in> C. \<forall>h \<in> ancestors s2 c. commit_at s2 h \<noteq> None) \<longrightarrow> (\<forall>c \<in> set bs. \<not> superseded s2 C c)"
          using best_bases_spec [of cands cands "[]" s2] unfolding set_c by blast
        have sup: "superseded s2 = superseded s" by (simp add: superseded_def fun_eq_iff same2)
        have "finite C" "C \<noteq> {}" using set_c False by auto
        then obtain d where "d \<in> C" "\<not> superseded s C d" using finite_unsuperseded [OF ac, of C] by blast
        then have "set bs \<noteq> {}" using b(4) sup by auto
        then obtain c rest where srt: "sort_key hash_to_hex bs = c # rest"
          by (cases "sort_key hash_to_hex bs") (auto dest: arg_cong [where f = set])
        have cb: "c \<in> set bs" using srt by (metis list.set_intros(1) set_sort)
        have least: "hash_to_hex c \<le> hash_to_hex d" if "d \<in> set bs" for d
        proof -
          have "sorted (map hash_to_hex (c # rest))" using sorted_sort_key [of hash_to_hex bs] srt by simp
          moreover have "d \<in> set (c # rest)" using that srt by (metis set_sort)
          ultimately show ?thesis by auto
        qed
        have f: "find_common_ancestor a b s = Some (Inr c, s3)"
          using c1(1) c2(1) nz r1 r2 False b(1) srt by (simp add: find_common_ancestor_def cands_def [symmetric])
        have io3: "only_io s s3" using io2 b(2) by (rule only_io_trans)
        have sub: "ancestors s d \<subseteq> ancestors s a" if "d \<in> C" for d
          using that reach_trans [of _ "parents_of s" d "{a}"] by (auto simp: C_def)
        have "\<not> superseded s C c \<and> (\<forall>d \<in> C. \<not> superseded s C d \<longrightarrow> hash_to_hex c \<le> hash_to_hex d)"
          if q: "s_io s = [] \<and> (\<forall>h \<in> ancestors s a \<union> ancestors s b. commit_at s h \<noteq> None)"
        proof -
          have "\<forall>d \<in> C. \<forall>h \<in> ancestors s2 d. commit_at s2 h \<noteq> None" using q sub unfolding same2 by blast
          then have "\<forall>d \<in> set bs. \<not> superseded s C d" using b(5) q e1 unfolding sup by blast
          with cb b(4) least sup show ?thesis by simp
        qed
        moreover have "c \<in> C" using cb b(3) by blast
        ultimately show ?thesis using f io3 by (intro exI [of _ "Inr c"] exI [of _ s3]) simp
      qed
    qed
  qed
qed

section \<open>The merge commit\<close>

definition merge_commit_data :: "u64 \<Rightarrow> hash list \<Rightarrow> u64 \<Rightarrow> u32 \<Rightarrow> string \<Rightarrow> hash \<Rightarrow> commit_data" where
  "merge_commit_data ts ps si pv l tree = \<lparr>cd_tree_hash = tree, cd_parents = ps, cd_session_id = si,
     cd_timestamp_ns = ts, cd_label = l, cd_policy_version = pv\<rparr>"

lemma write_commit_with_parents_success:
  assumes "write_commit_with_parents H ts wt ps si pv l s = (Inr c, s')"
  obtains tree wr lv s2 s3 where "serialize_working_tree H wt s = ((Inr tree, wr, lv), s2)"
    "write_commit H (serialize_commit (merge_commit_data ts ps si pv l tree)) s2 = (c, s3)" "c \<noteq> ZERO_HASH"
    "sync_commit wt wr c s3 = (None, s')"
proof -
  obtain x wr lv s2 where s2: "serialize_working_tree H wt s = ((x, wr, lv), s2)" by (metis prod.collapse)
  then obtain tree where x: "x = Inr tree" using assms by (cases x) (auto simp: write_commit_with_parents_def)
  obtain c1 s3 where s3: "write_commit H (serialize_commit (merge_commit_data ts ps si pv l tree)) s2 = (c1, s3)" by fastforce
  obtain b1 t1 where f1: "fsync_objects (filter (\<lambda>h. h \<in> committed_graph wt wr c1) (s_pending s3)) (s3\<lparr>s_pending := []\<rparr>) = (b1, t1)"
    by fastforce
  obtain b2 t2 where f2: "fsync_shard_dirs (filter (\<lambda>h. h \<in> committed_graph wt wr c1) (s_pending s3)) t1 = (b2, t2)" by fastforce
  have r: "c1 \<noteq> ZERO_HASH" "c1 = c" "b1" "b2" "s' = t2"
    using assms s2 x s3 f1 f2
    by (cases b1; cases b2; auto simp: write_commit_with_parents_def drain_pending_def Let_def merge_commit_data_def split: if_splits)+
  show thesis
  proof (rule that)
    show "sync_commit wt wr c s3 = (None, s')"
      using r f1 f2 by (simp add: sync_commit_def drain_pending_def filter_to_committed_graph_def)
  qed (use s2 x s3 r in simp_all)
qed


lemma load_commit_tree_ok:
  assumes io: "s_io t = []" and c: "payload ''commit'' t c = Some (serialize_commit cd)" "length (cd_parents cd) < 2 ^ 27"
    and rb: "rebuild_working_tree (cd_tree_hash cd) wt_new t = Some (Inr wt', t)"
  shows "load_commit_tree c t =
    Some (Inr (wt', cd\<lparr>cd_label := take (length (cd_label cd) mod 65536) (cd_label cd)\<rparr>), t)"
proof -
  have rc: "read_commit c t = (Some (serialize_commit cd), t)"
    using read_object_ok [OF io] c(1) by (simp add: read_commit_def)
  show ?thesis
    using rb commit_codec [OF c(2)] by (simp add: load_commit_tree_def read_commit_data_def rc)
qed

section \<open>Properties\<close>

text \<open>
  C27: the merge base is right. Without faults, in an acyclic history that can be read, the
  search ends; it finds a common ancestor that no other common ancestor descends from, the
  one with the least name among those, or reports that there is no common ancestor when
  there is none.
\<close>

theorem merge_base_best:
  assumes "acyclic_commits s" "s_io s = []" "a \<noteq> ZERO_HASH" "b \<noteq> ZERO_HASH"
    and "\<forall>h \<in> ancestors s a \<union> ancestors s b. commit_at s h \<noteq> None"
  shows "\<exists>r. find_common_ancestor a b s = Some (r, s) \<and>
    (case r of
       Inl e \<Rightarrow> ancestors s a \<inter> ancestors s b = {} \<and> e = ''no common ancestor''
     | Inr c \<Rightarrow> c \<in> ancestors s a \<inter> ancestors s b \<and>
         (\<forall>d \<in> ancestors s a \<inter> ancestors s b. c \<in> ancestors s d \<longrightarrow> d = c) \<and>
         (\<forall>d \<in> ancestors s a \<inter> ancestors s b.
            (\<forall>d' \<in> ancestors s a \<inter> ancestors s b. d \<in> ancestors s d' \<longrightarrow> d' = d) \<longrightarrow> hash_to_hex c \<le> hash_to_hex d))"
proof -
  let ?C = "ancestors s a \<inter> ancestors s b"
  obtain r s' where r: "find_common_ancestor a b s = Some (r, s')" "only_io s s'" "\<forall>c. r = Inr c \<longrightarrow> c \<in> ?C"
    "case r of Inl e \<Rightarrow> ?C = {} \<and> e = ''no common ancestor''
     | Inr c \<Rightarrow> \<not> superseded s ?C c \<and> (\<forall>d \<in> ?C. \<not> superseded s ?C d \<longrightarrow> hash_to_hex c \<le> hash_to_hex d)"
    using find_common_ancestor_spec [OF assms(1,3,4)] assms(2,5) by blast
  have "s' = s" using r(2) assms(2) by (simp add: only_io_def)
  moreover have "\<not> superseded s ?C d \<longleftrightarrow> (\<forall>d' \<in> ?C. d \<in> ancestors s d' \<longrightarrow> d' = d)" for d
    unfolding superseded_def by blast
  ultimately show ?thesis using r(1,3,4) by (cases r) simp_all
qed

text \<open>Two commits on a common root commit.\<close>

definition fork_store :: store where
  "fork_store = (let
      mk = (\<lambda>l ps. bytes_of ''commit'' @ serialize_commit (merge_commit_data 0 ps 0 0 l 9));
      ob = (\<lambda>d. \<lparr>o_data = d, o_mtime = 0, o_synced = True, o_linked = True\<rparr>) in
    (new_store ''/s'' 0)\<lparr>s_objects := [(1, ob (mk ''root'' [])), (2, ob (mk ''a'' [1])), (3, ob (mk ''b'' [1]))]\<rparr>)"

lemma fork_parents:
  "commit_at fork_store 1 = Some (merge_commit_data 0 [] 0 0 ''root'' 9)"
  "commit_at fork_store 2 = Some (merge_commit_data 0 [1] 0 0 ''a'' 9)"
  "commit_at fork_store 3 = Some (merge_commit_data 0 [1] 0 0 ''b'' 9)"
  "h \<notin> {1, 2, 3} \<Longrightarrow> commit_at fork_store h = None"
  using commit_codec [of "merge_commit_data 0 [] 0 0 ''root'' 9"] commit_codec [of "merge_commit_data 0 [1] 0 0 ''a'' 9"]
    commit_codec [of "merge_commit_data 0 [1] 0 0 ''b'' 9"]
  by (simp_all add: commit_at_def payload_def fork_store_def Let_def find_object_def merge_commit_data_def)

lemma fork_ancestors:
  "parents_of fork_store h = (if h \<in> {2, 3} then {1} else {})"
  "ancestors fork_store 1 = {1}" "ancestors fork_store 2 = {1, 2}" "ancestors fork_store 3 = {1, 3}"
proof -
  show p: "parents_of fork_store h = (if h \<in> {2, 3} then {1} else {})" for h
  proof (cases "h \<in> {1, 2, 3}")
    case True
    then show ?thesis by (auto simp: parents_of_def fork_parents(1-3) merge_commit_data_def)
  qed (use fork_parents(4) in \<open>simp add: parents_of_def\<close>)
  have "reach_from (parents_of fork_store) {x} = insert x (parents_of fork_store x)" for x
  proof
    show "reach_from (parents_of fork_store) {x} \<subseteq> insert x (parents_of fork_store x)"
      by (rule reach_least) (auto simp: p split: if_splits)
    show "insert x (parents_of fork_store x) \<subseteq> reach_from (parents_of fork_store) {x}"
      using reach_root [of x "{x}"] reach_step [of x "parents_of fork_store" "{x}"] by auto
  qed
  then show "ancestors fork_store 1 = {1}" "ancestors fork_store 2 = {1, 2}" "ancestors fork_store 3 = {1, 3}"
    by (auto simp: p)
qed

lemma fork_acyclic: "acyclic_commits fork_store" "s_io fork_store = []"
proof -
  show "acyclic_commits fork_store" unfolding acyclic_commits_def by (auto simp: fork_ancestors split: if_splits)
  show "s_io fork_store = []" by (simp add: fork_store_def Let_def)
qed

theorem merge_base_best_witness: "find_common_ancestor 2 3 fork_store = Some (Inr 1, fork_store)"
proof -
  have "\<forall>h \<in> ancestors fork_store 2 \<union> ancestors fork_store 3. commit_at fork_store h \<noteq> None"
    by (simp add: fork_ancestors fork_parents)
  from merge_base_best [OF fork_acyclic _ _ this]
  obtain r where "find_common_ancestor 2 3 fork_store = Some (r, fork_store)"
    "case r of Inl _ \<Rightarrow> ancestors fork_store 2 \<inter> ancestors fork_store 3 = {}
       | Inr c \<Rightarrow> c \<in> ancestors fork_store 2 \<inter> ancestors fork_store 3"
    by (fastforce split: sum.split_asm)
  then show ?thesis by (cases r) (simp_all add: fork_ancestors)
qed

text \<open>
  C35: The search for a merge base always ends, whatever reads fail, also when commits are
  missing or cannot be parsed; it changes nothing in the store, and a base that it reports is
  an ancestor of both commits.
\<close>

theorem merge_base_terminates:
  assumes "acyclic_commits s"
  shows "\<exists>r s'. find_common_ancestor a b s = Some (r, s') \<and> s_objects s' = s_objects s \<and>
    (\<forall>c. r = Inr c \<longrightarrow> c \<in> ancestors s a \<inter> ancestors s b)"
proof (cases "a = ZERO_HASH \<or> b = ZERO_HASH")
  case True
  then show ?thesis by (auto simp: find_common_ancestor_def)
next
  case False
  then obtain r s' where "find_common_ancestor a b s = Some (r, s')" "only_io s s'"
    "\<forall>c. r = Inr c \<longrightarrow> c \<in> ancestors s a \<inter> ancestors s b"
    using find_common_ancestor_spec [OF assms, of a b] by blast
  then show ?thesis by (auto simp: only_io_def)
qed

theorem merge_base_terminates_witness: "\<exists>r s'. find_common_ancestor 2 3 fork_store = Some (r, s')"
  using merge_base_terminates [OF fork_acyclic(1), of 2 3] by blast

text \<open>
  A merge commit reads back: loading the commit that \<open>write_commit_with_parents\<close> wrote gives
  the parents, the session and the label's first \<open>n mod 65536\<close> bytes, and a tree with every
  entry that was written.
\<close>

theorem merge_commit_roundtrip:
  assumes "write_commit_with_parents H ts wt ps si pv l s = (Inr c, s')" "length ps < 2 ^ 27"
    and "tree_ok wt" "trees_apart H s (set (tree_bodies H wt))"
      "commits_apart H s (set (tree_bodies H wt))
         ((\<lambda>x. serialize_commit (merge_commit_data ts ps si pv l (tree_hash H x))) ` set (tree_bodies H wt))"
    and "store_le s' t" "s_io t = []"
  shows "\<exists>wt' cd. load_commit_tree c t = Some (Inr (wt', cd), t) \<and> cd_parents cd = ps \<and> cd_session_id cd = si \<and>
    cd_label cd = take (length l mod 65536) l \<and>
    (\<forall>p. rel_option same_entry (lookup_raw p wt) (lookup_raw p wt'))"
proof -
  obtain tree wr lv s2 s3 where st: "serialize_working_tree H wt s = ((Inr tree, wr, lv), s2)"
    "write_commit H (serialize_commit (merge_commit_data ts ps si pv l tree)) s2 = (c, s3)" "c \<noteq> ZERO_HASH"
    "sync_commit wt wr c s3 = (None, s')" using assms(1) by (rule write_commit_with_parents_success)
  let ?cd = "merge_commit_data ts ps si pv l tree"
  note w = st(2) [unfolded write_commit_def]
  have "serialize_commit ?cd \<in> (\<lambda>x. serialize_commit (merge_commit_data ts ps si pv l (tree_hash H x))) ` set (tree_bodies H wt)"
    using serialize_hashes [OF st(1)] by auto
  then have "no_collision H ''commit'' (serialize_commit ?cd) s2"
    using serialize_no_collision [OF st(1)] assms(5) by (auto simp: commits_apart_def)
  then have p3: "payload ''commit'' s3 c = Some (serialize_commit ?cd)"
    using write_object_payload [OF w st(3)] by blast
  have le3: "store_le s3 t" using sync_commit_effect(1) [OF st(4)] assms(6) by (rule store_le_trans)
  have le2: "store_le s2 t" using write_object_le [OF w] le3 by (rule store_le_trans)
  have keep: "payload ''tree'' t k = Some x" if "k \<in> set wr" "payload ''tree'' s2 k = Some x" for k x
    using payload_mono [OF le2] that by blast
  obtain dh m where m: "rebuild_loop [(tree, ''/'')] [] t = Some (Inr m, t)" "map_of m = relinked_map dh wt"
    using serialize_rebuild [OF assms(3,4) st(1) keep assms(7)] by blast
  have "rebuild_working_tree (cd_tree_hash ?cd) wt_new t = Some (Inr (set_base m wt_new), t)"
    using m(1) by (simp add: rebuild_working_tree_def merge_commit_data_def)
  moreover have "rel_option same_entry (lookup_raw p wt) (lookup_raw p (set_base m wt_new))" for p
    unfolding lookup_set_base m(2) lookup_raw_view [of p wt]
    by (cases "wt_raw wt p") (simp_all add: relinked_map_def same_entry_relinked)
  ultimately show ?thesis
    using load_commit_tree_ok [OF assms(7) payload_mono [OF le3 p3], of "set_base m wt_new"] assms(2)
    by (simp add: merge_commit_data_def)
qed

theorem merge_commit_roundtrip_witness:
  "\<exists>c s' wt' cd. load_commit_tree c s' = Some (Inr (wt', cd), s') \<and> cd_parents cd = [1, 2]"
proof -
  let ?s = "rp_store sample_repo" and ?wt = "rp_wt sample_repo"
  obtain h wr lv s2 where s2: "serialize_working_tree tag_hash ?wt ?s = ((Inr h, wr, lv), s2)" "s_io s2 = []"
    using serialize_working_tree_ok [OF sample_repo_ok(7), of tag_hash ?wt] by auto
  have p2: "pend_ok s2" by (rule serialize_pend [OF s2(1) sample_repo_ok(6)])
  let ?b = "serialize_commit (merge_commit_data 7 [1, 2] 0 0 ''merge'' h)"
  obtain c s3 where w: "write_object tag_hash ''commit'' ?b s2 = (c, s3)" by fastforce
  have c: "c = 100" "s_io s3 = []"
    using write_object_ok [OF s2(2), of tag_hash "''commit''" ?b] w by simp_all
  obtain s4 where s4: "sync_commit ?wt wr c s3 = (None, s4)" "s_io s4 = []"
    using sync_commit_ok [OF c(2) write_object_pend [OF w p2]] by blast
  have run: "write_commit_with_parents tag_hash 7 ?wt [1, 2] 0 0 ''merge'' ?s = (Inr c, s4)"
    using s2(1) w c(1) s4(1)
    by (auto simp: write_commit_with_parents_def write_commit_def merge_commit_data_def sync_commit_def
        drain_pending_def filter_to_committed_graph_def Let_def split: prod.splits bool.splits)
  show ?thesis
    using merge_commit_roundtrip [OF run _ sample_repo_ok(2,4,3) store_le_refl s4(2)] by auto
qed

end
