(* ===== verification/RecordText.thy ===== *)
theory RecordText
  imports ObjectStore
begin

text \<open>
  The line-oriented \<open>key=value\<close> documents of \<open>src/cas/agent_state.cpp\<close> and
  \<open>src/cas/runtime_state.cpp\<close>: the percent codec, the integer fields and the loop over the
  lines, which both files have in the same words.
\<close>

named_theorems rec_simps "rewrite rules of the record documents"

abbreviation LF :: char where "LF \<equiv> CHR 0x0A"
abbreviation CR :: char where "CR \<equiv> CHR 0x0D"

section \<open>The percent codec\<close>

definition percent_escape :: "char \<Rightarrow> string" where
  "percent_escape c =
     (if c = CHR ''%'' then ''%25''
      else if c = LF then ''%0A''
      else if c = CR then ''%0D''
      else if c = CHR ''='' then ''%3D''
      else if c = CHR ''|'' then ''%7C''
      else if c = CHR '' '' then ''%20''
      else [c])"

definition percent_encode :: "string \<Rightarrow> string" where
  "percent_encode s = concat (map percent_escape s)"

definition hex_val :: "char \<Rightarrow> nat option" where
  "hex_val ch = (let n = (of_char ch :: nat) in
     if 48 \<le> n \<and> n \<le> 57 then Some (n - 48)
     else if 97 \<le> n \<and> n \<le> 102 then Some (n - 97 + 10)
     else if 65 \<le> n \<and> n \<le> 70 then Some (n - 65 + 10)
     else None)"

fun percent_decode :: "string \<Rightarrow> string + string" where
  "percent_decode [] = Inr []"
| "percent_decode (c # cs) =
     (if c = CHR ''%'' then
        (case cs of
           a # b # rest \<Rightarrow>
             (case (hex_val a, hex_val b) of
                (Some hi, Some lo) \<Rightarrow> map_sum id (Cons (char_of (hi * 16 + lo))) (percent_decode rest)
              | _ \<Rightarrow> Inl ''percent-decode: invalid hex digit'')
         | _ \<Rightarrow> Inl ''percent-decode: truncated escape'')
      else map_sum id (Cons c) (percent_decode cs))"

lemma percent_escape_clean:
  "LF \<notin> set (percent_escape c)" "CHR ''='' \<notin> set (percent_escape c)" "CHR ''|'' \<notin> set (percent_escape c)"
  by (simp_all add: percent_escape_def)

lemma percent_encode_clean [simp]:
  "LF \<notin> set (percent_encode s)" "CHR ''='' \<notin> set (percent_encode s)" "CHR ''|'' \<notin> set (percent_encode s)"
  using percent_escape_clean by (auto simp: percent_encode_def)

lemma char_of_eqI: "(of_char c :: nat) = n \<Longrightarrow> char_of n = c"
  by auto

lemma percent_decode_escape:
  "percent_decode (percent_escape c @ rest) = map_sum id (Cons c) (percent_decode rest)"
proof -
  have "char_of (37 :: nat) = CHR ''%''" "char_of (10 :: nat) = LF" "char_of (13 :: nat) = CR"
    "char_of (61 :: nat) = CHR ''=''" "char_of (124 :: nat) = CHR ''|''" "char_of (32 :: nat) = CHR '' ''"
    by (rule char_of_eqI, simp)+
  then show ?thesis by (simp add: percent_escape_def hex_val_def)
qed

lemma percent_decode_encode [simp, rec_simps]: "percent_decode (percent_encode s) = Inr s"
proof (induction s)
  case (Cons c s)
  have "percent_encode (c # s) = percent_escape c @ percent_encode s" by (simp add: percent_encode_def)
  with Cons show ?case by (simp add: percent_decode_escape)
qed (simp add: percent_encode_def)

section \<open>Integer fields\<close>

definition strtoull_max :: nat where "strtoull_max = 2 ^ 64 - 1"

definition parse_uint :: "string \<Rightarrow> string + nat" where
  "parse_uint s =
     (if s = [] then Inl ''empty integer field''
      else if \<not> list_all is_digit s then Inl ''non-digit in integer field''
      else if strtoull_max < digits_val s then Inl ''integer field parse failed''
      else Inr (digits_val s))"

definition parse_u64 :: "string \<Rightarrow> string + u64" where
  "parse_u64 s = map_sum id of_nat (parse_uint s)"

definition parse_u32 :: "string \<Rightarrow> string + u32" where
  "parse_u32 s =
     (case parse_uint s of
        Inl e \<Rightarrow> Inl e
      | Inr v \<Rightarrow> if 2 ^ 32 - 1 < v then Inl ''integer field out of u32 range'' else Inr (of_nat v))"

definition print_uint :: "'a::len word \<Rightarrow> string" where
  "print_uint w = nat_digits (unat w)"

lemma parse_u64_print [simp, rec_simps]: "parse_u64 (print_uint (w :: u64)) = Inr w"
proof -
  have "unat w < 2 ^ 64" using unat_lt2p [of w] by simp
  then show ?thesis
    by (simp add: parse_u64_def parse_uint_def print_uint_def nat_digits_digits strtoull_max_def)
qed

lemma parse_u32_print [simp, rec_simps]: "parse_u32 (print_uint (w :: u32)) = Inr w"
proof -
  have "unat w < 2 ^ 32" using unat_lt2p [of w] by simp
  then show ?thesis
    by (simp add: parse_u32_def parse_uint_def print_uint_def nat_digits_digits strtoull_max_def)
qed

lemma print_uint_clean [simp]: "LF \<notin> set (print_uint w)"
proof
  assume "LF \<in> set (print_uint w)"
  then have "is_digit LF" using nat_digits_digits [of "unat w"] by (auto simp: print_uint_def list_all_iff)
  then show False by (simp add: is_digit_def)
qed

lemma hash_to_hex_clean [simp]: "LF \<notin> set (hash_to_hex h)"
proof
  assume "LF \<in> set (hash_to_hex h)"
  moreover have "is_hex_hash (hash_to_hex h)" by simp
  ultimately have "hexval LF \<noteq> None" by (auto simp: is_hex_hash_def list_all_iff)
  then show False by (simp add: hexval_def)
qed

section \<open>Lines\<close>

definition field_line :: "string \<Rightarrow> string \<Rightarrow> string" where
  "field_line key value = key @ ''='' @ value @ [LF]"

definition missing_separator :: string where
  "missing_separator = ''line missing '' @ [CHR 0x27, CHR ''='', CHR 0x27] @ '' separator''"

function parse_lines :: "(string \<Rightarrow> string \<Rightarrow> 'r \<Rightarrow> string + 'r) \<Rightarrow> string \<Rightarrow> 'r \<Rightarrow> string + 'r" where
  "parse_lines assign s out =
     (if s = [] then Inr out
      else (let line = takeWhile (\<lambda>c. c \<noteq> LF) s; rest = drop (Suc (length line)) s in
        if line = [] then parse_lines assign rest out
        else if CHR ''='' \<notin> set line then Inl missing_separator
        else (let key = takeWhile (\<lambda>c. c \<noteq> CHR ''='') line; value = drop (Suc (length key)) line in
          case assign key value out of
            Inl e \<Rightarrow> Inl e
          | Inr out \<Rightarrow> parse_lines assign rest out)))"
  by pat_completeness auto
termination by (relation "measure (\<lambda>(assign, s, out). length s)") auto

declare parse_lines.simps [simp del]


lemma parse_lines_Nil [simp]: "parse_lines assign [] out = Inr out"
  by (simp add: parse_lines.simps)

lemma takeWhile_stop: "x \<notin> set k \<Longrightarrow> takeWhile (\<lambda>c. c \<noteq> x) (k @ x # r) = k"
  by (subst takeWhile_append2) auto

lemma parse_lines_field [rec_simps]:
  assumes "CHR ''='' \<notin> set key" "LF \<notin> set key" "LF \<notin> set value"
  shows "parse_lines assign (field_line key value @ rest) out =
    (case assign key value out of Inl e \<Rightarrow> Inl e | Inr out \<Rightarrow> parse_lines assign rest out)"
proof -
  define l where "l = key @ CHR ''='' # value"
  have "field_line key value @ rest = l @ LF # rest" by (simp add: field_line_def l_def)
  moreover have "takeWhile (\<lambda>c. c \<noteq> LF) (l @ LF # rest) = l"
    using assms(2,3) by (intro takeWhile_stop) (simp add: l_def)
  moreover have "takeWhile (\<lambda>c. c \<noteq> CHR ''='') l = key" "drop (Suc (length key)) l = value" "CHR ''='' \<in> set l" "l \<noteq> []"
    using takeWhile_stop [OF assms(1), of "value"] by (simp_all add: l_def)
  ultimately show ?thesis by (subst parse_lines.simps) (simp add: Let_def split: sum.split)
qed

end
