(* ===== verification/AgentState.thy ===== *)
theory AgentState
  imports RecordText
begin

text \<open>
  \<open>src/cas/agent_state.h\<close> and \<open>agent_state.cpp\<close>: agent state records, their document format, and
  writing them to and reading them from the object store.
\<close>

datatype agent_state_kind =
  Session | Execution | ToolCall | RuntimeResource | ExternalHandle | FsLink | RuntimeSnapshot

record agent_state_record =
  as_record_version :: u32
  as_state_id :: string
  as_parent_state_id :: string
  as_snapshot_base_state_id :: string
  as_branch :: string
  as_fs_commit :: hash
  as_union_state_id :: string
  as_runtime_id :: string
  as_agent_id :: string
  as_sequence :: u64
  as_kind :: agent_state_kind
  as_payload_schema :: string
  as_payload_inline :: string
  as_payload_ref :: string
  as_dependency_hashes :: "hash list"
  as_timestamp_ns :: u64
  as_boundary :: bool

definition default_record :: agent_state_record where
  "default_record = \<lparr>as_record_version = 1, as_state_id = [], as_parent_state_id = [],
     as_snapshot_base_state_id = [], as_branch = ''main'', as_fs_commit = ZERO_HASH,
     as_union_state_id = [], as_runtime_id = [], as_agent_id = [], as_sequence = 0, as_kind = Session,
     as_payload_schema = [], as_payload_inline = [], as_payload_ref = [], as_dependency_hashes = [],
     as_timestamp_ns = 0, as_boundary = False\<rparr>"

definition is_valid_state_id :: "string \<Rightarrow> bool" where
  "is_valid_state_id s \<longleftrightarrow> (if s = [] then True else is_hex_hash s)"

definition assign_state_id_field :: "(string \<Rightarrow> 'r \<Rightarrow> 'r) \<Rightarrow> string \<Rightarrow> string \<Rightarrow> 'r \<Rightarrow> string + 'r" where
  "assign_state_id_field upd value field_name out =
     (case percent_decode value of
        Inl e \<Rightarrow> Inl e
      | Inr d \<Rightarrow> if \<not> is_valid_state_id d then Inl (''invalid '' @ field_name @ '' hash'') else Inr (upd d out))"

definition append_dependency_hash :: "string \<Rightarrow> agent_state_record \<Rightarrow> string + agent_state_record" where
  "append_dependency_hash value st =
     (case hex_to_hash_strict value of
        None \<Rightarrow> Inl ''invalid dependency_hash''
      | Some d \<Rightarrow> if d = ZERO_HASH then Inl ''invalid dependency_hash''
                  else Inr (st\<lparr>as_dependency_hashes := as_dependency_hashes st @ [d]\<rparr>))"

definition parse_agent_state_kind :: "string \<Rightarrow> agent_state_kind option" where
  "parse_agent_state_kind text =
     (if text = ''session'' then Some Session
      else if text = ''execution'' then Some Execution
      else if text = ''tool_call'' then Some ToolCall
      else if text = ''runtime_resource'' then Some RuntimeResource
      else if text = ''external_handle'' then Some ExternalHandle
      else if text = ''fs_link'' then Some FsLink
      else if text = ''runtime_snapshot'' then Some RuntimeSnapshot
      else None)"

fun agent_state_kind_label :: "agent_state_kind \<Rightarrow> string" where
  "agent_state_kind_label Session = ''session''"
| "agent_state_kind_label Execution = ''execution''"
| "agent_state_kind_label ToolCall = ''tool_call''"
| "agent_state_kind_label RuntimeResource = ''runtime_resource''"
| "agent_state_kind_label ExternalHandle = ''external_handle''"
| "agent_state_kind_label FsLink = ''fs_link''"
| "agent_state_kind_label RuntimeSnapshot = ''runtime_snapshot''"

definition decode_field :: "(string \<Rightarrow> 'r \<Rightarrow> 'r) \<Rightarrow> string \<Rightarrow> 'r \<Rightarrow> string + 'r" where
  "decode_field upd value out = map_sum id (\<lambda>d. upd d out) (percent_decode value)"

definition assign_field :: "string \<Rightarrow> string \<Rightarrow> agent_state_record \<Rightarrow> string + agent_state_record" where
  "assign_field key value st =
     (if key = ''record_version'' then map_sum id (\<lambda>v. st\<lparr>as_record_version := v\<rparr>) (parse_u32 value)
      else if key = ''parent_state_id'' then
        assign_state_id_field (\<lambda>d. as_parent_state_id_update (\<lambda>_. d)) value ''parent_state_id'' st
      else if key = ''snapshot_base_state_id'' then
        assign_state_id_field (\<lambda>d. as_snapshot_base_state_id_update (\<lambda>_. d)) value ''snapshot_base_state_id'' st
      else if key = ''branch'' then decode_field (\<lambda>d. as_branch_update (\<lambda>_. d)) value st
      else if key = ''fs_commit'' then
        (case hex_to_hash_strict value of
           None \<Rightarrow> Inl ''invalid fs_commit hash'' | Some h \<Rightarrow> Inr (st\<lparr>as_fs_commit := h\<rparr>))
      else if key = ''union_state_id'' then
        assign_state_id_field (\<lambda>d. as_union_state_id_update (\<lambda>_. d)) value ''union_state_id'' st
      else if key = ''runtime_id'' then decode_field (\<lambda>d. as_runtime_id_update (\<lambda>_. d)) value st
      else if key = ''agent_id'' then decode_field (\<lambda>d. as_agent_id_update (\<lambda>_. d)) value st
      else if key = ''sequence'' then map_sum id (\<lambda>v. st\<lparr>as_sequence := v\<rparr>) (parse_u64 value)
      else if key = ''kind'' then
        (case parse_agent_state_kind value of
           None \<Rightarrow> Inl ''invalid agent state kind'' | Some k \<Rightarrow> Inr (st\<lparr>as_kind := k\<rparr>))
      else if key = ''payload_schema'' then decode_field (\<lambda>d. as_payload_schema_update (\<lambda>_. d)) value st
      else if key = ''payload_inline'' then decode_field (\<lambda>d. as_payload_inline_update (\<lambda>_. d)) value st
      else if key = ''payload_ref'' then
        assign_state_id_field (\<lambda>d. as_payload_ref_update (\<lambda>_. d)) value ''payload_ref'' st
      else if key = ''dependency_hash'' then append_dependency_hash value st
      else if key = ''timestamp_ns'' then map_sum id (\<lambda>v. st\<lparr>as_timestamp_ns := v\<rparr>) (parse_u64 value)
      else if key = ''boundary'' then
        (if value = ''1'' then Inr (st\<lparr>as_boundary := True\<rparr>)
         else if value = ''0'' then Inr (st\<lparr>as_boundary := False\<rparr>)
         else Inl ''boundary flag must be 0 or 1'')
      else Inr st)"

definition agent_header :: string where
  "agent_header = ''agentvfs.agent_state.v1'' @ [LF]"

definition serialize_agent_state_record :: "agent_state_record \<Rightarrow> bytes" where
  "serialize_agent_state_record st = bytes_of
     (agent_header @
      field_line ''record_version'' (print_uint (as_record_version st)) @
      field_line ''parent_state_id'' (percent_encode (as_parent_state_id st)) @
      field_line ''snapshot_base_state_id'' (percent_encode (as_snapshot_base_state_id st)) @
      field_line ''branch'' (percent_encode (as_branch st)) @
      field_line ''fs_commit'' (hash_to_hex (as_fs_commit st)) @
      field_line ''union_state_id'' (percent_encode (as_union_state_id st)) @
      field_line ''runtime_id'' (percent_encode (as_runtime_id st)) @
      field_line ''agent_id'' (percent_encode (as_agent_id st)) @
      field_line ''sequence'' (print_uint (as_sequence st)) @
      field_line ''kind'' (agent_state_kind_label (as_kind st)) @
      field_line ''payload_schema'' (percent_encode (as_payload_schema st)) @
      field_line ''payload_inline'' (percent_encode (as_payload_inline st)) @
      field_line ''payload_ref'' (percent_encode (as_payload_ref st)) @
      concat (map (\<lambda>d. field_line ''dependency_hash'' (hash_to_hex d)) (as_dependency_hashes st)) @
      field_line ''timestamp_ns'' (print_uint (as_timestamp_ns st)) @
      field_line ''boundary'' (if as_boundary st then ''1'' else ''0''))"

definition deserialize_agent_state_record :: "bytes \<Rightarrow> string + agent_state_record" where
  "deserialize_agent_state_record body =
     (if body = [] then Inl ''empty agent state body''
      else if length body < length agent_header then Inl ''agent state body shorter than header''
      else if string_of (take (length agent_header) body) \<noteq> agent_header then
        Inl ''missing or incorrect agent state header''
      else parse_lines assign_field (string_of (drop (length agent_header) body)) default_record)"

definition store_error :: "string \<Rightarrow> store \<Rightarrow> string" where
  "store_error dflt s = (if last_error s = [] then dflt else last_error s)"

text \<open>The new record and the state's hash, or the error.\<close>

definition write_agent_state_record ::
  "(bytes \<Rightarrow> hash) \<Rightarrow> agent_state_record \<Rightarrow> hash list \<Rightarrow> bool \<Rightarrow> (string + hash \<times> agent_state_record) io" where
  "write_agent_state_record H st dependency_hashes sync s =
     (if ZERO_HASH \<in> set dependency_hashes then (Inl ''agent state dependency hash is ZERO_HASH'', s)
      else (let persisted = st\<lparr>as_dependency_hashes := dependency_hashes\<rparr>;
                body = serialize_agent_state_record persisted in
        case deserialize_agent_state_record body of
          Inl e \<Rightarrow> (Inl (''invalid agent state record: '' @ e), s)
        | Inr _ \<Rightarrow>
        (case write_blob H body s of (h, s) \<Rightarrow>
         if h = ZERO_HASH then (Inl (store_error ''object store write_blob failed'' s), s)
         else (let done = Inr (h, st\<lparr>as_dependency_hashes := dependency_hashes, as_state_id := hash_to_hex h\<rparr>) in
           if sync then
             (case fsync_pending (dependency_hashes @ [h]) s of
                (Some e, s) \<Rightarrow> (Inl e, s) | (None, s) \<Rightarrow> (done, s))
           else (done, s)))))"

definition read_agent_state_record :: "hash \<Rightarrow> (string + agent_state_record) io" where
  "read_agent_state_record ident s =
     (case read_blob ident s of
        (None, s) \<Rightarrow> (Inl (store_error ''object store read_blob failed'' s), s)
      | (Some body, s) \<Rightarrow>
          (map_sum id (\<lambda>st. st\<lparr>as_state_id := hash_to_hex ident\<rparr>) (deserialize_agent_state_record body), s))"

section \<open>The document format\<close>

lemma parse_kind_label [simp]: "parse_agent_state_kind (agent_state_kind_label k) = Some k"
  by (cases k) (simp_all add: parse_agent_state_kind_def)

lemma kind_label_clean [simp]: "LF \<notin> set (agent_state_kind_label k)"
  by (cases k) simp_all

lemma parse_dependencies:
  "ZERO_HASH \<notin> set ds \<Longrightarrow>
   parse_lines assign_field (concat (map (\<lambda>d. field_line ''dependency_hash'' (hash_to_hex d)) ds) @ rest) st =
   parse_lines assign_field rest (st\<lparr>as_dependency_hashes := as_dependency_hashes st @ ds\<rparr>)"
proof (induction ds arbitrary: st)
  case (Cons d ds)
  then show ?case
    by (simp add: parse_lines_field assign_field_def append_dependency_hash_def)
qed simp

definition ids_ok :: "agent_state_record \<Rightarrow> bool" where
  "ids_ok st \<longleftrightarrow> is_valid_state_id (as_parent_state_id st) \<and> is_valid_state_id (as_snapshot_base_state_id st) \<and>
     is_valid_state_id (as_union_state_id st) \<and> is_valid_state_id (as_payload_ref st)"

lemma deserialize_fields:
  "deserialize_agent_state_record (bytes_of (agent_header @ text)) = parse_lines assign_field text default_record"
proof -
  have "string_of (take (length agent_header) (bytes_of (agent_header @ text))) = agent_header"
    "string_of (drop (length agent_header) (bytes_of (agent_header @ text))) = text" by simp_all
  moreover have "bytes_of (agent_header @ text) \<noteq> []" by (simp add: agent_header_def bytes_of_def)
  ultimately show ?thesis by (simp add: deserialize_agent_state_record_def del: bytes_of_append)
qed

lemma assign_field_simps:
  "assign_field ''record_version'' v st = map_sum id (\<lambda>v. st\<lparr>as_record_version := v\<rparr>) (parse_u32 v)"
  "assign_field ''parent_state_id'' v st =
     assign_state_id_field (\<lambda>d. as_parent_state_id_update (\<lambda>_. d)) v ''parent_state_id'' st"
  "assign_field ''snapshot_base_state_id'' v st =
     assign_state_id_field (\<lambda>d. as_snapshot_base_state_id_update (\<lambda>_. d)) v ''snapshot_base_state_id'' st"
  "assign_field ''branch'' v st = decode_field (\<lambda>d. as_branch_update (\<lambda>_. d)) v st"
  "assign_field ''fs_commit'' (hash_to_hex h) st = Inr (st\<lparr>as_fs_commit := h\<rparr>)"
  "assign_field ''union_state_id'' v st =
     assign_state_id_field (\<lambda>d. as_union_state_id_update (\<lambda>_. d)) v ''union_state_id'' st"
  "assign_field ''runtime_id'' v st = decode_field (\<lambda>d. as_runtime_id_update (\<lambda>_. d)) v st"
  "assign_field ''agent_id'' v st = decode_field (\<lambda>d. as_agent_id_update (\<lambda>_. d)) v st"
  "assign_field ''sequence'' v st = map_sum id (\<lambda>v. st\<lparr>as_sequence := v\<rparr>) (parse_u64 v)"
  "assign_field ''kind'' (agent_state_kind_label k) st = Inr (st\<lparr>as_kind := k\<rparr>)"
  "assign_field ''payload_schema'' v st = decode_field (\<lambda>d. as_payload_schema_update (\<lambda>_. d)) v st"
  "assign_field ''payload_inline'' v st = decode_field (\<lambda>d. as_payload_inline_update (\<lambda>_. d)) v st"
  "assign_field ''payload_ref'' v st =
     assign_state_id_field (\<lambda>d. as_payload_ref_update (\<lambda>_. d)) v ''payload_ref'' st"
  "assign_field ''timestamp_ns'' v st = map_sum id (\<lambda>v. st\<lparr>as_timestamp_ns := v\<rparr>) (parse_u64 v)"
  "assign_field ''boundary'' ''1'' st = Inr (st\<lparr>as_boundary := True\<rparr>)"
  "assign_field ''boundary'' ''0'' st = Inr (st\<lparr>as_boundary := False\<rparr>)"
  by (simp_all add: assign_field_def)

lemma assign_encoded [simp]:
  "decode_field upd (percent_encode x) st = Inr (upd x st)"
  "assign_state_id_field upd (percent_encode x) n st =
     (if is_valid_state_id x then Inr (upd x st) else Inl (''invalid '' @ n @ '' hash''))"
  by (simp_all add: decode_field_def assign_state_id_field_def)

lemma agent_record_codec:
  assumes "ZERO_HASH \<notin> set (as_dependency_hashes st)"
  shows "deserialize_agent_state_record (serialize_agent_state_record st) =
    (if is_valid_state_id (as_parent_state_id st) then
       if is_valid_state_id (as_snapshot_base_state_id st) then
         if is_valid_state_id (as_union_state_id st) then
           if is_valid_state_id (as_payload_ref st) then Inr (st\<lparr>as_state_id := []\<rparr>)
           else Inl ''invalid payload_ref hash''
         else Inl ''invalid union_state_id hash''
       else Inl ''invalid snapshot_base_state_id hash''
     else Inl ''invalid parent_state_id hash'')"
proof -
  note tl = parse_lines_field [where rest = "[]", simplified]
  show ?thesis
    unfolding serialize_agent_state_record_def deserialize_fields
    by (cases "as_boundary st")
       (simp_all add: parse_lines_field assign_field_simps parse_dependencies [OF assms] tl default_record_def)
qed

lemma agent_record_codec_ok:
  assumes "ZERO_HASH \<notin> set (as_dependency_hashes st)"
    and "deserialize_agent_state_record (serialize_agent_state_record st) = Inr st'"
  shows "st' = st\<lparr>as_state_id := []\<rparr>"
  using agent_record_codec [OF assms(1)] assms(2) by (simp split: if_splits)


section \<open>Records in the store\<close>

lemma read_blob_ok:
  assumes "s_io t = []" "payload ''blob'' t h = Some (blob_body data)" "length data < 2 ^ 64"
  shows "read_blob h t = (Some data, t)"
proof -
  have "read_object h ''blob'' t = (Some (blob_body data), t)"
  proof -
    obtain r u where r: "read_object h ''blob'' t = (r, u)" by fastforce
    obtain io where "u = t\<lparr>s_io := io\<rparr>" using read_object_same(5) [OF r] by blast
    with read_object_same(4) [OF r] assms r show ?thesis by simp
  qed
  with assms(3) show ?thesis by (simp add: read_blob_def)
qed

lemma write_agent_success:
  assumes "write_agent_state_record H st deps sync s = (Inr (h, st'), s')"
  obtains s1 where "ZERO_HASH \<notin> set deps"
    "deserialize_agent_state_record (serialize_agent_state_record (st\<lparr>as_dependency_hashes := deps\<rparr>)) =
       Inr (st\<lparr>as_dependency_hashes := deps, as_state_id := []\<rparr>)"
    "write_blob H (serialize_agent_state_record (st\<lparr>as_dependency_hashes := deps\<rparr>)) s = (h, s1)" "h \<noteq> ZERO_HASH"
    "st' = st\<lparr>as_dependency_hashes := deps, as_state_id := hash_to_hex h\<rparr>"
    "if sync then fsync_pending (deps @ [h]) s1 = (None, s') else s' = s1"
proof -
  let ?b = "serialize_agent_state_record (st\<lparr>as_dependency_hashes := deps\<rparr>)"
  have nz: "ZERO_HASH \<notin> set deps" using assms by (auto simp: write_agent_state_record_def split: if_splits)
  obtain x where x: "deserialize_agent_state_record ?b = Inr x"
    using assms nz by (auto simp: write_agent_state_record_def Let_def split: sum.splits)
  obtain h1 s1 where w: "write_blob H ?b s = (h1, s1)" by fastforce
  have nz1: "h1 \<noteq> ZERO_HASH" using assms nz x w by (auto simp: write_agent_state_record_def Let_def)
  have "x = st\<lparr>as_dependency_hashes := deps, as_state_id := []\<rparr>"
    using agent_record_codec_ok [OF _ x] nz by simp
  moreover have "h1 = h" "st' = st\<lparr>as_dependency_hashes := deps, as_state_id := hash_to_hex h\<rparr>"
    "if sync then fsync_pending (deps @ [h]) s1 = (None, s') else s' = s1"
    using assms nz x w nz1
    by (cases sync; auto simp: write_agent_state_record_def Let_def split: prod.splits option.splits)+
  ultimately show thesis using that nz x w nz1 by simp
qed

lemma agent_record_reads:
  assumes "write_agent_state_record H st deps sync s = (Inr (h, st'), s')"
    and "no_collision H ''blob'' (blob_body (serialize_agent_state_record (st\<lparr>as_dependency_hashes := deps\<rparr>))) s"
    and "length (serialize_agent_state_record (st\<lparr>as_dependency_hashes := deps\<rparr>)) < 2 ^ 64"
    and "store_le s' t" "s_io t = []"
  shows "read_agent_state_record h t = (Inr st', t) \<and> as_dependency_hashes st' = deps \<and> ZERO_HASH \<notin> set deps \<and>
    as_state_id st' = hash_to_hex h \<and> (sync \<longrightarrow> (\<forall>d \<in> set (deps @ [h]). durable s' d))"
proof -
  let ?b = "serialize_agent_state_record (st\<lparr>as_dependency_hashes := deps\<rparr>)"
  obtain s1 where w: "ZERO_HASH \<notin> set deps"
    "deserialize_agent_state_record ?b = Inr (st\<lparr>as_dependency_hashes := deps, as_state_id := []\<rparr>)"
    "write_blob H ?b s = (h, s1)" "h \<noteq> ZERO_HASH" "st' = st\<lparr>as_dependency_hashes := deps, as_state_id := hash_to_hex h\<rparr>"
    "if sync then fsync_pending (deps @ [h]) s1 = (None, s') else s' = s1"
    using assms(1) by (rule write_agent_success)
  have p1: "payload ''blob'' s1 h = Some (blob_body ?b)"
    using write_object_payload [OF w(3) [unfolded write_blob_def] w(4) assms(2)] by blast
  have s': "store_le s1 s' \<and> (sync \<longrightarrow> (\<forall>d \<in> set (deps @ [h]). durable s' d))"
    using w(6) fsync_pending_effect [of "deps @ [h]" s1 None s'] by (cases sync) simp_all
  then have "store_le s1 t" using assms(4) store_le_trans by blast
  then have "payload ''blob'' t h = Some (blob_body ?b)" using payload_mono p1 by blast
  from read_blob_ok [OF assms(5) this assms(3)] w s' show ?thesis
    by (simp add: read_agent_state_record_def)
qed

section \<open>Properties\<close>

text \<open>
  C34: a state record reads back as it was written: in every later store that lost nothing,
  reading the id gives the record with the dependencies and the id that the write returned.
  No dependency is the zero hash, and after a synced write the record and all of its
  dependencies survive a crash.
\<close>

theorem agent_record_roundtrip:
  assumes "write_agent_state_record H st deps sync s = (Inr (h, st'), s')"
    and "no_collision H ''blob'' (blob_body (serialize_agent_state_record (st\<lparr>as_dependency_hashes := deps\<rparr>))) s"
    and "length (serialize_agent_state_record (st\<lparr>as_dependency_hashes := deps\<rparr>)) < 2 ^ 64"
    and "store_le s' t" "s_io t = []"
  shows "read_agent_state_record h t = (Inr st', t) \<and> as_dependency_hashes st' = deps \<and> ZERO_HASH \<notin> set deps \<and>
    as_state_id st' = hash_to_hex h \<and> (sync \<longrightarrow> (\<forall>d \<in> set (deps @ [h]). durable s' d))"
  using assms by (rule agent_record_reads)

theorem agent_record_roundtrip_witness:
  "\<exists>s' st'. read_agent_state_record 1 s' = (Inr st', s') \<and> as_agent_id st' = ''a=1''"
proof -
  let ?s = "new_store ''/s'' 5" and ?st = "default_record\<lparr>as_agent_id := ''a=1''\<rparr>"
  let ?b = "serialize_agent_state_record (?st\<lparr>as_dependency_hashes := []\<rparr>)"
  obtain s1 where w: "write_blob (\<lambda>_. 1) ?b ?s = (1, s1)" "s_io s1 = []"
    using write_object_ok [of ?s "\<lambda>_. 1" "''blob''" "blob_body ?b"]
    by (cases "write_blob (\<lambda>_. 1) ?b ?s") (simp add: write_blob_def object_hash_def)
  have "deserialize_agent_state_record ?b = Inr (?st\<lparr>as_dependency_hashes := [], as_state_id := []\<rparr>)"
    using agent_record_codec [of "?st\<lparr>as_dependency_hashes := []\<rparr>"] by (simp add: default_record_def is_valid_state_id_def)
  then have run: "write_agent_state_record (\<lambda>_. 1) ?st [] False ?s =
      (Inr (1, ?st\<lparr>as_dependency_hashes := [], as_state_id := hash_to_hex 1\<rparr>), s1)"
    using w(1) by (simp add: write_agent_state_record_def)
  have "length ?b < 2 ^ 64" by (simp add: serialize_agent_state_record_def default_record_def field_line_def
    agent_header_def percent_encode_def percent_escape_def print_uint_def nat_digits.simps)
  then have r: "read_agent_state_record 1 s1 = (Inr (?st\<lparr>as_dependency_hashes := [], as_state_id := hash_to_hex 1\<rparr>), s1)"
    using agent_record_roundtrip [OF run _ _ store_le_refl w(2)] by (simp add: no_collision_def find_object_def)
  show ?thesis by (rule exI, rule exI, rule conjI, rule r) simp
qed

text \<open>
  The parser of integer fields accepts exactly the decimal numerals in range, leading
  zeros included, and returns their value: nothing wraps around.
\<close>

theorem parse_uint_exact:
  "(parse_u64 s = Inr w \<longleftrightarrow> s \<noteq> [] \<and> list_all is_digit s \<and> digits_val s = unat w) \<and>
   (parse_u32 s = Inr v \<longleftrightarrow> s \<noteq> [] \<and> list_all is_digit s \<and> digits_val s = unat v)"
proof -
  have b: "unat w < 2 ^ 64" "unat v < 2 ^ 32" using unat_lt2p [of w] unat_lt2p [of v] by simp_all
  have "of_nat n = w \<longleftrightarrow> n = unat w" if "n < 2 ^ 64" for n
    using that b unat_of_nat_eq [of n, where 'a = 64] by auto
  moreover have "of_nat n = v \<longleftrightarrow> n = unat v" if "n < 2 ^ 32" for n
    using that b unat_of_nat_eq [of n, where 'a = 32] by auto
  ultimately show ?thesis
    using b by (auto simp: parse_u64_def parse_u32_def parse_uint_def strtoull_max_def split: if_splits)
qed

end
