(* ===== verification/AgentStateService.thy ===== *)
theory AgentStateService
  imports AgentState Refs Checkpoint
begin

text \<open>
  \<open>src/cas/agent_state_service.h\<close> and \<open>agent_state_service.cpp\<close> (the POSIX build): appending state
  records, the latest refs under \<open>state/latest\<close>, and walking a session's chain. Every system
  call has its outcome from the script of the store; the random part of a temporary file's
  name, which \<open>mkstemp\<close> chooses, is the argument \<open>sfx\<close>.
\<close>

section \<open>The state directory\<close>

datatype latest_file = LfOther | LfRegular string

datatype latest_agent = LaOther | LaDir "(string, latest_file) omap"

record state_dir =
  sd_state :: bool                              \<comment> \<open>\<open>state\<close> exists\<close>
  sd_latest :: bool                             \<comment> \<open>\<open>state/latest\<close> exists\<close>
  sd_agents :: "(string, latest_agent) omap"    \<comment> \<open>the entries of \<open>state/latest\<close>\<close>
  sd_log :: "string list"                       \<comment> \<open>the lines of \<open>state/index.log\<close>\<close>

definition agent_files :: "state_dir \<Rightarrow> string \<Rightarrow> (string, latest_file) omap" where
  "agent_files d a = (case map_of (sd_agents d) a of Some (LaDir fs) \<Rightarrow> fs | _ \<Rightarrow> [])"

definition put_files :: "string \<Rightarrow> (string, latest_file) omap \<Rightarrow> state_dir \<Rightarrow> state_dir" where
  "put_files a fs d = d\<lparr>sd_agents := om_put a (LaDir fs) (sd_agents d)\<rparr>"

text \<open>\<open>mkdir_one\<close>; \<open>ex\<close> says what the path is: nothing, or something that is a directory or not.\<close>

definition mkdir_one :: "string \<Rightarrow> bool option \<Rightarrow> string option io" where
  "mkdir_one path ex s =
     (case next_io s of
        (None, s) \<Rightarrow>
          (if ex = Some False then (Some (''create_directory('' @ path @ '') failed: File exists''), s)
           else (None, s))
      | (Some f, s) \<Rightarrow>
          (case next_io s of
             (Some _, s) \<Rightarrow> (Some (''create_directory('' @ path @ '') failed: '' @ f_msg f), s)
           | (None, s) \<Rightarrow>
               (if ex = Some True then None else Some (''create_directory('' @ path @ '') failed: '' @ f_msg f), s)))"

definition fsync_dir_at :: "string \<Rightarrow> string option io" where
  "fsync_dir_at path s =
     (case next_io s of
        (Some f, s) \<Rightarrow> (Some (''open dir '' @ path @ '' failed: '' @ f_msg f), s)
      | (None, s) \<Rightarrow>
          (case read_io s of
             (Some f, s) \<Rightarrow> (Some (''fsync dir '' @ path @ '' failed: '' @ f_msg f), s)
           | (None, s) \<Rightarrow> (None, s)))"

text \<open>The first component says whether the child directory exists afterwards.\<close>

definition ensure_child_dir_durable :: "string \<Rightarrow> string \<Rightarrow> bool option \<Rightarrow> (bool \<times> string option) io" where
  "ensure_child_dir_durable parent child_name ex s =
     (case mkdir_one (parent @ ''/'' @ child_name) ex s of
        (Some e, s) \<Rightarrow> ((ex = Some True, Some e), s)
      | (None, s) \<Rightarrow> (case fsync_dir_at parent s of (r, s) \<Rightarrow> ((True, r), s)))"

definition latest_root :: "store \<Rightarrow> string" where
  "latest_root s = s_root s @ ''/state/latest''"

definition temp_name :: "string \<Rightarrow> string \<Rightarrow> string" where
  "temp_name branch sfx = ''.ref-'' @ branch @ ''-'' @ sfx"

text \<open>The temporary file, written and synced: its error, the files and the store after it.\<close>

definition write_latest_temp ::
  "string \<Rightarrow> string \<Rightarrow> (string, latest_file) omap \<Rightarrow> store \<Rightarrow> string option \<times> (string, latest_file) omap \<times> store" where
  "write_latest_temp tmp state_id_hex fs s =
     (case next_io s of
        (Some f, s) \<Rightarrow> (Some (''mkstemp failed: '' @ f_msg f), fs, s)
      | (None, s) \<Rightarrow>
      (let wr = (case read_io s of
                   (Some f, s) \<Rightarrow> (Some f, om_put tmp (LfRegular []) fs, s)
                 | (None, s) \<Rightarrow> (case read_io s of (r, s) \<Rightarrow> (r, om_put tmp (LfRegular state_id_hex) fs, s)))
       in case wr of
            (None, fs, s) \<Rightarrow> (None, fs, s)
          | (Some f, fs, s) \<Rightarrow>
              (case next_io s of (rm, s) \<Rightarrow>
               (Some (''write/fsync latest ref failed: '' @ f_msg f),
                if rm = None then om_del tmp fs else fs, s))))"

definition publish_latest_ref ::
  "string \<Rightarrow> string \<Rightarrow> string \<Rightarrow> string \<Rightarrow> state_dir \<Rightarrow> store \<Rightarrow> string option \<times> state_dir \<times> store" where
  "publish_latest_ref sfx agent_id branch state_id_hex d s =
     (case ensure_child_dir_durable (s_root s) ''state'' (if sd_state d then Some True else None) s of
        ((ex, Some e), s) \<Rightarrow> (Some e, d\<lparr>sd_state := ex\<rparr>, s)
      | ((_, None), s) \<Rightarrow>
      (let d = d\<lparr>sd_state := True\<rparr> in
       case ensure_child_dir_durable (s_root s @ ''/state'') ''latest'' (if sd_latest d then Some True else None) s of
        ((ex, Some e), s) \<Rightarrow> (Some e, d\<lparr>sd_latest := ex\<rparr>, s)
      | ((_, None), s) \<Rightarrow>
      (let d = d\<lparr>sd_latest := True\<rparr>;
           what = (case map_of (sd_agents d) agent_id of
                     None \<Rightarrow> None | Some LaOther \<Rightarrow> Some False | Some (LaDir _) \<Rightarrow> Some True) in
       case ensure_child_dir_durable (latest_root s) agent_id what s of
        ((ex, Some e), s) \<Rightarrow> (Some e, if ex then put_files agent_id (agent_files d agent_id) d else d, s)
      | ((_, None), s) \<Rightarrow>
      (let fs = agent_files d agent_id; tmp = temp_name branch sfx in
       case write_latest_temp tmp state_id_hex fs s of
        (Some e, fs, s) \<Rightarrow> (Some e, put_files agent_id fs d, s)
      | (None, fs, s) \<Rightarrow>
      (case next_io s of
         (Some f, s) \<Rightarrow>
           (case next_io s of (rm, s) \<Rightarrow>
            (Some (''rename latest ref failed: '' @ f_msg f),
             put_files agent_id (if rm = None then om_del tmp fs else fs) d, s))
       | (None, s) \<Rightarrow>
           (case fsync_dir_at (latest_root s @ ''/'' @ agent_id) s of (r, s) \<Rightarrow>
            (r, put_files agent_id (om_put branch (LfRegular state_id_hex) (om_del tmp fs)) d, s)))))))"

definition append_index_log ::
  "string \<Rightarrow> string \<Rightarrow> string \<Rightarrow> u64 \<Rightarrow> state_dir \<Rightarrow> store \<Rightarrow> state_dir \<times> store" where
  "append_index_log agent_id branch state_id_hex timestamp_ns d s =
     (case mkdir_one (s_root s @ ''/state'') (if sd_state d then Some True else None) s of (e, s) \<Rightarrow>
      (let d = (if e = None then d\<lparr>sd_state := True\<rparr> else d) in
       case next_io s of
         (Some _, s) \<Rightarrow> (d, s)
       | (None, s) \<Rightarrow>
           (if \<not> sd_state d then (d, s)
            else (d\<lparr>sd_log := sd_log d @ [state_id_hex @ '' '' @ agent_id @ '' '' @ branch @ '' '' @ print_uint timestamp_ns]\<rparr>, s))))"

definition is_trailing :: "char \<Rightarrow> bool" where
  "is_trailing c \<longleftrightarrow> c = LF \<or> c = CR \<or> c = CHR '' '' \<or> c = CHR 0x09"

definition trim_trailing :: "string \<Rightarrow> string" where
  "trim_trailing s = rev (dropWhile is_trailing (rev s))"

definition parse_optional_hash :: "string \<Rightarrow> string \<Rightarrow> string + hash" where
  "parse_optional_hash value field_name =
     (if value = [] then Inr ZERO_HASH
      else case hex_to_hash_strict value of
             None \<Rightarrow> Inl (''invalid '' @ field_name @ '' hash'') | Some h \<Rightarrow> Inr h)"

definition is_valid_state_ref_component :: "string \<Rightarrow> bool" where
  "is_valid_state_ref_component name \<longleftrightarrow>
     (if name = [] \<or> 64 < length name then False
      else list_all (\<lambda>c. is_alnum c \<or> c = CHR ''-'' \<or> c = CHR ''_'') name)"

section \<open>The service\<close>

record append_request =
  rq_record :: agent_state_record
  rq_dependency_hashes :: "hash list"
  rq_sync :: bool

record append_result =
  ar_ok :: bool
  ar_error :: string
  ar_state_id :: string
  ar_durability :: string

definition append_error :: "string \<Rightarrow> append_result" where
  "append_error e = \<lparr>ar_ok = False, ar_error = e, ar_state_id = [], ar_durability = []\<rparr>"

text \<open>The four optional hashes of a record: parent, base, payload and union state.\<close>

definition record_hashes :: "agent_state_record \<Rightarrow> string + hash \<times> hash \<times> hash" where
  "record_hashes r =
     (case parse_optional_hash (as_parent_state_id r) ''parent_state_id'' of
        Inl e \<Rightarrow> Inl e
      | Inr parent \<Rightarrow>
      (case parse_optional_hash (as_snapshot_base_state_id r) ''snapshot_base_state_id'' of
        Inl e \<Rightarrow> Inl e
      | Inr base \<Rightarrow>
      (case parse_optional_hash (as_payload_ref r) ''payload_ref'' of
        Inl e \<Rightarrow> Inl e
      | Inr pay \<Rightarrow>
      (case parse_optional_hash (as_union_state_id r) ''union_state_id'' of
        Inl e \<Rightarrow> Inl e
      | Inr _ \<Rightarrow> Inr (parent, base, pay)))))"

text \<open>The checks of a synced append.\<close>

definition check_anchors :: "agent_state_record \<Rightarrow> hash \<Rightarrow> hash \<Rightarrow> hash \<Rightarrow> string option io" where
  "check_anchors r parent base pay s =
     (if as_parent_state_id r = [] then (Some ''sync=true requires a non-empty parent_state_id'', s)
      else if as_snapshot_base_state_id r = [] then
        (Some ''sync=true requires a non-empty snapshot_base_state_id'', s)
      else case read_agent_state_record parent s of
        (Inl e, s) \<Rightarrow> (Some (''parent_state_id does not reference a readable state: '' @ e), s)
      | (Inr _, s) \<Rightarrow>
      (case read_agent_state_record base s of
        (Inl e, s) \<Rightarrow> (Some (''snapshot_base_state_id does not reference a readable state: '' @ e), s)
      | (Inr _, s) \<Rightarrow>
      (if as_payload_ref r = [] then (None, s)
       else case read_blob pay s of
         (None, s) \<Rightarrow> (Some ''payload_ref does not reference a readable blob'', s)
       | (Some _, s) \<Rightarrow> (None, s))))"

definition push_unique :: "'a \<Rightarrow> 'a list \<Rightarrow> 'a list" where
  "push_unique x xs = (if x \<in> set xs then xs else xs @ [x])"

definition append_dependencies :: "append_request \<Rightarrow> hash \<Rightarrow> hash list" where
  "append_dependencies req pay =
     (let ds = fold push_unique (rq_dependency_hashes req) [] in
      if as_payload_ref (rq_record req) \<noteq> [] then push_unique pay ds else ds)"

definition append_state ::
  "(bytes \<Rightarrow> hash) \<Rightarrow> string \<Rightarrow> append_request \<Rightarrow> state_dir \<Rightarrow> store \<Rightarrow> append_result \<times> state_dir \<times> store" where
  "append_state H sfx req d s =
     (let r = rq_record req in
      if \<not> is_valid_state_ref_component (as_agent_id r) then (append_error ''invalid agent_id'', d, s)
      else if \<not> is_valid_state_ref_component (as_branch r) then (append_error ''invalid branch name'', d, s)
      else case record_hashes r of
        Inl e \<Rightarrow> (append_error e, d, s)
      | Inr (parent, base, pay) \<Rightarrow>
      (case (if rq_sync req then check_anchors r parent base pay s else (None, s)) of
         (Some e, s) \<Rightarrow> (append_error e, d, s)
       | (None, s) \<Rightarrow>
      (case write_agent_state_record H r (append_dependencies req pay) (rq_sync req) s of
         (Inl e, s) \<Rightarrow> (append_error (if e = [] then ''write_agent_state_record failed'' else e), d, s)
       | (Inr (h, _), s) \<Rightarrow>
      (let sid = hash_to_hex h; durability = (if rq_sync req then ''durable'' else ''logical_only'') in
       case (if rq_sync req then publish_latest_ref sfx (as_agent_id r) (as_branch r) sid d s else (None, d, s)) of
         (Some e, d, s) \<Rightarrow>
           (\<lparr>ar_ok = False, ar_error = ''state published but latest ref failed: '' @ e,
             ar_state_id = sid, ar_durability = durability\<rparr>, d, s)
       | (None, d, s) \<Rightarrow>
           (case append_index_log (as_agent_id r) (as_branch r) sid (as_timestamp_ns r) d s of (d, s) \<Rightarrow>
            (\<lparr>ar_ok = True, ar_error = [], ar_state_id = sid, ar_durability = durability\<rparr>, d, s))))))"

definition describe :: "string \<Rightarrow> (string + agent_state_record) io" where
  "describe state_id s =
     (case hex_to_hash_strict state_id of
        None \<Rightarrow> (Inl ''invalid state_id'', s)
      | Some h \<Rightarrow>
          (case read_agent_state_record h s of
             (Inl e, s) \<Rightarrow> (Inl (if e = [] then ''read_agent_state_record failed'' else e), s)
           | (Inr r, s) \<Rightarrow> (Inr r, s)))"

definition no_latest :: "string \<Rightarrow> string \<Rightarrow> string" where
  "no_latest agent_id branch =
     ''no latest ref for agent_id='' @ [CHR 0x27] @ agent_id @ [CHR 0x27] @ '' branch='' @
       [CHR 0x27] @ branch @ [CHR 0x27]"

definition read_latest_ref :: "string \<Rightarrow> string \<Rightarrow> state_dir \<Rightarrow> string option io" where
  "read_latest_ref agent_id branch d s =
     (case next_io s of
        (Some _, s) \<Rightarrow> (None, s)
      | (None, s) \<Rightarrow>
          (case map_of (agent_files d agent_id) branch of
             None \<Rightarrow> (None, s)
           | Some LfOther \<Rightarrow> (Some [], s)
           | Some (LfRegular body) \<Rightarrow>
               (case next_io s of (f, s) \<Rightarrow> (Some (if f = None then body else []), s))))"

definition latest :: "string \<Rightarrow> string \<Rightarrow> state_dir \<Rightarrow> (string + agent_state_record) io" where
  "latest agent_id branch d s =
     (if \<not> is_valid_state_ref_component agent_id then (Inl ''invalid agent_id'', s)
      else if \<not> is_valid_state_ref_component branch then (Inl ''invalid branch name'', s)
      else case read_latest_ref agent_id branch d s of
        (None, s) \<Rightarrow> (Inl (no_latest agent_id branch), s)
      | (Some body, s) \<Rightarrow>
          (case hex_to_hash_strict (trim_trailing body) of
             None \<Rightarrow> (Inl ''latest ref contents are not a valid state_id'', s)
           | Some h \<Rightarrow>
               (case read_agent_state_record h s of
                  (Inl e, s) \<Rightarrow> (Inl (if e = [] then ''read_agent_state_record failed'' else e), s)
                | (Inr r, s) \<Rightarrow> (Inr r, s))))"

text \<open>The loop: \<open>fuel\<close> is \<open>max_depth - visited\<close>, the anchor is set by the first record.\<close>

fun restore_walk ::
  "nat \<Rightarrow> string option \<Rightarrow> hash \<Rightarrow> agent_state_record list \<Rightarrow> (string option \<times> agent_state_record list) io" where
  "restore_walk 0 anchor cur chain s =
     ((Some ''session chain exceeds max_depth before reaching a snapshot base or root'', chain), s)"
| "restore_walk (Suc fuel) anchor cur chain s =
     (case read_agent_state_record cur s of
        (Inl e, s) \<Rightarrow> ((Some (if e = [] then ''parent_state_id not readable'' else e), chain), s)
      | (Inr rec, s) \<Rightarrow>
          (let a = (case anchor of None \<Rightarrow> as_snapshot_base_state_id rec | Some a \<Rightarrow> a);
               chain = chain @ [rec] in
           if (a \<noteq> [] \<and> as_state_id rec = a) \<or> as_parent_state_id rec = [] then ((None, chain), s)
           else case hex_to_hash_strict (as_parent_state_id rec) of
                  None \<Rightarrow> ((Some ''invalid parent_state_id hash in chain'', chain), s)
                | Some nxt \<Rightarrow> restore_walk fuel (Some a) nxt chain s))"

definition restore_session :: "string \<Rightarrow> nat \<Rightarrow> (string option \<times> agent_state_record list) io" where
  "restore_session state_id max_depth s =
     (case hex_to_hash_strict state_id of
        None \<Rightarrow> ((Some ''invalid state_id'', []), s)
      | Some start \<Rightarrow> restore_walk max_depth None start [] s)"


section \<open>Publishing a ref\<close>

lemma mkdir_one_quiet: "mkdir_one p ex s = (e, s') \<Longrightarrow> store_quiet s s' \<and> (s_io s = [] \<and> ex \<noteq> Some False \<longrightarrow> e = None)"
  by (auto simp: mkdir_one_def dest!: next_io_quiet split: prod.splits option.splits if_splits intro: store_quiet_trans)

lemma fsync_dir_at_quiet: "fsync_dir_at p s = (e, s') \<Longrightarrow> store_quiet s s' \<and> (s_io s = [] \<longrightarrow> e = None)"
  by (auto simp: fsync_dir_at_def dest!: next_io_quiet read_io_quiet split: prod.splits option.splits
      intro: store_quiet_trans simp: store_quiet_def)

lemma ensure_child_quiet:
  assumes "ensure_child_dir_durable p c ex s = ((b, e), s')"
  shows "store_quiet s s'" "e \<noteq> None \<and> ex = Some False \<longrightarrow> \<not> b" "e = None \<longrightarrow> ex \<noteq> Some False"
proof -
  obtain e1 s1 where m: "mkdir_one (p @ ''/'' @ c) ex s = (e1, s1)" by fastforce
  have ne: "ex = Some False \<Longrightarrow> e1 \<noteq> None"
    using m by (auto simp: mkdir_one_def split: prod.splits option.splits if_splits)
  obtain e2 s2 where f: "fsync_dir_at p s1 = (e2, s2)" by fastforce
  have q: "store_quiet s s1" "store_quiet s s2"
    using mkdir_one_quiet [OF m] fsync_dir_at_quiet [OF f] store_quiet_trans by blast+
  show "store_quiet s s'" "e \<noteq> None \<and> ex = Some False \<longrightarrow> \<not> b" "e = None \<longrightarrow> ex \<noteq> Some False"
    using assms m f q ne by (cases e1; auto simp: ensure_child_dir_durable_def)+
qed

lemma write_latest_temp_effect:
  assumes "write_latest_temp tmp hex fs s = (e, fs', s')"
  shows "store_quiet s s' \<and> (\<forall>k. k \<noteq> tmp \<longrightarrow> map_of fs' k = map_of fs k)"
proof -
  obtain f1 s1 where n1: "next_io s = (f1, s1)" by fastforce
  obtain f2 s2 where n2: "read_io s1 = (f2, s2)" by fastforce
  obtain f3 s3 where n3: "read_io s2 = (f3, s3)" by fastforce
  obtain f4 s4 where n4: "next_io s2 = (f4, s4)" by fastforce
  obtain f5 s5 where n5: "next_io s3 = (f5, s5)" by fastforce
  have q: "store_quiet s s1" "store_quiet s1 s2" "store_quiet s2 s3" "store_quiet s2 s4" "store_quiet s3 s5"
    using next_io_quiet [OF n1] read_io_quiet [OF n2] read_io_quiet [OF n3] next_io_quiet [OF n4] next_io_quiet [OF n5] by blast+
  then have q': "store_quiet s s1" "store_quiet s s3" "store_quiet s s4" "store_quiet s s5" using store_quiet_trans by blast+
  show ?thesis
    using assms n1 n2 n3 n4 n5 q'
    by (cases f1; cases f2; cases f3) (auto simp: write_latest_temp_def om_simps)
qed

lemma agent_files_put [simp]: "agent_files (put_files a fs d) a' = (if a' = a then fs else agent_files d a')"
  by (simp add: agent_files_def put_files_def om_simps)

lemma agent_files_upd [simp]: "agent_files (d\<lparr>sd_state := x\<rparr>) a = agent_files d a"
  "agent_files (d\<lparr>sd_latest := x\<rparr>) a = agent_files d a" "agent_files (d\<lparr>sd_log := l\<rparr>) a = agent_files d a"
  by (simp_all add: agent_files_def)

definition latest_at :: "state_dir \<Rightarrow> string \<Rightarrow> string \<Rightarrow> latest_file option" where
  "latest_at d a b = map_of (agent_files d a) b"

text \<open>Publishing changes this agent's ref for this branch, to the new id or not at all, and its
  own temporary file.\<close>

definition published :: "string \<Rightarrow> string \<Rightarrow> string \<Rightarrow> string \<Rightarrow> state_dir \<Rightarrow> state_dir \<Rightarrow> bool" where
  "published tmp a b hex d d' \<longleftrightarrow>
     (\<forall>a' k. a' \<noteq> a \<or> k \<noteq> tmp \<and> k \<noteq> b \<longrightarrow> latest_at d' a' k = latest_at d a' k) \<and>
     latest_at d' a b \<in> {latest_at d a b, Some (LfRegular hex)}"

lemma publish_latest_ref_effect:
  assumes "publish_latest_ref sfx a b hex d s = (e, d', s')" "b \<noteq> temp_name b sfx"
  shows "store_quiet s s'" "published (temp_name b sfx) a b hex d d'"
    "e = None \<Longrightarrow> latest_at d' a b = Some (LfRegular hex)"
proof -
  let ?tmp = "temp_name b sfx"
  obtain b1 e1 s1 where c1: "ensure_child_dir_durable (s_root s) ''state'' (if sd_state d then Some True else None) s = ((b1, e1), s1)"
    by (metis prod.collapse)
  obtain b2 e2 s2 where c2: "ensure_child_dir_durable (s_root s1 @ ''/state'') ''latest'' (if sd_latest d then Some True else None) s1 = ((b2, e2), s2)"
    by (metis prod.collapse)
  define what where "what = (case map_of (sd_agents d) a of None \<Rightarrow> None | Some LaOther \<Rightarrow> Some False | Some (LaDir _) \<Rightarrow> Some True)"
  obtain b3 e3 s3 where c3: "ensure_child_dir_durable (latest_root s2) a what s2 = ((b3, e3), s3)" by (metis prod.collapse)
  obtain e4 fs4 s4 where c4: "write_latest_temp ?tmp hex (agent_files d a) s3 = (e4, fs4, s4)" using prod_cases3 by blast
  obtain f5 s5 where c5: "next_io s4 = (f5, s5)" by fastforce
  obtain f6 s6 where c6: "next_io s5 = (f6, s6)" by fastforce
  obtain e7 s7 where c7: "fsync_dir_at (latest_root s5 @ CHR ''/'' # a) s5 = (e7, s7)" by fastforce
  have q1: "store_quiet s s1" "store_quiet s1 s2" "store_quiet s2 s3" "store_quiet s3 s4" "store_quiet s4 s5"
      "store_quiet s5 s6" "store_quiet s5 s7"
    using ensure_child_quiet(1) [OF c1] ensure_child_quiet(1) [OF c2] ensure_child_quiet(1) [OF c3]
      write_latest_temp_effect [OF c4] next_io_quiet [OF c5] next_io_quiet [OF c6] fsync_dir_at_quiet [OF c7] by blast+
  have q2: "store_quiet s s2" by (rule store_quiet_trans [OF q1(1,2)])
  have q3: "store_quiet s s3" by (rule store_quiet_trans [OF q2 q1(3)])
  have q4: "store_quiet s s4" by (rule store_quiet_trans [OF q3 q1(4)])
  have q5: "store_quiet s s5" by (rule store_quiet_trans [OF q4 q1(5)])
  have q: "store_quiet s s6" "store_quiet s s7" using store_quiet_trans q5 q1(6,7) by blast+
  note defs = publish_latest_ref_def Let_def c1 c2 what_def [symmetric] c3 c4 c5 c6 c7
  note t = write_latest_temp_effect [OF c4]
  show "store_quiet s s'"
    using assms(1) q q1(1) q2 q3 q4
    by (cases e1; cases e2; cases e3; cases e4; cases f5) (auto simp: defs)
  show "published ?tmp a b hex d d'"
    using assms t
    by (cases e1; cases e2; cases e3; cases e4; cases f5)
       (auto simp: defs published_def latest_at_def om_simps)
  show "latest_at d' a b = Some (LfRegular hex)" if "e = None"
    using assms(1) that
    by (cases e1; cases e2; cases e3; cases e4; cases f5) (auto simp: defs latest_at_def om_simps)
qed

lemma append_index_log_effect:
  assumes "append_index_log a b hex ts d s = (d', s')"
  shows "store_quiet s s' \<and> latest_at d' = latest_at d"
proof -
  obtain e s1 where m: "mkdir_one (s_root s @ ''/state'') (if sd_state d then Some True else None) s = (e, s1)" by fastforce
  obtain f s2 where n: "next_io s1 = (f, s2)" by fastforce
  have "store_quiet s s2" using mkdir_one_quiet [OF m] next_io_quiet [OF n] store_quiet_trans by blast
  then show ?thesis
    using assms m n by (cases f) (auto simp: append_index_log_def Let_def latest_at_def fun_eq_iff split: if_splits)
qed


lemma valid_not_temp: "is_valid_state_ref_component b \<Longrightarrow> b \<noteq> temp_name b' sfx"
  by (auto simp: is_valid_state_ref_component_def temp_name_def is_alnum_def split: if_splits)

section \<open>Appending\<close>

lemma read_agent_quiet:
  assumes "read_agent_state_record h s = (r, s')"
  shows "store_quiet s s'"
proof -
  obtain b t where b: "read_blob h s = (b, t)" by fastforce
  have "s' = t" using assms b by (auto simp: read_agent_state_record_def split: option.splits)
  moreover obtain io where "t = s\<lparr>s_io := io\<rparr>" using read_blob_same(5) [OF b] by blast
  ultimately show ?thesis using read_blob_same(4) [OF b] by (auto simp: store_quiet_def)
qed

lemma check_anchors_quiet:
  assumes "check_anchors r pa ba pl s = (e, s')"
  shows "store_quiet s s'"
proof -
  obtain x1 s1 where r1: "read_agent_state_record pa s = (x1, s1)" by fastforce
  obtain x2 s2 where r2: "read_agent_state_record ba s1 = (x2, s2)" by fastforce
  obtain x3 s3 where r3: "read_blob pl s2 = (x3, s3)" by fastforce
  obtain io where io: "s3 = s2\<lparr>s_io := io\<rparr>" using read_blob_same(5) [OF r3] by blast
  have q: "store_quiet s s1" "store_quiet s1 s2" "store_quiet s2 s3"
    using read_agent_quiet [OF r1] read_agent_quiet [OF r2] read_blob_same(4) [OF r3] io by (auto simp: store_quiet_def)
  then have "store_quiet s s2" "store_quiet s s3" using store_quiet_trans by blast+
  with assms r1 r2 r3 q show ?thesis
    by (cases x1; cases x2; cases x3) (auto simp: check_anchors_def split: if_splits)
qed

lemma append_success:
  assumes "append_state H sfx req d s = (res, d', s')" "ar_ok res"
  obtains pa ba pl s1 h st' s2 d3 s3 where
    "is_valid_state_ref_component (as_agent_id (rq_record req))" "is_valid_state_ref_component (as_branch (rq_record req))"
    "record_hashes (rq_record req) = Inr (pa, ba, pl)" "store_quiet s s1"
    "rq_sync req \<longrightarrow> check_anchors (rq_record req) pa ba pl s = (None, s1)"
    "write_agent_state_record H (rq_record req) (append_dependencies req pl) (rq_sync req) s1 = (Inr (h, st'), s2)"
    "ar_state_id res = hash_to_hex h"
    "if rq_sync req then publish_latest_ref sfx (as_agent_id (rq_record req)) (as_branch (rq_record req)) (hash_to_hex h) d s2 = (None, d3, s3)
     else d3 = d \<and> s3 = s2"
    "store_quiet s3 s'" "latest_at d' = latest_at d3"
proof -
  let ?r = "rq_record req"
  have v: "is_valid_state_ref_component (as_agent_id ?r)" "is_valid_state_ref_component (as_branch ?r)"
    using assms by (auto simp: append_state_def Let_def append_error_def split: if_splits)
  obtain pa ba pl where rh: "record_hashes ?r = Inr (pa, ba, pl)"
    using assms v by (auto simp: append_state_def Let_def append_error_def split: sum.splits)
  obtain e1 s1 where c: "(if rq_sync req then check_anchors ?r pa ba pl s else (None, s)) = (e1, s1)" by fastforce
  have e1: "e1 = None" using assms v rh c by (cases e1) (auto simp: append_state_def Let_def append_error_def)
  have q1: "store_quiet s s1" using c check_anchors_quiet by (auto split: if_splits)
  obtain x s2 where w: "write_agent_state_record H ?r (append_dependencies req pl) (rq_sync req) s1 = (x, s2)" by fastforce
  obtain h st' where x: "x = Inr (h, st')"
    using assms v rh c e1 w by (cases x) (auto simp: append_state_def Let_def append_error_def)
  obtain e3 d3 s3 where p: "(if rq_sync req then publish_latest_ref sfx (as_agent_id ?r) (as_branch ?r) (hash_to_hex h) d s2
      else (None, d, s2)) = (e3, d3, s3)" using prod_cases3 by blast
  have e3: "e3 = None" using assms v rh c e1 w x p by (cases e3) (auto simp: append_state_def Let_def)
  obtain d4 s4 where l: "append_index_log (as_agent_id ?r) (as_branch ?r) (hash_to_hex h) (as_timestamp_ns ?r) d3 s3 = (d4, s4)"
    by fastforce
  have fin: "d' = d4" "s' = s4" "ar_state_id res = hash_to_hex h"
    using assms(1) v rh c e1 w x p e3 l by (auto simp: append_state_def Let_def)
  show thesis
  proof (rule that [OF v rh q1 _ _ fin(3)])
    show "rq_sync req \<longrightarrow> check_anchors ?r pa ba pl s = (None, s1)" using c e1 by (auto split: if_splits)
    show "write_agent_state_record H ?r (append_dependencies req pl) (rq_sync req) s1 = (Inr (h, st'), s2)" using w x by simp
    show "if rq_sync req then publish_latest_ref sfx (as_agent_id ?r) (as_branch ?r) (hash_to_hex h) d s2 = (None, d3, s3)
        else d3 = d \<and> s3 = s2" using p e3 by (cases "rq_sync req") simp_all
    show "store_quiet s3 s'" "latest_at d' = latest_at d3" using append_index_log_effect [OF l] fin by simp_all
  qed
qed

lemma trim_hex [simp]: "trim_trailing (hash_to_hex h) = hash_to_hex h"
proof -
  have "is_hex_hash (hash_to_hex h)" by simp
  then have l: "length (hash_to_hex h) = 64" "\<forall>c \<in> set (hash_to_hex h). hexval c \<noteq> None"
    by (auto simp: is_hex_hash_def list_all_iff)
  obtain x xs where x: "rev (hash_to_hex h) = x # xs" using l(1) by (cases "rev (hash_to_hex h)") auto
  have "x \<in> set (hash_to_hex h)" using x by (metis list.set_intros(1) set_rev)
  with l(2) have "hexval x \<noteq> None" by blast
  then have "\<not> is_trailing x" by (auto simp: is_trailing_def hexval_def)
  then show ?thesis using x by (simp add: trim_trailing_def)
qed

section \<open>Session chains\<close>

definition parent_link :: "agent_state_record \<Rightarrow> agent_state_record \<Rightarrow> bool" where
  "parent_link a b \<longleftrightarrow> (\<exists>h. hex_to_hash_strict (as_parent_state_id a) = Some h \<and> as_state_id b = hash_to_hex h)"

definition chain_end :: "string \<Rightarrow> agent_state_record \<Rightarrow> bool" where
  "chain_end anchor r \<longleftrightarrow> anchor \<noteq> [] \<and> as_state_id r = anchor \<or> as_parent_state_id r = []"

lemma read_agent_id:
  assumes "read_agent_state_record h s = (Inr r, s')"
  shows "as_state_id r = hash_to_hex h"
proof -
  obtain b t where b: "read_blob h s = (b, t)" by fastforce
  then obtain body where body: "b = Some body" using assms by (cases b) (auto simp: read_agent_state_record_def)
  show ?thesis
    using assms b body
    by (cases "deserialize_agent_state_record body") (auto simp: read_agent_state_record_def)
qed

lemma restore_walk_spec:
  assumes "restore_walk n anchor cur chain s = ((e, out), s')"
    and "successively parent_link chain" "\<forall>r \<in> set chain. \<not> chain_end (as_snapshot_base_state_id (hd chain)) r"
    and "chain \<noteq> [] \<longrightarrow> hex_to_hash_strict (as_parent_state_id (last chain)) = Some cur \<and>
           anchor = Some (as_snapshot_base_state_id (hd chain))"
    and "chain = [] \<longrightarrow> anchor = None"
  shows "successively parent_link out \<and> length out \<le> length chain + n \<and> (\<exists>xs. out = chain @ xs) \<and>
    (chain = [] \<and> out \<noteq> [] \<longrightarrow> as_state_id (hd out) = hash_to_hex cur) \<and> store_quiet s s' \<and>
    (e = None \<longrightarrow> out \<noteq> [] \<and> chain_end (as_snapshot_base_state_id (hd out)) (last out) \<and>
       (\<forall>r \<in> set (butlast out). \<not> chain_end (as_snapshot_base_state_id (hd out)) r))"
  using assms
proof (induction n arbitrary: anchor cur chain s)
  case (Suc n)
  obtain x s1 where r: "read_agent_state_record cur s = (x, s1)" by fastforce
  have q: "store_quiet s s1" by (rule read_agent_quiet [OF r])
  show ?case
  proof (cases x)
    case (Inl e1)
    with Suc.prems r q show ?thesis by (auto split: if_splits)
  next
    case (Inr rec)
    have sid: "as_state_id rec = hash_to_hex cur" using read_agent_id r Inr by blast
    define c where "c = chain @ [rec]"
    define a where "a = as_snapshot_base_state_id (hd c)"
    have a: "(case anchor of None \<Rightarrow> as_snapshot_base_state_id rec | Some a \<Rightarrow> a) = a"
      using Suc.prems(4,5) by (cases chain) (auto simp: a_def c_def)
    have succ: "successively parent_link c"
      using Suc.prems(2,4) sid by (cases "chain = []") (auto simp: c_def successively_append_iff parent_link_def)
    have hd: "chain \<noteq> [] \<Longrightarrow> hd c = hd chain" "chain = [] \<Longrightarrow> hd c = rec" by (simp_all add: c_def)
    have old: "\<forall>r \<in> set chain. \<not> chain_end a r" using Suc.prems(3) hd(1) by (cases "chain = []") (auto simp: a_def)
    show ?thesis
    proof (cases "chain_end a rec")
      case True
      then have "e = None" "out = c" "s' = s1"
        using Suc.prems(1) r Inr a by (auto simp: Let_def chain_end_def c_def)
      moreover have "butlast c = chain" "last c = rec" "c \<noteq> []" by (simp_all add: c_def)
      ultimately show ?thesis using succ True old sid q hd(2) a_def by (auto simp: c_def)
    next
      case False
      show ?thesis
      proof (cases "hex_to_hash_strict (as_parent_state_id rec)")
        case None
        then have "e \<noteq> None" "out = c" "s' = s1"
          using Suc.prems(1) r Inr a False by (auto simp: Let_def chain_end_def c_def)
        with succ sid q hd(2) show ?thesis by (auto simp: c_def)
      next
        case (Some nxt)
        have w: "restore_walk n (Some a) nxt c s1 = ((e, out), s')"
          using Suc.prems(1) r Inr a False Some by (auto simp: Let_def chain_end_def c_def)
        have ends: "\<forall>r \<in> set c. \<not> chain_end (as_snapshot_base_state_id (hd c)) r"
          using old False by (auto simp: c_def a_def)
        have lst: "last c = rec" "c \<noteq> []" by (simp_all add: c_def)
        from Suc.IH [OF w succ ends] lst Some
        have ih: "successively parent_link out \<and> length out \<le> length c + n \<and> (\<exists>xs. out = c @ xs) \<and> store_quiet s1 s' \<and>
            (e = None \<longrightarrow> out \<noteq> [] \<and> chain_end (as_snapshot_base_state_id (hd out)) (last out) \<and>
              (\<forall>r \<in> set (butlast out). \<not> chain_end (as_snapshot_base_state_id (hd out)) r))" by (simp add: a_def)
        moreover from ih obtain xs where xs: "out = chain @ [rec] @ xs" by (auto simp: c_def)
        moreover have "chain = [] \<longrightarrow> as_state_id (hd out) = hash_to_hex cur" using xs sid by simp
        moreover have "length out \<le> length chain + Suc n" using ih by (simp add: c_def)
        ultimately show ?thesis using q store_quiet_trans by blast
      qed
    qed
  qed
qed auto


section \<open>Durability\<close>

lemma fsync_pending_other:
  assumes "fsync_pending hs s = (e, s')" "h \<notin> set hs"
  shows "map_option o_synced (find_object s' h) = map_option o_synced (find_object s h)"
proof -
  obtain b1 t1 where f1: "fsync_objects hs s = (b1, t1)" by fastforce
  obtain b2 t2 where f2: "fsync_shard_dirs hs t1 = (b2, t2)" by fastforce
  have "find_object t1 h = find_object s h" by (rule fsync_objects_other [OF f1 assms(2)])
  with fsync_shard_dirs_synced [OF f2, of h] show ?thesis
    using assms(1) f1 f2 by (cases b1; cases b2) (auto simp: fsync_pending_def)
qed

lemma append_synced:
  assumes "append_state H sfx req d s = (res, d', s')" "ar_ok res" "rq_sync req"
  obtains pa ba pl s1 t h s2 d3 s3 where
    "is_valid_state_ref_component (as_agent_id (rq_record req))" "is_valid_state_ref_component (as_branch (rq_record req))"
    "record_hashes (rq_record req) = Inr (pa, ba, pl)" "store_quiet s s1"
    "write_agent_state_record H (rq_record req) (append_dependencies req pl) True s1 = (Inr (h,
       (rq_record req)\<lparr>as_dependency_hashes := append_dependencies req pl, as_state_id := hash_to_hex h\<rparr>), s2)"
    "write_blob H (serialize_agent_state_record ((rq_record req)\<lparr>as_dependency_hashes := append_dependencies req pl\<rparr>)) s1 = (h, t)"
    "fsync_pending (append_dependencies req pl @ [h]) t = (None, s2)"
    "ar_state_id res = hash_to_hex h"
    "publish_latest_ref sfx (as_agent_id (rq_record req)) (as_branch (rq_record req)) (hash_to_hex h) d s2 = (None, d3, s3)"
    "store_quiet s2 s'" "latest_at d' = latest_at d3"
  using assms(1,2)
proof (rule append_success)
  fix pa ba pl s1 h st' s2 d3 s3
  let ?r = "rq_record req"
  assume v: "is_valid_state_ref_component (as_agent_id ?r)" "is_valid_state_ref_component (as_branch ?r)"
    and rh: "record_hashes ?r = Inr (pa, ba, pl)" and q: "store_quiet s s1"
    and w: "write_agent_state_record H ?r (append_dependencies req pl) (rq_sync req) s1 = (Inr (h, st'), s2)"
    and i: "ar_state_id res = hash_to_hex h"
    and p: "if rq_sync req then publish_latest_ref sfx (as_agent_id ?r) (as_branch ?r) (hash_to_hex h) d s2 = (None, d3, s3)
       else d3 = d \<and> s3 = s2"
    and q3: "store_quiet s3 s'" and l: "latest_at d' = latest_at d3"
  from p assms(3) have p': "publish_latest_ref sfx (as_agent_id ?r) (as_branch ?r) (hash_to_hex h) d s2 = (None, d3, s3)" by simp
  have q2: "store_quiet s2 s'"
    using publish_latest_ref_effect(1) [OF p' valid_not_temp [OF v(2)]] q3 store_quiet_trans by blast
  from w show thesis
  proof (rule write_agent_success)
    fix t
    assume t: "write_blob H (serialize_agent_state_record (?r\<lparr>as_dependency_hashes := append_dependencies req pl\<rparr>)) s1 = (h, t)"
      and st: "st' = ?r\<lparr>as_dependency_hashes := append_dependencies req pl, as_state_id := hash_to_hex h\<rparr>"
      and f: "if rq_sync req then fsync_pending (append_dependencies req pl @ [h]) t = (None, s2) else s2 = t"
    have w': "write_agent_state_record H ?r (append_dependencies req pl) True s1 = (Inr (h,
       ?r\<lparr>as_dependency_hashes := append_dependencies req pl, as_state_id := hash_to_hex h\<rparr>), s2)"
      using w st assms(3) by simp
    have f': "fsync_pending (append_dependencies req pl @ [h]) t = (None, s2)" using f assms(3) by simp
    show thesis by (rule that [OF v rh q w' t f' i p' q2 l])
  qed
qed

lemma append_unsynced:
  assumes run: "append_state H sfx req d s = (res, d', s')" "ar_ok res" "rq_sync req"
    and rh: "record_hashes (rq_record req) = Inr (pa, ba, pl)"
    and p: "find_object s p = Some ob" "\<not> o_synced ob" "p \<notin> set (append_dependencies req pl)" "ar_state_id res \<noteq> hash_to_hex p"
  shows "\<exists>ob'. find_object s' p = Some ob' \<and> \<not> o_synced ob'"
  using run
proof (rule append_synced)
  fix pa' ba' pl' s1 t h s2
  assume rh': "record_hashes (rq_record req) = Inr (pa', ba', pl')" and q: "store_quiet s s1"
    and w: "write_blob H (serialize_agent_state_record ((rq_record req)\<lparr>as_dependency_hashes := append_dependencies req pl'\<rparr>)) s1 = (h, t)"
    and f: "fsync_pending (append_dependencies req pl' @ [h]) t = (None, s2)"
    and i: "ar_state_id res = hash_to_hex h" and q2: "store_quiet s2 s'"
  have pl: "pl' = pl" using rh rh' by simp
  have "find_object s1 p = Some ob" using p(1) store_quiet_find [OF q] by simp
  then obtain m where m: "find_object t p = Some (ob\<lparr>o_mtime := m\<rparr>)"
    using wrote_some [OF write_object_wrote [OF w [unfolded write_blob_def]]] by blast
  have "p \<notin> set (append_dependencies req pl' @ [h])" using p(3,4) i pl by auto
  from fsync_pending_other [OF f this] m have "map_option o_synced (find_object s2 p) = Some False" using p(2) by simp
  then show ?thesis using store_quiet_find [OF q2] by auto
qed

lemma append_publishes:
  assumes run: "append_state H sfx req d s = (res, d', s')" "ar_ok res" "rq_sync req"
  shows "latest_at d' (as_agent_id (rq_record req)) (as_branch (rq_record req)) = Some (LfRegular (ar_state_id res)) \<and>
    (\<forall>a b. (a, b) \<noteq> (as_agent_id (rq_record req), as_branch (rq_record req)) \<and> is_valid_state_ref_component b \<longrightarrow>
       latest_at d' a b = latest_at d a b)"
  using run
proof (rule append_synced)
  let ?a = "as_agent_id (rq_record req)" and ?b = "as_branch (rq_record req)"
  fix h s2 d3 s3
  assume v: "is_valid_state_ref_component ?b" and i: "ar_state_id res = hash_to_hex h"
    and p: "publish_latest_ref sfx ?a ?b (hash_to_hex h) d s2 = (None, d3, s3)" and l: "latest_at d' = latest_at d3"
  note e = publish_latest_ref_effect(2,3) [OF p valid_not_temp [OF v]]
  have "latest_at d' ?a ?b = Some (LfRegular (ar_state_id res))" using e(2) i l by simp
  moreover have "latest_at d' a b = latest_at d a b" if "(a, b) \<noteq> (?a, ?b)" "is_valid_state_ref_component b" for a b
    using e(1) l that valid_not_temp [of b ?b sfx] by (auto simp: published_def)
  ultimately show ?thesis by blast
qed

section \<open>Properties\<close>

text \<open>
  C32: the latest ref follows the durable appends. After a successful synced append, \<open>latest\<close> for
  that agent and branch returns the appended record with its id and dependencies, in every
  later store that lost nothing, and the refs of all other agents and branches are as before.
\<close>

theorem append_then_latest:
  assumes "append_state H sfx req d s = (res, d', s')" "ar_ok res" "rq_sync req"
    and "record_hashes (rq_record req) = Inr (pa, ba, pl)"
    and "no_collision H ''blob'' (blob_body (serialize_agent_state_record
           ((rq_record req)\<lparr>as_dependency_hashes := append_dependencies req pl\<rparr>))) s"
    and "length (serialize_agent_state_record ((rq_record req)\<lparr>as_dependency_hashes := append_dependencies req pl\<rparr>)) < 2 ^ 64"
    and "store_le s' t" "s_io t = []"
  shows "latest (as_agent_id (rq_record req)) (as_branch (rq_record req)) d' t =
      (Inr ((rq_record req)\<lparr>as_dependency_hashes := append_dependencies req pl, as_state_id := ar_state_id res\<rparr>), t) \<and>
    (\<forall>a b. (a, b) \<noteq> (as_agent_id (rq_record req), as_branch (rq_record req)) \<and> is_valid_state_ref_component b \<longrightarrow>
       latest_at d' a b = latest_at d a b)"
  using assms(1-3)
proof (rule append_synced)
  let ?r = "rq_record req" and ?ds = "append_dependencies req pl"
  fix pa' ba' pl' s1 h s2
  assume v: "is_valid_state_ref_component (as_agent_id ?r)" "is_valid_state_ref_component (as_branch ?r)"
    and rh: "record_hashes ?r = Inr (pa', ba', pl')" and q: "store_quiet s s1"
    and w: "write_agent_state_record H ?r (append_dependencies req pl') True s1 = (Inr (h,
       ?r\<lparr>as_dependency_hashes := append_dependencies req pl', as_state_id := hash_to_hex h\<rparr>), s2)"
    and i: "ar_state_id res = hash_to_hex h" and q2: "store_quiet s2 s'"
  have pl: "pl' = pl" using rh assms(4) by simp
  have le: "store_le s2 t" using store_quiet_le [OF q2] assms(7) store_le_trans by blast
  have nc: "no_collision H ''blob'' (blob_body (serialize_agent_state_record (?r\<lparr>as_dependency_hashes := ?ds\<rparr>))) s1"
    using assms(5) store_quiet_no_collision [OF q] by simp
  have rd: "read_agent_state_record h t = (Inr (?r\<lparr>as_dependency_hashes := ?ds, as_state_id := hash_to_hex h\<rparr>), t)"
    using agent_record_reads [OF w [unfolded pl] nc assms(6) le assms(8)] by simp
  note pub = append_publishes [OF assms(1-3)]
  have "map_of (agent_files d' (as_agent_id ?r)) (as_branch ?r) = Some (LfRegular (hash_to_hex h))"
    using pub i by (simp add: latest_at_def)
  then have "read_latest_ref (as_agent_id ?r) (as_branch ?r) d' t = (Some (hash_to_hex h), t)"
    using assms(8) by (simp add: read_latest_ref_def next_io_def)
  with pub v i rd show ?thesis by (simp add: latest_def)
qed

text \<open>
  Restoring a session always ends and returns a well-formed chain: at most \<open>max_depth\<close>
  records, from the requested state, each record the parent of the one before; on success the
  last one is the session's snapshot base or root, and none before it is.
\<close>

theorem restore_session_chain:
  assumes "restore_session state_id max_depth s = ((e, chain), s')"
  shows "length chain \<le> max_depth \<and> successively parent_link chain \<and> s_objects s' = s_objects s \<and>
    (chain \<noteq> [] \<longrightarrow> hex_to_hash_strict state_id = hex_to_hash_strict (as_state_id (hd chain))) \<and>
    (e = None \<longrightarrow> chain \<noteq> [] \<and> chain_end (as_snapshot_base_state_id (hd chain)) (last chain) \<and>
       (\<forall>r \<in> set (butlast chain). \<not> chain_end (as_snapshot_base_state_id (hd chain)) r))"
proof (cases "hex_to_hash_strict state_id")
  case None
  with assms show ?thesis by (auto simp: restore_session_def)
next
  case (Some h)
  with assms have w: "restore_walk max_depth None h [] s = ((e, chain), s')" by (simp add: restore_session_def)
  from restore_walk_spec [OF w] Some show ?thesis by (auto simp: store_quiet_def)
qed

text \<open>
  A durable append does not make its history durable. The parent record that a synced append
  requires and reads is not synced with it: if it was only logical before and is not listed as a
  dependency, a crash after the successful append keeps the latest ref and the new record and
  loses the parent.
\<close>

theorem append_loses_parent:
  assumes "append_state H sfx req d s = (res, d', s')" "ar_ok res" "rq_sync req"
    and "record_hashes (rq_record req) = Inr (parent, base, pl)"
    and "find_object s parent = Some ob" "\<not> o_synced ob"
    and "parent \<notin> set (append_dependencies req pl)" "ar_state_id res \<noteq> hash_to_hex parent"
  shows "latest_at d' (as_agent_id (rq_record req)) (as_branch (rq_record req)) = Some (LfRegular (ar_state_id res)) \<and>
    find_object (crash_store s') parent = None \<and>
    (\<exists>h. ar_state_id res = hash_to_hex h \<and> find_object (crash_store s') h \<noteq> None)"
proof -
  obtain ob' where "find_object s' parent = Some ob'" "\<not> o_synced ob'" using append_unsynced [OF assms] by blast
  then have lost: "find_object (crash_store s') parent = None" by (simp add: find_crash durable_def)
  have "\<exists>h. ar_state_id res = hash_to_hex h \<and> find_object (crash_store s') h \<noteq> None"
    using assms(1-3)
  proof (rule append_synced)
    fix pl' t h s2
    assume f: "fsync_pending (append_dependencies req pl' @ [h]) t = (None, s2)"
      and i: "ar_state_id res = hash_to_hex h" and q: "store_quiet s2 s'"
    have "durable s2 h" using fsync_pending_effect [OF f] by simp
    then have "durable s' h" using store_quiet_durable [OF q] by simp
    then have "find_object (crash_store s') h \<noteq> None" by (auto simp: find_crash durable_def split: option.splits)
    with i show ?thesis by blast
  qed
  with append_publishes [OF assms(1-3)] lost show ?thesis by blast
qed

text \<open>A store with one state record that no sync has reached, and an append on top of it.\<close>

definition parent_store :: store where
  "parent_store = (new_store ''/s'' 5)\<lparr>s_shards := [shard_of 5], s_pending := [5],
     s_objects := [(5, \<lparr>o_data = bytes_of ''blob'' @ blob_body (serialize_agent_state_record default_record),
       o_mtime = 0, o_synced = False, o_linked = False\<rparr>)]\<rparr>"

definition child_request :: append_request where
  "child_request = \<lparr>rq_record = default_record\<lparr>as_agent_id := ''a'', as_parent_state_id := hash_to_hex 5,
     as_snapshot_base_state_id := hash_to_hex 5\<rparr>, rq_dependency_hashes = [], rq_sync = True\<rparr>"

definition empty_dir :: state_dir where
  "empty_dir = \<lparr>sd_state = False, sd_latest = False, sd_agents = [], sd_log = []\<rparr>"

lemma default_length: "length (serialize_agent_state_record default_record) < 2 ^ 64"
  by (simp add: serialize_agent_state_record_def default_record_def field_line_def
      agent_header_def percent_encode_def percent_escape_def print_uint_def nat_digits.simps)

lemma parent_read:
  "read_agent_state_record 5 parent_store = (Inr (default_record\<lparr>as_state_id := hash_to_hex 5\<rparr>), parent_store)"
proof -
  have "payload ''blob'' parent_store 5 = Some (blob_body (serialize_agent_state_record default_record))"
    by (simp add: payload_def parent_store_def find_object_def)
  then have "read_blob 5 parent_store = (Some (serialize_agent_state_record default_record), parent_store)"
    using read_blob_ok default_length by (simp add: parent_store_def)
  moreover have "deserialize_agent_state_record (serialize_agent_state_record default_record) = Inr default_record"
    using agent_record_codec [of default_record] by (simp add: default_record_def is_valid_state_id_def)
  ultimately show ?thesis by (simp add: read_agent_state_record_def)
qed

theorem restore_session_chain_witness:
  "\<exists>chain s'. restore_session (hash_to_hex 5) 3 parent_store = ((None, chain), s') \<and> length chain \<le> 3"
proof -
  have r: "restore_session (hash_to_hex 5) 3 parent_store =
      ((None, [default_record\<lparr>as_state_id := hash_to_hex 5\<rparr>]), parent_store)"
    by (simp add: restore_session_def eval_nat_numeral parent_read) (simp add: default_record_def)
  from restore_session_chain [OF r] r show ?thesis by blast
qed

lemma escape_length: "length (concat (map percent_escape s)) \<le> 3 * length s"
  by (induction s) (auto simp: percent_escape_def)

text \<open>The append of the child, with a hash under which the new record's name is 1.\<close>

abbreviation child_bytes :: bytes where
  "child_bytes \<equiv> serialize_agent_state_record ((rq_record child_request)\<lparr>as_dependency_hashes := []\<rparr>)"

lemma child_hashes: "record_hashes (rq_record child_request) = Inr (5, 5, ZERO_HASH)"
  by (simp add: record_hashes_def child_request_def default_record_def parse_optional_hash_def)

lemma child_dependencies [simp]: "append_dependencies child_request ZERO_HASH = []"
  by (simp add: append_dependencies_def child_request_def default_record_def)

lemma child_write:
  "\<exists>s2. write_agent_state_record (\<lambda>_. 1) (rq_record child_request) [] True parent_store =
     (Inr (1, (rq_record child_request)\<lparr>as_dependency_hashes := [], as_state_id := hash_to_hex 1\<rparr>), s2) \<and> s_io s2 = []"
proof -
  obtain s1 where w: "write_blob (\<lambda>_. 1) child_bytes parent_store = (1, s1)" "s_io s1 = []"
    using write_object_ok [of parent_store "\<lambda>_. 1" "''blob''" "blob_body child_bytes"]
    by (cases "write_blob (\<lambda>_. 1) child_bytes parent_store") (simp add: write_blob_def object_hash_def parent_store_def)
  have n: "find_object parent_store 1 = None" by (simp add: find_object_def parent_store_def)
  have pl: "find_object s1 1 \<noteq> None"
    using write_object_payload [OF w(1) [unfolded write_blob_def]] n by (auto simp: no_collision_def payload_def object_hash_def split: option.splits)
  have "pend_ok parent_store" by (simp add: pend_ok_def parent_store_def find_object_def)
  then have po: "pend_ok s1" by (rule write_object_pend [OF w(1) [unfolded write_blob_def]])
  have "1 \<in> set (s_pending s1)" using wrote_none [OF write_object_wrote [OF w(1) [unfolded write_blob_def]] n] pl by blast
  then have sh: "shard_of 1 \<in> set (s_shards s1)" using po by (auto simp: pend_ok_def)
  obtain s2 where f1: "fsync_objects [1] s1 = (True, s2)" "s_io s2 = []" using fsync_objects_ok [of s1 "[1]"] w(2) pl by auto
  have "shard_of ` set [1] \<subseteq> set (s_shards s2)" using sh fsync_objects_effect [OF f1(1)] by (auto simp: same_data_def)
  then obtain s3 where f2: "fsync_shard_dirs [1] s2 = (True, s3)" "s_io s3 = []" using fsync_shard_dirs_ok f1(2) by blast
  have "deserialize_agent_state_record child_bytes = Inr ((rq_record child_request)\<lparr>as_dependency_hashes := [], as_state_id := []\<rparr>)"
    using agent_record_codec [of "(rq_record child_request)\<lparr>as_dependency_hashes := []\<rparr>"]
    by (simp add: child_request_def default_record_def is_valid_state_id_def)
  then show ?thesis using w(1) f1 f2 by (simp add: write_agent_state_record_def fsync_pending_def)
qed

lemma child_append:
  obtains res d' s' where "append_state (\<lambda>_. 1) ''x'' child_request empty_dir parent_store = (res, d', s')"
    "ar_ok res" "ar_state_id res = hash_to_hex 1" "s_io s' = []"
proof -
  obtain s2 where w: "write_agent_state_record (\<lambda>_. 1) (rq_record child_request) [] True parent_store =
     (Inr (1, (rq_record child_request)\<lparr>as_dependency_hashes := [], as_state_id := hash_to_hex 1\<rparr>), s2)" "s_io s2 = []"
    using child_write by blast
  have v: "is_valid_state_ref_component (as_agent_id (rq_record child_request))"
    "is_valid_state_ref_component (as_branch (rq_record child_request))"
    by (simp_all add: child_request_def default_record_def is_valid_state_ref_component_def is_alnum_def)
  have c: "check_anchors (rq_record child_request) 5 5 ZERO_HASH parent_store = (None, parent_store)"
    by (simp add: check_anchors_def parent_read) (simp add: child_request_def default_record_def)
  have sy: "rq_sync child_request" by (simp add: child_request_def)
  obtain d3 where p: "publish_latest_ref ''x'' (as_agent_id (rq_record child_request)) (as_branch (rq_record child_request))
      (hash_to_hex 1) empty_dir s2 = (None, d3, s2)"
    using w(2) by (simp add: publish_latest_ref_def ensure_child_dir_durable_def mkdir_one_def fsync_dir_at_def next_io_def
        read_io_def write_latest_temp_def empty_dir_def Let_def)
  obtain d4 where l: "append_index_log (as_agent_id (rq_record child_request)) (as_branch (rq_record child_request)) (hash_to_hex 1)
      (as_timestamp_ns (rq_record child_request)) d3 s2 = (d4, s2)"
    using w(2) by (cases "sd_state d3") (simp_all add: append_index_log_def mkdir_one_def next_io_def Let_def)
  have "append_state (\<lambda>_. 1) ''x'' child_request empty_dir parent_store =
      (\<lparr>ar_ok = True, ar_error = [], ar_state_id = hash_to_hex 1, ar_durability = ''durable''\<rparr>, d4, s2)"
    using v child_hashes sy c w p l by (simp add: append_state_def Let_def)
  then show thesis by (rule that) (simp_all add: w(2))
qed

theorem append_then_latest_witness:
  "\<exists>d' t r. latest ''a'' ''main'' d' t = (Inr r, t) \<and> as_state_id r = hash_to_hex 1"
proof (rule child_append)
  fix res d' s'
  assume r: "append_state (\<lambda>_. 1) ''x'' child_request empty_dir parent_store = (res, d', s')" "ar_ok res"
    "ar_state_id res = hash_to_hex 1" "s_io s' = []"
  have f: "as_agent_id (rq_record child_request) = ''a''" "as_branch (rq_record child_request) = ''main''" "rq_sync child_request"
    by (simp_all add: child_request_def default_record_def)
  have "length child_bytes < 2 ^ 64"
    using escape_length [of "hash_to_hex 5"]
    by (simp add: serialize_agent_state_record_def child_request_def default_record_def field_line_def
      agent_header_def percent_encode_def percent_escape_def print_uint_def nat_digits.simps)
  moreover have "no_collision (\<lambda>_. 1) ''blob'' (blob_body child_bytes) parent_store"
    by (simp add: no_collision_def find_object_def parent_store_def object_hash_def)
  ultimately have l: "latest ''a'' ''main'' d' s' = (Inr ((rq_record child_request)\<lparr>as_dependency_hashes := [],
      as_state_id := hash_to_hex 1\<rparr>), s')"
    using append_then_latest [OF r(1,2) f(3) child_hashes _ _ store_le_refl r(4)] f r(3) by simp
  show ?thesis by (rule exI, rule exI, rule exI, rule conjI, rule l) simp
qed

theorem append_loses_parent_witness:
  "\<exists>d' s'. latest_at d' ''a'' ''main'' = Some (LfRegular (hash_to_hex 1)) \<and> find_object (crash_store s') 5 = None"
proof (rule child_append)
  fix res d' s'
  assume r: "append_state (\<lambda>_. 1) ''x'' child_request empty_dir parent_store = (res, d', s')" "ar_ok res"
    "ar_state_id res = hash_to_hex 1"
  have f: "as_agent_id (rq_record child_request) = ''a''" "as_branch (rq_record child_request) = ''main''" "rq_sync child_request"
    by (simp_all add: child_request_def default_record_def)
  obtain ob where "find_object parent_store 5 = Some ob" "\<not> o_synced ob" by (simp add: find_object_def parent_store_def)
  then show ?thesis using append_loses_parent [OF r(1,2) f(3) child_hashes] f r(3) by auto
qed

end
