(* ===== verification/RuntimeState.thy ===== *)
theory RuntimeState
  imports AgentState
begin

text \<open>
  \<open>src/cas/runtime_state.h\<close> and \<open>runtime_state.cpp\<close>: the union of file system and runtime state,
  its document format with the list of warnings, and its place in the store.
\<close>

datatype restore_eligibility = LiveRuntimeRestorable | FsOnly | MetadataOnly

record resource_warning =
  rw_kind :: string
  rw_description :: string
  rw_blocker :: bool

record union_runtime_state =
  us_record_version :: u32
  us_union_state_id :: string
  us_parent_union_state_id :: string
  us_branch :: string
  us_fs_commit :: hash
  us_agent_state_id :: string
  us_runtime_id :: string
  us_runtime_generation :: u64
  us_template_id :: string
  us_template_kind :: string
  us_boundary_kind :: string
  us_command_ref :: string
  us_resource_manifest_ref :: string
  us_timestamp_ns :: u64
  us_warnings :: "resource_warning list"

definition default_union :: union_runtime_state where
  "default_union = \<lparr>us_record_version = 1, us_union_state_id = [], us_parent_union_state_id = [],
     us_branch = ''main'', us_fs_commit = ZERO_HASH, us_agent_state_id = [], us_runtime_id = [],
     us_runtime_generation = 0, us_template_id = [], us_template_kind = ''live_fork'', us_boundary_kind = [],
     us_command_ref = [], us_resource_manifest_ref = [], us_timestamp_ns = 0, us_warnings = []\<rparr>"

fun restore_eligibility_to_string :: "restore_eligibility \<Rightarrow> string" where
  "restore_eligibility_to_string LiveRuntimeRestorable = ''live_runtime_restorable''"
| "restore_eligibility_to_string FsOnly = ''fs_only''"
| "restore_eligibility_to_string MetadataOnly = ''metadata_only''"

definition restore_eligibility_from_string :: "string \<Rightarrow> restore_eligibility option" where
  "restore_eligibility_from_string text =
     (if text = ''live_runtime_restorable'' then Some LiveRuntimeRestorable
      else if text = ''fs_only'' then Some FsOnly
      else if text = ''metadata_only'' then Some MetadataOnly
      else None)"

text \<open>\<open>value = encoded_kind | flag | encoded_description\<close>\<close>

definition assign_warning :: "string \<Rightarrow> union_runtime_state \<Rightarrow> string + union_runtime_state" where
  "assign_warning value st =
     (let kind = takeWhile (\<lambda>c. c \<noteq> CHR ''|'') value in
      if kind = value then Inl ''warning line missing field separators''
      else (let rest = drop (Suc (length kind)) value; flag = takeWhile (\<lambda>c. c \<noteq> CHR ''|'') rest in
        if flag = rest then Inl ''warning line missing description separator''
        else (case percent_decode kind of
                Inl e \<Rightarrow> Inl e
              | Inr k \<Rightarrow>
                  if flag \<noteq> ''1'' \<and> flag \<noteq> ''0'' then Inl ''warning blocker flag must be 0 or 1''
                  else (case percent_decode (drop (Suc (length flag)) rest) of
                          Inl e \<Rightarrow> Inl e
                        | Inr d \<Rightarrow> Inr (st\<lparr>us_warnings := us_warnings st @
                            [\<lparr>rw_kind = k, rw_description = d, rw_blocker = (flag = ''1'')\<rparr>]\<rparr>)))))"

definition assign_union_field :: "string \<Rightarrow> string \<Rightarrow> union_runtime_state \<Rightarrow> string + union_runtime_state" where
  "assign_union_field key value st =
     (if key = ''record_version'' then map_sum id (\<lambda>v. st\<lparr>us_record_version := v\<rparr>) (parse_u32 value)
      else if key = ''parent_union_state_id'' then
        decode_field (\<lambda>d. us_parent_union_state_id_update (\<lambda>_. d)) value st
      else if key = ''branch'' then decode_field (\<lambda>d. us_branch_update (\<lambda>_. d)) value st
      else if key = ''fs_commit'' then
        (case hex_to_hash value of
           None \<Rightarrow> Inl ''invalid fs_commit hash'' | Some h \<Rightarrow> Inr (st\<lparr>us_fs_commit := h\<rparr>))
      else if key = ''agent_state_id'' then decode_field (\<lambda>d. us_agent_state_id_update (\<lambda>_. d)) value st
      else if key = ''runtime_id'' then decode_field (\<lambda>d. us_runtime_id_update (\<lambda>_. d)) value st
      else if key = ''runtime_generation'' then
        map_sum id (\<lambda>v. st\<lparr>us_runtime_generation := v\<rparr>) (parse_u64 value)
      else if key = ''template_id'' then decode_field (\<lambda>d. us_template_id_update (\<lambda>_. d)) value st
      else if key = ''template_kind'' then decode_field (\<lambda>d. us_template_kind_update (\<lambda>_. d)) value st
      else if key = ''boundary_kind'' then decode_field (\<lambda>d. us_boundary_kind_update (\<lambda>_. d)) value st
      else if key = ''command_ref'' then decode_field (\<lambda>d. us_command_ref_update (\<lambda>_. d)) value st
      else if key = ''resource_manifest_ref'' then
        decode_field (\<lambda>d. us_resource_manifest_ref_update (\<lambda>_. d)) value st
      else if key = ''timestamp_ns'' then map_sum id (\<lambda>v. st\<lparr>us_timestamp_ns := v\<rparr>) (parse_u64 value)
      else if key = ''warning'' then assign_warning value st
      else Inr st)"

definition union_header :: string where
  "union_header = ''agentvfs.union_runtime_state.v1'' @ [LF]"

definition warning_value :: "resource_warning \<Rightarrow> string" where
  "warning_value w = percent_encode (rw_kind w) @ ''|'' @ (if rw_blocker w then ''1'' else ''0'') @ ''|'' @
     percent_encode (rw_description w)"

definition serialize_union_runtime_state :: "union_runtime_state \<Rightarrow> bytes" where
  "serialize_union_runtime_state st = bytes_of
     (union_header @
      field_line ''record_version'' (print_uint (us_record_version st)) @
      field_line ''parent_union_state_id'' (percent_encode (us_parent_union_state_id st)) @
      field_line ''branch'' (percent_encode (us_branch st)) @
      field_line ''fs_commit'' (hash_to_hex (us_fs_commit st)) @
      field_line ''agent_state_id'' (percent_encode (us_agent_state_id st)) @
      field_line ''runtime_id'' (percent_encode (us_runtime_id st)) @
      field_line ''runtime_generation'' (print_uint (us_runtime_generation st)) @
      field_line ''template_id'' (percent_encode (us_template_id st)) @
      field_line ''template_kind'' (percent_encode (us_template_kind st)) @
      field_line ''boundary_kind'' (percent_encode (us_boundary_kind st)) @
      field_line ''command_ref'' (percent_encode (us_command_ref st)) @
      field_line ''resource_manifest_ref'' (percent_encode (us_resource_manifest_ref st)) @
      field_line ''timestamp_ns'' (print_uint (us_timestamp_ns st)) @
      concat (map (\<lambda>w. field_line ''warning'' (warning_value w)) (us_warnings st)))"

definition deserialize_union_runtime_state :: "bytes \<Rightarrow> string + union_runtime_state" where
  "deserialize_union_runtime_state body =
     (if body = [] then Inl ''empty union runtime state body''
      else if length body < length union_header then Inl ''union runtime state body shorter than header''
      else if string_of (take (length union_header) body) \<noteq> union_header then
        Inl ''missing or incorrect union runtime state header''
      else parse_lines assign_union_field (string_of (drop (length union_header) body)) default_union)"

definition write_union_runtime_state ::
  "(bytes \<Rightarrow> hash) \<Rightarrow> union_runtime_state \<Rightarrow> (string + hash \<times> union_runtime_state) io" where
  "write_union_runtime_state H st s =
     (case write_blob H (serialize_union_runtime_state st) s of (h, s) \<Rightarrow>
      if h = ZERO_HASH then (Inl (store_error ''object store write_blob failed'' s), s)
      else (Inr (h, st\<lparr>us_union_state_id := hash_to_hex h\<rparr>), s))"

definition read_union_runtime_state :: "hash \<Rightarrow> (string + union_runtime_state) io" where
  "read_union_runtime_state ident s =
     (case read_blob ident s of
        (None, s) \<Rightarrow> (Inl (store_error ''object store read_blob failed'' s), s)
      | (Some body, s) \<Rightarrow>
          (map_sum id (\<lambda>st. st\<lparr>us_union_state_id := hash_to_hex ident\<rparr>) (deserialize_union_runtime_state body), s))"

section \<open>The document format\<close>

lemma eligibility_roundtrip:
  "restore_eligibility_from_string t = Some e \<longleftrightarrow> restore_eligibility_to_string e = t"
  by (cases e) (auto simp: restore_eligibility_from_string_def)

lemma assign_union_simps:
  "assign_union_field ''record_version'' v st = map_sum id (\<lambda>v. st\<lparr>us_record_version := v\<rparr>) (parse_u32 v)"
  "assign_union_field ''parent_union_state_id'' v st = decode_field (\<lambda>d. us_parent_union_state_id_update (\<lambda>_. d)) v st"
  "assign_union_field ''branch'' v st = decode_field (\<lambda>d. us_branch_update (\<lambda>_. d)) v st"
  "assign_union_field ''fs_commit'' (hash_to_hex h) st = Inr (st\<lparr>us_fs_commit := h\<rparr>)"
  "assign_union_field ''agent_state_id'' v st = decode_field (\<lambda>d. us_agent_state_id_update (\<lambda>_. d)) v st"
  "assign_union_field ''runtime_id'' v st = decode_field (\<lambda>d. us_runtime_id_update (\<lambda>_. d)) v st"
  "assign_union_field ''runtime_generation'' v st = map_sum id (\<lambda>v. st\<lparr>us_runtime_generation := v\<rparr>) (parse_u64 v)"
  "assign_union_field ''template_id'' v st = decode_field (\<lambda>d. us_template_id_update (\<lambda>_. d)) v st"
  "assign_union_field ''template_kind'' v st = decode_field (\<lambda>d. us_template_kind_update (\<lambda>_. d)) v st"
  "assign_union_field ''boundary_kind'' v st = decode_field (\<lambda>d. us_boundary_kind_update (\<lambda>_. d)) v st"
  "assign_union_field ''command_ref'' v st = decode_field (\<lambda>d. us_command_ref_update (\<lambda>_. d)) v st"
  "assign_union_field ''resource_manifest_ref'' v st = decode_field (\<lambda>d. us_resource_manifest_ref_update (\<lambda>_. d)) v st"
  "assign_union_field ''timestamp_ns'' v st = map_sum id (\<lambda>v. st\<lparr>us_timestamp_ns := v\<rparr>) (parse_u64 v)"
  "assign_union_field ''warning'' v st = assign_warning v st"
  by (simp_all add: assign_union_field_def)

lemma assign_warning_value [simp]:
  "assign_warning (warning_value w) st = Inr (st\<lparr>us_warnings := us_warnings st @ [w]\<rparr>)"
proof -
  let ?k = "percent_encode (rw_kind w)" and ?d = "percent_encode (rw_description w)"
  define f where "f = (if rw_blocker w then ''1'' else ''0'')"
  have f: "CHR ''|'' \<notin> set f" "f = ''1'' \<longleftrightarrow> rw_blocker w" "f = ''0'' \<longleftrightarrow> \<not> rw_blocker w" by (auto simp: f_def)
  have v: "warning_value w = ?k @ CHR ''|'' # f @ CHR ''|'' # ?d" by (simp add: warning_value_def f_def)
  have "takeWhile (\<lambda>c. c \<noteq> CHR ''|'') (?k @ CHR ''|'' # f @ CHR ''|'' # ?d) = ?k"
    "takeWhile (\<lambda>c. c \<noteq> CHR ''|'') (f @ CHR ''|'' # ?d) = f"
    using f(1) by (auto intro: takeWhile_stop)
  then show ?thesis unfolding assign_warning_def v Let_def by (simp add: f(2,3))
qed

lemma warning_value_clean [simp]: "LF \<notin> set (warning_value w)"
  by (simp add: warning_value_def)

lemma parse_warnings:
  "parse_lines assign_union_field (concat (map (\<lambda>w. field_line ''warning'' (warning_value w)) ws)) st =
   Inr (st\<lparr>us_warnings := us_warnings st @ ws\<rparr>)"
  by (induction ws arbitrary: st) (simp_all add: parse_lines_field assign_union_simps)

lemma deserialize_union_fields:
  "deserialize_union_runtime_state (bytes_of (union_header @ text)) = parse_lines assign_union_field text default_union"
proof -
  have "string_of (take (length union_header) (bytes_of (union_header @ text))) = union_header"
    "string_of (drop (length union_header) (bytes_of (union_header @ text))) = text" by simp_all
  moreover have "bytes_of (union_header @ text) \<noteq> []" by (simp add: union_header_def bytes_of_def)
  ultimately show ?thesis by (simp add: deserialize_union_runtime_state_def del: bytes_of_append)
qed

lemma union_codec:
  "deserialize_union_runtime_state (serialize_union_runtime_state st) = Inr (st\<lparr>us_union_state_id := []\<rparr>)"
  unfolding serialize_union_runtime_state_def deserialize_union_fields
  by (simp add: parse_lines_field assign_union_simps parse_warnings default_union_def)

section \<open>Properties\<close>

text \<open>
  A union runtime state reads back as it was written, warnings in order included, in every
  later store that lost nothing.
\<close>

theorem union_state_roundtrip:
  assumes "write_union_runtime_state H st s = (Inr (h, st'), s')"
    and "no_collision H ''blob'' (blob_body (serialize_union_runtime_state st)) s"
    and "length (serialize_union_runtime_state st) < 2 ^ 64"
    and "store_le s' t" "s_io t = []"
  shows "read_union_runtime_state h t = (Inr st', t) \<and> st' = st\<lparr>us_union_state_id := hash_to_hex h\<rparr>"
proof -
  let ?b = "serialize_union_runtime_state st"
  obtain h1 s1 where w: "write_blob H ?b s = (h1, s1)" by fastforce
  have r: "h1 \<noteq> ZERO_HASH" "h1 = h" "s1 = s'" "st' = st\<lparr>us_union_state_id := hash_to_hex h\<rparr>"
    using assms(1) w by (auto simp: write_union_runtime_state_def split: if_splits)
  have "payload ''blob'' s1 h1 = Some (blob_body ?b)"
    using write_object_payload [OF w [unfolded write_blob_def] r(1) assms(2)] by blast
  then have "payload ''blob'' t h = Some (blob_body ?b)" using payload_mono assms(4) r by blast
  from read_blob_ok [OF assms(5) this assms(3)] r(4) show ?thesis
    by (simp add: read_union_runtime_state_def union_codec)
qed

theorem union_state_roundtrip_witness:
  "\<exists>s' st'. read_union_runtime_state 1 s' = (Inr st', s') \<and> us_branch st' = ''main''"
proof -
  let ?s = "new_store ''/s'' 5" and ?b = "serialize_union_runtime_state default_union"
  obtain s1 where w: "write_blob (\<lambda>_. 1) ?b ?s = (1, s1)" "s_io s1 = []"
    using write_object_ok [of ?s "\<lambda>_. 1" "''blob''" "blob_body ?b"]
    by (cases "write_blob (\<lambda>_. 1) ?b ?s") (simp add: write_blob_def object_hash_def)
  then have run: "write_union_runtime_state (\<lambda>_. 1) default_union ?s =
      (Inr (1, default_union\<lparr>us_union_state_id := hash_to_hex 1\<rparr>), s1)" by (simp add: write_union_runtime_state_def)
  have "length ?b < 2 ^ 64" by (simp add: serialize_union_runtime_state_def default_union_def field_line_def
    union_header_def percent_encode_def percent_escape_def print_uint_def nat_digits.simps)
  then have r: "read_union_runtime_state 1 s1 = (Inr (default_union\<lparr>us_union_state_id := hash_to_hex 1\<rparr>), s1)"
    using union_state_roundtrip [OF run _ _ store_le_refl w(2)] by (simp add: no_collision_def find_object_def)
  show ?thesis by (rule exI, rule exI, rule conjI, rule r) (simp add: default_union_def)
qed

end
