(* ===== verification/Gc.thy ===== *)
theory Gc
  imports AgentStateService RuntimeState MergeBase
begin

text \<open>
  \<open>src/cas/gc.h\<close> and \<open>gc.cpp\<close>: the mark phase over branch refs, agent states, runtime states
  and live roots, the age-fenced sweep, and the verification of the marked set. Sets of
  hashes are sets; where the source iterates over an \<open>unordered_set\<close>, the model takes the order
  of the hashes. The two recursions have a fuel argument that bounds their depth, and
  \<open>None\<close> is a recursion that is cut off; with the fuel the collector starts them with, that does
  not happen (theorem \<open>gc_returns\<close>).
\<close>

section \<open>Data\<close>

record gc_policy =
  gp_keep_last :: "u32 option"
  gp_keep_labels :: "string list"
  gp_dry_run :: bool

record gc_live_roots =
  gl_expected_branch_refs :: "string list"
  gl_wt_hashes :: "hash list"
  gl_fh_blob_hashes :: "hash list"
  gl_fh_pinned_commits :: "hash list"
  gl_pending :: "hash list"
  gl_runtime_union_states :: "hash list"

record gc_result =
  gr_ok :: bool
  gr_error :: string
  gr_roots_branches :: u64
  gr_roots_state_refs :: u64
  gr_roots_runtime_states :: u64
  gr_marked_objects :: u64
  gr_marked_bytes :: u64
  gr_swept_objects :: u64
  gr_swept_bytes :: u64
  gr_sweep_errors :: u64
  gr_compacted_commits :: u64
  gr_missing_objects :: u64
  gr_missing :: "hash list"
  gr_duration_ms :: u64

definition gc_result_new :: gc_result where
  "gc_result_new = \<lparr>gr_ok = False, gr_error = [], gr_roots_branches = 0, gr_roots_state_refs = 0,
     gr_roots_runtime_states = 0, gr_marked_objects = 0, gr_marked_bytes = 0, gr_swept_objects = 0,
     gr_swept_bytes = 0, gr_sweep_errors = 0, gr_compacted_commits = 0, gr_missing_objects = 0,
     gr_missing = [], gr_duration_ms = 0\<rparr>"

text \<open>
  What the mark functions share by reference: the mark set, the commits whose data is kept,
  the candidates for compaction, \<open>MarkTraversal\<close> with its optional list of missing objects, and
  the statistics.
\<close>

record mark =
  ms_marked :: "hash set"
  ms_retained :: "hash list"
  ms_compacted :: "hash set"
  ms_trees :: "hash set"
  ms_records :: "hash set"
  ms_unions :: "hash set"
  ms_missing :: "hash list option"
  ms_stats :: gc_result

definition mark_new :: "hash list option \<Rightarrow> gc_result \<Rightarrow> mark" where
  "mark_new missing stats = \<lparr>ms_marked = {}, ms_retained = [], ms_compacted = {}, ms_trees = {}, ms_records = {},
     ms_unions = {}, ms_missing = missing, ms_stats = stats\<rparr>"

text \<open>An error (false) or none (true), with the state after the call.\<close>

type_synonym mark_res = "(string option \<times> mark \<times> store) option"

definition mark_ok :: "mark \<Rightarrow> store \<Rightarrow> mark_res" where
  "mark_ok m s = Some (None, m, s)"

definition mark_fail :: "string \<Rightarrow> mark \<Rightarrow> store \<Rightarrow> mark_res" where
  "mark_fail e m s = Some (Some e, m, s)"

definition mark_then :: "mark_res \<Rightarrow> (mark \<Rightarrow> store \<Rightarrow> mark_res) \<Rightarrow> mark_res" where
  "mark_then r k = (case r of Some (None, m, s) \<Rightarrow> k m s | _ \<Rightarrow> r)"

definition mark_hash :: "hash \<Rightarrow> mark \<Rightarrow> mark" where
  "mark_hash h m = m\<lparr>ms_marked := insert h (ms_marked m)\<rparr>"

definition mark_all :: "hash list \<Rightarrow> mark \<Rightarrow> mark" where
  "mark_all hs m = m\<lparr>ms_marked := set hs \<union> ms_marked m\<rparr>"

lemma mark_then_cong [fundef_cong]:
  "r = r' \<Longrightarrow> (\<And>m s. r' = Some (None, m, s) \<Longrightarrow> k m s = k' m s) \<Longrightarrow> mark_then r k = mark_then r' k'"
  by (auto simp: mark_then_def split: option.split prod.split)

section \<open>The mark phase\<close>

definition mark_required_hex_blob :: "string \<Rightarrow> mark \<Rightarrow> store \<Rightarrow> mark_res" where
  "mark_required_hex_blob hex m s =
     (if hex = [] then mark_ok m s
      else case hex_to_hash_strict hex of
        None \<Rightarrow> mark_fail (''malformed object id: '' @ hex) m s
      | Some h \<Rightarrow> mark_ok (mark_hash h m) s)"

definition mark_opaque_cas_ref :: "string \<Rightarrow> mark \<Rightarrow> mark" where
  "mark_opaque_cas_ref v m = (case hex_to_hash_strict v of None \<Rightarrow> m | Some h \<Rightarrow> mark_hash h m)"

definition record_missing_hash :: "hash \<Rightarrow> mark \<Rightarrow> store \<Rightarrow> mark \<times> store" where
  "record_missing_hash h m s =
     (case ms_missing m of
        None \<Rightarrow> (m, s)
      | Some hs \<Rightarrow> (case object_exists h s of (ex, s) \<Rightarrow>
          (if ex then m else m\<lparr>ms_missing := Some (hs @ [h])\<rparr>, s)))"

definition fail_missing :: "hash \<Rightarrow> string \<Rightarrow> mark \<Rightarrow> store \<Rightarrow> mark_res" where
  "fail_missing h e m s = (case record_missing_hash h m s of (m, s) \<Rightarrow> mark_fail e m s)"

fun mark_tree_recursive :: "nat \<Rightarrow> hash \<Rightarrow> mark \<Rightarrow> store \<Rightarrow> mark_res"
  and mark_entries :: "nat \<Rightarrow> (string \<times> entry) list \<Rightarrow> mark \<Rightarrow> store \<Rightarrow> mark_res" where
  "mark_tree_recursive 0 tree m s = None"
| "mark_tree_recursive (Suc n) tree m s =
     (if tree \<in> ms_trees m then mark_ok m s
      else (let m = mark_hash tree (m\<lparr>ms_trees := insert tree (ms_trees m)\<rparr>) in
        case read_tree tree s of
          (None, s) \<Rightarrow> fail_missing tree (''mark: tree object missing: '' @ hash_to_hex tree) m s
        | (Some body, s) \<Rightarrow>
            (case deserialize_tree_entries body of
               None \<Rightarrow> mark_fail (''mark: corrupt tree object: '' @ hash_to_hex tree) m s
             | Some es \<Rightarrow> mark_entries n es m s)))"
| "mark_entries n [] m s = mark_ok m s"
| "mark_entries n ((name, e) # es) m s =
     (if e_kind e = Tree then mark_then (mark_tree_recursive n (e_hash e) m s) (mark_entries n es)
      else mark_entries n es
        (if e_kind e \<noteq> Deleted \<and> e_hash e \<noteq> ZERO_HASH then mark_hash (e_hash e) m else m) s)"

definition mark_commit_data :: "nat \<Rightarrow> hash \<Rightarrow> mark \<Rightarrow> store \<Rightarrow> mark_res" where
  "mark_commit_data n c m s =
     (case read_commit c s of
        (None, s) \<Rightarrow> fail_missing c (''mark: commit object missing: '' @ hash_to_hex c) m s
      | (Some body, s) \<Rightarrow>
          (case decoded (deserialize_commit body) of
             None \<Rightarrow> mark_fail (''mark: corrupt commit: '' @ hash_to_hex c) m s
           | Some cd \<Rightarrow> mark_tree_recursive n (cd_tree_hash cd) m s))"

text \<open>Pass 1: the commits of the first-parent chain within the window.\<close>

fun keep_last_window :: "nat \<Rightarrow> hash \<Rightarrow> hash set \<Rightarrow> hash set io" where
  "keep_last_window 0 cursor keep s = (keep, s)"
| "keep_last_window (Suc n) cursor keep s =
     (let keep = insert cursor keep in
      case read_commit cursor s of
        (None, s) \<Rightarrow> (keep, s)
      | (Some body, s) \<Rightarrow>
          (case decoded (deserialize_commit body) of
             None \<Rightarrow> (keep, s)
           | Some cd \<Rightarrow>
               (case cd_parents cd of [] \<Rightarrow> (keep, s) | p # _ \<Rightarrow> keep_last_window n p keep s)))"

definition keep_last_set :: "hash \<Rightarrow> gc_policy \<Rightarrow> bool \<Rightarrow> hash set io" where
  "keep_last_set head policy apply_window s =
     (case gp_keep_last policy of
        Some k \<Rightarrow> (if apply_window then keep_last_window (unat (max 1 k)) head {} s else ({}, s))
      | None \<Rightarrow> ({}, s))"

definition retains_data :: "hash \<Rightarrow> gc_policy \<Rightarrow> bool \<Rightarrow> hash set \<Rightarrow> hash \<Rightarrow> commit_data \<Rightarrow> bool" where
  "retains_data head policy apply_window keep cur cd \<longleftrightarrow>
     (if gp_keep_last policy = None then True
      else if cd_label cd \<in> set (gp_keep_labels policy) then True
      else cur = head \<or> apply_window \<and> cur \<in> keep)"

definition mark_commit :: "bool \<Rightarrow> hash \<Rightarrow> mark \<Rightarrow> mark" where
  "mark_commit retain cur m =
     (let m = mark_hash cur m in
      if retain then m\<lparr>ms_retained := ms_retained m @ [cur]\<rparr>
      else m\<lparr>ms_compacted := insert cur (ms_compacted m)\<rparr>)"

text \<open>Pass 2: the stack (its top first) and the commits already seen.\<close>

partial_function (option) chain_loop ::
  "hash \<Rightarrow> gc_policy \<Rightarrow> bool \<Rightarrow> hash set \<Rightarrow> hash list \<Rightarrow> hash set \<Rightarrow> mark \<Rightarrow> store \<Rightarrow> mark_res" where
  "chain_loop head policy apply_window keep q seen m s =
     (case q of
        [] \<Rightarrow> mark_ok m s
      | cur # q \<Rightarrow>
          (if cur \<in> seen then chain_loop head policy apply_window keep q seen m s
           else (case read_commit cur s of
               (None, s) \<Rightarrow> fail_missing cur (''mark: commit object missing: '' @ hash_to_hex cur) m s
             | (Some body, s) \<Rightarrow>
                 (case decoded (deserialize_commit body) of
                    None \<Rightarrow> mark_fail (''mark: corrupt commit: '' @ hash_to_hex cur) m s
                  | Some cd \<Rightarrow>
                      chain_loop head policy apply_window keep (rev (cd_parents cd) @ q) (insert cur seen)
                        (mark_commit (retains_data head policy apply_window keep cur cd) cur m) s))))"

definition mark_commit_chain :: "hash \<Rightarrow> gc_policy \<Rightarrow> bool \<Rightarrow> mark \<Rightarrow> store \<Rightarrow> mark_res" where
  "mark_commit_chain head policy apply_window m s =
     (case keep_last_set head policy apply_window s of (keep, s) \<Rightarrow>
      chain_loop head policy apply_window keep [head] {} m s)"

definition mark_fs_commit :: "hash \<Rightarrow> gc_policy \<Rightarrow> mark \<Rightarrow> store \<Rightarrow> mark_res" where
  "mark_fs_commit c policy m s =
     (if c \<noteq> ZERO_HASH then mark_commit_chain c policy False m s else mark_ok m s)"

text \<open>An id in a record: unset, malformed, or followed by \<open>f\<close>.\<close>

definition mark_link :: "string \<Rightarrow> string \<Rightarrow> (hash \<Rightarrow> mark \<Rightarrow> store \<Rightarrow> mark_res) \<Rightarrow> mark \<Rightarrow> store \<Rightarrow> mark_res" where
  "mark_link sid malformed f m s =
     (if sid = [] then mark_ok m s
      else case hex_to_hash_strict sid of
        Some h \<Rightarrow> f h m s
      | None \<Rightarrow> mark_fail malformed m s)"

lemma mark_link_cong [fundef_cong]:
  "sid = sid' \<Longrightarrow> malformed = malformed' \<Longrightarrow> m = m' \<Longrightarrow> s = s' \<Longrightarrow>
   (\<And>h. hex_to_hash_strict sid' = Some h \<Longrightarrow> f h m' s' = f' h m' s') \<Longrightarrow>
   mark_link sid malformed f m s = mark_link sid' malformed' f' m' s'"
  by (auto simp: mark_link_def split: option.split)

fun mark_state_record :: "nat \<Rightarrow> gc_policy \<Rightarrow> hash \<Rightarrow> mark \<Rightarrow> store \<Rightarrow> mark_res"
  and mark_union_state :: "nat \<Rightarrow> gc_policy \<Rightarrow> hash \<Rightarrow> mark \<Rightarrow> store \<Rightarrow> mark_res" where
  "mark_state_record 0 policy sid m s = None"
| "mark_state_record (Suc n) policy sid m s =
     (if sid \<in> ms_records m then mark_ok m s
      else (let m = m\<lparr>ms_records := insert sid (ms_records m)\<rparr> in
        case read_agent_state_record sid s of
          (Inl e, s) \<Rightarrow> fail_missing sid (''mark: state record unreadable: '' @ hash_to_hex sid @ '': '' @ e) m s
        | (Inr rec, s) \<Rightarrow>
        (let malformed = ''mark: malformed state id on '' @ hash_to_hex sid in
         mark_then (mark_required_hex_blob (as_payload_ref rec) (mark_hash sid m) s) (\<lambda>m s.
         mark_then (mark_fs_commit (as_fs_commit rec) policy (mark_all (as_dependency_hashes rec) m) s) (\<lambda>m s.
         mark_then (mark_link (as_union_state_id rec) (''mark: malformed union_state_id on '' @ hash_to_hex sid)
                      (mark_union_state n policy) m s) (\<lambda>m s.
         mark_then (mark_link (as_parent_state_id rec) malformed (mark_state_record n policy) m s) (\<lambda>m s.
         mark_link (as_snapshot_base_state_id rec) malformed (mark_state_record n policy) m s)))))))"
| "mark_union_state 0 policy uid m s = None"
| "mark_union_state (Suc n) policy uid m s =
     (if uid \<in> ms_unions m then mark_ok m s
      else (let m = m\<lparr>ms_unions := insert uid (ms_unions m)\<rparr> in
        case read_union_runtime_state uid s of
          (Inl e, s) \<Rightarrow> fail_missing uid (''mark: union state unreadable: '' @ hash_to_hex uid @ '': '' @ e) m s
        | (Inr us, s) \<Rightarrow>
         mark_then (mark_fs_commit (us_fs_commit us) policy (mark_hash uid m) s) (\<lambda>m s.
         mark_then (mark_link (us_agent_state_id us) (''mark: malformed agent_state_id on '' @ hash_to_hex uid)
                      (mark_state_record n policy)
                      (mark_opaque_cas_ref (us_resource_manifest_ref us) (mark_opaque_cas_ref (us_command_ref us) m)) s) (\<lambda>m s.
         mark_link (us_parent_union_state_id us) ''mark: malformed parent_union_state_id''
           (mark_union_state n policy) m s))))"

text \<open>1. Branch refs.\<close>

definition bump :: "((u64 \<Rightarrow> u64) \<Rightarrow> gc_result \<Rightarrow> gc_result) \<Rightarrow> mark \<Rightarrow> mark" where
  "bump field m = m\<lparr>ms_stats := field (\<lambda>n. n + 1) (ms_stats m)\<rparr>"

fun mark_refs :: "refs \<Rightarrow> gc_policy \<Rightarrow> string list \<Rightarrow> mark \<Rightarrow> store \<Rightarrow> mark_res" where
  "mark_refs r policy [] m s = mark_ok m s"
| "mark_refs r policy (name # names) m s =
     (case read_ref r name s of
        (None, s) \<Rightarrow> mark_fail (''mark: unreadable ref: '' @ name) m s
      | (Some head, s) \<Rightarrow>
          mark_then (mark_commit_chain head policy True (bump gr_roots_branches_update m) s) (mark_refs r policy names))"

fun missing_ref :: "string list \<Rightarrow> string list \<Rightarrow> string option" where
  "missing_ref [] names = None"
| "missing_ref (e # es) names = (if e \<in> set names then missing_ref es names else Some e)"

definition mark_branches :: "refs \<Rightarrow> gc_live_roots \<Rightarrow> gc_policy \<Rightarrow> mark \<Rightarrow> store \<Rightarrow> mark_res" where
  "mark_branches r roots policy m s =
     (case list_refs r s of
        (Inl e, s) \<Rightarrow> mark_fail (''mark: '' @ e) m s
      | (Inr names, s) \<Rightarrow>
          (case missing_ref (gl_expected_branch_refs roots) names of
             Some e \<Rightarrow> mark_fail (''mark: expected branch ref missing: '' @ e) m s
           | None \<Rightarrow> mark_refs r policy names m s))"

text \<open>2. The latest refs of the agents: white-space separated words of each file.\<close>

function words_of :: "string \<Rightarrow> string list" where
  "words_of s =
     (case dropWhile is_space s of
        [] \<Rightarrow> []
      | t \<Rightarrow> takeWhile (\<lambda>c. \<not> is_space c) t # words_of (dropWhile (\<lambda>c. \<not> is_space c) t))"
  by pat_completeness auto
termination
proof (relation "measure length")
  fix s t :: string and x xs
  assume a: "dropWhile is_space s = x # xs"
  have "\<not> is_space x" using a by (metis hd_dropWhile list.distinct(1) list.sel(1))
  then have "length (dropWhile (\<lambda>c. \<not> is_space c) (x # xs)) \<le> length xs"
    by (simp add: length_dropWhile_le)
  also have "length xs < length s" using a length_dropWhile_le [of is_space s] by simp
  finally show "(dropWhile (\<lambda>c. \<not> is_space c) (x # xs), s) \<in> measure length" by simp
qed simp

definition latest_ref_id :: "string \<Rightarrow> string \<Rightarrow> (string + hash) io" where
  "latest_ref_id path body s =
     (case next_io s of
        (Some _, s) \<Rightarrow> (Inl (''mark: unreadable state latest ref: '' @ path), s)
      | (None, s) \<Rightarrow>
      (case next_io s of
        (Some _, s) \<Rightarrow> (Inl (''mark: unreadable state latest ref: '' @ path), s)
      | (None, s) \<Rightarrow>
          (case words_of body of
             [] \<Rightarrow> (Inl (''mark: unreadable state latest ref: '' @ path), s)
           | [hex] \<Rightarrow>
               (case hex_to_hash_strict hex of
                  None \<Rightarrow> (Inl (''mark: malformed state latest ref: '' @ path), s)
                | Some h \<Rightarrow> (Inr h, s))
           | _ \<Rightarrow> (Inl (''mark: malformed state latest ref: '' @ path), s))))"

fun mark_state_refs :: "nat \<Rightarrow> gc_policy \<Rightarrow> string \<Rightarrow> (string, latest_file) omap \<Rightarrow> mark \<Rightarrow> store \<Rightarrow> mark_res" where
  "mark_state_refs n policy dir [] m s = mark_ok m s"
| "mark_state_refs n policy dir ((name, file) # files) m s =
     (case next_io s of
        (Some f, s) \<Rightarrow> mark_fail (''mark: inspect state latest ref failed: '' @ f_msg f) m s
      | (None, s) \<Rightarrow>
      mark_then
        (case file of
           LfOther \<Rightarrow> mark_ok m s
         | LfRegular body \<Rightarrow>
             (case latest_ref_id (dir @ ''/'' @ name) body s of
                (Inl e, s) \<Rightarrow> mark_fail e m s
              | (Inr h, s) \<Rightarrow> mark_state_record n policy h (bump gr_roots_state_refs_update m) s))
        (\<lambda>m s. case next_io s of
           (Some f, s) \<Rightarrow> mark_fail (''mark: enumerate state/latest agent failed: '' @ f_msg f) m s
         | (None, s) \<Rightarrow> mark_state_refs n policy dir files m s))"

fun mark_agents :: "nat \<Rightarrow> gc_policy \<Rightarrow> string \<Rightarrow> (string, latest_agent) omap \<Rightarrow> mark \<Rightarrow> store \<Rightarrow> mark_res" where
  "mark_agents n policy dir [] m s = mark_ok m s"
| "mark_agents n policy dir ((name, agent) # agents) m s =
     (case next_io s of
        (Some f, s) \<Rightarrow> mark_fail (''mark: inspect state/latest entry failed: '' @ f_msg f) m s
      | (None, s) \<Rightarrow>
      mark_then
        (case agent of
           LaOther \<Rightarrow> mark_ok m s
         | LaDir files \<Rightarrow>
             (case next_io s of
                (Some f, s) \<Rightarrow> mark_fail (''mark: enumerate state/latest agent failed: '' @ f_msg f) m s
              | (None, s) \<Rightarrow> mark_state_refs n policy (dir @ ''/'' @ name) files m s))
        (\<lambda>m s. case next_io s of
           (Some f, s) \<Rightarrow> mark_fail (''mark: enumerate state/latest failed: '' @ f_msg f) m s
         | (None, s) \<Rightarrow> mark_agents n policy dir agents m s))"

text \<open>\<open>ENOENT\<close> is reported exactly for a missing directory; the faults of the script are the others.\<close>

definition mark_latest :: "nat \<Rightarrow> gc_policy \<Rightarrow> state_dir \<Rightarrow> mark \<Rightarrow> store \<Rightarrow> mark_res" where
  "mark_latest n policy d m s =
     (case next_io s of
        (Some f, s) \<Rightarrow> mark_fail (''mark: enumerate state/latest failed: '' @ f_msg f) m s
      | (None, s) \<Rightarrow> mark_agents n policy (latest_root s) (if sd_latest d then sd_agents d else []) m s)"

text \<open>3. Live runtime union states.\<close>

fun mark_runtimes :: "nat \<Rightarrow> gc_policy \<Rightarrow> hash list \<Rightarrow> mark \<Rightarrow> store \<Rightarrow> mark_res" where
  "mark_runtimes n policy [] m s = mark_ok m s"
| "mark_runtimes n policy (h # hs) m s =
     mark_then (mark_union_state n policy h (bump gr_roots_runtime_states_update m) s) (mark_runtimes n policy hs)"

text \<open>4. Live daemon state.\<close>

definition mark_live :: "gc_live_roots \<Rightarrow> mark \<Rightarrow> mark" where
  "mark_live roots m = mark_all (gl_pending roots) (mark_all (gl_fh_pinned_commits roots)
     (mark_all (gl_fh_blob_hashes roots) (mark_all (gl_wt_hashes roots) m)))"

text \<open>5. Data of the retained commits.\<close>

fun mark_data :: "nat \<Rightarrow> hash list \<Rightarrow> mark \<Rightarrow> store \<Rightarrow> mark_res" where
  "mark_data n [] m s = mark_ok m s"
| "mark_data n (c # cs) m s = mark_then (mark_commit_data n c m s) (mark_data n cs)"

text \<open>6. The compaction statistics.\<close>

definition count_compacted :: "mark \<Rightarrow> mark" where
  "count_compacted m = m\<lparr>ms_stats := (ms_stats m)\<lparr>gr_compacted_commits :=
     gr_compacted_commits (ms_stats m) + of_nat (card (ms_compacted m - set (ms_retained m)))\<rparr>\<rparr>"

definition gc_fuel :: "store \<Rightarrow> nat" where
  "gc_fuel s = 2 * length (s_objects s) + 1"

definition mark_impl :: "refs \<Rightarrow> state_dir \<Rightarrow> gc_live_roots \<Rightarrow> gc_policy \<Rightarrow> mark \<Rightarrow> store \<Rightarrow> mark_res" where
  "mark_impl r d roots policy m s =
     (let n = gc_fuel s in
      mark_then (mark_branches r roots policy m s) (\<lambda>m s.
      mark_then (mark_latest n policy d m s) (\<lambda>m s.
      mark_then (mark_runtimes n policy (gl_runtime_union_states roots) m s) (\<lambda>m s.
      mark_then (mark_data n (ms_retained m) (mark_live roots m) s) (\<lambda>m s.
      mark_ok (count_compacted m) s)))))"

section \<open>Sweep and verification\<close>

definition append_message :: "string \<Rightarrow> string \<Rightarrow> string" where
  "append_message e msg = (if e = [] then msg else e @ ''; '' @ msg)"

definition sweep_object ::
  "hash set \<Rightarrow> gc_policy \<Rightarrow> int \<Rightarrow> hash \<Rightarrow> nat \<Rightarrow> int \<Rightarrow> gc_result \<times> store \<Rightarrow> gc_result \<times> store" where
  "sweep_object marked policy mark_start h sz mtime rs =
     (case rs of (r, s) \<Rightarrow>
      if h \<in> marked then
        (r\<lparr>gr_marked_objects := gr_marked_objects r + 1, gr_marked_bytes := gr_marked_bytes r + of_nat sz\<rparr>, s)
      else if mark_start \<le> mtime + 2 then (r, s)
      else if gp_dry_run policy then
        (r\<lparr>gr_swept_objects := gr_swept_objects r + 1, gr_swept_bytes := gr_swept_bytes r + of_nat sz\<rparr>, s)
      else case remove_object_if_older_than h (mark_start - 2) s of
        (Removed, s) \<Rightarrow>
          (r\<lparr>gr_swept_objects := gr_swept_objects r + 1, gr_swept_bytes := gr_swept_bytes r + of_nat sz\<rparr>, s)
      | (Skipped, s) \<Rightarrow> (r, s)
      | (RemoveError e, s) \<Rightarrow>
          (r\<lparr>gr_sweep_errors := gr_sweep_errors r + 1,
             gr_error := (if length (gr_error r) < 2000 then append_message (gr_error r) e else gr_error r)\<rparr>, s))"

text \<open>\<open>duration_ms\<close>, a measurement of the clock, is the argument \<open>elapsed\<close>.\<close>

definition gc_run ::
  "u64 \<Rightarrow> refs \<Rightarrow> state_dir \<Rightarrow> gc_live_roots \<Rightarrow> gc_policy \<Rightarrow> store \<Rightarrow> (gc_result \<times> store) option" where
  "gc_run elapsed r d roots policy s =
     (let mark_start = s_now s in
      case mark_impl r d roots policy (mark_new None gc_result_new) s of
        None \<Rightarrow> None
      | Some (Some e, m, s) \<Rightarrow> Some ((ms_stats m)\<lparr>gr_error := e\<rparr>, s)
      | Some (None, m, s) \<Rightarrow>
          (case for_each_object (sweep_object (ms_marked m) policy mark_start) (ms_stats m, s) of (enum, res, s) \<Rightarrow>
           (let res = (case enum of None \<Rightarrow> res | Some e \<Rightarrow> res\<lparr>gr_error := append_message (gr_error res) e\<rparr>);
                s = (if \<not> gp_dry_run policy \<and> 0 < gr_swept_objects res then clear_size_cache s else s)
            in Some (res\<lparr>gr_duration_ms := elapsed, gr_ok := enum = None \<and> gr_sweep_errors res = 0\<rparr>, s))))"

definition missing_message :: "hash \<Rightarrow> string \<Rightarrow> string" where
  "missing_message h e =
     (if length e < 2000 then e @ (if e = [] then ''missing: '' else '', '') @ hash_to_hex h else e)"

fun check_marked :: "hash list \<Rightarrow> gc_result \<Rightarrow> gc_result io" where
  "check_marked [] r s = (r, s)"
| "check_marked (h # hs) r s =
     (let r = r\<lparr>gr_marked_objects := gr_marked_objects r + 1\<rparr> in
      case object_exists h s of
        (True, s) \<Rightarrow> check_marked hs r s
      | (False, s) \<Rightarrow>
          check_marked hs (r\<lparr>gr_missing_objects := gr_missing_objects r + 1, gr_missing := gr_missing r @ [h],
            gr_error := missing_message h (gr_error r)\<rparr>) s)"

text \<open>\<open>r.missing\<close>, to which the traversal has a pointer.\<close>

definition missing_list :: "mark \<Rightarrow> hash list" where
  "missing_list m = (case ms_missing m of None \<Rightarrow> [] | Some hs \<Rightarrow> hs)"

definition gc_verify ::
  "refs \<Rightarrow> state_dir \<Rightarrow> gc_live_roots \<Rightarrow> gc_policy \<Rightarrow> store \<Rightarrow> (gc_result \<times> store) option" where
  "gc_verify r d roots policy s =
     (case mark_impl r d roots policy (mark_new (Some []) gc_result_new) s of
        None \<Rightarrow> None
      | Some (Some e, m, s) \<Rightarrow>
          (let missing = sort (remdups (missing_list m)) in
           Some ((ms_stats m)\<lparr>gr_missing := missing, gr_missing_objects := of_nat (length missing), gr_error := e\<rparr>, s))
      | Some (None, m, s) \<Rightarrow>
          (case check_marked (sorted_list_of_set (ms_marked m))
                  ((ms_stats m)\<lparr>gr_missing := missing_list m\<rparr>) s of (res, s) \<Rightarrow>
           Some (res\<lparr>gr_missing := sort (gr_missing res), gr_ok := gr_missing_objects res = 0\<rparr>, s)))"

end
