(* ===== verification/GcMark.thy ===== *)
theory GcMark
  imports Gc
begin

text \<open>
  What the mark phase computes. The objects of a store form a graph whose nodes say in which
  role an object is needed; the mark phase has to find the nodes reachable from its roots. The
  invariant \<open>grown\<close> says that whatever a mark function adds to the traversal sets is finished:
  all its links are covered. It composes, so each function has one lemma of the same form.
\<close>

section \<open>The graph of objects\<close>

definition tree_at :: "store \<Rightarrow> hash \<Rightarrow> (string \<times> entry) list option" where
  "tree_at s h = Option.bind (payload ''tree'' s h) deserialize_tree_entries"

definition record_at :: "store \<Rightarrow> hash \<Rightarrow> agent_state_record option" where
  "record_at s h = (case map_option deserialize_agent_state_record (Option.bind (payload ''blob'' s h) blob_payload) of
     Some (Inr r) \<Rightarrow> Some (r\<lparr>as_state_id := hash_to_hex h\<rparr>) | _ \<Rightarrow> None)"

definition union_at :: "store \<Rightarrow> hash \<Rightarrow> union_runtime_state option" where
  "union_at s h = (case map_option deserialize_union_runtime_state (Option.bind (payload ''blob'' s h) blob_payload) of
     Some (Inr r) \<Rightarrow> Some (r\<lparr>us_union_state_id := hash_to_hex h\<rparr>) | _ \<Rightarrow> None)"

text \<open>\<open>NCommit\<close> keeps a commit object and its history, \<open>NData\<close> its tree as well.\<close>

datatype node = NCommit (node_hash: hash) | NData (node_hash: hash) | NTree (node_hash: hash)
  | NBlob (node_hash: hash) | NRecord (node_hash: hash) | NUnion (node_hash: hash)

definition link :: "(hash \<Rightarrow> node) \<Rightarrow> string \<Rightarrow> node set" where
  "link C sid = C ` set_option (hex_to_hash_strict sid)"

definition entry_nodes :: "entry \<Rightarrow> node set" where
  "entry_nodes e = (if e_kind e = Tree then {NTree (e_hash e)}
     else if e_kind e \<noteq> Deleted \<and> e_hash e \<noteq> ZERO_HASH then {NBlob (e_hash e)} else {})"

definition commit_nodes :: "hash \<Rightarrow> node set" where
  "commit_nodes c = (if c = ZERO_HASH then {} else {NCommit c, NData c})"

text \<open>A commit whose data the policy keeps wherever it stands in the history.\<close>

definition kept_by_policy :: "gc_policy \<Rightarrow> commit_data \<Rightarrow> bool" where
  "kept_by_policy p cd \<longleftrightarrow> gp_keep_last p = None \<or> cd_label cd \<in> set (gp_keep_labels p)"

fun links :: "store \<Rightarrow> gc_policy \<Rightarrow> node \<Rightarrow> node set" where
  "links s p (NCommit c) = (case commit_at s c of None \<Rightarrow> {}
     | Some cd \<Rightarrow> NCommit ` set (cd_parents cd) \<union> (if kept_by_policy p cd then {NData c} else {}))"
| "links s p (NData c) = (case commit_at s c of None \<Rightarrow> {} | Some cd \<Rightarrow> {NTree (cd_tree_hash cd)})"
| "links s p (NTree t) = (case tree_at s t of None \<Rightarrow> {} | Some es \<Rightarrow> \<Union> (entry_nodes ` snd ` set es))"
| "links s p (NBlob b) = {}"
| "links s p (NRecord r) = (case record_at s r of None \<Rightarrow> {}
     | Some rec \<Rightarrow> link NBlob (as_payload_ref rec) \<union> NBlob ` set (as_dependency_hashes rec) \<union>
         commit_nodes (as_fs_commit rec) \<union> link NUnion (as_union_state_id rec) \<union>
         link NRecord (as_parent_state_id rec) \<union> link NRecord (as_snapshot_base_state_id rec))"
| "links s p (NUnion u) = (case union_at s u of None \<Rightarrow> {}
     | Some us \<Rightarrow> commit_nodes (us_fs_commit us) \<union> link NBlob (us_command_ref us) \<union>
         link NBlob (us_resource_manifest_ref us) \<union> link NRecord (us_agent_state_id us) \<union>
         link NUnion (us_parent_union_state_id us))"

definition bad_id :: "string \<Rightarrow> bool" where
  "bad_id sid \<longleftrightarrow> sid \<noteq> [] \<and> hex_to_hash_strict sid = None"

fun unreadable :: "store \<Rightarrow> node \<Rightarrow> bool" where
  "unreadable s (NCommit c) = (commit_at s c = None)"
| "unreadable s (NData c) = (commit_at s c = None)"
| "unreadable s (NTree t) = (tree_at s t = None)"
| "unreadable s (NBlob b) = False"
| "unreadable s (NRecord r) = (case record_at s r of None \<Rightarrow> True
     | Some rec \<Rightarrow> \<exists>sid \<in> {as_payload_ref rec, as_union_state_id rec, as_parent_state_id rec, as_snapshot_base_state_id rec}. bad_id sid)"
| "unreadable s (NUnion u) = (case union_at s u of None \<Rightarrow> True
     | Some us \<Rightarrow> \<exists>sid \<in> {us_agent_state_id us, us_parent_union_state_id us}. bad_id sid)"

text \<open>The object of a node is missing or does not parse.\<close>

fun corrupt :: "store \<Rightarrow> node \<Rightarrow> bool" where
  "corrupt s (NCommit c) = (commit_at s c = None)"
| "corrupt s (NData c) = (commit_at s c = None)"
| "corrupt s (NTree t) = (tree_at s t = None)"
| "corrupt s (NBlob b) = False"
| "corrupt s (NRecord r) = (record_at s r = None)"
| "corrupt s (NUnion u) = (union_at s u = None)"

section \<open>The invariant of the mark phase\<close>

definition tracked :: "mark \<Rightarrow> node set" where
  "tracked m = NTree ` ms_trees m \<union> NRecord ` ms_records m \<union> NUnion ` ms_unions m"

text \<open>The history of \<open>c\<close> is marked, and the data the policy keeps is retained.\<close>

definition history_marked :: "store \<Rightarrow> gc_policy \<Rightarrow> mark \<Rightarrow> hash \<Rightarrow> bool" where
  "history_marked s p m c \<longleftrightarrow> (\<forall>a \<in> ancestors s c. a \<in> ms_marked m \<and> commit_at s a \<noteq> None \<and>
     (\<forall>cd. commit_at s a = Some cd \<and> kept_by_policy p cd \<longrightarrow> a \<in> set (ms_retained m)))"

definition covered :: "store \<Rightarrow> gc_policy \<Rightarrow> mark \<Rightarrow> node set" where
  "covered s p m = tracked m \<union> NBlob ` ms_marked m \<union> NData ` set (ms_retained m) \<union>
     NCommit ` {c. history_marked s p m c}"

definition mark_le :: "mark \<Rightarrow> mark \<Rightarrow> bool" where
  "mark_le m m' \<longleftrightarrow> ms_marked m \<subseteq> ms_marked m' \<and> set (ms_retained m) \<subseteq> set (ms_retained m') \<and>
     ms_trees m \<subseteq> ms_trees m' \<and> ms_records m \<subseteq> ms_records m' \<and> ms_unions m \<subseteq> ms_unions m' \<and>
     ms_missing m' = ms_missing m"

definition grown :: "store \<Rightarrow> gc_policy \<Rightarrow> mark \<Rightarrow> mark \<Rightarrow> bool" where
  "grown s p m m' \<longleftrightarrow> mark_le m m' \<and>
     (\<forall>v \<in> tracked m' - tracked m. links s p v \<subseteq> covered s p m' \<and> node_hash v \<in> ms_marked m' \<and> \<not> corrupt s v)"

text \<open>Everything in the mark state is in \<open>N\<close>.\<close>

definition mark_inv :: "store \<Rightarrow> node set \<Rightarrow> mark \<Rightarrow> bool" where
  "mark_inv s N m \<longleftrightarrow> tracked m \<union> NData ` set (ms_retained m) \<subseteq> N \<and> ms_marked m \<subseteq> node_hash ` N \<and>
     set (ms_retained m) \<subseteq> ms_marked m"

text \<open>What is reported missing is, and the result is still open.\<close>

definition missing_ok :: "store \<Rightarrow> mark \<Rightarrow> bool" where
  "missing_ok s m \<longleftrightarrow> \<not> gr_ok (ms_stats m) \<and> gr_error (ms_stats m) = [] \<and> gr_sweep_errors (ms_stats m) = 0 \<and>
     gr_missing_objects (ms_stats m) = 0 \<and> gr_missing (ms_stats m) = [] \<and> (s_io s = [] \<longrightarrow> (\<forall>hs. ms_missing m = Some hs \<longrightarrow> (\<forall>h \<in> set hs. find_object s h = None)))"

text \<open>The contract of a mark function, from \<open>m\<close>, on the store \<open>s0\<close> at the start; without faults it fails
  only if \<open>F\<close>.\<close>

definition marks :: "store \<Rightarrow> gc_policy \<Rightarrow> node set \<Rightarrow> bool \<Rightarrow> mark \<Rightarrow> (mark \<Rightarrow> bool) \<Rightarrow> mark_res \<Rightarrow> bool" where
  "marks s0 p N F m G r \<longleftrightarrow> (case r of None \<Rightarrow> False
     | Some (e, m', s') \<Rightarrow> only_io s0 s' \<and> missing_ok s0 m' \<and>
         (case e of None \<Rightarrow> grown s0 p m m' \<and> mark_inv s0 N m' \<and> G m' | Some _ \<Rightarrow> s_io s0 = [] \<longrightarrow> F))"

lemma mark_le_refl [simp]: "mark_le m m"
  by (simp add: mark_le_def)

lemma mark_le_trans: "mark_le a b \<Longrightarrow> mark_le b c \<Longrightarrow> mark_le a c"
  by (auto simp: mark_le_def)

lemma tracked_mono: "mark_le m m' \<Longrightarrow> tracked m \<subseteq> tracked m'"
  by (auto simp: mark_le_def tracked_def)

lemma covered_mono: "mark_le m m' \<Longrightarrow> covered s p m \<subseteq> covered s p m'"
proof -
  assume le: "mark_le m m'"
  have "history_marked s p m' c" if "history_marked s p m c" for c
    using le that unfolding mark_le_def history_marked_def by blast
  then show ?thesis using tracked_mono [OF le] le by (auto simp: covered_def mark_le_def)
qed

lemma grown_refl [simp]: "grown s p m m"
  by (simp add: grown_def)

lemma grown_le: "grown s p m m' \<Longrightarrow> mark_le m m'"
  by (simp add: grown_def)

lemma grown_trans: "grown s p a b \<Longrightarrow> grown s p b c \<Longrightarrow> grown s p a c"
proof -
  assume g: "grown s p a b" "grown s p b c"
  have le: "mark_le b c" "mark_le a c" using g grown_le mark_le_trans by blast+
  have "links s p v \<subseteq> covered s p c \<and> node_hash v \<in> ms_marked c \<and> \<not> corrupt s v" if v: "v \<in> tracked c - tracked a" for v
  proof (cases "v \<in> tracked b")
    case True
    with v g(1) have "links s p v \<subseteq> covered s p b" "node_hash v \<in> ms_marked b" "\<not> corrupt s v" by (auto simp: grown_def)
    with covered_mono [OF le(1)] le(1) show ?thesis by (auto simp: mark_le_def)
  next
    case False
    with v g(2) show ?thesis by (auto simp: grown_def)
  qed
  with le(2) show ?thesis by (simp add: grown_def)
qed

text \<open>A step that tracks no new node is only growth.\<close>

lemma grown_flat: "mark_le m m' \<Longrightarrow> tracked m' = tracked m \<Longrightarrow> grown s p m m'"
  by (simp add: grown_def)

lemma marks_ok: "marks s0 p N F m G (mark_ok m' s') \<longleftrightarrow>
    only_io s0 s' \<and> missing_ok s0 m' \<and> grown s0 p m m' \<and> mark_inv s0 N m' \<and> G m'"
  by (simp add: marks_def mark_ok_def)

lemma marks_fail: "marks s0 p N F m G (mark_fail e m' s') \<longleftrightarrow> only_io s0 s' \<and> missing_ok s0 m' \<and> (s_io s0 = [] \<longrightarrow> F)"
  by (simp add: marks_def mark_fail_def)

lemma marks_then:
  assumes "marks s0 p N F m G r"
    and "\<And>m' s'. r = Some (None, m', s') \<Longrightarrow> only_io s0 s' \<Longrightarrow> missing_ok s0 m' \<Longrightarrow> grown s0 p m m' \<Longrightarrow> mark_inv s0 N m' \<Longrightarrow> G m' \<Longrightarrow> marks s0 p N F m' G' (k m' s')"
  shows "marks s0 p N F m G' (mark_then r k)"
proof -
  obtain e m1 s1 where r: "r = Some (e, m1, s1)" using assms(1) by (auto simp: marks_def split: option.splits)
  show ?thesis
  proof (cases e)
    case None
    then have g: "grown s0 p m m1" and m: "marks s0 p N F m1 G' (k m1 s1)" using assms r by (auto simp: marks_def)
    obtain e2 m2 s2 where k: "k m1 s1 = Some (e2, m2, s2)" using m by (auto simp: marks_def split: option.splits)
    show ?thesis using m g r None k grown_trans [OF g] by (auto simp: marks_def mark_then_def split: option.splits)
  next
    case (Some x)
    then show ?thesis using assms(1) r by (simp add: marks_def mark_then_def)
  qed
qed

lemma marks_weaken: "marks s0 p N F m G r \<Longrightarrow> (\<And>m'. mark_le m m' \<Longrightarrow> G m' \<Longrightarrow> G' m') \<Longrightarrow> marks s0 p N F m G' r"
  using grown_le by (auto simp: marks_def split: option.splits)

lemma marks_from: "grown s0 p m m1 \<Longrightarrow> marks s0 p N F m1 G r \<Longrightarrow> marks s0 p N F m G r"
  using grown_trans by (auto simp: marks_def split: option.splits)

text \<open>A node that is tracked first and finished afterwards.\<close>

lemma marks_track:
  assumes "marks s0 p N F m1 (\<lambda>m'. links s0 p v \<subseteq> covered s0 p m' \<and> node_hash v \<in> ms_marked m') r"
    and "mark_le m m1" "tracked m1 = insert v (tracked m)" "\<not> corrupt s0 v"
  shows "marks s0 p N F m (\<lambda>m'. v \<in> tracked m') r"
proof -
  obtain e m' s' where r: "r = Some (e, m', s')" using assms(1) by (auto simp: marks_def split: option.splits)
  show ?thesis
  proof (cases e)
    case None
    then have g: "grown s0 p m1 m'" "links s0 p v \<subseteq> covered s0 p m' \<and> node_hash v \<in> ms_marked m'"
      and rest: "only_io s0 s'" "missing_ok s0 m'" "mark_inv s0 N m'"
      using assms(1) r by (auto simp: marks_def)
    have le: "mark_le m m'" using mark_le_trans [OF assms(2) grown_le [OF g(1)]] .
    have "links s0 p w \<subseteq> covered s0 p m' \<and> node_hash w \<in> ms_marked m' \<and> \<not> corrupt s0 w" if "w \<in> tracked m' - tracked m" for w
    proof (cases "w = v")
      case False
      then have "w \<in> tracked m' - tracked m1" using that assms(3) by simp
      with g(1) show ?thesis unfolding grown_def by blast
    qed (use g(2) assms(4) in simp)
    then have "grown s0 p m m'" using le unfolding grown_def by blast
    moreover have "v \<in> tracked m'" using tracked_mono [OF grown_le [OF g(1)]] assms(3) by blast
    ultimately show ?thesis using rest r None by (simp add: marks_def)
  next
    case (Some x)
    with assms(1) r show ?thesis by (simp add: marks_def)
  qed
qed

lemma object_exists_spec: "object_exists h s = (b, s') \<Longrightarrow> only_io s s' \<and> (s_io s = [] \<longrightarrow> b = (find_object s h \<noteq> None))"
  by (auto simp: object_exists_def next_io_def only_io_def split: list.splits option.splits intro: exI [of _ "s_io s"])

lemma marks_missing:
  assumes "only_io s0 s" "missing_ok s0 m'" "s_io s0 = [] \<Longrightarrow> F"
  shows "marks s0 p N F m G (fail_missing h e m' s)"
proof -
  obtain b t where b: "object_exists h s = (b, t)" by fastforce
  note ex = object_exists_spec [OF b]
  have "only_io s0 t" using assms(1) ex only_io_trans by blast
  moreover have "s_io s0 = [] \<Longrightarrow> s = s0" using assms(1) by (auto simp: only_io_def)
  ultimately show ?thesis using assms b ex
    by (auto simp: fail_missing_def record_missing_hash_def marks_fail missing_ok_def split: option.split)
qed


section \<open>Reading\<close>

abbreviation stored :: "store \<Rightarrow> hash set" where
  "stored s \<equiv> {h. find_object s h \<noteq> None}"

lemma only_io_payload: "only_io s s' \<Longrightarrow> payload tag s' h = payload tag s h"
  by (simp add: payload_def only_io_same(3))

lemma read_object_spec:
  assumes "only_io s0 s" "read_object h tag s = (r, s')"
  shows "only_io s0 s'" "r = Some b \<Longrightarrow> payload tag s0 h = Some b" "r = Some b \<Longrightarrow> h \<in> stored s0"
    "s_io s0 = [] \<Longrightarrow> r = payload tag s0 h"
proof -
  note ro = read_object_same [OF assms(2)]
  have "only_io s s'" using ro(4,5) by (auto simp: only_io_def)
  then show "only_io s0 s'" using assms(1) only_io_trans by blast
  show p: "payload tag s0 h = Some b" if "r = Some b" using ro(3) that only_io_payload [OF assms(1)] by auto
  show "h \<in> stored s0" if "r = Some b" using p [OF that] by (auto simp: payload_def split: option.splits)
  show "r = payload tag s0 h" if "s_io s0 = []"
    using ro(4) that assms(1) only_io_payload [OF assms(1)] by (auto simp: only_io_def)
qed

lemma read_blob_spec:
  assumes "only_io s0 s" "read_blob h s = (r, s')"
  shows "only_io s0 s'" "r = Some b \<Longrightarrow> Option.bind (payload ''blob'' s0 h) blob_payload = Some b"
    "r = Some b \<Longrightarrow> h \<in> stored s0" "s_io s0 = [] \<Longrightarrow> r = Option.bind (payload ''blob'' s0 h) blob_payload"
proof -
  note ro = read_blob_same [OF assms(2)]
  have "only_io s s'" using ro(4,5) by (auto simp: only_io_def)
  then show "only_io s0 s'" using assms(1) only_io_trans by blast
  show p: "Option.bind (payload ''blob'' s0 h) blob_payload = Some b" if "r = Some b"
    using ro(3) that only_io_payload [OF assms(1)] by auto
  show "h \<in> stored s0" if "r = Some b" using p [OF that] by (auto simp: payload_def split: option.splits)
  show "r = Option.bind (payload ''blob'' s0 h) blob_payload" if "s_io s0 = []"
    using ro(4) that assms(1) only_io_payload [OF assms(1)] by (auto simp: only_io_def)
qed

lemma read_agent_spec:
  assumes "only_io s0 s" "read_agent_state_record h s = (r, s')"
  shows "only_io s0 s'" "r = Inr rec \<Longrightarrow> record_at s0 h = Some rec \<and> h \<in> stored s0"
    "s_io s0 = [] \<Longrightarrow> r = Inl e \<Longrightarrow> record_at s0 h = None"
proof -
  obtain b t where b: "read_blob h s = (b, t)" by fastforce
  note rb = read_blob_spec [OF assms(1) b]
  have "s' = t" using assms(2) b by (auto simp: read_agent_state_record_def split: option.splits)
  then show "only_io s0 s'" using rb(1) by simp
  show "record_at s0 h = Some rec \<and> h \<in> stored s0" if rr: "r = Inr rec"
  proof -
    obtain body where body: "b = Some body" using rr assms(2) b by (cases b) (auto simp: read_agent_state_record_def)
    show ?thesis
      using rr assms(2) b body rb(2,3) [OF body]
      by (cases "deserialize_agent_state_record body") (auto simp: read_agent_state_record_def record_at_def)
  qed
  show "record_at s0 h = None" if "s_io s0 = []" "r = Inl e"
    using that assms(2) b rb(4)
    by (auto simp: read_agent_state_record_def record_at_def split: option.splits sum.splits)
qed

lemma read_union_spec:
  assumes "only_io s0 s" "read_union_runtime_state h s = (r, s')"
  shows "only_io s0 s'" "r = Inr rec \<Longrightarrow> union_at s0 h = Some rec \<and> h \<in> stored s0"
    "s_io s0 = [] \<Longrightarrow> r = Inl e \<Longrightarrow> union_at s0 h = None"
proof -
  obtain b t where b: "read_blob h s = (b, t)" by fastforce
  note rb = read_blob_spec [OF assms(1) b]
  have "s' = t" using assms(2) b by (auto simp: read_union_runtime_state_def split: option.splits)
  then show "only_io s0 s'" using rb(1) by simp
  show "union_at s0 h = Some rec \<and> h \<in> stored s0" if rr: "r = Inr rec"
  proof -
    obtain body where body: "b = Some body" using rr assms(2) b by (cases b) (auto simp: read_union_runtime_state_def)
    show ?thesis
      using rr assms(2) b body rb(2,3) [OF body]
      by (cases "deserialize_union_runtime_state body") (auto simp: read_union_runtime_state_def union_at_def)
  qed
  show "union_at s0 h = None" if "s_io s0 = []" "r = Inl e"
    using that assms(2) b rb(4)
    by (auto simp: read_union_runtime_state_def union_at_def split: option.splits sum.splits)
qed

section \<open>Trees\<close>

text \<open>A set of nodes closed under links, in which only \<open>F\<close> permits an unreadable node.\<close>

definition closed_nodes :: "store \<Rightarrow> gc_policy \<Rightarrow> node set \<Rightarrow> bool \<Rightarrow> bool" where
  "closed_nodes s p N F \<longleftrightarrow> (\<forall>v \<in> N. links s p v \<subseteq> N \<and> (unreadable s v \<longrightarrow> F))"

lemma closed_broken: "closed_nodes s p N F \<Longrightarrow> v \<in> N \<Longrightarrow> unreadable s v \<Longrightarrow> F"
  by (auto simp: closed_nodes_def)

lemma mark_hash_sel [simp]:
  "ms_marked (mark_hash h m) = insert h (ms_marked m)" "ms_trees (mark_hash h m) = ms_trees m"
  "ms_records (mark_hash h m) = ms_records m" "ms_unions (mark_hash h m) = ms_unions m"
  "ms_retained (mark_hash h m) = ms_retained m" "ms_missing (mark_hash h m) = ms_missing m"
  "ms_stats (mark_hash h m) = ms_stats m"
  by (simp_all add: mark_hash_def)

lemma mark_hash_tracked [simp]: "tracked (mark_hash h m) = tracked m"
  by (simp add: tracked_def)

lemma mark_hash_le [simp]: "mark_le m (mark_hash h m)"
  by (auto simp: mark_le_def)

lemma mark_hash_grown [simp]: "grown s p m (mark_hash h m)"
  by (rule grown_flat) simp_all

lemma mark_hash_inv: "mark_inv s N m \<Longrightarrow> h \<in> node_hash ` N \<Longrightarrow> mark_inv s N (mark_hash h m)"
  by (auto simp: mark_inv_def)

lemma mark_hash_missing [simp]: "missing_ok s (mark_hash h m) = missing_ok s m"
  by (simp add: missing_ok_def)

lemma stored_less:
  assumes "h \<in> stored s" "h \<notin> A" "card (stored s - A) < Suc n"
  shows "card (stored s - insert h A) < n"
proof -
  have "stored s - insert h A = (stored s - A) - {h}" by blast
  then have "card (stored s - insert h A) = card (stored s - A) - 1" using assms(1,2) by simp
  moreover have "0 < card (stored s - A)"
    using assms(1,2) finite_stored [of s] by (auto simp: card_gt_0_iff)
  ultimately show ?thesis using assms(3) by simp
qed

lemma stored_mono: "A \<subseteq> B \<Longrightarrow> card (stored s - A) < n \<Longrightarrow> card (stored s - B) < n"
proof -
  assume "A \<subseteq> B" "card (stored s - A) < n"
  moreover have "card (stored s - B) \<le> card (stored s - A)"
    using finite_stored [of s] \<open>A \<subseteq> B\<close> by (intro card_mono) auto
  ultimately show ?thesis by simp
qed

lemma mark_tree_spec:
  "only_io s0 s \<Longrightarrow> mark_inv s0 N m \<Longrightarrow> missing_ok s0 m \<Longrightarrow> closed_nodes s0 p N F \<Longrightarrow> NTree t \<in> N \<Longrightarrow>
     card (stored s0 - ms_trees m) < n \<Longrightarrow>
     marks s0 p N F m (\<lambda>m'. t \<in> ms_trees m') (mark_tree_recursive n t m s)"
  "only_io s0 s \<Longrightarrow> mark_inv s0 N m \<Longrightarrow> missing_ok s0 m \<Longrightarrow> closed_nodes s0 p N F \<Longrightarrow> \<Union> (entry_nodes ` snd ` set es) \<subseteq> N \<Longrightarrow>
     card (stored s0 - ms_trees m) < n \<Longrightarrow>
     marks s0 p N F m (\<lambda>m'. \<Union> (entry_nodes ` snd ` set es) \<subseteq> covered s0 p m') (mark_entries n es m s)"
proof (induction n t m s and n es m s rule: mark_tree_recursive_mark_entries.induct)
  case (1 t m s)
  then show ?case by simp
next
  case (2 n t m s)
  show ?case
  proof (cases "t \<in> ms_trees m")
    case True
    with 2 show ?thesis by (simp add: marks_ok)
  next
    case False
    define m1 where "m1 = mark_hash t (m\<lparr>ms_trees := insert t (ms_trees m)\<rparr>)"
    obtain r s1 where r: "read_tree t s = (r, s1)" by fastforce
    note ro = read_object_spec [OF 2(2) r [unfolded read_tree_def]]
    have ok: "missing_ok s0 m1" using 2(4) by (simp add: m1_def missing_ok_def)
    have "t \<in> node_hash ` N" using 2(6) by (metis imageI node.sel(3))
    then have inv: "mark_inv s0 N m1" using 2(3,6) by (simp add: m1_def mark_inv_def tracked_def) blast
    have br: "s_io s0 = [] \<Longrightarrow> tree_at s0 t = None \<Longrightarrow> F" 
      by (rule closed_broken [OF 2(5) 2(6)]) simp
    show ?thesis
    proof (cases r)
      case None
      have "marks s0 p N F m (\<lambda>m'. t \<in> ms_trees m') (fail_missing t (''mark: tree object missing: '' @ hash_to_hex t) m1 s1)"
        using ro(4) None br by (intro marks_missing ro(1) ok) (simp add: tree_at_def)
      then show ?thesis using False r None by (simp add: m1_def Let_def)
    next
      case (Some body)
      have at: "tree_at s0 t = deserialize_tree_entries body" using ro(2) [OF Some] by (simp add: tree_at_def)
      show ?thesis
      proof (cases "deserialize_tree_entries body")
        case None
        have "marks s0 p N F m (\<lambda>m'. t \<in> ms_trees m') (mark_fail (''mark: corrupt tree object: '' @ hash_to_hex t) m1 s1)"
          using br at None ro(1) ok by (simp add: marks_fail)
        then show ?thesis using False r Some None by (simp add: m1_def Let_def)
      next
        case es: (Some es)
        have lk: "links s0 p (NTree t) = \<Union> (entry_nodes ` snd ` set es)" using at es by simp
        have sub: "\<Union> (entry_nodes ` snd ` set es) \<subseteq> N" using 2(5,6) unfolding closed_nodes_def lk [symmetric] by blast
        have "card (stored s0 - ms_trees m1) < n"
          using stored_less [OF ro(3) [OF Some] False 2(7)] by (simp add: m1_def)
        from 2(1) [OF False m1_def r [symmetric] Some es ro(1) inv ok 2(5) sub this]
        have ih: "marks s0 p N F m1 (\<lambda>m'. \<Union> (entry_nodes ` snd ` set es) \<subseteq> covered s0 p m') (mark_entries n es m1 s1)" by simp
        have "marks s0 p N F m (\<lambda>m'. NTree t \<in> tracked m') (mark_entries n es m1 s1)"
        proof (rule marks_track [OF marks_weaken [OF ih]])
          show "links s0 p (NTree t) \<subseteq> covered s0 p m' \<and> node_hash (NTree t) \<in> ms_marked m'"
            if "mark_le m1 m'" "\<Union> (entry_nodes ` snd ` set es) \<subseteq> covered s0 p m'" for m'
            using that lk by (auto simp: mark_le_def m1_def)
          show "mark_le m m1" "tracked m1 = insert (NTree t) (tracked m)" "\<not> corrupt s0 (NTree t)"
            using at es by (auto simp: mark_le_def m1_def tracked_def)
        qed
        then have "marks s0 p N F m (\<lambda>m'. t \<in> ms_trees m') (mark_entries n es m1 s1)"
          by (rule marks_weaken) (auto simp: tracked_def)
        then show ?thesis using False r Some es by (simp add: m1_def Let_def)
      qed
    qed
  qed
next
  case (3 n m s)
  then show ?case by (simp add: marks_ok)
next
  case (4 n name e es m s)
  show ?case
  proof (cases "e_kind e = Tree")
    case True
    then have "NTree (e_hash e) \<in> N" using 4(8) by (auto simp: entry_nodes_def)
    note t = 4(1) [OF True 4(4-7) this 4(9)]
    have "marks s0 p N F m (\<lambda>m'. \<Union> (entry_nodes ` snd ` set ((name, e) # es)) \<subseteq> covered s0 p m')
        (mark_then (mark_tree_recursive n (e_hash e) m s) (mark_entries n es))"
    proof (rule marks_then [OF t])
      fix m' s'
      assume a: "mark_tree_recursive n (e_hash e) m s = Some (None, m', s')" "only_io s0 s'" "missing_ok s0 m'"
        "grown s0 p m m'" "mark_inv s0 N m'" "e_hash e \<in> ms_trees m'"
      have c: "card (stored s0 - ms_trees m') < n"
        by (rule stored_mono [OF _ 4(9)]) (use grown_le [OF a(4)] in \<open>simp add: mark_le_def\<close>)
      have es: "\<Union> (entry_nodes ` snd ` set es) \<subseteq> N" using 4(8) by simp
      have e: "entry_nodes e \<subseteq> covered s0 p m''" if "mark_le m' m''" for m''
        using a(6) that True by (auto simp: entry_nodes_def covered_def tracked_def mark_le_def)
      show "marks s0 p N F m' (\<lambda>m'. \<Union> (entry_nodes ` snd ` set ((name, e) # es)) \<subseteq> covered s0 p m') (mark_entries n es m' s')"
        by (rule marks_weaken [OF 4(2) [OF True a(1) a(2,5,3) 4(7) es c]]) (use e in simp)
    qed
    then show ?thesis using True by simp
  next
    case False
    let ?m = "if e_kind e \<noteq> Deleted \<and> e_hash e \<noteq> ZERO_HASH then mark_hash (e_hash e) m else m"
    have nodes: "entry_nodes e = (if e_kind e \<noteq> Deleted \<and> e_hash e \<noteq> ZERO_HASH then {NBlob (e_hash e)} else {})"
      using False by (simp add: entry_nodes_def)
    have es: "\<Union> (entry_nodes ` snd ` set es) \<subseteq> N" "entry_nodes e \<subseteq> N" using 4(8) by simp_all
    have "e_hash e \<in> node_hash ` N" if "e_kind e \<noteq> Deleted \<and> e_hash e \<noteq> ZERO_HASH"
      using es(2) nodes that by (metis imageI insert_subset node.sel(4))
    then have "mark_inv s0 N ?m" using 4(5) mark_hash_inv by simp
    then have ih: "marks s0 p N F ?m (\<lambda>m'. \<Union> (entry_nodes ` snd ` set es) \<subseteq> covered s0 p m') (mark_entries n es ?m s)"
      using 4(4,6,7,9) es(1) by (intro 4(3) [OF False]) simp_all
    have "marks s0 p N F m (\<lambda>m'. \<Union> (entry_nodes ` snd ` set ((name, e) # es)) \<subseteq> covered s0 p m') (mark_entries n es ?m s)"
    proof (rule marks_from [OF _ marks_weaken [OF ih]])
      show "grown s0 p m ?m" by simp
      show "\<Union> (entry_nodes ` snd ` set ((name, e) # es)) \<subseteq> covered s0 p m'"
        if "mark_le ?m m'" "\<Union> (entry_nodes ` snd ` set es) \<subseteq> covered s0 p m'" for m'
        using that nodes by (auto simp: covered_def mark_le_def split: if_splits)
    qed
    then show ?thesis using False by simp
  qed
qed


lemma mark_commit_data_spec:
  assumes io: "only_io s0 s" and m: "mark_inv s0 N m" "missing_ok s0 m" and N: "closed_nodes s0 p N F" "NData c \<in> N"
    and n: "card (stored s0) < n"
  shows "marks s0 p N F m (\<lambda>m'. links s0 p (NData c) \<subseteq> tracked m' \<and> commit_at s0 c \<noteq> None) (mark_commit_data n c m s)"
proof -
  obtain r s1 where r: "read_commit c s = (r, s1)" by fastforce
  note ro = read_object_spec [OF io r [unfolded read_commit_def]]
  have br: "s_io s0 = [] \<Longrightarrow> commit_at s0 c = None \<Longrightarrow> F"
    by (rule closed_broken [OF N(1) N(2)]) simp
  show ?thesis
  proof (cases r)
    case None
    have "marks s0 p N F m G (fail_missing c e m s1)" for G e
      using ro(4) None br by (intro marks_missing ro(1) m(2)) (simp add: commit_at_def)
    then show ?thesis using r None by (simp add: mark_commit_data_def)
  next
    case (Some body)
    have at: "commit_at s0 c = decoded (deserialize_commit body)" using ro(2) [OF Some] by (simp add: commit_at_def)
    show ?thesis
    proof (cases "decoded (deserialize_commit body)")
      case None
      then show ?thesis using r Some br at ro(1) m(2) by (simp add: mark_commit_data_def marks_fail)
    next
      case cd: (Some cd)
      have lk: "links s0 p (NData c) = {NTree (cd_tree_hash cd)}" using at cd by simp
      have t: "NTree (cd_tree_hash cd) \<in> N" using N lk unfolding closed_nodes_def by blast
      have "card (stored s0 - ms_trees m) < n" by (rule stored_mono [of "{}"]) (use n in simp_all)
      from marks_weaken [OF mark_tree_spec(1) [OF ro(1) m N(1) t this]]
      have "marks s0 p N F m (\<lambda>m'. links s0 p (NData c) \<subseteq> tracked m' \<and> commit_at s0 c \<noteq> None)
          (mark_tree_recursive n (cd_tree_hash cd) m s1)"
        using lk at cd by (simp add: tracked_def)
      then show ?thesis using r Some cd by (simp add: mark_commit_data_def)
    qed
  qed
qed

section \<open>Commit chains\<close>

text \<open>The first-parent chain of \<open>c\<close>, its first \<open>n\<close> commits.\<close>

fun window :: "store \<Rightarrow> nat \<Rightarrow> hash \<Rightarrow> hash set" where
  "window s 0 c = {}"
| "window s (Suc n) c = insert c (case commit_at s c of None \<Rightarrow> {}
     | Some cd \<Rightarrow> (case cd_parents cd of [] \<Rightarrow> {} | p # _ \<Rightarrow> window s n p))"

definition head_window :: "store \<Rightarrow> gc_policy \<Rightarrow> hash \<Rightarrow> hash set" where
  "head_window s p c = (case gp_keep_last p of None \<Rightarrow> {c} | Some k \<Rightarrow> window s (unat (max 1 k)) c)"

lemma keep_last_window_spec:
  assumes "only_io s0 s" "keep_last_window n c K s = (K', s')"
  shows "only_io s0 s'" "K' \<subseteq> K \<union> window s0 n c" "s_io s0 = [] \<Longrightarrow> K' = K \<union> window s0 n c"
proof -
  have "only_io s0 s' \<and> K' \<subseteq> K \<union> window s0 n c \<and> (s_io s0 = [] \<longrightarrow> K' = K \<union> window s0 n c)"
    using assms
  proof (induction n arbitrary: c K s)
    case (Suc n)
    obtain r s1 where r: "read_commit c s = (r, s1)" by fastforce
    note ro = read_object_spec [OF Suc.prems(1) r [unfolded read_commit_def]]
    show ?case
    proof (cases r)
      case None
      then have "s_io s0 = [] \<Longrightarrow> commit_at s0 c = None" using ro(4) by (simp add: commit_at_def)
      then show ?thesis using Suc.prems r None ro(1) by auto
    next
      case (Some body)
      have at: "commit_at s0 c = decoded (deserialize_commit body)" using ro(2) [OF Some] by (simp add: commit_at_def)
      show ?thesis
      proof (cases "decoded (deserialize_commit body)")
        case None
        then show ?thesis using Suc.prems r Some ro(1) at by simp
      next
        case cd: (Some cd)
        show ?thesis
        proof (cases "cd_parents cd")
          case Nil
          then show ?thesis using Suc.prems r Some ro(1) at cd by simp
        next
          case (Cons q qs)
          then have "keep_last_window n q (insert c K) s1 = (K', s')" using Suc.prems(2) r Some cd by simp
          from Suc.IH [OF ro(1) this] show ?thesis using at cd Cons by auto
        qed
      qed
    qed
  qed simp
  then show "only_io s0 s'" "K' \<subseteq> K \<union> window s0 n c" "s_io s0 = [] \<Longrightarrow> K' = K \<union> window s0 n c" by blast+
qed

lemma window_ancestors: "window s n c \<subseteq> ancestors s c"
proof (induction n arbitrary: c)
  case (Suc n)
  have "window s n q \<subseteq> ancestors s c" if "commit_at s c = Some cd" "cd_parents cd = q # qs" for cd q qs
  proof -
    have "q \<in> ancestors s c"
      using reach_step [OF reach_root, of c "{c}" q "parents_of s"] that by (simp add: parents_of_def)
    then have "ancestors s q \<subseteq> ancestors s c" using reach_trans by fast
    with Suc.IH show ?thesis by blast
  qed
  then show ?case using reach_root [of c "{c}" "parents_of s"] by (auto split: option.splits list.splits)
qed simp


lemma mark_commit_props:
  "mark_le m (mark_commit b c m)" "tracked (mark_commit b c m) = tracked m" "c \<in> ms_marked (mark_commit b c m)"
  "b \<Longrightarrow> c \<in> set (ms_retained (mark_commit b c m))" "missing_ok s (mark_commit b c m) = missing_ok s m"
  by (auto simp: mark_commit_def Let_def mark_le_def tracked_def missing_ok_def)

lemma mark_commit_inv:
  assumes "mark_inv s N m" "NCommit c \<in> N" "b \<Longrightarrow> NData c \<in> N"
  shows "mark_inv s N (mark_commit b c m)"
proof -
  have "c \<in> node_hash ` N" using assms(2) by (metis imageI node.sel(1))
  then show ?thesis using assms by (cases b) (auto simp: mark_commit_def Let_def mark_inv_def tracked_def)
qed

definition chain_marked :: "store \<Rightarrow> hash set \<Rightarrow> (hash \<Rightarrow> commit_data \<Rightarrow> bool) \<Rightarrow> mark \<Rightarrow> bool" where
  "chain_marked s A retains m \<longleftrightarrow> (\<forall>a \<in> A. a \<in> ms_marked m \<and>
     (\<exists>cd. commit_at s a = Some cd \<and> (retains a cd \<longrightarrow> a \<in> set (ms_retained m))))"

lemma chain_marked_mono: "chain_marked s A f m \<Longrightarrow> mark_le m m' \<Longrightarrow> chain_marked s A f m'"
  unfolding chain_marked_def mark_le_def by blast

lemma ancestors_nodes:
  assumes "closed_nodes s p N F" "NCommit c \<in> N" "a \<in> ancestors s c"
  shows "NCommit a \<in> N"
proof -
  have step: "NCommit b \<in> N" if ab: "NCommit a \<in> N" "b \<in> parents_of s a" for a b
  proof -
    have "NCommit b \<in> links s p (NCommit a)" using ab(2) by (auto simp: parents_of_def split: option.splits)
    with assms(1) ab(1) show ?thesis unfolding closed_nodes_def by blast
  qed
  have "ancestors s c \<subseteq> {a. NCommit a \<in> N}"
    by (rule reach_least) (use assms(2) step in auto)
  with assms(3) show ?thesis by blast
qed

lemma chain_loop_spec:
  assumes "only_io s0 s" "mark_inv s0 N m" "missing_ok s0 m" "closed_nodes s0 p N F"
    and "NCommit head \<in> N" "NData ` insert head (if aw then K else {}) \<subseteq> N"
    and "explored (parents_of s0) {head} seen (set q)" "chain_marked s0 seen (retains_data head p aw K) m"
  shows "marks s0 p N F m (chain_marked s0 (ancestors s0 head) (retains_data head p aw K)) (chain_loop head p aw K q seen m s)"
proof -
  let ?G = "chain_marked s0 (ancestors s0 head) (retains_data head p aw K)"
  let ?M = "measures [\<lambda>(q, seen, m, s). card (stored s0 - seen), \<lambda>(q, seen, m, s). length q]"
  have "wf ?M" by simp
  then show ?thesis using assms(1-3,7,8)
  proof (induction "(q, seen, m, s)" arbitrary: q seen m s rule: wf_induct_rule)
    case less
    show ?case
    proof (cases q)
      case Nil
      then have "seen = ancestors s0 head" using less.prems(4) explored_done by fastforce
      then show ?thesis
        using Nil less.prems by (subst chain_loop.simps) (simp add: marks_ok)
    next
      case (Cons c q')
      show ?thesis
      proof (cases "c \<in> seen")
        case True
        have e: "explored (parents_of s0) {head} seen (set q')"
          using explored_skip [of "parents_of s0" "{head}" seen c "set q'"] less.prems(4) True Cons by simp
        have "chain_loop head p aw K q seen m s = chain_loop head p aw K q' seen m s"
          using True Cons by (subst chain_loop.simps) simp
        moreover have "((q', seen, m, s), (q, seen, m, s)) \<in> ?M" by (simp add: Cons)
        ultimately show ?thesis using less.hyps less.prems(1-3) e less.prems(5) by simp
      next
        case False
        have anc: "c \<in> ancestors s0 head" by (rule explored_work [OF less.prems(4)]) (simp add: Cons)
        have cN: "NCommit c \<in> N" by (rule ancestors_nodes [OF assms(4,5) anc])
        have br: "s_io s0 = [] \<Longrightarrow> commit_at s0 c = None \<Longrightarrow> F"
          by (rule closed_broken [OF assms(4) cN]) simp
        obtain r t where r: "read_commit c s = (r, t)" by fastforce
        note ro = read_object_spec [OF less.prems(1) r [unfolded read_commit_def]]
        note unfold = chain_loop.simps [of head p aw K q seen m s]
        show ?thesis
        proof (cases r)
          case None
          have "marks s0 p N F m ?G (fail_missing c e m t)" for e
            using ro(4) None br by (intro marks_missing ro(1) less.prems(3)) (simp add: commit_at_def)
          then show ?thesis using unfold r None Cons False by simp
        next
          case (Some body)
          have at: "commit_at s0 c = decoded (deserialize_commit body)" using ro(2) [OF Some] by (simp add: commit_at_def)
          show ?thesis
          proof (cases "decoded (deserialize_commit body)")
            case None
            then show ?thesis using unfold r Some Cons False br at ro(1) less.prems(3) by (simp add: marks_fail)
          next
            case cd: (Some cd)
            let ?b = "retains_data head p aw K c cd"
            let ?m = "mark_commit ?b c m" and ?q = "rev (cd_parents cd) @ q'"
            have kept: "NData c \<in> N" if "kept_by_policy p cd"
              using assms(4) cN at cd that unfolding closed_nodes_def by fastforce
            have "NData c \<in> N" if ?b
            proof (cases "kept_by_policy p cd")
              case False
              then have "c \<in> insert head (if aw then K else {})"
                using that by (auto simp: retains_data_def kept_by_policy_def split: if_splits)
              then show ?thesis using assms(6) by blast
            qed (rule kept)
            then have inv: "mark_inv s0 N ?m" by (rule mark_commit_inv [OF less.prems(2) cN])
            have ok: "missing_ok s0 ?m" using less.prems(3) by (simp add: mark_commit_props)
            have "explored (parents_of s0) {head} (insert c seen) (set q' \<union> parents_of s0 c)"
              using explored_expand [of "parents_of s0" "{head}" seen c "set q'"] less.prems(4) Cons by simp
            then have e: "explored (parents_of s0) {head} (insert c seen) (set ?q)"
              using at cd by (simp add: parents_of_def [of s0 c] Un_commute)
            have "chain_marked s0 seen (retains_data head p aw K) ?m"
              by (rule chain_marked_mono [OF less.prems(5) mark_commit_props(1)])
            then have cm: "chain_marked s0 (insert c seen) (retains_data head p aw K) ?m"
              using at cd mark_commit_props(3,4) by (auto simp: chain_marked_def)
            have "card (stored s0 - insert c seen) < card (stored s0 - seen)"
              using stored_less [OF ro(3) [OF Some] False] by simp
            then have "((?q, insert c seen, ?m, t), (q, seen, m, s)) \<in> ?M" by simp
            from less.hyps [OF this ro(1) inv ok e cm]
            have "marks s0 p N F ?m ?G (chain_loop head p aw K ?q (insert c seen) ?m t)" .
            then have "marks s0 p N F m ?G (chain_loop head p aw K ?q (insert c seen) ?m t)"
              by (rule marks_from [rotated]) (rule grown_flat [OF mark_commit_props(1,2)])
            then show ?thesis using unfold r Some cd Cons False by simp
          qed
        qed
      qed
    qed
  qed
qed

text \<open>What marking the chain of a head establishes.\<close>

definition head_marked :: "store \<Rightarrow> gc_policy \<Rightarrow> bool \<Rightarrow> hash \<Rightarrow> mark \<Rightarrow> bool" where
  "head_marked s p aw c m \<longleftrightarrow> history_marked s p m c \<and> c \<in> set (ms_retained m) \<and>
     (aw \<and> s_io s = [] \<longrightarrow> head_window s p c \<subseteq> set (ms_retained m))"

lemma head_marked_mono: "head_marked s p aw c m \<Longrightarrow> mark_le m m' \<Longrightarrow> head_marked s p aw c m'"
  unfolding head_marked_def history_marked_def mark_le_def by blast

lemma chain_spec:
  assumes "only_io s0 s" "mark_inv s0 N m" "missing_ok s0 m" "closed_nodes s0 p N F"
    and "NCommit c \<in> N" "NData ` insert c (if aw then head_window s0 p c else {}) \<subseteq> N"
  shows "marks s0 p N F m (head_marked s0 p aw c) (mark_commit_chain c p aw m s)"
proof -
  obtain K s1 where k: "keep_last_set c p aw s = (K, s1)" by fastforce
  have io1: "only_io s0 s1" and K: "K \<subseteq> head_window s0 p c" "aw \<Longrightarrow> s_io s0 = [] \<Longrightarrow> gp_keep_last p \<noteq> None \<Longrightarrow> K = head_window s0 p c"
    using k keep_last_window_spec [OF assms(1), of _ c "{}" K s1] assms(1)
    by (auto simp: keep_last_set_def head_window_def split: option.splits if_splits)
  have sub: "NData ` insert c (if aw then K else {}) \<subseteq> N" using assms(6) K(1) unfolding image_subset_iff by (cases aw) auto
  have e: "explored (parents_of s0) {c} {} (set [c])" by (simp add: explored_init)
  have "marks s0 p N F m (chain_marked s0 (ancestors s0 c) (retains_data c p aw K)) (chain_loop c p aw K [c] {} m s1)"
    by (rule chain_loop_spec [OF io1 assms(2-5) sub e]) (simp add: chain_marked_def)
  then have "marks s0 p N F m (head_marked s0 p aw c) (chain_loop c p aw K [c] {} m s1)"
  proof (rule marks_weaken)
    fix m' assume cm: "chain_marked s0 (ancestors s0 c) (retains_data c p aw K) m'"
    have root: "c \<in> ancestors s0 c" by (rule reach_root) simp
    have "head_window s0 p c \<subseteq> ancestors s0 c" using window_ancestors root by (auto simp: head_window_def split: option.splits)
    moreover have kept: "a \<in> set (ms_retained m')" if "a \<in> ancestors s0 c" "a = c \<or> aw \<and> a \<in> K" for a
      using cm that unfolding chain_marked_def retains_data_def by (metis (full_types))
    moreover have "history_marked s0 p m' c"
      using cm unfolding history_marked_def chain_marked_def retains_data_def kept_by_policy_def
      by (metis (full_types) option.inject option.distinct(1))
    moreover have "head_window s0 p c \<subseteq> insert c K" if "aw" "s_io s0 = []"
      using K(2) [OF that] by (cases "gp_keep_last p") (auto simp: head_window_def)
    ultimately show "head_marked s0 p aw c m'" using root unfolding head_marked_def by blast
  qed
  then show ?thesis using k by (simp add: mark_commit_chain_def)
qed


section \<open>State records and runtime states\<close>

lemma marks_seq:
  assumes "marks s0 p N F m G r" "\<And>m m'. mark_le m m' \<Longrightarrow> G m \<Longrightarrow> G m'"
    and "\<And>m' s'. only_io s0 s' \<Longrightarrow> missing_ok s0 m' \<Longrightarrow> mark_le m m' \<Longrightarrow> mark_inv s0 N m' \<Longrightarrow> marks s0 p N F m' G' (k m' s')"
  shows "marks s0 p N F m (\<lambda>m'. G m' \<and> G' m') (mark_then r k)"
proof (rule marks_then [OF assms(1)])
  fix m' s' assume a: "only_io s0 s'" "missing_ok s0 m'" "grown s0 p m m'" "mark_inv s0 N m'" "G m'"
  show "marks s0 p N F m' (\<lambda>m'. G m' \<and> G' m') (k m' s')"
    by (rule marks_weaken [OF assms(3) [OF a(1,2) grown_le [OF a(3)] a(4)]]) (use assms(2) a(5) in blast)
qed

lemma covered_sub: "mark_le m m' \<Longrightarrow> A \<subseteq> covered s p m \<Longrightarrow> A \<subseteq> covered s p m'"
  using covered_mono by blast

lemma covered_marked: "mark_le m m' \<Longrightarrow> A \<subseteq> covered s p m \<and> h \<in> ms_marked m \<Longrightarrow> A \<subseteq> covered s p m' \<and> h \<in> ms_marked m'"
  using covered_sub unfolding mark_le_def by blast

lemma mark_all_props:
  "mark_le m (mark_all hs m)" "tracked (mark_all hs m) = tracked m" "missing_ok s (mark_all hs m) = missing_ok s m"
  "NBlob ` set hs \<subseteq> covered s p (mark_all hs m)" "grown s p m (mark_all hs m)"
  by (auto simp: mark_all_def mark_le_def tracked_def missing_ok_def covered_def intro!: grown_flat)

lemma nblob_hash: "NBlob h \<in> N \<Longrightarrow> h \<in> node_hash ` N"
  by (metis imageI node.sel(4))

lemma mark_all_inv: "mark_inv s N m \<Longrightarrow> NBlob ` set hs \<subseteq> N \<Longrightarrow> mark_inv s N (mark_all hs m)"
proof -
  assume m: "mark_inv s N m" and n: "NBlob ` set hs \<subseteq> N"
  have "set hs \<subseteq> node_hash ` N" using n nblob_hash by blast
  with m show ?thesis by (simp add: mark_inv_def mark_all_def tracked_def) blast
qed

lemma required_spec:
  assumes "only_io s0 s" "mark_inv s0 N m" "missing_ok s0 m" "link NBlob hex \<subseteq> N" "bad_id hex \<Longrightarrow> F"
  shows "marks s0 p N F m (\<lambda>m'. link NBlob hex \<subseteq> covered s0 p m') (mark_required_hex_blob hex m s)"
proof (cases "hex_to_hash_strict hex")
  case None
  then show ?thesis
    using assms by (simp add: mark_required_hex_blob_def marks_ok marks_fail link_def bad_id_def)
next
  case (Some h)
  moreover have "hex \<noteq> []" using Some by (auto simp: hex_to_hash_strict_def is_hex_hash_def)
  moreover have "h \<in> node_hash ` N" using assms(4) Some nblob_hash by (simp add: link_def)
  ultimately show ?thesis
    using assms by (simp add: mark_required_hex_blob_def marks_ok link_def mark_hash_inv covered_def)
qed

lemma opaque_props:
  "mark_le m (mark_opaque_cas_ref v m)" "tracked (mark_opaque_cas_ref v m) = tracked m"
  "missing_ok s (mark_opaque_cas_ref v m) = missing_ok s m" "link NBlob v \<subseteq> covered s p (mark_opaque_cas_ref v m)"
  by (auto simp: mark_opaque_cas_ref_def link_def covered_def split: option.split)

lemma opaque_inv: "mark_inv s N m \<Longrightarrow> link NBlob v \<subseteq> N \<Longrightarrow> mark_inv s N (mark_opaque_cas_ref v m)"
  by (cases "hex_to_hash_strict v") (simp_all add: mark_opaque_cas_ref_def link_def mark_hash_inv nblob_hash)

lemma fs_commit_spec:
  assumes "only_io s0 s" "mark_inv s0 N m" "missing_ok s0 m" "closed_nodes s0 p N F" "commit_nodes c \<subseteq> N"
  shows "marks s0 p N F m (\<lambda>m'. commit_nodes c \<subseteq> covered s0 p m') (mark_fs_commit c p m s)"
proof (cases "c = ZERO_HASH")
  case True
  then show ?thesis using assms by (simp add: mark_fs_commit_def marks_ok commit_nodes_def)
next
  case False
  then have "NCommit c \<in> N" "NData ` insert c (if False then head_window s0 p c else {}) \<subseteq> N"
    using assms(5) by (simp_all add: commit_nodes_def)
  from chain_spec [OF assms(1-4) this] have "marks s0 p N F m (head_marked s0 p False c) (mark_commit_chain c p False m s)" .
  then have "marks s0 p N F m (\<lambda>m'. commit_nodes c \<subseteq> covered s0 p m') (mark_commit_chain c p False m s)"
    by (rule marks_weaken) (use False in \<open>simp add: head_marked_def covered_def commit_nodes_def\<close>)
  then show ?thesis using False by (simp add: mark_fs_commit_def)
qed

lemma link_spec:
  assumes "only_io s0 s" "mark_inv s0 N m" "missing_ok s0 m" "bad_id sid \<Longrightarrow> F"
    and "\<And>h. hex_to_hash_strict sid = Some h \<Longrightarrow> marks s0 p N F m (\<lambda>m'. C h \<in> tracked m') (f h m s)"
  shows "marks s0 p N F m (\<lambda>m'. link C sid \<subseteq> covered s0 p m') (mark_link sid err f m s)"
proof (cases "hex_to_hash_strict sid")
  case None
  then show ?thesis using assms by (simp add: mark_link_def marks_ok marks_fail link_def bad_id_def)
next
  case (Some h)
  moreover have "sid \<noteq> []" using Some by (auto simp: hex_to_hash_strict_def is_hex_hash_def)
  moreover have "marks s0 p N F m (\<lambda>m'. link C sid \<subseteq> covered s0 p m') (f h m s)"
    by (rule marks_weaken [OF assms(5) [OF Some]]) (simp add: Some link_def covered_def)
  ultimately show ?thesis by (simp add: mark_link_def)
qed

abbreviation fuel_ok :: "store \<Rightarrow> mark \<Rightarrow> nat \<Rightarrow> bool" where
  "fuel_ok s m n \<equiv> card (stored s - ms_records m) + card (stored s - ms_unions m) < n"

lemma fuel_mono: "mark_le m m' \<Longrightarrow> fuel_ok s m n \<Longrightarrow> fuel_ok s m' n"
proof -
  assume le: "mark_le m m'" and f: "fuel_ok s m n"
  have "card (stored s - ms_records m') \<le> card (stored s - ms_records m)"
    "card (stored s - ms_unions m') \<le> card (stored s - ms_unions m)"
    by (rule card_mono; use finite_stored [of s] le in \<open>force simp: mark_le_def\<close>)+
  with f show ?thesis by linarith
qed


lemma fuel_track_record:
  assumes "h \<in> stored s" "h \<notin> ms_records m" "fuel_ok s m (Suc n)"
  shows "fuel_ok s (m\<lparr>ms_records := insert h (ms_records m)\<rparr>) n"
  using stored_less [OF assms(1,2), of "card (stored s - ms_records m)"] assms(3) by simp

lemma fuel_track_union:
  assumes "h \<in> stored s" "h \<notin> ms_unions m" "fuel_ok s m (Suc n)"
  shows "fuel_ok s (m\<lparr>ms_unions := insert h (ms_unions m)\<rparr>) n"
  using stored_less [OF assms(1,2), of "card (stored s - ms_unions m)"] assms(3) by simp

text \<open>The body of a state record, given the contract of the recursive calls.\<close>

lemma record_body:
  assumes io: "only_io s0 s" and inv: "mark_inv s0 N m" and ok: "missing_ok s0 m" and N: "closed_nodes s0 p N F" "NRecord sid \<in> N"
    and rec: "record_at s0 sid = Some rec" and fuel: "fuel_ok s0 m n"
    and rr: "\<And>h m s. only_io s0 s \<Longrightarrow> mark_inv s0 N m \<Longrightarrow> missing_ok s0 m \<Longrightarrow> NRecord h \<in> N \<Longrightarrow> fuel_ok s0 m n \<Longrightarrow>
      marks s0 p N F m (\<lambda>m'. NRecord h \<in> tracked m') (mark_state_record n p h m s)"
    and ru: "\<And>h m s. only_io s0 s \<Longrightarrow> mark_inv s0 N m \<Longrightarrow> missing_ok s0 m \<Longrightarrow> NUnion h \<in> N \<Longrightarrow> fuel_ok s0 m n \<Longrightarrow>
      marks s0 p N F m (\<lambda>m'. NUnion h \<in> tracked m') (mark_union_state n p h m s)"
  shows "marks s0 p N F m (\<lambda>m'. links s0 p (NRecord sid) \<subseteq> covered s0 p m' \<and> sid \<in> ms_marked m')
     (mark_then (mark_required_hex_blob (as_payload_ref rec) (mark_hash sid m) s) (\<lambda>m s.
      mark_then (mark_fs_commit (as_fs_commit rec) p (mark_all (as_dependency_hashes rec) m) s) (\<lambda>m s.
      mark_then (mark_link (as_union_state_id rec) e1 (mark_union_state n p) m s) (\<lambda>m s.
      mark_then (mark_link (as_parent_state_id rec) e2 (mark_state_record n p) m s) (\<lambda>m s.
      mark_link (as_snapshot_base_state_id rec) e2 (mark_state_record n p) m s)))))" (is "marks _ _ _ _ _ _ ?prog")
proof -
  let ?c = "covered s0 p"
  have lk: "links s0 p (NRecord sid) = link NBlob (as_payload_ref rec) \<union> NBlob ` set (as_dependency_hashes rec) \<union>
      commit_nodes (as_fs_commit rec) \<union> link NUnion (as_union_state_id rec) \<union>
      link NRecord (as_parent_state_id rec) \<union> link NRecord (as_snapshot_base_state_id rec)" using rec by simp
  have "links s0 p (NRecord sid) \<subseteq> N" using N unfolding closed_nodes_def by blast
  then have sub: "link NBlob (as_payload_ref rec) \<subseteq> N" "NBlob ` set (as_dependency_hashes rec) \<subseteq> N"
    "commit_nodes (as_fs_commit rec) \<subseteq> N" "link NUnion (as_union_state_id rec) \<subseteq> N"
    "link NRecord (as_parent_state_id rec) \<subseteq> N" "link NRecord (as_snapshot_base_state_id rec) \<subseteq> N" unfolding lk by simp_all
  have br: "F" if "bad_id x" "x \<in> {as_payload_ref rec, as_union_state_id rec, as_parent_state_id rec, as_snapshot_base_state_id rec}" for x
    by (rule closed_broken [OF N(1) N(2)]) (use that rec in auto)
  have sN: "sid \<in> node_hash ` N" using N(2) by (metis imageI node.sel(5))
  have rec_link: "marks s0 p N F m' (\<lambda>m'. link NRecord x \<subseteq> ?c m') (mark_link x e (mark_state_record n p) m' s')"
    if "only_io s0 s'" "missing_ok s0 m'" "mark_le m m'" "mark_inv s0 N m'"
      "x \<in> {as_parent_state_id rec, as_snapshot_base_state_id rec}" for x e m' s'
    by (rule link_spec [OF that(1,4,2)]) (use br that sub(5,6) rr [OF that(1,4,2) _ fuel_mono [OF that(3) fuel]] in \<open>auto simp: link_def\<close>)
  have un_link: "marks s0 p N F m' (\<lambda>m'. link NUnion (as_union_state_id rec) \<subseteq> ?c m')
      (mark_link (as_union_state_id rec) e1 (mark_union_state n p) m' s')"
    if "only_io s0 s'" "missing_ok s0 m'" "mark_le m m'" "mark_inv s0 N m'" for m' s'
    by (rule link_spec [OF that(1,4,2)]) (use br that sub(4) ru [OF that(1,4,2) _ fuel_mono [OF that(3) fuel]] in \<open>auto simp: link_def\<close>)
  have fs: "marks s0 p N F m' (\<lambda>m'. NBlob ` set (as_dependency_hashes rec) \<union> commit_nodes (as_fs_commit rec) \<subseteq> ?c m')
      (mark_fs_commit (as_fs_commit rec) p (mark_all (as_dependency_hashes rec) m') s')"
    if "only_io s0 s'" "missing_ok s0 m'" "mark_inv s0 N m'" for m' s'
  proof (rule marks_from [OF mark_all_props(5) marks_weaken [OF fs_commit_spec [OF that(1) _ _ N(1) sub(3)]]])
    show "mark_inv s0 N (mark_all (as_dependency_hashes rec) m')" by (rule mark_all_inv [OF that(3) sub(2)])
    show "missing_ok s0 (mark_all (as_dependency_hashes rec) m')" using that(2) by (simp add: mark_all_props)
  qed (use covered_sub [OF _ mark_all_props(4)] in auto)
  have req: "marks s0 p N F (mark_hash sid m) (\<lambda>m'. link NBlob (as_payload_ref rec) \<subseteq> ?c m' \<and> sid \<in> ms_marked m')
      (mark_required_hex_blob (as_payload_ref rec) (mark_hash sid m) s)"
    by (rule marks_weaken [OF required_spec [OF io mark_hash_inv [OF inv sN] _ sub(1)]])
       (use ok br in \<open>auto simp: mark_le_def\<close>)
  have "marks s0 p N F (mark_hash sid m) (\<lambda>m'. (link NBlob (as_payload_ref rec) \<subseteq> ?c m' \<and> sid \<in> ms_marked m') \<and>
      (NBlob ` set (as_dependency_hashes rec) \<union> commit_nodes (as_fs_commit rec) \<subseteq> ?c m' \<and>
       (link NUnion (as_union_state_id rec) \<subseteq> ?c m' \<and>
        (link NRecord (as_parent_state_id rec) \<subseteq> ?c m' \<and> link NRecord (as_snapshot_base_state_id rec) \<subseteq> ?c m')))) ?prog"
  proof (rule marks_seq [OF req covered_marked], assumption, assumption)
    fix m1 s1 assume a: "only_io s0 s1" "missing_ok s0 m1" "mark_le (mark_hash sid m) m1" "mark_inv s0 N m1"
    have l1: "mark_le m m1" using mark_le_trans [OF mark_hash_le a(3)] .
    show "marks s0 p N F m1 (\<lambda>m'. NBlob ` set (as_dependency_hashes rec) \<union> commit_nodes (as_fs_commit rec) \<subseteq> ?c m' \<and>
       (link NUnion (as_union_state_id rec) \<subseteq> ?c m' \<and>
        (link NRecord (as_parent_state_id rec) \<subseteq> ?c m' \<and> link NRecord (as_snapshot_base_state_id rec) \<subseteq> ?c m')))
       (mark_then (mark_fs_commit (as_fs_commit rec) p (mark_all (as_dependency_hashes rec) m1) s1) (\<lambda>m s.
        mark_then (mark_link (as_union_state_id rec) e1 (mark_union_state n p) m s) (\<lambda>m s.
        mark_then (mark_link (as_parent_state_id rec) e2 (mark_state_record n p) m s) (\<lambda>m s.
        mark_link (as_snapshot_base_state_id rec) e2 (mark_state_record n p) m s))))"
    proof (rule marks_seq [OF fs [OF a(1,2,4)] covered_sub], assumption, assumption)
      fix m2 s2 assume b: "only_io s0 s2" "missing_ok s0 m2" "mark_le m1 m2" "mark_inv s0 N m2"
      note l2 = mark_le_trans [OF l1 b(3)]
      show "marks s0 p N F m2 (\<lambda>m'. link NUnion (as_union_state_id rec) \<subseteq> ?c m' \<and>
          (link NRecord (as_parent_state_id rec) \<subseteq> ?c m' \<and> link NRecord (as_snapshot_base_state_id rec) \<subseteq> ?c m'))
         (mark_then (mark_link (as_union_state_id rec) e1 (mark_union_state n p) m2 s2) (\<lambda>m s.
          mark_then (mark_link (as_parent_state_id rec) e2 (mark_state_record n p) m s) (\<lambda>m s.
          mark_link (as_snapshot_base_state_id rec) e2 (mark_state_record n p) m s)))"
      proof (rule marks_seq [OF un_link [OF b(1,2) l2 b(4)] covered_sub], assumption, assumption)
        fix m3 s3 assume c: "only_io s0 s3" "missing_ok s0 m3" "mark_le m2 m3" "mark_inv s0 N m3"
        note l3 = mark_le_trans [OF l2 c(3)]
        show "marks s0 p N F m3 (\<lambda>m'. link NRecord (as_parent_state_id rec) \<subseteq> ?c m' \<and> link NRecord (as_snapshot_base_state_id rec) \<subseteq> ?c m')
           (mark_then (mark_link (as_parent_state_id rec) e2 (mark_state_record n p) m3 s3) (\<lambda>m s.
            mark_link (as_snapshot_base_state_id rec) e2 (mark_state_record n p) m s))"
        proof (rule marks_seq [OF rec_link [OF c(1,2) l3 c(4)] covered_sub])
          fix m4 s4 assume d: "only_io s0 s4" "missing_ok s0 m4" "mark_le m3 m4" "mark_inv s0 N m4"
          show "marks s0 p N F m4 (\<lambda>m'. link NRecord (as_snapshot_base_state_id rec) \<subseteq> ?c m')
             (mark_link (as_snapshot_base_state_id rec) e2 (mark_state_record n p) m4 s4)"
            by (rule rec_link [OF d(1,2) mark_le_trans [OF l3 d(3)] d(4)]) simp
        qed simp
      qed
    qed
  qed
  from marks_from [OF mark_hash_grown this] show ?thesis by (rule marks_weaken) (auto simp: lk simp del: links.simps)
qed


lemma union_body:
  assumes io: "only_io s0 s" and inv: "mark_inv s0 N m" and ok: "missing_ok s0 m" and N: "closed_nodes s0 p N F" "NUnion uid \<in> N"
    and us: "union_at s0 uid = Some us" and fuel: "fuel_ok s0 m n"
    and rr: "\<And>h m s. only_io s0 s \<Longrightarrow> mark_inv s0 N m \<Longrightarrow> missing_ok s0 m \<Longrightarrow> NRecord h \<in> N \<Longrightarrow> fuel_ok s0 m n \<Longrightarrow>
      marks s0 p N F m (\<lambda>m'. NRecord h \<in> tracked m') (mark_state_record n p h m s)"
    and ru: "\<And>h m s. only_io s0 s \<Longrightarrow> mark_inv s0 N m \<Longrightarrow> missing_ok s0 m \<Longrightarrow> NUnion h \<in> N \<Longrightarrow> fuel_ok s0 m n \<Longrightarrow>
      marks s0 p N F m (\<lambda>m'. NUnion h \<in> tracked m') (mark_union_state n p h m s)"
  shows "marks s0 p N F m (\<lambda>m'. links s0 p (NUnion uid) \<subseteq> covered s0 p m' \<and> uid \<in> ms_marked m')
     (mark_then (mark_fs_commit (us_fs_commit us) p (mark_hash uid m) s) (\<lambda>m s.
      mark_then (mark_link (us_agent_state_id us) e1 (mark_state_record n p)
        (mark_opaque_cas_ref (us_resource_manifest_ref us) (mark_opaque_cas_ref (us_command_ref us) m)) s) (\<lambda>m s.
      mark_link (us_parent_union_state_id us) e2 (mark_union_state n p) m s)))" (is "marks _ _ _ _ _ _ ?prog")
proof -
  let ?c = "covered s0 p" and ?o = "\<lambda>m. mark_opaque_cas_ref (us_resource_manifest_ref us) (mark_opaque_cas_ref (us_command_ref us) m)"
  have lk: "links s0 p (NUnion uid) = commit_nodes (us_fs_commit us) \<union> link NBlob (us_command_ref us) \<union>
      link NBlob (us_resource_manifest_ref us) \<union> link NRecord (us_agent_state_id us) \<union> link NUnion (us_parent_union_state_id us)"
    using us by simp
  have "links s0 p (NUnion uid) \<subseteq> N" using N unfolding closed_nodes_def by blast
  then have sub: "commit_nodes (us_fs_commit us) \<subseteq> N" "link NBlob (us_command_ref us) \<subseteq> N" "link NBlob (us_resource_manifest_ref us) \<subseteq> N"
    "link NRecord (us_agent_state_id us) \<subseteq> N" "link NUnion (us_parent_union_state_id us) \<subseteq> N" unfolding lk by simp_all
  have br: "F" if "bad_id x" "x \<in> {us_agent_state_id us, us_parent_union_state_id us}" for x
    by (rule closed_broken [OF N(1) N(2)]) (use that us in auto)
  have uN: "uid \<in> node_hash ` N" using N(2) by (metis imageI node.sel(6))
  have o_le: "mark_le m (?o m)" "grown s0 p m (?o m)" "missing_ok s0 (?o m) = missing_ok s0 m" for m
    using mark_le_trans [OF opaque_props(1) opaque_props(1)] by (auto simp: opaque_props intro!: grown_flat)
  have o_cov: "link NBlob (us_command_ref us) \<union> link NBlob (us_resource_manifest_ref us) \<subseteq> ?c (?o m)" for m
    using opaque_props(4) covered_sub [OF opaque_props(1) opaque_props(4)] by blast
  have ag: "marks s0 p N F m' (\<lambda>m'. link NBlob (us_command_ref us) \<union> link NBlob (us_resource_manifest_ref us) \<union>
      link NRecord (us_agent_state_id us) \<subseteq> ?c m') (mark_link (us_agent_state_id us) e1 (mark_state_record n p) (?o m') s')"
    if a: "only_io s0 s'" "missing_ok s0 m'" "mark_le m m'" "mark_inv s0 N m'" for m' s'
  proof -
    have i: "mark_inv s0 N (?o m')" by (intro opaque_inv sub a(4))
    have o: "missing_ok s0 (?o m')" using a(2) by (simp add: o_le)
    have f: "fuel_ok s0 (?o m') n" by (rule fuel_mono [OF mark_le_trans [OF a(3) o_le(1)] fuel])
    have "marks s0 p N F (?o m') (\<lambda>m'. link NRecord (us_agent_state_id us) \<subseteq> ?c m')
        (mark_link (us_agent_state_id us) e1 (mark_state_record n p) (?o m') s')"
      by (rule link_spec [OF a(1) i o]) (use br sub(4) rr [OF a(1) i o _ f] in \<open>auto simp: link_def\<close>)
    from marks_from [OF o_le(2) marks_weaken [OF this]] show ?thesis
      using covered_sub [OF _ o_cov] by auto
  qed
  have un: "marks s0 p N F m' (\<lambda>m'. link NUnion (us_parent_union_state_id us) \<subseteq> ?c m')
      (mark_link (us_parent_union_state_id us) e2 (mark_union_state n p) m' s')"
    if "only_io s0 s'" "missing_ok s0 m'" "mark_le m m'" "mark_inv s0 N m'" for m' s'
    by (rule link_spec [OF that(1,4,2)]) (use br that sub(5) ru [OF that(1,4,2) _ fuel_mono [OF that(3) fuel]] in \<open>auto simp: link_def\<close>)
  have fs: "marks s0 p N F (mark_hash uid m) (\<lambda>m'. commit_nodes (us_fs_commit us) \<subseteq> ?c m' \<and> uid \<in> ms_marked m')
      (mark_fs_commit (us_fs_commit us) p (mark_hash uid m) s)"
    by (rule marks_weaken [OF fs_commit_spec [OF io mark_hash_inv [OF inv uN] _ N(1) sub(1)]])
       (use ok in \<open>auto simp: mark_le_def\<close>)
  have "marks s0 p N F (mark_hash uid m) (\<lambda>m'. (commit_nodes (us_fs_commit us) \<subseteq> ?c m' \<and> uid \<in> ms_marked m') \<and>
      (link NBlob (us_command_ref us) \<union> link NBlob (us_resource_manifest_ref us) \<union> link NRecord (us_agent_state_id us) \<subseteq> ?c m' \<and>
       link NUnion (us_parent_union_state_id us) \<subseteq> ?c m')) ?prog"
  proof (rule marks_seq [OF fs covered_marked], assumption, assumption)
    fix m1 s1 assume a: "only_io s0 s1" "missing_ok s0 m1" "mark_le (mark_hash uid m) m1" "mark_inv s0 N m1"
    have l1: "mark_le m m1" using mark_le_trans [OF mark_hash_le a(3)] .
    show "marks s0 p N F m1 (\<lambda>m'. link NBlob (us_command_ref us) \<union> link NBlob (us_resource_manifest_ref us) \<union>
        link NRecord (us_agent_state_id us) \<subseteq> ?c m' \<and> link NUnion (us_parent_union_state_id us) \<subseteq> ?c m')
       (mark_then (mark_link (us_agent_state_id us) e1 (mark_state_record n p) (?o m1) s1) (\<lambda>m s.
        mark_link (us_parent_union_state_id us) e2 (mark_union_state n p) m s))"
      by (rule marks_seq [OF ag [OF a(1,2) l1 a(4)] covered_sub], assumption, assumption)
         (use un mark_le_trans [OF l1] in blast)
  qed
  from marks_from [OF mark_hash_grown this] show ?thesis by (rule marks_weaken) (auto simp: lk simp del: links.simps)
qed

lemma state_spec:
  assumes N: "closed_nodes s0 p N F"
  shows "only_io s0 s \<Longrightarrow> mark_inv s0 N m \<Longrightarrow> missing_ok s0 m \<Longrightarrow> NRecord h \<in> N \<Longrightarrow> fuel_ok s0 m n \<Longrightarrow>
      marks s0 p N F m (\<lambda>m'. NRecord h \<in> tracked m') (mark_state_record n p h m s)"
    and "only_io s0 s \<Longrightarrow> mark_inv s0 N m \<Longrightarrow> missing_ok s0 m \<Longrightarrow> NUnion h \<in> N \<Longrightarrow> fuel_ok s0 m n \<Longrightarrow>
      marks s0 p N F m (\<lambda>m'. NUnion h \<in> tracked m') (mark_union_state n p h m s)"
proof (induction n arbitrary: h m s)
  case (Suc n)
  {
    case 1
    show ?case
    proof (cases "h \<in> ms_records m")
      case True
      with 1 show ?thesis by (simp add: marks_ok tracked_def)
    next
      case False
      define m1 where "m1 = m\<lparr>ms_records := insert h (ms_records m)\<rparr>"
      have m1: "mark_inv s0 N m1" "missing_ok s0 m1" "mark_le m m1" "tracked m1 = insert (NRecord h) (tracked m)"
        using 1(2-4) by (auto simp: m1_def mark_inv_def missing_ok_def mark_le_def tracked_def)
      obtain r s1 where r: "read_agent_state_record h s = (r, s1)" by fastforce
      note ra = read_agent_spec [OF 1(1) r]
      show ?thesis
      proof (cases r)
        case (Inl e)
        have br: "s_io s0 = [] \<Longrightarrow> F" by (rule closed_broken [OF N 1(4)]) (use ra(3) Inl in simp)
        have "marks s0 p N F m G (fail_missing h x m1 s1)" for G x by (rule marks_missing [OF ra(1) m1(2) br])
        then show ?thesis using False r Inl by (simp add: m1_def Let_def)
      next
        case (Inr rec)
        note rec = ra(2) [OF Inr]
        have f: "fuel_ok s0 m1 n" using fuel_track_record [OF _ False 1(5)] rec by (simp add: m1_def)
        note body = record_body [OF ra(1) m1(1,2) N 1(4) _ f Suc.IH(1,2)]
        have "marks s0 p N F m (\<lambda>m'. NRecord h \<in> tracked m') (mark_state_record (Suc n) p h m s)"
          using marks_track [OF _ m1(3,4)] body rec False r Inr by (simp add: m1_def Let_def del: links.simps)
        then show ?thesis .
      qed
    qed
  next
    case 2
    show ?case
    proof (cases "h \<in> ms_unions m")
      case True
      with 2 show ?thesis by (simp add: marks_ok tracked_def)
    next
      case False
      define m1 where "m1 = m\<lparr>ms_unions := insert h (ms_unions m)\<rparr>"
      have m1: "mark_inv s0 N m1" "missing_ok s0 m1" "mark_le m m1" "tracked m1 = insert (NUnion h) (tracked m)"
        using 2(2-4) by (auto simp: m1_def mark_inv_def missing_ok_def mark_le_def tracked_def)
      obtain r s1 where r: "read_union_runtime_state h s = (r, s1)" by fastforce
      note ra = read_union_spec [OF 2(1) r]
      show ?thesis
      proof (cases r)
        case (Inl e)
        have br: "s_io s0 = [] \<Longrightarrow> F" by (rule closed_broken [OF N 2(4)]) (use ra(3) Inl in simp)
        have "marks s0 p N F m G (fail_missing h x m1 s1)" for G x by (rule marks_missing [OF ra(1) m1(2) br])
        then show ?thesis using False r Inl by (simp add: m1_def Let_def)
      next
        case (Inr us)
        note rec = ra(2) [OF Inr]
        have f: "fuel_ok s0 m1 n" using fuel_track_union [OF _ False 2(5)] rec by (simp add: m1_def)
        note body = union_body [OF ra(1) m1(1,2) N 2(4) _ f Suc.IH(1,2)]
        have "marks s0 p N F m (\<lambda>m'. NUnion h \<in> tracked m') (mark_union_state (Suc n) p h m s)"
          using marks_track [OF _ m1(3,4)] body rec False r Inr by (simp add: m1_def Let_def del: links.simps)
        then show ?thesis .
      qed
    qed
  }
qed simp_all

end
