(* ===== verification/GcRun.thy ===== *)
theory GcRun
  imports GcMark
begin

text \<open>
  The collector as a whole: the roots, the mark phase over all of them, the sweep and the
  verification. The loops of the mark phase over lists of roots share one contract, the locale
  \<open>mark_loop\<close>, and are its interpretations.
\<close>

section \<open>Loops over roots\<close>

locale mark_loop =
  fixes s0 :: store and p :: gc_policy and N :: "node set" and F :: bool
    and step :: "'a \<Rightarrow> mark \<Rightarrow> store \<Rightarrow> mark_res" and loop :: "'a list \<Rightarrow> mark \<Rightarrow> store \<Rightarrow> mark_res"
    and ok :: "'a \<Rightarrow> bool" and pre :: "mark \<Rightarrow> bool" and goal :: "'a \<Rightarrow> mark \<Rightarrow> bool"
  assumes loop_nil: "loop [] m s = mark_ok m s"
    and loop_cons: "loop (x # xs) m s = mark_then (step x m s) (loop xs)"
    and contract: "ok x \<Longrightarrow> only_io s0 s \<Longrightarrow> mark_inv s0 N m \<Longrightarrow> missing_ok s0 m \<Longrightarrow> pre m \<Longrightarrow>
      marks s0 p N F m (goal x) (step x m s)"
    and pre_mono: "mark_le m m' \<Longrightarrow> pre m \<Longrightarrow> pre m'"
    and goal_mono: "mark_le m m' \<Longrightarrow> goal x m \<Longrightarrow> goal x m'"
begin

lemma loop_marks:
  "\<forall>x \<in> set xs. ok x \<Longrightarrow> only_io s0 s \<Longrightarrow> mark_inv s0 N m \<Longrightarrow> missing_ok s0 m \<Longrightarrow> pre m \<Longrightarrow>
   marks s0 p N F m (\<lambda>m'. \<forall>x \<in> set xs. goal x m') (loop xs m s)"
proof (induction xs arbitrary: m s)
  case (Cons x xs)
  have "marks s0 p N F m (\<lambda>m'. goal x m' \<and> (\<forall>x \<in> set xs. goal x m')) (mark_then (step x m s) (loop xs))"
  proof (rule marks_seq [OF contract goal_mono])
    fix m' s' assume a: "only_io s0 s'" "missing_ok s0 m'" "mark_le m m'" "mark_inv s0 N m'"
    show "marks s0 p N F m' (\<lambda>m'. \<forall>x \<in> set xs. goal x m') (loop xs m' s')"
      using Cons.IH Cons.prems(1) a pre_mono [OF a(3) Cons.prems(5)] by simp
  qed (use Cons.prems in simp_all)
  then show ?case by (simp add: loop_cons)
qed (simp add: loop_nil marks_ok)

end

lemma mark_then_ok [simp]: "mark_then (mark_ok m s) k = k m s" "mark_then (mark_fail e m s) k = mark_fail e m s"
  by (simp_all add: mark_then_def mark_ok_def mark_fail_def)

lemma mark_then_assoc: "mark_then (mark_then r k) l = mark_then r (\<lambda>m s. mark_then (k m s) l)"
  by (auto simp: mark_then_def split: option.split prod.split)

lemma next_io_step: "next_io s = (f, s') \<Longrightarrow> only_io s s' \<and> (s_io s = [] \<longrightarrow> f = None)"
  by (cases "s_io s") (auto simp: only_io_def next_io_def intro: exI [of _ "s_io s"])

lemma read_io_step: "read_io s = (f, s') \<Longrightarrow> only_io s s' \<and> (s_io s = [] \<longrightarrow> f = None)"
  by (cases "dropWhile interrupted (s_io s)") (auto simp: only_io_def read_io_def next_io_def)

lemma only_io_empty: "only_io s0 s \<Longrightarrow> s_io s0 = [] \<Longrightarrow> s = s0"
  by (simp add: only_io_def)

lemma next_io_only:
  assumes "only_io s0 s" "next_io s = (f, s')"
  shows "only_io s0 s'" "s_io s0 = [] \<Longrightarrow> f = None"
  using next_io_step [OF assms(2)] only_io_trans [OF assms(1)] only_io_empty [OF assms(1)] by blast+

lemma read_ref_only:
  assumes "only_io s0 s" "read_ref r b s = (x, s')"
  shows "only_io s0 s'"
proof -
  obtain f1 s1 where n1: "next_io s = (f1, s1)" by fastforce
  obtain f2 s2 where n2: "read_io s1 = (f2, s2)" by fastforce
  obtain f3 s3 where n3: "read_io s2 = (f3, s3)" by fastforce
  obtain f4 s4 where n4: "next_io s2 = (f4, s4)" by fastforce
  obtain f5 s5 where n5: "next_io s3 = (f5, s5)" by fastforce
  have o1: "only_io s0 s1" using only_io_trans [OF assms(1)] next_io_step [OF n1] by blast
  have o2: "only_io s0 s2" using only_io_trans [OF o1] read_io_step [OF n2] by blast
  have o3: "only_io s0 s3" using only_io_trans [OF o2] read_io_step [OF n3] by blast
  have o4: "only_io s0 s4" using only_io_trans [OF o2] next_io_step [OF n4] by blast
  have o5: "only_io s0 s5" using only_io_trans [OF o3] next_io_step [OF n5] by blast
  have "s' \<in> {s1, s4, s5}"
    using assms(2) n1 n2 n3 n4 n5 unfolding read_ref_def Let_def
    by (cases f1; cases "map_of (r_files r) b"; cases f2; cases f4; cases f5) (auto split: if_splits)
  with o1 o4 o5 show ?thesis by blast
qed

lemma scan_refs_only: "only_io s0 s \<Longrightarrow> scan_refs es names s = (x, s') \<Longrightarrow> only_io s0 s'"
proof (induction es names s rule: scan_refs.induct)
  case (2 name regular es names s)
  obtain f1 t1 where n1: "next_io s = (f1, t1)" by fastforce
  obtain f2 t2 where n2: "next_io t1 = (f2, t2)" by fastforce
  have o1: "only_io s0 t1" using next_io_only [OF 2(2) n1] by blast
  have o2: "only_io s0 t2" using next_io_only [OF o1 n2] by blast
  show ?case using 2 n1 n2 o1 o2 by (cases f1; cases f2) auto
qed simp

lemma list_refs_only:
  assumes "only_io s0 s" "list_refs r s = (x, s')"
  shows "only_io s0 s'"
proof -
  let ?es = "map (\<lambda>p. (fst p, True)) (r_files r) @ map (\<lambda>n. (n, False)) (r_other r)"
  obtain f1 s1 where n1: "next_io s = (f1, s1)" by fastforce
  obtain y s2 where sc: "scan_refs ?es [] s1 = (y, s2)" by fastforce
  have o1: "only_io s0 s1" using next_io_only [OF assms(1) n1] by blast
  have o2: "only_io s0 s2" by (rule scan_refs_only [OF o1 sc])
  show ?thesis using assms(2) n1 sc o1 o2 by (cases f1; cases y) (auto simp: list_refs_def)
qed

lemma mark_stats_props:
  "mark_le m (m\<lparr>ms_stats := st\<rparr>)" "tracked (m\<lparr>ms_stats := st\<rparr>) = tracked m"
  "mark_inv s N (m\<lparr>ms_stats := st\<rparr>) = mark_inv s N m" "grown s p m (m\<lparr>ms_stats := st\<rparr>)"
proof -
  show t: "tracked (m\<lparr>ms_stats := st\<rparr>) = tracked m" by (simp add: tracked_def)
  show "mark_le m (m\<lparr>ms_stats := st\<rparr>)"
    "mark_inv s N (m\<lparr>ms_stats := st\<rparr>) = mark_inv s N m" by (simp_all add: mark_le_def mark_inv_def t)
  then show "grown s p m (m\<lparr>ms_stats := st\<rparr>)" using t by (intro grown_flat)
qed

lemma stats_missing:
  "missing_ok s m \<Longrightarrow> missing_ok s (bump gr_roots_branches_update m)"
  "missing_ok s m \<Longrightarrow> missing_ok s (bump gr_roots_state_refs_update m)"
  "missing_ok s m \<Longrightarrow> missing_ok s (bump gr_roots_runtime_states_update m)"
  "missing_ok s m \<Longrightarrow> missing_ok s (count_compacted m)"
  by (simp_all add: bump_def count_compacted_def missing_ok_def)

section \<open>Roots\<close>

definition latest_id :: "string \<Rightarrow> hash option" where
  "latest_id body = (case words_of body of [hex] \<Rightarrow> hex_to_hash_strict hex | _ \<Rightarrow> None)"

definition agent_bodies :: "latest_agent \<Rightarrow> string set" where
  "agent_bodies a = (case a of LaOther \<Rightarrow> {} | LaDir fs \<Rightarrow> {b. LfRegular b \<in> snd ` set fs})"

definition latest_bodies :: "state_dir \<Rightarrow> string set" where
  "latest_bodies d = (if sd_latest d then \<Union> (agent_bodies ` snd ` set (sd_agents d)) else {})"

definition head_nodes :: "bool \<Rightarrow> store \<Rightarrow> gc_policy \<Rightarrow> hash \<Rightarrow> node set" where
  "head_nodes full s p c = insert (NCommit c) (NData ` (if full then head_window s p c else {c}))"

lemma head_in_window [simp]: "c \<in> head_window s p c"
proof (cases "gp_keep_last p")
  case (Some k)
  have "unat (max 1 k) \<noteq> 0" by (cases "k = 0") (auto simp: unat_eq_zero max_def)
  then obtain n where "unat (max 1 k) = Suc n" using not0_implies_Suc by blast
  then show ?thesis using Some by (simp add: head_window_def)
qed (simp add: head_window_def)

text \<open>\<open>full\<close> says whether the whole window of a head counts as a root, or the head only.\<close>

definition gc_roots :: "bool \<Rightarrow> store \<Rightarrow> refs \<Rightarrow> state_dir \<Rightarrow> gc_live_roots \<Rightarrow> gc_policy \<Rightarrow> node set" where
  "gc_roots full s r d roots p =
     \<Union> (head_nodes full s p ` {c. \<exists>name \<in> fst ` set (r_files r). ref_of r name = Some c}) \<union>
     NRecord ` {h. \<exists>b \<in> latest_bodies d. latest_id b = Some h} \<union>
     NUnion ` set (gl_runtime_union_states roots) \<union>
     NBlob ` (set (gl_wt_hashes roots) \<union> set (gl_fh_blob_hashes roots) \<union> set (gl_fh_pinned_commits roots) \<union> set (gl_pending roots))"

lemma roots_sub:
  "name \<in> fst ` set (r_files r) \<Longrightarrow> ref_of r name = Some c \<Longrightarrow> head_nodes full s p c \<subseteq> gc_roots full s r d roots p"
  "b \<in> latest_bodies d \<Longrightarrow> latest_id b = Some h \<Longrightarrow> NRecord h \<in> gc_roots full s r d roots p"
  unfolding gc_roots_def by blast+

lemma roots_least:
  assumes "\<And>name c. name \<in> fst ` set (r_files r) \<Longrightarrow> ref_of r name = Some c \<Longrightarrow> head_nodes full s p c \<subseteq> X"
    and "\<And>b h. b \<in> latest_bodies d \<Longrightarrow> latest_id b = Some h \<Longrightarrow> NRecord h \<in> X"
    and "NUnion ` set (gl_runtime_union_states roots) \<subseteq> X"
    and "NBlob ` (set (gl_wt_hashes roots) \<union> set (gl_fh_blob_hashes roots) \<union> set (gl_fh_pinned_commits roots) \<union> set (gl_pending roots)) \<subseteq> X"
  shows "gc_roots full s r d roots p \<subseteq> X"
  unfolding gc_roots_def
proof (intro Un_least assms(3,4))
  show "\<Union> (head_nodes full s p ` {c. \<exists>name \<in> fst ` set (r_files r). ref_of r name = Some c}) \<subseteq> X" using assms(1) by blast
  show "NRecord ` {h. \<exists>b \<in> latest_bodies d. latest_id b = Some h} \<subseteq> X" using assms(2) by blast
qed

definition bad_roots :: "refs \<Rightarrow> state_dir \<Rightarrow> gc_live_roots \<Rightarrow> bool" where
  "bad_roots r d roots \<longleftrightarrow> (\<exists>name \<in> fst ` set (r_files r). ref_of r name = None) \<or>
     \<not> set (gl_expected_branch_refs roots) \<subseteq> fst ` set (r_files r) \<or> (\<exists>b \<in> latest_bodies d. latest_id b = None)"

definition mark_ref :: "refs \<Rightarrow> gc_policy \<Rightarrow> string \<Rightarrow> mark \<Rightarrow> store \<Rightarrow> mark_res" where
  "mark_ref r p name m s = (case read_ref r name s of
      (None, s) \<Rightarrow> mark_fail (''mark: unreadable ref: '' @ name) m s
    | (Some head, s) \<Rightarrow> mark_commit_chain head p True (bump gr_roots_branches_update m) s)"

interpretation refs_loop: mark_loop s0 p N F "mark_ref r p" "mark_refs r p"
  "\<lambda>name. closed_nodes s0 p N F \<and> (case ref_of r name of None \<Rightarrow> F | Some c \<Rightarrow> head_nodes True s0 p c \<subseteq> N)"
  "\<lambda>m. True" "\<lambda>name m. \<exists>c. ref_of r name = Some c \<and> head_marked s0 p True c m" for s0 p N F r
proof
  show "mark_refs r p (x # xs) m s = mark_then (mark_ref r p x m s) (mark_refs r p xs)" for x xs m s
    by (auto simp: mark_ref_def split: prod.split option.split)
  show "marks s0 p N F m (\<lambda>m. \<exists>c. ref_of r x = Some c \<and> head_marked s0 p True c m) (mark_ref r p x m s)"
    if ok: "closed_nodes s0 p N F \<and> (case ref_of r x of None \<Rightarrow> F | Some c \<Rightarrow> head_nodes True s0 p c \<subseteq> N)"
      and a: "only_io s0 s" "mark_inv s0 N m" "missing_ok s0 m" for x s m
  proof -
    obtain y t where y: "read_ref r x s = (y, t)" by fastforce
    have o: "only_io s0 t" by (rule read_ref_only [OF a(1) y])
    show ?thesis
    proof (cases y)
      case None
      have "s_io s0 = [] \<longrightarrow> F"
        using read_ref_value(2) [OF y] only_io_empty [OF a(1)] None ok by (cases "ref_of r x") auto
      then show ?thesis using y None a(3) o by (simp add: mark_ref_def marks_fail)
    next
      case (Some c)
      then have c: "ref_of r x = Some c" using read_ref_value(1) [OF y] by simp
      let ?m = "bump gr_roots_branches_update m"
      have i: "mark_inv s0 N ?m" "missing_ok s0 ?m" "grown s0 p m ?m" using a stats_missing by (simp_all add: bump_def mark_stats_props)
      have sub: "NCommit c \<in> N" "NData ` insert c (if True then head_window s0 p c else {}) \<subseteq> N"
        using ok c head_in_window [of c s0 p] by (auto simp: head_nodes_def)
      have "marks s0 p N F m (head_marked s0 p True c) (mark_commit_chain c p True ?m t)"
        using marks_from [OF i(3) chain_spec [OF o i(1,2) _ sub]] ok by blast
      then show ?thesis using y Some c by (simp add: mark_ref_def)
    qed
  qed
qed (auto intro: head_marked_mono)


text \<open>The latest refs.\<close>

definition body_ok :: "store \<Rightarrow> gc_policy \<Rightarrow> node set \<Rightarrow> bool \<Rightarrow> string \<Rightarrow> bool" where
  "body_ok s0 p N F b \<longleftrightarrow> closed_nodes s0 p N F \<and> (case latest_id b of None \<Rightarrow> F | Some h \<Rightarrow> NRecord h \<in> N)"

definition body_done :: "string \<Rightarrow> mark \<Rightarrow> bool" where
  "body_done b m \<longleftrightarrow> (\<exists>h. latest_id b = Some h \<and> NRecord h \<in> tracked m)"

lemma body_done_mono: "mark_le m m' \<Longrightarrow> body_done b m \<Longrightarrow> body_done b m'"
  using tracked_mono unfolding body_done_def by blast

lemma latest_ref_id_spec:
  assumes "only_io s0 s" "latest_ref_id path b s = (x, s')"
  shows "only_io s0 s'" "x = Inr h \<Longrightarrow> latest_id b = Some h" "s_io s0 = [] \<Longrightarrow> x = Inl e \<Longrightarrow> latest_id b = None"
proof -
  obtain f1 s1 where n1: "next_io s = (f1, s1)" by fastforce
  obtain f2 s2 where n2: "next_io s1 = (f2, s2)" by fastforce
  note o1 = next_io_only [OF assms(1) n1] and o2 = next_io_only [OF next_io_only(1) [OF assms(1) n1] n2]
  show "only_io s0 s'" "x = Inr h \<Longrightarrow> latest_id b = Some h" "s_io s0 = [] \<Longrightarrow> x = Inl e \<Longrightarrow> latest_id b = None"
    using assms(2) n1 n2 o1 o2
    by (cases f1; cases f2; auto simp: latest_ref_id_def latest_id_def simp del: words_of.simps split: list.splits option.splits)+
qed

definition then_advance :: "string \<Rightarrow> mark_res \<Rightarrow> mark_res" where
  "then_advance msg r = mark_then r (\<lambda>m s. case next_io s of (Some f, s) \<Rightarrow> mark_fail (msg @ f_msg f) m s | (None, s) \<Rightarrow> mark_ok m s)"

lemma then_advance_marks:
  assumes "marks s0 p N F m G r" "\<And>m m'. mark_le m m' \<Longrightarrow> G m \<Longrightarrow> G m'"
  shows "marks s0 p N F m G (then_advance msg r)"
  unfolding then_advance_def
proof (rule marks_then [OF assms(1)])
  fix m' s' assume a: "only_io s0 s'" "missing_ok s0 m'" "grown s0 p m m'" "mark_inv s0 N m'" "G m'"
  obtain f t where n: "next_io s' = (f, t)" by fastforce
  show "marks s0 p N F m' G (case next_io s' of (Some f, s) \<Rightarrow> mark_fail (msg @ f_msg f) m' s | (None, s) \<Rightarrow> mark_ok m' s)"
    using n next_io_only [OF a(1) n] a by (cases f) (auto simp: marks_ok marks_fail)
qed

lemma mark_then_advance:
  "mark_then r (\<lambda>m s. case next_io s of (Some f, s) \<Rightarrow> mark_fail (msg @ f_msg f) m s | (None, s) \<Rightarrow> k m s) =
   mark_then (then_advance msg r) k"
  unfolding then_advance_def mark_then_assoc
  by (rule arg_cong [where f = "mark_then r"]) (auto simp: fun_eq_iff split: prod.split option.split)

definition mark_state_ref :: "nat \<Rightarrow> gc_policy \<Rightarrow> string \<Rightarrow> string \<times> latest_file \<Rightarrow> mark \<Rightarrow> store \<Rightarrow> mark_res" where
  "mark_state_ref n p dir nf m s =
     (case next_io s of
        (Some f, s) \<Rightarrow> mark_fail (''mark: inspect state latest ref failed: '' @ f_msg f) m s
      | (None, s) \<Rightarrow> then_advance ''mark: enumerate state/latest agent failed: ''
        (case snd nf of
           LfOther \<Rightarrow> mark_ok m s
         | LfRegular body \<Rightarrow>
             (case latest_ref_id (dir @ ''/'' @ fst nf) body s of
                (Inl e, s) \<Rightarrow> mark_fail e m s
              | (Inr h, s) \<Rightarrow> mark_state_record n p h (bump gr_roots_state_refs_update m) s)))"

interpretation state_refs_loop: mark_loop s0 p N F "mark_state_ref n p dir" "mark_state_refs n p dir"
  "\<lambda>nf. \<forall>b. snd nf = LfRegular b \<longrightarrow> body_ok s0 p N F b" "\<lambda>m. fuel_ok s0 m n"
  "\<lambda>nf m. \<forall>b. snd nf = LfRegular b \<longrightarrow> body_done b m" for s0 p N F n dir
proof
  show "mark_state_refs n p dir (x # xs) m s = mark_then (mark_state_ref n p dir x m s) (mark_state_refs n p dir xs)" for x xs m s
    by (cases x; cases "snd x") (auto simp: mark_state_ref_def mark_then_advance split: prod.split option.split)
  show "marks s0 p N F m (\<lambda>m. \<forall>b. snd x = LfRegular b \<longrightarrow> body_done b m) (mark_state_ref n p dir x m s)"
    if ok: "\<forall>b. snd x = LfRegular b \<longrightarrow> body_ok s0 p N F b"
      and a: "only_io s0 s" "mark_inv s0 N m" "missing_ok s0 m" "fuel_ok s0 m n" for x s m
  proof -
    obtain f t where n: "next_io s = (f, t)" by fastforce
    note o = next_io_only [OF a(1) n]
    show ?thesis
    proof (cases f)
      case (Some e)
      then show ?thesis using n o a(3) by (auto simp: mark_state_ref_def marks_fail)
    next
      case None
      have "marks s0 p N F m (\<lambda>m. \<forall>b. snd x = LfRegular b \<longrightarrow> body_done b m)
        (case snd x of LfOther \<Rightarrow> mark_ok m t | LfRegular body \<Rightarrow>
             (case latest_ref_id (dir @ ''/'' @ fst x) body t of
                (Inl e, s) \<Rightarrow> mark_fail e m s
              | (Inr h, s) \<Rightarrow> mark_state_record n p h (bump gr_roots_state_refs_update m) s))"
      proof (cases "snd x")
        case LfOther
        then show ?thesis using o(1) a by (simp add: marks_ok)
      next
        case (LfRegular b)
        obtain y u where y: "latest_ref_id (dir @ ''/'' @ fst x) b t = (y, u)" by fastforce
        note l = latest_ref_id_spec [OF o(1) y]
        have b: "closed_nodes s0 p N F" "case latest_id b of None \<Rightarrow> F | Some h \<Rightarrow> NRecord h \<in> N"
          using ok LfRegular by (auto simp: body_ok_def)
        show ?thesis
        proof (cases y)
          case (Inl e)
          have "s_io s0 = [] \<longrightarrow> F" using l(3) [OF _ Inl] b(2) by (auto split: option.splits)
          then show ?thesis using LfRegular y Inl l(1) a(3) by (simp add: marks_fail)
        next
          case (Inr h)
          let ?m = "bump gr_roots_state_refs_update m"
          have i: "mark_inv s0 N ?m" "missing_ok s0 ?m" "grown s0 p m ?m" "fuel_ok s0 ?m n"
            using a stats_missing by (simp_all add: bump_def mark_stats_props)
          have hN: "NRecord h \<in> N" using l(2) [OF Inr] b(2) by simp
          have "marks s0 p N F m (\<lambda>m. \<forall>b. snd x = LfRegular b \<longrightarrow> body_done b m) (mark_state_record n p h ?m u)"
            by (rule marks_weaken [OF marks_from [OF i(3) state_spec(1) [OF b(1) l(1) i(1,2) hN i(4)]]])
               (use LfRegular l(2) [OF Inr] in \<open>auto simp: body_done_def\<close>)
          then show ?thesis using LfRegular y Inr by simp
        qed
      qed
      then have "marks s0 p N F m (\<lambda>m. \<forall>b. snd x = LfRegular b \<longrightarrow> body_done b m) (then_advance ''mark: enumerate state/latest agent failed: ''
        (case snd x of LfOther \<Rightarrow> mark_ok m t | LfRegular body \<Rightarrow>
             (case latest_ref_id (dir @ ''/'' @ fst x) body t of
                (Inl e, s) \<Rightarrow> mark_fail e m s
              | (Inr h, s) \<Rightarrow> mark_state_record n p h (bump gr_roots_state_refs_update m) s)))"
        by (rule then_advance_marks) (use body_done_mono in blast)
      then show ?thesis using n None by (simp add: mark_state_ref_def)
    qed
  qed
qed (use fuel_mono body_done_mono in blast | simp)+


definition mark_agent :: "nat \<Rightarrow> gc_policy \<Rightarrow> string \<Rightarrow> string \<times> latest_agent \<Rightarrow> mark \<Rightarrow> store \<Rightarrow> mark_res" where
  "mark_agent n p dir na m s =
     (case next_io s of
        (Some f, s) \<Rightarrow> mark_fail (''mark: inspect state/latest entry failed: '' @ f_msg f) m s
      | (None, s) \<Rightarrow> then_advance ''mark: enumerate state/latest failed: ''
        (case snd na of
           LaOther \<Rightarrow> mark_ok m s
         | LaDir files \<Rightarrow>
             (case next_io s of
                (Some f, s) \<Rightarrow> mark_fail (''mark: enumerate state/latest agent failed: '' @ f_msg f) m s
              | (None, s) \<Rightarrow> mark_state_refs n p (dir @ ''/'' @ fst na) files m s)))"

interpretation agents_loop: mark_loop s0 p N F "mark_agent n p dir" "mark_agents n p dir"
  "\<lambda>na. \<forall>b \<in> agent_bodies (snd na). body_ok s0 p N F b" "\<lambda>m. fuel_ok s0 m n"
  "\<lambda>na m. \<forall>b \<in> agent_bodies (snd na). body_done b m" for s0 p N F n dir
proof
  show "mark_agents n p dir (x # xs) m s = mark_then (mark_agent n p dir x m s) (mark_agents n p dir xs)" for x xs m s
    by (cases x; cases "snd x") (auto simp: mark_agent_def mark_then_advance split: prod.split option.split)
  show "marks s0 p N F m (\<lambda>m. \<forall>b \<in> agent_bodies (snd x). body_done b m) (mark_agent n p dir x m s)"
    if ok: "\<forall>b \<in> agent_bodies (snd x). body_ok s0 p N F b"
      and a: "only_io s0 s" "mark_inv s0 N m" "missing_ok s0 m" "fuel_ok s0 m n" for x s m
  proof -
    obtain f t where n: "next_io s = (f, t)" by fastforce
    note o = next_io_only [OF a(1) n]
    show ?thesis
    proof (cases f)
      case (Some e)
      then show ?thesis using n o a(3) by (auto simp: mark_agent_def marks_fail)
    next
      case None
      have "marks s0 p N F m (\<lambda>m. \<forall>b \<in> agent_bodies (snd x). body_done b m)
        (case snd x of LaOther \<Rightarrow> mark_ok m t | LaDir files \<Rightarrow>
             (case next_io t of
                (Some f, s) \<Rightarrow> mark_fail (''mark: enumerate state/latest agent failed: '' @ f_msg f) m s
              | (None, s) \<Rightarrow> mark_state_refs n p (dir @ ''/'' @ fst x) files m s))"
      proof (cases "snd x")
        case LaOther
        then show ?thesis using o(1) a by (simp add: marks_ok agent_bodies_def)
      next
        case (LaDir files)
        obtain g u where u: "next_io t = (g, u)" by fastforce
        note q = next_io_only [OF o(1) u]
        have all: "\<forall>nf \<in> set files. \<forall>b. snd nf = LfRegular b \<longrightarrow> body_ok s0 p N F b"
          using ok LaDir by (force simp: agent_bodies_def)
        show ?thesis
        proof (cases g)
          case (Some e)
          then show ?thesis using LaDir u q a(3) by (auto simp: marks_fail)
        next
          case None
          have "marks s0 p N F m (\<lambda>m. \<forall>b \<in> agent_bodies (snd x). body_done b m) (mark_state_refs n p (dir @ ''/'' @ fst x) files m u)"
            by (rule marks_weaken [OF state_refs_loop.loop_marks [OF all q(1) a(2-4)]]) (use LaDir in \<open>auto simp: agent_bodies_def\<close>)
          then show ?thesis using LaDir u None by simp
        qed
      qed
      then have "marks s0 p N F m (\<lambda>m. \<forall>b \<in> agent_bodies (snd x). body_done b m) (then_advance ''mark: enumerate state/latest failed: ''
        (case snd x of LaOther \<Rightarrow> mark_ok m t | LaDir files \<Rightarrow>
             (case next_io t of
                (Some f, s) \<Rightarrow> mark_fail (''mark: enumerate state/latest agent failed: '' @ f_msg f) m s
              | (None, s) \<Rightarrow> mark_state_refs n p (dir @ ''/'' @ fst x) files m s)))"
        by (rule then_advance_marks) (use body_done_mono in blast)
      then show ?thesis using n None by (simp add: mark_agent_def)
    qed
  qed
qed (use fuel_mono body_done_mono in blast | simp)+

interpretation runtimes_loop: mark_loop s0 p N F "\<lambda>h m s. mark_union_state n p h (bump gr_roots_runtime_states_update m) s"
  "mark_runtimes n p" "\<lambda>h. closed_nodes s0 p N F \<and> NUnion h \<in> N" "\<lambda>m. fuel_ok s0 m n" "\<lambda>h m. NUnion h \<in> tracked m" for s0 p N F n
proof
  show "marks s0 p N F m (\<lambda>m. NUnion x \<in> tracked m) (mark_union_state n p x (bump gr_roots_runtime_states_update m) s)"
    if ok: "closed_nodes s0 p N F \<and> NUnion x \<in> N"
      and a: "only_io s0 s" "mark_inv s0 N m" "missing_ok s0 m" "fuel_ok s0 m n" for x s m
  proof (rule marks_from)
    let ?m = "bump gr_roots_runtime_states_update m"
    show "grown s0 p m ?m" by (simp add: bump_def mark_stats_props)
    show "marks s0 p N F ?m (\<lambda>m. NUnion x \<in> tracked m) (mark_union_state n p x ?m s)"
      using ok a stats_missing(3) by (intro state_spec(2)) (simp_all add: bump_def mark_stats_props)
  qed
qed (use fuel_mono tracked_mono in blast | simp)+

interpretation data_loop: mark_loop s0 p N F "mark_commit_data n" "mark_data n"
  "\<lambda>c. closed_nodes s0 p N F \<and> NData c \<in> N \<and> card (stored s0) < n" "\<lambda>m. True" "\<lambda>c m. links s0 p (NData c) \<subseteq> tracked m \<and> commit_at s0 c \<noteq> None" for s0 p N F n
proof
  show "marks s0 p N F m (\<lambda>m. links s0 p (NData x) \<subseteq> tracked m \<and> commit_at s0 x \<noteq> None) (mark_commit_data n x m s)"
    if "closed_nodes s0 p N F \<and> NData x \<in> N \<and> card (stored s0) < n" "only_io s0 s" "mark_inv s0 N m" "missing_ok s0 m" for x s m
    by (rule marks_weaken [OF mark_commit_data_spec]) (use that in auto)
  show "links s0 p (NData x) \<subseteq> tracked m' \<and> commit_at s0 x \<noteq> None"
    if "mark_le m m'" "links s0 p (NData x) \<subseteq> tracked m \<and> commit_at s0 x \<noteq> None" for m m' x
    using that tracked_mono by blast
qed simp_all


section \<open>The mark phase as a whole\<close>

lemma mark_then_cases:
  assumes "mark_then r k = Some (e, m', s')"
  obtains "r = Some (e, m', s')" | m1 s1 where "r = Some (None, m1, s1)" "k m1 s1 = Some (e, m', s')"
  using assms by (auto simp: mark_then_def split: option.splits prod.splits)

lemma tree_retained:
  "mark_tree_recursive n t m s = Some (e, m', s') \<Longrightarrow> ms_retained m' = ms_retained m"
  "mark_entries n es m s = Some (e, m', s') \<Longrightarrow> ms_retained m' = ms_retained m"
proof (induction n t m s and n es m s arbitrary: e m' s' and e m' s' rule: mark_tree_recursive_mark_entries.induct)
  case (2 n t m s)
  then show ?case
    by (auto simp: Let_def mark_ok_def mark_fail_def fail_missing_def record_missing_hash_def
        split: if_splits prod.splits option.splits)
next
  case (4 n name x es m s)
  show ?case
  proof (cases "e_kind x = Tree")
    case True
    then have "mark_then (mark_tree_recursive n (e_hash x) m s) (mark_entries n es) = Some (e, m', s')" using 4(4) by simp
    then show ?thesis
    proof (rule mark_then_cases)
      show ?thesis if "mark_tree_recursive n (e_hash x) m s = Some (e, m', s')" using 4(1) [OF True that] .
      show ?thesis if "mark_tree_recursive n (e_hash x) m s = Some (None, m1, s1)" "mark_entries n es m1 s1 = Some (e, m', s')" for m1 s1
        using 4(1) [OF True that(1)] 4(2) [OF True that] by simp
    qed
  next
    case False
    let ?m = "if e_kind x \<noteq> Deleted \<and> e_hash x \<noteq> ZERO_HASH then mark_hash (e_hash x) m else m"
    have "mark_entries n es ?m s = Some (e, m', s')" using 4(4) False by simp
    from 4(3) [OF False this] show ?thesis by simp
  qed
qed (auto simp: mark_ok_def)

lemma mark_data_retained: "mark_data n cs m s = Some (None, m', s') \<Longrightarrow> ms_retained m' = ms_retained m"
proof (induction cs arbitrary: m s)
  case (Cons c cs)
  then obtain m1 s1 where m1: "mark_commit_data n c m s = Some (None, m1, s1)" "mark_data n cs m1 s1 = Some (None, m', s')"
    by (auto simp: mark_then_def split: option.splits prod.splits)
  have "ms_retained m1 = ms_retained m"
    using m1(1) tree_retained(1) by (auto simp: mark_commit_data_def mark_fail_def fail_missing_def split: prod.splits option.splits)
  with Cons.IH [OF m1(2)] show ?case by simp
qed (simp add: mark_ok_def)

lemma missing_ref_none: "missing_ref es names = None \<longleftrightarrow> set es \<subseteq> set names"
  by (induction es) auto

lemma branches_spec:
  assumes io: "only_io s0 s" and m: "mark_inv s0 N m" "missing_ok s0 m" and N: "closed_nodes s0 p N F" "gc_roots True s0 r d roots p \<subseteq> N"
    and bad: "bad_roots r d roots \<Longrightarrow> F"
  shows "marks s0 p N F m (\<lambda>m. (\<forall>name \<in> fst ` set (r_files r). \<exists>c. ref_of r name = Some c \<and> head_marked s0 p True c m) \<and>
      set (gl_expected_branch_refs roots) \<subseteq> fst ` set (r_files r))
    (mark_branches r roots p m s)"
proof -
  obtain x t where l: "list_refs r s = (x, t)" by fastforce
  note lr = list_refs_result [OF l]
  have o: "only_io s0 t" by (rule list_refs_only [OF io l])
  show ?thesis
  proof (cases x)
    case (Inl e)
    have "s_io s0 \<noteq> []" using lr(3) only_io_empty [OF io] Inl by auto
    then show ?thesis using l Inl o m(2) by (simp add: mark_branches_def marks_fail)
  next
    case (Inr names)
    then have names: "set names = fst ` set (r_files r)" using lr(1) by auto
    show ?thesis
    proof (cases "missing_ref (gl_expected_branch_refs roots) names")
      case (Some e)
      then have "\<not> set (gl_expected_branch_refs roots) \<subseteq> set names" using missing_ref_none by (metis option.distinct(1))
      then have F using bad names by (simp add: bad_roots_def)
      then show ?thesis using l Inr Some o m(2) by (simp add: mark_branches_def marks_fail)
    next
      case None
      have all: "\<forall>name \<in> set names. closed_nodes s0 p N F \<and> (case ref_of r name of None \<Rightarrow> F | Some c \<Rightarrow> head_nodes True s0 p c \<subseteq> N)"
      proof (intro ballI conjI N(1))
        fix name assume "name \<in> set names"
        then have name: "name \<in> fst ` set (r_files r)" using names by simp
        show "case ref_of r name of None \<Rightarrow> F | Some c \<Rightarrow> head_nodes True s0 p c \<subseteq> N"
          using bad name N(2) roots_sub(1) [OF name, of _ True s0 p d roots]
          by (cases "ref_of r name") (auto simp: bad_roots_def simp del: fst_conv)
      qed
      have exp: "set (gl_expected_branch_refs roots) \<subseteq> fst ` set (r_files r)" using None names missing_ref_none by metis
      from marks_weaken [OF refs_loop.loop_marks [OF all o m]]
      have "marks s0 p N F m (\<lambda>m. (\<forall>name \<in> fst ` set (r_files r). \<exists>c. ref_of r name = Some c \<and> head_marked s0 p True c m) \<and>
          set (gl_expected_branch_refs roots) \<subseteq> fst ` set (r_files r)) (mark_refs r p names m t)" using exp names by simp
      then show ?thesis using l Inr None by (simp add: mark_branches_def)
    qed
  qed
qed

lemma latest_spec:
  assumes io: "only_io s0 s" and m: "mark_inv s0 N m" "missing_ok s0 m" "fuel_ok s0 m n"
    and N: "closed_nodes s0 p N F" "gc_roots True s0 r d roots p \<subseteq> N" and bad: "bad_roots r d roots \<Longrightarrow> F"
  shows "marks s0 p N F m (\<lambda>m. \<forall>b \<in> latest_bodies d. body_done b m) (mark_latest n p d m s)"
proof -
  obtain f t where n: "next_io s = (f, t)" by fastforce
  note o = next_io_only [OF io n]
  have ok: "body_ok s0 p N F b" if "b \<in> latest_bodies d" for b
    using bad that N roots_sub(2) [OF that, of _ True s0 r roots p]
    by (cases "latest_id b") (auto simp: body_ok_def bad_roots_def)
  let ?as = "if sd_latest d then sd_agents d else []"
  have all: "\<forall>na \<in> set ?as. \<forall>b \<in> agent_bodies (snd na). body_ok s0 p N F b"
    using ok by (force simp: latest_bodies_def)
  have "marks s0 p N F m (\<lambda>m. \<forall>b \<in> latest_bodies d. body_done b m) (mark_agents n p (latest_root t) ?as m t)"
    by (rule marks_weaken [OF agents_loop.loop_marks [OF all o(1) m]]) (auto simp: latest_bodies_def)
  then show ?thesis using n o m(2) by (cases f) (auto simp: mark_latest_def marks_fail)
qed


definition roots_marked :: "store \<Rightarrow> refs \<Rightarrow> state_dir \<Rightarrow> gc_live_roots \<Rightarrow> gc_policy \<Rightarrow> mark \<Rightarrow> bool" where
  "roots_marked s r d roots p m \<longleftrightarrow> gc_roots (s_io s = []) s r d roots p \<subseteq> covered s p m \<and>
     (\<forall>c \<in> set (ms_retained m). links s p (NData c) \<subseteq> tracked m \<and> commit_at s c \<noteq> None) \<and> \<not> bad_roots r d roots"

lemma mark_live_props:
  "mark_le m (mark_live roots m)" "tracked (mark_live roots m) = tracked m" "missing_ok s (mark_live roots m) = missing_ok s m"
  "grown s p m (mark_live roots m)" "ms_retained (mark_live roots m) = ms_retained m"
  "NBlob ` (set (gl_wt_hashes roots) \<union> set (gl_fh_blob_hashes roots) \<union> set (gl_fh_pinned_commits roots) \<union> set (gl_pending roots))
     \<subseteq> covered s p (mark_live roots m)"
  by (auto simp: mark_live_def mark_all_def mark_le_def tracked_def missing_ok_def covered_def intro!: grown_flat)

lemma mark_live_inv: "mark_inv s N m \<Longrightarrow> gc_roots full s r d roots p \<subseteq> N \<Longrightarrow> mark_inv s N (mark_live roots m)"
  unfolding mark_live_def by (intro mark_all_inv) (auto simp: gc_roots_def)

lemma head_covered: "head_marked s p True c m \<Longrightarrow> head_nodes (s_io s = []) s p c \<subseteq> covered s p m"
  by (auto simp: head_marked_def head_nodes_def covered_def)

lemma mark_impl_spec:
  fixes mi :: "hash list option"
  defines "m0 \<equiv> mark_new mi gc_result_new"
  assumes N: "closed_nodes s p N F" "gc_roots True s r d roots p \<subseteq> N" and bad: "bad_roots r d roots \<Longrightarrow> F"
    and mi: "mi = None \<or> mi = Some []"
  shows "marks s p N F m0 (roots_marked s r d roots p) (mark_impl r d roots p m0 s)"
proof -
  let ?n = "gc_fuel s" and ?A = "\<lambda>m. (\<forall>name \<in> fst ` set (r_files r). \<exists>c. ref_of r name = Some c \<and> head_marked s p True c m) \<and>
    set (gl_expected_branch_refs roots) \<subseteq> fst ` set (r_files r)"
  let ?B = "\<lambda>m. \<forall>b \<in> latest_bodies d. body_done b m" and ?C = "\<lambda>m. \<forall>h \<in> set (gl_runtime_union_states roots). NUnion h \<in> tracked m"
  have i0: "mark_inv s N m0" "missing_ok s m0" using mi by (auto simp: m0_def mark_new_def gc_result_new_def mark_inv_def missing_ok_def tracked_def)
  have "card (stored s) \<le> length (s_objects s)"
  proof -
    have "stored s = fst ` set (s_objects s)" by (auto simp: find_object_def map_of_eq_None_iff)
    then show ?thesis by (metis card_length length_map set_map)
  qed
  moreover have f0: "fuel_ok s m n" if "2 * card (stored s) < n" for m n
  proof -
    have "card (stored s - X) \<le> card (stored s)" for X using finite_stored [of s] by (intro card_mono) auto
    from this [of "ms_records m"] this [of "ms_unions m"] that show ?thesis by linarith
  qed
  ultimately have fuel: "fuel_ok s m ?n" "card (stored s) < ?n" for m by (auto simp: gc_fuel_def intro!: f0)
  have Am: "mark_le m m' \<Longrightarrow> ?A m \<Longrightarrow> ?A m'" for m m' using head_marked_mono by blast
  have Bm: "mark_le m m' \<Longrightarrow> ?B m \<Longrightarrow> ?B m'" for m m' using body_done_mono by blast
  have Cm: "mark_le m m' \<Longrightarrow> ?C m \<Longrightarrow> ?C m'" for m m' using tracked_mono by blast
  have last: "marks s p N F m (roots_marked s r d roots p)
      (mark_then (mark_data ?n (ms_retained m) (mark_live roots m) s') (\<lambda>m s. mark_ok (count_compacted m) s))"
    if a: "only_io s s'" "missing_ok s m" "mark_inv s N m" and g: "?A m" "?B m" "?C m" for m s'
  proof -
    let ?l = "mark_live roots m"
    have l: "mark_inv s N ?l" "missing_ok s ?l" using mark_live_inv [OF a(3) N(2)] a(2) by (simp_all add: mark_live_props)
    have all: "\<forall>c \<in> set (ms_retained m). closed_nodes s p N F \<and> NData c \<in> N \<and> card (stored s) < ?n"
      using N(1) fuel(2) a(3) by (auto simp: mark_inv_def)
    have "marks s p N F ?l (roots_marked s r d roots p)
      (mark_then (mark_data ?n (ms_retained m) ?l s') (\<lambda>m s. mark_ok (count_compacted m) s))"
    proof (rule marks_then [OF data_loop.loop_marks [OF all a(1) l TrueI]])
      fix m1 s1 assume b: "mark_data ?n (ms_retained m) ?l s' = Some (None, m1, s1)" "only_io s s1" "missing_ok s m1"
        "grown s p ?l m1" "mark_inv s N m1" "\<forall>c \<in> set (ms_retained m). links s p (NData c) \<subseteq> tracked m1 \<and> commit_at s c \<noteq> None"
      let ?c = "count_compacted m1"
      have ret: "ms_retained ?c = ms_retained m"
        using mark_data_retained [OF b(1)] by (simp add: mark_live_props count_compacted_def)
      have c: "mark_le m1 ?c" "tracked ?c = tracked m1" "missing_ok s ?c" "mark_inv s N ?c" "grown s p m1 ?c"
        using b stats_missing(4) by (simp_all add: count_compacted_def mark_stats_props)
      have le: "mark_le ?l ?c" "mark_le m ?c"
        using mark_le_trans [OF grown_le [OF b(4)] c(1)] mark_le_trans [OF mark_live_props(1)] by blast+
      note g' = Am [OF le(2) g(1)] Bm [OF le(2) g(2)] Cm [OF le(2) g(3)]
      have "gc_roots (s_io s = []) s r d roots p \<subseteq> covered s p ?c"
      proof -
        have "head_nodes (s_io s = []) s p c \<subseteq> covered s p ?c" if nm: "name \<in> fst ` set (r_files r)" "ref_of r name = Some c" for name c
        proof -
          obtain c' where "ref_of r name = Some c'" "head_marked s p True c' ?c" using bspec [OF conjunct1 [OF g'(1)] nm(1)] by blast
          with nm(2) show ?thesis using head_covered by simp
        qed
        moreover have "NRecord h \<in> covered s p ?c" if "b \<in> latest_bodies d" "latest_id b = Some h" for b h
          using bspec [OF g'(2) that(1)] that(2) by (simp add: body_done_def covered_def)
        moreover have "NUnion ` set (gl_runtime_union_states roots) \<subseteq> covered s p ?c" using g'(3) by (auto simp: covered_def)
        ultimately show ?thesis using covered_sub [OF le(1) mark_live_props(6)] by (rule roots_least)
      qed
      moreover have "\<not> bad_roots r d roots"
        using g'(1,2) unfolding bad_roots_def body_done_def by (metis option.distinct(1))
      ultimately have "roots_marked s r d roots p ?c" using ret b(6) c(2) by (simp add: roots_marked_def)
      then show "marks s p N F m1 (roots_marked s r d roots p) (mark_ok ?c s1)" using b(2) c by (simp add: marks_ok)
    qed
    then show ?thesis by (rule marks_from [OF mark_live_props(4)])
  qed
  show ?thesis
    unfolding mark_impl_def Let_def
  proof (rule marks_then [OF branches_spec [OF only_io_refl i0 N bad]])
    fix m1 s1 assume a: "only_io s s1" "missing_ok s m1" "mark_inv s N m1" "?A m1"
    show "marks s p N F m1 (roots_marked s r d roots p) (mark_then (mark_latest ?n p d m1 s1) (\<lambda>m s.
      mark_then (mark_runtimes ?n p (gl_runtime_union_states roots) m s) (\<lambda>m s.
      mark_then (mark_data ?n (ms_retained m) (mark_live roots m) s) (\<lambda>m s. mark_ok (count_compacted m) s))))"
    proof (rule marks_then [OF latest_spec [OF a(1,3,2) fuel(1) N bad]])
      fix m2 s2 assume b: "only_io s s2" "missing_ok s m2" "grown s p m1 m2" "mark_inv s N m2" "?B m2"
      have all: "\<forall>h \<in> set (gl_runtime_union_states roots). closed_nodes s p N F \<and> NUnion h \<in> N"
        using N by (auto simp: gc_roots_def)
      show "marks s p N F m2 (roots_marked s r d roots p) (mark_then (mark_runtimes ?n p (gl_runtime_union_states roots) m2 s2) (\<lambda>m s.
        mark_then (mark_data ?n (ms_retained m) (mark_live roots m) s) (\<lambda>m s. mark_ok (count_compacted m) s)))"
      proof (rule marks_then [OF runtimes_loop.loop_marks [OF all b(1,4,2) fuel(1)]])
        fix m3 s3 assume c: "only_io s s3" "missing_ok s m3" "grown s p m2 m3" "mark_inv s N m3" "?C m3"
        have "?A m3" using Am [OF mark_le_trans [OF grown_le [OF b(3)] grown_le [OF c(3)]] a(4)] .
        moreover have "?B m3" using Bm [OF grown_le [OF c(3)] b(5)] .
        ultimately show "marks s p N F m3 (roots_marked s r d roots p)
          (mark_then (mark_data ?n (ms_retained m3) (mark_live roots m3) s3) (\<lambda>m s. mark_ok (count_compacted m) s))"
          using last [OF c(1,2,4)] c(5) by blast
      qed
    qed
  qed
qed

end
