(* ===== verification/GcSweep.thy ===== *)
theory GcSweep
  imports GcRun
begin

text \<open>
  What the collector as a whole does to a store. Walking the objects has an interface, the
  locale \<open>object_visit\<close> (and \<open>object_sweep\<close> for walks that must reach every object), of which the
  sweep is the interpretation.
\<close>

section \<open>What is marked\<close>

abbreviation needed :: "bool \<Rightarrow> store \<Rightarrow> refs \<Rightarrow> state_dir \<Rightarrow> gc_live_roots \<Rightarrow> gc_policy \<Rightarrow> node set" where
  "needed full s r d roots p \<equiv> reach_from (links s p) (gc_roots full s r d roots p)"

lemma roots_full: "gc_roots full s r d roots p \<subseteq> gc_roots True s r d roots p"
proof (rule roots_least)
  show "head_nodes full s p c \<subseteq> gc_roots True s r d roots p" if "name \<in> fst ` set (r_files r)" "ref_of r name = Some c" for name c
    using roots_sub(1) [OF that, of True s p d roots] by (auto simp: head_nodes_def)
qed (auto simp: gc_roots_def)

lemma needed_closed: "closed_nodes s p (needed full s r d roots p) (\<exists>v \<in> needed full s r d roots p. unreadable s v)"
  unfolding closed_nodes_def using reach_step [of _ "links s p" "gc_roots full s r d roots p"] by blast

lemma covered_closed:
  assumes g: "grown s p m0 m" "tracked m0 = {}" and r: "\<forall>c \<in> set (ms_retained m). links s p (NData c) \<subseteq> tracked m \<and> commit_at s c \<noteq> None"
    and i: "set (ms_retained m) \<subseteq> ms_marked m" and v: "v \<in> covered s p m"
  shows "links s p v \<subseteq> covered s p m" "node_hash v \<in> ms_marked m" "\<not> corrupt s v"
proof -
  have t: "links s p v \<subseteq> covered s p m \<and> node_hash v \<in> ms_marked m \<and> \<not> corrupt s v" if "v \<in> tracked m"
    using g that by (simp add: grown_def)
  have d: "links s p v \<subseteq> covered s p m \<and> node_hash v \<in> ms_marked m \<and> \<not> corrupt s v" if "v = NData c" "c \<in> set (ms_retained m)" for c
    using r i that by (auto simp: covered_def simp del: links.simps)
  have h: "links s p v \<subseteq> covered s p m \<and> node_hash v \<in> ms_marked m \<and> \<not> corrupt s v" if c: "v = NCommit c" "history_marked s p m c" for c
  proof -
    have root: "c \<in> ancestors s c" by (rule reach_root) simp
    then obtain cd where cd: "commit_at s c = Some cd" "c \<in> ms_marked m" "kept_by_policy p cd \<longrightarrow> c \<in> set (ms_retained m)"
      using c(2) unfolding history_marked_def by blast
    have "history_marked s p m q" if "q \<in> set (cd_parents cd)" for q
    proof -
      have "q \<in> ancestors s c" using reach_step [OF root, of q] cd(1) that by (simp add: parents_of_def)
      then have "ancestors s q \<subseteq> ancestors s c" using reach_trans by fast
      with c(2) show ?thesis unfolding history_marked_def by blast
    qed
    with cd c(1) show ?thesis by (auto simp: covered_def)
  qed
  have b: "links s p v \<subseteq> covered s p m \<and> node_hash v \<in> ms_marked m \<and> \<not> corrupt s v" if "v \<in> NBlob ` ms_marked m"
    using that by auto
  from v t d h b show "links s p v \<subseteq> covered s p m" "node_hash v \<in> ms_marked m" "\<not> corrupt s v"
    unfolding covered_def by blast+
qed

lemma mark_result:
  assumes "mi = None \<or> mi = Some []"
  obtains e m s' where "mark_impl r d roots p (mark_new mi gc_result_new) s = Some (e, m, s')" "only_io s s'" "missing_ok s m"
    "e = None \<Longrightarrow> node_hash ` needed (s_io s = []) s r d roots p \<subseteq> ms_marked m \<and>
       ms_marked m \<subseteq> node_hash ` needed True s r d roots p \<and> ms_missing m = mi \<and> \<not> bad_roots r d roots \<and>
       (\<forall>v \<in> needed (s_io s = []) s r d roots p. \<not> corrupt s v)"
    "e \<noteq> None \<Longrightarrow> s_io s = [] \<Longrightarrow> bad_roots r d roots \<or> (\<exists>v \<in> needed True s r d roots p. unreadable s v)"
proof -
  let ?N = "needed True s r d roots p" and ?m0 = "mark_new mi gc_result_new"
  let ?F = "bad_roots r d roots \<or> (\<exists>v \<in> ?N. unreadable s v)"
  have "closed_nodes s p ?N ?F" using needed_closed [of s p True r d roots] unfolding closed_nodes_def by blast
  moreover have "gc_roots True s r d roots p \<subseteq> ?N" by (rule subsetI) (rule reach_root)
  ultimately have m: "marks s p ?N ?F ?m0 (roots_marked s r d roots p) (mark_impl r d roots p ?m0 s)"
    using assms by (intro mark_impl_spec) auto
  then obtain e m' s' where r: "mark_impl r d roots p ?m0 s = Some (e, m', s')" "only_io s s'" "missing_ok s m'"
    by (auto simp: marks_def split: option.splits)
  show thesis
  proof (rule that [OF r])
    assume "e = None"
    then have g: "grown s p ?m0 m'" "mark_inv s ?N m'" "roots_marked s r d roots p m'" using m r by (auto simp: marks_def)
    have i: "ms_marked m' \<subseteq> node_hash ` ?N" "set (ms_retained m') \<subseteq> ms_marked m'" using g(2) by (simp_all add: mark_inv_def)
    have c: "gc_roots (s_io s = []) s r d roots p \<subseteq> covered s p m'"
      "\<forall>c \<in> set (ms_retained m'). links s p (NData c) \<subseteq> tracked m' \<and> commit_at s c \<noteq> None" "\<not> bad_roots r d roots"
      using g(3) unfolding roots_marked_def by blast+
    have "tracked ?m0 = {}" by (simp add: tracked_def mark_new_def)
    note cc = covered_closed [OF g(1) this c(2) i(2)]
    have n: "needed (s_io s = []) s r d roots p \<subseteq> covered s p m'" by (rule reach_least [OF c(1)]) (use cc(1) in blast)
    moreover have "ms_missing m' = mi" using grown_le [OF g(1)] by (simp add: mark_le_def mark_new_def)
    ultimately show "node_hash ` needed (s_io s = []) s r d roots p \<subseteq> ms_marked m' \<and>
       ms_marked m' \<subseteq> node_hash ` ?N \<and> ms_missing m' = mi \<and> \<not> bad_roots r d roots \<and>
       (\<forall>v \<in> needed (s_io s = []) s r d roots p. \<not> corrupt s v)"
      using cc(2,3) i(1) c(3) by blast
  next
    assume "e \<noteq> None" "s_io s = []"
    then show ?F using m r by (auto simp: marks_def)
  qed
qed

section \<open>Walking the objects\<close>

locale object_visit =
  fixes cb :: "hash \<Rightarrow> nat \<Rightarrow> int \<Rightarrow> 'a \<times> store \<Rightarrow> 'a \<times> store" and R :: "'a \<times> store \<Rightarrow> 'a \<times> store \<Rightarrow> bool"
  assumes refl: "R x x" and trans: "R x y \<Longrightarrow> R y z \<Longrightarrow> R x z"
    and io: "next_io s = (f, s') \<Longrightarrow> R (a, s) (a, s')"
    and visit: "R x (cb h sz t x)"
begin

lemma each_entry_R: "each_entry cb d names (a, s) = (e, y) \<Longrightarrow> R (a, s) y"
proof (induction names arbitrary: a s)
  case (Cons name names)
  define st where "st = (case (if length name \<noteq> 64 then None else hex_to_hash name) of
                  None \<Rightarrow> (a, s)
                | Some h \<Rightarrow>
                    (case next_io s of
                       (Some _, s) \<Rightarrow> (a, s)
                     | (None, s) \<Rightarrow> (case stat_entry s d name of
                                       None \<Rightarrow> (a, s)
                                     | Some (sz, mtime) \<Rightarrow> cb h sz mtime (a, s))))"
  obtain f s2 where n: "next_io (snd st) = (f, s2)" by fastforce
  obtain f1 s1 where n1: "next_io s = (f1, s1)" by fastforce
  have io1: "R (a, s) (a, s1)" by (rule io [OF n1])
  have cb1: "R (a, s) (cb h sz t (a, s1))" for h sz t by (rule trans [OF io1 visit])
  have r1: "R (a, s) st"
    using n1 refl io1 cb1
    by (cases "length name = 64"; cases "hex_to_hash name"; cases f1; cases "stat_entry s1 d name") (auto simp: st_def)
  have "R st (fst st, s2)" using io [OF n, of "fst st"] by simp
  then have r2: "R (a, s) (fst st, s2)" using r1 trans by blast
  show ?case
  proof (cases f)
    case None
    then have "each_entry cb d names (fst st, s2) = (e, y)" using Cons.prems n by (simp add: st_def Let_def)
    from Cons.IH [OF this] show ?thesis using r2 trans by blast
  next
    case (Some x)
    then have "y = (fst st, s2)" using Cons.prems n by (simp add: st_def Let_def)
    with r2 show ?thesis by simp
  qed
qed (simp add: refl)

lemma each_shard_R: "each_shard cb ds (a, s) = (e, y) \<Longrightarrow> R (a, s) y"
proof (induction ds arbitrary: a s)
  case (Cons d ds)
  obtain f1 s1 where n1: "next_io s = (f1, s1)" by fastforce
  obtain e2 a2 s2 where n2: "each_entry cb d (shard_names s1 d) (a, s1) = (e2, a2, s2)" using prod_cases3 by blast
  obtain f3 s3 where n3: "next_io s2 = (f3, s3)" by fastforce
  note r1 = io [OF n1, of a] and r2 = each_entry_R [OF n2] and r3 = io [OF n3, of a2]
  have r12: "R (a, s) (a2, s2)" using r1 r2 trans by blast
  have r123: "R (a, s) (a2, s3)" using r12 r3 trans by blast
  have r4: "each_shard cb ds (a2, s3) = (e, y) \<Longrightarrow> R (a, s) y" using Cons.IH r123 trans by blast
  show ?case using Cons.prems n1 n2 n3 r1 r12 r123 r4 by (cases f1; cases e2; cases f3) auto
qed (simp add: refl)

lemma for_each_R: "for_each_object cb x = (e, y) \<Longrightarrow> R x y"
proof -
  assume a: "for_each_object cb x = (e, y)"
  obtain f s where n: "next_io (snd x) = (f, s)" by fastforce
  have r: "R x (fst x, s)" using io [OF n, of "fst x"] by simp
  show ?thesis
  proof (cases f)
    case None
    then have "each_shard cb (s_shards s) (fst x, s) = (e, y)" using a n by (simp add: for_each_object_def)
    from each_shard_R [OF this] show ?thesis using r trans by blast
  next
    case (Some f')
    then show ?thesis using a n r by (simp add: for_each_object_def)
  qed
qed

end

text \<open>Without faults every object is visited; \<open>D h\<close> is what visiting \<open>h\<close> achieves.\<close>

locale object_sweep = object_visit +
  fixes D :: "hash \<Rightarrow> 'a \<times> store \<Rightarrow> bool"
  assumes calm: "R x y \<Longrightarrow> s_io (snd x) = [] \<Longrightarrow> s_io (snd y) = []"
    and stable: "R x y \<Longrightarrow> D h x \<Longrightarrow> D h y"
    and absent: "find_object s h = None \<Longrightarrow> D h (a, s)"
    and hit: "s_io s = [] \<Longrightarrow> find_object s h = Some ob \<Longrightarrow> D h (cb h (length (o_data ob)) (o_mtime ob) (a, s))"
begin

lemma stat_object: "shard_of h = d \<Longrightarrow> find_object s h = Some ob \<Longrightarrow> stat_entry s d (hash_to_hex h) = Some (length (o_data ob), o_mtime ob)"
proof -
  assume a: "shard_of h = d" "find_object s h = Some ob"
  have "map_of (map (\<lambda>(h, ob). (hash_to_hex h, ob)) (filter (\<lambda>p. shard_of (fst p) = d) xs)) (hash_to_hex h) = map_of xs h" for xs :: "(hash \<times> object) list"
    using a(1) by (induction xs) auto
  with a(2) show ?thesis by (simp add: stat_entry_def find_object_def)
qed

lemma each_entry_D:
  assumes "s_io s = []"
  shows "\<exists>y. each_entry cb d names (a, s) = (None, y) \<and> (\<forall>h. hash_to_hex h \<in> set names \<and> shard_of h = d \<longrightarrow> D h y)"
  using assms
proof (induction names arbitrary: a s)
  case (Cons name names)
  have n: "next_io s = (None, s)" using Cons.prems by (simp add: next_io_def)
  define st where "st = (case (if length name \<noteq> 64 then None else hex_to_hash name) of
                  None \<Rightarrow> (a, s)
                | Some h \<Rightarrow> (case stat_entry s d name of None \<Rightarrow> (a, s) | Some (sz, mtime) \<Rightarrow> cb h sz mtime (a, s)))"
  have r: "R (a, s) st" unfolding st_def using refl visit by (auto split: option.split)
  then have io2: "s_io (snd st) = []" using calm Cons.prems by fastforce
  then have n2: "next_io (snd st) = (None, snd st)" by (simp add: next_io_def)
  have step: "each_entry cb d (name # names) (a, s) = each_entry cb d names st"
    using n n2 by (cases "length name = 64"; cases "hex_to_hash name"; cases "stat_entry s d name") (auto simp: st_def)
  obtain y where y: "each_entry cb d names st = (None, y)" "\<forall>h. hash_to_hex h \<in> set names \<and> shard_of h = d \<longrightarrow> D h y"
    using Cons.IH [OF io2, of "fst st"] by auto
  have "R st y" using each_entry_R [of d names "fst st" "snd st"] y(1) by simp
  have "D h y" if h: "hash_to_hex h = name" "shard_of h = d" for h
  proof -
    have "D h st"
    proof (cases "find_object s h")
      case None
      then show ?thesis using absent stable [OF r] by blast
    next
      case (Some ob)
      then have "st = cb h (length (o_data ob)) (o_mtime ob) (a, s)"
        using stat_object [OF h(2) Some] h(1) by (auto simp: st_def)
      with hit [OF Cons.prems Some] show ?thesis by simp
    qed
    then show ?thesis by (rule stable [OF \<open>R st y\<close>])
  qed
  with y step show ?case by auto
qed simp

lemma each_shard_D:
  assumes "s_io s = []"
  shows "\<exists>y. each_shard cb ds (a, s) = (None, y) \<and> (\<forall>h. shard_of h \<in> set ds \<longrightarrow> D h y)"
  using assms
proof (induction ds arbitrary: a s)
  case (Cons d ds)
  have n: "next_io s = (None, s)" using Cons.prems by (simp add: next_io_def)
  obtain a2 s2 where e: "each_entry cb d (shard_names s d) (a, s) = (None, a2, s2)"
    "\<forall>h. hash_to_hex h \<in> set (shard_names s d) \<and> shard_of h = d \<longrightarrow> D h (a2, s2)"
    using each_entry_D [OF Cons.prems, of d "shard_names s d" a] by auto
  have r: "R (a, s) (a2, s2)" by (rule each_entry_R [OF e(1)])
  have io2: "s_io s2 = []" using calm [OF r] Cons.prems by simp
  then have n2: "next_io s2 = (None, s2)" by (simp add: next_io_def)
  obtain y where y: "each_shard cb ds (a2, s2) = (None, y)" "\<forall>h. shard_of h \<in> set ds \<longrightarrow> D h y"
    using Cons.IH [OF io2, of a2] by auto
  have ry: "R (a2, s2) y" by (rule each_shard_R [OF y(1)])
  have "D h y" if h: "shard_of h = d" for h
  proof (cases "find_object s h")
    case None
    then show ?thesis using absent stable [OF r] stable [OF ry] by blast
  next
    case (Some ob)
    then have "(h, ob) \<in> set (s_objects s)" by (auto simp: find_object_def dest: map_of_SomeD)
    then have "hash_to_hex h \<in> set (shard_names s d)" using h by (force simp: shard_names_def)
    with e(2) h stable [OF ry] show ?thesis by blast
  qed
  with y n e(1) n2 show ?case by auto
qed simp

lemma for_each_D:
  assumes "s_io s = []"
  shows "\<exists>y. for_each_object cb (a, s) = (None, y) \<and> (\<forall>h. shard_of h \<in> set (s_shards s) \<longrightarrow> D h y)"
  using each_shard_D [OF assms, of "s_shards s" a] assms by (simp add: for_each_object_def next_io_def)

end


section \<open>The sweep\<close>

text \<open>From \<open>s\<close> to \<open>s'\<close> only objects outside \<open>M\<close> went, none pending and none as young as the fence.\<close>

definition swept :: "hash set \<Rightarrow> int \<Rightarrow> store \<Rightarrow> store \<Rightarrow> bool" where
  "swept M fence s s' \<longleftrightarrow> s_pending s' = s_pending s \<and> s_shards s' = s_shards s \<and> (s_io s = [] \<longrightarrow> s_io s' = []) \<and>
     (\<forall>h. find_object s' h = find_object s h \<or> find_object s' h = None \<and> h \<notin> M \<and> h \<notin> set (s_pending s) \<and>
        (\<exists>ob. find_object s h = Some ob \<and> o_mtime ob < fence))"

lemma swept_refl [simp]: "swept M f s s"
  by (simp add: swept_def)

lemma swept_trans:
  assumes a: "swept M f s t" and b: "swept M f t u"
  shows "swept M f s u"
proof -
  have "find_object u h = find_object s h \<or> find_object u h = None \<and> h \<notin> M \<and> h \<notin> set (s_pending s) \<and>
      (\<exists>ob. find_object s h = Some ob \<and> o_mtime ob < f)" for h
  proof (cases "find_object t h = find_object s h")
    case True
    with a b show ?thesis unfolding swept_def by metis
  next
    case False
    then have "find_object t h = None \<and> h \<notin> M \<and> h \<notin> set (s_pending s) \<and> (\<exists>ob. find_object s h = Some ob \<and> o_mtime ob < f)"
      using a unfolding swept_def by blast
    moreover from this have "find_object u h = None" using b unfolding swept_def by (metis option.distinct(1))
    ultimately show ?thesis by blast
  qed
  with a b show ?thesis by (simp add: swept_def)
qed

lemma only_io_swept: "only_io s s' \<Longrightarrow> swept M f s s'"
proof -
  assume o: "only_io s s'"
  then obtain io where "s' = s\<lparr>s_io := io\<rparr>" unfolding only_io_def by blast
  then show ?thesis using only_io_same(3) [OF o] only_io_empty [OF o] by (auto simp: swept_def)
qed

lemma swept_next_io: "next_io s = (f, s') \<Longrightarrow> swept M g s s'"
  using next_io_step only_io_swept by blast

lemma swept_remove:
  assumes "remove_object_if_older_than h fence s = (r, s')" "h \<notin> M"
  shows "swept M fence s s'" "s_io s = [] \<Longrightarrow> r \<noteq> RemoveError e"
    "s_io s = [] \<Longrightarrow> h \<notin> set (s_pending s) \<Longrightarrow> find_object s h = Some ob \<Longrightarrow> o_mtime ob < fence \<Longrightarrow> find_object s' h = None"
proof -
  show "swept M fence s s'"
  proof (cases "h \<in> set (s_pending s)")
    case True
    with assms show ?thesis by (simp add: remove_object_if_older_than_def)
  next
    case False
    obtain f1 s1 where n1: "next_io s = (f1, s1)" by fastforce
    obtain f2 s2 where n2: "next_io s1 = (f2, s2)" by fastforce
    have w: "swept M fence s s1" "swept M fence s s2" using swept_next_io [OF n1] swept_next_io [OF n2] swept_trans by blast+
    have o: "only_io s s2" using next_io_step [OF n1] next_io_step [OF n2] only_io_trans by blast
    have d: "swept M fence s2 (s2\<lparr>s_objects := om_del h (s_objects s2)\<rparr>)" if that: "find_object s1 h = Some ob" "o_mtime ob < fence" for ob
    proof -
      have "find_object (s2\<lparr>s_objects := om_del h (s_objects s2)\<rparr>) k = (if k = h then None else find_object s2 k)" for k
        by (simp add: find_object_def om_simps)
      moreover have "find_object s2 h = Some ob" using that(1) next_io_same(1) [OF n2] by simp
      moreover have "h \<notin> set (s_pending s2)" using False w(2) by (simp add: swept_def)
      ultimately show ?thesis using assms(2) that(2) by (simp add: swept_def)
    qed
    note t = swept_trans [OF w(2) d]
    show ?thesis
      using assms(1) False n1 n2 w t
      by (cases f1; cases f2; cases "find_object s1 h") (auto simp: remove_object_if_older_than_def split: if_splits)
  qed
  show "r \<noteq> RemoveError e" if "s_io s = []"
    using assms(1) that by (auto simp: remove_object_if_older_than_def next_io_def split: if_splits option.splits)
  show "find_object s' h = None" if "s_io s = []" "h \<notin> set (s_pending s)" "find_object s h = Some ob" "o_mtime ob < fence"
    using assms(1) that by (auto simp: remove_object_if_older_than_def next_io_def find_object_def om_simps)
qed

definition sweep_rel :: "hash set \<Rightarrow> gc_policy \<Rightarrow> int \<Rightarrow> gc_result \<times> store \<Rightarrow> gc_result \<times> store \<Rightarrow> bool" where
  "sweep_rel M p start x y \<longleftrightarrow> swept (if gp_dry_run p then UNIV else M) (start - 2) (snd x) (snd y) \<and>
     (s_io (snd x) = [] \<longrightarrow> gr_sweep_errors (fst y) = gr_sweep_errors (fst x))"

definition sweep_done :: "hash set \<Rightarrow> gc_policy \<Rightarrow> int \<Rightarrow> hash \<Rightarrow> gc_result \<times> store \<Rightarrow> bool" where
  "sweep_done M p start h x \<longleftrightarrow> gp_dry_run p \<or> h \<in> M \<or> h \<in> set (s_pending (snd x)) \<or>
     (case find_object (snd x) h of None \<Rightarrow> True | Some ob \<Rightarrow> start \<le> o_mtime ob + 2)"

interpretation sweep: object_sweep "sweep_object M p start" "sweep_rel M p start" "sweep_done M p start" for M p start
proof
  show "sweep_rel M p start x x" for x by (simp add: sweep_rel_def)
  show "sweep_rel M p start x z" if "sweep_rel M p start x y" "sweep_rel M p start y z" for x y z
  proof -
    have "s_io (snd x) = [] \<longrightarrow> s_io (snd y) = []" using that(1) by (simp add: sweep_rel_def swept_def)
    moreover have "swept (if gp_dry_run p then UNIV else M) (start - 2) (snd x) (snd z)"
      using that swept_trans unfolding sweep_rel_def by blast
    ultimately show ?thesis using that unfolding sweep_rel_def by simp
  qed
  show "sweep_rel M p start (a, s) (a, s')" if "next_io s = (f, s')" for s f s' a
    using swept_next_io [OF that] by (simp add: sweep_rel_def)
  show "sweep_rel M p start x (sweep_object M p start h sz t x)" for x h sz t
  proof (cases "h \<in> M \<or> start \<le> t + 2 \<or> gp_dry_run p")
    case True
    then show ?thesis by (auto simp: sweep_rel_def sweep_object_def split: prod.split)
  next
    case False
    obtain r s where x: "x = (r, s)" by fastforce
    obtain e s' where e: "remove_object_if_older_than h (start - 2) s = (e, s')" by fastforce
    note w = swept_remove [OF e, of M]
    show ?thesis using False x e w by (cases e) (auto simp: sweep_rel_def sweep_object_def)
  qed
  show "s_io (snd y) = []" if "sweep_rel M p start x y" "s_io (snd x) = []" for x y :: "gc_result \<times> store"
    using that by (simp add: sweep_rel_def swept_def)
  show "sweep_done M p start h y" if "sweep_rel M p start x y" "sweep_done M p start h x" for x y :: "gc_result \<times> store" and h
  proof -
    have "s_pending (snd y) = s_pending (snd x)" "find_object (snd y) h \<in> {find_object (snd x) h, None}"
      using that(1) unfolding sweep_rel_def swept_def by blast+
    with that(2) show ?thesis by (auto simp: sweep_done_def split: option.splits)
  qed
  show "sweep_done M p start h (a, s)" if "find_object s h = None" for s h and a :: gc_result
    using that by (simp add: sweep_done_def)
  show "sweep_done M p start h (sweep_object M p start h (length (o_data ob)) (o_mtime ob) (a, s))"
    if ob: "s_io s = []" "find_object s h = Some ob" for s h ob and a :: gc_result
  proof (cases "h \<in> M \<or> start \<le> o_mtime ob + 2 \<or> gp_dry_run p \<or> h \<in> set (s_pending s)")
    case True
    then consider "h \<in> M \<or> gp_dry_run p" | "h \<notin> M" "\<not> gp_dry_run p" "start \<le> o_mtime ob + 2"
      | "h \<notin> M" "\<not> gp_dry_run p" "\<not> start \<le> o_mtime ob + 2" "h \<in> set (s_pending s)" by blast
    then show ?thesis
      by cases (use ob in \<open>auto simp: sweep_done_def sweep_object_def remove_object_if_older_than_def split: prod.split\<close>)
  next
    case False
    obtain e s' where e: "remove_object_if_older_than h (start - 2) s = (e, s')" by fastforce
    have "find_object s' h = None" using swept_remove(3) [OF e, of M ob] False ob by simp
    then show ?thesis using False e by (cases e) (auto simp: sweep_done_def sweep_object_def)
  qed
qed


section \<open>A run of the collector\<close>

lemma gc_run_cases:
  obtains (fail) e and m :: mark and s1 where "gc_run el r d roots p s = Some ((ms_stats m)\<lparr>gr_error := e\<rparr>, s1)" "only_io s s1" "\<not> gr_ok (ms_stats m)"
    "s_io s = [] \<Longrightarrow> bad_roots r d roots \<or> (\<exists>v \<in> needed True s r d roots p. unreadable s v)"
  | (sweep) m :: mark and s1 res s' where "gc_run el r d roots p s = Some (res, s')" "only_io s s1"
    "node_hash ` needed (s_io s = []) s r d roots p \<subseteq> ms_marked m" "ms_marked m \<subseteq> node_hash ` needed True s r d roots p"
    "\<not> bad_roots r d roots" "\<forall>v \<in> needed (s_io s = []) s r d roots p. \<not> corrupt s v"
    "swept (if gp_dry_run p then UNIV else ms_marked m) (s_now s - 2) s s'"
    "s_io s = [] \<Longrightarrow> gr_ok res \<and> (\<forall>h. shard_of h \<in> set (s_shards s) \<longrightarrow> sweep_done (ms_marked m) p (s_now s) h (res, s'))"
proof (rule mark_result [of None r d roots p s])
  fix e m s1
  assume m: "mark_impl r d roots p (mark_new None gc_result_new) s = Some (e, m, s1)" "only_io s s1" "missing_ok s m"
    "e = None \<Longrightarrow> node_hash ` needed (s_io s = []) s r d roots p \<subseteq> ms_marked m \<and>
       ms_marked m \<subseteq> node_hash ` needed True s r d roots p \<and> ms_missing m = None \<and> \<not> bad_roots r d roots \<and>
       (\<forall>v \<in> needed (s_io s = []) s r d roots p. \<not> corrupt s v)"
    "e \<noteq> None \<Longrightarrow> s_io s = [] \<Longrightarrow> bad_roots r d roots \<or> (\<exists>v \<in> needed True s r d roots p. unreadable s v)"
  show thesis
  proof (cases e)
    case (Some x)
    then show ?thesis using m by (intro fail [of x m s1]) (auto simp: gc_run_def missing_ok_def)
  next
    case None
    let ?M = "ms_marked m"
    obtain enum res s2 where f: "for_each_object (sweep_object ?M p (s_now s)) (ms_stats m, s1) = (enum, res, s2)" using prod_cases3 by blast
    have rel: "sweep_rel ?M p (s_now s) (ms_stats m, s1) (res, s2)" by (rule sweep.for_each_R [OF f])
    have sw: "swept (if gp_dry_run p then UNIV else ?M) (s_now s - 2) s s2"
      using swept_trans [OF only_io_swept [OF m(2)]] rel by (simp add: sweep_rel_def)
    define res1 where "res1 = (case enum of None \<Rightarrow> res | Some e \<Rightarrow> res\<lparr>gr_error := append_message (gr_error res) e\<rparr>)"
    define res' where "res' = res1\<lparr>gr_duration_ms := el, gr_ok := enum = None \<and> gr_sweep_errors res1 = 0\<rparr>"
    define s' where "s' = (if \<not> gp_dry_run p \<and> 0 < gr_swept_objects res1 then clear_size_cache s2 else s2)"
    have run: "gc_run el r d roots p s = Some (res', s')"
      using m(1) None f by (simp add: gc_run_def res'_def res1_def s'_def Let_def)
    have s': "find_object s' = find_object s2" "s_pending s' = s_pending s2" "s_shards s' = s_shards s2" "s_io s' = s_io s2"
      by (auto simp: s'_def clear_size_cache_def find_object_def fun_eq_iff)
    have "swept (if gp_dry_run p then UNIV else ?M) (s_now s - 2) s s'" using sw s' by (simp add: swept_def)
    moreover have "gr_ok res' \<and> (\<forall>h. shard_of h \<in> set (s_shards s) \<longrightarrow> sweep_done ?M p (s_now s) h (res', s'))" if io: "s_io s = []"
    proof -
      have e: "s1 = s" by (rule only_io_empty [OF m(2) io])
      from sweep.for_each_D [OF io, of ?M p "s_now s" "ms_stats m"] f e
      have d: "enum = None" "\<forall>h. shard_of h \<in> set (s_shards s) \<longrightarrow> sweep_done ?M p (s_now s) h (res, s2)" by auto
      have "gr_sweep_errors res = 0" using rel io e m(3) by (simp add: sweep_rel_def missing_ok_def)
      then show ?thesis using d s' by (simp add: res'_def res1_def sweep_done_def)
    qed
    ultimately show ?thesis using sweep [OF run m(2)] m(4) [OF None] by blast
  qed
qed simp

section \<open>Properties\<close>

text \<open>Without a keep-last policy the window of a head is the head.\<close>

lemma roots_window: "gp_keep_last p = None \<Longrightarrow> gc_roots True s r d roots p = gc_roots False s r d roots p"
  by (simp add: gc_roots_def head_nodes_def head_window_def)

lemma needed_windows:
  "needed False s r d roots p \<subseteq> needed (s_io s = []) s r d roots p"
  "s_io s = [] \<or> gp_keep_last p = None \<Longrightarrow> needed (s_io s = []) s r d roots p = needed True s r d roots p"
proof -
  have "needed False s r d roots p \<subseteq> needed True s r d roots p" by (rule reach_mono [OF roots_full])
  then show "needed False s r d roots p \<subseteq> needed (s_io s = []) s r d roots p" by (cases "s_io s = []") simp_all
  show "needed (s_io s = []) s r d roots p = needed True s r d roots p" if "s_io s = [] \<or> gp_keep_last p = None"
    using that roots_window [where p = p and s = s and r = r and d = d and roots = roots] by (cases "s_io s = []") simp_all
qed

text \<open>
  C11: the collector does not remove what is in use. Whatever calls fail, everything reachable
  from the branch heads (their histories, and the data of the heads themselves), the agents' latest
  states, the live runtime states and the daemon's live roots, every pending object and every
  object as young as the fence is afterwards what it was before; a dry run removes nothing at
  all. The data of the other commits of a keep-last window is kept as well when no call fails, and when
  the policy has no window; with a window a read that fails once while it is walked makes
  it shorter, and the data behind is not protected. What is left of the store is unchanged.
\<close>

theorem gc_keeps_live:
  assumes "gc_run elapsed r d roots p s = Some (res, s')"
  shows "(\<forall>h. h \<in> node_hash ` needed False s r d roots p \<or> h \<in> set (s_pending s) \<or>
        (\<exists>ob. find_object s h = Some ob \<and> s_now s \<le> o_mtime ob + 2) \<or> gp_dry_run p \<longrightarrow>
        find_object s' h = find_object s h) \<and>
    (s_io s = [] \<or> gp_keep_last p = None \<longrightarrow>
       (\<forall>h \<in> node_hash ` needed True s r d roots p. find_object s' h = find_object s h)) \<and>
    (\<forall>h. find_object s' h \<in> {None, find_object s h}) \<and> s_pending s' = s_pending s"
proof (cases rule: gc_run_cases [where el = elapsed and r = r and d = d and roots = roots and p = p and s = s])
  case (fail e m s1)
  then have "find_object s' = find_object s" "s_pending s' = s_pending s"
    using assms only_io_same(3) [of s s1] by (auto simp: only_io_def)
  then show ?thesis by simp
next
  case (sweep m s1 res2 s2)
  then have w: "swept (if gp_dry_run p then UNIV else ms_marked m) (s_now s - 2) s s'" using assms by simp
  have keep: "find_object s' h = find_object s h" if "h \<in> node_hash ` needed (s_io s = []) s r d roots p \<or> h \<in> set (s_pending s) \<or>
        (\<exists>ob. find_object s h = Some ob \<and> s_now s \<le> o_mtime ob + 2) \<or> gp_dry_run p" for h
    using w that sweep(3) unfolding swept_def by (force split: if_splits)
  have "find_object s' h = find_object s h" if "h \<in> node_hash ` needed False s r d roots p" for h
    using keep [of h] needed_windows(1) [where s = s and r = r and d = d and roots = roots and p = p] that by blast
  moreover have "find_object s' h = find_object s h"
    if "s_io s = [] \<or> gp_keep_last p = None" "h \<in> node_hash ` needed True s r d roots p" for h
    using keep [of h] needed_windows(2) [OF that(1), where r = r and d = d and roots = roots] that(2) by simp
  ultimately show ?thesis using w keep unfolding swept_def by blast
qed

text \<open>
  A run of the collector and a verification always return, whatever the objects refer to
  (cycles included) and whatever calls fail: the recursions never run out of their bound.
\<close>

theorem gc_returns:
  "(\<exists>res s'. gc_run elapsed r d roots p s = Some (res, s')) \<and> (\<exists>res s'. gc_verify r d roots p s = Some (res, s'))"
proof
  show "\<exists>res s'. gc_run elapsed r d roots p s = Some (res, s')"
    by (cases rule: gc_run_cases [where el = elapsed and r = r and d = d and roots = roots and p = p and s = s]) auto
  show "\<exists>res s'. gc_verify r d roots p s = Some (res, s')"
    by (rule mark_result [of "Some []" r d roots p s]) (auto simp: gc_verify_def Let_def split: option.split prod.split)
qed

text \<open>
  C26: the collector fails closed. If a branch ref, a latest ref or an expected branch is broken
  or missing, or the object of some reachable commit, tree, state record or runtime state
  cannot be read, the run is not ok and removes nothing.
\<close>

theorem gc_fails_closed:
  assumes "gc_run elapsed r d roots p s = Some (res, s')"
    and "bad_roots r d roots \<or> (\<exists>v \<in> needed (s_io s = []) s r d roots p. corrupt s v)"
  shows "\<not> gr_ok res \<and> find_object s' = find_object s"
proof (cases rule: gc_run_cases [where el = elapsed and r = r and d = d and roots = roots and p = p and s = s])
  case (fail e m s1)
  with assms(1) show ?thesis using only_io_same(3) [of s s1] by auto
next
  case (sweep m s1 res2 s2)
  with assms(2) show ?thesis by blast
qed

text \<open>
  C17: without faults the collector is exact. On a store whose roots and reachable objects can be
  read it succeeds, and what is left are precisely the reachable, the pending and the young
  objects.
\<close>

theorem gc_exact:
  assumes "gc_run elapsed r d roots p s = Some (res, s')" "s_io s = []" "\<not> gp_dry_run p"
    and "\<forall>h. find_object s h \<noteq> None \<longrightarrow> shard_of h \<in> set (s_shards s)"
    and "\<not> bad_roots r d roots" "\<forall>v \<in> needed True s r d roots p. \<not> unreadable s v"
  shows "gr_ok res \<and> (\<forall>h. find_object s' h =
    (if h \<in> node_hash ` needed True s r d roots p \<or> h \<in> set (s_pending s) \<or>
        (\<exists>ob. find_object s h = Some ob \<and> s_now s \<le> o_mtime ob + 2)
     then find_object s h else None))"
proof (cases rule: gc_run_cases [where el = elapsed and r = r and d = d and roots = roots and p = p and s = s])
  case (fail e m s1)
  with assms(2,5,6) show ?thesis by blast
next
  case (sweep m s1 res2 s2)
  then have eq: "res2 = res" "s2 = s'" using assms(1) by auto
  have M: "ms_marked m = node_hash ` needed True s r d roots p" using sweep(3,4) assms(2) by auto
  have w: "swept (ms_marked m) (s_now s - 2) s s'" using sweep(7) assms(3) eq by simp
  have d: "gr_ok res" "\<forall>h. shard_of h \<in> set (s_shards s) \<longrightarrow> sweep_done (ms_marked m) p (s_now s) h (res, s')"
    using sweep(8) assms(2) eq by blast+
  have "find_object s' h = (if h \<in> ms_marked m \<or> h \<in> set (s_pending s) \<or>
      (\<exists>ob. find_object s h = Some ob \<and> s_now s \<le> o_mtime ob + 2) then find_object s h else None)" for h
  proof (cases "find_object s h")
    case None
    then show ?thesis using w unfolding swept_def by (metis option.distinct(1))
  next
    case (Some ob)
    then have "sweep_done (ms_marked m) p (s_now s) h (res, s')" using d(2) assms(4) by simp
    then have dn: "h \<in> ms_marked m \<or> h \<in> set (s_pending s) \<or>
        (case find_object s' h of None \<Rightarrow> True | Some ob \<Rightarrow> s_now s \<le> o_mtime ob + 2)"
      using assms(3) w by (simp add: sweep_done_def swept_def)
    have "find_object s' h = find_object s h \<or> find_object s' h = None \<and> h \<notin> ms_marked m \<and> h \<notin> set (s_pending s) \<and> o_mtime ob < s_now s - 2"
      using w Some unfolding swept_def by (metis option.inject)
    with dn Some show ?thesis by auto
  qed
  with d(1) M show ?thesis by simp
qed


lemma check_marked_result:
  "s_io s = [] \<Longrightarrow> \<exists>r'. check_marked hs r s = (r', s) \<and>
     gr_missing r' = gr_missing r @ filter (\<lambda>h. find_object s h = None) hs \<and>
     gr_missing_objects r' = gr_missing_objects r + of_nat (length (filter (\<lambda>h. find_object s h = None) hs))"
proof (induction hs arbitrary: r)
  case (Cons h hs)
  have ex: "object_exists h s = (find_object s h \<noteq> None, s)" using Cons.prems by (simp add: object_exists_def next_io_def)
  let ?r1 = "r\<lparr>gr_marked_objects := gr_marked_objects r + 1\<rparr>"
  let ?r2 = "?r1\<lparr>gr_missing_objects := gr_missing_objects r + 1, gr_missing := gr_missing r @ [h], gr_error := missing_message h (gr_error r)\<rparr>"
  show ?case
  proof (cases "find_object s h")
    case None
    then have "check_marked (h # hs) r s = check_marked hs ?r2 s" using ex by simp
    with Cons.IH [OF Cons.prems, of ?r2] None show ?thesis by (auto simp: algebra_simps)
  next
    case (Some ob)
    then have "check_marked (h # hs) r s = check_marked hs ?r1 s" using ex by simp
    with Cons.IH [OF Cons.prems, of ?r1] Some show ?thesis by auto
  qed
qed simp

text \<open>
  The verification is exact. Without faults an ok answer means that all roots and reachable
  objects are intact and every reachable object, blobs included, exists; if the roots and the
  graph can be read, it is ok exactly when no object is missing and lists precisely the
  missing ones; whatever it lists is missing.
\<close>

theorem gc_verify_exact:
  fixes s :: store
  defines "nodes \<equiv> \<lambda>r d roots p. needed True s r d roots p"
  assumes "gc_verify r d roots p s = Some (res, s')" "s_io s = []" "card (node_hash ` nodes r d roots p) < 2 ^ 64"
  shows "(gr_ok res \<longrightarrow> \<not> bad_roots r d roots \<and> (\<forall>v \<in> nodes r d roots p. \<not> corrupt s v \<and> find_object s (node_hash v) \<noteq> None)) \<and>
    (\<not> bad_roots r d roots \<and> (\<forall>v \<in> nodes r d roots p. \<not> unreadable s v) \<longrightarrow>
       (gr_ok res \<longleftrightarrow> gr_missing res = []) \<and>
       set (gr_missing res) = {h \<in> node_hash ` nodes r d roots p. find_object s h = None}) \<and>
    (\<forall>h \<in> set (gr_missing res). find_object s h = None)"
proof (rule mark_result [of "Some []" r d roots p s])
  let ?N = "needed True s r d roots p"
  fix e m s1
  assume m: "mark_impl r d roots p (mark_new (Some []) gc_result_new) s = Some (e, m, s1)" "only_io s s1" "missing_ok s m"
    "e = None \<Longrightarrow> node_hash ` needed (s_io s = []) s r d roots p \<subseteq> ms_marked m \<and>
       ms_marked m \<subseteq> node_hash ` ?N \<and> ms_missing m = Some [] \<and> \<not> bad_roots r d roots \<and>
       (\<forall>v \<in> needed (s_io s = []) s r d roots p. \<not> corrupt s v)"
    "e \<noteq> None \<Longrightarrow> s_io s = [] \<Longrightarrow> bad_roots r d roots \<or> (\<exists>v \<in> ?N. unreadable s v)"
  have s1: "s1 = s" by (rule only_io_empty [OF m(2) assms(3)])
  show ?thesis
  proof (cases e)
    case (Some x)
    have b: "bad_roots r d roots \<or> (\<exists>v \<in> ?N. unreadable s v)" using m(5) Some assms(3) by simp
    have res: "res = (ms_stats m)\<lparr>gr_missing := sort (remdups (missing_list m)), gr_missing_objects := of_nat (length (sort (remdups (missing_list m)))), gr_error := x\<rparr>"
      using assms(2) m(1) Some by (simp add: gc_verify_def Let_def)
    have "\<not> gr_ok res" "\<forall>h \<in> set (gr_missing res). find_object s h = None"
      using res m(3) assms(3) by (auto simp: missing_ok_def missing_list_def split: option.splits)
    with b show ?thesis unfolding nodes_def by blast
  next
    case None
    have M: "ms_marked m = node_hash ` ?N" "ms_missing m = Some []" "\<not> bad_roots r d roots" "\<forall>v \<in> ?N. \<not> corrupt s v"
      using m(4) [OF None] assms(3) by auto
    let ?hs = "sorted_list_of_set (ms_marked m)"
    let ?miss = "filter (\<lambda>h. find_object s h = None) ?hs"
    obtain r' where c: "check_marked ?hs ((ms_stats m)\<lparr>gr_missing := []\<rparr>) s = (r', s)" "gr_missing r' = ?miss" "gr_missing_objects r' = of_nat (length ?miss)"
      using check_marked_result [OF assms(3), of ?hs "(ms_stats m)\<lparr>gr_missing := []\<rparr>"] m(3) by (auto simp: missing_ok_def)
    have res: "res = r'\<lparr>gr_missing := sort (gr_missing r'), gr_ok := gr_missing_objects r' = 0\<rparr>"
      using assms(2) m(1) None M(2) c(1) s1 by (simp add: gc_verify_def missing_list_def)
    have "length ?miss \<le> length ?hs" by (rule length_filter_le)
    also have "length ?hs < 2 ^ 64" using assms(4) M(1) by (simp add: nodes_def)
    finally have "length ?miss < 2 ^ 64" .
    then have "unat (of_nat (length ?miss) :: u64) = length ?miss" by (simp add: unat_of_nat_eq)
    then have small: "(of_nat (length ?miss) :: u64) = 0 \<longleftrightarrow> ?miss = []" by (metis length_0_conv of_nat_0 unat_eq_zero)
    have miss: "set ?miss = {h \<in> node_hash ` ?N. find_object s h = None}" using M(1) by auto
    have ok: "gr_ok res \<longleftrightarrow> ?miss = []" "set (gr_missing res) = set ?miss" using res c(2,3) small by simp_all
    then have ok3: "gr_missing res = [] \<longleftrightarrow> ?miss = []" by (metis set_empty)
    have "?miss = [] \<longrightarrow> (\<forall>v \<in> ?N. find_object s (node_hash v) \<noteq> None)" using M(1) by (auto simp: filter_empty_conv)
    then show ?thesis unfolding nodes_def using ok ok3 miss M(3,4) by simp
  qed
qed simp


text \<open>A store with a garbage object 3, an object 4 that a working tree uses, and a young object 5.\<close>

definition gc_object :: "int \<Rightarrow> object" where
  "gc_object t = \<lparr>o_data = [], o_mtime = t, o_synced = True, o_linked = True\<rparr>"

definition gc_store :: store where
  "gc_store = (new_store ''/s'' 100)\<lparr>s_shards := [shard_of 3, shard_of 4, shard_of 5],
     s_objects := [(3, gc_object 0), (4, gc_object 0), (5, gc_object 99)]\<rparr>"

definition gc_no_refs :: refs where
  "gc_no_refs = \<lparr>r_files = [], r_other = [], r_durable = []\<rparr>"

definition gc_live4 :: gc_live_roots where
  "gc_live4 = \<lparr>gl_expected_branch_refs = [], gl_wt_hashes = [4], gl_fh_blob_hashes = [], gl_fh_pinned_commits = [],
     gl_pending = [], gl_runtime_union_states = []\<rparr>"

definition gc_plain :: gc_policy where
  "gc_plain = \<lparr>gp_keep_last = None, gp_keep_labels = [], gp_dry_run = False\<rparr>"

lemma gc_sample:
  "needed full gc_store gc_no_refs empty_dir gc_live4 gc_plain = {NBlob 4}" "\<not> bad_roots gc_no_refs empty_dir gc_live4"
  "s_io gc_store = []" "find_object gc_store 3 = Some (gc_object 0)" "find_object gc_store 4 = Some (gc_object 0)"
  "find_object gc_store 5 = Some (gc_object 99)" "s_now gc_store = 100" "s_pending gc_store = []"
  "find_object gc_store h \<noteq> None \<Longrightarrow> shard_of h \<in> set (s_shards gc_store)"
proof -
  have r: "gc_roots full gc_store gc_no_refs empty_dir gc_live4 gc_plain = {NBlob 4}"
    by (simp add: gc_roots_def gc_no_refs_def gc_live4_def latest_bodies_def empty_dir_def)
  have "reach_from (links gc_store gc_plain) {NBlob 4} \<subseteq> {NBlob 4}" by (rule reach_least) auto
  then show "needed full gc_store gc_no_refs empty_dir gc_live4 gc_plain = {NBlob 4}" using r reach_root [of "NBlob 4"] by auto
  show "\<not> bad_roots gc_no_refs empty_dir gc_live4"
    by (simp add: bad_roots_def gc_no_refs_def gc_live4_def latest_bodies_def empty_dir_def)
  show "find_object gc_store h \<noteq> None \<Longrightarrow> shard_of h \<in> set (s_shards gc_store)"
    by (auto simp: gc_store_def find_object_def split: if_splits)
qed (simp_all add: gc_store_def find_object_def)

lemma gc_sample_run: obtains res s' where "gc_run 0 r d roots p s = Some (res, s')"
  by (rule gc_run_cases [where el = 0 and r = r and d = d and roots = roots and p = p and s = s])

theorem gc_keeps_live_witness:
  "\<exists>res s'. gc_run 0 gc_no_refs empty_dir gc_live4 gc_plain gc_store = Some (res, s') \<and>
     find_object s' 4 = Some (gc_object 0) \<and> find_object s' 5 = Some (gc_object 99)"
proof (rule gc_sample_run [of gc_no_refs empty_dir gc_live4 gc_plain gc_store])
  fix res s' assume r: "gc_run 0 gc_no_refs empty_dir gc_live4 gc_plain gc_store = Some (res, s')"
  note k = gc_keeps_live [OF r, unfolded gc_sample]
  have "find_object s' 4 = Some (gc_object 0)" using k gc_sample(3,5) by simp
  moreover have "find_object s' 5 = Some (gc_object 99)" using k gc_sample(6) by (auto simp: gc_object_def)
  ultimately show ?thesis using r by blast
qed

theorem gc_exact_witness:
  "\<exists>res s'. gc_run 0 gc_no_refs empty_dir gc_live4 gc_plain gc_store = Some (res, s') \<and> gr_ok res \<and>
     find_object s' 3 = None \<and> find_object s' 4 = Some (gc_object 0)"
proof (rule gc_sample_run [of gc_no_refs empty_dir gc_live4 gc_plain gc_store])
  fix res s' assume r: "gc_run 0 gc_no_refs empty_dir gc_live4 gc_plain gc_store = Some (res, s')"
  have "\<not> gp_dry_run gc_plain" by (simp add: gc_plain_def)
  from gc_exact [OF r gc_sample(3) this _ gc_sample(2)] gc_sample(9)
  have x: "gr_ok res \<and> (\<forall>h. find_object s' h = (if h \<in> {4} \<or> (\<exists>ob. find_object gc_store h = Some ob \<and> 100 \<le> o_mtime ob + 2)
      then find_object gc_store h else None))"
    by (simp add: gc_sample(1,7,8))
  have "find_object s' 3 = None" using x gc_sample(4) by (simp add: gc_object_def)
  moreover have "find_object s' 4 = Some (gc_object 0)" using x gc_sample(5) by simp
  ultimately show ?thesis using r x by blast
qed

theorem gc_fails_closed_witness:
  "\<exists>res s'. gc_run 0 (gc_no_refs\<lparr>r_files := [(''main'', [])]\<rparr>) empty_dir gc_live4 gc_plain gc_store = Some (res, s') \<and>
     \<not> gr_ok res \<and> find_object s' 3 = Some (gc_object 0)"
proof (rule gc_sample_run [of "gc_no_refs\<lparr>r_files := [(''main'', [])]\<rparr>" empty_dir gc_live4 gc_plain gc_store])
  let ?r = "gc_no_refs\<lparr>r_files := [(''main'', [])]\<rparr>"
  fix res s' assume r: "gc_run 0 ?r empty_dir gc_live4 gc_plain gc_store = Some (res, s')"
  have "bad_roots ?r empty_dir gc_live4" by (simp add: bad_roots_def ref_of_def parse_ref_def)
  with gc_fails_closed [OF r] r gc_sample(4) show ?thesis by auto
qed

theorem gc_verify_exact_witness:
  "\<exists>res s'. gc_verify gc_no_refs empty_dir gc_live4 gc_plain gc_store = Some (res, s') \<and> gr_ok res"
proof (rule mark_result [of "Some []" gc_no_refs empty_dir gc_live4 gc_plain gc_store])
  fix e m s1 assume "mark_impl gc_no_refs empty_dir gc_live4 gc_plain (mark_new (Some []) gc_result_new) gc_store = Some (e, m, s1)"
  then have "gc_verify gc_no_refs empty_dir gc_live4 gc_plain gc_store \<noteq> None"
    by (cases e) (simp_all add: gc_verify_def Let_def split: prod.split)
  then obtain res s' where v: "gc_verify gc_no_refs empty_dir gc_live4 gc_plain gc_store = Some (res, s')" by (metis option.exhaust surj_pair)
  have small: "card (node_hash ` needed True gc_store gc_no_refs empty_dir gc_live4 gc_plain) < 2 ^ 64"
    unfolding gc_sample(1) by simp
  have readable: "\<not> bad_roots gc_no_refs empty_dir gc_live4 \<and> (\<forall>v \<in> {NBlob 4}. \<not> unreadable gc_store v)"
    using gc_sample(2) by simp
  have "(gr_ok res \<longleftrightarrow> gr_missing res = []) \<and> set (gr_missing res) = {h \<in> node_hash ` {NBlob 4}. find_object gc_store h = None}"
    using gc_verify_exact [OF v gc_sample(3) small, unfolded gc_sample(1)] readable by blast
  moreover have "{h \<in> node_hash ` {NBlob 4}. find_object gc_store h = None} = {}" using gc_sample(5) by auto
  ultimately have "gr_ok res" by (metis set_empty)
  with v show ?thesis by blast
qed simp

end
