(* ===== verification/Daemon.thy ===== *)
theory Daemon
  imports WriteBuffer BranchMerge MergeBase AgentStateService GcSweep
begin

text \<open>
  \<open>src/cas/daemon.h\<close>, \<open>daemon.cpp\<close> and \<open>branch_context.h\<close>, without the two operations on
  cooperative runtimes: the branches with their names, the table of open files, and the
  operations that publish state. A \<open>shared_ptr\<close> to a branch is an index into the list of all
  contexts that were ever made, so a holder still sees a branch after its deletion. The
  publishing operations run one at a time under \<open>gc_publish_mu_\<close>, so each is a function on the
  state. The answers of the router and of the runtime supervisor, the time, and the use counts
  of shared bases are arguments.
\<close>

record branch_ctx =
  bc_id :: u32
  bc_name :: string
  bc_wt :: working_tree
  bc_retired :: bool

definition branch_new :: "u32 \<Rightarrow> string \<Rightarrow> working_tree \<Rightarrow> branch_ctx" where
  "branch_new b name wt = \<lparr>bc_id = b, bc_name = name, bc_wt = wt, bc_retired = False\<rparr>"

record fh_state =
  fh_path :: string
  fh_branch :: u32
  fh_pinned :: hash
  fh_base_blob :: hash
  fh_base_size :: u64
  fh_cache :: bytes
  fh_loaded :: bool
  fh_buf :: "write_buffer option"
  fh_stale :: bool
  fh_view :: blob_view
  fh_fd_eligible :: bool

record daemon =
  d_store :: store
  d_refs :: refs
  d_state :: state_dir
  d_ctxs :: "branch_ctx list"
  d_branches :: "(u32, nat) omap"
  d_names :: "(string, u32) omap"
  d_creating :: "string list"
  d_sources :: "(string, u32) omap"
  d_next_branch :: u32
  d_fhs :: "(u64 \<times> fh_state) list"       \<comment> \<open>\<open>unordered_map\<close>: in some order\<close>
  d_next_fh :: u64
  d_session :: u64
  d_policy :: u32

definition daemon_new :: "u64 \<Rightarrow> store \<Rightarrow> refs \<Rightarrow> state_dir \<Rightarrow> daemon" where
  "daemon_new now_ns s r sd = \<lparr>d_store = s, d_refs = r, d_state = sd,
     d_ctxs = [branch_new 0 ''main'' wt_new], d_branches = [(0, 0)], d_names = [(''main'', 0)],
     d_creating = [], d_sources = [], d_next_branch = 1, d_fhs = [], d_next_fh = 1,
     d_session = now_ns, d_policy = 1\<rparr>"

definition bump_policy_version :: "daemon \<Rightarrow> daemon" where
  "bump_policy_version d = d\<lparr>d_policy := d_policy d + 1\<rparr>"

definition ctx :: "daemon \<Rightarrow> nat \<Rightarrow> branch_ctx" where
  "ctx d p = d_ctxs d ! p"

definition upd_ctx :: "nat \<Rightarrow> (branch_ctx \<Rightarrow> branch_ctx) \<Rightarrow> daemon \<Rightarrow> daemon" where
  "upd_ctx p f d = d\<lparr>d_ctxs := (d_ctxs d)[p := f (ctx d p)]\<rparr>"

section \<open>Open files\<close>

definition allocate_fh :: "fh_state \<Rightarrow> daemon \<Rightarrow> u64 \<times> daemon" where
  "allocate_fh st d =
     (let fh = d_next_fh d in
      (fh, d\<lparr>d_next_fh := fh + 1, d_fhs := (fh, st) # filter (\<lambda>p. fst p \<noteq> fh) (d_fhs d)\<rparr>))"

definition get_fh :: "u64 \<Rightarrow> daemon \<Rightarrow> fh_state option" where
  "get_fh fh d = map_of (d_fhs d) fh"

definition release_fh :: "u64 \<Rightarrow> daemon \<Rightarrow> daemon" where
  "release_fh fh d = d\<lparr>d_fhs := filter (\<lambda>p. fst p \<noteq> fh) (d_fhs d)\<rparr>"

definition fh_dirty :: "fh_state \<Rightarrow> bool" where
  "fh_dirty st \<longleftrightarrow> (case fh_buf st of None \<Rightarrow> False | Some wb \<Rightarrow> is_dirty wb)"

text \<open>What \<open>stat\<close> reports for a path with unsaved writes: the size as a signed number, or -1.\<close>

definition dirty_fh_size_for_path :: "string \<Rightarrow> u32 \<Rightarrow> daemon \<Rightarrow> int" where
  "dirty_fh_size_for_path path branch_id d =
     (case find (\<lambda>(_, st). \<not> fh_stale st \<and> fh_dirty st \<and> fh_path st = path \<and> fh_branch st = branch_id) (d_fhs d) of
        None \<Rightarrow> -1
      | Some (_, st) \<Rightarrow>
          (let base = (if fh_loaded st then length (fh_cache st) else unat (fh_base_size st)) in
           case fh_buf st of None \<Rightarrow> -1
             | Some wb \<Rightarrow> sint (of_nat (effective_size base wb) :: u64)))"

text \<open>The result of \<open>read_blob\<close> is not looked at: on failure the cache stays as it was.\<close>

definition ensure_base_cache :: "fh_state \<Rightarrow> store \<Rightarrow> fh_state \<times> store" where
  "ensure_base_cache st s =
     (if fh_loaded st then (st, s)
      else case (if fh_base_blob st \<noteq> ZERO_HASH then read_blob (fh_base_blob st) s else (None, s)) of
             (b, s) \<Rightarrow> (st\<lparr>fh_cache := (case b of None \<Rightarrow> fh_cache st | Some c \<Rightarrow> c), fh_loaded := True\<rparr>, s))"

text \<open>One dirty handle. \<open>None\<close> is a \<open>memcpy\<close> out of bounds in \<open>materialize\<close>.\<close>

definition flush_fh ::
  "(bytes \<Rightarrow> hash) \<Rightarrow> fh_state \<Rightarrow> working_tree \<Rightarrow> store \<Rightarrow> (bool \<times> fh_state \<times> working_tree \<times> store) option" where
  "flush_fh H st wt s =
     (case fh_buf st of
        None \<Rightarrow> Some (True, st, wt, s)
      | Some wb \<Rightarrow>
     (case ensure_base_cache st s of (st, s) \<Rightarrow>
     (case wb_materialize (fh_cache st) wb of
        None \<Rightarrow> None
      | Some data \<Rightarrow>
     (case write_blob H data s of (new_blob, s) \<Rightarrow>
      if new_blob = ZERO_HASH then Some (False, st, wt, s)
      else
        (let mode = (case lookup (fh_path st) wt of None \<Rightarrow> 33188 | Some e \<Rightarrow> e_mode e) in
         Some (True,
           st\<lparr>fh_buf := Some (wb_clear wb), fh_base_blob := new_blob, fh_base_size := of_nat (length data),
              fh_cache := data, fh_loaded := True\<rparr>,
           insert_entry (fh_path st) \<lparr>e_kind = Blob, e_hash = new_blob, e_mode = mode\<rparr> wt, s))))))"

definition needs_flush :: "u32 \<Rightarrow> fh_state \<Rightarrow> bool" where
  "needs_flush branch_id st \<longleftrightarrow> fh_branch st = branch_id \<and> \<not> fh_stale st \<and> fh_dirty st"

fun flush_fhs ::
  "(bytes \<Rightarrow> hash) \<Rightarrow> u32 \<Rightarrow> (u64 \<times> fh_state) list \<Rightarrow> working_tree \<Rightarrow> store \<Rightarrow>
   (bool \<times> (u64 \<times> fh_state) list \<times> working_tree \<times> store) option" where
  "flush_fhs H branch_id [] wt s = Some (True, [], wt, s)"
| "flush_fhs H branch_id ((fh, st) # fs) wt s =
     (case (if needs_flush branch_id st then flush_fh H st wt s else Some (True, st, wt, s)) of
        None \<Rightarrow> None
      | Some (False, st, wt, s) \<Rightarrow> Some (False, (fh, st) # fs, wt, s)
      | Some (True, st, wt, s) \<Rightarrow>
          (case flush_fhs H branch_id fs wt s of
             None \<Rightarrow> None
           | Some (ok, fs, wt, s) \<Rightarrow> Some (ok, (fh, st) # fs, wt, s)))"

definition invalidate_fhs_for_branch :: "u32 \<Rightarrow> daemon \<Rightarrow> daemon" where
  "invalidate_fhs_for_branch branch_id d =
     d\<lparr>d_fhs := map (\<lambda>(fh, st). (fh, if fh_branch st = branch_id then st\<lparr>fh_stale := True\<rparr> else st)) (d_fhs d)\<rparr>"

section \<open>Branches\<close>

definition branch_of_id :: "u32 \<Rightarrow> daemon \<Rightarrow> nat option" where
  "branch_of_id b d = map_of (d_branches d) b"

definition branch_by_name :: "string \<Rightarrow> daemon \<Rightarrow> nat option" where
  "branch_by_name name d = (case map_of (d_names d) name of None \<Rightarrow> None | Some b \<Rightarrow> map_of (d_branches d) b)"

text \<open>\<open>resolve\<close> is the router's answer; main is the context 0.\<close>

definition branch_for_pid :: "(nat \<Rightarrow> u32) \<Rightarrow> nat \<Rightarrow> daemon \<Rightarrow> nat" where
  "branch_for_pid resolve pid d = (case branch_of_id (resolve pid) d of None \<Rightarrow> 0 | Some p \<Rightarrow> p)"

definition list_branches :: "daemon \<Rightarrow> nat list" where
  "list_branches d = map snd (d_branches d)"

definition flush_fhs_for_branch :: "(bytes \<Rightarrow> hash) \<Rightarrow> u32 \<Rightarrow> daemon \<Rightarrow> (bool \<times> daemon) option" where
  "flush_fhs_for_branch H branch_id d =
     (case branch_of_id branch_id d of
        None \<Rightarrow> Some (False, d)
      | Some p \<Rightarrow>
          (case flush_fhs H branch_id (d_fhs d) (bc_wt (ctx d p)) (d_store d) of
             None \<Rightarrow> None
           | Some (ok, fhs, wt, s) \<Rightarrow>
               Some (ok, upd_ctx p (\<lambda>c. c\<lparr>bc_wt := wt\<rparr>) (d\<lparr>d_fhs := fhs, d_store := s\<rparr>))))"

section \<open>Starting\<close>

text \<open>The context of a branch from its ref, or what failed.\<close>

definition rebuild_branch_from_ref ::
  "string \<Rightarrow> u32 \<Rightarrow> refs \<Rightarrow> store \<Rightarrow> ((string + branch_ctx) \<times> store) option" where
  "rebuild_branch_from_ref name b r s =
     (case read_ref r name s of
        (None, s) \<Rightarrow> Some (Inl (''failed to read refs/'' @ name), s)
      | (Some h, s) \<Rightarrow>
     (case read_commit h s of
        (None, s) \<Rightarrow> Some (Inl (''failed to read commit '' @ hash_to_hex h), s)
      | (Some body, s) \<Rightarrow>
     (case decoded (deserialize_commit body) of
        None \<Rightarrow> Some (Inl (''failed to parse commit '' @ hash_to_hex h), s)
      | Some cd \<Rightarrow>
     (case rebuild_working_tree (cd_tree_hash cd) wt_new s of
        None \<Rightarrow> None
      | Some (Inl _, s) \<Rightarrow> Some (Inl (''failed to rebuild tree '' @ hash_to_hex (cd_tree_hash cd)), s)
      | Some (Inr wt, s) \<Rightarrow> Some (Inr (branch_new b name wt), s)))))"

definition rebuild_main_from_ref :: "daemon \<Rightarrow> (string option \<times> daemon) option" where
  "rebuild_main_from_ref d =
     (case rebuild_branch_from_ref ''main'' 0 (d_refs d) (d_store d) of
        None \<Rightarrow> None
      | Some (Inl e, s) \<Rightarrow> Some (Some e, d\<lparr>d_store := s\<rparr>)
      | Some (Inr c, s) \<Rightarrow> Some (None, upd_ctx 0 (\<lambda>m. m\<lparr>bc_wt := bc_wt c\<rparr>) (d\<lparr>d_store := s\<rparr>)))"

definition publish_ctx :: "branch_ctx \<Rightarrow> daemon \<Rightarrow> daemon" where
  "publish_ctx c d = d\<lparr>d_ctxs := d_ctxs d @ [c],
     d_names := om_put (bc_name c) (bc_id c) (d_names d),
     d_branches := om_put (bc_id c) (length (d_ctxs d)) (d_branches d)\<rparr>"

text \<open>A branch that cannot be loaded is skipped with a warning.\<close>

fun load_branches :: "string list \<Rightarrow> daemon \<Rightarrow> daemon option" where
  "load_branches [] d = Some d"
| "load_branches (name # names) d =
     (if name = ''main'' \<or> \<not> is_valid_branch_name name then load_branches names d
      else (let b = d_next_branch d; d = d\<lparr>d_next_branch := b + 1\<rparr> in
        case rebuild_branch_from_ref name b (d_refs d) (d_store d) of
          None \<Rightarrow> None
        | Some (Inl _, s) \<Rightarrow> load_branches names (d\<lparr>d_store := s\<rparr>)
        | Some (Inr c, s) \<Rightarrow>
            (let d = d\<lparr>d_store := s\<rparr> in
             if map_of (d_names d) name \<noteq> None then load_branches names d
             else load_branches names (publish_ctx c d))))"

definition load_persisted_branches :: "daemon \<Rightarrow> daemon option" where
  "load_persisted_branches d =
     (case list_refs_compat (d_refs d) (d_store d) of (names, s) \<Rightarrow> load_branches names (d\<lparr>d_store := s\<rparr>))"

text \<open>The first commit of a fresh store: an empty tree.\<close>

definition init_commit :: "(bytes \<Rightarrow> hash) \<Rightarrow> u64 \<Rightarrow> daemon \<Rightarrow> bool \<times> daemon" where
  "init_commit H now_ns d =
     (case serialize_working_tree H (bc_wt (ctx d 0)) (d_store d) of
        ((Inl _, _, _), s) \<Rightarrow> (False, d\<lparr>d_store := s\<rparr>)
      | ((Inr tree, _, _), s) \<Rightarrow>
     (let cd = \<lparr>cd_tree_hash = tree, cd_parents = [], cd_session_id = d_session d,
                cd_timestamp_ns = now_ns, cd_label = ''initial'', cd_policy_version = d_policy d\<rparr> in
      case write_commit H (serialize_commit cd) s of (c, s) \<Rightarrow>
      if c = ZERO_HASH then (False, d\<lparr>d_store := s\<rparr>)
      else
     (case drain_pending s of (to_fsync, s) \<Rightarrow>
     (case fsync_objects to_fsync s of
        (False, s) \<Rightarrow> (False, d\<lparr>d_store := restore_pending to_fsync s\<rparr>)
      | (True, s) \<Rightarrow>
     (case fsync_shard_dirs to_fsync s of
        (False, s) \<Rightarrow> (False, d\<lparr>d_store := restore_pending to_fsync s\<rparr>)
      | (True, s) \<Rightarrow>
     (case write_ref ''main'' c (d_refs d) s of
        (ok, r, s) \<Rightarrow> (ok, d\<lparr>d_refs := r, d_store := s\<rparr>)))))))"

definition initialize :: "(bytes \<Rightarrow> hash) \<Rightarrow> u64 \<Rightarrow> daemon \<Rightarrow> (bool \<times> daemon) option" where
  "initialize H now_ns d =
     (case init_layout (d_store d) of
        (False, s) \<Rightarrow> Some (False, d\<lparr>d_store := s\<rparr>)
      | (True, s) \<Rightarrow>
     (case read_ref (d_refs d) ''main'' (cleanup_tmp s) of (current, s) \<Rightarrow>
     (let d = d\<lparr>d_store := s\<rparr> in
      case (if current = None then Some (init_commit H now_ns d)
            else map_option (\<lambda>(e, d). (e = None, d)) (rebuild_main_from_ref d)) of
        None \<Rightarrow> None
      | Some (False, d) \<Rightarrow> Some (False, d)
      | Some (True, d) \<Rightarrow> map_option (\<lambda>d. (True, d)) (load_persisted_branches d))))"

section \<open>Checkpoint and rollback\<close>

text \<open>
  \<open>cm_.checkpoint_locked\<close> on a branch. It calls the flush first, on the branch's tree, so the
  flush is evaluated here and its result is passed on.
\<close>

definition checkpoint_ctx ::
  "(bytes \<Rightarrow> hash) \<Rightarrow> u64 \<Rightarrow> string \<Rightarrow> string \<Rightarrow> nat \<Rightarrow> daemon \<Rightarrow> ((string + hash) \<times> daemon) option" where
  "checkpoint_ctx H now_ns label name p d =
     (let c = ctx d p in
      case flush_fhs H (bc_id c) (d_fhs d) (bc_wt c) (d_store d) of
        None \<Rightarrow> None
      | Some (ok, fhs, wt, s) \<Rightarrow>
          (case checkpoint_locked H now_ns (\<lambda>_ _. (ok, wt, s)) label (d_session d) (d_policy d) name
                  \<lparr>rp_wt = bc_wt c, rp_refs = d_refs d, rp_store = d_store d\<rparr> of
             (res, rp) \<Rightarrow> Some (res, upd_ctx p (\<lambda>c. c\<lparr>bc_wt := rp_wt rp\<rparr>)
                (d\<lparr>d_fhs := fhs, d_refs := rp_refs rp, d_store := rp_store rp\<rparr>))))"

definition checkpoint_branch ::
  "(bytes \<Rightarrow> hash) \<Rightarrow> u64 \<Rightarrow> nat option \<Rightarrow> string \<Rightarrow> daemon \<Rightarrow> ((string + hash) \<times> daemon) option" where
  "checkpoint_branch H now_ns br label d =
     (case br of
        None \<Rightarrow> Some (Inl ''unknown branch'', d)
      | Some p \<Rightarrow>
          (if map_of (d_branches d) (bc_id (ctx d p)) \<noteq> Some p then Some (Inl ''unknown branch'', d)
           else checkpoint_ctx H now_ns label (bc_name (ctx d p)) p d))"

definition checkpoint_branch_by_name ::
  "(bytes \<Rightarrow> hash) \<Rightarrow> u64 \<Rightarrow> string \<Rightarrow> string \<Rightarrow> daemon \<Rightarrow> ((string + hash) \<times> daemon) option" where
  "checkpoint_branch_by_name H now_ns name label d =
     (case branch_by_name name d of
        None \<Rightarrow> Some (Inl ''unknown branch'', d)
      | Some p \<Rightarrow> checkpoint_ctx H now_ns label (bc_name (ctx d p)) p d)"

definition rollback_branch_to_commit ::
  "string \<Rightarrow> hash \<Rightarrow> daemon \<Rightarrow> ((string + hash) \<times> daemon) option" where
  "rollback_branch_to_commit name target d =
     (case branch_by_name name d of
        None \<Rightarrow> Some (Inl ''unknown branch'', d)
      | Some p \<Rightarrow>
          (case rollback_locked (hash_to_hex target) name
                  \<lparr>rp_wt = bc_wt (ctx d p), rp_refs = d_refs d, rp_store = d_store d\<rparr> of
             None \<Rightarrow> None
           | Some (res, invalidated, rp) \<Rightarrow>
               (let d' = upd_ctx p (\<lambda>c. c\<lparr>bc_wt := rp_wt rp\<rparr>) (d\<lparr>d_refs := rp_refs rp, d_store := rp_store rp\<rparr>) in
                Some (res, if invalidated then invalidate_fhs_for_branch (bc_id (ctx d p)) d' else d'))))"

section \<open>Creating and deleting\<close>

definition reserve_branch :: "string \<Rightarrow> string \<Rightarrow> daemon \<Rightarrow> (nat \<times> daemon) option" where
  "reserve_branch name src d =
     (if map_of (d_names d) name \<noteq> None \<or> name \<in> set (d_creating d) then None
      else case branch_by_name src d of
        None \<Rightarrow> None
      | Some p \<Rightarrow> Some (p, d\<lparr>d_creating := set_put name (d_creating d),
          d_sources := om_put src ((case map_of (d_sources d) src of None \<Rightarrow> 0 | Some n \<Rightarrow> n) + 1) (d_sources d)\<rparr>))"

definition clear_reservations :: "string \<Rightarrow> string \<Rightarrow> daemon \<Rightarrow> daemon" where
  "clear_reservations name src d =
     (let d = d\<lparr>d_creating := set_del name (d_creating d)\<rparr> in
      case map_of (d_sources d) src of
        None \<Rightarrow> d
      | Some n \<Rightarrow> d\<lparr>d_sources := (if n \<le> 1 then om_del src (d_sources d) else om_put src (n - 1) (d_sources d))\<rparr>)"

text \<open>\<open>UINT32_MAX\<close> is the answer of a failed creation.\<close>

definition no_branch :: u32 where "no_branch = - 1"

definition create_branch :: "string \<Rightarrow> string \<Rightarrow> daemon \<Rightarrow> u32 \<times> daemon" where
  "create_branch name src d =
     (case reserve_branch name src d of
        None \<Rightarrow> (no_branch, d)
      | Some (p, d) \<Rightarrow>
     (let b = d_next_branch d; d = d\<lparr>d_next_branch := b + 1\<rparr> in
      case read_ref (d_refs d) src (d_store d) of
        (None, s) \<Rightarrow> (no_branch, clear_reservations name src (d\<lparr>d_store := s\<rparr>))
      | (Some src_commit, s) \<Rightarrow>
     (let c = branch_new b name (clone (bc_wt (ctx d p))) in
      case write_ref name src_commit (d_refs d) s of
        (False, r, s) \<Rightarrow> (no_branch, clear_reservations name src (d\<lparr>d_refs := r, d_store := s\<rparr>))
      | (True, r, s) \<Rightarrow>
     (let d = clear_reservations name src (d\<lparr>d_refs := r, d_store := s\<rparr>) in
      if map_of (d_names d) name \<noteq> None then (no_branch, d) else (b, publish_ctx c d)))))"

text \<open>\<open>has_cgroup\<close> is the router's answer for the branch.\<close>

definition delete_branch :: "(u32 \<Rightarrow> bool) \<Rightarrow> string \<Rightarrow> daemon \<Rightarrow> bool \<times> daemon" where
  "delete_branch has_cgroup name d =
     (if name = ''main'' then (False, d)
      else case branch_by_name name d of
        None \<Rightarrow> (False, d)
      | Some p \<Rightarrow>
          (if map_of (d_sources d) name \<noteq> None \<or> has_cgroup (bc_id (ctx d p)) then (False, d)
           else case remove_ref name (d_refs d) (d_store d) of
             (False, r, s) \<Rightarrow> (False, d\<lparr>d_refs := r, d_store := s\<rparr>)
           | (True, r, s) \<Rightarrow>
               (let b = bc_id (ctx d p);
                    d = invalidate_fhs_for_branch b
                          (upd_ctx p (\<lambda>c. c\<lparr>bc_retired := True\<rparr>) (d\<lparr>d_refs := r, d_store := s\<rparr>))
                in (True, d\<lparr>d_names := om_del name (d_names d), d_branches := om_del b (d_branches d)\<rparr>))))"

section \<open>Merging\<close>

definition default_merge_label :: "string \<Rightarrow> string \<Rightarrow> string \<Rightarrow> string" where
  "default_merge_label source_name target_name requested_label =
     (if requested_label \<noteq> [] then requested_label
      else ''merge '' @ source_name @ '' into '' @ target_name)"

record branch_merge_result =
  bm_ok :: bool
  bm_commit :: hash
  bm_conflicts :: "string list"
  bm_error :: string

definition merge_failed :: "string \<Rightarrow> branch_merge_result" where
  "merge_failed e = \<lparr>bm_ok = False, bm_commit = ZERO_HASH, bm_conflicts = [], bm_error = e\<rparr>"

text \<open>The loop over \<open>branches_\<close> keeps the last context with the name.\<close>

definition last_named :: "string \<Rightarrow> daemon \<Rightarrow> nat option" where
  "last_named name d = fold (\<lambda>(_, p) found. if bc_name (ctx d p) = name then Some p else found) (d_branches d) None"

text \<open>From the two pre-merge checkpoints to the merged tree, or the result that failed.\<close>

definition merged_trees ::
  "hash \<Rightarrow> hash \<Rightarrow> store \<Rightarrow> ((branch_merge_result + working_tree) \<times> store) option" where
  "merged_trees source target s =
     (case find_common_ancestor source target s of
        None \<Rightarrow> None
      | Some (Inl e, s) \<Rightarrow> Some (Inl (merge_failed e), s)
      | Some (Inr base, s) \<Rightarrow>
     (case load_commit_tree base s of
        None \<Rightarrow> None
      | Some (Inl e, s) \<Rightarrow> Some (Inl (merge_failed e), s)
      | Some (Inr (base_wt, _), s) \<Rightarrow>
     (case load_commit_tree source s of
        None \<Rightarrow> None
      | Some (Inl e, s) \<Rightarrow> Some (Inl (merge_failed e), s)
      | Some (Inr (source_wt, _), s) \<Rightarrow>
     (case load_commit_tree target s of
        None \<Rightarrow> None
      | Some (Inl e, s) \<Rightarrow> Some (Inl (merge_failed e), s)
      | Some (Inr (target_wt, _), s) \<Rightarrow>
     (let m = merge_trees base_wt source_wt target_wt in
      Some (if \<not> mr_ok m then Inl ((merge_failed (mr_error m))\<lparr>bm_conflicts := mr_conflicts m\<rparr>)
            else Inr (mr_merged m), s))))))"

definition merge_checkpointed ::
  "(bytes \<Rightarrow> hash) \<Rightarrow> u64 \<Rightarrow> string \<Rightarrow> string \<Rightarrow> string \<Rightarrow> nat \<Rightarrow> hash \<Rightarrow> hash \<Rightarrow> daemon \<Rightarrow>
   (branch_merge_result \<times> daemon) option" where
  "merge_checkpointed H now_ns source_name target_name label tp source target d =
     (case merged_trees source target (d_store d) of
        None \<Rightarrow> None
      | Some (Inl res, s) \<Rightarrow> Some (res, d\<lparr>d_store := s\<rparr>)
      | Some (Inr mwt, s) \<Rightarrow>
     (case write_commit_with_parents H now_ns mwt [target, source] (d_session d) (d_policy d)
             (default_merge_label source_name target_name label) s of
        (Inl e, s) \<Rightarrow> Some (merge_failed e, d\<lparr>d_store := s\<rparr>)
      | (Inr c, s) \<Rightarrow>
     (case write_ref target_name c (d_refs d) s of
        (False, r, s) \<Rightarrow>
          Some (merge_failed (''failed to advance refs/'' @ target_name), d\<lparr>d_refs := r, d_store := s\<rparr>)
      | (True, r, s) \<Rightarrow>
          Some (\<lparr>bm_ok = True, bm_commit = c, bm_conflicts = [], bm_error = []\<rparr>,
            invalidate_fhs_for_branch (bc_id (ctx d tp))
              (upd_ctx tp (\<lambda>c. c\<lparr>bc_wt := mwt\<rparr>) (d\<lparr>d_refs := r, d_store := s\<rparr>))))))"

definition pre_merge_label :: "string \<Rightarrow> string \<Rightarrow> string \<Rightarrow> string" where
  "pre_merge_label source_name target_name side = ''pre-merge '' @ source_name @ '' into '' @ target_name @ side"

definition merge_branch ::
  "(bytes \<Rightarrow> hash) \<Rightarrow> u64 \<Rightarrow> string \<Rightarrow> string \<Rightarrow> string \<Rightarrow> daemon \<Rightarrow> (branch_merge_result \<times> daemon) option" where
  "merge_branch H now_ns source_name target_name label d =
     (case (last_named source_name d, last_named target_name d) of
        (Some sp, Some tp) \<Rightarrow>
          (if bc_id (ctx d sp) = bc_id (ctx d tp) then Some (merge_failed ''cannot merge branch into itself'', d)
           else
          (case checkpoint_ctx H now_ns (pre_merge_label source_name target_name '' source'') source_name sp d of
             None \<Rightarrow> None
           | Some (Inl e, d) \<Rightarrow> Some (merge_failed e, d)
           | Some (Inr source, d) \<Rightarrow>
          (case checkpoint_ctx H now_ns (pre_merge_label source_name target_name '' target'') target_name tp d of
             None \<Rightarrow> None
           | Some (Inl e, d) \<Rightarrow> Some (merge_failed e, d)
           | Some (Inr target, d) \<Rightarrow>
               merge_checkpointed H now_ns source_name target_name label tp source target d)))
      | _ \<Rightarrow> Some (merge_failed ''unknown branch'', d))"

section \<open>Statistics, agent state and collection\<close>

record branch_memory_stats =
  ms_name :: string
  ms_wt :: wt_stats

record daemon_memory_stats =
  dm_branches :: "branch_memory_stats list"
  dm_buffers :: u64
  dm_dirty_bytes :: u64
  dm_rss_kb :: u64

text \<open>\<open>use_count\<close> is that of a context's shared base; \<open>rss_kb\<close> is read from \<open>/proc\<close>.\<close>

definition collect_memory_stats :: "(nat \<Rightarrow> int) \<Rightarrow> u64 \<Rightarrow> daemon \<Rightarrow> daemon_memory_stats" where
  "collect_memory_stats use_count rss_kb d =
     (let bufs = List.map_filter (\<lambda>(_, st). fh_buf st) (d_fhs d) in
      \<lparr>dm_branches = map (\<lambda>(_, p). \<lparr>ms_name = bc_name (ctx d p), ms_wt = memory_stats (use_count p) (bc_wt (ctx d p))\<rparr>) (d_branches d),
       dm_buffers = of_nat (length bufs),
       dm_dirty_bytes = of_nat (sum_list (map wb_dirty_bytes bufs)),
       dm_rss_kb = rss_kb\<rparr>)"

definition append_agent_state ::
  "(bytes \<Rightarrow> hash) \<Rightarrow> string \<Rightarrow> append_request \<Rightarrow> daemon \<Rightarrow> append_result \<times> daemon" where
  "append_agent_state H sfx req d =
     (case append_state H sfx req (d_state d) (d_store d) of
        (res, sd, s) \<Rightarrow> (res, d\<lparr>d_state := sd, d_store := s\<rparr>))"

definition leaf_hashes :: "working_tree \<Rightarrow> hash list" where
  "leaf_hashes wt = for_each_including_deleted (\<lambda>_ e out. if referenced_leaf e then out @ [e_hash e] else out) wt []"

text \<open>\<open>union_ids\<close>: the ids in the templates that the runtime supervisor lists.\<close>

definition live_union :: "string \<Rightarrow> hash option" where
  "live_union tid = (if length tid = 64 then hex_to_hash tid else None)"

definition collect_live_roots :: "string list \<Rightarrow> daemon \<Rightarrow> gc_live_roots" where
  "collect_live_roots union_ids d =
     \<lparr>gl_expected_branch_refs = map (\<lambda>(_, p). bc_name (ctx d p)) (d_branches d),
      gl_wt_hashes = concat (map (\<lambda>(_, p). leaf_hashes (bc_wt (ctx d p))) (d_branches d)),
      gl_fh_blob_hashes = filter (\<lambda>h. h \<noteq> ZERO_HASH) (map (\<lambda>(_, st). fh_base_blob st) (d_fhs d)),
      gl_fh_pinned_commits = filter (\<lambda>h. h \<noteq> ZERO_HASH) (map (\<lambda>(_, st). fh_pinned st) (d_fhs d)),
      gl_pending = pending_snapshot (d_store d),
      gl_runtime_union_states = List.map_filter live_union union_ids\<rparr>"

definition daemon_gc :: "u64 \<Rightarrow> string list \<Rightarrow> gc_policy \<Rightarrow> daemon \<Rightarrow> (gc_result \<times> daemon) option" where
  "daemon_gc elapsed union_ids policy d =
     map_option (\<lambda>(res, s). (res, d\<lparr>d_store := s\<rparr>))
       (gc_run elapsed (d_refs d) (d_state d) (collect_live_roots union_ids d) policy (d_store d))"

definition daemon_verify_gc :: "string list \<Rightarrow> gc_policy \<Rightarrow> daemon \<Rightarrow> (gc_result \<times> daemon) option" where
  "daemon_verify_gc union_ids policy d =
     map_option (\<lambda>(res, s). (res, d\<lparr>d_store := s\<rparr>))
       (gc_verify (d_refs d) (d_state d) (collect_live_roots union_ids d) policy (d_store d))"

definition is_hidden :: "string \<Rightarrow> bool" where
  "is_hidden path \<longleftrightarrow> path = ''/.agentvfs-store'' \<or> take 17 path = ''/.agentvfs-store/''"

end
