(* ===== verification/DaemonBranches.thy ===== *)
theory DaemonBranches
  imports Daemon
begin

text \<open>
  The invariant of the daemon and the steps that keep it; what creating, deleting and merging
  do to the branches, their refs and their trees.
\<close>

named_theorems daemon_simps "projections of the daemon's updates"

section \<open>The invariant\<close>

text \<open>
  Names and ids are inverse to each other on the live branches, the context 0 is main, no live
  branch is retired, ids are below the counter, and no reservation outlives its operation.
\<close>

definition names_ok :: "(u32, nat) omap \<Rightarrow> (string, u32) omap \<Rightarrow> branch_ctx list \<Rightarrow> u32 \<Rightarrow> bool" where
  "names_ok bs ns cs next_id \<longleftrightarrow> om_wf bs \<and> om_wf ns \<and> map_of bs 0 = Some 0 \<and> map_of ns ''main'' = Some 0 \<and>
     (\<forall>b p. map_of bs b = Some p \<longrightarrow> p < length cs \<and> bc_id (cs ! p) = b \<and>
        map_of ns (bc_name (cs ! p)) = Some b \<and> b < next_id \<and> \<not> bc_retired (cs ! p)) \<and>
     (\<forall>n b. map_of ns n = Some b \<longrightarrow> (\<exists>p. map_of bs b = Some p \<and> bc_name (cs ! p) = n))"

definition names_inv :: "daemon \<Rightarrow> bool" where
  "names_inv d \<longleftrightarrow> names_ok (d_branches d) (d_names d) (d_ctxs d) (d_next_branch d) \<and>
     d_creating d = [] \<and> d_sources d = []"

text \<open>The buffers of the open files are those the write buffer's operations make.\<close>

definition fh_ok :: "fh_state \<Rightarrow> bool" where
  "fh_ok st \<longleftrightarrow> (\<forall>wb. fh_buf st = Some wb \<longrightarrow> wb_inv wb) \<and> length (fh_cache st) < 2 ^ 64"

definition handles_inv :: "(u64 \<times> fh_state) list \<Rightarrow> bool" where
  "handles_inv fhs \<longleftrightarrow> distinct (map fst fhs) \<and> (\<forall>x \<in> set fhs. fh_ok (snd x))"

definition daemon_inv :: "daemon \<Rightarrow> bool" where
  "daemon_inv d \<longleftrightarrow> names_inv d \<and> (\<forall>c \<in> set (d_ctxs d). wt_inv (bc_wt c)) \<and> handles_inv (d_fhs d)"

lemma nth_upd [daemon_simps]: "xs[i := v] ! j = (if i = j \<and> i < length xs then v else xs ! j)"
  by (cases "i < length xs") (auto simp: nth_list_update list_update_beyond)

lemma ctx_upd [daemon_simps]:
  "ctx (upd_ctx p f d) q = (if q = p \<and> p < length (d_ctxs d) then f (ctx d p) else ctx d q)"
  by (auto simp: upd_ctx_def ctx_def nth_upd)

lemma upd_ctx_fields [simp]:
  "d_branches (upd_ctx p f d) = d_branches d" "d_names (upd_ctx p f d) = d_names d"
  "d_creating (upd_ctx p f d) = d_creating d" "d_sources (upd_ctx p f d) = d_sources d"
  "d_next_branch (upd_ctx p f d) = d_next_branch d" "d_fhs (upd_ctx p f d) = d_fhs d"
  "d_store (upd_ctx p f d) = d_store d" "d_refs (upd_ctx p f d) = d_refs d"
  "d_state (upd_ctx p f d) = d_state d" "length (d_ctxs (upd_ctx p f d)) = length (d_ctxs d)"
  "d_session (upd_ctx p f d) = d_session d" "d_policy (upd_ctx p f d) = d_policy d"
  by (simp_all add: upd_ctx_def)

lemma invalidate_fields [simp]:
  "d_branches (invalidate_fhs_for_branch b d) = d_branches d" "d_names (invalidate_fhs_for_branch b d) = d_names d"
  "d_creating (invalidate_fhs_for_branch b d) = d_creating d" "d_sources (invalidate_fhs_for_branch b d) = d_sources d"
  "d_next_branch (invalidate_fhs_for_branch b d) = d_next_branch d" "d_ctxs (invalidate_fhs_for_branch b d) = d_ctxs d"
  "d_store (invalidate_fhs_for_branch b d) = d_store d" "d_refs (invalidate_fhs_for_branch b d) = d_refs d"
  "d_state (invalidate_fhs_for_branch b d) = d_state d" "ctx (invalidate_fhs_for_branch b d) q = ctx d q"
  by (simp_all add: invalidate_fhs_for_branch_def ctx_def)

lemma ctx_fields [simp]:
  "ctx (d\<lparr>d_store := s\<rparr>) q = ctx d q" "ctx (d\<lparr>d_refs := r\<rparr>) q = ctx d q" "ctx (d\<lparr>d_fhs := f\<rparr>) q = ctx d q"
  "ctx (d\<lparr>d_state := sd\<rparr>) q = ctx d q" "ctx (d\<lparr>d_next_branch := n\<rparr>) q = ctx d q" "ctx (d\<lparr>d_next_fh := k\<rparr>) q = ctx d q"
  "ctx (d\<lparr>d_creating := cr\<rparr>) q = ctx d q" "ctx (d\<lparr>d_sources := so\<rparr>) q = ctx d q" "ctx (d\<lparr>d_policy := pv\<rparr>) q = ctx d q"
  "ctx (d\<lparr>d_names := ns\<rparr>) q = ctx d q" "ctx (d\<lparr>d_branches := bs\<rparr>) q = ctx d q"
  by (simp_all add: ctx_def)

lemma set_ctxs: "c \<in> set (d_ctxs d) \<longleftrightarrow> (\<exists>p < length (d_ctxs d). c = ctx d p)"
  by (auto simp: ctx_def in_set_conv_nth)

lemma names_okD:
  assumes "names_ok bs ns cs nx"
  shows "om_wf bs" "om_wf ns" "map_of bs 0 = Some 0" "map_of ns ''main'' = Some 0"
    "map_of bs b = Some p \<Longrightarrow> p < length cs \<and> bc_id (cs ! p) = b \<and> map_of ns (bc_name (cs ! p)) = Some b \<and>
       b < nx \<and> \<not> bc_retired (cs ! p)"
    "map_of ns n = Some b \<Longrightarrow> \<exists>p. map_of bs b = Some p \<and> bc_name (cs ! p) = n"
  using assms unfolding names_ok_def by blast+

lemma names_ok_same:
  assumes "names_ok bs ns cs nx" "length cs \<le> length cs'" "nx \<le> nx'"
    "\<And>p. p < length cs \<Longrightarrow> bc_id (cs' ! p) = bc_id (cs ! p) \<and> bc_name (cs' ! p) = bc_name (cs ! p) \<and>
       bc_retired (cs' ! p) = bc_retired (cs ! p)"
  shows "names_ok bs ns cs' nx'"
  unfolding names_ok_def
proof (intro conjI allI impI)
  note a = names_okD [OF assms(1)]
  fix b p assume b: "map_of bs b = Some p"
  show "p < length cs'" "bc_id (cs' ! p) = b" "map_of ns (bc_name (cs' ! p)) = Some b" "b < nx'" "\<not> bc_retired (cs' ! p)"
    using a(5) [OF b] assms(2-4) by auto
next
  note a = names_okD [OF assms(1)]
  fix n b assume "map_of ns n = Some b"
  then obtain p where p: "map_of bs b = Some p" "bc_name (cs ! p) = n" using a(6) by blast
  with a(5) [OF p(1)] assms(4) show "\<exists>p. map_of bs b = Some p \<and> bc_name (cs' ! p) = n" by auto
qed (use names_okD [OF assms(1)] in simp_all)

text \<open>Most operations change one tree, the handles, the refs and the store.\<close>

lemma inv_step:
  assumes "daemon_inv d" "handles_inv fhs" "wt_inv wt"
  shows "daemon_inv (upd_ctx p (\<lambda>c. c\<lparr>bc_wt := wt\<rparr>) (d\<lparr>d_fhs := fhs, d_refs := r, d_store := s\<rparr>))"
proof -
  let ?d = "upd_ctx p (\<lambda>c. c\<lparr>bc_wt := wt\<rparr>) (d\<lparr>d_fhs := fhs, d_refs := r, d_store := s\<rparr>)"
  have "names_inv ?d"
    using assms(1) unfolding daemon_inv_def names_inv_def
    by (auto elim!: names_ok_same simp: upd_ctx_def ctx_def nth_upd split: if_splits)
  moreover have "wt_inv (bc_wt c)" if "c \<in> set (d_ctxs ?d)" for c
    using that assms(1,3) unfolding set_ctxs by (auto simp: daemon_simps daemon_inv_def) (simp add: ctx_def)
  ultimately show ?thesis using assms(2) by (simp add: daemon_inv_def)
qed

lemma inv_store: "daemon_inv (d\<lparr>d_store := s\<rparr>) = daemon_inv d" "daemon_inv (d\<lparr>d_refs := r, d_store := s\<rparr>) = daemon_inv d"
  "daemon_inv (d\<lparr>d_refs := r\<rparr>) = daemon_inv d"
  by (simp_all add: daemon_inv_def names_inv_def ctx_def)

lemma invE:
  assumes "daemon_inv d" "map_of (d_branches d) b = Some p"
  shows "p < length (d_ctxs d)" "bc_id (ctx d p) = b" "map_of (d_names d) (bc_name (ctx d p)) = Some b"
    "b < d_next_branch d" "\<not> bc_retired (ctx d p)" "wt_inv (bc_wt (ctx d p))"
proof -
  have n: "names_ok (d_branches d) (d_names d) (d_ctxs d) (d_next_branch d)"
    using assms(1) by (simp add: daemon_inv_def names_inv_def)
  from names_okD(5) [OF n assms(2)]
  show p: "p < length (d_ctxs d)" and "bc_id (ctx d p) = b" "map_of (d_names d) (bc_name (ctx d p)) = Some b"
    "b < d_next_branch d" "\<not> bc_retired (ctx d p)" by (simp_all add: ctx_def)
  from p assms(1) show "wt_inv (bc_wt (ctx d p))" by (simp add: daemon_inv_def ctx_def)
qed

lemma inv_by_name:
  assumes "daemon_inv d" "branch_by_name n d = Some p"
  shows "map_of (d_branches d) (bc_id (ctx d p)) = Some p" "bc_name (ctx d p) = n"
    "map_of (d_names d) n = Some (bc_id (ctx d p))"
proof -
  obtain b where b: "map_of (d_names d) n = Some b" "map_of (d_branches d) b = Some p"
    using assms(2) by (auto simp: branch_by_name_def split: option.splits)
  have "names_ok (d_branches d) (d_names d) (d_ctxs d) (d_next_branch d)"
    using assms(1) by (simp add: daemon_inv_def names_inv_def)
  from names_okD(6) [OF this b(1)] b(2) have "bc_name (ctx d p) = n" by (simp add: ctx_def)
  with b invE(2) [OF assms(1) b(2)]
  show "map_of (d_branches d) (bc_id (ctx d p)) = Some p" "bc_name (ctx d p) = n"
    "map_of (d_names d) n = Some (bc_id (ctx d p))" by simp_all
qed

lemma inv_named:
  assumes "daemon_inv d" "map_of (d_branches d) b = Some p"
  shows "branch_by_name (bc_name (ctx d p)) d = Some p"
  using invE [OF assms] assms(2) by (simp add: branch_by_name_def)

lemma last_named_eq: "daemon_inv d \<Longrightarrow> last_named n d = branch_by_name n d"
proof -
  assume i: "daemon_inv d"
  have l: "fold (\<lambda>(_, p) found. if bc_name (ctx d p) = n then Some p else found) bs a =
      (if \<exists>x \<in> set bs. bc_name (ctx d (snd x)) = n then branch_by_name n d else a)"
    if "set bs \<subseteq> set (d_branches d)" for bs a
    using that
  proof (induction bs arbitrary: a)
    case (Cons x bs)
    obtain b p where x: "x = (b, p)" by (cases x)
    have "map_of (d_branches d) b = Some p"
      using Cons.prems x i by (auto simp: om_get_iff daemon_inv_def names_inv_def names_ok_def)
    from inv_named [OF i this] have "bc_name (ctx d p) = n \<Longrightarrow> branch_by_name n d = Some p" by auto
    with Cons x show ?case by auto
  qed simp
  show ?thesis
  proof (cases "branch_by_name n d")
    case None
    then show ?thesis using l [of "d_branches d" None] by (simp add: last_named_def)
  next
    case (Some p)
    note n = inv_by_name [OF i Some]
    have "(bc_id (ctx d p), p) \<in> set (d_branches d)" by (rule map_of_SomeD [OF n(1)])
    then have "\<exists>x \<in> set (d_branches d). bc_name (ctx d (snd x)) = n" using n(2) by force
    then show ?thesis using l [of "d_branches d" None] by (simp add: last_named_def)
  qed
qed

section \<open>Flushing\<close>

text \<open>What a handle's base is when its blob can be read.\<close>

definition base_bytes :: "store \<Rightarrow> fh_state \<Rightarrow> bytes" where
  "base_bytes s st =
     (if fh_loaded st \<or> fh_base_blob st = ZERO_HASH then fh_cache st
      else case Option.bind (payload ''blob'' s (fh_base_blob st)) blob_payload of
             None \<Rightarrow> fh_cache st | Some c \<Rightarrow> c)"

lemma blob_payload_short: "blob_payload b = Some c \<Longrightarrow> length c < 2 ^ 64"
proof -
  assume "blob_payload b = Some c"
  then have "length c = unat (dec64 (take 8 b))" by (auto simp: blob_payload_def split: if_splits)
  then show ?thesis using unat_lt2p [of "dec64 (take 8 b)"] by simp
qed

lemma base_bytes_short: "fh_ok st \<Longrightarrow> length (base_bytes s st) < 2 ^ 64"
  by (auto simp: base_bytes_def fh_ok_def dest: blob_payload_short split: option.split Option.bind_splits)

lemma ensure_base:
  assumes "ensure_base_cache st s = (st', s')"
  obtains c where "st' = st\<lparr>fh_cache := c, fh_loaded := True\<rparr>" "c = fh_cache st \<or> c = base_bytes s st"
    "s_io s = [] \<longrightarrow> c = base_bytes s st \<and> s_io s' = []" "same_objects s s'" "\<exists>io. s' = s\<lparr>s_io := io\<rparr>"
proof (cases "fh_loaded st \<or> fh_base_blob st = ZERO_HASH")
  case True
  have e: "st' = st\<lparr>fh_cache := fh_cache st, fh_loaded := True\<rparr> \<and> s' = s"
  proof (cases "fh_loaded st")
    case l: True
    then have "st = st\<lparr>fh_cache := fh_cache st, fh_loaded := True\<rparr>" by (cases st) simp
    with l assms show ?thesis by (simp add: ensure_base_cache_def)
  next
    case False
    with True assms show ?thesis by (simp add: ensure_base_cache_def)
  qed
  have b: "base_bytes s st = fh_cache st" using True by (simp add: base_bytes_def)
  have "\<exists>io. s = s\<lparr>s_io := io\<rparr>" by (rule exI [of _ "s_io s"]) simp
  then show thesis by (intro that [of "fh_cache st"]) (use e b in \<open>simp_all add: same_objects_def\<close>)
next
  case False
  obtain b t where b: "read_blob (fh_base_blob st) s = (b, t)" by fastforce
  with assms False have e: "st' = st\<lparr>fh_cache := (case b of None \<Rightarrow> fh_cache st | Some c \<Rightarrow> c), fh_loaded := True\<rparr>" "s' = t"
    by (auto simp: ensure_base_cache_def)
  note r = read_blob_same [OF b]
  show thesis
    by (rule that [OF e(1)]) (use r e(2) False in \<open>auto simp: base_bytes_def split: option.splits\<close>)
qed

text \<open>One handle: the blob of its contents is written and put at its path.\<close>

definition saved_blob :: "(bytes \<Rightarrow> hash) \<Rightarrow> bytes \<Rightarrow> hash" where
  "saved_blob H data = object_hash H ''blob'' (blob_body data)"

definition saved_entry :: "(bytes \<Rightarrow> hash) \<Rightarrow> bytes \<Rightarrow> entry option \<Rightarrow> entry" where
  "saved_entry H data old = \<lparr>e_kind = Blob, e_hash = saved_blob H data,
     e_mode = (case old of None \<Rightarrow> 33188 | Some e \<Rightarrow> e_mode e)\<rparr>"

definition saved_fh :: "(bytes \<Rightarrow> hash) \<Rightarrow> bytes \<Rightarrow> fh_state \<Rightarrow> fh_state" where
  "saved_fh H data st = st\<lparr>fh_buf := map_option wb_clear (fh_buf st), fh_base_blob := saved_blob H data,
     fh_base_size := of_nat (length data), fh_cache := data, fh_loaded := True\<rparr>"

lemma flush_fh_result:
  assumes "fh_ok st" "fh_buf st = Some wb"
  obtains c ok st' wt' s' where "flush_fh H st wt s = Some (ok, st', wt', s')"
    "c = fh_cache st \<or> c = base_bytes s st" "s_io s = [] \<Longrightarrow> c = base_bytes s st \<and> s_io s' = []"
    "ok \<Longrightarrow> st' = saved_fh H (wb_content c wb) st \<and>
       wt' = insert_entry (fh_path st) (saved_entry H (wb_content c wb) (lookup (fh_path st) wt)) wt \<and>
       find_object s' (saved_blob H (wb_content c wb)) \<noteq> None \<and> saved_blob H (wb_content c wb) \<noteq> ZERO_HASH"
    "\<not> ok \<Longrightarrow> st' = st\<lparr>fh_cache := c, fh_loaded := True\<rparr> \<and> wt' = wt" "length c < 2 ^ 64" "store_le s s'"
    "wrote s s'" "cas_ok H s \<Longrightarrow> cas_ok H s'"
proof -
  obtain st1 s1 where e0: "ensure_base_cache st s = (st1, s1)" by fastforce
  obtain c where e: "st1 = st\<lparr>fh_cache := c, fh_loaded := True\<rparr>" "c = fh_cache st \<or> c = base_bytes s st"
    "s_io s = [] \<longrightarrow> c = base_bytes s st \<and> s_io s1 = []" "same_objects s s1" "\<exists>io. s1 = s\<lparr>s_io := io\<rparr>"
    by (rule ensure_base [OF e0])
  have c: "length c < 2 ^ 64" using e(2) base_bytes_short [OF assms(1)] assms(1) by (auto simp: fh_ok_def)
  have m: "wb_materialize c wb = Some (wb_content c wb)"
    using assms c by (intro wb_materialize_content) (auto simp: fh_ok_def)
  let ?d = "wb_content c wb"
  obtain h t where w0: "write_blob H ?d s1 = (h, t)" by fastforce
  note w = w0 [unfolded write_blob_def]
  have h: "h = saved_blob H ?d \<or> h = ZERO_HASH" using write_object_hash [OF w] by (auto simp: saved_blob_def)
  have f: "h \<noteq> ZERO_HASH \<Longrightarrow> find_object t h \<noteq> None"
    using write_object_effect [OF w] by (auto simp: put_effect_def split: option.splits)
  have wr: "wrote s t"
  proof -
    obtain io where io: "s1 = s\<lparr>s_io := io\<rparr>" using e(5) by blast
    have "wrote s s1" using e(3) io by (intro wrote_quiet) (auto simp: store_quiet_def)
    with write_object_wrote [OF w] show ?thesis using wrote_trans by blast
  qed
  have le: "store_le s t" using same_objects_le [OF e(4)] write_object_le [OF w] store_le_trans by blast
  have cas: "cas_ok H s \<Longrightarrow> cas_ok H t" using same_objects_cas [OF e(4)] write_object_cas [OF w] by blast
  have io: "s_io s = [] \<Longrightarrow> s_io t = []" using write_object_ok(2) [of s1 H "''blob''" "blob_body ?d"] w e(3) by simp
  have r: "flush_fh H st wt s = Some (if h = ZERO_HASH then (False, st1, wt, t)
      else (True, saved_fh H ?d st, insert_entry (fh_path st) (saved_entry H ?d (lookup (fh_path st) wt)) wt, t))"
    using assms(2) h by (auto simp: flush_fh_def e0 e(1) m w0 Let_def saved_fh_def saved_entry_def)
  show thesis
  proof (cases "h = ZERO_HASH")
    case True
    then show thesis using r e c le cas io wr by (intro that [of False st1 wt t c]) auto
  next
    case False
    then show thesis
      using r e c le cas io wr h f
      by (intro that [of True "saved_fh H ?d st" "insert_entry (fh_path st) (saved_entry H ?d (lookup (fh_path st) wt)) wt" t c]) auto
  qed
qed

definition fh_frame :: "fh_state \<Rightarrow> fh_state \<Rightarrow> bool" where
  "fh_frame st st' \<longleftrightarrow> fh_path st' = fh_path st \<and> fh_branch st' = fh_branch st \<and> fh_stale st' = fh_stale st \<and>
     fh_pinned st' = fh_pinned st \<and> (fh_dirty st' \<longrightarrow> fh_dirty st) \<and> (fh_ok st \<longrightarrow> fh_ok st')"

lemma fh_frame_refl [simp]: "fh_frame st st"
  by (simp add: fh_frame_def)

lemma saved_fh_frame: "fh_ok st \<Longrightarrow> length data < 2 ^ 64 \<Longrightarrow> fh_frame st (saved_fh H data st)"
  by (auto simp: fh_frame_def saved_fh_def fh_ok_def fh_dirty_def wb_clear_inv split: option.splits)
    (simp add: is_dirty_def wb_clear_def)

lemma loaded_fh_frame: "length c < 2 ^ 64 \<Longrightarrow> fh_frame st (st\<lparr>fh_cache := c, fh_loaded := True\<rparr>)"
  by (simp add: fh_frame_def fh_ok_def fh_dirty_def)

lemma wb_content_short: "wb_inv wb \<Longrightarrow> length base < 2 ^ 64 \<Longrightarrow> length (wb_content base wb) < 2 ^ 64"
  using effective_size_small [of wb "length base"] by simp

lemma insert_entry_inv: "wt_inv wt \<Longrightarrow> e_kind e \<noteq> Deleted \<Longrightarrow> wt_inv (insert_entry p e wt)"
  using basic_inv [OF step_basic [OF insert_step]] by blast

text \<open>The contract of a flush, of one handle or all: it returns, whatever fails.\<close>

definition flush_safe :: "(bytes \<Rightarrow> hash) \<Rightarrow> working_tree \<Rightarrow> store \<Rightarrow> working_tree \<Rightarrow> store \<Rightarrow> bool" where
  "flush_safe H wt s wt' s' \<longleftrightarrow> (wt_inv wt \<longrightarrow> wt_inv wt') \<and> store_le s s' \<and> wrote s s' \<and>
     (cas_ok H s \<longrightarrow> cas_ok H s') \<and> (s_io s = [] \<longrightarrow> s_io s' = [])"

lemma flush_safe_refl [simp]: "flush_safe H wt s wt s"
  by (simp add: flush_safe_def wrote_refl)

lemma flush_safe_trans: "flush_safe H wt s wt' s' \<Longrightarrow> flush_safe H wt' s' wt'' s'' \<Longrightarrow> flush_safe H wt s wt'' s''"
  unfolding flush_safe_def using store_le_trans wrote_trans by blast

lemma flush_fh_safe:
  assumes "fh_ok st"
  obtains ok st' wt' s' where
    "(if needs_flush b st then flush_fh H st wt s else Some (True, st, wt, s)) = Some (ok, st', wt', s')"
    "fh_frame st st'" "flush_safe H wt s wt' s'"
    "\<And>p. lookup_raw p wt' \<noteq> lookup_raw p wt \<Longrightarrow> needs_flush b st \<and> p = fh_path st"
proof (cases "needs_flush b st")
  case False
  show thesis by (rule that [of True st wt s]) (use False in simp_all)
next
  case True
  then obtain wb where wb: "fh_buf st = Some wb" by (auto simp: needs_flush_def fh_dirty_def split: option.splits)
  show thesis
  proof (rule flush_fh_result [OF assms wb, of H wt s])
    fix c ok st' wt' s'
    assume r: "flush_fh H st wt s = Some (ok, st', wt', s')"
      and c: "length c < 2 ^ 64" "s_io s = [] \<Longrightarrow> c = base_bytes s st \<and> s_io s' = []"
      and t: "ok \<Longrightarrow> st' = saved_fh H (wb_content c wb) st \<and>
         wt' = insert_entry (fh_path st) (saved_entry H (wb_content c wb) (lookup (fh_path st) wt)) wt \<and>
         find_object s' (saved_blob H (wb_content c wb)) \<noteq> None \<and> saved_blob H (wb_content c wb) \<noteq> ZERO_HASH"
      and f: "\<not> ok \<Longrightarrow> st' = st\<lparr>fh_cache := c, fh_loaded := True\<rparr> \<and> wt' = wt"
      and g: "store_le s s'" "wrote s s'" "cas_ok H s \<Longrightarrow> cas_ok H s'"
    have w: "length (wb_content c wb) < 2 ^ 64" using wb_content_short c(1) wb assms by (simp add: fh_ok_def)
    have "fh_frame st st'" using t f saved_fh_frame [OF assms w] loaded_fh_frame [OF c(1)] by (cases ok) auto
    moreover have "flush_safe H wt s wt' s'"
      using t f g c(2) by (cases ok) (auto simp: flush_safe_def saved_entry_def intro: insert_entry_inv)
    moreover have "p = fh_path st" if "lookup_raw p wt' \<noteq> lookup_raw p wt" for p
      using t f that by (cases ok) (auto simp: lookup_raw_view insert_entry_def wt_raw_put split: if_splits)
    ultimately show thesis using r True by (intro that [of ok st' wt' s']) auto
  qed
qed

lemma flush_fhs_safe:
  assumes "\<forall>x \<in> set fhs. fh_ok (snd x)"
  obtains ok fhs' wt' s' where "flush_fhs H b fhs wt s = Some (ok, fhs', wt', s')"
    "list_all2 (\<lambda>x y. fst y = fst x \<and> fh_frame (snd x) (snd y)) fhs fhs'" "flush_safe H wt s wt' s'"
    "\<And>p. lookup_raw p wt' \<noteq> lookup_raw p wt \<Longrightarrow> \<exists>x \<in> set fhs. needs_flush b (snd x) \<and> p = fh_path (snd x)"
  using assms
proof (induction fhs arbitrary: wt s thesis)
  case Nil
  show thesis by (rule Nil.prems(1) [of True "[]" wt s]) simp_all
next
  case (Cons x fhs)
  obtain fh st where x: "x = (fh, st)" by (cases x)
  have ok: "fh_ok st" "\<forall>x \<in> set fhs. fh_ok (snd x)" using Cons.prems(2) x by auto
  obtain a st1 wt1 s1 where 1: "(if needs_flush b st then flush_fh H st wt s else Some (True, st, wt, s)) = Some (a, st1, wt1, s1)"
    "fh_frame st st1" "flush_safe H wt s wt1 s1"
    "\<And>p. lookup_raw p wt1 \<noteq> lookup_raw p wt \<Longrightarrow> needs_flush b st \<and> p = fh_path st"
    by (rule flush_fh_safe [OF ok(1), of b H wt s]) (rule that)
  have all: "list_all2 (\<lambda>x y. fst y = fst x \<and> fh_frame (snd x) (snd y)) fhs fhs" by (rule list.rel_refl) simp
  show thesis
  proof (cases a)
    case False
    show thesis
      by (rule Cons.prems(1) [of False "(fh, st1) # fhs" wt1 s1]) (use 1 False all x in auto)
  next
    case True
    obtain ok2 fhs2 wt2 s2 where 2: "flush_fhs H b fhs wt1 s1 = Some (ok2, fhs2, wt2, s2)"
      "list_all2 (\<lambda>x y. fst y = fst x \<and> fh_frame (snd x) (snd y)) fhs fhs2" "flush_safe H wt1 s1 wt2 s2"
      "\<And>p. lookup_raw p wt2 \<noteq> lookup_raw p wt1 \<Longrightarrow> \<exists>x \<in> set fhs. needs_flush b (snd x) \<and> p = fh_path (snd x)"
      using Cons.IH [OF _ ok(2)] by blast
    have p: "\<exists>y \<in> set (x # fhs). needs_flush b (snd y) \<and> p = fh_path (snd y)" if "lookup_raw p wt2 \<noteq> lookup_raw p wt" for p
      using 1(4) [of p] 2(4) [of p] that x by (cases "lookup_raw p wt1 = lookup_raw p wt") auto
    show thesis
      by (rule Cons.prems(1) [of ok2 "(fh, st1) # fhs2" wt2 s2])
         (use 1 2 True x p flush_safe_trans [OF 1(3) 2(3)] in auto)
  qed
qed

lemma frame_handles_inv:
  assumes "list_all2 (\<lambda>x y. fst y = fst x \<and> fh_frame (snd x) (snd y)) fhs fhs'" "handles_inv fhs"
  shows "handles_inv fhs'" "map fst fhs' = map fst fhs"
proof -
  have "map fst fhs' = map fst fhs \<and> ((\<forall>x \<in> set fhs. fh_ok (snd x)) \<longrightarrow> (\<forall>x \<in> set fhs'. fh_ok (snd x)))"
    using assms(1) by (induction rule: list_all2_induct) (auto simp: fh_frame_def)
  with assms(2) show "handles_inv fhs'" "map fst fhs' = map fst fhs" by (simp_all add: handles_inv_def)
qed

section \<open>The operations keep the invariant\<close>

lemma add_entry_wf: "om_wf (fst st) \<Longrightarrow> om_wf (fst (fold (add_entry pre) es st))"
  by (induction es arbitrary: st) (simp_all add: add_entry_def Let_def om_wf_put)

lemma tree_read_error_only: "only_io s0 s \<Longrightarrow> only_io s0 (snd (tree_read_error h s))"
  by (cases "next_io s") (auto simp: tree_read_error_def dest: next_io_only split: option.split)

text \<open>Rebuilding only reads, and its map is ordered.\<close>

lemma rebuild_loop_effect:
  assumes "rebuild_loop stack m s = Some y"
  shows "(om_wf m \<longrightarrow> (\<forall>m'. fst y = Inr m' \<longrightarrow> om_wf m')) \<and> only_io s (snd y)"
proof (rule rebuild_loop.raw_induct [where P = "\<lambda>stack m s y. (om_wf m \<longrightarrow> (\<forall>m'. fst y = Inr m' \<longrightarrow> om_wf m')) \<and> only_io s (snd y)",
      OF _ assms])
  fix rl :: "(hash \<times> string) list \<Rightarrow> entry_map \<Rightarrow> store \<Rightarrow> ((string + entry_map) \<times> store) option"
    and stack :: "(hash \<times> string) list" and m :: entry_map and s :: store and y :: "(string + entry_map) \<times> store"
  assume IH: "\<And>stack m s y. rl stack m s = Some y \<Longrightarrow> (om_wf m \<longrightarrow> (\<forall>m'. fst y = Inr m' \<longrightarrow> om_wf m')) \<and> only_io s (snd y)"
    and r: "(case stack of
      [] \<Rightarrow> Some (Inr m, s)
    | (h, pre) # stack \<Rightarrow>
        (case read_tree h s of
           (None, s) \<Rightarrow> (case tree_read_error h s of (e, s) \<Rightarrow> Some (Inl e, s))
         | (Some body, s) \<Rightarrow>
             (case deserialize_tree_entries body of
                None \<Rightarrow> Some (Inl (''corrupt tree object: '' @ hash_to_hex h), s)
              | Some entries \<Rightarrow>
                  (case fold (add_entry pre) entries (m, stack) of
                     (scratch, stack) \<Rightarrow> rl stack scratch s)))) = Some y"
  show "(om_wf m \<longrightarrow> (\<forall>m'. fst y = Inr m' \<longrightarrow> om_wf m')) \<and> only_io s (snd y)"
  proof (cases stack)
    case Nil
    with r show ?thesis by auto
  next
    case (Cons hp rest)
    obtain h pre where hp: "hp = (h, pre)" by (cases hp)
    obtain b t where b: "read_tree h s = (b, t)" by fastforce
    have o: "only_io s t" using read_object_spec(1) [OF only_io_refl b [unfolded read_tree_def]] .
    show ?thesis
    proof (cases "\<exists>body es. b = Some body \<and> deserialize_tree_entries body = Some es")
      case True
      then obtain body es where be: "b = Some body" "deserialize_tree_entries body = Some es" by blast
      obtain m2 st2 where f: "fold (add_entry pre) es (m, rest) = (m2, st2)" by fastforce
      have "om_wf m \<Longrightarrow> om_wf m2" using add_entry_wf [of "(m, rest)" pre es] f by simp
      moreover have "rl st2 m2 t = Some y" using r Cons hp b be f by simp
      ultimately show ?thesis using IH only_io_trans [OF o] by blast
    next
      case False
      then show ?thesis using r Cons hp b o tree_read_error_only [OF o, of h]
        by (auto split: option.splits prod.splits)
    qed
  qed
qed

lemma rebuild_effect:
  assumes "rebuild_working_tree h wt0 s = Some (x, s')"
  shows "only_io s s'" "x = Inr wt \<Longrightarrow> wt_inv wt"
proof -
  obtain y where l: "rebuild_loop [(h, ''/'')] [] s = Some (y, s')" "map_sum id (\<lambda>m. set_base m wt0) y = x"
    using assms by (auto simp: rebuild_working_tree_def)
  note e = rebuild_loop_effect [OF l(1)]
  show "only_io s s'" using e by simp
  show "x = Inr wt \<Longrightarrow> wt_inv wt" using e l(2) by (cases y) (auto simp: wt_inv_fresh)
qed

lemma load_commit_tree_only: "load_commit_tree c s = Some (x, s') \<Longrightarrow> only_io s s'"
  by (auto simp: load_commit_tree_def split: prod.splits sum.splits option.splits
      dest!: read_commit_data_spec(1) rebuild_effect(1) dest: only_io_trans)

lemma checkpoint_wt:
  assumes "checkpoint_locked H t flush l si pv b rp = (x, rp')" "flush (rp_wt rp) (rp_store rp) = (ok, wt, s)"
  shows "rp_wt rp' = wt"
  using assms unfolding checkpoint_locked_def Let_def
  by (auto split: prod.splits sum.splits option.splits if_splits)

lemma rollback_inv:
  assumes "rollback_locked target b rp = Some (x, iv, rp')" "wt_inv (rp_wt rp)"
  shows "wt_inv (rp_wt rp')"
  using assms unfolding rollback_locked_def
  by (auto split: prod.splits option.splits sum.splits if_splits dest: rebuild_effect(2))

lemma ctx_inv: "daemon_inv d \<Longrightarrow> p < length (d_ctxs d) \<Longrightarrow> wt_inv (bc_wt (ctx d p))"
  by (simp add: daemon_inv_def ctx_def)

lemma inv_handles: "daemon_inv d \<Longrightarrow> handles_inv (d_fhs d)"
  by (simp add: daemon_inv_def)

text \<open>A checkpoint of a live branch returns, and its effect.\<close>

definition branch_repo :: "daemon \<Rightarrow> nat \<Rightarrow> repo" where
  "branch_repo d p = \<lparr>rp_wt = bc_wt (ctx d p), rp_refs = d_refs d, rp_store = d_store d\<rparr>"

definition after_checkpoint :: "nat \<Rightarrow> (u64 \<times> fh_state) list \<Rightarrow> repo \<Rightarrow> daemon \<Rightarrow> daemon" where
  "after_checkpoint p fhs rp d = upd_ctx p (\<lambda>c. c\<lparr>bc_wt := rp_wt rp\<rparr>)
     (d\<lparr>d_fhs := fhs, d_refs := rp_refs rp, d_store := rp_store rp\<rparr>)"

lemma checkpoint_ctx_result:
  assumes i: "daemon_inv d" and p: "p < length (d_ctxs d)"
  obtains ok fhs wt s res rp where
    "flush_fhs H (bc_id (ctx d p)) (d_fhs d) (bc_wt (ctx d p)) (d_store d) = Some (ok, fhs, wt, s)"
    "checkpoint_locked H t (\<lambda>_ _. (ok, wt, s)) label (d_session d) (d_policy d) name (branch_repo d p) = (res, rp)"
    "checkpoint_ctx H t label name p d = Some (res, after_checkpoint p fhs rp d)" "rp_wt rp = wt"
    "list_all2 (\<lambda>x y. fst y = fst x \<and> fh_frame (snd x) (snd y)) (d_fhs d) fhs"
    "flush_safe H (bc_wt (ctx d p)) (d_store d) wt s" "daemon_inv (after_checkpoint p fhs rp d)"
    "\<And>q. lookup_raw q wt \<noteq> lookup_raw q (bc_wt (ctx d p)) \<Longrightarrow>
       \<exists>x \<in> set (d_fhs d). needs_flush (bc_id (ctx d p)) (snd x) \<and> q = fh_path (snd x)"
proof -
  have h: "\<forall>x \<in> set (d_fhs d). fh_ok (snd x)" using inv_handles [OF i] by (simp add: handles_inv_def)
  show thesis
  proof (rule flush_fhs_safe [OF h, of H "bc_id (ctx d p)" "bc_wt (ctx d p)" "d_store d"])
    fix ok fhs wt s
    assume f: "flush_fhs H (bc_id (ctx d p)) (d_fhs d) (bc_wt (ctx d p)) (d_store d) = Some (ok, fhs, wt, s)"
      "list_all2 (\<lambda>x y. fst y = fst x \<and> fh_frame (snd x) (snd y)) (d_fhs d) fhs"
      "flush_safe H (bc_wt (ctx d p)) (d_store d) wt s"
      "\<And>q. lookup_raw q wt \<noteq> lookup_raw q (bc_wt (ctx d p)) \<Longrightarrow>
         \<exists>x \<in> set (d_fhs d). needs_flush (bc_id (ctx d p)) (snd x) \<and> q = fh_path (snd x)"
    obtain res rp where c: "checkpoint_locked H t (\<lambda>_ _. (ok, wt, s)) label (d_session d) (d_policy d) name (branch_repo d p) = (res, rp)"
      by fastforce
    have w: "rp_wt rp = wt" by (rule checkpoint_wt [OF c]) simp
    have "wt_inv wt" using f(3) ctx_inv [OF i p] by (simp add: flush_safe_def)
    then have "daemon_inv (after_checkpoint p fhs rp d)"
      unfolding after_checkpoint_def w by (intro inv_step i frame_handles_inv(1) [OF f(2) inv_handles [OF i]])
    moreover have "checkpoint_ctx H t label name p d = Some (res, after_checkpoint p fhs rp d)"
      using f(1) c by (simp add: checkpoint_ctx_def Let_def branch_repo_def after_checkpoint_def)
    ultimately show thesis using that f c w by blast
  qed
qed

lemma checkpoint_by_name_inv:
  assumes "daemon_inv d"
  shows "\<exists>res d'. checkpoint_branch_by_name H t n label d = Some (res, d') \<and> daemon_inv d'"
proof (cases "branch_by_name n d")
  case None
  then show ?thesis using assms by (simp add: checkpoint_branch_by_name_def)
next
  case (Some p)
  have p: "p < length (d_ctxs d)" using invE(1) [OF assms] inv_by_name(1) [OF assms Some] by blast
  show ?thesis
    by (rule checkpoint_ctx_result [OF assms p, of H t label "bc_name (ctx d p)"])
       (simp add: checkpoint_branch_by_name_def Some)
qed

lemma checkpoint_branch_inv:
  assumes "daemon_inv d"
  shows "\<exists>res d'. checkpoint_branch H t br label d = Some (res, d') \<and> daemon_inv d'"
proof (cases br)
  case None
  then show ?thesis using assms by (simp add: checkpoint_branch_def)
next
  case (Some p)
  show ?thesis
  proof (cases "map_of (d_branches d) (bc_id (ctx d p)) = Some p")
    case True
    have p: "p < length (d_ctxs d)" by (rule invE(1) [OF assms True])
    show ?thesis
      by (rule checkpoint_ctx_result [OF assms p, of H t label "bc_name (ctx d p)"])
         (simp add: checkpoint_branch_def Some True)
  qed (use assms Some in \<open>simp add: checkpoint_branch_def\<close>)
qed

lemma invalidate_inv: "daemon_inv d \<Longrightarrow> daemon_inv (invalidate_fhs_for_branch b d)"
  by (auto simp: daemon_inv_def names_inv_def handles_inv_def invalidate_fhs_for_branch_def fh_ok_def comp_def
      case_prod_unfold split: if_splits)

lemma rollback_branch_inv:
  assumes "daemon_inv d" "rollback_branch_to_commit n h d = Some (res, d')"
  shows "daemon_inv d'"
proof (cases "branch_by_name n d")
  case None
  then show ?thesis using assms by (simp add: rollback_branch_to_commit_def)
next
  case (Some p)
  have p: "p < length (d_ctxs d)" using invE(1) [OF assms(1)] inv_by_name(1) [OF assms(1) Some] by blast
  obtain x iv rp where r: "rollback_locked (hash_to_hex h) n (branch_repo d p) = Some (x, iv, rp)"
    using assms(2) Some by (auto simp: rollback_branch_to_commit_def branch_repo_def Let_def split: option.splits)
  have "wt_inv (rp_wt rp)" by (rule rollback_inv [OF r]) (use ctx_inv [OF assms(1) p] in \<open>simp add: branch_repo_def\<close>)
  note i0 = inv_step [OF assms(1) inv_handles [OF assms(1)] this, where p = p and r = "rp_refs rp" and s = "rp_store rp"]
  have i: "daemon_inv (upd_ctx p (\<lambda>c. c\<lparr>bc_wt := rp_wt rp\<rparr>) (d\<lparr>d_refs := rp_refs rp, d_store := rp_store rp\<rparr>))"
    using i0 by simp
  show ?thesis
    using assms(2) Some r i invalidate_inv [OF i]
    by (auto simp: rollback_branch_to_commit_def branch_repo_def Let_def split: if_splits)
qed

lemma next_id_greater: "b \<noteq> no_branch \<Longrightarrow> b < b + 1"
proof -
  assume "b \<noteq> no_branch"
  then have "1 + b \<noteq> 0" by (simp add: no_branch_def eq_neg_iff_add_eq_0 add.commute)
  then have "unat (1 + b) = Suc (unat b)" by (rule unatSuc)
  then show ?thesis by (simp add: word_less_nat_alt add.commute)
qed

text \<open>A new context under a new name.\<close>

lemma publish_inv:
  assumes "daemon_inv d" "bc_id c = d_next_branch d" "d_next_branch d \<noteq> no_branch"
    "map_of (d_names d) (bc_name c) = None" "\<not> bc_retired c" "wt_inv (bc_wt c)"
  shows "daemon_inv (publish_ctx c (d\<lparr>d_next_branch := d_next_branch d + 1\<rparr>))"
proof -
  let ?n = "d_next_branch d" and ?cs = "d_ctxs d @ [c]"
  have n: "names_ok (d_branches d) (d_names d) (d_ctxs d) ?n" "d_creating d = []" "d_sources d = []"
    using assms(1) by (simp_all add: daemon_inv_def names_inv_def)
  note a = names_okD [OF n(1)]
  have lt: "?n < ?n + 1" by (rule next_id_greater [OF assms(3)])
  have new: "map_of (d_branches d) ?n = None"
    using a(5) [of ?n] by (cases "map_of (d_branches d) ?n") auto
  have pre: "bc_name (?cs ! p) = bc_name (d_ctxs d ! p)" "bc_id (?cs ! p) = bc_id (d_ctxs d ! p)"
    "bc_retired (?cs ! p) = bc_retired (d_ctxs d ! p)" if "p < length (d_ctxs d)" for p
    using that by (simp_all add: nth_append)
  have z: "?n \<noteq> 0" using a(5) [OF a(3)] by auto
  have m: "bc_name c \<noteq> ''main''" using assms(4) a(4) by auto
  have "names_ok (om_put ?n (length (d_ctxs d)) (d_branches d)) (om_put (bc_name c) ?n (d_names d)) ?cs (?n + 1)"
    unfolding names_ok_def
  proof (intro conjI allI impI)
    fix b p assume "map_of (om_put ?n (length (d_ctxs d)) (d_branches d)) b = Some p"
    then have b: "b = ?n \<and> p = length (d_ctxs d) \<or> b \<noteq> ?n \<and> map_of (d_branches d) b = Some p"
      by (auto simp: om_simps split: if_splits)
    show "p < length ?cs" "bc_id (?cs ! p) = b"
      "map_of (om_put (bc_name c) ?n (d_names d)) (bc_name (?cs ! p)) = Some b" "b < ?n + 1" "\<not> bc_retired (?cs ! p)"
      using b a(5) [of b p] assms(2,4,5) lt pre [of p] by (auto simp: om_simps)
  next
    fix n b assume "map_of (om_put (bc_name c) ?n (d_names d)) n = Some b"
    then consider "n = bc_name c" "b = ?n" | "n \<noteq> bc_name c" "map_of (d_names d) n = Some b"
      by (auto simp: om_simps split: if_splits)
    then show "\<exists>p. map_of (om_put ?n (length (d_ctxs d)) (d_branches d)) b = Some p \<and> bc_name (?cs ! p) = n"
    proof cases
      case 1
      then show ?thesis by (intro exI [of _ "length (d_ctxs d)"]) (simp add: om_simps)
    next
      case 2
      then obtain p where p: "map_of (d_branches d) b = Some p" "bc_name (d_ctxs d ! p) = n" using a(6) by blast
      have "b \<noteq> ?n" "p < length (d_ctxs d)" using a(5) [OF p(1)] by auto
      with p pre show ?thesis by (intro exI [of _ p]) (simp add: om_simps)
    qed
  qed (use a z m in \<open>simp_all add: om_simps om_wf_put\<close>)
  then show ?thesis
    using assms(1,2,6) n by (auto simp: daemon_inv_def names_inv_def publish_ctx_def)
qed

lemma inv_skip_id: "daemon_inv d \<Longrightarrow> d_next_branch d \<noteq> no_branch \<Longrightarrow> daemon_inv (d\<lparr>d_next_branch := d_next_branch d + 1\<rparr>)"
proof -
  assume i: "daemon_inv d" and n: "d_next_branch d \<noteq> no_branch"
  have le: "d_next_branch d \<le> d_next_branch d + 1" by (rule less_imp_le [OF next_id_greater [OF n]])
  have ok: "names_ok (d_branches d) (d_names d) (d_ctxs d) (d_next_branch d)"
    using i by (simp add: daemon_inv_def names_inv_def)
  have "names_ok (d_branches d) (d_names d) (d_ctxs d) (d_next_branch d + 1)"
    by (rule names_ok_same [OF ok order_refl le]) (intro conjI refl)
  with i show ?thesis unfolding daemon_inv_def names_inv_def by simp
qed

section \<open>Creating a branch\<close>

lemma reserve_cleared:
  assumes "d_creating d = []" "d_sources d = []" "reserve_branch name src d = Some (p, d1)"
  shows "branch_by_name src d = Some p" "map_of (d_names d) name = None"
    "d1 = d\<lparr>d_creating := [name], d_sources := [(src, 1)]\<rparr>"
  using assms by (auto simp: reserve_branch_def set_put_def insort_insert_key_def split: if_splits option.splits)

text \<open>The outcomes of a creation: refused, failed at one of the two ref accesses, or done.\<close>

lemma create_branch_cases:
  assumes i: "daemon_inv d"
  obtains (refused) "create_branch name src d = (no_branch, d)"
    "map_of (d_names d) name \<noteq> None \<or> branch_by_name src d = None"
  | (failed) r s where "create_branch name src d = (no_branch, d\<lparr>d_next_branch := d_next_branch d + 1, d_refs := r, d_store := s\<rparr>)"
    "map_of (d_names d) name = None" "branch_by_name src d \<noteq> None"
    "r = d_refs d \<or> (\<exists>h s0. write_ref name h (d_refs d) s0 = (False, r, s))"
  | (created) p h s1 r s where
    "create_branch name src d = (d_next_branch d,
       publish_ctx (branch_new (d_next_branch d) name (clone (bc_wt (ctx d p))))
         (d\<lparr>d_next_branch := d_next_branch d + 1, d_refs := r, d_store := s\<rparr>))"
    "branch_by_name src d = Some p" "map_of (d_names d) name = None"
    "read_ref (d_refs d) src (d_store d) = (Some h, s1)" "write_ref name h (d_refs d) s1 = (True, r, s)"
proof (cases "reserve_branch name src d")
  case None
  then show thesis
    using i by (intro refused) (auto simp: create_branch_def reserve_branch_def daemon_inv_def names_inv_def
        split: if_splits option.splits)
next
  case (Some pd)
  have e: "d_creating d = []" "d_sources d = []" using i by (simp_all add: daemon_inv_def names_inv_def)
  obtain p d1 where pd: "pd = (p, d1)" by (cases pd)
  note r = reserve_cleared [OF e Some [unfolded pd]]
  let ?b = "d_next_branch d"
  have cl: "clear_reservations name src (d1\<lparr>d_next_branch := ?b + 1, d_refs := r, d_store := s\<rparr>) =
      d\<lparr>d_next_branch := ?b + 1, d_refs := r, d_store := s\<rparr>" for r s
    using e by (cases d) (simp add: r(3) clear_reservations_def set_del_def om_del_def Let_def)
  obtain x s1 where rd: "read_ref (d_refs d) src (d_store d) = (x, s1)" by fastforce
  show thesis
  proof (cases x)
    case None
    have "create_branch name src d = (no_branch, d\<lparr>d_next_branch := ?b + 1, d_refs := d_refs d, d_store := s1\<rparr>)"
      using cl [where r = "d_refs d" and s = s1] rd None by (simp add: create_branch_def Some pd r(3) Let_def)
    then show thesis using failed r by blast
  next
    case h: (Some h)
    obtain ok rf s2 where w: "write_ref name h (d_refs d) s1 = (ok, rf, s2)" by (metis prod.collapse)
    show thesis
    proof (cases ok)
      case False
      have "create_branch name src d = (no_branch, d\<lparr>d_next_branch := ?b + 1, d_refs := rf, d_store := s2\<rparr>)"
        using cl [where r = rf and s = s2] rd h w False by (simp add: create_branch_def Some pd r(3) Let_def)
      then show thesis by (rule failed) (use r w False in auto)
    next
      case True
      have "create_branch name src d = (?b, publish_ctx (branch_new ?b name (clone (bc_wt (ctx d p))))
         (d\<lparr>d_next_branch := ?b + 1, d_refs := rf, d_store := s2\<rparr>))"
        using cl [where r = rf and s = s2] rd h w True r(2) by (simp add: create_branch_def Some pd r(3) Let_def ctx_def)
      then show thesis by (rule created) (use r rd h w True in auto)
    qed
  qed
qed

lemma create_branch_inv:
  assumes i: "daemon_inv d" and n: "d_next_branch d \<noteq> no_branch" and c: "create_branch name src d = (b, d')"
  shows "daemon_inv d'"
  using i
proof (cases rule: create_branch_cases [where name = name and src = src])
  case refused
  with i c show ?thesis by simp
next
  case (failed r s)
  have "daemon_inv ((d\<lparr>d_next_branch := d_next_branch d + 1\<rparr>)\<lparr>d_refs := r, d_store := s\<rparr>)"
    using inv_skip_id [OF i n] by (simp only: inv_store(2))
  with failed(1) c show ?thesis by simp
next
  case (created p h s1 r s)
  let ?d = "d\<lparr>d_refs := r, d_store := s\<rparr>"
  have p: "map_of (d_branches d) (bc_id (ctx d p)) = Some p" by (rule inv_by_name(1) [OF i created(2)])
  have "wt_inv (clone (bc_wt (ctx d p)))"
    using basic_inv [OF step_basic [OF clone_step] invE(6) [OF i p]] by simp
  then have "daemon_inv (publish_ctx (branch_new (d_next_branch ?d) name (clone (bc_wt (ctx d p)))) (?d\<lparr>d_next_branch := d_next_branch ?d + 1\<rparr>))"
    using i n created(3) by (intro publish_inv) (simp_all add: inv_store branch_new_def)
  moreover have eq: "d\<lparr>d_next_branch := d_next_branch d + 1, d_refs := r, d_store := s\<rparr> = ?d\<lparr>d_next_branch := d_next_branch ?d + 1\<rparr>"
    by (cases d) simp
  ultimately show ?thesis using created(1) c unfolding eq by simp
qed

section \<open>Deleting a branch\<close>

lemma delete_branch_inv:
  assumes i: "daemon_inv d" and c: "delete_branch has_cgroup name d = (ok, d')"
  shows "daemon_inv d'"
proof (cases "ok")
  case False
  have "\<exists>r s. d = d\<lparr>d_refs := r, d_store := s\<rparr>"
    by (intro exI [of _ "d_refs d"] exI [of _ "d_store d"]) simp
  with False have "\<exists>r s. d' = d\<lparr>d_refs := r, d_store := s\<rparr>"
    using c by (auto simp: delete_branch_def Let_def split: if_splits option.splits prod.splits bool.splits)
  with i inv_store(2) show ?thesis by auto
next
  case True
  then obtain p r s where p: "branch_by_name name d = Some p" "name \<noteq> ''main''"
    and d': "d' = (invalidate_fhs_for_branch (bc_id (ctx d p))
        (upd_ctx p (\<lambda>c. c\<lparr>bc_retired := True\<rparr>) (d\<lparr>d_refs := r, d_store := s\<rparr>)))
        \<lparr>d_names := om_del name (d_names d), d_branches := om_del (bc_id (ctx d p)) (d_branches d)\<rparr>"
    using c by (auto simp: delete_branch_def Let_def split: if_splits option.splits prod.splits bool.splits)
  note n = inv_by_name [OF i p(1)]
  let ?b = "bc_id (ctx d p)" and ?cs = "(d_ctxs d)[p := (ctx d p)\<lparr>bc_retired := True\<rparr>]"
  have ok: "names_ok (d_branches d) (d_names d) (d_ctxs d) (d_next_branch d)" using i by (simp add: daemon_inv_def names_inv_def)
  note a = names_okD [OF ok]
  have z: "?b \<noteq> 0"
  proof
    assume "?b = 0"
    then have "map_of (d_branches d) 0 = Some p" using n(1) by simp
    then have "p = 0" using a(3) by simp
    moreover have "bc_name (d_ctxs d ! 0) = ''main''" using a(6) [OF a(4)] a(3) by auto
    ultimately show False using n(2) p(2) by (simp add: ctx_def)
  qed
  have other: "map_of (d_branches d) b = Some q \<Longrightarrow> b \<noteq> ?b \<Longrightarrow> q \<noteq> p \<and> bc_name (d_ctxs d ! q) \<noteq> name" for b q
    using a(5) [of b q] n(3) by (auto simp: ctx_def)
  have "names_ok (om_del ?b (d_branches d)) (om_del name (d_names d)) ?cs (d_next_branch d)"
    unfolding names_ok_def
  proof (intro conjI allI impI)
    fix b q assume "map_of (om_del ?b (d_branches d)) b = Some q"
    then have b: "b \<noteq> ?b" "map_of (d_branches d) b = Some q" by (auto simp: om_simps split: if_splits)
    show "q < length ?cs" "bc_id (?cs ! q) = b" "map_of (om_del name (d_names d)) (bc_name (?cs ! q)) = Some b"
      "b < d_next_branch d" "\<not> bc_retired (?cs ! q)"
      using a(5) [OF b(2)] other [OF b(2,1)] by (auto simp: om_simps nth_upd)
  next
    fix m b assume "map_of (om_del name (d_names d)) m = Some b"
    then have m: "m \<noteq> name" "map_of (d_names d) m = Some b" by (auto simp: om_simps split: if_splits)
    obtain q where q: "map_of (d_branches d) b = Some q" "bc_name (d_ctxs d ! q) = m" using a(6) [OF m(2)] by blast
    have "b \<noteq> ?b" using q n(1,2) m(1) by (auto simp: ctx_def)
    with q other show "\<exists>q. map_of (om_del ?b (d_branches d)) b = Some q \<and> bc_name (?cs ! q) = m"
      by (intro exI [of _ q]) (auto simp: om_simps nth_upd)
  qed (use a z p(2) in \<open>simp_all add: om_simps om_wf_del\<close>)
  moreover have "wt_inv (bc_wt c)" if "c \<in> set ?cs" for c
  proof -
    obtain q where "q < length (d_ctxs d)" "c = ?cs ! q" using \<open>c \<in> set ?cs\<close> by (auto simp: in_set_conv_nth)
    then show ?thesis using ctx_inv [OF i, of q] by (auto simp: nth_upd ctx_def)
  qed
  moreover have "handles_inv (d_fhs (invalidate_fhs_for_branch ?b d))" using invalidate_inv [OF i] by (rule inv_handles)
  ultimately show ?thesis
    using i unfolding d' daemon_inv_def names_inv_def
    by (auto simp: upd_ctx_def ctx_def invalidate_fhs_for_branch_def)
qed

section \<open>Merging branches\<close>

text \<open>What an operation on the branches \<open>P\<close> with the names \<open>N\<close> leaves alone.\<close>

definition only_touches :: "nat set \<Rightarrow> string set \<Rightarrow> daemon \<Rightarrow> daemon \<Rightarrow> bool" where
  "only_touches P N d d' \<longleftrightarrow> d_branches d' = d_branches d \<and> d_names d' = d_names d \<and>
     d_next_branch d' = d_next_branch d \<and> length (d_ctxs d') = length (d_ctxs d) \<and>
     (\<forall>q. bc_id (ctx d' q) = bc_id (ctx d q) \<and> bc_name (ctx d' q) = bc_name (ctx d q)) \<and>
     (\<forall>q. q \<notin> P \<longrightarrow> ctx d' q = ctx d q) \<and> (\<forall>n. n \<notin> N \<longrightarrow> ref_of (d_refs d') n = ref_of (d_refs d) n)"

lemma only_touches_refl [simp]: "only_touches P N d d"
  by (simp add: only_touches_def)

lemma only_touches_trans:
  "only_touches P N d d' \<Longrightarrow> only_touches P' N' d' d'' \<Longrightarrow> only_touches (P \<union> P') (N \<union> N') d d''"
  by (auto simp: only_touches_def)

lemma ref_of_write:
  "write_ref n c r s = (ok, r', s') \<Longrightarrow> m \<noteq> n \<Longrightarrow> ref_of r' m = ref_of r m"
  "write_ref n c r s = (True, r', s') \<Longrightarrow> ref_of r' n = Some c"
  using write_ref_effect [of n c r s ok r' s'] write_ref_effect [of n c r s True r' s'] ref_of_put [of r' n c r] by auto

lemma checkpoint_ref_of:
  assumes "checkpoint_locked H t fl l si pv n rp = (x, rp')"
  shows "m \<noteq> n \<Longrightarrow> ref_of (rp_refs rp') m = ref_of (rp_refs rp) m" "x = Inr c \<Longrightarrow> ref_of (rp_refs rp') n = Some c"
proof -
  have cases: "rp_refs rp' = rp_refs rp \<and> (\<forall>c. x \<noteq> Inr c) \<or>
      (\<exists>c s s' ok. write_ref n c (rp_refs rp) s = (ok, rp_refs rp', s') \<and> (ok \<longleftrightarrow> x = Inr c) \<and> (\<forall>c'. x = Inr c' \<longrightarrow> ok))"
    by (rule checkpoint_refs [OF assms])
  then show "m \<noteq> n \<Longrightarrow> ref_of (rp_refs rp') m = ref_of (rp_refs rp) m" using ref_of_write(1) by metis
  assume x: "x = Inr c"
  with cases obtain s s' where "write_ref n c (rp_refs rp) s = (True, rp_refs rp', s')" by auto
  then show "ref_of (rp_refs rp') n = Some c" by (rule ref_of_write(2))
qed

lemma after_checkpoint_touches:
  assumes "checkpoint_locked H t fl l si pv n (branch_repo d p) = (res, rp)"
  shows "only_touches {p} {n} d (after_checkpoint p fhs rp d)"
  using checkpoint_ref_of(1) [OF assms]
  by (auto simp: only_touches_def after_checkpoint_def branch_repo_def ctx_upd)

text \<open>A pre-merge checkpoint: its tree differs from the branch's only where writes were unsaved.\<close>

definition dirty_at :: "daemon \<Rightarrow> nat \<Rightarrow> string \<Rightarrow> bool" where
  "dirty_at d p path \<longleftrightarrow> (\<exists>x \<in> set (d_fhs d). needs_flush (bc_id (ctx d p)) (snd x) \<and> path = fh_path (snd x))"

lemma checkpoint_ctx_frame:
  assumes i: "daemon_inv d" and p: "p < length (d_ctxs d)"
    and c: "checkpoint_ctx H t label name p d = Some (res, d')"
  shows "daemon_inv d'" "only_touches {p} {name} d d'" "res = Inr h \<Longrightarrow> ref_of (d_refs d') name = Some h"
    "lookup_raw path (bc_wt (ctx d' p)) \<noteq> lookup_raw path (bc_wt (ctx d p)) \<Longrightarrow> dirty_at d p path"
    "\<exists>fhs. d_fhs d' = fhs \<and> list_all2 (\<lambda>x y. fst y = fst x \<and> fh_frame (snd x) (snd y)) (d_fhs d) fhs"
proof -
  obtain ok fhs wt s res2 rp where
    r: "checkpoint_locked H t (\<lambda>_ _. (ok, wt, s)) label (d_session d) (d_policy d) name (branch_repo d p) = (res2, rp)"
    "checkpoint_ctx H t label name p d = Some (res2, after_checkpoint p fhs rp d)" "rp_wt rp = wt"
    "list_all2 (\<lambda>x y. fst y = fst x \<and> fh_frame (snd x) (snd y)) (d_fhs d) fhs"
    "daemon_inv (after_checkpoint p fhs rp d)"
    "\<And>q. lookup_raw q wt \<noteq> lookup_raw q (bc_wt (ctx d p)) \<Longrightarrow>
       \<exists>x \<in> set (d_fhs d). needs_flush (bc_id (ctx d p)) (snd x) \<and> q = fh_path (snd x)"
    by (rule checkpoint_ctx_result [OF i p, of H t label name]) (rule that)
  have e: "res2 = res" "d' = after_checkpoint p fhs rp d" using c r(2) by simp_all
  show "daemon_inv d'" "only_touches {p} {name} d d'"
    using r(5) after_checkpoint_touches [OF r(1)] by (simp_all add: e)
  show "res = Inr h \<Longrightarrow> ref_of (d_refs d') name = Some h"
    using checkpoint_ref_of(2) [OF r(1)] by (simp add: e after_checkpoint_def)
  show "lookup_raw path (bc_wt (ctx d' p)) \<noteq> lookup_raw path (bc_wt (ctx d p)) \<Longrightarrow> dirty_at d p path"
    using r(3,6) p by (simp add: e after_checkpoint_def ctx_upd dirty_at_def)
  show "\<exists>fhs. d_fhs d' = fhs \<and> list_all2 (\<lambda>x y. fst y = fst x \<and> fh_frame (snd x) (snd y)) (d_fhs d) fhs"
    using r(4) by (simp add: e after_checkpoint_def)
qed

definition flat_tree :: "working_tree \<Rightarrow> bool" where
  "flat_tree wt \<longleftrightarrow> wt_base wt = None \<and> wt_source wt = {} \<and> \<not> wt_auth wt \<and> om_wf (wt_delta wt)"

lemma apply_states_flat: "flat_tree wt \<Longrightarrow> flat_tree (fold (\<lambda>(path, st). apply_state path st) ms wt)"
proof (induction ms arbitrary: wt)
  case (Cons x ms)
  have "flat_tree (apply_state (fst x) (snd x) wt)"
    using Cons.prems by (simp add: flat_tree_def apply_state_def insert_entry_def om_wf_put split: option.split)
  from Cons.IH [OF this] show ?case by (simp add: case_prod_unfold)
qed simp

lemma flat_tree_inv: "flat_tree wt \<Longrightarrow> wt_inv wt"
  by (simp add: flat_tree_def wt_inv_def wt_wf_def)

lemma merge_trees_inv: "mr_ok (merge_trees b s t) \<Longrightarrow> wt_inv (mr_merged (merge_trees b s t))"
proof -
  assume ok: "mr_ok (merge_trees b s t)"
  have "flat_tree wt_new" by (simp add: flat_tree_def wt_new_def)
  from flat_tree_inv [OF apply_states_flat [OF this]] ok show ?thesis
    by (auto simp: merge_trees_def Let_def split: prod.splits if_splits)
qed


lemma find_common_ancestor_effect:
  assumes f: "find_common_ancestor a b s = Some (x, s')"
  shows "only_io s s'" "x = Inr c \<Longrightarrow> c \<in> ancestors s a \<inter> ancestors s b"
proof -
  have i: "anc_ok u []" "explored (parents_of u) {x} (anc_set []) (set [x])" for u x
    using explored_init [of "parents_of u" "{x}"] by (simp_all add: anc_ok_def)
  have "only_io s s' \<and> (\<forall>c. x = Inr c \<longrightarrow> c \<in> ancestors s a \<inter> ancestors s b)"
  proof (cases "a = ZERO_HASH \<or> b = ZERO_HASH")
    case True
    with f show ?thesis by (auto simp: find_common_ancestor_def)
  next
    case nz: False
    obtain r1 s1 where c1: "collect_ancestors [a] [] s = Some (r1, s1)" "only_io s s1"
      "case r1 of Inr A \<Rightarrow> anc_ok s A \<and> anc_set A = ancestors s a
       | Inl _ \<Rightarrow> s_io s = [] \<longrightarrow> (\<exists>h \<in> ancestors s a. commit_at s h = None)"
      using collect_ancestors_spec [where A = "[]" and q = "[a]" and R = "{a}" and s = s, OF i] by blast
    obtain r2 s2 where c2: "collect_ancestors [b] [] s1 = Some (r2, s2)" "only_io s1 s2"
      "case r2 of Inr A \<Rightarrow> anc_ok s1 A \<and> anc_set A = ancestors s1 b
       | Inl _ \<Rightarrow> s_io s1 = [] \<longrightarrow> (\<exists>h \<in> ancestors s1 b. commit_at s1 h = None)"
      using collect_ancestors_spec [where A = "[]" and q = "[b]" and R = "{b}" and s = s1, OF i] by blast
    note same = only_io_same(2) [OF c1(2)] only_io_trans [OF c1(2) c2(2)]
    show ?thesis
    proof (cases "\<exists>A1 A2. r1 = Inr A1 \<and> r2 = Inr A2")
      case False
      with f nz c1 c2 same show ?thesis by (auto simp: find_common_ancestor_def split: sum.splits)
    next
      case True
      then obtain A1 A2 where A: "r1 = Inr A1" "r2 = Inr A2" by blast
      let ?C = "map snd (filter (\<lambda>p. om_has (fst p) A2) A1)"
      have C: "set ?C \<subseteq> ancestors s a \<inter> ancestors s b"
      proof
        fix h assume "h \<in> set ?C"
        then obtain k where k: "(k, h) \<in> set A1" "om_has k A2" by force
        have ok: "anc_ok s A1" "anc_ok s1 A2" "anc_set A1 = ancestors s a" "anc_set A2 = ancestors s1 b" using c1 c2 A by auto
        have "map_of A1 k = Some h" using k ok(1) by (simp add: anc_ok_def om_get_iff)
        then have "k = hash_to_hex h" "h \<in> anc_set A1" using ok(1) by (auto simp: anc_ok_def)
        moreover from this k(2) have "h \<in> anc_set A2" using anc_has [OF ok(2), of h] by simp
        ultimately show "h \<in> ancestors s a \<inter> ancestors s b" using ok(3,4) same(1) by simp
      qed
      obtain bs e' s3 where bb: "best_bases ?C ?C [] s2 = Some (bs, e', s3)" "only_io s2 s3" "set bs \<subseteq> set ?C"
        using best_bases_spec [of ?C ?C "[]" s2] by blast
      have r: "find_common_ancestor a b s = (if ?C = [] then Some (Inl ''no common ancestor'', s2)
          else case sort_key hash_to_hex bs of [] \<Rightarrow> None | common # _ \<Rightarrow> Some (Inr common, s3))"
        using nz c1(1) c2(1) A bb(1) by (simp add: find_common_ancestor_def Let_def)
      show ?thesis
      proof (cases "?C = []")
        case True
        with f r same(2) show ?thesis by auto
      next
        case False
        then obtain c cs where c: "sort_key hash_to_hex bs = c # cs" "x = Inr c" "s' = s3"
          using f r by (auto split: list.splits)
        have "c \<in> set bs" using arg_cong [OF c(1), of set] by auto
        with bb(3) C have "c \<in> ancestors s a \<inter> ancestors s b" by blast
        moreover have "only_io s s3" using same(2) bb(2) by (rule only_io_trans)
        ultimately show ?thesis using c by simp
      qed
    qed
  qed
  then show "only_io s s'" "x = Inr c \<Longrightarrow> c \<in> ancestors s a \<inter> ancestors s b" by blast+
qed

text \<open>The tree of a commit as the store has it.\<close>

definition loads_tree :: "store \<Rightarrow> hash \<Rightarrow> working_tree \<Rightarrow> bool" where
  "loads_tree s c wt \<longleftrightarrow> (\<exists>s1 cd s2. only_io s s1 \<and> load_commit_tree c s1 = Some (Inr (wt, cd), s2))"

lemma merged_trees_effect:
  assumes "merged_trees source target s = Some (x, s')"
  shows "only_io s s'" "x = Inl res \<Longrightarrow> \<not> bm_ok res"
    "x = Inr m \<Longrightarrow> \<exists>base bt st tt. base \<in> ancestors s source \<inter> ancestors s target \<and> loads_tree s base bt \<and>
       loads_tree s source st \<and> loads_tree s target tt \<and> mr_ok (merge_trees bt st tt) \<and> m = mr_merged (merge_trees bt st tt)"
proof -
  obtain r1 s1 where 1: "find_common_ancestor source target s = Some (r1, s1)"
    using assms by (auto simp: merged_trees_def split: option.splits)
  note f = find_common_ancestor_effect [OF 1]
  have "only_io s s' \<and> (\<forall>res. x = Inl res \<longrightarrow> \<not> bm_ok res) \<and> (\<forall>m. x = Inr m \<longrightarrow>
      (\<exists>base bt st tt. base \<in> ancestors s source \<inter> ancestors s target \<and> loads_tree s base bt \<and>
       loads_tree s source st \<and> loads_tree s target tt \<and> mr_ok (merge_trees bt st tt) \<and> m = mr_merged (merge_trees bt st tt)))"
  proof (cases r1)
    case (Inl e)
    with assms 1 f(1) show ?thesis by (auto simp: merged_trees_def merge_failed_def)
  next
    case base: (Inr b)
    obtain r2 s2 where 2: "load_commit_tree b s1 = Some (r2, s2)"
      using assms 1 base by (auto simp: merged_trees_def split: option.splits)
    have o2: "only_io s s2" using f(1) load_commit_tree_only [OF 2] by (rule only_io_trans)
    show ?thesis
    proof (cases r2)
      case (Inl e)
      with assms 1 2 base o2 show ?thesis by (auto simp: merged_trees_def merge_failed_def)
    next
      case b2: (Inr p2)
      obtain bt bc where p2: "p2 = (bt, bc)" by (cases p2)
      obtain r3 s3 where 3: "load_commit_tree source s2 = Some (r3, s3)"
        using assms 1 2 base b2 p2 by (auto simp: merged_trees_def split: option.splits)
      have o3: "only_io s s3" using o2 load_commit_tree_only [OF 3] by (rule only_io_trans)
      show ?thesis
      proof (cases r3)
        case (Inl e)
        with assms 1 2 3 base b2 p2 o3 show ?thesis by (auto simp: merged_trees_def merge_failed_def)
      next
        case b3: (Inr p3)
        obtain st sc where p3: "p3 = (st, sc)" by (cases p3)
        obtain r4 s4 where 4: "load_commit_tree target s3 = Some (r4, s4)"
          using assms 1 2 3 base b2 p2 b3 p3 by (auto simp: merged_trees_def split: option.splits)
        have o4: "only_io s s4" using o3 load_commit_tree_only [OF 4] by (rule only_io_trans)
        have l: "loads_tree s b bt" "loads_tree s source st" "r4 = Inr (tt, tc) \<Longrightarrow> loads_tree s target tt" for tt tc
          using f(1) o2 o3 2 3 4 b2 p2 b3 p3 unfolding loads_tree_def by blast+
        show ?thesis
        proof (cases r4)
          case (Inl e)
          with assms 1 2 3 4 base b2 p2 b3 p3 o4 show ?thesis by (auto simp: merged_trees_def merge_failed_def)
        next
          case b4: (Inr p4)
          obtain tt tc where p4: "p4 = (tt, tc)" by (cases p4)
          let ?m = "merge_trees bt st tt"
          have "x = (if \<not> mr_ok ?m then Inl ((merge_failed (mr_error ?m))\<lparr>bm_conflicts := mr_conflicts ?m\<rparr>)
              else Inr (mr_merged ?m)) \<and> s' = s4"
            using assms 1 2 3 4 base b2 p2 b3 p3 b4 p4 by (auto simp: merged_trees_def Let_def)
          moreover have "loads_tree s target tt" using l(3) b4 p4 by blast
          ultimately show ?thesis using o4 l(1,2) f(2) [OF base]
            by (cases "mr_ok ?m") (simp_all add: merge_failed_def, blast)
        qed
      qed
    qed
  qed
  then show "only_io s s'" "x = Inl res \<Longrightarrow> \<not> bm_ok res"
    "x = Inr m \<Longrightarrow> \<exists>base bt st tt. base \<in> ancestors s source \<inter> ancestors s target \<and> loads_tree s base bt \<and>
       loads_tree s source st \<and> loads_tree s target tt \<and> mr_ok (merge_trees bt st tt) \<and> m = mr_merged (merge_trees bt st tt)"
    by blast+
qed


lemma dirty_at_frame:
  assumes "list_all2 (\<lambda>x y. fst y = fst x \<and> fh_frame (snd x) (snd y)) (d_fhs d) (d_fhs d')"
    "bc_id (ctx d' p) = bc_id (ctx d p)" "dirty_at d' p path"
  shows "dirty_at d p path"
proof -
  obtain y where y: "y \<in> set (d_fhs d')" "needs_flush (bc_id (ctx d p)) (snd y)" "path = fh_path (snd y)"
    using assms(2,3) by (auto simp: dirty_at_def)
  then obtain x where "x \<in> set (d_fhs d)" "fh_frame (snd x) (snd y)"
    using assms(1) unfolding list_all2_conv_all_nth by (metis in_set_conv_nth)
  with y show ?thesis by (auto simp: dirty_at_def needs_flush_def fh_frame_def)
qed

text \<open>
  What a merge of two commits leaves behind: a commit with both as parents, the target's ref on
  it, the target's tree merged from a common ancestor, and no handle of the target in use.
\<close>

definition publishes_merge ::
  "(bytes \<Rightarrow> hash) \<Rightarrow> string \<Rightarrow> string \<Rightarrow> string \<Rightarrow> hash \<Rightarrow> hash \<Rightarrow> nat \<Rightarrow> daemon \<Rightarrow> branch_merge_result \<Rightarrow> daemon \<Rightarrow> bool" where
  "publishes_merge H sn tn label source target tp d res d' \<longleftrightarrow>
     only_touches {tp} {tn} d d' \<and> ref_of (d_refs d') tn = Some (bm_commit res) \<and> store_le (d_store d) (d_store d') \<and>
       (\<exists>cd. bm_commit res = object_hash H ''commit'' (serialize_commit cd) \<and> cd_parents cd = [target, source] \<and>
          cd_label cd = default_merge_label sn tn label) \<and>
       (\<exists>base bt st tt. base \<in> ancestors (d_store d) source \<inter> ancestors (d_store d) target \<and>
          loads_tree (d_store d) base bt \<and> loads_tree (d_store d) source st \<and> loads_tree (d_store d) target tt \<and>
          mr_ok (merge_trees bt st tt) \<and> bc_wt (ctx d' tp) = mr_merged (merge_trees bt st tt)) \<and>
       (\<forall>x \<in> set (d_fhs d'). fh_branch (snd x) = bc_id (ctx d tp) \<longrightarrow> fh_stale (snd x))"

lemma merge_checkpointed_effect:
  assumes i: "daemon_inv d" and p: "tp < length (d_ctxs d)" "bc_name (ctx d tp) = tn"
    and m: "merge_checkpointed H t sn tn label tp source target d = Some (res, d')"
  shows "daemon_inv d'"
    "bm_ok res \<Longrightarrow> publishes_merge H sn tn label source target tp d res d'"
    "\<not> bm_ok res \<Longrightarrow> d_ctxs d' = d_ctxs d \<and> only_touches {} {tn} d d' \<and> d_fhs d' = d_fhs d"
proof -
  obtain x s1 where 1: "merged_trees source target (d_store d) = Some (x, s1)"
    using m by (auto simp: merge_checkpointed_def split: option.splits)
  note e1 = merged_trees_effect [OF 1]
  let ?goal = "daemon_inv d' \<and>
    (bm_ok res \<longrightarrow> publishes_merge H sn tn label source target tp d res d') \<and>
    (\<not> bm_ok res \<longrightarrow> d_ctxs d' = d_ctxs d \<and> only_touches {} {tn} d d' \<and> d_fhs d' = d_fhs d)"
  have ?goal
  proof (cases x)
    case (Inl r)
    with m 1 e1(2) have "d' = d\<lparr>d_store := s1\<rparr>" "\<not> bm_ok res" by (auto simp: merge_checkpointed_def)
    then show ?thesis using i by (simp add: inv_store only_touches_def)
  next
    case (Inr mwt)
    obtain y s2 where 2: "write_commit_with_parents H t mwt [target, source] (d_session d) (d_policy d) (default_merge_label sn tn label) s1 = (y, s2)"
      by fastforce
    show ?thesis
    proof (cases y)
      case (Inl e)
      with m 1 2 Inr have "d' = d\<lparr>d_store := s2\<rparr>" "\<not> bm_ok res" by (auto simp: merge_checkpointed_def merge_failed_def)
      then show ?thesis using i by (simp add: inv_store only_touches_def)
    next
      case y: (Inr c)
      obtain ok r s3 where 3: "write_ref tn c (d_refs d) s2 = (ok, r, s3)" by (metis prod.collapse)
      note rf = ref_of_write(1) [OF 3]
      show ?thesis
      proof (cases ok)
        case False
        with m 1 2 3 Inr y have "d' = d\<lparr>d_refs := r, d_store := s3\<rparr>" "\<not> bm_ok res"
          by (auto simp: merge_checkpointed_def merge_failed_def)
        then show ?thesis using i rf by (simp add: inv_store only_touches_def)
      next
        case True
        let ?d = "upd_ctx tp (\<lambda>c. c\<lparr>bc_wt := mwt\<rparr>) (d\<lparr>d_refs := r, d_store := s3\<rparr>)"
        have d': "d' = invalidate_fhs_for_branch (bc_id (ctx d tp)) ?d" and res: "bm_ok res" "bm_commit res = c"
          using m 1 2 3 Inr y True by (auto simp: merge_checkpointed_def)
        obtain base bt st tt where b: "base \<in> ancestors (d_store d) source \<inter> ancestors (d_store d) target"
          "loads_tree (d_store d) base bt" "loads_tree (d_store d) source st" "loads_tree (d_store d) target tt"
          "mr_ok (merge_trees bt st tt)" "mwt = mr_merged (merge_trees bt st tt)"
          using e1(3) [OF Inr] by blast
        have w: "wt_inv mwt" using merge_trees_inv [OF b(5)] b(6) by simp
        have "daemon_inv (upd_ctx tp (\<lambda>c. c\<lparr>bc_wt := mwt\<rparr>) (d\<lparr>d_fhs := d_fhs d, d_refs := r, d_store := s3\<rparr>))"
          by (rule inv_step [OF i inv_handles [OF i] w])
        then have i': "daemon_inv d'" unfolding d' by (intro invalidate_inv) simp
        obtain tree wr lv t2 t3 where c: "serialize_working_tree H mwt s1 = ((Inr tree, wr, lv), t2)"
          "write_commit H (serialize_commit (merge_commit_data t [target, source] (d_session d) (d_policy d) (default_merge_label sn tn label) tree)) t2 = (c, t3)"
          "c \<noteq> ZERO_HASH" "sync_commit mwt wr c t3 = (None, s2)"
          by (rule write_commit_with_parents_success [OF 2 [unfolded y]])
        note wc = c(2) [unfolded write_commit_def]
        have "store_le (d_store d) s1" using e1(1) by (auto simp: only_io_def intro: store_le_same)
        also have "store_le s1 t2" by (rule serialize_grows(1) [OF c(1)])
        also have "store_le t2 t3" by (rule write_object_le [OF wc])
        also have "store_le t3 s2" by (rule sync_commit_effect(1) [OF c(4)])
        also have "store_le s2 s3" by (rule store_quiet_le [OF write_ref_effect(1) [OF 3]])
        finally have le: "store_le (d_store d) s3" .
        have h: "c = object_hash H ''commit'' (serialize_commit (merge_commit_data t [target, source] (d_session d) (d_policy d) (default_merge_label sn tn label) tree))"
          using write_object_hash [OF wc] c(3) by blast
        have cd: "\<exists>cd. c = object_hash H ''commit'' (serialize_commit cd) \<and> cd_parents cd = [target, source] \<and>
            cd_label cd = default_merge_label sn tn label"
          by (rule exI, intro conjI, rule h) (simp_all add: merge_commit_data_def)
        have t: "only_touches {tp} {tn} d d'" using rf by (auto simp: d' only_touches_def ctx_upd)
        have st: "\<forall>x \<in> set (d_fhs d'). fh_branch (snd x) = bc_id (ctx d tp) \<longrightarrow> fh_stale (snd x)"
          by (auto simp: d' invalidate_fhs_for_branch_def)
        have wt: "bc_wt (ctx d' tp) = mr_merged (merge_trees bt st tt)" using p(1) b(6) by (simp add: d' ctx_upd)
        have "ref_of r tn = Some c" using ref_of_write(2) 3 True by simp
        then have rr: "ref_of (d_refs d') tn = Some (bm_commit res)" "d_store d' = s3" using res by (simp_all add: d')
        have "publishes_merge H sn tn label source target tp d res d'"
          unfolding publishes_merge_def using t st wt rr le cd res b(1-5) by blast
        then show ?thesis using i' res by blast
      qed
    qed
  qed
  then show "daemon_inv d'" 
    "bm_ok res \<Longrightarrow> publishes_merge H sn tn label source target tp d res d'"
    "\<not> bm_ok res \<Longrightarrow> d_ctxs d' = d_ctxs d \<and> only_touches {} {tn} d d' \<and> d_fhs d' = d_fhs d"
    by blast+
qed


lemma merge_branch_cases:
  assumes i: "daemon_inv d" and m: "merge_branch H t sn tn label d = Some (res, d')"
  obtains (refused) "d' = d" "\<not> bm_ok res"
    "branch_by_name sn d = None \<or> branch_by_name tn d = None \<or> branch_by_name sn d = branch_by_name tn d"
  | (stopped) sp tp e where "branch_by_name sn d = Some sp" "branch_by_name tn d = Some tp" "sp \<noteq> tp" "\<not> bm_ok res"
    "checkpoint_ctx H t (pre_merge_label sn tn '' source'') sn sp d = Some (Inl e, d')"
  | (halfway) sp tp d1 source e where "branch_by_name sn d = Some sp" "branch_by_name tn d = Some tp" "sp \<noteq> tp" "\<not> bm_ok res"
    "checkpoint_ctx H t (pre_merge_label sn tn '' source'') sn sp d = Some (Inr source, d1)"
    "checkpoint_ctx H t (pre_merge_label sn tn '' target'') tn tp d1 = Some (Inl e, d')"
  | (merging) sp tp d1 source d2 target where "branch_by_name sn d = Some sp" "branch_by_name tn d = Some tp" "sp \<noteq> tp"
    "checkpoint_ctx H t (pre_merge_label sn tn '' source'') sn sp d = Some (Inr source, d1)"
    "checkpoint_ctx H t (pre_merge_label sn tn '' target'') tn tp d1 = Some (Inr target, d2)"
    "merge_checkpointed H t sn tn label tp source target d2 = Some (res, d')"
proof (cases "branch_by_name sn d = None \<or> branch_by_name tn d = None")
  case True
  then show thesis
    using m i by (intro refused) (auto simp: merge_branch_def last_named_eq merge_failed_def split: option.splits)
next
  case False
  then obtain sp tp where b: "branch_by_name sn d = Some sp" "branch_by_name tn d = Some tp" by auto
  have eq: "bc_id (ctx d sp) = bc_id (ctx d tp) \<longleftrightarrow> sp = tp"
    using inv_by_name(1) [OF i b(1)] inv_by_name(1) [OF i b(2)] by (metis option.inject)
  show thesis
  proof (cases "sp = tp")
    case True
    then show thesis using m i b by (intro refused) (auto simp: merge_branch_def last_named_eq merge_failed_def)
  next
    case ne: False
    obtain x d1 where 1: "checkpoint_ctx H t (pre_merge_label sn tn '' source'') sn sp d = Some (x, d1)"
      using m i b ne eq by (auto simp: merge_branch_def last_named_eq split: option.splits)
    show thesis
    proof (cases x)
      case (Inl e)
      then show thesis using m i b ne eq 1 by (intro stopped) (auto simp: merge_branch_def last_named_eq merge_failed_def)
    next
      case x: (Inr source)
      obtain y d2 where 2: "checkpoint_ctx H t (pre_merge_label sn tn '' target'') tn tp d1 = Some (y, d2)"
        using m i b ne eq 1 x by (auto simp: merge_branch_def last_named_eq split: option.splits)
      show thesis
      proof (cases y)
        case (Inl e)
        then show thesis using m i b ne eq 1 x 2
          by (intro halfway) (auto simp: merge_branch_def last_named_eq merge_failed_def)
      next
        case y: (Inr target)
        then show thesis using m i b ne eq 1 x 2 by (intro merging) (auto simp: merge_branch_def last_named_eq)
      qed
    qed
  qed
qed


definition handles_frame :: "daemon \<Rightarrow> daemon \<Rightarrow> bool" where
  "handles_frame d d' \<longleftrightarrow> list_all2 (\<lambda>x y. fst y = fst x \<and> fh_frame (snd x) (snd y)) (d_fhs d) (d_fhs d')"

lemma handles_frame_refl [simp]: "handles_frame d d"
  unfolding handles_frame_def by (rule list.rel_refl) simp

lemma handles_frame_trans:
  assumes "handles_frame d d'" "handles_frame d' d''"
  shows "handles_frame d d''"
  unfolding handles_frame_def by (rule list_all2_trans [OF _ assms [unfolded handles_frame_def]]) (auto simp: fh_frame_def)

text \<open>Every tree is as before except where writes were unsaved.\<close>

definition trees_saved :: "daemon \<Rightarrow> daemon \<Rightarrow> bool" where
  "trees_saved d d' \<longleftrightarrow> (\<forall>q path. lookup_raw path (bc_wt (ctx d' q)) \<noteq> lookup_raw path (bc_wt (ctx d q)) \<longrightarrow> dirty_at d q path)"

lemma trees_saved_trans:
  assumes "trees_saved d d'" "handles_frame d d'" "only_touches P N d d'" "trees_saved d' d''"
  shows "trees_saved d d''"
  unfolding trees_saved_def
proof (intro allI impI)
  fix q path assume ne: "lookup_raw path (bc_wt (ctx d'' q)) \<noteq> lookup_raw path (bc_wt (ctx d q))"
  show "dirty_at d q path"
  proof (cases "lookup_raw path (bc_wt (ctx d' q)) = lookup_raw path (bc_wt (ctx d q))")
    case True
    with ne assms(4) have "dirty_at d' q path" by (simp add: trees_saved_def)
    then show ?thesis using assms(2,3) by (intro dirty_at_frame [of d d' q path]) (simp_all add: handles_frame_def only_touches_def)
  next
    case False
    with assms(1) show ?thesis by (simp add: trees_saved_def)
  qed
qed

lemma checkpoint_ctx_saved:
  assumes i: "daemon_inv d" and p: "p < length (d_ctxs d)" and c: "checkpoint_ctx H t label name p d = Some (res, d')"
  shows "daemon_inv d'" "only_touches {p} {name} d d'" "res = Inr h \<Longrightarrow> ref_of (d_refs d') name = Some h"
    "trees_saved d d'" "handles_frame d d'"
proof -
  note f = checkpoint_ctx_frame [OF i p c]
  show "daemon_inv d'" "only_touches {p} {name} d d'" "res = Inr h \<Longrightarrow> ref_of (d_refs d') name = Some h"
    using f(1-3) by blast+
  show "handles_frame d d'" using f(5) by (auto simp: handles_frame_def)
  show "trees_saved d d'"
    unfolding trees_saved_def
  proof (intro allI impI)
    fix q path assume ne: "lookup_raw path (bc_wt (ctx d' q)) \<noteq> lookup_raw path (bc_wt (ctx d q))"
    then have "q = p" using f(2) by (auto simp: only_touches_def)
    with ne f(4) show "dirty_at d q path" by blast
  qed
qed

lemma by_name_length: "daemon_inv d \<Longrightarrow> branch_by_name n d = Some p \<Longrightarrow> p < length (d_ctxs d)"
  using invE(1) inv_by_name(1) by blast

lemma touches_id: "only_touches P N d d' \<Longrightarrow> P \<subseteq> P' \<Longrightarrow> N \<subseteq> N' \<Longrightarrow> only_touches P' N' d d'"
  unfolding only_touches_def by blast

text \<open>A merge, whatever its result.\<close>

lemma merge_branch_effect:
  assumes i: "daemon_inv d" and m: "merge_branch H t sn tn label d = Some (res, d')"
  shows "daemon_inv d'" "\<exists>P. only_touches P {sn, tn} d d' \<and> (\<forall>q \<in> P. branch_by_name sn d = Some q \<or> branch_by_name tn d = Some q)"
    "\<not> bm_ok res \<Longrightarrow> trees_saved d d' \<and> handles_frame d d'"
    "bm_ok res \<Longrightarrow> \<exists>sp tp d2 source target. branch_by_name sn d = Some sp \<and> branch_by_name tn d = Some tp \<and> sp \<noteq> tp \<and>
       only_touches {sp, tp} {sn, tn} d d2 \<and> trees_saved d d2 \<and>
       ref_of (d_refs d') sn = Some source \<and> ref_of (d_refs d2) tn = Some target \<and>
       publishes_merge H sn tn label source target tp d2 res d'"
proof -
  have "daemon_inv d' \<and> (\<exists>P. only_touches P {sn, tn} d d' \<and> (\<forall>q \<in> P. branch_by_name sn d = Some q \<or> branch_by_name tn d = Some q)) \<and>
    (\<not> bm_ok res \<longrightarrow> trees_saved d d' \<and> handles_frame d d') \<and>
    (bm_ok res \<longrightarrow> (\<exists>sp tp d2 source target. branch_by_name sn d = Some sp \<and> branch_by_name tn d = Some tp \<and> sp \<noteq> tp \<and>
       only_touches {sp, tp} {sn, tn} d d2 \<and> trees_saved d d2 \<and>
       ref_of (d_refs d') sn = Some source \<and> ref_of (d_refs d2) tn = Some target \<and>
       publishes_merge H sn tn label source target tp d2 res d'))"
    using i m
  proof (cases rule: merge_branch_cases)
    case refused
    then show ?thesis using i by (auto simp: trees_saved_def intro!: exI [of _ "{}"])
  next
    case (stopped sp tp e)
    note c = checkpoint_ctx_saved [OF i by_name_length [OF i stopped(1)] stopped(5)]
    have "only_touches {sp} {sn, tn} d d'" by (rule touches_id [OF c(2)]) auto
    then have "\<exists>P. only_touches P {sn, tn} d d' \<and> (\<forall>q \<in> P. branch_by_name sn d = Some q \<or> branch_by_name tn d = Some q)"
      using stopped(1) by (intro exI [of _ "{sp}"]) simp
    with c stopped(4) show ?thesis by blast
  next
    case (halfway sp tp d1 source e)
    note c1 = checkpoint_ctx_saved [OF i by_name_length [OF i halfway(1)] halfway(5)]
    have "tp < length (d_ctxs d1)" using by_name_length [OF i halfway(2)] c1(2) by (simp add: only_touches_def)
    note c2 = checkpoint_ctx_saved [OF c1(1) this halfway(6)]
    have "only_touches {sp, tp} {sn, tn} d d'" using only_touches_trans [OF c1(2) c2(2)] by (simp add: insert_commute)
    then have "\<exists>P. only_touches P {sn, tn} d d' \<and> (\<forall>q \<in> P. branch_by_name sn d = Some q \<or> branch_by_name tn d = Some q)"
      using halfway(1,2) by (intro exI [of _ "{sp, tp}"]) simp
    with c2(1) halfway(4) trees_saved_trans [OF c1(4,5,2) c2(4)] handles_frame_trans [OF c1(5) c2(5)] show ?thesis by blast
  next
    case (merging sp tp d1 source d2 target)
    note c1 = checkpoint_ctx_saved [OF i by_name_length [OF i merging(1)] merging(4)]
    have tp: "tp < length (d_ctxs d1)" using by_name_length [OF i merging(2)] c1(2) by (simp add: only_touches_def)
    note c2 = checkpoint_ctx_saved [OF c1(1) tp merging(5)]
    have t2: "only_touches {sp, tp} {sn, tn} d d2" using only_touches_trans [OF c1(2) c2(2)] by (simp add: insert_commute)
    have tp2: "tp < length (d_ctxs d2)" "bc_name (ctx d2 tp) = tn"
      using tp c2(2) t2 inv_by_name(2) [OF i merging(2)] by (simp_all add: only_touches_def)
    note mc = merge_checkpointed_effect [OF c2(1) tp2 merging(6)]
    have n: "sn \<noteq> tn" using merging(1-3) by auto
    have s2: "trees_saved d d2" "handles_frame d d2"
      using trees_saved_trans [OF c1(4,5,2) c2(4)] handles_frame_trans [OF c1(5) c2(5)] by blast+
    have t3: "only_touches {tp} {tn} d2 d'"
    proof (cases "bm_ok res")
      case True
      with mc(2) show ?thesis by (simp add: publishes_merge_def)
    next
      case False
      with mc(3) show ?thesis using touches_id [of "{}" "{tn}" d2 d' "{tp}" "{tn}"] by simp
    qed
    have t4: "only_touches {sp, tp} {sn, tn} d d'" using only_touches_trans [OF t2 t3] by (simp add: insert_commute)
    have sr: "ref_of (d_refs d') sn = Some source" using c1(3) c2(2) t3 n by (simp add: only_touches_def)
    have "\<exists>P. only_touches P {sn, tn} d d' \<and> (\<forall>q \<in> P. branch_by_name sn d = Some q \<or> branch_by_name tn d = Some q)"
      using t4 merging(1,2) by (intro exI [of _ "{sp, tp}"]) simp
    moreover have "\<not> bm_ok res \<Longrightarrow> trees_saved d d' \<and> handles_frame d d'"
      using mc(3) s2 by (simp add: trees_saved_def handles_frame_def ctx_def)
    moreover have "bm_ok res \<Longrightarrow> publishes_merge H sn tn label source target tp d2 res d'" by (rule mc(2))
    ultimately show ?thesis using mc(1) merging(1-3) t2 s2(1) sr c2(3) by blast
  qed
  then show "daemon_inv d'" "\<exists>P. only_touches P {sn, tn} d d' \<and> (\<forall>q \<in> P. branch_by_name sn d = Some q \<or> branch_by_name tn d = Some q)"
    "\<not> bm_ok res \<Longrightarrow> trees_saved d d' \<and> handles_frame d d'"
    "bm_ok res \<Longrightarrow> \<exists>sp tp d2 source target. branch_by_name sn d = Some sp \<and> branch_by_name tn d = Some tp \<and> sp \<noteq> tp \<and>
       only_touches {sp, tp} {sn, tn} d d2 \<and> trees_saved d d2 \<and>
       ref_of (d_refs d') sn = Some source \<and> ref_of (d_refs d2) tn = Some target \<and>
       publishes_merge H sn tn label source target tp d2 res d'"
    by blast+
qed

end
