(* ===== verification/DaemonRun.thy ===== *)
theory DaemonRun
  imports DaemonBranches
begin

text \<open>
  Runs of the daemon: starting from a store, the steps of its operations and of the file system
  adapters, the reachable states, and what a checkpoint, a restart and a collection do to them.
\<close>

section \<open>Starting\<close>

lemma rebuild_branch_effect:
  assumes "rebuild_branch_from_ref name b r s = Some (x, s')"
  shows "only_io s s'" "x = Inr c \<Longrightarrow> \<exists>wt. c = branch_new b name wt \<and> wt_inv wt"
proof -
  obtain h s1 where 1: "read_ref r name s = (h, s1)" by fastforce
  have o1: "only_io s s1" by (rule read_ref_only [OF only_io_refl 1])
  have "only_io s s' \<and> (\<forall>c. x = Inr c \<longrightarrow> (\<exists>wt. c = branch_new b name wt \<and> wt_inv wt))"
  proof (cases h)
    case None
    with assms 1 o1 show ?thesis by (auto simp: rebuild_branch_from_ref_def)
  next
    case h: (Some c)
    obtain bd s2 where 2: "read_commit c s1 = (bd, s2)" by fastforce
    have o2: "only_io s s2" by (rule read_object_spec(1) [OF o1 2 [unfolded read_commit_def]])
    show ?thesis
    proof (cases "\<exists>body cd. bd = Some body \<and> decoded (deserialize_commit body) = Some cd")
      case False
      with assms 1 2 h o2 show ?thesis by (auto simp: rebuild_branch_from_ref_def split: option.splits)
    next
      case True
      then obtain body cd where cd: "bd = Some body" "decoded (deserialize_commit body) = Some cd" by blast
      obtain y s3 where 3: "rebuild_working_tree (cd_tree_hash cd) wt_new s2 = Some (y, s3)"
        using assms 1 2 h cd by (auto simp: rebuild_branch_from_ref_def split: option.splits)
      note e = rebuild_effect [OF 3]
      have "only_io s s3" using o2 e(1) by (rule only_io_trans)
      then show ?thesis using assms 1 2 3 h cd e(2)
        by (cases y) (auto simp: rebuild_branch_from_ref_def)
    qed
  qed
  then show "only_io s s'" "x = Inr c \<Longrightarrow> \<exists>wt. c = branch_new b name wt \<and> wt_inv wt" by blast+
qed

lemma load_branches_inv:
  "load_branches names d = Some d' \<Longrightarrow> daemon_inv d \<Longrightarrow> unat (d_next_branch d) + length names < 2 ^ 32 \<Longrightarrow>
   daemon_inv d' \<and> d_refs d' = d_refs d \<and> only_io (d_store d) (d_store d') \<and> d_fhs d' = d_fhs d"
proof (induction names arbitrary: d)
  case (Cons name names)
  show ?case
  proof (cases "name = ''main'' \<or> \<not> is_valid_branch_name name")
    case True
    with Cons.prems Cons.IH [of d] show ?thesis by simp
  next
    case False
    let ?b = "d_next_branch d" and ?d = "d\<lparr>d_next_branch := d_next_branch d + 1\<rparr>"
    have n: "?b \<noteq> no_branch"
    proof
      assume "?b = no_branch"
      then have "unat ?b = 2 ^ 32 - 1" by (simp add: no_branch_def unsigned_minus_1_eq_mask mask_eq_exp_minus_1)
      with Cons.prems(3) show False by simp
    qed
    have s: "unat (?b + 1) = Suc (unat ?b)"
    proof -
      have "1 + ?b \<noteq> 0" using n by (simp add: no_branch_def eq_neg_iff_add_eq_0 add.commute)
      then show ?thesis using unatSuc [of ?b] by (simp add: add.commute)
    qed
    obtain x t where x: "rebuild_branch_from_ref name ?b (d_refs d) (d_store d) = Some (x, t)"
      using Cons.prems(1) False by (auto simp: Let_def split: option.splits)
    note e = rebuild_branch_effect [OF x]
    have i: "daemon_inv ?d" by (rule inv_skip_id [OF Cons.prems(2) n])
    show ?thesis
    proof (cases "\<exists>c. x = Inr c \<and> map_of (d_names d) name = None")
      case False
      then have "load_branches names (?d\<lparr>d_store := t\<rparr>) = Some d'"
        using Cons.prems(1) \<open>\<not> (name = ''main'' \<or> \<not> is_valid_branch_name name)\<close> x
        by (cases x) (auto simp: Let_def)
      from Cons.IH [OF this] i s Cons.prems(3) e(1) show ?thesis by (auto simp: inv_store intro: only_io_trans)
    next
      case True
      then obtain c wt where c: "x = Inr c" "map_of (d_names d) name = None" "c = branch_new ?b name wt" "wt_inv wt"
        using e(2) by blast
      have "load_branches names (publish_ctx c (?d\<lparr>d_store := t\<rparr>)) = Some d'"
        using Cons.prems(1) False x c by (auto simp: Let_def)
      moreover have "daemon_inv (publish_ctx c ((d\<lparr>d_store := t\<rparr>)\<lparr>d_next_branch := d_next_branch (d\<lparr>d_store := t\<rparr>) + 1\<rparr>))"
        using Cons.prems(2) n c by (intro publish_inv) (simp_all add: inv_store branch_new_def)
      moreover have "(d\<lparr>d_store := t\<rparr>)\<lparr>d_next_branch := ?b + 1\<rparr> = ?d\<lparr>d_store := t\<rparr>" by (cases d) simp
      ultimately show ?thesis
        using Cons.IH [of "publish_ctx c (?d\<lparr>d_store := t\<rparr>)"] s Cons.prems(3) e(1)
        by (auto simp: publish_ctx_def intro: only_io_trans)
    qed
  qed
qed simp

lemma daemon_new_inv: "daemon_inv (daemon_new now s r sd)"
  by (simp add: daemon_inv_def names_inv_def names_ok_def daemon_new_def branch_new_def handles_inv_def om_wf_def wt_inv_fresh)

lemma init_commit_form:
  assumes "init_commit H t d = (ok, d')"
  shows "\<exists>r s. d' = d\<lparr>d_refs := r, d_store := s\<rparr> \<and> (r = d_refs d \<or> (\<exists>c s0. write_ref ''main'' c (d_refs d) s0 = (ok, r, s)))"
proof -
  have same: "\<exists>r. d\<lparr>d_store := s\<rparr> = d\<lparr>d_refs := r, d_store := s\<rparr> \<and> (r = d_refs d \<or> P r)" for s P
    by (intro exI [of _ "d_refs d"]) simp
  show ?thesis
    using assms unfolding init_commit_def Let_def
    by (auto split: prod.splits sum.splits if_splits bool.splits intro!: exI same)
qed

lemma length_om_put: "length (om_put k v m) \<le> Suc (length m)"
  by (induction k v m rule: om_put.induct) auto

lemma init_commit_inv:
  assumes "init_commit H t d = (ok, d')"
  shows "daemon_inv d' = daemon_inv d" "d_next_branch d' = d_next_branch d" "d_fhs d' = d_fhs d"
    "length (r_files (d_refs d')) \<le> Suc (length (r_files (d_refs d)))"
proof -
  obtain r s where f: "d' = d\<lparr>d_refs := r, d_store := s\<rparr>" "r = d_refs d \<or> (\<exists>c s0. write_ref ''main'' c (d_refs d) s0 = (ok, r, s))"
    using init_commit_form [OF assms] by blast
  show "daemon_inv d' = daemon_inv d" "d_next_branch d' = d_next_branch d" "d_fhs d' = d_fhs d"
    by (simp_all add: f(1) inv_store)
  have "length (r_files r) \<le> Suc (length (r_files (d_refs d)))"
  proof (cases "r = d_refs d")
    case False
    with f(2) obtain c s0 where "write_ref ''main'' c (d_refs d) s0 = (ok, r, s)" by blast
    from write_ref_effect(2) [OF this] False have "r_files r = om_put ''main'' (ref_content c) (r_files (d_refs d))" by auto
    with length_om_put show ?thesis by metis
  qed simp
  then show "length (r_files (d_refs d')) \<le> Suc (length (r_files (d_refs d)))" by (simp add: f(1))
qed

lemma rebuild_main_inv:
  assumes "rebuild_main_from_ref d = Some (e, d')" "daemon_inv d"
  shows "daemon_inv d'" "d_next_branch d' = d_next_branch d" "d_fhs d' = d_fhs d" "d_refs d' = d_refs d" "only_io (d_store d) (d_store d')"
proof -
  obtain x s where x: "rebuild_branch_from_ref ''main'' 0 (d_refs d) (d_store d) = Some (x, s)"
    using assms(1) by (auto simp: rebuild_main_from_ref_def split: option.splits)
  note b = rebuild_branch_effect [OF x]
  have "daemon_inv d' \<and> d_next_branch d' = d_next_branch d \<and> d_fhs d' = d_fhs d \<and> d_refs d' = d_refs d \<and> only_io (d_store d) (d_store d')"
  proof (cases x)
    case (Inl m)
    with assms x b(1) show ?thesis by (auto simp: rebuild_main_from_ref_def inv_store)
  next
    case (Inr c)
    with b(2) have "wt_inv (bc_wt c)" by (auto simp: branch_new_def)
    from inv_step [OF assms(2) inv_handles [OF assms(2)] this, where p = 0 and r = "d_refs d" and s = s]
    have "daemon_inv (upd_ctx 0 (\<lambda>m. m\<lparr>bc_wt := bc_wt c\<rparr>) (d\<lparr>d_store := s\<rparr>))" by simp
    with assms(1) x b(1) Inr show ?thesis by (auto simp: rebuild_main_from_ref_def)
  qed
  then show "daemon_inv d'" "d_next_branch d' = d_next_branch d" "d_fhs d' = d_fhs d" "d_refs d' = d_refs d" "only_io (d_store d) (d_store d')"
    by blast+
qed

text \<open>Starting keeps the invariant when there are fewer refs than ids.\<close>

lemma initialize_inv:
  assumes r: "initialize H t (daemon_new now s r sd) = Some (ok, d')" and l: "Suc (Suc (length (r_files r))) < 2 ^ 32"
  shows "daemon_inv d' \<and> d_fhs d' = []"
proof -
  let ?d0 = "daemon_new now s r sd"
  obtain b s1 where 1: "init_layout s = (b, s1)" by fastforce
  obtain cur s2 where 2: "read_ref r ''main'' (cleanup_tmp s1) = (cur, s2)" by fastforce
  have e: "d_store ?d0 = s" "d_refs ?d0 = r" "d_fhs ?d0 = []" "d_next_branch ?d0 = 1" by (simp_all add: daemon_new_def)
  let ?d = "?d0\<lparr>d_store := s2\<rparr>"
  have i: "daemon_inv ?d" by (simp add: inv_store daemon_new_inv)
  show ?thesis
  proof (cases b)
    case False
    with r 1 show ?thesis by (auto simp: initialize_def e inv_store daemon_new_inv)
  next
    case True
    obtain ok1 d1 where 3: "(if cur = None then Some (init_commit H t ?d)
        else map_option (\<lambda>(e, d). (e = None, d)) (rebuild_main_from_ref ?d)) = Some (ok1, d1)"
      using r 1 2 True by (auto simp: initialize_def e Let_def split: option.splits)
    have d1: "daemon_inv d1 \<and> d_next_branch d1 = 1 \<and> d_fhs d1 = [] \<and> length (r_files (d_refs d1)) \<le> Suc (length (r_files r))"
    proof (cases cur)
      case None
      then have "init_commit H t ?d = (ok1, d1)" using 3 by simp
      from init_commit_inv [OF this] show ?thesis using i e by simp
    next
      case (Some h)
      then obtain m where "rebuild_main_from_ref ?d = Some (m, d1)" using 3 by auto
      from rebuild_main_inv [OF this i] show ?thesis using e by simp
    qed
    show ?thesis
    proof (cases ok1)
      case False
      then show ?thesis using r 1 2 3 True d1 by (auto simp: initialize_def e Let_def)
    next
      case ok1: True
      obtain names s3 where 4: "list_refs_compat (d_refs d1) (d_store d1) = (names, s3)" by fastforce
      have "length names \<le> length (r_files (d_refs d1))"
      proof -
        obtain x t where x: "list_refs (d_refs d1) (d_store d1) = (x, t)" by fastforce
        show ?thesis using 4 list_refs_result(1) [OF x] x by (auto simp: list_refs_compat_def split: sum.splits)
      qed
      moreover have "load_branches names (d1\<lparr>d_store := s3\<rparr>) = Some d'"
        using r 1 2 3 4 True ok1 by (auto simp: initialize_def e Let_def load_persisted_branches_def)
      ultimately show ?thesis
        using load_branches_inv [of names "d1\<lparr>d_store := s3\<rparr>" d'] d1 l by (simp add: inv_store)
    qed
  qed
qed


section \<open>Steps\<close>

text \<open>
  The operations of the daemon, with any arguments, failures and answers of the router, and what
  the adapters do in between: change a tree, a handle, or the store. A creation needs an id that
  was not used, which is missing only after \<open>2 ^ 32 - 1\<close> of them.
\<close>

inductive daemon_step :: "(bytes \<Rightarrow> hash) \<Rightarrow> daemon \<Rightarrow> daemon \<Rightarrow> bool" for H where
  checkpoint_step: "checkpoint_branch H t br label d = Some (res, d') \<Longrightarrow> daemon_step H d d'"
| checkpoint_name_step: "checkpoint_branch_by_name H t n label d = Some (res, d') \<Longrightarrow> daemon_step H d d'"
| rollback_step: "rollback_branch_to_commit n h d = Some (res, d') \<Longrightarrow> daemon_step H d d'"
| create_step: "d_next_branch d \<noteq> no_branch \<Longrightarrow> create_branch n src d = (b, d') \<Longrightarrow> daemon_step H d d'"
| delete_step: "delete_branch has_cgroup n d = (ok, d') \<Longrightarrow> daemon_step H d d'"
| merge_step: "merge_branch H t sn tn label d = Some (mres, d') \<Longrightarrow> daemon_step H d d'"
| flush_step: "flush_fhs_for_branch H b d = Some (ok, d') \<Longrightarrow> daemon_step H d d'"
| invalidate_step: "daemon_step H d (invalidate_fhs_for_branch b d)"
| open_step: "fh_ok st \<Longrightarrow> allocate_fh st d = (fh, d') \<Longrightarrow> daemon_step H d d'"
| release_step: "daemon_step H d (release_fh fh d)"
| append_step: "append_agent_state H sfx req d = (ares, d') \<Longrightarrow> daemon_step H d d'"
| gc_step: "daemon_gc elapsed ids policy d = Some (gres, d') \<Longrightarrow> daemon_step H d d'"
| verify_step: "daemon_verify_gc ids policy d = Some (gres, d') \<Longrightarrow> daemon_step H d d'"
| policy_step: "daemon_step H d (bump_policy_version d)"
| tree_step: "wt_step (bc_wt (ctx d p)) wt \<Longrightarrow> daemon_step H d (upd_ctx p (\<lambda>c. c\<lparr>bc_wt := wt\<rparr>) d)"
| handle_step: "fh_ok st \<Longrightarrow> daemon_step H d (d\<lparr>d_fhs := map (\<lambda>x. if fst x = fh then (fh, st) else x) (d_fhs d)\<rparr>)"
| store_step: "daemon_step H d (d\<lparr>d_store := s\<rparr>)"

inductive_cases daemon_stepE: "daemon_step H d d'"

lemma inv_fhs: "daemon_inv d \<Longrightarrow> handles_inv fhs \<Longrightarrow> daemon_inv (d\<lparr>d_fhs := fhs\<rparr>)"
  by (simp add: daemon_inv_def names_inv_def)

lemma inv_fields: "daemon_inv (d\<lparr>d_state := sd\<rparr>) = daemon_inv d" "daemon_inv (d\<lparr>d_next_fh := k\<rparr>) = daemon_inv d"
  "daemon_inv (d\<lparr>d_policy := pv\<rparr>) = daemon_inv d"
  by (simp_all add: daemon_inv_def names_inv_def)

lemma distinct_keys_filter: "distinct (map fst xs) \<Longrightarrow> distinct (map fst (filter P xs))"
  by (induction xs) auto

lemma open_inv:
  assumes "daemon_inv d" "fh_ok st" "allocate_fh st d = (fh, d')"
  shows "daemon_inv d'"
proof -
  have "handles_inv ((fh, st) # filter (\<lambda>p. fst p \<noteq> fh) (d_fhs d))"
    using inv_handles [OF assms(1)] assms(2) by (auto simp: handles_inv_def distinct_keys_filter)
  from inv_fhs [OF _ this, of "d\<lparr>d_next_fh := d_next_fh d + 1\<rparr>"] show ?thesis
    using assms(1,3) by (auto simp: allocate_fh_def Let_def inv_fields)
qed

lemma release_inv: "daemon_inv d \<Longrightarrow> daemon_inv (release_fh fh d)"
  using inv_handles [of d] by (auto simp: release_fh_def handles_inv_def distinct_keys_filter intro!: inv_fhs)

lemma flush_branch_inv:
  assumes "daemon_inv d"
  shows "\<exists>ok d'. flush_fhs_for_branch H b d = Some (ok, d') \<and> daemon_inv d'"
proof (cases "branch_of_id b d")
  case None
  with assms show ?thesis by (intro exI [of _ False] exI [of _ d]) (simp add: flush_fhs_for_branch_def)
next
  case (Some p)
  have p: "map_of (d_branches d) b = Some p" using Some by (simp add: branch_of_id_def)
  have h: "\<forall>x \<in> set (d_fhs d). fh_ok (snd x)" using inv_handles [OF assms] by (simp add: handles_inv_def)
  obtain ok fhs wt s where f: "flush_fhs H b (d_fhs d) (bc_wt (ctx d p)) (d_store d) = Some (ok, fhs, wt, s)"
    "list_all2 (\<lambda>x y. fst y = fst x \<and> fh_frame (snd x) (snd y)) (d_fhs d) fhs"
    "flush_safe H (bc_wt (ctx d p)) (d_store d) wt s"
    by (rule flush_fhs_safe [OF h, of H b "bc_wt (ctx d p)" "d_store d"]) (rule that)
  have w: "wt_inv wt" using f(3) invE(6) [OF assms p] by (simp add: flush_safe_def)
  from inv_step [OF assms frame_handles_inv(1) [OF f(2) inv_handles [OF assms]] w, where p = p and r = "d_refs d" and s = s]
  have "daemon_inv (upd_ctx p (\<lambda>c. c\<lparr>bc_wt := wt\<rparr>) (d\<lparr>d_fhs := fhs, d_store := s\<rparr>))"
    by (simp add: upd_ctx_def ctx_def)
  then show ?thesis using f(1) Some by (simp add: flush_fhs_for_branch_def)
qed

lemma tree_step_inv:
  assumes "daemon_inv d" "wt_step (bc_wt (ctx d p)) wt"
  shows "daemon_inv (upd_ctx p (\<lambda>c. c\<lparr>bc_wt := wt\<rparr>) d)"
proof (cases "p < length (d_ctxs d)")
  case True
  have "wt_inv wt" using basic_inv [OF step_basic [OF assms(2)] ctx_inv [OF assms(1) True]] by blast
  from inv_step [OF assms(1) inv_handles [OF assms(1)] this, where p = p and r = "d_refs d" and s = "d_store d"]
  show ?thesis by simp
next
  case False
  then have "upd_ctx p (\<lambda>c. c\<lparr>bc_wt := wt\<rparr>) d = d" by (simp add: upd_ctx_def list_update_beyond)
  with assms(1) show ?thesis by simp
qed

lemma handle_step_inv:
  assumes "daemon_inv d" "fh_ok st"
  shows "daemon_inv (d\<lparr>d_fhs := map (\<lambda>x. if fst x = fh then (fh, st) else x) (d_fhs d)\<rparr>)"
proof (rule inv_fhs [OF assms(1)])
  have k: "map fst (map (\<lambda>x. if fst x = fh then (fh, st) else x) (d_fhs d)) = map fst (d_fhs d)" by simp
  show "handles_inv (map (\<lambda>x. if fst x = fh then (fh, st) else x) (d_fhs d))"
    unfolding handles_inv_def k using inv_handles [OF assms(1)] assms(2) by (auto simp: handles_inv_def)
qed

lemma daemon_step_inv: "daemon_step H d d' \<Longrightarrow> daemon_inv d \<Longrightarrow> daemon_inv d'"
proof (induction rule: daemon_step.induct)
  case (checkpoint_step t br label d res d')
  then show ?case using checkpoint_branch_inv [of d H t br label] by auto
next
  case (checkpoint_name_step t n label d res d')
  then show ?case using checkpoint_by_name_inv [of d H t n label] by auto
next
  case (flush_step b d ok d')
  then show ?case using flush_branch_inv [of d H b] by auto
next
  case (merge_step t sn tn label d mres d')
  show ?case by (rule merge_branch_effect(1) [OF merge_step(2,1)])
next
  case (tree_step d p wt)
  show ?case by (rule tree_step_inv [OF tree_step(2,1)])
next
  case (handle_step st d fh)
  show ?case by (rule handle_step_inv [OF handle_step(2,1)])
next
  case (policy_step d)
  then show ?case by (simp add: bump_policy_version_def inv_fields)
qed (auto intro: rollback_branch_inv create_branch_inv delete_branch_inv invalidate_inv open_inv release_inv
    simp: append_agent_state_def daemon_gc_def daemon_verify_gc_def inv_store inv_fields split: prod.splits)

lemma daemon_steps_inv: "(daemon_step H)\<^sup>*\<^sup>* d d' \<Longrightarrow> daemon_inv d \<Longrightarrow> daemon_inv d'"
  by (induction rule: rtranclp_induct) (auto intro: daemon_step_inv)

text \<open>What the invariant says of the lookups.\<close>

lemma inv_lookups:
  assumes "daemon_inv d"
  shows "branch_by_name ''main'' d = Some 0"
    "branch_by_name n d = Some p \<longleftrightarrow> (\<exists>b. branch_of_id b d = Some p \<and> bc_name (ctx d p) = n)"
    "branch_of_id b d = Some p \<Longrightarrow> bc_id (ctx d p) = b \<and> \<not> bc_retired (ctx d p)"
proof -
  have "names_ok (d_branches d) (d_names d) (d_ctxs d) (d_next_branch d)"
    using assms by (simp add: daemon_inv_def names_inv_def)
  from names_okD(3,4) [OF this] show "branch_by_name ''main'' d = Some 0" by (simp add: branch_by_name_def)
  show "branch_of_id b d = Some p \<Longrightarrow> bc_id (ctx d p) = b \<and> \<not> bc_retired (ctx d p)"
    using invE [OF assms] by (auto simp: branch_of_id_def)
  show "branch_by_name n d = Some p \<longleftrightarrow> (\<exists>b. branch_of_id b d = Some p \<and> bc_name (ctx d p) = n)"
  proof
    assume "branch_by_name n d = Some p"
    from inv_by_name(1,2) [OF assms this] show "\<exists>b. branch_of_id b d = Some p \<and> bc_name (ctx d p) = n"
      by (auto simp: branch_of_id_def)
  next
    assume "\<exists>b. branch_of_id b d = Some p \<and> bc_name (ctx d p) = n"
    then show "branch_by_name n d = Some p" using inv_named [OF assms] by (auto simp: branch_of_id_def)
  qed
qed


section \<open>What a flush saves\<close>

definition handle_contents :: "store \<Rightarrow> fh_state \<Rightarrow> bytes" where
  "handle_contents s st = (case fh_buf st of None \<Rightarrow> base_bytes s st | Some wb \<Rightarrow> wb_content (base_bytes s st) wb)"

definition base_stored :: "store \<Rightarrow> fh_state \<Rightarrow> bool" where
  "base_stored s st \<longleftrightarrow> fh_loaded st \<or> fh_base_blob st = ZERO_HASH \<or> payload ''blob'' s (fh_base_blob st) \<noteq> None"

lemma base_bytes_stable: "store_le s s' \<Longrightarrow> base_stored s st \<Longrightarrow> base_bytes s' st = base_bytes s st \<and> base_stored s' st"
  using payload_mono [of s s' "''blob''" "fh_base_blob st"] by (auto simp: base_bytes_def base_stored_def)

lemma lookup_saved: "lookup_raw p wt = Some (saved_entry H c e) \<Longrightarrow> lookup p wt = Some (saved_entry H c e)"
  by (simp add: lookup_def saved_entry_def)

text \<open>Of the unsaved handles on a path, the one that a flush reaches last.\<close>

fun last_dirty :: "u32 \<Rightarrow> string \<Rightarrow> (u64 \<times> fh_state) list \<Rightarrow> fh_state option" where
  "last_dirty b path [] = None"
| "last_dirty b path (x # xs) = (case last_dirty b path xs of
     Some st \<Rightarrow> Some st
   | None \<Rightarrow> if needs_flush b (snd x) \<and> fh_path (snd x) = path then Some (snd x) else None)"

lemma last_dirty_some:
  "last_dirty b path xs = Some st \<Longrightarrow> \<exists>fh. (fh, st) \<in> set xs \<and> needs_flush b st \<and> fh_path st = path"
  by (induction xs) (auto split: option.splits if_splits)

lemma last_dirty_none:
  "last_dirty b path xs = None \<longleftrightarrow> (\<forall>x \<in> set xs. needs_flush b (snd x) \<longrightarrow> fh_path (snd x) \<noteq> path)"
  by (induction xs) (auto split: option.splits)

text \<open>What a flush leaves at a path, from what was there.\<close>

definition flushed_entry :: "(bytes \<Rightarrow> hash) \<Rightarrow> store \<Rightarrow> working_tree \<Rightarrow> string \<Rightarrow> fh_state option \<Rightarrow> entry option" where
  "flushed_entry H s wt path x = (case x of None \<Rightarrow> lookup_raw path wt
     | Some st \<Rightarrow> Some (saved_entry H (handle_contents s st) (lookup path wt)))"

lemma flush_fhs_saves:
  assumes "flush_fhs H b fhs wt s = Some (True, fhs', wt', s')" "\<forall>x \<in> set fhs. fh_ok (snd x)" "s_io s = []"
    "\<forall>x \<in> set fhs. needs_flush b (snd x) \<longrightarrow> base_stored s (snd x)"
  shows "fhs' = map (\<lambda>x. (fst x, if needs_flush b (snd x) then saved_fh H (handle_contents s (snd x)) (snd x) else snd x)) fhs \<and>
    store_le s s' \<and> (cas_ok H s \<longrightarrow> cas_ok H s') \<and>
    (\<forall>p. lookup_raw p wt' = flushed_entry H s wt p (last_dirty b p fhs)) \<and>
    (\<forall>x \<in> set fhs. needs_flush b (snd x) \<longrightarrow> find_object s' (saved_blob H (handle_contents s (snd x))) \<noteq> None)"
  using assms
proof (induction fhs arbitrary: fhs' wt s)
  case Nil
  then show ?case by (simp add: flushed_entry_def)
next
  case (Cons y fhs)
  obtain fh st where y: "y = (fh, st)" by (cases y)
  show ?case
  proof (cases "needs_flush b st")
    case False
    obtain fhs2 where 2: "flush_fhs H b fhs wt s = Some (True, fhs2, wt', s')" "fhs' = (fh, st) # fhs2"
      using Cons.prems(1) y False by (auto split: option.splits)
    have "last_dirty b p (y # fhs) = last_dirty b p fhs" for p
      using False by (simp add: y split: option.split)
    with Cons.IH [OF 2(1) _ Cons.prems(3)] Cons.prems(2,4) y False 2(2) show ?thesis by auto
  next
    case True
    then obtain wb where wb: "fh_buf st = Some wb" by (auto simp: needs_flush_def fh_dirty_def split: option.splits)
    have ok: "fh_ok st" "base_stored s st" using Cons.prems(2,4) y True by auto
    let ?c = "handle_contents s st"
    obtain st1 wt1 s1 where 1: "flush_fh H st wt s = Some (True, st1, wt1, s1)"
      and 2: "\<exists>fhs2. flush_fhs H b fhs wt1 s1 = Some (True, fhs2, wt', s') \<and> fhs' = (fh, st1) # fhs2"
      using Cons.prems(1) y True by (auto split: option.splits bool.splits)
    obtain fhs2 where 2: "flush_fhs H b fhs wt1 s1 = Some (True, fhs2, wt', s')" "fhs' = (fh, st1) # fhs2" using 2 by blast
    have r: "st1 = saved_fh H ?c st" "wt1 = insert_entry (fh_path st) (saved_entry H ?c (lookup (fh_path st) wt)) wt"
      "find_object s1 (saved_blob H ?c) \<noteq> None" "s_io s1 = []" "store_le s s1" "cas_ok H s \<Longrightarrow> cas_ok H s1"
      by (rule flush_fh_result [OF ok(1) wb, of H wt s]; use 1 Cons.prems(3) wb in \<open>simp add: handle_contents_def\<close>)+
    have same: "base_bytes s1 (snd x) = base_bytes s (snd x) \<and> base_stored s1 (snd x)" if "x \<in> set fhs" "needs_flush b (snd x)" for x
      using Cons.prems(4) that base_bytes_stable [OF r(5)] by simp
    have hc: "handle_contents s1 (snd x) = handle_contents s (snd x)" if "x \<in> set fhs" "needs_flush b (snd x)" for x
      using same [OF that] by (simp add: handle_contents_def split: option.split)
    have raw: "lookup_raw p wt1 = (if p = fh_path st then Some (saved_entry H ?c (lookup p wt)) else lookup_raw p wt)" for p
      by (simp add: r(2) lookup_raw_view insert_entry_def wt_raw_put)
    have look: "saved_entry H c (lookup p wt1) = saved_entry H c (lookup p wt)" for p c
    proof (cases "p = fh_path st")
      case True
      with raw [of p] have "lookup p wt1 = Some (saved_entry H ?c (lookup p wt))" by (intro lookup_saved) simp
      then show ?thesis by (simp add: saved_entry_def)
    next
      case False
      with raw [of p] show ?thesis by (simp add: lookup_def)
    qed
    have fo: "\<forall>x \<in> set fhs. fh_ok (snd x)" and bs: "\<forall>x \<in> set fhs. needs_flush b (snd x) \<longrightarrow> base_stored s1 (snd x)"
      using Cons.prems(2) same by simp_all
    note ih = Cons.IH [OF 2(1) fo r(4) bs]
    have ex: "find_object s' (saved_blob H ?c) \<noteq> None"
    proof -
      obtain ob where "find_object s1 (saved_blob H ?c) = Some ob" using r(3) by blast
      with store_leD [of s1 s' "saved_blob H ?c" ob] ih show ?thesis by auto
    qed
    have tree: "lookup_raw p wt' = flushed_entry H s wt p (last_dirty b p (y # fhs))" for p
    proof (cases "last_dirty b p fhs")
      case None
      then show ?thesis using ih raw [of p] True by (auto simp: y flushed_entry_def)
    next
      case (Some st2)
      then obtain fh2 where "(fh2, st2) \<in> set fhs" "needs_flush b st2" using last_dirty_some by blast
      with hc [of "(fh2, st2)"] ih Some look show ?thesis by (simp add: flushed_entry_def)
    qed
    have m: "fhs2 = map (\<lambda>x. (fst x, if needs_flush b (snd x) then saved_fh H (handle_contents s (snd x)) (snd x) else snd x)) fhs"
      using ih hc by auto
    have les: "store_le s s'" "cas_ok H s \<longrightarrow> cas_ok H s'" using ih r(5,6) store_le_trans by blast+
    have found: "find_object s' (saved_blob H (handle_contents s (snd x))) \<noteq> None"
      if "x \<in> set (y # fhs)" "needs_flush b (snd x)" for x
    proof (cases "x \<in> set fhs")
      case True
      with ih hc [OF True that(2)] that(2) show ?thesis by fastforce
    next
      case False
      with that(1) ex show ?thesis by (simp add: y)
    qed
    show ?thesis using m r(1) True les tree found by (simp add: y 2(2))
  qed
qed


section \<open>What a restart loads\<close>

lemma publish_lookup:
  assumes "daemon_inv d" "bc_id c = d_next_branch d"
  shows "branch_by_name (bc_name c) (publish_ctx c (d\<lparr>d_next_branch := k, d_store := s\<rparr>)) = Some (length (d_ctxs d))"
    "ctx (publish_ctx c (d\<lparr>d_next_branch := k, d_store := s\<rparr>)) (length (d_ctxs d)) = c"
    "branch_by_name m d = Some p \<Longrightarrow> m \<noteq> bc_name c \<Longrightarrow>
       branch_by_name m (publish_ctx c (d\<lparr>d_next_branch := k, d_store := s\<rparr>)) = Some p \<and>
       ctx (publish_ctx c (d\<lparr>d_next_branch := k, d_store := s\<rparr>)) p = ctx d p"
proof -
  show "branch_by_name (bc_name c) (publish_ctx c (d\<lparr>d_next_branch := k, d_store := s\<rparr>)) = Some (length (d_ctxs d))"
    "ctx (publish_ctx c (d\<lparr>d_next_branch := k, d_store := s\<rparr>)) (length (d_ctxs d)) = c"
    by (simp_all add: branch_by_name_def publish_ctx_def om_simps ctx_def nth_append)
  assume m: "branch_by_name m d = Some p" "m \<noteq> bc_name c"
  note n = inv_by_name [OF assms(1) m(1)]
  have "bc_id (ctx d p) \<noteq> d_next_branch d" "p < length (d_ctxs d)"
    using invE(1,4) [OF assms(1) n(1)] by auto
  then show "branch_by_name m (publish_ctx c (d\<lparr>d_next_branch := k, d_store := s\<rparr>)) = Some p \<and>
      ctx (publish_ctx c (d\<lparr>d_next_branch := k, d_store := s\<rparr>)) p = ctx d p"
    using m n assms(2) by (simp add: branch_by_name_def publish_ctx_def om_simps ctx_def nth_append)
qed

text \<open>One name of the list, and what loading it does.\<close>

lemma load_step:
  assumes l: "load_branches (name # names) d = Some d'" and i: "daemon_inv d" and b: "unat (d_next_branch d) + Suc (length names) < 2 ^ 32"
    and io: "s_io (d_store d) = []"
  obtains d1 where "load_branches names d1 = Some d'" "daemon_inv d1" "unat (d_next_branch d1) + length names < 2 ^ 32"
    "d_refs d1 = d_refs d" "d_store d1 = d_store d"
    "\<And>m p. branch_by_name m d = Some p \<Longrightarrow> branch_by_name m d1 = Some p \<and> ctx d1 p = ctx d p"
    "\<And>m. m \<noteq> name \<Longrightarrow> map_of (d_names d) m = None \<Longrightarrow> map_of (d_names d1) m = None"
    "\<And>wt. name \<noteq> ''main'' \<Longrightarrow> is_valid_branch_name name \<Longrightarrow> map_of (d_names d) name = None \<Longrightarrow>
       rebuild_branch_from_ref name (d_next_branch d) (d_refs d) (d_store d) = Some (Inr (branch_new (d_next_branch d) name wt), d_store d) \<Longrightarrow>
       \<exists>p. branch_by_name name d1 = Some p \<and> bc_wt (ctx d1 p) = wt"
proof (cases "name = ''main'' \<or> \<not> is_valid_branch_name name")
  case True
  with l i b show thesis by (intro that [of d]) simp_all
next
  case False
  let ?b = "d_next_branch d" and ?d = "d\<lparr>d_next_branch := d_next_branch d + 1\<rparr>"
  have n: "?b \<noteq> no_branch"
  proof
    assume "?b = no_branch"
    then have "unat ?b = 2 ^ 32 - 1" by (simp add: no_branch_def unsigned_minus_1_eq_mask mask_eq_exp_minus_1)
    with b show False by simp
  qed
  have "1 + ?b \<noteq> 0" using n by (simp add: no_branch_def eq_neg_iff_add_eq_0 add.commute)
  then have s: "unat (?b + 1) = Suc (unat ?b)" using unatSuc [of ?b] by (simp add: add.commute)
  obtain x t where x: "rebuild_branch_from_ref name ?b (d_refs d) (d_store d) = Some (x, t)"
    using l False by (auto simp: Let_def split: option.splits)
  note e = rebuild_branch_effect [OF x]
  have t: "t = d_store d" using e(1) io by (rule only_io_empty)
  show thesis
  proof (cases "\<exists>c. x = Inr c \<and> map_of (d_names d) name = None")
    case no: False
    have "load_branches names (?d\<lparr>d_store := d_store d\<rparr>) = Some d'"
      using l False x t no by (cases x) (auto simp: Let_def)
    moreover have "?d\<lparr>d_store := d_store d\<rparr> = ?d" by simp
    ultimately have l1: "load_branches names ?d = Some d'" by simp
    have look: "branch_by_name m ?d = branch_by_name m d" "ctx ?d p = ctx d p" for m p
      by (simp_all add: branch_by_name_def ctx_def cong: option.case_cong)
    show thesis
    proof (rule that [OF l1 inv_skip_id [OF i n]])
      fix wt
      assume "map_of (d_names d) name = None"
        "rebuild_branch_from_ref name ?b (d_refs d) (d_store d) = Some (Inr (branch_new ?b name wt), d_store d)"
      with x no show "\<exists>p. branch_by_name name ?d = Some p \<and> bc_wt (ctx ?d p) = wt" by auto
    qed (use b s look in simp_all)
  next
    case True
    then obtain c wt where c: "x = Inr c" "map_of (d_names d) name = None" "c = branch_new ?b name wt" "wt_inv wt"
      using e(2) by blast
    have id: "bc_id c = d_next_branch d" "bc_name c = name" using c(3) by (simp_all add: branch_new_def)
    let ?p = "publish_ctx c (d\<lparr>d_next_branch := ?b + 1, d_store := d_store d\<rparr>)"
    have same: "d\<lparr>d_next_branch := ?b + 1, d_store := d_store d\<rparr> = ?d" by simp
    have l1: "load_branches names ?p = Some d'" using l False x t c by (simp add: Let_def)
    have i1: "daemon_inv ?p" unfolding same using i n c by (intro publish_inv) (simp_all add: branch_new_def)
    note pl = publish_lookup [OF i id(1), where k = "?b + 1" and s = "d_store d"]
    have "m \<noteq> name" if "branch_by_name m d = Some p" for m p
      using c(2) that by (auto simp: branch_by_name_def)
    with pl(3) id(2) have keep: "\<And>m p. branch_by_name m d = Some p \<Longrightarrow> branch_by_name m ?p = Some p \<and> ctx ?p p = ctx d p" by blast
    have new: "\<exists>p. branch_by_name name ?p = Some p \<and> bc_wt (ctx ?p p) = wt'"
      if "rebuild_branch_from_ref name ?b (d_refs d) (d_store d) = Some (Inr (branch_new ?b name wt'), d_store d)" for wt'
    proof -
      have "c = branch_new ?b name wt'" using that x c(1) by simp
      then have "bc_wt c = wt'" by (simp add: branch_new_def)
      with pl(1,2) id(2) show ?thesis by (intro exI [of _ "length (d_ctxs d)"]) simp
    qed
    show thesis
      by (rule that [OF l1 i1]) (use b s keep new id in \<open>simp_all add: publish_ctx_def om_simps\<close>)
  qed
qed

lemma load_branches_keeps:
  "load_branches names d = Some d' \<Longrightarrow> daemon_inv d \<Longrightarrow> unat (d_next_branch d) + length names < 2 ^ 32 \<Longrightarrow>
   s_io (d_store d) = [] \<Longrightarrow> branch_by_name m d = Some p \<Longrightarrow> branch_by_name m d' = Some p \<and> ctx d' p = ctx d p"
proof (induction names arbitrary: d)
  case (Cons name names)
  have b: "unat (d_next_branch d) + Suc (length names) < 2 ^ 32" using Cons.prems(3) by simp
  obtain d1 where d1: "load_branches names d1 = Some d'" "daemon_inv d1" "unat (d_next_branch d1) + length names < 2 ^ 32"
    "d_store d1 = d_store d" "branch_by_name m d = Some p \<Longrightarrow> branch_by_name m d1 = Some p \<and> ctx d1 p = ctx d p"
    using load_step [OF Cons.prems(1,2) b Cons.prems(4)] by metis
  from Cons.IH [OF d1(1-3)] d1(4,5) Cons.prems(4,5) show ?case by simp
qed simp

lemma load_branches_loads:
  "load_branches names d = Some d' \<Longrightarrow> daemon_inv d \<Longrightarrow> unat (d_next_branch d) + length names < 2 ^ 32 \<Longrightarrow>
   s_io (d_store d) = [] \<Longrightarrow> distinct names \<Longrightarrow> n \<in> set names \<Longrightarrow> n \<noteq> ''main'' \<Longrightarrow> is_valid_branch_name n \<Longrightarrow>
   map_of (d_names d) n = None \<Longrightarrow>
   (\<And>b. rebuild_branch_from_ref n b (d_refs d) (d_store d) = Some (Inr (branch_new b n wt), d_store d)) \<Longrightarrow>
   \<exists>p. branch_by_name n d' = Some p \<and> bc_wt (ctx d' p) = wt"
proof (induction names arbitrary: d)
  case (Cons name names)
  have b: "unat (d_next_branch d) + Suc (length names) < 2 ^ 32" using Cons.prems(3) by simp
  show ?case
  proof (cases "name = n")
    case True
    obtain d1 where d1: "load_branches names d1 = Some d'" "daemon_inv d1" "unat (d_next_branch d1) + length names < 2 ^ 32"
      "d_store d1 = d_store d" "\<exists>p. branch_by_name n d1 = Some p \<and> bc_wt (ctx d1 p) = wt"
      using load_step [OF Cons.prems(1,2) b Cons.prems(4)] Cons.prems(7-10) True by metis
    then obtain p where p: "branch_by_name n d1 = Some p" "bc_wt (ctx d1 p) = wt" by blast
    have "s_io (d_store d1) = []" using d1(4) Cons.prems(4) by simp
    from load_branches_keeps [OF d1(1-3) this p(1)] p(2) show ?thesis by auto
  next
    case False
    obtain d1 where d1: "load_branches names d1 = Some d'" "daemon_inv d1" "unat (d_next_branch d1) + length names < 2 ^ 32"
      "d_refs d1 = d_refs d" "d_store d1 = d_store d" "map_of (d_names d1) n = None"
      using load_step [OF Cons.prems(1,2) b Cons.prems(4)] Cons.prems(9) False by metis
    show ?thesis
      by (rule Cons.IH [OF d1(1-3)]) (use d1(4-6) Cons.prems False in simp_all)
  qed
qed simp

end
