(* ===== verification/DaemonProps.thy ===== *)
theory DaemonProps
  imports DaemonRun
begin

text \<open>
  What the daemon promises its clients: what a checkpoint saves of the open files, what a
  restart after a crash brings back, what a collection may remove, and the states that failed
  operations leave.
\<close>

section \<open>Starting without faults\<close>

lemma create_dirs_quiet: "s_io s = [] \<Longrightarrow> \<exists>ds. create_dirs ps s = (True, s\<lparr>s_dirs := ds\<rparr>)"
proof (induction ps arbitrary: s)
  case Nil
  show ?case by (intro exI [of _ "s_dirs s"]) simp
next
  case (Cons p ps)
  from Cons.IH [of "s\<lparr>s_dirs := List.insert p (s_dirs s)\<rparr>"] Cons.prems show ?case by (auto simp: next_io_def)
qed

lemma shards_writable_quiet: "s_io s = [] \<Longrightarrow> shards_writable ds s = (True, s)"
  by (induction ds) (auto simp: next_io_def)

lemma init_layout_quiet:
  assumes "s_io s = []"
  obtains ds where "init_layout s = (True, s\<lparr>s_dirs := ds, s_version := True\<rparr>)"
proof -
  obtain ds where "create_dirs [s_root s, objects_dir s, tmp_dir s, s_root s @ ''/refs'', s_root s @ ''/telemetry''] s = (True, s\<lparr>s_dirs := ds\<rparr>)"
    using create_dirs_quiet [OF assms] by blast
  then show thesis
    using assms shards_writable_quiet
    by (intro that [of ds]) (simp add: init_layout_def Let_def next_io_def validate_object_shards_writable_def)
qed

lemma remove_tmps_quiet: "s_io s = [] \<Longrightarrow> \<exists>tmp. remove_tmps ns s = s\<lparr>s_tmp := tmp\<rparr>"
proof (induction ns arbitrary: s)
  case Nil
  show ?case by (intro exI [of _ "s_tmp s"]) simp
next
  case (Cons n ns)
  from Cons.IH [of s] Cons.IH [of "s\<lparr>s_tmp := om_del n (s_tmp s)\<rparr>"] Cons.prems show ?case by (auto simp: next_io_def)
qed

lemma cleanup_tmp_quiet: "s_io s = [] \<Longrightarrow> \<exists>tmp. cleanup_tmp s = s\<lparr>s_tmp := tmp\<rparr>"
  using remove_tmps_quiet [of s "map fst (s_tmp s)"] by (simp add: cleanup_tmp_def next_io_def)

lemma read_ref_ok: "s_io s = [] \<Longrightarrow> read_ref r b s = (ref_of r b, s)"
proof -
  assume io: "s_io s = []"
  obtain x t where r: "read_ref r b s = (x, t)" by fastforce
  from read_ref_value(2) [OF r io] only_io_empty [OF read_ref_only [OF only_io_refl r] io] r show ?thesis by simp
qed

lemma list_refs_ok: "s_io s = [] \<Longrightarrow> list_refs_compat r s = (sort (map fst (r_files r)), s)"
proof -
  assume io: "s_io s = []"
  obtain x t where r: "list_refs r s = (x, t)" by fastforce
  have "t = s" by (rule only_io_empty [OF list_refs_only [OF only_io_refl r] io])
  with list_refs_result(3) [OF r io] r show ?thesis by (simp add: list_refs_compat_def)
qed

text \<open>The store the branches are loaded from.\<close>

definition started :: "store \<Rightarrow> store \<Rightarrow> bool" where
  "started s t \<longleftrightarrow> s_io t = [] \<and> s_pending t = s_pending s \<and> find_object t = find_object s"

lemma started_payload: "started s t \<Longrightarrow> payload tag t h = payload tag s h"
  by (simp add: started_def payload_def)

lemma initialize_quiet:
  assumes "s_io s = []"
  obtains t where "started s t" "initialize H now (daemon_new ts s r sd) =
    (let d = (daemon_new ts s r sd)\<lparr>d_store := t\<rparr> in
     case (if ref_of r ''main'' = None then Some (init_commit H now d)
           else map_option (\<lambda>(e, d). (e = None, d)) (rebuild_main_from_ref d)) of
       None \<Rightarrow> None
     | Some (False, d) \<Rightarrow> Some (False, d)
     | Some (True, d) \<Rightarrow> map_option (\<lambda>d. (True, d)) (load_persisted_branches d))"
proof -
  obtain ds where 1: "init_layout s = (True, s\<lparr>s_dirs := ds, s_version := True\<rparr>)" by (rule init_layout_quiet [OF assms])
  obtain tmp where 2: "cleanup_tmp (s\<lparr>s_dirs := ds, s_version := True\<rparr>) = s\<lparr>s_dirs := ds, s_version := True, s_tmp := tmp\<rparr>"
    using cleanup_tmp_quiet [of "s\<lparr>s_dirs := ds, s_version := True\<rparr>"] assms by auto
  let ?t = "s\<lparr>s_dirs := ds, s_version := True, s_tmp := tmp\<rparr>"
  have 3: "read_ref r ''main'' ?t = (ref_of r ''main'', ?t)" using assms by (intro read_ref_ok) simp
  have e: "d_store (daemon_new ts s r sd) = s" "d_refs (daemon_new ts s r sd) = r" by (simp_all add: daemon_new_def)
  have "started s ?t" using assms by (simp add: started_def find_object_def fun_eq_iff)
  then show thesis by (rule that) (simp only: initialize_def e 1 2 3 prod.case bool.case)
qed

text \<open>The first commit, when no call fails and no object hashes to zero.\<close>

lemma init_commit_ok:
  assumes io: "s_io (d_store d) = []" and p: "pend_ok (d_store d)"
    and nz: "\<And>x. x \<in> set (tree_bodies H (bc_wt (ctx d 0))) \<Longrightarrow> tree_hash H x \<noteq> ZERO_HASH"
      "\<And>x. object_hash H ''commit'' x \<noteq> ZERO_HASH"
  obtains r s c cd where "init_commit H now d = (True, d\<lparr>d_refs := r, d_store := s\<rparr>)" "s_io s = []"
    "r_files r = om_put ''main'' (ref_content c) (r_files (d_refs d))" "r_durable r = r_files r"
    "c = object_hash H ''commit'' (serialize_commit cd)" "cd_parents cd = []"
proof -
  obtain tree wr lv s2 where 1: "serialize_working_tree H (bc_wt (ctx d 0)) (d_store d) = ((Inr tree, wr, lv), s2)" "s_io s2 = []"
    using serialize_working_tree_ok [OF io nz(1)] by blast
  have p2: "pend_ok s2" by (rule serialize_pend [OF 1(1) p])
  let ?cd = "\<lparr>cd_tree_hash = tree, cd_parents = [], cd_session_id = d_session d,
                cd_timestamp_ns = now, cd_label = ''initial'', cd_policy_version = d_policy d\<rparr>"
  obtain c s3 where 2: "write_commit H (serialize_commit ?cd) s2 = (c, s3)" by fastforce
  note wo = write_object_ok [OF 1(2), of H "''commit''" "serialize_commit ?cd"]
  have c: "c = object_hash H ''commit'' (serialize_commit ?cd)" "s_io s3 = []" "c \<noteq> ZERO_HASH"
    using wo 2 nz(2) by (simp_all add: write_commit_def)
  have p3: "pend_ok s3" using write_object_pend [OF 2 [unfolded write_commit_def] p2] .
  let ?s4 = "s3\<lparr>s_pending := []\<rparr>"
  have dr: "drain_pending s3 = (s_pending s3, ?s4)" by (simp add: drain_pending_def)
  have "\<forall>h \<in> set (s_pending s3). find_object ?s4 h \<noteq> None" using p3 by (auto simp: pend_ok_def)
  then obtain s5 where 5: "fsync_objects (s_pending s3) ?s4 = (True, s5)" "s_io s5 = []"
    using fsync_objects_ok [of ?s4 "s_pending s3"] c(2) by auto
  have "s_shards s5 = s_shards s3" using fsync_objects_effect [OF 5(1)] by (simp add: same_data_def)
  then have "shard_of ` set (s_pending s3) \<subseteq> set (s_shards s5)" using p3 by (auto simp: pend_ok_def)
  then obtain s6 where 6: "fsync_shard_dirs (s_pending s3) s5 = (True, s6)" "s_io s6 = []"
    using fsync_shard_dirs_ok [OF 5(2)] by blast
  obtain ok r s7 where 7: "write_ref ''main'' c (d_refs d) s6 = (ok, r, s7)" using prod_cases3 by blast
  have ok: "ok" using write_ref_effect(3) [OF 7 6(2)] .
  have io7: "s_io s7 = []" using write_ref_effect(1) [OF 7] 6(2) by (simp add: store_quiet_def)
  have f: "r_files r = om_put ''main'' (ref_content c) (r_files (d_refs d))" "r_durable r = r_files r"
    using write_ref_effect(2) [OF 7] ok by auto
  have run: "init_commit H now d = (True, d\<lparr>d_refs := r, d_store := s7\<rparr>)"
    using 1 2 c(3) dr 5 6 7 ok by (simp add: init_commit_def Let_def)
  show thesis by (rule that [OF run io7 f c(1)]) simp
qed

section \<open>Restarting after a crash\<close>

lemma find_label_ok: "s_io t = [] \<Longrightarrow> find_label n l h t = (h', t') \<Longrightarrow> t' = t"
proof (induction n arbitrary: h)
  case (Suc n)
  then show ?case
    using read_object_ok [OF Suc.prems(1), of h "''commit''"]
    by (auto simp: read_commit_def split: option.splits if_splits list.splits)
qed simp

lemma resolve_target_ok: "s_io t = [] \<Longrightarrow> resolve_target g b r t = (h, t') \<Longrightarrow> t' = t"
proof -
  assume io: "s_io t = []" and r: "resolve_target g b r t = (h, t')"
  have h: "\<exists>x. resolve_hash g t = (x, t)"
    using io by (auto simp: resolve_hash_def object_exists_def next_io_def split: option.split)
  show ?thesis
    using h r find_label_ok [OF io] read_ref_ok [OF io, of r b]
    by (auto simp: resolve_target_def split: option.splits)
qed

text \<open>What a rollback to a commit restores is what loading a branch at the commit builds.\<close>

lemma rollback_rebuild:
  assumes io: "s_io t = []" and f: "ref_of r n = Some c"
    and rb: "rollback_locked (hash_to_hex c) b \<lparr>rp_wt = wt_new, rp_refs = r0, rp_store = t\<rparr> = Some (Inr c, True, rp)"
  shows "rebuild_branch_from_ref n i r t = Some (Inr (branch_new i n (rp_wt rp)), t)"
proof -
  obtain h t1 where 1: "resolve_target (hash_to_hex c) b r0 t = (h, t1)" by fastforce
  have t1: "t1 = t" by (rule resolve_target_ok [OF io 1])
  have rc: "read_commit x t = (payload ''commit'' t x, t)" for x using read_object_ok [OF io] by (simp add: read_commit_def)
  obtain body cd y t2 where 2: "payload ''commit'' t h = Some body" "decoded (deserialize_commit body) = Some cd"
    "rebuild_working_tree (cd_tree_hash cd) wt_new t = Some (Inr y, t2)"
    using rb by (auto simp: rollback_locked_def 1 t1 rc split: if_splits option.splits sum.splits prod.splits)
  have t2: "t2 = t" by (rule only_io_empty [OF rebuild_effect(1) [OF 2(3)] io])
  have "h = c \<and> rp_wt rp = y"
    using rb 2 by (auto simp: rollback_locked_def 1 t1 rc split: if_splits prod.splits)
  then show ?thesis using 2 t2 f by (simp add: rebuild_branch_from_ref_def read_ref_ok [OF io] rc)
qed

text \<open>Starting when main's ref can be read.\<close>

lemma restart_cases:
  assumes io: "s_io s = []" and m: "ref_of r ''main'' \<noteq> None"
    and st: "initialize H now (daemon_new ts s r sd) = Some (True, d')"
  obtains t wt where "started s t"
    "rebuild_branch_from_ref ''main'' 0 r t = Some (Inr (branch_new 0 ''main'' wt), t)"
    "load_branches (sort (map fst (r_files r))) ((daemon_new ts t r sd)\<lparr>d_ctxs := [branch_new 0 ''main'' wt]\<rparr>) = Some d'"
proof -
  obtain t where t: "started s t" and i: "initialize H now (daemon_new ts s r sd) =
    (let d = (daemon_new ts s r sd)\<lparr>d_store := t\<rparr> in
     case (if ref_of r ''main'' = None then Some (init_commit H now d)
           else map_option (\<lambda>(e, d). (e = None, d)) (rebuild_main_from_ref d)) of
       None \<Rightarrow> None
     | Some (False, d) \<Rightarrow> Some (False, d)
     | Some (True, d) \<Rightarrow> map_option (\<lambda>d. (True, d)) (load_persisted_branches d))"
    by (rule initialize_quiet [OF io, of H now ts r sd])
  have it: "s_io t = []" using t by (simp add: started_def)
  have dn: "(daemon_new ts s r sd)\<lparr>d_store := t\<rparr> = daemon_new ts t r sd" by (simp add: daemon_new_def)
  obtain e d1 where 1: "rebuild_main_from_ref (daemon_new ts t r sd) = Some (e, d1)" "e = None"
    "load_persisted_branches d1 = Some d'"
    using st i m by (auto simp: dn Let_def split: option.splits bool.splits)
  have f: "d_refs (daemon_new ts t r sd) = r" "d_store (daemon_new ts t r sd) = t" by (simp_all add: daemon_new_def)
  obtain c t2 where c: "rebuild_branch_from_ref ''main'' 0 r t = Some (Inr c, t2)"
    "d1 = upd_ctx 0 (\<lambda>m. m\<lparr>bc_wt := bc_wt c\<rparr>) ((daemon_new ts t r sd)\<lparr>d_store := t2\<rparr>)"
    using 1 by (auto simp: rebuild_main_from_ref_def f split: option.splits sum.splits)
  have t2: "t2 = t" by (rule only_io_empty [OF rebuild_branch_effect(1) [OF c(1)] it])
  obtain wt where wt: "c = branch_new 0 ''main'' wt" using rebuild_branch_effect(2) [OF c(1)] by blast
  have d1: "d1 = (daemon_new ts t r sd)\<lparr>d_ctxs := [branch_new 0 ''main'' wt]\<rparr>"
    by (simp add: c(2) t2 wt upd_ctx_def ctx_def daemon_new_def branch_new_def)
  have "load_branches (sort (map fst (r_files r))) d1 = Some d'"
    using 1(3) list_refs_ok [OF it, of r] by (simp add: load_persisted_branches_def d1 daemon_new_def)
  with t c(1) t2 wt d1 show thesis by (intro that) simp_all
qed

text \<open>The branch a ref names is there after a restart, with the tree of the ref's commit.\<close>

lemma restart_loads:
  assumes io: "s_io s = []" and m: "ref_of r ''main'' \<noteq> None"
    and st: "initialize H now (daemon_new ts s r sd) = Some (True, d')"
    and w: "om_wf (r_files r)" and l: "Suc (length (r_files r)) < 2 ^ 32"
    and n: "n = ''main'' \<or> is_valid_branch_name n" "map_of (r_files r) n \<noteq> None"
    and b: "\<And>t. started s t \<Longrightarrow> \<exists>wt. P wt \<and> (\<forall>i. rebuild_branch_from_ref n i r t = Some (Inr (branch_new i n wt), t))"
  shows "\<exists>q. branch_by_name n d' = Some q \<and> P (bc_wt (ctx d' q)) \<and> d_refs d' = r \<and> daemon_inv d' \<and>
    find_object (d_store d') = find_object s"
proof (rule restart_cases [OF io m st])
  fix t mwt
  assume t: "started s t" and rm: "rebuild_branch_from_ref ''main'' 0 r t = Some (Inr (branch_new 0 ''main'' mwt), t)"
  let ?ns = "sort (map fst (r_files r))" and ?d = "(daemon_new ts t r sd)\<lparr>d_ctxs := [branch_new 0 ''main'' mwt]\<rparr>"
  assume ld: "load_branches ?ns ?d = Some d'"
  have it: "s_io t = []" using t by (simp add: started_def)
  obtain wt where wt: "P wt" "\<And>i. rebuild_branch_from_ref n i r t = Some (Inr (branch_new i n wt), t)" using b [OF t] by blast
  have f: "d_refs ?d = r" "d_store ?d = t" "d_names ?d = [(''main'', 0)]" "d_next_branch ?d = 1" by (simp_all add: daemon_new_def)
  have "wt_inv mwt" using rebuild_branch_effect(2) [OF rm] by (auto simp: branch_new_def)
  then have i: "daemon_inv ?d"
    by (simp add: daemon_inv_def names_inv_def names_ok_def daemon_new_def branch_new_def handles_inv_def om_wf_def)
  have l2: "unat (d_next_branch ?d) + length ?ns < 2 ^ 32" using l f(4) by simp
  have dist: "distinct ?ns" using w by (simp add: om_wf_def strict_sorted_iff)
  note iv = load_branches_inv [OF ld i l2]
  have st: "s_io (d_store ?d) = []" using it f(2) by simp
  have look: "\<exists>q. branch_by_name n d' = Some q \<and> bc_wt (ctx d' q) = wt"
  proof (cases "n = ''main''")
    case True
    have "branch_by_name ''main'' ?d = Some 0" by (simp add: branch_by_name_def daemon_new_def)
    from load_branches_keeps [OF ld i l2 st this] have k: "branch_by_name ''main'' d' = Some 0" "ctx d' 0 = ctx ?d 0" by blast+
    have "mwt = wt" using wt(2) [of 0] rm True by (simp add: branch_new_def)
    with k True show ?thesis by (simp add: ctx_def daemon_new_def branch_new_def)
  next
    case False
    have mem: "n \<in> set ?ns" using n(2) by (auto simp: map_of_eq_None_iff)
    have "map_of (d_names ?d) n = None" using False by (simp add: f(3))
    moreover have "\<And>i. rebuild_branch_from_ref n i (d_refs ?d) (d_store ?d) = Some (Inr (branch_new i n wt), d_store ?d)"
      using wt(2) by (simp add: f(1,2))
    ultimately show ?thesis
      using load_branches_loads [OF ld i l2 st dist mem False] n(1) False by blast
  qed
  have "d_store d' = t" using iv only_io_empty [OF _ it] f(2) by auto
  then have "find_object (d_store d') = find_object s" using t by (simp add: started_def)
  with look iv f(1) wt(1) show "\<exists>q. branch_by_name n d' = Some q \<and> P (bc_wt (ctx d' q)) \<and> d_refs d' = r \<and> daemon_inv d' \<and>
    find_object (d_store d') = find_object s" by auto
qed

lemma branch_checkpoint:
  assumes i: "daemon_inv d" and n: "branch_by_name n d = Some p"
    and fl: "flush_fhs_for_branch H (bc_id (ctx d p)) d = Some (True, d1)"
    and cp: "checkpoint_branch_by_name H t n label d = Some (Inr c, d')"
  obtains rp where "checkpoint_locked H t (\<lambda>_ _. (True, bc_wt (ctx d1 p), d_store d1)) label (d_session d) (d_policy d) n (branch_repo d p) = (Inr c, rp)"
    "d_refs d' = rp_refs rp" "d_store d' = rp_store rp" "rp_wt rp = bc_wt (ctx d1 p)" "bc_wt (ctx d' p) = bc_wt (ctx d1 p)"
    "d_fhs d' = d_fhs d1" "flush_safe H (bc_wt (ctx d p)) (d_store d) (bc_wt (ctx d1 p)) (d_store d1)"
proof -
  note nm = inv_by_name [OF i n]
  have p: "p < length (d_ctxs d)" by (rule by_name_length [OF i n])
  have cc: "checkpoint_ctx H t label n p d = Some (Inr c, d')"
    using cp n nm(2) by (simp add: checkpoint_branch_by_name_def)
  show thesis
  proof (rule checkpoint_ctx_result [OF i p, of H t label n])
    fix ok fhs wt s res rp
    assume r: "flush_fhs H (bc_id (ctx d p)) (d_fhs d) (bc_wt (ctx d p)) (d_store d) = Some (ok, fhs, wt, s)"
      "checkpoint_locked H t (\<lambda>_ _. (ok, wt, s)) label (d_session d) (d_policy d) n (branch_repo d p) = (res, rp)"
      "checkpoint_ctx H t label n p d = Some (res, after_checkpoint p fhs rp d)" "rp_wt rp = wt"
      "flush_safe H (bc_wt (ctx d p)) (d_store d) wt s"
    have "ok" and d1: "d1 = upd_ctx p (\<lambda>c. c\<lparr>bc_wt := wt\<rparr>) (d\<lparr>d_fhs := fhs, d_store := s\<rparr>)"
      using fl r(1) nm(1) by (simp_all add: flush_fhs_for_branch_def branch_of_id_def)
    moreover have d': "res = Inr c" "d' = after_checkpoint p fhs rp d" using cc r(3) by simp_all
    moreover have "bc_wt (ctx d1 p) = wt" "d_store d1 = s" "d_fhs d1 = fhs" using p by (simp_all add: d1 ctx_upd)
    moreover have "bc_wt (ctx d' p) = wt" "d_refs d' = rp_refs rp" "d_store d' = rp_store rp" "d_fhs d' = fhs"
      using p r(4) by (simp_all add: d'(2) after_checkpoint_def ctx_upd)
    ultimately show thesis using r by (intro that) simp_all
  qed
qed

text \<open>What is in the store and the refs after a checkpoint and a crash.\<close>

lemma crash_rebuild:
  assumes "daemon_inv d" and n: "branch_by_name n d = Some p"
    and fl: "flush_fhs_for_branch H (bc_id (ctx d p)) d = Some (True, d1)"
    and ok: "tree_ok (bc_wt (ctx d1 p))" "trees_apart H (d_store d1) (set (tree_bodies H (bc_wt (ctx d1 p))))"
      "commits_apart H (d_store d1) (set (tree_bodies H (bc_wt (ctx d1 p))))
         (checkpoint_bodies H t label (d_session d) (d_policy d) n (d_refs d) (bc_wt (ctx d1 p)))"
    and sh: "set (s_shards_durable (d_store d1)) \<subseteq> set (s_shards (d_store d1))"
    and nl: "\<forall>h \<in> graph_hashes H t label (d_session d) (d_policy d) n (d_refs d) (bc_wt (ctx d1 p)). \<not> left_behind (d_store d1) h"
    and cp: "checkpoint_branch_by_name H t n label d = Some (Inr c, d')"
  defines "r \<equiv> crash_refs (d_refs d')"
  shows "r_files r = om_put n (ref_content c) (r_files (d_refs d))" "ref_of r n = Some c" "bc_wt (ctx d' p) = bc_wt (ctx d1 p)"
    "started (crash_store (d_store d')) u \<Longrightarrow> \<exists>wt. (\<forall>path. rel_option same_entry (lookup_raw path (bc_wt (ctx d1 p))) (lookup_raw path wt)) \<and>
        (\<forall>i. rebuild_branch_from_ref n i r u = Some (Inr (branch_new i n wt), u))"
    "lookup path (bc_wt (ctx d1 p)) = Some e \<Longrightarrow> referenced_leaf e \<Longrightarrow> find_object (d_store d1) (e_hash e) = Some ob \<Longrightarrow>
       \<not> left_behind (d_store d1) (e_hash e) \<Longrightarrow>
       \<exists>ob'. find_object (crash_store (d_store d')) (e_hash e) = Some ob' \<and> o_data ob' = o_data ob"
    "stale (d_store d1) h \<Longrightarrow> find_object (crash_store (d_store d')) h = None"
proof -
  let ?s = "crash_store (d_store d')" and ?wt = "bc_wt (ctx d1 p)"
  obtain rp where rp: "checkpoint_locked H t (\<lambda>_ _. (True, ?wt, d_store d1)) label (d_session d) (d_policy d) n (branch_repo d p) = (Inr c, rp)"
    "d_refs d' = rp_refs rp" "d_store d' = rp_store rp" "bc_wt (ctx d' p) = ?wt"
    by (rule branch_checkpoint [OF assms(1) n fl cp])
  have br: "rp_refs (branch_repo d p) = d_refs d" by (simp add: branch_repo_def)
  note cr = checkpoint_crash [OF rp(1) refl ok(1,2), unfolded br, OF ok(3) sh, folded rp(3)]
  show f: "r_files r = om_put n (ref_content c) (r_files (d_refs d))"
    using checkpoint_refs [OF rp(1)] write_ref_effect(2) by (fastforce simp: r_def crash_refs_def rp(2) br)
  then show rn: "ref_of r n = Some c" using ref_of_put [OF f] by simp
  show "bc_wt (ctx d' p) = ?wt" by (rule rp(4))
  show "\<exists>ob'. find_object ?s (e_hash e) = Some ob' \<and> o_data ob' = o_data ob"
    if "lookup path ?wt = Some e" "referenced_leaf e" "find_object (d_store d1) (e_hash e) = Some ob" "\<not> left_behind (d_store d1) (e_hash e)"
    by (rule cr(2) [OF that])
  show "find_object ?s h = None" if "stale (d_store d1) h" by (rule cr(3) [OF that])
  show "\<exists>wt. (\<forall>path. rel_option same_entry (lookup_raw path ?wt) (lookup_raw path wt)) \<and>
      (\<forall>i. rebuild_branch_from_ref n i r u = Some (Inr (branch_new i n wt), u))" if u: "started ?s u"
  proof -
    have io: "s_io u = []" using u by (simp add: started_def)
    obtain rp'' where "rollback_locked (hash_to_hex c) n \<lparr>rp_wt = wt_new, rp_refs = r, rp_store = u\<rparr> = Some (Inr c, True, rp'')"
      "\<forall>p. rel_option same_entry (lookup_raw p ?wt) (lookup_raw p (rp_wt rp''))"
      using cr(4) [OF nl io started_payload [OF u]] by blast
    then show ?thesis using rollback_rebuild io rn by blast
  qed
qed

text \<open>
  C2: a successful checkpoint of a branch survives a crash of the daemon, except what an earlier
  checkpoint left behind (in the store, not durable, and no longer pending: see the checkpoint
  that drops the pending objects of other branches). If none of the tree objects and the commit
  of this checkpoint were left behind, the daemon that starts on what the crash left, with
  any other branches, has the branch again, with every entry that its tree had after the
  checkpoint's flush (only directories have their new hashes), and its ref names the commit.
  Each file content that was in the store at the flush and not left behind is there with its
  data; each one that was unsynced and left behind is lost, although the tree names it. (The tree
  must have no entry, whiteouts included, under a removed directory; the hashes of the trees and
  the commit must not collide; main has a ref that is durable, and there are fewer refs than the
  32-bit ids can number.)
\<close>

theorem restart_restores:
  assumes "daemon_inv d" and n: "branch_by_name n d = Some p" "n = ''main'' \<or> is_valid_branch_name n"
    and fl: "flush_fhs_for_branch H (bc_id (ctx d p)) d = Some (True, d1)"
    and ok: "tree_ok (bc_wt (ctx d1 p))" "trees_apart H (d_store d1) (set (tree_bodies H (bc_wt (ctx d1 p))))"
      "commits_apart H (d_store d1) (set (tree_bodies H (bc_wt (ctx d1 p))))
         (checkpoint_bodies H t label (d_session d) (d_policy d) n (d_refs d) (bc_wt (ctx d1 p)))"
    and sh: "set (s_shards_durable (d_store d1)) \<subseteq> set (s_shards (d_store d1))"
    and nl: "\<forall>h \<in> graph_hashes H t label (d_session d) (d_policy d) n (d_refs d) (bc_wt (ctx d1 p)). \<not> left_behind (d_store d1) h"
    and rf: "om_wf (r_files (d_refs d))" "length (r_files (d_refs d)) < 2 ^ 32 - 2"
    and cp: "checkpoint_branch_by_name H t n label d = Some (Inr c, d')"
    and st: "durable_ref (d_refs d') ''main'' \<noteq> None"
      "initialize H now (daemon_new ts (crash_store (d_store d')) (crash_refs (d_refs d')) sd) = Some (True, d'')"
  shows "ref_of (d_refs d'') n = Some c \<and> daemon_inv d'' \<and>
    (\<exists>q. branch_by_name n d'' = Some q \<and>
       (\<forall>path. rel_option same_entry (lookup_raw path (bc_wt (ctx d' p))) (lookup_raw path (bc_wt (ctx d'' q))))) \<and>
    (\<forall>path e ob. lookup path (bc_wt (ctx d' p)) = Some e \<and> referenced_leaf e \<and> find_object (d_store d1) (e_hash e) = Some ob \<longrightarrow>
       (\<not> left_behind (d_store d1) (e_hash e) \<longrightarrow> (\<exists>ob'. find_object (d_store d'') (e_hash e) = Some ob' \<and> o_data ob' = o_data ob)) \<and>
       (stale (d_store d1) (e_hash e) \<longrightarrow> find_object (d_store d'') (e_hash e) = None))"
proof -
  let ?r = "crash_refs (d_refs d')" and ?s = "crash_store (d_store d')" and ?wt = "bc_wt (ctx d1 p)"
  note cr = crash_rebuild [OF assms(1) n(1) fl ok sh nl cp]
  have io: "s_io ?s = []" by (simp add: crash_store_def)
  have m: "ref_of ?r ''main'' \<noteq> None" using st(1) by (simp add: ref_of_def durable_ref_def crash_refs_def)
  note f = cr(1)
  have w: "om_wf (r_files ?r)" using rf(1) f by (simp add: om_wf_put)
  have l: "Suc (length (r_files ?r)) < 2 ^ 32"
    using rf(2) length_om_put [of n "ref_content c" "r_files (d_refs d)"] f by simp
  have has: "map_of (r_files ?r) n \<noteq> None" using f rf(1) by (simp add: om_simps)
  from restart_loads [OF io m st(2) w l n(2) has, where P = "\<lambda>wt. \<forall>path. rel_option same_entry (lookup_raw path ?wt) (lookup_raw path wt)", OF cr(4)]
  obtain q where q: "branch_by_name n d'' = Some q" "d_refs d'' = ?r" "daemon_inv d''" "find_object (d_store d'') = find_object ?s"
      "\<forall>path. rel_option same_entry (lookup_raw path ?wt) (lookup_raw path (bc_wt (ctx d'' q)))" by blast
  have "ref_of (d_refs d'') n = Some c" using cr(2) q(2) by simp
  moreover have "\<exists>q. branch_by_name n d'' = Some q \<and>
      (\<forall>path. rel_option same_entry (lookup_raw path ?wt) (lookup_raw path (bc_wt (ctx d'' q))))"
    using q(1,5) by blast
  ultimately show ?thesis unfolding cr(3) q(4) using q(3) cr(5,6) by blast
qed

text \<open>A daemon with one file on main, which is not saved yet.\<close>

definition sample_daemon :: daemon where
  "sample_daemon = (daemon_new 1 (rp_store sample_repo) (rp_refs sample_repo) empty_dir)
     \<lparr>d_ctxs := [branch_new 0 ''main'' (rp_wt sample_repo)]\<rparr>"

lemma sample_daemon_ok:
  "daemon_inv sample_daemon" "branch_by_name ''main'' sample_daemon = Some 0" "bc_id (ctx sample_daemon 0) = 0"
  "flush_fhs_for_branch H 0 sample_daemon = Some (True, sample_daemon)" "bc_wt (ctx sample_daemon 0) = rp_wt sample_repo"
  "d_store sample_daemon = rp_store sample_repo" "d_refs sample_daemon = rp_refs sample_repo" "d_fhs sample_daemon = []"
  "branch_repo sample_daemon 0 = sample_repo" "d_session sample_daemon = 1" "d_policy sample_daemon = 1" "bc_name (ctx sample_daemon 0) = ''main''"
proof -
  have "wt_inv (rp_wt sample_repo)"
    using basic_inv [OF step_basic [OF insert_step] wt_inv_fresh(2)] by (simp add: sample_repo_def)
  then show "daemon_inv sample_daemon"
    by (simp add: sample_daemon_def daemon_inv_def names_inv_def names_ok_def daemon_new_def branch_new_def handles_inv_def om_wf_def)
qed (simp_all add: sample_daemon_def branch_by_name_def daemon_new_def ctx_def branch_new_def flush_fhs_for_branch_def
    branch_of_id_def upd_ctx_def branch_repo_def)

section \<open>Unsaved writes\<close>

lemma checkpoint_flushed:
  assumes i: "daemon_inv d" and n: "branch_by_name n d = Some p"
    and cp: "checkpoint_branch_by_name H t n label d = Some (Inr c, d')"
  obtains d1 where "flush_fhs_for_branch H (bc_id (ctx d p)) d = Some (True, d1)"
proof -
  note nm = inv_by_name [OF i n]
  have p: "p < length (d_ctxs d)" by (rule by_name_length [OF i n])
  have cc: "checkpoint_ctx H t label n p d = Some (Inr c, d')"
    using cp n nm(2) by (simp add: checkpoint_branch_by_name_def)
  show thesis
  proof (rule checkpoint_ctx_result [OF i p, of H t label n])
    fix ok fhs wt s res rp
    assume r: "flush_fhs H (bc_id (ctx d p)) (d_fhs d) (bc_wt (ctx d p)) (d_store d) = Some (ok, fhs, wt, s)"
      "checkpoint_locked H t (\<lambda>_ _. (ok, wt, s)) label (d_session d) (d_policy d) n (branch_repo d p) = (res, rp)"
      "checkpoint_ctx H t label n p d = Some (res, after_checkpoint p fhs rp d)"
    have "res = Inr c" using cc r(3) by simp
    then have ok using r(2) by (cases ok) (simp_all add: checkpoint_locked_def Let_def)
    with r(1) nm(1) that show thesis by (simp add: flush_fhs_for_branch_def branch_of_id_def)
  qed
qed

lemma saved_clean: "\<not> fh_dirty (saved_fh H c st)"
  by (auto simp: fh_dirty_def saved_fh_def is_dirty_def wb_clear_def split: option.split)

lemma saved_contents:
  assumes "length c < 2 ^ 64" "\<And>wb. fh_buf st = Some wb \<Longrightarrow> wb_inv wb"
  shows "handle_contents s (saved_fh H c st) = c"
proof -
  have b: "base_bytes s (saved_fh H c st) = c" by (simp add: base_bytes_def saved_fh_def)
  show ?thesis
  proof (cases "fh_buf st")
    case None
    then show ?thesis using b by (simp add: handle_contents_def saved_fh_def)
  next
    case (Some wb)
    have "wb_content c (wb_clear wb) = c"
      using assms(1) by (auto simp: wb_content_def wb_clear_def effective_size_def base_byte_def intro!: nth_equalityI)
    then show ?thesis using b Some by (simp add: handle_contents_def) (simp add: saved_fh_def)
  qed
qed

text \<open>After its flush a checkpoint only adds to the store.\<close>

lemma checkpoint_grows:
  assumes "checkpoint_locked H t (\<lambda>_ _. (True, wt, s)) l si pv b rp = (Inr c, rp')"
  shows "store_le s (rp_store rp')" "cas_ok H s \<Longrightarrow> cas_ok H (rp_store rp')"
proof -
  obtain tree wr lv s2 s3 s4 r5 s5 where st:
    "serialize_working_tree H wt s = ((Inr tree, wr, lv), s2)"
    "make_commit H t l si pv b tree (rp_refs rp) s2 = (Inr c, s3)"
    "sync_commit wt wr c s3 = (None, s4)" "write_ref b c (rp_refs rp) s4 = (True, r5, s5)"
    "rp' = rp\<lparr>rp_wt := wt, rp_refs := r5, rp_store := s5\<rparr>"
    using assms by (elim checkpoint_success) auto
  have q: "store_quiet s4 s5" by (rule write_ref_effect(1) [OF st(4)])
  have e: "rp_store rp' = s5" by (simp add: st(5))
  show "store_le s (rp_store rp')"
    using serialize_grows(1) [OF st(1)] make_commit_effect(1) [OF st(2)] sync_commit_effect(1) [OF st(3)] store_quiet_le [OF q]
    unfolding e by (meson store_le_trans)
  show "cas_ok H (rp_store rp')" if "cas_ok H s"
  proof -
    have "cas_ok H s4" using that serialize_grows(2) [OF st(1)] make_commit_effect(2) [OF st(2)] sync_commit_effect(2) [OF st(3)] by blast
    then show ?thesis using q cas_ok_same [of s5 s4 H] by (simp add: e store_quiet_def)
  qed
qed

text \<open>
  C3: a checkpoint saves the unsaved writes of the branch's open files, when no call fails and
  each handle's base blob is in the store. Each open has a buffer of its own, so several handles
  can hold unsaved writes to one path: the tree gets, at each path, a regular file with the
  contents that a reader of the last flushed of them saw (its base with its own buffered
  writes over it), and the old mode or 0644; the writes of the others are not in the tree. Each
  flushed handle is clean, still shows its own contents, and their blob is in the store. Paths
  without unsaved writes are as before, and all objects keep the names of their contents.
\<close>

theorem checkpoint_saves_writes:
  assumes i: "daemon_inv d" and n: "branch_by_name n d = Some p"
    and cp: "checkpoint_branch_by_name H t n label d = Some (Inr c, d')" and io: "s_io (d_store d) = []"
    and base: "\<forall>x \<in> set (d_fhs d). needs_flush (bc_id (ctx d p)) (snd x) \<longrightarrow> base_stored (d_store d) (snd x)"
  shows "(\<forall>path. lookup_raw path (bc_wt (ctx d' p)) =
      (case last_dirty (bc_id (ctx d p)) path (d_fhs d) of
         None \<Rightarrow> lookup_raw path (bc_wt (ctx d p))
       | Some st \<Rightarrow> Some (saved_entry H (handle_contents (d_store d) st) (lookup path (bc_wt (ctx d p)))))) \<and>
    (\<forall>fh st. get_fh fh d = Some st \<and> needs_flush (bc_id (ctx d p)) st \<longrightarrow>
      (let contents = handle_contents (d_store d) st in
       find_object (d_store d') (saved_blob H contents) \<noteq> None \<and>
       (\<exists>st'. get_fh fh d' = Some st' \<and> \<not> fh_dirty st' \<and> handle_contents (d_store d') st' = contents))) \<and>
    (cas_ok H (d_store d) \<longrightarrow> cas_ok H (d_store d'))"
proof -
  let ?b = "bc_id (ctx d p)" and ?s = "d_store d"
  obtain d1 where fl: "flush_fhs_for_branch H ?b d = Some (True, d1)" by (rule checkpoint_flushed [OF i n cp])
  obtain rp where rp: "checkpoint_locked H t (\<lambda>_ _. (True, bc_wt (ctx d1 p), d_store d1)) label (d_session d) (d_policy d) n (branch_repo d p) = (Inr c, rp)"
    "d_store d' = rp_store rp" "bc_wt (ctx d' p) = bc_wt (ctx d1 p)" "d_fhs d' = d_fhs d1"
    by (rule branch_checkpoint [OF i n fl cp])
  note grow = checkpoint_grows [OF rp(1), folded rp(2)]
  have p: "p < length (d_ctxs d)" "map_of (d_branches d) ?b = Some p"
    using by_name_length [OF i n] inv_by_name(1) [OF i n] by auto
  obtain fhs wt s1 where f: "flush_fhs H ?b (d_fhs d) (bc_wt (ctx d p)) ?s = Some (True, fhs, wt, s1)"
    and d1: "d1 = upd_ctx p (\<lambda>c. c\<lparr>bc_wt := wt\<rparr>) (d\<lparr>d_fhs := fhs, d_store := s1\<rparr>)"
    using fl p(2) by (auto simp: flush_fhs_for_branch_def branch_of_id_def split: option.splits)
  have e: "bc_wt (ctx d1 p) = wt" "d_store d1 = s1" "d_fhs d1 = fhs" using p(1) by (simp_all add: d1 ctx_upd)
  have ok: "\<forall>x \<in> set (d_fhs d). fh_ok (snd x)" "distinct (map fst (d_fhs d))"
    using inv_handles [OF i] by (simp_all add: handles_inv_def)
  note sv = flush_fhs_saves [OF f ok(1) io base]
  have each: "let contents = handle_contents ?s st in
       find_object (d_store d') (saved_blob H contents) \<noteq> None \<and>
       (\<exists>st'. get_fh fh d' = Some st' \<and> \<not> fh_dirty st' \<and> handle_contents (d_store d') st' = contents)"
    if g: "get_fh fh d = Some st" "needs_flush ?b st" for fh st
  proof -
    let ?c = "handle_contents ?s st"
    have mem: "(fh, st) \<in> set (d_fhs d)" using g(1) by (simp add: get_fh_def map_of_SomeD)
    have ok1: "fh_ok st" using ok(1) mem by force
    have "find_object s1 (saved_blob H ?c) \<noteq> None" using sv mem g(2) by force
    then have fnd: "find_object (d_store d') (saved_blob H ?c) \<noteq> None"
      using grow(1) e(2) store_leD [of s1 "d_store d'" "saved_blob H ?c"] by fastforce
    have "fhs = map (\<lambda>x. (fst x, if needs_flush ?b (snd x) then saved_fh H (handle_contents ?s (snd x)) (snd x) else snd x)) (d_fhs d)"
      using sv by blast
    then have "map_of fhs fh = Some (saved_fh H ?c st)"
      using mem ok(2) g(2) by (intro map_of_is_SomeI) (force simp: comp_def)+
    then have get: "get_fh fh d' = Some (saved_fh H ?c st)" by (simp add: get_fh_def rp(4) e(3))
    have "length ?c < 2 ^ 64"
      using base_bytes_short [OF ok1] ok1 wb_content_short by (auto simp: handle_contents_def fh_ok_def split: option.split)
    then have "handle_contents (d_store d') (saved_fh H ?c st) = ?c" using ok1 by (intro saved_contents) (auto simp: fh_ok_def)
    with get fnd show ?thesis by (simp add: Let_def saved_clean)
  qed
  have "cas_ok H ?s \<longrightarrow> cas_ok H (d_store d')" using sv grow(2) e(2) by blast
  moreover have "lookup_raw path (bc_wt (ctx d' p)) =
      (case last_dirty ?b path (d_fhs d) of None \<Rightarrow> lookup_raw path (bc_wt (ctx d p))
       | Some st \<Rightarrow> Some (saved_entry H (handle_contents ?s st) (lookup path (bc_wt (ctx d p)))))" for path
    using sv by (simp add: rp(3) e(1) flushed_entry_def)
  ultimately show ?thesis using each by blast
qed

text \<open>A daemon with an open file on main that has two unsaved bytes.\<close>

definition dirty_fh :: fh_state where
  "dirty_fh = \<lparr>fh_path = ''/g'', fh_branch = 0, fh_pinned = 0, fh_base_blob = ZERO_HASH, fh_base_size = 0, fh_cache = [],
     fh_loaded = True, fh_buf = Some ((wb_new ZERO_HASH 0)\<lparr>wb_overlay := [(0, [104, 105])], wb_dirty_bytes := 2\<rparr>),
     fh_stale = False, fh_view = bv_empty, fh_fd_eligible = False\<rparr>"

definition dirty_daemon :: daemon where
  "dirty_daemon = sample_daemon\<lparr>d_fhs := [(1, dirty_fh)]\<rparr>"

lemma dirty_fh_ok: "fh_ok dirty_fh" "needs_flush 0 dirty_fh" "handle_contents s dirty_fh = [104, 105]"
  "fh_path dirty_fh = ''/g''" "base_stored s dirty_fh"
  by (simp_all add: dirty_fh_def fh_ok_def wb_inv_def wb_new_def ov_size_def needs_flush_def fh_dirty_def is_dirty_def
      handle_contents_def base_bytes_def wb_content_def effective_size_def ov_end_def base_stored_def upt_rec)

lemma dirty_daemon_ok:
  "daemon_inv dirty_daemon" "branch_by_name ''main'' dirty_daemon = Some 0" "bc_id (ctx dirty_daemon 0) = 0"
  "bc_wt (ctx dirty_daemon 0) = rp_wt sample_repo" "d_store dirty_daemon = rp_store sample_repo" "d_refs dirty_daemon = rp_refs sample_repo"
  "d_fhs dirty_daemon = [(1, dirty_fh)]" "d_session dirty_daemon = 1" "d_policy dirty_daemon = 1" "bc_name (ctx dirty_daemon 0) = ''main''"
proof -
  show "daemon_inv dirty_daemon"
    unfolding dirty_daemon_def by (rule inv_fhs [OF sample_daemon_ok(1)]) (simp add: handles_inv_def dirty_fh_ok)
  have b: "branch_by_name ''main'' dirty_daemon = branch_by_name ''main'' sample_daemon"
    by (simp add: dirty_daemon_def branch_by_name_def cong: option.case_cong)
  show "branch_by_name ''main'' dirty_daemon = Some 0" unfolding b by (rule sample_daemon_ok)
qed (simp_all add: dirty_daemon_def sample_daemon_ok)

text \<open>A checkpoint of a daemon whose store and refs are those of the sample repository.\<close>

lemma flushed_checkpoint:
  assumes d: "branch_by_name ''main'' d = Some 0" "bc_id (ctx d 0) = 0" "bc_name (ctx d 0) = ''main''"
      "d_session d = 1" "d_policy d = 1" "branch_repo d 0 = sample_repo"
    and f: "flush_fhs H 0 (d_fhs d) (rp_wt sample_repo) (rp_store sample_repo) = Some (True, fhs, wt, s1)" "s_io s1 = []" "pend_ok s1"
    and nz: "\<And>b. object_hash H ''commit'' b \<noteq> ZERO_HASH" "\<And>b. tree_hash H b \<noteq> ZERO_HASH"
  obtains c rp where "checkpoint_branch_by_name H 9 ''main'' ''v1'' d = Some (Inr c, after_checkpoint 0 fhs rp d)"
    "checkpoint_locked H 9 (\<lambda>_ _. (True, wt, s1)) ''v1'' 1 1 ''main'' sample_repo = (Inr c, rp)"
proof -
  let ?fl = "\<lambda>_ _. (True, wt, s1)"
  obtain c rp where r: "checkpoint_locked H 9 ?fl ''v1'' 1 1 ''main'' sample_repo = (Inr c, rp)"
    using checkpoint_ok [where flush = ?fl and rp = sample_repo and H = H and t = 9 and l = "''v1''" and si = 1
      and pv = 1 and b = "''main''", OF refl f(2,3)] nz by auto
  have e: "bc_wt (ctx d 0) = rp_wt sample_repo" "d_store d = rp_store sample_repo" "d_refs d = rp_refs sample_repo"
    unfolding d(6) [symmetric] by (simp_all add: branch_repo_def)
  have rp: "\<lparr>rp_wt = rp_wt sample_repo, rp_refs = rp_refs sample_repo, rp_store = rp_store sample_repo\<rparr> = sample_repo" by simp
  have "checkpoint_ctx H 9 ''v1'' ''main'' 0 d = Some (Inr c, after_checkpoint 0 fhs rp d)"
    by (simp only: checkpoint_ctx_def Let_def d(2-5) e f(1) rp r option.case prod.case after_checkpoint_def)
  then have "checkpoint_branch_by_name H 9 ''main'' ''v1'' d = Some (Inr c, after_checkpoint 0 fhs rp d)"
    by (simp only: checkpoint_branch_by_name_def d option.case)
  from this r show thesis by (rule that)
qed

lemma dirty_branch_repo: "branch_repo dirty_daemon 0 = sample_repo"
  by (simp add: branch_repo_def dirty_daemon_ok)

text \<open>Two handles on one file, each with unsaved bytes, and a hash that tells lengths apart.\<close>

definition len_hash :: "bytes \<Rightarrow> hash" where
  "len_hash b = of_nat (length b mod 1000) + 1"

lemma len_hash_nz: "len_hash b \<noteq> ZERO_HASH"
proof -
  have "Suc (length b mod 1000) < 2 ^ 256" by (rule order.strict_trans1 [of _ 1000]) (simp_all add: Suc_leI)
  then have "unat (of_nat (Suc (length b mod 1000)) :: hash) = Suc (length b mod 1000)" by (intro unat_of_nat_eq) simp
  then have "(of_nat (Suc (length b mod 1000)) :: hash) \<noteq> 0" by (metis nat.distinct(1) unat_0)
  then show ?thesis by (simp add: len_hash_def add.commute)
qed

definition twin_fh :: fh_state where
  "twin_fh = dirty_fh\<lparr>fh_buf := Some ((wb_new ZERO_HASH 0)\<lparr>wb_overlay := [(0, [7])], wb_dirty_bytes := 1\<rparr>)\<rparr>"

definition twin_daemon :: daemon where
  "twin_daemon = sample_daemon\<lparr>d_fhs := [(1, dirty_fh), (2, twin_fh)]\<rparr>"

lemma twin_fh_ok: "fh_ok twin_fh" "needs_flush 0 twin_fh" "handle_contents s twin_fh = [7]"
  "fh_path twin_fh = ''/g''" "base_stored s twin_fh"
  by (simp_all add: twin_fh_def dirty_fh_def fh_ok_def wb_inv_def wb_new_def ov_size_def needs_flush_def fh_dirty_def is_dirty_def
      handle_contents_def base_bytes_def wb_content_def effective_size_def ov_end_def base_stored_def upt_rec)

lemma twin_daemon_ok:
  "daemon_inv twin_daemon" "branch_by_name ''main'' twin_daemon = Some 0" "bc_id (ctx twin_daemon 0) = 0"
  "branch_repo twin_daemon 0 = sample_repo" "d_fhs twin_daemon = [(1, dirty_fh), (2, twin_fh)]"
  "d_session twin_daemon = 1" "d_policy twin_daemon = 1" "bc_name (ctx twin_daemon 0) = ''main''" "d_store twin_daemon = rp_store sample_repo"
proof -
  show "daemon_inv twin_daemon"
    unfolding twin_daemon_def by (rule inv_fhs [OF sample_daemon_ok(1)]) (simp add: handles_inv_def dirty_fh_ok twin_fh_ok)
  have b: "branch_by_name ''main'' twin_daemon = branch_by_name ''main'' sample_daemon"
    by (simp add: twin_daemon_def branch_by_name_def cong: option.case_cong)
  show "branch_by_name ''main'' twin_daemon = Some 0" unfolding b by (rule sample_daemon_ok)
  show "branch_repo twin_daemon 0 = sample_repo"
    using sample_daemon_ok(9) by (simp add: twin_daemon_def branch_repo_def)
qed (simp_all add: twin_daemon_def sample_daemon_ok)

lemma flush_one:
  assumes "fh_buf st = Some wb" "fh_loaded st" "wb_materialize (fh_cache st) wb = Some data" "s_io s = []" "pend_ok s"
    "object_hash H ''blob'' (blob_body data) \<noteq> ZERO_HASH"
  obtains st' wt' s' where "flush_fh H st wt s = Some (True, st', wt', s')" "s_io s' = []" "pend_ok s'"
proof -
  obtain h s1 where w: "write_blob H data s = (h, s1)" by fastforce
  note wo = write_object_ok [OF assms(4), of H "''blob''" "blob_body data"]
  have h: "h \<noteq> ZERO_HASH" "s_io s1 = []" "pend_ok s1"
    using wo w assms(5,6) write_object_pend [OF w [unfolded write_blob_def]] by (simp_all add: write_blob_def)
  have "ensure_base_cache st s = (st, s)" using assms(2) by (simp add: ensure_base_cache_def)
  with assms(1,3) w h show thesis by (intro that) (auto simp: flush_fh_def Let_def)
qed

theorem checkpoint_saves_writes_witness:
  "\<exists>c d' e st'. checkpoint_branch_by_name len_hash 9 ''main'' ''v1'' twin_daemon = Some (Inr c, d') \<and>
     lookup_raw ''/g'' (bc_wt (ctx d' 0)) = Some e \<and> e_hash e = saved_blob len_hash [7] \<and>
     get_fh 1 d' = Some st' \<and> \<not> fh_dirty st' \<and> handle_contents (d_store d') st' = [104, 105] \<and>
     e_hash e \<noteq> saved_blob len_hash [104, 105]"
proof -
  note nz = len_hash_nz
  have onz: "object_hash len_hash tag b \<noteq> ZERO_HASH" for tag b by (simp add: object_hash_def nz)
  have onz2: "tree_hash len_hash b \<noteq> ZERO_HASH" for b by (simp add: tree_hash_def onz)
  have wb: "fh_buf dirty_fh = Some ((wb_new ZERO_HASH 0)\<lparr>wb_overlay := [(0, [104, 105])], wb_dirty_bytes := 2\<rparr>)" "fh_loaded dirty_fh"
    "wb_materialize (fh_cache dirty_fh) ((wb_new ZERO_HASH 0)\<lparr>wb_overlay := [(0, [104, 105])], wb_dirty_bytes := 2\<rparr>) = Some [104, 105]"
    by (simp_all add: dirty_fh_def wb_new_def wb_materialize_def effective_size_def ov_end_def memcpy_at_def)
  have tb: "fh_buf twin_fh = Some ((wb_new ZERO_HASH 0)\<lparr>wb_overlay := [(0, [7])], wb_dirty_bytes := 1\<rparr>)" "fh_loaded twin_fh"
    "wb_materialize (fh_cache twin_fh) ((wb_new ZERO_HASH 0)\<lparr>wb_overlay := [(0, [7])], wb_dirty_bytes := 1\<rparr>) = Some [7]"
    by (simp_all add: twin_fh_def dirty_fh_def wb_new_def wb_materialize_def effective_size_def ov_end_def memcpy_at_def)
  obtain st1 wt1 s1 where 1: "flush_fh len_hash dirty_fh (rp_wt sample_repo) (rp_store sample_repo) = Some (True, st1, wt1, s1)" "s_io s1 = []" "pend_ok s1"
    by (rule flush_one [OF wb sample_repo_ok(7,6) onz])
  obtain st2 wt2 s2 where 2: "flush_fh len_hash twin_fh wt1 s1 = Some (True, st2, wt2, s2)" "s_io s2 = []" "pend_ok s2"
    by (rule flush_one [OF tb 1(2,3) onz])
  have f: "flush_fhs len_hash 0 (d_fhs twin_daemon) (rp_wt sample_repo) (rp_store sample_repo) = Some (True, [(1, st1), (2, st2)], wt2, s2)"
    using 1(1) 2(1) by (simp add: twin_daemon_ok dirty_fh_ok twin_fh_ok)
  obtain c rp where cp: "checkpoint_branch_by_name len_hash 9 ''main'' ''v1'' twin_daemon = Some (Inr c, after_checkpoint 0 [(1, st1), (2, st2)] rp twin_daemon)"
    by (rule flushed_checkpoint [OF twin_daemon_ok(2,3,8,6,7,4) f 2(2,3) onz onz2])
  have io: "s_io (d_store twin_daemon) = []" "\<forall>x \<in> set (d_fhs twin_daemon). needs_flush (bc_id (ctx twin_daemon 0)) (snd x) \<longrightarrow> base_stored (d_store twin_daemon) (snd x)"
    by (simp_all add: twin_daemon_ok sample_repo_ok dirty_fh_ok twin_fh_ok)
  note saved = checkpoint_saves_writes [OF twin_daemon_ok(1,2) cp io]
  have l: "last_dirty 0 ''/g'' [(1, dirty_fh), (2, twin_fh)] = Some twin_fh" by (simp add: dirty_fh_ok twin_fh_ok)
  note tree = conjunct1 [OF saved, rule_format, of "''/g''", unfolded twin_daemon_ok l option.case twin_fh_ok(3)]
  have g: "get_fh 1 twin_daemon = Some dirty_fh" by (simp add: get_fh_def twin_daemon_ok)
  have n: "needs_flush (bc_id (ctx twin_daemon 0)) dirty_fh" by (simp add: twin_daemon_ok dirty_fh_ok)
  note h = conjunct1 [OF conjunct2 [OF saved], rule_format, OF conjI [OF g n], unfolded Let_def dirty_fh_ok(3)]
  have ne: "saved_blob len_hash [7] \<noteq> saved_blob len_hash [104, 105]"
    by (simp add: saved_blob_def object_hash_def len_hash_def blob_body_def bytes_of_def)
  show ?thesis using cp tree h ne by (auto simp: saved_entry_def)
qed

section \<open>A crash after the checkpoint of unsaved bytes\<close>

lemma dirty_tree_ok:
  defines "wt \<equiv> insert_entry ''/g'' \<lparr>e_kind = Blob, e_hash = 99, e_mode = 33188\<rparr> (rp_wt sample_repo)"
  shows "tree_ok wt" "trees_apart tag_hash full_store (set (tree_bodies tag_hash wt))"
    "commits_apart tag_hash full_store (set (tree_bodies tag_hash wt)) Y"
    "lookup ''/g'' wt = Some \<lparr>e_kind = Blob, e_hash = 99, e_mode = 33188\<rparr>"
proof -
  let ?e = "\<lparr>e_kind = Blob, e_hash = 7, e_mode = 420\<rparr>" and ?g = "\<lparr>e_kind = Blob, e_hash = 99, e_mode = 33188\<rparr>"
  have ml: "merged_list wt = [(''/f'', ?e), (''/g'', ?g)]"
    by (simp add: wt_def sample_repo_def merged_list_def insert_entry_def wt_new_def)
  have sp: "split_path ''/f'' = (''/'', ''f'')" "split_path ''/g'' = (''/'', ''g'')" by (simp_all add: split_path_def Let_def)
  show "tree_ok wt"
    by (simp add: wt_def [symmetric] tree_ok_def ml path_ok_def sp join_path_def dir_ok_def name_ok_def kind_ok_def
        kind_of_byte_def byte_of_kind_def) (simp add: wt_def sample_repo_def)
  have sc: "scan_dirs wt = ([(''/'', [(''f'', ?e), (''g'', ?g)])], [7, 99], [''/''])"
    by (simp add: scan_dirs_def ml live_list_def scan_entry_def sp is_leaf_def dir_children_def add_empty_dir_def)
  show "trees_apart tag_hash full_store (set (tree_bodies tag_hash wt))"
    by (simp add: trees_apart_def tree_bodies_def sc Let_def no_collision_def full_store_ok)
  show "commits_apart tag_hash full_store (set (tree_bodies tag_hash wt)) Y"
    by (simp add: commits_apart_def tree_hash_def no_collision_def full_store_ok)
  show "lookup ''/g'' wt = Some ?g"
    by (simp add: wt_def lookup_def lookup_raw_view insert_entry_def wt_raw_put)
qed

definition dirty_tree :: working_tree where
  "dirty_tree = insert_entry ''/g'' \<lparr>e_kind = Blob, e_hash = 99, e_mode = 33188\<rparr> (rp_wt sample_repo)"

lemma dirty_flushed:
  obtains fhs d1 where "flush_fhs tag_hash 0 (d_fhs dirty_daemon) (rp_wt sample_repo) (rp_store sample_repo) = Some (True, fhs, dirty_tree, full_store)"
    "flush_fhs_for_branch tag_hash 0 dirty_daemon = Some (True, d1)" "bc_wt (ctx d1 0) = dirty_tree" "d_store d1 = full_store"
proof -
  have s: "rp_store sample_repo = new_store ''/s'' 0" by (simp add: sample_repo_def)
  obtain h where w: "write_blob tag_hash [104, 105] (rp_store sample_repo) = (h, full_store)"
    by (metis full_store_def s prod.collapse)
  have h: "h = 99"
    using write_object_ok(1) [OF sample_repo_ok(7), of tag_hash "''blob''" "blob_body [104, 105]"] w
    by (simp add: write_blob_def object_hash_def tag_hash_def bytes_of_def byte_of_char_def)
  obtain wb where wb: "fh_buf dirty_fh = Some wb" "wb_materialize [] wb = Some [104, 105]"
    by (simp add: dirty_fh_def wb_new_def wb_materialize_def effective_size_def ov_end_def memcpy_at_def)
  have e: "ensure_base_cache dirty_fh s = (dirty_fh, s)" "fh_cache dirty_fh = []" for s
    by (simp_all add: ensure_base_cache_def dirty_fh_def)
  have l: "lookup ''/g'' (rp_wt sample_repo) = None"
    by (simp add: sample_repo_def lookup_def lookup_raw_view insert_entry_def wt_raw_put wt_raw_def wt_new_def)
  have "\<exists>st. flush_fh tag_hash dirty_fh (rp_wt sample_repo) (rp_store sample_repo) = Some (True, st, dirty_tree, full_store)"
    using wb e w h l by (simp add: flush_fh_def Let_def dirty_fh_ok(4) dirty_tree_def)
  then obtain st where "flush_fh tag_hash dirty_fh (rp_wt sample_repo) (rp_store sample_repo) = Some (True, st, dirty_tree, full_store)" by blast
  then have f: "flush_fhs tag_hash 0 (d_fhs dirty_daemon) (rp_wt sample_repo) (rp_store sample_repo) = Some (True, [(1, st)], dirty_tree, full_store)"
    by (simp add: dirty_daemon_ok dirty_fh_ok)
  have b: "branch_of_id 0 dirty_daemon = Some 0" "0 < length (d_ctxs dirty_daemon)"
    by (simp_all add: dirty_daemon_def sample_daemon_def branch_of_id_def daemon_new_def)
  let ?d1 = "upd_ctx 0 (\<lambda>c. c\<lparr>bc_wt := dirty_tree\<rparr>) (dirty_daemon\<lparr>d_fhs := [(1, st)], d_store := full_store\<rparr>)"
  have "flush_fhs_for_branch tag_hash 0 dirty_daemon = Some (True, ?d1)"
    by (simp add: flush_fhs_for_branch_def b dirty_daemon_ok(4,5) f)
  moreover have "bc_wt (ctx ?d1 0) = dirty_tree" "d_store ?d1 = full_store" using b(2) by (simp_all add: ctx_upd)
  ultimately show thesis by (rule that [OF f])
qed

theorem restart_restores_witness:
  "\<exists>c d' d'' q ob. checkpoint_branch_by_name tag_hash 9 ''main'' ''v1'' dirty_daemon = Some (Inr c, d') \<and>
     initialize tag_hash 10 (daemon_new 2 (crash_store (d_store d')) (crash_refs (d_refs d')) empty_dir) = Some (True, d'') \<and>
     branch_by_name ''main'' d'' = Some q \<and>
     rel_option same_entry (lookup_raw ''/g'' dirty_tree) (lookup_raw ''/g'' (bc_wt (ctx d'' q))) \<and>
     find_object (d_store d'') 99 = Some ob \<and> o_data ob = bytes_of ''blob'' @ blob_body [104, 105]"
proof -
  obtain fhs d1 where f: "flush_fhs tag_hash 0 (d_fhs dirty_daemon) (rp_wt sample_repo) (rp_store sample_repo) = Some (True, fhs, dirty_tree, full_store)"
    "flush_fhs_for_branch tag_hash 0 dirty_daemon = Some (True, d1)" "bc_wt (ctx d1 0) = dirty_tree" "d_store d1 = full_store"
    by (rule dirty_flushed)
  have nz: "object_hash tag_hash ''commit'' b \<noteq> ZERO_HASH" "tree_hash tag_hash b \<noteq> ZERO_HASH" for b by simp_all
  obtain c rp where cp: "checkpoint_branch_by_name tag_hash 9 ''main'' ''v1'' dirty_daemon = Some (Inr c, after_checkpoint 0 fhs rp dirty_daemon)"
    by (rule flushed_checkpoint [OF dirty_daemon_ok(2,3,10,8,9) dirty_branch_repo f(1) full_store_ok(1,2) nz])
  let ?d' = "after_checkpoint 0 fhs rp dirty_daemon"
  let ?s = "crash_store (d_store ?d')" and ?r = "crash_refs (d_refs ?d')"
  note fl = f(2) [folded dirty_daemon_ok(3)]
  note tr = dirty_tree_ok [folded dirty_tree_def, folded f(3,4)]
  have sh: "set (s_shards_durable (d_store d1)) \<subseteq> set (s_shards (d_store d1))" "\<forall>h \<in> X. \<not> left_behind (d_store d1) h" for X
    using full_store_ok(3) dur_inv_protected by (simp_all add: f(4) dur_inv_def)
  note cr = crash_rebuild [OF dirty_daemon_ok(1,2) fl tr(1-3) sh cp]
  have files: "r_files ?r = [(''main'', ref_content c)]" using cr(1) by (simp add: dirty_daemon_ok sample_repo_def)
  have rn: "ref_of ?r ''main'' = Some c" by (rule cr(2))
  have io: "s_io ?s = []" by (simp add: crash_store_def)
  obtain t where t: "started ?s t" and i: "initialize tag_hash 10 (daemon_new 2 ?s ?r empty_dir) =
    (let d = (daemon_new 2 ?s ?r empty_dir)\<lparr>d_store := t\<rparr> in
     case (if ref_of ?r ''main'' = None then Some (init_commit tag_hash 10 d)
           else map_option (\<lambda>(e, d). (e = None, d)) (rebuild_main_from_ref d)) of
       None \<Rightarrow> None
     | Some (False, d) \<Rightarrow> Some (False, d)
     | Some (True, d) \<Rightarrow> map_option (\<lambda>d. (True, d)) (load_persisted_branches d))"
    by (rule initialize_quiet [OF io])
  obtain wt where wt: "rebuild_branch_from_ref ''main'' 0 ?r t = Some (Inr (branch_new 0 ''main'' wt), t)" using cr(4) [OF t] by blast
  have it: "s_io t = []" using t by (simp add: started_def)
  have "rebuild_main_from_ref ((daemon_new 2 ?s ?r empty_dir)\<lparr>d_store := t\<rparr>) =
      Some (None, upd_ctx 0 (\<lambda>m. m\<lparr>bc_wt := wt\<rparr>) ((daemon_new 2 ?s ?r empty_dir)\<lparr>d_store := t\<rparr>))" (is "_ = Some (None, ?d)")
    using wt by (simp add: rebuild_main_from_ref_def daemon_new_def branch_new_def)
  moreover have "load_persisted_branches ?d = Some ?d"
    using list_refs_ok [OF it, of ?r] files by (simp add: load_persisted_branches_def daemon_new_def upd_ctx_def)
  ultimately have st: "initialize tag_hash 10 (daemon_new 2 ?s ?r empty_dir) = Some (True, ?d)"
    using rn by (simp add: i Let_def)
  have rf: "om_wf (r_files (d_refs dirty_daemon))" "length (r_files (d_refs dirty_daemon)) < 2 ^ 32 - 2"
    by (simp_all add: dirty_daemon_ok sample_repo_def om_wf_def)
  have m: "durable_ref (d_refs ?d') ''main'' \<noteq> None" using rn by (simp add: ref_of_def durable_ref_def crash_refs_def)
  note rr = restart_restores [OF dirty_daemon_ok(1,2) disjI1 [OF refl] fl tr(1-3) sh rf cp m st]
  then obtain q where q: "branch_by_name ''main'' ?d = Some q"
    "rel_option same_entry (lookup_raw ''/g'' (bc_wt (ctx ?d' 0))) (lookup_raw ''/g'' (bc_wt (ctx ?d q)))" by blast
  have same: "rel_option same_entry (lookup_raw ''/g'' dirty_tree) (lookup_raw ''/g'' (bc_wt (ctx ?d q)))"
    using q(2) by (simp only: cr(3) f(3))
  obtain ob where ob: "find_object full_store 99 = Some ob" "o_data ob = bytes_of ''blob'' @ blob_body [104, 105]"
    using full_store_ok(6) by auto
  have "lookup ''/g'' (bc_wt (ctx ?d' 0)) = Some \<lparr>e_kind = Blob, e_hash = 99, e_mode = 33188\<rparr>"
    using tr(4) by (simp only: cr(3) f(3))
  with conjunct2 [OF conjunct2 [OF conjunct2 [OF rr]], rule_format, of "''/g''" "\<lparr>e_kind = Blob, e_hash = 99, e_mode = 33188\<rparr>" ob]
  have "\<exists>ob'. find_object (d_store ?d) 99 = Some ob' \<and> o_data ob' = o_data ob"
    using ob(1) dur_inv_protected [OF full_store_ok(3)] by (simp add: referenced_leaf_def f(4))
  then obtain ob' where "find_object (d_store ?d) 99 = Some ob'" "o_data ob' = bytes_of ''blob'' @ blob_body [104, 105]"
    using ob(2) by auto
  with cp st q(1) same show ?thesis by blast
qed

text \<open>
  C40: a flush loses the contents of a file whose base blob cannot be read. The failed read is
  not looked at, so the unsaved writes are put over an empty base: the flush reports success,
  the tree gets a blob without the base's bytes, and the handle from then on shows it.
\<close>

theorem flush_loses_base:
  assumes "fh_ok st" "fh_buf st = Some wb" "\<not> fh_loaded st" "fh_base_blob st \<noteq> ZERO_HASH" "fh_cache st = []"
    and "read_blob (fh_base_blob st) s = (None, s1)" "fst (write_blob H (wb_content [] wb) s1) \<noteq> ZERO_HASH"
  shows "\<exists>st' wt' s'. flush_fh H st wt s = Some (True, st', wt', s') \<and>
    lookup (fh_path st) wt' = Some (saved_entry H (wb_content [] wb) (lookup (fh_path st) wt)) \<and>
    handle_contents s' st' = wb_content [] wb \<and> \<not> fh_dirty st'"
proof -
  let ?c = "wb_content [] wb"
  have wb: "wb_inv wb" using assms(1,2) by (simp add: fh_ok_def)
  have len: "length ?c < 2 ^ 64" using wb_content_short [OF wb, of "[]"] by simp
  have m: "wb_materialize [] wb = Some ?c" using wb_materialize_content [OF wb, of "[]"] by simp
  obtain h s2 where w: "write_blob H ?c s1 = (h, s2)" by fastforce
  have h: "h = saved_blob H ?c" "h \<noteq> ZERO_HASH"
    using w assms(7) write_object_hash [OF w [unfolded write_blob_def]] by (auto simp: saved_blob_def)
  have e: "ensure_base_cache st s = (st\<lparr>fh_cache := [], fh_loaded := True\<rparr>, s1)"
    using assms(3-6) by (simp add: ensure_base_cache_def)
  let ?e = "saved_entry H ?c (lookup (fh_path st) wt)" and ?st = "saved_fh H ?c st"
  have f: "flush_fh H st wt s = Some (True, ?st, insert_entry (fh_path st) ?e wt, s2)"
    using assms(2) e m w h by (simp add: flush_fh_def Let_def saved_fh_def saved_entry_def)
  have "lookup_raw (fh_path st) (insert_entry (fh_path st) ?e wt) = Some ?e"
    by (simp add: lookup_raw_view insert_entry_def wt_raw_put)
  moreover have "handle_contents s2 ?st = ?c" using len wb assms(2) by (intro saved_contents) simp_all
  ultimately show ?thesis using f lookup_saved saved_clean by blast
qed

text \<open>A handle on a file of which one byte was written, and a store that fails to open its blob.\<close>

definition lost_fh :: fh_state where
  "lost_fh = dirty_fh\<lparr>fh_base_blob := 5, fh_base_size := 8, fh_loaded := False\<rparr>"

definition io_fault :: fault where
  "io_fault = Fault (EOther 5)  ''Input/output error''"

definition failing_store :: store where
  "failing_store = (new_store ''/s'' 0)\<lparr>s_io := [Some io_fault]\<rparr>"

theorem flush_loses_base_witness:
  "\<exists>st' wt' s'. flush_fh tag_hash lost_fh wt_new failing_store = Some (True, st', wt', s') \<and>
    handle_contents s' st' = [104, 105]"
proof -
  have s: "fh_ok lost_fh" "\<not> fh_loaded lost_fh" "fh_base_blob lost_fh \<noteq> ZERO_HASH" "fh_cache lost_fh = []"
    using dirty_fh_ok(1) by (simp_all add: lost_fh_def fh_ok_def) (simp add: dirty_fh_def)
  obtain wb where wb: "fh_buf lost_fh = Some wb" "wb_content [] wb = [104, 105]"
    by (simp add: lost_fh_def dirty_fh_def wb_new_def wb_content_def effective_size_def ov_end_def upt_rec)
  have r: "read_blob (fh_base_blob lost_fh) failing_store = (None, new_store ''/s'' 0)"
    by (simp add: lost_fh_def failing_store_def read_blob_def read_object_def next_io_def new_store_def)
  have w: "fst (write_blob tag_hash (wb_content [] wb) (new_store ''/s'' 0)) \<noteq> ZERO_HASH"
    using write_object_ok(1) [of "new_store ''/s'' 0" tag_hash "''blob''"]
    by (simp add: write_blob_def object_hash_def tag_hash_def bytes_of_def byte_of_char_def)
  show ?thesis using flush_loses_base [OF s(1) wb(1) s(2-4) r w, of wt_new] wb(2) by auto
qed

section \<open>Starting on a store that has a main branch\<close>

text \<open>
  A start that fails to read main's ref, by a failed call or because the ref's file is
  damaged, takes the store for a fresh one: it goes on as after success, with an empty main
  branch, and replaces the ref of the old main branch by a commit of the empty tree that has no
  parents, so the old branch's commits are garbage for the next collection.
\<close>

theorem initialize_replaces_main:
  assumes "init_layout s = (True, s1)" "read_ref r ''main'' (cleanup_tmp s1) = (None, s2)"
    and "s_io s2 = []" "pend_ok s2"
    and "\<And>x. tree_hash H x \<noteq> ZERO_HASH" "\<And>x. object_hash H ''commit'' x \<noteq> ZERO_HASH"
  shows "\<exists>d c cd. initialize H now (daemon_new ts s r sd) = map_option (\<lambda>d. (True, d)) (load_persisted_branches d) \<and>
    bc_wt (ctx d 0) = wt_new \<and> r_files (d_refs d) = om_put ''main'' (ref_content c) (r_files r) \<and> s_io (d_store d) = [] \<and>
    c = object_hash H ''commit'' (serialize_commit cd) \<and> cd_parents cd = []"
proof -
  let ?d = "(daemon_new ts s r sd)\<lparr>d_store := s2\<rparr>"
  have f: "d_store ?d = s2" "d_refs ?d = r" "d_store (daemon_new ts s r sd) = s" "d_refs (daemon_new ts s r sd) = r"
    by (simp_all add: daemon_new_def)
  obtain r' t c cd where 1: "init_commit H now ?d = (True, ?d\<lparr>d_refs := r', d_store := t\<rparr>)"
    "r_files r' = om_put ''main'' (ref_content c) (r_files (d_refs ?d))"
    "c = object_hash H ''commit'' (serialize_commit cd)" "cd_parents cd = []" "s_io t = []"
  proof (rule init_commit_ok [of ?d H now])
    show "s_io (d_store ?d) = []" "pend_ok (d_store ?d)" using assms(3,4) by (simp_all add: f)
  qed (use assms(5,6) in auto)
  have "initialize H now (daemon_new ts s r sd) = map_option (\<lambda>d. (True, d)) (load_persisted_branches (?d\<lparr>d_refs := r', d_store := t\<rparr>))"
    using assms(1,2) 1(1) by (simp add: initialize_def f Let_def)
  moreover have "bc_wt (ctx (?d\<lparr>d_refs := r', d_store := t\<rparr>) 0) = wt_new" by (simp add: daemon_new_def ctx_def branch_new_def)
  moreover have "r_files (d_refs (?d\<lparr>d_refs := r', d_store := t\<rparr>)) = om_put ''main'' (ref_content c) (r_files r)"
    using 1(2) by (simp add: f)
  moreover have "s_io (d_store (?d\<lparr>d_refs := r', d_store := t\<rparr>)) = []" using 1(5) by simp
  ultimately show ?thesis using 1(3,4) by blast
qed

text \<open>Main's ref names the commit 5; the ninth call of a start, which opens it, fails.\<close>

definition old_refs :: refs where
  "old_refs = \<lparr>r_files = [(''main'', ref_content 5)], r_other = [], r_durable = [(''main'', ref_content 5)]\<rparr>"

theorem initialize_replaces_main_witness:
  "\<exists>s d c. ref_of old_refs ''main'' = Some 5 \<and> initialize tag_hash 9 (daemon_new 1 s old_refs empty_dir) = Some (True, d) \<and>
     ref_of (d_refs d) ''main'' = Some c \<and> c \<noteq> 5"
proof -
  let ?s = "(new_store ''/s'' 0)\<lparr>s_io := replicate 8 None @ [Some io_fault]\<rparr>"
  obtain s1 s2 where 1: "init_layout ?s = (True, s1)" "read_ref old_refs ''main'' (cleanup_tmp s1) = (None, s2)"
    "s_io s2 = []" "pend_ok s2"
    by (simp add: init_layout_def Let_def next_io_def numeral_eq_Suc validate_object_shards_writable_def new_store_def
        cleanup_tmp_def read_ref_def pend_ok_def)
  have nz: "tree_hash tag_hash x \<noteq> ZERO_HASH" "object_hash tag_hash ''commit'' x \<noteq> ZERO_HASH" for x
    by simp_all
  obtain d c cd where d: "initialize tag_hash 9 (daemon_new 1 ?s old_refs empty_dir) = map_option (\<lambda>d. (True, d)) (load_persisted_branches d)"
    "r_files (d_refs d) = om_put ''main'' (ref_content c) (r_files old_refs)" "s_io (d_store d) = []"
    "c = object_hash tag_hash ''commit'' (serialize_commit cd)"
    using initialize_replaces_main [OF 1 nz, of 9 1 empty_dir] by blast
  have "ref_of (d_refs d) ''main'' = Some c" using ref_of_put [OF d(2)] by simp
  moreover have "load_persisted_branches d = Some d"
    using list_refs_ok [OF d(3), of "d_refs d"] d(2) by (simp add: load_persisted_branches_def old_refs_def)
  moreover have "c \<noteq> 5" using d(4) by simp
  moreover have "ref_of old_refs ''main'' = Some 5" by (simp add: ref_of_def old_refs_def)
  ultimately show ?thesis using d(1) by (intro exI [of _ ?s] exI [of _ d] exI [of _ c]) simp
qed

end
