(* ===== verification/DaemonOps.thy ===== *)
theory DaemonOps
  imports DaemonProps
begin

text \<open>
  What holds of every reachable daemon, and the contracts of its operations on branches: create,
  delete and collect; the merge is in \<open>DaemonMerge\<close>.
\<close>

section \<open>Properties\<close>

text \<open>
  C4: the branch tables are consistent in every reachable state. From a start on at most
  \<open>2 ^ 32 - 3\<close> refs, after any operations with any failures and anything the file system
  adapters do to trees, handles and the store: main is there as context 0, a name and an id
  find the same branches, each of which has that name and id, is not retired and has a
  well-formed tree, and a checkpoint of any branch returns.
\<close>

theorem daemon_reachable:
  assumes "initialize H now (daemon_new ts s r sd) = Some (True, d0)" "length (r_files r) < 2 ^ 32 - 2"
    and "(daemon_step H)\<^sup>*\<^sup>* d0 d"
  shows "branch_by_name ''main'' d = Some 0 \<and>
    (\<forall>n p. branch_by_name n d = Some p \<longleftrightarrow> (\<exists>b. branch_of_id b d = Some p \<and> bc_name (ctx d p) = n)) \<and>
    (\<forall>b p. branch_of_id b d = Some p \<longrightarrow> bc_id (ctx d p) = b \<and> \<not> bc_retired (ctx d p) \<and> wt_inv (bc_wt (ctx d p))) \<and>
    (\<forall>t n label. \<exists>res d'. checkpoint_branch_by_name H t n label d = Some (res, d'))"
proof -
  have "Suc (Suc (length (r_files r))) < 2 ^ 32" using assms(2) by simp
  from initialize_inv [OF assms(1) this] have "daemon_inv d0" by blast
  from daemon_steps_inv [OF assms(3) this] have i: "daemon_inv d" .
  have "wt_inv (bc_wt (ctx d p))" if "branch_of_id b d = Some p" for b p
    using invE(6) [OF i] that by (simp add: branch_of_id_def)
  moreover have "\<exists>res d'. checkpoint_branch_by_name H t n label d = Some (res, d')" for t n label
    using checkpoint_by_name_inv [OF i] by blast
  ultimately show ?thesis using inv_lookups [OF i] by blast
qed

text \<open>A start on an empty directory.\<close>

lemma fresh_start:
  obtains d where "initialize tag_hash 9 (daemon_new 1 (new_store ''/s'' 0) gc_no_refs empty_dir) = Some (True, d)"
proof -
  have m: "ref_of gc_no_refs ''main'' = None" by (simp add: ref_of_def gc_no_refs_def)
  obtain t where t: "started (new_store ''/s'' 0) t" and i: "initialize tag_hash 9 (daemon_new 1 (new_store ''/s'' 0) gc_no_refs empty_dir) =
    (let d = (daemon_new 1 (new_store ''/s'' 0) gc_no_refs empty_dir)\<lparr>d_store := t\<rparr> in
     case (if ref_of gc_no_refs ''main'' = None then Some (init_commit tag_hash 9 d)
           else map_option (\<lambda>(e, d). (e = None, d)) (rebuild_main_from_ref d)) of
       None \<Rightarrow> None
     | Some (False, d) \<Rightarrow> Some (False, d)
     | Some (True, d) \<Rightarrow> map_option (\<lambda>d. (True, d)) (load_persisted_branches d))"
    by (rule initialize_quiet [OF new_store_simps(1), where H = tag_hash and now = 9 and ts = 1 and r = gc_no_refs and sd = empty_dir])
  let ?d = "(daemon_new 1 (new_store ''/s'' 0) gc_no_refs empty_dir)\<lparr>d_store := t\<rparr>"
  have f: "d_refs ?d = gc_no_refs" "d_store ?d = t" by (simp_all add: daemon_new_def)
  have io: "s_io t = []" "pend_ok t" using t by (simp_all add: started_def pend_ok_def)
  obtain r s c where 1: "init_commit tag_hash 9 ?d = (True, ?d\<lparr>d_refs := r, d_store := s\<rparr>)" "s_io s = []"
    "r_files r = om_put ''main'' (ref_content c) (r_files (d_refs ?d))"
    by (rule init_commit_ok [of ?d tag_hash 9]) (use io in \<open>simp_all only: f tag_hash_values\<close>, simp_all)
  have "load_persisted_branches (?d\<lparr>d_refs := r, d_store := s\<rparr>) = Some (?d\<lparr>d_refs := r, d_store := s\<rparr>)"
    using list_refs_ok [OF 1(2), of r] 1(3) by (simp add: load_persisted_branches_def f) (simp add: gc_no_refs_def)
  then have "initialize tag_hash 9 (daemon_new 1 (new_store ''/s'' 0) gc_no_refs empty_dir) = Some (True, ?d\<lparr>d_refs := r, d_store := s\<rparr>)"
    using 1(1) by (simp add: i m Let_def)
  then show thesis by (rule that)
qed

theorem daemon_reachable_witness:
  "\<exists>d0. initialize tag_hash 9 (daemon_new 1 (new_store ''/s'' 0) gc_no_refs empty_dir) = Some (True, d0) \<and>
     branch_by_name ''main'' (bump_policy_version (release_fh 7 d0)) = Some 0"
proof -
  obtain d0 where i: "initialize tag_hash 9 (daemon_new 1 (new_store ''/s'' 0) gc_no_refs empty_dir) = Some (True, d0)"
    by (rule fresh_start)
  have l: "length (r_files gc_no_refs) < 2 ^ 32 - 2" by (simp add: gc_no_refs_def)
  have "(daemon_step tag_hash)\<^sup>*\<^sup>* d0 (bump_policy_version (release_fh 7 d0))"
    using release_step policy_step by (meson converse_rtranclp_into_rtranclp r_into_rtranclp)
  from daemon_reachable [OF i l this] i show ?thesis by blast
qed

section \<open>Creating and deleting\<close>

lemma by_name_none: "daemon_inv d \<Longrightarrow> branch_by_name n d = None \<longleftrightarrow> map_of (d_names d) n = None"
proof -
  assume "daemon_inv d"
  then have "names_ok (d_branches d) (d_names d) (d_ctxs d) (d_next_branch d)"
    by (simp add: daemon_inv_def names_inv_def)
  from names_okD(6) [OF this] show ?thesis by (auto simp: branch_by_name_def split: option.splits)
qed

lemma by_name_fields [simp]:
  "branch_by_name m (d\<lparr>d_refs := r\<rparr>) = branch_by_name m d" "branch_by_name m (d\<lparr>d_store := s\<rparr>) = branch_by_name m d"
  "branch_by_name m (d\<lparr>d_next_branch := k\<rparr>) = branch_by_name m d"
  by (simp_all add: branch_by_name_def cong: option.case_cong)

lemma create_branch_succeeds:
  assumes i: "daemon_inv d" and n: "d_next_branch d \<noteq> no_branch" and io: "s_io (d_store d) = []"
    and b: "branch_by_name name d = None" "branch_by_name src d = Some p" "ref_of (d_refs d) src = Some h"
  shows "fst (create_branch name src d) = d_next_branch d"
proof -
  have e: "d_creating d = []" "d_sources d = []" using i by (simp_all add: daemon_inv_def names_inv_def)
  have nm: "map_of (d_names d) name = None" using b(1) by_name_none [OF i] by simp
  obtain d1 where r: "reserve_branch name src d = Some (p, d1)" using nm e b(2) by (simp add: reserve_branch_def)
  note rc = reserve_cleared [OF e r]
  obtain ok rf s where w: "write_ref name h (d_refs d) (d_store d) = (ok, rf, s)" using prod_cases3 by blast
  have ok using write_ref_effect(3) [OF w io] .
  then show ?thesis
    using nm w b(3) by (simp add: create_branch_def r rc(3) Let_def read_ref_ok [OF io] clear_reservations_def split: option.split)
qed

lemma write_ref_durable: "write_ref n c r s = (True, r', s') \<Longrightarrow> durable_ref r' n = Some c"
  using write_ref_effect(2) [of n c r s True r' s'] ref_of_put [of r' n c r] by (auto simp: durable_ref_def ref_of_def)

text \<open>
  C14: creating a branch, with any failures. On success the branch is new, has the next id, the
  tree its source had and a durable ref that names the source's commit. A taken name or an
  unknown source changes nothing; any failure leaves the branches as they were. No other branch
  and no other ref is touched; without faults only these refusals and a source without a
  readable ref fail.
\<close>

theorem create_branch_exact:
  assumes i: "daemon_inv d" and n: "d_next_branch d \<noteq> no_branch" and c: "create_branch name src d = (b, d')"
  shows "(b \<noteq> no_branch \<longrightarrow> b = d_next_branch d \<and> branch_by_name name d = None \<and>
      (\<exists>p q h. branch_by_name src d = Some p \<and> branch_by_name name d' = Some q \<and> bc_id (ctx d' q) = b \<and>
         (\<forall>path. lookup_raw path (bc_wt (ctx d' q)) = lookup_raw path (bc_wt (ctx d p))) \<and>
         ref_of (d_refs d) src = Some h \<and> ref_of (d_refs d') name = Some h \<and> durable_ref (d_refs d') name = Some h)) \<and>
    (b = no_branch \<longrightarrow> branch_by_name name d' = branch_by_name name d \<and> d_ctxs d' = d_ctxs d) \<and>
    (branch_by_name name d \<noteq> None \<or> branch_by_name src d = None \<longrightarrow> b = no_branch \<and> d' = d) \<and>
    (\<forall>m. m \<noteq> name \<longrightarrow> ref_of (d_refs d') m = ref_of (d_refs d) m \<and> branch_by_name m d' = branch_by_name m d \<and>
       (\<forall>p. branch_by_name m d = Some p \<longrightarrow> ctx d' p = ctx d p)) \<and>
    (s_io (d_store d) = [] \<and> branch_by_name name d = None \<and> branch_by_name src d \<noteq> None \<and> ref_of (d_refs d) src \<noteq> None \<longrightarrow>
       b \<noteq> no_branch)"
proof -
  note suc = create_branch_succeeds [OF i n]
  show ?thesis
    using i
  proof (cases rule: create_branch_cases [where name = name and src = src])
    case refused
    with c by_name_none [OF i] show ?thesis by auto
  next
    case (failed r s)
    have e: "b = no_branch" "d' = d\<lparr>d_next_branch := d_next_branch d + 1, d_refs := r, d_store := s\<rparr>" using c failed(1) by simp_all
    have "ref_of r m = ref_of (d_refs d) m" if "m \<noteq> name" for m using failed(4) ref_of_write(1) that by metis
    moreover have "branch_by_name m d' = branch_by_name m d" "ctx d' p = ctx d p" for m p
      by (simp_all add: e(2) branch_by_name_def ctx_def cong: option.case_cong)
    moreover have "ref_of (d_refs d) src = None" if "s_io (d_store d) = []" "branch_by_name name d = None"
      using suc [OF that] failed(1,3) n by fastforce
    ultimately show ?thesis using e failed(2,3) by_name_none [OF i] by (auto simp del: not_None_eq)
  next
    case (created p h s1 r s)
    let ?c = "branch_new (d_next_branch d) name (clone (bc_wt (ctx d p)))" and ?d = "d\<lparr>d_refs := r\<rparr>"
    have i': "daemon_inv ?d" using i by (simp add: inv_store)
    have id: "bc_id ?c = d_next_branch ?d" "bc_name ?c = name" by (simp_all add: branch_new_def)
    have eq: "d\<lparr>d_next_branch := d_next_branch d + 1, d_refs := r, d_store := s\<rparr> = ?d\<lparr>d_next_branch := d_next_branch d + 1, d_store := s\<rparr>"
      by (cases d) simp
    have "(b, d') = (d_next_branch d, publish_ctx ?c (?d\<lparr>d_next_branch := d_next_branch d + 1, d_store := s\<rparr>))"
      unfolding c [symmetric] created(1) eq ..
    then have e: "b = d_next_branch d" "d' = publish_ctx ?c (?d\<lparr>d_next_branch := d_next_branch d + 1, d_store := s\<rparr>)" by blast+
    note pl = publish_lookup [OF i' id(1), where k = "d_next_branch d + 1" and s = s, folded e(2), unfolded id(2)]
    have rf: "d_refs d' = r" by (simp add: e(2) publish_ctx_def)
    have h: "ref_of (d_refs d) src = Some h" using read_ref_value(1) [OF created(4)] by simp
    have new: "lookup_raw path (bc_wt (ctx d' (length (d_ctxs d)))) = lookup_raw path (bc_wt (ctx d p))" for path
      using pl(2) by (simp add: branch_new_def clone_def lookup_raw_view wt_raw_def)
    have other: "branch_by_name m d' = branch_by_name m d" if "m \<noteq> name" for m
    proof (cases "branch_by_name m d")
      case None
      then have "map_of (d_names d) m = None" by (simp add: by_name_none [OF i])
      then show ?thesis using None that by (simp add: e(2) publish_ctx_def branch_by_name_def om_simps branch_new_def)
    next
      case (Some q)
      then show ?thesis using pl(3) [of m q] that by simp
    qed
    have c1: "\<exists>p q h. branch_by_name src d = Some p \<and> branch_by_name name d' = Some q \<and> bc_id (ctx d' q) = b \<and>
         (\<forall>path. lookup_raw path (bc_wt (ctx d' q)) = lookup_raw path (bc_wt (ctx d p))) \<and>
         ref_of (d_refs d) src = Some h \<and> ref_of (d_refs d') name = Some h \<and> durable_ref (d_refs d') name = Some h"
      using created(2) pl(1,2) new h rf ref_of_write(2) [OF created(5)] write_ref_durable [OF created(5)] id(1) e(1)
      by (intro exI [of _ p] exI [of _ "length (d_ctxs d)"] exI [of _ h]) simp
    have none: "branch_by_name name d = None" using created(3) by_name_none [OF i] by simp
    have oth: "ref_of (d_refs d') m = ref_of (d_refs d) m \<and> branch_by_name m d' = branch_by_name m d \<and>
       (\<forall>p. branch_by_name m d = Some p \<longrightarrow> ctx d' p = ctx d p)" if "m \<noteq> name" for m
      using other [OF that] pl(3) [of m] that rf ref_of_write(1) [OF created(5) that] by simp
    show ?thesis using c1 none oth e(1) n created(2) by simp
  qed
qed

text \<open>A daemon whose main branch has a ref.\<close>

definition ref_daemon :: daemon where
  "ref_daemon = sample_daemon\<lparr>d_refs := old_refs\<rparr>"

lemma ref_daemon_ok:
  "daemon_inv ref_daemon" "branch_by_name ''main'' ref_daemon = Some 0" "branch_by_name ''a'' ref_daemon = None"
  "d_next_branch ref_daemon = 1" "s_io (d_store ref_daemon) = []" "ref_of (d_refs ref_daemon) ''main'' = Some 5"
  "bc_wt (ctx ref_daemon 0) = rp_wt sample_repo"
proof -
  show "daemon_inv ref_daemon" using sample_daemon_ok(1) by (simp add: ref_daemon_def inv_store)
  show "branch_by_name ''a'' ref_daemon = None"
    by (simp add: ref_daemon_def sample_daemon_def branch_by_name_def daemon_new_def)
  show "d_next_branch ref_daemon = 1" by (simp add: ref_daemon_def sample_daemon_def daemon_new_def)
  show "ref_of (d_refs ref_daemon) ''main'' = Some 5" by (simp add: ref_daemon_def old_refs_def ref_of_def)
qed (simp_all add: ref_daemon_def sample_daemon_ok sample_repo_ok)

theorem create_branch_exact_witness:
  "\<exists>d' q. create_branch ''a'' ''main'' ref_daemon = (1, d') \<and> branch_by_name ''a'' d' = Some q \<and>
     lookup_raw ''/f'' (bc_wt (ctx d' q)) = lookup_raw ''/f'' (rp_wt sample_repo) \<and> ref_of (d_refs d') ''a'' = Some 5"
proof -
  have n: "d_next_branch ref_daemon \<noteq> no_branch" by (simp add: ref_daemon_ok no_branch_def)
  have "fst (create_branch ''a'' ''main'' ref_daemon) = 1"
    using create_branch_succeeds [OF ref_daemon_ok(1) n ref_daemon_ok(5,3,2,6)] by (simp add: ref_daemon_ok)
  then obtain d' where c: "create_branch ''a'' ''main'' ref_daemon = (1, d')" by (cases "create_branch ''a'' ''main'' ref_daemon") simp
  have b: "(1 :: u32) \<noteq> no_branch" by (simp add: no_branch_def)
  from conjunct1 [OF create_branch_exact [OF ref_daemon_ok(1) n c], rule_format, OF b] c show ?thesis
    by (auto simp: ref_daemon_ok)
qed

lemma remove_ref_other: "remove_ref n r s = (ok, r', s') \<Longrightarrow> m \<noteq> n \<Longrightarrow> map_of (r_files r') m = map_of (r_files r) m"
  by (auto simp: remove_ref_def om_simps Let_def split: if_splits prod.splits option.splits)

lemma remove_ref_ok: "remove_ref n r s = (True, r', s') \<Longrightarrow>
    map_of (r_files r) n \<noteq> None \<and> map_of (r_files r') n = None \<and> r_durable r' = r_files r'"
  by (auto simp: remove_ref_def om_simps Let_def split: if_splits prod.splits option.splits)

lemma delete_branch_failed:
  assumes "delete_branch has_cgroup n d = (False, d')"
  shows "\<exists>r s. d' = d\<lparr>d_refs := r, d_store := s\<rparr> \<and> (\<forall>m. m \<noteq> n \<longrightarrow> map_of (r_files r) m = map_of (r_files (d_refs d)) m)"
proof -
  have same: "\<exists>r s. d = d\<lparr>d_refs := r, d_store := s\<rparr> \<and> (\<forall>m. m \<noteq> n \<longrightarrow> map_of (r_files r) m = map_of (r_files (d_refs d)) m)"
    by (intro exI [of _ "d_refs d"] exI [of _ "d_store d"]) simp
  obtain ok r s where r: "remove_ref n (d_refs d) (d_store d) = (ok, r, s)" using prod_cases3 by blast
  have "d' = d \<or> d' = d\<lparr>d_refs := r, d_store := s\<rparr>"
    using assms r by (auto simp: delete_branch_def Let_def split: if_splits option.splits bool.splits)
  with same remove_ref_other [OF r] show ?thesis by blast
qed

lemma fields_ctx [simp]: "ctx (d\<lparr>d_refs := r, d_store := s\<rparr>) q = ctx d q"
  by (simp add: ctx_def)

text \<open>
  C39: a deletion that fails late leaves a branch that stops every collection. If the branch's ref
  was unlinked but the directory could not be opened or synced, the deletion reports failure and
  the branch stays in the tables without its ref: deleting it again fails, too, and each run of
  the collector fails and removes nothing.
\<close>

theorem failed_delete_blocks_gc:
  assumes i: "daemon_inv d" and n: "branch_by_name n d = Some p"
    and f: "delete_branch has_cgroup n d = (False, d')" "map_of (r_files (d_refs d')) n = None"
  shows "branch_by_name n d' = Some p \<and> \<not> fst (delete_branch has_cgroup' n d') \<and>
    (daemon_gc elapsed ids policy d' = Some (res, d'') \<longrightarrow> \<not> gr_ok res \<and> find_object (d_store d'') = find_object (d_store d'))"
proof -
  obtain r s where d': "d' = d\<lparr>d_refs := r, d_store := s\<rparr>" using delete_branch_failed [OF f(1)] by blast
  have i': "daemon_inv d'" using i by (simp add: d' inv_store)
  have n': "branch_by_name n d' = Some p" using n by (simp add: d' branch_by_name_def cong: option.case_cong)
  have "\<not> fst (remove_ref n (d_refs d') (d_store d'))" using f(2) by (auto simp: remove_ref_def split: prod.splits option.splits)
  then have again: "\<not> fst (delete_branch has_cgroup' n d')"
    by (auto simp: delete_branch_def split: option.splits prod.splits bool.splits)
  have "n \<in> set (gl_expected_branch_refs (collect_live_roots ids d'))"
    using map_of_SomeD [OF inv_by_name(1) [OF i' n']] inv_by_name(2) [OF i' n'] by (force simp: collect_live_roots_def)
  moreover have "n \<notin> fst ` set (r_files (d_refs d'))" using f(2) by (simp add: map_of_eq_None_iff)
  ultimately have bad: "bad_roots (d_refs d') (d_state d') (collect_live_roots ids d')" unfolding bad_roots_def by blast
  have "\<not> gr_ok res \<and> find_object (d_store d'') = find_object (d_store d')" if g: "daemon_gc elapsed ids policy d' = Some (res, d'')"
  proof -
    obtain t where t: "gc_run elapsed (d_refs d') (d_state d') (collect_live_roots ids d') policy (d_store d') = Some (res, t)" "d_store d'' = t"
      using g by (auto simp: daemon_gc_def)
    show ?thesis
    proof (cases rule: gc_run_cases [where el = elapsed and r = "d_refs d'" and d = "d_state d'"
          and roots = "collect_live_roots ids d'" and p = policy and s = "d_store d'"])
      case (fail e m s1)
      with t show ?thesis using only_io_same(3) [of "d_store d'" s1] by auto
    next
      case (sweep m s1 res2 s2)
      with bad show ?thesis by blast
    qed
  qed
  with n' again show ?thesis by blast
qed

text \<open>A daemon with the branches main and \<open>a\<close>; a deletion unlinks the ref, the next call fails.\<close>

definition pair_refs :: refs where
  "pair_refs = \<lparr>r_files = [(''a'', ref_content 5), (''main'', ref_content 5)], r_other = [],
     r_durable = [(''a'', ref_content 5), (''main'', ref_content 5)]\<rparr>"

definition pair_daemon :: "fault option list \<Rightarrow> daemon" where
  "pair_daemon io = (daemon_new 1 ((new_store ''/s'' 0)\<lparr>s_io := io\<rparr>) pair_refs empty_dir)
     \<lparr>d_ctxs := [branch_new 0 ''main'' wt_new, branch_new 1 ''a'' wt_new], d_branches := [(0, 0), (1, 1)],
      d_names := [(''a'', 1), (''main'', 0)], d_next_branch := 2\<rparr>"

lemma pair_daemon_ok: "daemon_inv (pair_daemon io)" "branch_by_name ''a'' (pair_daemon io) = Some 1"
  "branch_by_name ''main'' (pair_daemon io) = Some 0" "bc_id (ctx (pair_daemon io) 1) = 1" "d_fhs (pair_daemon io) = []"
  by (simp_all add: pair_daemon_def daemon_new_def daemon_inv_def names_inv_def names_ok_def om_wf_def branch_new_def
      wt_inv_fresh handles_inv_def branch_by_name_def ctx_def)

theorem failed_delete_blocks_gc_witness:
  "\<exists>d' res d''. delete_branch (\<lambda>_. False) ''a'' (pair_daemon [None, None, Some io_fault]) = (False, d') \<and>
     branch_by_name ''a'' d' = Some 1 \<and> daemon_gc 0 [] gc_plain d' = Some (res, d'') \<and> \<not> gr_ok res"
proof -
  obtain d' where d: "delete_branch (\<lambda>_. False) ''a'' (pair_daemon [None, None, Some io_fault]) = (False, d')"
    "map_of (r_files (d_refs d')) ''a'' = None"
  proof -
    obtain r s where "remove_ref ''a'' pair_refs ((new_store ''/s'' 0)\<lparr>s_io := [None, None, Some io_fault]\<rparr>) = (False, r, s)"
      "map_of (r_files r) ''a'' = None"
      by (simp add: remove_ref_def pair_refs_def next_io_def om_del_def)
    then show thesis
      by (intro that [of "(pair_daemon [None, None, Some io_fault])\<lparr>d_refs := r, d_store := s\<rparr>"])
        (simp_all add: delete_branch_def pair_daemon_ok, simp add: pair_daemon_def daemon_new_def)
  qed
  obtain res t where g: "gc_run 0 (d_refs d') (d_state d') (collect_live_roots [] d') gc_plain (d_store d') = Some (res, t)"
    by (rule gc_sample_run)
  then have g: "daemon_gc 0 [] gc_plain d' = Some (res, d'\<lparr>d_store := t\<rparr>)" by (simp add: daemon_gc_def)
  from failed_delete_blocks_gc [OF pair_daemon_ok(1,2) d, of "\<lambda>_. False" 0 "[]" gc_plain res] g d(1) show ?thesis by blast
qed

text \<open>
  C15: deleting a branch, with any failures. On success the branch was not main and had no cgroup;
  it is gone from both tables and so is its ref, durably; its context is retired and its open
  files are stale. On failure no branch and no handle has changed. In both cases the other
  branches and refs are as before and the tables stay consistent.
\<close>

theorem delete_branch_exact:
  assumes i: "daemon_inv d" and c: "delete_branch has_cgroup n d = (ok, d')"
  shows "(ok \<longrightarrow> n \<noteq> ''main'' \<and> (\<exists>p. branch_by_name n d = Some p \<and> \<not> has_cgroup (bc_id (ctx d p)) \<and>
      branch_by_name n d' = None \<and> branch_of_id (bc_id (ctx d p)) d' = None \<and> bc_retired (ctx d' p) \<and>
      map_of (r_files (d_refs d')) n = None \<and> map_of (r_durable (d_refs d')) n = None \<and>
      (\<forall>x \<in> set (d_fhs d'). fh_branch (snd x) = bc_id (ctx d p) \<longrightarrow> fh_stale (snd x)))) \<and>
    (\<not> ok \<longrightarrow> branch_by_name n d' = branch_by_name n d \<and> d_ctxs d' = d_ctxs d \<and> d_fhs d' = d_fhs d) \<and>
    (\<forall>m. m \<noteq> n \<longrightarrow> branch_by_name m d' = branch_by_name m d \<and> ref_of (d_refs d') m = ref_of (d_refs d) m \<and>
      (\<forall>p. branch_by_name m d = Some p \<longrightarrow> ctx d' p = ctx d p)) \<and> daemon_inv d'"
proof (cases ok)
  case False
  obtain r s where d': "d' = d\<lparr>d_refs := r, d_store := s\<rparr>" "\<forall>m. m \<noteq> n \<longrightarrow> map_of (r_files r) m = map_of (r_files (d_refs d)) m"
    using delete_branch_failed [of has_cgroup n d d'] c False by auto
  have "branch_by_name m d' = branch_by_name m d" for m by (simp add: d'(1) branch_by_name_def cong: option.case_cong)
  moreover have "ref_of (d_refs d') m = ref_of (d_refs d) m" if "m \<noteq> n" for m using d'(2) that by (simp add: d'(1) ref_of_def)
  ultimately show ?thesis using False delete_branch_inv [OF i c] by (simp add: d'(1))
next
  case True
  then obtain p r s where p: "branch_by_name n d = Some p" "n \<noteq> ''main''" "\<not> has_cgroup (bc_id (ctx d p))"
    "remove_ref n (d_refs d) (d_store d) = (True, r, s)"
    and d': "d' = (invalidate_fhs_for_branch (bc_id (ctx d p))
        (upd_ctx p (\<lambda>c. c\<lparr>bc_retired := True\<rparr>) (d\<lparr>d_refs := r, d_store := s\<rparr>)))
        \<lparr>d_names := om_del n (d_names d), d_branches := om_del (bc_id (ctx d p)) (d_branches d)\<rparr>"
    using c by (auto simp: delete_branch_def Let_def split: if_splits option.splits prod.splits bool.splits)
  let ?b = "bc_id (ctx d p)"
  have i': "daemon_inv d'" by (rule delete_branch_inv [OF i c])
  note nm = inv_by_name [OF i p(1)] and len = by_name_length [OF i p(1)]
  have names: "d_names d' = om_del n (d_names d)" "d_branches d' = om_del ?b (d_branches d)" "d_refs d' = r"
    by (simp_all add: d')
  have cx: "ctx d' q = (if q = p then (ctx d p)\<lparr>bc_retired := True\<rparr> else ctx d q)" for q
    using len by (simp add: d' ctx_upd)
  have none: "branch_by_name n d' = None" using names(1) by (simp add: by_name_none [OF i'] om_simps)
  have oth: "branch_by_name m d' = branch_by_name m d" if "m \<noteq> n" for m
  proof (cases "map_of (d_names d) m")
    case None
    then show ?thesis using names that by (simp add: branch_by_name_def om_simps)
  next
    case (Some b)
    have "b \<noteq> ?b"
    proof
      assume b: "b = ?b"
      have "branch_by_name m d = Some p" using Some b nm(1) by (simp add: branch_by_name_def)
      then have "m = n" using inv_by_name(2) [OF i] nm(2) by blast
      with that show False by contradiction
    qed
    then show ?thesis using names that Some by (simp add: branch_by_name_def om_simps)
  qed
  have octx: "ctx d' q = ctx d q" if "m \<noteq> n" "branch_by_name m d = Some q" for m q
  proof -
    have "q \<noteq> p" using inv_by_name(2) [OF i that(2)] nm(2) that(1) by auto
    then show ?thesis by (simp add: cx)
  qed
  have rf: "ref_of r m = ref_of (d_refs d) m" if "m \<noteq> n" for m
    using remove_ref_other [OF p(4) that] by (simp add: ref_of_def)
  have st: "\<forall>x \<in> set (d_fhs d'). fh_branch (snd x) = ?b \<longrightarrow> fh_stale (snd x)"
    by (auto simp: d' invalidate_fhs_for_branch_def)
  have gone: "branch_of_id ?b d' = None" by (simp add: branch_of_id_def names(2) om_simps)
  have files: "map_of (r_files r) n = None" "map_of (r_durable r) n = None" using remove_ref_ok [OF p(4)] by simp_all
  have ret: "bc_retired (ctx d' p)" by (simp add: cx)
  show ?thesis using True p(1-3) none gone ret files st oth octx rf i' names(3) by simp
qed

theorem delete_branch_exact_witness:
  "\<exists>d'. delete_branch (\<lambda>_. False) ''a'' (pair_daemon []) = (True, d') \<and> branch_by_name ''a'' d' = None \<and>
     branch_by_name ''main'' d' = Some 0"
proof -
  obtain d' where d: "delete_branch (\<lambda>_. False) ''a'' (pair_daemon []) = (True, d')"
  proof -
    obtain r s where "remove_ref ''a'' pair_refs ((new_store ''/s'' 0)\<lparr>s_io := []\<rparr>) = (True, r, s)"
      by (simp add: remove_ref_def pair_refs_def next_io_def)
    then show thesis
      by (intro that) (simp add: delete_branch_def pair_daemon_ok, simp add: pair_daemon_def daemon_new_def Let_def)
  qed
  from delete_branch_exact [OF pair_daemon_ok(1) d] pair_daemon_ok(3) [of "[]"] d show ?thesis by auto
qed

section \<open>Collecting and merging\<close>

lemma leaf_hashes_mem:
  assumes "wt_inv wt" "lookup path wt = Some e" "referenced_leaf e"
  shows "e_hash e \<in> set (leaf_hashes wt)"
proof -
  have f: "x \<in> set (fold (\<lambda>(p, e) out. if referenced_leaf e then out @ [e_hash e] else out) es out)"
    if "x \<in> set out \<or> (\<exists>y \<in> set es. referenced_leaf (snd y) \<and> x = e_hash (snd y))" for x es out
    using that
  proof (induction es arbitrary: out)
    case (Cons y es)
    let ?out = "if referenced_leaf (snd y) then out @ [e_hash (snd y)] else out"
    have "x \<in> set ?out \<or> (\<exists>y \<in> set es. referenced_leaf (snd y) \<and> x = e_hash (snd y))" using Cons.prems by auto
    from Cons.IH [OF this] show ?case by (cases y) (simp split: if_splits)
  qed simp
  have w: "wt_wf wt" using assms(1) by (simp add: wt_inv_def)
  have "wt_raw wt path = Some e" using assms(2) by (auto simp: lookup_def lookup_raw_view split: option.splits if_splits)
  then have "(path, e) \<in> set (merged_list wt)" by (simp add: merged_list_get [OF w, symmetric] map_of_SomeD)
  with assms(3) show ?thesis unfolding leaf_hashes_def for_each_including_deleted_def by (intro f) force
qed

text \<open>
  C5: a collection keeps all that the daemon's clients can still reach, whatever fails: the
  contents of every file of every live branch's tree, saved or not in a commit, the base
  contents and the pinned commit of every open file, stale or not, the objects not yet synced,
  and what is reachable from the refs, the agents' latest records and the supervisor's union
  states. It changes nothing of the daemon but its store, and there it only removes.
\<close>

theorem daemon_gc_safe:
  assumes i: "daemon_inv d" and g: "daemon_gc elapsed ids policy d = Some (res, d')"
  shows "(\<forall>n p path e. branch_by_name n d = Some p \<and> lookup path (bc_wt (ctx d p)) = Some e \<and> referenced_leaf e \<longrightarrow>
      find_object (d_store d') (e_hash e) = find_object (d_store d) (e_hash e)) \<and>
    (\<forall>fh st h. get_fh fh d = Some st \<and> h \<in> {fh_base_blob st, fh_pinned st} - {ZERO_HASH} \<longrightarrow>
      find_object (d_store d') h = find_object (d_store d) h) \<and>
    (\<forall>h \<in> set (s_pending (d_store d)). find_object (d_store d') h = find_object (d_store d) h) \<and>
    (\<forall>v \<in> needed (s_io (d_store d) = []) (d_store d) (d_refs d) (d_state d) (collect_live_roots ids d) policy.
      find_object (d_store d') (node_hash v) = find_object (d_store d) (node_hash v)) \<and>
    (\<forall>h. find_object (d_store d') h \<in> {None, find_object (d_store d) h}) \<and> (\<exists>t. d' = d\<lparr>d_store := t\<rparr>)"
proof -
  let ?s = "d_store d" and ?roots = "collect_live_roots ids d"
  let ?N = "needed (s_io ?s = []) ?s (d_refs d) (d_state d) ?roots policy"
  obtain t where t: "gc_run elapsed (d_refs d) (d_state d) ?roots policy ?s = Some (res, t)" "d' = d\<lparr>d_store := t\<rparr>"
    using g by (auto simp: daemon_gc_def)
  have keep: "(\<forall>v \<in> ?N. find_object t (node_hash v) = find_object ?s (node_hash v)) \<and> (\<forall>h. find_object t h \<in> {None, find_object ?s h})"
  proof (cases rule: gc_run_cases [where el = elapsed and r = "d_refs d" and d = "d_state d" and roots = ?roots and p = policy and s = ?s])
    case (fail e m s1)
    with t(1) show ?thesis using only_io_same(3) [of ?s s1] by auto
  next
    case (sweep m s1 res2 s2)
    then have w: "swept (if gp_dry_run policy then UNIV else ms_marked m) (s_now ?s - 2) ?s t" using t(1) by simp
    with sweep(3) show ?thesis unfolding swept_def by (force split: if_splits)
  qed
  have root: "find_object t h = find_object ?s h"
    if "h \<in> set (gl_wt_hashes ?roots) \<union> set (gl_fh_blob_hashes ?roots) \<union> set (gl_fh_pinned_commits ?roots) \<union> set (gl_pending ?roots)" for h
  proof -
    have "NBlob h \<in> gc_roots (s_io ?s = []) ?s (d_refs d) (d_state d) ?roots policy" using that by (auto simp: gc_roots_def)
    then have "NBlob h \<in> ?N" by (rule reach_root)
    with keep show ?thesis by force
  qed
  have wt: "find_object t (e_hash e) = find_object ?s (e_hash e)"
    if a: "branch_by_name n d = Some p" "lookup path (bc_wt (ctx d p)) = Some e" "referenced_leaf e" for n p path e
  proof (rule root)
    have b: "map_of (d_branches d) (bc_id (ctx d p)) = Some p" by (rule inv_by_name(1) [OF i a(1)])
    have "e_hash e \<in> set (leaf_hashes (bc_wt (ctx d p)))" by (rule leaf_hashes_mem [OF invE(6) [OF i b] a(2,3)])
    with map_of_SomeD [OF b] show "e_hash e \<in> set (gl_wt_hashes ?roots) \<union> set (gl_fh_blob_hashes ?roots) \<union>
        set (gl_fh_pinned_commits ?roots) \<union> set (gl_pending ?roots)"
      by (force simp: collect_live_roots_def)
  qed
  have fh: "find_object t h = find_object ?s h" if a: "get_fh fh d = Some st" "h \<in> {fh_base_blob st, fh_pinned st} - {ZERO_HASH}" for fh st h
  proof (rule root)
    have "(fh, st) \<in> set (d_fhs d)" using a(1) by (simp add: get_fh_def map_of_SomeD)
    with a(2) show "h \<in> set (gl_wt_hashes ?roots) \<union> set (gl_fh_blob_hashes ?roots) \<union>
        set (gl_fh_pinned_commits ?roots) \<union> set (gl_pending ?roots)"
      by (force simp: collect_live_roots_def)
  qed
  have pd: "find_object t h = find_object ?s h" if "h \<in> set (s_pending ?s)" for h
    using root [of h] that by (simp add: collect_live_roots_def pending_snapshot_def)
  have ds: "d_store d' = t" by (simp add: t(2))
  show ?thesis unfolding ds
  proof (intro conjI)
    show "\<exists>t. d' = d\<lparr>d_store := t\<rparr>" using t(2) by blast
  qed (use wt fh pd keep in blast)+
qed

text \<open>A collection with a garbage object 3, a file with the blob 4, and a young object 5.\<close>

definition gc_daemon :: daemon where
  "gc_daemon = (daemon_new 1 gc_store gc_no_refs empty_dir)
     \<lparr>d_ctxs := [branch_new 0 ''main'' (insert_entry ''/f'' \<lparr>e_kind = Blob, e_hash = 4, e_mode = 420\<rparr> wt_new)]\<rparr>"

theorem daemon_gc_safe_witness:
  "\<exists>res d'. daemon_gc 0 [] gc_plain gc_daemon = Some (res, d') \<and> find_object (d_store d') 4 = Some (gc_object 0)"
proof -
  let ?e = "\<lparr>e_kind = Blob, e_hash = 4, e_mode = 420\<rparr>"
  have "wt_inv (insert_entry ''/f'' ?e wt_new)"
    using basic_inv [OF step_basic [OF insert_step] wt_inv_fresh(2)] by simp
  then have i: "daemon_inv gc_daemon"
    by (simp add: gc_daemon_def daemon_inv_def names_inv_def names_ok_def daemon_new_def branch_new_def handles_inv_def om_wf_def)
  obtain res t where "gc_run 0 (d_refs gc_daemon) (d_state gc_daemon) (collect_live_roots [] gc_daemon) gc_plain (d_store gc_daemon) = Some (res, t)"
    by (rule gc_sample_run)
  then have g: "daemon_gc 0 [] gc_plain gc_daemon = Some (res, gc_daemon\<lparr>d_store := t\<rparr>)" by (simp add: daemon_gc_def)
  have b: "branch_by_name ''main'' gc_daemon = Some 0" by (simp add: gc_daemon_def branch_by_name_def daemon_new_def)
  have l: "lookup ''/f'' (bc_wt (ctx gc_daemon 0)) = Some ?e"
    by (simp add: gc_daemon_def ctx_def branch_new_def lookup_def lookup_raw_view insert_entry_def wt_raw_put)
  have r: "referenced_leaf ?e" by (simp add: referenced_leaf_def)
  have s: "find_object (d_store gc_daemon) 4 = Some (gc_object 0)" by (simp add: gc_daemon_def daemon_new_def gc_sample)
  from conjunct1 [OF daemon_gc_safe [OF i g], rule_format, OF conjI [OF b conjI [OF l r]]] s g show ?thesis by auto
qed

end
