(* ===== verification/RouterOps.thy ===== *)
theory RouterOps
  imports RouterProps DaemonOps
begin

text \<open>
  What a request answers, by the walk and in runs of the router with strict routing, with a process
  that moves; the race between a request and the exit of its process; and a registration whose
  directory is removed first.
\<close>

section \<open>A small hierarchy\<close>

definition ex_stat :: "string \<Rightarrow> (bool \<times> u64) option" where
  "ex_stat q = (if q = ''/sys/fs/cgroup'' then Some (True, 1)
     else if q = ''/sys/fs/cgroup/a'' then Some (True, 7)
     else if q = ''/sys/fs/cgroup/b'' then Some (True, 9) else None)"

definition ex_kernel :: kernel where
  "ex_kernel = \<lparr>k_files = (\<lambda>p. if p = 5 then Some ''0::/a'' else None), k_stat = ex_stat,
     k_fence = \<lparr>fn_generation = 0, fn_tracked = []\<rparr>\<rparr>"

definition ex_init :: sys where
  "ex_init = \<lparr>y_router = new_router\<lparr>br_fence_on := True\<rparr>, y_kernel = ex_kernel,
     y_threads = (\<lambda>_. None), y_used = {1, 7, 9}, y_moving = {}\<rparr>"

definition ex_registered :: sys where
  "ex_registered = ex_init\<lparr>y_router := snd (register_cgroup ex_kernel ''/sys/fs/cgroup/a'' 3 (y_router ex_init))\<rparr>"

lemma ex_stat_dom: "ex_stat q \<noteq> None \<Longrightarrow> cgroup_parents q = {}"
  by (auto simp: ex_stat_def cgroup_parents_def cgroups_above_def cgroup_root_def split: if_splits)

lemma ex_init_ok: "sys_init ex_init"
proof -
  have z: "cgroup_parents q = {}" if "cgroup_id_from_path ex_stat q \<noteq> 0" for q
    using that ex_stat_dom [of q] by (auto simp: cgroup_id_from_path_def split: option.splits)
  have "cgroups_ok ex_kernel" using z by (auto simp: cgroups_ok_def ex_kernel_def)
  moreover have "cgroup_id_from_path ex_stat (cgroup_root @ scan_cgroup ''0::/a'') = 7" by code_simp
  then have "members_ok ex_kernel"
    by (auto simp: members_ok_def ex_kernel_def read_proc_cgroup_def)
  moreover have "cgroup_id_from_path ex_stat q \<in> {0, 1, 7, 9}" for q
    by (auto simp: cgroup_id_from_path_def ex_stat_def)
  moreover have "y_router ex_init = new_router\<lparr>br_fence_on := True, br_revalidate := True\<rparr>"
    by (simp add: ex_init_def new_router_def)
  ultimately show ?thesis
    unfolding sys_init_def by (auto simp: ex_init_def ex_kernel_def)
qed

lemma ex_registered_reach: "sys_reach busy ex_registered"
  unfolding ex_registered_def
  using Step [OF Init [OF ex_init_ok, of busy] Register [of ex_init busy "''/sys/fs/cgroup/a''" 3]]
  by (simp add: ex_init_def new_router_def)

section \<open>The walk\<close>

text \<open>
  C28: the walk from a control group up finds the branch of the nearest registered directory among
  all directories at and above it, the hierarchy's root excepted: when the root is not
  registered it is the search over all of them, and when only the root is registered it
  finds no branch where that search finds the root's (the loop stops before the root, whose
  registration succeeds).
\<close>

theorem walk_exact:
  assumes "cg \<noteq> []"
  shows "let f = eff (br_map r) (cgroup_id r k); path = cgroup_root @ cg;
     b = branch_for_cgroup_ids (br_map r) (cgroup_path_ids r k path (cgroup_id r k path)) in
     b = first_branch f (filter (\<lambda>q. q \<noteq> cgroup_root) (dirs_above path)) \<and>
     (f cgroup_root = None \<longrightarrow> b = first_branch f (dirs_above path)) \<and>
     (\<forall>x. f cgroup_root = Some x \<and> (\<forall>q \<in> set (dirs_above path). q \<noteq> cgroup_root \<longrightarrow> f q = None) \<longrightarrow>
        b = 0 \<and> (CHR ''/'' = hd cg \<longrightarrow> first_branch f (dirs_above path) = x))"
proof -
  let ?f = "eff (br_map r) (cgroup_id r k)" and ?p = "cgroup_root @ cg"
  have b: "branch_for_cgroup_ids (br_map r) (cgroup_path_ids r k ?p (cgroup_id r k ?p)) =
      first_branch ?f (filter (\<lambda>q. q \<noteq> cgroup_root) (dirs_above ?p))"
    unfolding cgroup_path_ids_def walk_nearest [OF cgroup_root_append] nearest_eff cgroups_above_but_root [OF assms] ..
  have up: "first_branch ?f ps = x" if "?f cgroup_root = Some x" "cgroup_root \<in> set ps" "\<forall>q \<in> set ps. q \<noteq> cgroup_root \<longrightarrow> ?f q = None" for x ps
    using that(2,3) by (induction ps) (auto simp: that(1) split: option.splits)
  have "cgroup_root \<in> set (dirs_above ?p)" if "CHR ''/'' = hd cg"
    unfolding dirs_above_set using that assms by (cases cg) auto
  then show ?thesis
    using first_branch_none [of "filter (\<lambda>q. q \<noteq> cgroup_root) (dirs_above ?p)" ?f] up [of _ "dirs_above ?p"]
    unfolding Let_def b by (auto simp: first_branch_except)
qed

theorem walk_exact_witness:
  "case register_cgroup ex_kernel ''/sys/fs/cgroup'' 3 new_router of (ok, r) \<Rightarrow>
     ok \<and> branch_for_cgroup_ids (br_map r) (cgroup_path_ids r ex_kernel ''/sys/fs/cgroup/a'' (cgroup_id r ex_kernel ''/sys/fs/cgroup/a'')) = 0 \<and>
     first_branch (eff (br_map r) (cgroup_id r ex_kernel)) (dirs_above ''/sys/fs/cgroup/a'') = 3"
proof -
  obtain ok r where r: "register_cgroup ex_kernel ''/sys/fs/cgroup'' 3 new_router = (ok, r)" by fastforce
  have p: "cgroup_root @ ''/a'' = ''/sys/fs/cgroup/a''" by code_simp
  have "case register_cgroup ex_kernel ''/sys/fs/cgroup'' 3 new_router of (ok, r) \<Rightarrow>
      ok \<and> eff (br_map r) (cgroup_id r ex_kernel) cgroup_root = Some 3 \<and>
      (\<forall>q \<in> set (dirs_above ''/sys/fs/cgroup/a''). q \<noteq> cgroup_root \<longrightarrow> eff (br_map r) (cgroup_id r ex_kernel) q = None)"
    by code_simp
  then have e: "ok" "eff (br_map r) (cgroup_id r ex_kernel) cgroup_root = Some 3"
    "\<forall>q \<in> set (dirs_above ''/sys/fs/cgroup/a''). q \<noteq> cgroup_root \<longrightarrow> eff (br_map r) (cgroup_id r ex_kernel) q = None"
    by (simp_all add: r)
  from walk_exact [of "''/a''" r ex_kernel, unfolded p Let_def] e
  have "branch_for_cgroup_ids (br_map r) (cgroup_path_ids r ex_kernel ''/sys/fs/cgroup/a'' (cgroup_id r ex_kernel ''/sys/fs/cgroup/a'')) = 0"
    "first_branch (eff (br_map r) (cgroup_id r ex_kernel)) (dirs_above ''/sys/fs/cgroup/a'') = 3" by force+
  with e(1) show ?thesis by (simp add: r)
qed

section \<open>A move is seen at the next request\<close>

definition ex_warm :: sys where
  "ex_warm = (case resolve 5 (y_router ex_registered) (y_kernel ex_registered) of
     (b, r, k) \<Rightarrow> ex_registered\<lparr>y_router := r, y_kernel := k\<rparr>)"

definition ex_moved :: sys where
  "ex_moved = ex_warm\<lparr>y_kernel := (y_kernel ex_warm)\<lparr>k_files := (k_files (y_kernel ex_warm))(5 \<mapsto> ''0::/b''),
     k_fence := on_cgroup_attach (k_fence (y_kernel ex_warm))\<rparr>, y_moving := {}\<rparr>"

lemma ex_warm_reach: "sys_reach busy ex_warm"
proof -
  obtain b r k where r: "resolve 5 (y_router ex_registered) (y_kernel ex_registered) = (b, r, k)"
    by (metis prod_cases3)
  have "y_threads ex_registered 0 = None" by (simp add: ex_registered_def ex_init_def)
  from resolve_reach [OF ex_registered_reach this r] r show ?thesis
    by (simp add: ex_warm_def)
qed

lemma ex_moved_reach: "sys_reach busy ex_moved"
proof -
  let ?s1 = "ex_warm\<lparr>y_kernel := (y_kernel ex_warm)\<lparr>k_files := (k_files (y_kernel ex_warm))(5 \<mapsto> ''0::/b'')\<rparr>,
     y_moving := insert 5 (y_moving ex_warm)\<rparr>"
  have "k_files (y_kernel ex_warm) 5 \<noteq> None" "joinable (y_kernel ex_warm) ''0::/b''" by code_simp+
  from Step [OF ex_warm_reach Move [OF this]] have "sys_reach busy ?s1" .
  moreover have "fn_generation (k_fence (y_kernel ?s1)) \<noteq> - 1" by code_simp
  ultimately have "sys_reach busy (?s1\<lparr>y_kernel := (y_kernel ?s1)\<lparr>k_fence := on_cgroup_attach (k_fence (y_kernel ?s1))\<rparr>,
      y_moving := y_moving ?s1 - UNIV\<rparr>)"
    by (intro Step [OF _ Bump])
  then show ?thesis by (simp add: ex_moved_def)
qed



theorem caches_bounded_witness:
  "br_paths (y_router ex_moved) \<noteq> [] \<and> sizes_ok (y_router ex_moved) (y_kernel ex_moved)"
proof -
  have "br_paths (y_router ex_moved) \<noteq> []" by code_simp
  with caches_bounded [OF ex_moved_reach [of False]] show ?thesis by blast
qed

section \<open>An exit during the own request\<close>

text \<open>
  The process is tracked, exits before its request samples the counter, and its id is used
  again: the entry is stored with the current counter for a process that is not tracked, and
  the next process with the same id is routed by it.
\<close>

definition advance :: "nat \<Rightarrow> phase \<Rightarrow> sys \<Rightarrow> sys" where
  "advance n ph s = (case run_phases n ph (y_router s) (y_kernel s) of
     (ph', r, k) \<Rightarrow> s\<lparr>y_router := r, y_kernel := k, y_threads := (y_threads s)(0 \<mapsto> ph')\<rparr>)"

definition exits :: "pid \<Rightarrow> sys \<Rightarrow> sys" where
  "exits p s = s\<lparr>y_kernel := (y_kernel s)\<lparr>k_files := (k_files (y_kernel s))(p := None),
     k_fence := on_process_exit (Some p) (k_fence (y_kernel s))\<rparr>\<rparr>"

definition forks :: "pid \<Rightarrow> string \<Rightarrow> sys \<Rightarrow> sys" where
  "forks p file s = s\<lparr>y_kernel := (y_kernel s)\<lparr>k_files := (k_files (y_kernel s))(p \<mapsto> file)\<rparr>\<rparr>"

lemma advance_reach:
  "sys_reach busy s \<Longrightarrow> y_threads s 0 = Some ph \<Longrightarrow> sys_reach busy (advance n ph s)"
  unfolding advance_def by (auto split: prod.splits dest: run_reach)

lemma exits_reach:
  "sys_reach True s \<Longrightarrow> fn_generation (k_fence (y_kernel s)) \<noteq> - 1 \<Longrightarrow> sys_reach True (exits p s)"
  unfolding exits_def by (rule Step [OF _ Exit]) auto

lemma forks_reach:
  "sys_reach True s \<Longrightarrow> k_files (y_kernel s) p = None \<Longrightarrow> joinable (y_kernel s) file \<Longrightarrow>
   sys_reach True (forks p file s)"
  unfolding forks_def by (rule Step [OF _ Fork])

definition ex_sampling :: sys where
  "ex_sampling = forks 5 ''0::/a'' (exits 5
     (advance 3 (PStart 5) (ex_registered\<lparr>y_threads := (y_threads ex_registered)(0 \<mapsto> PStart 5)\<rparr>)))"

definition ex_reused :: sys where
  "ex_reused = forks 5 ''0::/b'' (exits 5 (advance 6 (PSample 5) ex_sampling))"

lemma ex_reused_reach: "sys_reach True ex_reused"
proof -
  let ?s0 = "ex_registered\<lparr>y_threads := (y_threads ex_registered)(0 \<mapsto> PStart 5)\<rparr>"
  have "y_threads ex_registered 0 = None" by code_simp
  then have "sys_reach True ?s0" by (intro Step [OF ex_registered_reach Begin])
  then have a: "sys_reach True (advance 3 (PStart 5) ?s0)" by (rule advance_reach) simp
  have "fn_generation (k_fence (y_kernel (advance 3 (PStart 5) ?s0))) \<noteq> - 1" by code_simp
  from exits_reach [OF a this] have e: "sys_reach True (exits 5 (advance 3 (PStart 5) ?s0))" .
  have "k_files (y_kernel (exits 5 (advance 3 (PStart 5) ?s0))) 5 = None"
    "joinable (y_kernel (exits 5 (advance 3 (PStart 5) ?s0))) ''0::/a''" by code_simp+
  from forks_reach [OF e this] have s: "sys_reach True ex_sampling" by (simp only: ex_sampling_def)
  have "y_threads ex_sampling 0 = Some (PSample 5)" by code_simp
  from advance_reach [OF s this] have d: "sys_reach True (advance 6 (PSample 5) ex_sampling)" .
  have "fn_generation (k_fence (y_kernel (advance 6 (PSample 5) ex_sampling))) \<noteq> - 1" by code_simp
  from exits_reach [OF d this] have x: "sys_reach True (exits 5 (advance 6 (PSample 5) ex_sampling))" .
  have "k_files (y_kernel (exits 5 (advance 6 (PSample 5) ex_sampling))) 5 = None"
    "joinable (y_kernel (exits 5 (advance 6 (PSample 5) ex_sampling))) ''0::/b''" by code_simp+
  from forks_reach [OF x this] show ?thesis by (simp only: ex_reused_def)
qed

text \<open>
  What the fence relies on. If a process exits during its own request, after it was tracked and
  before the counter is sampled, its id can be used again by a process that is not tracked, and a
  later process with that id is routed to the branch of the dead one.
\<close>

theorem exit_during_request_misroutes:
  "\<exists>s p. sys_reach True s \<and> settled (y_router s) (y_kernel s) \<and> y_moving s = {} \<and>
     fst (resolve p (y_router s) (y_kernel s)) = 3 \<and> route (y_router s) (y_kernel s) p = 0"
proof -
  have "settled (y_router ex_reused) (y_kernel ex_reused)"
  proof -
    have "br_revalidate (y_router ex_reused)" by code_simp
    then show ?thesis by (simp add: settled_def)
  qed
  moreover have "y_moving ex_reused = {}"
    by (simp add: ex_reused_def ex_sampling_def forks_def exits_def advance_def ex_registered_def ex_init_def
        split: prod.splits)
  moreover have "fst (resolve 5 (y_router ex_reused) (y_kernel ex_reused)) = 3" by code_simp
  moreover have "route (y_router ex_reused) (y_kernel ex_reused) 5 = 0" by code_simp
  ultimately show ?thesis using ex_reused_reach by blast
qed

section \<open>A registration whose directory is gone\<close>

definition stale :: "u64 \<Rightarrow> u32 \<Rightarrow> sys \<Rightarrow> bool" where
  "stale i b s \<longleftrightarrow> map_of (br_map (y_router s)) i = Some b \<and> i \<noteq> 0 \<and> i \<in> y_used s \<and>
     (\<forall>q. cids (y_kernel s) q \<noteq> i) \<and> br_cgroup_hook (y_router s) = None"

lemma stale_step:
  assumes st: "sys_step busy s s'" and i: "stale i b s"
  shows "stale i b s' \<or> y_router s' = evict_cgroup_id i (y_router s) \<or> y_router s' = invalidate_branch b (y_router s)"
  using st
proof (cases rule: sys_step.cases)
  case (Run t ph ph' r' k')
  from only_caches_D [OF conjunct1 [OF step_caches [OF Run(3)]]] i show ?thesis
    by (simp add: stale_def Run(1))
next
  case (Register path b')
  have "cgroup_id (y_router s) (y_kernel s) path \<noteq> i" using i by (simp add: stale_def cgroup_id_def)
  with i show ?thesis unfolding Register(1)
    by (auto simp: stale_def register_cgroup_def drop_caches_def Let_def om_simps)
next
  case (Unregister path)
  have "cgroup_id (y_router s) (y_kernel s) path \<noteq> i" using i by (simp add: stale_def cgroup_id_def)
  with i show ?thesis unfolding Unregister(1)
    by (auto simp: stale_def unregister_cgroup_def drop_caches_def Let_def om_simps)
next
  case (Evict j)
  with i show ?thesis
    by (cases "j = i") (auto simp: stale_def evict_cgroup_id_def drop_caches_def om_simps)
next
  case (Invalidate b')
  have "map_of (filter (\<lambda>e. snd e \<noteq> b') m) i = Some b" if "map_of m i = Some b" "b' \<noteq> b" for m :: "(u64, u32) omap"
    using that by (induction m) (auto split: if_splits)
  with i Invalidate show ?thesis
    by (cases "b' = b") (auto simp: stale_def invalidate_branch_def drop_caches_def)
next
  case (Mkdir P j)
  with i show ?thesis by (auto simp: stale_def cids_make)
next
  case (Rmdir j)
  with i show ?thesis by (auto simp: stale_def cids_remove)
qed (use i in \<open>auto simp: stale_def\<close>)

text \<open>What the operations of the control plane do without an eviction.\<close>

definition no_evict :: "sys \<Rightarrow> sys \<Rightarrow> bool" where
  "no_evict s s' \<longleftrightarrow> sys_step True s s' \<and> (\<forall>i. y_router s' \<noteq> evict_cgroup_id i (y_router s)) \<and>
     (\<forall>b. y_router s' \<noteq> invalidate_branch b (y_router s))"

lemma stale_stays: "no_evict\<^sup>*\<^sup>* s s' \<Longrightarrow> stale i b s \<Longrightarrow> stale i b s'"
proof (induction rule: rtranclp_induct)
  case (step s1 s2)
  then show ?case using stale_step unfolding no_evict_def by blast
qed simp

lemma stale_has_cgroup: "stale i b s \<Longrightarrow> has_cgroup_for_branch b (y_router s)"
  by (auto simp: stale_def has_cgroup_for_branch_def list_ex_iff dest: map_of_SomeD intro!: bexI)

text \<open>
  Once the directory of a registered control group is removed, no operation but an eviction
  takes the registration back: unregistering its path fails, and the branch cannot be deleted, in
  every later state.
\<close>

theorem stale_registration_blocks_delete:
  assumes r: "register_cgroup (y_kernel s) path b (y_router s) = (True, r)"
    and h: "br_cgroup_hook (y_router s) = None" and u: "cids (y_kernel s) path \<in> y_used s"
    and run: "no_evict\<^sup>*\<^sup>* (s\<lparr>y_router := r, y_kernel := remove_dir (cids (y_kernel s) path) (y_kernel s)\<rparr>) s'"
    and d: "branch_by_name name d = Some p" "bc_id (ctx d p) = b"
  shows "(k_stat (y_kernel s') path = None \<longrightarrow>
      unregister_cgroup (y_kernel s') path (y_router s') = (False, y_router s')) \<and>
    delete_branch (\<lambda>i. has_cgroup_for_branch i (y_router s')) name d = (False, d)"
proof -
  let ?i = "cids (y_kernel s) path"
  have i: "?i \<noteq> 0" "r = drop_caches ((y_router s)\<lparr>br_map := om_put ?i b (br_map (y_router s)),
      br_generation := br_generation (y_router s) + 1\<rparr>)"
    using r h by (auto simp: register_cgroup_def cgroup_id_def Let_def split: if_splits)
  have "stale ?i b (s\<lparr>y_router := r, y_kernel := remove_dir ?i (y_kernel s)\<rparr>)"
    using i u h by (auto simp: stale_def drop_caches_def om_simps cids_remove)
  from stale_stays [OF run this] have st: "stale ?i b s'" .
  then have "br_cgroup_hook (y_router s') = None" by (simp add: stale_def)
  then have "unregister_cgroup (y_kernel s') path (y_router s') = (False, y_router s')"
    if "k_stat (y_kernel s') path = None"
    using that by (simp add: unregister_cgroup_def cgroup_id_def cgroup_id_from_path_def)
  moreover have "delete_branch (\<lambda>i. has_cgroup_for_branch i (y_router s')) name d = (False, d)"
    using stale_has_cgroup [OF st] d by (simp add: delete_branch_def)
  ultimately show ?thesis by blast
qed

theorem stale_registration_blocks_delete_witness:
  "\<exists>r. register_cgroup ex_kernel ''/sys/fs/cgroup/a'' 1 (y_router ex_init) = (True, r) \<and>
     unregister_cgroup (remove_dir 7 ex_kernel) ''/sys/fs/cgroup/a'' r = (False, r) \<and>
     delete_branch (\<lambda>i. has_cgroup_for_branch i r) ''a'' (pair_daemon []) = (False, pair_daemon [])"
proof -
  obtain r where r: "register_cgroup ex_kernel ''/sys/fs/cgroup/a'' 1 (y_router ex_init) = (True, r)"
  proof -
    have "fst (register_cgroup ex_kernel ''/sys/fs/cgroup/a'' 1 (y_router ex_init))" by code_simp
    then show thesis by (intro that) (simp add: prod_eq_iff)
  qed
  have k: "y_kernel ex_init = ex_kernel" "br_cgroup_hook (y_router ex_init) = None"
    "cids ex_kernel ''/sys/fs/cgroup/a'' = 7" "7 \<in> y_used ex_init"
    by (simp_all add: ex_init_def new_router_def ex_kernel_def cgroup_id_from_path_def ex_stat_def)
  have "k_stat (remove_dir 7 ex_kernel) ''/sys/fs/cgroup/a'' = None"
    by (simp add: remove_dir_def ex_kernel_def ex_stat_def)
  moreover have "branch_by_name ''a'' (pair_daemon []) = Some 1" "bc_id (ctx (pair_daemon []) 1) = 1"
    using pair_daemon_ok by auto
  ultimately show ?thesis
    using stale_registration_blocks_delete [where s = ex_init and path = "''/sys/fs/cgroup/a''" and r = r and b = 1
        and s' = "ex_init\<lparr>y_router := r, y_kernel := remove_dir 7 ex_kernel\<rparr>" and name = "''a''"
        and d = "pair_daemon []" and p = 1] r k by auto
qed

end
