(* ===== verification/CgroupWatch.thy ===== *)
theory CgroupWatch
  imports RouterOps
begin

unbundle bit_operations_syntax

text \<open>
  \<open>cgroup_watch.h\<close> and \<open>cgroup_watch.cpp\<close>: the thread that learns from inotify that a registered
  control group was deleted, and the handlers of \<open>session.register\<close> and \<open>session.unregister\<close> of
  \<open>control_protocol.cpp\<close> as far as they use it. The results of \<open>inotify_add_watch\<close> and of the
  system calls of \<open>start\<close> are arguments; calls of \<open>inotify_rm_watch\<close> are returned.
\<close>

record child =
  ch_path :: string
  ch_inode :: u64

record watch_parent =
  wp_dir :: string
  wp_children :: "(string, child) omap"

record cgroup_watch =
  cw_by_wd :: "(nat, watch_parent) omap"
  cw_wd_by_parent :: "(string, nat) omap"
  cw_running :: bool

definition new_watch :: cgroup_watch where
  "new_watch = \<lparr>cw_by_wd = [], cw_wd_by_parent = [], cw_running = False\<rparr>"

text \<open>\<open>while (trimmed.size() > 1 && trimmed.back() == '/') trimmed.pop_back();\<close>\<close>

function trim_slashes :: "string \<Rightarrow> string" where
  "trim_slashes s = (if 1 < length s \<and> last s = CHR ''/'' then trim_slashes (butlast s) else s)"
  by pat_completeness auto
termination by (relation "measure length") auto

declare trim_slashes.simps [simp del]

definition watch_split_path :: "string \<Rightarrow> (string \<times> string) option" where
  "watch_split_path dir = (let t = trim_slashes dir in case last_slash t of None \<Rightarrow> None
     | Some i \<Rightarrow> if length t \<le> i + 1 then None
                 else Some (if i = 0 then ''/'' else take i t, drop (i + 1) t))"

definition watch_start :: "bool \<Rightarrow> bool \<Rightarrow> cgroup_watch \<Rightarrow> bool \<times> cgroup_watch" where
  "watch_start inotify_ok eventfd_ok w =
     (if cw_running w then (True, w)
      else if inotify_ok \<and> eventfd_ok then (True, w\<lparr>cw_running := True\<rparr>) else (False, w))"

definition watch_dir ::
    "(string \<Rightarrow> (bool \<times> u64) option) \<Rightarrow> nat option \<Rightarrow> string \<Rightarrow> cgroup_watch \<Rightarrow> bool \<times> cgroup_watch" where
  "watch_dir st added dir w = (case watch_split_path dir of None \<Rightarrow> (False, w)
     | Some (parent, name) \<Rightarrow>
       (case st dir of None \<Rightarrow> (False, w)
        | Some (is_dir, ino) \<Rightarrow>
            (if \<not> is_dir \<or> \<not> cw_running w then (False, w)
             else case added of None \<Rightarrow> (False, w)
             | Some wd \<Rightarrow>
               let cs = (case map_of (cw_by_wd w) wd of None \<Rightarrow> [] | Some e \<Rightarrow> wp_children e);
                   e = \<lparr>wp_dir = parent, wp_children = om_put name \<lparr>ch_path = dir, ch_inode = ino\<rparr> cs\<rparr>
               in (True, w\<lparr>cw_by_wd := om_put wd e (cw_by_wd w),
                           cw_wd_by_parent := om_put parent wd (cw_wd_by_parent w)\<rparr>))))"

definition unwatch_dir :: "string \<Rightarrow> cgroup_watch \<Rightarrow> nat list \<times> cgroup_watch" where
  "unwatch_dir dir w = (case watch_split_path dir of None \<Rightarrow> ([], w)
     | Some (parent, name) \<Rightarrow>
       (case map_of (cw_wd_by_parent w) parent of None \<Rightarrow> ([], w)
        | Some wd \<Rightarrow>
          (case map_of (cw_by_wd w) wd of None \<Rightarrow> ([], w)
           | Some e \<Rightarrow>
             let cs = om_del name (wp_children e)
             in if cs = [] then (if cw_running w then [wd] else [],
                  w\<lparr>cw_by_wd := om_del wd (cw_by_wd w), cw_wd_by_parent := om_del parent (cw_wd_by_parent w)\<rparr>)
                else ([], w\<lparr>cw_by_wd := om_put wd (e\<lparr>wp_children := cs\<rparr>) (cw_by_wd w)\<rparr>))))"

definition watch_stop :: "cgroup_watch \<Rightarrow> cgroup_watch" where
  "watch_stop w = (if cw_running w then new_watch else w)"

section \<open>Events\<close>

record event =
  ev_wd :: nat
  ev_mask :: u32
  ev_name :: bytes

definition IN_MOVED_FROM :: u32 where "IN_MOVED_FROM = 0x40"
definition IN_DELETE :: u32 where "IN_DELETE = 0x200"
definition IN_UNMOUNT :: u32 where "IN_UNMOUNT = 0x2000"
definition IN_IGNORED :: u32 where "IN_IGNORED = 0x8000"

text \<open>The structures of a read: watch, mask, cookie, length of the name, each four bytes, and the name.\<close>

function decode_events :: "bytes \<Rightarrow> event list" where
  "decode_events b = (if length b < 16 then []
     else let len = le_val (take 4 (drop 12 b))
          in \<lparr>ev_wd = le_val (take 4 b), ev_mask = dec32 (take 4 (drop 4 b)), ev_name = take len (drop 16 b)\<rparr>
             # decode_events (drop (16 + len) b))"
  by pat_completeness auto
termination by (relation "measure length") (auto simp: not_less)

declare decode_events.simps [simp del]

text \<open>The deletions to report, the watches to remove and the state after one event.\<close>

definition handle_event :: "event \<Rightarrow> cgroup_watch \<Rightarrow> child list \<times> nat list \<times> cgroup_watch" where
  "handle_event ev w =
     (if ev_mask ev AND (IN_DELETE OR IN_MOVED_FROM) \<noteq> 0 then
        (if ev_name ev = [] then ([], [], w)
         else let name = string_of (takeWhile (\<lambda>c. c \<noteq> 0) (ev_name ev))
              in case map_of (cw_by_wd w) (ev_wd ev) of None \<Rightarrow> ([], [], w)
                 | Some e \<Rightarrow>
                   (case map_of (wp_children e) name of None \<Rightarrow> ([], [], w)
                    | Some c \<Rightarrow>
                      let cs = om_del name (wp_children e)
                      in if cs = [] then ([c], [ev_wd ev],
                           w\<lparr>cw_by_wd := om_del (ev_wd ev) (cw_by_wd w),
                             cw_wd_by_parent := om_del (wp_dir e) (cw_wd_by_parent w)\<rparr>)
                         else ([c], [], w\<lparr>cw_by_wd := om_put (ev_wd ev) (e\<lparr>wp_children := cs\<rparr>) (cw_by_wd w)\<rparr>)))
      else if ev_mask ev AND (IN_IGNORED OR IN_UNMOUNT) \<noteq> 0 then
        (case map_of (cw_by_wd w) (ev_wd ev) of None \<Rightarrow> ([], [], w)
         | Some e \<Rightarrow> (map snd (wp_children e), [],
             w\<lparr>cw_by_wd := om_del (ev_wd ev) (cw_by_wd w),
               cw_wd_by_parent := om_del (wp_dir e) (cw_wd_by_parent w)\<rparr>))
      else ([], [], w))"

text \<open>The events of a read in order; each reported deletion evicts the registration (\<open>main.cpp\<close>).\<close>

definition evict_children :: "child list \<Rightarrow> router \<Rightarrow> router" where
  "evict_children cs r = fold (\<lambda>c. evict_cgroup_id (ch_inode c)) cs r"

fun handle_events :: "event list \<Rightarrow> cgroup_watch \<times> router \<Rightarrow> cgroup_watch \<times> router" where
  "handle_events [] wr = wr"
| "handle_events (ev # evs) (w, r) =
     (let (cs, _, w) = handle_event ev w in handle_events evs (w, evict_children cs r))"

definition watch_read :: "bytes \<Rightarrow> cgroup_watch \<times> router \<Rightarrow> cgroup_watch \<times> router" where
  "watch_read buf = handle_events (decode_events buf)"

section \<open>The sessions of the control plane\<close>

definition session_register ::
    "kernel \<Rightarrow> nat option \<Rightarrow> bool \<Rightarrow> string \<Rightarrow> u32 \<Rightarrow> cgroup_watch \<times> router \<Rightarrow> bool \<times> cgroup_watch \<times> router" where
  "session_register k added has_watch cg b wr =
     (let (w, r) = wr;
          (watched, w) = (if has_watch then watch_dir (k_stat k) added cg w else (False, w));
          (ok, r) = register_cgroup k cg b r
      in if \<not> ok then (False, if watched then snd (unwatch_dir cg w) else w, r)
         else (True, w, if has_watch \<and> \<not> watched then set_leaf_revalidation True r else r))"

definition session_unregister :: "kernel \<Rightarrow> bool \<Rightarrow> string \<Rightarrow> cgroup_watch \<times> router \<Rightarrow> cgroup_watch \<times> router" where
  "session_unregister k has_watch cg wr =
     (let (w, r) = wr; r = snd (unregister_cgroup k cg r)
      in (if has_watch then snd (unwatch_dir cg w) else w, r))"

section \<open>Events are read back\<close>

definition encode_event :: "u32 \<Rightarrow> event \<Rightarrow> bytes" where
  "encode_event cookie ev = le_bytes 4 (ev_wd ev) @ le_bytes 4 (unat (ev_mask ev)) @ le_bytes 4 (unat cookie) @
     le_bytes 4 (length (ev_name ev)) @ ev_name ev"

definition event_fits :: "event \<Rightarrow> bool" where
  "event_fits ev \<longleftrightarrow> ev_wd ev < 2 ^ 32 \<and> length (ev_name ev) < 2 ^ 32"

lemma decode_encode_Cons:
  assumes "event_fits ev"
  shows "decode_events (encode_event cookie ev @ rest) = ev # decode_events rest"
proof -
  have l: "le_val (le_bytes 4 (length (ev_name ev))) = length (ev_name ev)" "le_val (le_bytes 4 (ev_wd ev)) = ev_wd ev"
    "dec32 (le_bytes 4 (unat (ev_mask ev))) = ev_mask ev"
    using assms dec_enc(2) [of "ev_mask ev"] by (simp_all add: le_simps event_fits_def enc32_def)
  have n: "\<not> length (encode_event cookie ev @ rest) < 16" by (simp add: encode_event_def)
  have t: "take 4 (encode_event cookie ev @ rest) = le_bytes 4 (ev_wd ev)"
    "take 4 (drop 4 (encode_event cookie ev @ rest)) = le_bytes 4 (unat (ev_mask ev))"
    "take 4 (drop 12 (encode_event cookie ev @ rest)) = le_bytes 4 (length (ev_name ev))"
    "take (length (ev_name ev)) (drop 16 (encode_event cookie ev @ rest)) = ev_name ev"
    "drop (16 + length (ev_name ev)) (encode_event cookie ev @ rest) = rest"
    by (simp_all add: encode_event_def)
  show ?thesis by (subst decode_events.simps) (simp add: n t l Let_def del: take_append drop_append length_append)
qed

text \<open>
  The events of a read are decoded as the kernel laid them out.
\<close>

theorem events_roundtrip:
  "list_all (\<lambda>e. event_fits (snd e)) evs \<Longrightarrow>
   decode_events (concat (map (\<lambda>(cookie, ev). encode_event cookie ev) evs)) = map snd evs"
proof (induction evs)
  case Nil
  show ?case by (simp add: decode_events.simps)
next
  case (Cons e evs)
  then show ?case by (cases e) (simp add: decode_encode_Cons)
qed

section \<open>A deletion reaches the router\<close>

definition watched :: "nat \<Rightarrow> string \<Rightarrow> cgroup_watch \<Rightarrow> child option" where
  "watched wd name w = (case map_of (cw_by_wd w) wd of None \<Rightarrow> None | Some e \<Rightarrow> map_of (wp_children e) name)"

definition removal :: "event \<Rightarrow> bool" where
  "removal ev \<longleftrightarrow> ev_mask ev AND (IN_DELETE OR IN_MOVED_FROM) \<noteq> 0"

definition dropped :: "event \<Rightarrow> bool" where
  "dropped ev \<longleftrightarrow> \<not> removal ev \<and> ev_mask ev AND (IN_IGNORED OR IN_UNMOUNT) \<noteq> 0"

definition event_name :: "event \<Rightarrow> string" where
  "event_name ev = string_of (takeWhile (\<lambda>c. c \<noteq> 0) (ev_name ev))"

definition concerns :: "nat \<Rightarrow> string \<Rightarrow> event \<Rightarrow> bool" where
  "concerns wd name ev \<longleftrightarrow> ev_wd ev = wd \<and>
     (removal ev \<and> ev_name ev \<noteq> [] \<and> event_name ev = name \<or> dropped ev)"

lemma handle_event_cases:
  "handle_event ev w =
     (if removal ev then
        (if ev_name ev = [] then ([], [], w)
         else case watched (ev_wd ev) (event_name ev) w of None \<Rightarrow> ([], [], w)
         | Some c \<Rightarrow> let e = the (map_of (cw_by_wd w) (ev_wd ev)); cs = om_del (event_name ev) (wp_children e)
             in if cs = [] then ([c], [ev_wd ev],
                  w\<lparr>cw_by_wd := om_del (ev_wd ev) (cw_by_wd w), cw_wd_by_parent := om_del (wp_dir e) (cw_wd_by_parent w)\<rparr>)
                else ([c], [], w\<lparr>cw_by_wd := om_put (ev_wd ev) (e\<lparr>wp_children := cs\<rparr>) (cw_by_wd w)\<rparr>))
      else if dropped ev then
        (case map_of (cw_by_wd w) (ev_wd ev) of None \<Rightarrow> ([], [], w)
         | Some e \<Rightarrow> (map snd (wp_children e), [], w\<lparr>cw_by_wd := om_del (ev_wd ev) (cw_by_wd w),
               cw_wd_by_parent := om_del (wp_dir e) (cw_wd_by_parent w)\<rparr>))
      else ([], [], w))"
  by (simp add: handle_event_def removal_def dropped_def event_name_def watched_def Let_def split: option.splits)

lemma handle_event_watched:
  assumes h: "handle_event ev w = (cs, rm, w')" and c: "watched wd name w = Some c"
  shows "if concerns wd name ev then c \<in> set cs else watched wd name w' = Some c"
proof -
  obtain e where e: "map_of (cw_by_wd w) wd = Some e" "map_of (wp_children e) name = Some c"
    using c by (auto simp: watched_def split: option.splits)
  then have s: "c \<in> snd ` set (wp_children e)" by (force dest: map_of_SomeD)
  have ne: "om_del n (wp_children e) \<noteq> []" if "n \<noteq> name" for n
    using map_of_SomeD [OF e(2)] that by (force simp: om_del_def filter_empty_conv)
  show ?thesis
  proof (cases "dropped ev \<and> ev_wd ev = wd")
    case True
    with h e(1) have "cs = map snd (wp_children e)"
      by (auto simp: handle_event_cases dropped_def)
    with True s show ?thesis by (simp add: concerns_def)
  next
    case False
    with h c e ne [of "event_name ev"] show ?thesis
      by (cases "ev_wd ev = wd")
         (auto simp: handle_event_cases concerns_def watched_def om_simps Let_def
           split: if_splits option.splits)
  qed
qed

lemma evict_children_map:
  "map_of (br_map (evict_children cs r)) i = (if i \<in> ch_inode ` set cs then None else map_of (br_map r) i)"
  unfolding evict_children_def
  by (induction cs arbitrary: r) (auto simp: evict_cgroup_id_def drop_caches_def om_simps)

lemma handle_events_gone:
  "map_of (br_map r) i = None \<Longrightarrow> map_of (br_map (snd (handle_events evs (w, r)))) i = None"
proof (induction evs arbitrary: w r)
  case (Cons ev evs)
  obtain cs rm w' where h: "handle_event ev w = (cs, rm, w')" by (metis prod_cases3)
  have "map_of (br_map (evict_children cs r)) i = None" using Cons.prems by (simp add: evict_children_map)
  with Cons.IH h show ?case by simp
qed simp

lemma handle_events_evict:
  "watched wd name w = Some c \<Longrightarrow> ev \<in> set evs \<Longrightarrow> concerns wd name ev \<Longrightarrow>
   map_of (br_map (snd (handle_events evs (w, r)))) (ch_inode c) = None"
proof (induction evs arbitrary: w r)
  case (Cons e evs)
  obtain cs rm w' where h: "handle_event e w = (cs, rm, w')" by (metis prod_cases3)
  show ?case
  proof (cases "concerns wd name e")
    case True
    with handle_event_watched [OF h Cons.prems(1)] have "c \<in> set cs" by simp
    then have "map_of (br_map (evict_children cs r)) (ch_inode c) = None" by (simp add: evict_children_map)
    with h show ?thesis by (simp add: handle_events_gone)
  next
    case False
    with handle_event_watched [OF h Cons.prems(1)] Cons.prems Cons.IH h show ?thesis by auto
  qed
qed simp

lemma watch_dir_watched:
  assumes "cw_running w" "watch_split_path cg = Some (parent, name)" "st cg = Some (True, ino)"
  obtains w' where "watch_dir st (Some wd) cg w = (True, w')" "watched wd name w' = Some \<lparr>ch_path = cg, ch_inode = ino\<rparr>"
    "map_of (cw_wd_by_parent w') parent = Some wd" "cw_running w'"
  using assms by (auto simp: watch_dir_def watched_def Let_def om_simps)

lemma register_id:
  "register_cgroup k cg b r = (True, r') \<Longrightarrow> br_cgroup_hook r = None \<Longrightarrow>
   \<exists>ino. k_stat k cg = Some (True, ino) \<and> ino \<noteq> 0 \<and> map_of (br_map r') ino = Some b"
  by (auto simp: register_cgroup_def cgroup_id_def cgroup_id_from_path_def drop_caches_def om_simps Let_def
      split: option.splits if_splits)

text \<open>
  C29: After a session was registered with a delete watch, the event of its directory's removal, or of
  the loss of the watch, ends its registration, whatever other events are read with it.
\<close>

theorem deletion_reaches_router:
  assumes s: "session_register k (Some wd) True cg b (w, r) = (True, w1, r1)"
    and w: "cw_running w" "watch_split_path cg = Some (parent, name)" and h: "br_cgroup_hook r = None"
    and ev: "ev \<in> set (decode_events buf)" "concerns wd name ev"
  shows "\<exists>ino. k_stat k cg = Some (True, ino) \<and> map_of (br_map r1) ino = Some b \<and>
    map_of (br_map (snd (watch_read buf (w1, r1)))) ino = None"
proof -
  obtain r0 where r0: "register_cgroup k cg b r = (True, r0)"
    using s by (auto simp: session_register_def Let_def split: prod.splits if_splits)
  from register_id [OF r0 h] obtain ino where i: "k_stat k cg = Some (True, ino)" "map_of (br_map r0) ino = Some b"
    by blast
  from watch_dir_watched [where st = "k_stat k", OF w i(1)] obtain w' where
    w': "watch_dir (k_stat k) (Some wd) cg w = (True, w')" "watched wd name w' = Some \<lparr>ch_path = cg, ch_inode = ino\<rparr>"
    by metis
  have "w1 = w'" "r1 = r0" using s by (auto simp: session_register_def w'(1) r0)
  with handle_events_evict [OF w'(2) ev, of r0] i show ?thesis by (auto simp: watch_read_def)
qed

section \<open>A registration outlives its directory\<close>

definition watch_wf :: "cgroup_watch \<Rightarrow> bool" where
  "watch_wf w \<longleftrightarrow> om_wf (cw_by_wd w) \<and> om_wf (cw_wd_by_parent w) \<and>
     (\<forall>wd e. map_of (cw_by_wd w) wd = Some e \<longrightarrow> om_wf (wp_children e))"

definition kids :: "cgroup_watch \<Rightarrow> child set" where
  "kids w = {c. \<exists>wd name. watched wd name w = Some c}"

lemma watched_kids: "watched wd name w = Some c \<Longrightarrow> c \<in> kids w"
  by (auto simp: kids_def)

lemma kids_mono: "(\<And>wd name c. watched wd name w' = Some c \<Longrightarrow> watched wd name w = Some c) \<Longrightarrow> kids w' \<subseteq> kids w"
  unfolding kids_def by blast

lemma handle_event_wf:
  assumes w: "watch_wf w" and h: "handle_event ev w = (cs, rm, w')"
  shows "watch_wf w'"
  using h w
  by (auto simp: handle_event_cases watch_wf_def watched_def om_simps Let_def
      split: if_splits option.splits intro!: om_wf_put om_wf_del)

lemma handle_event_kids:
  assumes w: "watch_wf w" and h: "handle_event ev w = (cs, rm, w')"
  shows "set cs \<subseteq> kids w" "kids w' \<subseteq> kids w"
proof -
  have "c \<in> kids w" if e: "map_of (cw_by_wd w) wd = Some e" and "c \<in> set (map snd (wp_children e))" for wd e c
  proof -
    from that obtain n where "(n, c) \<in> set (wp_children e)" by auto
    then have "map_of (wp_children e) n = Some c"
      using w e by (simp add: watch_wf_def om_get_iff)
    with e show ?thesis by (intro watched_kids [of wd n]) (simp add: watched_def)
  qed
  note all = this
  show "set cs \<subseteq> kids w"
    using h all by (fastforce simp: handle_event_cases Let_def split: if_splits option.splits dest: watched_kids)
  show "kids w' \<subseteq> kids w"
    by (rule kids_mono)
       (use h in \<open>auto simp: handle_event_cases watched_def om_simps Let_def split: if_splits option.splits\<close>)
qed

lemma handle_events_keep:
  "watch_wf w \<Longrightarrow> \<forall>c \<in> kids w. ch_inode c \<noteq> i \<Longrightarrow>
   map_of (br_map (snd (handle_events evs (w, r)))) i = map_of (br_map r) i"
proof (induction evs arbitrary: w r)
  case (Cons ev evs)
  obtain cs rm w' where h: "handle_event ev w = (cs, rm, w')" by (metis prod_cases3)
  note k = handle_event_kids [OF Cons.prems(1) h]
  then have "i \<notin> ch_inode ` set cs" "\<forall>c \<in> kids w'. ch_inode c \<noteq> i" using Cons.prems(2) by blast+
  with Cons.IH [OF handle_event_wf [OF Cons.prems(1) h], of "evict_children cs r"] h
  show ?case by (simp add: evict_children_map)
qed simp

lemma watch_dir_wf: "watch_wf w \<Longrightarrow> watch_wf (snd (watch_dir st added cg w))"
  by (auto simp: watch_dir_def watch_wf_def om_simps Let_def om_wf_Cons split: option.splits prod.splits
      intro!: om_wf_put om_wf_del)

lemma unwatch_dir_wf: "watch_wf w \<Longrightarrow> watch_wf (snd (unwatch_dir cg w))"
  by (auto simp: unwatch_dir_def watch_wf_def om_simps Let_def split: option.splits prod.splits
      intro!: om_wf_put om_wf_del)

lemma watch_unwatch_kids:
  assumes "cw_running w" "watch_split_path cg = Some (parent, name)" "st cg = Some (True, ino)"
  shows "kids (snd (unwatch_dir cg (snd (watch_dir st (Some wd) cg w)))) \<subseteq> kids w"
  by (rule kids_mono)
     (use assms in \<open>auto simp: watch_dir_def unwatch_dir_def watched_def om_simps Let_def split: if_splits option.splits\<close>)

text \<open>
  A session that is unregistered after its directory was removed and before the event of the
  removal was read keeps its registration: the watch forgets the directory, and no later event
  evicts it.
\<close>

theorem early_unregister_keeps_registration:
  assumes s: "session_register k (Some wd) True cg b (w, r) = (True, w1, r1)"
    and w: "cw_running w" "watch_split_path cg = Some (parent, name)" "watch_wf w" and h: "br_cgroup_hook r = None"
    and f: "\<forall>c \<in> kids w. k_stat k cg \<noteq> Some (True, ch_inode c)" and gone: "k_stat k' cg = None"
  shows "\<exists>ino. k_stat k cg = Some (True, ino) \<and> (\<forall>buf.
    map_of (br_map (snd (watch_read buf (session_unregister k' True cg (w1, r1))))) ino = Some b)"
proof -
  obtain r0 where r0: "register_cgroup k cg b r = (True, r0)"
    using s by (auto simp: session_register_def Let_def split: prod.splits if_splits)
  from register_id [OF r0 h] obtain ino where i: "k_stat k cg = Some (True, ino)" "map_of (br_map r0) ino = Some b"
    by blast
  let ?w1 = "snd (watch_dir (k_stat k) (Some wd) cg w)" and ?w2 = "snd (unwatch_dir cg w1)"
  have "fst (watch_dir (k_stat k) (Some wd) cg w)"
    using w i(1) by (simp add: watch_dir_def Let_def)
  then have e: "w1 = ?w1" "r1 = r0" using s by (auto simp: session_register_def r0 split: prod.splits)
  have "br_cgroup_hook r0 = None" using r0 h
    by (auto simp: register_cgroup_def drop_caches_def Let_def split: if_splits)
  then have "cgroup_id r0 k' cg = 0" using gone by (simp add: cgroup_id_def cgroup_id_from_path_def)
  then have u: "session_unregister k' True cg (w1, r1) = (?w2, r0)"
    by (simp add: session_unregister_def unregister_cgroup_def e(2))
  have "kids ?w2 \<subseteq> kids w" unfolding e(1) by (rule watch_unwatch_kids [where st = "k_stat k", OF w(1,2) i(1)])
  then have "\<forall>c \<in> kids ?w2. ch_inode c \<noteq> ino" using f i(1) by blast
  moreover have "watch_wf ?w2" unfolding e(1) by (intro unwatch_dir_wf watch_dir_wf w(3))
  ultimately have "map_of (br_map (snd (watch_read buf (?w2, r0)))) ino = Some b" for buf
    using i(2) by (simp add: watch_read_def handle_events_keep)
  with u i(1) show ?thesis by auto
qed

section \<open>Examples\<close>

definition ex_watch :: cgroup_watch where "ex_watch = new_watch\<lparr>cw_running := True\<rparr>"

definition ex_event :: event where
  "ex_event = \<lparr>ev_wd = 4, ev_mask = IN_DELETE, ev_name = [0x61, 0, 0, 0]\<rparr>"

definition ex_session :: "bool \<times> cgroup_watch \<times> router" where
  "ex_session = session_register ex_kernel (Some 4) True ''/sys/fs/cgroup/a'' 3 (ex_watch, y_router ex_init)"

lemma ex_session_ok:
  "fst ex_session" "watch_split_path ''/sys/fs/cgroup/a'' = Some (''/sys/fs/cgroup'', ''a'')"
  "cw_running ex_watch" "br_cgroup_hook (y_router ex_init) = None" "watch_wf ex_watch" "kids ex_watch = {}"
proof -
  show "fst ex_session" by code_simp
  show "watch_split_path ''/sys/fs/cgroup/a'' = Some (''/sys/fs/cgroup'', ''a'')" by code_simp
qed (simp_all add: ex_watch_def new_watch_def ex_init_def new_router_def watch_wf_def kids_def watched_def)

theorem events_roundtrip_witness:
  "decode_events (encode_event 0 ex_event @ encode_event 1 \<lparr>ev_wd = 4, ev_mask = IN_IGNORED, ev_name = []\<rparr>)
     = [ex_event, \<lparr>ev_wd = 4, ev_mask = IN_IGNORED, ev_name = []\<rparr>]"
  using events_roundtrip [of "[(0, ex_event), (1, \<lparr>ev_wd = 4, ev_mask = IN_IGNORED, ev_name = []\<rparr>)]"]
  by (simp add: event_fits_def ex_event_def)

theorem deletion_reaches_router_witness:
  "case ex_session of (_, w, r) \<Rightarrow> map_of (br_map r) 7 = Some 3 \<and>
     map_of (br_map (snd (watch_read (encode_event 0 ex_event) (w, r)))) 7 = None"
proof -
  obtain w1 r1 where s: "session_register ex_kernel (Some 4) True ''/sys/fs/cgroup/a'' 3 (ex_watch, y_router ex_init) = (True, w1, r1)"
    using ex_session_ok(1) unfolding ex_session_def by (metis prod.collapse)
  have "decode_events (encode_event 0 ex_event @ []) = [ex_event]"
    by (subst decode_encode_Cons) (simp_all add: event_fits_def ex_event_def decode_events.simps)
  then have ev: "ex_event \<in> set (decode_events (encode_event 0 ex_event))" by simp
  have c: "concerns 4 ''a'' ex_event" by code_simp
  from deletion_reaches_router [OF s ex_session_ok(3,2,4) ev c] s show ?thesis
    by (auto simp: ex_session_def ex_kernel_def ex_stat_def)
qed

theorem early_unregister_keeps_registration_witness:
  "case ex_session of (_, w, r) \<Rightarrow> map_of (br_map (snd (watch_read (encode_event 0 ex_event)
     (session_unregister (remove_dir 7 ex_kernel) True ''/sys/fs/cgroup/a'' (w, r))))) 7 = Some 3"
proof -
  obtain w1 r1 where s: "session_register ex_kernel (Some 4) True ''/sys/fs/cgroup/a'' 3 (ex_watch, y_router ex_init) = (True, w1, r1)"
    using ex_session_ok(1) unfolding ex_session_def by (metis prod.collapse)
  have "\<forall>c \<in> kids ex_watch. k_stat ex_kernel ''/sys/fs/cgroup/a'' \<noteq> Some (True, ch_inode c)"
    by (simp add: ex_session_ok(6))
  moreover have "k_stat (remove_dir 7 ex_kernel) ''/sys/fs/cgroup/a'' = None"
    by (simp add: remove_dir_def ex_kernel_def ex_stat_def)
  ultimately show ?thesis
    using early_unregister_keeps_registration [OF s ex_session_ok(3,2,5,4)] s
    by (auto simp: ex_session_def ex_kernel_def ex_stat_def)
qed

end
