(* ===== verification/DaemonMerge.thy ===== *)
theory DaemonMerge
  imports DaemonProps
begin

text \<open>
  Merging two branches of the daemon: the merge works on the trees that the two checkpoints have
  saved, and what those commits are read back as are the branches' working trees.
\<close>

section \<open>Loading a commit's tree\<close>

text \<open>What a rebuild returns with failing calls around it is what it returns without.\<close>

lemma rebuild_loop_reads:
  assumes "rebuild_loop stack m s = Some y"
  shows "\<forall>m' t. fst y = Inr m' \<longrightarrow> s_io t = [] \<longrightarrow> (\<forall>tag h. payload tag t h = payload tag s h) \<longrightarrow>
    rebuild_loop stack m t = Some (Inr m', t)"
proof (rule rebuild_loop.raw_induct [where P = "\<lambda>stack m s y. \<forall>m' t. fst y = Inr m' \<longrightarrow> s_io t = [] \<longrightarrow>
      (\<forall>tag h. payload tag t h = payload tag s h) \<longrightarrow> rebuild_loop stack m t = Some (Inr m', t)", OF _ assms])
  fix rl :: "(hash \<times> string) list \<Rightarrow> entry_map \<Rightarrow> store \<Rightarrow> ((string + entry_map) \<times> store) option"
    and stack :: "(hash \<times> string) list" and m :: entry_map and s :: store and y :: "(string + entry_map) \<times> store"
  assume IH: "\<And>stack m s y. rl stack m s = Some y \<Longrightarrow> \<forall>m' t. fst y = Inr m' \<longrightarrow> s_io t = [] \<longrightarrow>
      (\<forall>tag h. payload tag t h = payload tag s h) \<longrightarrow> rebuild_loop stack m t = Some (Inr m', t)"
    and r: "(case stack of
      [] \<Rightarrow> Some (Inr m, s)
    | (h, pre) # stack \<Rightarrow>
        (case read_tree h s of
           (None, s) \<Rightarrow> (case tree_read_error h s of (e, s) \<Rightarrow> Some (Inl e, s))
         | (Some body, s) \<Rightarrow>
             (case deserialize_tree_entries body of
                None \<Rightarrow> Some (Inl (''corrupt tree object: '' @ hash_to_hex h), s)
              | Some entries \<Rightarrow>
                  (case fold (add_entry pre) entries (m, stack) of
                     (scratch, stack) \<Rightarrow> rl stack scratch s)))) = Some y"
  show "\<forall>m' t. fst y = Inr m' \<longrightarrow> s_io t = [] \<longrightarrow> (\<forall>tag h. payload tag t h = payload tag s h) \<longrightarrow>
      rebuild_loop stack m t = Some (Inr m', t)"
  proof (intro allI impI)
    fix m' t assume y: "fst y = Inr m'" and t: "s_io t = []" "\<forall>tag h. payload tag t h = payload tag s h"
    show "rebuild_loop stack m t = Some (Inr m', t)"
    proof (cases stack)
      case Nil
      with r y show ?thesis by (subst rebuild_loop.simps) auto
    next
      case (Cons hp rest)
      obtain h pre where hp: "hp = (h, pre)" by (cases hp)
      obtain b u where b: "read_tree h s = (b, u)" by fastforce
      note ro = read_object_spec [OF only_io_refl b [unfolded read_tree_def]]
      obtain body es sc st where 1: "b = Some body" "deserialize_tree_entries body = Some es"
        "fold (add_entry pre) es (m, rest) = (sc, st)" "rl st sc u = Some y"
        using r y by (auto simp: Cons hp b split: option.splits prod.splits)
      have "payload tag t h = payload tag u h" for tag h using only_io_payload [OF ro(1)] t(2) by simp
      then have "rebuild_loop st sc t = Some (Inr m', t)" using IH [OF 1(4)] y t(1) by blast
      moreover have "read_tree h t = (Some body, t)"
        using read_object_ok [OF t(1)] ro(2) [OF 1(1)] t(2) by (simp add: read_tree_def)
      ultimately show ?thesis using 1(2,3) by (subst rebuild_loop.simps) (simp add: Cons hp)
    qed
  qed
qed

text \<open>The tree a commit is loaded as does not depend on where reads fail.\<close>

lemma loads_tree_same:
  assumes "loads_tree s c wt" and t: "s_io t = []" "\<And>tag h. payload tag t h = payload tag s h"
  shows "\<exists>cd. load_commit_tree c t = Some (Inr (wt, cd), t)"
proof -
  obtain s1 cd s2 where l: "only_io s s1" "load_commit_tree c s1 = Some (Inr (wt, cd), s2)"
    using assms(1) by (auto simp: loads_tree_def)
  obtain s3 where rc: "read_commit_data c s1 = (Inr cd, s3)" "rebuild_working_tree (cd_tree_hash cd) wt_new s3 = Some (Inr wt, s2)"
    using l(2) by (auto simp: load_commit_tree_def split: prod.splits sum.splits option.splits)
  obtain body where b: "read_commit c s1 = (Some body, s3)" "decoded (deserialize_commit body) = Some cd"
    using rc(1) by (auto simp: read_commit_data_def split: prod.splits option.splits)
  note ro = read_object_spec [OF l(1) b(1) [unfolded read_commit_def]]
  have "read_commit c t = (Some body, t)"
    using read_object_ok [OF t(1)] ro(2) t(2) by (simp add: read_commit_def)
  then have rct: "read_commit_data c t = (Inr cd, t)" using b(2) by (simp add: read_commit_data_def)
  obtain m where m: "rebuild_loop [(cd_tree_hash cd, ''/'')] [] s3 = Some (Inr m, s2)" "wt = set_base m wt_new"
    using rc(2) by (auto simp: rebuild_working_tree_def) (metis map_sum.simps old.sum.exhaust sum.inject(2) sum.simps(4))
  have "payload tag t h = payload tag s3 h" for tag h using only_io_payload [OF ro(1)] t(2) by simp
  then have "rebuild_loop [(cd_tree_hash cd, ''/'')] [] t = Some (Inr m, t)" using rebuild_loop_reads [OF m(1)] t(1) by simp
  then have "rebuild_working_tree (cd_tree_hash cd) wt_new t = Some (Inr wt, t)" by (simp add: rebuild_working_tree_def m(2))
  with rct show ?thesis by (simp add: load_commit_tree_def)
qed

text \<open>What a rollback to a commit restores is what the commit is loaded as.\<close>

lemma rollback_load:
  assumes io: "s_io t = []"
    and rb: "rollback_locked (hash_to_hex c) b \<lparr>rp_wt = wt_new, rp_refs = r, rp_store = t\<rparr> = Some (Inr c, True, rp)"
  shows "\<exists>cd. load_commit_tree c t = Some (Inr (rp_wt rp, cd), t)"
proof -
  let ?r = "\<lparr>r_files = [(b, ref_content c)], r_other = [], r_durable = []\<rparr>"
  have f: "ref_of ?r b = Some c" by (simp add: ref_of_def)
  have "rebuild_branch_from_ref b 0 ?r t = Some (Inr (branch_new 0 b (rp_wt rp)), t)"
    by (rule rollback_rebuild [OF io f rb])
  then show ?thesis
    by (auto simp: rebuild_branch_from_ref_def read_ref_ok [OF io] f load_commit_tree_def read_commit_data_def branch_new_def
        split: prod.splits option.splits sum.splits)
qed

section \<open>The commit of a checkpoint\<close>

text \<open>The tree that a checkpoint of the branch at \<open>p\<close> saves is well formed, and none of the objects it
  can write has the hash of another.\<close>

definition saved_apart :: "(bytes \<Rightarrow> hash) \<Rightarrow> u64 \<Rightarrow> string \<Rightarrow> string \<Rightarrow> nat \<Rightarrow> daemon \<Rightarrow> bool" where
  "saved_apart H t label n p d \<longleftrightarrow>
     (case flush_fhs_for_branch H (bc_id (ctx d p)) d of
        Some (True, d1) \<Rightarrow>
          (let wt = bc_wt (ctx d1 p) in
           tree_ok wt \<and> trees_apart H (d_store d1) (set (tree_bodies H wt)) \<and>
           commits_apart H (d_store d1) (set (tree_bodies H wt))
             (checkpoint_bodies H t label (d_session d) (d_policy d) n (d_refs d) wt))
      | _ \<Rightarrow> False)"

lemma checkpoint_loads:
  assumes i: "daemon_inv d" and n: "branch_by_name n d = Some p"
    and cp: "checkpoint_ctx H t label n p d = Some (Inr c, d')" and ap: "saved_apart H t label n p d"
    and le: "store_le (d_store d') s" and l: "loads_tree s c st"
  shows "rel_option same_entry (lookup_raw path (bc_wt (ctx d' p))) (lookup_raw path st)"
proof -
  have cb: "checkpoint_branch_by_name H t n label d = Some (Inr c, d')"
    using cp n inv_by_name(2) [OF i n] by (simp add: checkpoint_branch_by_name_def)
  obtain d1 where fl: "flush_fhs_for_branch H (bc_id (ctx d p)) d = Some (True, d1)"
    and ok: "tree_ok (bc_wt (ctx d1 p))" "trees_apart H (d_store d1) (set (tree_bodies H (bc_wt (ctx d1 p))))"
      "commits_apart H (d_store d1) (set (tree_bodies H (bc_wt (ctx d1 p))))
         (checkpoint_bodies H t label (d_session d) (d_policy d) n (d_refs d) (bc_wt (ctx d1 p)))"
    using ap by (auto simp: saved_apart_def Let_def split: option.splits prod.splits bool.splits)
  obtain rp where rp: "checkpoint_locked H t (\<lambda>_ _. (True, bc_wt (ctx d1 p), d_store d1)) label (d_session d) (d_policy d) n (branch_repo d p) = (Inr c, rp)"
    "d_store d' = rp_store rp" "bc_wt (ctx d' p) = bc_wt (ctx d1 p)"
    by (rule branch_checkpoint [OF i n fl cb])
  have br: "rp_refs (branch_repo d p) = d_refs d" by (simp add: branch_repo_def)
  let ?u = "s\<lparr>s_io := []\<rparr>"
  have pay: "payload tag ?u h = payload tag s h" for tag h by (simp add: payload_def find_object_def)
  have io: "s_io ?u = []" by simp
  obtain cd where lc: "load_commit_tree c ?u = Some (Inr (st, cd), ?u)"
    using loads_tree_same [OF l io pay] by blast
  show ?thesis
  proof (rule checkpoint_restores [OF rp(1) refl ok(1,2), unfolded br, OF ok(3)])
    fix wr
    assume roll: "\<And>u wt0 r. restorable (rp_store rp) u wr c \<Longrightarrow>
        \<exists>rp''. rollback_locked (hash_to_hex c) n \<lparr>rp_wt = wt0, rp_refs = r, rp_store = u\<rparr> = Some (Inr c, True, rp'') \<and>
          wt_inv (rp_wt rp'') \<and> ref_of (rp_refs rp'') n = Some c \<and>
          (\<forall>x. rel_option same_entry (lookup_raw x (bc_wt (ctx d1 p))) (lookup_raw x (rp_wt rp'')))"
    have "restorable (rp_store rp) ?u wr c"
      using payload_mono [OF le] pay by (simp add: restorable_def rp(2))
    then obtain rp'' where rb: "rollback_locked (hash_to_hex c) n \<lparr>rp_wt = wt_new, rp_refs = d_refs d, rp_store = ?u\<rparr> = Some (Inr c, True, rp'')"
      and same: "\<forall>x. rel_option same_entry (lookup_raw x (bc_wt (ctx d1 p))) (lookup_raw x (rp_wt rp''))" using roll by blast
    from rollback_load [OF io rb] lc have "st = rp_wt rp''" by auto
    with same rp(3) show ?thesis by simp
  qed
qed



text \<open>A checkpoint of a branch only adds to the store.\<close>

lemma checkpoint_ctx_grows:
  assumes i: "daemon_inv d" and n: "branch_by_name n d = Some p"
    and cp: "checkpoint_ctx H t label n p d = Some (Inr c, d')"
  shows "store_le (d_store d) (d_store d')"
proof -
  have cb: "checkpoint_branch_by_name H t n label d = Some (Inr c, d')"
    using cp n inv_by_name(2) [OF i n] by (simp add: checkpoint_branch_by_name_def)
  obtain d1 where fl: "flush_fhs_for_branch H (bc_id (ctx d p)) d = Some (True, d1)" by (rule checkpoint_flushed [OF i n cb])
  show ?thesis
  proof (rule branch_checkpoint [OF i n fl cb])
    fix rp
    assume rp: "checkpoint_locked H t (\<lambda>_ _. (True, bc_wt (ctx d1 p), d_store d1)) label (d_session d) (d_policy d) n (branch_repo d p) = (Inr c, rp)"
      "d_store d' = rp_store rp" "flush_safe H (bc_wt (ctx d p)) (d_store d) (bc_wt (ctx d1 p)) (d_store d1)"
    have "store_le (d_store d) (d_store d1)" using rp(3) by (simp add: flush_safe_def)
    then show ?thesis unfolding rp(2) using checkpoint_grows(1) [OF rp(1)] by (rule store_le_trans)
  qed
qed

section \<open>What a merge does\<close>

text \<open>
  C13: merging the branch \<open>sn\<close> into \<open>tn\<close>, with any failures. A merge that succeeds has checkpointed
  both branches, the source and then the target, with the two labels of the source text. It has
  merged the trees that these two checkpoints saved: each is read back from its commit, and where
  it is well formed and its objects collide with no others it has exactly the entries of the
  branch's working tree at the checkpoint (only the hashes of directories are recorded
  there). The target's ref names a new commit whose parents are the two checkpoints and the
  target's tree is the three-way merge over the tree of a common ancestor; the source stays at
  its checkpoint and the target's open files are stale. In both cases a tree differs from
  what it was only by saved writes, the target's merged tree apart. No other branch and no
  other ref changes, and no branch appears or vanishes.
\<close>

theorem daemon_merge_exact:
  assumes i: "daemon_inv d" and m: "merge_branch H t sn tn label d = Some (res, d')"
  shows "(bm_ok res \<longrightarrow> (\<exists>sp tp d1 d2 source target base bt st tt cd.
      branch_by_name sn d = Some sp \<and> branch_by_name tn d = Some tp \<and> sp \<noteq> tp \<and>
      checkpoint_ctx H t (pre_merge_label sn tn '' source'') sn sp d = Some (Inr source, d1) \<and>
      checkpoint_ctx H t (pre_merge_label sn tn '' target'') tn tp d1 = Some (Inr target, d2) \<and>
      (\<forall>q path. lookup_raw path (bc_wt (ctx d2 q)) \<noteq> lookup_raw path (bc_wt (ctx d q)) \<longrightarrow> dirty_at d q path) \<and>
      loads_tree (d_store d2) base bt \<and> loads_tree (d_store d2) source st \<and> loads_tree (d_store d2) target tt \<and>
      (saved_apart H t (pre_merge_label sn tn '' source'') sn sp d \<longrightarrow>
         (\<forall>path. rel_option same_entry (lookup_raw path (bc_wt (ctx d2 sp))) (lookup_raw path st))) \<and>
      (saved_apart H t (pre_merge_label sn tn '' target'') tn tp d1 \<longrightarrow>
         (\<forall>path. rel_option same_entry (lookup_raw path (bc_wt (ctx d2 tp))) (lookup_raw path tt))) \<and>
      base \<in> ancestors (d_store d2) source \<inter> ancestors (d_store d2) target \<and>
      mr_ok (merge_trees bt st tt) \<and> bc_wt (ctx d' tp) = mr_merged (merge_trees bt st tt) \<and> ctx d' sp = ctx d2 sp \<and>
      ref_of (d_refs d') sn = Some source \<and> ref_of (d_refs d2) tn = Some target \<and>
      ref_of (d_refs d') tn = Some (bm_commit res) \<and> bm_commit res = object_hash H ''commit'' (serialize_commit cd) \<and>
      cd_parents cd = [target, source] \<and> cd_label cd = default_merge_label sn tn label \<and>
      (\<forall>x \<in> set (d_fhs d'). fh_branch (snd x) = bc_id (ctx d' tp) \<longrightarrow> fh_stale (snd x)))) \<and>
    (\<not> bm_ok res \<longrightarrow> (\<forall>q path. lookup_raw path (bc_wt (ctx d' q)) \<noteq> lookup_raw path (bc_wt (ctx d q)) \<longrightarrow> dirty_at d q path)) \<and>
    (\<forall>q. branch_by_name sn d \<noteq> Some q \<and> branch_by_name tn d \<noteq> Some q \<longrightarrow> ctx d' q = ctx d q) \<and>
    (\<forall>n. n \<noteq> sn \<and> n \<noteq> tn \<longrightarrow> ref_of (d_refs d') n = ref_of (d_refs d) n) \<and>
    (\<forall>n. branch_by_name n d' = branch_by_name n d) \<and> daemon_inv d'"
proof -
  note e = merge_branch_effect [OF i m]
  obtain P where P: "only_touches P {sn, tn} d d'" "\<forall>q \<in> P. branch_by_name sn d = Some q \<or> branch_by_name tn d = Some q"
    using e(2) by blast
  have same: "branch_by_name n d' = branch_by_name n d" for n using P(1) by (simp add: branch_by_name_def only_touches_def cong: option.case_cong)
  have q: "ctx d' q = ctx d q" if "branch_by_name sn d \<noteq> Some q" "branch_by_name tn d \<noteq> Some q" for q
    using P that by (auto simp: only_touches_def)
  have r: "ref_of (d_refs d') n = ref_of (d_refs d) n" if "n \<noteq> sn" "n \<noteq> tn" for n
    using P(1) that by (simp add: only_touches_def)
  have f: "lookup_raw path (bc_wt (ctx d' q)) \<noteq> lookup_raw path (bc_wt (ctx d q)) \<longrightarrow> dirty_at d q path" if "\<not> bm_ok res" for q path
    using e(3) [OF that] by (simp add: trees_saved_def)
  have ok: "\<exists>sp tp d1 d2 source target base bt st tt cd.
      branch_by_name sn d = Some sp \<and> branch_by_name tn d = Some tp \<and> sp \<noteq> tp \<and>
      checkpoint_ctx H t (pre_merge_label sn tn '' source'') sn sp d = Some (Inr source, d1) \<and>
      checkpoint_ctx H t (pre_merge_label sn tn '' target'') tn tp d1 = Some (Inr target, d2) \<and>
      (\<forall>q path. lookup_raw path (bc_wt (ctx d2 q)) \<noteq> lookup_raw path (bc_wt (ctx d q)) \<longrightarrow> dirty_at d q path) \<and>
      loads_tree (d_store d2) base bt \<and> loads_tree (d_store d2) source st \<and> loads_tree (d_store d2) target tt \<and>
      (saved_apart H t (pre_merge_label sn tn '' source'') sn sp d \<longrightarrow>
         (\<forall>path. rel_option same_entry (lookup_raw path (bc_wt (ctx d2 sp))) (lookup_raw path st))) \<and>
      (saved_apart H t (pre_merge_label sn tn '' target'') tn tp d1 \<longrightarrow>
         (\<forall>path. rel_option same_entry (lookup_raw path (bc_wt (ctx d2 tp))) (lookup_raw path tt))) \<and>
      base \<in> ancestors (d_store d2) source \<inter> ancestors (d_store d2) target \<and>
      mr_ok (merge_trees bt st tt) \<and> bc_wt (ctx d' tp) = mr_merged (merge_trees bt st tt) \<and> ctx d' sp = ctx d2 sp \<and>
      ref_of (d_refs d') sn = Some source \<and> ref_of (d_refs d2) tn = Some target \<and>
      ref_of (d_refs d') tn = Some (bm_commit res) \<and> bm_commit res = object_hash H ''commit'' (serialize_commit cd) \<and>
      cd_parents cd = [target, source] \<and> cd_label cd = default_merge_label sn tn label \<and>
      (\<forall>x \<in> set (d_fhs d'). fh_branch (snd x) = bc_id (ctx d' tp) \<longrightarrow> fh_stale (snd x))" if b: "bm_ok res"
    using i m
  proof (cases rule: merge_branch_cases)
    case (merging sp tp d1 source d2 target)
    note c1 = checkpoint_ctx_saved [OF i by_name_length [OF i merging(1)] merging(4)]
    have tp: "tp < length (d_ctxs d1)" using by_name_length [OF i merging(2)] c1(2) by (simp add: only_touches_def)
    have n1: "branch_by_name tn d1 = Some tp"
      using merging(2) c1(2) by (simp add: branch_by_name_def only_touches_def cong: option.case_cong)
    note c2 = checkpoint_ctx_saved [OF c1(1) tp merging(5)]
    have tp2: "tp < length (d_ctxs d2)" "bc_name (ctx d2 tp) = tn" "bc_id (ctx d' tp) = bc_id (ctx d2 tp)"
      using tp c2(2) c1(2) P(1) inv_by_name(2) [OF i merging(2)] by (simp_all add: only_touches_def)
    have pm: "publishes_merge H sn tn label source target tp d2 res d'"
      using merge_checkpointed_effect(2) [OF c2(1) tp2(1,2) merging(6) b] .
    have t3: "only_touches {tp} {tn} d2 d'" using pm by (simp add: publishes_merge_def)
    have n: "sn \<noteq> tn" using merging(1-3) by auto
    have ts: "trees_saved d d2" using trees_saved_trans [OF c1(4,5,2) c2(4)] .
    have cx: "ctx d2 sp = ctx d1 sp" "ctx d' sp = ctx d2 sp" using c2(2) t3 merging(3) by (simp_all add: only_touches_def)
    have sr: "ref_of (d_refs d') sn = Some source" "ref_of (d_refs d2) tn = Some target"
      using c1(3) c2(2,3) t3 n by (simp_all add: only_touches_def)
    obtain base bt st tt where l: "loads_tree (d_store d2) base bt" "loads_tree (d_store d2) source st" "loads_tree (d_store d2) target tt"
      "base \<in> ancestors (d_store d2) source \<inter> ancestors (d_store d2) target"
      "mr_ok (merge_trees bt st tt)" "bc_wt (ctx d' tp) = mr_merged (merge_trees bt st tt)"
      using pm by (auto simp: publishes_merge_def)
    obtain cd where cd: "bm_commit res = object_hash H ''commit'' (serialize_commit cd)" "cd_parents cd = [target, source]"
      "cd_label cd = default_merge_label sn tn label" "ref_of (d_refs d') tn = Some (bm_commit res)"
      using pm by (auto simp: publishes_merge_def)
    have stale: "\<forall>x \<in> set (d_fhs d'). fh_branch (snd x) = bc_id (ctx d' tp) \<longrightarrow> fh_stale (snd x)"
      using pm by (simp add: publishes_merge_def tp2(3))
    have a: "\<forall>path. rel_option same_entry (lookup_raw path (bc_wt (ctx d2 sp))) (lookup_raw path st)"
      if "saved_apart H t (pre_merge_label sn tn '' source'') sn sp d"
      using checkpoint_loads [OF i merging(1,4) that checkpoint_ctx_grows [OF c1(1) n1 merging(5)] l(2)] by (simp add: cx(1))
    have z: "\<forall>path. rel_option same_entry (lookup_raw path (bc_wt (ctx d2 tp))) (lookup_raw path tt)"
      if "saved_apart H t (pre_merge_label sn tn '' target'') tn tp d1"
      using checkpoint_loads [OF c1(1) n1 merging(5) that store_le_refl l(3)] by blast
    show ?thesis
      by (rule exI [of _ sp], rule exI [of _ tp], rule exI [of _ d1], rule exI [of _ d2], rule exI [of _ source],
          rule exI [of _ target], rule exI [of _ base], rule exI [of _ bt], rule exI [of _ st], rule exI [of _ tt],
          rule exI [of _ cd], intro conjI impI merging(1-5) ts [unfolded trees_saved_def] l a z cx(2) sr cd stale)
  qed (use b in simp_all)
  show ?thesis using ok f q r same e(1) by blast
qed



section \<open>A merge without failures\<close>

text \<open>What a checkpoint adds to the store.\<close>

lemma write_object_adds:
  assumes "write_object H tag b s = (r, s')" "find_object s' h \<noteq> None"
  shows "find_object s h \<noteq> None \<or> h = object_hash H tag b"
  using write_object_effect [OF assms(1)] assms(2) by (cases "h = object_hash H tag b") (simp_all add: put_effect_def)

lemma write_dirs_adds:
  "write_dirs H dirs ds dh wr s = (r, s') \<Longrightarrow> find_object s' h \<noteq> None \<Longrightarrow>
   find_object s h \<noteq> None \<or> h \<in> tree_hash H ` set (plan_bodies H dirs ds dh)"
proof (induction ds arbitrary: dh wr s)
  case (Cons d ds)
  let ?b = "serialize_tree_entries (link_children dh d (dir_children dirs d))"
  obtain k t where w: "write_tree H ?b s = (k, t)" by fastforce
  note a = write_object_adds [OF w [unfolded write_tree_def], folded tree_hash_def]
  show ?case
  proof (cases "k = ZERO_HASH")
    case True
    with Cons.prems w a show ?thesis by (auto simp: Let_def)
  next
    case False
    have "write_dirs H dirs ds (om_put d k dh) (wr @ [k]) t = (r, s')" using Cons.prems(1) w False by (simp add: Let_def)
    from Cons.IH [OF this Cons.prems(2)] show ?thesis
      using a write_tree_hash [OF w False] by (auto simp: Let_def)
  qed
qed simp

lemma serialize_adds:
  assumes "serialize_working_tree H wt s = ((Inr tree, wr, lv), s')" "find_object s' h \<noteq> None"
  shows "find_object s h \<noteq> None \<or> h \<in> tree_hash H ` set (tree_bodies H wt)"
proof -
  obtain dirs leaves paths where sc: "scan_dirs wt = (dirs, leaves, paths)" using prod_cases3 by blast
  obtain r1 wr1 s1 where w0: "write_dirs H dirs paths [] [] s = ((r1, wr1), s1)" by (metis prod.collapse)
  obtain dh where r1: "r1 = Inr dh" using assms(1) w0 by (cases r1) (auto simp: serialize_working_tree_def sc)
  note w = w0 [unfolded r1]
  have 1: "find_object s h \<noteq> None \<or> h \<in> tree_hash H ` set (tree_bodies H wt)" if "find_object s1 h \<noteq> None"
    using write_dirs_adds [OF w that] by (auto simp: tree_bodies_def sc)
  show ?thesis
  proof (cases "map_of dh ''/''")
    case (Some h0)
    then show ?thesis using assms w 1 by (auto simp: serialize_working_tree_def sc)
  next
    case None
    obtain h2 t where w2: "write_tree H (serialize_tree_entries []) s1 = (h2, t)" by fastforce
    have eq: "t = s'" using assms(1) w None w2 by (auto simp: serialize_working_tree_def sc split: if_splits)
    have "''/'' \<notin> set paths" using write_dirs_hashes(3) [OF w, of "''/''"] None by blast
    then have "tree_hash H (serialize_tree_entries []) \<in> tree_hash H ` set (tree_bodies H wt)" by (simp add: tree_bodies_def sc)
    then show ?thesis
      using write_object_adds [OF w2 [unfolded write_tree_def]] assms(2) 1 by (auto simp: eq tree_hash_def)
  qed
qed

lemma checkpoint_adds:
  assumes "checkpoint_locked H ts flush l si pv b rp = (Inr c, rp')" "flush (rp_wt rp) (rp_store rp) = (True, wt1, s1)"
    and p: "pend_ok s1" and h: "find_object (rp_store rp') h \<noteq> None"
  shows "find_object s1 h \<noteq> None \<or> h \<in> tree_hash H ` set (tree_bodies H wt1) \<or> h = c"
proof -
  obtain tree wr lv s2 s3 s4 r5 s5 where st:
    "serialize_working_tree H wt1 s1 = ((Inr tree, wr, lv), s2)"
    "make_commit H ts l si pv b tree (rp_refs rp) s2 = (Inr c, s3)"
    "sync_commit wt1 wr c s3 = (None, s4)"
    "write_ref b c (rp_refs rp) s4 = (True, r5, s5)" "rp' = rp\<lparr>rp_wt := wt1, rp_refs := r5, rp_store := s5\<rparr>"
    using assms(1,2) by (elim checkpoint_success) auto
  have h4: "find_object s4 h \<noteq> None"
    using h store_quiet_find [OF write_ref_effect(1) [OF st(4)]] by (simp add: st(5))
  obtain parent t1 where r: "read_ref (rp_refs rp) b s2 = (parent, t1)" by fastforce
  note q = read_ref_quiet [OF r]
  let ?cd = "\<lparr>cd_tree_hash = tree, cd_parents = (case parent of None \<Rightarrow> [] | Some p \<Rightarrow> [p]),
     cd_session_id = si, cd_timestamp_ns = ts, cd_label = l, cd_policy_version = pv\<rparr>"
  obtain k t2 where w: "write_commit H (serialize_commit ?cd) t1 = (k, t2)" by fastforce
  have e: "k = c" "t2 = s3" "c \<noteq> ZERO_HASH" using st(2) r w by (auto simp: make_commit_def Let_def split: if_splits)
  have ck: "c = object_hash H ''commit'' (serialize_commit ?cd)"
    using write_object_hash [OF w [unfolded write_commit_def]] e by simp
  have p3: "pend_ok s3"
    using write_object_pend [OF w [unfolded write_commit_def]] pend_ok_quiet [OF q] serialize_pend [OF st(1) p] e(2) by simp
  have "find_object s3 h \<noteq> None"
  proof (cases "h \<in> set (s_pending s3)")
    case True
    with p3 show ?thesis by (simp add: pend_ok_def)
  next
    case False
    with sync_commit_effect(5) [OF st(3), of h] h4 show ?thesis by (cases "find_object s3 h") auto
  qed
  then have "find_object t1 h \<noteq> None \<or> h = c"
    using write_object_adds [OF w [unfolded write_commit_def]] ck e(2) by blast
  then show ?thesis using serialize_adds [OF st(1)] store_quiet_find [OF q] by auto
qed

text \<open>The commit of a checkpoint in every later store that lost nothing.\<close>

lemma checkpoint_commit_loads:
  assumes run: "checkpoint_locked H ts flush l si pv b rp = (Inr c, rp')"
    and fl: "flush (rp_wt rp) (rp_store rp) = (True, wt1, s1)" and io1: "s_io s1 = []"
    and ok: "tree_ok wt1" "trees_apart H s1 (set (tree_bodies H wt1))"
      "commits_apart H s1 (set (tree_bodies H wt1)) (checkpoint_bodies H ts l si pv b (rp_refs rp) wt1)"
    and nz: "\<And>x. tree_hash H x \<noteq> ZERO_HASH"
    and t: "store_le (rp_store rp') t" "s_io t = []"
  obtains wt' cd where "load_commit_tree c t = Some (Inr (wt', cd), t)" "wt_inv wt'"
    "\<forall>p. rel_option same_entry (lookup_raw p wt1) (lookup_raw p wt')"
    "cd_parents cd = (case ref_of (rp_refs rp) b of None \<Rightarrow> [] | Some p \<Rightarrow> [p])"
    "\<exists>cd0. c = object_hash H ''commit'' (serialize_commit cd0) \<and> cd_label cd0 = l \<and> cd_parents cd0 = cd_parents cd"
proof -
  obtain tree wr lv s2 s3 s4 r5 s5 where st:
    "serialize_working_tree H wt1 s1 = ((Inr tree, wr, lv), s2)"
    "make_commit H ts l si pv b tree (rp_refs rp) s2 = (Inr c, s3)"
    "sync_commit wt1 wr c s3 = (None, s4)"
    "write_ref b c (rp_refs rp) s4 = (True, r5, s5)" "rp' = rp\<lparr>rp_wt := wt1, rp_refs := r5, rp_store := s5\<rparr>"
    using run fl by (elim checkpoint_success) auto
  have io2: "s_io s2 = []" using serialize_working_tree_ok [OF io1 nz, of wt1] st(1) by auto
  have nc: "no_collision H ''commit'' x s2" if "x \<in> commit_bodies ts l si pv b (rp_refs rp) tree" for x
  proof -
    have "x \<in> checkpoint_bodies H ts l si pv b (rp_refs rp) wt1"
      using serialize_hashes [OF st(1)] that by (auto simp: checkpoint_bodies_def)
    then show ?thesis using serialize_no_collision [OF st(1), of "''commit''" x] ok(3) by (auto simp: commits_apart_def)
  qed
  obtain cd where cd: "payload ''commit'' s3 c = Some (serialize_commit cd)" "length (cd_parents cd) \<le> 1" "cd_label cd = l"
    "cd_parents cd = (case ref_of (rp_refs rp) b of None \<Rightarrow> [] | Some p \<Rightarrow> [p])"
    using make_commit_success [OF st(2) nc] io2 by blast
  have "store_le s3 s5"
    using store_le_trans [OF sync_commit_effect(1) [OF st(3)] store_quiet_le [OF write_ref_effect(1) [OF st(4)]]] .
  then have le: "store_le s3 t" using t(1) store_le_trans by (auto simp: st(5))
  have pc: "payload ''commit'' t c = Some (serialize_commit cd)" using payload_mono [OF le] cd(1) by blast
  have dec: "read_commit_data c t = (Inr (cd\<lparr>cd_label := take (length (cd_label cd) mod 65536) (cd_label cd)\<rparr>), t)"
    using read_object_ok [OF t(2)] pc commit_codec [of cd] cd(2) by (simp add: read_commit_data_def read_commit_def)
  obtain cd0 where cd0: "c = object_hash H ''commit'' (serialize_commit cd0)" "cd_label cd0 = l"
    "cd_parents cd0 = (case ref_of (rp_refs rp) b of None \<Rightarrow> [] | Some p \<Rightarrow> [p])"
    using make_commit_made [OF st(2)] io2 by blast
  show thesis
  proof (rule checkpoint_restores [OF run fl ok])
    fix wr
    assume roll: "\<And>t wt0 r. restorable (rp_store rp') t wr c \<Longrightarrow>
        \<exists>rp''. rollback_locked (hash_to_hex c) b \<lparr>rp_wt = wt0, rp_refs = r, rp_store = t\<rparr> = Some (Inr c, True, rp'') \<and>
          wt_inv (rp_wt rp'') \<and> ref_of (rp_refs rp'') b = Some c \<and>
          (\<forall>p. rel_option same_entry (lookup_raw p wt1) (lookup_raw p (rp_wt rp'')))"
    have "restorable (rp_store rp') t wr c" using t payload_mono [OF t(1)] by (simp add: restorable_def)
    then obtain rp'' where rb: "rollback_locked (hash_to_hex c) b \<lparr>rp_wt = wt_new, rp_refs = rp_refs rp, rp_store = t\<rparr> = Some (Inr c, True, rp'')"
      "wt_inv (rp_wt rp'')" "\<forall>p. rel_option same_entry (lookup_raw p wt1) (lookup_raw p (rp_wt rp''))" using roll by blast
    obtain cd' where lc: "load_commit_tree c t = Some (Inr (rp_wt rp'', cd'), t)" using rollback_load [OF t(2) rb(1)] by blast
    then have "cd' = cd\<lparr>cd_label := take (length (cd_label cd) mod 65536) (cd_label cd)\<rparr>"
      by (auto simp: load_commit_tree_def dec split: option.splits sum.splits prod.splits)
    then have "cd_parents cd' = cd_parents cd" by simp
    with lc rb(2,3) cd(4) cd0 show thesis by (intro that [of "rp_wt rp''" cd']) auto
  qed
qed

text \<open>Two commits with one parent each, the same: it is their merge base.\<close>

lemma fork_base:
  assumes io: "s_io s = []"
    and r: "read_commit_data x s = (Inr cx, s)" "cd_parents cx = [b]" "read_commit_data y s = (Inr cy, s)" "cd_parents cy = [b]"
      "read_commit_data b s = (Inr cb, s)" "cd_parents cb = []"
    and ne: "x \<noteq> y" "x \<noteq> b" "y \<noteq> b" "x \<noteq> ZERO_HASH" "y \<noteq> ZERO_HASH"
  shows "find_common_ancestor x y s = Some (Inr b, s)"
proof -
  have col: "collect_ancestors [z] [] s = Some (Inr (om_put (hash_to_hex b) b (om_put (hash_to_hex z) z [])), s)"
    if "read_commit_data z s = (Inr cz, s)" "cd_parents cz = [b]" "z \<noteq> b" for z cz
  proof -
    have "collect_ancestors [] m s = Some (Inr m, s)" for m by (subst collect_ancestors.simps) simp
    then have "collect_ancestors [b] (om_put (hash_to_hex z) z []) s = Some (Inr (om_put (hash_to_hex b) b (om_put (hash_to_hex z) z [])), s)"
      using that(3) r(5,6) by (subst collect_ancestors.simps) simp
    then show ?thesis using that(1,2) by (subst collect_ancestors.simps) simp
  qed
  have keys: "om_has (hash_to_hex h) (om_put (hash_to_hex b) b (om_put (hash_to_hex y) y [])) = (h = b \<or> h = y)" for h
    by (auto simp: om_simps)
  have cand: "map snd (filter (\<lambda>p. om_has (fst p) (om_put (hash_to_hex b) b (om_put (hash_to_hex y) y [])))
      (om_put (hash_to_hex b) b (om_put (hash_to_hex x) x []))) = [b]"
    using ne(1-3) by (simp add: keys)
  have "sort_key hash_to_hex [b] = [b]" by simp
  then show ?thesis
    using ne(4,5) col [OF r(1,2) ne(2)] col [OF r(3,4) ne(3)] cand by (simp add: find_common_ancestor_def Let_def)
qed

text \<open>With a merge base whose tree loads, trees that merge and no failing call the merge succeeds.\<close>

lemma merge_commit_ok:
  assumes io: "s_io s = []" and p: "pend_ok s"
    and nz: "\<And>x. tree_hash H x \<noteq> ZERO_HASH" "\<And>x. object_hash H ''commit'' x \<noteq> ZERO_HASH"
  shows "\<exists>c s'. write_commit_with_parents H ts wt ps si pv l s = (Inr c, s') \<and> s_io s' = []"
proof -
  obtain h wr lv s2 where s2: "serialize_working_tree H wt s = ((Inr h, wr, lv), s2)" "s_io s2 = []"
    using serialize_working_tree_ok [OF io nz(1), of wt] by blast
  have p2: "pend_ok s2" by (rule serialize_pend [OF s2(1) p])
  let ?b = "serialize_commit (merge_commit_data ts ps si pv l h)"
  obtain c s3 where w: "write_object H ''commit'' ?b s2 = (c, s3)" by fastforce
  have c: "c \<noteq> ZERO_HASH" "s_io s3 = []" using write_object_ok [OF s2(2), of H "''commit''" ?b] w nz(2) by simp_all
  obtain s4 where s4: "sync_commit wt wr c s3 = (None, s4)" "s_io s4 = []"
    using sync_commit_ok [OF c(2) write_object_pend [OF w p2]] by blast
  have "write_commit_with_parents H ts wt ps si pv l s = (Inr c, s4)"
    using s2(1) w c(1) s4(1)
    by (auto simp: write_commit_with_parents_def write_commit_def merge_commit_data_def sync_commit_def
        drain_pending_def filter_to_committed_graph_def Let_def split: prod.splits bool.splits)
  with s4(2) show ?thesis by blast
qed

lemma merge_checkpointed_ok:
  assumes io: "s_io (d_store d) = []" and p: "pend_ok (d_store d)"
    and nz: "\<And>x. tree_hash H x \<noteq> ZERO_HASH" "\<And>x. object_hash H ''commit'' x \<noteq> ZERO_HASH"
    and a: "find_common_ancestor source target (d_store d) = Some (Inr base, d_store d)"
    and l: "load_commit_tree base (d_store d) = Some (Inr (bt, cb), d_store d)"
      "load_commit_tree source (d_store d) = Some (Inr (st, cs), d_store d)"
      "load_commit_tree target (d_store d) = Some (Inr (tt, ct), d_store d)"
    and mt: "mr_ok (merge_trees bt st tt)"
  shows "\<exists>res d'. merge_checkpointed H t sn tn label tp source target d = Some (res, d') \<and> bm_ok res"
proof -
  have m: "merged_trees source target (d_store d) = Some (Inr (mr_merged (merge_trees bt st tt)), d_store d)"
    using a l mt by (simp add: merged_trees_def Let_def)
  obtain c s1 where c: "write_commit_with_parents H t (mr_merged (merge_trees bt st tt)) [target, source] (d_session d) (d_policy d)
      (default_merge_label sn tn label) (d_store d) = (Inr c, s1)" "s_io s1 = []"
    using merge_commit_ok [OF io p nz] by blast
  obtain ok r s2 where w: "write_ref tn c (d_refs d) s1 = (ok, r, s2)" using prod_cases3 by blast
  have ok using write_ref_effect(3) [OF w c(2)] .
  with m c(1) w show ?thesis by (auto simp: merge_checkpointed_def)
qed


lemma checkpoint_pend:
  assumes "checkpoint_locked H ts flush l si pv b rp = (Inr c, rp')"
  shows "s_pending (rp_store rp') = []"
proof -
  obtain wt1 wr s3 s4 r5 s5 where st: "sync_commit wt1 wr c s3 = (None, s4)"
    "write_ref b c (rp_refs rp) s4 = (True, r5, s5)" "rp_store rp' = s5"
    using assms by (elim checkpoint_success) auto
  have "s_pending s4 = []"
    using sync_commit_effect(3) [OF st(1)] by simp
  then show ?thesis using write_ref_effect(1) [OF st(2)] st(3) by (simp add: store_quiet_def)
qed

section \<open>A merge that succeeds\<close>

text \<open>
  A daemon with the branches main and \<open>a\<close>, both forked from the commit 5 of an empty tree; \<open>a\<close> has
  added \<open>/f\<close>. The hash of a tree here depends on its length, that of a commit on the last character
  of its label.
\<close>

definition mix_hash :: "bytes \<Rightarrow> hash" where
  "mix_hash b = of_nat (Suc (if hd b = 116 then length b mod 900 else 1000 + unat (b ! (length b - 5))))"

lemma mix_nat: "unat (mix_hash b) = Suc (if hd b = 116 then length b mod 900 else 1000 + unat (b ! (length b - 5)))"
proof -
  have 1: "length b mod 900 < 900" by simp
  have 2: "unat (b ! (length b - 5)) < 256" using unat_lt2p [of "b ! (length b - 5)"] by simp
  have "(if hd b = 116 then length b mod 900 else 1000 + unat (b ! (length b - 5))) < 1999"
  proof (cases "hd b = 116")
    case True
    have "length b mod 900 < 1999" using 1 by linarith
    with True show ?thesis by simp
  next
    case False
    with 2 show ?thesis by simp
  qed
  then have "Suc (if hd b = 116 then length b mod 900 else 1000 + unat (b ! (length b - 5))) < 2 ^ 256"
    by (rule order.strict_trans2 [OF Suc_mono]) simp
  then show ?thesis unfolding mix_hash_def by (intro unat_of_nat_eq) simp
qed

lemma mix_nz: "mix_hash b \<noteq> ZERO_HASH"
  using mix_nat [of b] by (metis nat.distinct(1) unat_0)

lemma mix_tree: "unat (tree_hash mix_hash b) = Suc ((4 + length b) mod 900)"
  by (simp add: tree_hash_def object_hash_def mix_nat bytes_of_def byte_of_char_def)

lemma mix_commit:
  assumes "cd_label cd = l @ [x]" "length l < 65535"
  shows "unat (object_hash mix_hash ''commit'' (serialize_commit cd)) = 1001 + of_char x"
proof -
  have ll: "unat (of_nat (length (cd_label cd)) :: u16) = length (cd_label cd)"
    using assms by (intro unat_of_nat_eq) simp
  define A where "A = bytes_of ''commit'' @ hash_bytes (cd_tree_hash cd) @ enc32 (of_nat (length (cd_parents cd))) @
    concat (map hash_bytes (cd_parents cd)) @ enc64 (cd_session_id cd) @ enc64 (cd_timestamp_ns cd) @
    enc16 (of_nat (length (cd_label cd))) @ bytes_of l"
  have A: "bytes_of ''commit'' @ serialize_commit cd = A @ [byte_of_char x] @ enc32 (cd_policy_version cd)"
    by (simp add: serialize_commit_def Let_def ll) (simp add: A_def bytes_of_def assms(1))
  have hd: "hd (A @ B) = 99" for B by (simp add: A_def bytes_of_def byte_of_char_def)
  have len: "length (A @ [byte_of_char x] @ enc32 (cd_policy_version cd)) - 5 = length A" by (simp add: le_simps enc32_def)
  have "(A @ [byte_of_char x] @ enc32 (cd_policy_version cd)) ! length A = byte_of_char x" by simp
  then show ?thesis
    unfolding object_hash_def A mix_nat hd len
    using nat_of_char_less_256 [of x] by (simp add: byte_of_char_def unat_of_nat_eq)
qed


definition fork_cd :: commit_data where
  "fork_cd = \<lparr>cd_tree_hash = tree_hash mix_hash (serialize_tree_entries []), cd_parents = [], cd_session_id = 1,
     cd_timestamp_ns = 1, cd_label = ''main'', cd_policy_version = 1\<rparr>"

definition fork_commit :: hash where
  "fork_commit = object_hash mix_hash ''commit'' (serialize_commit fork_cd)"

definition forked_store :: store where
  "forked_store = (new_store ''/s'' 0)\<lparr>s_objects :=
     [(cd_tree_hash fork_cd, \<lparr>o_data = bytes_of ''tree'' @ serialize_tree_entries [], o_mtime = 0, o_synced = True, o_linked = True\<rparr>),
      (fork_commit, \<lparr>o_data = bytes_of ''commit'' @ serialize_commit fork_cd, o_mtime = 0, o_synced = True, o_linked = True\<rparr>)]\<rparr>"

definition fork_refs :: refs where
  "fork_refs = \<lparr>r_files = [(''a'', ref_content fork_commit), (''main'', ref_content fork_commit)], r_other = [],
     r_durable = [(''a'', ref_content fork_commit), (''main'', ref_content fork_commit)]\<rparr>"

definition fork_daemon :: daemon where
  "fork_daemon = (daemon_new 1 forked_store fork_refs empty_dir)
     \<lparr>d_ctxs := [branch_new 0 ''main'' wt_new, branch_new 1 ''a'' (rp_wt sample_repo)], d_branches := [(0, 0), (1, 1)],
      d_names := [(''a'', 1), (''main'', 0)], d_next_branch := 2\<rparr>"

lemma fork_nat: "unat fork_commit = 1111" "unat (cd_tree_hash fork_cd) = 9"
  using mix_commit [of fork_cd "''mai''" "CHR ''n''"]
  by (simp_all add: fork_commit_def fork_cd_def mix_tree serialize_tree_entries_def enc32_def)

lemma fork_find: "find_object forked_store h \<noteq> None \<longleftrightarrow> h = fork_commit \<or> h = cd_tree_hash fork_cd"
  by (simp add: forked_store_def find_object_def)

lemma fork_payload: "payload ''commit'' forked_store fork_commit = Some (serialize_commit fork_cd)"
  "payload ''tree'' forked_store (cd_tree_hash fork_cd) = Some (serialize_tree_entries [])"
  "find_object forked_store (cd_tree_hash fork_cd) =
     Some \<lparr>o_data = bytes_of ''tree'' @ serialize_tree_entries [], o_mtime = 0, o_synced = True, o_linked = True\<rparr>"
proof -
  have "fork_commit \<noteq> cd_tree_hash fork_cd" using fork_nat by auto
  then show "payload ''commit'' forked_store fork_commit = Some (serialize_commit fork_cd)"
    "payload ''tree'' forked_store (cd_tree_hash fork_cd) = Some (serialize_tree_entries [])"
    "find_object forked_store (cd_tree_hash fork_cd) =
       Some \<lparr>o_data = bytes_of ''tree'' @ serialize_tree_entries [], o_mtime = 0, o_synced = True, o_linked = True\<rparr>"
    by (simp_all add: forked_store_def payload_def find_object_def strip_tag_def)
qed

lemma fork_bodies: "set (tree_bodies mix_hash wt_new) = {serialize_tree_entries []}"
  "set (tree_bodies mix_hash (rp_wt sample_repo)) = {serialize_tree_entries [(''f'', \<lparr>e_kind = Blob, e_hash = 7, e_mode = 420\<rparr>)]}"
  "tree_ok wt_new"
proof -
  let ?e = "\<lparr>e_kind = Blob, e_hash = 7, e_mode = 420\<rparr>"
  have ml: "merged_list (rp_wt sample_repo) = [(''/f'', ?e)]" "merged_list wt_new = []"
    by (simp_all add: sample_repo_def merged_list_def insert_entry_def wt_new_def)
  have sp: "split_path ''/f'' = (''/'', ''f'')" by (simp add: split_path_def Let_def)
  show "set (tree_bodies mix_hash wt_new) = {serialize_tree_entries []}"
    "set (tree_bodies mix_hash (rp_wt sample_repo)) = {serialize_tree_entries [(''f'', ?e)]}"
    by (simp_all add: tree_bodies_def scan_dirs_def ml live_list_def scan_entry_def sp is_leaf_def dir_children_def add_empty_dir_def link_children_def Let_def)
  show "tree_ok wt_new" by (simp add: tree_ok_def ml wt_inv_fresh)
qed

text \<open>One tree, and commits with a label whose last character no object of the store stands for.\<close>

lemma mix_apart:
  assumes b: "B = {b}" "no_collision mix_hash ''tree'' b s"
    and c: "\<And>y. y \<in> Y \<Longrightarrow> \<exists>cd l. y = serialize_commit cd \<and> cd_label cd = l @ [x] \<and> length l < 65535"
    and h: "\<And>h. find_object s h \<noteq> None \<Longrightarrow> unat h \<noteq> 1001 + of_char x"
  shows "trees_apart mix_hash s B" "commits_apart mix_hash s B Y"
proof -
  show "trees_apart mix_hash s B" using b by (simp add: trees_apart_def)
  have y: "unat (object_hash mix_hash ''commit'' y) = 1001 + of_char x" if "y \<in> Y" for y
    using c [OF that] mix_commit by auto
  have "no_collision mix_hash ''commit'' y s" if "y \<in> Y" for y
    using h [of "object_hash mix_hash ''commit'' y"] y [OF that] by (auto simp: no_collision_def split: option.split)
  moreover have "tree_hash mix_hash b \<noteq> object_hash mix_hash ''commit'' y" if "y \<in> Y" for y
  proof
    assume "tree_hash mix_hash b = object_hash mix_hash ''commit'' y"
    with y [OF that] mix_tree [of b] have "Suc ((4 + length b) mod 900) = 1001 + of_char x" by simp
    moreover have "(4 + length b) mod 900 < 900" by simp
    ultimately show False by linarith
  qed
  ultimately show "commits_apart mix_hash s B Y" by (simp add: commits_apart_def b(1))
qed

lemma checkpoint_labels:
  "y \<in> checkpoint_bodies H ts l si pv b r wt \<Longrightarrow> \<exists>cd. y = serialize_commit cd \<and> cd_label cd = l"
  by (auto simp: checkpoint_bodies_def commit_bodies_def)

text \<open>The checkpoint of a branch without open files.\<close>

lemma quiet_checkpoint:
  assumes d: "d_fhs d = []" "s_io (d_store d) = []" "pend_ok (d_store d)"
  obtains c rp where
    "checkpoint_locked mix_hash t (\<lambda>_ _. (True, bc_wt (ctx d p), d_store d)) label (d_session d) (d_policy d) name (branch_repo d p) = (Inr c, rp)"
    "checkpoint_ctx mix_hash t label name p d = Some (Inr c, upd_ctx p (\<lambda>c. c\<lparr>bc_wt := rp_wt rp\<rparr>) (d\<lparr>d_fhs := [], d_refs := rp_refs rp, d_store := rp_store rp\<rparr>))"
    "s_io (rp_store rp) = []" "rp_wt rp = bc_wt (ctx d p)"
    "d_fhs (upd_ctx p (\<lambda>c. c\<lparr>bc_wt := rp_wt rp\<rparr>) (d\<lparr>d_fhs := [], d_refs := rp_refs rp, d_store := rp_store rp\<rparr>)) = []"
    "ref_of (rp_refs rp) n = (if n = name then Some c else ref_of (d_refs d) n)"
proof -
  let ?fl = "\<lambda>_ _. (True, bc_wt (ctx d p), d_store d)"
  obtain c rp where r: "checkpoint_locked mix_hash t ?fl label (d_session d) (d_policy d) name (branch_repo d p) = (Inr c, rp)"
    "s_io (rp_store rp) = []"
    using checkpoint_ok [where flush = ?fl and rp = "branch_repo d p" and H = mix_hash and t = t and l = label and si = "d_session d"
      and pv = "d_policy d" and b = name, OF refl d(2,3)] by (auto simp: object_hash_def tree_hash_def mix_nz)
  have "checkpoint_ctx mix_hash t label name p d = Some (Inr c, upd_ctx p (\<lambda>c. c\<lparr>bc_wt := rp_wt rp\<rparr>) (d\<lparr>d_fhs := [], d_refs := rp_refs rp, d_store := rp_store rp\<rparr>))"
    using r(1) by (simp add: checkpoint_ctx_def d(1) branch_repo_def)
  moreover have "rp_wt rp = bc_wt (ctx d p)" "ref_of (rp_refs rp) n = (if n = name then Some c else ref_of (d_refs d) n)"
    by (rule checkpoint_success [OF r(1)], auto dest!: write_ref_effect(2) simp: ref_of_def om_simps branch_repo_def)+
  ultimately show thesis using r by (intro that) simp_all
qed


lemma fork_daemon_ok:
  "daemon_inv fork_daemon" "branch_by_name ''a'' fork_daemon = Some 1" "branch_by_name ''main'' fork_daemon = Some 0"
  "bc_wt (ctx fork_daemon 1) = rp_wt sample_repo" "bc_wt (ctx fork_daemon 0) = wt_new" "d_fhs fork_daemon = []"
  "d_store fork_daemon = forked_store" "s_io forked_store = []" "pend_ok forked_store" "length (d_ctxs fork_daemon) = 2"
  "ref_of (d_refs fork_daemon) ''a'' = Some fork_commit" "ref_of (d_refs fork_daemon) ''main'' = Some fork_commit"
  "bc_id (ctx fork_daemon 0) = 0" "bc_id (ctx fork_daemon 1) = 1" "branch_of_id 1 fork_daemon = Some 1"
  using basic_inv [OF step_basic [OF insert_step] wt_inv_fresh(2), of "\<lparr>e_kind = Blob, e_hash = 7, e_mode = 420\<rparr>" "''/f''"]
  by (simp_all add: sample_repo_def fork_daemon_def daemon_new_def daemon_inv_def names_inv_def names_ok_def om_wf_def branch_new_def
      wt_inv_fresh handles_inv_def branch_by_name_def ctx_def tree_ok_def forked_store_def pend_ok_def fork_refs_def ref_of_def
      branch_of_id_def)

lemma fork_labels: "pre_merge_label ''a'' ''main'' '' source'' = ''pre-merge a into main sourc'' @ ''e''"
  "pre_merge_label ''a'' ''main'' '' target'' = ''pre-merge a into main targe'' @ ''t''"
  by (simp_all add: pre_merge_label_def)

lemma fork_source_apart:
  "trees_apart mix_hash forked_store (set (tree_bodies mix_hash (rp_wt sample_repo)))"
  "commits_apart mix_hash forked_store (set (tree_bodies mix_hash (rp_wt sample_repo)))
     (checkpoint_bodies mix_hash t (pre_merge_label ''a'' ''main'' '' source'') si pv b r wt)"
proof -
  let ?b = "serialize_tree_entries [(''f'', \<lparr>e_kind = Blob, e_hash = 7, e_mode = 420\<rparr>)]"
  have "find_object forked_store (tree_hash mix_hash ?b) = None"
    using fork_find [of "tree_hash mix_hash ?b"] fork_nat mix_tree [of ?b]
    by (auto simp: serialize_tree_entries_def tree_entry_bytes_def enc32_def enc16_def)
  then have n: "no_collision mix_hash ''tree'' ?b forked_store" by (simp add: no_collision_def tree_hash_def)
  have l: "\<exists>cd l. y = serialize_commit cd \<and> cd_label cd = l @ ''e'' \<and> length l < 65535"
    if "y \<in> checkpoint_bodies mix_hash t (pre_merge_label ''a'' ''main'' '' source'') si pv b r wt" for y
    using checkpoint_labels [OF that] fork_labels(1) by fastforce
  have h: "unat h \<noteq> 1001 + of_char CHR ''e''" if "find_object forked_store h \<noteq> None" for h
    using that fork_find [of h] fork_nat by auto
  show "trees_apart mix_hash forked_store (set (tree_bodies mix_hash (rp_wt sample_repo)))"
    unfolding fork_bodies by (rule mix_apart(1) [OF refl n l h])
  show "commits_apart mix_hash forked_store (set (tree_bodies mix_hash (rp_wt sample_repo)))
     (checkpoint_bodies mix_hash t (pre_merge_label ''a'' ''main'' '' source'') si pv b r wt)"
    unfolding fork_bodies by (rule mix_apart(2) [OF refl n l h])
qed

lemma fork_saved_apart: "saved_apart mix_hash 9 (pre_merge_label ''a'' ''main'' '' source'') ''a'' 1 fork_daemon"
proof -
  have "flush_fhs_for_branch mix_hash 1 fork_daemon =
      Some (True, upd_ctx 1 (\<lambda>c. c\<lparr>bc_wt := rp_wt sample_repo\<rparr>) (fork_daemon\<lparr>d_fhs := [], d_store := forked_store\<rparr>))"
    by (simp add: flush_fhs_for_branch_def fork_daemon_ok fork_daemon_ok(4) [simplified])
  then show ?thesis
    using sample_repo_ok(2) fork_source_apart
    by (simp add: saved_apart_def fork_daemon_ok fork_daemon_ok(14) [simplified] ctx_upd)
qed

text \<open>The merge base's tree is empty.\<close>

lemma fork_base_loads:
  assumes io: "s_io s = []" and le: "store_le forked_store s"
  shows "load_commit_tree fork_commit s = Some (Inr (set_base [] wt_new, fork_cd), s)"
proof -
  have "payload ''commit'' s fork_commit = Some (serialize_commit fork_cd)"
    "payload ''tree'' s (cd_tree_hash fork_cd) = Some (serialize_tree_entries [])"
    using fork_payload payload_mono [OF le] by blast+
  moreover have "deserialize_commit (serialize_commit fork_cd) = Decoded fork_cd" by (rule commit_codec_short) (simp_all add: fork_cd_def)
  moreover have "deserialize_tree_entries (serialize_tree_entries []) = Some []" using tree_codec [of "[]"] by simp
  moreover have "rebuild_loop [] [] s = Some (Inr [], s)" by (subst rebuild_loop.simps) simp
  ultimately have "rebuild_working_tree (cd_tree_hash fork_cd) wt_new s = Some (Inr (set_base [] wt_new), s)"
    "read_commit_data fork_commit s = (Inr fork_cd, s)"
    by (simp_all add: rebuild_working_tree_def rebuild_loop.simps [of "[(_, _)]"] read_tree_def read_object_ok [OF io] read_commit_data_def read_commit_def)
  then show ?thesis by (simp add: load_commit_tree_def)
qed

text \<open>Over an empty base, what the source added merges with what the target has not touched.\<close>

lemma added_merges:
  assumes wf: "wt_inv st" "wt_inv tt" and b: "\<And>p. rel_option same_entry (lookup_raw p wt_new) (lookup_raw p tt)"
    and s: "\<And>p. rel_option same_entry (lookup_raw p (rp_wt sample_repo)) (lookup_raw p st)"
  shows "mr_ok (merge_trees (set_base [] wt_new) st tt)"
proof -
  have f: "lookup_raw p st \<noteq> None \<longleftrightarrow> p = ''/f''" for p
    using s [of p] by (cases "p = ''/f''") (auto simp: sample_repo_def insert_entry_def wt_raw_put option_rel_Some1 lookup_raw_view wt_raw_def wt_new_def)
  have t: "lookup_raw p tt = None" for p using b [of p] by (simp add: lookup_raw_view wt_raw_def wt_new_def)
  have z: "lookup_raw p (set_base [] wt_new) = None" for p by (simp add: lookup_raw_view wt_raw_def wt_new_def set_base_def)
  have m: "merged_at (set_base [] wt_new) st tt p = Some (lookup_raw p st)" for p
    by (cases "lookup_raw p st") (simp_all add: merged_at_def t z merge_state_def)
  have "\<not> blocks (set_base [] wt_new) st tt a p" for a p
  proof
    assume bl: "blocks (set_base [] wt_new) st tt a p"
    have "lookup_raw a st \<noteq> None" using bl by (auto simp: blocks_def recorded_def t z)
    moreover have "lookup_raw p st \<noteq> None" using bl by (cases "lookup_raw p st") (auto simp: blocks_def m is_absent_def)
    ultimately have "a = ''/f''" "p = ''/f''" using f by blast+
    with bl show False by (simp add: blocks_def under_def has_prefix_def)
  qed
  then have "merge_conflicts (set_base [] wt_new) st tt = {}" by (simp add: merge_conflicts_def m)
  then show ?thesis
    using merge_trees_result(1) [of "set_base [] wt_new" st tt] wf wt_inv_fresh(1) [of "[]" wt_new] by (simp add: wt_inv_def om_wf_def)
qed


lemma fork_merge:
  obtains res d' where "merge_branch mix_hash 9 ''a'' ''main'' [] fork_daemon = Some (res, d')" "bm_ok res"
proof -
  let ?ls = "pre_merge_label ''a'' ''main'' '' source''" and ?lt = "pre_merge_label ''a'' ''main'' '' target''"
  note f = fork_daemon_ok
  have nz: "tree_hash mix_hash x \<noteq> ZERO_HASH" "object_hash mix_hash tag x \<noteq> ZERO_HASH" for x tag
    by (simp_all add: tree_hash_def object_hash_def mix_nz)
  obtain c1 rp1 d1 where 1:
    "checkpoint_locked mix_hash 9 (\<lambda>_ _. (True, rp_wt sample_repo, forked_store)) ?ls (d_session fork_daemon) (d_policy fork_daemon) ''a'' (branch_repo fork_daemon 1) = (Inr c1, rp1)"
    "checkpoint_ctx mix_hash 9 ?ls ''a'' 1 fork_daemon = Some (Inr c1, d1)"
    "s_io (rp_store rp1) = []" "rp_wt rp1 = rp_wt sample_repo"
    "d1 = upd_ctx 1 (\<lambda>c. c\<lparr>bc_wt := rp_wt rp1\<rparr>) (fork_daemon\<lparr>d_fhs := [], d_refs := rp_refs rp1, d_store := rp_store rp1\<rparr>)"
    "ref_of (rp_refs rp1) ''main'' = Some fork_commit"
    by (rule quiet_checkpoint [where d = fork_daemon and t = 9 and p = 1 and label = ?ls and name = "''a''" and n = "''main''"])
      (simp_all add: f f(4) [simplified])
  have d1: "d_store d1 = rp_store rp1" "d_fhs d1 = []" "d_refs d1 = rp_refs rp1" "bc_wt (ctx d1 0) = wt_new"
    using f(5) by (simp_all add: 1(5) ctx_upd)
  have fl1: "(\<lambda>_ _. (True, rp_wt sample_repo, forked_store)) (rp_wt (branch_repo fork_daemon 1)) (rp_store (branch_repo fork_daemon 1)) =
    (True, rp_wt sample_repo, forked_store)" by simp
  have br1: "ref_of (rp_refs (branch_repo fork_daemon 1)) ''a'' = Some fork_commit" by (simp add: branch_repo_def f)
  have le1: "store_le forked_store (rp_store rp1)" by (rule checkpoint_grows(1) [OF 1(1)])
  have pend1: "pend_ok (rp_store rp1)" using checkpoint_pend [OF 1(1)] by (simp add: pend_ok_def)
  obtain c2 rp2 d2 where 2:
    "checkpoint_locked mix_hash 9 (\<lambda>_ _. (True, wt_new, rp_store rp1)) ?lt (d_session d1) (d_policy d1) ''main'' (branch_repo d1 0) = (Inr c2, rp2)"
    "checkpoint_ctx mix_hash 9 ?lt ''main'' 0 d1 = Some (Inr c2, d2)" "s_io (rp_store rp2) = []" "d_store d2 = rp_store rp2"
    by (rule quiet_checkpoint [where d = d1 and t = 9 and p = 0 and label = ?lt and name = "''main''" and n = "''main''"])
      (simp_all add: d1 1(3) pend1)
  have fl2: "(\<lambda>_ _. (True, wt_new, rp_store rp1)) (rp_wt (branch_repo d1 0)) (rp_store (branch_repo d1 0)) = (True, wt_new, rp_store rp1)" by simp
  have br2: "ref_of (rp_refs (branch_repo d1 0)) ''main'' = Some fork_commit" using 1(6) by (simp add: branch_repo_def d1)
  have le2: "store_le (rp_store rp1) (rp_store rp2)" by (rule checkpoint_grows(1) [OF 2(1)])
  have pend2: "pend_ok (d_store d2)" using checkpoint_pend [OF 2(1)] by (simp add: pend_ok_def 2(4))
  show thesis
  proof (rule checkpoint_commit_loads [OF 1(1) fl1 f(8) sample_repo_ok(2) fork_source_apart nz(1) le2 2(3)])
    fix st cds
    assume st: "load_commit_tree c1 (rp_store rp2) = Some (Inr (st, cds), rp_store rp2)" "wt_inv st"
      "\<forall>p. rel_option same_entry (lookup_raw p (rp_wt sample_repo)) (lookup_raw p st)"
      "cd_parents cds = (case ref_of (rp_refs (branch_repo fork_daemon 1)) ''a'' of None \<Rightarrow> [] | Some p \<Rightarrow> [p])"
      "\<exists>cd0. c1 = object_hash mix_hash ''commit'' (serialize_commit cd0) \<and> cd_label cd0 = ?ls \<and> cd_parents cd0 = cd_parents cds"
    have c1: "unat c1 = 1102" using st(5) mix_commit fork_labels(1) by fastforce
    let ?b = "serialize_tree_entries []"
    have h: "unat h \<noteq> 1001 + of_char CHR ''t''" if "find_object (rp_store rp1) h \<noteq> None" for h
    proof -
      have t49: "unat (tree_hash mix_hash x) \<noteq> 1117" for x
        using mix_tree [of x] mod_less_divisor [of 900 "4 + length x"] by linarith
      have "find_object forked_store h \<noteq> None \<or> h \<in> tree_hash mix_hash ` set (tree_bodies mix_hash (rp_wt sample_repo)) \<or> h = c1"
        by (rule checkpoint_adds [OF 1(1) fl1 f(9) that])
      then show ?thesis using fork_find [of h] fork_nat c1 by (auto simp: t49)
    qed
    have n: "no_collision mix_hash ''tree'' ?b (rp_store rp1)"
    proof -
      obtain ob where "find_object (rp_store rp1) (cd_tree_hash fork_cd) = Some ob" "o_data ob = bytes_of ''tree'' @ ?b"
        using le1 fork_payload(3) by (fastforce simp: store_le_def object_le_def)
      then show ?thesis by (simp add: no_collision_def fork_cd_def tree_hash_def)
    qed
    have l: "\<exists>cd l. y = serialize_commit cd \<and> cd_label cd = l @ ''t'' \<and> length l < 65535"
      if "y \<in> checkpoint_bodies mix_hash 9 ?lt (d_session d1) (d_policy d1) ''main'' (rp_refs (branch_repo d1 0)) wt_new" for y
      using checkpoint_labels [OF that] fork_labels(2) by fastforce
    note ap = mix_apart [OF fork_bodies(1) n l h]
    show thesis
    proof (rule checkpoint_commit_loads [OF 2(1) fl2 1(3) fork_bodies(3) ap nz(1) store_le_refl 2(3)])
      fix tt cdt
      assume tt: "load_commit_tree c2 (rp_store rp2) = Some (Inr (tt, cdt), rp_store rp2)" "wt_inv tt"
        "\<forall>p. rel_option same_entry (lookup_raw p wt_new) (lookup_raw p tt)"
        "cd_parents cdt = (case ref_of (rp_refs (branch_repo d1 0)) ''main'' of None \<Rightarrow> [] | Some p \<Rightarrow> [p])"
        "\<exists>cd0. c2 = object_hash mix_hash ''commit'' (serialize_commit cd0) \<and> cd_label cd0 = ?lt \<and> cd_parents cd0 = cd_parents cdt"
      have c2: "unat c2 = 1117" using tt(5) mix_commit fork_labels(2) by fastforce
      have rd: "read_commit_data x s = (Inr cd, s)" if "load_commit_tree x s = Some (Inr (wt, cd), s)" "s_io s = []" for x s wt cd
        using that by (auto simp: load_commit_tree_def read_commit_data_def read_commit_def read_object_ok split: option.splits sum.splits prod.splits)
      have bl: "load_commit_tree fork_commit (rp_store rp2) = Some (Inr (set_base [] wt_new, fork_cd), rp_store rp2)"
        by (rule fork_base_loads [OF 2(3) store_le_trans [OF le1 le2]])
      have ne: "c1 \<noteq> c2" "c1 \<noteq> fork_commit" "c2 \<noteq> fork_commit" "c1 \<noteq> ZERO_HASH" "c2 \<noteq> ZERO_HASH" using c1 c2 fork_nat by auto
      have an: "find_common_ancestor c1 c2 (rp_store rp2) = Some (Inr fork_commit, rp_store rp2)"
        by (rule fork_base [OF 2(3) rd [OF st(1) 2(3)] _ rd [OF tt(1) 2(3)] _ rd [OF bl 2(3)] _ ne])
          (simp_all add: st(4) br1 [simplified] tt(4) br2 fork_cd_def)
      have ok: "mr_ok (merge_trees (set_base [] wt_new) st tt)" using added_merges [OF st(2) tt(2)] st(3) tt(3) by blast
      obtain res d' where m: "merge_checkpointed mix_hash 9 ''a'' ''main'' [] 0 c1 c2 d2 = Some (res, d')" "bm_ok res"
        using merge_checkpointed_ok [OF _ pend2 nz, unfolded 2(4), OF 2(3) an bl st(1) tt(1) ok] by blast
      have "merge_branch mix_hash 9 ''a'' ''main'' [] fork_daemon = Some (res, d')"
        using f(2,3,13,14) 1(2) 2(2) m(1) by (simp add: merge_branch_def last_named_eq [OF f(1)])
      from this m(2) show thesis by (rule that)
    qed
  qed
qed

theorem daemon_merge_exact_witness:
  "\<exists>res d' source target d1 d2 st cd. merge_branch mix_hash 9 ''a'' ''main'' [] fork_daemon = Some (res, d') \<and> bm_ok res \<and>
     checkpoint_ctx mix_hash 9 ''pre-merge a into main source'' ''a'' 1 fork_daemon = Some (Inr source, d1) \<and>
     checkpoint_ctx mix_hash 9 ''pre-merge a into main target'' ''main'' 0 d1 = Some (Inr target, d2) \<and>
     loads_tree (d_store d2) source st \<and>
     rel_option same_entry (Some \<lparr>e_kind = Blob, e_hash = 7, e_mode = 420\<rparr>) (lookup_raw ''/f'' st) \<and>
     ref_of (d_refs d') ''a'' = Some source \<and> ref_of (d_refs d') ''main'' = Some (bm_commit res) \<and>
     bm_commit res = object_hash mix_hash ''commit'' (serialize_commit cd) \<and> cd_parents cd = [target, source]"
proof -
  obtain res d' where m: "merge_branch mix_hash 9 ''a'' ''main'' [] fork_daemon = Some (res, d')" "bm_ok res" by (rule fork_merge)
  from conjunct1 [OF daemon_merge_exact [OF fork_daemon_ok(1) m(1)], rule_format, OF m(2)]
  obtain sp tp d1 d2 source target st cd where e: "branch_by_name ''a'' fork_daemon = Some sp" "branch_by_name ''main'' fork_daemon = Some tp"
    "checkpoint_ctx mix_hash 9 (pre_merge_label ''a'' ''main'' '' source'') ''a'' sp fork_daemon = Some (Inr source, d1)"
    "checkpoint_ctx mix_hash 9 (pre_merge_label ''a'' ''main'' '' target'') ''main'' tp d1 = Some (Inr target, d2)"
    "loads_tree (d_store d2) source st"
    "saved_apart mix_hash 9 (pre_merge_label ''a'' ''main'' '' source'') ''a'' sp fork_daemon \<Longrightarrow>
       rel_option same_entry (lookup_raw ''/f'' (bc_wt (ctx d2 sp))) (lookup_raw ''/f'' st)"
    "\<not> dirty_at fork_daemon sp ''/f'' \<Longrightarrow> lookup_raw ''/f'' (bc_wt (ctx d2 sp)) = lookup_raw ''/f'' (bc_wt (ctx fork_daemon sp))"
    "ref_of (d_refs d') ''a'' = Some source" "ref_of (d_refs d') ''main'' = Some (bm_commit res)"
    "bm_commit res = object_hash mix_hash ''commit'' (serialize_commit cd)" "cd_parents cd = [target, source]" by blast
  have p: "sp = 1" "tp = 0" using e(1,2) fork_daemon_ok(2,3) by simp_all
  have "lookup_raw ''/f'' (bc_wt (ctx fork_daemon 1)) = Some \<lparr>e_kind = Blob, e_hash = 7, e_mode = 420\<rparr>"
    unfolding fork_daemon_ok(4) by (simp add: sample_repo_def lookup_raw_view insert_entry_def wt_raw_put)
  moreover have "\<not> dirty_at fork_daemon 1 ''/f''" by (simp add: dirty_at_def fork_daemon_ok(6))
  ultimately have "rel_option same_entry (Some \<lparr>e_kind = Blob, e_hash = 7, e_mode = 420\<rparr>) (lookup_raw ''/f'' st)"
    using e(6) [unfolded p, OF fork_saved_apart] e(7) [unfolded p] by simp
  moreover note e(3,4) [unfolded p fork_labels append.simps]
  ultimately show ?thesis using m e(5,8-) by blast
qed


end
