(* ===== verification/RuntimeSupervisor.thy ===== *)
theory RuntimeSupervisor
  imports RuntimeState
begin

text \<open>
  \<open>runtime_supervisor.h\<close> and \<open>runtime_supervisor.cpp\<close>: the registry of cooperative runtimes, their
  snapshot boundaries and their parked templates. Every operation takes the mutex once, so each is
  one function on the registry; the process controller is an argument, and the signals that were
  delivered are recorded in order in \<open>sv_signals\<close>. An operation that fails returns its error and
  the registry; ids are the empty string where the source clears them.
\<close>

section \<open>Data\<close>

text \<open>\<open>None\<close> is success, \<open>Some e\<close> failure with the error \<open>e\<close>.\<close>

record controller =
  pc_supported :: "string option"
  pc_alive :: "int \<Rightarrow> bool"
  pc_freeze :: "int \<Rightarrow> string option"
  pc_resume :: "int \<Rightarrow> string option"
  pc_terminate :: "int \<Rightarrow> string option"

datatype signal = Frozen int | Resumed int | Terminated int

record create_request =
  rq_runtime_id :: string
  rq_branch :: string
  rq_root_pid :: int
  rq_pgid :: int
  rq_command_ref :: string
  rq_cwd :: string
  rq_cooperative :: bool
  rq_token :: string

record snapshot_request =
  sq_runtime_id :: string
  sq_boundary_kind :: string
  sq_agent_state_id :: string
  sq_timeout_ms :: u64

record boundary_action =
  ba_action :: string
  ba_operation_id :: string
  ba_template_id :: string
  ba_error :: string

record template_action =
  ta_action :: string
  ta_target :: u64

record restore_intent =
  ri_runtime_id :: string
  ri_template_id :: string
  ri_target :: u64

record template_status =
  ts_template_id :: string
  ts_runtime_id :: string
  ts_pid :: int
  ts_pgid :: int
  ts_generation :: u64
  ts_alive :: bool
  ts_union_state_id :: string
  ts_fs_commit :: hash
  ts_eligibility :: restore_eligibility

record runtime_status =
  st_runtime_id :: string
  st_branch :: string
  st_root_pid :: int
  st_pgid :: int
  st_generation :: u64
  st_command_ref :: string
  st_cooperative :: bool
  st_eligibility :: restore_eligibility
  st_templates :: "template_status list"

record runtime =
  rt_runtime_id :: string
  rt_branch :: string
  rt_root_pid :: int
  rt_pgid :: int
  rt_generation :: u64
  rt_command_ref :: string
  rt_cwd :: string
  rt_cooperative :: bool
  rt_token :: string
  rt_template_ids :: "string list"
  rt_pending :: bool
  rt_pending_op :: string
  rt_pending_kind :: string
  rt_pending_agent :: string
  rt_pending_timeout :: u64
  rt_pending_boundary :: string
  rt_observed :: bool
  rt_pending_template :: string
  rt_restoring :: bool
  rt_restore_template :: string
  rt_restore_target :: u64
  rt_ready :: bool
  rt_retire_pgid :: int

record boundary =
  bd_boundary_id :: string
  bd_runtime_id :: string
  bd_operation_id :: string
  bd_pid :: int
  bd_generation :: u64
  bd_kind :: string
  bd_template_id :: string
  bd_action :: "boundary_action option"

record tmpl =
  tm_template_id :: string
  tm_runtime_id :: string
  tm_pid :: int
  tm_pgid :: int
  tm_generation :: u64
  tm_ready :: bool
  tm_published :: bool
  tm_publish_error :: string
  tm_union_state_id :: string
  tm_fs_commit :: hash
  tm_restore_pending :: bool
  tm_released :: bool
  tm_in_flight :: bool
  tm_target :: u64
  tm_dropped :: bool

record supervisor =
  sv_runtimes :: "(string, runtime) omap"
  sv_boundaries :: "(string, boundary) omap"
  sv_templates :: "(string, tmpl) omap"
  sv_runtime_counter :: u64
  sv_template_counter :: u64
  sv_boundary_counter :: u64
  sv_operation_counter :: u64
  sv_signals :: "signal list"

type_synonym 'a sv_op = "supervisor \<Rightarrow> (string + 'a) \<times> supervisor"

definition new_supervisor :: supervisor where
  "new_supervisor = \<lparr>sv_runtimes = [], sv_boundaries = [], sv_templates = [], sv_runtime_counter = 0,
     sv_template_counter = 0, sv_boundary_counter = 0, sv_operation_counter = 0, sv_signals = []\<rparr>"

definition upd_runtime :: "string \<Rightarrow> (runtime \<Rightarrow> runtime) \<Rightarrow> supervisor \<Rightarrow> supervisor" where
  "upd_runtime rid f sv = (case map_of (sv_runtimes sv) rid of None \<Rightarrow> sv
     | Some r \<Rightarrow> sv\<lparr>sv_runtimes := om_put rid (f r) (sv_runtimes sv)\<rparr>)"

definition upd_template :: "string \<Rightarrow> (tmpl \<Rightarrow> tmpl) \<Rightarrow> supervisor \<Rightarrow> supervisor" where
  "upd_template tid f sv = (case map_of (sv_templates sv) tid of None \<Rightarrow> sv
     | Some t \<Rightarrow> sv\<lparr>sv_templates := om_put tid (f t) (sv_templates sv)\<rparr>)"

definition upd_boundary :: "string \<Rightarrow> (boundary \<Rightarrow> boundary) \<Rightarrow> supervisor \<Rightarrow> supervisor" where
  "upd_boundary bid f sv = (case map_of (sv_boundaries sv) bid of None \<Rightarrow> sv
     | Some b \<Rightarrow> sv\<lparr>sv_boundaries := om_put bid (f b) (sv_boundaries sv)\<rparr>)"

section \<open>Ids\<close>

text \<open>\<open>snprintf(buf, 24, "...%016llx", ++counter)\<close>: the bytes of the counter, highest first.\<close>

definition hex16 :: "u64 \<Rightarrow> string" where
  "hex16 n = concat (map hex2 (rev (enc64 n)))"

definition make_runtime_id :: "supervisor \<Rightarrow> string \<times> supervisor" where
  "make_runtime_id sv = (let n = sv_runtime_counter sv + 1
     in (''rt-'' @ hex16 n, sv\<lparr>sv_runtime_counter := n\<rparr>))"

definition make_template_id :: "supervisor \<Rightarrow> string \<times> supervisor" where
  "make_template_id sv = (let n = sv_template_counter sv + 1
     in (''tmpl-'' @ hex16 n, sv\<lparr>sv_template_counter := n\<rparr>))"

definition make_boundary_id :: "supervisor \<Rightarrow> string \<times> supervisor" where
  "make_boundary_id sv = (let n = sv_boundary_counter sv + 1
     in (''bd-'' @ hex16 n, sv\<lparr>sv_boundary_counter := n\<rparr>))"

definition make_operation_id :: "supervisor \<Rightarrow> string \<times> supervisor" where
  "make_operation_id sv = (let n = sv_operation_counter sv + 1
     in (''op-'' @ hex16 n, sv\<lparr>sv_operation_counter := n\<rparr>))"

section \<open>The registry\<close>

definition new_runtime :: "string \<Rightarrow> create_request \<Rightarrow> runtime" where
  "new_runtime rid rq = \<lparr>rt_runtime_id = rid, rt_branch = rq_branch rq, rt_root_pid = rq_root_pid rq,
     rt_pgid = rq_pgid rq, rt_generation = 1, rt_command_ref = rq_command_ref rq, rt_cwd = rq_cwd rq,
     rt_cooperative = rq_cooperative rq, rt_token = rq_token rq, rt_template_ids = [], rt_pending = False,
     rt_pending_op = [], rt_pending_kind = [], rt_pending_agent = [], rt_pending_timeout = 0,
     rt_pending_boundary = [], rt_observed = False, rt_pending_template = [], rt_restoring = False,
     rt_restore_template = [], rt_restore_target = 0, rt_ready = False, rt_retire_pgid = 0\<rparr>"

definition register_runtime :: "controller \<Rightarrow> create_request \<Rightarrow> unit sv_op" where
  "register_runtime pc rq sv = (case pc_supported pc of Some e \<Rightarrow> (Inl e, sv)
     | None \<Rightarrow>
       (let (rid, sv) = (if rq_runtime_id rq = [] then make_runtime_id sv else (rq_runtime_id rq, sv))
        in if map_of (sv_runtimes sv) rid \<noteq> None then (Inl ''runtime already registered'', sv)
           else (Inr (), sv\<lparr>sv_runtimes := om_put rid (new_runtime rid rq) (sv_runtimes sv)\<rparr>)))"

definition tmpl_alive :: "controller \<Rightarrow> tmpl \<Rightarrow> bool" where
  "tmpl_alive pc t \<longleftrightarrow> tm_ready t \<and> 0 < tm_pid t \<and> pc_alive pc (tm_pid t)"

definition status_of_template :: "controller \<Rightarrow> tmpl \<Rightarrow> template_status" where
  "status_of_template pc t = \<lparr>ts_template_id = tm_template_id t, ts_runtime_id = tm_runtime_id t,
     ts_pid = tm_pid t, ts_pgid = tm_pgid t, ts_generation = tm_generation t, ts_alive = tmpl_alive pc t,
     ts_union_state_id = tm_union_state_id t, ts_fs_commit = tm_fs_commit t,
     ts_eligibility = (if tmpl_alive pc t then LiveRuntimeRestorable else FsOnly)\<rparr>"

definition build_status :: "controller \<Rightarrow> supervisor \<Rightarrow> runtime \<Rightarrow> runtime_status" where
  "build_status pc sv r =
     (let ts = map (status_of_template pc) (List.map_filter (map_of (sv_templates sv)) (rt_template_ids r))
      in \<lparr>st_runtime_id = rt_runtime_id r, st_branch = rt_branch r, st_root_pid = rt_root_pid r,
          st_pgid = rt_pgid r, st_generation = rt_generation r, st_command_ref = rt_command_ref r,
          st_cooperative = rt_cooperative r,
          st_eligibility = (if ts = [] then MetadataOnly
            else if list_ex ts_alive ts then LiveRuntimeRestorable else FsOnly),
          st_templates = ts\<rparr>)"

definition runtime_status_of :: "controller \<Rightarrow> string \<Rightarrow> supervisor \<Rightarrow> string + runtime_status" where
  "runtime_status_of pc rid sv = (case map_of (sv_runtimes sv) rid of None \<Rightarrow> Inl ''unknown runtime''
     | Some r \<Rightarrow> Inr (build_status pc sv r))"

definition list_runtimes :: "controller \<Rightarrow> supervisor \<Rightarrow> runtime_status list" where
  "list_runtimes pc sv = map (\<lambda>e. build_status pc sv (snd e)) (sv_runtimes sv)"

definition template_status_of :: "controller \<Rightarrow> string \<Rightarrow> supervisor \<Rightarrow> string + template_status" where
  "template_status_of pc tid sv = (case map_of (sv_templates sv) tid of None \<Rightarrow> Inl ''unknown template''
     | Some t \<Rightarrow> Inr (status_of_template pc t))"

definition restore_template_status :: "controller \<Rightarrow> string \<Rightarrow> supervisor \<Rightarrow> string + template_status" where
  "restore_template_status pc rid sv = (case map_of (sv_runtimes sv) rid of None \<Rightarrow> Inl ''unknown runtime''
     | Some r \<Rightarrow> if \<not> rt_restoring r \<or> rt_restore_template r = [] then Inl ''no pending restore''
         else template_status_of pc (rt_restore_template r) sv)"

section \<open>Snapshots\<close>

definition begin_snapshot :: "snapshot_request \<Rightarrow> string sv_op" where
  "begin_snapshot rq sv = (case map_of (sv_runtimes sv) (sq_runtime_id rq) of None \<Rightarrow> (Inl ''unknown runtime'', sv)
     | Some r \<Rightarrow> if rt_pending r then (Inl ''snapshot already in progress'', sv)
         else let (op, sv) = make_operation_id sv
              in (Inr op, upd_runtime (sq_runtime_id rq) (\<lambda>r. r\<lparr>rt_pending := True, rt_pending_op := op,
                   rt_pending_kind := sq_boundary_kind rq, rt_pending_agent := sq_agent_state_id rq,
                   rt_pending_timeout := sq_timeout_ms rq, rt_pending_boundary := [], rt_observed := False\<rparr>) sv))"

definition error_action :: "string \<Rightarrow> boundary \<Rightarrow> boundary_action" where
  "error_action msg b = \<lparr>ba_action = ''error'', ba_operation_id = bd_operation_id b, ba_template_id = [],
     ba_error = msg\<rparr>"

definition cancel_snapshot :: "string \<Rightarrow> unit sv_op" where
  "cancel_snapshot rid sv = (case map_of (sv_runtimes sv) rid of None \<Rightarrow> (Inl ''unknown runtime'', sv)
     | Some r \<Rightarrow>
       let sv = (if rt_observed r \<and> rt_pending_boundary r \<noteq> []
                 then upd_boundary (rt_pending_boundary r) (\<lambda>b. if bd_action b \<noteq> None then b
                        else b\<lparr>bd_action := Some (error_action ''snapshot cancelled'' b)\<rparr>) sv
                 else sv)
       in (Inr (), upd_runtime rid (\<lambda>r. r\<lparr>rt_pending := False, rt_pending_op := [], rt_pending_kind := [],
            rt_pending_agent := [], rt_pending_timeout := 0, rt_pending_boundary := [], rt_observed := False\<rparr>) sv))"

definition observe_boundary :: "string \<Rightarrow> string \<Rightarrow> int \<Rightarrow> u64 \<Rightarrow> string \<Rightarrow> string sv_op" where
  "observe_boundary rid token pid gen kind sv =
     (case map_of (sv_runtimes sv) rid of None \<Rightarrow> (Inl ''unknown runtime'', sv)
      | Some r \<Rightarrow>
        if rt_token r = [] \<or> token \<noteq> rt_token r then (Inl ''invalid control token'', sv)
        else if \<not> rt_pending r \<or> rt_observed r then (Inl ''no pending snapshot'', sv)
        else let (bid, sv) = make_boundary_id sv;
                 b = \<lparr>bd_boundary_id = bid, bd_runtime_id = rid, bd_operation_id = rt_pending_op r, bd_pid = pid,
                      bd_generation = gen, bd_kind = kind, bd_template_id = [], bd_action = None\<rparr>;
                 sv = sv\<lparr>sv_boundaries := om_put bid b (sv_boundaries sv)\<rparr>
             in (Inr bid, upd_runtime rid (\<lambda>r. r\<lparr>rt_pending_boundary := bid, rt_observed := True\<rparr>) sv))"

definition new_template :: "string \<Rightarrow> boundary \<Rightarrow> tmpl" where
  "new_template tid b = \<lparr>tm_template_id = tid, tm_runtime_id = bd_runtime_id b, tm_pid = - 1, tm_pgid = - 1,
     tm_generation = bd_generation b, tm_ready = False, tm_published = False, tm_publish_error = [],
     tm_union_state_id = [], tm_fs_commit = ZERO_HASH, tm_restore_pending = False, tm_released = False,
     tm_in_flight = False, tm_target = 0, tm_dropped = False\<rparr>"

definition release_boundary_for_snapshot :: "string \<Rightarrow> boundary_action sv_op" where
  "release_boundary_for_snapshot bid sv =
     (case map_of (sv_boundaries sv) bid of None \<Rightarrow> (Inl ''unknown boundary'', sv)
      | Some b \<Rightarrow>
        if bd_action b \<noteq> None then (Inl ''boundary already released'', sv)
        else let (tid, sv) = make_template_id sv;
                 sv = sv\<lparr>sv_templates := om_put tid (new_template tid b) (sv_templates sv)\<rparr>;
                 sv = upd_runtime (bd_runtime_id b) (\<lambda>r. r\<lparr>rt_template_ids := rt_template_ids r @ [tid],
                        rt_pending_template := tid\<rparr>) sv;
                 a = \<lparr>ba_action = ''snapshot'', ba_operation_id = bd_operation_id b, ba_template_id = tid, ba_error = []\<rparr>
             in (Inr a, upd_boundary bid (\<lambda>b. b\<lparr>bd_template_id := tid, bd_action := Some a\<rparr>) sv))"

definition release_boundary_with_error :: "string \<Rightarrow> string \<Rightarrow> boundary_action sv_op" where
  "release_boundary_with_error bid msg sv =
     (case map_of (sv_boundaries sv) bid of None \<Rightarrow> (Inl ''unknown boundary'', sv)
      | Some b \<Rightarrow>
        if bd_action b \<noteq> None then (Inl ''boundary already released'', sv)
        else let sv = upd_runtime (bd_runtime_id b) (\<lambda>r. r\<lparr>rt_pending := False, rt_observed := False,
                        rt_pending_op := [], rt_pending_boundary := []\<rparr>) sv;
                 a = error_action msg b
             in (Inr a, upd_boundary bid (\<lambda>b. b\<lparr>bd_action := Some a\<rparr>) sv))"

definition template_ready :: "string \<Rightarrow> string \<Rightarrow> string \<Rightarrow> int \<Rightarrow> int \<Rightarrow> u64 \<Rightarrow> unit sv_op" where
  "template_ready rid token tid pid pgid gen sv =
     (case map_of (sv_templates sv) tid of None \<Rightarrow> (Inl ''unknown template'', sv)
      | Some t \<Rightarrow>
        if rid \<noteq> [] \<and> tm_runtime_id t \<noteq> rid then (Inl ''template runtime mismatch'', sv)
        else case map_of (sv_runtimes sv) (tm_runtime_id t) of None \<Rightarrow> (Inl ''unknown runtime'', sv)
        | Some r \<Rightarrow>
          if rt_token r = [] \<or> token \<noteq> rt_token r then (Inl ''invalid control token'', sv)
          else (Inr (), upd_template tid (\<lambda>t. t\<lparr>tm_pid := pid, tm_pgid := pgid, tm_generation := gen,
                  tm_ready := True\<rparr>) sv))"

definition attach_union_state :: "string \<Rightarrow> string \<Rightarrow> hash \<Rightarrow> unit sv_op" where
  "attach_union_state tid uid commit sv =
     (case map_of (sv_templates sv) tid of None \<Rightarrow> (Inl ''unknown template'', sv)
      | Some t \<Rightarrow> (Inr (), upd_template tid (\<lambda>t. t\<lparr>tm_union_state_id := uid, tm_fs_commit := commit,
          tm_published := True, tm_publish_error := []\<rparr>) sv))"

definition fail_template_publish :: "string \<Rightarrow> string \<Rightarrow> unit sv_op" where
  "fail_template_publish tid msg sv =
     (case map_of (sv_templates sv) tid of None \<Rightarrow> (Inl ''unknown template'', sv)
      | Some t \<Rightarrow> (Inr (), upd_template tid (\<lambda>t. t\<lparr>tm_publish_error := msg\<rparr>) sv))"

section \<open>Restores\<close>

definition begin_restore :: "controller \<Rightarrow> restore_intent \<Rightarrow> unit sv_op" where
  "begin_restore pc ri sv =
     (case map_of (sv_runtimes sv) (ri_runtime_id ri) of None \<Rightarrow> (Inl ''unknown runtime'', sv)
      | Some r \<Rightarrow>
        (case map_of (sv_templates sv) (ri_template_id ri) of None \<Rightarrow> (Inl ''unknown template'', sv)
         | Some t \<Rightarrow>
           if tm_runtime_id t \<noteq> ri_runtime_id ri then (Inl ''unknown template'', sv)
           else case (if 0 < rt_pgid r then pc_freeze pc (rt_pgid r) else None) of
             Some e \<Rightarrow> (Inl (''freeze failed: '' @ e), sv)
           | None \<Rightarrow>
             let sv = (if 0 < rt_pgid r then sv\<lparr>sv_signals := sv_signals sv @ [Frozen (rt_pgid r)]\<rparr> else sv);
                 sv = upd_runtime (ri_runtime_id ri) (\<lambda>r. r\<lparr>rt_restoring := True,
                        rt_restore_template := ri_template_id ri, rt_restore_target := ri_target ri,
                        rt_ready := False, rt_retire_pgid := 0\<rparr>) sv
             in (Inr (), upd_template (ri_template_id ri) (\<lambda>t. t\<lparr>tm_restore_pending := True, tm_released := False,
                   tm_in_flight := False, tm_target := ri_target ri\<rparr>) sv)))"

definition publish_restore :: "string \<Rightarrow> unit sv_op" where
  "publish_restore rid sv =
     (case map_of (sv_runtimes sv) rid of None \<Rightarrow> (Inl ''unknown runtime'', sv)
      | Some r \<Rightarrow>
        if \<not> rt_restoring r \<or> rt_restore_template r = [] then (Inl ''no pending restore'', sv)
        else case map_of (sv_templates sv) (rt_restore_template r) of None \<Rightarrow> (Inl ''unknown template'', sv)
        | Some t \<Rightarrow>
          if \<not> tm_restore_pending t \<or> tm_runtime_id t \<noteq> rid then (Inl ''no pending restore'', sv)
          else (Inr (), upd_template (rt_restore_template r) (\<lambda>t. t\<lparr>tm_released := True\<rparr>) sv))"

text \<open>The signal of the last lines is sent after the mutex was released; the result is the error text.\<close>

definition abort_restore :: "controller \<Rightarrow> string \<Rightarrow> string sv_op" where
  "abort_restore pc rid sv =
     (case map_of (sv_runtimes sv) rid of None \<Rightarrow> (Inl ''unknown runtime'', sv)
      | Some r \<Rightarrow>
        let pgid = rt_pgid r;
            sv = (if rt_restore_template r = [] then sv
                  else upd_template (rt_restore_template r) (\<lambda>t. t\<lparr>tm_restore_pending := False, tm_released := False,
                         tm_in_flight := False, tm_target := 0\<rparr>) sv);
            sv = upd_runtime rid (\<lambda>r. r\<lparr>rt_restoring := False, rt_ready := False, rt_restore_template := [],
                   rt_restore_target := 0\<rparr>) sv
        in if 0 < pgid
           then (case pc_resume pc pgid of
                   Some e \<Rightarrow> (Inr (''resume failed: '' @ (if e = [] then ''unknown resume error'' else e)), sv)
                 | None \<Rightarrow> (Inr [], sv\<lparr>sv_signals := sv_signals sv @ [Resumed pgid]\<rparr>))
           else (Inr [], sv))"

definition template_poll :: "string \<Rightarrow> string \<Rightarrow> template_action sv_op" where
  "template_poll tid token sv =
     (case map_of (sv_templates sv) tid of None \<Rightarrow> (Inl ''unknown template'', sv)
      | Some t \<Rightarrow>
        (case map_of (sv_runtimes sv) (tm_runtime_id t) of None \<Rightarrow> (Inl ''unknown runtime'', sv)
         | Some r \<Rightarrow>
           if rt_token r = [] \<or> token \<noteq> rt_token r then (Inl ''invalid control token'', sv)
           else if tm_dropped t then
             (Inr \<lparr>ta_action = ''drop'', ta_target = 0\<rparr>, sv\<lparr>sv_templates := om_del tid (sv_templates sv)\<rparr>)
           else if tm_restore_pending t \<and> tm_released t \<and> \<not> tm_in_flight t then
             (Inr \<lparr>ta_action = ''restore'', ta_target = tm_target t\<rparr>,
              upd_template tid (\<lambda>t. t\<lparr>tm_in_flight := True\<rparr>) sv)
           else (Inr \<lparr>ta_action = ''wait'', ta_target = 0\<rparr>, sv)))"

definition generation_ready :: "string \<Rightarrow> string \<Rightarrow> int \<Rightarrow> int \<Rightarrow> u64 \<Rightarrow> unit sv_op" where
  "generation_ready rid token pid pgid gen sv =
     (case map_of (sv_runtimes sv) rid of None \<Rightarrow> (Inl ''unknown runtime'', sv)
      | Some r \<Rightarrow>
        if rt_token r = [] \<or> token \<noteq> rt_token r then (Inl ''invalid control token'', sv)
        else if \<not> rt_restoring r \<or> rt_restore_target r \<noteq> gen then (Inl ''restore aborted or stale'', sv)
        else let sv = (if rt_restore_template r = [] then sv
                       else upd_template (rt_restore_template r) (\<lambda>t. t\<lparr>tm_restore_pending := False,
                              tm_released := False, tm_in_flight := False\<rparr>) sv)
             in (Inr (), upd_runtime rid (\<lambda>r. r\<lparr>rt_retire_pgid := rt_pgid r, rt_root_pid := pid, rt_pgid := pgid,
                   rt_generation := gen, rt_ready := True, rt_restoring := False, rt_restore_template := []\<rparr>) sv))"

definition retire_pending_generation :: "controller \<Rightarrow> string \<Rightarrow> string sv_op" where
  "retire_pending_generation pc rid sv =
     (case map_of (sv_runtimes sv) rid of None \<Rightarrow> (Inl ''unknown runtime'', sv)
      | Some r \<Rightarrow>
        let prior = rt_retire_pgid r; sv = upd_runtime rid (\<lambda>r. r\<lparr>rt_retire_pgid := 0\<rparr>) sv
        in if 0 < prior
           then (case pc_terminate pc prior of
                   Some e \<Rightarrow> (Inr (''terminate failed: '' @ (if e = [] then ''unknown terminate error'' else e)), sv)
                 | None \<Rightarrow> (Inr [], sv\<lparr>sv_signals := sv_signals sv @ [Terminated prior]\<rparr>))
           else (Inr [], sv))"

definition drop_template :: "string \<Rightarrow> unit sv_op" where
  "drop_template tid sv =
     (case map_of (sv_templates sv) tid of None \<Rightarrow> (Inl ''unknown template'', sv)
      | Some t \<Rightarrow>
        if (case map_of (sv_runtimes sv) (tm_runtime_id t) of None \<Rightarrow> False
            | Some r \<Rightarrow> rt_restoring r \<and> rt_restore_template r = tid)
        then (Inl ''template restore in progress'', sv)
        else (Inr (), upd_runtime (tm_runtime_id t) (\<lambda>r. r\<lparr>
                 rt_template_ids := filter (\<lambda>x. x \<noteq> tid) (rt_template_ids r),
                 rt_pending_template := (if rt_pending_template r = tid then [] else rt_pending_template r)\<rparr>)
               (upd_template tid (\<lambda>t. t\<lparr>tm_dropped := True\<rparr>) sv)))"

section \<open>Waiting\<close>

text \<open>
  A wait is given what the other threads do until it is woken with its condition true or its time
  is over, and looks at the registry again then.
\<close>

type_synonym others = "supervisor \<Rightarrow> supervisor"

definition wait_for_boundary :: "others \<Rightarrow> string \<Rightarrow> string sv_op" where
  "wait_for_boundary others rid sv =
     (if map_of (sv_runtimes sv) rid = None then (Inl ''unknown runtime'', sv)
      else let sv = others sv
           in case map_of (sv_runtimes sv) rid of None \<Rightarrow> (Inl ''unknown runtime'', sv)
              | Some r \<Rightarrow> (if rt_observed r then Inr (rt_pending_boundary r) else Inl ''snapshot timeout'', sv))"

definition wait_for_template_ready :: "others \<Rightarrow> string \<Rightarrow> unit sv_op" where
  "wait_for_template_ready others rid sv =
     (if map_of (sv_runtimes sv) rid = None then (Inl ''unknown runtime'', sv)
      else let sv = others sv
           in case map_of (sv_runtimes sv) rid of None \<Rightarrow> (Inl ''unknown runtime'', sv)
              | Some r \<Rightarrow>
                (if rt_pending_template r \<noteq> [] \<and> (case map_of (sv_templates sv) (rt_pending_template r) of
                      None \<Rightarrow> False | Some t \<Rightarrow> tm_ready t)
                 then Inr () else Inl ''snapshot timeout'', sv))"

definition wait_for_generation_ready :: "others \<Rightarrow> string \<Rightarrow> unit sv_op" where
  "wait_for_generation_ready others rid sv =
     (if map_of (sv_runtimes sv) rid = None then (Inl ''unknown runtime'', sv)
      else let sv = others sv
           in case map_of (sv_runtimes sv) rid of None \<Rightarrow> (Inl ''unknown runtime'', sv)
              | Some r \<Rightarrow> (if rt_ready r then Inr () else Inl ''restore timeout'', sv))"

text \<open>What a handler thread does when its wait for a boundary's action is over.\<close>

definition take_boundary_action :: "string \<Rightarrow> boundary_action sv_op" where
  "take_boundary_action bid sv =
     (case map_of (sv_boundaries sv) bid of None \<Rightarrow> (Inl ''unknown boundary'', sv)
      | Some b \<Rightarrow> (case bd_action b of None \<Rightarrow> Inl ''snapshot timeout'' | Some a \<Rightarrow> Inr a,
                   sv\<lparr>sv_boundaries := om_del bid (sv_boundaries sv)\<rparr>))"

definition wait_boundary_action :: "others \<Rightarrow> string \<Rightarrow> boundary_action sv_op" where
  "wait_boundary_action others bid sv =
     (if map_of (sv_boundaries sv) bid = None then (Inl ''unknown boundary'', sv)
      else take_boundary_action bid (others sv))"

definition wait_template_published :: "others \<Rightarrow> string \<Rightarrow> unit sv_op" where
  "wait_template_published others tid sv =
     (if map_of (sv_templates sv) tid = None then (Inl ''unknown template'', sv)
      else let sv = others sv
           in case map_of (sv_templates sv) tid of None \<Rightarrow> (Inl ''unknown template'', sv)
              | Some t \<Rightarrow>
                (if tm_dropped t then Inl ''template dropped''
                 else if tm_publish_error t \<noteq> [] then Inl (tm_publish_error t)
                 else if \<not> tm_published t then Inl ''snapshot timeout'' else Inr (), sv))"

end
