(* ===== verification/SupervisorRuns.thy ===== *)
theory SupervisorRuns
  imports SupervisorProps
begin

text \<open>
  What the registry promises over every sequence of calls, whichever threads make them: its
  invariant, one hand-off per published restore, one action per boundary, one snapshot at a time; and the two
  orders of calls in which a restore leaves the stopped process group behind.
\<close>

section \<open>Runs\<close>

lemma sv_run_append: "sv_run pc (cs @ ds) sv = sv_run pc ds (sv_run pc cs sv)"
  by (induction cs arbitrary: sv) simp_all

lemma sv_run_induct:
  assumes "I sv" "\<And>c sv. c \<in> set cs \<Longrightarrow> I sv \<Longrightarrow> I (sv_exec pc c sv)"
  shows "I (sv_run pc cs sv)"
  using assms by (induction cs arbitrary: sv) simp_all

text \<open>No id counter wraps while the calls are made.\<close>

fun no_wrap :: "controller \<Rightarrow> sv_call list \<Rightarrow> supervisor \<Rightarrow> bool" where
  "no_wrap pc [] sv = True"
| "no_wrap pc (c # cs) sv \<longleftrightarrow> counters_ok sv \<and> no_wrap pc cs (sv_exec pc c sv)"

lemma sv_run_reach: "no_wrap pc cs sv \<Longrightarrow> sv_reach sv \<Longrightarrow> sv_reach (sv_run pc cs sv)"
  by (induction cs arbitrary: sv) (auto intro: sv_reach.Call)

lemma sv_run_inv: "no_wrap pc cs sv \<Longrightarrow> sup_inv sv \<Longrightarrow> sup_inv (sv_run pc cs sv)"
  by (induction cs arbitrary: sv) (simp_all add: exec_inv)

lemma new_supervisor_inv: "sup_inv new_supervisor"
  by (simp add: sup_inv_def new_supervisor_def)

lemma sv_reach_inv: "sv_reach sv \<Longrightarrow> sup_inv sv"
  by (induction rule: sv_reach.induct) (simp_all add: new_supervisor_inv exec_inv)

section \<open>A sample\<close>

text \<open>A controller whose signals are all delivered, a runtime, and its first snapshot.\<close>

definition willing :: controller where
  "willing = \<lparr>pc_supported = None, pc_alive = (\<lambda>_. True), pc_freeze = (\<lambda>_. None), pc_resume = (\<lambda>_. None),
     pc_terminate = (\<lambda>_. None)\<rparr>"

definition sample_create :: create_request where
  "sample_create = \<lparr>rq_runtime_id = ''r'', rq_branch = ''main'', rq_root_pid = 10, rq_pgid = 10, rq_command_ref = [],
     rq_cwd = [], rq_cooperative = True, rq_token = ''k''\<rparr>"

definition sample_snapshot :: snapshot_request where
  "sample_snapshot = \<lparr>sq_runtime_id = ''r'', sq_boundary_kind = ''manual'', sq_agent_state_id = [], sq_timeout_ms = 1000\<rparr>"

definition sample_restore :: restore_intent where
  "sample_restore = \<lparr>ri_runtime_id = ''r'', ri_template_id = ''tmpl-0000000000000001'', ri_target = 2\<rparr>"

definition snapshot_calls :: "sv_call list" where
  "snapshot_calls = [CRegister sample_create, CBeginSnapshot sample_snapshot,
     CObserve ''r'' ''k'' 10 1 ''manual'', CRelease ''bd-0000000000000001'', CTake ''bd-0000000000000001'',
     CTemplateReady ''r'' ''k'' ''tmpl-0000000000000001'' 20 20 1, CAttach ''tmpl-0000000000000001'' ''u'' 5, CCancel ''r'']"

lemmas sample_defs = willing_def sample_create_def sample_snapshot_def sample_restore_def snapshot_calls_def

definition sample_supervisor :: supervisor where
  "sample_supervisor = sv_run willing snapshot_calls new_supervisor"


section \<open>The invariant\<close>

text \<open>
  C20: In every state the registry can reach, through any calls of any threads while no id counter
  wraps, a runtime with an observed boundary has a snapshot pending; its list of templates has no
  repetition and names templates of the registry that are its own and not dropped; every template
  was issued by the counter, belongs to a registered runtime, is listed by it unless dropped, and is
  in flight only when its restore was released, and released only when one is pending; every
  boundary was issued by the counter for a registered runtime.
\<close>

theorem supervisor_invariant: "sv_reach sv \<Longrightarrow> sup_inv sv"
  by (rule sv_reach_inv)

section \<open>One hand-off per restore\<close>

text \<open>The targets a template was told to restore by the polls among the calls.\<close>

definition restore_answer :: "string \<Rightarrow> sv_call \<Rightarrow> supervisor \<Rightarrow> u64 list" where
  "restore_answer tid c sv = (case c of
     CPoll x tok \<Rightarrow> (case fst (template_poll x tok sv) of
        Inr a \<Rightarrow> if x = tid \<and> ta_action a = ''restore'' then [ta_target a] else [] | Inl _ \<Rightarrow> [])
   | _ \<Rightarrow> [])"

fun restores :: "controller \<Rightarrow> string \<Rightarrow> sv_call list \<Rightarrow> supervisor \<Rightarrow> u64 list" where
  "restores pc tid [] sv = []"
| "restores pc tid (c # cs) sv = restore_answer tid c sv @ restores pc tid cs (sv_exec pc c sv)"

text \<open>
  What is kept of a template while no other restore begins on it: a hand-off needs a pending intent
  that was not handed off; the intent's target does not change.
\<close>

definition armed :: "supervisor \<Rightarrow> string \<Rightarrow> bool" where
  "armed sv tid \<longleftrightarrow> (\<exists>t. map_of (sv_templates sv) tid = Some t \<and> tm_restore_pending t \<and> \<not> tm_in_flight t)"

definition intent_kept :: "string \<Rightarrow> u64 \<Rightarrow> string \<Rightarrow> supervisor \<Rightarrow> bool" where
  "intent_kept tid target rid sv \<longleftrightarrow> (\<forall>t. map_of (sv_templates sv) tid = Some t \<longrightarrow> tm_restore_pending t \<longrightarrow>
     tm_target t = target \<and> tm_runtime_id t = rid)"

definition unreleased :: "string \<Rightarrow> supervisor \<Rightarrow> bool" where
  "unreleased tid sv \<longleftrightarrow> (\<forall>t. map_of (sv_templates sv) tid = Some t \<longrightarrow> tm_restore_pending t \<longrightarrow> \<not> tm_released t)"

lemma exec_template:
  assumes c: "\<And>ri. c = CBeginRestore ri \<Longrightarrow> ri_template_id ri \<noteq> tid"
    and t: "map_of (sv_templates (sv_exec pc c sv)) tid = Some t'"
  shows "\<not> tm_restore_pending t' \<or> (\<exists>t. map_of (sv_templates sv) tid = Some t \<and> tm_restore_pending t \<and>
     tm_target t' = tm_target t \<and> tm_runtime_id t' = tm_runtime_id t \<and> (tm_in_flight t \<longrightarrow> tm_in_flight t') \<and>
     (tm_released t' \<longrightarrow> tm_released t \<or> c = CPublishRestore (tm_runtime_id t)))"
proof (cases c)
  case (CRegister rq)
  with t show ?thesis
    by (auto simp: register_runtime_def make_runtime_id_def Let_def split: option.splits if_splits prod.splits)
next
  case (CBeginSnapshot rq)
  with t show ?thesis
    by (auto simp: begin_snapshot_def make_operation_id_def Let_def upd_runtime_get split: option.splits if_splits)
next
  case (CCancel rid)
  with t show ?thesis by (auto simp: cancel_snapshot_def Let_def split: option.splits if_splits)
next
  case (CObserve rid tok pid gen kind)
  with t show ?thesis by (auto simp: observe_boundary_def make_boundary_id_def Let_def split: option.splits if_splits)
next
  case (CRelease bid)
  with t show ?thesis
    by (auto simp: release_boundary_for_snapshot_def make_template_id_def new_template_def Let_def om_simps
        split: option.splits if_splits)
next
  case (CReleaseError bid msg)
  with t show ?thesis by (auto simp: release_boundary_with_error_def Let_def split: option.splits if_splits)
next
  case (CTake bid)
  with t show ?thesis by (auto simp: take_boundary_action_def split: option.splits)
next
  case (CTemplateReady rid tok x pid pgid gen)
  with t show ?thesis by (auto simp: template_ready_def sv_gets split: option.splits if_splits)
next
  case (CAttach x uid commit)
  with t show ?thesis by (auto simp: attach_union_state_def sv_gets split: option.splits if_splits)
next
  case (CFailPublish x msg)
  with t show ?thesis by (auto simp: fail_template_publish_def sv_gets split: option.splits if_splits)
next
  case (CBeginRestore ri)
  with t c show ?thesis
    by (auto simp: begin_restore_def Let_def sv_gets split: option.splits if_splits)
next
  case (CPublishRestore rid)
  with t show ?thesis by (auto simp: publish_restore_def sv_gets split: option.splits if_splits)
next
  case (CAbort rid)
  with t show ?thesis by (auto simp: abort_restore_def Let_def sv_gets split: option.splits if_splits)
next
  case (CPoll x tok)
  with t show ?thesis by (auto simp: template_poll_def om_simps sv_gets split: option.splits if_splits)
next
  case (CGenerationReady rid tok pid pgid gen)
  with t show ?thesis by (auto simp: generation_ready_def Let_def sv_gets split: option.splits if_splits)
next
  case (CRetire rid)
  with t show ?thesis by (auto simp: retire_pending_generation_def Let_def split: option.splits if_splits)
next
  case (CDrop x)
  with t show ?thesis by (auto simp: drop_template_def sv_gets split: option.splits if_splits)
qed

lemma exec_intent:
  assumes c: "\<And>ri. c = CBeginRestore ri \<Longrightarrow> ri_template_id ri \<noteq> tid"
  shows "intent_kept tid x rid sv \<Longrightarrow> intent_kept tid x rid (sv_exec pc c sv)"
    "armed (sv_exec pc c sv) tid \<Longrightarrow> armed sv tid"
    "intent_kept tid x rid sv \<Longrightarrow> unreleased tid sv \<Longrightarrow> c \<noteq> CPublishRestore rid \<Longrightarrow> unreleased tid (sv_exec pc c sv)"
  using exec_template [OF c] unfolding intent_kept_def armed_def unreleased_def by (blast, blast, metis)

text \<open>A poll answers \<open>restore\<close> only to an armed and released intent, which is not armed afterwards.\<close>

lemma restore_answer_cases:
  "restore_answer tid c sv = [] \<or>
   (\<exists>t. map_of (sv_templates sv) tid = Some t \<and> tm_restore_pending t \<and> tm_released t \<and> \<not> tm_in_flight t \<and>
     restore_answer tid c sv = [tm_target t] \<and> \<not> armed (sv_exec pc c sv) tid)"
proof (cases "\<exists>tok. c = CPoll tid tok")
  case True
  then show ?thesis
    by (auto simp: restore_answer_def template_poll_def armed_def sv_gets split: option.splits)
next
  case False
  then show ?thesis
    by (auto simp: restore_answer_def template_poll_def split: sv_call.splits sum.splits option.splits)
qed

lemma restores_unarmed:
  assumes "\<And>ri. CBeginRestore ri \<in> set cs \<Longrightarrow> ri_template_id ri \<noteq> tid" "\<not> armed sv tid"
  shows "restores pc tid cs sv = []"
  using assms
proof (induction cs arbitrary: sv)
  case (Cons c cs)
  have "restore_answer tid c sv = []"
    using restore_answer_cases [of tid c sv pc] Cons.prems(2) by (auto simp: armed_def)
  moreover have "\<not> armed (sv_exec pc c sv) tid" using exec_intent(2) [of c tid pc sv] Cons.prems by auto
  ultimately show ?case using Cons by simp
qed simp

lemma restores_armed:
  assumes "\<And>ri. CBeginRestore ri \<in> set cs \<Longrightarrow> ri_template_id ri \<noteq> tid" "intent_kept tid x rid sv"
  shows "restores pc tid cs sv \<in> {[], [x]}"
  using assms
proof (induction cs arbitrary: sv)
  case (Cons c cs)
  have k: "intent_kept tid x rid (sv_exec pc c sv)" using exec_intent(1) [of c tid x rid sv pc] Cons.prems by auto
  consider "restore_answer tid c sv = []"
    | t where "map_of (sv_templates sv) tid = Some t" "tm_restore_pending t" "restore_answer tid c sv = [tm_target t]"
      "\<not> armed (sv_exec pc c sv) tid"
    using restore_answer_cases [of tid c sv pc] by blast
  then show ?case
  proof cases
    case 1
    with Cons k show ?thesis by simp
  next
    case 2
    moreover have "restores pc tid cs (sv_exec pc c sv) = []" using restores_unarmed 2(4) Cons.prems(1) by simp
    ultimately show ?thesis using Cons.prems(2) by (simp add: intent_kept_def)
  qed
qed simp

lemma restores_unreleased:
  assumes "\<And>ri. CBeginRestore ri \<in> set cs \<Longrightarrow> ri_template_id ri \<noteq> tid" "CPublishRestore rid \<notin> set cs"
    "intent_kept tid x rid sv" "unreleased tid sv"
  shows "restores pc tid cs sv = []"
  using assms
proof (induction cs arbitrary: sv)
  case (Cons c cs)
  have "restore_answer tid c sv = []"
    using restore_answer_cases [of tid c sv pc] Cons.prems(4) by (auto simp: unreleased_def)
  moreover have "intent_kept tid x rid (sv_exec pc c sv)" "unreleased tid (sv_exec pc c sv)"
    using exec_intent(1,3) [of c tid x rid sv pc] Cons.prems by auto
  ultimately show ?case using Cons by simp
qed simp

lemma begin_restore_ok:
  assumes "begin_restore pc ri sv = (Inr (), sv1)"
  obtains r t where "map_of (sv_runtimes sv) (ri_runtime_id ri) = Some r"
    "map_of (sv_templates sv) (ri_template_id ri) = Some t" "tm_runtime_id t = ri_runtime_id ri"
    "sv1 = upd_template (ri_template_id ri) (\<lambda>t. t\<lparr>tm_restore_pending := True, tm_released := False,
         tm_in_flight := False, tm_target := ri_target ri\<rparr>)
       (upd_runtime (ri_runtime_id ri) (\<lambda>r. r\<lparr>rt_restoring := True, rt_restore_template := ri_template_id ri,
         rt_restore_target := ri_target ri, rt_ready := False, rt_retire_pgid := 0\<rparr>)
       (sv\<lparr>sv_signals := sv_signals sv @ (if 0 < rt_pgid r then [Frozen (rt_pgid r)] else [])\<rparr>))"
proof -
  obtain r where r: "map_of (sv_runtimes sv) (ri_runtime_id ri) = Some r"
    using assms by (simp add: begin_restore_def split: option.splits)
  obtain t where t: "map_of (sv_templates sv) (ri_template_id ri) = Some t" "tm_runtime_id t = ri_runtime_id ri"
    using assms r by (simp add: begin_restore_def split: option.splits if_splits)
  show thesis
  proof (rule that [OF r t])
    show "sv1 = upd_template (ri_template_id ri) (\<lambda>t. t\<lparr>tm_restore_pending := True, tm_released := False,
         tm_in_flight := False, tm_target := ri_target ri\<rparr>)
       (upd_runtime (ri_runtime_id ri) (\<lambda>r. r\<lparr>rt_restoring := True, rt_restore_template := ri_template_id ri,
         rt_restore_target := ri_target ri, rt_ready := False, rt_retire_pgid := 0\<rparr>)
       (sv\<lparr>sv_signals := sv_signals sv @ (if 0 < rt_pgid r then [Frozen (rt_pgid r)] else [])\<rparr>))"
      using assms r t by (cases "0 < rt_pgid r") (simp_all add: begin_restore_def Let_def split: option.splits)
  qed
qed

lemma restore_handed_once_facts:
  assumes b: "begin_restore pc ri sv = (Inr (), sv1)"
    and o: "\<And>other. CBeginRestore other \<in> set cs \<Longrightarrow> ri_template_id other \<noteq> ri_template_id ri"
  shows "restores pc (ri_template_id ri) cs sv1 = [] \<or> restores pc (ri_template_id ri) cs sv1 = [ri_target ri]"
    "CPublishRestore (ri_runtime_id ri) \<notin> set cs \<Longrightarrow> restores pc (ri_template_id ri) cs sv1 = []"
proof -
  obtain r t where e: "map_of (sv_templates sv) (ri_template_id ri) = Some t" "tm_runtime_id t = ri_runtime_id ri"
    "map_of (sv_templates sv1) (ri_template_id ri) = Some (t\<lparr>tm_restore_pending := True, tm_released := False,
         tm_in_flight := False, tm_target := ri_target ri\<rparr>)"
    by (rule begin_restore_ok [OF b]) (simp add: upd_template_get)
  have k: "intent_kept (ri_template_id ri) (ri_target ri) (ri_runtime_id ri) sv1"
    and u: "unreleased (ri_template_id ri) sv1"
    by (simp_all add: intent_kept_def unreleased_def e)
  show "restores pc (ri_template_id ri) cs sv1 = [] \<or> restores pc (ri_template_id ri) cs sv1 = [ri_target ri]"
    using restores_armed [OF o k] by blast
  show "restores pc (ri_template_id ri) cs sv1 = []" if "CPublishRestore (ri_runtime_id ri) \<notin> set cs"
    by (rule restores_unreleased [OF o that k u])
qed

section \<open>One action per boundary\<close>

lemmas sv_op_defs = register_runtime_def make_runtime_id_def begin_snapshot_def make_operation_id_def
  cancel_snapshot_def release_boundary_for_snapshot_def make_template_id_def release_boundary_with_error_def
  take_boundary_action_def template_ready_def attach_union_state_def fail_template_publish_def begin_restore_def
  publish_restore_def abort_restore_def template_poll_def generation_ready_def retire_pending_generation_def
  drop_template_def observe_boundary_def make_boundary_id_def

lemma exec_action:
  assumes i: "sup_inv sv" and k: "counters_ok sv" and b: "map_of (sv_boundaries sv) bid = Some b" "bd_action b = Some a"
    and c: "c \<noteq> CTake bid"
  shows "\<exists>b'. map_of (sv_boundaries (sv_exec pc c sv)) bid = Some b' \<and> bd_action b' = Some a"
proof (cases c)
  case (CObserve rid tok pid gen kind)
  have "issued ''bd-'' (sv_boundary_counter sv) bid" using sup_invD(3) [OF i b(1)] by (simp add: boundary_inv_def)
  then have "bid \<noteq> ''bd-'' @ hex16 (sv_boundary_counter sv + 1)"
    using k not_issued [of "sv_boundary_counter sv" "''bd-''"] by (auto simp: counters_ok_def)
  with CObserve b show ?thesis
    by (simp add: observe_boundary_def make_boundary_id_def Let_def om_simps split: option.splits)
next
  case (CCancel rid)
  have "map_of (sv_boundaries (snd (cancel_snapshot rid sv))) bid = Some b"
    using b by (cases "map_of (sv_runtimes sv) rid")
      (auto simp: cancel_snapshot_def Let_def upd_boundary_get simp del: map_option_eq_Some)
  with CCancel b show ?thesis by simp
qed (use b c in \<open>auto simp: sv_op_defs Let_def sv_gets om_simps upd_runtime_def upd_template_def
      split: option.splits if_splits prod.splits\<close>)

lemma run_action:
  assumes "sup_inv sv" "no_wrap pc cs sv" "map_of (sv_boundaries sv) bid = Some b" "bd_action b = Some a" "CTake bid \<notin> set cs"
  shows "\<exists>b'. map_of (sv_boundaries (sv_run pc cs sv)) bid = Some b' \<and> bd_action b' = Some a"
  using assms
proof (induction cs arbitrary: sv b)
  case (Cons c cs)
  obtain b' where b': "map_of (sv_boundaries (sv_exec pc c sv)) bid = Some b'" "bd_action b' = Some a"
    using exec_action [of sv bid b a c pc] Cons.prems by auto
  have "sup_inv (sv_exec pc c sv)" "no_wrap pc cs (sv_exec pc c sv)" "CTake bid \<notin> set cs"
    using Cons.prems exec_inv by auto
  from Cons.IH [OF this(1,2) b' this(3)] show ?case by simp
qed auto

definition releases :: "string \<Rightarrow> boundary_action \<Rightarrow> supervisor \<Rightarrow> supervisor \<Rightarrow> bool" where
  "releases bid a sv sv1 \<longleftrightarrow> release_boundary_for_snapshot bid sv = (Inr a, sv1) \<or>
     (\<exists>msg. release_boundary_with_error bid msg sv = (Inr a, sv1))"

lemma releases_action:
  assumes "releases bid a sv sv1"
  shows "\<exists>b. map_of (sv_boundaries sv1) bid = Some b \<and> bd_action b = Some a"
  using assms
  by (auto simp: releases_def release_boundary_for_snapshot_def release_boundary_with_error_def make_template_id_def Let_def
      upd_boundary_get split: option.splits if_splits)

lemma releases_inv:
  assumes "releases bid a sv sv1" "sup_inv sv" "counters_ok sv"
  shows "sup_inv sv1"
  using assms sv_release_inv [of sv bid] error_release_inv [of sv bid]
  by (auto simp: releases_def counters_ok_def) (metis snd_conv)+

lemma released_action_taken_facts:
  assumes s: "sv_reach sv" "counters_ok sv" and r: "releases bid a sv sv1"
    and cs: "no_wrap pc cs sv1" "CTake bid \<notin> set cs"
  shows "fst (wait_boundary_action (sv_run pc cs) bid sv1) = Inr a"
    "fst (release_boundary_for_snapshot bid (sv_run pc cs sv1)) = Inl ''boundary already released''"
    "fst (release_boundary_with_error bid msg (sv_run pc cs sv1)) = Inl ''boundary already released''"
    "map_of (sv_boundaries (snd (wait_boundary_action (sv_run pc cs) bid sv1))) bid = None"
proof -
  from releases_inv [OF r sv_reach_inv [OF s(1)] s(2)] have i: "sup_inv sv1" .
  obtain b where b: "map_of (sv_boundaries sv1) bid = Some b" "bd_action b = Some a" using releases_action [OF r] by blast
  obtain b' where b': "map_of (sv_boundaries (sv_run pc cs sv1)) bid = Some b'" "bd_action b' = Some a"
    using run_action [OF i cs(1) b cs(2)] by blast
  show "fst (wait_boundary_action (sv_run pc cs) bid sv1) = Inr a"
    "map_of (sv_boundaries (snd (wait_boundary_action (sv_run pc cs) bid sv1))) bid = None"
    using b b' by (simp_all add: wait_boundary_action_def take_boundary_action_def map_of_om_del)
  show "fst (release_boundary_for_snapshot bid (sv_run pc cs sv1)) = Inl ''boundary already released''"
    "fst (release_boundary_with_error bid msg (sv_run pc cs sv1)) = Inl ''boundary already released''"
    using b' by (simp_all add: release_boundary_for_snapshot_def release_boundary_with_error_def)
qed

text \<open>
  C22: A boundary is released at most once. Once a snapshot's boundary got an action, which is a
  snapshot or an error, the handler that waits for it is answered with that very action, whatever
  calls other threads make meanwhile; no second release of the boundary succeeds, so an action that
  names a template is not replaced by an error after the runtime forked, or the other way round;
  and the handler's answer is the boundary's last use.
\<close>

theorem released_action_taken:
  assumes s: "sv_reach sv" "counters_ok sv" and r: "releases bid a sv sv1"
    and cs: "no_wrap pc cs sv1" "CTake bid \<notin> set cs"
  shows "(fst (wait_boundary_action (sv_run pc cs) bid sv1) = Inr a) \<and>
     (fst (release_boundary_for_snapshot bid (sv_run pc cs sv1)) = Inl ''boundary already released'') \<and>
     (fst (release_boundary_with_error bid msg (sv_run pc cs sv1)) = Inl ''boundary already released'') \<and>
     (map_of (sv_boundaries (snd (wait_boundary_action (sv_run pc cs) bid sv1))) bid = None)"
  using released_action_taken_facts [OF assms] by blast

section \<open>One snapshot at a time\<close>

text \<open>The boundaries the runtime observed by the calls.\<close>

definition observed_by :: "string \<Rightarrow> sv_call \<Rightarrow> supervisor \<Rightarrow> string list" where
  "observed_by rid c sv = (case c of
     CObserve x tok pid gen kind \<Rightarrow> (case fst (observe_boundary x tok pid gen kind sv) of
        Inr bid \<Rightarrow> if x = rid then [bid] else [] | Inl _ \<Rightarrow> [])
   | _ \<Rightarrow> [])"

fun boundaries_seen :: "controller \<Rightarrow> string \<Rightarrow> sv_call list \<Rightarrow> supervisor \<Rightarrow> string list" where
  "boundaries_seen pc rid [] sv = []"
| "boundaries_seen pc rid (c # cs) sv = observed_by rid c sv @ boundaries_seen pc rid cs (sv_exec pc c sv)"

fun ends_snapshot :: "string \<Rightarrow> sv_call \<Rightarrow> bool" where
  "ends_snapshot rid (CCancel x) \<longleftrightarrow> x = rid"
| "ends_snapshot rid (CReleaseError bid msg) \<longleftrightarrow> True"
| "ends_snapshot rid c \<longleftrightarrow> False"

lemma drop_template_runtime:
  assumes "map_of (sv_runtimes sv) rid = Some r"
  shows "\<exists>f. map_of (sv_runtimes (snd (drop_template x sv))) rid = Some (f r) \<and> rt_pending (f r) = rt_pending r \<and>
    rt_pending_op (f r) = rt_pending_op r \<and> rt_observed (f r) = rt_observed r \<and>
    rt_pending_boundary (f r) = rt_pending_boundary r"
proof -
  define g :: "runtime \<Rightarrow> runtime" where "g = (\<lambda>r. r\<lparr>rt_template_ids := filter (\<lambda>y. y \<noteq> x) (rt_template_ids r),
    rt_pending_template := (if rt_pending_template r = x then [] else rt_pending_template r)\<rparr>)"
  have "snd (drop_template x sv) = sv \<or>
    (\<exists>x2. snd (drop_template x sv) = upd_runtime x2 g (upd_template x (\<lambda>t. t\<lparr>tm_dropped := True\<rparr>) sv))"
    by (simp add: drop_template_def g_def split: option.splits) blast
  then consider "snd (drop_template x sv) = sv"
    | x2 where "snd (drop_template x sv) = upd_runtime x2 g (upd_template x (\<lambda>t. t\<lparr>tm_dropped := True\<rparr>) sv)" by blast
  then show ?thesis
  proof cases
    case 1
    with assms show ?thesis by (intro exI [of _ id]) simp
  next
    case 2
    have g: "rt_pending (g r) = rt_pending r" "rt_pending_op (g r) = rt_pending_op r" "rt_observed (g r) = rt_observed r"
      "rt_pending_boundary (g r) = rt_pending_boundary r" by (simp_all add: g_def)
    show ?thesis
    proof (cases "rid = x2")
      case True
      with 2 assms g show ?thesis by (intro exI [of _ g]) (simp add: upd_runtime_get)
    next
      case False
      with 2 assms show ?thesis by (intro exI [of _ id]) (simp add: upd_runtime_get)
    qed
  qed
qed

lemma exec_pending:
  assumes r: "map_of (sv_runtimes sv) rid = Some r" "rt_pending r" and c: "\<not> ends_snapshot rid c"
  shows "\<exists>r'. map_of (sv_runtimes (sv_exec pc c sv)) rid = Some r' \<and> rt_pending r' \<and> rt_pending_op r' = rt_pending_op r \<and>
     (if rt_observed r then observed_by rid c sv = [] \<and> rt_observed r' \<and> rt_pending_boundary r' = rt_pending_boundary r
      else (observed_by rid c sv = [] \<and> \<not> rt_observed r') \<or>
           (rt_observed r' \<and> observed_by rid c sv = [rt_pending_boundary r']))"
proof (cases c)
  case (CObserve x tok pid gen kind)
  with r show ?thesis
    by (auto simp: observed_by_def observe_boundary_def make_boundary_id_def Let_def sv_gets split: option.splits if_splits)
next
  case (CCancel x)
  with r c show ?thesis
    by (auto simp: observed_by_def cancel_snapshot_def Let_def sv_gets split: option.splits if_splits)
next
  case (CDrop x)
  obtain f where f: "map_of (sv_runtimes (snd (drop_template x sv))) rid = Some (f r)"
    "rt_pending (f r) = rt_pending r \<and> rt_pending_op (f r) = rt_pending_op r \<and> rt_observed (f r) = rt_observed r \<and>
     rt_pending_boundary (f r) = rt_pending_boundary r"
    using r(1) drop_template_runtime [of sv rid r x] by blast
  with CDrop r show ?thesis by (auto simp: observed_by_def simp del: map_option_eq_Some)
qed (use r c in \<open>auto simp: observed_by_def sv_op_defs Let_def sv_gets om_simps
      split: option.splits if_splits prod.splits\<close>)

lemma run_pending:
  assumes "map_of (sv_runtimes sv) rid = Some r" "rt_pending r" "\<And>c. c \<in> set cs \<Longrightarrow> \<not> ends_snapshot rid c"
  shows "\<exists>r'. map_of (sv_runtimes (sv_run pc cs sv)) rid = Some r' \<and> rt_pending r' \<and> rt_pending_op r' = rt_pending_op r \<and>
     (if rt_observed r then boundaries_seen pc rid cs sv = [] \<and> rt_observed r' \<and> rt_pending_boundary r' = rt_pending_boundary r
      else (boundaries_seen pc rid cs sv = [] \<and> \<not> rt_observed r') \<or>
           (rt_observed r' \<and> boundaries_seen pc rid cs sv = [rt_pending_boundary r']))"
  using assms
proof (induction cs arbitrary: sv r)
  case (Cons c cs)
  obtain r1 where r1: "map_of (sv_runtimes (sv_exec pc c sv)) rid = Some r1" "rt_pending r1" "rt_pending_op r1 = rt_pending_op r"
    "if rt_observed r then observed_by rid c sv = [] \<and> rt_observed r1 \<and> rt_pending_boundary r1 = rt_pending_boundary r
      else (observed_by rid c sv = [] \<and> \<not> rt_observed r1) \<or> (rt_observed r1 \<and> observed_by rid c sv = [rt_pending_boundary r1])"
    using exec_pending [OF Cons.prems(1,2), of c pc] Cons.prems(3) by auto
  have cs: "\<And>c. c \<in> set cs \<Longrightarrow> \<not> ends_snapshot rid c" using Cons.prems(3) by simp
  from Cons.IH [OF r1(1,2) cs] r1(3,4) show ?case by (cases "rt_observed r1") (auto split: if_splits)
qed simp

lemma snapshot_exclusive_facts:
  assumes b: "begin_snapshot rq sv = (Inr op, sv1)" and rid: "rid = sq_runtime_id rq"
    and cs: "\<And>c. c \<in> set cs \<Longrightarrow> \<not> ends_snapshot rid c" and other: "sq_runtime_id other = rid"
  shows "begin_snapshot other (sv_run pc cs sv1) = (Inl ''snapshot already in progress'', sv_run pc cs sv1)"
    "fst (wait_for_boundary (sv_run pc cs) rid sv1) = (case boundaries_seen pc rid cs sv1 of
       [] \<Rightarrow> Inl ''snapshot timeout'' | bid # rest \<Rightarrow> Inr bid)"
    "length (boundaries_seen pc rid cs sv1) \<le> 1"
    "\<exists>op' sv2. begin_snapshot other (snd (cancel_snapshot rid (sv_run pc cs sv1))) = (Inr op', sv2)"
proof -
  obtain r where r: "map_of (sv_runtimes sv1) rid = Some r" "rt_pending r" "\<not> rt_observed r"
    using b rid by (auto simp: begin_snapshot_def make_operation_id_def Let_def upd_runtime_get split: option.splits if_splits)
  from run_pending [OF r(1,2) cs, where cs = cs and pc = pc] r(3) obtain r' where
    r': "map_of (sv_runtimes (sv_run pc cs sv1)) rid = Some r'" "rt_pending r'"
    "(boundaries_seen pc rid cs sv1 = [] \<and> \<not> rt_observed r') \<or>
     (rt_observed r' \<and> boundaries_seen pc rid cs sv1 = [rt_pending_boundary r'])" by auto
  show "begin_snapshot other (sv_run pc cs sv1) = (Inl ''snapshot already in progress'', sv_run pc cs sv1)"
    using r' other by (simp add: begin_snapshot_def)
  show "fst (wait_for_boundary (sv_run pc cs) rid sv1) = (case boundaries_seen pc rid cs sv1 of
       [] \<Rightarrow> Inl ''snapshot timeout'' | bid # rest \<Rightarrow> Inr bid)"
    using r(1) r' by (auto simp: wait_for_boundary_def)
  show "length (boundaries_seen pc rid cs sv1) \<le> 1" using r'(3) by auto
  show "\<exists>op' sv2. begin_snapshot other (snd (cancel_snapshot rid (sv_run pc cs sv1))) = (Inr op', sv2)"
    using r'(1) other by (simp add: begin_snapshot_def cancel_snapshot_def Let_def upd_runtime_get make_operation_id_def)
qed

text \<open>
  C21: While a snapshot of a runtime is pending, until it is cancelled or a boundary is released with
  an error, every other request to begin one is refused, whatever calls are made in between; the
  runtime observes at most one boundary for it, and the requester's wait answers that boundary when
  there is one and times out when there is none. A cancel makes the runtime ready for the next
  snapshot, so one that failed does not block the runtime.
\<close>

theorem snapshot_exclusive:
  assumes b: "begin_snapshot rq sv = (Inr op, sv1)" and rid: "rid = sq_runtime_id rq"
    and cs: "\<And>c. c \<in> set cs \<Longrightarrow> \<not> ends_snapshot rid c" and other: "sq_runtime_id other = rid"
  shows "(begin_snapshot other (sv_run pc cs sv1) = (Inl ''snapshot already in progress'', sv_run pc cs sv1)) \<and>
     (fst (wait_for_boundary (sv_run pc cs) rid sv1) = (case boundaries_seen pc rid cs sv1 of
       [] \<Rightarrow> Inl ''snapshot timeout'' | bid # rest \<Rightarrow> Inr bid)) \<and>
     (length (boundaries_seen pc rid cs sv1) \<le> 1) \<and>
     (\<exists>op' sv2. begin_snapshot other (snd (cancel_snapshot rid (sv_run pc cs sv1))) = (Inr op', sv2))"
  using snapshot_exclusive_facts [OF assms] by blast

section \<open>Restores\<close>

text \<open>The calls that decide a runtime's restore.\<close>

fun decides_restore :: "string \<Rightarrow> sv_call \<Rightarrow> bool" where
  "decides_restore rid (CAbort x) \<longleftrightarrow> x = rid"
| "decides_restore rid (CBeginRestore ri) \<longleftrightarrow> ri_runtime_id ri = rid"
| "decides_restore rid (CGenerationReady x tok pid pgid gen) \<longleftrightarrow> x = rid"
| "decides_restore rid (CRetire x) \<longleftrightarrow> x = rid"
| "decides_restore rid c \<longleftrightarrow> False"

definition restore_fields :: "runtime \<Rightarrow> bool \<times> string \<times> u64 \<times> bool \<times> int \<times> int \<times> int \<times> u64" where
  "restore_fields r = (rt_restoring r, rt_restore_template r, rt_restore_target r, rt_ready r, rt_retire_pgid r,
     rt_root_pid r, rt_pgid r, rt_generation r)"

lemma upd_runtime_frame:
  assumes "map_of (sv_runtimes sv) rid = Some r" "\<And>r. restore_fields (f r) = restore_fields r" "\<And>r. rt_token (f r) = rt_token r"
  shows "\<exists>r'. map_of (sv_runtimes (upd_runtime x f sv)) rid = Some r' \<and> restore_fields r' = restore_fields r \<and> rt_token r' = rt_token r"
  using assms by (cases "x = rid") (simp_all add: upd_runtime_get)

lemma exec_restoring:
  assumes r: "map_of (sv_runtimes sv) rid = Some r" and c: "\<not> decides_restore rid c"
  shows "\<exists>r'. map_of (sv_runtimes (sv_exec pc c sv)) rid = Some r' \<and> restore_fields r' = restore_fields r \<and>
     rt_token r' = rt_token r"
proof (cases c)
  case (CDrop x)
  then show ?thesis using r
    by (auto simp: drop_template_def split: option.splits intro!: upd_runtime_frame) (simp_all add: restore_fields_def)
qed (use r c in \<open>auto simp: restore_fields_def sv_op_defs Let_def sv_gets om_simps
      split: option.splits if_splits prod.splits\<close>)

lemma run_restoring:
  assumes "map_of (sv_runtimes sv) rid = Some r" "\<And>c. c \<in> set cs \<Longrightarrow> \<not> decides_restore rid c"
  shows "\<exists>r'. map_of (sv_runtimes (sv_run pc cs sv)) rid = Some r' \<and> restore_fields r' = restore_fields r \<and>
     rt_token r' = rt_token r"
  using assms
proof (induction cs arbitrary: sv r)
  case (Cons c cs)
  obtain r1 where r1: "map_of (sv_runtimes (sv_exec pc c sv)) rid = Some r1" "restore_fields r1 = restore_fields r"
    "rt_token r1 = rt_token r"
    using exec_restoring [OF Cons.prems(1), of c pc] Cons.prems(2) by auto
  from Cons.IH [OF r1(1)] Cons.prems(2) r1(2,3) show ?case by simp
qed simp

text \<open>The runtime while its restore is pending: its process group was stopped, and is still the active one.\<close>

lemma begun_runtime:
  assumes b: "begin_restore pc ri sv = (Inr (), sv1)" and r: "map_of (sv_runtimes sv) (ri_runtime_id ri) = Some r"
    and cs: "\<And>c. c \<in> set cs \<Longrightarrow> \<not> decides_restore (ri_runtime_id ri) c"
  shows "sv_signals sv1 = sv_signals sv @ (if 0 < rt_pgid r then [Frozen (rt_pgid r)] else [])"
    "\<exists>r'. map_of (sv_runtimes (sv_run pc cs sv1)) (ri_runtime_id ri) = Some r' \<and> rt_token r' = rt_token r \<and>
      rt_restoring r' \<and> rt_restore_template r' = ri_template_id ri \<and> rt_restore_target r' = ri_target ri \<and>
      \<not> rt_ready r' \<and> rt_retire_pgid r' = 0 \<and> rt_root_pid r' = rt_root_pid r \<and> rt_pgid r' = rt_pgid r \<and>
      rt_generation r' = rt_generation r"
proof -
  obtain r0 t where e: "map_of (sv_runtimes sv) (ri_runtime_id ri) = Some r0"
    "sv1 = upd_template (ri_template_id ri) (\<lambda>t. t\<lparr>tm_restore_pending := True, tm_released := False,
         tm_in_flight := False, tm_target := ri_target ri\<rparr>)
       (upd_runtime (ri_runtime_id ri) (\<lambda>r. r\<lparr>rt_restoring := True, rt_restore_template := ri_template_id ri,
         rt_restore_target := ri_target ri, rt_ready := False, rt_retire_pgid := 0\<rparr>)
       (sv\<lparr>sv_signals := sv_signals sv @ (if 0 < rt_pgid r0 then [Frozen (rt_pgid r0)] else [])\<rparr>))"
    by (rule begin_restore_ok [OF b]) (rule that)
  show "sv_signals sv1 = sv_signals sv @ (if 0 < rt_pgid r then [Frozen (rt_pgid r)] else [])"
    using e r by simp
  have "map_of (sv_runtimes sv1) (ri_runtime_id ri) = Some (r\<lparr>rt_restoring := True,
      rt_restore_template := ri_template_id ri, rt_restore_target := ri_target ri, rt_ready := False, rt_retire_pgid := 0\<rparr>)"
    using e r by (simp add: upd_runtime_get)
  from run_restoring [OF this cs, where pc = pc and cs = cs]
  show "\<exists>r'. map_of (sv_runtimes (sv_run pc cs sv1)) (ri_runtime_id ri) = Some r' \<and> rt_token r' = rt_token r \<and>
      rt_restoring r' \<and> rt_restore_template r' = ri_template_id ri \<and> rt_restore_target r' = ri_target ri \<and>
      \<not> rt_ready r' \<and> rt_retire_pgid r' = 0 \<and> rt_root_pid r' = rt_root_pid r \<and> rt_pgid r' = rt_pgid r \<and>
      rt_generation r' = rt_generation r"
    by (auto simp: restore_fields_def)
qed

lemma restore_abandoned_facts:
  assumes b: "begin_restore pc ri sv = (Inr (), sv1)" and r: "map_of (sv_runtimes sv) (ri_runtime_id ri) = Some r"
    and cs: "\<And>c. c \<in> set cs \<Longrightarrow> \<not> decides_restore (ri_runtime_id ri) c"
    and p: "0 < rt_pgid r" "pc_resume pc (rt_pgid r) = None"
    and sv2: "sv2 = sv_run pc cs sv1" and sv3: "sv3 = snd (abort_restore pc (ri_runtime_id ri) sv2)"
  shows "sv_signals sv1 = sv_signals sv @ [Frozen (rt_pgid r)]"
    "sv_signals sv3 = sv_signals sv2 @ [Resumed (rt_pgid r)]"
    "\<exists>r'. map_of (sv_runtimes sv3) (ri_runtime_id ri) = Some r' \<and> \<not> rt_restoring r' \<and> rt_pgid r' = rt_pgid r \<and>
       rt_root_pid r' = rt_root_pid r \<and> rt_generation r' = rt_generation r"
    "\<exists>e. generation_ready (ri_runtime_id ri) tok pid pgid gen sv3 = (Inl e, sv3)"
proof -
  obtain r' where r': "map_of (sv_runtimes sv2) (ri_runtime_id ri) = Some r'"
    "rt_restore_template r' = ri_template_id ri" "rt_root_pid r' = rt_root_pid r" "rt_pgid r' = rt_pgid r"
    "rt_generation r' = rt_generation r"
    using begun_runtime(2) [OF b r cs, where cs = cs] sv2 by auto
  show "sv_signals sv1 = sv_signals sv @ [Frozen (rt_pgid r)]" using begun_runtime(1) [OF b r, of "[]"] p by simp
  show "sv_signals sv3 = sv_signals sv2 @ [Resumed (rt_pgid r)]"
    using r' p by (simp add: sv3 abort_restore_def Let_def)
  have q: "map_of (sv_runtimes sv3) (ri_runtime_id ri) = Some (r'\<lparr>rt_restoring := False, rt_ready := False,
      rt_restore_template := [], rt_restore_target := 0\<rparr>)"
    using r' p by (simp add: sv3 abort_restore_def Let_def upd_runtime_get)
  then show "\<exists>r'. map_of (sv_runtimes sv3) (ri_runtime_id ri) = Some r' \<and> \<not> rt_restoring r' \<and> rt_pgid r' = rt_pgid r \<and>
       rt_root_pid r' = rt_root_pid r \<and> rt_generation r' = rt_generation r"
    using r' by simp
  show "\<exists>e. generation_ready (ri_runtime_id ri) tok pid pgid gen sv3 = (Inl e, sv3)"
    using q by (simp add: generation_ready_def)
qed

text \<open>
  A restore that is abandoned before a generation reported ready leaves the runtime as it was.
  Beginning it stops the active process group and nothing else; if the calls made until the abort,
  in any order, do not decide this runtime's restore, the abort continues exactly that group, and
  the runtime keeps its process, group and generation. A generation that reports ready afterwards
  is refused and changes nothing.
\<close>

theorem restore_abandoned:
  assumes b: "begin_restore pc ri sv = (Inr (), sv1)" and r: "map_of (sv_runtimes sv) (ri_runtime_id ri) = Some r"
    and cs: "\<And>c. c \<in> set cs \<Longrightarrow> \<not> decides_restore (ri_runtime_id ri) c"
    and p: "0 < rt_pgid r" "pc_resume pc (rt_pgid r) = None"
    and sv2: "sv2 = sv_run pc cs sv1" and sv3: "sv3 = snd (abort_restore pc (ri_runtime_id ri) sv2)"
  shows "(sv_signals sv1 = sv_signals sv @ [Frozen (rt_pgid r)]) \<and>
     (sv_signals sv3 = sv_signals sv2 @ [Resumed (rt_pgid r)]) \<and>
     (\<exists>r'. map_of (sv_runtimes sv3) (ri_runtime_id ri) = Some r' \<and> \<not> rt_restoring r' \<and> rt_pgid r' = rt_pgid r \<and>
       rt_root_pid r' = rt_root_pid r \<and> rt_generation r' = rt_generation r) \<and>
     (\<exists>e. generation_ready (ri_runtime_id ri) tok pid pgid gen sv3 = (Inl e, sv3))"
  using restore_abandoned_facts [OF assms] by blast

lemma restore_completes_facts:
  assumes b: "begin_restore pc ri sv = (Inr (), sv1)" and r: "map_of (sv_runtimes sv) (ri_runtime_id ri) = Some r"
    and cs: "\<And>c. c \<in> set cs \<Longrightarrow> \<not> decides_restore (ri_runtime_id ri) c"
    and p: "0 < rt_pgid r" "pc_terminate pc (rt_pgid r) = None" and tok: "rt_token r \<noteq> []"
    and sv2: "sv2 = sv_run pc cs sv1"
    and sv3: "sv3 = snd (generation_ready (ri_runtime_id ri) (rt_token r) pid pgid (ri_target ri) sv2)"
    and sv4: "sv4 = snd (retire_pending_generation pc (ri_runtime_id ri) sv3)"
  shows "fst (wait_for_generation_ready (\<lambda>_. sv3) (ri_runtime_id ri) sv2) = Inr ()"
    "sv_signals sv4 = sv_signals sv2 @ [Terminated (rt_pgid r)]"
    "\<exists>r'. map_of (sv_runtimes sv4) (ri_runtime_id ri) = Some r' \<and> \<not> rt_restoring r' \<and> rt_root_pid r' = pid \<and>
       rt_pgid r' = pgid \<and> rt_generation r' = ri_target ri \<and> rt_retire_pgid r' = 0"
    "gen \<noteq> ri_target ri \<Longrightarrow>
       generation_ready (ri_runtime_id ri) (rt_token r) pid' pgid' gen sv2 = (Inl ''restore aborted or stale'', sv2)"
    "generation_ready (ri_runtime_id ri) (rt_token r) pid' pgid' gen sv3 = (Inl ''restore aborted or stale'', sv3)"
proof -
  obtain r' where r': "map_of (sv_runtimes sv2) (ri_runtime_id ri) = Some r'" "rt_token r' = rt_token r"
    "rt_restoring r'" "rt_restore_target r' = ri_target ri" "rt_pgid r' = rt_pgid r"
    using begun_runtime(2) [OF b r cs, where cs = cs] sv2 by auto
  define q where "q = r'\<lparr>rt_retire_pgid := rt_pgid r, rt_root_pid := pid, rt_pgid := pgid, rt_generation := ri_target ri,
    rt_ready := True, rt_restoring := False, rt_restore_template := []\<rparr>"
  have q: "map_of (sv_runtimes sv3) (ri_runtime_id ri) = Some q" "sv_signals sv3 = sv_signals sv2"
    using r' tok by (simp_all add: sv3 generation_ready_def Let_def upd_runtime_get q_def)
  have s4: "map_of (sv_runtimes sv4) (ri_runtime_id ri) = Some (q\<lparr>rt_retire_pgid := 0\<rparr>)"
    "sv_signals sv4 = sv_signals sv3 @ [Terminated (rt_pgid r)]"
    using q p by (simp_all add: sv4 retire_pending_generation_def Let_def upd_runtime_get q_def)
  show "fst (wait_for_generation_ready (\<lambda>_. sv3) (ri_runtime_id ri) sv2) = Inr ()"
    using r'(1) q by (simp add: wait_for_generation_ready_def q_def)
  show "sv_signals sv4 = sv_signals sv2 @ [Terminated (rt_pgid r)]" using s4 q by simp
  show "\<exists>r'. map_of (sv_runtimes sv4) (ri_runtime_id ri) = Some r' \<and> \<not> rt_restoring r' \<and> rt_root_pid r' = pid \<and>
       rt_pgid r' = pgid \<and> rt_generation r' = ri_target ri \<and> rt_retire_pgid r' = 0"
    using s4 by (simp add: q_def)
  show "generation_ready (ri_runtime_id ri) (rt_token r) pid' pgid' gen sv3 = (Inl ''restore aborted or stale'', sv3)"
    using q r' tok by (simp add: generation_ready_def q_def)
  show "generation_ready (ri_runtime_id ri) (rt_token r) pid' pgid' gen sv2 = (Inl ''restore aborted or stale'', sv2)"
    if "gen \<noteq> ri_target ri"
    using r' tok that by (simp add: generation_ready_def)
qed

text \<open>
  While a restore is pending, a generation that reports ready with the runtime's token and the
  restore's target takes over: the wait for it returns, the runtime's process, group and generation
  are the new ones, and retiring delivers one signal, which terminates the group that was stopped
  when the restore began. A report with another generation number is refused and changes nothing,
  and so is a second report.
\<close>

theorem restore_completes:
  assumes b: "begin_restore pc ri sv = (Inr (), sv1)" and r: "map_of (sv_runtimes sv) (ri_runtime_id ri) = Some r"
    and cs: "\<And>c. c \<in> set cs \<Longrightarrow> \<not> decides_restore (ri_runtime_id ri) c"
    and p: "0 < rt_pgid r" "pc_terminate pc (rt_pgid r) = None" and tok: "rt_token r \<noteq> []"
    and sv2: "sv2 = sv_run pc cs sv1"
    and sv3: "sv3 = snd (generation_ready (ri_runtime_id ri) (rt_token r) pid pgid (ri_target ri) sv2)"
    and sv4: "sv4 = snd (retire_pending_generation pc (ri_runtime_id ri) sv3)"
  shows "(fst (wait_for_generation_ready (\<lambda>_. sv3) (ri_runtime_id ri) sv2) = Inr ()) \<and>
     (sv_signals sv4 = sv_signals sv2 @ [Terminated (rt_pgid r)]) \<and>
     (\<exists>r'. map_of (sv_runtimes sv4) (ri_runtime_id ri) = Some r' \<and> \<not> rt_restoring r' \<and> rt_root_pid r' = pid \<and>
       rt_pgid r' = pgid \<and> rt_generation r' = ri_target ri \<and> rt_retire_pgid r' = 0) \<and>
     (gen \<noteq> ri_target ri \<longrightarrow>
       generation_ready (ri_runtime_id ri) (rt_token r) pid' pgid' gen sv2 = (Inl ''restore aborted or stale'', sv2)) \<and>
     (generation_ready (ri_runtime_id ri) (rt_token r) pid' pgid' gen sv3 = (Inl ''restore aborted or stale'', sv3))"
  using restore_completes_facts [OF assms] by blast

section \<open>Restores that leave a group stopped\<close>

lemma late_generation_strands_prior_facts:
  assumes b: "begin_restore pc ri sv = (Inr (), sv1)" and r: "map_of (sv_runtimes sv) (ri_runtime_id ri) = Some r"
    and p: "0 < rt_pgid r" "0 < pgid" "pc_resume pc pgid = None" and tok: "rt_token r \<noteq> []"
    and sv2: "sv2 = snd (publish_restore (ri_runtime_id ri) sv1)"
    and sv3: "sv3 = snd (generation_ready (ri_runtime_id ri) (rt_token r) pid pgid (ri_target ri) sv2)"
    and sv4: "sv4 = snd (abort_restore pc (ri_runtime_id ri) sv3)"
    and sv5: "begin_restore pc again sv4 = (Inr (), sv5)" "ri_runtime_id again = ri_runtime_id ri"
  shows "fst (wait_for_generation_ready (\<lambda>sv. sv) (ri_runtime_id ri) sv2) = Inl ''restore timeout''"
    "sv_signals sv4 = sv_signals sv @ [Frozen (rt_pgid r), Resumed pgid]"
    "map_option rt_retire_pgid (map_of (sv_runtimes sv4) (ri_runtime_id ri)) = Some (rt_pgid r)"
    "sv_signals sv5 = sv_signals sv4 @ [Frozen pgid]"
    "map_option rt_retire_pgid (map_of (sv_runtimes sv5) (ri_runtime_id ri)) = Some 0"
proof -
  have e: "sv2 = sv_run pc [CPublishRestore (ri_runtime_id ri)] sv1" by (simp add: sv2)
  obtain r' where r': "map_of (sv_runtimes sv2) (ri_runtime_id ri) = Some r'" "rt_token r' = rt_token r"
    "rt_restoring r'" "rt_restore_target r' = ri_target ri" "rt_pgid r' = rt_pgid r" "\<not> rt_ready r'"
    using begun_runtime(2) [OF b r, of "[CPublishRestore (ri_runtime_id ri)]"] e by (auto simp:)
  have s2: "sv_signals sv2 = sv_signals sv @ [Frozen (rt_pgid r)]"
    using begun_runtime(1) [OF b r, of "[]"] p by (simp add: sv2 publish_restore_def split: option.splits)
  define q where "q = r'\<lparr>rt_retire_pgid := rt_pgid r, rt_root_pid := pid, rt_pgid := pgid, rt_generation := ri_target ri,
    rt_ready := True, rt_restoring := False, rt_restore_template := []\<rparr>"
  have q: "map_of (sv_runtimes sv3) (ri_runtime_id ri) = Some q" "sv_signals sv3 = sv_signals sv2"
    using r' tok by (simp_all add: sv3 generation_ready_def Let_def upd_runtime_get q_def)
  have a: "map_of (sv_runtimes sv4) (ri_runtime_id ri) = Some (q\<lparr>rt_restoring := False, rt_ready := False,
      rt_restore_template := [], rt_restore_target := 0\<rparr>)" "sv_signals sv4 = sv_signals sv3 @ [Resumed pgid]"
    using q p by (simp_all add: sv4 abort_restore_def Let_def upd_runtime_get q_def)
  show "fst (wait_for_generation_ready (\<lambda>sv. sv) (ri_runtime_id ri) sv2) = Inl ''restore timeout''"
    using r' by (simp add: wait_for_generation_ready_def)
  show "sv_signals sv4 = sv_signals sv @ [Frozen (rt_pgid r), Resumed pgid]" using a q s2 by simp
  show "map_option rt_retire_pgid (map_of (sv_runtimes sv4) (ri_runtime_id ri)) = Some (rt_pgid r)"
    using a by (simp add: q_def)
  have rid: "map_of (sv_runtimes sv4) (ri_runtime_id again) = Some (q\<lparr>rt_restoring := False, rt_ready := False,
      rt_restore_template := [], rt_restore_target := 0\<rparr>)" using a sv5(2) by simp
  show "sv_signals sv5 = sv_signals sv4 @ [Frozen pgid]"
    using begun_runtime(1) [OF sv5(1) rid, of "[]"] p by (simp add: q_def)
  show "map_option rt_retire_pgid (map_of (sv_runtimes sv5) (ri_runtime_id ri)) = Some 0"
    using begun_runtime(2) [OF sv5(1) rid, of "[]"] sv5(2) by auto
qed

text \<open>
  C37: A generation that reports ready after the daemon's wait timed out and before the daemon
  aborts, while it rolls the file system back to the recovery commit, is accepted, and the abort
  then continues the group of that generation instead of the one that was stopped. The stopped group
  is neither continued nor terminated: its number stays in the record until the next restore of the
  runtime begins, which forgets it.
\<close>

theorem late_generation_strands_prior:
  assumes b: "begin_restore pc ri sv = (Inr (), sv1)" and r: "map_of (sv_runtimes sv) (ri_runtime_id ri) = Some r"
    and p: "0 < rt_pgid r" "0 < pgid" "pc_resume pc pgid = None" and tok: "rt_token r \<noteq> []"
    and sv2: "sv2 = snd (publish_restore (ri_runtime_id ri) sv1)"
    and sv3: "sv3 = snd (generation_ready (ri_runtime_id ri) (rt_token r) pid pgid (ri_target ri) sv2)"
    and sv4: "sv4 = snd (abort_restore pc (ri_runtime_id ri) sv3)"
    and sv5: "begin_restore pc again sv4 = (Inr (), sv5)" "ri_runtime_id again = ri_runtime_id ri"
  shows "(fst (wait_for_generation_ready (\<lambda>sv. sv) (ri_runtime_id ri) sv2) = Inl ''restore timeout'') \<and>
     (sv_signals sv4 = sv_signals sv @ [Frozen (rt_pgid r), Resumed pgid]) \<and>
     (map_option rt_retire_pgid (map_of (sv_runtimes sv4) (ri_runtime_id ri)) = Some (rt_pgid r)) \<and>
     (sv_signals sv5 = sv_signals sv4 @ [Frozen pgid]) \<and>
     (map_option rt_retire_pgid (map_of (sv_runtimes sv5) (ri_runtime_id ri)) = Some 0)"
  using late_generation_strands_prior_facts [OF assms] by blast
lemma stale_generation_accepted_facts:
  assumes b: "begin_restore pc ri sv = (Inr (), sv1)" and r: "map_of (sv_runtimes sv) (ri_runtime_id ri) = Some r"
    and tok: "rt_token r \<noteq> []"
    and t: "\<And>t. map_of (sv_templates sv) (ri_template_id ri) = Some t \<Longrightarrow> \<not> tm_dropped t" and n: "ri_template_id ri \<noteq> []"
    and sv2: "sv2 = snd (publish_restore (ri_runtime_id ri) sv1)"
    and sv3: "sv3 = snd (template_poll (ri_template_id ri) (rt_token r) sv2)"
    and sv4: "sv4 = snd (abort_restore pc (ri_runtime_id ri) sv3)"
    and sv5: "begin_restore pc ri sv4 = (Inr (), sv5)"
    and sv6: "sv6 = snd (generation_ready (ri_runtime_id ri) (rt_token r) pid pgid (ri_target ri) sv5)"
  shows "fst (template_poll (ri_template_id ri) (rt_token r) sv2) = Inr \<lparr>ta_action = ''restore'', ta_target = ri_target ri\<rparr>"
    "fst (generation_ready (ri_runtime_id ri) (rt_token r) pid pgid (ri_target ri) sv4) = Inl ''restore aborted or stale''"
    "fst (generation_ready (ri_runtime_id ri) (rt_token r) pid pgid (ri_target ri) sv5) = Inr ()"
    "fst (publish_restore (ri_runtime_id ri) sv6) = Inl ''no pending restore''"
proof -
  obtain t where t1: "map_of (sv_templates sv) (ri_template_id ri) = Some t" "tm_runtime_id t = ri_runtime_id ri"
    "map_of (sv_templates sv1) (ri_template_id ri) = Some (t\<lparr>tm_restore_pending := True, tm_released := False,
         tm_in_flight := False, tm_target := ri_target ri\<rparr>)"
    by (rule begin_restore_ok [OF b]) (simp add: upd_template_get)
  obtain r1 where r1: "map_of (sv_runtimes sv1) (ri_runtime_id ri) = Some r1" "rt_token r1 = rt_token r" "rt_restoring r1"
    "rt_restore_template r1 = ri_template_id ri"
    using begun_runtime(2) [OF b r, of "[]"] by auto
  have p: "sv_runtimes sv2 = sv_runtimes sv1"
    "map_of (sv_templates sv2) (ri_template_id ri) = Some (t\<lparr>tm_restore_pending := True, tm_released := True,
         tm_in_flight := False, tm_target := ri_target ri\<rparr>)"
    using r1 t1 n by (simp_all add: sv2 publish_restore_def upd_template_get)
  show "fst (template_poll (ri_template_id ri) (rt_token r) sv2) = Inr \<lparr>ta_action = ''restore'', ta_target = ri_target ri\<rparr>"
    using p r1 t1 t tok by (simp add: template_poll_def)
  have s3: "sv_runtimes sv3 = sv_runtimes sv1" using p r1 t1 t tok by (simp add: sv3 template_poll_def)
  obtain r4 where r4: "map_of (sv_runtimes sv4) (ri_runtime_id ri) = Some r4" "rt_token r4 = rt_token r" "\<not> rt_restoring r4"
    using s3 r1 by (cases "pc_resume pc (rt_pgid r1)") (auto simp: sv4 abort_restore_def Let_def upd_runtime_get)
  then show "fst (generation_ready (ri_runtime_id ri) (rt_token r) pid pgid (ri_target ri) sv4) = Inl ''restore aborted or stale''"
    using tok by (simp add: generation_ready_def)
  obtain r5 where r5: "map_of (sv_runtimes sv5) (ri_runtime_id ri) = Some r5" "rt_token r5 = rt_token r" "rt_restoring r5"
    "rt_restore_target r5 = ri_target ri"
    using begun_runtime(2) [OF sv5 r4(1), of "[]"] r4(2) by auto
  then show "fst (generation_ready (ri_runtime_id ri) (rt_token r) pid pgid (ri_target ri) sv5) = Inr ()"
    using tok by (simp add: generation_ready_def Let_def)
  show "fst (publish_restore (ri_runtime_id ri) sv6) = Inl ''no pending restore''"
    using r5 tok by (simp add: sv6 generation_ready_def Let_def upd_runtime_get publish_restore_def)
qed

text \<open>
  The generation number does not tell a late generation from an awaited one. The daemon asks
  for the generation after the one recorded in the union state, the same for every restore of that
  state; so when a restore was handed to the template and then aborted, and the state is restored
  again, the late generation of the first restore is accepted while the second has not rolled the
  file system back and has not been published, whose publication then fails.
\<close>

theorem stale_generation_accepted:
  assumes b: "begin_restore pc ri sv = (Inr (), sv1)" and r: "map_of (sv_runtimes sv) (ri_runtime_id ri) = Some r"
    and tok: "rt_token r \<noteq> []"
    and t: "\<And>t. map_of (sv_templates sv) (ri_template_id ri) = Some t \<Longrightarrow> \<not> tm_dropped t" and n: "ri_template_id ri \<noteq> []"
    and sv2: "sv2 = snd (publish_restore (ri_runtime_id ri) sv1)"
    and sv3: "sv3 = snd (template_poll (ri_template_id ri) (rt_token r) sv2)"
    and sv4: "sv4 = snd (abort_restore pc (ri_runtime_id ri) sv3)"
    and sv5: "begin_restore pc ri sv4 = (Inr (), sv5)"
    and sv6: "sv6 = snd (generation_ready (ri_runtime_id ri) (rt_token r) pid pgid (ri_target ri) sv5)"
  shows "(fst (template_poll (ri_template_id ri) (rt_token r) sv2) = Inr \<lparr>ta_action = ''restore'', ta_target = ri_target ri\<rparr>) \<and>
     (fst (generation_ready (ri_runtime_id ri) (rt_token r) pid pgid (ri_target ri) sv4) = Inl ''restore aborted or stale'') \<and>
     (fst (generation_ready (ri_runtime_id ri) (rt_token r) pid pgid (ri_target ri) sv5) = Inr ()) \<and>
     (fst (publish_restore (ri_runtime_id ri) sv6) = Inl ''no pending restore'')"
  using stale_generation_accepted_facts [OF assms] by blast

section \<open>The theorems on the sample\<close>

definition sample_runtime :: runtime where
  "sample_runtime = (new_runtime ''r'' sample_create)\<lparr>rt_template_ids := [''tmpl-0000000000000001''],
     rt_pending_template := ''tmpl-0000000000000001''\<rparr>"

definition sample_template :: tmpl where
  "sample_template = \<lparr>tm_template_id = ''tmpl-0000000000000001'', tm_runtime_id = ''r'', tm_pid = 20, tm_pgid = 20,
     tm_generation = 1, tm_ready = True, tm_published = True, tm_publish_error = [], tm_union_state_id = ''u'',
     tm_fs_commit = 5, tm_restore_pending = False, tm_released = False, tm_in_flight = False, tm_target = 0,
     tm_dropped = False\<rparr>"

lemma sample_supervisor_eq: "sample_supervisor = \<lparr>sv_runtimes = [(''r'', sample_runtime)], sv_boundaries = [],
  sv_templates = [(''tmpl-0000000000000001'', sample_template)], sv_runtime_counter = 0, sv_template_counter = 1,
  sv_boundary_counter = 1, sv_operation_counter = 1, sv_signals = []\<rparr>"
  by code_simp

lemma sample_no_wrap: "no_wrap willing snapshot_calls new_supervisor"
  by code_simp

theorem supervisor_invariant_witness:
  "sup_inv (sv_run willing snapshot_calls new_supervisor)"
  by (rule supervisor_invariant [OF sv_run_reach [OF sample_no_wrap sv_reach.Start]])

definition sample_begun :: supervisor where
  "sample_begun = snd (begin_restore willing sample_restore sample_supervisor)"

lemma sample_begun: "begin_restore willing sample_restore sample_supervisor = (Inr (), sample_begun)"
  "fst (begin_restore willing sample_restore (snd (abort_restore willing ''r'' (snd (template_poll
     ''tmpl-0000000000000001'' ''k'' (snd (publish_restore ''r'' sample_begun))))))) = Inr ()"
  "fst (begin_restore willing sample_restore (snd (abort_restore willing ''r'' (snd (generation_ready ''r'' ''k'' 30 30 2
     (snd (publish_restore ''r'' sample_begun))))))) = Inr ()"
  by code_simp+

lemma sample_lookup: "map_of (sv_runtimes sample_supervisor) (ri_runtime_id sample_restore) = Some sample_runtime"
  by code_simp

theorem released_action_taken_witness:
  "let sv = sv_run willing (take 3 snapshot_calls) new_supervisor;
       x = release_boundary_for_snapshot ''bd-0000000000000001'' sv
   in \<exists>a. fst x = Inr a \<and>
     fst (wait_boundary_action (sv_run willing [CCancel ''r'']) ''bd-0000000000000001'' (snd x)) = Inr a"
proof -
  let ?sv = "sv_run willing (take 3 snapshot_calls) new_supervisor" and ?b = "''bd-0000000000000001''"
  have r: "sv_reach ?sv" "counters_ok ?sv"
    by (rule sv_run_reach [OF _ sv_reach.Start], code_simp, code_simp)
  have i: "isl (fst (release_boundary_for_snapshot ?b ?sv)) = False" by code_simp
  then obtain a where a: "fst (release_boundary_for_snapshot ?b ?sv) = Inr a"
    by (cases "fst (release_boundary_for_snapshot ?b ?sv)") simp_all
  then have "releases ?b a ?sv (snd (release_boundary_for_snapshot ?b ?sv))"
    by (simp add: releases_def prod_eq_iff)
  moreover have "no_wrap willing [CCancel ''r''] (snd (release_boundary_for_snapshot ?b ?sv))" by code_simp
  ultimately have "fst (wait_boundary_action (sv_run willing [CCancel ''r'']) ?b
      (snd (release_boundary_for_snapshot ?b ?sv))) = Inr a"
    using released_action_taken [OF r, THEN conjunct1] by simp
  with a show ?thesis by (simp add: Let_def)
qed

theorem snapshot_exclusive_witness:
  "\<exists>op sv1. begin_snapshot sample_snapshot sample_supervisor = (Inr op, sv1) \<and>
     fst (begin_snapshot sample_snapshot (sv_run willing [CObserve ''r'' ''k'' 10 1 ''manual''] sv1)) =
       Inl ''snapshot already in progress'' \<and>
     length (boundaries_seen willing ''r'' [CObserve ''r'' ''k'' 10 1 ''manual''] sv1) \<le> 1"
proof -
  have "isl (fst (begin_snapshot sample_snapshot sample_supervisor)) = False" by code_simp
  then obtain op where op: "begin_snapshot sample_snapshot sample_supervisor =
      (Inr op, snd (begin_snapshot sample_snapshot sample_supervisor))"
    by (cases "fst (begin_snapshot sample_snapshot sample_supervisor)") (simp_all add: prod_eq_iff)
  have r: "''r'' = sq_runtime_id sample_snapshot" by (simp add: sample_snapshot_def)
  let ?cs = "[CObserve ''r'' ''k'' 10 1 ''manual'']"
  have e: "\<not> ends_snapshot ''r'' c" if "c \<in> set ?cs" for c
    using that by auto
  note x0 = snapshot_exclusive [OF op r e r [symmetric], of ?cs willing]
  note x = x0 [THEN conjunct1] x0 [THEN conjunct2, THEN conjunct2, THEN conjunct1]
  show ?thesis by (rule exI, rule exI, rule conjI [OF op], rule conjI) (use x in \<open>simp_all only: fst_conv\<close>)
qed

lemma sample_facts: "ri_runtime_id sample_restore = ''r''" "rt_pgid sample_runtime = 10" "rt_token sample_runtime = ''k''"
  "sv_signals sample_supervisor = []" "pc_resume willing p = None" "pc_terminate willing p = None" "ri_target sample_restore = 2"
  by (simp_all add: sample_restore_def sample_runtime_def new_runtime_def sample_create_def sample_supervisor_eq willing_def)

theorem restore_abandoned_witness:
  "sv_signals (snd (abort_restore willing ''r'' sample_begun)) = [Frozen 10, Resumed 10]"
proof -
  have "sv_signals sample_begun = sv_signals sample_supervisor @ [Frozen (rt_pgid sample_runtime)]"
    by (rule restore_abandoned [OF sample_begun(1) sample_lookup, of "[]", THEN conjunct1]) (simp_all add: sample_facts)
  moreover have "sv_signals (snd (abort_restore willing (ri_runtime_id sample_restore) sample_begun)) =
      sv_signals sample_begun @ [Resumed (rt_pgid sample_runtime)]"
    by (rule restore_abandoned [OF sample_begun(1) sample_lookup, of "[]", THEN conjunct2, THEN conjunct1]) (simp_all add: sample_facts)
  ultimately show ?thesis by (simp add: sample_facts)
qed

theorem restore_completes_witness:
  "sv_signals (snd (retire_pending_generation willing ''r'' (snd (generation_ready ''r'' ''k'' 30 30 2 sample_begun)))) =
     [Frozen 10, Terminated 10]"
proof -
  have "sv_signals sample_begun = sv_signals sample_supervisor @ [Frozen (rt_pgid sample_runtime)]"
    using begun_runtime(1) [OF sample_begun(1) sample_lookup, of "[]"] by (simp add: sample_facts)
  moreover have "sv_signals (snd (retire_pending_generation willing (ri_runtime_id sample_restore)
      (snd (generation_ready (ri_runtime_id sample_restore) (rt_token sample_runtime) 30 30 (ri_target sample_restore)
        sample_begun)))) = sv_signals sample_begun @ [Terminated (rt_pgid sample_runtime)]"
    by (rule restore_completes [OF sample_begun(1) sample_lookup, of "[]", THEN conjunct2, THEN conjunct1]) (simp_all add: sample_facts)
  ultimately show ?thesis by (simp add: sample_facts)
qed

theorem late_generation_strands_prior_witness:
  "sv_signals (snd (abort_restore willing ''r'' (snd (generation_ready ''r'' ''k'' 30 30 2
     (snd (publish_restore ''r'' sample_begun)))))) = [Frozen 10, Resumed 30]"
proof -
  define sv4 where "sv4 = snd (abort_restore willing ''r'' (snd (generation_ready ''r'' ''k'' 30 30 2
     (snd (publish_restore ''r'' sample_begun)))))"
  have again: "begin_restore willing sample_restore sv4 = (Inr (), snd (begin_restore willing sample_restore sv4))"
    using sample_begun(3) by (simp add: sv4_def prod_eq_iff)
  have "sv_signals sv4 = sv_signals sample_supervisor @ [Frozen (rt_pgid sample_runtime), Resumed 30]"
    by (rule late_generation_strands_prior [OF sample_begun(1) sample_lookup _ _ _ _ refl refl _ again, where pid = 30, THEN conjunct2, THEN conjunct1])
      (simp_all add: sample_facts sv4_def)
  then show ?thesis by (simp add: sample_facts sv4_def)
qed

theorem stale_generation_accepted_witness:
  "fst (generation_ready ''r'' ''k'' 30 30 2 (snd (begin_restore willing sample_restore
     (snd (abort_restore willing ''r'' (snd (template_poll ''tmpl-0000000000000001'' ''k''
        (snd (publish_restore ''r'' sample_begun))))))))) = Inr ()"
proof -
  define sv4 where "sv4 = snd (abort_restore willing ''r'' (snd (template_poll ''tmpl-0000000000000001'' ''k''
     (snd (publish_restore ''r'' sample_begun)))))"
  have again: "begin_restore willing sample_restore sv4 = (Inr (), snd (begin_restore willing sample_restore sv4))"
    using sample_begun(2) by (simp add: sv4_def prod_eq_iff)
  have t: "map_of (sv_templates sample_supervisor) ''tmpl-0000000000000001'' = Some sample_template"
    "\<not> tm_dropped sample_template" "ri_template_id sample_restore = ''tmpl-0000000000000001''"
    by (simp_all add: sample_supervisor_eq sample_restore_def sample_template_def)
  have "fst (generation_ready (ri_runtime_id sample_restore) (rt_token sample_runtime) 30 30 (ri_target sample_restore)
      (snd (begin_restore willing sample_restore sv4))) = Inr ()"
    by (rule stale_generation_accepted [OF sample_begun(1) sample_lookup _ _ _ refl refl _ again refl, THEN conjunct2, THEN conjunct2, THEN conjunct1])
      (simp_all add: sample_facts sv4_def t)
  then show ?thesis by (simp add: sample_facts sv4_def)
qed

end
