(* ===== verification/RuntimeDaemon.thy ===== *)
theory RuntimeDaemon
  imports SupervisorRuns DaemonOps
begin

text \<open>
  \<open>Daemon::snapshot_runtime\<close> and \<open>Daemon::restore_runtime\<close>, where the file system and the registry of
  runtimes meet. Both run under the daemon's publication mutex, so no other of the two runs, and no
  branch operation; the handlers of the runtime's own requests and the file system do. What they do
  while the requester waits, checkpoints, writes or rolls back is the argument \<open>others\<close>: for each
  window the effect on the daemon and the calls on the registry, in their order.
\<close>

type_synonym node = "daemon \<times> supervisor"
type_synonym windows = "nat \<Rightarrow> (daemon \<Rightarrow> daemon) \<times> sv_call list"

definition window :: "controller \<Rightarrow> windows \<Rightarrow> nat \<Rightarrow> node \<Rightarrow> node" where
  "window pc others k n = (fst (others k) (fst n), sv_run pc (snd (others k)) (snd n))"

section \<open>Snapshots\<close>

record snapshot_result =
  sn_ok :: bool
  sn_runtime_id :: string
  sn_template_id :: string
  sn_union_state_id :: string
  sn_fs_commit :: hash
  sn_generation :: u64
  sn_eligibility :: restore_eligibility
  sn_error :: string

definition snapshot_failed :: "string \<Rightarrow> string \<Rightarrow> snapshot_result" where
  "snapshot_failed rid e = \<lparr>sn_ok = False, sn_runtime_id = rid, sn_template_id = [], sn_union_state_id = [],
     sn_fs_commit = ZERO_HASH, sn_generation = 0, sn_eligibility = MetadataOnly, sn_error = e\<rparr>"

definition snapshot_warnings :: "resource_warning list" where
  "snapshot_warnings = [
     \<lparr>rw_kind = ''process_group_descendants'', rw_description = ''Only the cooperative root runtime memory is restored; '' @
        ''descendant processes are managed as a process group for termination/status only.'', rw_blocker = False\<rparr>,
     \<lparr>rw_kind = ''external_resources'', rw_description = ''External resources such as sockets, devices, network connections, '' @
        ''and external service state are not inspected or restored by this first slice.'', rw_blocker = False\<rparr>]"

definition snapshot_union ::
  "runtime_status \<Rightarrow> snapshot_request \<Rightarrow> hash \<Rightarrow> string \<Rightarrow> u64 \<Rightarrow> union_runtime_state" where
  "snapshot_union st rq commit tid now_ns = \<lparr>us_record_version = 1, us_union_state_id = [], us_parent_union_state_id = [],
     us_branch = st_branch st, us_fs_commit = commit, us_agent_state_id = sq_agent_state_id rq,
     us_runtime_id = sq_runtime_id rq, us_runtime_generation = st_generation st, us_template_id = tid,
     us_template_kind = ''live_fork'', us_boundary_kind = sq_boundary_kind rq, us_command_ref = st_command_ref st,
     us_resource_manifest_ref = ''inline:cooperative-process-group'', us_timestamp_ns = now_ns,
     us_warnings = snapshot_warnings\<rparr>"

definition or_else :: "string \<Rightarrow> string \<Rightarrow> string" where
  "or_else e dflt = (if e = [] then dflt else e)"

text \<open>The end of every failure after the boundary was released.\<close>

definition fail_publish :: "string \<Rightarrow> string \<Rightarrow> string \<Rightarrow> node \<Rightarrow> snapshot_result \<times> node" where
  "fail_publish rid tid msg n = (case n of (d, sv) \<Rightarrow>
     (snapshot_failed rid msg, d, snd (cancel_snapshot rid (snd (fail_template_publish tid msg sv)))))"

text \<open>Steps 7 to 11: the union state is written and synced and attached, and the snapshot ends.\<close>

definition publish_snapshot ::
  "(bytes \<Rightarrow> hash) \<Rightarrow> controller \<Rightarrow> u64 \<Rightarrow> windows \<Rightarrow> snapshot_request \<Rightarrow> runtime_status \<Rightarrow> hash \<Rightarrow> string \<Rightarrow> node \<Rightarrow>
   snapshot_result \<times> node" where
  "publish_snapshot H pc now_ns others rq st commit tid n = (case n of (d, sv) \<Rightarrow>
     let rid = sq_runtime_id rq;
         alive = (case template_status_of pc tid sv of Inl _ \<Rightarrow> False | Inr ts \<Rightarrow> ts_alive ts)
     in (case write_union_runtime_state H (snapshot_union st rq commit tid now_ns) (d_store d) of
          (Inl e, s) \<Rightarrow> fail_publish rid tid (or_else e ''union state write failed'') (d\<lparr>d_store := s\<rparr>, sv)
        | (Inr (h, us), s) \<Rightarrow>
          (case fsync_pending [h] s of
             (Some e, s) \<Rightarrow> fail_publish rid tid (or_else e ''failed to fsync union runtime state'') (d\<lparr>d_store := s\<rparr>, sv)
           | (None, s) \<Rightarrow>
             (case window pc others 3 (d\<lparr>d_store := s\<rparr>, sv) of (d, sv) \<Rightarrow>
              (case attach_union_state tid (us_union_state_id us) commit sv of
                 (Inl e, sv) \<Rightarrow> fail_publish rid tid (or_else e ''attach union state failed'') (d, sv)
               | (Inr _, sv) \<Rightarrow>
                 (\<lparr>sn_ok = True, sn_runtime_id = rid, sn_template_id = tid, sn_union_state_id = us_union_state_id us,
                   sn_fs_commit = commit, sn_generation = st_generation st,
                   sn_eligibility = (if alive then LiveRuntimeRestorable else FsOnly), sn_error = []\<rparr>,
                  d, snd (cancel_snapshot rid sv)))))))"

text \<open>Steps 5 and 6: the boundary is released, and the template reports ready.\<close>

definition await_template ::
  "(bytes \<Rightarrow> hash) \<Rightarrow> controller \<Rightarrow> u64 \<Rightarrow> windows \<Rightarrow> snapshot_request \<Rightarrow> runtime_status \<Rightarrow> hash \<Rightarrow> string \<Rightarrow> node \<Rightarrow>
   snapshot_result \<times> node" where
  "await_template H pc now_ns others rq st commit bid n = (case n of (d, sv) \<Rightarrow>
     let rid = sq_runtime_id rq
     in (case release_boundary_for_snapshot bid sv of
          (Inl e, sv) \<Rightarrow> (snapshot_failed rid e, d, snd (cancel_snapshot rid sv))
        | (Inr a, sv) \<Rightarrow>
          let tid = ba_template_id a
          in (case window pc others 2 (d, sv) of (d, sv') \<Rightarrow>
             (case wait_for_template_ready (\<lambda>_. sv') rid sv of
                (Inl e, sv) \<Rightarrow> (snapshot_failed rid e, d, snd (cancel_snapshot rid (snd (drop_template tid sv))))
              | (Inr _, sv) \<Rightarrow> publish_snapshot H pc now_ns others rq st commit tid (d, sv)))))"

text \<open>Steps 3 and 4: the runtime observes the boundary, and the branch is checkpointed while it is stopped there.\<close>

definition snapshot_label :: "snapshot_request \<Rightarrow> string" where
  "snapshot_label rq = ''runtime:'' @ sq_runtime_id rq @ '':'' @ sq_boundary_kind rq"

definition await_boundary ::
  "(bytes \<Rightarrow> hash) \<Rightarrow> controller \<Rightarrow> u64 \<Rightarrow> u64 \<Rightarrow> windows \<Rightarrow> snapshot_request \<Rightarrow> runtime_status \<Rightarrow> node \<Rightarrow>
   (snapshot_result \<times> node) option" where
  "await_boundary H pc cp_ns now_ns others rq st n = (case n of (d, sv) \<Rightarrow>
     let rid = sq_runtime_id rq
     in (case window pc others 0 (d, sv) of (d, sv') \<Rightarrow>
        (case wait_for_boundary (\<lambda>_. sv') rid sv of
           (Inl e, sv) \<Rightarrow> Some (snapshot_failed rid e, d, snd (cancel_snapshot rid sv))
         | (Inr bid, sv) \<Rightarrow>
           (case checkpoint_branch_by_name H cp_ns (st_branch st) (snapshot_label rq) d of
              None \<Rightarrow> None
            | Some (Inl e, d) \<Rightarrow>
                (case window pc others 1 (d, sv) of (d, sv) \<Rightarrow>
                 Some (snapshot_failed rid e, d, snd (release_boundary_with_error bid e sv)))
            | Some (Inr commit, d) \<Rightarrow>
                Some (await_template H pc now_ns others rq st commit bid (window pc others 1 (d, sv)))))))"

definition snapshot_runtime ::
  "(bytes \<Rightarrow> hash) \<Rightarrow> controller \<Rightarrow> u64 \<Rightarrow> u64 \<Rightarrow> windows \<Rightarrow> snapshot_request \<Rightarrow> node \<Rightarrow>
   (snapshot_result \<times> node) option" where
  "snapshot_runtime H pc cp_ns now_ns others rq n = (case n of (d, sv) \<Rightarrow>
     let rid = sq_runtime_id rq; failed = (\<lambda>e sv. Some (snapshot_failed rid e, d, sv))
     in (case pc_supported pc of Some e \<Rightarrow> failed e sv
        | None \<Rightarrow>
          (case runtime_status_of pc rid sv of
             Inl e \<Rightarrow> failed e sv
           | Inr st \<Rightarrow>
             if \<not> st_cooperative st then failed ''runtime is not cooperative'' sv
             else if branch_by_name (st_branch st) d = None then failed ''unknown branch'' sv
             else (case begin_snapshot rq sv of
                     (Inl e, sv) \<Rightarrow> failed e sv
                   | (Inr op, sv) \<Rightarrow> await_boundary H pc cp_ns now_ns others rq st (d, sv)))))"

section \<open>Restores\<close>

record restore_result =
  rr_ok :: bool
  rr_runtime_id :: string
  rr_template_id :: string
  rr_target :: u64
  rr_fs_commit :: hash
  rr_eligibility :: restore_eligibility
  rr_partial :: string
  rr_error :: string

definition restore_failed :: "string \<Rightarrow> restore_result" where
  "restore_failed e = \<lparr>rr_ok = False, rr_runtime_id = [], rr_template_id = [], rr_target = 0, rr_fs_commit = ZERO_HASH,
     rr_eligibility = MetadataOnly, rr_partial = [], rr_error = e\<rparr>"

definition restore_outcome :: "union_runtime_state \<Rightarrow> bool \<Rightarrow> string \<Rightarrow> string \<Rightarrow> restore_result" where
  "restore_outcome us ok partial e = \<lparr>rr_ok = ok, rr_runtime_id = us_runtime_id us, rr_template_id = us_template_id us,
     rr_target = us_runtime_generation us + 1, rr_fs_commit = us_fs_commit us, rr_eligibility = MetadataOnly,
     rr_partial = partial, rr_error = e\<rparr>"

text \<open>\<open>rollback_locked\<close> on the branch of that name; the handles that go stale are those of the id read before.\<close>

definition rollback_branch :: "u32 \<Rightarrow> string \<Rightarrow> hash \<Rightarrow> daemon \<Rightarrow> ((string + hash) \<times> daemon) option" where
  "rollback_branch bid name target d =
     (case branch_by_name name d of
        None \<Rightarrow> Some (Inl ''unknown branch'', d)
      | Some p \<Rightarrow>
          (case rollback_locked (hash_to_hex target) name
                  \<lparr>rp_wt = bc_wt (ctx d p), rp_refs = d_refs d, rp_store = d_store d\<rparr> of
             None \<Rightarrow> None
           | Some (res, invalidated, rp) \<Rightarrow>
               (let d' = upd_ctx p (\<lambda>c. c\<lparr>bc_wt := rp_wt rp\<rparr>) (d\<lparr>d_refs := rp_refs rp, d_store := rp_store rp\<rparr>) in
                Some (res, if invalidated then invalidate_fhs_for_branch bid d' else d'))))"

text \<open>A failure after the roll back: back to the recovery commit, then the abort.\<close>

definition recover_runtime ::
  "controller \<Rightarrow> windows \<Rightarrow> union_runtime_state \<Rightarrow> u32 \<Rightarrow> hash \<Rightarrow> string \<Rightarrow> string \<Rightarrow> node \<Rightarrow> (restore_result \<times> node) option" where
  "recover_runtime pc others us bid recovery e shown n = (case n of (d, sv) \<Rightarrow>
     (case rollback_branch bid (us_branch us) recovery d of
        None \<Rightarrow> None
      | Some (res, d) \<Rightarrow>
        (case window pc others 2 (d, sv) of (d, sv) \<Rightarrow>
           Some (case res of Inl _ \<Rightarrow> restore_outcome us False ''recovery_failed_runtime_resumed'' shown
                  | Inr _ \<Rightarrow> restore_outcome us False [] e,
                 d, snd (abort_restore pc (us_runtime_id us) sv)))))"

text \<open>Steps 9b and 10.\<close>

definition retire_prior :: "controller \<Rightarrow> windows \<Rightarrow> union_runtime_state \<Rightarrow> node \<Rightarrow> restore_result \<times> node" where
  "retire_prior pc others us n = (case window pc others 3 n of (d, sv) \<Rightarrow>
     (case retire_pending_generation pc (us_runtime_id us) sv of
        (Inl e, sv) \<Rightarrow>
          (restore_outcome us False ''retire_unknown_prior_frozen'' e, d, snd (abort_restore pc (us_runtime_id us) sv))
      | (Inr _, sv) \<Rightarrow>
          ((restore_outcome us True [] [])\<lparr>rr_eligibility :=
             (case template_status_of pc (us_template_id us) sv of
                Inr ts \<Rightarrow> if ts_alive ts then LiveRuntimeRestorable else FsOnly | Inl _ \<Rightarrow> FsOnly)\<rparr>, d, sv)))"

text \<open>Steps 6 to 9: the group is stopped, the branch rolled back, the template released, the generation awaited.\<close>

definition hand_off ::
  "controller \<Rightarrow> windows \<Rightarrow> union_runtime_state \<Rightarrow> u32 \<Rightarrow> hash \<Rightarrow> node \<Rightarrow> (restore_result \<times> node) option" where
  "hand_off pc others us bid recovery n = (case n of (d, sv) \<Rightarrow>
     (case publish_restore (us_runtime_id us) sv of
        (Inl e, sv) \<Rightarrow> recover_runtime pc others us bid recovery e e (d, sv)
      | (Inr _, sv) \<Rightarrow>
        (case window pc others 1 (d, sv) of (d, sv') \<Rightarrow>
           (case wait_for_generation_ready (\<lambda>_. sv') (us_runtime_id us) sv of
              (Inl e, sv) \<Rightarrow> recover_runtime pc others us bid recovery e [] (d, sv)
            | (Inr _, sv) \<Rightarrow> Some (retire_prior pc others us (d, sv))))))"

definition roll_and_hand_off ::
  "controller \<Rightarrow> windows \<Rightarrow> union_runtime_state \<Rightarrow> u32 \<Rightarrow> hash \<Rightarrow> node \<Rightarrow> (restore_result \<times> node) option" where
  "roll_and_hand_off pc others us bid recovery n = (case n of (d, sv) \<Rightarrow>
     (case begin_restore pc \<lparr>ri_runtime_id = us_runtime_id us, ri_template_id = us_template_id us,
              ri_target = us_runtime_generation us + 1\<rparr> sv of
        (Inl e, sv) \<Rightarrow> Some (restore_outcome us False [] e, d, sv)
      | (Inr _, sv) \<Rightarrow>
        (case window pc others 0 (d, sv) of (d, sv) \<Rightarrow>
           (case rollback_branch bid (us_branch us) (us_fs_commit us) d of
              None \<Rightarrow> None
            | Some (Inl e, d) \<Rightarrow>
                Some (restore_outcome us False [] e, d, snd (abort_restore pc (us_runtime_id us) sv))
            | Some (Inr _, d) \<Rightarrow> hand_off pc others us bid recovery (invalidate_fhs_for_branch bid d, sv)))))"

text \<open>Steps 1 to 5: nothing is stopped before the union state, the template, the branch and both commits are there.\<close>

definition restore_runtime ::
  "controller \<Rightarrow> windows \<Rightarrow> string \<Rightarrow> node \<Rightarrow> (restore_result \<times> node) option" where
  "restore_runtime pc others hex n = (case n of (d, sv) \<Rightarrow>
     (case pc_supported pc of Some e \<Rightarrow> Some (restore_failed e, d, sv)
     | None \<Rightarrow>
       (case hex_to_hash_strict hex of
          None \<Rightarrow> Some (restore_failed ''invalid union_state_id'', d, sv)
        | Some ident \<Rightarrow>
          (case read_union_runtime_state ident (d_store d) of
             (Inl e, s) \<Rightarrow> Some (restore_failed e, d\<lparr>d_store := s\<rparr>, sv)
           | (Inr us, s) \<Rightarrow>
             let d = d\<lparr>d_store := s\<rparr>; failed = (\<lambda>e d. Some (restore_outcome us False [] e, d, sv))
             in (case template_status_of pc (us_template_id us) sv of
                   Inl _ \<Rightarrow> failed ''unknown template'' d
                 | Inr ts \<Rightarrow>
                   if \<not> ts_alive ts then failed ''template is not live'' d
                   else (case branch_by_name (us_branch us) d of
                           None \<Rightarrow> failed ''unknown branch'' d
                         | Some p \<Rightarrow>
                           (case current_commit (us_branch us) (d_refs d) (d_store d) of (recovery, s) \<Rightarrow>
                            let d = d\<lparr>d_store := s\<rparr>
                            in if recovery = ZERO_HASH then failed ''recovery commit not found'' d
                               else (case read_commit recovery (d_store d) of
                                       (None, s) \<Rightarrow> failed ''failed to read recovery commit'' (d\<lparr>d_store := s\<rparr>)
                                     | (Some _, s) \<Rightarrow>
                                       (case read_commit (us_fs_commit us) s of
                                          (None, s) \<Rightarrow> failed ''failed to read target commit'' (d\<lparr>d_store := s\<rparr>)
                                        | (Some _, s) \<Rightarrow>
                                            roll_and_hand_off pc others us (bc_id (ctx d p)) recovery
                                              (d\<lparr>d_store := s\<rparr>, sv))))))))))"

end
