(* ===== verification/RuntimeSnapshot.thy ===== *)
theory RuntimeSnapshot
  imports RuntimeDaemon
begin

text \<open>
  What \<open>snapshot_runtime\<close> promises while the handlers of the runtime's requests run: every snapshot
  ends and leaves the runtime ready for the next, with one exception; and what a success has published.
\<close>

section \<open>What the other threads leave alone\<close>

text \<open>The calls of the handlers of the runtimes' requests; the rest are the requester's.\<close>

fun handler_call :: "sv_call \<Rightarrow> bool" where
  "handler_call (CRegister rq) \<longleftrightarrow> True"
| "handler_call (CObserve rid tok pid gen kind) \<longleftrightarrow> True"
| "handler_call (CTake bid) \<longleftrightarrow> True"
| "handler_call (CTemplateReady rid tok tid pid pgid gen) \<longleftrightarrow> True"
| "handler_call (CPoll tid tok) \<longleftrightarrow> True"
| "handler_call (CGenerationReady rid tok pid pgid gen) \<longleftrightarrow> True"
| "handler_call (CDrop tid) \<longleftrightarrow> True"
| "handler_call c \<longleftrightarrow> False"

definition by_handlers :: "windows \<Rightarrow> bool" where
  "by_handlers others \<longleftrightarrow> (\<forall>k. \<forall>c \<in> set (snd (others k)). handler_call c)"

lemma by_handlersD: "by_handlers others \<Longrightarrow> c \<in> set (snd (others k)) \<Longrightarrow> handler_call c"
  by (simp add: by_handlers_def)

lemma handler_ends: "handler_call c \<Longrightarrow> \<not> ends_snapshot rid c"
  by (cases c) simp_all

definition can_snapshot :: "string \<Rightarrow> supervisor \<Rightarrow> bool" where
  "can_snapshot rid sv \<longleftrightarrow> (\<exists>r. map_of (sv_runtimes sv) rid = Some r \<and> \<not> rt_pending r)"

lemma can_snapshot_begin: "can_snapshot (sq_runtime_id rq) sv \<Longrightarrow> \<exists>op sv'. begin_snapshot rq sv = (Inr op, sv')"
  by (auto simp: can_snapshot_def begin_snapshot_def make_operation_id_def Let_def)

definition known :: "string \<Rightarrow> supervisor \<Rightarrow> bool" where
  "known rid sv \<longleftrightarrow> map_of (sv_runtimes sv) rid \<noteq> None"

lemma knownI: "map_of (sv_runtimes sv) rid = Some r \<Longrightarrow> known rid sv"
  by (simp add: known_def)

lemma known_upd [simp]: "known rid (upd_runtime x f sv) = known rid sv" "known rid (upd_template tid g sv) = known rid sv"
  "known rid (upd_boundary bid h sv) = known rid sv"
  by (simp_all add: known_def upd_runtime_get)

lemma known_steps:
  "known rid (snd (fail_template_publish tid msg sv)) = known rid sv"
  "known rid (snd (attach_union_state tid u c sv)) = known rid sv"
  "known rid (snd (drop_template tid sv)) = known rid sv"
  by (simp_all add: fail_template_publish_def attach_union_state_def drop_template_def split: option.split)

lemma cancel_clears: "known rid sv \<Longrightarrow> can_snapshot rid (snd (cancel_snapshot rid sv))"
  by (auto simp: known_def can_snapshot_def cancel_snapshot_def Let_def upd_runtime_get)

lemma known_run:
  assumes "map_of (sv_runtimes sv) rid = Some r" "rt_pending r" "\<And>c. c \<in> set cs \<Longrightarrow> handler_call c"
  shows "\<exists>r'. map_of (sv_runtimes (sv_run pc cs sv)) rid = Some r' \<and> rt_pending r'"
  using run_pending [OF assms(1,2), where cs = cs and pc = pc] assms(3) handler_ends by blast

text \<open>An observed boundary of the pending snapshot that waits for its action.\<close>

definition awaited :: "string \<Rightarrow> supervisor \<Rightarrow> bool" where
  "awaited rid sv \<longleftrightarrow> (\<exists>r. map_of (sv_runtimes sv) rid = Some r \<and> rt_pending r \<and> (rt_observed r \<longrightarrow>
     (\<exists>b. map_of (sv_boundaries sv) (rt_pending_boundary r) = Some b \<and> bd_action b = None \<and> bd_runtime_id b = rid)))"

lemma exec_awaited:
  assumes i: "sup_inv sv" "counters_ok sv" and a: "awaited rid sv" and c: "handler_call c" "\<And>bid. c \<noteq> CTake bid"
  shows "awaited rid (sv_exec pc c sv)"
proof -
  obtain r where r: "map_of (sv_runtimes sv) rid = Some r" "rt_pending r"
    "rt_observed r \<Longrightarrow> \<exists>b. map_of (sv_boundaries sv) (rt_pending_boundary r) = Some b \<and> bd_action b = None \<and> bd_runtime_id b = rid"
    using a by (auto simp: awaited_def)
  show ?thesis
  proof (cases "\<exists>x tok pid gen kind. c = CObserve x tok pid gen kind")
    case True
    then obtain x tok pid gen kind where o: "c = CObserve x tok pid gen kind" by blast
    have new: "bid \<noteq> ''bd-'' @ hex16 (sv_boundary_counter sv + 1)" if "map_of (sv_boundaries sv) bid = Some b" for bid b
      using i(2) not_issued [of "sv_boundary_counter sv" "''bd-''"] sup_invD(3) [OF i(1) that]
      by (auto simp: counters_ok_def boundary_inv_def)
    show ?thesis
    proof (cases "fst (observe_boundary x tok pid gen kind sv)")
      case (Inl e)
      then have "sv_exec pc c sv = sv" by (auto simp: o observe_boundary_def Let_def split: option.splits if_splits prod.splits)
      with a show ?thesis by simp
    next
      case (Inr bid)
      obtain q where q: "map_of (sv_runtimes sv) x = Some q" "\<not> rt_observed q" "rt_pending q"
        and s: "sv_exec pc c sv = upd_runtime x (\<lambda>r. r\<lparr>rt_pending_boundary := bid, rt_observed := True\<rparr>)
          (sv\<lparr>sv_boundary_counter := sv_boundary_counter sv + 1, sv_boundaries := om_put bid
            \<lparr>bd_boundary_id = bid, bd_runtime_id = x, bd_operation_id = rt_pending_op q, bd_pid = pid,
             bd_generation = gen, bd_kind = kind, bd_template_id = [], bd_action = None\<rparr> (sv_boundaries sv)\<rparr>)"
        and bid: "bid = ''bd-'' @ hex16 (sv_boundary_counter sv + 1)"
        using Inr by (auto simp: o observe_boundary_def make_boundary_id_def Let_def split: option.splits if_splits)
      show ?thesis
      proof (cases "x = rid")
        case True
        then show ?thesis using q unfolding s by (simp add: awaited_def upd_runtime_get om_simps)
      next
        case False
        have "map_of (sv_boundaries (sv_exec pc c sv)) (rt_pending_boundary r) = map_of (sv_boundaries sv) (rt_pending_boundary r)"
          if "rt_observed r"
          using r(3) [OF that] new bid unfolding s by (auto simp: om_simps)
        moreover have "map_of (sv_runtimes (sv_exec pc c sv)) rid = Some r" using False r(1) unfolding s by (simp add: upd_runtime_get)
        ultimately show ?thesis using r by (auto simp: awaited_def)
      qed
    qed
  next
    case False
    have b: "sv_boundaries (sv_exec pc c sv) = sv_boundaries sv"
      using c False by (cases c)
        (auto simp: register_runtime_def make_runtime_id_def template_ready_def template_poll_def generation_ready_def
          drop_template_def Let_def split: option.splits if_splits prod.splits)
    obtain r' where r': "map_of (sv_runtimes (sv_exec pc c sv)) rid = Some r'" "rt_pending r'"
      "if rt_observed r then rt_observed r' \<and> rt_pending_boundary r' = rt_pending_boundary r
       else \<not> rt_observed r' \<or> observed_by rid c sv \<noteq> []"
      using exec_pending [OF r(1,2) handler_ends [OF c(1)], of pc] by (auto split: if_splits)
    have "observed_by rid c sv = []" using False by (simp add: observed_by_def split: sv_call.split)
    with r' r(3) show ?thesis by (auto simp: awaited_def b split: if_splits)
  qed
qed

lemma run_awaited:
  assumes "sup_inv sv" "no_wrap pc cs sv" "awaited rid sv" "\<And>c. c \<in> set cs \<Longrightarrow> handler_call c" "\<And>bid. CTake bid \<notin> set cs"
  shows "awaited rid (sv_run pc cs sv)"
  using assms
proof (induction cs arbitrary: sv)
  case (Cons c cs)
  have "sup_inv (sv_exec pc c sv)" using Cons.prems(1,2) by (simp add: exec_inv)
  moreover have "awaited rid (sv_exec pc c sv)"
    using Cons.prems by (intro exec_awaited) auto
  ultimately show ?case using Cons by simp
qed simp

text \<open>The end of a snapshot: however it ends, the runtime can begin the next one.\<close>

lemma fail_publish_clears: "known rid sv \<Longrightarrow> can_snapshot rid (snd (snd (fail_publish rid tid msg (d, sv))))"
  by (simp add: fail_publish_def cancel_clears known_steps)

lemma publish_clears:
  assumes r: "map_of (sv_runtimes sv) (sq_runtime_id rq) = Some r" "rt_pending r"
    and w: "\<And>c. c \<in> set (snd (others 3)) \<Longrightarrow> handler_call c"
  shows "can_snapshot (sq_runtime_id rq) (snd (snd (publish_snapshot H pc t others rq st commit tid (d, sv))))"
proof -
  let ?rid = "sq_runtime_id rq" and ?sv = "sv_run pc (snd (others 3)) sv"
  have k: "known ?rid sv" "known ?rid ?sv" using known_run [OF r w] knownI [OF r(1)] by (auto intro: knownI)
  have a: "known ?rid sv2" if "attach_union_state tid x commit ?sv = (y, sv2)" for x y sv2
    using known_steps(2) [of ?rid tid x commit ?sv] k(2) that by simp
  show ?thesis
    using k by (auto simp: publish_snapshot_def window_def Let_def split: sum.split prod.split option.split
        intro!: fail_publish_clears cancel_clears intro: a)
qed

lemma release_keeps:
  assumes "release_boundary_for_snapshot bid sv = (x, sv')" "map_of (sv_runtimes sv) rid = Some r" "rt_pending r"
  shows "\<exists>r'. map_of (sv_runtimes sv') rid = Some r' \<and> rt_pending r'"
  using exec_pending [OF assms(2,3), of "CRelease bid"] assms(1) by auto

lemma wait_keeps [simp]:
  "map_of (sv_runtimes sv) rid = Some r \<Longrightarrow> snd (wait_for_boundary others rid sv) = others sv"
  "map_of (sv_runtimes sv) rid = Some r \<Longrightarrow> snd (wait_for_template_ready others rid sv) = others sv"
  "map_of (sv_runtimes sv) rid = Some r \<Longrightarrow> snd (wait_for_generation_ready others rid sv) = others sv"
  by (simp_all add: wait_for_boundary_def wait_for_template_ready_def wait_for_generation_ready_def Let_def split: option.split)

lemma template_clears:
  assumes r: "map_of (sv_runtimes sv) (sq_runtime_id rq) = Some r" "rt_pending r"
    and bw: "by_handlers others"
  shows "can_snapshot (sq_runtime_id rq) (snd (snd (await_template H pc t others rq st commit bid (d, sv))))"
proof -
  note w = by_handlersD [OF bw]
  let ?rid = "sq_runtime_id rq"
  obtain x sv1 where x: "release_boundary_for_snapshot bid sv = (x, sv1)" by fastforce
  obtain r1 where r1: "map_of (sv_runtimes sv1) ?rid = Some r1" "rt_pending r1" using release_keeps [OF x r] by blast
  show ?thesis
  proof (cases x)
    case (Inl e)
    with x knownI [OF r1(1)] show ?thesis by (simp add: await_template_def Let_def cancel_clears)
  next
    case a: (Inr a)
    define sv2 where "sv2 = sv_run pc (snd (others 2)) sv1"
    obtain r2 where r2: "map_of (sv_runtimes sv2) ?rid = Some r2" "rt_pending r2"
      using known_run [OF r1, of "snd (others 2)" pc] w unfolding sv2_def by blast
    obtain y where y: "wait_for_template_ready (\<lambda>_. sv2) ?rid sv1 = (y, sv2)"
      using wait_keeps(2) [OF r1(1), of "\<lambda>_. sv2"] by (metis prod.collapse)
    show ?thesis
    proof (cases y)
      case (Inl e)
      with a x y knownI [OF r2(1)] show ?thesis
        by (simp add: await_template_def Let_def window_def sv2_def [symmetric] cancel_clears known_steps)
    next
      case (Inr u)
      with a x y publish_clears [OF r2, of others] w show ?thesis
        by (simp add: await_template_def Let_def window_def sv2_def [symmetric])
    qed
  qed
qed

lemma error_release_clears:
  assumes "awaited rid sv" "map_of (sv_runtimes sv) rid = Some r" "rt_observed r"
  shows "can_snapshot rid (snd (release_boundary_with_error (rt_pending_boundary r) e sv))"
proof -
  obtain b where b: "map_of (sv_boundaries sv) (rt_pending_boundary r) = Some b" "bd_action b = None" "bd_runtime_id b = rid"
    using assms by (auto simp: awaited_def)
  with assms(2) show ?thesis
    by (simp add: can_snapshot_def release_boundary_with_error_def Let_def upd_runtime_get)
qed


section \<open>Every snapshot ends\<close>

lemma begun_snapshot:
  assumes "begin_snapshot rq sv = (Inr op, sv1)"
  shows "\<exists>r. map_of (sv_runtimes sv1) (sq_runtime_id rq) = Some r \<and> rt_pending r \<and> \<not> rt_observed r"
    "sv1 = snd (begin_snapshot rq sv)"
  using assms by (auto simp: begin_snapshot_def make_operation_id_def Let_def upd_runtime_get split: option.splits if_splits)

lemma boundary_clears:
  assumes b: "begin_snapshot rq sv = (Inr op, sv1)" and i: "sup_inv sv1"
    and nw: "no_wrap pc (snd (others 0) @ snd (others 1)) sv1"
    and bw: "by_handlers others"
    and wait: "\<And>bid. CTake bid \<notin> set (snd (others 0)) \<union> set (snd (others 1))"
    and run: "await_boundary H pc t1 t2 others rq st (d, sv1) = Some (res, d', sv')"
  shows "can_snapshot (sq_runtime_id rq) sv'"
proof -
  note w = by_handlersD [OF bw]
  let ?rid = "sq_runtime_id rq"
  obtain r1 where r1: "map_of (sv_runtimes sv1) ?rid = Some r1" "rt_pending r1" "\<not> rt_observed r1"
    using begun_snapshot(1) [OF b] by blast
  define sv2 where "sv2 = sv_run pc (snd (others 0)) sv1"
  define sv3 where "sv3 = sv_run pc (snd (others (Suc 0))) sv2"
  obtain r2 where r2: "map_of (sv_runtimes sv2) ?rid = Some r2" "rt_pending r2"
    using known_run [OF r1(1,2), of "snd (others 0)" pc] w unfolding sv2_def by blast
  have nw2: "no_wrap pc (snd (others 0)) sv1 \<and> no_wrap pc (snd (others 1)) sv2"
  proof -
    have "no_wrap pc (xs @ ys) s \<longleftrightarrow> no_wrap pc xs s \<and> no_wrap pc ys (sv_run pc xs s)" for xs ys s
      by (induction xs arbitrary: s) auto
    with nw show ?thesis by (simp add: sv2_def)
  qed
  have "awaited ?rid sv1" using r1 by (simp add: awaited_def)
  then have "awaited ?rid sv2" unfolding sv2_def using nw2 w wait i by (intro run_awaited) auto
  moreover have "sup_inv sv2" unfolding sv2_def using nw2 i by (intro sv_run_inv) auto
  ultimately have a3: "awaited ?rid sv3" unfolding sv3_def using nw2 w wait by (intro run_awaited) auto
  obtain y where y: "wait_for_boundary (\<lambda>_. sv2) ?rid sv1 = (y, sv2)"
    using wait_keeps(1) [OF r1(1), of "\<lambda>_. sv2"] by (metis prod.collapse)
  show ?thesis
  proof (cases y)
    case (Inl e)
    with run y knownI [OF r2(1)] show ?thesis
      by (auto simp: await_boundary_def Let_def window_def sv2_def [symmetric] cancel_clears)
  next
    case bid: (Inr bid)
    have o: "rt_observed r2" "bid = rt_pending_boundary r2"
      using y bid r1 r2 by (auto simp: wait_for_boundary_def split: if_splits)
    obtain r3 where r3: "map_of (sv_runtimes sv3) ?rid = Some r3" "rt_pending r3" "rt_observed r3"
      "rt_pending_boundary r3 = rt_pending_boundary r2"
      using run_pending [OF r2, of "snd (others (Suc 0))" pc] w handler_ends o(1) unfolding sv3_def by auto
    obtain x d2 where x: "checkpoint_branch_by_name H t1 (st_branch st) (snapshot_label rq) (fst (others 0) d) = Some (x, d2)"
      using run y bid by (auto simp: await_boundary_def Let_def window_def sv2_def [symmetric] split: option.splits)
    show ?thesis
    proof (cases x)
      case (Inl e)
      with run y bid x error_release_clears [OF a3 r3(1,3)] o r3(4) show ?thesis
        by (auto simp: await_boundary_def Let_def window_def sv2_def [symmetric] sv3_def [symmetric])
    next
      case (Inr c)
      with run y bid x have "sv' = snd (snd (await_template H pc t2 others rq st c bid (fst (others 1) d2, sv3)))"
        by (auto simp: await_boundary_def Let_def window_def sv2_def [symmetric] sv3_def [symmetric] split: prod.splits)
      with template_clears [OF r3(1,2) bw] show ?thesis by simp
    qed
  qed
qed

section \<open>What a successful snapshot has published\<close>

lemma cancel_templates: "sv_templates (snd (cancel_snapshot rid sv)) = sv_templates sv"
  by (simp add: cancel_snapshot_def Let_def split: option.split)

lemma attach_published:
  assumes "attach_union_state tid u c sv = (Inr x, sv')"
  shows "\<exists>t. map_of (sv_templates sv') tid = Some t \<and> tm_published t \<and> tm_publish_error t = [] \<and>
     tm_union_state_id t = u \<and> tm_fs_commit t = c"
  using assms by (auto simp: attach_union_state_def upd_template_get split: option.splits)

lemma write_union_stored:
  assumes "write_union_runtime_state H us s = (Inr (h, us'), s')"
  shows "us_union_state_id us' = hash_to_hex h" "h \<noteq> ZERO_HASH" "store_le s s'"
    "no_collision H ''blob'' (blob_body (serialize_union_runtime_state us)) s \<Longrightarrow>
       payload ''blob'' s' h = Some (blob_body (serialize_union_runtime_state us))"
proof -
  let ?b = "serialize_union_runtime_state us"
  obtain k s1 where w: "write_blob H ?b s = (k, s1)" by fastforce
  have r: "k \<noteq> ZERO_HASH" "k = h" "s1 = s'" "us_union_state_id us' = hash_to_hex h"
    using assms w by (auto simp: write_union_runtime_state_def split: if_splits)
  then show "us_union_state_id us' = hash_to_hex h" "h \<noteq> ZERO_HASH" by simp_all
  show "store_le s s'" using write_object_le [OF w [unfolded write_blob_def]] r(3) by simp
  show "payload ''blob'' s' h = Some (blob_body ?b)" if "no_collision H ''blob'' (blob_body ?b) s"
    using write_object_payload [OF w [unfolded write_blob_def] r(1) that] r by blast
qed

lemma publish_success:
  assumes "publish_snapshot H pc t others rq st commit tid (d, sv) = (res, d', sv')" "sn_ok res"
  obtains us h dw tm where "us = snapshot_union st rq commit tid t" "sn_union_state_id res = hash_to_hex h"
    "sn_fs_commit res = commit" "sn_template_id res = tid" "sn_generation res = st_generation st"
    "durable (d_store dw) h" "d' = fst (others 3) dw" "store_le (d_store d) (d_store dw)"
    "no_collision H ''blob'' (blob_body (serialize_union_runtime_state us)) (d_store d) \<Longrightarrow>
       payload ''blob'' (d_store dw) h = Some (blob_body (serialize_union_runtime_state us))"
    "map_of (sv_templates sv') tid = Some tm" "tm_published tm" "tm_union_state_id tm = hash_to_hex h" "tm_fs_commit tm = commit"
proof -
  let ?us = "snapshot_union st rq commit tid t"
  obtain x s1 where w: "write_union_runtime_state H ?us (d_store d) = (x, s1)" by fastforce
  have nf: "\<not> sn_ok (fst (fail_publish a b c n))" for a b c n
    by (cases n) (simp add: fail_publish_def snapshot_failed_def)
  show thesis
  proof (cases x)
    case (Inl e)
    with assms w nf show thesis by (auto simp: publish_snapshot_def Let_def) (metis fst_conv)
  next
    case (Inr hu)
    obtain h us' where hu: "hu = (h, us')" by fastforce
    obtain y s2 where f: "fsync_pending [h] s1 = (y, s2)" by fastforce
    show thesis
    proof (cases y)
      case (Some e)
      with assms w nf Inr hu f show thesis by (auto simp: publish_snapshot_def Let_def) (metis fst_conv)
    next
      case None
      let ?dw = "d\<lparr>d_store := s2\<rparr>" and ?sv3 = "sv_run pc (snd (others 3)) sv"
      obtain z sv4 where a: "attach_union_state tid (us_union_state_id us') commit ?sv3 = (z, sv4)" by fastforce
      show thesis
      proof (cases z)
        case (Inl e)
        with assms w nf Inr hu f None a show thesis
          by (auto simp: publish_snapshot_def Let_def window_def) (metis fst_conv)
      next
        case z: (Inr u)
        note ws = write_union_stored [OF w [unfolded Inr hu]]
        note fs = fsync_pending_effect [OF f]
        have r: "res = \<lparr>sn_ok = True, sn_runtime_id = sq_runtime_id rq, sn_template_id = tid,
             sn_union_state_id = us_union_state_id us', sn_fs_commit = commit, sn_generation = st_generation st,
             sn_eligibility = sn_eligibility res, sn_error = []\<rparr>"
          "d' = fst (others 3) ?dw" "sv' = snd (cancel_snapshot (sq_runtime_id rq) sv4)"
          using assms(1) w Inr hu f None a z by (auto simp: publish_snapshot_def Let_def window_def)
        obtain tm where tm: "map_of (sv_templates sv') tid = Some tm" "tm_published tm"
          "tm_union_state_id tm = hash_to_hex h" "tm_fs_commit tm = commit"
          using attach_published [OF a [unfolded z]] ws(1) r(3) by (auto simp: cancel_templates)
        show thesis
        proof (rule that [OF refl _ _ _ _ _ r(2) _ _ tm])
          show "sn_union_state_id res = hash_to_hex h" "sn_fs_commit res = commit" "sn_template_id res = tid"
            "sn_generation res = st_generation st" using ws(1) by (subst r(1), simp)+
          show "durable (d_store ?dw) h" using fs None by simp
          show "store_le (d_store d) (d_store ?dw)" using ws(3) fs store_le_trans by fastforce
          show "payload ''blob'' (d_store ?dw) h = Some (blob_body (serialize_union_runtime_state ?us))"
            if "no_collision H ''blob'' (blob_body (serialize_union_runtime_state ?us)) (d_store d)"
            using ws(4) [OF that] payload_mono fs by fastforce
        qed
      qed
    qed
  qed
qed

lemma snapshot_success:
  assumes run: "snapshot_runtime H pc t1 t2 others rq (d, sv) = Some (res, d', sv')" "sn_ok res"
    and bw: "by_handlers others"
  shows "\<exists>st d2 us h dw tm. runtime_status_of pc (sq_runtime_id rq) sv = Inr st \<and> st_cooperative st \<and>
     boundaries_seen pc (sq_runtime_id rq) (snd (others 0)) (snd (begin_snapshot rq sv)) \<noteq> [] \<and>
     checkpoint_branch_by_name H t1 (st_branch st) (snapshot_label rq) (fst (others 0) d) = Some (Inr (sn_fs_commit res), d2) \<and>
     us = snapshot_union st rq (sn_fs_commit res) (sn_template_id res) t2 \<and> sn_union_state_id res = hash_to_hex h \<and>
     sn_generation res = st_generation st \<and> d' = fst (others 3) dw \<and> durable (d_store dw) h \<and>
     store_le (d_store (fst (others 2) (fst (others 1) d2))) (d_store dw) \<and>
     (no_collision H ''blob'' (blob_body (serialize_union_runtime_state us)) (d_store (fst (others 2) (fst (others 1) d2))) \<longrightarrow>
        payload ''blob'' (d_store dw) h = Some (blob_body (serialize_union_runtime_state us))) \<and>
     map_of (sv_templates sv') (sn_template_id res) = Some tm \<and> tm_published tm \<and>
     tm_union_state_id tm = sn_union_state_id res \<and> tm_fs_commit tm = sn_fs_commit res"
proof -
  note w = by_handlersD [OF bw]
  let ?rid = "sq_runtime_id rq"
  have nf: "\<not> sn_ok (snapshot_failed a b)" for a b by (simp add: snapshot_failed_def)
  obtain st op sv1 where 1: "runtime_status_of pc ?rid sv = Inr st" "st_cooperative st" "begin_snapshot rq sv = (Inr op, sv1)"
    "await_boundary H pc t1 t2 others rq st (d, sv1) = Some (res, d', sv')"
    using run nf by (auto simp: snapshot_runtime_def Let_def split: option.splits sum.splits if_splits prod.splits)
  obtain r1 where r1: "map_of (sv_runtimes sv1) ?rid = Some r1" "rt_pending r1" "\<not> rt_observed r1"
    using begun_snapshot(1) [OF 1(3)] by blast
  define sv2 where "sv2 = sv_run pc (snd (others 0)) sv1"
  define sv3 where "sv3 = sv_run pc (snd (others (Suc 0))) sv2"
  obtain y where y: "wait_for_boundary (\<lambda>_. sv2) ?rid sv1 = (y, sv2)"
    using wait_keeps(1) [OF r1(1), of "\<lambda>_. sv2"] by (metis prod.collapse)
  obtain bid where bid: "y = Inr bid"
    using 1(4) y run(2) nf by (cases y) (auto simp: await_boundary_def Let_def window_def sv2_def [symmetric])
  obtain r2 where r2: "map_of (sv_runtimes sv2) ?rid = Some r2" "rt_pending r2"
    "boundaries_seen pc ?rid (snd (others 0)) sv1 = [] \<longrightarrow> \<not> rt_observed r2"
    using run_pending [OF r1(1,2), of "snd (others 0)" pc] w handler_ends r1(3) unfolding sv2_def by fastforce
  have seen: "boundaries_seen pc ?rid (snd (others 0)) sv1 \<noteq> []"
    using y bid r1 r2 by (auto simp: wait_for_boundary_def split: if_splits)
  obtain c d2 where cp: "checkpoint_branch_by_name H t1 (st_branch st) (snapshot_label rq) (fst (others 0) d) = Some (Inr c, d2)"
    and at: "await_template H pc t2 others rq st c bid (fst (others (Suc 0)) d2, sv3) = (res, d', sv')"
    using 1(4) y bid run(2) nf
    by (auto simp: await_boundary_def Let_def window_def sv2_def [symmetric] sv3_def [symmetric]
        split: option.splits sum.splits)
  obtain r3 where r3: "map_of (sv_runtimes sv3) ?rid = Some r3" "rt_pending r3"
    using known_run [OF r2(1,2), of "snd (others (Suc 0))" pc] w unfolding sv3_def by blast
  obtain x sv4 where x: "release_boundary_for_snapshot bid sv3 = (x, sv4)" by fastforce
  obtain a where a: "x = Inr a" using at x run(2) nf by (cases x) (auto simp: await_template_def Let_def)
  obtain r4 where r4: "map_of (sv_runtimes sv4) ?rid = Some r4" using release_keeps [OF x r3] by blast
  define sv5 where "sv5 = sv_run pc (snd (others 2)) sv4"
  obtain z where z: "wait_for_template_ready (\<lambda>_. sv5) ?rid sv4 = (z, sv5)"
    using wait_keeps(2) [OF r4, of "\<lambda>_. sv5"] by (metis prod.collapse)
  obtain u where u: "z = Inr u"
    using at x a z run(2) nf by (cases z) (auto simp: await_template_def Let_def window_def sv5_def [symmetric])
  have p: "publish_snapshot H pc t2 others rq st c (ba_template_id a) (fst (others 2) (fst (others (Suc 0)) d2), sv5) = (res, d', sv')"
    using at x a z u by (simp add: await_template_def Let_def window_def sv5_def [symmetric])
  show ?thesis
  proof (rule publish_success [OF p run(2)])
    fix us h dw tm
    assume q: "us = snapshot_union st rq c (ba_template_id a) t2" "sn_union_state_id res = hash_to_hex h" "sn_fs_commit res = c"
      "sn_template_id res = ba_template_id a" "sn_generation res = st_generation st" "durable (d_store dw) h" "d' = fst (others 3) dw"
      "store_le (d_store (fst (others 2) (fst (others (Suc 0)) d2))) (d_store dw)"
      "no_collision H ''blob'' (blob_body (serialize_union_runtime_state us)) (d_store (fst (others 2) (fst (others (Suc 0)) d2))) \<Longrightarrow>
         payload ''blob'' (d_store dw) h = Some (blob_body (serialize_union_runtime_state us))"
      "map_of (sv_templates sv') (ba_template_id a) = Some tm" "tm_published tm" "tm_union_state_id tm = hash_to_hex h" "tm_fs_commit tm = c"
    show ?thesis
      by (rule exI [of _ st], rule exI [of _ d2], rule exI [of _ us], rule exI [of _ h], rule exI [of _ dw], rule exI [of _ tm])
        (use 1(1-3) seen cp q in simp)
  qed
qed

end
