(* ===== verification/RuntimeRestore.thy ===== *)
theory RuntimeRestore
  imports RuntimeSnapshot
begin

text \<open>
  What \<open>restore_runtime\<close> promises: a success has rolled the branch back and replaced the one process
  group that it stopped; a failure continues it.
\<close>

section \<open>Signals and generations\<close>

text \<open>No handler's call sends a signal.\<close>

lemma handler_signals: "handler_call c \<Longrightarrow> sv_signals (sv_exec pc c sv) = sv_signals sv"
  by (cases c) (auto simp: register_runtime_def make_runtime_id_def observe_boundary_def make_boundary_id_def
      take_boundary_action_def template_ready_def template_poll_def generation_ready_def drop_template_def Let_def
      split: option.splits if_splits prod.splits)

lemma handlers_signals: "(\<And>c. c \<in> set cs \<Longrightarrow> handler_call c) \<Longrightarrow> sv_signals (sv_run pc cs sv) = sv_signals sv"
  by (induction cs arbitrary: sv) (simp_all add: handler_signals)

text \<open>
  The runtime while a restore of it runs: either it waits for the generation, with the stopped
  group \<open>p\<close> still its own, or a generation reported ready and \<open>p\<close> waits to be retired.
\<close>

definition restoring_to :: "u64 \<Rightarrow> int \<Rightarrow> runtime \<Rightarrow> bool" where
  "restoring_to target p r \<longleftrightarrow>
     (rt_restoring r \<and> \<not> rt_ready r \<and> rt_restore_target r = target \<and> rt_pgid r = p) \<or>
     (\<not> rt_restoring r \<and> rt_ready r \<and> rt_generation r = target \<and> rt_retire_pgid r = p)"

lemma exec_restoring_to:
  assumes r: "map_of (sv_runtimes sv) rid = Some r" "restoring_to target p r" and c: "handler_call c"
  shows "\<exists>r'. map_of (sv_runtimes (sv_exec pc c sv)) rid = Some r' \<and> restoring_to target p r' \<and>
     (rt_ready r \<longrightarrow> restore_fields r' = restore_fields r)"
proof (cases "decides_restore rid c")
  case False
  from exec_restoring [OF r(1) False, of pc] r(2) show ?thesis
    by (auto simp: restoring_to_def restore_fields_def)
next
  case True
  then obtain tok pid pgid gen where g: "c = CGenerationReady rid tok pid pgid gen"
    using c by (cases c) simp_all
  show ?thesis
  proof (cases "fst (generation_ready rid tok pid pgid gen sv)")
    case (Inl e)
    then have "snd (generation_ready rid tok pid pgid gen sv) = sv"
      using r(1) by (auto simp: generation_ready_def Let_def split: if_splits)
    then show ?thesis using r g by simp
  next
    case (Inr u)
    then have q: "rt_restoring r" "rt_restore_target r = gen"
      using r(1) by (auto simp: generation_ready_def split: if_splits)
    then have t: "gen = target" "rt_pgid r = p" "\<not> rt_ready r" using r(2) by (auto simp: restoring_to_def)
    have "map_of (sv_runtimes (snd (generation_ready rid tok pid pgid gen sv))) rid =
        Some (r\<lparr>rt_retire_pgid := rt_pgid r, rt_root_pid := pid, rt_pgid := pgid,
          rt_generation := gen, rt_ready := True, rt_restoring := False, rt_restore_template := []\<rparr>)"
      using Inr r(1) q by (auto simp: generation_ready_def Let_def upd_runtime_get split: if_splits)
    with t show ?thesis by (simp add: g restoring_to_def)
  qed
qed

lemma run_restoring_to:
  assumes "map_of (sv_runtimes sv) rid = Some r" "restoring_to target p r" "\<And>c. c \<in> set cs \<Longrightarrow> handler_call c"
  shows "\<exists>r'. map_of (sv_runtimes (sv_run pc cs sv)) rid = Some r' \<and> restoring_to target p r' \<and>
     (rt_ready r \<longrightarrow> restore_fields r' = restore_fields r)"
  using assms
proof (induction cs arbitrary: sv r)
  case (Cons c cs)
  obtain r1 where r1: "map_of (sv_runtimes (sv_exec pc c sv)) rid = Some r1" "restoring_to target p r1"
    "rt_ready r \<longrightarrow> restore_fields r1 = restore_fields r"
    using exec_restoring_to [OF Cons.prems(1,2), of c pc] Cons.prems(3) by auto
  from Cons.IH [OF r1(1,2)] Cons.prems(3) r1(3) show ?case by (auto simp: restore_fields_def)
qed simp

lemma begun_restoring:
  assumes b: "begin_restore pc ri sv = (Inr (), sv1)"
  obtains r r1 where "map_of (sv_runtimes sv) (ri_runtime_id ri) = Some r"
    "map_of (sv_runtimes sv1) (ri_runtime_id ri) = Some r1" "restoring_to (ri_target ri) (rt_pgid r) r1"
    "rt_restoring r1" "rt_root_pid r1 = rt_root_pid r" "rt_generation r1 = rt_generation r"
    "sv_signals sv1 = sv_signals sv @ (if 0 < rt_pgid r then [Frozen (rt_pgid r)] else [])"
proof -
  obtain r where r: "map_of (sv_runtimes sv) (ri_runtime_id ri) = Some r" by (rule begin_restore_ok [OF b]) (rule that)
  show thesis
    using begun_runtime(2) [OF b r, of "[]"] that [OF r _ _ _ _ _ begun_runtime(1) [OF b r, of "[]"]]
    by (auto simp: restoring_to_def)
qed

lemma publish_restore_quiet:
  "sv_runtimes (snd (publish_restore rid sv)) = sv_runtimes sv" "sv_signals (snd (publish_restore rid sv)) = sv_signals sv"
  by (simp_all add: publish_restore_def split: option.split)

lemma outcome_ok [simp]: "rr_ok (restore_outcome us ok partial e) = ok" "\<not> rr_ok (restore_failed e)"
  by (simp_all add: restore_outcome_def restore_failed_def)

lemma recover_failed: "recover_runtime pc others us bid recovery e shown n = Some (res, n') \<Longrightarrow> \<not> rr_ok res"
  by (auto simp: recover_runtime_def split: prod.splits option.splits sum.splits)

lemma retire_result:
  assumes r: "map_of (sv_runtimes sv) rid = Some r"
  shows "\<exists>x. retire_pending_generation pc rid sv = (Inr x, snd (retire_pending_generation pc rid sv))"
    "\<exists>r'. map_of (sv_runtimes (snd (retire_pending_generation pc rid sv))) rid = Some r' \<and> rt_retire_pgid r' = 0 \<and>
       rt_generation r' = rt_generation r \<and> rt_restoring r' = rt_restoring r"
    "0 < rt_retire_pgid r \<Longrightarrow> pc_terminate pc (rt_retire_pgid r) = None \<Longrightarrow>
       sv_signals (snd (retire_pending_generation pc rid sv)) = sv_signals sv @ [Terminated (rt_retire_pgid r)]"
  using r by (auto simp: retire_pending_generation_def Let_def upd_runtime_get split: option.split)

text \<open>The early failures stop nothing.\<close>

lemma reads_only:
  assumes "read_union_runtime_state ident s = (x, s1)" "current_commit b r s1 = (c, s2)"
    "read_commit c s2 = (y, s3)" "read_commit h s3 = (z, s4)"
  shows "only_io s s4"
proof -
  have 1: "only_io s s1"
    using assms(1) by (auto simp: read_union_runtime_state_def split: prod.splits option.splits
        dest: read_blob_spec(1) [OF only_io_refl])
  have 2: "only_io s s2"
    using assms(2) read_ref_only [OF 1] by (auto simp: current_commit_def split: prod.splits option.splits)
  have 3: "only_io s s3" by (rule read_object_spec(1) [OF 2 assms(3) [unfolded read_commit_def]])
  show ?thesis by (rule read_object_spec(1) [OF 3 assms(4) [unfolded read_commit_def]])
qed

lemma restore_early:
  assumes "restore_runtime pc others hex (d, sv) = Some (res, d', sv')"
  obtains "sv' = sv" "\<not> rr_ok res"
  | ident us s p recovery d0 where "hex_to_hash_strict hex = Some ident"
    "read_union_runtime_state ident (d_store d) = (Inr us, s)" "branch_by_name (us_branch us) d = Some p"
    "roll_and_hand_off pc others us (bc_id (ctx d p)) recovery (d0, sv) = Some (res, d', sv')"
    "only_io (d_store d) (d_store d0)" "d0 = d\<lparr>d_store := d_store d0\<rparr>"
proof -
  have "(sv' = sv \<and> \<not> rr_ok res) \<or> (\<exists>ident us s p recovery s0. only_io (d_store d) s0 \<and> hex_to_hash_strict hex = Some ident \<and>
    read_union_runtime_state ident (d_store d) = (Inr us, s) \<and> branch_by_name (us_branch us) d = Some p \<and>
    roll_and_hand_off pc others us (bc_id (ctx d p)) recovery (d\<lparr>d_store := s0\<rparr>, sv) = Some (res, d', sv'))"
  proof -
    have q: "branch_by_name n (d\<lparr>d_store := s\<rparr>) = branch_by_name n d" "ctx (d\<lparr>d_store := s\<rparr>) p = ctx d p" for n s p
      by (simp_all add: branch_by_name_def ctx_def split: option.split)
    show ?thesis
      using assms
      by (auto simp: restore_runtime_def Let_def q split: option.splits sum.splits prod.splits if_splits)
        (metis reads_only)+
  qed
  with that show thesis by fastforce
qed

lemma rollback_branch_ref:
  assumes "rollback_branch bid name target d = Some (Inr c, d')"
  shows "durable_ref (d_refs d') name = Some c"
proof -
  have inv: "d_refs (invalidate_fhs_for_branch b x) = d_refs x" for b x by (simp add: invalidate_fhs_for_branch_def)
  show ?thesis using assms
    by (auto simp: rollback_branch_def rollback_locked_def Let_def inv upd_ctx_def write_ref_durable
        split: option.splits prod.splits sum.splits if_splits)
qed

text \<open>The part that stops the group, when its restore began.\<close>

lemma hand_off_success:
  assumes r: "map_of (sv_runtimes sv) (us_runtime_id us) = Some r" "restoring_to target p r"
    and bw: "by_handlers others"
    and run: "hand_off pc others us bid recovery (d, sv) = Some (res, d', sv')" "rr_ok res"
  shows "\<exists>r'. map_of (sv_runtimes sv') (us_runtime_id us) = Some r' \<and> rt_generation r' = target \<and>
       \<not> rt_restoring r' \<and> rt_retire_pgid r' = 0"
    "0 < p \<Longrightarrow> pc_terminate pc p = None \<Longrightarrow> sv_signals sv' = sv_signals sv @ [Terminated p]"
    "d' = fst (others 3) (fst (others (Suc 0)) d)"
proof -
  note w = by_handlersD [OF bw]
  let ?rid = "us_runtime_id us"
  obtain x sv1 where x: "publish_restore ?rid sv = (x, sv1)" by fastforce
  have x1: "\<exists>u. x = Inr u" using run x recover_failed by (cases x) (auto simp: hand_off_def)
  have r1: "map_of (sv_runtimes sv1) ?rid = Some r" "sv_signals sv1 = sv_signals sv"
    using publish_restore_quiet [of ?rid sv] x r(1) by simp_all
  define sv2 where "sv2 = sv_run pc (snd (others (Suc 0))) sv1"
  obtain r2 where r2: "map_of (sv_runtimes sv2) ?rid = Some r2" "restoring_to target p r2"
    using run_restoring_to [OF r1(1) r(2), of "snd (others (Suc 0))" pc] w unfolding sv2_def by blast
  have s2: "sv_signals sv2 = sv_signals sv" unfolding sv2_def using handlers_signals w r1(2) by simp
  obtain y where y: "wait_for_generation_ready (\<lambda>_. sv2) ?rid sv1 = (y, sv2)"
    using wait_keeps(3) [OF r1(1), of "\<lambda>_. sv2"] by (metis prod.collapse)
  have y1: "\<exists>u. y = Inr u" using run x x1 y recover_failed
    by (cases y) (auto simp: hand_off_def window_def sv2_def [symmetric])
  have ready: "rt_ready r2" using y y1 r1(1) r2(1) by (auto simp: wait_for_generation_ready_def split: if_splits)
  have ret: "retire_prior pc others us (fst (others (Suc 0)) d, sv2) = (res, d', sv')"
    using run x x1 y y1 by (auto simp: hand_off_def window_def sv2_def [symmetric])
  define sv3 where "sv3 = sv_run pc (snd (others 3)) sv2"
  obtain r3 where r3: "map_of (sv_runtimes sv3) ?rid = Some r3" "restore_fields r3 = restore_fields r2"
    using run_restoring_to [OF r2, of "snd (others 3)" pc] w ready unfolding sv3_def by blast
  have s3: "sv_signals sv3 = sv_signals sv" unfolding sv3_def using handlers_signals w s2 by simp
  have e: "sv' = snd (retire_pending_generation pc ?rid sv3)" "d' = fst (others 3) (fst (others (Suc 0)) d)"
  proof -
    obtain u sv4 where q: "retire_pending_generation pc ?rid sv3 = (Inr u, sv4)"
      using retire_result(1) [OF r3(1), of pc] by (metis prod.collapse)
    with ret show "sv' = snd (retire_pending_generation pc ?rid sv3)" "d' = fst (others 3) (fst (others (Suc 0)) d)"
      by (simp_all add: retire_prior_def window_def sv3_def [symmetric])
  qed
  have f: "rt_retire_pgid r3 = p" "rt_generation r3 = target" "\<not> rt_restoring r3"
    using r3(2) r2(2) ready by (auto simp: restoring_to_def restore_fields_def)
  show "\<exists>r'. map_of (sv_runtimes sv') ?rid = Some r' \<and> rt_generation r' = target \<and> \<not> rt_restoring r' \<and> rt_retire_pgid r' = 0"
    using retire_result(2) [OF r3(1), of pc] f by (auto simp: e)
  show "sv_signals sv' = sv_signals sv @ [Terminated p]" if "0 < p" "pc_terminate pc p = None"
    using retire_result(3) [OF r3(1), of pc] f that s3 by (simp add: e)
  show "d' = fst (others 3) (fst (others (Suc 0)) d)" by (rule e(2))
qed

lemma begun_step:
  assumes run: "roll_and_hand_off pc others us bid recovery (d, sv) = Some (res, d', sv')"
    and bw: "by_handlers others"
  obtains "sv' = sv" "\<not> rr_ok res"
  | r r1 sv2 x d2 where "map_of (sv_runtimes sv) (us_runtime_id us) = Some r"
    "map_of (sv_runtimes sv2) (us_runtime_id us) = Some r1" "restoring_to (us_runtime_generation us + 1) (rt_pgid r) r1"
    "sv_signals sv2 = sv_signals sv @ (if 0 < rt_pgid r then [Frozen (rt_pgid r)] else [])"
    "rollback_branch bid (us_branch us) (us_fs_commit us) (fst (others 0) d) = Some (x, d2)"
    "(case x of Inl e \<Rightarrow> Some (restore_outcome us False [] e, d2, snd (abort_restore pc (us_runtime_id us) sv2))
      | Inr c \<Rightarrow> hand_off pc others us bid recovery (invalidate_fhs_for_branch bid d2, sv2)) = Some (res, d', sv')"
    "(\<forall>c \<in> set (snd (others 0)). \<not> decides_restore (us_runtime_id us) c) \<longrightarrow> \<not> rt_ready r1 \<and>
       rt_root_pid r1 = rt_root_pid r \<and> rt_generation r1 = rt_generation r"
proof -
  note w = by_handlersD [OF bw]
  let ?ri = "\<lparr>ri_runtime_id = us_runtime_id us, ri_template_id = us_template_id us, ri_target = us_runtime_generation us + 1\<rparr>"
  obtain x0 sv1 where b: "begin_restore pc ?ri sv = (x0, sv1)" by fastforce
  show thesis
  proof (cases x0)
    case (Inl e)
    then have "sv1 = sv" using b by (auto simp: begin_restore_def Let_def split: option.splits if_splits)
    moreover have "sv' = sv1" "\<not> rr_ok res" using run b Inl by (auto simp: roll_and_hand_off_def)
    ultimately show thesis using that(1) by simp
  next
    case (Inr u)
    then have b': "begin_restore pc ?ri sv = (Inr (), sv1)" using b by simp
    obtain r r1 where r: "map_of (sv_runtimes sv) (us_runtime_id us) = Some r" "map_of (sv_runtimes sv1) (us_runtime_id us) = Some r1"
      "restoring_to (us_runtime_generation us + 1) (rt_pgid r) r1" "rt_restoring r1" "rt_root_pid r1 = rt_root_pid r"
      "rt_generation r1 = rt_generation r"
      "sv_signals sv1 = sv_signals sv @ (if 0 < rt_pgid r then [Frozen (rt_pgid r)] else [])"
      using begun_restoring [OF b'] by auto
    define sv2 where "sv2 = sv_run pc (snd (others 0)) sv1"
    obtain r2 where r2: "map_of (sv_runtimes sv2) (us_runtime_id us) = Some r2"
      "restoring_to (us_runtime_generation us + 1) (rt_pgid r) r2"
      using run_restoring_to [OF r(2,3), of "snd (others 0)" pc] w unfolding sv2_def by blast
    have q: "\<not> rt_ready r2 \<and> rt_root_pid r2 = rt_root_pid r \<and> rt_generation r2 = rt_generation r"
      if "\<forall>c \<in> set (snd (others 0)). \<not> decides_restore (us_runtime_id us) c"
    proof -
      have "restore_fields r2 = restore_fields r1"
        using run_restoring [OF r(2), of "snd (others 0)" pc] that r2(1) unfolding sv2_def by auto
      with r show ?thesis by (auto simp: restore_fields_def restoring_to_def)
    qed
    have s: "sv_signals sv2 = sv_signals sv1" unfolding sv2_def using handlers_signals w by simp
    obtain x d2 where x: "rollback_branch bid (us_branch us) (us_fs_commit us) (fst (others 0) d) = Some (x, d2)"
      using run b Inr by (auto simp: roll_and_hand_off_def window_def split: option.splits)
    show thesis
    proof (rule that(2) [OF r(1) r2 _ x _])
      show "sv_signals sv2 = sv_signals sv @ (if 0 < rt_pgid r then [Frozen (rt_pgid r)] else [])" using s r by simp
      show "(case x of Inl e \<Rightarrow> Some (restore_outcome us False [] e, d2, snd (abort_restore pc (us_runtime_id us) sv2))
        | Inr c \<Rightarrow> hand_off pc others us bid recovery (invalidate_fhs_for_branch bid d2, sv2)) = Some (res, d', sv')"
        using run b Inr x by (simp add: roll_and_hand_off_def window_def sv2_def [symmetric] split: sum.splits)
    qed (use q in blast)
  qed
qed

lemma restore_success:
  assumes run: "restore_runtime pc others hex (d, sv) = Some (res, d', sv')" "rr_ok res"
    and bw: "by_handlers others"
  shows "\<exists>ident us s r r' bid d0 c d2. hex_to_hash_strict hex = Some ident \<and>
     read_union_runtime_state ident (d_store d) = (Inr us, s) \<and>
     only_io (d_store d) (d_store d0) \<and> d0 = d\<lparr>d_store := d_store d0\<rparr> \<and> branch_by_name (us_branch us) d \<noteq> None \<and>
     rollback_branch bid (us_branch us) (us_fs_commit us) (fst (others 0) d0) = Some (Inr c, d2) \<and>
     durable_ref (d_refs d2) (us_branch us) = Some c \<and>
     d' = fst (others 3) (fst (others (Suc 0)) (invalidate_fhs_for_branch bid d2)) \<and>
     map_of (sv_runtimes sv) (us_runtime_id us) = Some r \<and> map_of (sv_runtimes sv') (us_runtime_id us) = Some r' \<and>
     rt_generation r' = us_runtime_generation us + 1 \<and> \<not> rt_restoring r' \<and> rt_retire_pgid r' = 0 \<and>
     (0 < rt_pgid r \<longrightarrow> pc_terminate pc (rt_pgid r) = None \<longrightarrow>
        sv_signals sv' = sv_signals sv @ [Frozen (rt_pgid r), Terminated (rt_pgid r)])"
proof (rule restore_early [OF run(1)])
  note w = by_handlersD [OF bw]
  fix ident us s p recovery d0
  assume e: "hex_to_hash_strict hex = Some ident" "read_union_runtime_state ident (d_store d) = (Inr us, s)"
    "branch_by_name (us_branch us) d = Some p"
    "roll_and_hand_off pc others us (bc_id (ctx d p)) recovery (d0, sv) = Some (res, d', sv')"
    "only_io (d_store d) (d_store d0)" "d0 = d\<lparr>d_store := d_store d0\<rparr>"
  let ?bid = "bc_id (ctx d p)"
  show ?thesis
  proof (rule begun_step [OF e(4)])
    fix r r1 sv2 x d2
    assume b: "map_of (sv_runtimes sv) (us_runtime_id us) = Some r" "map_of (sv_runtimes sv2) (us_runtime_id us) = Some r1"
      "restoring_to (us_runtime_generation us + 1) (rt_pgid r) r1"
      "sv_signals sv2 = sv_signals sv @ (if 0 < rt_pgid r then [Frozen (rt_pgid r)] else [])"
      "rollback_branch ?bid (us_branch us) (us_fs_commit us) (fst (others 0) d0) = Some (x, d2)"
      "(case x of Inl e \<Rightarrow> Some (restore_outcome us False [] e, d2, snd (abort_restore pc (us_runtime_id us) sv2))
        | Inr c \<Rightarrow> hand_off pc others us ?bid recovery (invalidate_fhs_for_branch ?bid d2, sv2)) = Some (res, d', sv')"
    obtain c where c: "x = Inr c" using b(6) run(2) by (cases x) auto
    have h: "hand_off pc others us ?bid recovery (invalidate_fhs_for_branch ?bid d2, sv2) = Some (res, d', sv')"
      using b(6) c by simp
    note hs = hand_off_success [OF b(2,3) bw h run(2)]
    obtain r' where r': "map_of (sv_runtimes sv') (us_runtime_id us) = Some r'" "rt_generation r' = us_runtime_generation us + 1"
      "\<not> rt_restoring r'" "rt_retire_pgid r' = 0" using hs(1) w by blast
    have "0 < rt_pgid r \<longrightarrow> pc_terminate pc (rt_pgid r) = None \<longrightarrow>
        sv_signals sv' = sv_signals sv @ [Frozen (rt_pgid r), Terminated (rt_pgid r)]"
      using hs(2) w b(4) by simp
    moreover have "d' = fst (others 3) (fst (others (Suc 0)) (invalidate_fhs_for_branch ?bid d2))" using hs(3) w by blast
    moreover have "durable_ref (d_refs d2) (us_branch us) = Some c" using rollback_branch_ref b(5) c by blast
    ultimately show ?thesis
      using e b(1) b(5) [unfolded c] r'
      by - (rule exI [of _ ident], rule exI [of _ us], rule exI [of _ s], rule exI [of _ r], rule exI [of _ r'],
        rule exI [of _ ?bid], rule exI [of _ d0], rule exI [of _ c], rule exI [of _ d2], blast)
  qed (use run(2) bw in auto)
qed (use run(2) in simp)

lemma abort_result:
  assumes "map_of (sv_runtimes sv) rid = Some r" "0 < rt_pgid r" "pc_resume pc (rt_pgid r) = None"
  shows "sv_signals (snd (abort_restore pc rid sv)) = sv_signals sv @ [Resumed (rt_pgid r)]"
    "\<exists>r'. map_of (sv_runtimes (snd (abort_restore pc rid sv))) rid = Some r' \<and> \<not> rt_restoring r' \<and>
       rt_pgid r' = rt_pgid r \<and> rt_root_pid r' = rt_root_pid r \<and> rt_generation r' = rt_generation r"
  using assms by (simp_all add: abort_restore_def Let_def upd_runtime_get)

text \<open>Without a report of a generation the wait times out, and the group that was stopped is still the runtime's.\<close>

lemma window_waiting:
  assumes "map_of (sv_runtimes sv) rid = Some r" "restoring_to target p r" "\<not> rt_ready r"
    and "\<And>c. c \<in> set cs \<Longrightarrow> \<not> decides_restore rid c"
  shows "\<exists>r'. map_of (sv_runtimes (sv_run pc cs sv)) rid = Some r' \<and> restoring_to target p r' \<and> \<not> rt_ready r' \<and>
     rt_root_pid r' = rt_root_pid r \<and> rt_generation r' = rt_generation r"
  using run_restoring [OF assms(1), of cs pc] assms(2-4) by (auto simp: restore_fields_def restoring_to_def)

lemma recover_signals:
  assumes r: "map_of (sv_runtimes sv) (us_runtime_id us) = Some r" "restoring_to target p r" "\<not> rt_ready r"
    and w: "\<And>k c. c \<in> set (snd (others k)) \<Longrightarrow> handler_call c \<and> \<not> decides_restore (us_runtime_id us) c"
    and p: "0 < p" "pc_resume pc p = None"
    and run: "recover_runtime pc others us bid recovery e shown (d, sv) = Some (res, d', sv')"
  shows "sv_signals sv' = sv_signals sv @ [Resumed p]"
    "\<exists>r'. map_of (sv_runtimes sv') (us_runtime_id us) = Some r' \<and> \<not> rt_restoring r' \<and> rt_pgid r' = p \<and>
       rt_root_pid r' = rt_root_pid r \<and> rt_generation r' = rt_generation r"
    "rr_partial res = [] \<Longrightarrow> \<exists>c d2. rollback_branch bid (us_branch us) recovery d = Some (Inr c, d2) \<and>
       durable_ref (d_refs d2) (us_branch us) = Some c \<and> d' = fst (others 2) d2"
proof -
  define sv2 where "sv2 = sv_run pc (snd (others 2)) sv"
  have "\<And>c. c \<in> set (snd (others 2)) \<Longrightarrow> \<not> decides_restore (us_runtime_id us) c" using w by blast
  from window_waiting [OF r this] obtain r2 where
    r2: "map_of (sv_runtimes sv2) (us_runtime_id us) = Some r2" "restoring_to target p r2" "\<not> rt_ready r2"
    "rt_root_pid r2 = rt_root_pid r" "rt_generation r2 = rt_generation r" unfolding sv2_def by blast
  have g: "rt_pgid r2 = p" using r2 by (simp add: restoring_to_def)
  have s: "sv_signals sv2 = sv_signals sv" unfolding sv2_def using w by (intro handlers_signals) blast
  obtain x d2 where x: "rollback_branch bid (us_branch us) recovery d = Some (x, d2)"
    using run by (auto simp: recover_runtime_def split: option.splits)
  have e: "sv' = snd (abort_restore pc (us_runtime_id us) sv2)" "d' = fst (others 2) d2"
    "res = (case x of Inl _ \<Rightarrow> restore_outcome us False ''recovery_failed_runtime_resumed'' shown
                  | Inr _ \<Rightarrow> restore_outcome us False [] e)"
    using run x by (auto simp: recover_runtime_def window_def sv2_def [symmetric])
  note a = abort_result [OF r2(1), of pc, unfolded g, OF p]
  show "sv_signals sv' = sv_signals sv @ [Resumed p]" using a(1) s e(1) by simp
  show "\<exists>r'. map_of (sv_runtimes sv') (us_runtime_id us) = Some r' \<and> \<not> rt_restoring r' \<and> rt_pgid r' = p \<and>
       rt_root_pid r' = rt_root_pid r \<and> rt_generation r' = rt_generation r"
    using a(2) e(1) r2(4,5) by auto
  show "\<exists>c d2. rollback_branch bid (us_branch us) recovery d = Some (Inr c, d2) \<and>
       durable_ref (d_refs d2) (us_branch us) = Some c \<and> d' = fst (others 2) d2" if pp: "rr_partial res = []"
  proof -
    obtain c where c: "x = Inr c" using pp e(3) by (cases x) (simp_all add: restore_outcome_def)
    with x e(2) rollback_branch_ref show ?thesis by blast
  qed
qed

lemma hand_off_failure:
  assumes r: "map_of (sv_runtimes sv) (us_runtime_id us) = Some r" "restoring_to target p r" "\<not> rt_ready r"
    and w: "\<And>k c. c \<in> set (snd (others k)) \<Longrightarrow> handler_call c \<and> \<not> decides_restore (us_runtime_id us) c"
    and run: "hand_off pc others us bid recovery (d, sv) = Some (res, d', sv')"
  obtains e shown d1 sv1 r1 where "recover_runtime pc others us bid recovery e shown (d1, sv1) = Some (res, d', sv')"
    "map_of (sv_runtimes sv1) (us_runtime_id us) = Some r1" "restoring_to target p r1" "\<not> rt_ready r1"
    "rt_root_pid r1 = rt_root_pid r" "rt_generation r1 = rt_generation r" "sv_signals sv1 = sv_signals sv"
proof -
  let ?rid = "us_runtime_id us"
  obtain x sv1 where x: "publish_restore ?rid sv = (x, sv1)" by fastforce
  have r1: "map_of (sv_runtimes sv1) ?rid = Some r" "sv_signals sv1 = sv_signals sv"
    using publish_restore_quiet [of ?rid sv] x r(1) by simp_all
  show thesis
  proof (cases x)
    case (Inl e)
    with run x have "recover_runtime pc others us bid recovery e e (d, sv1) = Some (res, d', sv')" by (simp add: hand_off_def)
    from that [OF this r1(1) r(2,3) refl refl r1(2)] show thesis .
  next
    case (Inr u)
    define sv2 where "sv2 = sv_run pc (snd (others (Suc 0))) sv1"
    have "\<And>c. c \<in> set (snd (others (Suc 0))) \<Longrightarrow> \<not> decides_restore ?rid c" using w by blast
    from window_waiting [OF r1(1) r(2,3) this] obtain r2 where r2: "map_of (sv_runtimes sv2) ?rid = Some r2"
      "restoring_to target p r2" "\<not> rt_ready r2" "rt_root_pid r2 = rt_root_pid r" "rt_generation r2 = rt_generation r"
      unfolding sv2_def by blast
    have s2: "sv_signals sv2 = sv_signals sv1" unfolding sv2_def using w by (intro handlers_signals) blast
    have "wait_for_generation_ready (\<lambda>_. sv2) ?rid sv1 = (Inl ''restore timeout'', sv2)"
      using r1(1) r2(1,3) by (simp add: wait_for_generation_ready_def)
    with run x Inr have "recover_runtime pc others us bid recovery ''restore timeout'' [] (fst (others (Suc 0)) d, sv2) = Some (res, d', sv')"
      by (simp add: hand_off_def window_def sv2_def [symmetric])
    from that [OF this r2] s2 r1(2) show thesis by simp
  qed
qed

lemma restore_failure_resumes_facts:
  assumes run: "restore_runtime pc others hex (d, sv) = Some (res, d', sv')"
    and w: "\<And>k c. c \<in> set (snd (others k)) \<Longrightarrow> handler_call c \<and> \<not> decides_restore rid c"
    and us: "\<And>ident us s. hex_to_hash_strict hex = Some ident \<Longrightarrow>
        read_union_runtime_state ident (d_store d) = (Inr us, s) \<Longrightarrow> us_runtime_id us = rid"
    and r: "map_of (sv_runtimes sv) rid = Some r" "0 < rt_pgid r" "pc_resume pc (rt_pgid r) = None"
  shows "\<not> rr_ok res"
    "sv' = sv \<or> sv_signals sv' = sv_signals sv @ [Frozen (rt_pgid r), Resumed (rt_pgid r)] \<and>
      (\<exists>r'. map_of (sv_runtimes sv') rid = Some r' \<and> \<not> rt_restoring r' \<and> rt_pgid r' = rt_pgid r \<and>
         rt_root_pid r' = rt_root_pid r \<and> rt_generation r' = rt_generation r)"
proof -
  have "\<not> rr_ok res \<and> (sv' = sv \<or> sv_signals sv' = sv_signals sv @ [Frozen (rt_pgid r), Resumed (rt_pgid r)] \<and>
      (\<exists>r'. map_of (sv_runtimes sv') rid = Some r' \<and> \<not> rt_restoring r' \<and> rt_pgid r' = rt_pgid r \<and>
         rt_root_pid r' = rt_root_pid r \<and> rt_generation r' = rt_generation r))"
  proof (rule restore_early [OF run])
    fix ident us s p recovery d0
    assume e: "hex_to_hash_strict hex = Some ident" "read_union_runtime_state ident (d_store d) = (Inr us, s)"
      "roll_and_hand_off pc others us (bc_id (ctx d p)) recovery (d0, sv) = Some (res, d', sv')"
    let ?bid = "bc_id (ctx d p)"
    have id: "us_runtime_id us = rid" by (rule us [OF e(1,2)])
    have h: "\<And>k c. c \<in> set (snd (others k)) \<Longrightarrow> handler_call c" using w by blast
    show ?thesis
    proof (rule begun_step [OF e(3)])
      fix r0 r1 sv2 x d2
      assume b: "map_of (sv_runtimes sv) (us_runtime_id us) = Some r0" "map_of (sv_runtimes sv2) (us_runtime_id us) = Some r1"
        "restoring_to (us_runtime_generation us + 1) (rt_pgid r0) r1"
        "sv_signals sv2 = sv_signals sv @ (if 0 < rt_pgid r0 then [Frozen (rt_pgid r0)] else [])"
        "(case x of Inl e \<Rightarrow> Some (restore_outcome us False [] e, d2, snd (abort_restore pc (us_runtime_id us) sv2))
          | Inr c \<Rightarrow> hand_off pc others us ?bid recovery (invalidate_fhs_for_branch ?bid d2, sv2)) = Some (res, d', sv')"
        "(\<forall>c \<in> set (snd (others 0)). \<not> decides_restore (us_runtime_id us) c) \<longrightarrow> \<not> rt_ready r1 \<and>
           rt_root_pid r1 = rt_root_pid r0 \<and> rt_generation r1 = rt_generation r0"
      have r0: "r0 = r" using b(1) r(1) id by simp
      have q: "\<not> rt_ready r1" "rt_root_pid r1 = rt_root_pid r" "rt_generation r1 = rt_generation r"
        using b(6) w id r0 by auto
      have g: "rt_pgid r1 = rt_pgid r" using b(3) q(1) r0 by (simp add: restoring_to_def)
      show ?thesis
      proof (cases x)
        case (Inl m)
        with b(5) have f: "res = restore_outcome us False [] m" "sv' = snd (abort_restore pc rid sv2)" using id by auto
        from abort_result [OF b(2) [unfolded id], of pc, unfolded g, OF r(2,3)] f b(4) r0 r(2) q show ?thesis by auto
      next
        case (Inr c)
        have ho: "hand_off pc others us ?bid recovery (invalidate_fhs_for_branch ?bid d2, sv2) = Some (res, d', sv')"
          using b(5) Inr by simp
        show ?thesis
        proof (rule hand_off_failure [OF b(2) b(3) q(1) _ ho])
          show "handler_call c \<and> \<not> decides_restore (us_runtime_id us) c" if "c \<in> set (snd (others k))" for k c
            using w [OF that] id by simp
          fix e' shown d1 sv1 r1'
          assume rec: "recover_runtime pc others us ?bid recovery e' shown (d1, sv1) = Some (res, d', sv')"
            "map_of (sv_runtimes sv1) (us_runtime_id us) = Some r1'"
            "restoring_to (us_runtime_generation us + 1) (rt_pgid r0) r1'" "\<not> rt_ready r1'"
            "rt_root_pid r1' = rt_root_pid r1" "rt_generation r1' = rt_generation r1" "sv_signals sv1 = sv_signals sv2"
          have w': "\<And>k c. c \<in> set (snd (others k)) \<Longrightarrow> handler_call c \<and> \<not> decides_restore (us_runtime_id us) c"
            using w id by blast
          from recover_signals(1,2) [OF rec(2,3,4) w' _ _ rec(1)] r(2,3) r0 recover_failed [OF rec(1)] rec(5-7) q b(4) id
          show ?thesis by simp
        qed
      qed
    qed (use h in \<open>auto simp: by_handlers_def\<close>)
  qed simp
  then show "\<not> rr_ok res"
    "sv' = sv \<or> sv_signals sv' = sv_signals sv @ [Frozen (rt_pgid r), Resumed (rt_pgid r)] \<and>
      (\<exists>r'. map_of (sv_runtimes sv') rid = Some r' \<and> \<not> rt_restoring r' \<and> rt_pgid r' = rt_pgid r \<and>
         rt_root_pid r' = rt_root_pid r \<and> rt_generation r' = rt_generation r)" by blast+
qed

end
