(* ===== verification/RuntimeRuns.thy ===== *)
theory RuntimeRuns
  imports RuntimeRoundtrip
begin

text \<open>
  Snapshots and restores that succeed: when no call on files fails and the runtime's handlers answer,
  \<open>snapshot_runtime\<close> and \<open>restore_runtime\<close> do what they were asked. What they promise on every
  path: a snapshot never stays pending, a failed restore resumes what it froze, a restore is handed to
  the runtime at most once and only after the file system was rolled back. And sample runs of both.
\<close>

section \<open>The store\<close>

definition all_shards :: "store \<Rightarrow> bool" where
  "all_shards s \<longleftrightarrow> (\<forall>x. x \<in> set (s_shards s))"

lemma all_shards_le: "all_shards s \<Longrightarrow> store_le s s' \<Longrightarrow> all_shards s'"
  by (auto simp: all_shards_def store_le_def)

lemma sync_one_ok:
  assumes "s_io s = []" "all_shards s" "find_object s h \<noteq> None"
  obtains s' where "fsync_pending [h] s = (None, s')" "s_io s' = []"
proof -
  obtain t where t: "fsync_objects [h] s = (True, t)" "s_io t = []" using fsync_objects_ok [of s "[h]"] assms by auto
  have "all_shards t" using all_shards_le [OF assms(2)] fsync_objects_effect [OF t(1)] same_data_le by blast
  then obtain u where "fsync_shard_dirs [h] t = (True, u)" "s_io u = []"
    using fsync_shard_dirs_ok [of t "[h]"] t(2) by (auto simp: all_shards_def)
  with t that show thesis by (auto simp: fsync_pending_def)
qed

text \<open>Without failing calls a union state is written and made durable.\<close>

lemma publish_ok:
  assumes io: "s_io s = []" and sh: "all_shards s"
    and nz: "object_hash H ''blob'' (blob_body (serialize_union_runtime_state us)) \<noteq> ZERO_HASH"
  obtains h s1 s2 where "write_union_runtime_state H us s = (Inr (h, us\<lparr>us_union_state_id := hash_to_hex h\<rparr>), s1)"
    "fsync_pending [h] s1 = (None, s2)" "s_io s2 = []"
proof -
  let ?b = "blob_body (serialize_union_runtime_state us)"
  obtain h s1 where w: "write_object H ''blob'' ?b s = (h, s1)" by fastforce
  have h: "h = object_hash H ''blob'' ?b" "s_io s1 = []" using write_object_ok [OF io, of H "''blob''" ?b] w by simp_all
  have "find_object s1 h \<noteq> None" using write_object_effect [OF w] h(1) nz by (auto simp: put_effect_def)
  with sync_one_ok [OF h(2) all_shards_le [OF sh write_object_le [OF w]]] obtain s2 where
    "fsync_pending [h] s1 = (None, s2)" "s_io s2 = []" by blast
  moreover have "write_union_runtime_state H us s = (Inr (h, us\<lparr>us_union_state_id := hash_to_hex h\<rparr>), s1)"
    using w h nz by (simp add: write_union_runtime_state_def write_blob_def)
  ultimately show thesis using that by blast
qed

text \<open>A checkpoint collides with no other object than its own.\<close>

lemma same_data_no_collision: "same_data s s' \<Longrightarrow> no_collision H tag b s \<Longrightarrow> no_collision H tag b s'"
  using same_data_rel [of s s' "object_hash H tag b"]
  by (auto simp: no_collision_def object_le_def split: option.splits)

lemma checkpoint_no_collision:
  assumes run: "checkpoint_locked H t flush l si pv b rp = (Inr c, rp')" and fl: "flush (rp_wt rp) (rp_store rp) = (True, wt1, s1)"
    and nc: "no_collision H tag x s1"
    and apart: "\<And>y. y \<in> set (tree_bodies H wt1) \<Longrightarrow> tree_hash H y \<noteq> object_hash H tag x"
      "\<And>y. object_hash H ''commit'' y \<noteq> object_hash H tag x"
  shows "no_collision H tag x (rp_store rp')"
proof -
  obtain tree wr lv s2 s3 s4 r5 s5 where st:
    "serialize_working_tree H wt1 s1 = ((Inr tree, wr, lv), s2)" "make_commit H t l si pv b tree (rp_refs rp) s2 = (Inr c, s3)"
    "sync_commit wt1 wr c s3 = (None, s4)" "write_ref b c (rp_refs rp) s4 = (True, r5, s5)" "rp_store rp' = s5"
    using run fl by (elim checkpoint_success) auto
  have 2: "no_collision H tag x s2" using serialize_no_collision [OF st(1) nc] apart(1) by blast
  obtain y s2' c' where m: "store_quiet s2 s2'" "write_object H ''commit'' y s2' = (c', s3)"
    using st(2) by (auto simp: make_commit_def write_commit_def Let_def dest!: read_ref_quiet split: prod.splits)
  have 3: "no_collision H tag x s3"
    using write_object_no_collision [OF m(2)] 2 store_quiet_no_collision [OF m(1)] apart(2) by blast
  let ?l = "filter_to_committed_graph (s_pending s3) wt1 wr c"
  obtain t1 where f: "fsync_objects ?l (s3\<lparr>s_pending := []\<rparr>) = (True, t1)" "fsync_shard_dirs ?l t1 = (True, s4)"
    using st(3) by (auto simp: sync_commit_def drain_pending_def Let_def split: prod.splits if_splits bool.splits)
  have "no_collision H tag x (s3\<lparr>s_pending := []\<rparr>)" using 3 by (simp add: no_collision_def)
  then have 4: "no_collision H tag x s4"
    using f fsync_objects_effect [OF f(1)] fsync_shard_dirs_effect [OF f(2)] same_data_no_collision by blast
  show ?thesis using store_quiet_no_collision [OF write_ref_effect(1) [OF st(4)]] 4 st(5) by simp
qed

text \<open>A checkpoint of a branch without open files succeeds when no call fails.\<close>

lemma checkpoint_by_name_ok:
  assumes i: "daemon_inv d" and n: "branch_by_name n d = Some p" and nm: "bc_name (ctx d p) = n" and f: "d_fhs d = []"
    and s: "s_io (d_store d) = []" "pend_ok (d_store d)"
    and nz: "\<And>x. object_hash H ''commit'' x \<noteq> ZERO_HASH"
      "\<And>x. x \<in> set (tree_bodies H (bc_wt (ctx d p))) \<Longrightarrow> tree_hash H x \<noteq> ZERO_HASH"
  obtains c rp where
    "checkpoint_locked H t (\<lambda>_ _. (True, bc_wt (ctx d p), d_store d)) l (d_session d) (d_policy d) n (branch_repo d p) = (Inr c, rp)"
    "s_io (rp_store rp) = []" "checkpoint_branch_by_name H t n l d = Some (Inr c, after_checkpoint p [] rp d)"
proof -
  have e: "rp_wt (branch_repo d p) = bc_wt (ctx d p)" "rp_store (branch_repo d p) = d_store d" by (simp_all add: branch_repo_def)
  obtain c rp where r:
    "checkpoint_locked H t (\<lambda>_ _. (True, bc_wt (ctx d p), d_store d)) l (d_session d) (d_policy d) n (branch_repo d p) = (Inr c, rp)"
    "s_io (rp_store rp) = []"
    using checkpoint_ok [where flush = "\<lambda>_ _. (True, bc_wt (ctx d p), d_store d)" and rp = "branch_repo d p" and H = H and t = t
        and l = l and si = "d_session d" and pv = "d_policy d" and b = n, OF refl s nz] by auto
  have "checkpoint_ctx H t l n p d = Some (Inr c, after_checkpoint p [] rp d)"
    using r(1) by (simp add: checkpoint_ctx_def Let_def f after_checkpoint_def branch_repo_def)
  then have "checkpoint_branch_by_name H t n l d = Some (Inr c, after_checkpoint p [] rp d)"
    by (simp add: checkpoint_branch_by_name_def n nm)
  with r that show thesis by blast
qed

section \<open>Snapshots and restores that succeed\<close>

lemma snapshot_succeeds:
  assumes p: "pc_supported pc = None"
    and st: "runtime_status_of pc (sq_runtime_id rq) sv = Inr st" "st_cooperative st" "branch_by_name (st_branch st) d \<noteq> None"
    and b: "begin_snapshot rq sv = (Inr op, sv1)"
    and w: "wait_for_boundary (\<lambda>_. sv_run pc (snd (others 0)) sv1) (sq_runtime_id rq) sv1 = (Inr bid, sv2)"
    and cp: "checkpoint_branch_by_name H t1 (st_branch st) (snapshot_label rq) (fst (others 0) d) = Some (Inr c, d2)"
    and rel: "release_boundary_for_snapshot bid (sv_run pc (snd (others 1)) sv2) = (Inr a, sv3)"
    and tr: "wait_for_template_ready (\<lambda>_. sv_run pc (snd (others 2)) sv3) (sq_runtime_id rq) sv3 = (Inr u, sv4)"
    and d3: "d3 = fst (others 2) (fst (others 1) d2)" "s_io (d_store d3) = []" "all_shards (d_store d3)"
      "object_hash H ''blob'' (blob_body (serialize_union_runtime_state (snapshot_union st rq c (ba_template_id a) t2))) \<noteq> ZERO_HASH"
    and t: "map_of (sv_templates (sv_run pc (snd (others 3)) sv4)) (ba_template_id a) \<noteq> None"
  shows "\<exists>res h s. snapshot_runtime H pc t1 t2 others rq (d, sv) = Some (res, fst (others 3) (d3\<lparr>d_store := s\<rparr>),
       snd (cancel_snapshot (sq_runtime_id rq) (snd (attach_union_state (ba_template_id a) (hash_to_hex h) c
         (sv_run pc (snd (others 3)) sv4))))) \<and>
     sn_ok res \<and> sn_fs_commit res = c \<and> sn_template_id res = ba_template_id a \<and> sn_union_state_id res = hash_to_hex h \<and>
     s_io s = []"
proof -
  let ?us = "snapshot_union st rq c (ba_template_id a) t2"
  obtain h s1 s2 where s: "write_union_runtime_state H ?us (d_store d3) = (Inr (h, ?us\<lparr>us_union_state_id := hash_to_hex h\<rparr>), s1)"
    "fsync_pending [h] s1 = (None, s2)" "s_io s2 = []"
    by (rule publish_ok [OF d3(2-4)])
  obtain sv5 where at: "attach_union_state (ba_template_id a) (hash_to_hex h) c (sv_run pc (snd (others 3)) sv4) = (Inr (), sv5)"
    using t by (auto simp: attach_union_state_def)
  have pub: "publish_snapshot H pc t2 others rq st c (ba_template_id a) (d3, sv4) =
     (\<lparr>sn_ok = True, sn_runtime_id = sq_runtime_id rq, sn_template_id = ba_template_id a, sn_union_state_id = hash_to_hex h,
        sn_fs_commit = c, sn_generation = st_generation st,
        sn_eligibility = (if case template_status_of pc (ba_template_id a) sv4 of Inl _ \<Rightarrow> False | Inr ts \<Rightarrow> ts_alive ts
          then LiveRuntimeRestorable else FsOnly), sn_error = []\<rparr>,
      fst (others 3) (d3\<lparr>d_store := s2\<rparr>),
      snd (cancel_snapshot (sq_runtime_id rq) sv5))"
    using s by (simp add: publish_snapshot_def Let_def window_def at)
  have w4: "sv_run pc (snd (others 2)) sv3 = sv4" "sv_run pc (snd (others 0)) sv1 = sv2"
    using tr w by (auto simp: wait_for_template_ready_def wait_for_boundary_def Let_def split: if_splits option.splits)
  have "await_template H pc t2 others rq st c bid (window pc others 1 (d2, sv2)) =
      publish_snapshot H pc t2 others rq st c (ba_template_id a) (d3, sv4)"
    using rel tr by (simp add: await_template_def Let_def window_def w4(1) d3(1) del: sv_run.simps)
  then have "await_boundary H pc t1 t2 others rq st (d, sv1) =
      Some (publish_snapshot H pc t2 others rq st c (ba_template_id a) (d3, sv4))"
    using w cp by (simp add: await_boundary_def Let_def window_def w4(2) del: sv_run.simps)
  then have "snapshot_runtime H pc t1 t2 others rq (d, sv) =
      Some (publish_snapshot H pc t2 others rq st c (ba_template_id a) (d3, sv4))"
    using p st b by (auto simp: snapshot_runtime_def Let_def)
  with pub s(3) show ?thesis by (auto simp: at)
qed

lemma restore_succeeds:
  assumes p: "pc_supported pc = None" and x: "hex_to_hash_strict hex = Some ident" and io: "s_io (d_store d) = []"
    and us: "read_union_runtime_state ident (d_store d) = (Inr us, d_store d)"
    and ts: "template_status_of pc (us_template_id us) sv = Inr ts" "ts_alive ts"
    and br: "branch_by_name (us_branch us) d = Some q" "ref_of (d_refs d) (us_branch us) = Some recovery" "recovery \<noteq> ZERO_HASH"
      "payload ''commit'' (d_store d) recovery \<noteq> None" "payload ''commit'' (d_store d) (us_fs_commit us) \<noteq> None"
    and b: "begin_restore pc \<lparr>ri_runtime_id = us_runtime_id us, ri_template_id = us_template_id us,
         ri_target = us_runtime_generation us + 1\<rparr> sv = (Inr (), sv1)"
    and roll: "rollback_branch (bc_id (ctx d q)) (us_branch us) (us_fs_commit us) (fst (others 0) d) = Some (Inr c, d2)"
  shows "restore_runtime pc others hex (d, sv) =
      hand_off pc others us (bc_id (ctx d q)) recovery (invalidate_fhs_for_branch (bc_id (ctx d q)) d2, sv_run pc (snd (others 0)) sv1)"
    "publish_restore (us_runtime_id us) (sv_run pc (snd (others 0)) sv1) = (Inr (), sv2) \<Longrightarrow>
     wait_for_generation_ready (\<lambda>_. sv_run pc (snd (others 1)) sv2) (us_runtime_id us) sv2 = (Inr (), sv3) \<Longrightarrow>
     retire_pending_generation pc (us_runtime_id us) (sv_run pc (snd (others 3)) sv3) = (Inr e, sv4) \<Longrightarrow>
     \<exists>res d'. restore_runtime pc others hex (d, sv) = Some (res, d', sv4) \<and> rr_ok res"
proof -
  have rc: "read_commit h (d_store d) = (payload ''commit'' (d_store d) h, d_store d)" for h
    using read_object_ok [OF io] by (simp add: read_commit_def)
  have cc: "current_commit (us_branch us) (d_refs d) (d_store d) = (recovery, d_store d)"
    using br(2) by (simp add: current_commit_def read_ref_ok [OF io])
  have d: "d\<lparr>d_store := d_store d\<rparr> = d" by simp
  show 1: "restore_runtime pc others hex (d, sv) =
      hand_off pc others us (bc_id (ctx d q)) recovery (invalidate_fhs_for_branch (bc_id (ctx d q)) d2, sv_run pc (snd (others 0)) sv1)"
    using p x us ts br b roll
    by (auto simp: restore_runtime_def Let_def d cc rc roll_and_hand_off_def window_def simp del: sv_run.simps)
  show "\<exists>res d'. restore_runtime pc others hex (d, sv) = Some (res, d', sv4) \<and> rr_ok res"
    if pub: "publish_restore (us_runtime_id us) (sv_run pc (snd (others 0)) sv1) = (Inr (), sv2)"
      and w: "wait_for_generation_ready (\<lambda>_. sv_run pc (snd (others 1)) sv2) (us_runtime_id us) sv2 = (Inr (), sv3)"
      and r: "retire_pending_generation pc (us_runtime_id us) (sv_run pc (snd (others 3)) sv3) = (Inr e, sv4)"
  proof -
    have w3: "sv3 = sv_run pc (snd (others 1)) sv2" using w by (auto simp: wait_for_generation_ready_def Let_def split: if_splits option.splits)
    show ?thesis unfolding 1 using pub w r
      by (simp add: hand_off_def window_def retire_prior_def w3 [symmetric, simplified] del: sv_run.simps)
  qed
qed

text \<open>A rollback that succeeded has read its commit.\<close>

lemma rollback_branch_payload:
  assumes "s_io (d_store e) = []" "rollback_branch bid name c e = Some (Inr c, e')"
  shows "payload ''commit'' (d_store e) c \<noteq> None"
proof -
  obtain q where q: "branch_by_name name e = Some q" using assms(2) by (auto simp: rollback_branch_def split: option.splits)
  obtain h t where t: "resolve_target (hash_to_hex c) name (d_refs e) (d_store e) = (h, t)" by fastforce
  have te: "t = d_store e" by (rule resolve_target_ok [OF assms(1) t])
  have "read_commit h (d_store e) = (payload ''commit'' (d_store e) h, d_store e)"
    using read_object_ok [OF assms(1)] by (simp add: read_commit_def)
  then show ?thesis using assms(2) t q
    by (auto simp: rollback_branch_def rollback_locked_def te Let_def split: option.splits if_splits sum.splits prod.splits)
qed

section \<open>What snapshots and restores promise\<close>

text \<open>
  C18: However a snapshot of a runtime ends, with success, an error or a time-out, at whatever point
  and whatever the handlers of other requests do meanwhile, the next request to begin one is
  accepted: no path of \<open>snapshot_runtime\<close> leaves the runtime with a pending snapshot, as long as the
  handler of the runtime's boundary does not give up waiting before the checkpoint ended.
\<close>

theorem snapshot_unblocks:
  assumes s: "sv_reach sv" and r: "map_of (sv_runtimes sv) (sq_runtime_id rq) = Some r" "\<not> rt_pending r"
    and nw: "no_wrap pc (CBeginSnapshot rq # snd (others 0) @ snd (others 1)) sv"
    and bw: "by_handlers others"
    and wait: "\<And>bid. CTake bid \<notin> set (snd (others 0)) \<union> set (snd (others 1))"
    and run: "snapshot_runtime H pc t1 t2 others rq (d, sv) = Some (res, d', sv')"
    and again: "sq_runtime_id again = sq_runtime_id rq"
  shows "\<exists>op sv2. begin_snapshot again sv' = (Inr op, sv2)"
proof -
  note w = by_handlersD [OF bw]
  have same: ?thesis if "sv' = sv"
    using that r again by (intro can_snapshot_begin) (simp add: can_snapshot_def)
  obtain op sv1 where b: "begin_snapshot rq sv = (Inr op, sv1)"
    using can_snapshot_begin [of rq sv] r by (auto simp: can_snapshot_def)
  have "sup_inv sv1" "no_wrap pc (snd (others 0) @ snd (others 1)) sv1"
    using begin_snapshot_inv [OF sv_reach_inv [OF s], of rq] nw b by auto
  note clears = boundary_clears [OF b this bw wait]
  show ?thesis
  proof (cases "\<exists>st. await_boundary H pc t1 t2 others rq st (d, sv1) = Some (res, d', sv')")
    case True
    then show ?thesis using clears again by (intro can_snapshot_begin) auto
  next
    case False
    then have "sv' = sv" using run b
      by (auto simp: snapshot_runtime_def Let_def split: option.splits sum.splits if_splits)
    then show ?thesis by (rule same)
  qed
qed

text \<open>
  C38: When the handler of the boundary has given up, so that the boundary is no longer registered,
  and the checkpoint then fails, the snapshot is never ended: releasing the boundary with the error
  is what clears the pending snapshot on this path, it fails because the boundary is unknown, and
  its failure is ignored. Every later request to snapshot the runtime is refused, whatever else
  happens, since only \<open>snapshot_runtime\<close> itself cancels.
\<close>

theorem failed_checkpoint_blocks_snapshots:
  assumes p: "pc_supported pc = None" and st: "runtime_status_of pc (sq_runtime_id rq) sv = Inr st" "st_cooperative st"
      "branch_by_name (st_branch st) d \<noteq> None"
    and b: "begin_snapshot rq sv = (Inr op, sv1)"
    and bw: "by_handlers others"
    and seen: "boundaries_seen pc (sq_runtime_id rq) (snd (others 0)) sv1 = [bid]"
    and gone: "map_of (sv_boundaries (sv_run pc (snd (others 0) @ snd (others 1)) sv1)) bid = None"
    and cp: "checkpoint_branch_by_name H t1 (st_branch st) (snapshot_label rq) (fst (others 0) d) = Some (Inl e, d2)"
    and later: "\<And>c. c \<in> set cs \<Longrightarrow> \<not> ends_snapshot (sq_runtime_id rq) c" "sq_runtime_id other = sq_runtime_id rq"
  shows "\<exists>d' sv'. snapshot_runtime H pc t1 t2 others rq (d, sv) = Some (snapshot_failed (sq_runtime_id rq) e, d', sv') \<and>
     fst (begin_snapshot other (sv_run pc cs sv')) = Inl ''snapshot already in progress''"
proof -
  note w = by_handlersD [OF bw]
  let ?rid = "sq_runtime_id rq"
  obtain r1 where r1: "map_of (sv_runtimes sv1) ?rid = Some r1" "rt_pending r1" "\<not> rt_observed r1"
    using begun_snapshot(1) [OF b] by blast
  define sv2 where "sv2 = sv_run pc (snd (others 0)) sv1"
  define sv3 where "sv3 = sv_run pc (snd (others (Suc 0))) sv2"
  obtain r2 where r2: "map_of (sv_runtimes sv2) ?rid = Some r2" "rt_pending r2" "rt_observed r2" "rt_pending_boundary r2 = bid"
    using run_pending [OF r1(1,2), of "snd (others 0)" pc] w handler_ends r1(3) seen unfolding sv2_def by auto
  obtain r3 where r3: "map_of (sv_runtimes sv3) ?rid = Some r3" "rt_pending r3"
    using known_run [OF r2(1,2), of "snd (others (Suc 0))" pc] w unfolding sv3_def by blast
  obtain q where q: "branch_by_name (st_branch st) d = Some q" using st(3) by blast
  have y: "wait_for_boundary (\<lambda>_. sv2) ?rid sv1 = (Inr bid, sv2)"
    using r1 r2 by (simp add: wait_for_boundary_def)
  have g: "release_boundary_with_error bid e sv3 = (Inl ''unknown boundary'', sv3)"
    using gone by (simp add: release_boundary_with_error_def sv3_def sv2_def sv_run_append)
  have "snapshot_runtime H pc t1 t2 others rq (d, sv) = Some (snapshot_failed ?rid e, fst (others 1) d2, sv3)"
    using p st(1,2) q b cp y g
    by (simp add: snapshot_runtime_def await_boundary_def Let_def window_def sv2_def [symmetric] sv3_def [symmetric])
  moreover obtain r4 where "map_of (sv_runtimes (sv_run pc cs sv3)) ?rid = Some r4" "rt_pending r4"
    using run_pending [OF r3, of cs pc] later(1) by blast
  ultimately show ?thesis using later(2) by (simp add: begin_snapshot_def)
qed

text \<open>
  C9: A snapshot that reports success has, in this order: stopped the cooperative runtime at a
  boundary; checkpointed its branch, with every unsaved write flushed first, into the commit it
  reports; and after the template reported ready written the union state that names this commit,
  the branch, the runtime's generation and the template under the id it reports, made it durable,
  and published it with the template, which is registered with this id and commit.
\<close>

theorem snapshot_publishes:
  assumes run: "snapshot_runtime H pc t1 t2 others rq (d, sv) = Some (res, d', sv')" "sn_ok res"
    and bw: "by_handlers others"
  shows "\<exists>st d2 us h dw tm. runtime_status_of pc (sq_runtime_id rq) sv = Inr st \<and> st_cooperative st \<and>
     boundaries_seen pc (sq_runtime_id rq) (snd (others 0)) (snd (begin_snapshot rq sv)) \<noteq> [] \<and>
     checkpoint_branch_by_name H t1 (st_branch st) (snapshot_label rq) (fst (others 0) d) = Some (Inr (sn_fs_commit res), d2) \<and>
     us = snapshot_union st rq (sn_fs_commit res) (sn_template_id res) t2 \<and> sn_union_state_id res = hash_to_hex h \<and>
     sn_generation res = st_generation st \<and> d' = fst (others 3) dw \<and> durable (d_store dw) h \<and>
     store_le (d_store (fst (others 2) (fst (others 1) d2))) (d_store dw) \<and>
     (no_collision H ''blob'' (blob_body (serialize_union_runtime_state us)) (d_store (fst (others 2) (fst (others 1) d2))) \<longrightarrow>
        payload ''blob'' (d_store dw) h = Some (blob_body (serialize_union_runtime_state us))) \<and>
     map_of (sv_templates sv') (sn_template_id res) = Some tm \<and> tm_published tm \<and>
     tm_union_state_id tm = sn_union_state_id res \<and> tm_fs_commit tm = sn_fs_commit res"
  by (rule snapshot_success [OF run bw])

text \<open>
  C7: A restore that reports success has rolled the branch of the union state back, durably, to the
  commit of a rollback to the union state's commit, while the runtime's process group was stopped;
  the runtime's generation is the one after the union state's; and of the process groups only the
  one that was active before was signalled, stopped first and terminated at the end. It holds
  whatever the handlers do meanwhile.
\<close>

theorem restore_exact:
  assumes run: "restore_runtime pc others hex (d, sv) = Some (res, d', sv')" "rr_ok res"
    and bw: "by_handlers others"
  shows "\<exists>ident us s r r' bid d0 c d2. hex_to_hash_strict hex = Some ident \<and>
     read_union_runtime_state ident (d_store d) = (Inr us, s) \<and>
     only_io (d_store d) (d_store d0) \<and> d0 = d\<lparr>d_store := d_store d0\<rparr> \<and> branch_by_name (us_branch us) d \<noteq> None \<and>
     rollback_branch bid (us_branch us) (us_fs_commit us) (fst (others 0) d0) = Some (Inr c, d2) \<and>
     durable_ref (d_refs d2) (us_branch us) = Some c \<and>
     d' = fst (others 3) (fst (others (Suc 0)) (invalidate_fhs_for_branch bid d2)) \<and>
     map_of (sv_runtimes sv) (us_runtime_id us) = Some r \<and> map_of (sv_runtimes sv') (us_runtime_id us) = Some r' \<and>
     rt_generation r' = us_runtime_generation us + 1 \<and> \<not> rt_restoring r' \<and> rt_retire_pgid r' = 0 \<and>
     (0 < rt_pgid r \<longrightarrow> pc_terminate pc (rt_pgid r) = None \<longrightarrow>
        sv_signals sv' = sv_signals sv @ [Frozen (rt_pgid r), Terminated (rt_pgid r)])"
  by (rule restore_success [OF run bw])

text \<open>
  C19: When no generation of the runtime reports ready while a restore runs, the restore fails, and
  it leaves no process group stopped: either nothing was signalled, or the active group was stopped
  and then continued, and it is still the runtime's, with its process and generation, and no restore
  is pending. Whatever calls on files fail, and whatever the handlers do meanwhile.
\<close>

theorem restore_failure_resumes:
  assumes run: "restore_runtime pc others hex (d, sv) = Some (res, d', sv')"
    and w: "\<And>k c. c \<in> set (snd (others k)) \<Longrightarrow> handler_call c \<and> \<not> decides_restore rid c"
    and us: "\<And>ident us s. hex_to_hash_strict hex = Some ident \<Longrightarrow>
        read_union_runtime_state ident (d_store d) = (Inr us, s) \<Longrightarrow> us_runtime_id us = rid"
    and r: "map_of (sv_runtimes sv) rid = Some r" "0 < rt_pgid r" "pc_resume pc (rt_pgid r) = None"
  shows "(\<not> rr_ok res) \<and>
     (sv' = sv \<or> sv_signals sv' = sv_signals sv @ [Frozen (rt_pgid r), Resumed (rt_pgid r)] \<and>
      (\<exists>r'. map_of (sv_runtimes sv') rid = Some r' \<and> \<not> rt_restoring r' \<and> rt_pgid r' = rt_pgid r \<and>
         rt_root_pid r' = rt_root_pid r \<and> rt_generation r' = rt_generation r))"
  by (rule conjI; rule restore_failure_resumes_facts [OF run _ _ r]; (rule w | rule us); assumption)

text \<open>
  C1: The union state that a snapshot reports brings the file system back. When the snapshot of a
  runtime succeeded and later, in any store that lost nothing and with no failing call, a restore of
  the state it reported succeeds, the branch then has, path by path, the tree that the snapshot's
  checkpoint saved with every unsaved write flushed (only directories have their new hashes), its
  durable ref names the commit that the snapshot reported, and the runtime runs as the generation
  after the one that was snapshotted.
\<close>

theorem snapshot_restore_roundtrip:
  assumes snap: "snapshot_runtime H pc t1 t2 others rq (d, sv) = Some (res, d', sv')" "sn_ok res"
    and bw: "by_handlers others"
    and st: "runtime_status_of pc (sq_runtime_id rq) sv = Inr st" and b: "b = st_branch st"
    and d0: "d0 = fst (others 0) d" "daemon_inv d0" "branch_by_name b d0 = Some p"
      "flush_fhs_for_branch H (bc_id (ctx d0 p)) d0 = Some (True, d1)"
    and ok: "tree_ok (bc_wt (ctx d1 p))" "trees_apart H (d_store d1) (set (tree_bodies H (bc_wt (ctx d1 p))))"
      "commits_apart H (d_store d1) (set (tree_bodies H (bc_wt (ctx d1 p))))
         (checkpoint_bodies H t1 (snapshot_label rq) (d_session d0) (d_policy d0) b (d_refs d0) (bc_wt (ctx d1 p)))"
    and grow: "\<And>k x. store_le (d_store x) (d_store (fst (others k) x))"
    and union: "us = snapshot_union st rq (sn_fs_commit res) (sn_template_id res) t2"
      "\<And>d2. checkpoint_branch_by_name H t1 b (snapshot_label rq) d0 = Some (Inr (sn_fs_commit res), d2) \<Longrightarrow>
         no_collision H ''blob'' (blob_body (serialize_union_runtime_state us)) (d_store (fst (others 2) (fst (others 1) d2)))"
      "length (serialize_union_runtime_state us) < 2 ^ 64"
    and e: "daemon_inv e" "store_le (d_store d') (d_store e)" "s_io (d_store e) = []"
    and rest: "restore_runtime pc others2 (sn_union_state_id res) (e, sve) = Some (res2, e', sve')" "rr_ok res2"
    and w2: "by_handlers others2" "\<And>k. fst (others2 k) = id"
  shows "\<exists>q. branch_by_name b e' = Some q \<and> durable_ref (d_refs e') b = Some (sn_fs_commit res) \<and>
     (\<forall>path. rel_option same_entry (lookup_raw path (bc_wt (ctx d1 p))) (lookup_raw path (bc_wt (ctx e' q)))) \<and>
     map_option rt_generation (map_of (sv_runtimes sve') (sq_runtime_id rq)) = Some (sn_generation res + 1)"
proof -
  note w = by_handlersD [OF bw]
  obtain d2 h dw where s: "checkpoint_branch_by_name H t1 b (snapshot_label rq) d0 = Some (Inr (sn_fs_commit res), d2)"
    "sn_union_state_id res = hash_to_hex h" "sn_generation res = st_generation st" "d' = fst (others 3) dw"
    "store_le (d_store (fst (others 2) (fst (others 1) d2))) (d_store dw)"
    "no_collision H ''blob'' (blob_body (serialize_union_runtime_state us)) (d_store (fst (others 2) (fst (others 1) d2))) \<longrightarrow>
       payload ''blob'' (d_store dw) h = Some (blob_body (serialize_union_runtime_state us))"
    using snapshot_success [OF snap bw] st b d0(1) union(1) by auto
  have le: "store_le (d_store dw) (d_store e)" using grow [of dw 3] e(2) s(4) store_le_trans by auto
  then have "payload ''blob'' (d_store e) h = Some (blob_body (serialize_union_runtime_state us))"
    using s(6) union(2) [OF s(1)] payload_mono by blast
  from read_blob_ok [OF e(3) this union(3)]
  have ru: "read_union_runtime_state h (d_store e) = (Inr (us\<lparr>us_union_state_id := hash_to_hex h\<rparr>), d_store e)"
    by (simp add: read_union_runtime_state_def union_codec)
  have f: "us_branch us = b" "us_fs_commit us = sn_fs_commit res" "us_runtime_id us = sq_runtime_id rq"
    "us_runtime_generation us = sn_generation res" using union(1) b s(3) by (simp_all add: snapshot_union_def)
  obtain bid e0 c e2 r' where r: "only_io (d_store e) (d_store e0)" "e0 = e\<lparr>d_store := d_store e0\<rparr>" "branch_by_name b e \<noteq> None"
    "rollback_branch bid b (sn_fs_commit res) e0 = Some (Inr c, e2)" "e' = invalidate_fhs_for_branch bid e2"
    "map_of (sv_runtimes sve') (sq_runtime_id rq) = Some r'" "rt_generation r' = sn_generation res + 1"
    using restore_success [OF rest w2(1)] ru f by (auto simp: s(2) w2(2))
  have e0: "e0 = e" using only_io_empty [OF r(1) e(3)] r(2) by simp
  obtain q where q: "branch_by_name b e = Some q" using r(3) by blast
  have "store_le (d_store d2) (d_store e)"
    using grow [of d2 1] grow [of "fst (others 1) d2" 2] s(5) le by (meson store_le_trans)
  from checkpoint_then_rollback [OF d0(2-4) ok s(1) q by_name_length [OF e(1) q] this e(3), of bid]
  have t: "durable_ref (d_refs e2) b = Some (sn_fs_commit res)"
    "\<forall>path. rel_option same_entry (lookup_raw path (bc_wt (ctx d1 p))) (lookup_raw path (bc_wt (ctx e2 q)))"
    using r(4) e0 by auto
  have n: "branch_by_name b e2 = Some q"
    using q r(4) e0 by (auto simp: rollback_branch_def Let_def branch_by_name_def upd_ctx_def invalidate_fhs_for_branch_def
        split: option.splits prod.splits if_splits)
  show ?thesis
    using t n r(6,7)
    by (intro exI [of _ q]) (simp add: r(5) invalidate_fhs_for_branch_def branch_by_name_def ctx_def cong: option.case_cong)
qed

section \<open>A sample run\<close>

definition runtime_daemon :: daemon where
  "runtime_daemon = sample_daemon\<lparr>d_store := (rp_store sample_repo)\<lparr>s_shards := map of_nat [0..<256]\<rparr>\<rparr>"

definition snap_windows :: windows where
  "snap_windows k = (id, if k = 0 then [CObserve ''r'' ''k'' 10 1 ''manual'']
     else if k = 2 then [CTake ''bd-0000000000000001'', CTemplateReady ''r'' ''k'' ''tmpl-0000000000000001'' 20 20 1] else [])"

definition restore_windows :: windows where
  "restore_windows k = (id, if k = 1 then [CPoll ''tmpl-0000000000000001'' ''k'', CGenerationReady ''r'' ''k'' 30 30 2] else [])"

definition snap_start :: supervisor where
  "snap_start = sv_run willing [CRegister sample_create] new_supervisor"

definition snap_begun :: supervisor where
  "snap_begun = snd (begin_snapshot sample_snapshot snap_start)"

definition snap_observed :: supervisor where
  "snap_observed = sv_run willing (snd (snap_windows 0)) snap_begun"

definition snap_released :: supervisor where
  "snap_released = snd (release_boundary_for_snapshot ''bd-0000000000000001'' snap_observed)"

definition snap_parked :: supervisor where
  "snap_parked = sv_run willing (snd (snap_windows 2)) snap_released"

definition snap_end :: "string \<Rightarrow> hash \<Rightarrow> supervisor" where
  "snap_end u c = snd (cancel_snapshot ''r'' (snd (attach_union_state ''tmpl-0000000000000001'' u c snap_parked)))"

definition snap_status :: runtime_status where
  "snap_status = \<lparr>st_runtime_id = ''r'', st_branch = ''main'', st_root_pid = 10, st_pgid = 10, st_generation = 1,
     st_command_ref = [], st_cooperative = True, st_eligibility = MetadataOnly, st_templates = []\<rparr>"

definition snap_union :: union_runtime_state where
  "snap_union = snapshot_union snap_status sample_snapshot 100 ''tmpl-0000000000000001'' 10"

lemma all_shards_sample: "all_shards (s\<lparr>s_shards := map of_nat [0..<256]\<rparr>)"
proof -
  have "x \<in> set (map of_nat [0..<256])" for x :: u8
  proof -
    have "unat x < 256" using unat_lt2p [of x] by simp
    then show ?thesis by (auto intro!: image_eqI [of _ _ "unat x"])
  qed
  then show ?thesis by (simp add: all_shards_def)
qed

lemma runtime_daemon_ok:
  "daemon_inv runtime_daemon" "branch_by_name ''main'' runtime_daemon = Some 0" "bc_id (ctx runtime_daemon 0) = 0"
  "bc_name (ctx runtime_daemon 0) = ''main''" "bc_wt (ctx runtime_daemon 0) = rp_wt sample_repo" "d_fhs runtime_daemon = []"
  "flush_fhs_for_branch H 0 runtime_daemon = Some (True, runtime_daemon)" "s_io (d_store runtime_daemon) = []"
  "pend_ok (d_store runtime_daemon)" "all_shards (d_store runtime_daemon)"
  "trees_apart tag_hash (d_store runtime_daemon) (set (tree_bodies tag_hash (rp_wt sample_repo)))"
  "commits_apart tag_hash (d_store runtime_daemon) (set (tree_bodies tag_hash (rp_wt sample_repo))) Y"
  "no_collision H tag b (d_store runtime_daemon)"
proof -
  show "daemon_inv runtime_daemon" using sample_daemon_ok(1) by (simp add: runtime_daemon_def inv_store)
  show "trees_apart tag_hash (d_store runtime_daemon) (set (tree_bodies tag_hash (rp_wt sample_repo)))"
    using sample_repo_ok(4) by (simp add: runtime_daemon_def trees_apart_def no_collision_def find_object_def)
  show "commits_apart tag_hash (d_store runtime_daemon) (set (tree_bodies tag_hash (rp_wt sample_repo))) Y"
    using sample_repo_ok(3) [of Y] by (simp add: runtime_daemon_def commits_apart_def no_collision_def find_object_def)
  show "all_shards (d_store runtime_daemon)" using all_shards_sample by (simp add: runtime_daemon_def)
qed (simp_all add: runtime_daemon_def sample_daemon_def branch_by_name_def daemon_new_def ctx_def branch_new_def
    flush_fhs_for_branch_def branch_of_id_def upd_ctx_def sample_repo_def new_store_def pend_ok_def no_collision_def find_object_def)

lemma blob_tag [simp]: "object_hash tag_hash ''blob'' b = 99"
  by (simp add: object_hash_def tag_hash_def bytes_of_def byte_of_char_def)

lemma runtime_checkpointed:
  obtains d2 where "checkpoint_branch_by_name tag_hash 9 ''main'' (snapshot_label sample_snapshot) runtime_daemon = Some (Inr 100, d2)"
    "s_io (d_store d2) = []" "all_shards (d_store d2)" "no_collision tag_hash ''blob'' b (d_store d2)"
    "daemon_inv d2" "branch_by_name ''main'' d2 = Some 0" "ref_of (d_refs d2) ''main'' = Some 100"
proof -
  let ?l = "snapshot_label sample_snapshot"
  obtain c rp where
    cp: "checkpoint_locked tag_hash 9 (\<lambda>_ _. (True, bc_wt (ctx runtime_daemon 0), d_store runtime_daemon)) ?l (d_session runtime_daemon)
       (d_policy runtime_daemon) ''main'' (branch_repo runtime_daemon 0) = (Inr c, rp)"
      "s_io (rp_store rp) = []"
    and d: "checkpoint_branch_by_name tag_hash 9 ''main'' ?l runtime_daemon = Some (Inr c, after_checkpoint 0 [] rp runtime_daemon)"
    by (rule checkpoint_by_name_ok [where H = tag_hash and l = ?l and t = 9, OF runtime_daemon_ok(1,2,4,6,8,9)]) auto
  have c: "c = 100" using cp(1)
    by (auto elim!: checkpoint_success dest!: make_commit_hash)
  have st: "d_store (after_checkpoint 0 [] rp runtime_daemon) = rp_store rp"
    "branch_by_name ''main'' (after_checkpoint 0 [] rp runtime_daemon) = branch_by_name ''main'' runtime_daemon"
    by (simp_all add: after_checkpoint_def upd_ctx_def branch_by_name_def cong: option.case_cong)
  show thesis
  proof (rule that [OF d [unfolded c]])
    show "s_io (d_store (after_checkpoint 0 [] rp runtime_daemon)) = []" using cp(2) st by simp
    show "all_shards (d_store (after_checkpoint 0 [] rp runtime_daemon))"
      using all_shards_le [OF runtime_daemon_ok(10) checkpoint_grows(1) [OF cp(1)]] st by simp
    show "no_collision tag_hash ''blob'' b (d_store (after_checkpoint 0 [] rp runtime_daemon))"
      using checkpoint_no_collision [OF cp(1) refl runtime_daemon_ok(13)] st by simp
    show "daemon_inv (after_checkpoint 0 [] rp runtime_daemon)"
      using checkpoint_by_name_inv [OF runtime_daemon_ok(1), of tag_hash 9 "''main''" ?l] d by simp
    show "branch_by_name ''main'' (after_checkpoint 0 [] rp runtime_daemon) = Some 0"
      using st runtime_daemon_ok(2) by simp
    have "checkpoint_ctx tag_hash 9 ?l ''main'' 0 runtime_daemon = Some (Inr c, after_checkpoint 0 [] rp runtime_daemon)"
      using d by (simp add: checkpoint_branch_by_name_def runtime_daemon_ok)
    from checkpoint_ctx_frame(3) [OF runtime_daemon_ok(1) by_name_length [OF runtime_daemon_ok(1,2)] this refl]
    show "ref_of (d_refs (after_checkpoint 0 [] rp runtime_daemon)) ''main'' = Some 100" by (simp add: c)
  qed
qed

text \<open>The registry during the sample snapshot.\<close>

lemma snap_registry:
  "runtime_status_of willing ''r'' snap_start = Inr snap_status"
  "begin_snapshot sample_snapshot snap_start = (Inr ''op-0000000000000001'', snap_begun)"
  "wait_for_boundary (\<lambda>_. sv_run willing (snd (snap_windows 0)) snap_begun) ''r'' snap_begun = (Inr ''bd-0000000000000001'', snap_observed)"
  "release_boundary_for_snapshot ''bd-0000000000000001'' (sv_run willing (snd (snap_windows 1)) snap_observed) =
     (Inr \<lparr>ba_action = ''snapshot'', ba_operation_id = ''op-0000000000000001'', ba_template_id = ''tmpl-0000000000000001'', ba_error = []\<rparr>,
      snap_released)"
  "wait_for_template_ready (\<lambda>_. sv_run willing (snd (snap_windows 2)) snap_released) ''r'' snap_released = (Inr (), snap_parked)"
  "map_of (sv_templates (sv_run willing (snd (snap_windows 3)) snap_parked)) ''tmpl-0000000000000001'' \<noteq> None"
  "sv_run willing (snd (snap_windows 3)) snap_parked = snap_parked"
  by code_simp+

definition rest_begun :: "string \<Rightarrow> hash \<Rightarrow> supervisor" where
  "rest_begun u c = snd (begin_restore willing sample_restore (snap_end u c))"

definition rest_released :: "string \<Rightarrow> hash \<Rightarrow> supervisor" where
  "rest_released u c = snd (publish_restore ''r'' (rest_begun u c))"

definition rest_ready :: "string \<Rightarrow> hash \<Rightarrow> supervisor" where
  "rest_ready u c = sv_run willing (snd (restore_windows 1)) (rest_released u c)"

text \<open>The registry during the sample restore, for every union state id and commit.\<close>

lemma rest_registry:
  "template_status_of willing ''tmpl-0000000000000001'' (snap_end u c) = Inr \<lparr>ts_template_id = ''tmpl-0000000000000001'', ts_runtime_id = ''r'',
     ts_pid = 20, ts_pgid = 20, ts_generation = 1, ts_alive = True, ts_union_state_id = u, ts_fs_commit = c,
     ts_eligibility = LiveRuntimeRestorable\<rparr>"
  "begin_restore willing sample_restore (snap_end u c) = (Inr (), rest_begun u c)"
  "publish_restore ''r'' (sv_run willing (snd (restore_windows 0)) (rest_begun u c)) = (Inr (), rest_released u c)"
  "wait_for_generation_ready (\<lambda>_. sv_run willing (snd (restore_windows 1)) (rest_released u c)) ''r'' (rest_released u c) =
     (Inr (), rest_ready u c)"
  "retire_pending_generation willing ''r'' (sv_run willing (snd (restore_windows 3)) (rest_ready u c)) =
     (Inr [], snd (retire_pending_generation willing ''r'' (rest_ready u c)))"
  by code_simp+

lemma length_percent: "length (percent_encode s) \<le> 3 * length s"
  by (induction s) (auto simp: percent_encode_def percent_escape_def)

lemma snap_union_length: "length (serialize_union_runtime_state snap_union) < 2 ^ 64"
proof -
  have d: "length (print_uint (1 :: u32)) = 1" "length (print_uint (1 :: u64)) = 1" "length (print_uint (10 :: u64)) = 2"
    by code_simp+
  have w: "length (concat (map (\<lambda>w. field_line ''warning'' (warning_value w)) snapshot_warnings)) \<le> 2000"
    using length_percent [of "''process_group_descendants''"] length_percent [of "''external_resources''"]
      length_percent [of "rw_description (snapshot_warnings ! 0)"] length_percent [of "rw_description (snapshot_warnings ! 1)"]
    by (simp add: snapshot_warnings_def field_line_def warning_value_def)
  have "length (serialize_union_runtime_state snap_union) \<le> 4000"
    using w d length_percent [of "''main''"] length_percent [of "[]"] length_percent [of "''r''"]
      length_percent [of "''tmpl-0000000000000001''"] length_percent [of "''live_fork''"] length_percent [of "''manual''"]
      length_percent [of "''inline:cooperative-process-group''"]
    by (simp add: serialize_union_runtime_state_def snap_union_def snapshot_union_def snap_status_def sample_snapshot_def
        field_line_def union_header_def)
  then show ?thesis by simp
qed

lemma snap_windows_simps [simp]: "fst (snap_windows k) = id" "fst (restore_windows k) = id"
  "by_handlers snap_windows" "by_handlers restore_windows"
  by (auto simp: snap_windows_def restore_windows_def by_handlers_def)

lemma sample_snapshot_run:
  obtains res h d2 s where
    "checkpoint_branch_by_name tag_hash 9 ''main'' (snapshot_label sample_snapshot) runtime_daemon = Some (Inr 100, d2)"
    "no_collision tag_hash ''blob'' (blob_body (serialize_union_runtime_state snap_union)) (d_store d2)"
    "daemon_inv d2" "branch_by_name ''main'' d2 = Some 0" "ref_of (d_refs d2) ''main'' = Some 100" "s_io s = []"
    "snapshot_runtime tag_hash willing 9 10 snap_windows sample_snapshot (runtime_daemon, snap_start) =
       Some (res, d2\<lparr>d_store := s\<rparr>, snap_end (hash_to_hex h) 100)"
    "sn_ok res" "sn_fs_commit res = 100" "sn_template_id res = ''tmpl-0000000000000001''" "sn_union_state_id res = hash_to_hex h"
proof -
  obtain d2 where d2: "checkpoint_branch_by_name tag_hash 9 ''main'' (snapshot_label sample_snapshot) runtime_daemon = Some (Inr 100, d2)"
    "s_io (d_store d2) = []" "all_shards (d_store d2)"
    "no_collision tag_hash ''blob'' (blob_body (serialize_union_runtime_state snap_union)) (d_store d2)"
    "daemon_inv d2" "branch_by_name ''main'' d2 = Some 0" "ref_of (d_refs d2) ''main'' = Some 100"
    by (rule runtime_checkpointed)
  have r: "sq_runtime_id sample_snapshot = ''r''" by (simp add: sample_snapshot_def)
  note sr = snap_registry [folded r]
  have "\<exists>res h s. snapshot_runtime tag_hash willing 9 10 snap_windows sample_snapshot (runtime_daemon, snap_start) =
      Some (res, fst (snap_windows 3) (d2\<lparr>d_store := s\<rparr>), snd (cancel_snapshot (sq_runtime_id sample_snapshot)
        (snd (attach_union_state ''tmpl-0000000000000001'' (hash_to_hex h) 100 (sv_run willing (snd (snap_windows 3)) snap_parked))))) \<and>
    sn_ok res \<and> sn_fs_commit res = 100 \<and> sn_template_id res = ''tmpl-0000000000000001'' \<and> sn_union_state_id res = hash_to_hex h \<and> s_io s = []"
    by (rule snapshot_succeeds [OF _ sr(1) _ _ sr(2) sr(3) _ sr(4) sr(5) _ _ _ _ , unfolded boundary_action.simps])
      (use d2 sr(6) in \<open>simp_all add: snap_status_def willing_def runtime_daemon_ok\<close>)
  with d2 that show thesis unfolding snap_registry(7) r snap_end_def [symmetric] snap_windows_simps id_apply by blast
qed

text \<open>After the snapshot the file is removed: the daemon in which the sample is restored.\<close>

definition emptied :: "daemon \<Rightarrow> daemon" where
  "emptied d = upd_ctx 0 (\<lambda>c. c\<lparr>bc_wt := wt_new\<rparr>) d"

lemma emptied_simps [simp]:
  "d_store (emptied d) = d_store d" "d_refs (emptied d) = d_refs d" "branch_by_name n (emptied d) = branch_by_name n d"
  "length (d_ctxs (emptied d)) = length (d_ctxs d)"
  by (simp_all add: emptied_def upd_ctx_def branch_by_name_def cong: option.case_cong)

lemma emptied_inv: assumes i: "daemon_inv d" shows "daemon_inv (emptied d)"
  using inv_step [OF i inv_handles [OF i] wt_inv_fresh(2), where p = 0 and r = "d_refs d" and s = "d_store d"]
  by (simp add: emptied_def)

lemmas runtime_daemon_tree = sample_repo_ok(2) [folded runtime_daemon_ok(5)]
  runtime_daemon_ok(11) [folded runtime_daemon_ok(5)] runtime_daemon_ok(12) [folded runtime_daemon_ok(5)]

lemma sample_restore_ready:
  obtains res h d2 s where
    "snapshot_runtime tag_hash willing 9 10 snap_windows sample_snapshot (runtime_daemon, snap_start) =
       Some (res, d2\<lparr>d_store := s\<rparr>, snap_end (hash_to_hex h) 100)"
    "sn_ok res" "sn_fs_commit res = 100" "sn_template_id res = ''tmpl-0000000000000001''" "sn_union_state_id res = hash_to_hex h"
    "s_io s = []" "daemon_inv (d2\<lparr>d_store := s\<rparr>)" "branch_by_name ''main'' d2 = Some 0" "ref_of (d_refs d2) ''main'' = Some 100"
    "read_union_runtime_state h s = (Inr (snap_union\<lparr>us_union_state_id := hash_to_hex h\<rparr>), s)"
    "\<And>e bid. branch_by_name ''main'' e = Some 0 \<Longrightarrow> 0 < length (d_ctxs e) \<Longrightarrow> store_le s (d_store e) \<Longrightarrow> s_io (d_store e) = [] \<Longrightarrow>
       \<exists>e'. rollback_branch bid ''main'' 100 e = Some (Inr 100, e')"
    "\<And>x. checkpoint_branch_by_name tag_hash 9 ''main'' (snapshot_label sample_snapshot) runtime_daemon = Some (Inr 100, x) \<Longrightarrow> x = d2"
    "no_collision tag_hash ''blob'' (blob_body (serialize_union_runtime_state snap_union)) (d_store d2)"
proof -
  obtain res h d2 s where r:
    "checkpoint_branch_by_name tag_hash 9 ''main'' (snapshot_label sample_snapshot) runtime_daemon = Some (Inr 100, d2)"
    "no_collision tag_hash ''blob'' (blob_body (serialize_union_runtime_state snap_union)) (d_store d2)"
    "daemon_inv d2" "branch_by_name ''main'' d2 = Some 0" "ref_of (d_refs d2) ''main'' = Some 100" "s_io s = []"
    "snapshot_runtime tag_hash willing 9 10 snap_windows sample_snapshot (runtime_daemon, snap_start) =
       Some (res, d2\<lparr>d_store := s\<rparr>, snap_end (hash_to_hex h) 100)"
    "sn_ok res" "sn_fs_commit res = 100" "sn_template_id res = ''tmpl-0000000000000001''" "sn_union_state_id res = hash_to_hex h"
    by (rule sample_snapshot_run)
  have rid: "sq_runtime_id sample_snapshot = ''r''" "st_branch snap_status = ''main''"
    by (simp_all add: sample_snapshot_def snap_status_def)
  obtain k dw where k: "hash_to_hex h = hash_to_hex k" "d2\<lparr>d_store := s\<rparr> = dw" "store_le (d_store d2) (d_store dw)"
    "payload ''blob'' (d_store dw) k = Some (blob_body (serialize_union_runtime_state snap_union))"
    using snapshot_success [OF r(7,8) snap_windows_simps(3)] r(1,2) snap_registry(1)
    unfolding r(9,10,11) rid snap_union_def [symmetric] by (auto simp: rid snap_union_def)
  have s: "s = d_store dw" "k = h" using k(1,2) by auto
  have ru: "read_union_runtime_state h s = (Inr (snap_union\<lparr>us_union_state_id := hash_to_hex h\<rparr>), s)"
  proof -
    have "read_blob h s = (Some (serialize_union_runtime_state snap_union), s)"
      by (rule read_blob_ok [OF r(6) _ snap_union_length]) (use k(4) s in simp)
    moreover have "us_union_state_id snap_union = []" by (simp add: snap_union_def snapshot_union_def)
    ultimately show ?thesis by (simp add: read_union_runtime_state_def union_codec)
  qed
  have rb: "\<exists>e'. rollback_branch bid ''main'' 100 e = Some (Inr 100, e')"
    if "branch_by_name ''main'' e = Some 0" "0 < length (d_ctxs e)" "store_le s (d_store e)" "s_io (d_store e) = []" for e bid
    using checkpoint_then_rollback [OF runtime_daemon_ok(1,2) runtime_daemon_ok(7) [of tag_hash, folded runtime_daemon_ok(3)]
        runtime_daemon_tree r(1) that(1,2) store_le_trans [OF k(3) [folded s(1)] that(3)] that(4), of bid] by blast
  show thesis
    by (rule that [OF r(7-11,6) _ r(4,5) ru rb _ r(2)]) (use r(1,3) in \<open>simp_all add: inv_store\<close>)
qed

lemma snap_union_fields:
  "us_runtime_id (snap_union\<lparr>us_union_state_id := u\<rparr>) = ''r''" "us_branch (snap_union\<lparr>us_union_state_id := u\<rparr>) = ''main''"
  "us_template_id (snap_union\<lparr>us_union_state_id := u\<rparr>) = ''tmpl-0000000000000001''"
  "us_fs_commit (snap_union\<lparr>us_union_state_id := u\<rparr>) = 100" "us_runtime_generation (snap_union\<lparr>us_union_state_id := u\<rparr>) + 1 = 2"
  "\<lparr>ri_runtime_id = ''r'', ri_template_id = ''tmpl-0000000000000001'', ri_target = 2\<rparr> = sample_restore"
  by (simp_all add: snap_union_def snapshot_union_def snap_status_def sample_snapshot_def sample_restore_def)

text \<open>The start of the sample restore, whatever windows follow it.\<close>

lemma sample_restore_run:
  assumes ru: "read_union_runtime_state h (d_store e) = (Inr (snap_union\<lparr>us_union_state_id := hash_to_hex h\<rparr>), d_store e)"
    and e: "s_io (d_store e) = []" "branch_by_name ''main'' e = Some 0" "ref_of (d_refs e) ''main'' = Some 100"
    and roll: "rollback_branch (bc_id (ctx e 0)) ''main'' 100 e = Some (Inr 100, e1)"
    and w: "\<And>k. fst (others k) = id" "snd (others 0) = []"
  shows "restore_runtime willing others (hash_to_hex h) (e, snap_end u c) =
      hand_off willing others (snap_union\<lparr>us_union_state_id := hash_to_hex h\<rparr>) (bc_id (ctx e 0)) 100
        (invalidate_fhs_for_branch (bc_id (ctx e 0)) e1, rest_begun u c)"
    "others = restore_windows \<Longrightarrow> \<exists>res e'. restore_runtime willing others (hash_to_hex h) (e, snap_end u c) =
       Some (res, e', snd (retire_pending_generation willing ''r'' (rest_ready u c))) \<and> rr_ok res"
proof -
  have pl: "payload ''commit'' (d_store e) 100 \<noteq> None" by (rule rollback_branch_payload [OF e(1) roll])
  note r = restore_succeeds [where pc = willing and others = others and hex = "hash_to_hex h" and d = e and sv = "snap_end u c",
      OF _ hex_to_hash_strict_to_hex e(1) ru, unfolded snap_union_fields, OF _ rest_registry(1) _ e(2,3) _ pl pl rest_registry(2),
      unfolded w id_apply, OF _ _ _ roll]
  show "restore_runtime willing others (hash_to_hex h) (e, snap_end u c) =
      hand_off willing others (snap_union\<lparr>us_union_state_id := hash_to_hex h\<rparr>) (bc_id (ctx e 0)) 100
        (invalidate_fhs_for_branch (bc_id (ctx e 0)) e1, rest_begun u c)"
    using r(1) by (simp add: willing_def)
  show "\<exists>res e'. restore_runtime willing others (hash_to_hex h) (e, snap_end u c) =
       Some (res, e', snd (retire_pending_generation willing ''r'' (rest_ready u c))) \<and> rr_ok res" if "others = restore_windows"
    by (rule r(2)) (use rest_registry(3-5) [of u c] that w(2) in \<open>simp_all add: willing_def\<close>)
qed

section \<open>The promises on the sample\<close>

theorem snapshot_publishes_witness:
  "\<exists>res d' sv' tm. snapshot_runtime tag_hash willing 9 10 snap_windows sample_snapshot (runtime_daemon, snap_start) = Some (res, d', sv') \<and>
     sn_ok res \<and> map_of (sv_templates sv') (sn_template_id res) = Some tm \<and> tm_published tm \<and> tm_fs_commit tm = sn_fs_commit res"
proof (rule sample_snapshot_run)
  fix res h d2 s
  assume r: "snapshot_runtime tag_hash willing 9 10 snap_windows sample_snapshot (runtime_daemon, snap_start) =
      Some (res, d2\<lparr>d_store := s\<rparr>, snap_end (hash_to_hex h) 100)" "sn_ok res"
  from snapshot_publishes [OF r snap_windows_simps(3)] r show ?thesis by blast
qed

theorem snapshot_unblocks_witness:
  "\<exists>res d' sv' op sv2. snapshot_runtime tag_hash willing 9 10 snap_windows sample_snapshot (runtime_daemon, snap_start) = Some (res, d', sv') \<and>
     sn_ok res \<and> begin_snapshot sample_snapshot sv' = (Inr op, sv2)"
proof (rule sample_snapshot_run)
  fix res h d2 s
  assume r: "snapshot_runtime tag_hash willing 9 10 snap_windows sample_snapshot (runtime_daemon, snap_start) =
      Some (res, d2\<lparr>d_store := s\<rparr>, snap_end (hash_to_hex h) 100)" "sn_ok res"
  have a: "sv_reach snap_start" unfolding snap_start_def by (rule sv_run_reach [OF _ sv_reach.Start]) code_simp
  have "case map_of (sv_runtimes snap_start) (sq_runtime_id sample_snapshot) of None \<Rightarrow> False | Some r \<Rightarrow> \<not> rt_pending r" by code_simp
  then obtain x where x: "map_of (sv_runtimes snap_start) (sq_runtime_id sample_snapshot) = Some x" "\<not> rt_pending x"
    by (auto split: option.splits)
  have nw: "no_wrap willing (CBeginSnapshot sample_snapshot # snd (snap_windows 0) @ snd (snap_windows 1)) snap_start" by code_simp
  have "\<exists>op sv2. begin_snapshot sample_snapshot (snap_end (hash_to_hex h) 100) = (Inr op, sv2)"
    by (rule snapshot_unblocks [OF a x nw snap_windows_simps(3) _ r(1) refl]) (simp add: snap_windows_def)
  with r show ?thesis by blast
qed

definition fail_windows :: windows where
  "fail_windows k = (id, if k = 0 then [CObserve ''r'' ''k'' 10 1 ''manual''] else if k = 1 then [CTake ''bd-0000000000000001''] else [])"

definition fail_daemon :: daemon where
  "fail_daemon = runtime_daemon\<lparr>d_store := (d_store runtime_daemon)\<lparr>s_io := [Some io_fault]\<rparr>\<rparr>"

lemma fail_windows_simps: "fst (fail_windows k) = id" "by_handlers fail_windows"
  by (auto simp: fail_windows_def by_handlers_def)

lemma fail_checkpoint:
  "\<exists>e d2. checkpoint_branch_by_name tag_hash 9 ''main'' (snapshot_label sample_snapshot) fail_daemon = Some (Inl e, d2)"
proof -
  have "case checkpoint_branch_by_name tag_hash 9 ''main'' (snapshot_label sample_snapshot) fail_daemon of
      Some (Inl e, d2) \<Rightarrow> True | _ \<Rightarrow> False" by code_simp
  then show ?thesis by (auto split: option.splits sum.splits prod.splits)
qed

theorem failed_checkpoint_blocks_snapshots_witness:
  "\<exists>e d' sv'. snapshot_runtime tag_hash willing 9 10 fail_windows sample_snapshot (fail_daemon, snap_start) =
       Some (snapshot_failed ''r'' e, d', sv') \<and>
     fst (begin_snapshot sample_snapshot (sv_run willing [CPoll ''t'' ''k''] sv')) = Inl ''snapshot already in progress''"
proof -
  have r: "sq_runtime_id sample_snapshot = ''r''" "st_branch snap_status = ''main''"
    by (simp_all add: sample_snapshot_def snap_status_def)
  obtain e d2 where cp: "checkpoint_branch_by_name tag_hash 9 (st_branch snap_status) (snapshot_label sample_snapshot)
      (fst (fail_windows 0) fail_daemon) = Some (Inl e, d2)"
    using fail_checkpoint by (auto simp: r fail_windows_simps)
  have s: "pc_supported willing = None" "st_cooperative snap_status" "branch_by_name (st_branch snap_status) fail_daemon \<noteq> None"
    by (simp_all add: willing_def snap_status_def fail_daemon_def) (use runtime_daemon_ok(2) in \<open>simp add: branch_by_name_def cong: option.case_cong\<close>)
  have q: "boundaries_seen willing (sq_runtime_id sample_snapshot) (snd (fail_windows 0)) snap_begun = [''bd-0000000000000001'']"
    "map_of (sv_boundaries (sv_run willing (snd (fail_windows 0) @ snd (fail_windows 1)) snap_begun)) ''bd-0000000000000001'' = None"
    by code_simp+
  from failed_checkpoint_blocks_snapshots [OF s(1) snap_registry(1) [folded r(1)] s(2,3) snap_registry(2) fail_windows_simps(2) q cp,
      of "[CPoll ''t'' ''k'']" sample_snapshot 10]
  show ?thesis by (auto simp: r)
qed

lemma snap_end_facts:
  "sv_signals (snap_end u c) = []" "\<exists>r. map_of (sv_runtimes (snap_end u c)) ''r'' = Some r \<and> rt_pgid r = 10"
  "map_option rt_pgid (map_of (sv_runtimes (snap_end u c)) ''r'') = Some 10"
  "pc_terminate willing p = None" "pc_resume willing p = None"
proof -
  show m: "map_option rt_pgid (map_of (sv_runtimes (snap_end u c)) ''r'') = Some 10" by code_simp
  then show "\<exists>r. map_of (sv_runtimes (snap_end u c)) ''r'' = Some r \<and> rt_pgid r = 10" by auto
  show "sv_signals (snap_end u c) = []" by code_simp
qed (simp_all add: willing_def)

text \<open>The point at which the sample is restored.\<close>

lemma sample_restore_point:
  obtains res h d' e e1 where
    "snapshot_runtime tag_hash willing 9 10 snap_windows sample_snapshot (runtime_daemon, snap_start) =
       Some (res, d', snap_end (hash_to_hex h) 100)" "sn_ok res" "sn_union_state_id res = hash_to_hex h"
    "e = emptied d'" "daemon_inv e" "branch_by_name ''main'' e = Some 0" "d_store e = d_store d'" "s_io (d_store e) = []"
    "ref_of (d_refs e) ''main'' = Some 100"
    "read_union_runtime_state h (d_store e) = (Inr (snap_union\<lparr>us_union_state_id := hash_to_hex h\<rparr>), d_store e)"
    "rollback_branch (bc_id (ctx e 0)) ''main'' 100 e = Some (Inr 100, e1)"
    "\<And>f bid. branch_by_name ''main'' f = Some 0 \<Longrightarrow> 0 < length (d_ctxs f) \<Longrightarrow> store_le (d_store e) (d_store f) \<Longrightarrow> s_io (d_store f) = [] \<Longrightarrow>
       \<exists>f'. rollback_branch bid ''main'' 100 f = Some (Inr 100, f')"
proof (rule sample_restore_ready)
  fix res h s and d2 :: daemon
  let ?d = "d2\<lparr>d_store := s\<rparr>"
  assume r: "snapshot_runtime tag_hash willing 9 10 snap_windows sample_snapshot (runtime_daemon, snap_start) =
       Some (res, ?d, snap_end (hash_to_hex h) 100)" "sn_ok res" "sn_union_state_id res = hash_to_hex h"
    and a: "s_io s = []" "daemon_inv ?d" "branch_by_name ''main'' d2 = Some 0" "ref_of (d_refs d2) ''main'' = Some 100"
    and ru: "read_union_runtime_state h s = (Inr (snap_union\<lparr>us_union_state_id := hash_to_hex h\<rparr>), s)"
    and rb: "\<And>e bid. branch_by_name ''main'' e = Some 0 \<Longrightarrow> 0 < length (d_ctxs e) \<Longrightarrow> store_le s (d_store e) \<Longrightarrow> s_io (d_store e) = [] \<Longrightarrow>
       \<exists>e'. rollback_branch bid ''main'' 100 e = Some (Inr 100, e')"
  have n: "branch_by_name ''main'' (emptied ?d) = Some 0" using a(3) unfolding emptied_simps by (simp add: branch_by_name_def cong: option.case_cong)
  have st: "d_store (emptied ?d) = s" "s_io (d_store (emptied ?d)) = []" using a(1) by simp_all
  have l: "0 < length (d_ctxs (emptied ?d))" by (rule by_name_length [OF emptied_inv [OF a(2)] n])
  obtain e1 where e1: "rollback_branch (bc_id (ctx (emptied ?d) 0)) ''main'' 100 (emptied ?d) = Some (Inr 100, e1)"
    using rb [OF n l _ st(2)] st(1) store_le_refl by metis
  show thesis
    by (rule that [OF r refl emptied_inv [OF a(2)] n _ st(2) _ _ e1]) (use a(4) ru rb st in auto)
qed

theorem restore_exact_witness:
  "\<exists>hex e u res e' sve'. restore_runtime willing restore_windows hex (e, snap_end u 100) = Some (res, e', sve') \<and> rr_ok res \<and>
     sv_signals sve' = [Frozen 10, Terminated 10]"
proof (rule sample_restore_point)
  fix res h d' e e1
  assume e: "branch_by_name ''main'' e = Some 0" "s_io (d_store e) = []" "ref_of (d_refs e) ''main'' = Some 100"
    and ru: "read_union_runtime_state h (d_store e) = (Inr (snap_union\<lparr>us_union_state_id := hash_to_hex h\<rparr>), d_store e)"
    and e1: "rollback_branch (bc_id (ctx e 0)) ''main'' 100 e = Some (Inr 100, e1)"
  obtain x e' where x: "restore_runtime willing restore_windows (hash_to_hex h) (e, snap_end (hash_to_hex h) 100) =
      Some (x, e', snd (retire_pending_generation willing ''r'' (rest_ready (hash_to_hex h) 100)))" "rr_ok x"
    using sample_restore_run(2) [OF ru e(2,1,3) e1 _ _ refl, of "hash_to_hex h" 100] by (auto simp: restore_windows_def)
  obtain r0 where "map_of (sv_runtimes (snap_end (hash_to_hex h) 100)) ''r'' = Some r0" "rt_pgid r0 = 10"
    using snap_end_facts(2) by blast
  with restore_exact [OF x snap_windows_simps(4)]
  have "sv_signals (snd (retire_pending_generation willing ''r'' (rest_ready (hash_to_hex h) 100))) = [Frozen 10, Terminated 10]"
    using ru by (auto simp: snap_union_fields snap_end_facts)
  with x show ?thesis by blast
qed

theorem snapshot_restore_roundtrip_witness:
  "\<exists>res d' sv' res2 e' sve' q. snapshot_runtime tag_hash willing 9 10 snap_windows sample_snapshot (runtime_daemon, snap_start) =
       Some (res, d', sv') \<and> sn_ok res \<and>
     restore_runtime willing restore_windows (sn_union_state_id res) (emptied d', sv') = Some (res2, e', sve') \<and> rr_ok res2 \<and>
     branch_by_name ''main'' e' = Some q \<and> durable_ref (d_refs e') ''main'' = Some (sn_fs_commit res) \<and>
     rel_option same_entry (lookup_raw ''/f'' (rp_wt sample_repo)) (lookup_raw ''/f'' (bc_wt (ctx e' q)))"
proof (rule sample_restore_point)
  fix res h d' e e1
  assume r: "snapshot_runtime tag_hash willing 9 10 snap_windows sample_snapshot (runtime_daemon, snap_start) =
       Some (res, d', snap_end (hash_to_hex h) 100)" "sn_ok res" "sn_union_state_id res = hash_to_hex h"
    and e: "e = emptied d'" "daemon_inv e" "branch_by_name ''main'' e = Some 0" "d_store e = d_store d'" "s_io (d_store e) = []"
      "ref_of (d_refs e) ''main'' = Some 100"
    and ru: "read_union_runtime_state h (d_store e) = (Inr (snap_union\<lparr>us_union_state_id := hash_to_hex h\<rparr>), d_store e)"
    and e1: "rollback_branch (bc_id (ctx e 0)) ''main'' 100 e = Some (Inr 100, e1)"
  obtain x e' where x: "restore_runtime willing restore_windows (sn_union_state_id res) (e, snap_end (hash_to_hex h) 100) =
      Some (x, e', snd (retire_pending_generation willing ''r'' (rest_ready (hash_to_hex h) 100)))" "rr_ok x"
    using sample_restore_run(2) [OF ru e(5,3,6) e1 _ _ refl, of "hash_to_hex h" 100] r(3) by (auto simp: restore_windows_def)
  obtain d2 where c: "sn_fs_commit res = 100" "sn_template_id res = ''tmpl-0000000000000001''"
    "\<And>y. checkpoint_branch_by_name tag_hash 9 ''main'' (snapshot_label sample_snapshot) runtime_daemon = Some (Inr 100, y) \<Longrightarrow>
       no_collision tag_hash ''blob'' (blob_body (serialize_union_runtime_state snap_union)) (d_store y)"
    by (rule sample_restore_ready) (use r in auto)
  have id: "sq_runtime_id sample_snapshot = ''r''" "st_branch snap_status = ''main''"
    by (simp_all add: sample_snapshot_def snap_status_def)
  have "\<exists>q. branch_by_name ''main'' e' = Some q \<and> durable_ref (d_refs e') ''main'' = Some (sn_fs_commit res) \<and>
     (\<forall>path. rel_option same_entry (lookup_raw path (bc_wt (ctx runtime_daemon 0))) (lookup_raw path (bc_wt (ctx e' q)))) \<and>
     map_option rt_generation (map_of (sv_runtimes (snd (retire_pending_generation willing ''r'' (rest_ready (hash_to_hex h) 100))))
       (sq_runtime_id sample_snapshot)) = Some (sn_generation res + 1)"
    by (rule snapshot_restore_roundtrip [OF r(1,2) snap_windows_simps(3) snap_registry(1) [folded id(1)] id(2) [symmetric] _
          runtime_daemon_ok(1,2) runtime_daemon_ok(7) [of tag_hash, folded runtime_daemon_ok(3)] runtime_daemon_tree _ refl _ _ e(2) _ e(5)
          x snap_windows_simps(4)])
      (use c e(4) in \<open>simp_all add: snap_union_def [symmetric] snap_union_length [simplified]\<close>)
  with r x e(1) show ?thesis unfolding runtime_daemon_ok(5) by blast
qed

text \<open>A rollback whose calls do not fail leaves the branch tables and the objects alone.\<close>

lemma rollback_branch_frame:
  assumes "s_io (d_store e) = []" "rollback_branch bid name c e = Some (x, e')"
  shows "s_io (d_store e') = [] \<and> store_le (d_store e) (d_store e') \<and> branch_by_name n e' = branch_by_name n e \<and>
     length (d_ctxs e') = length (d_ctxs e)"
proof (cases "branch_by_name name e")
  case (Some p)
  let ?rp = "\<lparr>rp_wt = bc_wt (ctx e p), rp_refs = d_refs e, rp_store = d_store e\<rparr>"
  obtain r inv rp where r: "rollback_locked (hash_to_hex c) name ?rp = Some (r, inv, rp)"
    using assms(2) Some by (auto simp: rollback_branch_def split: option.splits)
  obtain h t where t: "resolve_target (hash_to_hex c) name (d_refs e) (d_store e) = (h, t)" by fastforce
  have te: "t = d_store e" by (rule resolve_target_ok [OF assms(1) t])
  have rc: "read_commit h (d_store e) = (payload ''commit'' (d_store e) h, d_store e)"
    using read_object_ok [OF assms(1)] by (simp add: read_commit_def)
  have rb: "s' = d_store e" if "rebuild_working_tree a b (d_store e) = Some (y, s')" for a b y s'
    using only_io_empty [OF rebuild_effect(1) [OF that] assms(1)] .
  have wr: "store_quiet (d_store e) s'" if "write_ref a b q (d_store e) = (ok, q', s')" for a b q ok q' s'
    by (rule write_ref_effect(1) [OF that])
  have "rp_store rp = d_store e \<or> store_quiet (d_store e) (rp_store rp)"
    using r t by (auto simp: rollback_locked_def te rc Let_def dest!: rb wr split: option.splits if_splits sum.splits prod.splits)
  then have "s_io (rp_store rp) = [] \<and> store_le (d_store e) (rp_store rp)"
    using assms(1) store_quiet_le store_le_refl by (auto simp: store_quiet_def)
  then show ?thesis using assms(2) Some r
    by (auto simp: rollback_branch_def Let_def upd_ctx_def invalidate_fhs_for_branch_def branch_by_name_def cong: option.case_cong split: if_splits)
qed (use assms in \<open>simp add: rollback_branch_def store_le_refl\<close>)

definition silent :: windows where "silent k = (id, [])"

lemma silent_registry:
  "publish_restore ''r'' (rest_begun u c) = (Inr (), rest_released u c)"
  "wait_for_generation_ready (\<lambda>_. rest_released u c) ''r'' (rest_released u c) = (Inl ''restore timeout'', rest_released u c)"
  "sv_signals (snd (abort_restore willing ''r'' (rest_released u c))) = [Frozen 10, Resumed 10]"
  by code_simp+

theorem restore_failure_resumes_witness:
  "\<exists>hex e u res e' sve' r. restore_runtime willing silent hex (e, snap_end u 100) = Some (res, e', sve') \<and> rr_error res = ''restore timeout'' \<and>
     \<not> rr_ok res \<and> sv_signals sve' = [Frozen 10, Resumed 10] \<and> map_of (sv_runtimes sve') ''r'' = Some r \<and> rt_pgid r = 10"
proof (rule sample_restore_point)
  fix res h d' e e1
  let ?us = "snap_union\<lparr>us_union_state_id := hash_to_hex h\<rparr>" and ?u = "hash_to_hex h" and ?b = "bc_id (ctx e 0)"
  assume e: "branch_by_name ''main'' e = Some 0" "s_io (d_store e) = []" "ref_of (d_refs e) ''main'' = Some 100" "daemon_inv e"
    and ru: "read_union_runtime_state h (d_store e) = (Inr ?us, d_store e)"
    and e1: "rollback_branch ?b ''main'' 100 e = Some (Inr 100, e1)"
    and rb: "\<And>f bid. branch_by_name ''main'' f = Some 0 \<Longrightarrow> 0 < length (d_ctxs f) \<Longrightarrow> store_le (d_store e) (d_store f) \<Longrightarrow> s_io (d_store f) = [] \<Longrightarrow>
       \<exists>f'. rollback_branch bid ''main'' 100 f = Some (Inr 100, f')"
  let ?f = "invalidate_fhs_for_branch ?b e1"
  note fr = rollback_branch_frame [OF e(2) e1, of "''main''"]
  have "0 < length (d_ctxs e)" by (rule by_name_length [OF e(4,1)])
  then obtain e2 where e2: "rollback_branch ?b ''main'' 100 ?f = Some (Inr 100, e2)"
    using rb [of ?f ?b] fr e(1) by (auto simp: invalidate_fhs_for_branch_def branch_by_name_def cong: option.case_cong)
  have s: "fst (silent k) = id" "snd (silent k) = []" for k by (simp_all add: silent_def)
  have run: "restore_runtime willing silent ?u (e, snap_end ?u 100) =
      Some (restore_outcome ?us False [] ''restore timeout'', e2, snd (abort_restore willing ''r'' (rest_released ?u 100)))"
    unfolding sample_restore_run(1) [OF ru e(2,1,3) e1 s(1) s(2)]
    using silent_registry(1,2) [of ?u 100] e2
    by (simp add: hand_off_def window_def recover_runtime_def s snap_union_fields)
  have us: "us_runtime_id us = ''r''" if "read_union_runtime_state h (d_store e) = (Inr us, s0)" for us s0
    using that ru by (auto simp: snap_union_fields)
  obtain r0 where r0: "map_of (sv_runtimes (snap_end ?u 100)) ''r'' = Some r0" "rt_pgid r0 = 10" using snap_end_facts(2) by blast
  have "\<not> rr_ok (restore_outcome ?us False [] ''restore timeout'') \<and>
     (snd (abort_restore willing ''r'' (rest_released ?u 100)) = snap_end ?u 100 \<or>
      sv_signals (snd (abort_restore willing ''r'' (rest_released ?u 100))) = sv_signals (snap_end ?u 100) @ [Frozen (rt_pgid r0), Resumed (rt_pgid r0)] \<and>
      (\<exists>r'. map_of (sv_runtimes (snd (abort_restore willing ''r'' (rest_released ?u 100)))) ''r'' = Some r' \<and> \<not> rt_restoring r' \<and> rt_pgid r' = rt_pgid r0 \<and>
         rt_root_pid r' = rt_root_pid r0 \<and> rt_generation r' = rt_generation r0))"
    by (rule restore_failure_resumes [OF run _ _ r0(1)]) (use us r0(2) in \<open>auto simp: s snap_end_facts\<close>)
  moreover have "sv_signals (snd (abort_restore willing ''r'' (rest_released ?u 100))) \<noteq> sv_signals (snap_end ?u 100)"
    by (simp add: silent_registry(3) snap_end_facts)
  ultimately obtain r' where "map_of (sv_runtimes (snd (abort_restore willing ''r'' (rest_released ?u 100)))) ''r'' = Some r'" "rt_pgid r' = 10"
    "\<not> rr_ok (restore_outcome ?us False [] ''restore timeout'')"
    using r0(2) by auto
  with run silent_registry(3) show ?thesis
    by (intro exI [of _ ?u] exI [of _ e]) (auto simp: restore_outcome_def)
qed

section \<open>The calls of a restore\<close>

lemma begin_restore_fails: "begin_restore pc ri sv = (Inl e, sv') \<Longrightarrow> sv' = sv"
  by (auto simp: begin_restore_def Let_def split: option.splits if_splits)

lemma publish_restore_known: "publish_restore rid sv = (Inr (), sv') \<Longrightarrow> map_of (sv_runtimes sv') rid \<noteq> None"
  by (auto simp: publish_restore_def split: option.splits if_splits)

lemma recover_calls:
  assumes "recover_runtime pc others us bid recovery e shown (d, sv) = Some (res, d', sv')"
  shows "\<not> rr_ok res \<and> sv' = sv_run pc (snd (others 2) @ [CAbort (us_runtime_id us)]) sv"
  using assms by (auto simp: recover_runtime_def window_def sv_run_append restore_outcome_def split: option.splits sum.splits)

lemma hand_off_calls:
  assumes "hand_off pc others us bid recovery (d, sv) = Some (res, d', sv')"
  shows "\<exists>cs. sv' = sv_run pc (CPublishRestore (us_runtime_id us) # cs) sv \<and>
     set cs \<subseteq> (\<Union>k. set (snd (others k))) \<union> {CAbort (us_runtime_id us), CRetire (us_runtime_id us)} \<and>
     (rr_ok res \<longrightarrow> cs = snd (others 1) @ snd (others 3) @ [CRetire (us_runtime_id us)])"
proof -
  let ?rid = "us_runtime_id us"
  obtain x sv1 where p: "publish_restore ?rid sv = (x, sv1)" by fastforce
  have e1: "sv_exec pc (CPublishRestore ?rid) sv = sv1" using p by simp
  show ?thesis
  proof (cases x)
    case (Inl e)
    then have "recover_runtime pc others us bid recovery e e (d, sv1) = Some (res, d', sv')"
      using assms p by (simp add: hand_off_def)
    from recover_calls [OF this] show ?thesis
      by (intro exI [of _ "snd (others 2) @ [CAbort ?rid]"]) (auto simp: p)
  next
    case (Inr u)
    have kn: "map_of (sv_runtimes sv1) ?rid \<noteq> None" using publish_restore_known p Inr by simp
    let ?sv2 = "sv_run pc (snd (others 1)) sv1"
    obtain y sv2 where w: "wait_for_generation_ready (\<lambda>_. ?sv2) ?rid sv1 = (y, sv2)" by fastforce
    have e2: "sv2 = ?sv2" using w kn by (auto simp: wait_for_generation_ready_def Let_def split: option.splits)
    show ?thesis
    proof (cases y)
      case (Inl e)
      then have "recover_runtime pc others us bid recovery e [] (fst (others 1) d, ?sv2) = Some (res, d', sv')"
        using assms p Inr w e2 by (simp add: hand_off_def window_def)
      from recover_calls [OF this] show ?thesis
        by (intro exI [of _ "snd (others 1) @ snd (others 2) @ [CAbort ?rid]"]) (auto simp: p sv_run_append)
    next
      case y: (Inr v)
      then have "retire_prior pc others us (fst (others 1) d, ?sv2) = (res, d', sv')"
        using assms p Inr w e2 by (simp add: hand_off_def window_def)
      then have "sv' = sv_run pc (snd (others 1) @ snd (others 3) @ [CRetire ?rid]) sv1 \<or>
          \<not> rr_ok res \<and> sv' = sv_run pc (snd (others 1) @ snd (others 3) @ [CRetire ?rid, CAbort ?rid]) sv1"
        by (auto simp: retire_prior_def window_def sv_run_append restore_outcome_def split: prod.splits sum.splits)
      then show ?thesis
      proof
        assume "sv' = sv_run pc (snd (others 1) @ snd (others 3) @ [CRetire ?rid]) sv1"
        then show ?thesis by (intro exI [of _ "snd (others 1) @ snd (others 3) @ [CRetire ?rid]"]) (auto simp: p)
      next
        assume "\<not> rr_ok res \<and> sv' = sv_run pc (snd (others 1) @ snd (others 3) @ [CRetire ?rid, CAbort ?rid]) sv1"
        then show ?thesis by (intro exI [of _ "snd (others 1) @ snd (others 3) @ [CRetire ?rid, CAbort ?rid]"]) (auto simp: p)
      qed
    qed
  qed
qed

text \<open>The intent of a restore of a union state.\<close>

definition intent_of :: "union_runtime_state \<Rightarrow> restore_intent" where
  "intent_of us = \<lparr>ri_runtime_id = us_runtime_id us, ri_template_id = us_template_id us, ri_target = us_runtime_generation us + 1\<rparr>"

lemma roll_calls:
  assumes "roll_and_hand_off pc others us bid recovery (d, sv) = Some (res, d', sv')"
  shows "sv' = sv \<and> \<not> rr_ok res \<or> (\<exists>sv1 cs. begin_restore pc (intent_of us) sv = (Inr (), sv1) \<and>
     sv' = sv_run pc (snd (others 0) @ cs) sv1 \<and>
     set cs \<subseteq> (\<Union>k. set (snd (others k))) \<union> {CPublishRestore (us_runtime_id us), CAbort (us_runtime_id us), CRetire (us_runtime_id us)} \<and>
     (rr_ok res \<longrightarrow> cs = CPublishRestore (us_runtime_id us) # snd (others 1) @ snd (others 3) @ [CRetire (us_runtime_id us)]) \<and>
     ((\<exists>c d2. rollback_branch bid (us_branch us) (us_fs_commit us) (fst (others 0) d) = Some (Inr c, d2)) \<or>
      cs = [CAbort (us_runtime_id us)]))"
proof -
  let ?rid = "us_runtime_id us"
  obtain x sv1 where b: "begin_restore pc (intent_of us) sv = (x, sv1)" by fastforce
  show ?thesis
  proof (cases x)
    case (Inl e)
    with assms b begin_restore_fails [of pc "intent_of us" sv e sv1] show ?thesis
      by (auto simp: roll_and_hand_off_def intent_of_def restore_outcome_def)
  next
    case (Inr u)
    let ?sv2 = "sv_run pc (snd (others 0)) sv1"
    obtain y d2 where r: "rollback_branch bid (us_branch us) (us_fs_commit us) (fst (others 0) d) = Some (y, d2)"
      using assms b Inr by (auto simp: roll_and_hand_off_def intent_of_def window_def split: option.splits)
    show ?thesis
    proof (cases y)
      case (Inl e)
      then have "\<not> rr_ok res \<and> sv' = sv_run pc (snd (others 0) @ [CAbort ?rid]) sv1"
        using assms b Inr r by (auto simp: roll_and_hand_off_def intent_of_def window_def sv_run_append restore_outcome_def)
      with b Inr show ?thesis by (intro disjI2 exI [of _ sv1] exI [of _ "[CAbort ?rid]"]) auto
    next
      case y: (Inr c)
      then have "hand_off pc others us bid recovery (invalidate_fhs_for_branch bid d2, ?sv2) = Some (res, d', sv')"
        using assms b Inr r by (simp add: roll_and_hand_off_def intent_of_def window_def)
      from hand_off_calls [OF this] obtain cs where cs: "sv' = sv_run pc (CPublishRestore ?rid # cs) ?sv2"
        "set cs \<subseteq> (\<Union>k. set (snd (others k))) \<union> {CAbort ?rid, CRetire ?rid}"
        "rr_ok res \<longrightarrow> cs = snd (others 1) @ snd (others 3) @ [CRetire ?rid]" by blast
      then show ?thesis using b Inr r y
        by (intro disjI2 exI [of _ sv1] exI [of _ "CPublishRestore ?rid # cs"]) (auto simp: sv_run_append)
    qed
  qed
qed

text \<open>
  C8: A restore hands its target to a parked template at most once, and only after the file system
  was rolled back. Either the restore ends before it has begun on the registry, which is
  unchanged, or it has begun for the union state's template, and: over all the calls made on the
  registry until it returns, by its own thread and by the handlers in its windows, and any later
  calls that begin no other restore on the template, the polls of the template together
  are answered \<open>restore\<close> at most once, with the generation after the union state's; and whenever one of
  them is answered so, the rollback of the union state's branch to its commit had succeeded and the
  calls of the window before the rollback were over. A restore that succeeds has made exactly
  the calls of the windows, the publication, and the retirement of the prior group.
\<close>

theorem restore_handed_once:
  assumes run: "restore_runtime pc others hex (d, sv) = Some (res, d', sv')" and bw: "by_handlers others"
  shows "sv' = sv \<and> \<not> rr_ok res \<or> (\<exists>ident us s d0 sv1 cs. hex_to_hash_strict hex = Some ident \<and>
     read_union_runtime_state ident (d_store d) = (Inr us, s) \<and> only_io (d_store d) (d_store d0) \<and> d0 = d\<lparr>d_store := d_store d0\<rparr> \<and>
     begin_restore pc (intent_of us) sv = (Inr (), sv1) \<and> sv' = sv_run pc cs sv1 \<and>
     (\<forall>later. (\<forall>ri. CBeginRestore ri \<in> set later \<longrightarrow> ri_template_id ri \<noteq> us_template_id us) \<longrightarrow>
        restores pc (us_template_id us) (cs @ later) sv1 \<in> {[], [us_runtime_generation us + 1]}) \<and>
     (\<forall>n. restores pc (us_template_id us) (take n cs) sv1 \<noteq> [] \<longrightarrow> length (snd (others 0)) < n \<and>
        (\<exists>bid c d2. rollback_branch bid (us_branch us) (us_fs_commit us) (fst (others 0) d0) = Some (Inr c, d2))) \<and>
     (rr_ok res \<longrightarrow> cs = snd (others 0) @ CPublishRestore (us_runtime_id us) # snd (others 1) @ snd (others 3) @
        [CRetire (us_runtime_id us)]))"
proof (rule restore_early [OF run])
  fix ident us s p recovery d0
  let ?bid = "bc_id (ctx d p)"
  assume u: "hex_to_hash_strict hex = Some ident" "read_union_runtime_state ident (d_store d) = (Inr us, s)"
    "roll_and_hand_off pc others us ?bid recovery (d0, sv) = Some (res, d', sv')"
    "only_io (d_store d) (d_store d0)" "d0 = d\<lparr>d_store := d_store d0\<rparr>"
  show ?thesis
  proof (cases "sv' = sv \<and> \<not> rr_ok res")
    case False
  obtain sv1 cs where c: "begin_restore pc (intent_of us) sv = (Inr (), sv1)" "sv' = sv_run pc (snd (others 0) @ cs) sv1"
    "set cs \<subseteq> (\<Union>k. set (snd (others k))) \<union> {CPublishRestore (us_runtime_id us), CAbort (us_runtime_id us), CRetire (us_runtime_id us)}"
    "rr_ok res \<longrightarrow> cs = CPublishRestore (us_runtime_id us) # snd (others 1) @ snd (others 3) @ [CRetire (us_runtime_id us)]"
    "(\<exists>c d2. rollback_branch ?bid (us_branch us) (us_fs_commit us) (fst (others 0) d0) = Some (Inr c, d2)) \<or> cs = [CAbort (us_runtime_id us)]"
    using roll_calls [OF u(3)] False by blast
  let ?tid = "us_template_id us" and ?o = "snd (others 0)"
  have h: "handler_call c" if "c \<in> set (snd (others k))" for c k by (rule by_handlersD [OF bw that])
  have nb: "CBeginRestore ri \<notin> set (?o @ cs)" for ri using c(3) h by fastforce
  have np: "CPublishRestore rid \<notin> set ?o" for rid using h by fastforce
  have once: "restores pc ?tid (?o @ cs @ later) sv1 \<in> {[], [us_runtime_generation us + 1]}"
    if "\<forall>ri. CBeginRestore ri \<in> set later \<longrightarrow> ri_template_id ri \<noteq> ?tid" for later
    using restore_handed_once_facts(1) [OF c(1), of "?o @ cs @ later"] that nb by (auto simp: intent_of_def)
  have none: "restores pc ?tid xs sv1 = []" if "set xs \<subseteq> set (?o @ cs)" "CPublishRestore (us_runtime_id us) \<notin> set xs" for xs
    using restore_handed_once_facts(2) [OF c(1), of xs] that nb by (auto simp: intent_of_def)
  have late: "length ?o < n \<and> (\<exists>bid c d2. rollback_branch bid (us_branch us) (us_fs_commit us) (fst (others 0) d0) = Some (Inr c, d2))"
    if "restores pc ?tid (take n (?o @ cs)) sv1 \<noteq> []" for n
  proof -
    have p: "CPublishRestore (us_runtime_id us) \<in> set (take n (?o @ cs))"
      using none [of "take n (?o @ cs)"] that set_take_subset [of n "?o @ cs"] by blast
    have "length ?o < n" using p np by (cases "length ?o < n") (auto dest: in_set_takeD)
    moreover have "cs \<noteq> [CAbort (us_runtime_id us)]" using p np by (auto dest: in_set_takeD)
    ultimately show ?thesis using c(5) by blast
  qed
  show ?thesis
    by (rule disjI2, rule exI [of _ ident], rule exI [of _ us], rule exI [of _ s], rule exI [of _ d0], rule exI [of _ sv1],
        rule exI [of _ "?o @ cs"], intro conjI allI impI u(1,2,4,5) c(1,2)) (use once late c(4) in auto)
  qed simp
qed (use run in simp_all)

lemma rest_polls:
  "restores willing ''tmpl-0000000000000001'' [CPublishRestore ''r'', CPoll ''tmpl-0000000000000001'' ''k'',
     CGenerationReady ''r'' ''k'' 30 30 2, CRetire ''r''] (rest_begun u c) \<noteq> []"
  by code_simp

theorem restore_handed_once_witness:
  "\<exists>hex e u res e' sve' cs. restore_runtime willing restore_windows hex (e, snap_end u 100) = Some (res, e', sve') \<and> rr_ok res \<and>
     sve' = sv_run willing cs (rest_begun u 100) \<and> restores willing ''tmpl-0000000000000001'' cs (rest_begun u 100) = [2] \<and>
     (\<exists>bid c d2. rollback_branch bid ''main'' 100 e = Some (Inr c, d2))"
proof (rule sample_restore_point)
  fix res h d' e e1
  assume e: "branch_by_name ''main'' e = Some 0" "s_io (d_store e) = []" "ref_of (d_refs e) ''main'' = Some 100"
    and ru: "read_union_runtime_state h (d_store e) = (Inr (snap_union\<lparr>us_union_state_id := hash_to_hex h\<rparr>), d_store e)"
    and e1: "rollback_branch (bc_id (ctx e 0)) ''main'' 100 e = Some (Inr 100, e1)"
  let ?u = "hash_to_hex h" and ?us = "snap_union\<lparr>us_union_state_id := hash_to_hex h\<rparr>" and ?t = "''tmpl-0000000000000001''"
  let ?cs = "[CPublishRestore ''r'', CPoll ''tmpl-0000000000000001'' ''k'', CGenerationReady ''r'' ''k'' 30 30 2, CRetire ''r'']"
  obtain x e' where x: "restore_runtime willing restore_windows ?u (e, snap_end ?u 100) =
      Some (x, e', snd (retire_pending_generation willing ''r'' (rest_ready ?u 100)))" "rr_ok x"
    using sample_restore_run(2) [OF ru e(2,1,3) e1 _ _ refl, of ?u 100] by (auto simp: restore_windows_def)
  have it: "intent_of ?us = sample_restore" by (simp only: intent_of_def snap_union_fields)
  have us: "us = ?us" if "hex_to_hash_strict ?u = Some ident" "read_union_runtime_state ident (d_store e) = (Inr us, s)" for ident us s
    using that ru by (simp add: hex_to_hash_strict_to_hex)
  from restore_handed_once [OF x(1) snap_windows_simps(4)] x(2) obtain ident us s d0 sv1 cs where
    c: "hex_to_hash_strict ?u = Some ident" "read_union_runtime_state ident (d_store e) = (Inr us, s)"
      "only_io (d_store e) (d_store d0)" "d0 = e\<lparr>d_store := d_store d0\<rparr>"
      "begin_restore willing (intent_of us) (snap_end ?u 100) = (Inr (), sv1)"
      "snd (retire_pending_generation willing ''r'' (rest_ready ?u 100)) = sv_run willing cs sv1"
      "restores willing (us_template_id us) (cs @ []) sv1 \<in> {[], [us_runtime_generation us + 1]}"
      "restores willing (us_template_id us) (take (length cs) cs) sv1 \<noteq> [] \<Longrightarrow>
         \<exists>bid c d2. rollback_branch bid (us_branch us) (us_fs_commit us) (fst (restore_windows 0) d0) = Some (Inr c, d2)"
      "cs = snd (restore_windows 0) @ CPublishRestore (us_runtime_id us) # snd (restore_windows 1) @ snd (restore_windows 3) @
        [CRetire (us_runtime_id us)]"
    by (elim disjE exE conjE) (simp, metis empty_iff list.set(1))
  have u: "us = ?us" by (rule us [OF c(1,2)])
  have sv1: "sv1 = rest_begun ?u 100" using c(5) rest_registry(2) [of ?u 100] by (simp add: u it)
  have cs: "cs = ?cs" using c(9) by (simp add: u snap_union_fields restore_windows_def)
  have d0: "d0 = e" using c(3,4) e(2) only_io_empty by (metis daemon.surjective daemon.update_convs(1))
  have r: "restores willing ?t ?cs (rest_begun ?u 100) \<noteq> []" by (rule rest_polls)
  have "restores willing ?t ?cs (rest_begun ?u 100) = [2]"
    using c(7) r by (simp only: u snap_union_fields cs sv1 append_Nil2) blast
  moreover have "\<exists>bid c d2. rollback_branch bid ''main'' 100 e = Some (Inr c, d2)"
    using c(8) r unfolding take_all [OF order.refl] u snap_union_fields d0 snap_windows_simps id_apply unfolding cs sv1 by blast
  ultimately show ?thesis using x c(6) unfolding cs sv1 by blast
qed

end
