(* ===== verification/Spec2Isabelle.thy ===== *)
theory Spec2Isabelle
  imports CgroupWatch DaemonMerge RuntimeRuns
begin

text \<open>
  ContextFS keeps the file trees of agents as branches of commits in a content-addressed store.
  A daemon serves them through a file system: writes go to a per-handle buffer and to the
  branch's working tree, a checkpoint turns the working tree into tree and commit objects and
  moves the branch's ref, a rollback rebuilds a working tree from a commit, a merge joins two
  branches, agents append state records, and a collector removes unreachable objects. A router
  decides by control group which branch a process sees, and a supervisor snapshots and
  restores cooperative runtimes together with their branch. This development models these parts after
  \<open>src/src/cas\<close>, one group of theories per part.

  Theories and sources.

  \<^item> \<open>Prelude\<close>: bytes, little-endian integers, key-sorted maps for \<open>std::map\<close>, bounded reads.
    \<open>Explore\<close>: reachability and the invariant of worklist loops.
  \<^item> \<open>HashHex\<close>: \<open>hash.h\<close>; a hash is a \<open>256 word\<close>. \<open>Commit\<close>: \<open>commit.h\<close> and \<open>commit.cpp\<close>.
  \<^item> \<open>ObjectStore\<close>: \<open>object_store.h\<close> and \<open>object_store.cpp\<close>. The record \<open>store\<close> holds what the class
    keeps and what its directories hold: objects with their bytes, times and what a crash
    would leave of them, the pending set, the size cache. Every system call takes its outcome
    from the script \<open>s_io\<close>, so theorems over all scripts cover every pattern of failures.
  \<^item> \<open>WriteBuffer\<close>: \<open>write_buffer.cpp\<close>. \<open>WorkingTree\<close>: \<open>working_tree.cpp\<close>. \<open>TreeSerialize\<close>:
    \<open>tree_serialize.cpp\<close>. \<open>Refs\<close>: \<open>refs.cpp\<close>, \<open>branch_name.cpp\<close> and \<open>inode_map.cpp\<close>.
  \<^item> \<open>Checkpoint\<close>: \<open>checkpoint.cpp\<close>; the record \<open>repo\<close> joins the store, the refs and the working tree.
  \<^item> \<open>BranchMerge\<close> and \<open>MergeBase\<close>: \<open>branch_merge.cpp\<close>, the three-way merge and the commit graph.
  \<^item> \<open>RecordText\<close>, \<open>AgentState\<close> and \<open>RuntimeState\<close>: the record documents of \<open>agent_state.cpp\<close> and
    \<open>runtime_state.cpp\<close>. \<open>AgentStateService\<close>: \<open>agent_state_service.cpp\<close>.
  \<^item> \<open>Gc\<close>: the definitions of \<open>gc.cpp\<close>; \<open>GcMark\<close>, \<open>GcRun\<close> and \<open>GcSweep\<close>: its mark phase, its roots and
    its sweep.
  \<^item> \<open>Daemon\<close>: \<open>daemon.cpp\<close>, \<open>daemon.h\<close> and \<open>branch_context.h\<close>: the record \<open>daemon\<close> holds the branch
    tables, the table of open files and the store. \<open>DaemonBranches\<close>: its invariant and the effect
    of its operations; \<open>DaemonRun\<close>: its steps and what flushing and loading do; \<open>DaemonProps\<close>
    (checkpoint, crash and restart), \<open>DaemonMerge\<close> (merge) and \<open>DaemonOps\<close> (reachable states, create,
    delete, collect): what it promises.
  \<^item> \<open>BranchRouter\<close>: \<open>branch_router.cpp\<close> and the counter of \<open>routing_fence.bpf.c\<close>; a request is also
    split into its lock sections and reads of the kernel. \<open>RouterWalk\<close>: the ancestor walk;
    \<open>RouterSystem\<close>: the steps of threads, processes and control groups; \<open>RouterInv\<close> and
    \<open>RouterProps\<close>: the invariant and that each step keeps it; \<open>RouterOps\<close>: strict routing, and runs.
    \<open>CgroupWatch\<close>: \<open>cgroup_watch.cpp\<close> and the session commands of \<open>control_protocol.cpp\<close> that use it.
  \<^item> \<open>RuntimeSupervisor\<close>: \<open>runtime_supervisor.cpp\<close>, the registry of runtimes, boundaries and templates;
    \<open>SupervisorProps\<close>: its calls and invariant; \<open>SupervisorRuns\<close>: what holds over any calls.
    \<open>RuntimeDaemon\<close>: \<open>snapshot_runtime\<close> and \<open>restore_runtime\<close> of \<open>daemon.cpp\<close>, with windows in which
    the handlers of other requests act; \<open>RuntimeSnapshot\<close>, \<open>RuntimeRestore\<close>, \<open>RuntimeRoundtrip\<close> and
    \<open>RuntimeRuns\<close>: what they promise.

  What the lemmas show. The object store is append-only up to collection, addresses by
  content, and reports every failure (\<open>write_object_safe\<close>, \<open>blob_roundtrip\<close>,
  \<open>fsync_pending_durable\<close>, \<open>remove_object_fenced\<close>). A write buffer refines a byte string under
  \<open>pwrite\<close> and \<open>ftruncate\<close>, but for the base's bytes that show again behind a truncation; a working
  tree refines a partial map of paths. Serialized trees, commits, records and runtime states
  read back as written. A checkpoint either moves its ref to the commit it made, which can be
  rolled back to, or changes no ref; a crash loses of it at most what had been left behind
  unsynced before. A merge checkpoints both branches, takes every one-sided change and reports
  exactly the conflicts, over a best common ancestor. The collector removes no live object and,
  without faults, all others, and fails closed. The tables of the daemon are consistent in every
  reachable state. Routing never shows a cache. A restore is handed out once and after the roll
  back, a snapshot always ends, and both together give the branch back. All loops are shown to end.

  Where the program does something else than it means to, a theorem shows the behaviour:
  \<open>commit_decode_overread\<close>, \<open>wb_truncate_exposes_base\<close>, \<open>checkpoint_drops_pending\<close>,
  \<open>checkpoint_survives_crash\<close> (what was left behind is lost), \<open>append_loses_parent\<close>, \<open>flush_loses_base\<close>,
  \<open>checkpoint_saves_writes\<close> (one of two dirty handles on a file is lost), \<open>initialize_replaces_main\<close>,
  \<open>failed_delete_blocks_gc\<close>, \<open>walk_exact\<close> (a registered root is not found),
  \<open>exit_during_request_misroutes\<close>, \<open>stale_registration_blocks_delete\<close>,
  \<open>early_unregister_keeps_registration\<close>, \<open>late_generation_strands_prior\<close>,
  \<open>stale_generation_accepted\<close>, \<open>failed_checkpoint_blocks_snapshots\<close>.

  Interfaces. \<open>store_op\<close> is the contract of an operation on the store, interpreted for writing,
  reading, the barriers and serialization; \<open>mark_loop\<close> is the contract of the collector's loops
  over roots; \<open>object_visit\<close> and \<open>object_sweep\<close> are the contract of a walk over all objects.

  Fuel and bounds. The label search takes the 100,000 steps of the source; \<open>restore_session\<close> the
  given depth. The loops over commits and trees are partial functions that are proved to
  return. The two recursions of the mark phase get \<open>gc_fuel\<close>, twice the number of objects plus
  one: each level of a recursion reads an object of the store it has not seen before.

  Choices. BLAKE3, vendored code, is the parameter \<open>H\<close>; hypotheses on it are about the finitely
  many bodies in question. \<open>std::sort\<close> is taken as stable, \<open>unordered\<close> containers in key order.
  The random part of a \<open>mkstemp\<close> name and elapsed times are arguments. A decoder that reads out of
  its buffer is an outcome of its own; its callers treat it as failure. Capacity reservations
  and messages to stderr are left out, and the builds for Windows are not modelled.

  The operations of the daemon that publish run one at a time under its publication lock, so each
  is a function; what the adapters do in between is a step of its own. Simplifications to keep in
  mind when reading the theorems:

  \<^item> \<open>tree_ok\<close>: every raw entry of a tree, whiteouts included, lies below live directories. A tree in
    which a committed directory was removed together with its files keeps whiteouts that do
    not, so the theorems on saving and loading trees leave such trees out.
  \<^item> \<open>left_behind\<close>: an object that is neither durable nor pending. A checkpoint takes the pending set of
    the whole store and syncs its own part of it, so such objects exist in reachable stores.
  \<^item> \<open>needed\<close>: with a non-empty script of failures only the head of a branch counts as a data root, not the
    rest of its keep-last window, since one failing read shortens the window.
  \<^item> A collection is one step with respect to the file system's own changes, although the source
    releases its locks before it marks and sweeps.
  \<^item> \<open>create_step\<close> of the daemon excludes the wrap of the branch counter at \<open>2 ^ 32 - 1\<close>.
  \<^item> The renames of \<open>write_ref\<close> and \<open>publish_latest_ref\<close> replace whatever has the target's name: that
    it could be a directory is left out.
  \<^item> Of the router: its counters do not wrap, leaf revalidation is fixed at the start
    although the session commands can change it, an inode is not used again, and without \<open>busy\<close> a process does
    not exit while a request of its own is open. \<open>session_register\<close> reads one state of the kernel for
    the watch and for the registration.
  \<^item> Of the registry: the counters of its ids do not wrap within a run; what other threads do while a
    request waits is the argument \<open>others\<close>, and in the theorems on the daemon's requests these are
    calls of handlers (\<open>by_handlers\<close>).

  Not modelled so far, in this order of plan: the rest of the control protocol, telemetry, bootstrap and the
  command lines. Left aside: process creation and signals of the runtimes, the adapters of the file
  system interfaces, the tracing backends and the loading of the BPF programs, which are
  glue to code outside the repository.
\<close>

end
